(* ===== verification/Prelude.thy ===== *)
theory Prelude
  imports Main "HOL-Library.Word"
begin

unbundle bit_operations_syntax

text \<open>
  Shared vocabulary of the development: machine integers, bytes, memory copies and the
  generic facts the component theories rely on.

  \<^item> \<^bold>\<open>Sizes and addresses\<close> (\<^verbatim>\<open>size_t\<close>, \<^verbatim>\<open>uint64_t\<close>, \<^verbatim>\<open>uintptr_t\<close>) are naturals below
    \<open>2 ^ 64\<close>; the sums, differences and products that the C code performs modulo \<open>2 ^ 64\<close>
    are written with \<open>add64\<close>, \<open>sub64\<close> and \<open>mul64\<close>, which wrap around.
  \<^item> \<^bold>\<open>Bytes\<close> are 8-bit words; buffers are lists of bytes.
  \<^item> \<^bold>\<open>Outcomes\<close>: whether the \<open>n\<close>-th request to an allocator or a device succeeds is an
    argument of the definitions that issue the request, so every theorem holds for every
    pattern of failures.
\<close>

named_theorems u64_simps \<open>unsigned 64-bit arithmetic that does not wrap\<close>
named_theorems buf_simps \<open>lengths and reads of byte buffers\<close>

type_synonym byte = "8 word"
type_synonym u64w = "64 word"
type_synonym outcomes = "nat \<Rightarrow> bool"

section \<open>Unsigned 64-bit arithmetic on naturals\<close>

definition W64 :: nat where
  "W64 = 2 ^ 64"

definition add64 :: "nat \<Rightarrow> nat \<Rightarrow> nat" where
  "add64 a b = (a + b) mod W64"

definition sub64 :: "nat \<Rightarrow> nat \<Rightarrow> nat" where
  "sub64 a b = (a + W64 - b) mod W64"

definition mul64 :: "nat \<Rightarrow> nat \<Rightarrow> nat" where
  "mul64 a b = (a * b) mod W64"

lemma W64_gt_0 [simp]: "0 < W64"
  by (simp add: W64_def)

lemma add64_lt [simp]: "add64 a b < W64"
  by (simp add: add64_def)

lemma sub64_lt [simp]: "sub64 a b < W64"
  by (simp add: sub64_def)

lemma mul64_lt [simp]: "mul64 a b < W64"
  by (simp add: mul64_def)

lemma add64_nowrap [u64_simps]: "a + b < W64 \<Longrightarrow> add64 a b = a + b"
  by (simp add: add64_def)

lemma sub64_nowrap [u64_simps]: "b \<le> a \<Longrightarrow> a < W64 \<Longrightarrow> sub64 a b = a - b"
proof -
  assume "b \<le> a" "a < W64"
  then have "a + W64 - b = (a - b) + W64" and "a - b < W64" by simp_all
  then show "sub64 a b = a - b"
    unfolding sub64_def by (simp only: mod_add_self2 mod_less)
qed

lemma mul64_nowrap [u64_simps]: "a * b < W64 \<Longrightarrow> mul64 a b = a * b"
  by (simp add: mul64_def)

lemma add64_Suc_0 [u64_simps]: "Suc a < W64 \<Longrightarrow> add64 a (Suc 0) = Suc a"
  by (simp add: add64_def)

lemma sub64_wrap: "a < b \<Longrightarrow> b < W64 \<Longrightarrow> sub64 a b = a + W64 - b"
  by (simp add: sub64_def)

lemma add64_wrap: "a < W64 \<Longrightarrow> b < W64 \<Longrightarrow> W64 \<le> a + b \<Longrightarrow> add64 a b = a + b - W64"
  by (simp add: add64_def mod_if)

section \<open>Power-of-two masks\<close>

lemma and_pow2_minus_1: "(x::nat) AND (2 ^ k - 1) = x mod 2 ^ k"
  using take_bit_eq_mask [of k x] by (simp add: take_bit_eq_mod mask_eq_exp_minus_1)

section \<open>Buffers\<close>

text \<open>\<open>memcpy_at off src dst\<close> is \<^verbatim>\<open>memcpy(dst + off, src, len)\<close> for a source of \<open>len\<close> elements.\<close>

definition memcpy_at :: "nat \<Rightarrow> 'a list \<Rightarrow> 'a list \<Rightarrow> 'a list" where
  "memcpy_at off src dst = take off dst @ src @ drop (off + length src) dst"

lemma length_memcpy_at [buf_simps, simp]:
  "off + length src \<le> length dst \<Longrightarrow> length (memcpy_at off src dst) = length dst"
  by (simp add: memcpy_at_def)

lemma nth_memcpy_at:
  assumes "off + length src \<le> length dst" "i < length dst"
  shows "memcpy_at off src dst ! i =
    (if off \<le> i \<and> i < off + length src then src ! (i - off) else dst ! i)"
proof -
  have "min (length dst) off = off" using assms(1) by simp
  then show ?thesis
    using assms by (auto simp: memcpy_at_def nth_append not_less)
qed

lemma memcpy_at_read [buf_simps]:
  assumes "off + length src \<le> length dst"
  shows "take (length src) (drop off (memcpy_at off src dst)) = src"
  using assms by (simp add: memcpy_at_def min_def)

section \<open>Options as error results\<close>

lemma case_option_eq_Some:
  "(case x of None \<Rightarrow> None | Some a \<Rightarrow> f a) = Some b \<longleftrightarrow> (\<exists>a. x = Some a \<and> f a = Some b)"
  by (cases x) auto

section \<open>Little-endian integers\<close>

text \<open>The bytes of a packed integer field, lowest first.\<close>

primrec le_bytes :: "nat \<Rightarrow> nat \<Rightarrow> byte list" where
  "le_bytes 0 x = []"
| "le_bytes (Suc n) x = of_nat (x mod 256) # le_bytes n (x div 256)"

primrec of_le :: "byte list \<Rightarrow> nat" where
  "of_le [] = 0"
| "of_le (b # bs) = unat b + 256 * of_le bs"

lemma length_le_bytes [simp]: "length (le_bytes n x) = n"
  by (induction n arbitrary: x) auto

lemma of_le_le_bytes [simp]: "of_le (le_bytes n x) = x mod 256 ^ n"
proof (induction n arbitrary: x)
  case 0
  then show ?case by simp
next
  case (Suc n)
  have "unat (of_nat (x mod 256) :: byte) = x mod 256"
    by (simp add: unat_of_nat)
  then show ?case
    using Suc mod_mult2_eq [of x 256 "256 ^ n"] by (simp add: add.commute)
qed

lemma of_le_less: "of_le bs < 256 ^ length bs"
proof (induction bs)
  case Nil
  then show ?case by simp
next
  case (Cons b bs)
  have "unat b < 256" using unsigned_less [of b] by simp
  then show ?case using Cons by simp
qed

lemma le_bytes_of_le [simp]: "le_bytes (length bs) (of_le bs) = bs"
proof (induction bs)
  case Nil
  then show ?case by simp
next
  case (Cons b bs)
  have b: "unat b < 256" using unsigned_less [of b] by simp
  then have "(unat b + 256 * of_le bs) mod 256 = unat b" "(unat b + 256 * of_le bs) div 256 = of_le bs"
    by simp_all
  then show ?case using Cons by simp
qed

lemma le_bytes_inj: "x < 256 ^ n \<Longrightarrow> y < 256 ^ n \<Longrightarrow> le_bytes n x = le_bytes n y \<Longrightarrow> x = y"
  by (metis mod_less of_le_le_bytes)

end
