(* ===== verification/Vector.thy ===== *)
theory Vector
  imports Prelude
begin

text \<open>
  The growable array of \<^verbatim>\<open>src/containers/vector.c\<close>: a block of machine words, the number of
  words in use and the number of words the block can hold.

  The kernel heap is the argument \<open>km\<close>: \<open>km n\<close> is \<^verbatim>\<open>kmalloc(n)\<close>, the (arbitrary) contents of a
  fresh block of \<open>n\<close> bytes as words, or \<open>None\<close> when the heap is exhausted.  What the code relies
  on is \<open>heap_ok km\<close>: a block of the size asked for, inside the 48-bit address space.
  An access outside the block, undefined in C, is the result \<open>None\<close>.
\<close>

section \<open>The model\<close>

record vector =
  v_data :: "nat list option"
  v_count :: nat
  v_capacity :: nat

type_synonym heap = "nat \<Rightarrow> nat list option"

definition heap_ok :: "heap \<Rightarrow> bool" where
  "heap_ok km \<longleftrightarrow> (\<forall>n blk. km n = Some blk \<longrightarrow> length blk = n div 8 \<and> n < 2 ^ 48)"

text \<open>\<^verbatim>\<open>krealloc\<close> copies \<^verbatim>\<open>new_size\<close> bytes from the old block whatever its size was: what lies past
  its end is unspecified, here the contents of the fresh block.\<close>

definition krealloc :: "heap \<Rightarrow> nat list \<Rightarrow> nat \<Rightarrow> nat list option" where
  "krealloc km old n = (case km n of None \<Rightarrow> None
     | Some blk \<Rightarrow> Some (take (length blk) (old @ drop (length old) blk)))"

definition vector_init :: "heap \<Rightarrow> nat \<Rightarrow> int \<times> vector" where
  "vector_init km initial_capacity =
     (let v = \<lparr>v_data = None, v_count = 0, v_capacity = 0\<rparr> in
      if initial_capacity > 0 then
        (case km (mul64 initial_capacity 8) of
           None \<Rightarrow> (-1, v)
         | Some p \<Rightarrow> (0, v\<lparr>v_data := Some p, v_capacity := initial_capacity\<rparr>))
      else (0, v))"

definition vector_free :: "vector \<Rightarrow> vector" where
  "vector_free v = v\<lparr>v_data := None, v_count := 0, v_capacity := 0\<rparr>"

definition vector_clear :: "vector \<Rightarrow> vector" where
  "vector_clear v = v\<lparr>v_count := 0\<rparr>"

definition vector_grow_formula :: "nat \<Rightarrow> nat" where
  "vector_grow_formula old_cap =
     (let bump = old_cap div 2;
          next1 = add64 old_cap bump;
          next2 = (if next1 < 8 then 8 else next1)
      in if next2 < old_cap then (W64 - 1) div 8 else next2)"

function vector_grow_to :: "nat \<Rightarrow> nat \<Rightarrow> nat" where
  "vector_grow_to new_cap want_cap =
     (if new_cap < want_cap then
        (let nxt = vector_grow_formula new_cap in
         if nxt \<le> new_cap then want_cap else vector_grow_to nxt want_cap)
      else new_cap)"
  by pat_completeness auto
termination
  by (relation "measure (\<lambda>(new_cap, want_cap). want_cap - new_cap)") auto

declare vector_grow_to.simps [simp del]

definition vector_reserve :: "heap \<Rightarrow> vector \<Rightarrow> nat \<Rightarrow> int \<times> vector" where
  "vector_reserve km v want_cap =
     (if want_cap \<le> v_capacity v then (0, v)
      else
        let new_cap = vector_grow_to (if v_capacity v = 0 then 8 else v_capacity v) want_cap;
            p = (case v_data v of
                   None \<Rightarrow> km (mul64 new_cap 8)
                 | Some d \<Rightarrow> krealloc km d (mul64 new_cap 8))
        in case p of
             None \<Rightarrow> (-1, v)
           | Some d \<Rightarrow> (0, v\<lparr>v_data := Some d, v_capacity := new_cap\<rparr>))"

definition vector_size :: "vector \<Rightarrow> nat" where
  "vector_size v = v_count v"

definition vector_get :: "vector \<Rightarrow> nat \<Rightarrow> nat option" where
  "vector_get v i = (case v_data v of None \<Rightarrow> None
     | Some d \<Rightarrow> if i < length d then Some (d ! i) else None)"

definition vector_set :: "vector \<Rightarrow> nat \<Rightarrow> nat \<Rightarrow> vector option" where
  "vector_set v i value = (case v_data v of None \<Rightarrow> None
     | Some d \<Rightarrow> if i < length d then Some (v\<lparr>v_data := Some (d[i := value])\<rparr>) else None)"

definition vector_push :: "heap \<Rightarrow> vector \<Rightarrow> nat \<Rightarrow> (int \<times> vector) option" where
  "vector_push km v value =
     (let (rc, v1) = (if v_count v = v_capacity v then vector_reserve km v (add64 (v_count v) 1)
                      else (0, v))
      in if rc \<noteq> 0 then Some (-1, v1)
         else case vector_set v1 (v_count v1) value of
                None \<Rightarrow> None
              | Some v2 \<Rightarrow> Some (0, v2\<lparr>v_count := add64 (v_count v2) 1\<rparr>))"

definition vector_pop :: "vector \<Rightarrow> (nat \<times> vector) option" where
  "vector_pop v =
     (let v1 = v\<lparr>v_count := sub64 (v_count v) 1\<rparr>
      in case vector_get v1 (v_count v1) of None \<Rightarrow> None | Some x \<Rightarrow> Some (x, v1))"

text \<open>\<^verbatim>\<open>memmove\<close> of \<open>n\<close> words from index \<open>src\<close> to index \<open>dst\<close> of the same block.\<close>

definition memmove_words :: "nat list \<Rightarrow> nat \<Rightarrow> nat \<Rightarrow> nat \<Rightarrow> nat list option" where
  "memmove_words d dst src n =
     (if dst + n \<le> length d \<and> src + n \<le> length d
      then Some (memcpy_at dst (take n (drop src d)) d) else None)"

definition vector_insert_shift :: "heap \<Rightarrow> vector \<Rightarrow> nat \<Rightarrow> nat \<Rightarrow> (int \<times> vector) option" where
  "vector_insert_shift km v i value =
     (if i > v_count v then Some (-1, v)
      else
        let (rc, v1) = (if v_count v = v_capacity v then vector_reserve km v (add64 (v_count v) 1)
                        else (0, v))
        in if rc \<noteq> 0 then Some (-1, v1)
           else case v_data v1 of None \<Rightarrow> None
           | Some d \<Rightarrow>
               (let tail = sub64 (v_count v1) i in
                case (if tail > 0 then memmove_words d (i + 1) i tail else Some d) of
                  None \<Rightarrow> None
                | Some d1 \<Rightarrow>
                    (case vector_set (v1\<lparr>v_data := Some d1\<rparr>) i value of
                       None \<Rightarrow> None
                     | Some v2 \<Rightarrow> Some (0, v2\<lparr>v_count := add64 (v_count v2) 1\<rparr>))))"

definition vector_erase_shift :: "vector \<Rightarrow> nat \<Rightarrow> (int \<times> vector) option" where
  "vector_erase_shift v i =
     (if i \<ge> v_count v then Some (-1, v)
      else case v_data v of None \<Rightarrow> None
      | Some d \<Rightarrow>
          (let tail = sub64 (sub64 (v_count v) i) 1 in
           case (if tail > 0 then memmove_words d i (i + 1) tail else Some d) of
             None \<Rightarrow> None
           | Some d1 \<Rightarrow> Some (0, v\<lparr>v_data := Some d1, v_count := sub64 (v_count v) 1\<rparr>)))"

definition vector_erase_swap :: "vector \<Rightarrow> nat \<Rightarrow> (int \<times> vector) option" where
  "vector_erase_swap v i =
     (if i \<ge> v_count v then Some (-1, v)
      else
        let lst = sub64 (v_count v) 1 in
        case vector_get v lst of None \<Rightarrow> None
        | Some x \<Rightarrow>
            (case vector_set v i x of None \<Rightarrow> None
             | Some v1 \<Rightarrow> Some (0, v1\<lparr>v_count := lst\<rparr>)))"

definition vector_insert :: "heap \<Rightarrow> vector \<Rightarrow> nat \<Rightarrow> nat \<Rightarrow> (int \<times> vector) option" where
  "vector_insert km v i value = vector_insert_shift km v i value"

definition vector_erase :: "vector \<Rightarrow> nat \<Rightarrow> (int \<times> vector) option" where
  "vector_erase v i = vector_erase_shift v i"

section \<open>Invariant and abstraction\<close>

text \<open>The invariant: the block is exactly as long as the capacity says, the capacity stays far
  below the point where its byte size would wrap, and the count never exceeds it.\<close>

definition vec_ok :: "vector \<Rightarrow> bool" where
  "vec_ok v \<longleftrightarrow> v_count v \<le> v_capacity v \<and> v_capacity v < 2 ^ 45 \<and>
     (case v_data v of None \<Rightarrow> v_capacity v = 0 | Some d \<Rightarrow> length d = v_capacity v)"

definition vec_list :: "vector \<Rightarrow> nat list" where
  "vec_list v = (case v_data v of None \<Rightarrow> [] | Some d \<Rightarrow> take (v_count v) d)"

lemma length_vec_list: "vec_ok v \<Longrightarrow> length (vec_list v) = v_count v"
  by (auto simp: vec_ok_def vec_list_def split: option.splits)

section \<open>Growth\<close>

lemma vector_grow_formula_small:
  assumes "c < 2 ^ 60"
  shows "vector_grow_formula c = max 8 (c + c div 2)"
proof -
  have "c + c div 2 < W64" using assms by (simp add: W64_def)
  then show ?thesis
    by (auto simp: vector_grow_formula_def Let_def add64_nowrap)
qed

lemma vector_grow_to_ge: "want \<le> vector_grow_to c want"
  by (induction c want rule: vector_grow_to.induct)
     (subst vector_grow_to.simps, simp add: Let_def)

lemma vector_grow_to_pos:
  assumes "0 < c" shows "c \<le> vector_grow_to c want"
  using assms
proof (induction c want rule: vector_grow_to.induct)
  case (1 c want)
  then show ?case
    by (subst vector_grow_to.simps) (auto simp: Let_def)
qed

text \<open>One more element than a capacity below \<open>2 ^ 45\<close> costs a single growth step.\<close>

lemma vector_grow_to_Suc:
  assumes "8 \<le> c" "c < 2 ^ 45"
  shows "vector_grow_to c (Suc c) = c + c div 2"
proof -
  have f: "vector_grow_formula c = c + c div 2"
    using assms vector_grow_formula_small [of c] by simp
  have "vector_grow_to (c + c div 2) (Suc c) = c + c div 2"
    using assms by (subst vector_grow_to.simps) auto
  moreover have "c < c + c div 2" using assms by simp
  ultimately show ?thesis
    using f by (subst vector_grow_to.simps) (simp add: Let_def)
qed

text \<open>The growth policy without the machine's bounds: from a capacity, in steps of one half and at least
  to 8, until the request fits.\<close>

function grow_policy :: "nat \<Rightarrow> nat \<Rightarrow> nat" where
  "grow_policy c want = (if want \<le> c then c else grow_policy (max 8 (c + c div 2)) want)"
  by pat_completeness auto
termination
  by (relation "measure (\<lambda>(c, want). want - c)") (auto simp: max_def)

declare grow_policy.simps [simp del]

lemma grow_policy_bounds: "want \<le> grow_policy c want \<and> c \<le> grow_policy c want \<and>
    grow_policy c want \<le> max c (2 * want + 8)"
proof (induction c want rule: grow_policy.induct)
  case (1 c want)
  then show ?case by (subst (1 2 3) grow_policy.simps) (auto simp: max_def split: if_splits)
qed

lemma vector_grow_to_stop: "want \<le> n \<Longrightarrow> vector_grow_to n want = n"
  by (simp add: vector_grow_to.simps)

lemma grow_policy_stop: "want \<le> n \<Longrightarrow> grow_policy n want = n"
  by (simp add: grow_policy.simps)

lemma vector_grow_to_policy:
  assumes "want < 2 ^ 59" "c < 2 ^ 59"
  shows "vector_grow_to c want = grow_policy c want"
  using assms
proof (induction c want rule: grow_policy.induct)
  case (1 c want)
  let ?n = "max 8 (c + c div 2)"
  show ?case
  proof (cases "want \<le> c")
    case True
    then show ?thesis by (simp add: vector_grow_to.simps grow_policy.simps)
  next
    case False
    have f: "vector_grow_formula c = ?n" using vector_grow_formula_small [of c] 1(3) by simp
    have up: "\<not> ?n \<le> c" using False 1(3) by (auto simp: max_def)
    have "vector_grow_to ?n want = grow_policy ?n want"
    proof (cases "?n < 2 ^ 59")
      case True then show ?thesis using 1(1) [OF False 1(2)] by simp
    next
      case big: False
      have "want \<le> ?n" using big 1(2) by linarith
      then show ?thesis by (simp only: vector_grow_to_stop grow_policy_stop)
    qed
    then show ?thesis
      using False up by (subst vector_grow_to.simps, subst grow_policy.simps) (simp add: Let_def f del: max_less_iff_conj max.bounded_iff)
  qed
qed

definition next_cap :: "nat \<Rightarrow> nat \<Rightarrow> nat" where
  "next_cap cap want = grow_policy (if cap = 0 then 8 else cap) want"

text \<open>The capacity after a request for \<open>want\<close> words, \<open>None\<close> when the heap refuses the block.\<close>

definition room :: "heap \<Rightarrow> nat \<Rightarrow> nat \<Rightarrow> nat option" where
  "room km cap want =
     (if want \<le> cap then Some cap
      else if km (8 * next_cap cap want) = None then None else Some (next_cap cap want))"

section \<open>Every operation keeps the invariant\<close>

lemma krealloc_props:
  assumes "krealloc km old n = Some d" "heap_ok km" "length old \<le> n div 8"
  shows "length d = n div 8 \<and> take (length old) d = old \<and> n < 2 ^ 48"
  using assms by (auto simp: krealloc_def heap_ok_def split: option.splits)

lemma mul64_bytes_bound:
  assumes "c < 2 ^ 46" "mul64 c 8 < 2 ^ 48"
  shows "mul64 c 8 div 8 = c \<and> c < 2 ^ 45"
proof -
  have "mul64 c 8 = c * 8" using assms(1) by (simp add: mul64_nowrap W64_def)
  with assms(2) show ?thesis by simp
qed

lemma vec_ok_count_small: "vec_ok v \<Longrightarrow> v_count v < 2 ^ 45"
  by (simp add: vec_ok_def)

lemma vec_ok_Suc_count: "vec_ok v \<Longrightarrow> Suc (v_count v) < W64"
  using vec_ok_count_small [of v] by (simp add: W64_def)

lemma vec_ok_add64 [u64_simps]: "vec_ok v \<Longrightarrow> add64 (v_count v) (Suc 0) = Suc (v_count v)"
  by (simp add: vec_ok_Suc_count add64_Suc_0)

lemma vec_ok_sub64 [u64_simps]: "vec_ok v \<Longrightarrow> k \<le> v_count v \<Longrightarrow> sub64 (v_count v) k = v_count v - k"
  using vec_ok_count_small [of v] by (simp add: sub64_nowrap W64_def)

text \<open>Reserving: the capacity of the policy, or the vector as it was.\<close>

lemma vector_reserve_exact:
  assumes "heap_ok km" "vec_ok v" "want < 2 ^ 58"
  shows "case room km (v_capacity v) want of
      None \<Rightarrow> vector_reserve km v want = (-1, v)
    | Some c \<Rightarrow> \<exists>v'. vector_reserve km v want = (0, v') \<and> vec_ok v' \<and> v_count v' = v_count v \<and>
        v_capacity v' = c \<and> want \<le> c \<and> vec_list v' = vec_list v"
proof (cases "want \<le> v_capacity v")
  case True
  then show ?thesis using assms(2) by (simp add: vector_reserve_def room_def)
next
  case False
  let ?from = "if v_capacity v = 0 then 8 else v_capacity v"
  let ?c = "next_cap (v_capacity v) want"
  have g: "vector_grow_to ?from want = ?c"
    unfolding next_cap_def using assms(2,3) by (intro vector_grow_to_policy) (auto simp: vec_ok_def)
  have c: "want \<le> ?c" "?c < 2 ^ 60" "v_capacity v \<le> ?c"
    using grow_policy_bounds [of want ?from] assms(2,3) False by (auto simp: vec_ok_def next_cap_def)
  have m: "mul64 ?c 8 = 8 * ?c" using c(2) by (simp add: mul64_nowrap W64_def)
  have blk: "length b = ?c \<and> ?c < 2 ^ 45" if "km (8 * ?c) = Some b" for b
    using that assms(1) unfolding heap_ok_def by fastforce
  show ?thesis
  proof (cases "km (8 * ?c)")
    case None
    then have "vector_reserve km v want = (-1, v)"
      using False g m by (auto simp: vector_reserve_def Let_def krealloc_def split: option.splits)
    then show ?thesis using None False by (simp add: room_def)
  next
    case (Some b)
    let ?d = "case v_data v of None \<Rightarrow> b | Some d \<Rightarrow> take (length b) (d @ drop (length d) b)"
    let ?v = "v\<lparr>v_data := Some ?d, v_capacity := ?c\<rparr>"
    have r: "vector_reserve km v want = (0, ?v)"
      using False g m Some by (auto simp: vector_reserve_def Let_def krealloc_def split: option.splits)
    have ld: "length ?d = ?c" using blk [OF Some] by (auto split: option.splits)
    have "take (v_count v) ?d = vec_list v"
      using assms(2) c(3) blk [OF Some]
      by (auto simp: vec_ok_def vec_list_def min_def split: option.splits)
    then have "vec_ok ?v" "vec_list ?v = vec_list v"
      using ld blk [OF Some] c(3) assms(2) by (auto simp: vec_ok_def vec_list_def)
    then show ?thesis using r c(1) Some False by (simp add: room_def)
  qed
qed

text \<open>The growth step shared by \<^verbatim>\<open>vector_push\<close> and \<^verbatim>\<open>vector_insert_shift\<close>.\<close>

lemma ensure_room:
  assumes "heap_ok km" "vec_ok v"
    and "(if v_count v = v_capacity v then vector_reserve km v (add64 (v_count v) 1) else (0, v))
      = (rc, v1)"
  shows "case room km (v_capacity v) (Suc (v_count v)) of
      None \<Rightarrow> rc = -1 \<and> v1 = v
    | Some c \<Rightarrow> rc = 0 \<and> vec_ok v1 \<and> v_count v1 = v_count v \<and> v_count v < v_capacity v1 \<and>
        v_capacity v1 = c \<and> vec_list v1 = vec_list v"
proof (cases "v_count v = v_capacity v")
  case True
  then have r: "vector_reserve km v (Suc (v_count v)) = (rc, v1)"
    using assms(2,3) vec_ok_add64 [OF assms(2)] by simp
  have "Suc (v_count v) < 2 ^ 58" using vec_ok_count_small [OF assms(2)] by simp
  then show ?thesis
    using vector_reserve_exact [OF assms(1,2), of "Suc (v_count v)"] r by (auto split: option.splits)
next
  case False
  then show ?thesis using assms(2,3) by (auto simp: vec_ok_def room_def)
qed

text \<open>A vector with room has a block.\<close>

lemma vec_data_Some:
  assumes "vec_ok v" "v_count v < v_capacity v"
  obtains d where "v_data v = Some d" "length d = v_capacity v"
  using assms by (auto simp: vec_ok_def split: option.splits)

lemma vector_push_exact:
  assumes "heap_ok km" "vec_ok v"
  shows "case room km (v_capacity v) (Suc (v_count v)) of
      None \<Rightarrow> vector_push km v x = Some (-1, v)
    | Some c \<Rightarrow> \<exists>v'. vector_push km v x = Some (0, v') \<and> vec_ok v' \<and> v_capacity v' = c \<and>
        vec_list v' = vec_list v @ [x]"
proof -
  obtain rc v1 where r: "(if v_count v = v_capacity v
      then vector_reserve km v (add64 (v_count v) 1) else (0, v)) = (rc, v1)"
    by (metis surj_pair)
  show ?thesis
  proof (cases "room km (v_capacity v) (Suc (v_count v))")
    case None
    then have "rc = -1" "v1 = v" using ensure_room [OF assms r] by auto
    then show ?thesis using r None by (simp add: vector_push_def)
  next
    case (Some c)
    then have v1: "rc = 0" "vec_ok v1" "v_count v1 = v_count v" "v_count v < v_capacity v1"
      "v_capacity v1 = c" "vec_list v1 = vec_list v"
      using ensure_room [OF assms r] by auto
    then obtain d where d: "v_data v1 = Some d" "length d = v_capacity v1"
      by (metis vec_data_Some)
    then have lst: "take (v_count v) d = vec_list v" using v1 by (simp add: vec_list_def)
    have "vector_push km v x = Some (0, v1\<lparr>v_data := Some (d[v_count v := x]),
        v_count := Suc (v_count v)\<rparr>)"
      using r v1 d vec_ok_add64 [OF v1(2)] by (simp add: vector_push_def vector_set_def)
    then show ?thesis
      using v1 d lst Some by (auto simp: vec_ok_def vec_list_def take_Suc_conv_app_nth)
  qed
qed

lemma vector_push_spec:
  assumes "heap_ok km" "vec_ok v"
  shows "vector_push km v x = Some (-1, v) \<or>
    (\<exists>v'. vector_push km v x = Some (0, v') \<and> vec_ok v' \<and> vec_list v' = vec_list v @ [x])"
  using vector_push_exact [OF assms, of x] by (auto split: option.splits)

lemma vector_pop_spec:
  assumes "vec_ok v" "vec_list v = xs @ [x]"
  shows "\<exists>v'. vector_pop v = Some (x, v') \<and> vec_ok v' \<and> vec_list v' = xs \<and> v_capacity v' = v_capacity v"
proof -
  have n: "v_count v = Suc (length xs)"
    using assms length_vec_list [of v] by simp
  then obtain d where d: "v_data v = Some d" "length d = v_capacity v" "take (v_count v) d = xs @ [x]"
    using assms by (auto simp: vec_ok_def vec_list_def split: option.splits)
  then have len: "length xs < length d" using n assms(1) by (simp add: vec_ok_def)
  have "d ! length xs = x" "take (length xs) d = xs"
    using d(3) len n by (auto simp: take_Suc_conv_app_nth)
  then show ?thesis
    using d n len vec_ok_sub64 [OF assms(1), of 1] assms(1)
    by (simp add: vector_pop_def vector_get_def Let_def) (auto simp: vec_ok_def vec_list_def)
qed

lemma vector_get_spec:
  assumes "vec_ok v" "i < length (vec_list v)"
  shows "vector_get v i = Some (vec_list v ! i)"
  using assms by (auto simp: vec_ok_def vec_list_def vector_get_def split: option.splits)

lemma vector_set_spec:
  assumes "vec_ok v" "i < length (vec_list v)"
  shows "\<exists>v'. vector_set v i x = Some v' \<and> vec_ok v' \<and> vec_list v' = (vec_list v)[i := x] \<and>
    v_capacity v' = v_capacity v"
  using assms
  by (auto simp: vec_ok_def vec_list_def vector_set_def take_update_swap split: option.splits)

lemma vector_insert_shift_spec:
  assumes "heap_ok km" "vec_ok v" "i \<le> length (vec_list v)"
  shows "case room km (v_capacity v) (Suc (v_count v)) of
      None \<Rightarrow> vector_insert_shift km v i x = Some (-1, v)
    | Some c \<Rightarrow> \<exists>v'. vector_insert_shift km v i x = Some (0, v') \<and> vec_ok v' \<and> v_capacity v' = c \<and>
        vec_list v' = take i (vec_list v) @ x # drop i (vec_list v)"
proof -
  have i: "i \<le> v_count v" using assms by (simp add: length_vec_list)
  obtain rc v1 where r: "(if v_count v = v_capacity v
      then vector_reserve km v (add64 (v_count v) 1) else (0, v)) = (rc, v1)"
    by (metis surj_pair)
  show ?thesis
  proof (cases "room km (v_capacity v) (Suc (v_count v))")
    case None
    then have "rc = -1" "v1 = v" using ensure_room [OF assms(1,2) r] by auto
    then show ?thesis using r i None by (simp add: vector_insert_shift_def)
  next
    case (Some c)
    then have True: "rc = 0" and v1: "vec_ok v1" "v_count v1 = v_count v" "v_count v < v_capacity v1"
      "vec_list v1 = vec_list v" "v_capacity v1 = c"
      using ensure_room [OF assms(1,2) r] by auto
    then obtain d where d: "v_data v1 = Some d" "length d = v_capacity v1"
      by (metis vec_data_Some)
    let ?n = "v_count v"
    define d1 where "d1 = (if i < ?n then memcpy_at (Suc i) (take (?n - i) (drop i d)) d else d)"
    have tail: "sub64 ?n i = ?n - i" using vec_ok_sub64 [OF assms(2) i] .
    have ld1: "length d1 = length d" using v1 d i by (auto simp: d1_def)
    have mm: "(if ?n - i > 0 then memmove_words d (i + 1) i (?n - i) else Some d) = Some d1"
      using v1 d i by (auto simp: d1_def memmove_words_def)
    have res: "vector_insert_shift km v i x = Some (0, v1\<lparr>v_data := Some (d1[i := x]),
        v_count := Suc ?n\<rparr>)"
      using r True v1 d i tail mm ld1 vec_ok_add64 [OF v1(1)]
      by (simp add: vector_insert_shift_def vector_set_def Let_def)
    have lst: "take ?n d = vec_list v" using v1 d by (simp add: vec_list_def)
    have "take (Suc ?n) (d1[i := x]) = take i (take ?n d) @ x # drop i (take ?n d)"
      using v1 d i ld1
      by (intro nth_equalityI)
        (auto simp: d1_def nth_memcpy_at nth_append nth_Cons' nth_list_update)
    then have "vec_list (v1\<lparr>v_data := Some (d1[i := x]), v_count := Suc ?n\<rparr>) =
        take i (vec_list v) @ x # drop i (vec_list v)"
      unfolding lst by (simp add: vec_list_def)
    then show ?thesis
      using res v1 d ld1 Some by (auto simp: vec_ok_def)
  qed
qed

lemma vector_erase_shift_spec:
  assumes "vec_ok v" "i < length (vec_list v)"
  shows "\<exists>v'. vector_erase_shift v i = Some (0, v') \<and> vec_ok v' \<and> v_capacity v' = v_capacity v \<and>
    vec_list v' = take i (vec_list v) @ drop (Suc i) (vec_list v)"
proof -
  let ?n = "v_count v"
  have i: "i < ?n" using assms by (simp add: length_vec_list)
  then obtain d where d: "v_data v = Some d" "length d = v_capacity v" "?n \<le> length d"
    using assms by (auto simp: vec_ok_def split: option.splits)
  define d1 where
    "d1 = (if Suc i < ?n then memcpy_at i (take (?n - i - 1) (drop (Suc i) d)) d else d)"
  have s1: "sub64 ?n 1 = ?n - 1" "sub64 ?n i = ?n - i"
    using vec_ok_sub64 [OF assms(1)] i by auto
  have "?n - i < W64" using vec_ok_count_small [OF assms(1)] by (simp add: W64_def)
  then have s2: "sub64 (?n - i) 1 = ?n - i - 1" using i by (simp add: sub64_nowrap)
  have ld1: "length d1 = length d" using d i by (auto simp: d1_def)
  have mm: "(if ?n - i - 1 > 0 then memmove_words d i (i + 1) (?n - i - 1) else Some d) = Some d1"
    using d i by (auto simp: d1_def memmove_words_def)
  have res: "vector_erase_shift v i = Some (0, v\<lparr>v_data := Some d1, v_count := ?n - 1\<rparr>)"
    using d i s1 s2 mm unfolding vector_erase_shift_def Let_def
    by (auto split: if_splits)
  have "take (?n - 1) d1 = take i (take ?n d) @ drop (Suc i) (take ?n d)"
    using d i ld1
    by (intro nth_equalityI) (auto simp: d1_def nth_memcpy_at nth_append nth_list_update)
  then show ?thesis
    using res d ld1 assms(1) by (auto simp: vec_ok_def vec_list_def)
qed

lemma vector_erase_swap_spec:
  assumes "vec_ok v" "i < length (vec_list v)"
  shows "\<exists>v'. vector_erase_swap v i = Some (0, v') \<and> vec_ok v' \<and> v_capacity v' = v_capacity v \<and>
    vec_list v' = butlast ((vec_list v)[i := last (vec_list v)])"
proof -
  let ?n = "v_count v"
  have i: "i < ?n" using assms by (simp add: length_vec_list)
  then obtain d where d: "v_data v = Some d" "length d = v_capacity v" "?n \<le> length d"
    using assms by (auto simp: vec_ok_def split: option.splits)
  have s: "sub64 ?n 1 = ?n - 1" using vec_ok_sub64 [OF assms(1), of 1] i by auto
  have res: "vector_erase_swap v i =
      Some (0, v\<lparr>v_data := Some (d[i := d ! (?n - 1)]), v_count := ?n - 1\<rparr>)"
    using d i s by (simp add: vector_erase_swap_def vector_get_def vector_set_def Let_def)
  have "take ?n d \<noteq> []" using d i by auto
  then have "last (take ?n d) = d ! (?n - 1)" using d i by (simp add: last_conv_nth)
  then have "take (?n - 1) (d[i := d ! (?n - 1)]) = butlast ((take ?n d)[i := last (take ?n d)])"
    using d i by (intro nth_equalityI) (auto simp: nth_butlast nth_list_update)
  then show ?thesis
    using res d assms(1) by (auto simp: vec_ok_def vec_list_def)
qed

section \<open>The contract of a growable sequence\<close>

text \<open>
  What the clients of the vector rely on: \<open>elems\<close> is the sequence a value stands for, \<open>push\<close>
  appends or reports exhaustion and leaves the value as it was, \<open>pop\<close> takes the last element,
  \<open>get\<close> and \<open>set\<close> address elements in range.
\<close>

locale growable_seq =
  fixes inv :: "'v \<Rightarrow> bool"
    and elems :: "'v \<Rightarrow> nat list"
    and push :: "'v \<Rightarrow> nat \<Rightarrow> (int \<times> 'v) option"
    and pop :: "'v \<Rightarrow> (nat \<times> 'v) option"
    and get :: "'v \<Rightarrow> nat \<Rightarrow> nat option"
    and set :: "'v \<Rightarrow> nat \<Rightarrow> nat \<Rightarrow> 'v option"
  assumes push: "inv v \<Longrightarrow> push v x = Some (-1, v) \<or>
      (\<exists>v'. push v x = Some (0, v') \<and> inv v' \<and> elems v' = elems v @ [x])"
    and pop: "inv v \<Longrightarrow> elems v = xs @ [x] \<Longrightarrow>
      \<exists>v'. pop v = Some (x, v') \<and> inv v' \<and> elems v' = xs"
    and get: "inv v \<Longrightarrow> i < length (elems v) \<Longrightarrow> get v i = Some (elems v ! i)"
    and set: "inv v \<Longrightarrow> i < length (elems v) \<Longrightarrow>
      \<exists>v'. set v i x = Some v' \<and> inv v' \<and> elems v' = (elems v)[i := x]"
begin

lemma push_pop:
  assumes "inv v" "push v x = Some (0, v')"
  shows "\<exists>v''. pop v' = Some (x, v'') \<and> inv v'' \<and> elems v'' = elems v"
proof -
  have "inv v'" "elems v' = elems v @ [x]" using push [OF assms(1), of x] assms(2) by auto
  then show ?thesis by (rule pop)
qed

lemma push_defined:
  assumes "inv v"
  shows "\<exists>rc v'. push v x = Some (rc, v') \<and> inv v'"
  using push [OF assms, of x] assms by auto

lemma get_set:
  assumes "inv v" "i < length (elems v)" "j < length (elems v)" "set v i x = Some v'"
  shows "get v' j = Some (if j = i then x else elems v ! j)"
proof -
  have "inv v'" "elems v' = (elems v)[i := x]" using set [OF assms(1,2), of x] assms(4) by auto
  then show ?thesis using get [of v' j] assms(3) by (simp add: nth_list_update)
qed

lemma get_push:
  assumes "inv v" "push v x = Some (0, v')" "j < length (elems v)"
  shows "get v' j = get v j"
proof -
  have "inv v'" "elems v' = elems v @ [x]" using push [OF assms(1), of x] assms(2) by auto
  then show ?thesis using get [of v' j] get [OF assms(1,3)] assms(3) by (simp add: nth_append)
qed

end

interpretation vec: growable_seq "\<lambda>v. vec_ok v \<and> heap_ok km" vec_list "vector_push km" vector_pop
    vector_get vector_set for km
proof (unfold_locales, goal_cases)
  case (1 v x) then show ?case using vector_push_spec [of km v x] by auto
next
  case (2 v xs x) then show ?case using vector_pop_spec [of v xs x] by auto
next
  case (3 v i) then show ?case using vector_get_spec [of v i] by auto
next
  case (4 v i x) then show ?case using vector_set_spec [of v i x] by auto
qed

section \<open>Sequences of operations refine lists\<close>

text \<open>The operations of a client; \<open>vec_step\<close> runs one on the code's vector, with its return code (0
  for an operation that has none) and the value it returns.  \<open>seq_step\<close> says what it means for the
  sequence of elements and the capacity, return code and value included: an operation fails exactly
  when the index is out of range, or when more capacity is needed and the heap refuses the block.\<close>

datatype vec_op =
  Push nat | Pop | GetAt nat | SetAt nat nat | InsertAt nat nat | EraseAt nat | EraseSwap nat | Clear
  | Reserve nat

type_synonym vec_out = "int \<times> nat option"

fun vec_step :: "heap \<Rightarrow> vec_op \<Rightarrow> vector \<Rightarrow> (vec_out \<times> vector) option" where
  "vec_step km (Push x) v = map_option (\<lambda>(rc, v'). ((rc, None), v')) (vector_push km v x)"
| "vec_step km Pop v = map_option (\<lambda>(x, v'). ((0, Some x), v')) (vector_pop v)"
| "vec_step km (GetAt i) v = map_option (\<lambda>x. ((0, Some x), v)) (vector_get v i)"
| "vec_step km (SetAt i x) v = map_option (\<lambda>v'. ((0, None), v')) (vector_set v i x)"
| "vec_step km (InsertAt i x) v = map_option (\<lambda>(rc, v'). ((rc, None), v')) (vector_insert km v i x)"
| "vec_step km (EraseAt i) v = map_option (\<lambda>(rc, v'). ((rc, None), v')) (vector_erase v i)"
| "vec_step km (EraseSwap i) v = map_option (\<lambda>(rc, v'). ((rc, None), v')) (vector_erase_swap v i)"
| "vec_step km Clear v = Some ((0, None), vector_clear v)"
| "vec_step km (Reserve n) v = (case vector_reserve km v n of (rc, v') \<Rightarrow> Some ((rc, None), v'))"

text \<open>An operation that needs room for \<open>want\<close> words and then makes the elements \<open>ys\<close>.\<close>

definition with_room :: "heap \<Rightarrow> nat list \<Rightarrow> nat \<Rightarrow> nat \<Rightarrow> nat list \<Rightarrow> vec_out \<times> nat list \<times> nat" where
  "with_room km xs cap want ys =
     (case room km cap want of None \<Rightarrow> ((-1, None), xs, cap) | Some c \<Rightarrow> ((0, None), ys, c))"

fun seq_step :: "heap \<Rightarrow> vec_op \<Rightarrow> nat list \<times> nat \<Rightarrow> vec_out \<times> nat list \<times> nat" where
  "seq_step km (Push x) (xs, cap) = with_room km xs cap (Suc (length xs)) (xs @ [x])"
| "seq_step km Pop (xs, cap) = ((0, Some (last xs)), butlast xs, cap)"
| "seq_step km (GetAt i) (xs, cap) = ((0, Some (xs ! i)), xs, cap)"
| "seq_step km (SetAt i x) (xs, cap) = ((0, None), xs[i := x], cap)"
| "seq_step km (InsertAt i x) (xs, cap) =
     (if i \<le> length xs then with_room km xs cap (Suc (length xs)) (take i xs @ x # drop i xs)
      else ((-1, None), xs, cap))"
| "seq_step km (EraseAt i) (xs, cap) =
     (if i < length xs then ((0, None), take i xs @ drop (Suc i) xs, cap) else ((-1, None), xs, cap))"
| "seq_step km (EraseSwap i) (xs, cap) =
     (if i < length xs then ((0, None), butlast (xs[i := last xs]), cap) else ((-1, None), xs, cap))"
| "seq_step km Clear (xs, cap) = ((0, None), [], cap)"
| "seq_step km (Reserve n) (xs, cap) = with_room km xs cap n xs"

text \<open>The preconditions of the operations that check nothing themselves; the others may be called
  with any index.\<close>

fun legal :: "vec_op \<Rightarrow> nat list \<Rightarrow> bool" where
  "legal Pop xs \<longleftrightarrow> xs \<noteq> []"
| "legal (GetAt i) xs \<longleftrightarrow> i < length xs"
| "legal (SetAt i x) xs \<longleftrightarrow> i < length xs"
| "legal (Reserve n) xs \<longleftrightarrow> n < 2 ^ 58"
| "legal _ xs \<longleftrightarrow> True"

lemma vec_step_refines:
  assumes "heap_ok km" "vec_ok v" "legal op (vec_list v)"
  shows "\<exists>v'. vec_step km op v = Some (fst (seq_step km op (vec_list v, v_capacity v)), v') \<and>
    vec_ok v' \<and> (vec_list v', v_capacity v') = snd (seq_step km op (vec_list v, v_capacity v))"
proof (cases op)
  case (Push x)
  then show ?thesis
    using vector_push_exact [OF assms(1,2), of x] assms(2)
    by (auto simp: with_room_def length_vec_list split: option.splits)
next
  case Pop
  then have "vec_list v = butlast (vec_list v) @ [last (vec_list v)]" using assms(3) by simp
  then show ?thesis using vector_pop_spec [OF assms(2)] Pop by fastforce
next
  case (GetAt i)
  then show ?thesis using vector_get_spec [OF assms(2), of i] assms(2,3) by simp
next
  case (SetAt i x)
  then show ?thesis using vector_set_spec [OF assms(2), of i x] assms(3) by auto
next
  case (InsertAt i x)
  show ?thesis
  proof (cases "i \<le> length (vec_list v)")
    case True
    then show ?thesis
      using vector_insert_shift_spec [OF assms(1,2) True, of x] InsertAt assms(2)
      by (auto simp: vector_insert_def with_room_def length_vec_list split: option.splits)
  next
    case False
    then show ?thesis using InsertAt assms(2)
      by (simp add: vector_insert_def vector_insert_shift_def length_vec_list)
  qed
next
  case (EraseAt i)
  show ?thesis
  proof (cases "i < length (vec_list v)")
    case True
    then show ?thesis
      using vector_erase_shift_spec [OF assms(2) True] EraseAt by (auto simp: vector_erase_def)
  next
    case False
    then show ?thesis using EraseAt assms(2)
      by (simp add: vector_erase_def vector_erase_shift_def length_vec_list)
  qed
next
  case (EraseSwap i)
  show ?thesis
  proof (cases "i < length (vec_list v)")
    case True
    then show ?thesis using vector_erase_swap_spec [OF assms(2) True] EraseSwap by auto
  next
    case False
    then show ?thesis using EraseSwap assms(2)
      by (simp add: vector_erase_swap_def length_vec_list)
  qed
next
  case Clear
  then show ?thesis using assms(2)
    by (auto simp: vector_clear_def vec_ok_def vec_list_def split: option.splits)
next
  case (Reserve n)
  then show ?thesis
    using vector_reserve_exact [OF assms(1,2), of n] assms(2,3)
    by (auto simp: with_room_def split: option.splits)
qed

fun vec_run :: "heap \<Rightarrow> vec_op list \<Rightarrow> vector \<Rightarrow> (vec_out list \<times> vector) option" where
  "vec_run km [] v = Some ([], v)"
| "vec_run km (op # ops) v =
     (case vec_step km op v of None \<Rightarrow> None
      | Some (r, v1) \<Rightarrow> (case vec_run km ops v1 of None \<Rightarrow> None
          | Some (rs, v2) \<Rightarrow> Some (r # rs, v2)))"

fun seq_run :: "heap \<Rightarrow> vec_op list \<Rightarrow> nat list \<times> nat \<Rightarrow> vec_out list \<times> nat list \<times> nat" where
  "seq_run km [] s = ([], s)"
| "seq_run km (op # ops) s =
     (case seq_step km op s of (r, s1) \<Rightarrow> (case seq_run km ops s1 of (rs, s2) \<Rightarrow> (r # rs, s2)))"

text \<open>Every operation of the sequence is called where it may be called.\<close>

fun legal_run :: "heap \<Rightarrow> vec_op list \<Rightarrow> nat list \<times> nat \<Rightarrow> bool" where
  "legal_run km [] s \<longleftrightarrow> True"
| "legal_run km (op # ops) s \<longleftrightarrow> legal op (fst s) \<and> legal_run km ops (snd (seq_step km op s))"

lemma vec_run_simulates:
  assumes "heap_ok km" "vec_ok v" "legal_run km ops (vec_list v, v_capacity v)"
  shows "\<exists>v'. vec_run km ops v = Some (fst (seq_run km ops (vec_list v, v_capacity v)), v') \<and> vec_ok v' \<and>
    (vec_list v', v_capacity v') = snd (seq_run km ops (vec_list v, v_capacity v))"
  using assms(2,3)
proof (induction ops arbitrary: v)
  case Nil
  then show ?case by simp
next
  case (Cons op ops)
  let ?s = "(vec_list v, v_capacity v)"
  obtain v1 where v1: "vec_step km op v = Some (fst (seq_step km op ?s), v1)" "vec_ok v1"
    "(vec_list v1, v_capacity v1) = snd (seq_step km op ?s)"
    using vec_step_refines [OF assms(1) Cons.prems(1), of op] Cons.prems(2) by auto
  have "legal_run km ops (vec_list v1, v_capacity v1)" using Cons.prems(2) v1(3) by simp
  then obtain v' where "vec_run km ops v1 = Some (fst (seq_run km ops (vec_list v1, v_capacity v1)), v')"
    "vec_ok v'" "(vec_list v', v_capacity v') = snd (seq_run km ops (vec_list v1, v_capacity v1))"
    using Cons.IH [OF v1(2)] by blast
  then show ?case using v1 by (auto simp: case_prod_beta)
qed

lemma vector_init_ok:
  assumes "heap_ok km" "n < 2 ^ 46"
  shows "vec_ok (snd (vector_init km n)) \<and> vec_list (snd (vector_init km n)) = []"
  using assms mul64_bytes_bound [of n]
  by (auto simp: vector_init_def Let_def vec_ok_def vec_list_def heap_ok_def split: option.splits)

lemma vector_insert_erase_inverse:
  assumes "heap_ok km" "vec_ok v" "i \<le> length (vec_list v)" "vector_insert km v i x = Some (0, v1)"
  shows "\<exists>v2. vector_erase v1 i = Some (0, v2) \<and> vec_ok v2 \<and> vec_list v2 = vec_list v"
proof -
  have v1: "vec_ok v1" "vec_list v1 = take i (vec_list v) @ x # drop i (vec_list v)"
    using vector_insert_shift_spec [OF assms(1-3), of x] assms(4)
    by (auto simp: vector_insert_def split: option.splits)
  then have "i < length (vec_list v1)" using assms(3) by simp
  then show ?thesis
    using vector_erase_shift_spec [OF v1(1)] v1(2) assms(3) by (fastforce simp: vector_erase_def)
qed

section \<open>Properties\<close>

definition small_heap :: heap where
  "small_heap n = (if n < 4096 then Some (replicate (n div 8) 0) else None)"

lemma small_heap_ok: "heap_ok small_heap"
  by (auto simp: heap_ok_def small_heap_def)

definition empty_vector :: vector where
  "empty_vector = \<lparr>v_data = None, v_count = 0, v_capacity = 0\<rparr>"

lemma empty_vector_ok: "vec_ok empty_vector" "vec_list empty_vector = []"
  by (simp_all add: empty_vector_def vec_ok_def vec_list_def)

lemma grow_demo: "vector_grow_to 8 20 = 27" "vector_grow_to 8 (Suc 0) = 8"
  by (simp_all add: vector_grow_to.simps vector_grow_formula_def add64_def W64_def Let_def)

lemma reserve_demo:
  "vector_reserve small_heap empty_vector 20 = (0, \<lparr>v_data = Some (replicate 27 0), v_count = 0, v_capacity = 27\<rparr>)"
  by (simp add: vector_reserve_def empty_vector_def grow_demo small_heap_def mul64_def W64_def)

lemma push_demo:
  "vector_push small_heap empty_vector 3 = Some (0, \<lparr>v_data = Some ((replicate 8 0)[0 := 3]), v_count = 1, v_capacity = 8\<rparr>)"
  by (simp add: vector_push_def vector_reserve_def empty_vector_def grow_demo small_heap_def
      mul64_def W64_def add64_def vector_set_def)


lemma policy_demo: "grow_policy 8 (Suc 0) = 8" "grow_policy 8 600 = 681"
  by (simp_all add: grow_policy.simps)


text \<open>A successful push followed by a pop gives the value back and restores the elements.\<close>

theorem vector_push_pop:
  assumes "heap_ok km" "vec_ok v" "vector_push km v x = Some (0, v')"
  shows "\<exists>v''. vector_pop v' = Some (x, v'') \<and> vec_ok v'' \<and> vec_list v'' = vec_list v"
  using vec.push_pop [of v km x v'] assms by auto

theorem vector_push_pop_witness:
  "\<exists>v''. vector_pop (snd (the (vector_push small_heap empty_vector 3))) = Some (3, v'') \<and>
     vec_ok v'' \<and> vec_list v'' = []"
proof -
  have "vector_push small_heap empty_vector 3 =
      Some (0, snd (the (vector_push small_heap empty_vector 3)))"
    by (simp add: push_demo)
  then show ?thesis
    using vector_push_pop [OF small_heap_ok empty_vector_ok(1)] empty_vector_ok(2) by simp
qed

text \<open>\<^verbatim>\<open>vector_reserve\<close> gives at least the capacity asked for and keeps the elements, or returns -1
  and leaves the vector as it was; the byte size does not wrap for requests below \<open>2 ^ 58\<close> words.\<close>

theorem vector_reserve_capacity:
  assumes "heap_ok km" "vec_ok v" "want < 2 ^ 58" "vector_reserve km v want = (rc, v')"
  shows "rc = -1 \<and> v' = v \<or>
    rc = 0 \<and> vec_ok v' \<and> want \<le> v_capacity v' \<and> vec_list v' = vec_list v"
  using vector_reserve_exact [OF assms(1-3)] assms(4) by (auto split: option.splits)

theorem vector_reserve_capacity_witness:
  "20 \<le> v_capacity (snd (vector_reserve small_heap empty_vector 20)) \<and>
   vec_ok (snd (vector_reserve small_heap empty_vector 20))"
proof -
  have "fst (vector_reserve small_heap empty_vector 20) = 0" by (simp add: reserve_demo)
  then show ?thesis
    using vector_reserve_capacity [OF small_heap_ok empty_vector_ok(1), of 20
        "fst (vector_reserve small_heap empty_vector 20)" "snd (vector_reserve small_heap empty_vector 20)"]
    by (simp add: prod_eq_iff)
qed

end
