(* ===== verification/Hashmap.thy ===== *)
theory Hashmap
  imports Prelude "HOL-Library.Multiset"
begin

text \<open>
  The open-addressed Robin Hood hash table of \<^verbatim>\<open>src/containers/hashmap.c\<close>: linear probing over a
  power-of-two array of buckets, each carrying 48 bits of hash and a 16-bit distance-to-initial-
  bucket (\<open>dib\<close>, 0 for an empty bucket, 1 for an entry in its own slot).

  \<^item> The \<^verbatim>\<open>for (;;)\<close> probe loops are \<^theory_text>\<open>partial_function (option)\<close>: \<open>None\<close> is a loop that never ends.
  \<^item> \<open>hm_malloc\<close> stands for the allocator callback: \<open>hm_malloc k n\<close> tells whether request number
    \<open>k\<close>, for \<open>n\<close> bytes, succeeds; \<open>hm_requests\<close> counts the requests made so far.
  \<^item> \<open>hm_hash\<close> and \<open>hm_compare\<close> are the caller's callbacks; \<open>hm_zero\<close> is the item whose bytes are
    all zero, the contents of a cleared bucket.
  \<^item> The scratch entries \<^verbatim>\<open>spare\<close> and \<^verbatim>\<open>edata\<close> are local values; the pointer to \<^verbatim>\<open>spare\<close> that
    \<^verbatim>\<open>hashmap_set\<close> and \<^verbatim>\<open>hashmap_delete\<close> return is the old item itself (\<open>None\<close> for \<^verbatim>\<open>NULL\<close>).
\<close>

section \<open>The model\<close>

record 'a bucket =
  b_hash :: u64w
  b_dib :: nat
  b_item :: 'a

record 'a hashmap =
  hm_malloc :: "nat \<Rightarrow> nat \<Rightarrow> bool"
  hm_requests :: nat
  hm_oom :: bool
  hm_elsize :: nat
  hm_cap :: nat
  hm_seed0 :: u64w
  hm_seed1 :: u64w
  hm_hash :: "'a \<Rightarrow> u64w \<Rightarrow> u64w \<Rightarrow> u64w"
  hm_compare :: "'a \<Rightarrow> 'a \<Rightarrow> int"
  hm_elfree :: bool
  hm_zero :: 'a
  hm_bucketsz :: nat
  hm_nbuckets :: nat
  hm_count :: nat
  hm_mask :: nat
  hm_growat :: nat
  hm_shrinkat :: nat
  hm_buckets :: "'a bucket list"

definition get_hash :: "'a hashmap \<Rightarrow> 'a \<Rightarrow> u64w" where
  "get_hash m key = drop_bit 16 (push_bit 16 (hm_hash m key (hm_seed0 m) (hm_seed1 m)))"

definition empty_bucket :: "'a \<Rightarrow> 'a bucket" where
  "empty_bucket z = \<lparr>b_hash = 0, b_dib = 0, b_item = z\<rparr>"

text \<open>\<^verbatim>\<open>while (ncap < cap) ncap *= 2;\<close>\<close>

function double_cap :: "nat \<Rightarrow> nat \<Rightarrow> nat" where
  "double_cap ncap cap = (if 0 < ncap \<and> ncap < cap then double_cap (2 * ncap) cap else ncap)"
  by pat_completeness auto
termination
  by (relation "measure (\<lambda>(ncap, cap). cap - ncap)") auto

declare double_cap.simps [simp del]

text \<open>\<^verbatim>\<open>sizeof(struct hashmap)\<close> and \<^verbatim>\<open>sizeof(struct bucket)\<close> on the 64-bit target.\<close>

definition sizeof_hashmap :: nat where
  "sizeof_hashmap = 168"

definition sizeof_bucket :: nat where
  "sizeof_bucket = 8"

text \<open>\<^verbatim>\<open>while (bucketsz & (sizeof(uintptr_t) - 1)) bucketsz++;\<close>\<close>

definition round_bucketsz :: "nat \<Rightarrow> nat" where
  "round_bucketsz n = (n + 7) div 8 * 8"

text \<open>\<^verbatim>\<open>nbuckets * 0.75\<close> and \<^verbatim>\<open>nbuckets * 0.10\<close>, truncated: exact for the powers of two below
  \<open>2 ^ 53\<close> that \<^verbatim>\<open>nbuckets\<close> ranges over.\<close>

definition grow_threshold :: "nat \<Rightarrow> nat" where
  "grow_threshold n = n * 3 div 4"

definition shrink_threshold :: "nat \<Rightarrow> nat" where
  "shrink_threshold n = n div 10"

definition hashmap_new_with_allocator ::
    "(nat \<Rightarrow> nat \<Rightarrow> bool) \<Rightarrow> nat \<Rightarrow> nat \<Rightarrow> nat \<Rightarrow> u64w \<Rightarrow> u64w \<Rightarrow>
     ('a \<Rightarrow> u64w \<Rightarrow> u64w \<Rightarrow> u64w) \<Rightarrow> ('a \<Rightarrow> 'a \<Rightarrow> int) \<Rightarrow> bool \<Rightarrow> 'a \<Rightarrow>
     'a hashmap option \<times> nat" where
  "hashmap_new_with_allocator mal req elsize cap0 seed0 seed1 hash compare elfree zero =
     (let cap = (if cap0 < 16 then 16 else double_cap 16 cap0);
          bucketsz = round_bucketsz (sizeof_bucket + elsize)
      in if \<not> mal req (sizeof_hashmap + bucketsz * 2) then (None, Suc req)
         else if \<not> mal (Suc req) (bucketsz * cap) then (None, Suc (Suc req))
         else (Some \<lparr>hm_malloc = mal, hm_requests = Suc (Suc req), hm_oom = False,
                 hm_elsize = elsize, hm_cap = cap, hm_seed0 = seed0, hm_seed1 = seed1,
                 hm_hash = hash, hm_compare = compare, hm_elfree = elfree, hm_zero = zero,
                 hm_bucketsz = bucketsz, hm_nbuckets = cap, hm_count = 0, hm_mask = cap - 1,
                 hm_growat = grow_threshold cap, hm_shrinkat = shrink_threshold cap,
                 hm_buckets = replicate cap (empty_bucket zero)\<rparr>, Suc (Suc req)))"

text \<open>The items handed to the \<^verbatim>\<open>elfree\<close> callback, in bucket order.\<close>

definition free_elements :: "'a hashmap \<Rightarrow> 'a list" where
  "free_elements m =
     (if hm_elfree m then map b_item (filter (\<lambda>b. b_dib b \<noteq> 0) (hm_buckets m)) else [])"

text \<open>Only the first \<^verbatim>\<open>nbuckets\<close> buckets of a block are ever used, so the model keeps just those;
  a \<^verbatim>\<open>memset\<close> past the end of the block would leave fewer buckets than \<^verbatim>\<open>nbuckets\<close>.\<close>

definition hashmap_clear :: "'a hashmap \<Rightarrow> bool \<Rightarrow> 'a list \<times> 'a hashmap" where
  "hashmap_clear m update_cap =
     (let freed = free_elements m;
          m1 = m\<lparr>hm_count := 0\<rparr>;
          m2 = (if update_cap then m1\<lparr>hm_cap := hm_nbuckets m1\<rparr>
                else if hm_nbuckets m1 \<noteq> hm_cap m1 then
                  (if hm_malloc m1 (hm_requests m1) (hm_bucketsz m1 * hm_cap m1)
                   then m1\<lparr>hm_buckets := replicate (hm_cap m1) (empty_bucket (hm_zero m1)),
                           hm_nbuckets := hm_cap m1, hm_requests := Suc (hm_requests m1)\<rparr>
                   else m1\<lparr>hm_nbuckets := hm_cap m1, hm_requests := Suc (hm_requests m1)\<rparr>)
                else m1)
      in (freed,
          m2\<lparr>hm_buckets := replicate (min (hm_nbuckets m2) (length (hm_buckets m2)))
                             (empty_bucket (hm_zero m2)),
             hm_mask := hm_nbuckets m2 - 1,
             hm_growat := grow_threshold (hm_nbuckets m2),
             hm_shrinkat := shrink_threshold (hm_nbuckets m2)\<rparr>))"

text \<open>The 16-bit \<^verbatim>\<open>dib\<close> field wraps around.\<close>

definition bump_dib :: "'a bucket \<Rightarrow> 'a bucket" where
  "bump_dib e = e\<lparr>b_dib := (b_dib e + 1) mod 65536\<rparr>"

text \<open>The probe loop of \<^verbatim>\<open>resize\<close>: place an entry, displacing richer ones.\<close>

partial_function (option) place_probe ::
    "nat \<Rightarrow> 'a bucket list \<Rightarrow> 'a bucket \<Rightarrow> nat \<Rightarrow> 'a bucket list option" where
  "place_probe msk bs e j =
     (if b_dib (bs ! j) = 0 then Some (bs[j := e])
      else if b_dib (bs ! j) < b_dib e
      then place_probe msk (bs[j := e]) (bump_dib (bs ! j)) ((j + 1) AND msk)
      else place_probe msk bs (bump_dib e) ((j + 1) AND msk))"

fun rehash :: "nat \<Rightarrow> 'a bucket list \<Rightarrow> 'a bucket list \<Rightarrow> 'a bucket list option" where
  "rehash msk [] bs2 = Some bs2"
| "rehash msk (e # es) bs2 =
     (if b_dib e = 0 then rehash msk es bs2
      else case place_probe msk bs2 (e\<lparr>b_dib := 1\<rparr>) (unat (b_hash e) AND msk) of
             None \<Rightarrow> None
           | Some bs2' \<Rightarrow> rehash msk es bs2')"

definition resize :: "'a hashmap \<Rightarrow> nat \<Rightarrow> (bool \<times> 'a hashmap) option" where
  "resize m new_cap =
     (case hashmap_new_with_allocator (hm_malloc m) (hm_requests m) (hm_elsize m) new_cap
             (hm_seed0 m) (hm_seed1 m) (hm_hash m) (hm_compare m) (hm_elfree m) (hm_zero m) of
        (None, req) \<Rightarrow> Some (False, m\<lparr>hm_requests := req\<rparr>)
      | (Some m2, req) \<Rightarrow>
          (case rehash (hm_mask m2) (take (hm_nbuckets m) (hm_buckets m)) (hm_buckets m2) of
             None \<Rightarrow> None
           | Some bs \<Rightarrow> Some (True, m\<lparr>hm_requests := req, hm_buckets := bs,
               hm_nbuckets := hm_nbuckets m2, hm_mask := hm_mask m2,
               hm_growat := hm_growat m2, hm_shrinkat := hm_shrinkat m2\<rparr>)))"

text \<open>The probe loop of \<^verbatim>\<open>hashmap_set\<close>: the buckets afterwards and the item replaced, if any.\<close>

partial_function (option) set_probe ::
    "('a \<Rightarrow> 'a \<Rightarrow> int) \<Rightarrow> nat \<Rightarrow> 'a bucket list \<Rightarrow> 'a bucket \<Rightarrow> nat \<Rightarrow>
     ('a bucket list \<times> 'a option) option" where
  "set_probe cmp msk bs e i =
     (if b_dib (bs ! i) = 0 then Some (bs[i := e], None)
      else if b_hash e = b_hash (bs ! i) \<and> cmp (b_item e) (b_item (bs ! i)) = 0
      then Some (bs[i := (bs ! i)\<lparr>b_item := b_item e\<rparr>], Some (b_item (bs ! i)))
      else if b_dib (bs ! i) < b_dib e
      then set_probe cmp msk (bs[i := e]) (bump_dib (bs ! i)) ((i + 1) AND msk)
      else set_probe cmp msk bs (bump_dib e) ((i + 1) AND msk))"

definition hashmap_set :: "'a hashmap \<Rightarrow> 'a \<Rightarrow> ('a option \<times> 'a hashmap) option" where
  "hashmap_set m item =
     (let m0 = m\<lparr>hm_oom := False\<rparr> in
      case (if hm_count m0 = hm_growat m0 then resize m0 (hm_nbuckets m0 * 2)
            else Some (True, m0)) of
        None \<Rightarrow> None
      | Some (False, m1) \<Rightarrow> Some (None, m1\<lparr>hm_oom := True\<rparr>)
      | Some (True, m1) \<Rightarrow>
          (let e = \<lparr>b_hash = get_hash m1 item, b_dib = 1, b_item = item\<rparr> in
           case set_probe (hm_compare m1) (hm_mask m1) (hm_buckets m1) e
                  (unat (b_hash e) AND hm_mask m1) of
             None \<Rightarrow> None
           | Some (bs, None) \<Rightarrow>
               Some (None, m1\<lparr>hm_buckets := bs, hm_count := hm_count m1 + 1\<rparr>)
           | Some (bs, Some old) \<Rightarrow> Some (Some old, m1\<lparr>hm_buckets := bs\<rparr>)))"

partial_function (option) get_probe ::
    "('a \<Rightarrow> 'a \<Rightarrow> int) \<Rightarrow> nat \<Rightarrow> 'a bucket list \<Rightarrow> u64w \<Rightarrow> 'a \<Rightarrow> nat \<Rightarrow> (nat option) option" where
  "get_probe cmp msk bs hash key i =
     (if b_dib (bs ! i) = 0 then Some None
      else if b_hash (bs ! i) = hash \<and> cmp key (b_item (bs ! i)) = 0 then Some (Some i)
      else get_probe cmp msk bs hash key ((i + 1) AND msk))"

text \<open>The pointer into the bucket that \<^verbatim>\<open>hashmap_get\<close> returns is the bucket's index.\<close>

definition hashmap_get_index :: "'a hashmap \<Rightarrow> 'a \<Rightarrow> (nat option) option" where
  "hashmap_get_index m key =
     (let hash = get_hash m key in
      get_probe (hm_compare m) (hm_mask m) (hm_buckets m) hash key (unat hash AND hm_mask m))"

definition hashmap_get :: "'a hashmap \<Rightarrow> 'a \<Rightarrow> ('a option) option" where
  "hashmap_get m key =
     map_option (map_option (\<lambda>i. b_item (hm_buckets m ! i))) (hashmap_get_index m key)"

definition hashmap_probe :: "'a hashmap \<Rightarrow> nat \<Rightarrow> 'a option" where
  "hashmap_probe m position =
     (let b = hm_buckets m ! (position AND hm_mask m)
      in if b_dib b = 0 then None else Some (b_item b))"

text \<open>The backward shift of \<^verbatim>\<open>hashmap_delete\<close>; \<open>p\<close> is the bucket being vacated (\<^verbatim>\<open>prev\<close>).\<close>

partial_function (option) backshift ::
    "nat \<Rightarrow> 'a bucket list \<Rightarrow> nat \<Rightarrow> 'a bucket list option" where
  "backshift msk bs p =
     (if b_dib (bs ! ((p + 1) AND msk)) \<le> 1 then Some (bs[p := (bs ! p)\<lparr>b_dib := 0\<rparr>])
      else backshift msk
             (bs[p := (bs ! ((p + 1) AND msk))\<lparr>b_dib := b_dib (bs ! ((p + 1) AND msk)) - 1\<rparr>])
             ((p + 1) AND msk))"

definition hashmap_delete :: "'a hashmap \<Rightarrow> 'a \<Rightarrow> ('a option \<times> 'a hashmap) option" where
  "hashmap_delete m key =
     (let m0 = m\<lparr>hm_oom := False\<rparr> in
      case hashmap_get_index m0 key of
        None \<Rightarrow> None
      | Some None \<Rightarrow> Some (None, m0)
      | Some (Some i) \<Rightarrow>
          (let old = b_item (hm_buckets m0 ! i);
               bs0 = (hm_buckets m0)[i := (hm_buckets m0 ! i)\<lparr>b_dib := 0\<rparr>]
           in case backshift (hm_mask m0) bs0 i of
                None \<Rightarrow> None
              | Some bs \<Rightarrow>
                  (let m1 = m0\<lparr>hm_buckets := bs, hm_count := hm_count m0 - 1\<rparr> in
                   if hm_nbuckets m1 > hm_cap m1 \<and> hm_count m1 \<le> hm_shrinkat m1
                   then (case resize m1 (hm_nbuckets m1 div 2) of
                           None \<Rightarrow> None
                         | Some (_, m2) \<Rightarrow> Some (Some old, m2))
                   else Some (Some old, m1))))"

definition hashmap_count :: "'a hashmap \<Rightarrow> nat" where
  "hashmap_count m = hm_count m"

definition hashmap_oom :: "'a hashmap \<Rightarrow> bool" where
  "hashmap_oom m = hm_oom m"

text \<open>The items \<^verbatim>\<open>hashmap_free\<close> releases before the table itself.\<close>

definition hashmap_free :: "'a hashmap \<Rightarrow> 'a list" where
  "hashmap_free m = free_elements m"

fun scan_buckets :: "('a \<Rightarrow> 's \<Rightarrow> bool \<times> 's) \<Rightarrow> 'a bucket list \<Rightarrow> 's \<Rightarrow> bool \<times> 's" where
  "scan_buckets iter [] s = (True, s)"
| "scan_buckets iter (b # bs) s =
     (if b_dib b \<noteq> 0 then
        (case iter (b_item b) s of (go, s') \<Rightarrow> if go then scan_buckets iter bs s' else (False, s'))
      else scan_buckets iter bs s)"

definition hashmap_scan :: "'a hashmap \<Rightarrow> ('a \<Rightarrow> 's \<Rightarrow> bool \<times> 's) \<Rightarrow> 's \<Rightarrow> bool \<times> 's" where
  "hashmap_scan m iter udata = scan_buckets iter (take (hm_nbuckets m) (hm_buckets m)) udata"

function hashmap_iter :: "'a hashmap \<Rightarrow> nat \<Rightarrow> ('a \<times> nat) option" where
  "hashmap_iter m i =
     (if hm_nbuckets m \<le> i then None
      else if b_dib (hm_buckets m ! i) = 0 then hashmap_iter m (Suc i)
      else Some (b_item (hm_buckets m ! i), Suc i))"
  by pat_completeness auto
termination
  by (relation "measure (\<lambda>(m, i). hm_nbuckets m - i)") auto

declare hashmap_iter.simps [simp del]

end
