(* ===== verification/HashmapTable.thy ===== *)
theory HashmapTable
  imports Hashmap
begin

text \<open>
  The bucket array of the hash table.  \<open>tbl_ok\<close> is its invariant: every entry sits exactly
  \<^verbatim>\<open>dib - 1\<close> slots after its home slot, and no entry is more than one slot further from home
  than its predecessor (the Robin Hood condition).  The lemmas of this theory show that the
  probe loops of \<^verbatim>\<open>hashmap.c\<close> end, keep the invariant and change the multiset of stored
  (hash, item) pairs as intended; the termination argument is always the distance to an empty
  bucket.
\<close>

section \<open>Invariant and contents\<close>

definition home :: "nat \<Rightarrow> 'a bucket \<Rightarrow> nat" where
  "home n b = unat (b_hash b) mod n"

definition rh_ok :: "nat \<Rightarrow> 'a bucket list \<Rightarrow> bool" where
  "rh_ok n bs \<longleftrightarrow> (\<forall>i<n. b_dib (bs ! (Suc i mod n)) \<le> Suc (b_dib (bs ! i)))"

definition at_home :: "nat \<Rightarrow> 'a bucket \<Rightarrow> nat \<Rightarrow> bool" where
  "at_home n b i \<longleftrightarrow> (home n b + b_dib b - 1) mod n = i"

definition tbl_ok :: "nat \<Rightarrow> 'a bucket list \<Rightarrow> bool" where
  "tbl_ok n bs \<longleftrightarrow> length bs = n \<and> 1 < n \<and> n < 65535 \<and> rh_ok n bs \<and>
     (\<forall>i<n. b_dib (bs ! i) \<noteq> 0 \<longrightarrow> at_home n (bs ! i) i)"

definition pair_of :: "'a bucket \<Rightarrow> u64w \<times> 'a" where
  "pair_of b = (b_hash b, b_item b)"

definition contents :: "'a bucket list \<Rightarrow> (u64w \<times> 'a) multiset" where
  "contents bs = image_mset pair_of (filter_mset (\<lambda>b. b_dib b \<noteq> 0) (mset bs))"

text \<open>An entry on its way to slot \<open>i\<close>: as far from home as it says, and allowed after the
  bucket before \<open>i\<close>.\<close>

definition carried :: "nat \<Rightarrow> 'a bucket list \<Rightarrow> 'a bucket \<Rightarrow> nat \<Rightarrow> bool" where
  "carried n bs e i \<longleftrightarrow> i < n \<and> b_dib e \<noteq> 0 \<and> at_home n e i \<and>
     b_dib e \<le> Suc (b_dib (bs ! ((i + n - 1) mod n)))"

section \<open>Arithmetic of the ring of slots\<close>

lemma prev_slot:
  assumes "1 < n" "i < n"
  shows "Suc ((i + n - 1) mod n) mod n = i" and "(i + n - 1) mod n < n"
    and "(i + n - 1) mod n \<noteq> i"
proof -
  have "Suc ((i + n - 1) mod n) mod n = Suc (i + n - 1) mod n" by (rule mod_Suc_eq)
  also have "\<dots> = (i + n) mod n" using assms by simp
  finally show *: "Suc ((i + n - 1) mod n) mod n = i" using assms by simp
  show "(i + n - 1) mod n < n" using assms by simp
  show "(i + n - 1) mod n \<noteq> i"
  proof
    assume "(i + n - 1) mod n = i"
    then have "Suc i mod n = i" using * by simp
    then show False using assms by (cases "Suc i = n") (auto simp: mod_less)
  qed
qed

lemma succ_prev_slot:
  assumes "1 < n" "j < n"
  shows "(Suc j mod n + n - 1) mod n = j"
  using assms by (cases "Suc j = n") (auto simp: mod_less)

lemma succ_slot_ne: "1 < n \<Longrightarrow> i < n \<Longrightarrow> Suc i mod n \<noteq> i"
  by (cases "Suc i = n") (auto simp: mod_less)

lemma succ_slot_inj:
  assumes "1 < n" "i < n" "j < n" "Suc i mod n = Suc j mod n"
  shows "i = j"
  using succ_prev_slot [OF assms(1,2)] succ_prev_slot [OF assms(1,3)] assms(4) by simp

lemma slot_shift_ne:
  assumes "(0::nat) < t" "t < n" "p < n"
  shows "(p + t) mod n \<noteq> p"
proof (cases "p + t < n")
  case True
  then show ?thesis using assms by simp
next
  case False
  then have "(p + t) mod n = p + t - n" using assms by (simp add: mod_if)
  then show ?thesis using assms False by simp
qed

lemma mod_step: "Suc ((z + t) mod n) mod n = (z + Suc t) mod n"
  by (simp add: mod_Suc_eq)

text \<open>Every slot is some distance after a given one.\<close>

lemma slot_after:
  assumes "(0::nat) < n" "z < n" "i < n"
  obtains t where "t < n" "i = (z + t) mod n"
proof
  let ?t = "(i + n - z) mod n"
  show "?t < n" using assms by simp
  have "(z + ?t) mod n = (z + (i + n - z)) mod n" by (simp add: mod_add_right_eq)
  also have "\<dots> = (i + n) mod n" using assms by simp
  finally show "i = (z + ?t) mod n" using assms by simp
qed

section \<open>Consequences of the Robin Hood condition\<close>

lemma dib_after_empty:
  assumes "tbl_ok n bs" "z < n" "b_dib (bs ! z) = 0"
  shows "b_dib (bs ! ((z + t) mod n)) \<le> t"
proof (induction t)
  case 0
  then show ?case using assms by simp
next
  case (Suc t)
  have "(z + t) mod n < n" using assms by (simp add: tbl_ok_def)
  then have "b_dib (bs ! (Suc ((z + t) mod n) mod n)) \<le> Suc (b_dib (bs ! ((z + t) mod n)))"
    using assms by (simp add: tbl_ok_def rh_ok_def)
  then show ?case using Suc by (simp add: mod_step)
qed

text \<open>With an empty bucket somewhere, no distance reaches the table size.\<close>

lemma dib_lt_size:
  assumes "tbl_ok n bs" "z < n" "b_dib (bs ! z) = 0" "i < n"
  shows "b_dib (bs ! i) < n"
proof -
  have "0 < n" using assms by (simp add: tbl_ok_def)
  then obtain t where "t < n" "i = (z + t) mod n" by (rule slot_after [OF _ assms(2,4)])
  then show ?thesis using dib_after_empty [OF assms(1-3), of t] by simp
qed

lemma carried_le_size:
  assumes "tbl_ok n bs" "z < n" "b_dib (bs ! z) = 0" "carried n bs e i"
  shows "b_dib e \<le> n"
proof -
  have n: "1 < n" using assms by (simp add: tbl_ok_def)
  have i: "i < n" using assms by (simp add: carried_def)
  have "b_dib (bs ! ((i + n - 1) mod n)) < n"
    by (rule dib_lt_size [OF assms(1-3) prev_slot(2) [OF n i]])
  then show ?thesis using assms(4) by (simp add: carried_def)
qed

text \<open>Walking from its home, an entry is preceded only by buckets at least as far from home:
  nothing it passes is empty or poorer than it would be there.\<close>

lemma dib_before:
  assumes "tbl_ok n bs" "i < n" "i = (h + d) mod n" "b_dib (bs ! i) = Suc d" "t \<le> d"
  shows "Suc t \<le> b_dib (bs ! ((h + t) mod n))"
  using assms(5)
proof (induction rule: inc_induct)
  case base
  then show ?case using assms by simp
next
  case (step t)
  have "(h + t) mod n < n" using assms by (simp add: tbl_ok_def)
  then have "b_dib (bs ! (Suc ((h + t) mod n) mod n)) \<le> Suc (b_dib (bs ! ((h + t) mod n)))"
    using assms by (simp add: tbl_ok_def rh_ok_def)
  then show ?case using step by (simp add: mod_step)
qed

section \<open>Contents under updates\<close>

lemma contents_update_occupied:
  assumes "i < length bs" "b_dib (bs ! i) \<noteq> 0" "b_dib e \<noteq> 0"
  shows "add_mset (pair_of (bs ! i)) (contents (bs[i := e])) = add_mset (pair_of e) (contents bs)"
proof -
  have m: "mset bs = add_mset (bs ! i) (mset bs - {#bs ! i#})"
    using assms(1) by simp
  have "contents bs = add_mset (pair_of (bs ! i))
      (image_mset pair_of (filter_mset (\<lambda>b. b_dib b \<noteq> 0) (mset bs - {#bs ! i#})))"
    unfolding contents_def by (subst m) (simp add: assms(2))
  then show ?thesis
    using assms by (simp add: contents_def mset_update)
qed

lemma contents_update_empty:
  assumes "i < length bs" "b_dib (bs ! i) = 0" "b_dib e \<noteq> 0"
  shows "contents (bs[i := e]) = add_mset (pair_of e) (contents bs)"
proof -
  have m: "mset bs = add_mset (bs ! i) (mset bs - {#bs ! i#})"
    using assms(1) by simp
  have "contents bs =
      image_mset pair_of (filter_mset (\<lambda>b. b_dib b \<noteq> 0) (mset bs - {#bs ! i#}))"
    unfolding contents_def by (subst m) (simp add: assms(2))
  then show ?thesis
    using assms by (simp add: contents_def mset_update)
qed

lemma contents_clear:
  assumes "i < length bs" "b_dib (bs ! i) \<noteq> 0" "b_dib e = 0"
  shows "add_mset (pair_of (bs ! i)) (contents (bs[i := e])) = contents bs"
proof -
  have m: "mset bs = add_mset (bs ! i) (mset bs - {#bs ! i#})"
    using assms(1) by simp
  have "contents bs = add_mset (pair_of (bs ! i))
      (image_mset pair_of (filter_mset (\<lambda>b. b_dib b \<noteq> 0) (mset bs - {#bs ! i#})))"
    unfolding contents_def by (subst m) (simp add: assms(2))
  then show ?thesis
    using assms by (simp add: contents_def mset_update)
qed

lemma in_contentsI:
  "i < length bs \<Longrightarrow> b_dib (bs ! i) \<noteq> 0 \<Longrightarrow> pair_of (bs ! i) \<in># contents bs"
  by (auto simp: contents_def)

lemma in_contentsE:
  assumes "p \<in># contents bs"
  obtains i where "i < length bs" "b_dib (bs ! i) \<noteq> 0" "p = pair_of (bs ! i)"
  using assms by (auto simp: contents_def in_set_conv_nth)

lemma size_contents: "size (contents bs) = length (filter (\<lambda>b. b_dib b \<noteq> 0) bs)"
  by (simp add: contents_def flip: mset_filter)

text \<open>A table that is not full has an empty bucket.\<close>

lemma ex_empty_slot:
  assumes "size (contents bs) < length bs"
  obtains z where "z < length bs" "b_dib (bs ! z) = 0"
proof -
  have "filter (\<lambda>b. b_dib b \<noteq> 0) bs \<noteq> bs"
    using assms by (auto simp: size_contents)
  then have "\<exists>b\<in>set bs. b_dib b = 0" by (metis (mono_tags, lifting) filter_True)
  then show ?thesis using that by (auto simp: in_set_conv_nth)
qed

section \<open>One probe step\<close>

lemma at_home_bump:
  assumes "at_home n e i" "b_dib e \<noteq> 0" "b_dib e \<le> n" "n < 65535"
  shows "at_home n (bump_dib e) (Suc i mod n)" "b_dib (bump_dib e) = Suc (b_dib e)"
proof -
  show d: "b_dib (bump_dib e) = Suc (b_dib e)" using assms by (simp add: bump_dib_def)
  have "home n (bump_dib e) + b_dib (bump_dib e) - 1 = Suc (home n e + b_dib e - 1)"
    using d assms(2) by (simp add: home_def bump_dib_def)
  then show "at_home n (bump_dib e) (Suc i mod n)"
    using assms(1) unfolding at_home_def by (metis mod_Suc_eq)
qed

lemma pair_of_bump [simp]: "pair_of (bump_dib e) = pair_of e"
  by (simp add: bump_dib_def pair_of_def)

lemma tbl_ok_swap:
  assumes "tbl_ok n bs" "carried n bs e i" "b_dib (bs ! i) < b_dib e"
  shows "tbl_ok n (bs[i := e])"
proof -
  have n: "1 < n" and i: "i < n" and len: "length bs = n"
    using assms by (auto simp: tbl_ok_def carried_def)
  have rh: "b_dib (bs ! (Suc j mod n)) \<le> Suc (b_dib (bs ! j))" if "j < n" for j
    using assms(1) that by (simp add: tbl_ok_def rh_ok_def)
  have "b_dib (bs[i := e] ! (Suc j mod n)) \<le> Suc (b_dib (bs[i := e] ! j))" if j: "j < n" for j
  proof (cases "Suc j mod n = i")
    case True
    then have "j = (i + n - 1) mod n" using succ_prev_slot [OF n j] by simp
    moreover have "j \<noteq> i" using True succ_slot_ne [OF n i] by auto
    ultimately show ?thesis
      using True assms(2) len i by (simp add: carried_def)
  next
    case False
    then show ?thesis
      using rh [OF j] assms(3) len i j by (cases "j = i") (auto simp: nth_list_update)
  qed
  then show ?thesis
    using assms by (auto simp: tbl_ok_def rh_ok_def carried_def nth_list_update)
qed

lemma carried_swap:
  assumes "tbl_ok n bs" "carried n bs e i" "b_dib (bs ! i) < b_dib e" "b_dib (bs ! i) \<noteq> 0"
    and "b_dib (bs ! i) \<le> n"
  shows "carried n (bs[i := e]) (bump_dib (bs ! i)) (Suc i mod n)"
proof -
  have n: "1 < n" "n < 65535" and i: "i < n" and len: "length bs = n"
    and home: "at_home n (bs ! i) i"
    using assms by (auto simp: tbl_ok_def carried_def)
  show ?thesis
    using at_home_bump [OF home assms(4,5) n(2)] succ_prev_slot [OF n(1) i] n i len assms(3)
    by (simp add: carried_def)
qed

lemma carried_keep:
  assumes "tbl_ok n bs" "carried n bs e i" "\<not> b_dib (bs ! i) < b_dib e" "b_dib e \<le> n"
  shows "carried n bs (bump_dib e) (Suc i mod n)"
proof -
  have n: "1 < n" "n < 65535" and i: "i < n" and home: "at_home n e i" and d: "b_dib e \<noteq> 0"
    using assms by (auto simp: tbl_ok_def carried_def)
  show ?thesis
    using at_home_bump [OF home d assms(4) n(2)] succ_prev_slot [OF n(1) i] n i assms(3)
    by (simp add: carried_def)
qed

section \<open>The probe loops\<close>

lemma next_slot: "n = 2 ^ k \<Longrightarrow> Suc i AND (n - Suc 0) = Suc i mod n"
  using and_pow2_minus_1 [of "Suc i" k] by simp

text \<open>No two of the stored pairs stand for the same key.\<close>

definition no_match :: "('a \<Rightarrow> 'a \<Rightarrow> int) \<Rightarrow> (u64w \<times> 'a) multiset \<Rightarrow> bool" where
  "no_match cmp M \<longleftrightarrow>
     (\<forall>p q. {#p, q#} \<subseteq># M \<longrightarrow> \<not> (fst p = fst q \<and> cmp (snd p) (snd q) = 0))"

lemma no_matchD:
  assumes "no_match cmp (add_mset p M)" "q \<in># M"
  shows "\<not> (fst p = fst q \<and> cmp (snd p) (snd q) = 0)"
proof -
  have "{#p, q#} \<subseteq># add_mset p M" using assms(2) by simp
  then show ?thesis using assms(1) unfolding no_match_def by blast
qed

lemma set_probe_insert:
  assumes "tbl_ok n bs" "carried n bs e i" "b_dib (bs ! ((i + t) mod n)) = 0"
    and "n = 2 ^ k" "no_match cmp (add_mset (pair_of e) (contents bs))"
  shows "\<exists>bs'. set_probe cmp (n - 1) bs e i = Some (bs', None) \<and> tbl_ok n bs' \<and>
    contents bs' = add_mset (pair_of e) (contents bs)"
  using assms
proof (induction t arbitrary: bs e i)
  case 0
  have i: "i < n" "length bs = n" using 0 by (auto simp: tbl_ok_def carried_def)
  then have z: "b_dib (bs ! i) = 0" using 0 by simp
  have "b_dib (bs ! i) < b_dib e" using 0 z by (simp add: carried_def)
  then have "tbl_ok n (bs[i := e])" using tbl_ok_swap [OF 0(1,2)] by simp
  moreover have "contents (bs[i := e]) = add_mset (pair_of e) (contents bs)"
    using contents_update_empty [of i bs e] i z 0(2) by (simp add: carried_def)
  ultimately show ?case using z by (simp add: set_probe.simps)
next
  case (Suc t)
  have n: "1 < n" and i: "i < n" and len: "length bs = n" and e0: "b_dib e \<noteq> 0"
    using Suc.prems by (auto simp: tbl_ok_def carried_def)
  show ?case
  proof (cases "b_dib (bs ! i) = 0")
    case True
    have "b_dib (bs ! i) < b_dib e" using Suc.prems True by (simp add: carried_def)
    then have "tbl_ok n (bs[i := e])" using tbl_ok_swap [OF Suc.prems(1,2)] by simp
    moreover have "contents (bs[i := e]) = add_mset (pair_of e) (contents bs)"
      using contents_update_empty [of i bs e] i len True e0 by simp
    ultimately show ?thesis using True by (simp add: set_probe.simps)
  next
    case occ: False
    let ?z = "(i + Suc t) mod n"
    have z: "?z < n" "b_dib (bs ! ?z) = 0" using Suc.prems n by auto
    have zt: "(Suc i mod n + t) mod n = ?z" by (metis add_Suc_shift mod_add_left_eq)
    have "\<not> (b_hash e = b_hash (bs ! i) \<and> cmp (b_item e) (b_item (bs ! i)) = 0)"
      using no_matchD [OF Suc.prems(5) in_contentsI [of i bs]] i len occ by (simp add: pair_of_def)
    then have step: "set_probe cmp (n - 1) bs e i =
        (if b_dib (bs ! i) < b_dib e
         then set_probe cmp (n - 1) (bs[i := e]) (bump_dib (bs ! i)) (Suc i mod n)
         else set_probe cmp (n - 1) bs (bump_dib e) (Suc i mod n))"
      using occ next_slot [OF Suc.prems(4), of i] by (subst set_probe.simps) auto
    show ?thesis
    proof (cases "b_dib (bs ! i) < b_dib e")
      case True
      have c: "add_mset (pair_of (bs ! i)) (contents (bs[i := e])) =
          add_mset (pair_of e) (contents bs)"
        using contents_update_occupied [of i bs e] i len occ e0 by simp
      have "b_dib (bs ! i) \<le> n" using dib_lt_size [OF Suc.prems(1) z i] by simp
      then have car: "carried n (bs[i := e]) (bump_dib (bs ! i)) (Suc i mod n)"
        by (rule carried_swap [OF Suc.prems(1,2) True occ])
      have "?z \<noteq> i" using z(2) occ by auto
      then have "b_dib (bs[i := e] ! ((Suc i mod n + t) mod n)) = 0" using z zt by simp
      moreover have "no_match cmp (add_mset (pair_of (bump_dib (bs ! i))) (contents (bs[i := e])))"
        using c Suc.prems(5) by simp
      ultimately show ?thesis
        using Suc.IH [OF tbl_ok_swap [OF Suc.prems(1,2) True] car _ Suc.prems(4)] True step c
        by simp
    next
      case False
      have "b_dib e \<le> n" by (rule carried_le_size [OF Suc.prems(1) z Suc.prems(2)])
      then have car: "carried n bs (bump_dib e) (Suc i mod n)"
        by (rule carried_keep [OF Suc.prems(1,2) False])
      then show ?thesis
        using Suc.IH [OF Suc.prems(1) car _ Suc.prems(4)] False step zt z Suc.prems(5) by simp
    qed
  qed
qed

text \<open>Placing an entry while rehashing is inserting it under a comparison that never matches.\<close>

lemma place_probe_set_probe:
  assumes "set_probe cmp msk bs e i = Some r" "cmp = (\<lambda>_ _. 1)"
  shows "place_probe msk bs e i = Some (fst r)"
proof -
  have "cmp = (\<lambda>_ _. 1) \<longrightarrow> place_probe msk bs e i = Some (fst r)"
  proof (rule set_probe.raw_induct
      [where P = "\<lambda>cmp msk bs e i r. cmp = (\<lambda>_ _. 1) \<longrightarrow> place_probe msk bs e i = Some (fst r)",
        OF _ assms(1)])
    fix f and cmp :: "'a \<Rightarrow> 'a \<Rightarrow> int" and msk bs e i r
    assume IH: "\<And>cmp msk bs e i r. f cmp msk bs e i = Some r \<Longrightarrow>
        cmp = (\<lambda>_ _. 1) \<longrightarrow> place_probe msk bs e i = Some (fst r)"
      and eq: "(if b_dib (bs ! i) = 0 then Some (bs[i := e], None)
         else if b_hash e = b_hash (bs ! i) \<and> cmp (b_item e) (b_item (bs ! i)) = 0
         then Some (bs[i := (bs ! i)\<lparr>b_item := b_item e\<rparr>], Some (b_item (bs ! i)))
         else if b_dib (bs ! i) < b_dib e
         then f cmp msk (bs[i := e]) (bump_dib (bs ! i)) ((i + 1) AND msk)
         else f cmp msk bs (bump_dib e) ((i + 1) AND msk)) = Some r"
    show "cmp = (\<lambda>_ _. 1) \<longrightarrow> place_probe msk bs e i = Some (fst r)"
      using eq by (subst place_probe.simps) (auto split: if_splits dest: IH)
  qed
  then show ?thesis using assms(2) by simp
qed

lemma no_match_const: "no_match (\<lambda>_ _. 1) M"
  by (simp add: no_match_def)

lemma place_probe_insert:
  assumes "tbl_ok n bs" "carried n bs e i" "b_dib (bs ! ((i + t) mod n)) = 0" "n = 2 ^ k"
  shows "\<exists>bs'. place_probe (n - 1) bs e i = Some bs' \<and> tbl_ok n bs' \<and>
    contents bs' = add_mset (pair_of e) (contents bs)"
  using set_probe_insert [OF assms no_match_const] place_probe_set_probe [OF _ refl] by fastforce

text \<open>An entry that starts at its home slot is ready to be placed.\<close>

lemma carried_start:
  assumes "tbl_ok n bs" "b_dib e = 1"
  shows "carried n bs e (unat (b_hash e) mod n)"
  using assms by (simp add: carried_def tbl_ok_def at_home_def home_def)

lemma home_slot: "n = 2 ^ k \<Longrightarrow> x AND (n - 1) = x mod (n::nat)"
  using and_pow2_minus_1 [of x k] by simp

lemma empty_ahead:
  assumes "tbl_ok n bs" "size (contents bs) < n" "h < n"
  obtains t where "t < n" "b_dib (bs ! ((h + t) mod n)) = 0"
proof -
  have len: "length bs = n" "0 < n" using assms by (auto simp: tbl_ok_def)
  then obtain z where z: "z < n" "b_dib (bs ! z) = 0" using ex_empty_slot assms(2) by metis
  obtain t where "t < n" "z = (h + t) mod n" by (rule slot_after [OF len(2) assms(3) z(1)])
  then show ?thesis using that z(2) by blast
qed

lemma place_start:
  assumes "tbl_ok n bs" "n = 2 ^ k" "b_dib e = 1" "size (contents bs) < n"
  shows "\<exists>bs'. place_probe (n - 1) bs e (unat (b_hash e) AND (n - 1)) = Some bs' \<and> tbl_ok n bs' \<and>
    contents bs' = add_mset (pair_of e) (contents bs)"
proof -
  have "unat (b_hash e) mod n < n" using assms(1) by (simp add: tbl_ok_def)
  then obtain t where "b_dib (bs ! ((unat (b_hash e) mod n + t) mod n)) = 0"
    by (rule empty_ahead [OF assms(1,4)])
  then show ?thesis
    unfolding home_slot [OF assms(2)]
    by (rule place_probe_insert [OF assms(1) carried_start [OF assms(1,3)] _ assms(2)])
qed

lemma set_start_insert:
  assumes "tbl_ok n bs" "n = 2 ^ k" "b_dib e = 1" "size (contents bs) < n"
    and "no_match cmp (add_mset (pair_of e) (contents bs))"
  shows "\<exists>bs'. set_probe cmp (n - 1) bs e (unat (b_hash e) AND (n - 1)) = Some (bs', None) \<and>
    tbl_ok n bs' \<and> contents bs' = add_mset (pair_of e) (contents bs)"
proof -
  have "unat (b_hash e) mod n < n" using assms(1) by (simp add: tbl_ok_def)
  then obtain t where "b_dib (bs ! ((unat (b_hash e) mod n + t) mod n)) = 0"
    by (rule empty_ahead [OF assms(1,4)])
  then show ?thesis
    unfolding home_slot [OF assms(2)]
    by (rule set_probe_insert [OF assms(1) carried_start [OF assms(1,3)] _ assms(2,5)])
qed

subsection \<open>Looking up\<close>

text \<open>An entry's slot, counted from its home.\<close>

lemma slot_from_home:
  assumes "tbl_ok n bs" "s < n" "b_dib (bs ! s) \<noteq> 0"
  obtains d where "s = (unat (b_hash (bs ! s)) mod n + d) mod n" "b_dib (bs ! s) = Suc d"
proof
  show "b_dib (bs ! s) = Suc (b_dib (bs ! s) - 1)" using assms(3) by simp
  show "s = (unat (b_hash (bs ! s)) mod n + (b_dib (bs ! s) - 1)) mod n"
    using assms by (auto simp: tbl_ok_def at_home_def home_def)
qed

definition matches :: "('a \<Rightarrow> 'a \<Rightarrow> int) \<Rightarrow> u64w \<Rightarrow> 'a \<Rightarrow> 'a bucket \<Rightarrow> bool" where
  "matches cmp hash key b \<longleftrightarrow> b_dib b \<noteq> 0 \<and> b_hash b = hash \<and> cmp key (b_item b) = 0"

lemma get_probe_found:
  assumes "tbl_ok n bs" "n = 2 ^ k" "s < n" "matches cmp hash key (bs ! s)"
    and uniq: "\<And>j. j < n \<Longrightarrow> matches cmp hash key (bs ! j) \<Longrightarrow> j = s"
  shows "get_probe cmp (n - 1) bs hash key (unat hash AND (n - 1)) = Some (Some s)"
proof -
  have n: "0 < n" using assms(1) by (simp add: tbl_ok_def)
  have occ: "b_dib (bs ! s) \<noteq> 0" "b_hash (bs ! s) = hash" using assms(4) by (auto simp: matches_def)
  define h where "h = unat hash mod n"
  obtain d where d: "s = (h + d) mod n" "b_dib (bs ! s) = Suc d"
    using slot_from_home [OF assms(1,3) occ(1)] occ(2) unfolding h_def by metis
  have "get_probe cmp (n - 1) bs hash key ((h + t) mod n) = Some (Some s)" if "t \<le> d" for t
    using that
  proof (induction rule: inc_induct)
    case base
    then show ?case
      using assms(4) d by (subst get_probe.simps) (simp add: matches_def)
  next
    case (step t)
    let ?i = "(h + t) mod n"
    have "b_dib (bs ! ?i) \<noteq> 0"
      using dib_before [OF assms(1,3) d, of t] step by simp
    moreover have "Suc ?i AND (n - Suc 0) = (h + Suc t) mod n"
      using next_slot [OF assms(2), of ?i] by (simp add: mod_step)
    ultimately show ?case
      using step.IH uniq [of ?i] n
      by (subst get_probe.simps) (auto simp: matches_def)
  qed
  from this [of 0] show ?thesis
    using n unfolding home_slot [OF assms(2)] h_def by simp
qed

lemma get_probe_missing:
  assumes "tbl_ok n bs" "n = 2 ^ k" "i < n" "b_dib (bs ! ((i + t) mod n)) = 0"
    and none: "\<And>j. j < n \<Longrightarrow> \<not> matches cmp hash key (bs ! j)"
  shows "get_probe cmp (n - 1) bs hash key i = Some None"
  using assms(3,4)
proof (induction t arbitrary: i)
  case 0
  then show ?case by (subst get_probe.simps) simp
next
  case (Suc t)
  have n: "0 < n" using assms(1) by (simp add: tbl_ok_def)
  have "(Suc i mod n + t) mod n = (i + Suc t) mod n" by (metis add_Suc_shift mod_add_left_eq)
  then have "get_probe cmp (n - 1) bs hash key (Suc i mod n) = Some None"
    using Suc n by simp
  then show ?case
    using none [OF Suc.prems(1)] next_slot [OF assms(2), of i]
    by (subst get_probe.simps) (auto simp: matches_def)
qed

lemma get_start_missing:
  assumes "tbl_ok n bs" "n = 2 ^ k" "size (contents bs) < n"
    and "\<And>j. j < n \<Longrightarrow> \<not> matches cmp hash key (bs ! j)"
  shows "get_probe cmp (n - 1) bs hash key (unat hash AND (n - 1)) = Some None"
proof -
  have h: "unat hash mod n < n" using assms(1) by (simp add: tbl_ok_def)
  then obtain t where "b_dib (bs ! ((unat hash mod n + t) mod n)) = 0"
    by (rule empty_ahead [OF assms(1,3)])
  then show ?thesis
    unfolding home_slot [OF assms(2)] by (rule get_probe_missing [OF assms(1,2) h _ assms(4)])
qed

subsection \<open>Replacing\<close>

lemma tbl_ok_same_position:
  assumes "tbl_ok n bs" "b_dib b = b_dib (bs ! s)" "b_hash b = b_hash (bs ! s)"
  shows "tbl_ok n (bs[s := b])"
proof (cases "s < n")
  case True
  have "b_dib (bs[s := b] ! j) = b_dib (bs ! j)" "b_hash (bs[s := b] ! j) = b_hash (bs ! j)"
    if "j < n" for j
    using assms(2,3) True that assms(1) by (auto simp: nth_list_update tbl_ok_def)
  moreover have "Suc j mod n < n" if "j < n" for j using that by simp
  ultimately show ?thesis
    using assms(1) unfolding tbl_ok_def rh_ok_def at_home_def home_def by simp
next
  case False
  then have "bs[s := b] = bs" using assms(1) by (simp add: tbl_ok_def list_update_beyond)
  then show ?thesis using assms(1) by simp
qed

lemma set_probe_replace:
  assumes "tbl_ok n bs" "n = 2 ^ k" "s < n" "size (contents bs) < n" "b_dib e = 1"
    and "matches cmp (b_hash e) (b_item e) (bs ! s)"
    and uniq: "\<And>j. j < n \<Longrightarrow> matches cmp (b_hash e) (b_item e) (bs ! j) \<Longrightarrow> j = s"
  shows "set_probe cmp (n - 1) bs e (unat (b_hash e) AND (n - 1)) =
    Some (bs[s := (bs ! s)\<lparr>b_item := b_item e\<rparr>], Some (b_item (bs ! s)))"
proof -
  have n: "0 < n" "n < 65535" using assms(1) by (auto simp: tbl_ok_def)
  have occ: "b_dib (bs ! s) \<noteq> 0" "b_hash (bs ! s) = b_hash e"
    using assms(6) by (auto simp: matches_def)
  obtain z where "z < n" "b_dib (bs ! z) = 0"
    using ex_empty_slot assms(1,4) by (metis tbl_ok_def)
  then have lt: "b_dib (bs ! s) < n" by (rule dib_lt_size [OF assms(1) _ _ assms(3)])
  define h where "h = unat (b_hash e) mod n"
  obtain d where d: "s = (h + d) mod n" "b_dib (bs ! s) = Suc d"
    using slot_from_home [OF assms(1,3) occ(1)] occ(2) unfolding h_def by metis
  have "set_probe cmp (n - 1) bs (e\<lparr>b_dib := Suc t\<rparr>) ((h + t) mod n) =
      Some (bs[s := (bs ! s)\<lparr>b_item := b_item e\<rparr>], Some (b_item (bs ! s)))" if "t \<le> d" for t
    using that
  proof (induction rule: inc_induct)
    case base
    then show ?case
      using assms(6) d by (subst set_probe.simps) (simp add: matches_def)
  next
    case (step t)
    let ?i = "(h + t) mod n"
    have "Suc t \<le> b_dib (bs ! ?i)"
      using dib_before [OF assms(1,3) d, of t] step by simp
    moreover have "Suc ?i AND (n - Suc 0) = (h + Suc t) mod n"
      using next_slot [OF assms(2), of ?i] by (simp add: mod_step)
    moreover have "bump_dib (e\<lparr>b_dib := Suc t\<rparr>) = e\<lparr>b_dib := Suc (Suc t)\<rparr>"
      using step lt d n by (simp add: bump_dib_def)
    ultimately show ?case
      using step.IH uniq [of ?i] n by (subst set_probe.simps) (auto simp: matches_def)
  qed
  moreover have "e\<lparr>b_dib := Suc 0\<rparr> = e" using assms(5) by (cases e) simp
  ultimately have "set_probe cmp (n - 1) bs e ((h + 0) mod n) =
      Some (bs[s := (bs ! s)\<lparr>b_item := b_item e\<rparr>], Some (b_item (bs ! s)))"
    by (metis zero_le)
  then show ?thesis
    unfolding home_slot [OF assms(2)] h_def by simp
qed

subsection \<open>Deleting\<close>

text \<open>A table in the middle of a backward shift: bucket \<open>p\<close> is being vacated, \<open>D\<close> is the
  distance its former occupant had.\<close>

definition hole_ok :: "nat \<Rightarrow> 'a bucket list \<Rightarrow> nat \<Rightarrow> nat \<Rightarrow> bool" where
  "hole_ok n bs p D \<longleftrightarrow> length bs = n \<and> 1 < n \<and> n < 65535 \<and> p < n \<and>
     (\<forall>i<n. i \<noteq> p \<longrightarrow> b_dib (bs ! i) \<noteq> 0 \<longrightarrow> at_home n (bs ! i) i) \<and>
     (\<forall>i<n. i \<noteq> p \<longrightarrow> Suc i mod n \<noteq> p \<longrightarrow> b_dib (bs ! (Suc i mod n)) \<le> Suc (b_dib (bs ! i))) \<and>
     D \<le> Suc (b_dib (bs ! ((p + n - 1) mod n))) \<and> b_dib (bs ! (Suc p mod n)) \<le> Suc D"

lemma hole_start:
  assumes "tbl_ok n bs" "p < n"
  shows "hole_ok n (bs[p := (bs ! p)\<lparr>b_dib := 0\<rparr>]) p (b_dib (bs ! p))"
proof -
  have n: "1 < n" "length bs = n" using assms by (auto simp: tbl_ok_def)
  have rh: "b_dib (bs ! (Suc j mod n)) \<le> Suc (b_dib (bs ! j))" if "j < n" for j
    using assms(1) that by (simp add: tbl_ok_def rh_ok_def)
  have "b_dib (bs ! p) \<le> Suc (b_dib (bs ! ((p + n - 1) mod n)))"
    using rh [OF prev_slot(2) [OF n(1) assms(2)]] prev_slot(1) [OF n(1) assms(2)] by simp
  then show ?thesis
    using n(1) assms n(2) rh prev_slot(3) [OF n(1) assms(2)] succ_slot_ne [OF n(1) assms(2)]
    unfolding hole_ok_def by (simp add: tbl_ok_def nth_list_update del: One_nat_def)
qed

lemma hole_finish:
  assumes "hole_ok n bs p D" "b_dib (bs ! (Suc p mod n)) \<le> 1"
  shows "tbl_ok n (bs[p := (bs ! p)\<lparr>b_dib := 0\<rparr>])"
proof -
  have n: "1 < n" "length bs = n" "p < n" using assms by (auto simp: hole_ok_def)
  let ?bs = "bs[p := (bs ! p)\<lparr>b_dib := 0\<rparr>]"
  have "b_dib (?bs ! (Suc j mod n)) \<le> Suc (b_dib (?bs ! j))" if j: "j < n" for j
  proof (cases "j = p \<or> Suc j mod n = p")
    case True
    then show ?thesis
      using assms(2) n j succ_slot_ne [OF n(1,3)] by (auto simp: nth_list_update)
  next
    case False
    then show ?thesis using assms(1) n j by (auto simp: hole_ok_def nth_list_update)
  qed
  then show ?thesis
    using assms(1) n by (auto simp: tbl_ok_def rh_ok_def hole_ok_def nth_list_update)
qed

text \<open>One shift: the next entry moves back into the hole, which moves on.\<close>

lemma hole_shift:
  assumes "hole_ok n bs p D" "\<not> b_dib (bs ! (Suc p mod n)) \<le> 1"
  defines "q \<equiv> Suc p mod n"
  shows "hole_ok n (bs[p := (bs ! q)\<lparr>b_dib := b_dib (bs ! q) - 1\<rparr>]) q (b_dib (bs ! q))"
proof -
  have n: "1 < n" "length bs = n" "p < n" "n < 65535" using assms by (auto simp: hole_ok_def)
  have q: "q < n" "q \<noteq> p" "(q + n - 1) mod n = p" and q2: "Suc q mod n \<noteq> q"
    using n succ_slot_ne [OF n(1,3)] succ_prev_slot [OF n(1,3)] succ_slot_ne [of n q]
    by (auto simp: q_def)
  let ?b = "(bs ! q)\<lparr>b_dib := b_dib (bs ! q) - 1\<rparr>"
  let ?bs = "bs[p := ?b]"
  have dq: "2 \<le> b_dib (bs ! q)" using assms(2) by (simp add: q_def)
  have rh: "b_dib (bs ! (Suc j mod n)) \<le> Suc (b_dib (bs ! j))"
    if "j < n" "j \<noteq> p" "Suc j mod n \<noteq> p" for j
    using assms(1) that by (auto simp: hole_ok_def)
  have home: "at_home n ?b p"
  proof -
    have "at_home n (bs ! q) q" using assms(1) q dq by (auto simp: hole_ok_def)
    moreover have "home n ?b = home n (bs ! q)" by (simp add: home_def)
    moreover have "Suc (home n (bs ! q) + b_dib ?b - 1) = home n (bs ! q) + b_dib (bs ! q) - 1"
      using dq by simp
    ultimately have "Suc ((home n ?b + b_dib ?b - 1) mod n) mod n = Suc p mod n"
      unfolding at_home_def by (metis mod_Suc_eq q_def)
    moreover have "(home n ?b + b_dib ?b - 1) mod n < n" using n by simp
    ultimately show ?thesis unfolding at_home_def using succ_slot_inj [OF n(1) _ n(3)] by blast
  qed
  have into_p: "b_dib ?b \<le> Suc (b_dib (?bs ! j))" if j: "j < n" "Suc j mod n = p" for j
  proof -
    have "j = (p + n - 1) mod n" using succ_prev_slot [OF n(1) j(1)] j(2) by simp
    moreover have "j \<noteq> p" using j succ_slot_ne [OF n(1,3)] by auto
    ultimately show ?thesis
      using assms(1) n by (auto simp: hole_ok_def q_def)
  qed
  have "b_dib (?bs ! (Suc j mod n)) \<le> Suc (b_dib (?bs ! j))"
    if j: "j < n" "j \<noteq> q" "Suc j mod n \<noteq> q" for j
  proof (cases "Suc j mod n = p")
    case True
    then show ?thesis using into_p [OF j(1) True] n by simp
  next
    case False
    moreover have "j \<noteq> p" using j by (auto simp: q_def)
    ultimately show ?thesis using rh j n by simp
  qed
  moreover have "b_dib (?bs ! (Suc q mod n)) \<le> Suc (b_dib (bs ! q))"
    using rh [OF q(1,2)] n dq by (auto simp: nth_list_update)
  moreover have "\<forall>i<n. i \<noteq> q \<longrightarrow> b_dib (?bs ! i) \<noteq> 0 \<longrightarrow> at_home n (?bs ! i) i"
    using assms(1) home n by (auto simp: hole_ok_def nth_list_update)
  ultimately show ?thesis
    using n q dq by (simp add: hole_ok_def)
qed

definition contents_but :: "'a bucket list \<Rightarrow> nat \<Rightarrow> (u64w \<times> 'a) multiset" where
  "contents_but bs p = contents (bs[p := (bs ! p)\<lparr>b_dib := 0\<rparr>])"

lemma contents_but_shift:
  assumes "p < length bs" "q < length bs" "q \<noteq> p" "b_dib (bs ! q) \<noteq> 0"
    and "b_dib b \<noteq> 0" "pair_of b = pair_of (bs ! q)"
  shows "contents_but (bs[p := b]) q = contents_but bs p"
proof -
  let ?cp = "(bs ! p)\<lparr>b_dib := 0\<rparr>" and ?cq = "(bs ! q)\<lparr>b_dib := 0\<rparr>"
  let ?B = "bs[p := ?cp]"
  have 1: "add_mset (pair_of (bs ! q)) (contents (?B[q := ?cq])) = contents ?B"
    using contents_clear [of q ?B ?cq] assms by simp
  have 2: "contents (?B[q := ?cq, p := b]) = add_mset (pair_of b) (contents (?B[q := ?cq]))"
    using contents_update_empty [of p "?B[q := ?cq]" b] assms by simp
  have "?B[q := ?cq, p := b] = bs[p := b, q := ?cq]"
    using assms(3) by (metis list_update_overwrite list_update_swap)
  then show ?thesis using 1 2 assms by (simp add: contents_but_def)
qed

lemma backshift_ok:
  assumes "hole_ok n bs p D" "n = 2 ^ k" "Suc t < n" "b_dib (bs ! ((Suc p + t) mod n)) \<le> 1"
  shows "\<exists>bs'. backshift (n - 1) bs p = Some bs' \<and> tbl_ok n bs' \<and> contents bs' = contents_but bs p"
  using assms
proof (induction t arbitrary: bs p D)
  case 0
  have "b_dib (bs ! (Suc p mod n)) \<le> 1" using 0(4) by simp
  then show ?case
    using hole_finish [OF 0(1)] next_slot [OF 0(2), of p]
    by (subst backshift.simps) (simp add: contents_but_def)
next
  case (Suc t)
  have n: "1 < n" "length bs = n" "p < n" using Suc.prems by (auto simp: hole_ok_def)
  let ?q = "Suc p mod n"
  show ?case
  proof (cases "b_dib (bs ! ?q) \<le> 1")
    case True
    then show ?thesis
      using hole_finish [OF Suc.prems(1)] next_slot [OF Suc.prems(2), of p]
      by (subst backshift.simps) (simp add: contents_but_def)
  next
    case False
    let ?b = "(bs ! ?q)\<lparr>b_dib := b_dib (bs ! ?q) - 1\<rparr>"
    have q: "?q < n" "?q \<noteq> p" using n succ_slot_ne [OF n(1,3)] by auto
    have ne: "(Suc p + Suc t) mod n \<noteq> p"
      using slot_shift_ne [of "Suc (Suc t)" n p] Suc.prems(3) n by simp
    have "(Suc ?q + t) mod n = (Suc p + Suc t) mod n"
      by (metis add_Suc_shift mod_add_left_eq)
    then have "b_dib (bs[p := ?b] ! ((Suc ?q + t) mod n)) \<le> 1"
      using Suc.prems(4) ne by simp
    then have "\<exists>bs'. backshift (n - 1) (bs[p := ?b]) ?q = Some bs' \<and> tbl_ok n bs' \<and>
        contents bs' = contents_but (bs[p := ?b]) ?q"
      using Suc.IH [OF hole_shift [OF Suc.prems(1) False] Suc.prems(2)] Suc.prems(3) by simp
    moreover have "contents_but (bs[p := ?b]) ?q = contents_but bs p"
      using contents_but_shift [of p bs ?q ?b] n q False by (simp add: pair_of_def)
    ultimately show ?thesis
      using False next_slot [OF Suc.prems(2), of p] by (subst backshift.simps) simp
  qed
qed

end
