(* ===== verification/HashmapSpec.thy ===== *)
theory HashmapSpec
  imports HashmapTable
begin

text \<open>
  The operations of the hash table against their specification.  \<open>hm_ok\<close> is the invariant of a
  table, \<open>hm_lookup\<close> the item it stores for a key (a plain search of all buckets), and
  \<open>callbacks_ok\<close> what the table relies on of the caller: \<^verbatim>\<open>compare\<close> decides an equivalence that
  \<^verbatim>\<open>hash\<close> respects.
\<close>

section \<open>Invariant and lookup\<close>

definition callbacks_ok :: "('a \<Rightarrow> u64w \<Rightarrow> u64w \<Rightarrow> u64w) \<Rightarrow> ('a \<Rightarrow> 'a \<Rightarrow> int) \<Rightarrow> bool" where
  "callbacks_ok hash cmp \<longleftrightarrow> (\<forall>x. cmp x x = 0) \<and> (\<forall>x y. cmp x y = 0 \<longrightarrow> cmp y x = 0) \<and>
     (\<forall>x y z. cmp x y = 0 \<longrightarrow> cmp y z = 0 \<longrightarrow> cmp x z = 0) \<and>
     (\<forall>x y s0 s1. cmp x y = 0 \<longrightarrow> hash x s0 s1 = hash y s0 s1)"

definition hm_contents :: "'a hashmap \<Rightarrow> (u64w \<times> 'a) multiset" where
  "hm_contents m = contents (hm_buckets m)"

definition hm_ok :: "'a hashmap \<Rightarrow> bool" where
  "hm_ok m \<longleftrightarrow>
     (\<exists>k. hm_nbuckets m = 2 ^ k) \<and> (\<exists>j. hm_cap m = 2 ^ j) \<and>
     16 \<le> hm_cap m \<and> hm_cap m \<le> hm_nbuckets m \<and>
     hm_mask m = hm_nbuckets m - 1 \<and>
     hm_growat m = grow_threshold (hm_nbuckets m) \<and>
     hm_shrinkat m = shrink_threshold (hm_nbuckets m) \<and>
     tbl_ok (hm_nbuckets m) (hm_buckets m) \<and>
     hm_count m = size (hm_contents m) \<and> hm_count m \<le> hm_growat m \<and>
     (\<forall>(h, x) \<in># hm_contents m. h = get_hash m x) \<and>
     no_match (hm_compare m) (hm_contents m) \<and>
     callbacks_ok (hm_hash m) (hm_compare m)"

definition hm_lookup :: "'a hashmap \<Rightarrow> 'a \<Rightarrow> 'a option" where
  "hm_lookup m key = map_option b_item
     (List.find (\<lambda>b. b_dib b \<noteq> 0 \<and> hm_compare m key (b_item b) = 0) (hm_buckets m))"

lemma hm_okD:
  assumes "hm_ok m"
  shows "\<exists>k. hm_nbuckets m = 2 ^ k" "hm_mask m = hm_nbuckets m - 1"
    "tbl_ok (hm_nbuckets m) (hm_buckets m)" "size (contents (hm_buckets m)) < hm_nbuckets m"
    "length (hm_buckets m) = hm_nbuckets m"
    "callbacks_ok (hm_hash m) (hm_compare m)" "no_match (hm_compare m) (hm_contents m)"
proof -
  have n: "0 < hm_nbuckets m" "hm_count m = size (contents (hm_buckets m))"
    "hm_count m \<le> hm_nbuckets m * 3 div 4"
    using assms by (auto simp: hm_ok_def hm_contents_def grow_threshold_def)
  then show "size (contents (hm_buckets m)) < hm_nbuckets m" by linarith
qed (use assms in \<open>auto simp: hm_ok_def tbl_ok_def\<close>)

lemma callbacks_okD:
  assumes "callbacks_ok hash cmp"
  shows "cmp x x = 0" "cmp x y = 0 \<Longrightarrow> cmp y x = 0"
    "cmp x y = 0 \<Longrightarrow> cmp y z = 0 \<Longrightarrow> cmp x z = 0"
    "cmp x y = 0 \<Longrightarrow> hash x s0 s1 = hash y s0 s1"
  using assms unfolding callbacks_ok_def by blast+

lemma get_hash_cong:
  assumes "callbacks_ok (hm_hash m) (hm_compare m)" "hm_compare m x y = 0"
  shows "get_hash m x = get_hash m y"
  unfolding get_hash_def by (simp only: callbacks_okD(4) [OF assms])

lemma no_match_unique:
  assumes "no_match cmp M" "p \<in># M" "q \<in># M" "fst p = fst q" "cmp (snd p) (snd q) = 0"
  shows "p = q"
proof (rule ccontr)
  assume "p \<noteq> q"
  then have "q \<in># M - {#p#}" using assms(3) by (auto simp: in_diff_count)
  then have "{#p, q#} \<subseteq># M" using assms(2) by (simp add: insert_subset_eq_iff)
  then show False using assms unfolding no_match_def by blast
qed

text \<open>What a lookup finds, in terms of the contents.\<close>

lemma hm_lookup_iff:
  assumes "hm_ok m"
  shows "hm_lookup m key = Some x \<longleftrightarrow>
    (get_hash m x, x) \<in># hm_contents m \<and> hm_compare m key x = 0"
proof
  let ?P = "\<lambda>b. b_dib b \<noteq> 0 \<and> hm_compare m key (b_item b) = 0"
  assume "hm_lookup m key = Some x"
  then obtain b where "List.find ?P (hm_buckets m) = Some b" "x = b_item b"
    by (auto simp: hm_lookup_def)
  then have b: "b \<in> set (hm_buckets m)" "?P b" by (auto simp: find_Some_iff)
  then have "pair_of b \<in># hm_contents m" by (auto simp: hm_contents_def contents_def)
  moreover from this have "b_hash b = get_hash m x"
    using assms \<open>x = b_item b\<close> by (auto simp: hm_ok_def pair_of_def)
  ultimately show "(get_hash m x, x) \<in># hm_contents m \<and> hm_compare m key x = 0"
    using b \<open>x = b_item b\<close> by (simp add: pair_of_def)
next
  let ?P = "\<lambda>b. b_dib b \<noteq> 0 \<and> hm_compare m key (b_item b) = 0"
  assume r: "(get_hash m x, x) \<in># hm_contents m \<and> hm_compare m key x = 0"
  then obtain b where "b \<in> set (hm_buckets m)" "b_dib b \<noteq> 0" "b_item b = x"
    by (auto simp: hm_contents_def contents_def pair_of_def)
  then have "List.find ?P (hm_buckets m) \<noteq> None" using r by (auto simp: find_None_iff)
  then obtain c where c: "List.find ?P (hm_buckets m) = Some c" by auto
  then have c': "c \<in> set (hm_buckets m)" "?P c" by (auto simp: find_Some_iff)
  then have pc: "pair_of c \<in># hm_contents m" by (auto simp: hm_contents_def contents_def)
  then have hc: "b_hash c = get_hash m (b_item c)"
    using assms by (auto simp: hm_ok_def pair_of_def)
  have cb: "callbacks_ok (hm_hash m) (hm_compare m)" by (rule hm_okD [OF assms])
  have eq: "hm_compare m x (b_item c) = 0"
    using callbacks_okD(2,3) [OF cb] r c' by blast
  have "(get_hash m x, x) = pair_of c"
    using no_match_unique [OF hm_okD(7) [OF assms] conjunct1 [OF r] pc] eq
      get_hash_cong [OF cb eq] hc by (simp add: pair_of_def)
  then show "hm_lookup m key = Some x" using c by (simp add: hm_lookup_def pair_of_def)
qed


section \<open>Matching buckets\<close>

lemma two_slots:
  assumes "i < length bs" "j < length bs" "i \<noteq> j" "b_dib (bs ! i) \<noteq> 0" "b_dib (bs ! j) \<noteq> 0"
  shows "{#pair_of (bs ! i), pair_of (bs ! j)#} \<subseteq># contents bs"
proof -
  let ?c = "(bs ! i)\<lparr>b_dib := 0\<rparr>"
  have "contents bs = add_mset (pair_of (bs ! i)) (contents (bs[i := ?c]))"
    using contents_clear [of i bs ?c] assms by simp
  moreover have "pair_of (bs ! j) \<in># contents (bs[i := ?c])"
    using in_contentsI [of j "bs[i := ?c]"] assms by simp
  ultimately show ?thesis by simp
qed

text \<open>In a consistent table a key matches at most one bucket.\<close>

lemma hm_matches:
  assumes "hm_ok m" "j < hm_nbuckets m"
  shows "matches (hm_compare m) (get_hash m key) key (hm_buckets m ! j) \<longleftrightarrow>
    b_dib (hm_buckets m ! j) \<noteq> 0 \<and> hm_compare m key (b_item (hm_buckets m ! j)) = 0"
proof -
  let ?b = "hm_buckets m ! j"
  have "b_hash ?b = get_hash m (b_item ?b)" if "b_dib ?b \<noteq> 0"
    using in_contentsI [of j "hm_buckets m"] that assms hm_okD(5) [OF assms(1)]
    by (auto simp: hm_ok_def hm_contents_def pair_of_def)
  then show ?thesis
    using get_hash_cong [OF hm_okD(6) [OF assms(1)], of key "b_item ?b"]
    by (auto simp: matches_def)
qed

lemma hm_match_unique:
  assumes "hm_ok m" "i < hm_nbuckets m" "j < hm_nbuckets m"
    and "matches (hm_compare m) (get_hash m key) key (hm_buckets m ! i)"
    and "matches (hm_compare m) (get_hash m key) key (hm_buckets m ! j)"
  shows "i = j"
proof (rule ccontr)
  assume "i \<noteq> j"
  let ?bi = "hm_buckets m ! i" and ?bj = "hm_buckets m ! j"
  have "{#pair_of ?bi, pair_of ?bj#} \<subseteq># hm_contents m"
    using two_slots [of i "hm_buckets m" j] assms \<open>i \<noteq> j\<close> hm_okD(5) [OF assms(1)]
    by (simp add: hm_contents_def matches_def)
  moreover have "hm_compare m (b_item ?bi) (b_item ?bj) = 0"
    using callbacks_okD(2,3) [OF hm_okD(6) [OF assms(1)]] assms(4,5) unfolding matches_def by blast
  ultimately show False
    using hm_okD(7) [OF assms(1)] assms(4,5) unfolding no_match_def
    by (metis fst_conv matches_def pair_of_def snd_conv)
qed

lemma hm_lookup_cases [consumes 1]:
  assumes "hm_ok m"
  obtains (missing) "hm_lookup m key = None"
      "\<And>j. j < hm_nbuckets m \<Longrightarrow> \<not> matches (hm_compare m) (get_hash m key) key (hm_buckets m ! j)"
    | (found) s where "s < hm_nbuckets m" "hm_lookup m key = Some (b_item (hm_buckets m ! s))"
      "matches (hm_compare m) (get_hash m key) key (hm_buckets m ! s)"
      "\<And>j. j < hm_nbuckets m \<Longrightarrow> matches (hm_compare m) (get_hash m key) key (hm_buckets m ! j) \<Longrightarrow> j = s"
proof (cases "\<exists>s<hm_nbuckets m. matches (hm_compare m) (get_hash m key) key (hm_buckets m ! s)")
  case False
  have "hm_lookup m key = None"
    using False hm_matches [OF assms] hm_okD(5) [OF assms]
    by (auto simp: hm_lookup_def find_None_iff in_set_conv_nth)
  then show ?thesis using missing False by blast
next
  case True
  then obtain s where s: "s < hm_nbuckets m"
    "matches (hm_compare m) (get_hash m key) key (hm_buckets m ! s)" by blast
  have p: "pair_of (hm_buckets m ! s) \<in># hm_contents m"
    using in_contentsI [of s "hm_buckets m"] s hm_okD(5) [OF assms]
    by (simp add: hm_contents_def matches_def)
  then have "b_hash (hm_buckets m ! s) = get_hash m (b_item (hm_buckets m ! s))"
    using assms by (auto simp: hm_ok_def pair_of_def)
  then have "hm_lookup m key = Some (b_item (hm_buckets m ! s))"
    using p s by (simp add: hm_lookup_iff [OF assms] pair_of_def matches_def)
  then show ?thesis using found [OF s(1) _ s(2)] hm_match_unique [OF assms _ s(1) _ s(2)] by blast
qed

section \<open>Lookup\<close>

lemma hashmap_get_index_spec:
  assumes "hm_ok m"
  shows "\<exists>r. hashmap_get_index m key = Some r \<and>
    (case r of None \<Rightarrow> hm_lookup m key = None
     | Some s \<Rightarrow> s < hm_nbuckets m \<and> matches (hm_compare m) (get_hash m key) key (hm_buckets m ! s) \<and>
         hm_lookup m key = Some (b_item (hm_buckets m ! s)))"
proof -
  obtain k where k: "hm_nbuckets m = 2 ^ k" using hm_okD(1) [OF assms] by blast
  note ok = hm_okD [OF assms]
  show ?thesis
    using assms
  proof (cases rule: hm_lookup_cases [where key = key])
    case missing
    show ?thesis
      using missing(1) get_start_missing [OF ok(3) k ok(4) missing(2)] ok(2)
      by (simp add: hashmap_get_index_def Let_def)
  next
    case (found s)
    show ?thesis
      using found(1,2,3) get_probe_found [OF ok(3) k found(1,3,4)] ok(2)
      by (simp add: hashmap_get_index_def Let_def)
  qed
qed

lemma hashmap_get_spec:
  assumes "hm_ok m"
  shows "hashmap_get m key = Some (hm_lookup m key)"
  using hashmap_get_index_spec [OF assms, of key]
  by (auto simp: hashmap_get_def split: option.splits)


section \<open>Rehashing\<close>

lemma rehash_ok:
  assumes "tbl_ok n bs2" "n = 2 ^ k" "size (contents bs2) + size (contents es) \<le> n"
  shows "\<exists>bs'. rehash (n - 1) es bs2 = Some bs' \<and> tbl_ok n bs' \<and>
    contents bs' = contents bs2 + contents es"
  using assms(1,3)
proof (induction es arbitrary: bs2)
  case Nil
  then show ?case by (simp add: contents_def)
next
  case (Cons e es)
  show ?case
  proof (cases "b_dib e = 0")
    case True
    then show ?thesis using Cons by (simp add: contents_def)
  next
    case False
    then have c: "contents (e # es) = add_mset (pair_of e) (contents es)"
      by (simp add: contents_def)
    let ?e = "e\<lparr>b_dib := 1\<rparr>"
    have "size (contents bs2) < n" using Cons.prems(2) c by simp
    then obtain bs' where bs': "place_probe (n - 1) bs2 ?e (unat (b_hash ?e) AND (n - 1)) = Some bs'"
      "tbl_ok n bs'" "contents bs' = add_mset (pair_of ?e) (contents bs2)"
      using place_start [OF Cons.prems(1) assms(2), of ?e] by auto
    moreover have "pair_of ?e = pair_of e" by (simp add: pair_of_def)
    ultimately show ?thesis
      using Cons.IH [OF bs'(2)] Cons.prems(2) c False by simp
  qed
qed

lemma double_cap_pow2:
  assumes "0 < ncap" "cap = ncap * 2 ^ k"
  shows "double_cap ncap cap = cap"
  using assms
proof (induction k arbitrary: ncap)
  case 0
  then show ?case by (simp add: double_cap.simps)
next
  case (Suc k)
  have "0 < 2 * ncap" "cap = 2 * ncap * 2 ^ k" using Suc.prems by auto
  then have "double_cap (2 * ncap) cap = cap" by (rule Suc.IH)
  moreover have "(1::nat) < 2 ^ Suc k" by (rule one_less_power) simp_all
  then have "ncap < cap" using Suc.prems by simp
  ultimately show ?case using Suc.prems(1) by (subst double_cap.simps) simp
qed

lemma double_cap_exact:
  assumes "16 \<le> (2 ^ k :: nat)"
  shows "double_cap 16 (2 ^ k) = 2 ^ k"
proof -
  have "(2::nat) ^ 4 \<le> 2 ^ k" using assms by simp
  then have "4 \<le> k" by (simp only: power_increasing_iff)
  then have "(2::nat) ^ k = 16 * 2 ^ (k - 4)" using power_add [of "2::nat" 4 "k - 4"] by simp
  then show ?thesis by (intro double_cap_pow2) auto
qed

lemma tbl_ok_empty:
  assumes "1 < n" "n < 65535"
  shows "tbl_ok n (replicate n (empty_bucket z))" "contents (replicate n (empty_bucket z)) = {#}"
  using assms by (auto simp: tbl_ok_def rh_ok_def empty_bucket_def contents_def)

text \<open>Resizing to a power of two that still has room ends and keeps the contents.\<close>

lemma resize_ok:
  assumes "hm_ok m" "new_cap = 2 ^ k" "16 \<le> new_cap" "new_cap < 65535" "hm_cap m \<le> new_cap"
    and "hm_count m \<le> grow_threshold new_cap"
  obtains ok m' where "resize m new_cap = Some (ok, m')" "hm_ok m'"
    "hm_contents m' = hm_contents m" "hm_count m' = hm_count m"
    "hm_nbuckets m' = (if ok then new_cap else hm_nbuckets m)" "hm_oom m' = hm_oom m"
    "hm_compare m' = hm_compare m" "hm_hash m' = hm_hash m" "get_hash m' = get_hash m"
    "hm_cap m' = hm_cap m"
proof -
  have cap: "(if new_cap < 16 then 16 else double_cap 16 new_cap) = new_cap"
    using assms(2,3) double_cap_exact by auto
  have one: "1 < new_cap" using assms(3) by simp
  let ?bs2 = "replicate new_cap (empty_bucket (hm_zero m))"
  have bs: "take (hm_nbuckets m) (hm_buckets m) = hm_buckets m"
    using hm_okD(5) [OF assms(1)] by simp
  have cnt: "size (contents (hm_buckets m)) = hm_count m"
    using assms(1) by (simp add: hm_ok_def hm_contents_def)
  have room: "size (contents ?bs2) + size (contents (hm_buckets m)) \<le> new_cap"
    using tbl_ok_empty(2) [OF one assms(4), of "hm_zero m"] cnt assms(6)
    by (simp add: grow_threshold_def)
  obtain bs' where bs': "rehash (new_cap - 1) (hm_buckets m) ?bs2 = Some bs'" "tbl_ok new_cap bs'"
    "contents bs' = contents (hm_buckets m)"
    using rehash_ok [OF tbl_ok_empty(1) [OF one assms(4)] assms(2) room]
    by (auto simp: tbl_ok_empty(2) [OF one assms(4)])
  have "resize m new_cap \<noteq> None"
    using bs bs'(1) cap by (auto simp: resize_def hashmap_new_with_allocator_def Let_def)
  then obtain ok m' where r: "resize m new_cap = Some (ok, m')" by auto
  then have "hm_ok m' \<and> hm_contents m' = hm_contents m \<and> hm_count m' = hm_count m \<and>
      hm_nbuckets m' = (if ok then new_cap else hm_nbuckets m) \<and> hm_oom m' = hm_oom m \<and>
      hm_compare m' = hm_compare m \<and> hm_hash m' = hm_hash m \<and> get_hash m' = get_hash m \<and>
      hm_cap m' = hm_cap m"
    using bs bs' cap assms(1,2,3,5,6)
    by (auto simp: resize_def hashmap_new_with_allocator_def Let_def hm_ok_def hm_contents_def
        get_hash_def fun_eq_iff split: if_splits)
  then show ?thesis using that [OF r] by blast
qed

section \<open>Insertion\<close>

lemma no_match_add:
  assumes "no_match cmp C" "\<And>q. q \<in># C \<Longrightarrow> fst p = fst q \<Longrightarrow> cmp (snd p) (snd q) \<noteq> 0"
    and sym: "\<And>x y. cmp x y = 0 \<Longrightarrow> cmp y x = 0"
  shows "no_match cmp (add_mset p C)"
  unfolding no_match_def
proof (intro allI impI notI)
  fix q r assume sub: "{#q, r#} \<subseteq># add_mset p C" and eq: "fst q = fst r \<and> cmp (snd q) (snd r) = 0"
  consider "q = p" "r \<in># C" | "r = p" "q \<in># C" | "{#q, r#} \<subseteq># C"
    using sub by (cases "q = p"; cases "r = p")
      (auto simp: insert_subset_eq_iff in_diff_count subset_eq_diff_conv)
  then show False
  proof cases
    case 1
    then show ?thesis using assms(2) [of r] eq by simp
  next
    case 2
    then show ?thesis using assms(2) [of q] eq sym by fastforce
  next
    case 3
    then show ?thesis using assms(1) eq unfolding no_match_def by blast
  qed
qed

lemma no_match_subset: "no_match cmp M \<Longrightarrow> N \<subseteq># M \<Longrightarrow> no_match cmp N"
  unfolding no_match_def by (meson subset_mset.order_trans)


lemma hm_ok_oom [simp]:
  "hm_ok (m\<lparr>hm_oom := b\<rparr>) = hm_ok m" "hm_contents (m\<lparr>hm_oom := b\<rparr>) = hm_contents m"
  "hm_lookup (m\<lparr>hm_oom := b\<rparr>) = hm_lookup m" "get_hash (m\<lparr>hm_oom := b\<rparr>) = get_hash m"
  by (simp_all add: hm_ok_def hm_contents_def hm_lookup_def get_hash_def fun_eq_iff)

lemma get_hash_upd [simp]:
  "get_hash (m\<lparr>hm_buckets := bs\<rparr>) = get_hash m" "get_hash (m\<lparr>hm_count := c\<rparr>) = get_hash m"
  by (simp_all add: get_hash_def fun_eq_iff)

text \<open>A table whose contents gain an item, or exchange one for an equivalent one.\<close>

lemma hm_lookup_by_contents:
  assumes "hm_ok m" "hm_ok m'" "hm_compare m' = hm_compare m" "get_hash m' = get_hash m"
    and "\<And>x. (get_hash m x, x) \<in># hm_contents m' \<and> hm_compare m key x = 0 \<longleftrightarrow> r = Some x"
  shows "hm_lookup m' key = r"
proof (cases r)
  case None
  then show ?thesis
    using assms(5) hm_lookup_iff [OF assms(2), of key] assms(3,4) by (cases "hm_lookup m' key") auto
next
  case (Some x)
  then show ?thesis using assms(5) [of x] hm_lookup_iff [OF assms(2), of key x] assms(3,4) by simp
qed

lemma set_insert:
  assumes "hm_ok m" "hm_count m < hm_growat m"
    and "\<And>j. j < hm_nbuckets m \<Longrightarrow> \<not> matches (hm_compare m) (get_hash m item) item (hm_buckets m ! j)"
  defines "e \<equiv> \<lparr>b_hash = get_hash m item, b_dib = 1, b_item = item\<rparr>"
  obtains bs where
    "set_probe (hm_compare m) (hm_mask m) (hm_buckets m) e (unat (b_hash e) AND hm_mask m) = Some (bs, None)"
    "hm_ok (m\<lparr>hm_buckets := bs, hm_count := hm_count m + 1\<rparr>)"
    "contents bs = add_mset (get_hash m item, item) (hm_contents m)"
proof -
  note ok = hm_okD [OF assms(1)]
  obtain k where k: "hm_nbuckets m = 2 ^ k" using ok(1) by blast
  have pe: "pair_of e = (get_hash m item, item)" by (simp add: e_def pair_of_def)
  have nm: "no_match (hm_compare m) (add_mset (pair_of e) (contents (hm_buckets m)))"
  proof (rule no_match_add)
    show "no_match (hm_compare m) (contents (hm_buckets m))"
      using ok(7) by (simp add: hm_contents_def)
    show "hm_compare m x y = 0 \<Longrightarrow> hm_compare m y x = 0" for x y
      by (rule callbacks_okD(2) [OF ok(6)])
    fix q assume q: "q \<in># contents (hm_buckets m)" "fst (pair_of e) = fst q"
    obtain j where "j < hm_nbuckets m" "b_dib (hm_buckets m ! j) \<noteq> 0" "q = pair_of (hm_buckets m ! j)"
      using q(1) ok(5) by (metis in_contentsE)
    then show "hm_compare m (snd (pair_of e)) (snd q) \<noteq> 0"
      using assms(3) [of j] q(2) by (auto simp: e_def matches_def pair_of_def)
  qed
  have d: "b_dib e = 1" by (simp add: e_def)
  obtain bs where bs: "set_probe (hm_compare m) (hm_nbuckets m - 1) (hm_buckets m) e
      (unat (b_hash e) AND (hm_nbuckets m - 1)) = Some (bs, None)"
    "tbl_ok (hm_nbuckets m) bs" "contents bs = add_mset (pair_of e) (contents (hm_buckets m))"
    using set_start_insert [OF ok(3) k d ok(4) nm] by blast
  have "hm_ok (m\<lparr>hm_buckets := bs, hm_count := hm_count m + 1\<rparr>)"
    using assms(1,2) bs(2,3) nm pe
    by (auto simp: hm_ok_def hm_contents_def get_hash_def)
  then show ?thesis using that bs(1,3) ok(2) pe by (simp add: hm_contents_def)
qed


lemma set_replace:
  assumes "hm_ok m" "s < hm_nbuckets m"
    and "matches (hm_compare m) (get_hash m item) item (hm_buckets m ! s)"
    and "\<And>j. j < hm_nbuckets m \<Longrightarrow>
      matches (hm_compare m) (get_hash m item) item (hm_buckets m ! j) \<Longrightarrow> j = s"
  defines "e \<equiv> \<lparr>b_hash = get_hash m item, b_dib = 1, b_item = item\<rparr>"
    and "old \<equiv> b_item (hm_buckets m ! s)"
    and "bs \<equiv> (hm_buckets m)[s := (hm_buckets m ! s)\<lparr>b_item := item\<rparr>]"
  shows "set_probe (hm_compare m) (hm_mask m) (hm_buckets m) e (unat (b_hash e) AND hm_mask m)
      = Some (bs, Some old)"
    and "add_mset (get_hash m old, old) (contents bs) = add_mset (get_hash m item, item) (hm_contents m)"
    and "hm_ok (m\<lparr>hm_buckets := bs\<rparr>)"
proof -
  note ok = hm_okD [OF assms(1)]
  obtain k where k: "hm_nbuckets m = 2 ^ k" using ok(1) by blast
  let ?b = "(hm_buckets m ! s)\<lparr>b_item := item\<rparr>"
  have occ: "b_dib (hm_buckets m ! s) \<noteq> 0" "b_hash (hm_buckets m ! s) = get_hash m item"
    "hm_compare m item old = 0"
    using assms(3) by (auto simp: matches_def old_def)
  have h: "get_hash m old = get_hash m item"
    using get_hash_cong [OF ok(6) occ(3)] by simp
  have pair: "pair_of (hm_buckets m ! s) = (get_hash m old, old)" "pair_of ?b = (get_hash m item, item)"
    using occ h by (auto simp: pair_of_def old_def)
  show "set_probe (hm_compare m) (hm_mask m) (hm_buckets m) e (unat (b_hash e) AND hm_mask m)
      = Some (bs, Some old)"
    using set_probe_replace [OF ok(3) k assms(2) ok(4), of e "hm_compare m"] assms(3,4) ok(2)
    by (simp add: e_def bs_def old_def)
  show c: "add_mset (get_hash m old, old) (contents bs) =
      add_mset (get_hash m item, item) (hm_contents m)"
    using contents_update_occupied [of s "hm_buckets m" ?b] assms(2) ok(5) occ(1) pair
    by (simp add: bs_def hm_contents_def)
  have old_in: "(get_hash m old, old) \<in># hm_contents m"
    using in_contentsI [of s "hm_buckets m"] assms(2) ok(5) occ(1) pair by (simp add: hm_contents_def)
  then obtain R where R: "hm_contents m = add_mset (get_hash m old, old) R"
    by (metis multi_member_split)
  then have cb: "contents bs = add_mset (get_hash m item, item) R"
    using c by (auto simp: add_eq_conv_ex)
  have nm: "no_match (hm_compare m) (contents bs)"
    unfolding cb
  proof (rule no_match_add)
    have "R \<subseteq># hm_contents m" using R by simp
    then show "no_match (hm_compare m) R" by (rule no_match_subset [OF ok(7)])
    show "hm_compare m x y = 0 \<Longrightarrow> hm_compare m y x = 0" for x y
      by (rule callbacks_okD(2) [OF ok(6)])
    fix q assume q: "q \<in># R" "fst (get_hash m item, item) = fst q"
    have "\<not> (get_hash m old = fst q \<and> hm_compare m old (snd q) = 0)"
      using no_matchD [of "hm_compare m" "(get_hash m old, old)" R q] ok(7) q(1) R by simp
    then show "hm_compare m (snd (get_hash m item, item)) (snd q) \<noteq> 0"
      using q(2) h occ(3) callbacks_okD(2,3) [OF ok(6)] by (metis fst_conv snd_conv)
  qed
  have tb: "tbl_ok (hm_nbuckets m) bs"
    unfolding bs_def by (rule tbl_ok_same_position [OF ok(3)]) simp_all
  have "\<forall>(h, x) \<in># contents bs. h = get_hash m x"
    using assms(1) R cb by (auto simp: hm_ok_def)
  then show "hm_ok (m\<lparr>hm_buckets := bs\<rparr>)"
    using assms(1) tb nm R cb by (auto simp: hm_ok_def hm_contents_def get_hash_def)
qed

lemma hm_lookup_insert:
  assumes "hm_ok m" "hm_ok m'" "hm_compare m' = hm_compare m" "get_hash m' = get_hash m"
    and "hm_lookup m item = None" "hm_contents m' = add_mset (get_hash m item, item) (hm_contents m)"
  shows "hm_lookup m' key = (if hm_compare m key item = 0 then Some item else hm_lookup m key)"
proof (rule hm_lookup_by_contents [OF assms(1-4)])
  fix x
  note cb = hm_okD(6) [OF assms(1)]
  have "(get_hash m y, y) \<notin># hm_contents m" if "hm_compare m item y = 0" for y
    using assms(5) that hm_lookup_iff [OF assms(1), of item y] by simp
  then have "(get_hash m x, x) \<notin># hm_contents m"
    if "hm_compare m key x = 0" "hm_compare m key item = 0"
    using that callbacks_okD(2,3) [OF cb] by blast
  then show "(get_hash m x, x) \<in># hm_contents m' \<and> hm_compare m key x = 0 \<longleftrightarrow>
      (if hm_compare m key item = 0 then Some item else hm_lookup m key) = Some x"
    using hm_lookup_iff [OF assms(1), of key x] assms(6) by auto
qed

lemma hm_lookup_replace:
  assumes "hm_ok m" "hm_ok m'" "hm_compare m' = hm_compare m" "get_hash m' = get_hash m"
    and "hm_lookup m item = Some old"
    and "add_mset (get_hash m old, old) (hm_contents m') = add_mset (get_hash m item, item) (hm_contents m)"
  shows "hm_lookup m' key = (if hm_compare m key item = 0 then Some item else hm_lookup m key)"
proof (rule hm_lookup_by_contents [OF assms(1-4)])
  fix x
  note ok = hm_okD [OF assms(1)] and cb = hm_okD(6) [OF assms(1)]
  have old: "(get_hash m old, old) \<in># hm_contents m" "hm_compare m item old = 0"
    using assms(5) hm_lookup_iff [OF assms(1), of item old] by auto
  then obtain R where R: "hm_contents m = add_mset (get_hash m old, old) R"
    by (metis multi_member_split)
  then have c': "hm_contents m' = add_mset (get_hash m item, item) R"
    using assms(6) by (auto simp: add_eq_conv_ex)
  have noR: "(get_hash m y, y) \<notin># R" if "hm_compare m item y = 0" for y
  proof
    assume y: "(get_hash m y, y) \<in># R"
    have eq: "hm_compare m old y = 0" using that old(2) callbacks_okD(2,3) [OF cb] by blast
    then show False
      using no_matchD [of "hm_compare m" "(get_hash m old, old)" R "(get_hash m y, y)"] ok(7) R y
        get_hash_cong [OF cb eq] by simp
  qed
  show "(get_hash m x, x) \<in># hm_contents m' \<and> hm_compare m key x = 0 \<longleftrightarrow>
      (if hm_compare m key item = 0 then Some item else hm_lookup m key) = Some x"
  proof (cases "hm_compare m key item = 0")
    case True
    then have "(get_hash m x, x) \<notin># R" if "hm_compare m key x = 0"
      using that noR callbacks_okD(2,3) [OF cb] by blast
    then show ?thesis using True c' by auto
  next
    case False
    then have "hm_compare m key old \<noteq> 0" using old(2) callbacks_okD(2,3) [OF cb] by blast
    then show ?thesis
      using False c' R hm_lookup_iff [OF assms(1), of key x] by auto
  qed
qed


text \<open>Inserting into a table with room: the probe ends and the result maps the key to the item.\<close>

lemma set_core:
  fixes m :: "'a hashmap" and item :: 'a
  assumes "hm_ok m" "hm_count m < hm_growat m"
  defines "e \<equiv> \<lparr>b_hash = get_hash m item, b_dib = 1, b_item = item\<rparr>"
  obtains bs r where
    "set_probe (hm_compare m) (hm_mask m) (hm_buckets m) e (unat (b_hash e) AND hm_mask m) = Some (bs, r)"
    "r = hm_lookup m item"
    "hm_ok (case r of None \<Rightarrow> m\<lparr>hm_buckets := bs, hm_count := hm_count m + 1\<rparr> | Some _ \<Rightarrow> m\<lparr>hm_buckets := bs\<rparr>)"
    "\<And>key. hm_lookup (case r of None \<Rightarrow> m\<lparr>hm_buckets := bs, hm_count := hm_count m + 1\<rparr>
                              | Some _ \<Rightarrow> m\<lparr>hm_buckets := bs\<rparr>) key =
       (if hm_compare m key item = 0 then Some item else hm_lookup m key)"
  using assms(1)
proof (cases rule: hm_lookup_cases [where key = item])
  case missing
  obtain bs where bs:
    "set_probe (hm_compare m) (hm_mask m) (hm_buckets m) e (unat (b_hash e) AND hm_mask m) = Some (bs, None)"
    "hm_ok (m\<lparr>hm_buckets := bs, hm_count := hm_count m + 1\<rparr>)"
    "contents bs = add_mset (get_hash m item, item) (hm_contents m)"
    unfolding e_def by (rule set_insert [OF assms(1,2) missing(2)])
  have "hm_lookup (m\<lparr>hm_buckets := bs, hm_count := hm_count m + 1\<rparr>) key =
      (if hm_compare m key item = 0 then Some item else hm_lookup m key)" for key
    by (rule hm_lookup_insert [OF assms(1) bs(2) _ _ missing(1)])
      (simp_all add: bs(3) hm_contents_def)
  then show ?thesis using that [OF bs(1)] bs(2) missing(1) by simp
next
  case (found s)
  let ?bs = "(hm_buckets m)[s := (hm_buckets m ! s)\<lparr>b_item := item\<rparr>]"
  note r = set_replace [OF assms(1) found(1,3,4)]
  have c: "hm_contents (m\<lparr>hm_buckets := ?bs\<rparr>) = contents ?bs" by (simp add: hm_contents_def)
  have "hm_lookup (m\<lparr>hm_buckets := ?bs\<rparr>) key =
      (if hm_compare m key item = 0 then Some item else hm_lookup m key)" for key
    by (rule hm_lookup_replace [OF assms(1) r(3) _ _ found(2)])
      (simp_all add: c r(2))
  then show ?thesis using that [of ?bs] r(1,3) found(2) by (simp add: e_def)
qed

lemma hashmap_set_spec:
  assumes "hm_ok m" "hm_count m = hm_growat m \<Longrightarrow> 2 * hm_nbuckets m < 65535"
  obtains old m' where "hashmap_set m item = Some (old, m')" "hm_ok m'"
    "hm_compare m' = hm_compare m" "hm_hash m' = hm_hash m"
    "hm_oom m' \<Longrightarrow> old = None \<and> hm_lookup m' = hm_lookup m"
    "\<not> hm_oom m' \<Longrightarrow> old = hm_lookup m item"
    "\<And>key. \<not> hm_oom m' \<Longrightarrow>
       hm_lookup m' key = (if hm_compare m key item = 0 then Some item else hm_lookup m key)"
    "hm_nbuckets m' = hm_nbuckets m \<or>
       hm_nbuckets m' = 2 * hm_nbuckets m \<and> hm_count m = grow_threshold (hm_nbuckets m)"
proof -
  let ?m0 = "m\<lparr>hm_oom := False\<rparr>"
  have ok0: "hm_ok ?m0" using assms(1) by simp
  let ?step = "if hm_count ?m0 = hm_growat ?m0 then resize ?m0 (hm_nbuckets ?m0 * 2) else Some (True, ?m0)"
  obtain go m1 where m1: "?step = Some (go, m1)" "hm_ok m1" "hm_contents m1 = hm_contents m"
    "hm_compare m1 = hm_compare m" "hm_hash m1 = hm_hash m" "get_hash m1 = get_hash m" "\<not> hm_oom m1"
    "go \<longrightarrow> hm_count m1 < hm_growat m1"
    "hm_nbuckets m1 = hm_nbuckets m \<or>
       hm_nbuckets m1 = 2 * hm_nbuckets m \<and> hm_count m = grow_threshold (hm_nbuckets m)"
  proof (cases "hm_count m = hm_growat m")
    case True
    obtain k where k: "hm_nbuckets m = 2 ^ k" using hm_okD(1) [OF assms(1)] by blast
    have b: "hm_nbuckets ?m0 * 2 = 2 ^ Suc k" "16 \<le> hm_nbuckets ?m0 * 2"
      "hm_nbuckets ?m0 * 2 < 65535" "hm_cap ?m0 \<le> hm_nbuckets ?m0 * 2"
      "hm_count ?m0 \<le> grow_threshold (hm_nbuckets ?m0 * 2)"
      using assms k True by (auto simp: hm_ok_def grow_threshold_def)
    obtain go m1 where m1: "resize ?m0 (hm_nbuckets ?m0 * 2) = Some (go, m1)" "hm_ok m1"
      "hm_contents m1 = hm_contents ?m0" "hm_count m1 = hm_count ?m0"
      "hm_nbuckets m1 = (if go then hm_nbuckets ?m0 * 2 else hm_nbuckets ?m0)" "hm_oom m1 = hm_oom ?m0"
      "hm_compare m1 = hm_compare ?m0" "hm_hash m1 = hm_hash ?m0" "get_hash m1 = get_hash ?m0"
      using resize_ok [OF ok0 b] by metis
    have "hm_count m1 < hm_growat m1" if go
    proof -
      have "hm_growat m1 = hm_nbuckets m * 2 * 3 div 4" "hm_count m1 \<le> hm_nbuckets m * 3 div 4"
        "16 \<le> hm_nbuckets m"
        using m1(2,4,5) assms(1) that by (auto simp: hm_ok_def grow_threshold_def)
      then show ?thesis by linarith
    qed
    moreover have "hm_count m = grow_threshold (hm_nbuckets m)" using True assms(1) by (simp add: hm_ok_def)
    ultimately show ?thesis using that [of go m1] m1 True by auto
  next
    case False
    then show ?thesis using that [of True ?m0] assms(1) by (auto simp: hm_ok_def)
  qed
  have look: "hm_lookup m1 = hm_lookup m"
    by (rule ext, rule hm_lookup_by_contents [OF assms(1) m1(2,4,6)])
      (auto simp: m1(3) hm_lookup_iff [OF assms(1)])
  show ?thesis
  proof (cases go)
    case False
    then have "hashmap_set m item = Some (None, m1\<lparr>hm_oom := True\<rparr>)"
      using m1(1) by (simp add: hashmap_set_def Let_def)
    then show ?thesis using that [of None "m1\<lparr>hm_oom := True\<rparr>"] m1 look by simp
  next
    case True
    then have "hm_count m1 < hm_growat m1" using m1(8) by simp
    from set_core [OF m1(2) this, of item] obtain bs r where bs:
      "set_probe (hm_compare m1) (hm_mask m1) (hm_buckets m1)
         \<lparr>b_hash = get_hash m1 item, b_dib = 1, b_item = item\<rparr>
         (unat (b_hash \<lparr>b_hash = get_hash m1 item, b_dib = 1, b_item = item\<rparr>) AND hm_mask m1)
         = Some (bs, r)"
      "r = hm_lookup m1 item"
      "hm_ok (case r of None \<Rightarrow> m1\<lparr>hm_buckets := bs, hm_count := hm_count m1 + 1\<rparr>
                      | Some _ \<Rightarrow> m1\<lparr>hm_buckets := bs\<rparr>)"
      "\<And>key. hm_lookup (case r of None \<Rightarrow> m1\<lparr>hm_buckets := bs, hm_count := hm_count m1 + 1\<rparr>
                      | Some _ \<Rightarrow> m1\<lparr>hm_buckets := bs\<rparr>) key =
         (if hm_compare m1 key item = 0 then Some item else hm_lookup m1 key)"
      by metis
    let ?m' = "case r of None \<Rightarrow> m1\<lparr>hm_buckets := bs, hm_count := hm_count m1 + 1\<rparr>
                       | Some _ \<Rightarrow> m1\<lparr>hm_buckets := bs\<rparr>"
    have set: "hashmap_set m item = Some (r, ?m')"
      using True m1(1) bs(1) by (simp add: hashmap_set_def Let_def split: option.splits)
    have "hm_oom ?m' = hm_oom m1" "hm_compare ?m' = hm_compare m1" "hm_hash ?m' = hm_hash m1"
      "hm_nbuckets ?m' = hm_nbuckets m1"
      by (simp_all split: option.split)
    then have fr: "hm_compare ?m' = hm_compare m" "hm_hash ?m' = hm_hash m" "\<not> hm_oom ?m'"
      "hm_nbuckets ?m' = hm_nbuckets m1"
      using m1(4,5,7) by simp_all
    have l: "hm_lookup ?m' key = (if hm_compare m key item = 0 then Some item else hm_lookup m key)" for key
      using bs(4) [of key] m1(4) look by simp
    show ?thesis
      by (rule that [OF set bs(3) fr(1,2)]) (use fr(3,4) l bs(2) look m1(9) in simp_all)
  qed
qed


section \<open>Deletion\<close>

lemma backshift_start:
  assumes "tbl_ok n bs" "n = 2 ^ k" "size (contents bs) < n" "p < n" "b_dib (bs ! p) \<noteq> 0"
  obtains bs' where "backshift (n - 1) (bs[p := (bs ! p)\<lparr>b_dib := 0\<rparr>]) p = Some bs'" "tbl_ok n bs'"
    "add_mset (pair_of (bs ! p)) (contents bs') = contents bs"
proof -
  let ?c = "(bs ! p)\<lparr>b_dib := 0\<rparr>"
  let ?bs = "bs[p := ?c]"
  have n: "0 < n" "1 < n" "length bs = n" using assms(1) by (auto simp: tbl_ok_def)
  obtain z where z: "z < n" "b_dib (bs ! z) = 0" using ex_empty_slot assms(3) n by metis
  have sp: "Suc p mod n < n" using n by simp
  obtain t where t: "t < n" "z = (Suc p mod n + t) mod n" by (rule slot_after [OF n(1) sp z(1)])
  then have zt: "z = (Suc p + t) mod n" by (simp add: mod_simps)
  have "Suc t \<noteq> n"
  proof
    assume "Suc t = n"
    then have "z = (p + n) mod n" using zt by (metis add_Suc_shift)
    then show False using z(2) assms(4,5) by simp
  qed
  then have "Suc t < n" using t by simp
  moreover have "b_dib (?bs ! ((Suc p + t) mod n)) \<le> 1"
    using z zt assms(5) n by (metis eq_imp_le nth_list_update_neq le0)
  ultimately obtain bs' where bs': "backshift (n - 1) ?bs p = Some bs'" "tbl_ok n bs'"
    "contents bs' = contents_but ?bs p"
    using backshift_ok [OF hole_start [OF assms(1,4)] assms(2)] by blast
  have "contents_but ?bs p = contents ?bs" using n assms(4) by (simp add: contents_but_def)
  then show ?thesis
    using that [OF bs'(1,2)] bs'(3) contents_clear [of p bs ?c] n assms(4,5) by simp
qed

lemma hm_lookup_delete:
  assumes "hm_ok m" "hm_ok m'" "hm_compare m' = hm_compare m" "get_hash m' = get_hash m"
    and "hm_lookup m item = Some old"
    and "add_mset (get_hash m old, old) (hm_contents m') = hm_contents m"
  shows "hm_lookup m' key = (if hm_compare m key item = 0 then None else hm_lookup m key)"
proof (rule hm_lookup_by_contents [OF assms(1-4)])
  fix x
  note ok = hm_okD [OF assms(1)] and cb = hm_okD(6) [OF assms(1)]
  have old: "hm_compare m item old = 0"
    using assms(5) hm_lookup_iff [OF assms(1), of item old] by auto
  have noR: "(get_hash m y, y) \<notin># hm_contents m'" if "hm_compare m item y = 0" for y
  proof
    assume y: "(get_hash m y, y) \<in># hm_contents m'"
    have eq: "hm_compare m old y = 0" using that old callbacks_okD(2,3) [OF cb] by blast
    have "no_match (hm_compare m) (add_mset (get_hash m old, old) (hm_contents m'))"
      using ok(7) assms(6) by simp
    then show False
      using no_matchD [OF _ y] get_hash_cong [OF cb eq] eq by fastforce
  qed
  show "(get_hash m x, x) \<in># hm_contents m' \<and> hm_compare m key x = 0 \<longleftrightarrow>
      (if hm_compare m key item = 0 then None else hm_lookup m key) = Some x"
  proof (cases "hm_compare m key item = 0")
    case True
    then show ?thesis using noR callbacks_okD(2,3) [OF cb] by (metis option.distinct(1))
  next
    case False
    then have "hm_compare m key old \<noteq> 0" using old callbacks_okD(2,3) [OF cb] by blast
    then show ?thesis
      using False hm_lookup_iff [OF assms(1), of key x] unfolding assms(6) [symmetric] by auto
  qed
qed

text \<open>Removing the entry in a matching bucket, before any resizing.\<close>

lemma delete_core:
  assumes "hm_ok m" "s < hm_nbuckets m" "b_dib (hm_buckets m ! s) \<noteq> 0"
  obtains bs where
    "backshift (hm_mask m) ((hm_buckets m)[s := (hm_buckets m ! s)\<lparr>b_dib := 0\<rparr>]) s = Some bs"
    "hm_ok (m\<lparr>hm_buckets := bs, hm_count := hm_count m - 1\<rparr>)"
    "add_mset (pair_of (hm_buckets m ! s)) (contents bs) = hm_contents m"
proof -
  note ok = hm_okD [OF assms(1)]
  obtain k where k: "hm_nbuckets m = 2 ^ k" using ok(1) by blast
  obtain bs where bs: "backshift (hm_nbuckets m - 1) ((hm_buckets m)[s := (hm_buckets m ! s)\<lparr>b_dib := 0\<rparr>]) s
      = Some bs" "tbl_ok (hm_nbuckets m) bs"
    "add_mset (pair_of (hm_buckets m ! s)) (contents bs) = contents (hm_buckets m)"
    by (rule backshift_start [OF ok(3) k ok(4) assms(2,3)])
  have c: "hm_contents m = add_mset (pair_of (hm_buckets m ! s)) (contents bs)"
    using bs(3) by (simp add: hm_contents_def)
  then have "contents bs \<subseteq># hm_contents m" by simp
  then have nm: "no_match (hm_compare m) (contents bs)" by (rule no_match_subset [OF ok(7)])
  have "\<forall>(h, x) \<in># contents bs. h = get_hash m x"
    using assms(1) c by (auto simp: hm_ok_def)
  then have "hm_ok (m\<lparr>hm_buckets := bs, hm_count := hm_count m - 1\<rparr>)"
    using assms(1) bs(2) nm c by (auto simp: hm_ok_def hm_contents_def get_hash_def)
  then show ?thesis using that bs(1) c ok(2) by simp
qed

lemma hashmap_delete_spec:
  assumes "hm_ok m"
  obtains old m' where "hashmap_delete m key = Some (old, m')" "hm_ok m'"
    "hm_compare m' = hm_compare m" "hm_hash m' = hm_hash m" "\<not> hm_oom m'"
    "old = hm_lookup m key"
    "\<And>x. hm_lookup m' x = (if hm_compare m x key = 0 then None else hm_lookup m x)"
    "hm_nbuckets m' \<le> hm_nbuckets m"
proof -
  let ?m0 = "m\<lparr>hm_oom := False\<rparr>"
  have ok0: "hm_ok ?m0" using assms by simp
  note ok = hm_okD [OF assms] and cb = hm_okD(6) [OF assms]
  obtain r where r: "hashmap_get_index ?m0 key = Some r"
    "case r of None \<Rightarrow> hm_lookup m key = None
     | Some s \<Rightarrow> s < hm_nbuckets m \<and> matches (hm_compare m) (get_hash m key) key (hm_buckets m ! s) \<and>
         hm_lookup m key = Some (b_item (hm_buckets m ! s))"
    using hashmap_get_index_spec [OF ok0, of key] by (auto split: option.splits)
  show ?thesis
  proof (cases r)
    case None
    have "hm_lookup m x = None" if "hm_compare m x key = 0" for x
    proof (rule ccontr)
      assume "hm_lookup m x \<noteq> None"
      then obtain y where y: "(get_hash m y, y) \<in># hm_contents m" "hm_compare m x y = 0"
        using hm_lookup_iff [OF assms, of x] by auto
      then have "hm_compare m key y = 0" using that callbacks_okD(2,3) [OF cb] by blast
      then show False using y(1) hm_lookup_iff [OF assms, of key y] r(2) None by simp
    qed
    then show ?thesis
      using that [of None ?m0] r None assms by (simp add: hashmap_delete_def Let_def)
  next
    case (Some s)
    let ?old = "b_item (hm_buckets m ! s)"
    have s: "s < hm_nbuckets m" "b_dib (hm_buckets m ! s) \<noteq> 0" "hm_lookup m key = Some ?old"
      "b_hash (hm_buckets m ! s) = get_hash m key" "hm_compare m key ?old = 0"
      using r(2) Some by (auto simp: matches_def)
    obtain bs where bs:
      "backshift (hm_mask ?m0) ((hm_buckets ?m0)[s := (hm_buckets ?m0 ! s)\<lparr>b_dib := 0\<rparr>]) s = Some bs"
      "hm_ok (?m0\<lparr>hm_buckets := bs, hm_count := hm_count ?m0 - 1\<rparr>)"
      "add_mset (pair_of (hm_buckets ?m0 ! s)) (contents bs) = hm_contents ?m0"
      by (rule delete_core [OF ok0]) (use s in simp_all)
    define m1 where "m1 = ?m0\<lparr>hm_buckets := bs, hm_count := hm_count ?m0 - 1\<rparr>"
    have m1: "hm_ok m1" "hm_compare m1 = hm_compare m" "hm_hash m1 = hm_hash m" "get_hash m1 = get_hash m"
      "\<not> hm_oom m1" "hm_nbuckets m1 = hm_nbuckets m" "hm_cap m1 = hm_cap m"
      using bs(2) by (auto simp: m1_def)
    have pair: "pair_of (hm_buckets m ! s) = (get_hash m ?old, ?old)"
      using s(4) get_hash_cong [OF cb s(5)] by (simp add: pair_of_def)
    have c1: "add_mset (get_hash m ?old, ?old) (hm_contents m1) = hm_contents m"
      using bs(3) pair by (simp add: m1_def hm_contents_def)
    have look: "hm_lookup m' x = (if hm_compare m x key = 0 then None else hm_lookup m x)"
      if "hm_ok m'" "hm_compare m' = hm_compare m" "get_hash m' = get_hash m"
        "hm_contents m' = hm_contents m1" for m' x
      by (rule hm_lookup_delete [OF assms that(1,2,3) s(3)]) (simp add: that(4) c1)
    show ?thesis
    proof (cases "hm_nbuckets m1 > hm_cap m1 \<and> hm_count m1 \<le> hm_shrinkat m1")
      case False
      then have "hashmap_delete m key = Some (Some ?old, m1)"
        using r(1) Some bs(1) by (auto simp: hashmap_delete_def Let_def m1_def)
      then show ?thesis
        by (rule that) (use m1 s(3) look [OF m1(1,2,4)] in simp_all)
    next
      case True
      obtain k where k: "hm_nbuckets m = 2 ^ k" using ok(1) by blast
      obtain j where j: "hm_cap m = 2 ^ j" "16 \<le> hm_cap m" using assms by (auto simp: hm_ok_def)
      have "j < k" using True m1(6,7) k j(1) by simp
      then obtain k' where k': "k = Suc k'" "j \<le> k'" by (cases k) auto
      then have half: "hm_nbuckets m div 2 = 2 ^ (k - 1)" "hm_cap m \<le> hm_nbuckets m div 2"
        using k j(1) by auto
      have "hm_count m1 \<le> hm_nbuckets m div 10" "hm_nbuckets m < 65535"
        using True m1(1,6) ok(3) by (auto simp: hm_ok_def shrink_threshold_def tbl_ok_def)
      then have b: "hm_nbuckets m1 div 2 = 2 ^ (k - 1)" "16 \<le> hm_nbuckets m1 div 2"
        "hm_nbuckets m1 div 2 < 65535" "hm_cap m1 \<le> hm_nbuckets m1 div 2"
        "hm_count m1 \<le> grow_threshold (hm_nbuckets m1 div 2)"
        using half j(2) m1(6,7) by (auto simp: grow_threshold_def)
      obtain okr m2 where m2: "resize m1 (hm_nbuckets m1 div 2) = Some (okr, m2)" "hm_ok m2"
        "hm_contents m2 = hm_contents m1" "hm_oom m2 = hm_oom m1"
        "hm_nbuckets m2 = (if okr then hm_nbuckets m1 div 2 else hm_nbuckets m1)"
        "hm_compare m2 = hm_compare m1" "hm_hash m2 = hm_hash m1" "get_hash m2 = get_hash m1"
        using resize_ok [OF m1(1) b] by metis
      then have "hashmap_delete m key = Some (Some ?old, m2)"
        using r(1) Some bs(1) True by (simp add: hashmap_delete_def Let_def m1_def)
      then show ?thesis
        by (rule that) (use m1 m2 s(3) look [of m2] in simp_all)
    qed
  qed
qed


section \<open>Creation, clearing and traversal\<close>

lemma hashmap_new_ok:
  assumes "hashmap_new_with_allocator mal req elsize cap0 seed0 seed1 hash compare elfree zero
      = (Some m, req')"
    and "callbacks_ok hash compare" "cap0 \<le> 16384"
  shows "hm_ok m \<and> hm_lookup m = (\<lambda>_. None) \<and> cap0 \<le> hm_nbuckets m \<and>
    hm_compare m = compare \<and> hm_hash m = hash"
proof -
  let ?cap = "if cap0 < 16 then 16 else double_cap 16 cap0"
  have pow: "\<exists>k. double_cap n c = n * 2 ^ k \<and> c \<le> double_cap n c" if "0 < n" for n c
    using that
  proof (induction n c rule: double_cap.induct)
    case (1 n c)
    show ?case
    proof (cases "n < c")
      case True
      then obtain k where "double_cap (2 * n) c = 2 * n * 2 ^ k" "c \<le> double_cap (2 * n) c"
        using 1 by auto
      then have "double_cap n c = n * 2 ^ Suc k" "c \<le> double_cap n c"
        using True 1(2) by (subst double_cap.simps, simp)+
      then show ?thesis by blast
    next
      case False
      then have "double_cap n c = n * 2 ^ 0" "c \<le> double_cap n c"
        by (subst double_cap.simps, simp)+
      then show ?thesis by blast
    qed
  qed
  have bound: "double_cap n c \<le> max n (2 * c)" if "0 < n" for n c
    using that
  proof (induction n c rule: double_cap.induct)
    case (1 n c)
    have "double_cap n c = (if n < c then double_cap (2 * n) c else n)"
      using 1(2) by (subst double_cap.simps) simp
    then show ?case using 1 by (cases "n < c") auto
  qed
  obtain q where q: "double_cap 16 cap0 = 16 * 2 ^ q" using pow [of 16 cap0] by auto
  have "(16::nat) = 2 ^ 4" "16 * 2 ^ q = (2::nat) ^ (4 + q)" by (simp_all add: power_add)
  then have k: "\<exists>k. ?cap = 2 ^ k" using q by metis
  have c: "16 \<le> ?cap" "cap0 \<le> ?cap" "?cap < 65535"
    using pow [of 16 cap0] bound [of 16 cap0] assms(3) by auto
  have t: "tbl_ok ?cap (replicate ?cap (empty_bucket zero))" "contents (replicate ?cap (empty_bucket zero)) = {#}"
    using tbl_ok_empty [of ?cap zero] c by auto
  have nm: "no_match compare {#}" by (simp add: no_match_def)
  have m: "hm_nbuckets m = ?cap" "hm_cap m = ?cap" "hm_mask m = ?cap - 1" "hm_count m = 0"
    "hm_growat m = grow_threshold ?cap" "hm_shrinkat m = shrink_threshold ?cap"
    "hm_buckets m = replicate ?cap (empty_bucket zero)" "hm_compare m = compare" "hm_hash m = hash"
    using assms(1) unfolding hashmap_new_with_allocator_def Let_def by (auto split: if_splits)
  have "hm_ok m"
    unfolding hm_ok_def hm_contents_def m using k c t nm assms(2) by simp
  moreover have "hm_lookup m = (\<lambda>_. None)"
    unfolding hm_lookup_def m by (auto simp: fun_eq_iff find_None_iff empty_bucket_def)
  ultimately show ?thesis using c m by simp
qed

lemma hashmap_clear_ok:
  assumes "hm_ok m" "hashmap_clear m update_cap = (freed, m')"
  shows "hm_ok m' \<and> hm_lookup m' = (\<lambda>_. None) \<and>
    freed = (if hm_elfree m then map b_item (filter (\<lambda>b. b_dib b \<noteq> 0) (hm_buckets m)) else [])"
proof -
  note ok = hm_okD [OF assms(1)]
  let ?n = "if update_cap then hm_nbuckets m else hm_cap m"
  have n: "16 \<le> ?n" "?n \<le> hm_nbuckets m" "hm_nbuckets m < 65535" "\<exists>k. ?n = 2 ^ k"
    using assms(1) ok(1,3) by (auto simp: hm_ok_def tbl_ok_def)
  have t: "tbl_ok ?n (replicate ?n (empty_bucket (hm_zero m)))"
    "contents (replicate ?n (empty_bucket (hm_zero m))) = {#}"
    using tbl_ok_empty [of ?n "hm_zero m"] n by auto
  have nm: "no_match (hm_compare m) {#}" by (simp add: no_match_def)
  have m: "hm_nbuckets m' = ?n" "hm_cap m' = ?n" "hm_mask m' = ?n - 1" "hm_count m' = 0"
    "hm_growat m' = grow_threshold ?n" "hm_shrinkat m' = shrink_threshold ?n"
    "hm_buckets m' = replicate ?n (empty_bucket (hm_zero m))" "hm_compare m' = hm_compare m"
    "hm_hash m' = hm_hash m"
    using assms(2) n(2) ok(5) by (auto simp: hashmap_clear_def Let_def split: if_splits)
  have "hm_ok m'"
    unfolding hm_ok_def hm_contents_def m using n t nm ok(6) by simp
  moreover have "hm_lookup m' = (\<lambda>_. None)"
    unfolding hm_lookup_def m by (auto simp: fun_eq_iff find_None_iff empty_bucket_def)
  ultimately show ?thesis
    using assms(2) by (auto simp: hashmap_clear_def free_elements_def Let_def)
qed


text \<open>\<^verbatim>\<open>hashmap_scan\<close> visits exactly the stored items, in bucket order, until the callback stops it.\<close>

lemma scan_all:
  assumes "\<And>x s. fst (iter x s)"
  shows "scan_buckets iter bs s =
    (True, fold (\<lambda>x s. snd (iter x s)) (map b_item (filter (\<lambda>b. b_dib b \<noteq> 0) bs)) s)"
proof (induction bs arbitrary: s)
  case Nil
  then show ?case by simp
next
  case (Cons b bs)
  obtain s' where "iter (b_item b) s = (True, s')"
    using assms [of "b_item b" s] by (metis prod.collapse)
  then show ?case using Cons by (cases "b_dib b = 0") simp_all
qed

text \<open>The cursor of \<^verbatim>\<open>hashmap_iter\<close> runs through the same sequence.\<close>

lemma hashmap_iter_step:
  assumes "length (hm_buckets m) = hm_nbuckets m"
  shows "map b_item (filter (\<lambda>b. b_dib b \<noteq> 0) (drop i (hm_buckets m))) =
    (case hashmap_iter m i of None \<Rightarrow> []
     | Some (x, j) \<Rightarrow> x # map b_item (filter (\<lambda>b. b_dib b \<noteq> 0) (drop j (hm_buckets m))))"
  using assms
proof (induction m i rule: hashmap_iter.induct)
  case (1 m i)
  show ?case
  proof (cases "hm_nbuckets m \<le> i")
    case True
    then show ?thesis using 1(2) by (simp add: hashmap_iter.simps)
  next
    case False
    then have "drop i (hm_buckets m) = hm_buckets m ! i # drop (Suc i) (hm_buckets m)"
      using 1(2) by (simp add: Cons_nth_drop_Suc)
    then show ?thesis
      using 1 False by (subst hashmap_iter.simps) (auto split: option.splits)
  qed
qed

section \<open>The contract of a keyed store\<close>

text \<open>
  What a client of a table of keyed items relies on.  \<open>look m k\<close> is the item stored for a key,
  \<open>eqv m\<close> says which items carry the same key, \<open>room m\<close> is the precondition of an insertion and
  \<open>failed m\<close> tells that the insertion just made ran out of memory.
\<close>

locale keyed_store =
  fixes inv :: "'m \<Rightarrow> bool" and room :: "'m \<Rightarrow> bool" and look :: "'m \<Rightarrow> 'e \<Rightarrow> 'e option"
    and eqv :: "'m \<Rightarrow> 'e \<Rightarrow> 'e \<Rightarrow> bool" and failed :: "'m \<Rightarrow> bool"
    and get :: "'m \<Rightarrow> 'e \<Rightarrow> 'e option option"
    and put :: "'m \<Rightarrow> 'e \<Rightarrow> ('e option \<times> 'm) option"
    and del :: "'m \<Rightarrow> 'e \<Rightarrow> ('e option \<times> 'm) option"
  assumes get: "inv m \<Longrightarrow> get m k = Some (look m k)"
    and put: "inv m \<Longrightarrow> room m \<Longrightarrow> \<exists>old m'. put m e = Some (old, m') \<and> inv m' \<and> eqv m' = eqv m \<and>
      (if failed m' then old = None \<and> look m' = look m
       else old = look m e \<and> (\<forall>k. look m' k = (if eqv m k e then Some e else look m k)))"
    and del: "inv m \<Longrightarrow> \<exists>old m'. del m k = Some (old, m') \<and> inv m' \<and> eqv m' = eqv m \<and>
      old = look m k \<and> (\<forall>x. look m' x = (if eqv m x k then None else look m x))"
    and look_eqv: "inv m \<Longrightarrow> look m k = Some x \<Longrightarrow> eqv m k x"
    and eqv_refl: "inv m \<Longrightarrow> eqv m x x"
begin

definition all_items :: "('e \<Rightarrow> bool) \<Rightarrow> 'm \<Rightarrow> bool" where
  "all_items P m \<longleftrightarrow> (\<forall>k x. look m k = Some x \<longrightarrow> P x)"

lemma put_get:
  assumes "inv m" "room m" "put m e = Some (old, m')" "\<not> failed m'"
  shows "get m' e = Some (Some e)"
  using put [OF assms(1,2), of e] get [of m' e] eqv_refl [OF assms(1), of e] assms(3,4) by auto

lemma del_get:
  assumes "inv m" "del m k = Some (old, m')"
  shows "get m' k = Some None"
  using del [OF assms(1), of k] get [of m' k] eqv_refl [OF assms(1), of k] assms(2) by auto

lemma put_all:
  assumes "inv m" "room m" "all_items P m" "P e" "put m e = Some (old, m')"
  shows "inv m' \<and> all_items P m'"
  using put [OF assms(1,2), of e] assms(3,4,5) unfolding all_items_def by (auto split: if_splits)

lemma del_all:
  assumes "inv m" "all_items P m" "del m k = Some (old, m')"
  shows "inv m' \<and> all_items P m'"
  using del [OF assms(1), of k] assms(2,3) unfolding all_items_def by (auto split: if_splits)

text \<open>Putting an item and deleting its key again leaves every other key as it was.\<close>

lemma put_del:
  assumes "inv m" "room m" "put m e = Some (old, m1)" "\<not> failed m1" "del m1 e = Some (old', m2)"
  shows "inv m2 \<and> old' = Some e \<and> (\<forall>k. look m2 k = (if eqv m k e then None else look m k))"
proof -
  have 1: "inv m1" "eqv m1 = eqv m" "\<And>k. look m1 k = (if eqv m k e then Some e else look m k)"
    using put [OF assms(1,2), of e] assms(3,4) by auto
  then show ?thesis
    using del [OF 1(1), of e] assms(5) eqv_refl [OF assms(1), of e] by auto
qed

end

interpretation hm: keyed_store hm_ok
    "\<lambda>m. hm_count m = hm_growat m \<longrightarrow> 2 * hm_nbuckets m < 65535" hm_lookup
    "\<lambda>m x y. hm_compare m x y = 0" hm_oom hashmap_get hashmap_set hashmap_delete
proof (unfold_locales, goal_cases)
  case (1 m k) then show ?case by (rule hashmap_get_spec)
next
  case (2 m e) then show ?case by (metis hashmap_set_spec)
next
  case (3 m k) then show ?case by (metis hashmap_delete_spec)
next
  case (4 m k x) then show ?case by (simp add: hm_lookup_iff)
next
  case (5 m x) show ?case by (rule callbacks_okD(1) [OF hm_okD(6) [OF 5]])
qed

section \<open>Properties\<close>

text \<open>A table of numbers, for the witnesses.\<close>

definition num_table :: "nat hashmap" where
  "num_table = the (fst (hashmap_new_with_allocator (\<lambda>k n. True) 0 8 16 0 0
     (\<lambda>x s0 s1. of_nat x) (\<lambda>x y. int x - int y) False 0))"

lemma num_callbacks: "callbacks_ok (\<lambda>x s0 s1. of_nat x) (\<lambda>x y. int x - int y)"
  by (auto simp: callbacks_ok_def)

lemma num_table_new:
  "hashmap_new_with_allocator (\<lambda>k n. True) 0 8 16 0 0
     (\<lambda>x s0 s1. of_nat x) (\<lambda>x y. int x - int y) False 0 = (Some num_table, 2)"
  by (simp add: hashmap_new_with_allocator_def Let_def num_table_def)

lemma num_table_ok:
  "hm_ok num_table" "hm_lookup num_table = (\<lambda>_. None)" "hm_compare num_table = (\<lambda>x y. int x - int y)"
  using hashmap_new_ok [OF num_table_new num_callbacks] by auto

lemma num_table_room: "hm_count num_table \<noteq> hm_growat num_table" "hm_nbuckets num_table = 16"
  by (simp_all add: num_table_def hashmap_new_with_allocator_def Let_def double_cap.simps grow_threshold_def)

definition num_table_7 :: "nat hashmap" where
  "num_table_7 = snd (the (hashmap_set num_table 7))"

text \<open>C14: \<^verbatim>\<open>hashmap_set\<close> always returns.  It keeps the table's invariant (Robin Hood order, distances,
  count, load factor) and either reports exhausted memory with the contents unchanged, or returns the
  item it replaced and afterwards exactly the items with an equal key find the new item.\<close>

theorem hashmap_set_correct:
  assumes "hm_ok m" "hm_count m = hm_growat m \<longrightarrow> 2 * hm_nbuckets m < 65535"
  shows "\<exists>old m'. hashmap_set m item = Some (old, m') \<and> hm_ok m' \<and> hm_compare m' = hm_compare m \<and>
    (if hashmap_oom m' then old = None \<and> hm_lookup m' = hm_lookup m
     else old = hm_lookup m item \<and>
       (\<forall>key. hm_lookup m' key = (if hm_compare m key item = 0 then Some item else hm_lookup m key)))"
  using assms by (metis hashmap_set_spec hashmap_oom_def)

theorem hashmap_set_correct_witness:
  "\<exists>old m'. hashmap_set num_table 7 = Some (old, m') \<and> hm_ok m' \<and>
    (\<not> hashmap_oom m' \<longrightarrow> hm_lookup m' 7 = Some 7)"
proof -
  have "hm_count num_table = hm_growat num_table \<longrightarrow> 2 * hm_nbuckets num_table < 65535"
    using num_table_room by simp
  from hashmap_set_correct [OF num_table_ok(1) this, of 7] show ?thesis
    unfolding num_table_ok(2,3) by (auto split: if_splits)
qed

text \<open>C30: \<^verbatim>\<open>hashmap_get\<close> always returns, and returns the item a plain search of all buckets finds.\<close>

theorem hashmap_get_correct:
  assumes "hm_ok m"
  shows "hashmap_get m key = Some (hm_lookup m key)"
  by (rule hashmap_get_spec [OF assms])

theorem hashmap_get_correct_witness: "hashmap_get num_table 5 = Some None"
  using hashmap_get_correct [OF num_table_ok(1)] num_table_ok(2) by simp

text \<open>C16: \<^verbatim>\<open>hashmap_delete\<close> always returns the item that was stored, keeps the invariant through the
  backward shift and the optional shrink, and afterwards exactly the items with an equal key are gone.\<close>

theorem hashmap_delete_correct:
  assumes "hm_ok m"
  shows "\<exists>m'. hashmap_delete m key = Some (hm_lookup m key, m') \<and> hm_ok m' \<and>
    (\<forall>x. hm_lookup m' x = (if hm_compare m x key = 0 then None else hm_lookup m x))"
  using assms by (metis hashmap_delete_spec)

theorem hashmap_delete_correct_witness:
  "\<exists>m'. hashmap_delete num_table 5 = Some (None, m') \<and> hm_ok m'"
  using hashmap_delete_correct [OF num_table_ok(1), of 5] num_table_ok(2) by auto

text \<open>Storing an item and deleting its key again returns that item and leaves what every other key
  finds as it was before.\<close>

theorem hashmap_set_delete_roundtrip:
  assumes "hm_ok m" "hm_count m = hm_growat m \<longrightarrow> 2 * hm_nbuckets m < 65535"
    and "hashmap_set m e = Some (old, m1)" "\<not> hashmap_oom m1" "hashmap_delete m1 e = Some (old', m2)"
  shows "hm_ok m2 \<and> old' = Some e \<and>
    (\<forall>k. hm_lookup m2 k = (if hm_compare m k e = 0 then None else hm_lookup m k))"
  using hm.put_del [OF assms(1,2,3) _ assms(5)] assms(4) by (simp add: hashmap_oom_def)

lemma num_table_set_7: "hashmap_set num_table 7 = Some (None, num_table_7)" "\<not> hashmap_oom num_table_7"
proof -
  let ?bs = "(hm_buckets num_table)[7 := \<lparr>b_hash = 7, b_dib = 1, b_item = 7\<rparr>]"
  have t: "hm_mask num_table = 15" "hm_buckets num_table = replicate 16 (empty_bucket 0)"
    "get_hash num_table 7 = 7" "hm_oom num_table = False"
    by (simp_all add: num_table_def hashmap_new_with_allocator_def Let_def double_cap.simps get_hash_def)
  have "set_probe (hm_compare num_table) 15 (hm_buckets num_table)
      \<lparr>b_hash = 7, b_dib = 1, b_item = 7\<rparr> 7 = Some (?bs, None)"
    by (subst set_probe.simps) (simp add: t empty_bucket_def)
  then have "hashmap_set num_table 7 =
      Some (None, num_table\<lparr>hm_oom := False, hm_buckets := ?bs, hm_count := hm_count num_table + 1\<rparr>)"
    using num_table_room t by (simp add: hashmap_set_def Let_def)
  then show "hashmap_set num_table 7 = Some (None, num_table_7)" "\<not> hashmap_oom num_table_7"
    by (simp_all add: num_table_7_def hashmap_oom_def)
qed

theorem hashmap_set_delete_roundtrip_witness:
  "\<exists>m2. hashmap_delete num_table_7 7 = Some (Some 7, m2) \<and> hm_ok m2 \<and> hm_lookup m2 7 = None"
proof -
  have room: "hm_count num_table = hm_growat num_table \<longrightarrow> 2 * hm_nbuckets num_table < 65535"
    using num_table_room by simp
  have "hm_ok num_table_7"
    using hm.put [OF num_table_ok(1) room, of 7] num_table_set_7(1) by auto
  then obtain old m2 where d: "hashmap_delete num_table_7 7 = Some (old, m2)"
    by (metis hashmap_delete_spec)
  from hashmap_set_delete_roundtrip [OF num_table_ok(1) room num_table_set_7 d] show ?thesis
    using d by (auto simp: num_table_ok(3))
qed

lemma items_eq: "mset (map b_item (filter (\<lambda>b. b_dib b \<noteq> 0) bs)) = image_mset snd (contents bs)"
  by (simp add: contents_def pair_of_def image_mset.compositionality comp_def)

lemma fold_collect: "fold (\<lambda>x s. x # s) xs s = rev xs @ s"
  by (induction xs arbitrary: s) auto

text \<open>\<^verbatim>\<open>hashmap_scan\<close> with a callback that never stops hands over every stored item exactly once: as
  many items as \<^verbatim>\<open>hashmap_count\<close> says, no two of them with equal keys, and the set of items that a
  lookup can find.\<close>

theorem hashmap_scan_visits_all:
  assumes "hm_ok m" "hashmap_scan m (\<lambda>x s. (True, x # s)) [] = (r, items)"
  shows "r \<and> length items = hashmap_count m \<and> set items = ran (hm_lookup m)"
proof -
  note ok = hm_okD [OF assms(1)]
  let ?items = "map b_item (filter (\<lambda>b. b_dib b \<noteq> 0) (hm_buckets m))"
  have i: "r" "items = rev ?items"
    using assms(2) scan_all [of "\<lambda>x s. (True, x # s)" "hm_buckets m" "[]"] ok(5)
    by (simp_all add: hashmap_scan_def fold_collect)
  have "length items = hashmap_count m"
    using assms(1) i(2) items_eq [of "hm_buckets m"]
    by (metis hashmap_count_def hm_contents_def hm_ok_def length_rev size_image_mset size_mset)
  moreover have "set items = snd ` set_mset (hm_contents m)"
    using i(2) arg_cong [OF items_eq [of "hm_buckets m"], of set_mset] by (simp add: hm_contents_def)
  moreover have "snd ` set_mset (hm_contents m) = ran (hm_lookup m)"
  proof
    show "snd ` set_mset (hm_contents m) \<subseteq> ran (hm_lookup m)"
    proof
      fix x assume "x \<in> snd ` set_mset (hm_contents m)"
      then obtain h where "(h, x) \<in># hm_contents m" by force
      then have "(get_hash m x, x) \<in># hm_contents m" using assms(1) by (auto simp: hm_ok_def)
      then have "hm_lookup m x = Some x"
        using hm_lookup_iff [OF assms(1)] callbacks_okD(1) [OF ok(6)] by simp
      then show "x \<in> ran (hm_lookup m)" by (rule ranI)
    qed
    show "ran (hm_lookup m) \<subseteq> snd ` set_mset (hm_contents m)"
      using hm_lookup_iff [OF assms(1)] by (auto simp: ran_def image_iff Bex_def)
  qed
  ultimately show ?thesis using i(1) by simp
qed

theorem hashmap_scan_visits_all_witness:
  "snd (hashmap_scan num_table (\<lambda>x s. (True, x # s)) []) = []"
  using hashmap_scan_visits_all [OF num_table_ok(1) surjective_pairing] num_table_ok(2)
  by (simp add: ran_def)

end
