(* ===== verification/HashFns.thy ===== *)
theory HashFns
  imports Prelude
begin

text \<open>
  The two hash functions at the end of \<^verbatim>\<open>src/containers/hashmap.c\<close>: SipHash-2-4 (\<^verbatim>\<open>SIP64\<close>) and the
  128-bit x86 variant of MurmurHash3 (\<^verbatim>\<open>MM86128\<close>), on machine words, with the fall-through
  \<^verbatim>\<open>switch\<close> over the tail bytes written out case by case.
\<close>

unbundle bit_operations_syntax

type_synonym u32w = "32 word"

section \<open>SipHash\<close>

definition ROTL :: "u64w \<Rightarrow> nat \<Rightarrow> u64w" where
  "ROTL x b = push_bit b x OR drop_bit (64 - b) x"

definition U8TO64_LE :: "byte list \<Rightarrow> u64w" where
  "U8TO64_LE p = ucast (p ! 0) OR push_bit 8 (ucast (p ! 1)) OR push_bit 16 (ucast (p ! 2)) OR
     push_bit 24 (ucast (p ! 3)) OR push_bit 32 (ucast (p ! 4)) OR push_bit 40 (ucast (p ! 5)) OR
     push_bit 48 (ucast (p ! 6)) OR push_bit 56 (ucast (p ! 7))"

type_synonym sip_state = "u64w \<times> u64w \<times> u64w \<times> u64w"

fun SIPROUND :: "sip_state \<Rightarrow> sip_state" where
  "SIPROUND (v0, v1, v2, v3) =
     (let v0 = v0 + v1; v1 = ROTL v1 13;
          v1 = v1 XOR v0; v0 = ROTL v0 32;
          v2 = v2 + v3; v3 = ROTL v3 16;
          v3 = v3 XOR v2;
          v0 = v0 + v3; v3 = ROTL v3 21;
          v3 = v3 XOR v0;
          v2 = v2 + v1; v1 = ROTL v1 17;
          v1 = v1 XOR v2; v2 = ROTL v2 32
      in (v0, v1, v2, v3))"

definition sip_absorb :: "u64w \<Rightarrow> sip_state \<Rightarrow> sip_state" where
  "sip_absorb m s =
     (case s of (v0, v1, v2, v3) \<Rightarrow>
        (case SIPROUND (SIPROUND (v0, v1, v2, v3 XOR m)) of
           (v0, v1, v2, v3) \<Rightarrow> (v0 XOR m, v1, v2, v3)))"

text \<open>The main loop: the state after the whole 8-byte blocks, and the bytes left.\<close>

fun sip_blocks :: "byte list \<Rightarrow> sip_state \<Rightarrow> sip_state \<times> byte list" where
  "sip_blocks inp s =
     (if length inp < 8 then (s, inp)
      else sip_blocks (drop 8 inp) (sip_absorb (U8TO64_LE inp) s))"

declare sip_blocks.simps [simp del]

text \<open>The \<^verbatim>\<open>switch (left)\<close>: the case with \<open>k\<close> bytes left falls through to all smaller ones.\<close>

primrec sip_tail :: "byte list \<Rightarrow> nat \<Rightarrow> u64w \<Rightarrow> u64w" where
  "sip_tail inp 0 b = b"
| "sip_tail inp (Suc k) b = sip_tail inp k (b OR push_bit (8 * k) (ucast (inp ! k)))"

definition SIP64 :: "byte list \<Rightarrow> u64w \<Rightarrow> u64w \<Rightarrow> u64w" where
  "SIP64 inp k0 k1 =
     (let v3 = 0x7465646279746573 XOR k1;
          v2 = 0x6c7967656e657261 XOR k0;
          v1 = 0x646f72616e646f6d XOR k1;
          v0 = 0x736f6d6570736575 XOR k0
      in case sip_blocks inp (v0, v1, v2, v3) of
           (s, rest) \<Rightarrow>
             (let b = sip_tail rest (length inp mod 8) (push_bit 56 (of_nat (length inp)))
              in case sip_absorb b s of
                   (v0, v1, v2, v3) \<Rightarrow>
                     (case SIPROUND (SIPROUND (SIPROUND (SIPROUND (v0, v1, v2 XOR 0xff, v3)))) of
                        (v0, v1, v2, v3) \<Rightarrow> v0 XOR v1 XOR v2 XOR v3)))"

definition hashmap_sip :: "byte list \<Rightarrow> u64w \<Rightarrow> u64w \<Rightarrow> u64w" where
  "hashmap_sip data seed0 seed1 = SIP64 data seed0 seed1"

section \<open>MurmurHash3\<close>

definition ROTL32 :: "u32w \<Rightarrow> nat \<Rightarrow> u32w" where
  "ROTL32 x r = push_bit r x OR drop_bit (32 - r) x"

definition FMIX32 :: "u32w \<Rightarrow> u32w" where
  "FMIX32 h =
     (let h = h XOR drop_bit 16 h; h = h * 0x85ebca6b; h = h XOR drop_bit 13 h;
          h = h * 0xc2b2ae35
      in h XOR drop_bit 16 h)"

definition le32 :: "byte list \<Rightarrow> u32w" where
  "le32 p = ucast (p ! 0) OR push_bit 8 (ucast (p ! 1)) OR push_bit 16 (ucast (p ! 2)) OR
     push_bit 24 (ucast (p ! 3))"

definition mm_c1 :: u32w where "mm_c1 = 0x239b961b"

definition mm_c2 :: u32w where "mm_c2 = 0xab0e9789"

definition mm_c3 :: u32w where "mm_c3 = 0x38b34ae5"

definition mm_c4 :: u32w where "mm_c4 = 0xa1e38b93"

type_synonym mm_state = "u32w \<times> u32w \<times> u32w \<times> u32w"

text \<open>\<^verbatim>\<open>k *= c; k = ROTL32(k, r); k *= c'\<close>\<close>

definition mm_mix :: "u32w \<Rightarrow> nat \<Rightarrow> u32w \<Rightarrow> u32w \<Rightarrow> u32w" where
  "mm_mix c r c' k = ROTL32 (k * c) r * c'"

definition mm_block :: "byte list \<Rightarrow> mm_state \<Rightarrow> mm_state" where
  "mm_block p h =
     (case h of (h1, h2, h3, h4) \<Rightarrow>
        (let h1 = (ROTL32 (h1 XOR mm_mix mm_c1 15 mm_c2 (le32 p)) 19 + h2) * 5 + 0x561ccd1b;
             h2 = (ROTL32 (h2 XOR mm_mix mm_c2 16 mm_c3 (le32 (drop 4 p))) 17 + h3) * 5 + 0x0bcaa747;
             h3 = (ROTL32 (h3 XOR mm_mix mm_c3 17 mm_c4 (le32 (drop 8 p))) 15 + h4) * 5 + 0x96cd1c35;
             h4 = (ROTL32 (h4 XOR mm_mix mm_c4 18 mm_c1 (le32 (drop 12 p))) 13 + h1) * 5 + 0x32ac3b17
         in (h1, h2, h3, h4)))"

fun mm_blocks :: "byte list \<Rightarrow> mm_state \<Rightarrow> mm_state \<times> byte list" where
  "mm_blocks p h =
     (if length p < 16 then (h, p) else mm_blocks (drop 16 p) (mm_block p h))"

declare mm_blocks.simps [simp del]

text \<open>The bytes of tail position \<open>from\<close> up to \<open>n\<close>, at most four, gathered into one word.\<close>

definition mm_gather :: "byte list \<Rightarrow> nat \<Rightarrow> u32w" where
  "mm_gather tail from =
     fold (\<lambda>i k. k XOR push_bit (8 * i) (ucast (tail ! (from + i))))
       (rev [0 ..< min 4 (length tail - from)]) 0"

definition mm_tail :: "byte list \<Rightarrow> mm_state \<Rightarrow> mm_state" where
  "mm_tail tail h =
     (case h of (h1, h2, h3, h4) \<Rightarrow>
        (let h4 = (if length tail > 12 then h4 XOR mm_mix mm_c4 18 mm_c1 (mm_gather tail 12) else h4);
             h3 = (if length tail > 8 then h3 XOR mm_mix mm_c3 17 mm_c4 (mm_gather tail 8) else h3);
             h2 = (if length tail > 4 then h2 XOR mm_mix mm_c2 16 mm_c3 (mm_gather tail 4) else h2);
             h1 = (if length tail > 0 then h1 XOR mm_mix mm_c1 15 mm_c2 (mm_gather tail 0) else h1)
         in (h1, h2, h3, h4)))"

text \<open>\<^verbatim>\<open>h1 += h2; h1 += h3; h1 += h4; h2 += h1; h3 += h1; h4 += h1\<close>\<close>

definition mm_sum :: "mm_state \<Rightarrow> mm_state" where
  "mm_sum h = (case h of (h1, h2, h3, h4) \<Rightarrow>
     (let h1 = h1 + h2 + h3 + h4 in (h1, h2 + h1, h3 + h1, h4 + h1)))"

definition MM86128 :: "byte list \<Rightarrow> u32w \<Rightarrow> mm_state" where
  "MM86128 key seed =
     (case mm_blocks key (seed, seed, seed, seed) of
        (h, tail) \<Rightarrow>
          (case mm_tail tail h of
             (h1, h2, h3, h4) \<Rightarrow>
               (let len = of_nat (length key)
                in case mm_sum (h1 XOR len, h2 XOR len, h3 XOR len, h4 XOR len) of
                     (h1, h2, h3, h4) \<Rightarrow> mm_sum (FMIX32 h1, FMIX32 h2, FMIX32 h3, FMIX32 h4))))"

text \<open>The first eight bytes of the result, read as one 64-bit little-endian word; the 64-bit seed
  is cut to 32 bits by the call.\<close>

definition hashmap_murmur :: "byte list \<Rightarrow> u64w \<Rightarrow> u64w \<Rightarrow> u64w" where
  "hashmap_murmur data seed0 seed1 =
     (case MM86128 data (ucast seed0) of (h1, h2, h3, h4) \<Rightarrow> ucast h1 OR push_bit 32 (ucast h2))"

end
