(* ===== verification/BlockCache.thy ===== *)
theory BlockCache
  imports HashmapSpec HashFns
begin

text \<open>
  The per-device sector cache of \<^verbatim>\<open>src/fs/block_cache.c\<close>: a hash table from sector numbers to
  buffers and a lazy least-recently-used queue of sector numbers.

  \<^item> Sector buffers live in the store \<open>bc_bufs\<close>, so that freeing a buffer through a stale pointer
    is visible; an entry holds the address of its buffer.
  \<^item> \<open>bc_alloc k st\<close> is the answer of \<^verbatim>\<open>buddy_malloc\<close> to the cache's request number \<open>k\<close> while the
    buffers \<open>st\<close> are in use (\<open>0\<close> for failure), \<open>bc_node k n\<close> whether request number \<open>k\<close>, for a queue
    node while the queue has \<open>n\<close> nodes, succeeds.
  \<^item> A pointer into the hash table, as \<^verbatim>\<open>hashmap_get\<close> returns it, is the index of the bucket.
  \<^item> The result \<open>None\<close> stands for a loop without end or a read through a dangling pointer.
  \<^item> The spinlock is not modelled: each operation runs with it held.
\<close>

section \<open>The model\<close>

datatype fs_error =
    FS_ERR_NO_ERROR | FS_ERR_UNSUPPORTED | FS_ERR_NO_MORE_FDS | FS_ERR_INVALID_FD
  | FS_ERR_INVALID_ARG | FS_ERR_NO_SUCH_DIRECTORY | FS_ERR_INVALID_FILEPATH | FS_ERR_FILE_EXISTS
  | FS_ERR_OUT_OF_MEMORY | FS_ERR_IO | FS_ERR_SEEK_PAST_END | FS_ERR_NOT_OPEN_FOR_OUTPUT
  | FS_ERR_NOT_OPEN_FOR_INPUT | FS_ERR_TRUNCATE_BEYOND_LENGTH | FS_ERR_NO_SUCH_FILE
  | FS_ERR_INVALID_FILENAME | FS_ERR_CYCLE_DETECTED | FS_ERR_BROKEN_DIRECTORY
  | FS_ERR_INVALID_GEOMETRY | FS_ERR_NO_SPACE | FS_ERR_OUTSIDE_VOLUME | FS_ERR_NOT_RFS
  | FS_ERR_NOT_A_FILE | FS_ERR_VFS_DATA | FS_ERR_NOT_A_DIRECTORY | FS_ERR_DIRECTORY_NOT_EMPTY
  | FS_ERR_FILE_HAS_VANISHED | FS_ERR_DIRECTORY_EXISTS | FS_ERR_INVALID_PVD | FS_ERR_INVALID_SVD
  | FS_ERR_OVERSIZED_DIRECTORY | FS_ERR_BUFFER_WOULD_OVERFLOW | FS_ERR_NO_SUCH_DEVICE
  | FS_ERR_LFN_TOO_LONG | FS_ERR_IS_EXFAT | FS_ERR_BAD_CLUSTER | FS_ERR_INTERNAL
  | FS_ERR_OUT_OF_BOUNDS | FS_ERR_AHCI_HOSTBUS_FATAL | FS_ERR_AHCI_HOSTBUS_DATA
  | FS_ERR_AHCI_LINK_ERROR | FS_ERR_AHCI_TASKFILE | FS_ERR_ATAPI_CHECK | FS_ERR_TIMEOUT
  | FS_ERR_NO_MEDIA | FS_ERR_DEVICE_LOCKED | FS_ERR_DEVICE_BUSY | FS_ERR_DEVICE_UNSUPPORTED
  | FS_ERR_HW_ERROR | FS_ERR_DATA_ERROR | FS_ERR_SPACE_MAP_CHECKSUM

record block_cache_entry =
  be_lba :: nat
  be_buf :: nat
  be_used :: nat

record block_cache =
  bc_devsize :: nat
  bc_sector :: nat
  bc_cap :: nat
  bc_map :: "block_cache_entry hashmap"
  bc_lru :: "nat list"
  bc_lru_count :: nat
  bc_tick :: nat
  bc_bufs :: "nat \<rightharpoonup> byte list"
  bc_alloc :: "nat \<Rightarrow> (nat \<rightharpoonup> byte list) \<Rightarrow> nat"
  bc_node :: "nat \<Rightarrow> nat \<Rightarrow> bool"
  bc_requests :: nat
  bc_error :: "fs_error option"

definition BLOCK_CACHE_SECTOR_CAP :: nat where
  "BLOCK_CACHE_SECTOR_CAP = 8192"

definition CACHE_HASH_SEED0 :: u64w where
  "CACHE_HASH_SEED0 = 1469598103934665603"

definition CACHE_HASH_SEED1 :: u64w where
  "CACHE_HASH_SEED1 = 1099511628211"

definition cache_compare :: "block_cache_entry \<Rightarrow> block_cache_entry \<Rightarrow> int" where
  "cache_compare a b =
     (if be_lba a < be_lba b then -1 else if be_lba a > be_lba b then 1 else 0)"

definition cache_hash :: "block_cache_entry \<Rightarrow> u64w \<Rightarrow> u64w \<Rightarrow> u64w" where
  "cache_hash e seed0 seed1 = hashmap_sip (le_bytes 8 (be_lba e)) seed0 seed1"

text \<open>\<^verbatim>\<open>block_cache_entry_t find = { .lba = lba }\<close>\<close>

definition key_entry :: "nat \<Rightarrow> block_cache_entry" where
  "key_entry lba = \<lparr>be_lba = lba, be_buf = 0, be_used = 0\<rparr>"

text \<open>A store through the pointer to the entry in bucket \<open>i\<close>.\<close>

definition set_item :: "'a hashmap \<Rightarrow> nat \<Rightarrow> ('a \<Rightarrow> 'a) \<Rightarrow> 'a hashmap" where
  "set_item m i f = m\<lparr>hm_buckets := (hm_buckets m)[i :=
     (hm_buckets m ! i)\<lparr>b_item := f (b_item (hm_buckets m ! i))\<rparr>]\<rparr>"

definition cache_alloc :: "block_cache \<Rightarrow> nat \<times> block_cache" where
  "cache_alloc c = (bc_alloc c (bc_requests c) (bc_bufs c), c\<lparr>bc_requests := Suc (bc_requests c)\<rparr>)"

definition cache_free_buf :: "block_cache \<Rightarrow> nat \<Rightarrow> block_cache" where
  "cache_free_buf c p = (if p = 0 then c else c\<lparr>bc_bufs := (bc_bufs c)(p := None)\<rparr>)"

definition U32 :: nat where
  "U32 = 2 ^ 32"

text \<open>\<^verbatim>\<open>lru_touch\<close> always appends a fresh node.\<close>

definition lru_touch :: "block_cache \<Rightarrow> nat \<Rightarrow> bool \<times> block_cache" where
  "lru_touch c lba =
     (let c1 = c\<lparr>bc_requests := Suc (bc_requests c)\<rparr>
      in if \<not> bc_node c (bc_requests c) (length (bc_lru c)) then (False, c1)
         else (True, c1\<lparr>bc_lru := bc_lru c1 @ [lba], bc_lru_count := (bc_lru_count c1 + 1) mod U32\<rparr>))"

text \<open>\<^verbatim>\<open>lru_pop_head\<close>, with \<^verbatim>\<open>lru_unlink\<close> of the head node.\<close>

definition lru_pop_head :: "block_cache \<Rightarrow> (nat \<times> block_cache) option" where
  "lru_pop_head c =
     (case bc_lru c of
        [] \<Rightarrow> None
      | l # ls \<Rightarrow> Some (l, c\<lparr>bc_lru := ls, bc_lru_count := (bc_lru_count c + U32 - 1) mod U32\<rparr>))"

text \<open>The body of \<^verbatim>\<open>evict_one\<close> for a live entry in bucket \<open>i\<close>.\<close>

definition evict_entry :: "block_cache \<Rightarrow> nat \<Rightarrow> nat \<Rightarrow> block_cache option" where
  "evict_entry c lba i =
     (let e = b_item (hm_buckets (bc_map c) ! i);
          c1 = (if be_buf e \<noteq> 0
                then (cache_free_buf c (be_buf e))\<lparr>bc_map := set_item (bc_map c) i (be_buf_update (\<lambda>_. 0))\<rparr>
                else c)
      in case hashmap_delete (bc_map c1) (key_entry lba) of
           None \<Rightarrow> None
         | Some (_, m) \<Rightarrow> Some (c1\<lparr>bc_map := m\<rparr>))"

function evict_one :: "block_cache \<Rightarrow> block_cache option" where
  "evict_one c =
     (case lru_pop_head c of
        None \<Rightarrow> Some c
      | Some (lba, c1) \<Rightarrow>
          (case hashmap_get_index (bc_map c1) (key_entry lba) of
             None \<Rightarrow> None
           | Some None \<Rightarrow> evict_one c1
           | Some (Some i) \<Rightarrow> evict_entry c1 lba i))"
  by pat_completeness auto
termination
  by (relation "measure (\<lambda>c. length (bc_lru c))")
    (auto simp: lru_pop_head_def split: list.splits)

declare evict_one.simps [simp del]

text \<open>\<^verbatim>\<open>while (c->lru_count >= lim) evict_one(c);\<close>\<close>

partial_function (option) evict_while :: "nat \<Rightarrow> block_cache \<Rightarrow> block_cache option" where
  "evict_while lim c =
     (if bc_lru_count c \<ge> lim
      then (case evict_one c of None \<Rightarrow> None | Some c1 \<Rightarrow> evict_while lim c1)
      else Some c)"

text \<open>\<^verbatim>\<open>got_cache\<close> and \<open>mal\<close> are the outcomes of \<^verbatim>\<open>kmalloc\<close> for the cache itself and of \<^verbatim>\<open>cache_malloc\<close>
  for the hash table; \<open>alloc\<close> and \<open>node\<close> those for the buffers and nodes.\<close>

definition block_cache_create ::
    "bool \<Rightarrow> (nat \<Rightarrow> nat \<Rightarrow> bool) \<Rightarrow> (nat \<Rightarrow> (nat \<rightharpoonup> byte list) \<Rightarrow> nat) \<Rightarrow>
     (nat \<Rightarrow> nat \<Rightarrow> bool) \<Rightarrow> nat \<Rightarrow> nat \<Rightarrow> block_cache option" where
  "block_cache_create got_cache mal alloc node devsize block_size =
     (if \<not> got_cache then None
      else case hashmap_new_with_allocator mal 0 24 0 CACHE_HASH_SEED0 CACHE_HASH_SEED1
                  cache_hash cache_compare False (key_entry 0) of
             (None, _) \<Rightarrow> None
           | (Some m, _) \<Rightarrow>
               Some \<lparr>bc_devsize = devsize, bc_sector = block_size, bc_cap = BLOCK_CACHE_SECTOR_CAP,
                     bc_map = m, bc_lru = [], bc_lru_count = 0, bc_tick = 0, bc_bufs = Map.empty,
                     bc_alloc = alloc, bc_node = node, bc_requests = 0, bc_error = None\<rparr>)"

text \<open>The buffers still in the store when \<^verbatim>\<open>block_cache_destroy\<close> releases the table.\<close>

definition block_cache_destroy :: "block_cache \<Rightarrow> (nat \<rightharpoonup> byte list) option" where
  "block_cache_destroy c = map_option bc_bufs (evict_while 1 c)"

definition sectors_for_len :: "nat \<Rightarrow> nat \<Rightarrow> nat" where
  "sectors_for_len sector_size bytes =
     (bytes + sector_size + U32 - 1) mod U32 div sector_size + (if bytes = 0 then 1 else 0)"

text \<open>One turn of the loop of \<^verbatim>\<open>block_cache_read\<close>: the sector, or \<open>None\<close> on a miss.\<close>

definition cache_read_sector :: "block_cache \<Rightarrow> nat \<Rightarrow> (byte list option \<times> block_cache) option" where
  "cache_read_sector c lba =
     (case hashmap_get_index (bc_map c) (key_entry lba) of
        None \<Rightarrow> None
      | Some None \<Rightarrow> Some (None, c)
      | Some (Some i) \<Rightarrow>
          (let used = add64 (bc_tick c) 1;
               c1 = c\<lparr>bc_map := set_item (bc_map c) i (be_used_update (\<lambda>_. used)), bc_tick := used\<rparr>;
               c2 = snd (lru_touch c1 lba)
           in case bc_bufs c2 (be_buf (b_item (hm_buckets (bc_map c2) ! i))) of
                None \<Rightarrow> None
              | Some b \<Rightarrow> Some (Some (take (bc_sector c2) b), c2)))"

fun cache_read_loop ::
    "block_cache \<Rightarrow> nat \<Rightarrow> nat \<Rightarrow> byte list \<Rightarrow> (byte list option \<times> block_cache) option" where
  "cache_read_loop c lba 0 out = Some (Some out, c)"
| "cache_read_loop c lba (Suc n) out =
     (case cache_read_sector c lba of
        None \<Rightarrow> None
      | Some (None, c1) \<Rightarrow> Some (None, c1)
      | Some (Some b, c1) \<Rightarrow> cache_read_loop c1 (add64 lba 1) n (out @ b))"

definition block_cache_read ::
    "block_cache \<Rightarrow> nat \<Rightarrow> nat \<Rightarrow> (byte list option \<times> block_cache) option" where
  "block_cache_read c lba bytes =
     (let nsec = sectors_for_len (bc_sector c) bytes
      in if add64 lba nsec > bc_devsize c
         then Some (None, c\<lparr>bc_error := Some FS_ERR_OUT_OF_BOUNDS\<rparr>)
         else cache_read_loop c lba nsec [])"

text \<open>The hit branch of \<^verbatim>\<open>block_cache_write\<close>.\<close>

definition cache_write_hit :: "block_cache \<Rightarrow> nat \<Rightarrow> nat \<Rightarrow> byte list \<Rightarrow> (bool \<times> block_cache) option" where
  "cache_write_hit c lba i seg =
     (let p = be_buf (b_item (hm_buckets (bc_map c) ! i));
          used = add64 (bc_tick c) 1
      in case bc_bufs c p of
           None \<Rightarrow> None
         | Some _ \<Rightarrow>
             Some (True, snd (lru_touch
               (c\<lparr>bc_bufs := (bc_bufs c)(p \<mapsto> seg),
                  bc_map := set_item (bc_map c) i (be_used_update (\<lambda>_. used)), bc_tick := used\<rparr>) lba)))"

text \<open>The end of the miss branch, once the entry is in bucket \<open>j\<close>: queue it, or take it back.
  \<^verbatim>\<open>stored\<close> still points to bucket \<open>j\<close> after \<^verbatim>\<open>hashmap_delete\<close> has closed the gap; if the deletion
  resized the table, the pointer dangles.\<close>

definition cache_write_queue :: "block_cache \<Rightarrow> nat \<Rightarrow> nat \<Rightarrow> (bool \<times> block_cache) option" where
  "cache_write_queue c lba j =
     (case lru_touch c lba of
        (True, c1) \<Rightarrow> Some (True, c1)
      | (False, c1) \<Rightarrow>
          (case hashmap_delete (bc_map c1) (key_entry lba) of
             None \<Rightarrow> None
           | Some (_, m) \<Rightarrow>
               if hm_nbuckets m \<noteq> hm_nbuckets (bc_map c1) then None
               else Some (False, (cache_free_buf c1 (be_buf (b_item (hm_buckets m ! j))))
                                   \<lparr>bc_map := m, bc_error := Some FS_ERR_OUT_OF_MEMORY\<rparr>)))"

definition cache_write_insert :: "block_cache \<Rightarrow> nat \<Rightarrow> nat \<Rightarrow> byte list \<Rightarrow> (bool \<times> block_cache) option" where
  "cache_write_insert c lba p seg =
     (let used = add64 (bc_tick c) 1;
          temp = \<lparr>be_lba = lba, be_buf = p, be_used = used\<rparr>
      in case hashmap_set (bc_map c) temp of
           None \<Rightarrow> None
         | Some (_, m) \<Rightarrow>
             (let c1 = c\<lparr>bc_bufs := (bc_bufs c)(p \<mapsto> seg), bc_tick := used, bc_map := m\<rparr>
              in case hashmap_get_index m (key_entry lba) of
                   None \<Rightarrow> None
                 | Some None \<Rightarrow>
                     Some (False, (cache_free_buf c1 p)\<lparr>bc_error := Some FS_ERR_INTERNAL\<rparr>)
                 | Some (Some j) \<Rightarrow>
                     cache_write_queue
                       (c1\<lparr>bc_map := set_item m j (be_used_update (\<lambda>_. used))\<rparr>) lba j))"

text \<open>One turn of the loop of \<^verbatim>\<open>block_cache_write\<close>.\<close>

definition cache_write_sector :: "block_cache \<Rightarrow> nat \<Rightarrow> byte list \<Rightarrow> (bool \<times> block_cache) option" where
  "cache_write_sector c lba seg =
     (case hashmap_get_index (bc_map c) (key_entry lba) of
        None \<Rightarrow> None
      | Some (Some i) \<Rightarrow> cache_write_hit c lba i seg
      | Some None \<Rightarrow>
          (case evict_while (bc_cap c) c of
             None \<Rightarrow> None
           | Some c1 \<Rightarrow>
               (case cache_alloc c1 of (p, c2) \<Rightarrow>
                  if p = 0 then Some (False, c2) else cache_write_insert c2 lba p seg)))"

fun cache_write_loop ::
    "block_cache \<Rightarrow> nat \<Rightarrow> nat \<Rightarrow> byte list \<Rightarrow> (bool \<times> block_cache) option" where
  "cache_write_loop c lba 0 src = Some (True, c)"
| "cache_write_loop c lba (Suc n) src =
     (case cache_write_sector c lba (take (bc_sector c) src) of
        None \<Rightarrow> None
      | Some (False, c1) \<Rightarrow> Some (False, c1)
      | Some (True, c1) \<Rightarrow> cache_write_loop c1 (add64 lba 1) n (drop (bc_sector c) src))"

definition block_cache_write ::
    "block_cache \<Rightarrow> nat \<Rightarrow> nat \<Rightarrow> byte list \<Rightarrow> (bool \<times> block_cache) option" where
  "block_cache_write c lba bytes src =
     (let nsec = sectors_for_len (bc_sector c) bytes
      in if add64 lba nsec > bc_devsize c
         then Some (False, c\<lparr>bc_error := Some FS_ERR_OUT_OF_BOUNDS\<rparr>)
         else cache_write_loop c lba nsec src)"

definition block_cache_invalidate :: "block_cache \<Rightarrow> block_cache option" where
  "block_cache_invalidate c = evict_while 1 c"

end
