(* ===== verification/BlockCacheSpec.thy ===== *)
theory BlockCacheSpec
  imports BlockCache
begin

text \<open>
  Correctness of the sector cache.  \<open>cache_view c\<close> is the partial map from sector numbers to sector
  contents that a cache stands for; the operations are specified on it.  \<open>cache_ok\<close> is the
  invariant: the table is consistent, every entry owns a buffer of its own and has a node in the
  queue, and the queue's counter is right.
\<close>

section \<open>More facts on the hash table\<close>

text \<open>A store through an item pointer that keeps the key.\<close>

lemma set_item_ok:
  assumes "hm_ok m" "hashmap_get_index m key = Some (Some i)"
    and "hm_compare m (f (b_item (hm_buckets m ! i))) (b_item (hm_buckets m ! i)) = 0"
  defines "x \<equiv> b_item (hm_buckets m ! i)"
  shows "hm_ok (set_item m i f)" "hm_lookup m key = Some x"
    and "hm_lookup (set_item m i f) k = (if hm_compare m k x = 0 then Some (f x) else hm_lookup m k)"
    and "b_item (hm_buckets (set_item m i f) ! i) = f x"
    and "hashmap_get_index (set_item m i f) key = Some (Some i)"
proof -
  note cb = hm_okD(6) [OF assms(1)]
  let ?b = "hm_buckets m ! i"
  have g: "i < hm_nbuckets m" "matches (hm_compare m) (get_hash m key) key ?b" "hm_lookup m key = Some x"
    using hashmap_get_index_spec [OF assms(1), of key] assms(2) by (auto simp: x_def)
  show "hm_lookup m key = Some x" by (rule g(3))
  have eq: "hm_compare m (f x) x = 0" using assms(3) by (simp add: x_def)
  have kx: "hm_compare m key x = 0" using g(2) by (simp add: matches_def x_def)
  then have fk: "hm_compare m (f x) key = 0" using eq callbacks_okD(2,3) [OF cb] by blast
  have mt: "matches (hm_compare m) (get_hash m (f x)) (f x) ?b"
    using g(2) eq get_hash_cong [OF cb fk] by (simp add: matches_def x_def)
  have uniq: "j = i" if "j < hm_nbuckets m" "matches (hm_compare m) (get_hash m (f x)) (f x) (hm_buckets m ! j)" for j
    by (rule hm_match_unique [OF assms(1) that(1) g(1) that(2) mt])
  note r = set_replace [OF assms(1) g(1) mt uniq]
  have si: "set_item m i f = m\<lparr>hm_buckets := (hm_buckets m)[i := ?b\<lparr>b_item := f x\<rparr>]\<rparr>"
    by (simp add: set_item_def x_def)
  show ok': "hm_ok (set_item m i f)" using r(3) unfolding si .
  have fl: "hm_lookup m (f x) = Some x"
    using hm_lookup_iff [OF assms(1), of "f x" x] hm_lookup_iff [OF assms(1), of key x] g(3) eq by simp
  have l: "hm_lookup (set_item m i f) k = (if hm_compare m k (f x) = 0 then Some (f x) else hm_lookup m k)" for k
    by (rule hm_lookup_replace [OF assms(1) ok' _ _ fl])
      (use r(2) in \<open>simp_all add: si hm_contents_def x_def\<close>)
  have "hm_compare m k (f x) = 0 \<longleftrightarrow> hm_compare m k x = 0" for k
    using eq callbacks_okD(2,3) [OF cb] by blast
  then show "hm_lookup (set_item m i f) k = (if hm_compare m k x = 0 then Some (f x) else hm_lookup m k)"
    using l by simp
  show it: "b_item (hm_buckets (set_item m i f) ! i) = f x"
    using g(1) hm_okD(5) [OF assms(1)] by (simp add: si)
  have kf: "hm_compare m key (f x) = 0" using fk callbacks_okD(2) [OF cb] by blast
  then have "hm_lookup (set_item m i f) key = Some (f x)" using l by simp
  then obtain s where s: "hashmap_get_index (set_item m i f) key = Some (Some s)" "s < hm_nbuckets m"
    "matches (hm_compare m) (get_hash m key) key (hm_buckets (set_item m i f) ! s)"
    using hashmap_get_index_spec [OF ok', of key] by (auto simp: si get_hash_def split: option.splits)
  have "matches (hm_compare m) (get_hash m key) key (hm_buckets (set_item m i f) ! i)"
    using g(1,2) kf hm_okD(5) [OF assms(1)] by (simp add: si matches_def)
  then have "s = i"
    using hm_match_unique [OF ok', of s i key] s g(1) by (simp add: si get_hash_def)
  then show "hashmap_get_index (set_item m i f) key = Some (Some i)" using s(1) by simp
qed

lemma set_item_fields [simp]:
  "hm_compare (set_item m i f) = hm_compare m" "hm_hash (set_item m i f) = hm_hash m"
  "hm_malloc (set_item m i f) = hm_malloc m" "hm_nbuckets (set_item m i f) = hm_nbuckets m"
  "hm_count (set_item m i f) = hm_count m"
  by (simp_all add: set_item_def)

text \<open>Without allocation failures the table never reports one.\<close>

lemma resize_no_oom:
  assumes "resize m n = Some (ok, m')"
  shows "hm_malloc m' = hm_malloc m" "hm_oom m' = hm_oom m" "(\<forall>k sz. hm_malloc m k sz) \<Longrightarrow> ok"
  using assms by (auto simp: resize_def hashmap_new_with_allocator_def Let_def split: if_splits option.splits)

lemma hashmap_set_no_oom:
  assumes "hashmap_set m x = Some (old, m')"
  shows "hm_malloc m' = hm_malloc m" "(\<forall>k sz. hm_malloc m k sz) \<Longrightarrow> \<not> hm_oom m'"
  using assms resize_no_oom [of "m\<lparr>hm_oom := False\<rparr>"]
  by (auto simp: hashmap_set_def Let_def split: if_splits option.splits bool.splits)

lemma hashmap_delete_malloc:
  assumes "hashmap_delete m x = Some (old, m')"
  shows "hm_malloc m' = hm_malloc m"
  using assms
  by (auto simp: hashmap_delete_def Let_def dest!: resize_no_oom(1) split: if_splits option.splits)

text \<open>The number of entries is bounded by the number of their keys.\<close>

lemma hm_count_le:
  assumes "hm_ok m" "finite S" "\<And>x. hm_lookup m x = Some x \<Longrightarrow> f x \<in> S"
    and "\<And>x y. f x = f y \<Longrightarrow> hm_compare m x y = 0"
  shows "hm_count m \<le> card S"
proof -
  let ?M = "hm_contents m"
  note cb = hm_okD(6) [OF assms(1)]
  have elem: "fst p = get_hash m (snd p) \<and> hm_lookup m (snd p) = Some (snd p)" if "p \<in># ?M" for p
  proof -
    have h: "fst p = get_hash m (snd p)" using assms(1) that by (auto simp: hm_ok_def)
    then have "(get_hash m (snd p), snd p) \<in># ?M" using that by (metis prod.collapse)
    then show ?thesis using h hm_lookup_iff [OF assms(1)] callbacks_okD(1) [OF cb] by blast
  qed
  have "count ?M p \<le> 1" for p
  proof (rule ccontr)
    assume "\<not> count ?M p \<le> 1"
    then have "{#p, p#} \<subseteq># ?M"
      using count_le_replicate_mset_subset_eq [of 2 ?M p] by (simp add: numeral_2_eq_2)
    then show False using hm_okD(7) [OF assms(1)] callbacks_okD(1) [OF cb] unfolding no_match_def by blast
  qed
  then have "count ?M p = 1" if "p \<in># ?M" for p
    using that by (metis count_greater_zero_iff le_antisym Suc_leI One_nat_def)
  then have "size ?M = card (set_mset ?M)" unfolding size_multiset_overloaded_eq by simp
  moreover have "inj_on (f \<circ> snd) (set_mset ?M)"
  proof (rule inj_onI)
    fix p q assume pq: "p \<in># ?M" "q \<in># ?M" "(f \<circ> snd) p = (f \<circ> snd) q"
    then have "hm_compare m (snd p) (snd q) = 0" using assms(4) by simp
    then have "Some (snd p) = Some (snd q)"
      using elem [OF pq(1)] elem [OF pq(2)] hm_lookup_iff [OF assms(1), of "snd p" "snd q"]
        hm_lookup_iff [OF assms(1), of "snd q" "snd q"] by (metis option.inject)
    then show "p = q" using elem [OF pq(1)] elem [OF pq(2)] by (simp add: prod_eq_iff)
  qed
  moreover have "(f \<circ> snd) ` set_mset ?M \<subseteq> S" using elem assms(3) by auto
  ultimately have "size ?M \<le> card S" using card_inj_on_le [OF _ _ assms(2)] by metis
  then show ?thesis using assms(1) by (simp add: hm_ok_def)
qed

section \<open>Invariant and view\<close>

definition cache_find :: "block_cache \<Rightarrow> nat \<Rightarrow> block_cache_entry option" where
  "cache_find c lba = hm_lookup (bc_map c) (key_entry lba)"

definition cache_view :: "block_cache \<Rightarrow> nat \<Rightarrow> byte list option" where
  "cache_view c lba = (case cache_find c lba of None \<Rightarrow> None | Some e \<Rightarrow> bc_bufs c (be_buf e))"

text \<open>The table of a cache and what is never changed.\<close>

definition table_ok :: "block_cache_entry hashmap \<Rightarrow> bool" where
  "table_ok m \<longleftrightarrow> hm_ok m \<and> hm_compare m = cache_compare \<and> hm_hash m = cache_hash"

definition static :: "block_cache \<Rightarrow> nat \<times> nat \<times> nat \<times> (nat \<Rightarrow> (nat \<rightharpoonup> byte list) \<Rightarrow> nat) \<times>
    (nat \<Rightarrow> nat \<Rightarrow> bool)" where
  "static c = (bc_devsize c, bc_sector c, bc_cap c, bc_alloc c, bc_node c)"

definition alloc_fresh :: "(nat \<Rightarrow> (nat \<rightharpoonup> byte list) \<Rightarrow> nat) \<Rightarrow> bool" where
  "alloc_fresh al \<longleftrightarrow> (\<forall>k st. finite (dom st) \<longrightarrow> al k st \<noteq> 0 \<longrightarrow> st (al k st) = None)"

text \<open>A queue of \<open>2 ^ 32\<close> nodes, of 64 bytes each, does not fit in memory.\<close>

definition nodes_bounded :: "(nat \<Rightarrow> nat \<Rightarrow> bool) \<Rightarrow> bool" where
  "nodes_bounded node \<longleftrightarrow> (\<forall>k n. node k n \<longrightarrow> n + 1 < U32)"

text \<open>Every entry owns a buffer of the sector size, apart from those of the others, and is queued.\<close>

definition entries_ok :: "block_cache \<Rightarrow> bool" where
  "entries_ok c \<longleftrightarrow>
     (\<forall>l e. cache_find c l = Some e \<longrightarrow> l \<in> set (bc_lru c) \<and> be_buf e \<noteq> 0 \<and>
        (\<exists>b. bc_bufs c (be_buf e) = Some b \<and> length b = bc_sector c)) \<and>
     (\<forall>l l' e e'. cache_find c l = Some e \<longrightarrow> cache_find c l' = Some e' \<longrightarrow>
        be_buf e = be_buf e' \<longrightarrow> l = l')"

definition cache_ok :: "block_cache \<Rightarrow> bool" where
  "cache_ok c \<longleftrightarrow> table_ok (bc_map c) \<and> 0 < bc_sector c \<and> 0 < bc_cap c \<and>
     bc_cap c \<le> BLOCK_CACHE_SECTOR_CAP \<and> bc_lru_count c = length (bc_lru c) \<and>
     length (bc_lru c) < U32 \<and> finite (dom (bc_bufs c)) \<and> alloc_fresh (bc_alloc c) \<and> nodes_bounded (bc_node c) \<and>
     entries_ok c"

text \<open>Executions in which no allocation of the cache fails.\<close>

definition memory_ok :: "block_cache \<Rightarrow> bool" where
  "memory_ok c \<longleftrightarrow> (\<forall>k st. finite (dom st) \<longrightarrow> bc_alloc c k st \<noteq> 0) \<and>
     (\<forall>k n. n < BLOCK_CACHE_SECTOR_CAP \<longrightarrow> bc_node c k n) \<and> (\<forall>k n. hm_malloc (bc_map c) k n)"

lemma cache_okD:
  assumes "cache_ok c"
  shows "table_ok (bc_map c)" "0 < bc_sector c" "0 < bc_cap c" "bc_cap c \<le> BLOCK_CACHE_SECTOR_CAP"
    "bc_lru_count c = length (bc_lru c)" "length (bc_lru c) < U32" "finite (dom (bc_bufs c))"
    "alloc_fresh (bc_alloc c)" "entries_ok c" "nodes_bounded (bc_node c)"
  using assms by (simp_all add: cache_ok_def)

lemma cache_callbacks_ok: "callbacks_ok cache_hash cache_compare"
  by (auto simp: callbacks_ok_def cache_compare_def cache_hash_def split: if_splits)

lemma cache_compare_0: "cache_compare x y = 0 \<longleftrightarrow> be_lba x = be_lba y"
  by (auto simp: cache_compare_def)

lemma be_lba_key [simp]: "be_lba (key_entry l) = l"
  by (simp add: key_entry_def)

lemma table_okD:
  assumes "table_ok m"
  shows "hm_ok m" "hm_compare m = cache_compare" "hm_hash m = cache_hash"
  using assms by (simp_all add: table_ok_def)

lemma find_lba:
  assumes "table_ok (bc_map c)" "cache_find c l = Some e"
  shows "be_lba e = l"
  using hm_lookup_iff [OF table_okD(1) [OF assms(1)]] assms(2) table_okD(2) [OF assms(1)]
  by (auto simp: cache_find_def cache_compare_0)

lemma entriesD:
  assumes "cache_ok c" "cache_find c l = Some e"
  shows "l \<in> set (bc_lru c)" "be_buf e \<noteq> 0" "\<exists>b. bc_bufs c (be_buf e) = Some b \<and> length b = bc_sector c"
    "cache_find c l' = Some e' \<Longrightarrow> be_buf e = be_buf e' \<Longrightarrow> l = l'"
  using cache_okD(9) [OF assms(1)] assms(2) unfolding entries_ok_def by metis+

lemma view_find: "cache_ok c \<Longrightarrow> cache_find c l = Some e \<Longrightarrow> \<exists>b. cache_view c l = Some b \<and> length b = bc_sector c"
  using entriesD(3) by (fastforce simp: cache_view_def)

lemma view_None: "cache_ok c \<Longrightarrow> cache_view c l = None \<longleftrightarrow> cache_find c l = None"
  using view_find by (cases "cache_find c l") (fastforce simp: cache_view_def)+

text \<open>Looking a sector up.\<close>

lemma find_index:
  assumes "cache_ok c"
  obtains (miss) "hashmap_get_index (bc_map c) (key_entry l) = Some None" "cache_find c l = None"
    | (hit) i where "hashmap_get_index (bc_map c) (key_entry l) = Some (Some i)"
      "cache_find c l = Some (b_item (hm_buckets (bc_map c) ! i))"
proof -
  obtain r where r: "hashmap_get_index (bc_map c) (key_entry l) = Some r"
    "case r of None \<Rightarrow> hm_lookup (bc_map c) (key_entry l) = None
     | Some s \<Rightarrow> hm_lookup (bc_map c) (key_entry l) = Some (b_item (hm_buckets (bc_map c) ! s))"
    using hashmap_get_index_spec [OF table_okD(1) [OF cache_okD(1) [OF assms]], of "key_entry l"]
    by (auto split: option.splits)
  then show ?thesis using miss hit unfolding cache_find_def by (cases r) auto
qed

text \<open>Stores into an entry that leave its key alone.\<close>

lemma cache_set_item:
  assumes "cache_ok c" "hashmap_get_index (bc_map c) (key_entry l) = Some (Some i)"
    "\<And>e. be_lba (f e) = be_lba e"
  defines "m \<equiv> set_item (bc_map c) i f" and "e \<equiv> b_item (hm_buckets (bc_map c) ! i)"
  shows "table_ok m" "cache_find c l = Some e"
    "hm_lookup m (key_entry k) = (if k = l then Some (f e) else cache_find c k)"
    "b_item (hm_buckets m ! i) = f e" "hashmap_get_index m (key_entry l) = Some (Some i)"
proof -
  note t = table_okD [OF cache_okD(1) [OF assms(1)]]
  have eq: "hm_compare (bc_map c) (f (b_item (hm_buckets (bc_map c) ! i))) (b_item (hm_buckets (bc_map c) ! i)) = 0"
    by (simp add: t(2) cache_compare_0 assms(3))
  note s = set_item_ok [where f = f, OF t(1) assms(2) eq]
  show "table_ok m" using s(1) t by (simp add: table_ok_def m_def)
  show f: "cache_find c l = Some e" using s(2) by (simp add: cache_find_def e_def)
  have "be_lba e = l" by (rule find_lba [OF cache_okD(1) [OF assms(1)] f])
  then show "hm_lookup m (key_entry k) = (if k = l then Some (f e) else cache_find c k)"
    using s(3) [of "key_entry k"] by (simp add: t(2) cache_compare_0 cache_find_def e_def m_def)
  show "b_item (hm_buckets m ! i) = f e" "hashmap_get_index m (key_entry l) = Some (Some i)"
    using s(4,5) by (simp_all add: e_def m_def)
qed

section \<open>The queue\<close>

lemma lru_touch_ok:
  assumes "cache_ok c" "lru_touch c l = (r, c')"
  shows "cache_ok c'" "cache_find c' = cache_find c" "bc_bufs c' = bc_bufs c" "bc_map c' = bc_map c"
    "static c' = static c" "set (bc_lru c) \<subseteq> set (bc_lru c')" "r \<Longrightarrow> l \<in> set (bc_lru c')"
    "memory_ok c \<Longrightarrow> length (bc_lru c) < BLOCK_CACHE_SECTOR_CAP \<Longrightarrow> r"
proof -
  have f: "cache_find c' = cache_find c"
    using assms(2) by (auto simp: fun_eq_iff cache_find_def lru_touch_def Let_def split: if_splits)
  show "cache_ok c'"
    using assms cache_okD(10) [OF assms(1)] f unfolding cache_ok_def entries_ok_def nodes_bounded_def
    by (auto simp: lru_touch_def Let_def split: if_splits)
  show "memory_ok c \<Longrightarrow> length (bc_lru c) < BLOCK_CACHE_SECTOR_CAP \<Longrightarrow> r"
    using assms(2) by (auto simp: lru_touch_def Let_def memory_ok_def split: if_splits)
qed (use assms(2) in \<open>auto simp: fun_eq_iff cache_find_def lru_touch_def Let_def static_def split: if_splits\<close>)

text \<open>Changing how recently an entry was used changes nothing a client can see.\<close>

lemma use_entry_ok:
  fixes u t :: nat
  assumes "cache_ok c" "hashmap_get_index (bc_map c) (key_entry l) = Some (Some i)"
  defines "c' \<equiv> c\<lparr>bc_map := set_item (bc_map c) i (be_used_update (\<lambda>_. u)), bc_tick := t\<rparr>"
  shows "cache_ok c'" "cache_view c' = cache_view c" "be_buf (b_item (hm_buckets (bc_map c') ! i)) =
      be_buf (b_item (hm_buckets (bc_map c) ! i))"
    "map_option be_buf (cache_find c' k) = map_option be_buf (cache_find c k)"
    "hashmap_get_index (bc_map c') (key_entry l) = Some (Some i)"
proof -
  note s = cache_set_item [of c l i "be_used_update (\<lambda>_. u)", OF assms(1,2)]
  have find: "cache_find c' k = (if k = l then map_option (be_used_update (\<lambda>_. u)) (cache_find c l) else cache_find c k)" for k
    using s(2,3) by (simp add: cache_find_def c'_def)
  then have fb: "map_option be_buf (cache_find c' k) = map_option be_buf (cache_find c k)" for k
    using s(2) by simp
  then show "map_option be_buf (cache_find c' k) = map_option be_buf (cache_find c k)" .
  have was: "\<exists>e0. cache_find c k = Some e0 \<and> be_buf e0 = be_buf e" if "cache_find c' k = Some e" for k e
    using that fb [of k] by (cases "cache_find c k") auto
  have "entries_ok c'"
    unfolding entries_ok_def
  proof (intro conjI allI impI, goal_cases)
    case (1 k e) then show ?case using was [of k e] entriesD(1) [OF assms(1)] by (auto simp: c'_def)
  next
    case (2 k e) then show ?case using was [of k e] entriesD(2) [OF assms(1)] by force
  next
    case (3 k e) then show ?case using was [of k e] entriesD(3) [OF assms(1)] by (force simp: c'_def)
  next
    case (4 k k' e e') then show ?case using was [of k e] was [of k' e'] entriesD(4) [OF assms(1)] by metis
  qed
  then show "cache_ok c'" using assms(1) s(1) by (simp add: cache_ok_def c'_def)
  show "cache_view c' = cache_view c"
  proof
    fix k
    show "cache_view c' k = cache_view c k"
      using fb [of k] by (auto simp: cache_view_def c'_def split: option.splits)
  qed
  show "be_buf (b_item (hm_buckets (bc_map c') ! i)) = be_buf (b_item (hm_buckets (bc_map c) ! i))"
    "hashmap_get_index (bc_map c') (key_entry l) = Some (Some i)"
    using s(4,5) by (simp_all add: c'_def)
qed

lemma memory_ok_cong:
  "static c' = static c \<Longrightarrow> hm_malloc (bc_map c') = hm_malloc (bc_map c) \<Longrightarrow> memory_ok c' = memory_ok c"
  by (simp add: memory_ok_def static_def)

lemma cache_view_cong: "cache_find c' = cache_find c \<Longrightarrow> bc_bufs c' = bc_bufs c \<Longrightarrow> cache_view c' = cache_view c"
  unfolding cache_view_def by presburger

section \<open>Reading\<close>

lemma cache_read_sector_ok:
  assumes "cache_ok c"
  obtains c' where "cache_read_sector c l = Some (cache_view c l, c')" "cache_ok c'"
    "cache_view c' = cache_view c" "static c' = static c" "memory_ok c' = memory_ok c"
proof (cases rule: find_index [OF assms(1), of l])
  case 1
  then show ?thesis using that [of c] assms(1) by (simp add: cache_read_sector_def cache_view_def)
next
  case (2 i)
  let ?u = "add64 (bc_tick c) 1"
  let ?c1 = "c\<lparr>bc_map := set_item (bc_map c) i (be_used_update (\<lambda>_. ?u)), bc_tick := ?u\<rparr>"
  note u = use_entry_ok [OF assms(1) 2(1), of ?u ?u]
  obtain r c2 where t: "lru_touch ?c1 l = (r, c2)" by fastforce
  note tk = lru_touch_ok [OF u(1) t]
  let ?e = "b_item (hm_buckets (bc_map c) ! i)"
  obtain b where b: "bc_bufs c (be_buf ?e) = Some b" "length b = bc_sector c" "cache_view c l = Some b"
    using entriesD(3) [OF assms(1) 2(2)] 2(2) by (auto simp: cache_view_def)
  have "bc_sector c2 = bc_sector c" using tk(5) by (simp add: static_def)
  then have "cache_read_sector c l = Some (cache_view c l, c2)"
    using 2(1) t b u(3) tk(3,4) by (simp add: cache_read_sector_def Let_def)
  moreover have "cache_view c2 = cache_view c"
    using cache_view_cong [OF tk(2,3)] u(2) by simp
  moreover have "static c2 = static c" using tk(5) by (simp add: static_def)
  moreover have "memory_ok c2 = memory_ok c"
    using memory_ok_cong [OF \<open>static c2 = static c\<close>] tk(4) by simp
  ultimately show ?thesis using that tk(1) by simp
qed

lemma cache_read_loop_ok:
  assumes "cache_ok c" "l + n < W64"
  shows "\<exists>c'. cache_read_loop c l n out =
      Some (if \<forall>k < n. cache_view c (l + k) \<noteq> None
            then Some (out @ concat (map (\<lambda>k. the (cache_view c k)) [l ..< l + n])) else None, c') \<and>
    cache_ok c' \<and> cache_view c' = cache_view c \<and> static c' = static c \<and>
    memory_ok c' = memory_ok c"
  using assms
proof (induction n arbitrary: c l out)
  case 0
  then show ?case by simp
next
  case (Suc n)
  obtain c1 where c1: "cache_read_sector c l = Some (cache_view c l, c1)" "cache_ok c1"
    "cache_view c1 = cache_view c" "static c1 = static c" "memory_ok c1 = memory_ok c"
    by (rule cache_read_sector_ok [OF Suc.prems(1)])
  show ?case
  proof (cases "cache_view c l")
    case None
    then show ?thesis using c1 by (auto intro: exI [of _ 0])
  next
    case (Some b)
    have a: "add64 l 1 = l + 1" using Suc.prems(2) by (simp add: add64_def)
    have split: "(\<forall>k < Suc n. cache_view c (l + k) \<noteq> None) \<longleftrightarrow> (\<forall>k < n. cache_view c (l + 1 + k) \<noteq> None)"
      using Some by (auto simp: less_Suc_eq_0_disj)
    have "[l ..< l + Suc n] = l # [l + 1 ..< l + 1 + n]" by (simp add: upt_conv_Cons)
    then show ?thesis
      using Suc.IH [of c1 "l + 1" "out @ b"] c1 Suc.prems Some a split by auto
  qed
qed

section \<open>Evicting\<close>

text \<open>One cache holds less than another: some sectors were dropped, none changed.\<close>

definition shrunk :: "block_cache \<Rightarrow> block_cache \<Rightarrow> bool" where
  "shrunk c c' \<longleftrightarrow> static c' = static c \<and> hm_malloc (bc_map c') = hm_malloc (bc_map c) \<and>
     length (bc_lru c') \<le> length (bc_lru c) \<and>
     (\<forall>k. cache_find c' k = None \<or> cache_find c' k = cache_find c k) \<and>
     (\<forall>k. cache_view c' k = None \<or> cache_view c' k = cache_view c k)"

lemma shrunk_trans:
  assumes "shrunk a b" "shrunk b c"
  shows "shrunk a c"
proof -
  have "cache_view c k = None \<or> cache_view c k = cache_view a k"
    "cache_find c k = None \<or> cache_find c k = cache_find a k" for k
    using assms unfolding shrunk_def by metis+
  then show ?thesis using assms unfolding shrunk_def by simp
qed

lemma shrunk_memory: "shrunk c c' \<Longrightarrow> memory_ok c' = memory_ok c"
  using memory_ok_cong unfolding shrunk_def by blast

lemma pop_ok:
  assumes "cache_ok c" "bc_lru c = l # ls"
  defines "c1 \<equiv> c\<lparr>bc_lru := ls, bc_lru_count := length ls\<rparr>"
  shows "lru_pop_head c = Some (l, c1)" "cache_find c1 = cache_find c" "bc_map c1 = bc_map c"
    "cache_find c l = None \<Longrightarrow> cache_ok c1 \<and> shrunk c c1"
proof -
  have n: "bc_lru_count c = Suc (length ls)" "Suc (length ls) < U32"
    using cache_okD(5,6) [OF assms(1)] assms(2) by simp_all
  then show "lru_pop_head c = Some (l, c1)" using assms(2) by (simp add: lru_pop_head_def c1_def)
  show f: "cache_find c1 = cache_find c" by (simp add: fun_eq_iff cache_find_def c1_def)
  show "bc_map c1 = bc_map c" by (simp add: c1_def)
  assume none: "cache_find c l = None"
  have "entries_ok c1"
    using cache_okD(9) [OF assms(1)] none assms(2) unfolding entries_ok_def f
    by (auto simp: c1_def) (metis option.discI)
  then have "cache_ok c1" using assms(1) n by (simp add: cache_ok_def c1_def)
  moreover have "cache_view c1 = cache_view c" by (rule cache_view_cong [OF f]) (simp add: c1_def)
  then have "shrunk c c1" unfolding shrunk_def using assms(2) f by (simp add: c1_def static_def)
  ultimately show "cache_ok c1 \<and> shrunk c c1" by blast
qed

lemma evict_entry_ok:
  assumes "cache_ok c" "bc_lru c = l # ls" "hashmap_get_index (bc_map c) (key_entry l) = Some (Some i)"
  defines "c1 \<equiv> c\<lparr>bc_lru := ls, bc_lru_count := length ls\<rparr>"
  obtains c' where "evict_entry c1 l i = Some c'" "cache_ok c'" "shrunk c c'" "bc_lru c' = ls"
proof -
  let ?e = "b_item (hm_buckets (bc_map c) ! i)"
  let ?m = "set_item (bc_map c) i (be_buf_update (\<lambda>_. 0))"
  note s = cache_set_item [of c l i "be_buf_update (\<lambda>_. 0)", OF assms(1,3)]
  have fl: "cache_find c l = Some ?e" by (rule s(2)) simp
  have tm: "table_ok ?m" by (rule s(1)) simp
  note t = table_okD [OF tm]
  obtain old m where d: "hashmap_delete ?m (key_entry l) = Some (old, m)" "hm_ok m"
    "hm_compare m = hm_compare ?m" "hm_hash m = hm_hash ?m"
    "\<And>x. hm_lookup m x = (if hm_compare ?m x (key_entry l) = 0 then None else hm_lookup ?m x)"
    using hashmap_delete_spec [OF t(1), of "key_entry l"] by metis
  define c' where "c' = c1\<lparr>bc_bufs := (bc_bufs c1)(be_buf ?e := None), bc_map := m\<rparr>"
  have "be_buf ?e \<noteq> 0" by (rule entriesD(2) [OF assms(1) fl])
  then have ev: "evict_entry c1 l i = Some c'"
    using d(1) by (simp add: evict_entry_def Let_def cache_free_buf_def c1_def c'_def)
  have find: "cache_find c' k = (if k = l then None else cache_find c k)" for k
    using d(5) [of "key_entry k"] s(3) [of k] by (simp add: cache_find_def c'_def t(2) [simplified] cache_compare_0)
  have own: "be_buf e \<noteq> be_buf ?e" if "cache_find c k = Some e" "k \<noteq> l" for k e
    using entriesD(4) [OF assms(1) that(1) fl] that(2) by auto
  have "entries_ok c'"
    unfolding entries_ok_def
  proof (intro conjI allI impI, goal_cases)
    case (1 k e)
    then have "cache_find c k = Some e" "k \<noteq> l" by (auto simp: find split: if_splits)
    then show ?case using entriesD(1) [OF assms(1)] assms(2) by (auto simp: c'_def c1_def)
  next
    case (2 k e) then show ?case using entriesD(2) [OF assms(1), of k e] by (auto simp: find split: if_splits)
  next
    case (3 k e)
    then have "cache_find c k = Some e" "k \<noteq> l" by (auto simp: find split: if_splits)
    then show ?case using entriesD(3) [OF assms(1)] own by (auto simp: c'_def c1_def)
  next
    case (4 k k' e e')
    then show ?case using entriesD(4) [OF assms(1), of k e k' e'] by (auto simp: find split: if_splits)
  qed
  moreover have "table_ok m" using d(2-4) t(2,3) by (simp add: table_ok_def)
  ultimately have "cache_ok c'"
    using assms(1,2) unfolding cache_ok_def by (simp add: c'_def c1_def)
  moreover have "cache_view c' k = None \<or> cache_view c' k = cache_view c k" for k
  proof -
    have "bc_bufs c' = (bc_bufs c)(be_buf ?e := None)" by (simp add: c'_def c1_def)
    then show ?thesis using own [of k] unfolding cache_view_def find by (auto split: option.splits)
  qed
  moreover have "hm_malloc m = hm_malloc (bc_map c)" using hashmap_delete_malloc [OF d(1)] by simp
  ultimately show ?thesis
    using that [OF ev] assms(2) find unfolding shrunk_def by (simp add: c'_def c1_def static_def)
qed

lemma evict_one_ok:
  assumes "cache_ok c" "bc_lru c \<noteq> []"
  shows "\<exists>c'. evict_one c = Some c' \<and> cache_ok c' \<and> shrunk c c' \<and> length (bc_lru c') < length (bc_lru c)"
  using assms
proof (induction c rule: measure_induct_rule [where f = "\<lambda>c. length (bc_lru c)"])
  case (less c)
  obtain l ls where ls: "bc_lru c = l # ls" using less.prems(2) by (cases "bc_lru c") auto
  let ?c1 = "c\<lparr>bc_lru := ls, bc_lru_count := length ls\<rparr>"
  note p = pop_ok [OF less.prems(1) ls]
  show ?case
  proof (cases rule: find_index [OF less.prems(1), of l])
    case 1
    then have c1: "cache_ok ?c1" "shrunk c ?c1" using p(4) by auto
    have ev: "evict_one c = evict_one ?c1" using p(1) 1(1) by (subst evict_one.simps) simp
    show ?thesis
    proof (cases "ls = []")
      case True
      then have "evict_one ?c1 = Some ?c1" by (subst evict_one.simps) (simp add: lru_pop_head_def)
      then show ?thesis using ev c1 ls by simp
    next
      case False
      then show ?thesis
        using less.IH [of ?c1] c1 ls ev shrunk_trans [OF c1(2)] by (auto intro: less_SucI)
    qed
  next
    case (2 i)
    obtain c' where "evict_entry ?c1 l i = Some c'" "cache_ok c'" "shrunk c c'" "bc_lru c' = ls"
      by (rule evict_entry_ok [OF less.prems(1) ls 2(1)])
    then show ?thesis using p(1) 2(1) ls by (subst evict_one.simps) simp
  qed
qed

text \<open>The eviction loops end.\<close>

lemma evict_while_ok:
  assumes "cache_ok c" "0 < lim"
  shows "\<exists>c'. evict_while lim c = Some c' \<and> cache_ok c' \<and> shrunk c c' \<and> length (bc_lru c') < lim"
  using assms
proof (induction c rule: measure_induct_rule [where f = "\<lambda>c. length (bc_lru c)"])
  case (less c)
  have n: "bc_lru_count c = length (bc_lru c)" by (rule cache_okD(5) [OF less.prems(1)])
  show ?case
  proof (cases "lim \<le> length (bc_lru c)")
    case False
    then show ?thesis using less.prems(1) n by (subst evict_while.simps) (simp add: shrunk_def)
  next
    case True
    then have "bc_lru c \<noteq> []" using less.prems(2) by auto
    then obtain c1 where c1: "evict_one c = Some c1" "cache_ok c1" "shrunk c c1" "length (bc_lru c1) < length (bc_lru c)"
      using evict_one_ok [OF less.prems(1)] by blast
    then have "evict_while lim c = evict_while lim c1" using True n by (subst evict_while.simps) simp
    then show ?thesis using less.IH [OF c1(4,2) less.prems(2)] shrunk_trans [OF c1(3)] by auto
  qed
qed

section \<open>Writing\<close>

text \<open>What a write of one sector leaves behind: the sector is cached, some others may be gone.\<close>

definition stored :: "block_cache \<Rightarrow> nat \<Rightarrow> byte list \<Rightarrow> block_cache \<Rightarrow> bool" where
  "stored c l seg c' \<longleftrightarrow> cache_ok c' \<and> memory_ok c' \<and> static c' = static c \<and> cache_view c' l = Some seg \<and>
     (\<forall>k. k \<noteq> l \<longrightarrow> cache_view c' k = None \<or> cache_view c' k = cache_view c k)"

lemma write_buffer_ok:
  assumes "cache_ok c" "cache_find c l = Some e" "length seg = bc_sector c"
  defines "c' \<equiv> c\<lparr>bc_bufs := (bc_bufs c)(be_buf e \<mapsto> seg)\<rparr>"
  shows "cache_ok c'" "cache_view c' = (cache_view c)(l \<mapsto> seg)"
proof -
  have f: "cache_find c' = cache_find c" by (simp add: fun_eq_iff cache_find_def c'_def)
  show "cache_ok c'"
    using assms(1,3) unfolding cache_ok_def entries_ok_def f by (auto simp: c'_def)
  show "cache_view c' = (cache_view c)(l \<mapsto> seg)"
  proof
    fix k
    show "cache_view c' k = ((cache_view c)(l \<mapsto> seg)) k"
    proof (cases "cache_find c k")
      case None
      then show ?thesis using assms(2) by (auto simp: cache_view_def f)
    next
      case (Some e')
      have "k = l \<longleftrightarrow> be_buf e' = be_buf e" using entriesD(4) [OF assms(1,2) Some] Some assms(2) by auto
      then show ?thesis using Some by (simp add: cache_view_def f) (simp add: c'_def)
    qed
  qed
qed

lemma cache_write_hit_ok:
  assumes "cache_ok c" "memory_ok c" "hashmap_get_index (bc_map c) (key_entry l) = Some (Some i)"
    "length seg = bc_sector c"
  obtains c' where "cache_write_hit c l i seg = Some (True, c')" "stored c l seg c'"
proof -
  let ?e = "b_item (hm_buckets (bc_map c) ! i)" and ?u = "add64 (bc_tick c) 1"
  have fl: "cache_find c l = Some ?e" by (rule cache_set_item(2) [OF assms(1,3), of id]) simp
  let ?c1 = "c\<lparr>bc_bufs := (bc_bufs c)(be_buf ?e \<mapsto> seg)\<rparr>"
  note w = write_buffer_ok [OF assms(1) fl assms(4)]
  let ?c2 = "?c1\<lparr>bc_map := set_item (bc_map ?c1) i (be_used_update (\<lambda>_. ?u)), bc_tick := ?u\<rparr>"
  have gi: "hashmap_get_index (bc_map ?c1) (key_entry l) = Some (Some i)" using assms(3) by simp
  note u = use_entry_ok [OF w(1) gi, of ?u ?u]
  obtain r c' where t: "lru_touch ?c2 l = (r, c')" by fastforce
  note tk = lru_touch_ok [OF u(1) t]
  have "\<exists>b. bc_bufs c (be_buf ?e) = Some b" using entriesD(3) [OF assms(1) fl] by blast
  then have "cache_write_hit c l i seg = Some (True, c')"
    using t by (auto simp: cache_write_hit_def Let_def)
  moreover have "cache_view c' = (cache_view c)(l \<mapsto> seg)"
    using cache_view_cong [OF tk(2,3)] u(2) w(2) by simp
  moreover have "static c' = static c" using tk(5) by (simp add: static_def)
  moreover have "memory_ok c'"
    using assms(2) memory_ok_cong [OF \<open>static c' = static c\<close>] tk(4) by simp
  ultimately show ?thesis using that tk(1) unfolding stored_def by simp
qed

lemma insert_room:
  assumes "cache_ok c" "length (bc_lru c) < bc_cap c" "hm_count (bc_map c) = hm_growat (bc_map c)"
  shows "2 * hm_nbuckets (bc_map c) < 65535"
proof -
  note t = table_okD [OF cache_okD(1) [OF assms(1)]]
  have "hm_count (bc_map c) \<le> card (set (bc_lru c))"
  proof (rule hm_count_le [OF t(1), of _ be_lba])
    fix x assume "hm_lookup (bc_map c) x = Some x"
    then have "cache_find c (be_lba x) = Some x"
      unfolding cache_find_def hm_lookup_iff [OF t(1)] t(2) cache_compare_0 by simp
    then show "be_lba x \<in> set (bc_lru c)" by (rule entriesD(1) [OF assms(1)])
  qed (simp_all add: t(2) cache_compare_0)
  also have "\<dots> \<le> length (bc_lru c)" by (rule card_length)
  finally have "hm_growat (bc_map c) < 8192"
    using assms(2,3) cache_okD(4) [OF assms(1)] by (simp add: BLOCK_CACHE_SECTOR_CAP_def)
  then show ?thesis using t(1) by (simp add: hm_ok_def grow_threshold_def)
qed

lemma cache_write_insert_ok:
  assumes "cache_ok c" "memory_ok c" "cache_find c l = None" "length (bc_lru c) < bc_cap c"
    and "p \<noteq> 0" "bc_bufs c p = None" "length seg = bc_sector c"
  obtains c' where "cache_write_insert c l p seg = Some (True, c')" "stored c l seg c'"
proof -
  note t = table_okD [OF cache_okD(1) [OF assms(1)]]
  let ?u = "add64 (bc_tick c) 1"
  let ?e = "\<lparr>be_lba = l, be_buf = p, be_used = ?u\<rparr>"
  obtain old m where s: "hashmap_set (bc_map c) ?e = Some (old, m)" "hm_ok m"
    "hm_compare m = cache_compare" "hm_hash m = cache_hash"
    "\<And>k. \<not> hm_oom m \<Longrightarrow> hm_lookup m k = (if cache_compare k ?e = 0 then Some ?e else hm_lookup (bc_map c) k)"
    using hashmap_set_spec [OF t(1) insert_room [OF assms(1,4)], of ?e] t(2,3) by metis
  have mal: "hm_malloc m = hm_malloc (bc_map c)" "\<not> hm_oom m"
    using hashmap_set_no_oom [OF s(1)] assms(2) by (auto simp: memory_ok_def)
  let ?c1 = "c\<lparr>bc_bufs := (bc_bufs c)(p \<mapsto> seg), bc_tick := ?u, bc_map := m\<rparr>"
  have lm: "hm_lookup m (key_entry k) = (if k = l then Some ?e else cache_find c k)" for k
    using s(5) [OF mal(2), of "key_entry k"] by (simp add: cache_compare_0 cache_find_def)
  obtain j where j: "hashmap_get_index m (key_entry l) = Some (Some j)" "b_item (hm_buckets m ! j) = ?e"
    using hashmap_get_index_spec [OF s(2), of "key_entry l"] lm [of l] by (auto split: option.splits)
  let ?m = "set_item m j (be_used_update (\<lambda>_. ?u))"
  have eq: "hm_compare m (be_used_update (\<lambda>_. ?u) (b_item (hm_buckets m ! j))) (b_item (hm_buckets m ! j)) = 0"
    by (simp add: s(3) cache_compare_0)
  note si = set_item_ok [where f = "be_used_update (\<lambda>_. ?u)", OF s(2) j(1) eq]
  have tm: "table_ok ?m" using si(1) s(3,4) by (simp add: table_ok_def)
  have find: "hm_lookup ?m (key_entry k) = (if k = l then Some ?e else cache_find c k)" for k
    using si(3) [of "key_entry k"] lm [of k] j(2) by (simp add: s(3) cache_compare_0)
  define c' where "c' = c\<lparr>bc_bufs := (bc_bufs c)(p \<mapsto> seg), bc_tick := ?u, bc_map := ?m,
    bc_requests := Suc (bc_requests c), bc_lru := bc_lru c @ [l], bc_lru_count := length (bc_lru c) + 1\<rparr>"
  have n: "length (bc_lru c) + 1 < U32"
    using assms(4) cache_okD(4) [OF assms(1)] by (simp add: BLOCK_CACHE_SECTOR_CAP_def U32_def)
  have "bc_node c (bc_requests c) (length (bc_lru c))"
    using assms(2,4) cache_okD(4) [OF assms(1)] by (simp add: memory_ok_def)
  then have ev: "cache_write_insert c l p seg = Some (True, c')"
    unfolding cache_write_insert_def Let_def c'_def cache_write_queue_def lru_touch_def
    using s(1) j(1) n cache_okD(5) [OF assms(1)] by simp
  have find': "cache_find c' k = (if k = l then Some ?e else cache_find c k)" for k
    using find by (simp add: cache_find_def c'_def)
  have other: "be_buf e \<noteq> p" if "cache_find c k = Some e" for k e
    using entriesD(3) [OF assms(1) that] assms(6) by auto
  have "entries_ok c'"
    unfolding entries_ok_def find'
  proof (intro conjI allI impI, goal_cases)
    case (1 k e) then show ?case using entriesD(1) [OF assms(1)] by (auto simp: c'_def split: if_splits)
  next
    case (2 k e) then show ?case using entriesD(2) [OF assms(1)] assms(5) by (auto split: if_splits)
  next
    case (3 k e)
    then show ?case using entriesD(3) [OF assms(1)] assms(7) other by (auto simp: c'_def split: if_splits)
  next
    case (4 k k' e e')
    then show ?case
      using entriesD(4) [OF assms(1), of k e k' e'] other [of k e] other [of k' e'] by (auto split: if_splits)
  qed
  then have "cache_ok c'" using assms(1) tm n unfolding cache_ok_def by (simp add: c'_def)
  moreover have "cache_view c' l = Some seg" by (simp add: cache_view_def find') (simp add: c'_def)
  moreover have "cache_view c' k = cache_view c k" if "k \<noteq> l" for k
  proof -
    have "bc_bufs c' = (bc_bufs c)(p \<mapsto> seg)" by (simp add: c'_def)
    then show ?thesis using that other unfolding cache_view_def find' by (auto split: option.splits)
  qed
  moreover have "memory_ok c'" using assms(2) mal(1) by (simp add: memory_ok_def c'_def)
  ultimately show ?thesis using that [OF ev] unfolding stored_def by (simp add: c'_def static_def)
qed

lemma cache_write_sector_ok:
  assumes "cache_ok c" "memory_ok c" "length seg = bc_sector c"
  obtains c' where "cache_write_sector c l seg = Some (True, c')" "stored c l seg c'"
proof (cases rule: find_index [OF assms(1), of l])
  case (2 i)
  show ?thesis
    by (rule cache_write_hit_ok [OF assms(1,2) 2(1) assms(3)])
      (use that 2(1) in \<open>auto simp: cache_write_sector_def\<close>)
next
  case 1
  obtain c1 where c1: "evict_while (bc_cap c) c = Some c1" "cache_ok c1" "shrunk c c1"
    "length (bc_lru c1) < bc_cap c"
    using evict_while_ok [OF assms(1) cache_okD(3) [OF assms(1)]] by blast
  have st: "static c1 = static c" "length (bc_lru c1) \<le> length (bc_lru c)"
    "\<And>k. cache_view c1 k = None \<or> cache_view c1 k = cache_view c k"
    using c1(3) by (auto simp: shrunk_def)
  let ?c2 = "c1\<lparr>bc_requests := Suc (bc_requests c1)\<rparr>"
  let ?p = "bc_alloc c1 (bc_requests c1) (bc_bufs c1)"
  have m1: "memory_ok c1" using shrunk_memory [OF c1(3)] assms(2) by simp
  have fin: "finite (dom (bc_bufs c1))" by (rule cache_okD(7) [OF c1(2)])
  have p: "?p \<noteq> 0" using m1 fin by (simp add: memory_ok_def)
  have fr: "bc_bufs c1 ?p = None" using cache_okD(8) [OF c1(2)] fin p by (simp add: alloc_fresh_def)
  have f2: "cache_find ?c2 = cache_find c1" by (simp add: fun_eq_iff cache_find_def)
  have ok2: "cache_ok ?c2" using c1(2) unfolding cache_ok_def entries_ok_def f2 by simp
  have none: "cache_find c1 l = None" using c1(3) 1(2) unfolding shrunk_def by (metis)
  obtain c' where c': "cache_write_insert ?c2 l ?p seg = Some (True, c')" "stored ?c2 l seg c'"
    by (rule cache_write_insert_ok [of ?c2 l ?p seg])
      (use ok2 m1 none f2 c1(4) st(1) p fr assms(3) in \<open>simp_all add: memory_ok_def static_def\<close>)
  have v2: "cache_view ?c2 = cache_view c1" by (rule cache_view_cong [OF f2]) simp
  have "stored c l seg c'"
    using c'(2) st unfolding stored_def v2 by (auto simp: static_def) metis+
  moreover have "cache_write_sector c l seg = Some (True, c')"
    using 1(1) c1(1) p c'(1) by (simp add: cache_write_sector_def cache_alloc_def)
  ultimately show ?thesis using that by blast
qed

text \<open>Sector \<open>k\<close> of a buffer.\<close>

definition nth_sector :: "nat \<Rightarrow> byte list \<Rightarrow> nat \<Rightarrow> byte list" where
  "nth_sector n xs k = take n (drop (k * n) xs)"

lemma cache_write_loop_ok:
  assumes "cache_ok c" "memory_ok c" "length src = n * bc_sector c" "l + n < W64"
  shows "\<exists>c'. cache_write_loop c l n src = Some (True, c') \<and> cache_ok c' \<and> memory_ok c' \<and>
    static c' = static c \<and>
    (\<forall>k. cache_view c' k = None \<or>
       cache_view c' k = (if l \<le> k \<and> k < l + n then Some (nth_sector (bc_sector c) src (k - l))
                          else cache_view c k))"
  using assms
proof (induction n arbitrary: c l src)
  case 0
  then show ?case by auto
next
  case (Suc n)
  let ?n = "bc_sector c"
  have len: "length (take ?n src) = ?n" using Suc.prems(3) by simp
  obtain c1 where c1: "cache_write_sector c l (take ?n src) = Some (True, c1)" "stored c l (take ?n src) c1"
    by (rule cache_write_sector_ok [OF Suc.prems(1,2) len])
  have s: "cache_ok c1" "memory_ok c1" "static c1 = static c"
    "cache_view c1 l = Some (take ?n src)" "bc_sector c1 = ?n"
    "\<And>k. k \<noteq> l \<Longrightarrow> cache_view c1 k = None \<or> cache_view c1 k = cache_view c k"
    using c1(2) by (auto simp: stored_def static_def)
  have a: "add64 l 1 = l + 1" using Suc.prems(4) by (simp add: add64_def)
  have pre: "length (drop ?n src) = n * bc_sector c1" "l + 1 + n < W64"
    using Suc.prems(3,4) s(5) by simp_all
  obtain c' where c': "cache_write_loop c1 (l + 1) n (drop ?n src) = Some (True, c')" "cache_ok c'" "memory_ok c'"
    "static c' = static c1"
    "\<And>k. cache_view c' k = None \<or> cache_view c' k =
       (if l + 1 \<le> k \<and> k < l + 1 + n then Some (nth_sector ?n (drop ?n src) (k - (l + 1))) else cache_view c1 k)"
    using Suc.IH [OF s(1,2) pre] unfolding s(5) by blast
  have sec: "nth_sector ?n (drop ?n src) (k - (l + 1)) = nth_sector ?n src (k - l)" if "l + 1 \<le> k" for k
  proof -
    have "k - l = Suc (k - (l + 1))" using that by simp
    then show ?thesis by (simp add: nth_sector_def add.commute)
  qed
  have "cache_view c' k = None \<or> cache_view c' k =
      (if l \<le> k \<and> k < l + Suc n then Some (nth_sector ?n src (k - l)) else cache_view c k)" for k
  proof (cases "k = l")
    case True
    then show ?thesis using c'(5) [of l] s(4) by (simp add: nth_sector_def)
  next
    case False
    then show ?thesis using c'(5) [of k] s(6) [OF False] sec [of k] by (auto split: if_splits)
  qed
  then show ?case using c1(1) c'(1-4) s(3) a by auto
qed

lemma cache_error [simp]:
  "cache_find (c\<lparr>bc_error := e\<rparr>) = cache_find c" "cache_view (c\<lparr>bc_error := e\<rparr>) = cache_view c"
  "cache_ok (c\<lparr>bc_error := e\<rparr>) = cache_ok c" "memory_ok (c\<lparr>bc_error := e\<rparr>) = memory_ok c"
proof -
  show f: "cache_find (c\<lparr>bc_error := e\<rparr>) = cache_find c" by (simp add: fun_eq_iff cache_find_def)
  show "cache_view (c\<lparr>bc_error := e\<rparr>) = cache_view c" by (rule cache_view_cong [OF f]) simp
  show "cache_ok (c\<lparr>bc_error := e\<rparr>) = cache_ok c" unfolding cache_ok_def entries_ok_def f by simp
  show "memory_ok (c\<lparr>bc_error := e\<rparr>) = memory_ok c" by (simp add: memory_ok_def)
qed

section \<open>Whole requests\<close>

lemma sectors_for_len_exact:
  assumes "0 < s" "0 < n" "n * s + s < U32"
  shows "sectors_for_len s (n * s) = n"
proof -
  have "n * s + s + U32 - 1 = (n * s + (s - 1)) + U32" using assms(1) by simp
  then have "(n * s + s + U32 - 1) mod U32 = (n * s + (s - 1)) mod U32" by (simp only: mod_add_self2)
  also have "\<dots> = n * s + (s - 1)" using assms by (intro mod_less) simp
  finally have "(n * s + s + U32 - 1) mod U32 = n * s + (s - 1)" .
  moreover have "(n * s + (s - 1)) div s = n" using assms(1) by (intro div_nat_eqI) (auto simp: mult.commute)
  ultimately show ?thesis using assms(1,2) by (simp only: sectors_for_len_def) simp
qed

lemma block_cache_read_ok:
  assumes "cache_ok c" "0 < n" "n * bc_sector c + bc_sector c < U32" "l + n \<le> bc_devsize c" "bc_devsize c < W64"
  obtains r c' where "block_cache_read c l (n * bc_sector c) = Some (r, c')" "cache_ok c'"
    "r = (if \<forall>k < n. cache_view c (l + k) \<noteq> None
          then Some (concat (map (\<lambda>k. the (cache_view c k)) [l ..< l + n])) else None)"
    "cache_view c' = cache_view c" "static c' = static c" "memory_ok c' = memory_ok c"
proof -
  have "sectors_for_len (bc_sector c) (n * bc_sector c) = n"
    by (rule sectors_for_len_exact [OF cache_okD(2) [OF assms(1)] assms(2,3)])
  moreover have "add64 l n = l + n" using assms(4,5) by (simp add: add64_nowrap)
  ultimately have "block_cache_read c l (n * bc_sector c) = cache_read_loop c l n []"
    using assms(4) by (simp add: block_cache_read_def)
  then show ?thesis
    using cache_read_loop_ok [OF assms(1), of l n "[]"] assms(4,5) that by auto
qed

lemma block_cache_write_ok:
  assumes "cache_ok c" "memory_ok c" "0 < n" "n * bc_sector c + bc_sector c < U32" "l + n \<le> bc_devsize c"
    "bc_devsize c < W64" "length src = n * bc_sector c"
  obtains c' where "block_cache_write c l (n * bc_sector c) src = Some (True, c')" "cache_ok c'" "memory_ok c'"
    "static c' = static c"
    "\<And>k. cache_view c' k = None \<or> cache_view c' k =
       (if l \<le> k \<and> k < l + n then Some (nth_sector (bc_sector c) src (k - l)) else cache_view c k)"
proof -
  have "sectors_for_len (bc_sector c) (n * bc_sector c) = n"
    by (rule sectors_for_len_exact [OF cache_okD(2) [OF assms(1)] assms(3,4)])
  moreover have "add64 l n = l + n" using assms(5,6) by (simp add: add64_nowrap)
  ultimately have "block_cache_write c l (n * bc_sector c) src = cache_write_loop c l n src"
    using assms(5) by (simp add: block_cache_write_def)
  then show ?thesis
    using cache_write_loop_ok [OF assms(1,2,7), of l] assms(5,6) that by auto
qed

lemma block_cache_create_ok:
  assumes "alloc_fresh al" "nodes_bounded nd" "0 < bs" "block_cache_create got mal al nd dsz bs = Some c"
  shows "cache_ok c" "cache_view c = (\<lambda>_. None)" "bc_sector c = bs" "bc_devsize c = dsz" "bc_lru c = []"
    "(\<forall>k n. mal k n) \<Longrightarrow> (\<forall>k st. finite (dom st) \<longrightarrow> al k st \<noteq> 0) \<Longrightarrow>
      (\<forall>k n. n < BLOCK_CACHE_SECTOR_CAP \<longrightarrow> nd k n) \<Longrightarrow> memory_ok c"
proof -
  obtain m req where m: "hashmap_new_with_allocator mal 0 24 0 CACHE_HASH_SEED0 CACHE_HASH_SEED1
      cache_hash cache_compare False (key_entry 0) = (Some m, req)"
    and c: "c = \<lparr>bc_devsize = dsz, bc_sector = bs, bc_cap = BLOCK_CACHE_SECTOR_CAP,
      bc_map = m, bc_lru = [], bc_lru_count = 0, bc_tick = 0, bc_bufs = Map.empty,
      bc_alloc = al, bc_node = nd, bc_requests = 0, bc_error = None\<rparr>"
    using assms(4) by (auto simp: block_cache_create_def split: if_splits prod.splits option.splits)
  have hm: "hm_ok m" "hm_lookup m = (\<lambda>_. None)"
    using hashmap_new_ok [OF m cache_callbacks_ok] by auto
  have fl: "hm_compare m = cache_compare" "hm_hash m = cache_hash" "hm_malloc m = mal"
    using m by (auto simp: hashmap_new_with_allocator_def Let_def split: if_splits)
  have find: "cache_find c = (\<lambda>_. None)" using hm(2) by (simp add: fun_eq_iff cache_find_def c)
  show "cache_ok c"
    unfolding cache_ok_def entries_ok_def find table_ok_def
    using hm fl assms(1-3) by (simp add: c BLOCK_CACHE_SECTOR_CAP_def U32_def)
  show "cache_view c = (\<lambda>_. None)" by (simp add: fun_eq_iff cache_view_def find)
  show "bc_sector c = bs" "bc_devsize c = dsz" "bc_lru c = []" by (simp_all add: c)
  show "(\<forall>k n. mal k n) \<Longrightarrow> (\<forall>k st. finite (dom st) \<longrightarrow> al k st \<noteq> 0) \<Longrightarrow>
      (\<forall>k n. n < BLOCK_CACHE_SECTOR_CAP \<longrightarrow> nd k n) \<Longrightarrow> memory_ok c"
    using fl by (simp add: memory_ok_def c)
qed

text \<open>\<^verbatim>\<open>block_cache_invalidate\<close> empties the cache.\<close>

lemma block_cache_invalidate_ok:
  assumes "cache_ok c"
  shows "\<exists>c'. block_cache_invalidate c = Some c' \<and> cache_ok c' \<and> cache_view c' = (\<lambda>_. None)"
proof -
  obtain c' where c': "evict_while 1 c = Some c'" "cache_ok c'" "length (bc_lru c') < 1"
    using evict_while_ok [OF assms, of 1] by auto
  have "cache_find c' k = None" for k
    using entriesD(1) [OF c'(2), of k] c'(3) by (cases "cache_find c' k") auto
  then show ?thesis using c' by (auto simp: block_cache_invalidate_def fun_eq_iff view_None)
qed

section \<open>Properties\<close>

text \<open>A cache for the witnesses: 100 sectors of 4 bytes, and memory that never runs out.\<close>

definition demo_alloc :: "nat \<Rightarrow> (nat \<rightharpoonup> byte list) \<Rightarrow> nat" where
  "demo_alloc k st = Suc (Max (insert 0 (dom st)))"

definition demo_cache :: block_cache where
  "demo_cache = the (block_cache_create True (\<lambda>k n. True) demo_alloc (\<lambda>k n. n < 8192) 100 4)"

lemma demo_alloc_fresh: "alloc_fresh demo_alloc"
proof -
  have "st (Suc (Max (insert 0 (dom st)))) = None" if "finite (dom st)" for st :: "nat \<rightharpoonup> byte list"
  proof (rule ccontr)
    assume "st (Suc (Max (insert 0 (dom st)))) \<noteq> None"
    then have "Suc (Max (insert 0 (dom st))) \<le> Max (insert 0 (dom st))"
      using that by (intro Max_ge) auto
    then show False by simp
  qed
  then show ?thesis by (simp add: alloc_fresh_def demo_alloc_def)
qed

lemma demo_cache_ok:
  "cache_ok demo_cache" "memory_ok demo_cache" "bc_sector demo_cache = 4" "bc_devsize demo_cache = 100"
  "cache_view demo_cache = (\<lambda>_. None)"
proof -
  have c: "block_cache_create True (\<lambda>k n. True) demo_alloc (\<lambda>k n. n < 8192) 100 4 = Some demo_cache"
    by (simp add: demo_cache_def block_cache_create_def hashmap_new_with_allocator_def)
  have nd: "nodes_bounded (\<lambda>k n. n < 8192)" by (simp add: nodes_bounded_def U32_def)
  note ok = block_cache_create_ok [OF demo_alloc_fresh nd zero_less_numeral c]
  show "cache_ok demo_cache" "bc_sector demo_cache = 4" "bc_devsize demo_cache = 100"
    "cache_view demo_cache = (\<lambda>_. None)"
    by (rule ok)+
  show "memory_ok demo_cache"
    by (rule ok(6)) (simp_all add: demo_alloc_def BLOCK_CACHE_SECTOR_CAP_def)
qed

text \<open>\<^verbatim>\<open>block_cache_read\<close> of whole sectors returns.  It is a hit exactly when every sector of the range
  is cached, and then it returns their bytes in order; either way the cached contents and the
  invariant stay the same.\<close>

theorem block_cache_read_correct:
  assumes "cache_ok c" "0 < n" "n * bc_sector c + bc_sector c < U32" "l + n \<le> bc_devsize c" "bc_devsize c < W64"
  shows "\<exists>r c'. block_cache_read c l (n * bc_sector c) = Some (r, c') \<and> cache_ok c' \<and>
    cache_view c' = cache_view c \<and>
    r = (if \<forall>k<n. cache_view c (l + k) \<noteq> None
         then Some (concat (map (\<lambda>k. the (cache_view c k)) [l ..< l + n])) else None)"
  by (rule block_cache_read_ok [OF assms]) blast

theorem block_cache_read_correct_witness:
  "\<exists>c'. block_cache_read demo_cache 7 8 = Some (None, c') \<and> cache_ok c'"
proof -
  have "\<exists>k::nat. k < 2" by (rule exI [of _ 0]) simp
  then show ?thesis
    using block_cache_read_correct [OF demo_cache_ok(1), of 2 7] demo_cache_ok(3-5)
    by (auto simp: U32_def W64_def)
qed

text \<open>\<^verbatim>\<open>block_cache_write\<close> of whole sectors, with memory available, returns success and keeps the
  invariant.  Afterwards a sector of the range is cached with the bytes written or not cached, and any
  other sector is cached as before or not cached: eviction never leaves stale bytes.\<close>

theorem block_cache_write_correct:
  assumes "cache_ok c" "memory_ok c" "0 < n" "n * bc_sector c + bc_sector c < U32" "l + n \<le> bc_devsize c"
    and "bc_devsize c < W64" "length src = n * bc_sector c"
  shows "\<exists>c'. block_cache_write c l (n * bc_sector c) src = Some (True, c') \<and> cache_ok c' \<and>
    (\<forall>k. cache_view c' k = None \<or> cache_view c' k =
       (if l \<le> k \<and> k < l + n then Some (nth_sector (bc_sector c) src (k - l)) else cache_view c k))"
  by (rule block_cache_write_ok [OF assms]) blast

theorem block_cache_write_correct_witness:
  "\<exists>c'. block_cache_write demo_cache 7 4 [1, 2, 3, 4] = Some (True, c') \<and> cache_ok c'"
  using block_cache_write_correct [OF demo_cache_ok(1,2), of 1 7 "[1, 2, 3, 4]"] demo_cache_ok(3-5)
  by (auto simp: U32_def W64_def)

text \<open>One sector written to the cache is read back from it.\<close>

theorem block_cache_roundtrip:
  assumes "cache_ok c" "memory_ok c" "2 * bc_sector c < U32" "l < bc_devsize c" "bc_devsize c < W64"
    and "length src = bc_sector c"
  shows "\<exists>c1 c2. block_cache_write c l (bc_sector c) src = Some (True, c1) \<and>
    block_cache_read c1 l (bc_sector c) = Some (Some src, c2)"
proof -
  obtain c1 where w: "cache_write_sector c l src = Some (True, c1)" "stored c l src c1"
    using cache_write_sector_ok [OF assms(1,2,6)] by metis
  have c1: "cache_ok c1" "cache_view c1 l = Some src" "bc_sector c1 = bc_sector c" "bc_devsize c1 = bc_devsize c"
    using w(2) by (auto simp: stored_def static_def)
  have "sectors_for_len (bc_sector c) (bc_sector c) = 1"
    using sectors_for_len_exact [of "bc_sector c" 1] cache_okD(2) [OF assms(1)] assms(3) by simp
  then have "block_cache_write c l (bc_sector c) src = Some (True, c1)"
    using w(1) assms(4-6) by (simp add: block_cache_write_def add64_nowrap)
  moreover obtain r c2 where "block_cache_read c1 l (1 * bc_sector c1) = Some (r, c2)"
    "r = (if \<forall>k < 1. cache_view c1 (l + k) \<noteq> None
          then Some (concat (map (\<lambda>k. the (cache_view c1 k)) [l ..< l + 1])) else None)"
    by (rule block_cache_read_ok [OF c1(1), of 1 l]) (use assms(3-5) c1(3,4) in auto)
  ultimately show ?thesis using c1(2,3) by auto
qed

theorem block_cache_roundtrip_witness:
  "\<exists>c1 c2. block_cache_write demo_cache 7 4 [1, 2, 3, 4] = Some (True, c1) \<and>
    block_cache_read c1 7 4 = Some (Some [1, 2, 3, 4], c2)"
  using block_cache_roundtrip [OF demo_cache_ok(1,2), of 7 "[1, 2, 3, 4]"] demo_cache_ok(3-5)
  by (simp add: U32_def W64_def)

text \<open>C31: the eviction loops end: \<^verbatim>\<open>block_cache_invalidate\<close> returns with an empty, well-formed cache.\<close>

theorem block_cache_invalidate_empties:
  assumes "cache_ok c"
  shows "\<exists>c'. block_cache_invalidate c = Some c' \<and> cache_ok c' \<and> cache_view c' = (\<lambda>_. None)"
  by (rule block_cache_invalidate_ok [OF assms])

theorem block_cache_invalidate_empties_witness:
  "\<exists>c'. block_cache_invalidate demo_cache = Some c' \<and> cache_view c' = (\<lambda>_. None)"
  using block_cache_invalidate_empties [OF demo_cache_ok(1)] by blast

end
