(* ===== verification/BlockDevice.thy ===== *)
theory BlockDevice
  imports BlockCacheSpec
begin

text \<open>
  The interface between the filesystems and a block storage device.  A device of \<open>nblk\<close> sectors of
  \<open>bsz\<close> bytes is read and written in whole sectors; \<open>sector d k\<close> is what sector \<open>k\<close> holds in state \<open>d\<close>.
  Requests may fail, and a failed request leaves the sectors alone: the device is idealised in that a write that
  fails halfway is not described.  A \<open>reliable\<close> device fails only requests that leave the device.
\<close>

text \<open>The sectors from \<open>s\<close> on replaced by the contents of a buffer.\<close>

definition put_sectors :: "nat \<Rightarrow> (nat \<Rightarrow> byte list) \<Rightarrow> nat \<Rightarrow> byte list \<Rightarrow> (nat \<Rightarrow> byte list)" where
  "put_sectors n f s xs = (\<lambda>k. if s \<le> k \<and> k < s + length xs div n then nth_sector n xs (k - s) else f k)"

definition get_sectors :: "(nat \<Rightarrow> byte list) \<Rightarrow> nat \<Rightarrow> nat \<Rightarrow> byte list" where
  "get_sectors f s n = concat (map f [s ..< s + n])"

lemma length_get_sectors:
  assumes "\<And>k. s \<le> k \<Longrightarrow> k < s + n \<Longrightarrow> length (f k) = b"
  shows "length (get_sectors f s n) = n * b"
  using assms
proof (induction n)
  case 0
  then show ?case by (simp add: get_sectors_def)
next
  case (Suc n)
  then show ?case by (simp add: get_sectors_def)
qed

lemma nth_sector_concat:
  assumes "\<And>k. k < length xs \<Longrightarrow> length (xs ! k) = b" "k < length xs"
  shows "nth_sector b (concat xs) k = xs ! k"
  using assms
proof (induction xs arbitrary: k)
  case Nil
  then show ?case by simp
next
  case (Cons x xs)
  have x: "length x = b" using Cons.prems(1) [of 0] by simp
  show ?case
  proof (cases k)
    case 0
    then show ?thesis using x by (simp add: nth_sector_def)
  next
    case (Suc j)
    then show ?thesis
      using Cons.IH [of j] Cons.prems(1) [of "Suc _"] Cons.prems(2) x by (simp add: nth_sector_def)
  qed
qed

lemma get_put_sectors:
  assumes "0 < b" "length xs = n * b"
  shows "get_sectors (put_sectors b f s xs) s n = xs"
  using assms(2)
proof (induction n arbitrary: s xs f)
  case 0
  then show ?case by (simp add: get_sectors_def)
next
  case (Suc n)
  have d: "length (drop b xs) = n * b" using Suc.prems by simp
  have q: "length xs div b = Suc n" "length (drop b xs) div b = n" using Suc.prems d assms(1) by simp_all
  have tl: "put_sectors b f s xs k = put_sectors b f (Suc s) (drop b xs) k" if "Suc s \<le> k" "k < Suc s + n" for k
  proof -
    have "k - s = Suc (k - Suc s)" using that by simp
    then show ?thesis using that q by (simp add: put_sectors_def nth_sector_def add.commute)
  qed
  have mp: "map (put_sectors b f s xs) [Suc s ..< Suc s + n] = map (put_sectors b f (Suc s) (drop b xs)) [Suc s ..< Suc s + n]"
    using tl by (intro map_cong refl) auto
  have "[s ..< s + Suc n] = s # [Suc s ..< Suc s + n]" by (simp add: upt_conv_Cons)
  then have "get_sectors (put_sectors b f s xs) s (Suc n) =
      put_sectors b f s xs s @ get_sectors (put_sectors b f (Suc s) (drop b xs)) (Suc s) n"
    unfolding get_sectors_def mp [symmetric] by simp
  also have "put_sectors b f s xs s = take b xs" using q by (simp add: put_sectors_def nth_sector_def)
  finally show ?case using Suc.IH [OF d, of f "Suc s"] by simp
qed

lemma get_put_sectors_other:
  assumes "0 < b" "length xs = n * b" "s' + n' \<le> s \<or> s + n \<le> s'"
  shows "get_sectors (put_sectors b f s xs) s' n' = get_sectors f s' n'"
proof -
  have "map (put_sectors b f s xs) [s' ..< s' + n'] = map f [s' ..< s' + n']"
    using assms by (intro map_cong refl) (auto simp: put_sectors_def)
  then show ?thesis unfolding get_sectors_def by (rule arg_cong)
qed

text \<open>A sequence of requests, on a device and on the plain array of sectors it stands for.  A read
  names the first block and the number of blocks, a write the first block and the data.\<close>

datatype io_request = ReadBlocks nat nat | WriteBlocks nat "byte list"

fun io_ok :: "nat \<Rightarrow> nat \<Rightarrow> io_request \<Rightarrow> bool" where
  "io_ok bsz nblk (ReadBlocks s n) \<longleftrightarrow> 0 < n \<and> n * bsz + bsz < U32 \<and> s + n \<le> nblk"
| "io_ok bsz nblk (WriteBlocks s xs) \<longleftrightarrow>
     (let n = length xs div bsz in
      0 < n \<and> length xs = n * bsz \<and> n * bsz + bsz < U32 \<and> s + n \<le> nblk)"

fun array_run :: "nat \<Rightarrow> io_request list \<Rightarrow> (nat \<Rightarrow> byte list) \<Rightarrow> byte list list \<times> (nat \<Rightarrow> byte list)" where
  "array_run bsz [] a = ([], a)"
| "array_run bsz (ReadBlocks s n # rs) a =
     (case array_run bsz rs a of (out, a') \<Rightarrow> (get_sectors a s n # out, a'))"
| "array_run bsz (WriteBlocks s xs # rs) a = array_run bsz rs (put_sectors bsz a s xs)"

text \<open>The run on a device stops with \<open>None\<close> at the first request that fails.\<close>

fun device_run ::
    "('d \<Rightarrow> nat \<Rightarrow> nat \<Rightarrow> (byte list option \<times> 'd) option) \<Rightarrow>
     ('d \<Rightarrow> nat \<Rightarrow> nat \<Rightarrow> byte list \<Rightarrow> (bool \<times> 'd) option) \<Rightarrow> nat \<Rightarrow> io_request list \<Rightarrow> 'd \<Rightarrow>
     (byte list list \<times> 'd) option" where
  "device_run rd wr bsz [] d = Some ([], d)"
| "device_run rd wr bsz (ReadBlocks s n # rs) d =
     (case rd d s (n * bsz) of
        Some (Some ys, d1) \<Rightarrow> map_option (\<lambda>(out, d2). (ys # out, d2)) (device_run rd wr bsz rs d1)
      | _ \<Rightarrow> None)"
| "device_run rd wr bsz (WriteBlocks s xs # rs) d =
     (case wr d s (length xs) xs of
        Some (True, d1) \<Rightarrow> device_run rd wr bsz rs d1
      | _ \<Rightarrow> None)"

locale block_device =
  fixes ok :: "'d \<Rightarrow> bool" and bsz nblk :: nat and sector :: "'d \<Rightarrow> nat \<Rightarrow> byte list"
    and rd :: "'d \<Rightarrow> nat \<Rightarrow> nat \<Rightarrow> (byte list option \<times> 'd) option"
    and wr :: "'d \<Rightarrow> nat \<Rightarrow> nat \<Rightarrow> byte list \<Rightarrow> (bool \<times> 'd) option"
  assumes bsz: "ok d \<Longrightarrow> 0 < bsz" and nblk: "ok d \<Longrightarrow> nblk < W64"
    and sector_len: "ok d \<Longrightarrow> k < nblk \<Longrightarrow> length (sector d k) = bsz"
    and read_law: "ok d \<Longrightarrow> 0 < n \<Longrightarrow> n * bsz + bsz < U32 \<Longrightarrow> s + n < W64 \<Longrightarrow>
      \<exists>r d'. rd d s (n * bsz) = Some (r, d') \<and> ok d' \<and> sector d' = sector d \<and>
        (r = None \<or> s + n \<le> nblk \<and> r = Some (get_sectors (sector d) s n))"
    and write_law: "ok d \<Longrightarrow> 0 < n \<Longrightarrow> n * bsz + bsz < U32 \<Longrightarrow> s + n < W64 \<Longrightarrow> length xs = n * bsz \<Longrightarrow>
      \<exists>r d'. wr d s (n * bsz) xs = Some (r, d') \<and> ok d' \<and>
        (if r then s + n \<le> nblk \<and> sector d' = put_sectors bsz (sector d) s xs else sector d' = sector d)"
begin

lemma read_after_write:
  assumes "ok d" "0 < n" "n * bsz + bsz < U32" "s + n < W64" "length xs = n * bsz"
    "wr d s (n * bsz) xs = Some (True, d1)" "rd d1 s (n * bsz) = Some (Some ys, d2)"
  shows "ys = xs"
proof -
  have "ok d1" "sector d1 = put_sectors bsz (sector d) s xs" using write_law [OF assms(1-5)] assms(6) by auto
  then show ?thesis using read_law [of d1, OF _ assms(2-4)] assms(7) get_put_sectors [OF bsz [OF assms(1)] assms(5)] by auto
qed

lemma read_length:
  assumes "ok d" "0 < n" "n * bsz + bsz < U32" "s + n < W64" "rd d s (n * bsz) = Some (Some ys, d2)"
  shows "length ys = n * bsz"
  using read_law [OF assms(1-4)] assms(5) length_get_sectors [of s n "sector d" bsz] sector_len [OF assms(1)] by auto

end

locale reliable_device = block_device +
  assumes reliable_read: "ok d \<Longrightarrow> 0 < n \<Longrightarrow> n * bsz + bsz < U32 \<Longrightarrow> s + n \<le> nblk \<Longrightarrow>
      rd d s (n * bsz) = Some (r, d') \<Longrightarrow> r \<noteq> None"
    and reliable_write: "ok d \<Longrightarrow> 0 < n \<Longrightarrow> n * bsz + bsz < U32 \<Longrightarrow> s + n \<le> nblk \<Longrightarrow>
      length xs = n * bsz \<Longrightarrow> wr d s (n * bsz) xs = Some (b, d') \<Longrightarrow> b"
begin

lemma write_read:
  assumes "ok d" "0 < n" "n * bsz + bsz < U32" "s + n \<le> nblk" "length xs = n * bsz"
  shows "\<exists>d1 d2. wr d s (n * bsz) xs = Some (True, d1) \<and> rd d1 s (n * bsz) = Some (Some xs, d2)"
proof -
  have sn: "s + n < W64" using assms(4) nblk [OF assms(1)] by simp
  obtain r d1 where w: "wr d s (n * bsz) xs = Some (r, d1)" "ok d1"
    using write_law [OF assms(1-3) sn assms(5)] by auto
  have r: "r" using reliable_write [OF assms w(1)] .
  obtain r' d2 where rd: "rd d1 s (n * bsz) = Some (r', d2)" using read_law [OF w(2) assms(2,3) sn] by auto
  obtain ys where "r' = Some ys" using reliable_read [OF w(2) assms(2-4) rd] by auto
  moreover from this have "ys = xs" using read_after_write [OF assms(1-3) sn assms(5), of d1 ys d2] w(1) rd r by simp
  ultimately show ?thesis using w(1) rd r by auto
qed

text \<open>A reliable device behaves as the array of its sectors.\<close>

lemma run_refines:
  assumes "ok d" "list_all (io_ok bsz nblk) rs"
  shows "\<exists>d'. device_run rd wr bsz rs d = Some (fst (array_run bsz rs (sector d)), d') \<and> ok d' \<and>
    sector d' = snd (array_run bsz rs (sector d))"
  using assms
proof (induction rs arbitrary: d)
  case Nil
  then show ?case by simp
next
  case (Cons req rs)
  show ?case
  proof (cases req)
    case (ReadBlocks s n)
    have q: "0 < n" "n * bsz + bsz < U32" "s + n \<le> nblk" using Cons.prems(2) ReadBlocks by auto
    then have "s + n < W64" using nblk [OF Cons.prems(1)] by simp
    then obtain r d1 where r: "rd d s (n * bsz) = Some (r, d1)" "ok d1" "sector d1 = sector d"
      "r = None \<or> r = Some (get_sectors (sector d) s n)"
      using read_law [OF Cons.prems(1) q(1,2)] by blast
    then have "r = Some (get_sectors (sector d) s n)"
      using reliable_read [OF Cons.prems(1) q r(1)] by blast
    then show ?thesis
      using Cons.IH [OF r(2)] Cons.prems(2) r ReadBlocks by (auto split: prod.split)
  next
    case (WriteBlocks s xs)
    obtain n where q: "0 < n" "length xs = n * bsz" "n * bsz + bsz < U32" "s + n \<le> nblk"
      using Cons.prems(2) WriteBlocks by (auto simp: Let_def)
    then have "s + n < W64" using nblk [OF Cons.prems(1)] by simp
    then obtain r d1 where w: "wr d s (n * bsz) xs = Some (r, d1)" "ok d1"
      "r \<longrightarrow> sector d1 = put_sectors bsz (sector d) s xs"
      using write_law [OF Cons.prems(1) q(1,3) _ q(2)] by (metis (full_types))
    then have r "sector d1 = put_sectors bsz (sector d) s xs"
      using reliable_write [OF Cons.prems(1) q(1,3,4,2) w(1)] by blast+
    then show ?thesis using Cons.IH [OF w(2)] Cons.prems(2) w q(2) WriteBlocks by auto
  qed
qed

end

end
