(* ===== verification/CString.thy ===== *)
theory CString
  imports Prelude
begin

text \<open>
  NUL-terminated strings of \<^verbatim>\<open>src/string.c\<close>.  A string is the list of bytes from its first byte on;
  the end of the list stands for the terminator, and anything behind a zero byte is not part of it.
\<close>

definition cstr :: "byte list \<Rightarrow> byte list" where
  "cstr s = takeWhile (\<lambda>b. b \<noteq> 0) s"

definition strlen :: "byte list \<Rightarrow> nat" where
  "strlen s = length (cstr s)"

text \<open>The byte the loop of \<^verbatim>\<open>strcmp\<close> looks at: the terminator when the list is used up.\<close>

definition peek :: "byte list \<Rightarrow> byte" where
  "peek s = (case s of [] \<Rightarrow> 0 | b # _ \<Rightarrow> b)"

function strcmp :: "byte list \<Rightarrow> byte list \<Rightarrow> int" where
  "strcmp s1 s2 =
     (if peek s1 = peek s2
      then (if peek s1 = 0 then 0 else strcmp (tl s1) (tl s2))
      else int (unat (peek s1)) - int (unat (peek s2)))"
  by pat_completeness auto
termination
  by (relation "measure (\<lambda>(s1, s2). length s1)") (auto simp: peek_def split: list.splits)

declare strcmp.simps [simp del]

definition toupper :: "byte \<Rightarrow> byte" where
  "toupper b = (if 97 \<le> unat b \<and> unat b \<le> 122 then b - 32 else b)"

function stricmp :: "byte list \<Rightarrow> byte list \<Rightarrow> int" where
  "stricmp s1 s2 =
     (if toupper (peek s1) = toupper (peek s2)
      then (if peek s1 = 0 then 0 else stricmp (tl s1) (tl s2))
      else int (unat (peek s1)) - int (unat (peek s2)))"
  by pat_completeness auto
termination
  by (relation "measure (\<lambda>(s1, s2). length s1)") (auto simp: peek_def split: list.splits)

declare stricmp.simps [simp del]

lemma cstr_Cons: "s \<noteq> [] \<Longrightarrow> peek s \<noteq> 0 \<Longrightarrow> cstr s = peek s # cstr (tl s)"
  by (cases s) (auto simp: cstr_def peek_def)

lemma cstr_Nil: "peek s = 0 \<Longrightarrow> cstr s = []"
  by (cases s) (auto simp: cstr_def peek_def)

lemma peek_nonempty: "peek s \<noteq> 0 \<Longrightarrow> s \<noteq> []"
  by (auto simp: peek_def)

lemma strcmp_0: "strcmp s1 s2 = 0 \<longleftrightarrow> cstr s1 = cstr s2"
proof (induction s1 s2 rule: strcmp.induct)
  case (1 s1 s2)
  consider "peek s1 = peek s2" "peek s1 = 0" | "peek s1 = peek s2" "peek s1 \<noteq> 0" | "peek s1 \<noteq> peek s2"
    by blast
  then show ?case
  proof cases
    case 1
    then show ?thesis by (subst strcmp.simps) (simp add: cstr_Nil)
  next
    case 2
    then have "s1 \<noteq> []" "s2 \<noteq> []" using peek_nonempty by auto
    then show ?thesis using 2 "1.IH" by (subst strcmp.simps) (simp add: cstr_Cons)
  next
    case 3
    then have "cstr s1 \<noteq> cstr s2"
      by (metis cstr_Cons cstr_Nil list.distinct(1) list.inject peek_nonempty)
    moreover have "uint (peek s1) \<noteq> uint (peek s2)" using 3 by (metis word_uint_eq_iff)
    ultimately show ?thesis using 3 by (subst strcmp.simps) simp
  qed
qed

text \<open>\<^verbatim>\<open>stricmp\<close> finds two strings equal exactly when they agree up to case.\<close>

lemma toupper_0: "toupper b = 0 \<longleftrightarrow> b = 0"
proof
  assume z: "toupper b = 0"
  show "b = 0"
  proof (cases "97 \<le> unat b \<and> unat b \<le> 122")
    case True
    then have "b = 32" using z by (simp add: toupper_def)
    then show ?thesis using True by simp
  qed (use z in \<open>auto simp: toupper_def split: if_splits\<close>)
qed (simp add: toupper_def)

lemma stricmp_0:
  "stricmp s1 s2 = 0 \<longleftrightarrow> map toupper (cstr s1) = map toupper (cstr s2)"
proof (induction s1 s2 rule: stricmp.induct)
  case (1 s1 s2)
  consider "toupper (peek s1) = toupper (peek s2)" "peek s1 = 0"
    | "toupper (peek s1) = toupper (peek s2)" "peek s1 \<noteq> 0"
    | "toupper (peek s1) \<noteq> toupper (peek s2)"
    by blast
  then show ?case
  proof cases
    case 1
    then have "peek s2 = 0" using toupper_0 by metis
    then show ?thesis using 1 by (subst stricmp.simps) (simp add: cstr_Nil)
  next
    case 2
    then have "peek s2 \<noteq> 0" using toupper_0 by metis
    then have "s1 \<noteq> []" "s2 \<noteq> []" using peek_nonempty 2(2) by auto
    then show ?thesis using 2 \<open>peek s2 \<noteq> 0\<close> "1.IH" by (subst stricmp.simps) (simp add: cstr_Cons)
  next
    case 3
    have "map toupper (cstr s1) \<noteq> map toupper (cstr s2)"
    proof (cases "peek s1 = 0 \<or> peek s2 = 0")
      case True
      then show ?thesis using 3 cstr_Cons cstr_Nil peek_nonempty
        by (metis list.map_disc_iff list.distinct(1))
    next
      case False
      then show ?thesis using 3 cstr_Cons peek_nonempty by (metis list.map(2) list.inject)
    qed
    moreover have "uint (peek s1) \<noteq> uint (peek s2)" using 3 by (metis word_uint_eq_iff)
    ultimately show ?thesis using 3 by (subst stricmp.simps) simp
  qed
qed

end
