(* ===== verification/Ramdisk.thy ===== *)
theory Ramdisk
  imports BlockDevice CString
begin

text \<open>
  The RAM disk driver of \<^verbatim>\<open>src/block/ramdisk.c\<close>: the disks are kept in a hash table by name, and a
  request copies whole blocks.  A disk's \<^verbatim>\<open>data\<close> pointer is the list of its bytes, kept in the table's
  item; the write through the pointer updates it there.
\<close>

section \<open>The model\<close>

record ramdisk =
  rd_name :: "byte list"
  rd_data :: "byte list"
  rd_blocks :: nat
  rd_blocksize :: nat

definition rd_compare :: "ramdisk \<Rightarrow> ramdisk \<Rightarrow> int" where
  "rd_compare a b = strcmp (rd_name a) (rd_name b)"

definition rd_hash :: "ramdisk \<Rightarrow> u64w \<Rightarrow> u64w \<Rightarrow> u64w" where
  "rd_hash rd seed0 seed1 = hashmap_sip (take (strlen (rd_name rd)) (rd_name rd)) seed0 seed1"

definition find_disk :: "byte list \<Rightarrow> ramdisk" where
  "find_disk name = \<lparr>rd_name = name, rd_data = [], rd_blocks = 0, rd_blocksize = 0\<rparr>"

text \<open>\<^verbatim>\<open>while (divided_length * sd->block_size < bytes) divided_length++;\<close>  A 32-bit product does not
  wrap for requests below \<open>2 ^ 32 - block_size\<close> bytes.\<close>

function round_blocks :: "nat \<Rightarrow> nat \<Rightarrow> nat \<Rightarrow> nat" where
  "round_blocks d bs bytes =
     (if 0 < bs \<and> d * bs < bytes then round_blocks (d + 1) bs bytes else d)"
  by pat_completeness auto
termination
  by (relation "measure (\<lambda>(d, bs, bytes). bytes - d * bs)") auto

declare round_blocks.simps [simp del]

definition divided_length :: "nat \<Rightarrow> nat \<Rightarrow> nat" where
  "divided_length bytes bs =
     (let d = round_blocks (bytes div bs) bs bytes in if d < 1 then d + 1 else d)"

type_synonym ramdisks = "ramdisk hashmap"

definition rd_block_read ::
    "byte list \<Rightarrow> nat \<Rightarrow> ramdisks \<Rightarrow> nat \<Rightarrow> nat \<Rightarrow> (byte list option \<times> ramdisks) option" where
  "rd_block_read name bs disks start bytes =
     (case hashmap_get disks (find_disk name) of
        None \<Rightarrow> None
      | Some None \<Rightarrow> Some (None, disks)
      | Some (Some disk) \<Rightarrow>
          (let n = divided_length bytes bs
           in if add64 start n > rd_blocks disk then Some (None, disks)
              else Some (Some (take (n * bs mod U32) (drop (start * bs) (rd_data disk))), disks)))"

definition rd_block_write ::
    "byte list \<Rightarrow> nat \<Rightarrow> ramdisks \<Rightarrow> nat \<Rightarrow> nat \<Rightarrow> byte list \<Rightarrow> (bool \<times> ramdisks) option" where
  "rd_block_write name bs disks start bytes buffer =
     (case hashmap_get_index disks (find_disk name) of
        None \<Rightarrow> None
      | Some None \<Rightarrow> Some (False, disks)
      | Some (Some i) \<Rightarrow>
          (let disk = b_item (hm_buckets disks ! i); n = divided_length bytes bs
           in if add64 start n > rd_blocks disk then Some (False, disks)
              else Some (True, set_item disks i
                     (rd_data_update (memcpy_at (start * bs) (take (n * bs mod U32) buffer))))))"

section \<open>Correctness\<close>

lemma rd_callbacks_ok: "callbacks_ok rd_hash rd_compare"
proof -
  have "take (strlen s) s = cstr s" for s
    by (simp add: strlen_def cstr_def takeWhile_eq_take [symmetric])
  then show ?thesis by (simp add: callbacks_ok_def rd_compare_def rd_hash_def strcmp_0)
qed

lemma divided_length_exact:
  assumes "0 < bs" "0 < n"
  shows "divided_length (n * bs) bs = n"
  using assms by (simp add: divided_length_def round_blocks.simps [of n])

text \<open>A table that holds a well-formed disk of the given name and geometry.\<close>

definition ramdisk_ok :: "byte list \<Rightarrow> nat \<Rightarrow> nat \<Rightarrow> ramdisks \<Rightarrow> bool" where
  "ramdisk_ok name bs nb disks \<longleftrightarrow> hm_ok disks \<and> hm_compare disks = rd_compare \<and> 0 < bs \<and> nb < W64 \<and>
     (\<exists>disk. hm_lookup disks (find_disk name) = Some disk \<and> rd_blocks disk = nb \<and>
        length (rd_data disk) = nb * bs)"

definition ramdisk_sector :: "byte list \<Rightarrow> nat \<Rightarrow> ramdisks \<Rightarrow> nat \<Rightarrow> byte list" where
  "ramdisk_sector name bs disks k =
     (case hm_lookup disks (find_disk name) of
        None \<Rightarrow> [] | Some disk \<Rightarrow> nth_sector bs (rd_data disk) k)"

lemma take_sectors:
  assumes "(s + n) * b \<le> length xs"
  shows "take (n * b) (drop (s * b) xs) = get_sectors (nth_sector b xs) s n"
  using assms
proof (induction n)
  case 0
  then show ?case by (simp add: get_sectors_def)
next
  case (Suc n)
  have e: "Suc n * b = n * b + b" by simp
  have "take (Suc n * b) (drop (s * b) xs) =
      take (n * b) (drop (s * b) xs) @ take b (drop (n * b) (drop (s * b) xs))"
    unfolding e by (rule take_add)
  also have "drop (n * b) (drop (s * b) xs) = drop ((s + n) * b) xs" by (simp add: algebra_simps)
  finally show ?case using Suc by (simp add: get_sectors_def nth_sector_def algebra_simps)
qed

lemma nth_sector_memcpy:
  assumes "0 < b" "length xs = n * b" "(s + n) * b \<le> length d" "k * b + b \<le> length d"
  shows "nth_sector b (memcpy_at (s * b) xs d) k = put_sectors b (nth_sector b d) s xs k"
proof -
  have q: "length xs div b = n" using assms(1,2) by simp
  have ok: "s * b + length xs \<le> length d" using assms(2,3) by (simp add: algebra_simps)
  note len = length_memcpy_at [OF ok]
  have mid: "(s * b \<le> k * b + i \<and> k * b + i < s * b + n * b) = (s \<le> k \<and> k < s + n)" if "i < b" for i
  proof -
    have lt: "k * b + i < m * b \<longleftrightarrow> k < m" for m
    proof (cases "k < m")
      case True
      then have "(k + 1) * b \<le> m * b" by (intro mult_right_mono) auto
      then show ?thesis using True that by simp
    next
      case False
      then have "m * b \<le> k * b" by (intro mult_right_mono) auto
      then show ?thesis using False by linarith
    qed
    have "k * b + i < (s + n) * b \<longleftrightarrow> k < s + n" by (rule lt)
    moreover have "s * b \<le> k * b + i \<longleftrightarrow> s \<le> k" using lt [of s] by linarith
    ultimately show ?thesis by (simp add: algebra_simps)
  qed
  show ?thesis
  proof (rule nth_equalityI)
    show "length (nth_sector b (memcpy_at (s * b) xs d) k) = length (put_sectors b (nth_sector b d) s xs k)"
    proof (cases "s \<le> k \<and> k < s + n")
      case True
      then have "(k - s + 1) * b \<le> n * b" by (intro mult_right_mono) auto
      then show ?thesis using True q assms(2,4) len by (simp add: nth_sector_def put_sectors_def algebra_simps)
    next
      case False
      then show ?thesis using q len by (auto simp: nth_sector_def put_sectors_def)
    qed
    fix i assume "i < length (nth_sector b (memcpy_at (s * b) xs d) k)"
    then have i: "i < b" "k * b + i < length d" using len by (auto simp: nth_sector_def)
    have "nth_sector b (memcpy_at (s * b) xs d) k ! i = memcpy_at (s * b) xs d ! (k * b + i)"
      using i len by (simp add: nth_sector_def)
    also have "\<dots> = (if s \<le> k \<and> k < s + n then xs ! (k * b + i - s * b) else d ! (k * b + i))"
      using nth_memcpy_at [OF ok i(2)] mid [OF i(1)] assms(2) by auto
    also have "\<dots> = put_sectors b (nth_sector b d) s xs k ! i"
    proof (cases "s \<le> k \<and> k < s + n")
      case True
      then have "k * b + i - s * b = (k - s) * b + i" by (simp add: diff_mult_distrib)
      moreover have "(k - s + 1) * b \<le> n * b" using True by (intro mult_right_mono) auto
      moreover have "(k - s) * b \<le> length xs" unfolding assms(2) using True by (intro mult_right_mono) auto
      ultimately show ?thesis using True i(1) q by (simp add: put_sectors_def nth_sector_def)
    next
      case False
      then show ?thesis using i q by (auto simp: put_sectors_def nth_sector_def)
    qed
    finally show "nth_sector b (memcpy_at (s * b) xs d) k ! i = put_sectors b (nth_sector b d) s xs k ! i" .
  qed
qed

lemma ramdisk_read_ok:
  assumes "ramdisk_ok name bs nb d" "0 < bs" "0 < n" "n * bs < U32" "s + n < W64"
  shows "rd_block_read name bs d s (n * bs) =
    Some (if s + n \<le> nb then Some (get_sectors (ramdisk_sector name bs d) s n) else None, d)"
proof -
  obtain disk where disk: "hm_lookup d (find_disk name) = Some disk" "rd_blocks disk = nb"
    "length (rd_data disk) = nb * bs" and hm: "hm_ok d"
    using assms(1) unfolding ramdisk_ok_def by blast
  have sec: "ramdisk_sector name bs d = nth_sector bs (rd_data disk)"
    using disk(1) by (simp add: fun_eq_iff ramdisk_sector_def)
  have "take (n * bs) (drop (s * bs) (rd_data disk)) = get_sectors (ramdisk_sector name bs d) s n" if "s + n \<le> nb"
    unfolding sec by (rule take_sectors) (use that disk(3) in simp)
  then show ?thesis
    using hashmap_get_spec [OF hm, of "find_disk name"] disk assms(2-5)
    by (simp add: rd_block_read_def divided_length_exact add64_nowrap Let_def not_less)
qed

lemma ramdisk_write_ok:
  assumes "ramdisk_ok name bs nb d" "0 < bs" "0 < n" "n * bs < U32" "s + n < W64" "length xs = n * bs"
  shows "\<exists>r d'. rd_block_write name bs d s (n * bs) xs = Some (r, d') \<and> ramdisk_ok name bs nb d' \<and>
    r = (s + n \<le> nb) \<and> ramdisk_sector name bs d' =
      (if r then put_sectors bs (ramdisk_sector name bs d) s xs else ramdisk_sector name bs d)"
proof -
  obtain disk where disk: "hm_lookup d (find_disk name) = Some disk" "rd_blocks disk = nb"
    "length (rd_data disk) = nb * bs" and hm: "hm_ok d" "hm_compare d = rd_compare"
    using assms(1) unfolding ramdisk_ok_def by blast
  obtain i where i: "hashmap_get_index d (find_disk name) = Some (Some i)" "b_item (hm_buckets d ! i) = disk"
    using hashmap_get_index_spec [OF hm(1), of "find_disk name"] disk(1) by (auto split: option.splits)
  show ?thesis
  proof (cases "s + n \<le> nb")
    case False
    then show ?thesis
      using i disk assms by (auto simp: rd_block_write_def divided_length_exact add64_nowrap Let_def)
  next
    case True
    let ?f = "rd_data_update (memcpy_at (s * bs) xs)"
    let ?d = "set_item d i ?f"
    have "hm_compare d (?f (b_item (hm_buckets d ! i))) (b_item (hm_buckets d ! i)) = 0"
      by (simp add: hm(2) rd_compare_def strcmp_0)
    note s = set_item_ok [where f = ?f, OF hm(1) i(1) this, unfolded i(2)]
    have "hm_compare d (find_disk name) disk = 0"
      using hm_lookup_iff [OF hm(1), of "find_disk name" disk] disk(1) by simp
    then have look: "hm_lookup ?d (find_disk name) = Some (?f disk)" using s(3) [of "find_disk name"] by simp
    have range: "(s + n) * bs \<le> length (rd_data disk)" using True disk(3) by simp
    then have fits: "s * bs + length xs \<le> length (rd_data disk)" using assms(6) by (simp add: algebra_simps)
    then have ok: "ramdisk_ok name bs nb ?d"
      using assms(1) unfolding ramdisk_ok_def using s(1) hm(2) look disk(2,3) by simp
    have "rd_block_write name bs d s (n * bs) xs = Some (True, ?d)"
      using i True disk(2) assms(2-6)
      by (simp add: rd_block_write_def divided_length_exact add64_nowrap Let_def)
    moreover have "ramdisk_sector name bs ?d = put_sectors bs (ramdisk_sector name bs d) s xs"
    proof
      fix k
      have sd: "ramdisk_sector name bs d = nth_sector bs (rd_data disk)"
        using disk(1) by (simp add: fun_eq_iff ramdisk_sector_def)
      have "nth_sector bs (memcpy_at (s * bs) xs (rd_data disk)) k = put_sectors bs (nth_sector bs (rd_data disk)) s xs k"
      proof (cases "k < nb")
        case True
        then have "(k + 1) * bs \<le> nb * bs" by (intro mult_right_mono) auto
        then show ?thesis using nth_sector_memcpy [OF assms(2,6) range, of k] disk(3) by simp
      next
        case False
        then have "nb * bs \<le> k * bs" by simp
        then show ?thesis
          using False \<open>s + n \<le> nb\<close> fits disk(3) assms(2,6) by (simp add: nth_sector_def put_sectors_def)
      qed
      then show "ramdisk_sector name bs ?d k = put_sectors bs (ramdisk_sector name bs d) s xs k"
        using look unfolding sd by (simp add: ramdisk_sector_def)
    qed
    ultimately show ?thesis using ok True by auto
  qed
qed

section \<open>The driver as a block device\<close>

lemma ramdisk_sector_length: "ramdisk_ok name bs nb d \<Longrightarrow> k < nb \<Longrightarrow> length (ramdisk_sector name bs d k) = bs"
proof -
  assume a: "ramdisk_ok name bs nb d" "k < nb"
  then have "(k + 1) * bs \<le> nb * bs" by (intro mult_right_mono) auto
  then show ?thesis using a by (auto simp: ramdisk_ok_def ramdisk_sector_def nth_sector_def)
qed

interpretation ram: reliable_device "ramdisk_ok name bs nb" bs nb "ramdisk_sector name bs"
    "rd_block_read name bs" "rd_block_write name bs" for name bs nb
proof (unfold_locales, goal_cases)
  case (1 d) then show ?case by (simp add: ramdisk_ok_def)
next
  case (2 d) then show ?case by (simp add: ramdisk_ok_def)
next
  case (3 d k) then show ?case by (rule ramdisk_sector_length)
next
  case (4 d n s)
  then show ?case using ramdisk_read_ok [of name bs nb d n s] by (simp add: ramdisk_ok_def)
next
  case (5 d n s xs)
  have "0 < bs" "n * bs < U32" using 5 by (auto simp: ramdisk_ok_def)
  then show ?case using ramdisk_write_ok [OF 5(1) _ 5(2) _ 5(4,5)] by fastforce
next
  case (6 d n s r d')
  have "0 < bs" "n * bs < U32" "s + n < W64" using 6 by (auto simp: ramdisk_ok_def)
  then show ?case using ramdisk_read_ok [OF 6(1) _ 6(2)] 6(4,5) by auto
next
  case (7 d n s xs b d')
  have "0 < bs" "n * bs < U32" "s + n < W64" using 7 by (auto simp: ramdisk_ok_def)
  then show ?case using ramdisk_write_ok [OF 7(1) _ 7(2) _ _ 7(5)] 7(4,6) by fastforce
qed

section \<open>Properties\<close>

text \<open>A table with one disk of 100 blocks of 4 bytes, for the witnesses.\<close>

definition demo_table :: ramdisks where
  "demo_table = the (fst (hashmap_new_with_allocator (\<lambda>k n. True) 0 40 16 1 2 rd_hash rd_compare False
     (find_disk [])))"

definition demo_disk :: ramdisk where
  "demo_disk = \<lparr>rd_name = [0x72, 0x30, 0], rd_data = replicate 400 0, rd_blocks = 100, rd_blocksize = 4\<rparr>"

definition demo_disks :: ramdisks where
  "demo_disks = snd (the (hashmap_set demo_table demo_disk))"

lemma demo_disks_ok:
  "ramdisk_ok [0x72, 0x30, 0] 4 100 demo_disks"
  "ramdisk_sector [0x72, 0x30, 0] 4 demo_disks k = nth_sector 4 (replicate 400 0) k"
proof -
  have new: "hashmap_new_with_allocator (\<lambda>k n. True) 0 40 16 1 2 rd_hash rd_compare False (find_disk [])
      = (Some demo_table, 2)"
    by (simp add: demo_table_def hashmap_new_with_allocator_def Let_def)
  have t: "hm_ok demo_table" "hm_compare demo_table = rd_compare"
    using hashmap_new_ok [OF new rd_callbacks_ok] by auto
  have room: "hm_count demo_table \<noteq> hm_growat demo_table" "\<And>k n. hm_malloc demo_table k n"
    by (simp_all add: demo_table_def hashmap_new_with_allocator_def Let_def double_cap.simps grow_threshold_def)
  obtain old m where m: "hashmap_set demo_table demo_disk = Some (old, m)" "hm_ok m" "hm_compare m = rd_compare"
    "\<not> hm_oom m \<Longrightarrow> hm_lookup m (find_disk [0x72, 0x30, 0]) = Some demo_disk"
    using hashmap_set_spec [OF t(1), of demo_disk] room(1) t(2)
    by (metis callbacks_okD(1) demo_disk_def find_disk_def ramdisk.select_convs(1) rd_callbacks_ok rd_compare_def)
  have "\<not> hm_oom m" using hashmap_set_no_oom(2) [OF m(1)] room(2) by blast
  then show "ramdisk_ok [0x72, 0x30, 0] 4 100 demo_disks"
    "ramdisk_sector [0x72, 0x30, 0] 4 demo_disks k = nth_sector 4 (replicate 400 0) k"
    using m by (simp_all add: ramdisk_ok_def ramdisk_sector_def demo_disks_def demo_disk_def W64_def)
qed

text \<open>A RAM disk is a reliable block device: after a write of whole blocks inside the disk, a read of
  the same blocks returns the bytes written, and all other blocks are unchanged.\<close>

theorem ramdisk_write_read:
  assumes "ramdisk_ok name bs nb d" "0 < n" "n * bs + bs < U32" "s + n \<le> nb" "length xs = n * bs"
  shows "\<exists>d1. rd_block_write name bs d s (n * bs) xs = Some (True, d1) \<and> ramdisk_ok name bs nb d1 \<and>
    rd_block_read name bs d1 s (n * bs) = Some (Some xs, d1) \<and>
    (\<forall>k. k < s \<or> s + n \<le> k \<longrightarrow> ramdisk_sector name bs d1 k = ramdisk_sector name bs d k)"
proof -
  have b: "0 < bs" "s + n < W64" using assms(1,4) by (auto simp: ramdisk_ok_def)
  obtain d1 d2 where w: "rd_block_write name bs d s (n * bs) xs = Some (True, d1)"
    "rd_block_read name bs d1 s (n * bs) = Some (Some xs, d2)"
    using ram.write_read [OF assms] by blast
  have "ramdisk_ok name bs nb d1 \<and> ramdisk_sector name bs d1 = put_sectors bs (ramdisk_sector name bs d) s xs"
    using ram.write_law [OF assms(1-3) b(2) assms(5)] w(1) by auto
  moreover have "d2 = d1" using w(2) by (auto simp: rd_block_read_def Let_def split: option.splits if_splits)
  ultimately show ?thesis using w assms(5) b(1) by (auto simp: put_sectors_def)
qed

theorem ramdisk_write_read_witness:
  "\<exists>d1. rd_block_write [0x72, 0x30, 0] 4 demo_disks 3 4 [9, 8, 7, 6] = Some (True, d1) \<and>
     rd_block_read [0x72, 0x30, 0] 4 d1 3 4 = Some (Some [9, 8, 7, 6], d1)"
  using ramdisk_write_read [OF demo_disks_ok(1), of 1 3 "[9, 8, 7, 6]"] by (auto simp: U32_def)

end
