(* ===== verification/Storage.thy ===== *)
theory Storage
  imports Ramdisk
begin

text \<open>
  The storage layer of \<^verbatim>\<open>src/fs/filesystem.c\<close>: the list of registered devices and the entry points
  \<^verbatim>\<open>read_storage_device\<close> and \<^verbatim>\<open>write_storage_device\<close>, which every filesystem uses and which route
  requests through a device's sector cache.  A device's function pointers are closures over the
  driver's state; a missing one is \<open>None\<close>.
\<close>

section \<open>The model\<close>

record 'd storage_device =
  sd_name :: "byte list"
  sd_size :: nat
  sd_blockread :: "('d \<Rightarrow> nat \<Rightarrow> nat \<Rightarrow> (byte list option \<times> 'd) option) option"
  sd_blockwrite :: "('d \<Rightarrow> nat \<Rightarrow> nat \<Rightarrow> byte list \<Rightarrow> (bool \<times> 'd) option) option"
  sd_blockclear :: "('d \<Rightarrow> nat \<Rightarrow> nat \<Rightarrow> (bool \<times> 'd) option) option"
  sd_block_size :: nat
  sd_cache :: "block_cache option"

record 'd storage =
  st_devices :: "'d storage_device list"
  st_driver :: 'd
  st_error :: "fs_error option"

definition register_storage_device :: "'d storage \<Rightarrow> 'd storage_device \<Rightarrow> 'd storage" where
  "register_storage_device st d = st\<lparr>st_devices := d # st_devices st\<rparr>"

definition find_storage_device :: "'d storage \<Rightarrow> byte list \<Rightarrow> 'd storage_device option" where
  "find_storage_device st name = List.find (\<lambda>d. strcmp name (sd_name d) = 0) (st_devices st)"

text \<open>A store into the device that \<^verbatim>\<open>find_storage_device\<close> finds.\<close>

fun put_device :: "byte list \<Rightarrow> ('d storage_device \<Rightarrow> 'd storage_device) \<Rightarrow> 'd storage_device list \<Rightarrow>
    'd storage_device list" where
  "put_device name f [] = []"
| "put_device name f (d # ds) =
     (if strcmp name (sd_name d) = 0 then f d # ds else d # put_device name f ds)"

definition set_cache :: "'d storage \<Rightarrow> byte list \<Rightarrow> block_cache option \<Rightarrow> 'd storage" where
  "set_cache st name c = st\<lparr>st_devices := put_device name (sd_cache_update (\<lambda>_. c)) (st_devices st)\<rparr>"

text \<open>The device is named by its name here; \<open>created\<close> is the result of \<^verbatim>\<open>block_cache_create\<close>.\<close>

definition storage_enable_cache :: "'d storage \<Rightarrow> byte list \<Rightarrow> block_cache option \<Rightarrow> bool \<times> 'd storage" where
  "storage_enable_cache st name created =
     (case find_storage_device st name of
        None \<Rightarrow> (False, st)
      | Some d \<Rightarrow>
          if sd_cache d \<noteq> None \<or> sd_blockread d = None then (False, st)
          else (created \<noteq> None, set_cache st name created))"

definition storage_disable_cache :: "'d storage \<Rightarrow> byte list \<Rightarrow> 'd storage option" where
  "storage_disable_cache st name =
     (case find_storage_device st name of
        None \<Rightarrow> Some st
      | Some d \<Rightarrow>
          (case sd_cache d of
             None \<Rightarrow> Some st
           | Some c \<Rightarrow> (case block_cache_destroy c of None \<Rightarrow> None | Some _ \<Rightarrow> Some (set_cache st name None))))"

definition storage_device_clear_blocks ::
    "'d storage \<Rightarrow> byte list \<Rightarrow> nat \<Rightarrow> nat \<Rightarrow> (bool \<times> 'd storage) option" where
  "storage_device_clear_blocks st name start bytes =
     (case find_storage_device st name of
        None \<Rightarrow> Some (False, st)
      | Some d \<Rightarrow>
          (case sd_blockclear d of
             None \<Rightarrow> Some (False, st)
           | Some clr \<Rightarrow>
               (case clr (st_driver st) start bytes of
                  None \<Rightarrow> None
                | Some (ok, dr) \<Rightarrow> Some (ok, st\<lparr>st_driver := dr\<rparr>))))"

definition read_storage_device ::
    "byte list \<Rightarrow> 'd storage \<Rightarrow> nat \<Rightarrow> nat \<Rightarrow> (byte list option \<times> 'd storage) option" where
  "read_storage_device name st start_block bytes =
     (case find_storage_device st name of
        None \<Rightarrow> Some (None, st\<lparr>st_error := Some FS_ERR_UNSUPPORTED\<rparr>)
      | Some cur \<Rightarrow>
          (case sd_blockread cur of
             None \<Rightarrow> Some (None, st\<lparr>st_error := Some FS_ERR_UNSUPPORTED\<rparr>)
           | Some blockread \<Rightarrow>
               (case sd_cache cur of
                  None \<Rightarrow>
                    (case blockread (st_driver st) start_block bytes of
                       None \<Rightarrow> None
                     | Some (r, dr) \<Rightarrow> Some (r, st\<lparr>st_driver := dr\<rparr>))
                | Some c \<Rightarrow>
                    (case block_cache_read c start_block bytes of
                       None \<Rightarrow> None
                     | Some (Some data, c1) \<Rightarrow> Some (Some data, set_cache st name (Some c1))
                     | Some (None, c1) \<Rightarrow>
                         (case blockread (st_driver st) start_block bytes of
                            None \<Rightarrow> None
                          | Some (None, dr) \<Rightarrow> Some (None, set_cache (st\<lparr>st_driver := dr\<rparr>) name (Some c1))
                          | Some (Some data, dr) \<Rightarrow>
                              (case block_cache_write c1 start_block bytes data of
                                 None \<Rightarrow> None
                               | Some (_, c2) \<Rightarrow>
                                   Some (Some data, set_cache (st\<lparr>st_driver := dr\<rparr>) name (Some c2))))))))"

definition write_storage_device ::
    "byte list \<Rightarrow> 'd storage \<Rightarrow> nat \<Rightarrow> nat \<Rightarrow> byte list \<Rightarrow> (bool \<times> 'd storage) option" where
  "write_storage_device name st start_block bytes data =
     (case find_storage_device st name of
        None \<Rightarrow> Some (False, st\<lparr>st_error := Some FS_ERR_UNSUPPORTED\<rparr>)
      | Some cur \<Rightarrow>
          (case sd_blockwrite cur of
             None \<Rightarrow> Some (False, st\<lparr>st_error := Some FS_ERR_UNSUPPORTED\<rparr>)
           | Some blockwrite \<Rightarrow>
               (case blockwrite (st_driver st) start_block bytes data of
                  None \<Rightarrow> None
                | Some (False, dr) \<Rightarrow> Some (False, st\<lparr>st_driver := dr\<rparr>)
                | Some (True, dr) \<Rightarrow>
                    (case sd_cache cur of
                       None \<Rightarrow> Some (True, st\<lparr>st_driver := dr\<rparr>)
                     | Some c \<Rightarrow>
                         (case block_cache_write c start_block bytes data of
                            None \<Rightarrow> None
                          | Some (_, c1) \<Rightarrow> Some (True, set_cache (st\<lparr>st_driver := dr\<rparr>) name (Some c1)))))))"

section \<open>Finding a device\<close>

lemma find_put_device:
  assumes "List.find (\<lambda>d. strcmp name (sd_name d) = 0) ds = Some d" "sd_name (f d) = sd_name d"
  shows "List.find (\<lambda>d. strcmp name (sd_name d) = 0) (put_device name f ds) = Some (f d)"
  using assms by (induction ds) (auto split: if_splits)

lemma find_set_cache:
  assumes "find_storage_device st name = Some d"
  shows "find_storage_device (set_cache st name c) name = Some (d\<lparr>sd_cache := c\<rparr>)"
  using find_put_device [of name "st_devices st" d "sd_cache_update (\<lambda>_. c)"] assms
  by (simp add: find_storage_device_def set_cache_def)

lemma find_driver [simp]: "find_storage_device (st\<lparr>st_driver := x\<rparr>) name = find_storage_device st name"
  "find_storage_device (st\<lparr>st_error := e\<rparr>) name = find_storage_device st name"
  by (simp_all add: find_storage_device_def)

lemma set_cache_driver [simp]: "st_driver (set_cache st name c) = st_driver st"
  by (simp add: set_cache_def)

section \<open>Cache coherence\<close>

text \<open>Whatever the cache holds of a sector is what the device holds.\<close>

definition coherent :: "block_cache \<Rightarrow> (nat \<Rightarrow> byte list) \<Rightarrow> bool" where
  "coherent c sec \<longleftrightarrow> (\<forall>k b. cache_view c k = Some b \<longrightarrow> b = sec k)"

definition cache_for :: "nat \<Rightarrow> nat \<Rightarrow> (nat \<Rightarrow> byte list) \<Rightarrow> block_cache option \<Rightarrow> bool" where
  "cache_for bsz nblk sec co \<longleftrightarrow>
     (case co of None \<Rightarrow> True
      | Some c \<Rightarrow> cache_ok c \<and> memory_ok c \<and> bc_sector c = bsz \<and> bc_devsize c = nblk \<and> coherent c sec)"

lemma cache_for_read:
  assumes "cache_for bsz nblk sec (Some c)" "0 < n" "n * bsz + bsz < U32" "s + n < W64" "nblk < W64"
  obtains r c' where "block_cache_read c s (n * bsz) = Some (r, c')" "cache_for bsz nblk sec (Some c')"
    "r = None \<or> s + n \<le> nblk \<and> r = Some (get_sectors sec s n)"
proof -
  have c: "cache_ok c" "memory_ok c" "bc_sector c = bsz" "bc_devsize c = nblk" "coherent c sec"
    using assms(1) by (simp_all add: cache_for_def)
  show ?thesis
  proof (cases "s + n \<le> nblk")
    case True
    obtain r c' where r: "block_cache_read c s (n * bsz) = Some (r, c')" "cache_ok c'"
      "r = (if \<forall>k < n. cache_view c (s + k) \<noteq> None
            then Some (concat (map (\<lambda>k. the (cache_view c k)) [s ..< s + n])) else None)"
      "cache_view c' = cache_view c" "static c' = static c" "memory_ok c' = memory_ok c"
      using block_cache_read_ok [OF c(1) assms(2), of s] assms(3,5) True c(3,4) by auto
    have "cache_for bsz nblk sec (Some c')"
      using r(2,4-6) c by (simp add: cache_for_def coherent_def static_def)
    moreover have "concat (map (\<lambda>k. the (cache_view c k)) [s ..< s + n]) = get_sectors sec s n"
      if all: "\<forall>k < n. cache_view c (s + k) \<noteq> None"
    proof -
      have "the (cache_view c k) = sec k" if "s \<le> k" "k < s + n" for k
      proof -
        have "cache_view c k \<noteq> None" using all that by (metis le_add_diff_inverse nat_add_left_cancel_less)
        then show ?thesis using c(5) by (auto simp: coherent_def)
      qed
      then have "map (\<lambda>k. the (cache_view c k)) [s ..< s + n] = map sec [s ..< s + n]"
        by (intro map_cong refl) auto
      then show ?thesis unfolding get_sectors_def by (rule arg_cong)
    qed
    ultimately show ?thesis using that r(1,3) True by auto
  next
    case False
    have sec: "sectors_for_len (bc_sector c) (n * bsz) = n"
      using sectors_for_len_exact [of bsz n] cache_okD(2) [OF c(1)] c(3) assms(2,3) by simp
    then have "block_cache_read c s (n * bsz) = Some (None, c\<lparr>bc_error := Some FS_ERR_OUT_OF_BOUNDS\<rparr>)"
      using False assms(4) c(4) by (simp add: block_cache_read_def add64_nowrap Let_def)
    moreover have "cache_for bsz nblk sec (Some (c\<lparr>bc_error := Some FS_ERR_OUT_OF_BOUNDS\<rparr>))"
      using c by (simp add: cache_for_def coherent_def)
    ultimately show ?thesis using that by blast
  qed
qed

lemma cache_for_write:
  assumes "cache_for bsz nblk sec (Some c)" "0 < n" "n * bsz + bsz < U32" "s + n \<le> nblk" "nblk < W64"
    "length xs = n * bsz"
  obtains c' where "block_cache_write c s (n * bsz) xs = Some (True, c')"
    "cache_for bsz nblk (put_sectors bsz sec s xs) (Some c')"
proof -
  have c: "cache_ok c" "memory_ok c" "bc_sector c = bsz" "bc_devsize c = nblk" "coherent c sec"
    using assms(1) by (simp_all add: cache_for_def)
  have b: "0 < bsz" using cache_okD(2) [OF c(1)] c(3) by simp
  obtain c' where w: "block_cache_write c s (n * bsz) xs = Some (True, c')" "cache_ok c'" "memory_ok c'"
    "static c' = static c"
    "\<And>k. cache_view c' k = None \<or> cache_view c' k =
       (if s \<le> k \<and> k < s + n then Some (nth_sector bsz xs (k - s)) else cache_view c k)"
    using block_cache_write_ok [OF c(1,2) assms(2), of s xs] assms(3-6) c(3,4) by auto
  have "b = put_sectors bsz sec s xs k" if "cache_view c' k = Some b" for k b
    using w(5) [of k] that c(5) b assms(6) by (auto simp: put_sectors_def coherent_def split: if_splits)
  then show ?thesis using that w(1-4) c(3,4) by (simp add: cache_for_def coherent_def static_def)
qed

section \<open>The storage layer over a driver\<close>

text \<open>A device of the given name, driven by \<open>rd\<close> and \<open>wr\<close>, with a coherent cache or none.\<close>

definition storage_ok ::
    "('d \<Rightarrow> bool) \<Rightarrow> nat \<Rightarrow> nat \<Rightarrow> ('d \<Rightarrow> nat \<Rightarrow> byte list) \<Rightarrow>
     ('d \<Rightarrow> nat \<Rightarrow> nat \<Rightarrow> (byte list option \<times> 'd) option) \<Rightarrow>
     ('d \<Rightarrow> nat \<Rightarrow> nat \<Rightarrow> byte list \<Rightarrow> (bool \<times> 'd) option) \<Rightarrow> byte list \<Rightarrow> 'd storage \<Rightarrow> bool" where
  "storage_ok ok bsz nblk sector rd wr name st \<longleftrightarrow>
     ok (st_driver st) \<and>
     (\<exists>d. find_storage_device st name = Some d \<and> sd_blockread d = Some rd \<and>
        sd_blockwrite d = Some wr \<and> sd_size d = nblk \<and> sd_block_size d = bsz \<and>
        cache_for bsz nblk (sector (st_driver st)) (sd_cache d))"

text \<open>The same without the assumption on the memory, which is stated apart: no request of the
  device's cache for memory is refused.\<close>

definition storage_coherent ::
    "('d \<Rightarrow> bool) \<Rightarrow> nat \<Rightarrow> nat \<Rightarrow> ('d \<Rightarrow> nat \<Rightarrow> byte list) \<Rightarrow>
     ('d \<Rightarrow> nat \<Rightarrow> nat \<Rightarrow> (byte list option \<times> 'd) option) \<Rightarrow>
     ('d \<Rightarrow> nat \<Rightarrow> nat \<Rightarrow> byte list \<Rightarrow> (bool \<times> 'd) option) \<Rightarrow> byte list \<Rightarrow> 'd storage \<Rightarrow> bool" where
  "storage_coherent ok bsz nblk sector rd wr name st \<longleftrightarrow>
     ok (st_driver st) \<and>
     (\<exists>d. find_storage_device st name = Some d \<and> sd_blockread d = Some rd \<and>
        sd_blockwrite d = Some wr \<and> sd_size d = nblk \<and> sd_block_size d = bsz \<and>
        (\<forall>c. sd_cache d = Some c \<longrightarrow>
           cache_ok c \<and> bc_sector c = bsz \<and> bc_devsize c = nblk \<and> coherent c (sector (st_driver st))))"

definition cache_memory_ok :: "byte list \<Rightarrow> 'd storage \<Rightarrow> bool" where
  "cache_memory_ok name st \<longleftrightarrow>
     (\<forall>d c. find_storage_device st name = Some d \<longrightarrow> sd_cache d = Some c \<longrightarrow> memory_ok c)"

lemma storage_ok_iff:
  "storage_ok ok bsz nblk sector rd wr name st \<longleftrightarrow>
     storage_coherent ok bsz nblk sector rd wr name st \<and> cache_memory_ok name st"
  by (auto simp: storage_ok_def storage_coherent_def cache_memory_ok_def cache_for_def split: option.splits)

locale storage_stack = block_device
begin

lemma storage_step:
  assumes "storage_ok ok bsz nblk sector rd wr name st" "find_storage_device st name = Some d"
    "ok x" "cache_for bsz nblk (sector x) co"
  shows "storage_ok ok bsz nblk sector rd wr name (set_cache (st\<lparr>st_driver := x\<rparr>) name co)"
proof -
  have "find_storage_device (set_cache (st\<lparr>st_driver := x\<rparr>) name co) name = Some (d\<lparr>sd_cache := co\<rparr>)"
    by (rule find_set_cache) (simp add: assms(2))
  then show ?thesis using assms by (auto simp: storage_ok_def)
qed

lemma storage_read:
  assumes "storage_ok ok bsz nblk sector rd wr name st" "0 < n" "n * bsz + bsz < U32" "s + n < W64"
  shows "\<exists>r st'. read_storage_device name st s (n * bsz) = Some (r, st') \<and>
    storage_ok ok bsz nblk sector rd wr name st' \<and> sector (st_driver st') = sector (st_driver st) \<and>
    (r = None \<or> s + n \<le> nblk \<and> r = Some (get_sectors (sector (st_driver st)) s n)) \<and>
    (r = None \<longrightarrow> (\<exists>dr. rd (st_driver st) s (n * bsz) = Some (None, dr)))"
proof -
  let ?sec = "sector (st_driver st)"
  have ok: "ok (st_driver st)" using assms(1) by (simp add: storage_ok_def)
  obtain d where d: "find_storage_device st name = Some d" "sd_blockread d = Some rd"
    "sd_blockwrite d = Some wr" "cache_for bsz nblk ?sec (sd_cache d)"
    "sd_size d = nblk" "sd_block_size d = bsz"
    using assms(1) unfolding storage_ok_def by blast
  obtain r x where r: "rd (st_driver st) s (n * bsz) = Some (r, x)" "ok x" "sector x = ?sec"
    "r = None \<or> s + n \<le> nblk \<and> r = Some (get_sectors ?sec s n)"
    using read_law [OF ok assms(2-4)] by blast
  show ?thesis
  proof (cases "sd_cache d")
    case None
    then have "storage_ok ok bsz nblk sector rd wr name (st\<lparr>st_driver := x\<rparr>)"
      using assms(1) r(2,3) d by (auto simp: storage_ok_def)
    then show ?thesis using None d r by (auto simp: read_storage_device_def)
  next
    case (Some c)
    have cf: "cache_for bsz nblk ?sec (Some c)" using d(4) Some by simp
    obtain q c1 where q: "block_cache_read c s (n * bsz) = Some (q, c1)" "cache_for bsz nblk ?sec (Some c1)"
      "q = None \<or> s + n \<le> nblk \<and> q = Some (get_sectors ?sec s n)"
      by (rule cache_for_read [OF cf assms(2-4) nblk [OF ok]])
    show ?thesis
    proof (cases q)
      case (Some data)
      have "storage_ok ok bsz nblk sector rd wr name (set_cache st name (Some c1))"
        using storage_step [OF assms(1) d(1) ok q(2)] by simp
      then show ?thesis using \<open>sd_cache d = Some c\<close> Some d q by (auto simp: read_storage_device_def)
    next
      case None
      show ?thesis
      proof (cases r)
        case None
        have "storage_ok ok bsz nblk sector rd wr name (set_cache (st\<lparr>st_driver := x\<rparr>) name (Some c1))"
          using storage_step [OF assms(1) d(1) r(2)] q(2) r(3) by simp
        then show ?thesis using \<open>sd_cache d = Some c\<close> None \<open>q = None\<close> d q(1) r
          by (auto simp: read_storage_device_def)
      next
        case (Some data)
        then have data: "s + n \<le> nblk" "data = get_sectors ?sec s n" using r(4) by auto
        have len: "length data = n * bsz"
          using length_get_sectors [of s n ?sec bsz] sector_len [OF ok] data by simp
        obtain c2 where c2: "block_cache_write c1 s (n * bsz) data = Some (True, c2)"
          "cache_for bsz nblk (put_sectors bsz ?sec s data) (Some c2)"
          by (rule cache_for_write [OF q(2) assms(2,3) data(1) nblk [OF ok] len])
        have "put_sectors bsz ?sec s data = ?sec"
        proof
          fix k
          show "put_sectors bsz ?sec s data k = ?sec k"
          proof (cases "s \<le> k \<and> k < s + n")
            case True
            then have "nth_sector bsz data (k - s) = map ?sec [s ..< s + n] ! (k - s)"
              unfolding data(2) get_sectors_def
              by (intro nth_sector_concat) (use data(1) sector_len [OF ok] in auto)
            moreover have "k - s < length [s ..< s + n]" using True by auto
            ultimately show ?thesis using True len bsz [OF ok] by (simp add: put_sectors_def)
          next
            case False
            then show ?thesis using len bsz [OF ok] by (auto simp: put_sectors_def)
          qed
        qed
        then have "storage_ok ok bsz nblk sector rd wr name (set_cache (st\<lparr>st_driver := x\<rparr>) name (Some c2))"
          using storage_step [OF assms(1) d(1) r(2)] c2(2) r(3) by simp
        then show ?thesis
          using \<open>sd_cache d = Some c\<close> Some \<open>q = None\<close> d q(1) r c2(1) data
          by (auto simp: read_storage_device_def)
      qed
    qed
  qed
qed

lemma storage_write:
  assumes "storage_ok ok bsz nblk sector rd wr name st" "0 < n" "n * bsz + bsz < U32" "s + n < W64"
    "length xs = n * bsz"
  shows "\<exists>r st'. write_storage_device name st s (n * bsz) xs = Some (r, st') \<and>
    storage_ok ok bsz nblk sector rd wr name st' \<and>
    (if r then s + n \<le> nblk \<and> sector (st_driver st') = put_sectors bsz (sector (st_driver st)) s xs
     else sector (st_driver st') = sector (st_driver st)) \<and>
    (\<exists>dr. wr (st_driver st) s (n * bsz) xs = Some (r, dr))"
proof -
  let ?sec = "sector (st_driver st)"
  have ok: "ok (st_driver st)" using assms(1) by (simp add: storage_ok_def)
  obtain d where d: "find_storage_device st name = Some d" "sd_blockread d = Some rd"
    "sd_blockwrite d = Some wr" "cache_for bsz nblk ?sec (sd_cache d)"
    "sd_size d = nblk" "sd_block_size d = bsz"
    using assms(1) unfolding storage_ok_def by blast
  obtain r x where r: "wr (st_driver st) s (n * bsz) xs = Some (r, x)" "ok x"
    "if r then s + n \<le> nblk \<and> sector x = put_sectors bsz ?sec s xs else sector x = ?sec"
    using write_law [OF ok assms(2-5)] by blast
  show ?thesis
  proof (cases "r \<and> sd_cache d \<noteq> None")
    case False
    then have "storage_ok ok bsz nblk sector rd wr name (st\<lparr>st_driver := x\<rparr>)"
      using assms(1) r(2,3) d by (auto simp: storage_ok_def cache_for_def split: option.splits)
    moreover have "write_storage_device name st s (n * bsz) xs = Some (r, st\<lparr>st_driver := x\<rparr>)"
      using False d r(1) by (auto simp: write_storage_device_def split: bool.split)
    ultimately show ?thesis using r by auto
  next
    case True
    then obtain c where c: "sd_cache d = Some c" "s + n \<le> nblk" "sector x = put_sectors bsz ?sec s xs"
      using r(3) by auto
    have cf: "cache_for bsz nblk ?sec (Some c)" using d(4) c(1) by simp
    obtain c1 where c1: "block_cache_write c s (n * bsz) xs = Some (True, c1)"
      "cache_for bsz nblk (put_sectors bsz ?sec s xs) (Some c1)"
      by (rule cache_for_write [OF cf assms(2,3) c(2) nblk [OF ok] assms(5)])
    have "storage_ok ok bsz nblk sector rd wr name (set_cache (st\<lparr>st_driver := x\<rparr>) name (Some c1))"
      using storage_step [OF assms(1) d(1) r(2)] c1(2) c(3) by simp
    then show ?thesis using True c c1(1) d r by (auto simp: write_storage_device_def)
  qed
qed

end

text \<open>The storage layer over a block device is a block device, for every device name.\<close>

sublocale storage_stack < stor: block_device "storage_ok ok bsz nblk sector rd wr name" bsz nblk
    "\<lambda>st. sector (st_driver st)" "read_storage_device name" "write_storage_device name" for name
proof (unfold_locales, goal_cases)
  case (1 st) then show ?case using bsz by (auto simp: storage_ok_def)
next
  case (2 st) then show ?case using nblk by (auto simp: storage_ok_def)
next
  case (3 st k) then show ?case using sector_len by (auto simp: storage_ok_def)
next
  case (4 st n s) then show ?case using storage_read [OF 4] by blast
next
  case (5 st n s xs) then show ?case using storage_write [OF 5] by blast
qed

text \<open>Over a reliable device it is reliable.\<close>

locale reliable_stack = reliable_device

sublocale reliable_stack < storage_stack ..

sublocale reliable_stack < rstor: reliable_device "storage_ok ok bsz nblk sector rd wr name" bsz nblk
    "\<lambda>st. sector (st_driver st)" "read_storage_device name" "write_storage_device name" for name
proof (unfold_locales, goal_cases)
  case (1 st n s r st')
  have ok: "ok (st_driver st)" using 1(1) by (simp add: storage_ok_def)
  then have "s + n < W64" using nblk [OF ok] 1(4) by simp
  then show ?case
    using storage_read [OF 1(1-3)] reliable_read [OF ok 1(2-4)] 1(5) by fastforce
next
  case (2 st n s xs b st')
  have ok: "ok (st_driver st)" using 2(1) by (simp add: storage_ok_def)
  then have "s + n < W64" using nblk [OF ok] 2(4) by simp
  then show ?case
    using storage_write [OF 2(1-3) _ 2(5)] reliable_write [OF ok 2(2-5)] 2(6) by fastforce
qed

context reliable_stack
begin

text \<open>What happens when a cache request is refused in the middle of a write.  \<^verbatim>\<open>block_cache_write\<close>
  gives up at the first sector it cannot cache, and \<^verbatim>\<open>write_storage_device\<close> ignores that.\<close>

lemma stale_after_refusal:
  assumes "storage_coherent ok bsz nblk sector rd wr name st" "find_storage_device st name = Some d"
    and "sd_cache d = Some c" "cache_view c l = None" "0 < k" "k < n" "cache_view c (l + k) \<noteq> None"
    and "length (bc_lru c) < bc_cap c" "bc_alloc c (bc_requests c) (bc_bufs c) = 0"
    and "n * bsz + bsz < U32" "l + n \<le> nblk" "length xs = n * bsz"
  shows "\<exists>st1 st2. write_storage_device name st l (n * bsz) xs = Some (True, st1) \<and>
    sector (st_driver st1) = put_sectors bsz (sector (st_driver st)) l xs \<and>
    read_storage_device name st1 (l + k) bsz = Some (Some (sector (st_driver st) (l + k)), st2)"
proof -
  have ok: "ok (st_driver st)" and d: "sd_blockread d = Some rd" "sd_blockwrite d = Some wr"
    and c: "cache_ok c" "bc_sector c = bsz" "bc_devsize c = nblk" "coherent c (sector (st_driver st))"
    using assms(1-3) by (auto simp: storage_coherent_def)
  have n: "0 < n" and W: "l + n < W64" "nblk < W64" using assms(6,11) nblk [OF ok] by simp_all
  obtain m where m: "n = Suc m" using n by (cases n) auto
  obtain r x where w: "wr (st_driver st) l (n * bsz) xs = Some (r, x)"
    "r \<Longrightarrow> sector x = put_sectors bsz (sector (st_driver st)) l xs"
    using write_law [OF ok n assms(10) W(1) assms(12)] by (auto split: if_splits)
  have r: r by (rule reliable_write [OF ok n assms(10-12) w(1)])
  have "cache_find c l = None" using assms(4) view_None [OF c(1)] by simp
  then have miss: "hashmap_get_index (bc_map c) (key_entry l) = Some None"
    by (cases rule: find_index [OF c(1), of l]) auto
  let ?c = "c\<lparr>bc_requests := Suc (bc_requests c)\<rparr>"
  have full: "\<not> bc_cap c \<le> bc_lru_count c" using assms(8) cache_okD(5) [OF c(1)] by simp
  then have "cache_write_sector c l (take bsz xs) = Some (False, ?c)"
    using miss assms(9) by (simp add: cache_write_sector_def evict_while.simps cache_alloc_def)
  then have bw: "block_cache_write c l (n * bsz) xs = Some (False, ?c)"
    using sectors_for_len_exact [OF cache_okD(2) [OF c(1)] n] assms(10,11) W c(2,3)
    by (simp add: block_cache_write_def add64_nowrap m)
  define st1 where "st1 = set_cache (st\<lparr>st_driver := x\<rparr>) name (Some ?c)"
  have w1: "write_storage_device name st l (n * bsz) xs = Some (True, st1)"
    using assms(2,3) d(2) w(1) r bw by (simp add: write_storage_device_def st1_def)
  have f1: "find_storage_device st1 name = Some (d\<lparr>sd_cache := Some ?c\<rparr>)"
    unfolding st1_def by (rule find_set_cache) (simp add: assms(2))
  have view: "cache_view ?c = cache_view c"
    by (rule cache_view_cong) (simp_all add: fun_eq_iff cache_find_def)
  have find: "cache_find ?c = cache_find c" by (simp add: fun_eq_iff cache_find_def)
  have ok2: "cache_ok ?c" using c(1) unfolding cache_ok_def entries_ok_def find by simp
  obtain b where b: "cache_view c (l + k) = Some b" using assms(7) by blast
  have bb: "b = sector (st_driver st) (l + k)" using b c(4) by (simp add: coherent_def)
  have "bsz \<le> n * bsz" using n by simp
  then have "bsz + bsz < U32" using assms(10) by linarith
  then have sz: "1 * bc_sector ?c + bc_sector ?c < U32" using c(2) by simp
  obtain q c2 where q: "block_cache_read ?c (l + k) (1 * bc_sector ?c) = Some (q, c2)"
    "q = (if \<forall>j < 1. cache_view ?c (l + k + j) \<noteq> None
          then Some (concat (map (\<lambda>j. the (cache_view ?c j)) [l + k ..< l + k + 1])) else None)"
    by (rule block_cache_read_ok [OF ok2 _ sz]) (use assms(6,11) W(2) c(3) in auto)
  have "read_storage_device name st1 (l + k) bsz = Some (Some b, set_cache st1 name (Some c2))"
    using f1 d(1) q b c(2) by (simp add: read_storage_device_def view)
  then show ?thesis using w1 w(2) r bb by (simp add: st1_def)
qed

end

interpretation rs: reliable_stack "ramdisk_ok rname bs nb" bs nb "ramdisk_sector rname bs"
    "rd_block_read rname bs" "rd_block_write rname bs" for rname bs nb
  by unfold_locales

section \<open>Properties\<close>

text \<open>C2: the storage layer refines an array of sectors as long as the cache gets the memory it asks
  for.  For a registered RAM disk with a coherent sector cache (or none), of which no request for memory
  is refused, every sequence of in-range reads and writes returns exactly what the same requests
  return on a plain array of sectors, and leaves the device holding that array, whatever was cached
  or evicted on the way.  Without the second hypothesis it is false: see the next property.\<close>

theorem storage_refines_array:
  assumes "storage_coherent (ramdisk_ok rname bs nb) bs nb (ramdisk_sector rname bs)
      (rd_block_read rname bs) (rd_block_write rname bs) name st"
    and "cache_memory_ok name st"
    and "list_all (io_ok bs nb) rs"
  shows "\<exists>st'. device_run (read_storage_device name) (write_storage_device name) bs rs st =
      Some (fst (array_run bs rs (ramdisk_sector rname bs (st_driver st))), st') \<and>
    storage_coherent (ramdisk_ok rname bs nb) bs nb (ramdisk_sector rname bs)
      (rd_block_read rname bs) (rd_block_write rname bs) name st' \<and> cache_memory_ok name st' \<and>
    ramdisk_sector rname bs (st_driver st') = snd (array_run bs rs (ramdisk_sector rname bs (st_driver st)))"
  using rs.rstor.run_refines [OF _ assms(3)] assms(1,2) unfolding storage_ok_iff by blast

definition demo_storage :: "ramdisks storage" where
  "demo_storage = \<lparr>st_devices = [\<lparr>sd_name = [0x72, 0x30, 0], sd_size = 100,
      sd_blockread = Some (rd_block_read [0x72, 0x30, 0] 4),
      sd_blockwrite = Some (rd_block_write [0x72, 0x30, 0] 4), sd_blockclear = None, sd_block_size = 4,
      sd_cache = Some demo_cache\<rparr>],
    st_driver = demo_disks, st_error = None\<rparr>"

lemma demo_storage_ok:
  "storage_coherent (ramdisk_ok [0x72, 0x30, 0] 4 100) 4 100 (ramdisk_sector [0x72, 0x30, 0] 4)
     (rd_block_read [0x72, 0x30, 0] 4) (rd_block_write [0x72, 0x30, 0] 4) [0x72, 0x30, 0] demo_storage"
  "cache_memory_ok [0x72, 0x30, 0] demo_storage"
  using demo_disks_ok(1) demo_cache_ok
  by (simp_all add: storage_coherent_def cache_memory_ok_def demo_storage_def find_storage_device_def strcmp_0
      coherent_def)

theorem storage_refines_array_witness:
  "\<exists>out st'. device_run (read_storage_device [0x72, 0x30, 0]) (write_storage_device [0x72, 0x30, 0]) 4
     [WriteBlocks 3 [9, 8, 7, 6], ReadBlocks 2 5, WriteBlocks 4 [1, 2, 3, 4, 5, 6, 7, 8], ReadBlocks 3 1] demo_storage
     = Some (out, st')"
  using storage_refines_array [OF demo_storage_ok(1,2), of
      "[WriteBlocks 3 [9, 8, 7, 6], ReadBlocks 2 5, WriteBlocks 4 [1, 2, 3, 4, 5, 6, 7, 8], ReadBlocks 3 1]"]
  by (auto simp del: device_run.simps array_run.simps simp: U32_def Let_def)

text \<open>C26: a cache that is refused memory hands out stale sectors.  On a registered RAM disk with a coherent
  cache that has room, let a write of \<open>n\<close> sectors start with a sector that is not cached, let the cache's
  request for a buffer for it be refused, and let the \<open>k\<close>-th further sector of the write be cached.
  Then \<^verbatim>\<open>write_storage_device\<close> reports success and the device holds the new bytes, but reading that
  sector back through the storage layer returns the bytes from before the write.\<close>

theorem storage_stale_after_oom:
  assumes "storage_coherent (ramdisk_ok rname bs nb) bs nb (ramdisk_sector rname bs)
      (rd_block_read rname bs) (rd_block_write rname bs) name st"
    and "find_storage_device st name = Some d" "sd_cache d = Some c"
    and "cache_view c l = None" "0 < k" "k < n" "cache_view c (l + k) \<noteq> None"
    and "length (bc_lru c) < bc_cap c" "bc_alloc c (bc_requests c) (bc_bufs c) = 0"
    and "n * bs + bs < U32" "l + n \<le> nb" "length xs = n * bs"
  shows "\<exists>st1 st2. write_storage_device name st l (n * bs) xs = Some (True, st1) \<and>
    ramdisk_sector rname bs (st_driver st1) = put_sectors bs (ramdisk_sector rname bs (st_driver st)) l xs \<and>
    read_storage_device name st1 (l + k) bs = Some (Some (ramdisk_sector rname bs (st_driver st) (l + k)), st2)"
  by (rule rs.stale_after_refusal [OF assms])

text \<open>The witness: a cache that got its memory for sector 8 and is refused any more.\<close>

lemma cache_write_sector_lru:
  assumes "cache_ok c" "cache_write_sector c l seg = Some (r, c')"
  shows "length (bc_lru c') \<le> Suc (length (bc_lru c))"
proof -
  obtain c1 where c1: "evict_while (bc_cap c) c = Some c1" "length (bc_lru c1) \<le> length (bc_lru c)"
    using evict_while_ok [OF assms(1) cache_okD(3) [OF assms(1)]] unfolding shrunk_def by blast
  have touch: "length (bc_lru (snd (lru_touch x k))) \<le> Suc (length (bc_lru x))" for x k
    by (simp add: lru_touch_def Let_def)
  have queue: "length (bc_lru y) \<le> Suc (length (bc_lru x))" if "cache_write_queue x k j = Some (b, y)" for x y k j b
    using that by (auto simp: cache_write_queue_def lru_touch_def Let_def cache_free_buf_def
        split: option.splits if_splits)
  have insert: "length (bc_lru y) \<le> Suc (length (bc_lru x))"
    if "cache_write_insert x k p sg = Some (b, y)" for x y k p sg b
    using that by (auto simp: cache_write_insert_def Let_def cache_free_buf_def dest!: queue
        split: option.splits if_splits)
  show ?thesis
    using assms(2) c1(2)
    by (auto simp: cache_write_sector_def cache_write_hit_def cache_alloc_def Let_def c1(1)
        dest!: insert split: option.splits if_splits intro: order_trans [OF touch])
qed

lemma refused_cache:
  "\<exists>c. cache_ok c \<and> bc_sector c = 4 \<and> bc_devsize c = 100 \<and> bc_alloc c = (\<lambda>_ _. 0) \<and>
    length (bc_lru c) < bc_cap c \<and> (\<forall>k. cache_view c k = (if k = 8 then Some [0, 0, 0, 0] else None))"
proof -
  obtain c1 where c1: "cache_write_sector demo_cache 8 [0, 0, 0, 0] = Some (True, c1)"
    "stored demo_cache 8 [0, 0, 0, 0] c1"
    by (rule cache_write_sector_ok [OF demo_cache_ok(1,2), of "[0, 0, 0, 0]" 8]) (simp_all add: demo_cache_ok(3))
  have st: "static c1 = static demo_cache" "cache_ok c1"
    "\<And>k. cache_view c1 k = (if k = 8 then Some [0, 0, 0, 0] else None)"
    using c1(2) unfolding stored_def demo_cache_ok(5) by auto
  have "bc_lru demo_cache = []" "bc_cap demo_cache = 8192"
    by (simp_all add: demo_cache_def block_cache_create_def hashmap_new_with_allocator_def
        BLOCK_CACHE_SECTOR_CAP_def)
  then have lru: "length (bc_lru c1) < bc_cap c1"
    using cache_write_sector_lru [OF demo_cache_ok(1) c1(1)] st(1) by (simp add: static_def)
  let ?c = "c1\<lparr>bc_alloc := \<lambda>_ _. 0\<rparr>"
  have find: "cache_find ?c = cache_find c1" by (simp add: fun_eq_iff cache_find_def)
  have "cache_ok ?c"
    using st(2) unfolding cache_ok_def entries_ok_def find by (simp add: alloc_fresh_def)
  moreover have "cache_view ?c k = (if k = 8 then Some [0, 0, 0, 0] else None)" for k
    using cache_view_cong [OF find] st(3) by simp
  ultimately show ?thesis
    by (intro exI [of _ ?c]) (use st(1) lru demo_cache_ok(3,4) in \<open>simp add: static_def\<close>)
qed

lemma zero_disk: "ramdisk_sector [0x72, 0x30, 0] 4 demo_disks 8 = [0, 0, 0, 0]"
  unfolding demo_disks_ok(2) by (simp add: nth_sector_def drop_replicate numeral_eq_Suc)

theorem storage_stale_after_oom_witness:
  "\<exists>(st :: ramdisks storage) st1 st2.
     write_storage_device [0x72, 0x30, 0] st 7 8 [1, 2, 3, 4, 5, 6, 7, 8] = Some (True, st1) \<and>
     read_storage_device [0x72, 0x30, 0] st1 8 4 = Some (Some [0, 0, 0, 0], st2)"
proof -
  obtain c where c: "cache_ok c" "bc_sector c = 4" "bc_devsize c = 100" "bc_alloc c = (\<lambda>_ _. 0)"
    "length (bc_lru c) < bc_cap c" "\<And>k. cache_view c k = (if k = 8 then Some [0, 0, 0, 0] else None)"
    using refused_cache by blast
  let ?name = "[0x72, 0x30, 0] :: byte list"
  define st where "st = set_cache demo_storage ?name (Some c)"
  define d where "d = (hd (st_devices demo_storage))\<lparr>sd_cache := Some c\<rparr>"
  have f: "find_storage_device st ?name = Some d"
    unfolding st_def d_def
    by (rule find_set_cache) (simp add: demo_storage_def find_storage_device_def strcmp_0)
  have dr: "st_driver st = demo_disks" by (simp add: st_def demo_storage_def)
  have ok: "storage_coherent (ramdisk_ok ?name 4 100) 4 100 (ramdisk_sector ?name 4)
     (rd_block_read ?name 4) (rd_block_write ?name 4) ?name st"
    using demo_disks_ok(1) c(1-3) f
    by (auto simp: storage_coherent_def dr coherent_def c(6) zero_disk d_def demo_storage_def split: if_splits)
  show ?thesis
    using storage_stale_after_oom [OF ok f, of c 7 1 2 "[1, 2, 3, 4, 5, 6, 7, 8]"] c(4-6)
    by (fastforce simp: d_def U32_def dr zero_disk)
qed

text \<open>A device without a driver function, or a name that is not registered, is reported as
  unsupported and nothing else changes.\<close>

theorem storage_unsupported:
  assumes "case find_storage_device st name of None \<Rightarrow> True
    | Some d \<Rightarrow> sd_blockread d = None \<and> sd_blockwrite d = None"
  shows "read_storage_device name st s n = Some (None, st\<lparr>st_error := Some FS_ERR_UNSUPPORTED\<rparr>) \<and>
    write_storage_device name st s n xs = Some (False, st\<lparr>st_error := Some FS_ERR_UNSUPPORTED\<rparr>)"
  using assms
  by (cases "find_storage_device st name") (simp_all add: read_storage_device_def write_storage_device_def)

theorem storage_unsupported_witness:
  "fst (the (read_storage_device [0x78, 0] demo_storage 0 4)) = None"
proof -
  have "find_storage_device demo_storage [0x78, 0] = None"
    by (simp add: find_storage_device_def demo_storage_def strcmp_0 cstr_def)
  then show ?thesis using storage_unsupported [of demo_storage "[0x78, 0]"] by simp
qed

end
