(* ===== verification/RfsBase.thy ===== *)
theory RfsBase
  imports Storage
begin

text \<open>
  RetroFS (\<^verbatim>\<open>src/fs/retrofs\<close>, \<^verbatim>\<open>include/retrofs.h\<close>): the volume structure, the bit sets and the access
  to the device.

  \<^item> \<open>'d rfs\<close> is \<^verbatim>\<open>rfs_t\<close> together with the state \<open>'d\<close> of the device under it and the last filesystem
    error.  An operation takes the volume and returns its result with the new volume; the result
    \<open>None\<close> is the failure return (\<^verbatim>\<open>false\<close>, \<^verbatim>\<open>0\<close> or \<^verbatim>\<open>NULL\<close>).
  \<^item> \<open>'d device\<close> holds the operations of the device, \<^verbatim>\<open>read_storage_device\<close>, \<^verbatim>\<open>write_storage_device\<close> and
    \<^verbatim>\<open>storage_device_clear_blocks\<close> on the volume's device.
  \<^item> \<open>rfs_mem k\<close> tells whether the volume's \<^verbatim>\<open>kmalloc\<close> request number \<open>k\<close> succeeds.
  \<^item> Arrays are lists, indexed as in the source.
\<close>

section \<open>Types and constants\<close>

definition RFS_SECTOR_SIZE :: nat where "RFS_SECTOR_SIZE = 512"

definition RFS_MAX_NAME :: nat where "RFS_MAX_NAME = 128"

definition RFS_MAP_READ_CHUNK_SECTORS :: nat where "RFS_MAP_READ_CHUNK_SECTORS = 16"

definition RFS_DEFAULT_DIR_SIZE :: nat where "RFS_DEFAULT_DIR_SIZE = 64"

definition RFS_L1_GROUP_SECTORS :: nat where "RFS_L1_GROUP_SECTORS = 4096"

definition RFS_L2_GROUPS_PER_SUPER :: nat where "RFS_L2_GROUPS_PER_SUPER = 1024"

definition RFS_ID :: nat where "RFS_ID = 0x3153466f72746552"

record rfs_desc =
  ds_identifier :: nat
  ds_root_directory :: nat
  ds_map_start :: nat
  ds_map_length :: nat
  ds_map_checksum :: nat
  ds_sequence :: nat
  ds_creation_time :: nat

record 'd device =
  d_read :: "'d \<Rightarrow> nat \<Rightarrow> nat \<Rightarrow> byte list option \<times> 'd"
  d_write :: "'d \<Rightarrow> nat \<Rightarrow> nat \<Rightarrow> byte list \<Rightarrow> bool \<times> 'd"
  d_clear :: "'d \<Rightarrow> nat \<Rightarrow> nat \<Rightarrow> bool \<times> 'd"

record 'd rfs =
  rfs_dev :: 'd
  rfs_start :: nat
  rfs_length :: nat
  rfs_desc :: "rfs_desc option"
  rfs_total :: nat
  rfs_cached :: bool
  rfs_l1_groups :: nat
  rfs_l2_groups :: nat
  rfs_l1_free :: "nat list"
  rfs_l1_not_full :: "byte list"
  rfs_l1_all_free :: "byte list"
  rfs_l2_not_full :: "byte list"
  rfs_l2_all_free :: "byte list"
  rfs_error :: "fs_error option"
  rfs_mem :: "nat \<Rightarrow> bool"
  rfs_requests :: nat

definition fs_set_error :: "fs_error \<Rightarrow> 'd rfs \<Rightarrow> 'd rfs" where
  "fs_set_error e r = r\<lparr>rfs_error := Some e\<rparr>"

definition rfs_kmalloc :: "'d rfs \<Rightarrow> bool \<times> 'd rfs" where
  "rfs_kmalloc r = (rfs_mem r (rfs_requests r), r\<lparr>rfs_requests := Suc (rfs_requests r)\<rparr>)"

text \<open>Go on with the result of an operation, or return its failure.\<close>

definition and_then ::
    "'a option \<times> 'd rfs \<Rightarrow> ('a \<Rightarrow> 'd rfs \<Rightarrow> 'b option \<times> 'd rfs) \<Rightarrow> 'b option \<times> 'd rfs" where
  "and_then m f = (case m of (None, r) \<Rightarrow> (None, r) | (Some a, r) \<Rightarrow> f a r)"

lemma and_then_simps [simp]:
  "and_then (None, r) f = (None, r)" "and_then (Some a, r) f = f a r"
  by (simp_all add: and_then_def)

lemma and_then_eq:
  "and_then m f = (case fst m of None \<Rightarrow> (None, snd m) | Some a \<Rightarrow> f a (snd m))"
  by (cases m) (auto simp: and_then_def split: option.split)

section \<open>Bit sets\<close>

definition bitset_get :: "byte list \<Rightarrow> nat \<Rightarrow> bool" where
  "bitset_get bs idx \<longleftrightarrow> (bs ! (idx div 8)) AND push_bit (idx mod 8) 1 \<noteq> 0"

definition bitset_set :: "byte list \<Rightarrow> nat \<Rightarrow> bool \<Rightarrow> byte list" where
  "bitset_set bs idx val =
     bs[idx div 8 := (if val then (bs ! (idx div 8)) OR push_bit (idx mod 8) 1
                      else (bs ! (idx div 8)) AND NOT (push_bit (idx mod 8) 1))]"

definition bitset_bytes :: "nat \<Rightarrow> nat" where
  "bitset_bytes nbits = (nbits + 7) div 8"

text \<open>Bit \<open>i\<close> of a buffer.\<close>

definition buf_bit :: "byte list \<Rightarrow> nat \<Rightarrow> bool" where
  "buf_bit buf i = bit (buf ! (i div 8)) (i mod 8)"

lemma and_single_bit: "(w AND push_bit n 1 \<noteq> 0) = bit w n" if "n < LENGTH('a)" for w :: "'a::len word"
proof -
  have "w AND push_bit n 1 = (if bit w n then push_bit n 1 else 0)"
    by (rule bit_word_eqI) (auto simp: bit_simps)
  moreover have "push_bit n (1::'a word) \<noteq> 0" using that by simp
  ultimately show ?thesis by auto
qed

lemma bitset_get_bit: "bitset_get bs i = buf_bit bs i"
  using and_single_bit [of "i mod 8" "bs ! (i div 8)"] by (simp add: bitset_get_def buf_bit_def)

lemma length_bitset_set [simp]: "length (bitset_set bs i v) = length bs"
  by (simp add: bitset_set_def)

lemma bitset_get_set:
  assumes "i div 8 < length bs"
  shows "bitset_get (bitset_set bs i v) j = (if i = j then v else bitset_get bs j)"
proof (cases "i div 8 = j div 8")
  case True
  then have "i = j \<longleftrightarrow> i mod 8 = j mod 8" by (metis div_mult_mod_eq)
  then show ?thesis
    using True assms by (auto simp: bitset_get_bit buf_bit_def bitset_set_def bit_simps)
next
  case False
  then show ?thesis by (auto simp: bitset_get_bit buf_bit_def bitset_set_def)
qed

section \<open>Access to the device\<close>

definition rfs_read_device ::
    "'d device \<Rightarrow> 'd rfs \<Rightarrow> nat \<Rightarrow> nat \<Rightarrow> byte list option \<times> 'd rfs" where
  "rfs_read_device dv r start_sectors size_bytes =
     (let nsectors = size_bytes div RFS_SECTOR_SIZE
      in if size_bytes mod RFS_SECTOR_SIZE \<noteq> 0 then (None, fs_set_error FS_ERR_OUTSIDE_VOLUME r)
         else if add64 start_sectors nsectors > rfs_total r
         then (None, fs_set_error FS_ERR_OUTSIDE_VOLUME r)
         else (case d_read dv (rfs_dev r) (add64 (rfs_start r) start_sectors) (size_bytes mod U32) of
                 (res, d) \<Rightarrow> (res, r\<lparr>rfs_dev := d\<rparr>)))"

definition rfs_write_device ::
    "'d device \<Rightarrow> 'd rfs \<Rightarrow> nat \<Rightarrow> nat \<Rightarrow> byte list \<Rightarrow> unit option \<times> 'd rfs" where
  "rfs_write_device dv r start_sectors size_bytes buffer =
     (let nsectors = size_bytes div RFS_SECTOR_SIZE
      in if size_bytes mod RFS_SECTOR_SIZE \<noteq> 0 then (None, fs_set_error FS_ERR_OUTSIDE_VOLUME r)
         else if add64 start_sectors nsectors > rfs_total r
         then (None, fs_set_error FS_ERR_OUTSIDE_VOLUME r)
         else (case d_write dv (rfs_dev r) (add64 (rfs_start r) start_sectors) (size_bytes mod U32) buffer of
                 (res, d) \<Rightarrow> (if res then Some () else None, r\<lparr>rfs_dev := d\<rparr>)))"

definition rfs_clear_device :: "'d device \<Rightarrow> 'd rfs \<Rightarrow> nat \<Rightarrow> nat \<Rightarrow> unit option \<times> 'd rfs" where
  "rfs_clear_device dv r start_sectors size_bytes =
     (let nsectors = size_bytes div RFS_SECTOR_SIZE
      in if size_bytes mod RFS_SECTOR_SIZE \<noteq> 0 then (None, fs_set_error FS_ERR_OUTSIDE_VOLUME r)
         else if add64 start_sectors nsectors > rfs_total r
         then (None, fs_set_error FS_ERR_OUTSIDE_VOLUME r)
         else (case d_clear dv (rfs_dev r) (add64 (rfs_start r) start_sectors) (size_bytes mod U32) of
                 (res, d) \<Rightarrow> (if res then Some () else None, r\<lparr>rfs_dev := d\<rparr>)))"

definition rfs_bytes_to_sectors :: "nat \<Rightarrow> nat" where
  "rfs_bytes_to_sectors bytes =
     (if bytes = 0 then 0 else add64 bytes (RFS_SECTOR_SIZE - 1) div RFS_SECTOR_SIZE)"

definition rfs_get_used_bytes :: "'d rfs \<Rightarrow> nat \<times> 'd rfs" where
  "rfs_get_used_bytes r =
     (if rfs_desc r = None then (0, fs_set_error FS_ERR_INVALID_ARG r)
      else let free_secs = sum_list (take (rfs_l1_groups r) (rfs_l1_free r));
               free_secs = (if free_secs > rfs_total r then rfs_total r else free_secs)
           in (mul64 (rfs_total r - free_secs) RFS_SECTOR_SIZE, r))"

definition rfs_get_free_space :: "'d rfs \<Rightarrow> nat \<times> 'd rfs" where
  "rfs_get_free_space r =
     (case rfs_get_used_bytes r of
        (used, r1) \<Rightarrow> (sub64 (mul64 (rfs_length r) RFS_SECTOR_SIZE) used, r1))"

end
