(* ===== verification/RfsMap.thy ===== *)
theory RfsMap
  imports RfsBase
begin

text \<open>
  The free space map of RetroFS, \<^verbatim>\<open>src/fs/retrofs/fsmap.c\<close>.  Level 0 is a bitmap on the device, one bit
  per sector and one map sector per group of 4096 sectors; level 1 keeps a free counter and two
  bits per group, level 2 two bits per super-group of 1024 groups.
\<close>

section \<open>Groups\<close>

definition rfs_group_size :: "'d rfs \<Rightarrow> nat \<Rightarrow> nat" where
  "rfs_group_size r g =
     (let start = g * RFS_L1_GROUP_SECTORS
      in if start + RFS_L1_GROUP_SECTORS \<le> rfs_total r then RFS_L1_GROUP_SECTORS
         else rfs_total r - start)"

definition rfs_load_group_sector :: "'d device \<Rightarrow> 'd rfs \<Rightarrow> nat \<Rightarrow> byte list option \<times> 'd rfs" where
  "rfs_load_group_sector dv r g =
     rfs_read_device dv r (add64 (ds_map_start (the (rfs_desc r))) g) RFS_SECTOR_SIZE"

definition rfs_update_l2_for_group :: "'d rfs \<Rightarrow> nat \<Rightarrow> 'd rfs" where
  "rfs_update_l2_for_group r g =
     (let S = RFS_L2_GROUPS_PER_SUPER; sg = g div S; g0 = sg * S;
          g1 = (if g0 + S \<le> rfs_l1_groups r then g0 + S else rfs_l1_groups r);
          any_free = list_ex (\<lambda>gg. rfs_l1_free r ! gg > 0) [g0 ..< g1];
          all_free = list_all (\<lambda>gg. bitset_get (rfs_l1_all_free r) gg) [g0 ..< g1]
      in r\<lparr>rfs_l2_not_full := bitset_set (rfs_l2_not_full r) sg any_free,
           rfs_l2_all_free := bitset_set (rfs_l2_all_free r) sg all_free\<rparr>)"

section \<open>Marking an extent\<close>

text \<open>\<^verbatim>\<open>((1u << span) - 1u) << bit_off\<close>\<close>

definition span_mask :: "nat \<Rightarrow> nat \<Rightarrow> byte" where
  "span_mask span bit_off = push_bit bit_off (push_bit span 1 - 1)"

definition popcount8 :: "byte \<Rightarrow> nat" where
  "popcount8 w = length (filter (bit w) [0 ..< 8])"

text \<open>The byte loop over bits \<open>b\<close> up to \<open>hi\<close>: the buffer and the number of bits that changed.\<close>

function mark_bits :: "bool \<Rightarrow> nat \<Rightarrow> nat \<Rightarrow> byte list \<Rightarrow> nat \<Rightarrow> byte list \<times> nat" where
  "mark_bits mark_used b hi buf transitions =
     (if b < hi
      then let byte_idx = b div 8; bit_off = b mod 8;
               span = min (8 - bit_off) (hi - b);
               msk = span_mask span bit_off;
               before = buf ! byte_idx;
               after = (if mark_used then before OR msk else before AND NOT msk);
               delta = (if mark_used then NOT before AND msk else before AND msk)
           in mark_bits mark_used (b + span) hi (buf[byte_idx := after]) (transitions + popcount8 delta)
      else (buf, transitions))"
  by pat_completeness auto
termination
  by (relation "measure (\<lambda>(u, b, hi, buf, t). hi - b)") auto

declare mark_bits.simps [simp del]

text \<open>The counters and bits of group \<open>g\<close>, once its map sector is written.\<close>

definition set_group :: "'d rfs \<Rightarrow> nat \<Rightarrow> nat \<Rightarrow> bool \<Rightarrow> bool \<Rightarrow> 'd rfs" where
  "set_group r g fc not_full all_free =
     rfs_update_l2_for_group
       (r\<lparr>rfs_l1_free := (rfs_l1_free r)[g := fc],
          rfs_l1_not_full := bitset_set (rfs_l1_not_full r) g not_full,
          rfs_l1_all_free := bitset_set (rfs_l1_all_free r) g all_free\<rparr>) g"

definition mark_whole_group ::
    "'d device \<Rightarrow> 'd rfs \<Rightarrow> bool \<Rightarrow> nat \<Rightarrow> nat \<Rightarrow> nat \<Rightarrow> unit option \<times> 'd rfs" where
  "mark_whole_group dv r mark_used g g_size l0_lba =
     and_then
       (rfs_write_device dv r l0_lba RFS_SECTOR_SIZE
          (replicate RFS_SECTOR_SIZE (if mark_used then 0xFF else 0x00)))
       (\<lambda>_ r1. (Some (), set_group r1 g (if mark_used then 0 else g_size) (\<not> mark_used) (\<not> mark_used)))"

definition mark_part_group ::
    "'d device \<Rightarrow> 'd rfs \<Rightarrow> bool \<Rightarrow> nat \<Rightarrow> nat \<Rightarrow> nat \<Rightarrow> nat \<Rightarrow> nat \<Rightarrow> unit option \<times> 'd rfs" where
  "mark_part_group dv r mark_used g g_size l0_lba local_start local_end =
     and_then (rfs_read_device dv r l0_lba RFS_SECTOR_SIZE)
       (\<lambda>sector_buf r1.
          case mark_bits mark_used local_start local_end sector_buf 0 of
            (buf, transitions) \<Rightarrow>
              if transitions = 0 then (Some (), r1)
              else and_then (rfs_write_device dv r1 l0_lba RFS_SECTOR_SIZE buf)
                     (\<lambda>_ r2.
                        let old = rfs_l1_free r2 ! g;
                            fc = (if mark_used then (if old \<ge> transitions then old - transitions else 0)
                                  else (old + min transitions (sub64 g_size old)) mod 65536)
                        in (Some (), set_group r2 g fc (fc > 0) (fc = g_size))))"

text \<open>The \<^verbatim>\<open>while (rem)\<close> loop.  As long as \<^verbatim>\<open>start_sector + length_sectors\<close> does not wrap around, \<^verbatim>\<open>pos\<close> stays
  below \<^verbatim>\<open>total\<close> and \<^verbatim>\<open>take\<close> is not zero: the last case, in which the loop would not advance, is not
  reached.\<close>

function mark_loop :: "'d device \<Rightarrow> 'd rfs \<Rightarrow> bool \<Rightarrow> nat \<Rightarrow> nat \<Rightarrow> unit option \<times> 'd rfs" where
  "mark_loop dv r mark_used pos rem =
     (if rem = 0 then (Some (), r)
      else let G = RFS_L1_GROUP_SECTORS; g = pos div G; g_start = g * G;
               g_end = (if g_start + G \<le> rfs_total r then g_start + G else rfs_total r);
               g_size = g_end - g_start; in_group = g_end - pos;
               take = (if rem < in_group then rem else in_group);
               l0_lba = add64 (ds_map_start (the (rfs_desc r))) g;
               step = (if take = g_size then mark_whole_group dv r mark_used g g_size l0_lba
                       else mark_part_group dv r mark_used g g_size l0_lba (pos - g_start)
                              (pos - g_start + take))
           in (case fst step of
                 None \<Rightarrow> step
               | Some _ \<Rightarrow> if take = 0 then (None, snd step)
                           else mark_loop dv (snd step) mark_used (pos + take) (rem - take)))"
  by pat_completeness auto
termination
  by (relation "measure (\<lambda>(dv, r, u, pos, rem). rem)") (auto split: if_splits)

declare mark_loop.simps [simp del]

definition rfs_mark_extent :: "'d device \<Rightarrow> 'd rfs \<Rightarrow> nat \<Rightarrow> nat \<Rightarrow> bool \<Rightarrow> unit option \<times> 'd rfs" where
  "rfs_mark_extent dv r start_sector length_sectors mark_used =
     (if rfs_desc r = None \<or> length_sectors = 0 then (None, fs_set_error FS_ERR_INVALID_ARG r)
      else if ds_map_start (the (rfs_desc r)) = 0 \<or> \<not> rfs_cached r \<or> rfs_l2_groups r = 0
      then (None, fs_set_error FS_ERR_INVALID_ARG r)
      else if start_sector \<ge> rfs_total r then (None, fs_set_error FS_ERR_INVALID_ARG r)
      else let len = (if add64 start_sector length_sectors > rfs_total r
                      then rfs_total r - start_sector else length_sectors)
           in if len = 0 then (None, fs_set_error FS_ERR_INVALID_GEOMETRY r)
              else mark_loop dv r mark_used start_sector len)"

section \<open>Finding a free extent\<close>

text \<open>The prefix scan: whole zero bytes, then the bits of the first byte that is not zero, then the
  bits that remain.\<close>

function prefix_bytes :: "byte list \<Rightarrow> nat \<Rightarrow> nat \<Rightarrow> nat" where
  "prefix_bytes buf n b =
     (if b + 8 \<le> n \<and> buf ! (b div 8) = 0 then prefix_bytes buf n (b + 8) else b)"
  by pat_completeness auto
termination
  by (relation "measure (\<lambda>(buf, n, b). n - b)") auto

declare prefix_bytes.simps [simp del]

text \<open>\<^verbatim>\<open>while (b < group_bits && !(x & 1u)) { ++p; ++b; x >>= 1; }\<close>\<close>

function prefix_shift :: "byte \<Rightarrow> nat \<Rightarrow> nat \<Rightarrow> nat" where
  "prefix_shift x n b = (if b < n \<and> \<not> bit x 0 then prefix_shift (drop_bit 1 x) n (b + 1) else b)"
  by pat_completeness auto
termination
  by (relation "measure (\<lambda>(x, n, b). n - b)") auto

declare prefix_shift.simps [simp del]

function prefix_bits :: "byte list \<Rightarrow> nat \<Rightarrow> nat \<Rightarrow> nat" where
  "prefix_bits buf n b = (if b < n \<and> \<not> buf_bit buf b then prefix_bits buf n (b + 1) else b)"
  by pat_completeness auto
termination
  by (relation "measure (\<lambda>(buf, n, b). n - b)") auto

declare prefix_bits.simps [simp del]

text \<open>\<^verbatim>\<open>p\<close> and \<^verbatim>\<open>b\<close> advance together, so the prefix is the position reached.\<close>

definition group_prefix_free :: "byte list \<Rightarrow> nat \<Rightarrow> nat" where
  "group_prefix_free buf n =
     (let b = prefix_bytes buf n 0;
          b = (if b + 8 \<le> n then prefix_shift (buf ! (b div 8)) n b else b)
      in prefix_bits buf n b)"

text \<open>The suffix scan.  \<open>bu\<close> is \<^verbatim>\<open>b + 1\<close>, so that the scan ends at 0.  The inner loop starts at byte
  \<^verbatim>\<open>(b >> 3) - 1\<close>, as the source has it.\<close>

fun suffix_bytes :: "byte list \<Rightarrow> nat \<Rightarrow> nat" where
  "suffix_bytes buf 0 = 0"
| "suffix_bytes buf (Suc byte_idx) =
     (if buf ! byte_idx = 0 then Suc (suffix_bytes buf byte_idx) else 0)"

function suffix_scan :: "byte list \<Rightarrow> nat \<Rightarrow> nat \<Rightarrow> nat" where
  "suffix_scan buf bu s =
     (if bu = 0 then s
      else if buf_bit buf (bu - 1) then s
      else let s1 = s + 1; bu1 = bu - 1
           in if bu1 mod 8 = 0
              then let k = suffix_bytes buf (bu1 div 8 - 1) in suffix_scan buf (bu1 - 8 * k) (s1 + 8 * k)
              else suffix_scan buf bu1 s1)"
  by pat_completeness auto
termination
  by (relation "measure (\<lambda>(buf, bu, s). bu)") auto

declare suffix_scan.simps [simp del]

definition rfs_group_prefix_suffix_free :: "byte list \<Rightarrow> nat \<Rightarrow> nat \<times> nat" where
  "rfs_group_prefix_suffix_free buf group_bits =
     (group_prefix_free buf group_bits, if group_bits > 0 then suffix_scan buf group_bits 0 else 0)"

text \<open>\<^verbatim>\<open>UINT64_MAX\<close>, for no run, is \<open>None\<close>.\<close>

function find_run :: "byte list \<Rightarrow> nat \<Rightarrow> nat \<Rightarrow> nat \<Rightarrow> nat \<Rightarrow> nat \<Rightarrow> nat option" where
  "find_run buf n need b run run_start =
     (if b < n
      then if \<not> buf_bit buf b
           then let run_start = (if run = 0 then b else run_start); run = run + 1
                in if run \<ge> need then Some run_start else find_run buf n need (b + 1) run run_start
           else find_run buf n need (b + 1) 0 run_start
      else None)"
  by pat_completeness auto
termination
  by (relation "measure (\<lambda>(buf, n, need, b, run, rs). n - b)") auto

declare find_run.simps [simp del]

definition rfs_group_find_run_from :: "byte list \<Rightarrow> nat \<Rightarrow> nat \<Rightarrow> nat \<Rightarrow> nat option" where
  "rfs_group_find_run_from buf group_bits offset need =
     (if need = 0 then Some offset
      else if offset \<ge> group_bits then None
      else find_run buf group_bits need offset 0 offset)"

text \<open>A scan step answers with the extent found, goes on, or fails with an I/O error.\<close>

datatype 'a scan = Found 'a | Next | Abort

fun scan_list :: "(nat \<Rightarrow> 'd rfs \<Rightarrow> 'a scan \<times> 'd rfs) \<Rightarrow> nat list \<Rightarrow> 'd rfs \<Rightarrow> 'a scan \<times> 'd rfs" where
  "scan_list f [] r = (Next, r)"
| "scan_list f (x # xs) r =
     (case f x r of (Next, r1) \<Rightarrow> scan_list f xs r1 | (Found a, r1) \<Rightarrow> (Found a, r1)
      | (Abort, r1) \<Rightarrow> (Abort, r1))"

text \<open>Case A of \<^verbatim>\<open>rfs_find_free_extent\<close> for one group.\<close>

definition find_in_group :: "'d device \<Rightarrow> nat \<Rightarrow> nat \<Rightarrow> 'd rfs \<Rightarrow> nat scan \<times> 'd rfs" where
  "find_in_group dv need g r =
     (if \<not> bitset_get (rfs_l1_not_full r) g then (Next, r)
      else let gs = rfs_group_size r g
           in if bitset_get (rfs_l1_all_free r) g
              then (if need \<le> gs then (Found (g * RFS_L1_GROUP_SECTORS), r) else (Next, r))
              else (case rfs_load_group_sector dv r g of
                      (None, r1) \<Rightarrow> (Abort, r1)
                    | (Some l0, r1) \<Rightarrow>
                        (case rfs_group_find_run_from l0 gs 0 need of
                           None \<Rightarrow> (Next, r1)
                         | Some local \<Rightarrow> (Found (g * RFS_L1_GROUP_SECTORS + local), r1))))"

text \<open>\<^verbatim>\<open>while (collected < need && gg < l1_groups && l1_all_free[gg]) ...\<close>\<close>

function chain_groups :: "'d rfs \<Rightarrow> nat \<Rightarrow> nat \<Rightarrow> nat \<Rightarrow> nat \<times> nat" where
  "chain_groups r need gg collected =
     (if collected < need \<and> gg < rfs_l1_groups r \<and> bitset_get (rfs_l1_all_free r) gg
      then chain_groups r need (gg + 1) (collected + rfs_group_size r gg) else (gg, collected))"
  by pat_completeness auto
termination
  by (relation "measure (\<lambda>(r, need, gg, collected). rfs_l1_groups r - gg)") auto

declare chain_groups.simps [simp del]

text \<open>The free sectors at the end of group \<open>g\<close>; \<open>None\<close> for a full group.\<close>

definition tail_free :: "'d device \<Rightarrow> nat \<Rightarrow> 'd rfs \<Rightarrow> nat option scan \<times> 'd rfs" where
  "tail_free dv g r =
     (let gs = rfs_group_size r g
      in if bitset_get (rfs_l1_all_free r) g then (Found (Some gs), r)
         else if bitset_get (rfs_l1_not_full r) g
         then (case rfs_load_group_sector dv r g of
                 (None, r1) \<Rightarrow> (Abort, r1)
               | (Some l0, r1) \<Rightarrow> (Found (Some (snd (rfs_group_prefix_suffix_free l0 gs))), r1))
         else (Found None, r))"

definition head_free :: "'d device \<Rightarrow> nat \<Rightarrow> 'd rfs \<Rightarrow> nat scan \<times> 'd rfs" where
  "head_free dv gg r =
     (let gs = rfs_group_size r gg
      in if bitset_get (rfs_l1_all_free r) gg then (Found gs, r)
         else if bitset_get (rfs_l1_not_full r) gg
         then (case rfs_load_group_sector dv r gg of
                 (None, r1) \<Rightarrow> (Abort, r1)
               | (Some l0, r1) \<Rightarrow> (Found (fst (rfs_group_prefix_suffix_free l0 gs)), r1))
         else (Found 0, r))"

text \<open>Case B for one starting group.\<close>

definition find_from_group :: "'d device \<Rightarrow> nat \<Rightarrow> nat \<Rightarrow> 'd rfs \<Rightarrow> nat scan \<times> 'd rfs" where
  "find_from_group dv need g r =
     (case tail_free dv g r of
        (Abort, r1) \<Rightarrow> (Abort, r1)
      | (Next, r1) \<Rightarrow> (Next, r1)
      | (Found None, r1) \<Rightarrow> (Next, r1)
      | (Found (Some tf), r1) \<Rightarrow>
          if tf = 0 then (Next, r1)
          else let start_here = g * RFS_L1_GROUP_SECTORS + (rfs_group_size r1 g - tf)
               in case chain_groups r1 need (g + 1) tf of
                    (gg, collected) \<Rightarrow>
                      if collected \<ge> need then (Found start_here, r1)
                      else if need mod RFS_L1_GROUP_SECTORS > 0 \<and> collected < need \<and> gg < rfs_l1_groups r1
                      then (case head_free dv gg r1 of
                              (Abort, r2) \<Rightarrow> (Abort, r2)
                            | (Next, r2) \<Rightarrow> (Next, r2)
                            | (Found pf, r2) \<Rightarrow>
                                if collected + pf \<ge> need then (Found start_here, r2) else (Next, r2))
                      else (Next, r1))"

definition find_in_super ::
    "(nat \<Rightarrow> 'd rfs \<Rightarrow> nat scan \<times> 'd rfs) \<Rightarrow> nat \<Rightarrow> 'd rfs \<Rightarrow> nat scan \<times> 'd rfs" where
  "find_in_super f sg r =
     (if \<not> bitset_get (rfs_l2_not_full r) sg then (Next, r)
      else let g0 = sg * RFS_L2_GROUPS_PER_SUPER;
               g1 = min (g0 + RFS_L2_GROUPS_PER_SUPER) (rfs_l1_groups r)
           in scan_list f [g0 ..< g1] r)"

definition rfs_find_free_extent :: "'d device \<Rightarrow> 'd rfs \<Rightarrow> nat \<Rightarrow> nat option \<times> 'd rfs" where
  "rfs_find_free_extent dv r need =
     (if rfs_desc r = None \<or> need = 0 then (None, fs_set_error FS_ERR_INVALID_ARG r)
      else if need > rfs_total r then (None, fs_set_error FS_ERR_NO_SPACE r)
      else case scan_list
                  (find_in_super (if need \<le> RFS_L1_GROUP_SECTORS then find_in_group dv need
                                  else find_from_group dv need))
                  [0 ..< rfs_l2_groups r] r of
             (Found start, r1) \<Rightarrow> (Some start, r1)
           | (Abort, r1) \<Rightarrow> (None, r1)
           | (Next, r1) \<Rightarrow> (None, fs_set_error FS_ERR_NO_SPACE r1))"

section \<open>Building the caches\<close>

definition rfs_free_level_caches :: "'d rfs \<Rightarrow> 'd rfs" where
  "rfs_free_level_caches r =
     r\<lparr>rfs_cached := False, rfs_l1_free := [], rfs_l1_not_full := [], rfs_l1_all_free := [],
       rfs_l2_not_full := [], rfs_l2_all_free := []\<rparr>"

definition word_at :: "byte list \<Rightarrow> nat \<Rightarrow> u64w" where
  "word_at buf wi = of_nat (of_le (take 8 (drop (8 * wi) buf)))"

definition popcount64 :: "u64w \<Rightarrow> nat" where
  "popcount64 w = length (filter (bit w) [0 ..< 64])"

definition low_mask :: "nat \<Rightarrow> u64w" where
  "low_mask n = (if n = 64 then NOT 0 else push_bit n 1 - 1)"

text \<open>\<open>add\<close> more free sectors in group \<open>g\<close>, at most up to its size.\<close>

definition add_free :: "nat \<Rightarrow> nat list \<Rightarrow> nat \<Rightarrow> nat \<Rightarrow> nat list" where
  "add_free tot fcs g add =
     (let group_start = g * RFS_L1_GROUP_SECTORS;
          group_size = (if group_start + RFS_L1_GROUP_SECTORS \<le> tot then RFS_L1_GROUP_SECTORS
                        else tot - group_start);
          fc = fcs ! g
      in if fc < group_size then fcs[g := (fc + min add (group_size - fc)) mod 65536] else fcs)"

text \<open>The loop that distributes the free bits of one word over the groups it spans: the counters
  and \<^verbatim>\<open>pos\<close> afterwards.\<close>

lemma group_end_gt: "pos < (pos div RFS_L1_GROUP_SECTORS + 1) * RFS_L1_GROUP_SECTORS" for pos :: nat
  using dividend_less_div_times [of 4096 pos] by (simp add: RFS_L1_GROUP_SECTORS_def)

function spread_word ::
    "nat \<Rightarrow> nat \<Rightarrow> u64w \<Rightarrow> nat \<Rightarrow> nat list \<Rightarrow> nat \<Rightarrow> nat list \<times> nat" where
  "spread_word tot ngr word remaining fcs pos =
     (if word \<noteq> 0 \<and> remaining \<noteq> 0
      then let g = pos div RFS_L1_GROUP_SECTORS
           in if g \<ge> ngr then (fcs, pos)
              else let group_end = (g + 1) * RFS_L1_GROUP_SECTORS;
                       take = min remaining (group_end - pos);
                       seg = word AND low_mask take;
                       fcs = (if seg \<noteq> 0 then add_free tot fcs g (popcount64 seg) else fcs)
                   in spread_word tot ngr (drop_bit take word) (remaining - take) fcs (pos + take)
      else (fcs, pos))"
  by pat_completeness auto
termination
  by (relation "measure (\<lambda>(tot, ngr, word, remaining, fcs, pos). remaining)")
    (use group_end_gt in \<open>auto simp: min_def\<close>)

declare spread_word.simps [simp del]

text \<open>The loop over the full words of a chunk.  Its header adds 64 to \<^verbatim>\<open>pos\<close> also after a word that
  \<open>spread_word\<close> has already moved past.\<close>

fun count_words :: "nat \<Rightarrow> nat \<Rightarrow> byte list \<Rightarrow> nat list \<Rightarrow> nat list \<Rightarrow> nat \<Rightarrow> nat list \<times> nat" where
  "count_words tot ngr buf [] fcs pos = (fcs, pos)"
| "count_words tot ngr buf (wi # wis) fcs pos =
     (let word = NOT (word_at buf wi)
      in if word = 0 then count_words tot ngr buf wis fcs (pos + 64)
         else case spread_word tot ngr word 64 fcs pos of
                (fcs, pos) \<Rightarrow> count_words tot ngr buf wis fcs (pos + 64))"

definition count_chunk :: "nat \<Rightarrow> nat \<Rightarrow> byte list \<Rightarrow> nat \<Rightarrow> nat list \<Rightarrow> nat \<Rightarrow> nat list" where
  "count_chunk tot ngr buf bits_in_buf fcs bit_cursor =
     (let full_words = bits_in_buf div 64; tail_bits = bits_in_buf mod 64
      in case count_words tot ngr buf [0 ..< full_words] fcs bit_cursor of
           (fcs, pos) \<Rightarrow>
             if tail_bits \<noteq> 0
             then fst (spread_word tot ngr (NOT (word_at buf full_words) AND low_mask tail_bits)
                         tail_bits fcs pos)
             else fcs)"

text \<open>The loop that streams the bitmap.\<close>

function stream_map ::
    "'d device \<Rightarrow> 'd rfs \<Rightarrow> nat \<Rightarrow> nat \<Rightarrow> nat list \<Rightarrow> nat list option \<times> 'd rfs" where
  "stream_map dv r sector_off bit_cursor fcs =
     (let desc = the (rfs_desc r); map_len = ds_map_length desc; total_bits = rfs_total r
      in if sector_off < map_len \<and> bit_cursor < total_bits
         then let sectors_this = min (map_len - sector_off) RFS_MAP_READ_CHUNK_SECTORS;
                  bytes_this = sectors_this * RFS_SECTOR_SIZE;
                  io = rfs_read_device dv r (add64 (ds_map_start desc) sector_off) bytes_this
              in (case fst io of
                    None \<Rightarrow> (None, rfs_free_level_caches (snd io))
                  | Some buf \<Rightarrow>
                      let bits_in_buf = min (bytes_this * 8) (total_bits - bit_cursor);
                          fcs = count_chunk (rfs_total r) (rfs_l1_groups r) buf bits_in_buf fcs bit_cursor
                      in stream_map dv (r\<lparr>rfs_dev := rfs_dev (snd io), rfs_error := rfs_error (snd io)\<rparr>)
                           (sector_off + sectors_this) (bit_cursor + bits_in_buf) fcs)
         else (Some fcs, r))"
  by pat_completeness auto
termination
  by (relation "measure (\<lambda>(dv, r, sector_off, bit_cursor, fcs). ds_map_length (the (rfs_desc r)) - sector_off)")
    (auto simp: RFS_MAP_READ_CHUNK_SECTORS_def)

declare stream_map.simps [simp del]

definition derive_l1 :: "'d rfs \<Rightarrow> 'd rfs" where
  "derive_l1 r =
     fold (\<lambda>g r. let fc = rfs_l1_free r ! g
                 in r\<lparr>rfs_l1_not_full := bitset_set (rfs_l1_not_full r) g (fc > 0),
                      rfs_l1_all_free := bitset_set (rfs_l1_all_free r) g (fc = rfs_group_size r g)\<rparr>)
       [0 ..< rfs_l1_groups r] r"

definition fold_l2 :: "'d rfs \<Rightarrow> 'd rfs" where
  "fold_l2 r =
     fold (\<lambda>sg r. let g0 = sg * RFS_L2_GROUPS_PER_SUPER;
                      g1 = min (g0 + RFS_L2_GROUPS_PER_SUPER) (rfs_l1_groups r);
                      any_free = list_ex (\<lambda>g. bitset_get (rfs_l1_not_full r) g) [g0 ..< g1];
                      all_free = list_all (\<lambda>g. bitset_get (rfs_l1_all_free r) g) [g0 ..< g1]
                  in r\<lparr>rfs_l2_not_full := bitset_set (rfs_l2_not_full r) sg any_free,
                       rfs_l2_all_free := bitset_set (rfs_l2_all_free r) sg all_free\<rparr>)
       [0 ..< rfs_l2_groups r] r"

definition rfs_build_level_caches :: "'d device \<Rightarrow> 'd rfs \<Rightarrow> unit option \<times> 'd rfs" where
  "rfs_build_level_caches dv r =
     (if rfs_desc r = None then (None, r)
      else let l1_groups = (rfs_total r + RFS_L1_GROUP_SECTORS - 1) div RFS_L1_GROUP_SECTORS;
               l2_groups = (l1_groups + RFS_L2_GROUPS_PER_SUPER - 1) div RFS_L2_GROUPS_PER_SUPER;
               r1 = r\<lparr>rfs_l1_groups := l1_groups, rfs_l2_groups := l2_groups\<rparr>
           in case rfs_kmalloc r1 of
                (False, r2) \<Rightarrow> (None, r2)
              | (True, r2) \<Rightarrow>
                  let r3 = r2\<lparr>rfs_cached := True,
                              rfs_l1_free := replicate l1_groups 0,
                              rfs_l1_not_full := replicate (bitset_bytes l1_groups) 0,
                              rfs_l1_all_free := replicate (bitset_bytes l1_groups) 0,
                              rfs_l2_not_full := replicate (bitset_bytes l2_groups) 0,
                              rfs_l2_all_free := replicate (bitset_bytes l2_groups) 0\<rparr>
                  in and_then (stream_map dv r3 0 0 (rfs_l1_free r3))
                       (\<lambda>fcs r4. (Some (), fold_l2 (derive_l1 (r4\<lparr>rfs_l1_free := fcs\<rparr>)))))"

end
