(* ===== verification/RfsBits.thy ===== *)
theory RfsBits
  imports RfsMap
begin

text \<open>
  The bitmap routines of RetroFS on one map sector: marking a range of bits and counting the changes,
  counting free bits, finding a run of free bits, and the prefix of free bits.
\<close>

section \<open>Bits of a byte\<close>

lemma bit_span_mask:
  assumes "off + span \<le> 8"
  shows "bit (span_mask span off) i \<longleftrightarrow> off \<le> i \<and> i < off + span"
proof -
  have "push_bit span 1 - 1 = (mask span :: byte)" by (simp add: mask_eq_exp_minus_1)
  then show ?thesis using assms by (auto simp: span_mask_def bit_push_bit_iff bit_mask_iff)
qed

lemma buf_bit_update:
  assumes "k < length buf"
  shows "buf_bit (buf[k := v]) i = (if i div 8 = k then bit v (i mod 8) else buf_bit buf i)"
  using assms by (auto simp: buf_bit_def)

lemma map_plus_upt: "map ((+) base) [a ..< b] = [base + a ..< base + b]"
  by (rule nth_equalityI) simp_all

lemma popcount8_filter:
  assumes "off + span \<le> 8"
    and "\<And>i. i < 8 \<Longrightarrow> bit w i \<longleftrightarrow> off \<le> i \<and> i < off + span \<and> P (base + i)"
  shows "popcount8 w = length (filter P [base + off ..< base + off + span])"
proof -
  have "[0 ..< 8] = [0 ..< off] @ [off ..< off + span] @ [off + span ..< 8]"
    using assms(1) upt_add_eq_append [of 0 off "8 - off"] upt_add_eq_append [of off "off + span" "8 - (off + span)"]
    by simp
  moreover have "filter (bit w) [0 ..< off] = []" "filter (bit w) [off + span ..< 8] = []"
    using assms by (auto simp: filter_empty_conv)
  moreover have "filter (bit w) [off ..< off + span] = filter (\<lambda>i. P (base + i)) [off ..< off + span]"
    using assms by (intro filter_cong) auto
  ultimately have "popcount8 w = length (filter (\<lambda>i. P (base + i)) [off ..< off + span])"
    unfolding popcount8_def by (simp only: filter_append append_Nil append_Nil2)
  also have "\<dots> = length (filter P (map ((+) base) [off ..< off + span]))"
    by (simp add: filter_map comp_def)
  finally show ?thesis by (simp only: map_plus_upt add.assoc)
qed

section \<open>Marking\<close>

lemma if_split_merge:
  fixes e b hi i :: nat
  assumes "v = (if e \<le> i \<and> i < hi then u else w)" "w = (if b \<le> i \<and> i < e then u else z)" "b \<le> e" "e \<le> hi"
  shows "v = (if b \<le> i \<and> i < hi then u else z)"
  using assms by auto

lemma mark_bits_eq:
  assumes "hi \<le> 8 * length buf" "mark_bits u b hi buf t = (buf', t')"
  shows "length buf' = length buf \<and>
    (\<forall>i. buf_bit buf' i = (if b \<le> i \<and> i < hi then u else buf_bit buf i)) \<and>
    t' = t + length (filter (\<lambda>i. buf_bit buf i \<noteq> u) [b ..< hi])"
  using assms
proof (induction u b hi buf t rule: mark_bits.induct)
  case (1 u b hi buf t)
  show ?case
  proof (cases "b < hi")
    case False
    then show ?thesis using 1(3) by (subst (asm) mark_bits.simps) auto
  next
    case True
    let ?k = "b div 8" and ?o = "b mod 8"
    let ?span = "min (8 - ?o) (hi - b)"
    let ?m = "span_mask ?span ?o" and ?w = "buf ! ?k"
    let ?after = "if u then ?w OR ?m else ?w AND NOT ?m"
    let ?delta = "if u then NOT ?w AND ?m else ?w AND ?m"
    let ?buf = "buf[?k := ?after]"
    have o: "?o < 8" "?o + ?span \<le> 8" by auto
    have k: "?k < length buf" using True 1(2) by (simp add: less_mult_imp_div_less mult.commute)
    have b8: "b = 8 * ?k + ?o" by simp
    have inr: "b \<le> i \<and> i < b + ?span \<longleftrightarrow> i div 8 = ?k \<and> ?o \<le> i mod 8 \<and> i mod 8 < ?o + ?span" for i
    proof -
      have i8: "i = 8 * (i div 8) + i mod 8" "i mod 8 < 8" by simp_all
      show ?thesis (is "?L \<longleftrightarrow> ?R")
      proof
        assume L: ?L
        then have "i div 8 = ?k" using b8 o i8 by linarith
        then show ?R using L b8 i8 by linarith
      next
        assume ?R
        then show ?L using b8 i8 by linarith
      qed
    qed
    have bits: "buf_bit ?buf i = (if b \<le> i \<and> i < b + ?span then u else buf_bit buf i)" for i
      unfolding buf_bit_update [OF k] inr by (auto simp: bit_simps bit_span_mask [OF o(2)] buf_bit_def)
    have delta: "popcount8 ?delta = length (filter (\<lambda>i. buf_bit buf i \<noteq> u) [b ..< b + ?span])"
    proof -
      have "bit ?delta i \<longleftrightarrow> ?o \<le> i \<and> i < ?o + ?span \<and> (buf_bit buf (8 * ?k + i) \<noteq> u)" if "i < 8" for i
        using that by (auto simp: bit_simps bit_span_mask [OF o(2)] buf_bit_def)
      then show ?thesis
        using popcount8_filter [OF o(2), of ?delta "\<lambda>i. buf_bit buf i \<noteq> u" "8 * ?k"] b8 by simp
    qed
    have step: "mark_bits u (b + ?span) hi ?buf (t + popcount8 ?delta) = (buf', t')"
      using 1(3) True by (subst (asm) mark_bits.simps) (simp only: if_True Let_def)
    have IH: "length buf' = length ?buf \<and>
      (\<forall>i. buf_bit buf' i = (if b + ?span \<le> i \<and> i < hi then u else buf_bit ?buf i)) \<and>
      t' = t + popcount8 ?delta + length (filter (\<lambda>i. buf_bit ?buf i \<noteq> u) [b + ?span ..< hi])"
      by (rule 1(1) [OF True refl refl refl refl refl refl refl _ step]) (use 1(2) in simp)
    have sp: "b + ?span \<le> hi" using True by auto
    then have split: "[b ..< hi] = [b ..< b + ?span] @ [b + ?span ..< hi]"
      using upt_add_eq_append [of b "b + ?span" "hi - (b + ?span)"] by simp
    have rest: "filter (\<lambda>i. buf_bit ?buf i \<noteq> u) [b + ?span ..< hi] = filter (\<lambda>i. buf_bit buf i \<noteq> u) [b + ?span ..< hi]"
      by (intro filter_cong refl) (use bits in auto)
    have all: "buf_bit buf' i = (if b \<le> i \<and> i < hi then u else buf_bit buf i)" for i
      by (rule if_split_merge [where e = "b + ?span" and b = b, OF spec [OF conjunct1 [OF conjunct2 [OF IH]]] bits le_add1 sp])
    have "t' = t + length (filter (\<lambda>i. buf_bit buf i \<noteq> u) [b ..< hi])"
      unfolding split filter_append length_append delta [symmetric] rest [symmetric] using IH by linarith
    moreover have "length buf' = length buf" using IH by (simp only: length_list_update)
    ultimately show ?thesis using all by blast
  qed
qed

section \<open>Counting free bits\<close>

definition free_bits :: "byte list \<Rightarrow> nat \<Rightarrow> nat" where
  "free_bits buf n = length (filter (\<lambda>i. \<not> buf_bit buf i) [0 ..< n])"

lemma free_bits_le: "free_bits buf n \<le> n"
  using length_filter_le [of "\<lambda>i. \<not> buf_bit buf i" "[0 ..< n]"] by (simp add: free_bits_def)

lemma free_bits_all: "free_bits buf n = n \<longleftrightarrow> (\<forall>i<n. \<not> buf_bit buf i)"
proof -
  have "free_bits buf n = n \<longleftrightarrow> filter (\<lambda>i. \<not> buf_bit buf i) [0 ..< n] = [0 ..< n]"
    unfolding free_bits_def by (metis diff_zero filter_True filter_id_conv length_filter_less length_upt nat_neq_iff)
  then show ?thesis by (auto simp: filter_id_conv)
qed

lemma free_bits_none: "free_bits buf n = 0 \<longleftrightarrow> (\<forall>i<n. buf_bit buf i)"
  by (auto simp: free_bits_def filter_empty_conv)

lemma free_bits_mark:
  assumes "\<forall>i. buf_bit buf' i = (if lo \<le> i \<and> i < hi then u else buf_bit buf i)" "lo \<le> hi" "hi \<le> n"
  defines "t \<equiv> length (filter (\<lambda>i. buf_bit buf i \<noteq> u) [lo ..< hi])"
  shows "if u then free_bits buf n = free_bits buf' n + t else free_bits buf' n = free_bits buf n + t"
proof -
  have split: "[0 ..< n] = [0 ..< lo] @ [lo ..< hi] @ [hi ..< n]"
    using assms(2,3) upt_add_eq_append [of 0 lo "n - lo"] upt_add_eq_append [of lo hi "n - hi"] by simp
  let ?P = "\<lambda>i. \<not> buf_bit buf i" and ?Q = "\<lambda>i. \<not> buf_bit buf' i"
  have "filter ?Q [0 ..< lo] = filter ?P [0 ..< lo]" "filter ?Q [hi ..< n] = filter ?P [hi ..< n]"
    using assms(1) by (auto intro!: filter_cong)
  moreover have "filter ?Q [lo ..< hi] = (if u then [] else [lo ..< hi])"
    using assms(1) by (auto simp: filter_empty_conv filter_id_conv)
  moreover have "length (filter ?P [lo ..< hi]) + length (filter (\<lambda>i. buf_bit buf i) [lo ..< hi]) = hi - lo"
    using sum_length_filter_compl [of "\<lambda>i. buf_bit buf i" "[lo ..< hi]"] by simp
  ultimately show ?thesis
    unfolding free_bits_def t_def split by (auto simp: filter_append)
qed

section \<open>Runs of free bits\<close>

lemma find_run_sound:
  assumes "find_run buf n need b run rs = Some k" "run \<le> b" "0 < need"
    and "run > 0 \<Longrightarrow> rs = b - run" "\<forall>i. b - run \<le> i \<and> i < b \<longrightarrow> \<not> buf_bit buf i" "run < need"
  shows "k + need \<le> n \<and> (\<forall>i. k \<le> i \<and> i < k + need \<longrightarrow> \<not> buf_bit buf i)"
  using assms
proof (induction buf n need b run rs rule: find_run.induct)
  case (1 buf n need b run rs)
  have bn: "b < n" using 1(3) by (subst (asm) find_run.simps) (simp split: if_splits)
  show ?case
  proof (cases "buf_bit buf b")
    case True
    then have "find_run buf n need (b + 1) 0 rs = Some k"
      using 1(3) bn by (subst (asm) find_run.simps) simp
    moreover have "\<forall>i. b + 1 - 0 \<le> i \<and> i < b + 1 \<longrightarrow> \<not> buf_bit buf i" by auto
    ultimately show ?thesis using 1(2) [OF bn] True 1(5) by blast
  next
    case False
    let ?rs = "if run = 0 then b else rs"
    have rs: "?rs = b + 1 - (run + 1)" using 1(6) by auto
    have free: "\<forall>i. b + 1 - (run + 1) \<le> i \<and> i < b + 1 \<longrightarrow> \<not> buf_bit buf i"
      using 1(7) False by (auto simp: less_Suc_eq)
    show ?thesis
    proof (cases "run + 1 \<ge> need")
      case True
      then have "k = ?rs" using 1(3) bn False by (subst (asm) find_run.simps) (simp add: Let_def)
      moreover have "run + 1 = need" using True 1(8) by simp
      ultimately show ?thesis using rs free bn 1(4) by auto
    next
      case less: False
      then have "find_run buf n need (b + 1) (run + 1) ?rs = Some k"
        using 1(3) bn False by (subst (asm) find_run.simps) (simp add: Let_def)
      then show ?thesis using 1(1) [OF bn] False less rs free 1(4,5) by simp
    qed
  qed
qed

lemma find_run_complete:
  assumes "find_run buf n need b run rs = None" "0 < need" "run < need" "run \<le> b"
    and "b - run \<le> k" "k + need \<le> n"
  shows "\<exists>i. k \<le> i \<and> i < k + need \<and> b \<le> i \<and> buf_bit buf i"
  using assms
proof (induction buf n need b run rs rule: find_run.induct)
  case (1 buf n need b run rs)
  have bn: "b < n" using 1(4,5,6,7,8) by linarith
  show ?case
  proof (cases "buf_bit buf b")
    case True
    then have f: "find_run buf n need (b + 1) 0 rs = None"
      using 1(3) bn by (subst (asm) find_run.simps) simp
    show ?thesis
    proof (cases "k \<le> b")
      case True
      then show ?thesis using \<open>buf_bit buf b\<close> 1(5,6,7) by (intro exI [of _ b]) linarith
    next
      case False
      then have "\<exists>i. k \<le> i \<and> i < k + need \<and> b + 1 \<le> i \<and> buf_bit buf i"
        using 1(2) [OF bn] True f 1(4,8) by auto
      then show ?thesis by auto
    qed
  next
    case False
    then have less: "\<not> need \<le> run + 1"
      and f: "find_run buf n need (b + 1) (run + 1) (if run = 0 then b else rs) = None"
      using 1(3) bn by (subst (asm) find_run.simps, simp add: Let_def split: if_splits)+
    have "\<exists>i. k \<le> i \<and> i < k + need \<and> b + 1 \<le> i \<and> buf_bit buf i"
      using 1(1) [OF bn] False less f 1(4,6,7,8) by auto
    then show ?thesis by auto
  qed
qed

lemma group_find_run:
  assumes "0 < need"
  shows "case rfs_group_find_run_from buf n 0 need of
      None \<Rightarrow> \<forall>k. k + need \<le> n \<longrightarrow> (\<exists>i. k \<le> i \<and> i < k + need \<and> buf_bit buf i)
    | Some k \<Rightarrow> k + need \<le> n \<and> (\<forall>i. k \<le> i \<and> i < k + need \<longrightarrow> \<not> buf_bit buf i)"
proof (cases "rfs_group_find_run_from buf n 0 need")
  case None
  show ?thesis
  proof (cases "n = 0")
    case True
    then show ?thesis using None assms by simp
  next
    case False
    then have "find_run buf n need 0 0 0 = None"
      using None assms by (simp add: rfs_group_find_run_from_def split: if_splits)
    then show ?thesis using find_run_complete [of buf n need 0 0 0] assms None by fastforce
  qed
next
  case (Some k)
  then have "find_run buf n need 0 0 0 = Some k"
    using assms by (simp add: rfs_group_find_run_from_def split: if_splits)
  then show ?thesis using find_run_sound [of buf n need 0 0 0 k] assms Some by auto
qed

section \<open>The free prefix\<close>

lemma zero_byte: "buf ! (b div 8) = 0 \<Longrightarrow> 8 dvd b \<Longrightarrow> b \<le> i \<Longrightarrow> i < b + 8 \<Longrightarrow> \<not> buf_bit buf i"
proof -
  assume a: "buf ! (b div 8) = 0" "8 dvd b" "b \<le> i" "i < b + 8"
  then have "i div 8 = b div 8" by (auto elim!: dvdE simp: div_nat_eqI)
  then show "\<not> buf_bit buf i" using a(1) by (simp add: buf_bit_def)
qed

lemma prefix_bytes_eq:
  assumes "8 dvd b" "b \<le> n"
  shows "8 dvd prefix_bytes buf n b \<and> b \<le> prefix_bytes buf n b \<and> prefix_bytes buf n b \<le> n \<and>
    (\<forall>i. b \<le> i \<and> i < prefix_bytes buf n b \<longrightarrow> \<not> buf_bit buf i)"
  using assms
proof (induction buf n b rule: prefix_bytes.induct)
  case (1 buf n b)
  show ?case
  proof (cases "b + 8 \<le> n \<and> buf ! (b div 8) = 0")
    case True
    then have p: "prefix_bytes buf n b = prefix_bytes buf n (b + 8)" by (subst prefix_bytes.simps) simp
    have IH: "8 dvd prefix_bytes buf n (b + 8) \<and> b + 8 \<le> prefix_bytes buf n (b + 8) \<and>
        prefix_bytes buf n (b + 8) \<le> n \<and>
        (\<forall>i. b + 8 \<le> i \<and> i < prefix_bytes buf n (b + 8) \<longrightarrow> \<not> buf_bit buf i)"
      using 1 True by simp
    show ?thesis unfolding p using IH zero_byte [of buf b] True 1(2)
      by (metis add_leD1 not_le)
  next
    case False
    then have "prefix_bytes buf n b = b" by (subst prefix_bytes.simps) auto
    then show ?thesis using 1(2,3) by auto
  qed
qed

lemma prefix_bytes_idem: "prefix_bytes buf n (prefix_bytes buf n c) = prefix_bytes buf n c"
proof (induction buf n c rule: prefix_bytes.induct)
  case (1 buf n c)
  show ?case
  proof (cases "c + 8 \<le> n \<and> buf ! (c div 8) = 0")
    case True
    then have "prefix_bytes buf n c = prefix_bytes buf n (c + 8)" by (subst prefix_bytes.simps) simp
    then show ?thesis using 1 [OF True] by simp
  next
    case False
    then have "prefix_bytes buf n c = c" by (subst prefix_bytes.simps) auto
    then show ?thesis by simp
  qed
qed

lemma prefix_shift_eq:
  assumes "\<And>j. bit x j = (j < 8 - off \<and> buf_bit buf (b + j))" "b \<le> n"
    and "\<exists>j. bit x j" "b + (8 - off) \<le> n"
  shows "b \<le> prefix_shift x n b \<and> prefix_shift x n b < n \<and> buf_bit buf (prefix_shift x n b) \<and>
    (\<forall>i. b \<le> i \<and> i < prefix_shift x n b \<longrightarrow> \<not> buf_bit buf i)"
  using assms
proof (induction x n b arbitrary: off rule: prefix_shift.induct)
  case (1 x n b)
  obtain j where j: "bit x j" using 1(4) by blast
  then have j8: "j < 8 - off" using 1(2) [of j] by simp
  then have lt: "b < n" using 1(5) by linarith
  show ?case
  proof (cases "bit x 0")
    case True
    then have "prefix_shift x n b = b" by (subst prefix_shift.simps) simp
    moreover have "buf_bit buf b" using 1(2) [of 0] True by simp
    ultimately show ?thesis using lt by auto
  next
    case False
    have p: "prefix_shift x n b = prefix_shift (drop_bit 1 x) n (b + 1)"
      using False lt by (subst prefix_shift.simps) simp
    have j0: "j \<noteq> 0" using j False by metis
    have nb: "\<not> buf_bit buf b" using 1(2) [of 0] False j8 by simp
    have "b + 1 \<le> prefix_shift (drop_bit 1 x) n (b + 1) \<and> prefix_shift (drop_bit 1 x) n (b + 1) < n \<and>
        buf_bit buf (prefix_shift (drop_bit 1 x) n (b + 1)) \<and>
        (\<forall>i. b + 1 \<le> i \<and> i < prefix_shift (drop_bit 1 x) n (b + 1) \<longrightarrow> \<not> buf_bit buf i)"
    proof (rule 1(1) [where off = "off + 1"])
      show "b < n \<and> \<not> bit x 0" using lt False by simp
      show "bit (drop_bit 1 x) j = (j < 8 - (off + 1) \<and> buf_bit buf (b + 1 + j))" for j
        using 1(2) [of "Suc j"] by (auto simp: bit_drop_bit_eq)
      show "\<exists>j. bit (drop_bit 1 x) j"
        using j j0(1) by (intro exI [of _ "j - 1"]) (simp add: bit_drop_bit_eq)
    qed (use lt 1(5) j8 in auto)
    then show ?thesis unfolding p using nb by (auto simp: Suc_le_eq nat_less_le)
  qed
qed

lemma prefix_bits_eq:
  assumes "b \<le> n" "\<forall>i<b. \<not> buf_bit buf i"
  shows "prefix_bits buf n b \<le> n \<and> (\<forall>i<prefix_bits buf n b. \<not> buf_bit buf i) \<and>
    (prefix_bits buf n b < n \<longrightarrow> buf_bit buf (prefix_bits buf n b))"
  using assms
proof (induction buf n b rule: prefix_bits.induct)
  case (1 buf n b)
  show ?case
  proof (cases "b < n \<and> \<not> buf_bit buf b")
    case True
    then have "prefix_bits buf n b = prefix_bits buf n (b + 1)" by (subst prefix_bits.simps) simp
    then show ?thesis using 1 True by (simp add: less_Suc_eq)
  next
    case False
    then have "prefix_bits buf n b = b" by (subst prefix_bits.simps) auto
    then show ?thesis using 1 False by auto
  qed
qed

lemma group_prefix_free_eq:
  "group_prefix_free buf n \<le> n \<and> (\<forall>i<group_prefix_free buf n. \<not> buf_bit buf i) \<and>
    (group_prefix_free buf n < n \<longrightarrow> buf_bit buf (group_prefix_free buf n))"
proof -
  let ?b = "prefix_bytes buf n 0"
  have b: "8 dvd ?b" "?b \<le> n" "\<forall>i<?b. \<not> buf_bit buf i" using prefix_bytes_eq [of 0 n buf] by auto
  show ?thesis
  proof (cases "?b + 8 \<le> n")
    case False
    then show ?thesis using prefix_bits_eq [OF b(2,3)] by (simp add: group_prefix_free_def Let_def)
  next
    case True
    let ?x = "buf ! (?b div 8)"
    have nz: "?x \<noteq> 0"
    proof
      assume "?x = 0"
      then have "prefix_bytes buf n ?b = prefix_bytes buf n (?b + 8)"
        using True by (subst prefix_bytes.simps) simp
      moreover have "prefix_bytes buf n ?b = ?b" by (rule prefix_bytes_idem)
      moreover have "?b + 8 \<le> prefix_bytes buf n (?b + 8)"
        using prefix_bytes_eq [of "?b + 8" n buf] b(1) True by simp
      ultimately show False by simp
    qed
    then obtain j where "bit ?x j" by (metis bit_0_eq bit_eqI bot2E bot_apply)
    obtain m where m: "?b = 8 * m" using b(1) by (rule dvdE)
    have "bit ?x j = (j < 8 - 0 \<and> buf_bit buf (?b + j))" for j
    proof (cases "j < 8")
      case True
      then have "(?b + j) div 8 = ?b div 8" "(?b + j) mod 8 = j" unfolding m by simp_all
      then show ?thesis using True by (simp add: buf_bit_def)
    next
      case False
      then show ?thesis using bit_imp_le_length [of ?x j] by auto
    qed
    then have s: "?b \<le> prefix_shift ?x n ?b \<and> prefix_shift ?x n ?b < n \<and>
        (\<forall>i. ?b \<le> i \<and> i < prefix_shift ?x n ?b \<longrightarrow> \<not> buf_bit buf i)"
      using prefix_shift_eq [of ?x 0 buf ?b n] True b(2) \<open>bit ?x j\<close> by auto
    then have "\<forall>i<prefix_shift ?x n ?b. \<not> buf_bit buf i" using b(3) by (metis not_le)
    then show ?thesis using prefix_bits_eq [of "prefix_shift ?x n ?b" n buf] s True
      by (simp add: group_prefix_free_def Let_def)
  qed
qed

end
