(* ===== verification/RfsDisk.thy ===== *)
theory RfsDisk
  imports RfsBits
begin

text \<open>
  The interface between RetroFS and the storage layer.  The locale \<open>rfs_disk\<close> states what a volume
  relies on: a request inside the device either succeeds or fails and leaves the sectors alone (a write that fails
  halfway is not described; the RAM disk, on which the locale is interpreted, has none), and
  clearing touches no sector outside its range.  \<open>reliable_disk\<close> adds that reads and writes succeed.  Both
  are interpreted on the storage layer over a RAM disk, with or without its sector cache.
\<close>

section \<open>The storage layer as a device\<close>

text \<open>The requests of \<^verbatim>\<open>helpers.c\<close> on the device with the given name.\<close>

definition storage_dev :: "byte list \<Rightarrow> 'd storage device" where
  "storage_dev name =
     \<lparr>d_read = (\<lambda>st s n. case read_storage_device name st s n of None \<Rightarrow> (None, st) | Some p \<Rightarrow> p),
      d_write = (\<lambda>st s n xs. case write_storage_device name st s n xs of None \<Rightarrow> (False, st) | Some p \<Rightarrow> p),
      d_clear = (\<lambda>st s n. case storage_device_clear_blocks st name s n of None \<Rightarrow> (False, st) | Some p \<Rightarrow> p)\<rparr>"

definition no_clear :: "byte list \<Rightarrow> 'd storage \<Rightarrow> bool" where
  "no_clear name st \<longleftrightarrow> (case find_storage_device st name of None \<Rightarrow> True | Some d \<Rightarrow> sd_blockclear d = None)"

lemma no_clear_step [simp]:
  "no_clear name (st\<lparr>st_driver := x\<rparr>) = no_clear name st"
  "no_clear name (st\<lparr>st_error := e\<rparr>) = no_clear name st"
  by (simp_all add: no_clear_def)

lemma no_clear_cache [simp]: "find_storage_device st name = Some d \<Longrightarrow>
  no_clear name (set_cache st name c) = no_clear name st"
  by (simp add: no_clear_def find_set_cache)

lemma no_clear_read:
  assumes "no_clear name st" "read_storage_device name st s n = Some (r, st')"
  shows "no_clear name st'"
  using assms unfolding read_storage_device_def
  by (auto split: option.splits prod.splits)

lemma no_clear_write:
  assumes "no_clear name st" "write_storage_device name st s n xs = Some (r, st')"
  shows "no_clear name st'"
  using assms unfolding write_storage_device_def
  by (auto split: option.splits prod.splits bool.splits)

section \<open>The disk interface\<close>

text \<open>Sector \<open>k\<close> of a volume.\<close>

definition vsec :: "('d \<Rightarrow> nat \<Rightarrow> byte list) \<Rightarrow> 'd rfs \<Rightarrow> nat \<Rightarrow> byte list" where
  "vsec sector r k = sector (rfs_dev r) (rfs_start r + k)"

definition vol_ok :: "('d \<Rightarrow> bool) \<Rightarrow> nat \<Rightarrow> 'd rfs \<Rightarrow> bool" where
  "vol_ok ok nblk r \<longleftrightarrow> ok (rfs_dev r) \<and> rfs_start r + rfs_total r \<le> nblk"

text \<open>Requests of the filesystem are whole sectors, and short enough for a 32-bit size.\<close>

definition io_size :: "nat \<Rightarrow> bool" where
  "io_size n \<longleftrightarrow> 0 < n \<and> n * 512 + 512 < U32"

lemma get_vsec:
  "get_sectors (sector (rfs_dev r)) (rfs_start r + s) n = get_sectors (vsec sector r) s n"
proof -
  have "map (sector (rfs_dev r)) [rfs_start r + s ..< rfs_start r + s + n] = map (vsec sector r) [s ..< s + n]"
    by (rule nth_equalityI) (simp_all add: vsec_def add.assoc)
  then show ?thesis unfolding get_sectors_def by (rule arg_cong)
qed

lemma put_vsec:
  "sector d = put_sectors 512 (sector (rfs_dev r)) (rfs_start r + s) xs \<Longrightarrow>
   vsec sector (r\<lparr>rfs_dev := d\<rparr>) = put_sectors 512 (vsec sector r) s xs"
  by (rule ext) (simp add: vsec_def put_sectors_def)

locale rfs_disk =
  fixes dv :: "'d device" and ok :: "'d \<Rightarrow> bool" and nblk :: nat and sector :: "'d \<Rightarrow> nat \<Rightarrow> byte list"
  assumes disk_size: "ok d \<Longrightarrow> nblk < W64"
    and disk_sector: "ok d \<Longrightarrow> k < nblk \<Longrightarrow> length (sector d k) = 512"
    and disk_read: "ok d \<Longrightarrow> io_size n \<Longrightarrow> s + n \<le> nblk \<Longrightarrow>
      \<exists>res d'. d_read dv d s (n * 512) = (res, d') \<and> ok d' \<and> sector d' = sector d \<and>
        (res = None \<or> res = Some (get_sectors (sector d) s n))"
    and disk_write: "ok d \<Longrightarrow> io_size n \<Longrightarrow> s + n \<le> nblk \<Longrightarrow> length xs = n * 512 \<Longrightarrow>
      \<exists>res d'. d_write dv d s (n * 512) xs = (res, d') \<and> ok d' \<and>
        sector d' = (if res then put_sectors 512 (sector d) s xs else sector d)"
    and disk_clear: "ok d \<Longrightarrow> io_size n \<Longrightarrow> s + n \<le> nblk \<Longrightarrow>
      \<exists>res d'. d_clear dv d s (n * 512) = (res, d') \<and> ok d' \<and>
        (\<forall>k. k < s \<or> s + n \<le> k \<longrightarrow> sector d' k = sector d k)"
begin

lemma volume_bounds:
  assumes "vol_ok ok nblk r" "s + n \<le> rfs_total r"
  shows "add64 s n = s + n" "add64 (rfs_start r) s = rfs_start r + s" "rfs_start r + s + n \<le> nblk"
  using assms disk_size [of "rfs_dev r"] by (auto simp: vol_ok_def add64_nowrap)

lemma vsec_length: "vol_ok ok nblk r \<Longrightarrow> k < rfs_total r \<Longrightarrow> length (vsec sector r k) = 512"
  using disk_sector [of "rfs_dev r" "rfs_start r + k"] by (simp add: vol_ok_def vsec_def)

lemma rfs_read_ok:
  assumes "vol_ok ok nblk r" "io_size n" "s + n \<le> rfs_total r"
  shows "\<exists>res d. rfs_read_device dv r s (n * 512) = (res, r\<lparr>rfs_dev := d\<rparr>) \<and> ok d \<and>
    sector d = sector (rfs_dev r) \<and> (res = None \<or> res = Some (get_sectors (vsec sector r) s n))"
proof -
  have b: "add64 s n = s + n" "add64 (rfs_start r) s = rfs_start r + s" "rfs_start r + s + n \<le> nblk"
    by (rule volume_bounds [OF assms(1,3)])+
  have "n * 512 mod U32 = n * 512" using assms(2) by (simp add: io_size_def)
  moreover obtain res d where "d_read dv (rfs_dev r) (rfs_start r + s) (n * 512) = (res, d)" "ok d"
    "sector d = sector (rfs_dev r)" "res = None \<or> res = Some (get_sectors (vsec sector r) s n)"
    using disk_read [OF _ assms(2) b(3), of "rfs_dev r"] assms(1) unfolding get_vsec by (auto simp: vol_ok_def)
  ultimately show ?thesis
    using assms(3) b by (auto simp: rfs_read_device_def RFS_SECTOR_SIZE_def Let_def)
qed

lemma rfs_write_ok:
  assumes "vol_ok ok nblk r" "io_size n" "s + n \<le> rfs_total r" "length xs = n * 512"
  shows "\<exists>res d. rfs_write_device dv r s (n * 512) xs = (res, r\<lparr>rfs_dev := d\<rparr>) \<and> ok d \<and>
    vsec sector (r\<lparr>rfs_dev := d\<rparr>) = (if res = None then vsec sector r else put_sectors 512 (vsec sector r) s xs)"
proof -
  have b: "add64 s n = s + n" "add64 (rfs_start r) s = rfs_start r + s" "rfs_start r + s + n \<le> nblk"
    by (rule volume_bounds [OF assms(1,3)])+
  have "n * 512 mod U32 = n * 512" using assms(2) by (simp add: io_size_def)
  moreover obtain res d where d: "d_write dv (rfs_dev r) (rfs_start r + s) (n * 512) xs = (res, d)" "ok d"
    "sector d = (if res then put_sectors 512 (sector (rfs_dev r)) (rfs_start r + s) xs else sector (rfs_dev r))"
    using disk_write [OF _ assms(2) b(3) assms(4), of "rfs_dev r"] assms(1) by (auto simp: vol_ok_def)
  moreover have "vsec sector (r\<lparr>rfs_dev := d\<rparr>) = (if res then put_sectors 512 (vsec sector r) s xs else vsec sector r)"
    using d(3) put_vsec [of sector d r s xs] by (auto simp: vsec_def)
  ultimately show ?thesis
    using assms(3) b by (auto simp: rfs_write_device_def RFS_SECTOR_SIZE_def Let_def)
qed

lemma rfs_clear_ok:
  assumes "vol_ok ok nblk r" "io_size n" "s + n \<le> rfs_total r"
  shows "\<exists>res d. rfs_clear_device dv r s (n * 512) = (res, r\<lparr>rfs_dev := d\<rparr>) \<and> ok d \<and>
    (\<forall>k. k < s \<or> s + n \<le> k \<longrightarrow> vsec sector (r\<lparr>rfs_dev := d\<rparr>) k = vsec sector r k)"
proof -
  have b: "add64 s n = s + n" "add64 (rfs_start r) s = rfs_start r + s" "rfs_start r + s + n \<le> nblk"
    by (rule volume_bounds [OF assms(1,3)])+
  have "n * 512 mod U32 = n * 512" using assms(2) by (simp add: io_size_def)
  moreover obtain res d where "d_clear dv (rfs_dev r) (rfs_start r + s) (n * 512) = (res, d)" "ok d"
    "\<forall>k. k < rfs_start r + s \<or> rfs_start r + s + n \<le> k \<longrightarrow> sector d k = sector (rfs_dev r) k"
    using disk_clear [OF _ assms(2) b(3), of "rfs_dev r"] assms(1) by (auto simp: vol_ok_def)
  ultimately show ?thesis
    using assms(3) b by (auto simp: rfs_clear_device_def RFS_SECTOR_SIZE_def Let_def vsec_def)
qed

end

locale reliable_disk = rfs_disk +
  assumes disk_reads: "ok d \<Longrightarrow> io_size n \<Longrightarrow> s + n \<le> nblk \<Longrightarrow> fst (d_read dv d s (n * 512)) \<noteq> None"
    and disk_writes: "ok d \<Longrightarrow> io_size n \<Longrightarrow> s + n \<le> nblk \<Longrightarrow> length xs = n * 512 \<Longrightarrow>
      fst (d_write dv d s (n * 512) xs)"
begin

lemma rfs_reads:
  assumes "vol_ok ok nblk r" "io_size n" "s + n \<le> rfs_total r"
  shows "\<exists>d. rfs_read_device dv r s (n * 512) = (Some (get_sectors (vsec sector r) s n), r\<lparr>rfs_dev := d\<rparr>) \<and>
    ok d \<and> sector d = sector (rfs_dev r)"
proof -
  have b: "add64 s n = s + n" "add64 (rfs_start r) s = rfs_start r + s" "rfs_start r + s + n \<le> nblk"
    by (rule volume_bounds [OF assms(1,3)])+
  have "n * 512 mod U32 = n * 512" using assms(2) by (simp add: io_size_def)
  then have "fst (rfs_read_device dv r s (n * 512)) \<noteq> None"
    using disk_reads [OF _ assms(2) b(3), of "rfs_dev r"] assms(1,3) b
    by (auto simp: rfs_read_device_def RFS_SECTOR_SIZE_def Let_def vol_ok_def split: prod.splits)
  then show ?thesis using rfs_read_ok [OF assms] by auto
qed

lemma rfs_writes:
  assumes "vol_ok ok nblk r" "io_size n" "s + n \<le> rfs_total r" "length xs = n * 512"
  shows "\<exists>d. rfs_write_device dv r s (n * 512) xs = (Some (), r\<lparr>rfs_dev := d\<rparr>) \<and> ok d \<and>
    vsec sector (r\<lparr>rfs_dev := d\<rparr>) = put_sectors 512 (vsec sector r) s xs"
proof -
  have b: "add64 s n = s + n" "add64 (rfs_start r) s = rfs_start r + s" "rfs_start r + s + n \<le> nblk"
    by (rule volume_bounds [OF assms(1,3)])+
  have "n * 512 mod U32 = n * 512" using assms(2) by (simp add: io_size_def)
  then have "fst (rfs_write_device dv r s (n * 512) xs) \<noteq> None"
    using disk_writes [OF _ assms(2) b(3) assms(4), of "rfs_dev r"] assms(1,3) b
    by (auto simp: rfs_write_device_def RFS_SECTOR_SIZE_def Let_def vol_ok_def split: prod.splits)
  then show ?thesis using rfs_write_ok [OF assms] by auto
qed

end

section \<open>The storage layer is such a disk\<close>

definition ramdisk_stack :: "byte list \<Rightarrow> nat \<Rightarrow> byte list \<Rightarrow> ramdisks storage \<Rightarrow> bool" where
  "ramdisk_stack rname nb name st \<longleftrightarrow>
     storage_ok (ramdisk_ok rname 512 nb) 512 nb (ramdisk_sector rname 512)
       (rd_block_read rname 512) (rd_block_write rname 512) name st \<and> no_clear name st"

interpretation rd: reliable_disk "storage_dev name" "ramdisk_stack rname nb name" nb
    "\<lambda>st. ramdisk_sector rname 512 (st_driver st)" for rname nb name
proof (unfold_locales, goal_cases)
  case (1 d) then show ?case using rs.stor.nblk unfolding ramdisk_stack_def by blast
next
  case (2 d k) then show ?case using rs.stor.sector_len unfolding ramdisk_stack_def by blast
next
  case (3 d n s)
  have w: "s + n < W64" using rs.stor.nblk [of rname 512 nb name d] 3(1,3) unfolding ramdisk_stack_def by simp
  show ?case
    using rs.stor.read_law [of rname 512 nb name d n s] 3 w no_clear_read [of name d s "n * 512"]
    unfolding ramdisk_stack_def io_size_def storage_dev_def by fastforce
next
  case (4 d n s xs)
  have w: "s + n < W64" using rs.stor.nblk [of rname 512 nb name d] 4(1,3) unfolding ramdisk_stack_def by simp
  show ?case
    using rs.stor.write_law [of rname 512 nb name d n s xs] 4 w no_clear_write [of name d s "n * 512" xs]
    unfolding ramdisk_stack_def io_size_def storage_dev_def by fastforce
next
  case (5 d n s)
  then show ?case
    unfolding ramdisk_stack_def no_clear_def storage_dev_def storage_device_clear_blocks_def
    by (auto split: option.splits)
next
  case (6 d n s)
  have w: "s + n < W64" using rs.stor.nblk [of rname 512 nb name d] 6(1,3) unfolding ramdisk_stack_def by simp
  show ?case
    using rs.stor.read_law [of rname 512 nb name d n s] rs.rstor.reliable_read [of rname 512 nb name d n s] 6 w
    unfolding ramdisk_stack_def io_size_def storage_dev_def by fastforce
next
  case (7 d n s xs)
  have w: "s + n < W64" using rs.stor.nblk [of rname 512 nb name d] 7(1,3) unfolding ramdisk_stack_def by simp
  show ?case
    using rs.stor.write_law [of rname 512 nb name d n s xs] rs.rstor.reliable_write [of rname 512 nb name d n s xs] 7 w
    unfolding ramdisk_stack_def io_size_def storage_dev_def by fastforce
qed

end
