(* ===== verification/RfsMapSpec.thy ===== *)
theory RfsMapSpec
  imports RfsDisk
begin

text \<open>
  Correctness of the free space map.  \<open>mirror\<close> says that the group counters and bits in memory agree with
  the bitmap on the device; \<^verbatim>\<open>rfs_mark_extent\<close> keeps it, also when the device fails, and changes exactly the
  bits of its extent.
\<close>

section \<open>The mirror invariant\<close>

definition map_sec :: "('d \<Rightarrow> nat \<Rightarrow> byte list) \<Rightarrow> 'd rfs \<Rightarrow> nat \<Rightarrow> byte list" where
  "map_sec sector r g = vsec sector r (ds_map_start (the (rfs_desc r)) + g)"

definition used :: "('d \<Rightarrow> nat \<Rightarrow> byte list) \<Rightarrow> 'd rfs \<Rightarrow> nat \<Rightarrow> bool" where
  "used sector r k = buf_bit (map_sec sector r (k div 4096)) (k mod 4096)"

definition geom_ok :: "'d rfs \<Rightarrow> bool" where
  "geom_ok r \<longleftrightarrow>
     (\<exists>d. rfs_desc r = Some d \<and> 0 < ds_map_start d \<and> ds_map_start d + rfs_l1_groups r \<le> rfs_total r) \<and>
     rfs_cached r \<and> rfs_l1_groups r = (rfs_total r + 4095) div 4096 \<and>
     rfs_l2_groups r = (rfs_l1_groups r + 1023) div 1024 \<and>
     length (rfs_l1_free r) = rfs_l1_groups r \<and>
     length (rfs_l1_not_full r) = bitset_bytes (rfs_l1_groups r) \<and>
     length (rfs_l1_all_free r) = bitset_bytes (rfs_l1_groups r) \<and>
     length (rfs_l2_not_full r) = bitset_bytes (rfs_l2_groups r) \<and>
     length (rfs_l2_all_free r) = bitset_bytes (rfs_l2_groups r)"

definition l1_ok :: "('d \<Rightarrow> nat \<Rightarrow> byte list) \<Rightarrow> 'd rfs \<Rightarrow> bool" where
  "l1_ok sector r \<longleftrightarrow>
     (\<forall>g<rfs_l1_groups r. rfs_l1_free r ! g = free_bits (map_sec sector r g) (rfs_group_size r g) \<and>
        (bitset_get (rfs_l1_not_full r) g \<longleftrightarrow> rfs_l1_free r ! g > 0) \<and>
        (bitset_get (rfs_l1_all_free r) g \<longleftrightarrow> rfs_l1_free r ! g = rfs_group_size r g))"

definition l2_ok :: "'d rfs \<Rightarrow> bool" where
  "l2_ok r \<longleftrightarrow>
     (\<forall>sg<rfs_l2_groups r.
        (bitset_get (rfs_l2_not_full r) sg \<longleftrightarrow>
          (\<exists>g. g div 1024 = sg \<and> g < rfs_l1_groups r \<and> rfs_l1_free r ! g > 0)) \<and>
        (bitset_get (rfs_l2_all_free r) sg \<longleftrightarrow>
          (\<forall>g. g div 1024 = sg \<and> g < rfs_l1_groups r \<longrightarrow> bitset_get (rfs_l1_all_free r) g)))"

definition mirror :: "('d \<Rightarrow> nat \<Rightarrow> byte list) \<Rightarrow> 'd rfs \<Rightarrow> bool" where
  "mirror sector r \<longleftrightarrow> geom_ok r \<and> l1_ok sector r \<and> l2_ok r"

text \<open>What no operation on the map changes.\<close>

definition frame :: "'d rfs \<Rightarrow> 'd rfs \<Rightarrow> bool" where
  "frame r r' \<longleftrightarrow> rfs_start r' = rfs_start r \<and> rfs_length r' = rfs_length r \<and> rfs_desc r' = rfs_desc r \<and>
     rfs_total r' = rfs_total r \<and> rfs_cached r' = rfs_cached r \<and> rfs_l1_groups r' = rfs_l1_groups r \<and>
     rfs_l2_groups r' = rfs_l2_groups r \<and> rfs_mem r' = rfs_mem r \<and> rfs_requests r' = rfs_requests r"

lemma frame_refl [simp]: "frame r r" by (simp add: frame_def)

lemma frame_trans: "frame r r' \<Longrightarrow> frame r' r'' \<Longrightarrow> frame r r''" by (simp add: frame_def)

lemma frame_upd [simp]:
  "frame r (r'\<lparr>rfs_dev := d\<rparr>) = frame r r'" "frame r (r'\<lparr>rfs_error := e\<rparr>) = frame r r'"
  "frame r (fs_set_error x r') = frame r r'"
  by (simp_all add: frame_def fs_set_error_def)

lemma frame_vol: "frame r r' \<Longrightarrow> ok (rfs_dev r') \<Longrightarrow> vol_ok ok nblk r \<Longrightarrow> vol_ok ok nblk r'"
  by (simp add: frame_def vol_ok_def)

lemma frame_group_size: "frame r r' \<Longrightarrow> rfs_group_size r' g = rfs_group_size r g"
  by (simp add: frame_def rfs_group_size_def Let_def)

section \<open>Groups\<close>

lemma group_bounds:
  assumes "geom_ok r" "g < rfs_l1_groups r"
  shows "0 < rfs_group_size r g" "rfs_group_size r g \<le> 4096" "g * 4096 + rfs_group_size r g \<le> rfs_total r"
    "rfs_group_size r g < 4096 \<Longrightarrow> g * 4096 + rfs_group_size r g = rfs_total r"
proof -
  have "g < (rfs_total r + 4095) div 4096" using assms by (simp add: geom_ok_def)
  then have "g * 4096 < rfs_total r" by linarith
  then show "0 < rfs_group_size r g" "rfs_group_size r g \<le> 4096" "g * 4096 + rfs_group_size r g \<le> rfs_total r"
    "rfs_group_size r g < 4096 \<Longrightarrow> g * 4096 + rfs_group_size r g = rfs_total r"
    by (auto simp: rfs_group_size_def Let_def RFS_L1_GROUP_SECTORS_def)
qed

lemma group_of_sector:
  assumes "geom_ok r" "k < rfs_total r"
  shows "k div 4096 < rfs_l1_groups r" "k mod 4096 < rfs_group_size r (k div 4096)"
proof -
  have k: "k = k div 4096 * 4096 + k mod 4096" "k mod 4096 < 4096" by simp_all
  show g: "k div 4096 < rfs_l1_groups r" using assms by (simp add: geom_ok_def)
  show "k mod 4096 < rfs_group_size r (k div 4096)"
    using group_bounds [OF assms(1) g] k assms(2) by linarith
qed

lemma bitset_room: "i < n \<Longrightarrow> i div 8 < bitset_bytes n"
  by (simp add: bitset_bytes_def)

lemma super_of_group:
  assumes "geom_ok r" "g < rfs_l1_groups r"
  shows "g div 1024 < rfs_l2_groups r"
  using assms by (simp add: geom_ok_def)

text \<open>The groups of a super-group, as the range the code runs over.\<close>

lemma super_range:
  assumes "m = sg * 1024" "n = (if m + 1024 \<le> l then m + 1024 else l)"
  shows "g \<in> set [m ..< n] \<longleftrightarrow> g div 1024 = sg \<and> g < l"
proof -
  have "g = g div 1024 * 1024 + g mod 1024" "g mod 1024 < 1024" by simp_all
  then have "m \<le> g \<and> g < m + 1024 \<longleftrightarrow> g div 1024 = sg" using assms(1) by (auto intro: div_nat_eqI)
  then show ?thesis using assms by (auto split: if_splits)
qed

lemma update_l2:
  assumes "geom_ok r" "g < rfs_l1_groups r"
    and "\<And>sg. sg < rfs_l2_groups r \<Longrightarrow> sg \<noteq> g div 1024 \<Longrightarrow>
      (bitset_get (rfs_l2_not_full r) sg \<longleftrightarrow>
        (\<exists>g. g div 1024 = sg \<and> g < rfs_l1_groups r \<and> rfs_l1_free r ! g > 0)) \<and>
      (bitset_get (rfs_l2_all_free r) sg \<longleftrightarrow>
        (\<forall>g. g div 1024 = sg \<and> g < rfs_l1_groups r \<longrightarrow> bitset_get (rfs_l1_all_free r) g))"
  shows "l2_ok (rfs_update_l2_for_group r g)"
proof -
  let ?sg = "g div 1024" and ?r = "rfs_update_l2_for_group r g"
  let ?m = "?sg * 1024"
  let ?n = "if ?m + 1024 \<le> rfs_l1_groups r then ?m + 1024 else rfs_l1_groups r"
  have room: "?sg div 8 < length (rfs_l2_not_full r)" "?sg div 8 < length (rfs_l2_all_free r)"
    using assms(1) bitset_room [OF super_of_group [OF assms(1,2)]] by (simp_all add: geom_ok_def)
  have nf: "rfs_l2_not_full ?r = bitset_set (rfs_l2_not_full r) ?sg (list_ex (\<lambda>gg. rfs_l1_free r ! gg > 0) [?m ..< ?n])"
    and af: "rfs_l2_all_free ?r = bitset_set (rfs_l2_all_free r) ?sg (list_all (\<lambda>gg. bitset_get (rfs_l1_all_free r) gg) [?m ..< ?n])"
    and rest: "rfs_l2_groups ?r = rfs_l2_groups r" "rfs_l1_groups ?r = rfs_l1_groups r"
      "rfs_l1_free ?r = rfs_l1_free r" "rfs_l1_all_free ?r = rfs_l1_all_free r"
    by (simp_all add: rfs_update_l2_for_group_def RFS_L2_GROUPS_PER_SUPER_def Let_def)
  have ex: "list_ex (\<lambda>gg. rfs_l1_free r ! gg > 0) [?m ..< ?n] \<longleftrightarrow>
      (\<exists>gg. gg div 1024 = ?sg \<and> gg < rfs_l1_groups r \<and> rfs_l1_free r ! gg > 0)"
    and al: "list_all (\<lambda>gg. bitset_get (rfs_l1_all_free r) gg) [?m ..< ?n] \<longleftrightarrow>
      (\<forall>gg. gg div 1024 = ?sg \<and> gg < rfs_l1_groups r \<longrightarrow> bitset_get (rfs_l1_all_free r) gg)"
    unfolding list_ex_iff list_all_iff Bex_def Ball_def
    by (simp_all only: super_range [OF refl refl] conj_assoc)
  show ?thesis
    unfolding l2_ok_def rest nf af bitset_get_set [OF room(1)] bitset_get_set [OF room(2)] ex al
    using assms(3) by auto
qed

lemma set_group_fields [simp]:
  "rfs_dev (set_group r g fc nf af) = rfs_dev r"
  "rfs_start (set_group r g fc nf af) = rfs_start r"
  "rfs_total (set_group r g fc nf af) = rfs_total r"
  "rfs_desc (set_group r g fc nf af) = rfs_desc r"
  "rfs_l1_groups (set_group r g fc nf af) = rfs_l1_groups r"
  "rfs_l1_free (set_group r g fc nf af) = (rfs_l1_free r)[g := fc]"
  "rfs_l1_not_full (set_group r g fc nf af) = bitset_set (rfs_l1_not_full r) g nf"
  "rfs_l1_all_free (set_group r g fc nf af) = bitset_set (rfs_l1_all_free r) g af"
  "vsec sector (set_group r g fc nf af) = vsec sector r"
  "rfs_group_size (set_group r g fc nf af) h = rfs_group_size r h"
  by (simp_all add: set_group_def rfs_update_l2_for_group_def Let_def vsec_def [abs_def] rfs_group_size_def)

lemma frame_set_group [simp]: "frame r (set_group r' g fc nf af) = frame r r'"
  by (simp add: frame_def set_group_def rfs_update_l2_for_group_def Let_def)

lemma geom_set_group: "geom_ok r \<Longrightarrow> geom_ok (set_group r g fc nf af)"
  by (auto simp: geom_ok_def set_group_def rfs_update_l2_for_group_def Let_def)

lemma mirror_set_group:
  assumes "mirror sector r" "g < rfs_l1_groups r" "geom_ok r1" "frame r r1"
    "rfs_l1_free r1 = rfs_l1_free r" "rfs_l1_not_full r1 = rfs_l1_not_full r" "rfs_l1_all_free r1 = rfs_l1_all_free r"
    "rfs_l2_not_full r1 = rfs_l2_not_full r" "rfs_l2_all_free r1 = rfs_l2_all_free r"
    and "\<And>h. h \<noteq> g \<Longrightarrow> map_sec sector r1 h = map_sec sector r h"
    and "fc = free_bits (map_sec sector r1 g) (rfs_group_size r g)"
  shows "mirror sector (set_group r1 g fc (fc > 0) (fc = rfs_group_size r g))"
proof -
  let ?r = "set_group r1 g fc (fc > 0) (fc = rfs_group_size r g)"
  let ?q = "r1\<lparr>rfs_l1_free := (rfs_l1_free r1)[g := fc],
        rfs_l1_not_full := bitset_set (rfs_l1_not_full r1) g (fc > 0),
        rfs_l1_all_free := bitset_set (rfs_l1_all_free r1) g (fc = rfs_group_size r g)\<rparr>"
  have l1: "l1_ok sector r" and l2: "l2_ok r" using assms(1) by (simp_all add: mirror_def)
  have gs: "rfs_group_size r1 h = rfs_group_size r h" for h using frame_group_size [OF assms(4)] .
  have eq: "rfs_l1_groups r1 = rfs_l1_groups r" "rfs_l2_groups r1 = rfs_l2_groups r"
    using assms(4) by (simp_all add: frame_def)
  have room: "g div 8 < length (rfs_l1_not_full r)" "g div 8 < length (rfs_l1_all_free r)"
    "g < length (rfs_l1_free r)"
    using assms(1,2) bitset_room by (simp_all add: mirror_def geom_ok_def)
  have ms: "map_sec sector ?r h = map_sec sector r1 h" for h by (simp add: map_sec_def)
  have "l1_ok sector ?r"
    unfolding l1_ok_def ms set_group_fields
    using l1 room assms(5-7,10,11) gs eq by (auto simp: l1_ok_def bitset_get_set nth_list_update)
  moreover have "l2_ok ?r"
    unfolding set_group_def
  proof (rule update_l2)
    show "geom_ok ?q"
      using assms(3) by (auto simp: geom_ok_def)
  next
    fix sg
    assume sg: "sg < rfs_l2_groups ?q"
      "sg \<noteq> g div 1024"
    have keep: "(rfs_l1_free r)[g := fc] ! h = rfs_l1_free r ! h \<and>
        bitset_get (bitset_set (rfs_l1_all_free r) g v) h = bitset_get (rfs_l1_all_free r) h"
      if "h div 1024 = sg" for h v
      using that sg(2) room by (auto simp: bitset_get_set)
    show "(bitset_get (rfs_l2_not_full ?q) sg \<longleftrightarrow>
        (\<exists>h. h div 1024 = sg \<and> h < rfs_l1_groups ?q \<and>
        rfs_l1_free ?q ! h > 0)) \<and>
      (bitset_get (rfs_l2_all_free ?q) sg \<longleftrightarrow>
        (\<forall>h. h div 1024 = sg \<and> h < rfs_l1_groups ?q \<longrightarrow>
        bitset_get (rfs_l1_all_free ?q) h))"
      using l2 sg(1) keep assms(5,7-9) eq by (auto simp: l2_ok_def)
  qed (use assms(2) eq in simp)
  ultimately show ?thesis using geom_set_group [OF assms(3)] by (simp add: mirror_def)
qed

section \<open>Marking\<close>

lemma put_one [simp]: "length buf = 512 \<Longrightarrow> put_sectors 512 f s buf = f(s := buf)"
  by (rule ext) (auto simp: put_sectors_def nth_sector_def)

lemma get_one [simp]: "get_sectors f s (Suc 0) = f s"
  by (simp add: get_sectors_def)

lemma io_size_one [simp]: "io_size (Suc 0)"
  by (simp add: io_size_def U32_def)

lemma mirror_parts_upd [simp]:
  "rfs_group_size (r\<lparr>rfs_dev := d\<rparr>) g = rfs_group_size r g" "geom_ok (r\<lparr>rfs_dev := d\<rparr>) = geom_ok r"
  "l2_ok (r\<lparr>rfs_dev := d\<rparr>) = l2_ok r" "rfs_group_size (r\<lparr>rfs_error := e\<rparr>) g = rfs_group_size r g"
  "geom_ok (r\<lparr>rfs_error := e\<rparr>) = geom_ok r" "l2_ok (r\<lparr>rfs_error := e\<rparr>) = l2_ok r"
  "vsec sector (r\<lparr>rfs_error := e\<rparr>) = vsec sector r"
  by (simp_all add: rfs_group_size_def Let_def geom_ok_def l2_ok_def vsec_def [abs_def])

lemma mirror_error [simp]: "mirror sector (r\<lparr>rfs_error := e\<rparr>) = mirror sector r"
  by (simp add: mirror_def l1_ok_def map_sec_def)

lemma mirror_dev:
  assumes "mirror sector r" "vsec sector (r\<lparr>rfs_dev := d\<rparr>) = vsec sector r"
  shows "mirror sector (r\<lparr>rfs_dev := d\<rparr>)"
  using assms by (simp add: mirror_def l1_ok_def map_sec_def)

lemma geom_map:
  assumes "geom_ok r" "g < rfs_l1_groups r"
  shows "ds_map_start (the (rfs_desc r)) + g + Suc 0 \<le> rfs_total r"
  using assms by (auto simp: geom_ok_def)

lemma mark_count:
  assumes "mark_bits u lo hi buf 0 = (buf', t)" "length buf = 512" "lo \<le> hi" "hi \<le> gs" "gs \<le> 4096"
    and "old = free_bits buf gs"
  shows "length buf' = 512" "\<forall>i. buf_bit buf' i = (if lo \<le> i \<and> i < hi then u else buf_bit buf i)"
    "(if u then (if old \<ge> t then old - t else 0) else (old + min t (sub64 gs old)) mod 65536) = free_bits buf' gs"
    "t = 0 \<Longrightarrow> \<forall>i. buf_bit buf' i = buf_bit buf i"
proof -
  have m: "length buf' = length buf \<and>
    (\<forall>i. buf_bit buf' i = (if lo \<le> i \<and> i < hi then u else buf_bit buf i)) \<and>
    t = 0 + length (filter (\<lambda>i. buf_bit buf i \<noteq> u) [lo ..< hi])"
    by (rule mark_bits_eq [OF _ assms(1)]) (use assms(2,4,5) in simp)
  then show "length buf' = 512" "\<forall>i. buf_bit buf' i = (if lo \<le> i \<and> i < hi then u else buf_bit buf i)"
    using assms(2) by simp_all
  then have f: "if u then free_bits buf gs = free_bits buf' gs + t else free_bits buf' gs = free_bits buf gs + t"
    using free_bits_mark [of buf' lo hi u buf gs] assms(3,4) m by simp
  have le: "free_bits buf' gs \<le> gs" "free_bits buf gs \<le> gs" by (rule free_bits_le)+
  have "gs < W64" using assms(5) by (simp add: W64_def)
  then have "sub64 gs old = gs - old" using le(2) assms(6) by (simp add: sub64_nowrap)
  then show "(if u then (if old \<ge> t then old - t else 0) else (old + min t (sub64 gs old)) mod 65536) = free_bits buf' gs"
    using f le assms(5,6) by (auto simp: min_def)
  show "\<forall>i. buf_bit buf' i = buf_bit buf i" if "t = 0"
    using that m by (auto simp: filter_empty_conv)
qed

context rfs_disk
begin

lemma map_sec_length:
  "vol_ok ok nblk r \<Longrightarrow> geom_ok r \<Longrightarrow> g < rfs_l1_groups r \<Longrightarrow> length (map_sec sector r g) = 512"
  using vsec_length [of r] geom_map [of r g] by (simp add: map_sec_def)

lemma mark_group_written:
  assumes "vol_ok ok nblk r" "mirror sector r" "g < rfs_l1_groups r" "ok d" "length buf = 512"
    and "vsec sector (r\<lparr>rfs_dev := d\<rparr>) = (vsec sector r)(ds_map_start (the (rfs_desc r)) + g := buf)"
    and "fc = free_bits buf (rfs_group_size r g)"
  defines "r' \<equiv> set_group (r\<lparr>rfs_dev := d\<rparr>) g fc (fc > 0) (fc = rfs_group_size r g)"
  shows "vol_ok ok nblk r'" "mirror sector r'" "frame r r'" "map_sec sector r' g = buf"
    "\<And>k. k \<noteq> ds_map_start (the (rfs_desc r)) + g \<Longrightarrow> vsec sector r' k = vsec sector r k"
proof -
  show "frame r r'" by (simp add: r'_def)
  then show "vol_ok ok nblk r'" using frame_vol assms(1,4) by (simp add: r'_def vol_ok_def frame_def)
  show "map_sec sector r' g = buf" using assms(6) by (simp add: r'_def map_sec_def)
  show "vsec sector r' k = vsec sector r k" if "k \<noteq> ds_map_start (the (rfs_desc r)) + g" for k
    using assms(6) that by (simp add: r'_def)
  show "mirror sector r'"
    unfolding r'_def
  proof (rule mirror_set_group [OF assms(2,3)])
    show "geom_ok (r\<lparr>rfs_dev := d\<rparr>)" using assms(2) by (simp add: mirror_def)
  qed (use assms(6,7) in \<open>simp_all add: map_sec_def\<close>)
qed

lemma mark_whole_ok:
  assumes "vol_ok ok nblk r" "mirror sector r" "g < rfs_l1_groups r"
  defines "gs \<equiv> rfs_group_size r g" and "l \<equiv> ds_map_start (the (rfs_desc r)) + g"
  shows "\<exists>res r'. mark_whole_group dv r u g gs l = (res, r') \<and> vol_ok ok nblk r' \<and> mirror sector r' \<and>
    frame r r' \<and> (\<forall>k. k \<noteq> l \<longrightarrow> vsec sector r' k = vsec sector r k) \<and>
    (if res = None then vsec sector r' = vsec sector r else \<forall>i<gs. buf_bit (map_sec sector r' g) i = u)"
proof -
  let ?buf = "replicate 512 (if u then 0xFF else 0x00) :: byte list"
  have geom: "geom_ok r" using assms(2) by (simp add: mirror_def)
  have gs: "0 < gs" "gs \<le> 4096" unfolding gs_def by (rule group_bounds [OF geom assms(3)])+
  have bits: "buf_bit ?buf i = u" if "i < gs" for i
  proof -
    have i8: "i div 8 < 512" "i mod 8 < 8" using that gs by simp_all
    have "bit (0xFF :: byte) (i mod 8)"
    proof -
      have "(0xFF :: byte) = mask 8" by (simp add: mask_eq_exp_minus_1)
      then show ?thesis using i8(2) by (simp only: bit_mask_iff) simp
    qed
    then show ?thesis using i8(1) by (simp add: buf_bit_def)
  qed
  then have fc: "free_bits ?buf gs = (if u then 0 else gs)"
    using free_bits_none [of ?buf gs] free_bits_all [of ?buf gs] by (cases u) auto
  have mi: "l + Suc 0 \<le> rfs_total r" unfolding l_def by (rule geom_map [OF geom assms(3)])
  obtain res d where w: "rfs_write_device dv r l 512 ?buf = (res, r\<lparr>rfs_dev := d\<rparr>)" "ok d"
    "vsec sector (r\<lparr>rfs_dev := d\<rparr>) = (if res = None then vsec sector r else (vsec sector r)(l := ?buf))"
    using rfs_write_ok [OF assms(1) io_size_one mi, of ?buf] by auto
  show ?thesis
  proof (cases res)
    case None
    then have "mark_whole_group dv r u g gs l = (None, r\<lparr>rfs_dev := d\<rparr>)"
      using w(1) by (simp add: mark_whole_group_def RFS_SECTOR_SIZE_def)
    moreover have "vol_ok ok nblk (r\<lparr>rfs_dev := d\<rparr>)" using assms(1) w(2) by (simp add: vol_ok_def)
    ultimately show ?thesis using None w(3) mirror_dev [OF assms(2)] by simp
  next
    case (Some a)
    let ?fc = "free_bits ?buf gs"
    have "mark_whole_group dv r u g gs l =
        (Some (), set_group (r\<lparr>rfs_dev := d\<rparr>) g ?fc (?fc > 0) (?fc = gs))"
      using w(1) Some gs fc by (simp add: mark_whole_group_def RFS_SECTOR_SIZE_def)
    moreover note mark_group_written [OF assms(1,2,3) w(2), of ?buf, folded gs_def l_def, OF _ _ refl]
    ultimately show ?thesis using w(3) Some bits by simp
  qed
qed

lemma mark_part_ok:
  assumes "vol_ok ok nblk r" "mirror sector r" "g < rfs_l1_groups r" "lo \<le> hi" "hi \<le> rfs_group_size r g"
  defines "gs \<equiv> rfs_group_size r g" and "l \<equiv> ds_map_start (the (rfs_desc r)) + g"
  shows "\<exists>res r'. mark_part_group dv r u g gs l lo hi = (res, r') \<and> vol_ok ok nblk r' \<and> mirror sector r' \<and>
    frame r r' \<and> (\<forall>k. k \<noteq> l \<longrightarrow> vsec sector r' k = vsec sector r k) \<and>
    (if res = None then vsec sector r' = vsec sector r
     else \<forall>i. buf_bit (map_sec sector r' g) i = (if lo \<le> i \<and> i < hi then u else buf_bit (map_sec sector r g) i))"
proof -
  let ?buf = "map_sec sector r g"
  have geom: "geom_ok r" using assms(2) by (simp add: mirror_def)
  have gs: "0 < gs" "gs \<le> 4096" unfolding gs_def by (rule group_bounds [OF geom assms(3)])+
  have mi: "l + Suc 0 \<le> rfs_total r" unfolding l_def by (rule geom_map [OF geom assms(3)])
  have bl: "length ?buf = 512" by (rule map_sec_length [OF assms(1) geom assms(3)])
  obtain res d where q: "rfs_read_device dv r l 512 = (res, r\<lparr>rfs_dev := d\<rparr>)" "ok d"
    "sector d = sector (rfs_dev r)" "res = None \<or> res = Some ?buf"
    using rfs_read_ok [OF assms(1) io_size_one mi] by (auto simp: map_sec_def l_def)
  let ?r1 = "r\<lparr>rfs_dev := d\<rparr>"
  have vs1: "vsec sector ?r1 = vsec sector r" using q(3) by (simp add: vsec_def [abs_def])
  have v1: "vol_ok ok nblk ?r1" using assms(1) q(2) by (simp add: vol_ok_def)
  have m1: "mirror sector ?r1" by (rule mirror_dev [OF assms(2) vs1])
  show ?thesis
  proof (cases res)
    case None
    then have "mark_part_group dv r u g gs l lo hi = (None, ?r1)"
      using q(1) by (simp add: mark_part_group_def RFS_SECTOR_SIZE_def)
    then show ?thesis using None v1 m1 vs1 by simp
  next
    case (Some b)
    then have b: "res = Some ?buf" using q(4) by simp
    obtain buf' t where mb: "mark_bits u lo hi ?buf 0 = (buf', t)" by (cases "mark_bits u lo hi ?buf 0")
    let ?old = "rfs_l1_free r ! g"
    have old: "?old = free_bits ?buf gs" using assms(2,3) by (simp add: mirror_def l1_ok_def gs_def)
    have hi: "hi \<le> gs" using assms(5) by (simp add: gs_def)
    note mc = mark_count [OF mb bl assms(4) hi gs(2) old]
    show ?thesis
    proof (cases "t = 0")
      case True
      have same: "buf_bit ?buf i = (if lo \<le> i \<and> i < hi then u else buf_bit ?buf i)" for i
        using mc(2) mc(4) [OF True] by metis
      have "mark_part_group dv r u g gs l lo hi = (Some (), ?r1)"
        using q(1) b mb True by (simp add: mark_part_group_def RFS_SECTOR_SIZE_def)
      moreover have "map_sec sector ?r1 g = ?buf" using vs1 by (simp add: map_sec_def)
      ultimately show ?thesis using v1 m1 vs1 same by simp
    next
      case False
      obtain res2 d2 where w: "rfs_write_device dv ?r1 l 512 buf' = (res2, ?r1\<lparr>rfs_dev := d2\<rparr>)" "ok d2"
        "vsec sector (?r1\<lparr>rfs_dev := d2\<rparr>) =
          (if res2 = None then vsec sector ?r1 else (vsec sector ?r1)(l := buf'))"
        using rfs_write_ok [OF v1 io_size_one, of l buf'] mi mc(1) by auto
      have r2: "?r1\<lparr>rfs_dev := d2\<rparr> = r\<lparr>rfs_dev := d2\<rparr>" by simp
      show ?thesis
      proof (cases res2)
        case None
        then have "mark_part_group dv r u g gs l lo hi = (None, r\<lparr>rfs_dev := d2\<rparr>)"
          using q(1) b mb False w(1) by (simp add: mark_part_group_def RFS_SECTOR_SIZE_def)
        moreover have "vol_ok ok nblk (r\<lparr>rfs_dev := d2\<rparr>)" using assms(1) w(2) by (simp add: vol_ok_def)
        ultimately show ?thesis using None w(3) vs1 mirror_dev [OF assms(2)] by simp
      next
        case (Some a)
        let ?fc = "free_bits buf' gs"
        have fld: "rfs_l1_free (r\<lparr>rfs_dev := d2\<rparr>) = rfs_l1_free r" by simp
        have "mark_part_group dv r u g gs l lo hi =
            (Some (), set_group (r\<lparr>rfs_dev := d2\<rparr>) g ?fc (?fc > 0) (?fc = gs))"
          using q(1) b mb False w(1) Some
          by (simp add: mark_part_group_def RFS_SECTOR_SIZE_def Let_def mc(3) [folded fld] split del: if_split)
        moreover have "vsec sector (r\<lparr>rfs_dev := d2\<rparr>) = (vsec sector r)(l := buf')" using w(3) Some vs1 by simp
        moreover note mark_group_written [OF assms(1,2,3) w(2) mc(1), folded gs_def l_def, OF _ refl]
        ultimately show ?thesis using mc(2) by simp
      qed
    qed
  qed
qed

text \<open>One round of the loop: bits \<open>lo\<close> up to \<open>hi\<close> of group \<open>g\<close>.\<close>

lemma mark_step_ok:
  assumes "vol_ok ok nblk r" "mirror sector r" "g < rfs_l1_groups r" "lo \<le> hi" "hi \<le> rfs_group_size r g"
  defines "gs \<equiv> rfs_group_size r g" and "l \<equiv> ds_map_start (the (rfs_desc r)) + g"
  shows "\<exists>res r'. (if hi - lo = gs then mark_whole_group dv r u g gs l else mark_part_group dv r u g gs l lo hi) = (res, r') \<and>
    vol_ok ok nblk r' \<and> mirror sector r' \<and>
    frame r r' \<and> (\<forall>k. k \<noteq> l \<longrightarrow> vsec sector r' k = vsec sector r k) \<and>
    (if res = None then vsec sector r' = vsec sector r
     else \<forall>i<gs. buf_bit (map_sec sector r' g) i = (if lo \<le> i \<and> i < hi then u else buf_bit (map_sec sector r g) i))"
proof (cases "hi - lo = gs")
  case True
  then have in_range: "lo \<le> i \<and> i < hi" if "i < gs" for i using that assms(4,5) unfolding gs_def by linarith
  obtain res r' where "mark_whole_group dv r u g gs l = (res, r')" "vol_ok ok nblk r'" "mirror sector r'"
    "frame r r'" "\<forall>k. k \<noteq> l \<longrightarrow> vsec sector r' k = vsec sector r k"
    "if res = None then vsec sector r' = vsec sector r else \<forall>i<gs. buf_bit (map_sec sector r' g) i = u"
    using mark_whole_ok [OF assms(1-3), of u, folded gs_def l_def] by blast
  then show ?thesis using True in_range by (intro exI [of _ res] exI [of _ r']) auto
next
  case False
  then show ?thesis
    using mark_part_ok [OF assms(1-5), of u, folded gs_def l_def] by fastforce
qed

lemma used_after_step:
  assumes "mirror sector r" "g < rfs_l1_groups r" "frame r r'" "lo \<le> hi" "hi \<le> rfs_group_size r g"
    and "\<forall>k. k \<noteq> ds_map_start (the (rfs_desc r)) + g \<longrightarrow> vsec sector r' k = vsec sector r k"
    and "\<forall>i<rfs_group_size r g. buf_bit (map_sec sector r' g) i = (if lo \<le> i \<and> i < hi then u else buf_bit (map_sec sector r g) i)"
    and "k < rfs_total r"
  shows "used sector r' k = (if g * 4096 + lo \<le> k \<and> k < g * 4096 + hi then u else used sector r k)"
proof -
  have geom: "geom_ok r" using assms(1) by (simp add: mirror_def)
  have k: "k = k div 4096 * 4096 + k mod 4096" "k mod 4096 < 4096" by simp_all
  have gs: "rfs_group_size r g \<le> 4096" by (rule group_bounds [OF geom assms(2)])
  have desc: "rfs_desc r' = rfs_desc r" using assms(3) by (simp add: frame_def)
  show ?thesis
  proof (cases "k div 4096 = g")
    case True
    then have "k mod 4096 < rfs_group_size r g" using group_of_sector [OF geom assms(8)] by simp
    moreover have "g * 4096 + lo \<le> k \<and> k < g * 4096 + hi \<longleftrightarrow> lo \<le> k mod 4096 \<and> k mod 4096 < hi"
      using k True by linarith
    ultimately show ?thesis using assms(7) True by (simp add: used_def)
  next
    case False
    then have "\<not> (g * 4096 + lo \<le> k \<and> k < g * 4096 + hi)" using k gs assms(5) by linarith
    then have "\<not> (g * 4096 + lo \<le> k \<and> k < g * 4096 + hi)" and "used sector r' k = used sector r k"
      using assms(6) False desc by (simp_all add: used_def map_sec_def)
    then show ?thesis by auto
  qed
qed

lemma mark_loop_round:
  fixes u :: bool
  assumes "geom_ok r" "pos < rfs_total r" "0 < rem" "rfs_total r < W64"
  defines "g \<equiv> pos div 4096" and "lo \<equiv> pos mod 4096"
  defines "tk \<equiv> min rem (rfs_group_size r g - lo)"
  defines "step \<equiv> (if tk = rfs_group_size r g
      then mark_whole_group dv r u g (rfs_group_size r g) (ds_map_start (the (rfs_desc r)) + g)
      else mark_part_group dv r u g (rfs_group_size r g) (ds_map_start (the (rfs_desc r)) + g) lo (lo + tk))"
  shows "g < rfs_l1_groups r" "0 < tk" "lo + tk \<le> rfs_group_size r g" "g * 4096 + lo = pos" "tk \<le> rem"
    "mark_loop dv r u pos rem = (if fst step = None then step else mark_loop dv (snd step) u (pos + tk) (rem - tk))"
proof -
  have p: "pos = pos div 4096 * 4096 + pos mod 4096" by simp
  show g: "g < rfs_l1_groups r" and "0 < tk" "lo + tk \<le> rfs_group_size r g" "tk \<le> rem" "g * 4096 + lo = pos"
    unfolding g_def lo_def tk_def using group_of_sector [OF assms(1,2)] assms(3) by auto
  have end1: "(if g * 4096 + 4096 \<le> rfs_total r then g * 4096 + 4096 else rfs_total r) = g * 4096 + rfs_group_size r g"
    using group_bounds [OF assms(1) g] by (simp add: rfs_group_size_def RFS_L1_GROUP_SECTORS_def Let_def)
  have tkd: "(if rem < g * 4096 + rfs_group_size r g - pos then rem else g * 4096 + rfs_group_size r g - pos) = tk"
  proof -
    have "g * 4096 + rfs_group_size r g - pos = rfs_group_size r g - lo"
      unfolding g_def lo_def using p by linarith
    then show ?thesis unfolding tk_def by simp
  qed
  have ad: "add64 (ds_map_start (the (rfs_desc r))) g = ds_map_start (the (rfs_desc r)) + g"
    using geom_map [OF assms(1) g] assms(4) by (simp add: add64_nowrap)
  have lo: "pos - g * 4096 = lo" unfolding g_def lo_def by (rule minus_div_mult_eq_mod)
  show "mark_loop dv r u pos rem = (if fst step = None then step else mark_loop dv (snd step) u (pos + tk) (rem - tk))"
    unfolding step_def
    unfolding mark_loop.simps [of dv r u pos rem] Let_def RFS_L1_GROUP_SECTORS_def g_def [symmetric] end1 tkd lo ad
    using assms(3) \<open>0 < tk\<close> by (simp split: option.split)
qed

lemma mark_loop_ok:
  assumes "vol_ok ok nblk r" "mirror sector r" "pos + rem \<le> rfs_total r"
  shows "\<exists>res r' m. mark_loop dv r u pos rem = (res, r') \<and> vol_ok ok nblk r' \<and> mirror sector r' \<and> frame r r' \<and>
    m \<le> rem \<and> (res \<noteq> None \<longrightarrow> m = rem) \<and>
    (\<forall>k. \<not> (ds_map_start (the (rfs_desc r)) \<le> k \<and> k < ds_map_start (the (rfs_desc r)) + rfs_l1_groups r) \<longrightarrow>
       vsec sector r' k = vsec sector r k) \<and>
    (\<forall>k<rfs_total r. used sector r' k = (if pos \<le> k \<and> k < pos + m then u else used sector r k))"
  using assms
proof (induction rem arbitrary: r pos rule: less_induct)
  case (less rem)
  show ?case
  proof (cases "rem = 0")
    case True
    then have "mark_loop dv r u pos rem = (Some (), r)" by (subst mark_loop.simps) simp
    then show ?thesis using less(2,3) True by auto
  next
    case False
    let ?g = "pos div 4096" and ?lo = "pos mod 4096"
    let ?gs = "rfs_group_size r ?g"
    let ?take = "min rem (?gs - ?lo)" and ?l = "ds_map_start (the (rfs_desc r)) + ?g"
    have geom: "geom_ok r" using less(3) by (simp add: mirror_def)
    have pt: "pos < rfs_total r" using less(4) False by simp
    have w: "rfs_total r < W64" using less(2) disk_size [of "rfs_dev r"] by (simp add: vol_ok_def)
    have r0: "0 < rem" using False by simp
    note rd = mark_loop_round [OF geom pt r0 w]
    obtain res r1 where st: "(if ?take = ?gs then mark_whole_group dv r u ?g ?gs ?l
        else mark_part_group dv r u ?g ?gs ?l ?lo (?lo + ?take)) = (res, r1)"
      "vol_ok ok nblk r1" "mirror sector r1" "frame r r1" "\<forall>k. k \<noteq> ?l \<longrightarrow> vsec sector r1 k = vsec sector r k"
      "if res = None then vsec sector r1 = vsec sector r
       else \<forall>i<?gs. buf_bit (map_sec sector r1 ?g) i =
         (if ?lo \<le> i \<and> i < ?lo + ?take then u else buf_bit (map_sec sector r ?g) i)"
      using mark_step_ok [OF less(2,3) rd(1) le_add1 rd(3), where u = u] unfolding diff_add_inverse by blast
    have lp: "mark_loop dv r u pos rem = (if res = None then (res, r1) else mark_loop dv r1 u (pos + ?take) (rem - ?take))"
      unfolding rd(6) st(1) by simp
    show ?thesis
    proof (cases res)
      case None
      then have same: "vsec sector r1 = vsec sector r" using st(6) by simp
      then have us: "used sector r1 k = used sector r k" for k
        using st(4) by (simp add: used_def map_sec_def frame_def)
      have "mark_loop dv r u pos rem = (None, r1)" using lp None by simp
      then show ?thesis
        using st(2-4) same us by (intro exI [of _ None] exI [of _ r1] exI [of _ 0]) (simp, meson not_less)
    next
      case (Some a)
      have fr: "rfs_total r1 = rfs_total r" "rfs_desc r1 = rfs_desc r" "rfs_l1_groups r1 = rfs_l1_groups r"
        using st(4) by (simp_all add: frame_def)
      have us: "used sector r1 k = (if pos \<le> k \<and> k < pos + ?take then u else used sector r k)" if "k < rfs_total r" for k
        using used_after_step [OF less(3) rd(1) st(4) le_add1 rd(3) st(5) _ that, of u] st(6) Some
        unfolding add.assoc [symmetric] rd(4) by simp
      have take: "0 < ?take" "?take \<le> rem" "pos + ?take + (rem - ?take) \<le> rfs_total r1"
        using rd(2,5) less(4) fr(1) by auto
      have lt: "rem - ?take < rem" using take(1) r0 by simp
      obtain res2 r2 m where ih: "mark_loop dv r1 u (pos + ?take) (rem - ?take) = (res2, r2)"
        "vol_ok ok nblk r2" "mirror sector r2" "frame r1 r2" "m \<le> rem - ?take" "res2 \<noteq> None \<longrightarrow> m = rem - ?take"
        "\<forall>k. \<not> (ds_map_start (the (rfs_desc r)) \<le> k \<and> k < ds_map_start (the (rfs_desc r)) + rfs_l1_groups r) \<longrightarrow>
          vsec sector r2 k = vsec sector r1 k"
        "\<forall>k<rfs_total r. used sector r2 k = (if pos + ?take \<le> k \<and> k < pos + ?take + m then u else used sector r1 k)"
        using less(1) [OF lt st(2,3) take(3)] unfolding fr by blast
      have "used sector r2 k = (if pos \<le> k \<and> k < pos + (?take + m) then u else used sector r k)" if "k < rfs_total r" for k
        using ih(8) us that by auto
      moreover have "vsec sector r2 k = vsec sector r k"
        if "\<not> (ds_map_start (the (rfs_desc r)) \<le> k \<and> k < ds_map_start (the (rfs_desc r)) + rfs_l1_groups r)" for k
        using ih(7) st(5) that rd(1) by auto
      moreover have "?take + m \<le> rem" "res2 \<noteq> None \<longrightarrow> ?take + m = rem" using ih(5,6) take(2) by auto
      ultimately show ?thesis
        using lp Some ih(1-3) frame_trans [OF st(4) ih(4)]
        by (intro exI [of _ res2] exI [of _ r2] exI [of _ "?take + m"]) auto
    qed
  qed
qed

lemma mark_extent_ok:
  assumes "vol_ok ok nblk r" "mirror sector r" "start < rfs_total r" "0 < len" "start + len < W64"
  shows "\<exists>res r' m. rfs_mark_extent dv r start len u = (res, r') \<and> vol_ok ok nblk r' \<and> mirror sector r' \<and> frame r r' \<and>
    m \<le> min len (rfs_total r - start) \<and> (res \<noteq> None \<longrightarrow> m = min len (rfs_total r - start)) \<and>
    (\<forall>k. \<not> (ds_map_start (the (rfs_desc r)) \<le> k \<and> k < ds_map_start (the (rfs_desc r)) + rfs_l1_groups r) \<longrightarrow>
       vsec sector r' k = vsec sector r k) \<and>
    (\<forall>k<rfs_total r. used sector r' k = (if start \<le> k \<and> k < start + m then u else used sector r k))"
proof -
  have geom: "geom_ok r" using assms(2) by (simp add: mirror_def)
  have "0 < rfs_l1_groups r" using group_of_sector(1) [OF geom assms(3)] by simp
  then have l2: "rfs_l2_groups r \<noteq> 0" using super_of_group [OF geom] by fastforce
  have "rfs_mark_extent dv r start len u = mark_loop dv r u start (min len (rfs_total r - start))"
    using geom l2 assms(3-5) unfolding rfs_mark_extent_def geom_ok_def
    by (auto simp: add64_nowrap Let_def min_def)
  then show ?thesis using mark_loop_ok [OF assms(1,2), of start "min len (rfs_total r - start)" u] assms(3) by simp
qed

end

context reliable_disk
begin

lemma mark_step_succeeds:
  assumes "vol_ok ok nblk r" "mirror sector r" "g < rfs_l1_groups r" "hi \<le> rfs_group_size r g" "lo \<le> hi"
  defines "l \<equiv> ds_map_start (the (rfs_desc r)) + g"
  shows "fst (mark_whole_group dv r u g gs l) \<noteq> None" "fst (mark_part_group dv r u g gs l lo hi) \<noteq> None"
proof -
  have geom: "geom_ok r" using assms(2) by (simp add: mirror_def)
  have mi: "l + Suc 0 \<le> rfs_total r" unfolding l_def by (rule geom_map [OF geom assms(3)])
  have wr: "\<exists>d. rfs_write_device dv r' l 512 xs = (Some (), r'\<lparr>rfs_dev := d\<rparr>)"
    if "vol_ok ok nblk r'" "rfs_total r' = rfs_total r" "length xs = 512" for r' xs
    using rfs_writes [OF that(1) io_size_one, of l xs] mi that by auto
  show "fst (mark_whole_group dv r u g gs l) \<noteq> None"
    using wr [OF assms(1) refl, of "replicate 512 (if u then 0xFF else 0x00)"]
    by (auto simp: mark_whole_group_def RFS_SECTOR_SIZE_def)
  obtain d where q: "rfs_read_device dv r l 512 = (Some (map_sec sector r g), r\<lparr>rfs_dev := d\<rparr>)" "ok d"
    using rfs_reads [OF assms(1) io_size_one mi] by (auto simp: map_sec_def l_def)
  obtain buf' t where mb: "mark_bits u lo hi (map_sec sector r g) 0 = (buf', t)"
    by (cases "mark_bits u lo hi (map_sec sector r g) 0")
  have "hi \<le> 8 * length (map_sec sector r g)"
    using assms(4) group_bounds(2) [OF geom assms(3)] map_sec_length [OF assms(1) geom assms(3)] by simp
  then have "length buf' = 512"
    using mark_bits_eq [OF _ mb] map_sec_length [OF assms(1) geom assms(3)] by simp
  moreover have "vol_ok ok nblk (r\<lparr>rfs_dev := d\<rparr>)" using assms(1) q(2) by (simp add: vol_ok_def)
  ultimately obtain d2 where "rfs_write_device dv (r\<lparr>rfs_dev := d\<rparr>) l 512 buf' = (Some (), r\<lparr>rfs_dev := d2\<rparr>)"
    using wr [of "r\<lparr>rfs_dev := d\<rparr>" buf'] by auto
  then show "fst (mark_part_group dv r u g gs l lo hi) \<noteq> None"
    using q(1) mb by (simp add: mark_part_group_def RFS_SECTOR_SIZE_def Let_def)
qed

lemma mark_loop_succeeds:
  assumes "vol_ok ok nblk r" "mirror sector r" "pos + rem \<le> rfs_total r"
  shows "fst (mark_loop dv r u pos rem) \<noteq> None"
  using assms
proof (induction rem arbitrary: r pos rule: less_induct)
  case (less rem)
  show ?case
  proof (cases "rem = 0")
    case True
    then show ?thesis by (subst mark_loop.simps) simp
  next
    case False
    let ?g = "pos div 4096" and ?lo = "pos mod 4096"
    let ?gs = "rfs_group_size r ?g"
    let ?take = "min rem (?gs - ?lo)" and ?l = "ds_map_start (the (rfs_desc r)) + ?g"
    have geom: "geom_ok r" using less(3) by (simp add: mirror_def)
    have pt: "pos < rfs_total r" using less(4) False by simp
    have w: "rfs_total r < W64" using less(2) disk_size [of "rfs_dev r"] by (simp add: vol_ok_def)
    have r0: "0 < rem" using False by simp
    note rd = mark_loop_round [OF geom pt r0 w]
    obtain res r1 where st: "(if ?take = ?gs then mark_whole_group dv r u ?g ?gs ?l
        else mark_part_group dv r u ?g ?gs ?l ?lo (?lo + ?take)) = (res, r1)"
      "vol_ok ok nblk r1" "mirror sector r1" "frame r r1"
      using mark_step_ok [OF less(2,3) rd(1) le_add1 rd(3), where u = u] unfolding diff_add_inverse by blast
    have "res \<noteq> None"
      using mark_step_succeeds [OF less(2,3) rd(1) rd(3) le_add1, of u ?gs] st(1) by (auto split: if_splits)
    then have lp: "mark_loop dv r u pos rem = mark_loop dv r1 u (pos + ?take) (rem - ?take)"
      unfolding rd(6) st(1) by simp
    have lt: "rem - ?take < rem" using rd(2) r0 by simp
    have le: "pos + ?take + (rem - ?take) \<le> rfs_total r1" using rd(5) less(4) st(4) by (simp add: frame_def)
    show ?thesis unfolding lp by (rule less(1) [OF lt st(2,3) le])
  qed
qed

end

section \<open>Searching\<close>

text \<open>A group bit \<open>all free\<close> that is set tells the truth.  This is all that a short search relies on.\<close>

definition all_free_sound :: "('d \<Rightarrow> nat \<Rightarrow> byte list) \<Rightarrow> 'd rfs \<Rightarrow> bool" where
  "all_free_sound sector r \<longleftrightarrow> geom_ok r \<and>
     (\<forall>g<rfs_l1_groups r. bitset_get (rfs_l1_all_free r) g \<longrightarrow>
        (\<forall>i<rfs_group_size r g. \<not> buf_bit (map_sec sector r g) i))"

lemma mirror_all_free_sound: "mirror sector r \<Longrightarrow> all_free_sound sector r"
  using free_bits_all by (auto simp: mirror_def all_free_sound_def l1_ok_def)

text \<open>A run of free sectors inside one group.\<close>

definition group_run :: "('d \<Rightarrow> nat \<Rightarrow> byte list) \<Rightarrow> 'd rfs \<Rightarrow> nat \<Rightarrow> nat \<Rightarrow> nat \<Rightarrow> bool" where
  "group_run sector r need g k \<longleftrightarrow> k + need \<le> rfs_group_size r g \<and>
     (\<forall>i. k \<le> i \<and> i < k + need \<longrightarrow> \<not> buf_bit (map_sec sector r g) i)"

lemma group_run_free:
  assumes "geom_ok r" "g < rfs_l1_groups r" "group_run sector r need g k"
  shows "g * 4096 + k + need \<le> rfs_total r"
    "\<And>j. g * 4096 + k \<le> j \<Longrightarrow> j < g * 4096 + k + need \<Longrightarrow> \<not> used sector r j"
proof -
  have gs: "rfs_group_size r g \<le> 4096" "g * 4096 + rfs_group_size r g \<le> rfs_total r"
    by (rule group_bounds [OF assms(1,2)])+
  have kn: "k + need \<le> rfs_group_size r g" using assms(3) by (simp add: group_run_def)
  then show "g * 4096 + k + need \<le> rfs_total r" using gs by simp
  fix j
  assume j: "g * 4096 + k \<le> j" "j < g * 4096 + k + need"
  then obtain i where i: "j = g * 4096 + i" "k \<le> i" "i < k + need"
    by (metis add.assoc le_add_diff_inverse nat_add_left_cancel_le nat_add_left_cancel_less add_leD1)
  then have "j div 4096 = g" "j mod 4096 = i" using kn gs(1) by simp_all
  then show "\<not> used sector r j" using assms(3) i by (simp add: used_def group_run_def)
qed

text \<open>The loops of the search.\<close>

lemma scan_list_inv:
  assumes "\<And>x r a r'. x \<in> set xs \<Longrightarrow> I r \<Longrightarrow> f x r = (a, r') \<Longrightarrow>
      I r' \<and> (\<forall>v. a = Found v \<longrightarrow> Q v) \<and> (a = Next \<longrightarrow> N x) \<and> (a = Abort \<longrightarrow> A)"
    and "I r" "scan_list f xs r = (a, r')"
  shows "I r' \<and> (\<forall>v. a = Found v \<longrightarrow> Q v) \<and> (a = Next \<longrightarrow> (\<forall>x\<in>set xs. N x)) \<and> (a = Abort \<longrightarrow> A)"
  using assms
proof (induction xs arbitrary: r)
  case Nil
  then show ?case by simp
next
  case (Cons x xs)
  obtain b r1 where b: "f x r = (b, r1)" by (cases "f x r")
  then have 1: "I r1 \<and> (\<forall>v. b = Found v \<longrightarrow> Q v) \<and> (b = Next \<longrightarrow> N x) \<and> (b = Abort \<longrightarrow> A)"
    using Cons.prems(1) [of x r b r1] Cons.prems(2) by simp
  show ?case
  proof (cases "b = Next")
    case True
    have "I r' \<and> (\<forall>v. a = Found v \<longrightarrow> Q v) \<and> (a = Next \<longrightarrow> (\<forall>x\<in>set xs. N x)) \<and> (a = Abort \<longrightarrow> A)"
    proof (rule Cons.IH)
      show "scan_list f xs r1 = (a, r')" using Cons.prems(3) b True by simp
      show "I r1" using 1 by simp
      fix y r2 c r3
      assume "y \<in> set xs" "I r2" "f y r2 = (c, r3)"
      then show "I r3 \<and> (\<forall>v. c = Found v \<longrightarrow> Q v) \<and> (c = Next \<longrightarrow> N y) \<and> (c = Abort \<longrightarrow> A)"
        using Cons.prems(1) [of y r2 c r3] by simp
    qed
    then show ?thesis using 1 True by simp
  next
    case False
    then have "a = b" "r' = r1" using Cons.prems(3) b by (auto split: scan.splits)
    then show ?thesis using 1 False by simp
  qed
qed

context rfs_disk
begin

text \<open>A state that differs from \<open>r\<close> by reads only.\<close>

definition reads :: "'d rfs \<Rightarrow> 'd rfs \<Rightarrow> bool" where
  "reads r r' \<longleftrightarrow> (\<exists>d. r' = r\<lparr>rfs_dev := d\<rparr> \<and> ok d \<and> sector d = sector (rfs_dev r))"

lemma reads_refl: "vol_ok ok nblk r \<Longrightarrow> reads r r"
  unfolding reads_def by (rule exI [of _ "rfs_dev r"]) (simp add: vol_ok_def)

lemma reads_facts:
  assumes "reads r r'" "vol_ok ok nblk r"
  shows "vol_ok ok nblk r'" "vsec sector r' = vsec sector r" "map_sec sector r' = map_sec sector r"
    "rfs_group_size r' g = rfs_group_size r g" "rfs_l1_groups r' = rfs_l1_groups r" "rfs_l2_groups r' = rfs_l2_groups r"
    "rfs_l1_not_full r' = rfs_l1_not_full r" "rfs_l1_all_free r' = rfs_l1_all_free r"
    "rfs_l2_not_full r' = rfs_l2_not_full r" "geom_ok r' = geom_ok r" "rfs_total r' = rfs_total r"
    "rfs_desc r' = rfs_desc r"
  using assms by (auto simp: reads_def vol_ok_def vsec_def [abs_def] map_sec_def [abs_def])

lemma reads_load:
  assumes "reads r0 r" "vol_ok ok nblk r0" "geom_ok r0" "g < rfs_l1_groups r0"
    "rfs_load_group_sector dv r g = (res, r')"
  shows "reads r0 r'" "res = None \<or> res = Some (map_sec sector r0 g)"
proof -
  note f = reads_facts [OF assms(1,2)]
  have mi: "ds_map_start (the (rfs_desc r0)) + g + Suc 0 \<le> rfs_total r0" by (rule geom_map [OF assms(3,4)])
  have "rfs_total r0 < W64" using assms(2) disk_size [of "rfs_dev r0"] by (simp add: vol_ok_def)
  then have ld: "rfs_load_group_sector dv r g = rfs_read_device dv r (ds_map_start (the (rfs_desc r0)) + g) (Suc 0 * 512)"
    using mi f(12) by (simp add: rfs_load_group_sector_def add64_nowrap RFS_SECTOR_SIZE_def)
  obtain res1 d where q: "rfs_load_group_sector dv r g = (res1, r\<lparr>rfs_dev := d\<rparr>)" "ok d"
    "sector d = sector (rfs_dev r)" "res1 = None \<or> res1 = Some (get_sectors (vsec sector r) (ds_map_start (the (rfs_desc r0)) + g) (Suc 0))"
    using rfs_read_ok [OF f(1) io_size_one, of "ds_map_start (the (rfs_desc r0)) + g"] mi unfolding ld f(11) by blast
  show "res = None \<or> res = Some (map_sec sector r0 g)"
    using q(1,4) assms(5) f(2) by (simp add: map_sec_def)
  show "reads r0 r'"
    using q(1-3) assms(1,5) unfolding reads_def by auto
qed

lemma find_in_group_ok:
  assumes "vol_ok ok nblk r0" "all_free_sound sector r0" "g < rfs_l1_groups r0" "0 < need" "reads r0 r"
    "find_in_group dv need g r = (a, r')"
  shows "reads r0 r'" "a = Found v \<Longrightarrow> \<exists>k. v = g * 4096 + k \<and> group_run sector r0 need g k"
    "mirror sector r0 \<Longrightarrow> a = Next \<Longrightarrow> \<not> (\<exists>k. group_run sector r0 need g k)"
    "a = Abort \<Longrightarrow> \<exists>r. reads r0 r \<and> fst (rfs_load_group_sector dv r g) = None"
proof -
  note f = reads_facts [OF assms(5,1)]
  have geom: "geom_ok r0" using assms(2) by (simp add: all_free_sound_def)
  let ?gs = "rfs_group_size r0 g"
  let ?claim = "reads r0 r' \<and> (a = Found v \<longrightarrow> (\<exists>k. v = g * 4096 + k \<and> group_run sector r0 need g k)) \<and>
    (mirror sector r0 \<longrightarrow> a = Next \<longrightarrow> \<not> (\<exists>k. group_run sector r0 need g k)) \<and>
    (a = Abort \<longrightarrow> (\<exists>r. reads r0 r \<and> fst (rfs_load_group_sector dv r g) = None))"
  have ?claim
  proof (cases "bitset_get (rfs_l1_not_full r0) g")
    case False
    then have e: "a = Next" "r' = r" using assms(6) f by (simp_all add: find_in_group_def)
    have "\<not> (\<exists>k. group_run sector r0 need g k)" if "mirror sector r0"
    proof -
      have "free_bits (map_sec sector r0 g) ?gs = 0"
        using that False assms(3) by (simp add: mirror_def l1_ok_def)
      then show ?thesis using assms(4) unfolding free_bits_none group_run_def
        by (metis add_less_cancel_left add.right_neutral le_refl less_le_trans)
    qed
    then show ?thesis using e assms(5) by simp
  next
    case nf: True
    show ?thesis
    proof (cases "bitset_get (rfs_l1_all_free r0) g")
      case True
      then have e: "(a, r') = (if need \<le> ?gs then (Found (g * 4096), r) else (Next, r))"
        using assms(6) f nf by (simp add: find_in_group_def Let_def RFS_L1_GROUP_SECTORS_def split: if_splits)
      have "group_run sector r0 need g 0" if "need \<le> ?gs"
        using that assms(2,3) True by (simp add: group_run_def all_free_sound_def)
      moreover have "\<not> (\<exists>k. group_run sector r0 need g k)" if "\<not> need \<le> ?gs"
        using that by (auto simp: group_run_def)
      ultimately show ?thesis using e assms(5) by (auto split: if_splits intro: exI [of _ 0])
    next
      case False
      obtain res r1 where l: "rfs_load_group_sector dv r g = (res, r1)" by (cases "rfs_load_group_sector dv r g")
      note rl = reads_load [OF assms(5,1) geom assms(3) l]
      show ?thesis
      proof (cases res)
        case None
        then have "a = Abort" "r' = r1"
          using assms(6) f nf False l by (simp_all add: find_in_group_def Let_def)
        then show ?thesis using rl assms(5) l None by auto
      next
        case (Some b)
        then have b: "b = map_sec sector r0 g" using rl(2) by simp
        have e: "(a, r') = (case rfs_group_find_run_from (map_sec sector r0 g) ?gs 0 need of
            None \<Rightarrow> (Next, r1) | Some local \<Rightarrow> (Found (g * 4096 + local), r1))"
          using assms(6) f nf False l Some b
          by (simp add: find_in_group_def Let_def RFS_L1_GROUP_SECTORS_def split: option.splits)
        show ?thesis
          using e rl(1) group_find_run [OF assms(4), where buf = "map_sec sector r0 g" and n = ?gs]
          by (auto simp: group_run_def split: option.splits)
      qed
    qed
  qed
  then show "reads r0 r'" "a = Found v \<Longrightarrow> \<exists>k. v = g * 4096 + k \<and> group_run sector r0 need g k"
    "mirror sector r0 \<Longrightarrow> a = Next \<Longrightarrow> \<not> (\<exists>k. group_run sector r0 need g k)"
    "a = Abort \<Longrightarrow> \<exists>r. reads r0 r \<and> fst (rfs_load_group_sector dv r g) = None"
    by blast+
qed

lemma find_in_super_ok:
  assumes "vol_ok ok nblk r0" "all_free_sound sector r0" "0 < need" "reads r0 r" "sg < rfs_l2_groups r0"
    "find_in_super (find_in_group dv need) sg r = (a, r')"
  shows "reads r0 r' \<and>
    (\<forall>v. a = Found v \<longrightarrow> (\<exists>g k. g < rfs_l1_groups r0 \<and> v = g * 4096 + k \<and> group_run sector r0 need g k)) \<and>
    (a = Next \<longrightarrow> (mirror sector r0 \<longrightarrow>
      (\<forall>g k. g div 1024 = sg \<and> g < rfs_l1_groups r0 \<longrightarrow> \<not> group_run sector r0 need g k))) \<and>
    (a = Abort \<longrightarrow> (\<exists>r g. g < rfs_l1_groups r0 \<and> reads r0 r \<and> fst (rfs_load_group_sector dv r g) = None))"
proof -
  note f = reads_facts [OF assms(4,1)]
  show ?thesis
  proof (cases "bitset_get (rfs_l2_not_full r0) sg")
    case False
    then have e: "a = Next" "r' = r" using assms(6) f by (simp_all add: find_in_super_def)
    have "\<not> group_run sector r0 need g k" if m: "mirror sector r0" and g: "g div 1024 = sg" "g < rfs_l1_groups r0" for g k
    proof -
      have "rfs_l1_free r0 ! g = 0" using m False assms(5) g by (auto simp: mirror_def l2_ok_def)
      then have "free_bits (map_sec sector r0 g) (rfs_group_size r0 g) = 0"
        using m g by (simp add: mirror_def l1_ok_def)
      then show ?thesis using assms(3) unfolding free_bits_none group_run_def
        by (metis add_less_cancel_left add.right_neutral le_refl less_le_trans)
    qed
    then show ?thesis using e assms(4) by auto
  next
    case True
    let ?g0 = "sg * 1024"
    let ?g1 = "if ?g0 + 1024 \<le> rfs_l1_groups r0 then ?g0 + 1024 else rfs_l1_groups r0"
    have in_super: "g \<in> set [?g0 ..< ?g1] \<longleftrightarrow> g div 1024 = sg \<and> g < rfs_l1_groups r0" for g
      by (rule super_range [OF refl refl])
    have sc: "scan_list (find_in_group dv need) [?g0 ..< ?g1] r = (a, r')"
      using assms(6) True f by (simp add: find_in_super_def RFS_L2_GROUPS_PER_SUPER_def Let_def min_def)
    have "reads r0 r' \<and>
      (\<forall>v. a = Found v \<longrightarrow> (\<exists>g k. g < rfs_l1_groups r0 \<and> v = g * 4096 + k \<and> group_run sector r0 need g k)) \<and>
      (a = Next \<longrightarrow> (\<forall>g\<in>set [?g0 ..< ?g1]. mirror sector r0 \<longrightarrow> \<not> (\<exists>k. group_run sector r0 need g k))) \<and>
      (a = Abort \<longrightarrow> (\<exists>r g. g < rfs_l1_groups r0 \<and> reads r0 r \<and> fst (rfs_load_group_sector dv r g) = None))"
    proof (rule scan_list_inv [where I = "reads r0", OF _ assms(4) sc])
      fix g r1 b r2
      assume g: "g \<in> set [?g0 ..< ?g1]" and r1: "reads r0 r1" "find_in_group dv need g r1 = (b, r2)"
      have gl: "g < rfs_l1_groups r0" using g in_super by blast
      note fg = find_in_group_ok [OF assms(1,2) gl assms(3) r1]
      show "reads r0 r2 \<and>
        (\<forall>v. b = Found v \<longrightarrow> (\<exists>g k. g < rfs_l1_groups r0 \<and> v = g * 4096 + k \<and> group_run sector r0 need g k)) \<and>
        (b = Next \<longrightarrow> (mirror sector r0 \<longrightarrow> \<not> (\<exists>k. group_run sector r0 need g k))) \<and>
        (b = Abort \<longrightarrow> (\<exists>r g. g < rfs_l1_groups r0 \<and> reads r0 r \<and> fst (rfs_load_group_sector dv r g) = None))"
        using fg gl by blast
    qed
    then show ?thesis unfolding Ball_def in_super by blast
  qed
qed

lemma find_extent_ok:
  assumes "vol_ok ok nblk r0" "all_free_sound sector r0" "0 < need" "need \<le> 4096" "need \<le> rfs_total r0"
    "rfs_find_free_extent dv r0 need = (res, r')"
  shows "\<exists>r1. reads r0 r1 \<and>
    (case res of
       Some start \<Rightarrow> r' = r1 \<and> start + need \<le> rfs_total r0 \<and> (\<forall>j. start \<le> j \<and> j < start + need \<longrightarrow> \<not> used sector r0 j)
     | None \<Rightarrow> r' = r1 \<and> (\<exists>r g. g < rfs_l1_groups r0 \<and> reads r0 r \<and> fst (rfs_load_group_sector dv r g) = None) \<or>
         r' = fs_set_error FS_ERR_NO_SPACE r1 \<and>
         (mirror sector r0 \<longrightarrow> (\<forall>g k. g < rfs_l1_groups r0 \<longrightarrow> \<not> group_run sector r0 need g k)))"
proof -
  have geom: "geom_ok r0" using assms(2) by (simp add: all_free_sound_def)
  obtain a r1 where sc: "scan_list (find_in_super (find_in_group dv need)) [0 ..< rfs_l2_groups r0] r0 = (a, r1)"
    by (cases "scan_list (find_in_super (find_in_group dv need)) [0 ..< rfs_l2_groups r0] r0")
  have inv: "reads r0 r1 \<and>
      (\<forall>v. a = Found v \<longrightarrow> (\<exists>g k. g < rfs_l1_groups r0 \<and> v = g * 4096 + k \<and> group_run sector r0 need g k)) \<and>
      (a = Next \<longrightarrow> (\<forall>sg\<in>set [0 ..< rfs_l2_groups r0]. mirror sector r0 \<longrightarrow>
        (\<forall>g k. g div 1024 = sg \<and> g < rfs_l1_groups r0 \<longrightarrow> \<not> group_run sector r0 need g k))) \<and>
      (a = Abort \<longrightarrow> (\<exists>r g. g < rfs_l1_groups r0 \<and> reads r0 r \<and> fst (rfs_load_group_sector dv r g) = None))"
    by (rule scan_list_inv [where I = "reads r0", OF _ reads_refl [OF assms(1)] sc])
      (use find_in_super_ok [OF assms(1-3)] in auto)
  have e: "(res, r') = (case a of Found start \<Rightarrow> (Some start, r1) | Abort \<Rightarrow> (None, r1)
      | Next \<Rightarrow> (None, fs_set_error FS_ERR_NO_SPACE r1))"
    using assms(3-6) sc geom by (auto simp: rfs_find_free_extent_def geom_ok_def RFS_L1_GROUP_SECTORS_def split: scan.splits)
  show ?thesis
  proof (cases a)
    case (Found v)
    then obtain g k where g: "g < rfs_l1_groups r0" "v = g * 4096 + k" "group_run sector r0 need g k" using inv by blast
    then show ?thesis using group_run_free [OF geom g(1,3)] Found e inv by auto
  next
    case Next
    have "\<not> group_run sector r0 need g k" if "mirror sector r0" "g < rfs_l1_groups r0" for g k
      using inv Next that super_of_group [OF geom that(2)] by simp
    then show ?thesis using Next e inv by auto
  next
    case Abort
    then show ?thesis using e inv by auto
  qed
qed

end

context reliable_disk
begin

lemma load_succeeds:
  assumes "reads r0 r" "vol_ok ok nblk r0" "geom_ok r0" "g < rfs_l1_groups r0"
  shows "fst (rfs_load_group_sector dv r g) \<noteq> None"
proof -
  note f = reads_facts [OF assms(1,2)]
  have mi: "ds_map_start (the (rfs_desc r0)) + g + Suc 0 \<le> rfs_total r0" by (rule geom_map [OF assms(3,4)])
  have "rfs_total r0 < W64" using assms(2) disk_size [of "rfs_dev r0"] by (simp add: vol_ok_def)
  then show ?thesis
    using mi f(11,12) rfs_reads [OF f(1) io_size_one, of "ds_map_start (the (rfs_desc r0)) + g"]
    by (auto simp: rfs_load_group_sector_def add64_nowrap RFS_SECTOR_SIZE_def)
qed

lemma find_extent_complete:
  assumes "vol_ok ok nblk r" "mirror sector r" "0 < need" "need \<le> 4096" "need \<le> rfs_total r"
    "group_run sector r need g k" "g < rfs_l1_groups r"
  shows "\<exists>start r'. rfs_find_free_extent dv r need = (Some start, r')"
proof -
  obtain res r' where e: "rfs_find_free_extent dv r need = (res, r')" by (cases "rfs_find_free_extent dv r need")
  have geom: "geom_ok r" using assms(2) by (simp add: mirror_def)
  show ?thesis
    using find_extent_ok [OF assms(1) mirror_all_free_sound [OF assms(2)] assms(3-5) e]
      load_succeeds [OF _ assms(1) geom] assms(2,6,7) e
    by (auto split: option.splits)
qed

end

end
