(* ===== verification/RfsDemo.thy ===== *)
theory RfsDemo
  imports RfsMapSpec
begin

text \<open>
  A small concrete volume on a RAM disk, for the witnesses: a disk with given contents registered as a
  storage device without cache, and the volume that covers it.
\<close>

definition rname :: "byte list" where "rname = [0x72, 0x30, 0]"

definition disk_of :: "byte list \<Rightarrow> nat \<Rightarrow> ramdisks" where
  "disk_of data nb = snd (the (hashmap_set demo_table
     \<lparr>rd_name = rname, rd_data = data, rd_blocks = nb, rd_blocksize = 512\<rparr>))"

definition stack_of :: "byte list \<Rightarrow> nat \<Rightarrow> ramdisks storage" where
  "stack_of data nb = \<lparr>st_devices = [\<lparr>sd_name = rname, sd_size = nb,
      sd_blockread = Some (rd_block_read rname 512), sd_blockwrite = Some (rd_block_write rname 512),
      sd_blockclear = None, sd_block_size = 512, sd_cache = None\<rparr>],
    st_driver = disk_of data nb, st_error = None\<rparr>"

lemma disk_of_table:
  "hm_ok (disk_of data nb)" "hm_compare (disk_of data nb) = rd_compare"
  "hm_lookup (disk_of data nb) (find_disk rname) =
     Some \<lparr>rd_name = rname, rd_data = data, rd_blocks = nb, rd_blocksize = 512\<rparr>"
proof -
  let ?disk = "\<lparr>rd_name = rname, rd_data = data, rd_blocks = nb, rd_blocksize = 512\<rparr> :: ramdisk"
  have new: "hashmap_new_with_allocator (\<lambda>k n. True) 0 40 16 1 2 rd_hash rd_compare False (find_disk [])
      = (Some demo_table, 2)"
    by (simp add: demo_table_def hashmap_new_with_allocator_def Let_def)
  have t: "hm_ok demo_table" "hm_compare demo_table = rd_compare"
    using hashmap_new_ok [OF new rd_callbacks_ok] by auto
  have room: "hm_count demo_table \<noteq> hm_growat demo_table" "\<And>k n. hm_malloc demo_table k n"
    by (simp_all add: demo_table_def hashmap_new_with_allocator_def Let_def double_cap.simps grow_threshold_def)
  obtain old m where m: "hashmap_set demo_table ?disk = Some (old, m)" "hm_ok m" "hm_compare m = rd_compare"
    "\<not> hm_oom m \<Longrightarrow> hm_lookup m (find_disk rname) = Some ?disk"
    using hashmap_set_spec [OF t(1), of ?disk] room(1) t(2)
    by (metis callbacks_okD(1) find_disk_def ramdisk.select_convs(1) rd_callbacks_ok rd_compare_def)
  moreover have "\<not> hm_oom m" using hashmap_set_no_oom(2) [OF m(1)] room(2) by blast
  ultimately show "hm_ok (disk_of data nb)" "hm_compare (disk_of data nb) = rd_compare"
    "hm_lookup (disk_of data nb) (find_disk rname) = Some ?disk"
    by (simp_all add: disk_of_def)
qed

lemma stack_of_ok:
  assumes "length data = nb * 512" "nb < W64"
  shows "ramdisk_stack rname nb rname (stack_of data nb)"
  using assms disk_of_table
  by (simp add: ramdisk_stack_def storage_ok_def ramdisk_ok_def stack_of_def find_storage_device_def
      strcmp_0 cache_for_def no_clear_def)

lemma stack_of_sector: "ramdisk_sector rname 512 (st_driver (stack_of data nb)) k = nth_sector 512 data k"
  using disk_of_table(3) by (simp add: ramdisk_sector_def stack_of_def)

abbreviation ram_ok :: "nat \<Rightarrow> ramdisks storage \<Rightarrow> bool" where
  "ram_ok nb \<equiv> ramdisk_stack rname nb rname"

abbreviation ram_sector :: "ramdisks storage \<Rightarrow> nat \<Rightarrow> byte list" where
  "ram_sector \<equiv> \<lambda>st. ramdisk_sector rname 512 (st_driver st)"

text \<open>A volume of \<open>nb\<close> sectors, fewer than a group, with its map in the last sector and nothing in use.\<close>

definition small_volume :: "byte list \<Rightarrow> nat \<Rightarrow> ramdisks storage rfs" where
  "small_volume data nb = \<lparr>rfs_dev = stack_of data nb, rfs_start = 0, rfs_length = nb,
     rfs_desc = Some \<lparr>ds_identifier = RFS_ID, ds_root_directory = 1, ds_map_start = nb - 1, ds_map_length = 1,
       ds_map_checksum = 0, ds_sequence = 1, ds_creation_time = 0\<rparr>,
     rfs_total = nb, rfs_cached = True, rfs_l1_groups = 1, rfs_l2_groups = 1, rfs_l1_free = [nb],
     rfs_l1_not_full = [1], rfs_l1_all_free = [1], rfs_l2_not_full = [1], rfs_l2_all_free = [1],
     rfs_error = None, rfs_mem = (\<lambda>_. True), rfs_requests = 0\<rparr>"

lemma small_volume_ok:
  assumes "1 < nb" "nb < 4096" "length data = nb * 512" "nth_sector 512 data (nb - 1) = replicate 512 0"
  shows "vol_ok (ram_ok nb) nb (small_volume data nb)" "mirror ram_sector (small_volume data nb)"
    "\<And>k. vsec ram_sector (small_volume data nb) k = nth_sector 512 data k"
proof -
  let ?r = "small_volume data nb"
  have "nb < W64" using assms(2) by (simp add: W64_def)
  then show "vol_ok (ram_ok nb) nb ?r"
    using stack_of_ok [OF assms(3)] by (simp add: vol_ok_def small_volume_def)
  show vs: "vsec ram_sector ?r k = nth_sector 512 data k" for k
    unfolding vsec_def by (simp add: small_volume_def stack_of_sector)
  have gs: "rfs_group_size ?r 0 = nb"
    using assms(2) by (simp add: rfs_group_size_def small_volume_def RFS_L1_GROUP_SECTORS_def)
  have one: "(nb + 4095) div 4096 = 1" using assms(1,2) by (simp add: div_nat_eqI)
  have geom: "geom_ok ?r"
    using assms(1) one by (simp add: geom_ok_def small_volume_def bitset_bytes_def)
  have ms: "map_sec ram_sector ?r 0 = replicate 512 0"
    unfolding map_sec_def vs using assms(4) by (simp add: small_volume_def)
  have "free_bits (map_sec ram_sector ?r 0) nb = nb"
    unfolding free_bits_all ms using assms(2) by (auto simp: buf_bit_def)
  then have l1: "l1_ok ram_sector ?r"
    using gs assms(1) by (simp add: l1_ok_def small_volume_def bitset_get_def)
  have "l2_ok ?r"
    using assms(1) by (auto simp: l2_ok_def small_volume_def bitset_get_def)
  then show "mirror ram_sector ?r" using geom l1 by (simp add: mirror_def)
qed

lemma nth_sector_replicate: "(k + 1) * 512 \<le> n \<Longrightarrow> nth_sector 512 (replicate n x) k = replicate 512 x"
  by (simp add: nth_sector_def min_def)

definition blank_volume :: "ramdisks storage rfs" where
  "blank_volume = small_volume (replicate (1000 * 512) 0) 1000"

lemma blank_volume_ok:
  "vol_ok (ram_ok 1000) 1000 blank_volume" "mirror ram_sector blank_volume"
  "\<And>k. k < 1000 \<Longrightarrow> vsec ram_sector blank_volume k = replicate 512 0"
  using small_volume_ok [of 1000 "replicate (1000 * 512) 0"] nth_sector_replicate [of _ "1000 * 512" 0]
  by (simp_all add: blank_volume_def)

lemma blank_volume_fields [simp]:
  "rfs_total blank_volume = 1000" "rfs_desc blank_volume = Some \<lparr>ds_identifier = RFS_ID, ds_root_directory = 1,
     ds_map_start = 999, ds_map_length = 1, ds_map_checksum = 0, ds_sequence = 1, ds_creation_time = 0\<rparr>"
  "rfs_l1_groups blank_volume = 1" "rfs_mem blank_volume = (\<lambda>_. True)"
  by (simp_all add: blank_volume_def small_volume_def)

lemma ram_disk: "rfs_disk (storage_dev rname) (ram_ok nb) nb ram_sector"
  "reliable_disk (storage_dev rname) (ram_ok nb) nb ram_sector"
  by (rule rd.rfs_disk_axioms rd.reliable_disk_axioms)+

section \<open>Properties of the free space map\<close>

text \<open>C13: \<^verbatim>\<open>rfs_mark_extent\<close> on a disk that may fail.  The counters and bits in memory mirror the bitmap on disk
  afterwards, whether or not the device failed on the way; a successful call gives exactly the sectors of
  the extent (cut off at the end of the volume) the new state, a failed one a prefix of them; and
  only sectors of the map are written.\<close>

theorem rfs_mark_extent_correct:
  assumes "rfs_disk dv ok nblk sector" "vol_ok ok nblk r" "mirror sector r"
    "start < rfs_total r" "0 < len" "start + len < W64"
  shows "\<exists>res r' m. rfs_mark_extent dv r start len mark_used = (res, r') \<and> vol_ok ok nblk r' \<and> mirror sector r' \<and>
    (if res = None then m \<le> min len (rfs_total r - start) else m = min len (rfs_total r - start)) \<and>
    (\<forall>k<rfs_total r. used sector r' k = (if start \<le> k \<and> k < start + m then mark_used else used sector r k)) \<and>
    (\<forall>k. \<not> (ds_map_start (the (rfs_desc r)) \<le> k \<and> k < ds_map_start (the (rfs_desc r)) + rfs_l1_groups r) \<longrightarrow>
       vsec sector r' k = vsec sector r k)"
proof -
  obtain res r' m where "rfs_mark_extent dv r start len mark_used = (res, r')" "vol_ok ok nblk r'" "mirror sector r'"
    "m \<le> min len (rfs_total r - start)" "res \<noteq> None \<longrightarrow> m = min len (rfs_total r - start)"
    "\<forall>k. \<not> (ds_map_start (the (rfs_desc r)) \<le> k \<and> k < ds_map_start (the (rfs_desc r)) + rfs_l1_groups r) \<longrightarrow>
       vsec sector r' k = vsec sector r k"
    "\<forall>k<rfs_total r. used sector r' k = (if start \<le> k \<and> k < start + m then mark_used else used sector r k)"
    using rfs_disk.mark_extent_ok [OF assms, of mark_used] by blast
  then show ?thesis by (intro exI [of _ res] exI [of _ r'] exI [of _ m]) simp
qed

theorem rfs_mark_extent_correct_witness:
  "\<exists>res r'. rfs_mark_extent (storage_dev rname) blank_volume 10 30 True = (res, r') \<and> mirror ram_sector r'"
  using rfs_mark_extent_correct [OF ram_disk(1) blank_volume_ok(1,2), of 10 30 True] by (auto simp: W64_def)

text \<open>C17: \<^verbatim>\<open>rfs_find_free_extent\<close> for at most a group of sectors, on a reliable disk with correct caches, finds an
  extent inside the volume whose sectors are all free, whenever some group has such a run; without
  one it fails with \<^verbatim>\<open>FS_ERR_NO_SPACE\<close>.\<close>

theorem rfs_find_free_extent_correct:
  assumes "reliable_disk dv ok nblk sector" "vol_ok ok nblk r" "mirror sector r"
    "0 < need" "need \<le> 4096" "need \<le> rfs_total r"
  shows "case rfs_find_free_extent dv r need of
      (Some start, r') \<Rightarrow> start + need \<le> rfs_total r \<and> (\<forall>j. start \<le> j \<and> j < start + need \<longrightarrow> \<not> used sector r j)
    | (None, r') \<Rightarrow> rfs_error r' = Some FS_ERR_NO_SPACE \<and> \<not> (\<exists>g k. g < rfs_l1_groups r \<and> group_run sector r need g k)"
proof -
  obtain res r' where e: "rfs_find_free_extent dv r need = (res, r')" by (cases "rfs_find_free_extent dv r need")
  have base: "rfs_disk dv ok nblk sector" using assms(1) by (simp add: reliable_disk_def)
  have geom: "geom_ok r" using assms(3) by (simp add: mirror_def)
  show ?thesis
    using rfs_disk.find_extent_ok [OF base assms(2) mirror_all_free_sound [OF assms(3)] assms(4-6) e]
      reliable_disk.load_succeeds [OF assms(1) _ assms(2) geom] assms(3) e
    by (auto simp: fs_set_error_def split: option.splits)
qed

theorem rfs_find_free_extent_correct_witness:
  "case rfs_find_free_extent (storage_dev rname) blank_volume 30 of
     (Some start, r') \<Rightarrow> start + 30 \<le> 1000 | (None, r') \<Rightarrow> rfs_error r' = Some FS_ERR_NO_SPACE"
  using rfs_find_free_extent_correct [OF ram_disk(2) blank_volume_ok(1,2), of 30] by (auto split: option.splits)

text \<open>The free prefix of a group is counted exactly, but the free suffix may be counted too long: after a
  whole free byte the scan goes on one byte too low, and jumps over a byte that is in use.\<close>

theorem rfs_group_suffix_overcounts:
  "fst (rfs_group_prefix_suffix_free [0x00, 0xFF, 0x00] 24) = 8 \<and>
   snd (rfs_group_prefix_suffix_free [0x00, 0xFF, 0x00] 24) = 24 \<and> buf_bit [0x00, 0xFF, 0x00] 15"
  by code_simp

end
