(* ===== verification/RfsBuild.thy ===== *)
theory RfsBuild
  imports RfsDemo
begin

text \<open>
  The counting pass of \<^verbatim>\<open>rfs_build_level_caches\<close>.  Its loop header advances the position also after the inner
  loop has done so, so every word with a free sector moves the count by two words.  The theory follows
  one run of the pass on a concrete map and shows what comes out of it.
\<close>

lemma spread_full:
  assumes "g * 4096 \<le> pos" "pos + 64 \<le> (g + 1) * 4096" "g < ngr"
  shows "spread_word tot ngr (NOT 0) 64 fcs pos = (add_free tot fcs g 64, pos + 64)"
proof -
  have g: "pos div 4096 = g" using assms(1,2) by (intro div_nat_eqI) auto
  have m: "min 64 ((g + 1) * 4096 - pos) = 64" using assms(2) by simp
  have p: "popcount64 (NOT 0) = 64" by (simp add: popcount64_def bit_simps)
  have n: "(NOT 0 :: u64w) \<noteq> 0" by simp
  show ?thesis
    unfolding spread_word.simps [of tot ngr "NOT 0"] Let_def RFS_L1_GROUP_SECTORS_def g m
    using assms(3) n p by (simp add: low_mask_def spread_word.simps)
qed

lemma count_used_words:
  assumes "\<forall>wi\<in>set wis. word_at buf wi = NOT 0"
  shows "count_words tot ngr buf (wis @ rest) fcs pos = count_words tot ngr buf rest fcs (pos + 64 * length wis)"
  using assms by (induction wis arbitrary: pos) (simp_all add: add.assoc)

lemma count_free_words:
  assumes "\<forall>wi\<in>set wis. word_at buf wi = 0" "g * 4096 \<le> pos" "pos + 128 * length wis \<le> (g + 1) * 4096" "g < ngr"
  shows "count_words tot ngr buf (wis @ rest) fcs pos =
    count_words tot ngr buf rest (((\<lambda>f. add_free tot f g 64) ^^ length wis) fcs) (pos + 128 * length wis)"
  using assms
proof (induction wis arbitrary: pos fcs)
  case Nil
  then show ?case by simp
next
  case (Cons wi wis)
  have s: "spread_word tot ngr (NOT 0) 64 fcs pos = (add_free tot fcs g 64, pos + 64)"
    by (rule spread_full) (use Cons.prems in simp_all)
  have "count_words tot ngr buf ((wi # wis) @ rest) fcs pos =
      count_words tot ngr buf (wis @ rest) (add_free tot fcs g 64) (pos + 128)"
    using Cons.prems(1) s by (simp add: Let_def add.commute)
  also have "\<dots> = count_words tot ngr buf rest (((\<lambda>f. add_free tot f g 64) ^^ length wis) (add_free tot fcs g 64))
      (pos + 128 + 128 * length wis)"
    by (rule Cons.IH) (use Cons.prems in simp_all)
  finally show ?case by (simp only: length_Cons funpow_Suc_right comp_apply mult_Suc_right add.assoc)
qed

text \<open>The map of a volume of 4160 sectors: 2048 used, 2048 free, and a second group of 64 used sectors.\<close>

definition bad_map :: "byte list" where
  "bad_map = replicate 256 0xFF @ replicate 256 0x00 @ replicate 512 0xFF"

lemma bad_map_word:
  "wi < 32 \<Longrightarrow> word_at bad_map wi = NOT 0" "32 \<le> wi \<Longrightarrow> wi < 64 \<Longrightarrow> word_at bad_map wi = 0"
  "word_at bad_map 64 = NOT 0"
proof -
  have ff: "of_nat (of_le (replicate 8 0xFF)) = (NOT 0 :: u64w)"
  proof -
    have "replicate 8 0xFF = [0xFF, 0xFF, 0xFF, 0xFF, 0xFF, 0xFF, 0xFF, 0xFF :: byte]" by (simp add: eval_nat_numeral)
    then have "of_le (replicate 8 0xFF) = 18446744073709551615" by simp
    then show ?thesis by simp
  qed
  have zz: "of_nat (of_le (replicate 8 0)) = (0 :: u64w)"
  proof -
    have "of_le (replicate n 0) = 0" for n by (induction n) simp_all
    then show ?thesis by simp
  qed
  show "word_at bad_map wi = NOT 0" if "wi < 32"
    using that ff by (simp add: word_at_def bad_map_def min_def)
  show "word_at bad_map wi = 0" if "32 \<le> wi" "wi < 64"
  proof -
    have "drop (8 * wi) bad_map = drop (8 * wi - 256) (replicate 256 0) @ replicate 512 0xFF"
      using that by (simp add: bad_map_def)
    then show ?thesis using that zz by (simp add: word_at_def min_def)
  qed
  show "word_at bad_map 64 = NOT 0" using ff by (simp add: word_at_def bad_map_def)
qed

lemma bad_count: "count_chunk 4160 2 bad_map 4160 [0, 0] 0 = [1024, 64]"
proof -
  have wis: "[0 ..< 65] = [0 ..< 32] @ [32 ..< 48] @ [48 ..< 64] @ [64]" by (simp add: upt_rec)
  have "((\<lambda>f. add_free 4160 f 0 64) ^^ n) [0, 0] = [64 * n, 0]" if "n \<le> 64" for n
    using that by (induction n) (simp_all add: add_free_def Let_def RFS_L1_GROUP_SECTORS_def)
  then have f0: "((\<lambda>f. add_free 4160 f 0 64) ^^ 16) [0, 0] = [1024, 0]" by simp
  have "((\<lambda>f. add_free 4160 f 1 64) ^^ Suc n) [1024, 0] = [1024, 64]" for n
    by (induction n) (simp_all add: add_free_def Let_def RFS_L1_GROUP_SECTORS_def)
  from this [of 15] have f1: "((\<lambda>f. add_free 4160 f 1 64) ^^ 16) [1024, 0] = [1024, 64]"
    unfolding numeral_eq_Suc by simp
  let ?count = "count_words 4160 2 bad_map"
  have "?count ([0 ..< 32] @ [32 ..< 48] @ [48 ..< 64] @ [64]) [0, 0] 0 =
      ?count ([32 ..< 48] @ [48 ..< 64] @ [64]) [0, 0] (0 + 64 * length [0 ..< 32])"
    by (rule count_used_words) (use bad_map_word(1) in auto)
  also have "(0 :: nat) + 64 * length [0 ..< 32] = 2048" by simp
  also have "?count ([32 ..< 48] @ [48 ..< 64] @ [64]) [0, 0] 2048 =
      ?count ([48 ..< 64] @ [64]) (((\<lambda>f. add_free 4160 f 0 64) ^^ length [32 ..< 48]) [0, 0]) (2048 + 128 * length [32 ..< 48])"
    by (rule count_free_words) (use bad_map_word(2) in simp_all)
  also have "length [32 ..< 48] = 16" by simp
  also note f0
  also have "(2048 :: nat) + 128 * 16 = 4096" by simp
  also have "?count ([48 ..< 64] @ [64]) [1024, 0] 4096 =
      ?count [64] (((\<lambda>f. add_free 4160 f 1 64) ^^ length [48 ..< 64]) [1024, 0]) (4096 + 128 * length [48 ..< 64])"
    by (rule count_free_words) (use bad_map_word(2) in simp_all)
  also have "length [48 ..< 64] = 16" by simp
  also note f1
  also have "?count [64] [1024, 64] (4096 + 128 * 16) = ([1024, 64], 6208)"
    using bad_map_word(3) by simp
  finally have "?count [0 ..< 65] [0, 0] 0 = ([1024, 64], 6208)" unfolding wis .
  then show ?thesis by (simp add: count_chunk_def Let_def)
qed

definition bad_volume :: "ramdisks storage rfs" where
  "bad_volume = \<lparr>rfs_dev = stack_of (replicate (4158 * 512) 0 @ bad_map) 4160, rfs_start = 0, rfs_length = 4160,
     rfs_desc = Some \<lparr>ds_identifier = RFS_ID, ds_root_directory = 1, ds_map_start = 4158, ds_map_length = 2,
       ds_map_checksum = 0, ds_sequence = 1, ds_creation_time = 0\<rparr>,
     rfs_total = 4160, rfs_cached = False, rfs_l1_groups = 0, rfs_l2_groups = 0, rfs_l1_free = [],
     rfs_l1_not_full = [], rfs_l1_all_free = [], rfs_l2_not_full = [], rfs_l2_all_free = [],
     rfs_error = None, rfs_mem = (\<lambda>_. True), rfs_requests = 0\<rparr>"

lemma bad_volume_vol: "vol_ok (ram_ok 4160) 4160 (bad_volume\<lparr>rfs_l1_groups := a, rfs_l2_groups := b,
    rfs_requests := q, rfs_cached := c, rfs_l1_free := l1, rfs_l1_not_full := l2, rfs_l1_all_free := l3,
    rfs_l2_not_full := l4, rfs_l2_all_free := l5\<rparr>)"
proof -
  have "length bad_map = 1024" by (simp add: bad_map_def)
  then have "ram_ok 4160 (stack_of (replicate (4158 * 512) 0 @ bad_map) 4160)"
    by (intro stack_of_ok) (simp_all add: W64_def)
  then show ?thesis by (simp add: vol_ok_def bad_volume_def)
qed

lemma bad_volume_sec: "vsec ram_sector r = nth_sector 512 (replicate (4158 * 512) 0 @ bad_map)"
  if "rfs_dev r = rfs_dev bad_volume" "rfs_start r = 0" for r
  using that by (intro ext) (simp add: vsec_def bad_volume_def stack_of_sector)

lemma bad_volume_map: "get_sectors (nth_sector 512 (replicate (4158 * 512) 0 @ bad_map)) 4158 2 = bad_map"
proof -
  have "length bad_map = 1024" by (simp add: bad_map_def)
  then show ?thesis
    using take_sectors [of 4158 2 512 "replicate (4158 * 512) 0 @ bad_map"] by simp
qed

lemma bad_stream:
  assumes "rfs_dev r = rfs_dev bad_volume" "rfs_start r = 0" "rfs_total r = 4160" "rfs_l1_groups r = 2"
    "rfs_desc r = rfs_desc bad_volume" "vol_ok (ram_ok 4160) 4160 r"
  shows "\<exists>d. stream_map (storage_dev rname) r 0 0 [0, 0] = (Some [1024, 64], r\<lparr>rfs_dev := d\<rparr>) \<and>
    ram_sector d = ram_sector (rfs_dev r)"
proof -
  have io: "io_size 2" by (simp add: io_size_def U32_def)
  obtain d where d: "rfs_read_device (storage_dev rname) r 4158 (2 * 512) = (Some bad_map, r\<lparr>rfs_dev := d\<rparr>)"
    "ram_sector d = ram_sector (rfs_dev r)"
    using rd.rfs_reads [OF assms(6) io, of 4158] assms(3) unfolding bad_volume_sec [OF assms(1,2)] bad_volume_map by auto
  have ds: "ds_map_start (the (rfs_desc r)) = 4158" "ds_map_length (the (rfs_desc r)) = 2"
    using assms(5) by (simp_all add: bad_volume_def)
  have st: "rfs_read_device (storage_dev rname) r (add64 4158 0) (min (2 - 0) RFS_MAP_READ_CHUNK_SECTORS * RFS_SECTOR_SIZE)
      = (Some bad_map, r\<lparr>rfs_dev := d\<rparr>)"
    using d(1) by (simp add: RFS_MAP_READ_CHUNK_SECTORS_def RFS_SECTOR_SIZE_def add64_nowrap W64_def)
  have "stream_map (storage_dev rname) r 0 0 [0, 0] =
      stream_map (storage_dev rname) (r\<lparr>rfs_dev := d\<rparr>) 2 4160 (count_chunk 4160 2 bad_map 4160 [0, 0] 0)"
    unfolding stream_map.simps [of _ r 0 0] Let_def ds assms(3,4) st
    by (simp add: RFS_MAP_READ_CHUNK_SECTORS_def RFS_SECTOR_SIZE_def numeral_2_eq_2)
  also have "\<dots> = (Some [1024, 64], r\<lparr>rfs_dev := d\<rparr>)"
    unfolding bad_count by (subst stream_map.simps) (simp add: ds)
  finally show ?thesis using d(2) by blast
qed

section \<open>Properties\<close>

text \<open>The caches built at mount can be wrong.  On a volume whose second group is entirely in use,
  \<^verbatim>\<open>rfs_build_level_caches\<close> succeeds and marks that group as entirely free, because the counting loop moves its
  position twice for every word that has a free sector.\<close>

theorem rfs_build_level_caches_wrong:
  "\<exists>r'. rfs_build_level_caches (storage_dev rname) bad_volume = (Some (), r') \<and>
     bitset_get (rfs_l1_all_free r') 1 \<and> list_all (used ram_sector r') [4096 ..< 4160]"
proof -
  let ?r3 = "bad_volume\<lparr>rfs_l1_groups := 2, rfs_l2_groups := 1, rfs_requests := 1, rfs_cached := True,
    rfs_l1_free := replicate 2 0, rfs_l1_not_full := replicate 1 0, rfs_l1_all_free := replicate 1 0,
    rfs_l2_not_full := replicate 1 0, rfs_l2_all_free := replicate 1 0\<rparr>"
  obtain d where d: "stream_map (storage_dev rname) ?r3 0 0 [0, 0] = (Some [1024, 64], ?r3\<lparr>rfs_dev := d\<rparr>)"
    "ram_sector d = ram_sector (rfs_dev ?r3)"
    using bad_stream [of ?r3] bad_volume_vol by (auto simp: bad_volume_def)
  let ?r' = "fold_l2 (derive_l1 (?r3\<lparr>rfs_dev := d, rfs_l1_free := [1024, 64]\<rparr>))"
  have lists: "replicate 2 0 = [0, 0 :: nat]" by (simp add: eval_nat_numeral)
  have b: "rfs_build_level_caches (storage_dev rname) bad_volume = (Some (), ?r')"
    using d(1)
    by (simp add: rfs_build_level_caches_def rfs_kmalloc_def bad_volume_def RFS_L1_GROUP_SECTORS_def
        RFS_L2_GROUPS_PER_SUPER_def bitset_bytes_def Let_def lists)
  have two: "[0 ..< 2] = [0, 1 :: nat]" by (simp add: upt_rec)
  have g: "rfs_group_size (?r3\<lparr>rfs_dev := d, rfs_l1_free := [1024, 64], rfs_l1_not_full := x, rfs_l1_all_free := y\<rparr>) 1 = 64" for x y
    by (simp add: rfs_group_size_def bad_volume_def RFS_L1_GROUP_SECTORS_def)
  have "rfs_l1_all_free ?r' = rfs_l1_all_free (derive_l1 (?r3\<lparr>rfs_dev := d, rfs_l1_free := [1024, 64]\<rparr>))"
    by (simp add: fold_l2_def Let_def derive_l1_def two bad_volume_def)
  then have af: "bitset_get (rfs_l1_all_free ?r') 1"
    using g by (simp add: derive_l1_def two Let_def bad_volume_def bitset_get_set)
  have dv: "rfs_dev ?r' = d" "rfs_start ?r' = 0" "rfs_desc ?r' = rfs_desc bad_volume"
    by (simp_all add: fold_l2_def derive_l1_def two Let_def bad_volume_def)
  have "vsec ram_sector ?r' = vsec ram_sector bad_volume"
    using dv d(2) by (intro ext) (simp add: vsec_def bad_volume_def)
  then have vs: "vsec ram_sector ?r' = nth_sector 512 (replicate (4158 * 512) 0 @ bad_map)"
    using bad_volume_sec [of bad_volume] by (simp add: bad_volume_def)
  have "nth_sector 512 (replicate (4158 * 512) 0 @ bad_map) 4159 = replicate 512 0xFF"
    by (simp add: nth_sector_def bad_map_def)
  then have m: "map_sec ram_sector ?r' 1 = replicate 512 0xFF"
    unfolding map_sec_def vs dv by (simp add: bad_volume_def)
  have u: "used ram_sector ?r' k" if "4096 \<le> k" "k < 4160" for k
  proof -
    have "k div 4096 = 1" using that by (intro div_nat_eqI) auto
    moreover have "k mod 4096 div 8 < 512" by simp
    moreover have "bit (0xFF :: byte) (k mod 4096 mod 8)"
    proof -
      have "(0xFF :: byte) = mask 8" by (simp add: mask_eq_exp_minus_1)
      then show ?thesis by (simp only: bit_mask_iff) simp
    qed
    ultimately show ?thesis using m by (simp add: used_def buf_bit_def)
  qed
  have "list_all (used ram_sector ?r') [4096 ..< 4160]"
    unfolding list_all_iff by (intro ballI u) (simp_all only: set_upt atLeastLessThan_iff)
  then show ?thesis using b af by blast
qed

end
