(* ===== verification/StringFns.thy ===== *)
theory StringFns
  imports CString "HOL-Library.Sublist"
begin

text \<open>
  The string routines of \<^verbatim>\<open>src/string.c\<close>.  A source string is the list of bytes from its first byte on,
  as in \<^theory_text>\<open>CString\<close>; a result pointer is an offset into it, \<open>None\<close> for \<^verbatim>\<open>NULL\<close>.  A destination
  is a buffer of fixed length: an access outside it is the result \<open>None\<close>.
\<close>

section \<open>Scanning\<close>

text \<open>The byte at offset \<open>i\<close>; the end of the list is the terminator.\<close>

definition char_at :: "byte list \<Rightarrow> nat \<Rightarrow> byte" where
  "char_at s i = (if i < length s then s ! i else 0)"

definition tolower :: "byte \<Rightarrow> byte" where
  "tolower b = (if 65 \<le> unat b \<and> unat b \<le> 90 then b + 32 else b)"

fun strtolower :: "byte list \<Rightarrow> byte list" where
  "strtolower [] = []"
| "strtolower (c # cs) = (if c = 0 then c # cs else tolower c # strtolower cs)"

fun strchr_from :: "nat \<Rightarrow> byte list \<Rightarrow> byte \<Rightarrow> nat option" where
  "strchr_from i [] c = None"
| "strchr_from i (b # bs) c = (if b = 0 then None else if b = c then Some i else strchr_from (i + 1) bs c)"

definition strchr :: "byte list \<Rightarrow> byte \<Rightarrow> nat option" where
  "strchr s c = strchr_from 0 s c"

text \<open>The loop of \<^verbatim>\<open>strrchr\<close>: the last match so far and, at the end, the offset of the terminator.\<close>

fun strrchr_loop :: "nat \<Rightarrow> nat option \<Rightarrow> byte list \<Rightarrow> byte \<Rightarrow> nat option \<times> nat" where
  "strrchr_loop i lst [] c = (lst, i)"
| "strrchr_loop i lst (b # bs) c =
     (if b = 0 then (lst, i) else strrchr_loop (i + 1) (if b = c then Some i else lst) bs c)"

definition strrchr :: "byte list \<Rightarrow> byte \<Rightarrow> nat option" where
  "strrchr s c = (case strrchr_loop 0 None s c of (lst, e) \<Rightarrow> if c = 0 then Some e else lst)"

function strncmp :: "byte list \<Rightarrow> byte list \<Rightarrow> nat \<Rightarrow> int" where
  "strncmp p1 p2 n =
     (if n = 0 then 0
      else let a = peek p1; b = peek p2
           in if a = b then (if a \<noteq> 0 then strncmp (tl p1) (tl p2) (n - 1) else 0)
              else int (unat a) - int (unat b))"
  by pat_completeness auto
termination
  by (relation "measure (\<lambda>(p1, p2, n). n)") auto

declare strncmp.simps [simp del]

function strnicmp :: "byte list \<Rightarrow> byte list \<Rightarrow> nat \<Rightarrow> int" where
  "strnicmp s1 s2 n =
     (if n = 0 then 0
      else if toupper (peek s1) \<noteq> toupper (peek s2) then int (unat (peek s1)) - int (unat (peek s2))
      else if peek s1 = 0 then 0
      else strnicmp (tl s1) (tl s2) (n - 1))"
  by pat_completeness auto
termination
  by (relation "measure (\<lambda>(s1, s2, n). n)") auto

declare strnicmp.simps [simp del]

function strcasecmp :: "byte list \<Rightarrow> byte list \<Rightarrow> int" where
  "strcasecmp s1 s2 =
     (if peek s1 \<noteq> 0 \<and> peek s2 \<noteq> 0
      then let c1 = tolower (peek s1); c2 = tolower (peek s2)
           in if c1 \<noteq> c2 then int (unat c1) - int (unat c2) else strcasecmp (tl s1) (tl s2)
      else int (unat (tolower (peek s1))) - int (unat (tolower (peek s2))))"
  by pat_completeness auto
termination
  by (relation "measure (\<lambda>(s1, s2). length s1)") (auto simp: peek_def split: list.splits)

declare strcasecmp.simps [simp del]

text \<open>The inner loop of \<^verbatim>\<open>strstr\<close>: the needle left over when it stops.\<close>

fun match_here :: "byte list \<Rightarrow> byte list \<Rightarrow> byte list" where
  "match_here (h # hs) (n # ns) = (if h \<noteq> 0 \<and> n \<noteq> 0 \<and> h = n then match_here hs ns else n # ns)"
| "match_here _ ns = ns"

fun strstr_from :: "nat \<Rightarrow> byte list \<Rightarrow> byte list \<Rightarrow> nat option" where
  "strstr_from i [] needle = None"
| "strstr_from i (h # hs) needle =
     (if h = 0 then None
      else if peek (match_here (h # hs) needle) = 0 then Some i
      else strstr_from (i + 1) hs needle)"

definition strstr :: "byte list \<Rightarrow> byte list \<Rightarrow> nat option" where
  "strstr haystack needle = (if peek needle = 0 then Some 0 else strstr_from 0 haystack needle)"

text \<open>\<^verbatim>\<open>strlen_ansi\<close>: skip a control sequence up to its final character.\<close>

fun skip_csi :: "byte list \<Rightarrow> byte list" where
  "skip_csi [] = []"
| "skip_csi (c # cs) =
     (if c = 0 then c # cs else if 64 \<le> unat c \<and> unat c \<le> 126 then cs else skip_csi cs)"

lemma length_skip_csi: "length (skip_csi s) \<le> length s"
  by (induction s) auto

function strlen_ansi :: "byte list \<Rightarrow> nat" where
  "strlen_ansi s =
     (if peek s = 0 then 0
      else if peek s = 0x1b \<and> peek (tl s) = 0x5b then strlen_ansi (skip_csi (tl (tl s)))
      else strlen_ansi (tl s) + 1)"
  by pat_completeness auto
termination
proof (relation "measure length", goal_cases)
  case 1
  then show ?case by simp
next
  case (2 s)
  then obtain c cs where "s = c # cs" by (cases s) (auto simp: peek_def)
  then show ?case
    using le_less_trans [OF length_skip_csi [of "tl cs"], of "Suc (length cs)"] by (cases cs) auto
next
  case (3 s)
  then show ?case by (cases s) (auto simp: peek_def)
qed

declare strlen_ansi.simps [simp del]

section \<open>Copying\<close>

definition poke :: "byte list \<Rightarrow> nat \<Rightarrow> byte \<Rightarrow> byte list option" where
  "poke dst d c = (if d < length dst then Some (dst[d := c]) else None)"

text \<open>\<^verbatim>\<open>do { if ((*d++ = *s++) == 0) break; } while (--n != 0);\<close> for \<open>n = Suc k\<close>: the destination, the offsets
  \<^verbatim>\<open>d\<close> and \<^verbatim>\<open>s\<close>, and \<^verbatim>\<open>n\<close> when the loop is left.\<close>

fun strlcpy_loop :: "byte list \<Rightarrow> byte list \<Rightarrow> nat \<Rightarrow> nat \<Rightarrow> nat \<Rightarrow> (byte list \<times> nat \<times> nat \<times> nat) option" where
  "strlcpy_loop dst src d s 0 = Some (dst, d, s, 0)"
| "strlcpy_loop dst src d s (Suc k) =
     (case poke dst d (char_at src s) of
        None \<Rightarrow> None
      | Some dst1 \<Rightarrow>
          if char_at src s = 0 then Some (dst1, d + 1, s + 1, Suc k)
          else strlcpy_loop dst1 src (d + 1) (s + 1) k)"

text \<open>\<^verbatim>\<open>while (*s++);\<close>\<close>

function skip_string :: "byte list \<Rightarrow> nat \<Rightarrow> nat" where
  "skip_string src s = (if char_at src s \<noteq> 0 then skip_string src (s + 1) else s + 1)"
  by pat_completeness auto
termination
  by (relation "measure (\<lambda>(src, s). length src - s)") (auto simp: char_at_def split: if_splits)

declare skip_string.simps [simp del]

definition strlcpy :: "byte list \<Rightarrow> byte list \<Rightarrow> nat \<Rightarrow> (nat \<times> byte list) option" where
  "strlcpy dst src siz =
     (case strlcpy_loop dst src 0 0 (siz - 1) of
        None \<Rightarrow> None
      | Some (dst1, d, s, n) \<Rightarrow>
          if n = 0
          then (case (if siz \<noteq> 0 then poke dst1 d 0 else Some dst1) of
                  None \<Rightarrow> None
                | Some dst2 \<Rightarrow> Some (skip_string src s - 1, dst2))
          else Some (s - 1, dst1))"

text \<open>\<^verbatim>\<open>while (n-- != 0 && *d != '\0') d++;\<close>\<close>

fun dst_end :: "byte list \<Rightarrow> nat \<Rightarrow> nat \<Rightarrow> nat option" where
  "dst_end dst d 0 = Some d"
| "dst_end dst d (Suc n) =
     (if d < length dst then (if dst ! d \<noteq> 0 then dst_end dst (d + 1) n else Some d) else None)"

text \<open>The copy loop: the destination, \<^verbatim>\<open>d\<close> and \<^verbatim>\<open>s\<close> when it ends.\<close>

function strlcat_loop ::
    "byte list \<Rightarrow> byte list \<Rightarrow> nat \<Rightarrow> nat \<Rightarrow> nat \<Rightarrow> (byte list \<times> nat \<times> nat) option" where
  "strlcat_loop dst src d s n =
     (if char_at src s = 0 then Some (dst, d, s)
      else if n \<noteq> 1
      then (case poke dst d (char_at src s) of
              None \<Rightarrow> None
            | Some dst1 \<Rightarrow> strlcat_loop dst1 src (d + 1) (s + 1) (n - 1))
      else strlcat_loop dst src d (s + 1) n)"
  by pat_completeness auto
termination
  by (relation "measure (\<lambda>(dst, src, d, s, n). length src - s)") (auto simp: char_at_def split: if_splits)

declare strlcat_loop.simps [simp del]

definition strlcat :: "byte list \<Rightarrow> byte list \<Rightarrow> nat \<Rightarrow> (nat \<times> byte list) option" where
  "strlcat dst src siz =
     (case dst_end dst 0 siz of
        None \<Rightarrow> None
      | Some dlen \<Rightarrow>
          if siz - dlen = 0 then Some (dlen + strlen src, dst)
          else (case strlcat_loop dst src dlen 0 (siz - dlen) of
                  None \<Rightarrow> None
                | Some (dst1, d, s) \<Rightarrow>
                    (case poke dst1 d 0 of None \<Rightarrow> None | Some dst2 \<Rightarrow> Some (dlen + s, dst2))))"

text \<open>\<open>km n\<close> is \<^verbatim>\<open>kmalloc(n)\<close>: a fresh block of \<open>n\<close> bytes or \<open>None\<close>.  The outer \<open>None\<close> is an access outside
  the block.\<close>

definition strdup :: "(nat \<Rightarrow> byte list option) \<Rightarrow> byte list \<Rightarrow> byte list option option" where
  "strdup km string =
     (let len = strlen string
      in case km (len + 1) of
           None \<Rightarrow> Some None
         | Some result \<Rightarrow>
             (case strlcpy result string (len + 1) of
                None \<Rightarrow> None
              | Some (_, r1) \<Rightarrow> map_option Some (poke r1 len 0)))"

section \<open>Tokens\<close>

text \<open>\<^verbatim>\<open>strtok_r\<close> works in place on one buffer; \<^verbatim>\<open>s\<close> and \<^verbatim>\<open>*save\<close> are offsets into it.\<close>

definition is_delim :: "byte list \<Rightarrow> byte \<Rightarrow> bool" where
  "is_delim delim c \<longleftrightarrow> c \<in> set (cstr delim)"

function skip_delims :: "byte list \<Rightarrow> byte list \<Rightarrow> nat \<Rightarrow> nat" where
  "skip_delims buf delim s =
     (if char_at buf s \<noteq> 0 \<and> is_delim delim (char_at buf s) then skip_delims buf delim (s + 1) else s)"
  by pat_completeness auto
termination
  by (relation "measure (\<lambda>(buf, delim, s). length buf - s)") (auto simp: char_at_def split: if_splits)

declare skip_delims.simps [simp del]

function token_end :: "byte list \<Rightarrow> byte list \<Rightarrow> nat \<Rightarrow> nat" where
  "token_end buf delim s =
     (if char_at buf s \<noteq> 0 \<and> \<not> is_delim delim (char_at buf s) then token_end buf delim (s + 1) else s)"
  by pat_completeness auto
termination
  by (relation "measure (\<lambda>(buf, delim, s). length buf - s)") (auto simp: char_at_def split: if_splits)

declare token_end.simps [simp del]

definition strtok_r ::
    "byte list \<Rightarrow> nat option \<Rightarrow> byte list \<Rightarrow> nat option \<Rightarrow> nat option \<times> byte list \<times> nat option" where
  "strtok_r buf s delim save =
     (case (if s = None then save else s) of
        None \<Rightarrow> (None, buf, save)
      | Some p \<Rightarrow>
          (let t = skip_delims buf delim p
           in if char_at buf t = 0 then (None, buf, None)
              else let e = token_end buf delim t
                   in if char_at buf e = 0 then (Some t, buf, None)
                      else (Some t, buf[e := 0], Some (e + 1))))"

section \<open>Absolute values\<close>

definition c_abs :: "32 word \<Rightarrow> 32 word" where
  "c_abs a = (let msk = NOT (signed_drop_bit 31 a AND 1) + 1 in (a XOR msk) - msk)"

definition c_labs :: "64 word \<Rightarrow> 64 word" where
  "c_labs a = (let msk = NOT (signed_drop_bit 63 a AND 1) + 1 in (a XOR msk) - msk)"

end
