(* ===== verification/RfsDir.thy ===== *)
theory RfsDir
  imports RfsMap StringFns
begin

text \<open>
  Directories of RetroFS: \<^verbatim>\<open>rfs_locate_entry\<close> (\<^verbatim>\<open>helpers.c\<close>), \<^verbatim>\<open>rfs_upsert_directory_entry\<close> (\<^verbatim>\<open>createfile.c\<close>),
  \<^verbatim>\<open>rfs_delete_directory_entry\<close> (\<^verbatim>\<open>unlink.c\<close>) and \<^verbatim>\<open>rfs_walk_directory\<close> (\<^verbatim>\<open>getdirectory.c\<close>).  A directory is a chain
  of blocks of 64 sectors.  A block is a byte list of 128 half-sector slots: slot 0 is the start
  entry, the other 127 hold entries up to the first empty name.  Fields are read and written at the
  offsets of the packed structures of \<^verbatim>\<open>retrofs.h\<close>.
\<close>

section \<open>Layout\<close>

definition RFS_FLAG_DIRECTORY :: "32 word" where "RFS_FLAG_DIRECTORY = 0x0001"

definition RFS_FLAG_DIR_START :: "32 word" where "RFS_FLAG_DIR_START = 0x0004"

definition FS_DIRECTORY :: "32 word" where "FS_DIRECTORY = 0x00000001"

definition u32_at :: "byte list \<Rightarrow> nat \<Rightarrow> 32 word" where
  "u32_at buf off = of_nat (of_le (take 4 (drop off buf)))"

definition u64_at :: "byte list \<Rightarrow> nat \<Rightarrow> nat" where
  "u64_at buf off = of_le (take 8 (drop off buf))"

definition DIR_BLOCK_BYTES :: nat where "DIR_BLOCK_BYTES = RFS_SECTOR_SIZE * RFS_DEFAULT_DIR_SIZE"

definition ENTRIES_PER_BLOCK :: nat where "ENTRIES_PER_BLOCK = RFS_DEFAULT_DIR_SIZE * 2 - 1"

definition WALK_LIMIT :: nat where "WALK_LIMIT = 65536"

text \<open>The start entry of a block: its flags, sector count and continuation.\<close>

definition start_ok :: "byte list \<Rightarrow> bool" where
  "start_ok block \<longleftrightarrow> u32_at block 0 AND RFS_FLAG_DIR_START \<noteq> 0 \<and> u64_at block 140 = RFS_DEFAULT_DIR_SIZE"

definition continuation :: "byte list \<Rightarrow> nat" where
  "continuation block = u64_at block 148"

definition entry_off :: "nat \<Rightarrow> nat" where
  "entry_off i = 256 * (i + 1)"

definition entry_name :: "byte list \<Rightarrow> nat \<Rightarrow> byte list" where
  "entry_name block i = drop (entry_off i + 4) block"

record rfs_directory_entry_inner =
  en_flags :: "32 word"
  en_filename :: "byte list"
  en_sector_start :: nat
  en_length :: nat
  en_sector_length :: nat
  en_created :: nat
  en_modified :: nat
  en_sequence :: nat

definition get_entry :: "byte list \<Rightarrow> nat \<Rightarrow> rfs_directory_entry_inner" where
  "get_entry block i =
     (let off = entry_off i
      in \<lparr>en_flags = u32_at block off, en_filename = take RFS_MAX_NAME (drop (off + 4) block),
          en_sector_start = u64_at block (off + 132), en_length = u64_at block (off + 140),
          en_sector_length = u64_at block (off + 148), en_created = u64_at block (off + 156),
          en_modified = u64_at block (off + 164), en_sequence = u64_at block (off + 172)\<rparr>)"

text \<open>The parts of \<^verbatim>\<open>fs_tree_t\<close> and \<^verbatim>\<open>fs_directory_entry_t\<close> that the driver uses.  A null pointer is \<open>None\<close>.\<close>

record fs_tree =
  ft_lbapos :: nat

record fs_directory_entry =
  fe_filename :: "byte list option"
  fe_alt_filename :: "byte list option"
  fe_lbapos :: nat
  fe_size :: nat
  fe_flags :: "32 word"
  fe_directory :: "fs_tree option"

definition dir_sector :: "'d rfs \<Rightarrow> fs_tree \<Rightarrow> nat" where
  "dir_sector r tree =
     (if ft_lbapos tree \<noteq> 0 then ft_lbapos tree else ds_root_directory (the (rfs_desc r)))"

definition read_dir_block :: "'d device \<Rightarrow> 'd rfs \<Rightarrow> nat \<Rightarrow> byte list option \<times> 'd rfs" where
  "read_dir_block dv r sec = rfs_read_device dv r sec DIR_BLOCK_BYTES"

definition write_dir_block :: "'d device \<Rightarrow> 'd rfs \<Rightarrow> nat \<Rightarrow> byte list \<Rightarrow> unit option \<times> 'd rfs" where
  "write_dir_block dv r sec block = rfs_write_device dv r sec DIR_BLOCK_BYTES block"

section \<open>Looking for a name\<close>

text \<open>The loop over the entries of a block: it stops at the first empty name or at the name looked for.\<close>

datatype slot = Match nat | Empty nat | Full_block

function scan_slots :: "byte list \<Rightarrow> byte list \<Rightarrow> nat \<Rightarrow> slot" where
  "scan_slots block name i =
     (if i < ENTRIES_PER_BLOCK
      then if peek (entry_name block i) = 0 then Empty i
           else if strcasecmp (entry_name block i) name = 0 then Match i
           else scan_slots block name (i + 1)
      else Full_block)"
  by pat_completeness auto
termination
  by (relation "measure (\<lambda>(block, name, i). ENTRIES_PER_BLOCK - i)") auto

declare scan_slots.simps [simp del]

function locate_walk ::
    "'d device \<Rightarrow> byte list \<Rightarrow> 'd rfs \<Rightarrow> nat \<Rightarrow> nat \<Rightarrow> (nat \<times> nat \<times> rfs_directory_entry_inner) option \<times> 'd rfs" where
  "locate_walk dv name r current walked =
     (if current = 0 then (None, r)
      else if walked > WALK_LIMIT then (None, fs_set_error FS_ERR_CYCLE_DETECTED r)
      else case read_dir_block dv r current of
             (None, r1) \<Rightarrow> (None, r1)
           | (Some block, r1) \<Rightarrow>
               if \<not> start_ok block then (None, r1)
               else case scan_slots block name 0 of
                      Match i \<Rightarrow> (Some (current, i, get_entry block i), r1)
                    | _ \<Rightarrow> if continuation block = 0 then (None, r1)
                           else locate_walk dv name r1 (continuation block) (walked + 1))"
  by pat_completeness auto
termination
  by (relation "measure (\<lambda>(dv, name, r, current, walked). WALK_LIMIT + 1 - walked)") auto

declare locate_walk.simps [simp del]

definition rfs_locate_entry ::
    "'d device \<Rightarrow> 'd rfs \<Rightarrow> fs_tree \<Rightarrow> byte list option \<Rightarrow> (nat \<times> nat \<times> rfs_directory_entry_inner) option \<times> 'd rfs" where
  "rfs_locate_entry dv r tree name =
     (case name of
        None \<Rightarrow> (None, fs_set_error FS_ERR_INVALID_ARG r)
      | Some nm \<Rightarrow>
          if peek nm = 0 then (None, fs_set_error FS_ERR_INVALID_ARG r)
          else locate_walk dv nm r (dir_sector r tree) 0)"

section \<open>Writing an entry\<close>

text \<open>\<^verbatim>\<open>strlcpy(e->filename, name, RFS_MAX_NAME)\<close>; a copy into the 128 bytes of the field stays inside it.\<close>

definition name_field :: "byte list \<Rightarrow> byte list \<Rightarrow> byte list" where
  "name_field field name =
     (case strlcpy field name RFS_MAX_NAME of None \<Rightarrow> field | Some (_, field1) \<Rightarrow> field1)"

definition entry_bytes :: "32 word \<Rightarrow> byte list \<Rightarrow> fs_directory_entry \<Rightarrow> nat \<Rightarrow> byte list" where
  "entry_bytes flags name file extent =
     le_bytes 4 (unat flags) @ name @ le_bytes 8 (fe_lbapos file) @ le_bytes 8 (fe_size file) @ le_bytes 8 extent"

definition dir_flag :: "fs_directory_entry \<Rightarrow> 32 word \<Rightarrow> 32 word" where
  "dir_flag file flags = (if fe_flags file AND FS_DIRECTORY \<noteq> 0 then flags OR RFS_FLAG_DIRECTORY else flags)"

text \<open>The entry that exists already: the name is cleared first, and the other flags are kept.\<close>

definition update_entry :: "byte list \<Rightarrow> nat \<Rightarrow> byte list \<Rightarrow> fs_directory_entry \<Rightarrow> nat \<Rightarrow> byte list" where
  "update_entry block i name file extent =
     memcpy_at (entry_off i)
       (entry_bytes (dir_flag file (u32_at block (entry_off i) AND NOT RFS_FLAG_DIRECTORY))
          (name_field (replicate RFS_MAX_NAME 0) name) file extent) block"

text \<open>A new entry in an empty slot.\<close>

definition insert_entry :: "byte list \<Rightarrow> nat \<Rightarrow> byte list \<Rightarrow> fs_directory_entry \<Rightarrow> nat \<Rightarrow> byte list" where
  "insert_entry block i name file extent =
     memcpy_at (entry_off i)
       (entry_bytes (dir_flag file 0) (name_field (take RFS_MAX_NAME (drop (entry_off i + 4) block)) name)
          file extent) block"

text \<open>The first loop of \<^verbatim>\<open>rfs_upsert_directory_entry\<close>.  It updates an entry of that name, or ends with the first
  empty slot of the chain, if any.\<close>

datatype upsert_scan = Updated | Missing "(nat \<times> nat) option"

function upsert_walk ::
    "'d device \<Rightarrow> byte list \<Rightarrow> fs_directory_entry \<Rightarrow> nat \<Rightarrow> 'd rfs \<Rightarrow> nat \<Rightarrow> (nat \<times> nat) option \<Rightarrow> nat \<Rightarrow>
     upsert_scan option \<times> 'd rfs" where
  "upsert_walk dv name file extent r current hole walked =
     (if current = 0 then (Some (Missing hole), r)
      else if walked > WALK_LIMIT then (None, fs_set_error FS_ERR_CYCLE_DETECTED r)
      else case read_dir_block dv r current of
             (None, r1) \<Rightarrow> (None, r1)
           | (Some block, r1) \<Rightarrow>
               if \<not> start_ok block then (None, fs_set_error FS_ERR_BROKEN_DIRECTORY r1)
               else case scan_slots block name 0 of
                      Match i \<Rightarrow>
                        and_then (write_dir_block dv r1 current (update_entry block i name file extent))
                          (\<lambda>_ r2. (Some Updated, r2))
                    | sl \<Rightarrow>
                        let hole1 = (case sl of Empty i \<Rightarrow> (if hole = None then Some (current, i) else hole)
                                      | _ \<Rightarrow> hole)
                        in if continuation block = 0 then (Some (Missing hole1), r1)
                           else upsert_walk dv name file extent r1 (continuation block) hole1 (walked + 1))"
  by pat_completeness auto
termination
  by (relation "measure (\<lambda>(dv, name, file, extent, r, current, hole, walked). WALK_LIMIT + 1 - walked)") auto

declare upsert_walk.simps [simp del]

text \<open>The search for the last block of the chain, \<^verbatim>\<open>while (true)\<close> in the source: it runs after the walk above has
  reached the end of the same chain, so \<open>fuel\<close> rounds are enough.\<close>

fun last_block :: "'d device \<Rightarrow> nat \<Rightarrow> 'd rfs \<Rightarrow> nat \<Rightarrow> (nat \<times> byte list) option \<times> 'd rfs" where
  "last_block dv 0 r nxt = (None, r)"
| "last_block dv (Suc fuel) r nxt =
     (case read_dir_block dv r nxt of
        (None, r1) \<Rightarrow> (None, r1)
      | (Some block, r1) \<Rightarrow>
          if continuation block = 0 then (Some (nxt, block), r1)
          else last_block dv fuel r1 (continuation block))"

text \<open>A fresh block: \<^verbatim>\<open>memset\<close> to zero, then the start entry.\<close>

definition fresh_block :: "byte list \<Rightarrow> nat \<Rightarrow> byte list" where
  "fresh_block title parent =
     memcpy_at 0
       (le_bytes 4 (unat RFS_FLAG_DIR_START) @ title @ le_bytes 8 parent @ le_bytes 8 RFS_DEFAULT_DIR_SIZE @ le_bytes 8 0)
       (replicate DIR_BLOCK_BYTES 0)"

definition append_block ::
    "'d device \<Rightarrow> byte list \<Rightarrow> fs_directory_entry \<Rightarrow> nat \<Rightarrow> nat \<Rightarrow> 'd rfs \<Rightarrow> unit option \<times> 'd rfs" where
  "append_block dv name file extent first r =
     and_then (rfs_find_free_extent dv r RFS_DEFAULT_DIR_SIZE) (\<lambda>new_block r1.
     and_then (rfs_mark_extent dv r1 new_block RFS_DEFAULT_DIR_SIZE True) (\<lambda>_ r2.
     and_then (last_block dv (WALK_LIMIT + 2) r2 first) (\<lambda>(last_sector, block) r3.
     and_then (write_dir_block dv r3 last_sector (memcpy_at 148 (le_bytes 8 new_block) block)) (\<lambda>_ r4.
       write_dir_block dv r4 new_block
         (insert_entry (fresh_block (replicate RFS_MAX_NAME 0) first) 0 name file extent)))))"

definition rfs_upsert_directory_entry ::
    "'d device \<Rightarrow> 'd rfs \<Rightarrow> fs_directory_entry \<Rightarrow> nat \<Rightarrow> unit option \<times> 'd rfs" where
  "rfs_upsert_directory_entry dv r file extent =
     (case fe_directory file of
        None \<Rightarrow> (None, fs_set_error FS_ERR_INVALID_ARG r)
      | Some tree \<Rightarrow>
          if rfs_desc r = None then (None, fs_set_error FS_ERR_INVALID_ARG r)
          else case fe_filename file of
                 None \<Rightarrow> (None, fs_set_error FS_ERR_INVALID_FILENAME r)
               | Some name \<Rightarrow>
                   if peek name = 0 then (None, fs_set_error FS_ERR_INVALID_FILENAME r)
                   else and_then (upsert_walk dv name file extent r (dir_sector r tree) None 0) (\<lambda>res r1.
                          case res of
                            Updated \<Rightarrow> (Some (), r1)
                          | Missing (Some (sec, i)) \<Rightarrow>
                              and_then (read_dir_block dv r1 sec) (\<lambda>block r2.
                                write_dir_block dv r2 sec (insert_entry block i name file extent))
                          | Missing None \<Rightarrow> append_block dv name file extent (dir_sector r1 tree) r1))"

section \<open>Removing an entry\<close>

text \<open>The loop over a block: the index of the entry, if it is there, and the last index in use.\<close>

function delete_scan :: "byte list \<Rightarrow> byte list \<Rightarrow> nat \<Rightarrow> nat option \<Rightarrow> nat \<Rightarrow> nat option \<times> nat" where
  "delete_scan block name i found last_used =
     (if i < ENTRIES_PER_BLOCK
      then if peek (entry_name block i) = 0 then (found, if i \<noteq> 0 then i - 1 else 0)
           else delete_scan block name (i + 1)
                  (if found = None \<and> strcasecmp (entry_name block i) name = 0 then Some i else found) i
      else (found, last_used))"
  by pat_completeness auto
termination
  by (relation "measure (\<lambda>(block, name, i, found, last_used). ENTRIES_PER_BLOCK - i)") auto

declare delete_scan.simps [simp del]

text \<open>\<^verbatim>\<open>memmove\<close> of the entries behind the removed one, then \<^verbatim>\<open>memset\<close> of the last.\<close>

definition remove_entry :: "byte list \<Rightarrow> nat \<Rightarrow> nat \<Rightarrow> byte list" where
  "remove_entry block found last_used =
     (let moved = (if found < last_used
                   then memcpy_at (entry_off found)
                          (take ((last_used - found) * 256) (drop (entry_off (found + 1)) block)) block
                   else block)
      in memcpy_at (entry_off last_used) (replicate 256 0) moved)"

function delete_walk :: "'d device \<Rightarrow> byte list \<Rightarrow> 'd rfs \<Rightarrow> nat \<Rightarrow> nat \<Rightarrow> unit option \<times> 'd rfs" where
  "delete_walk dv name r current walked =
     (if current = 0 then (None, r)
      else if walked > WALK_LIMIT then (None, fs_set_error FS_ERR_CYCLE_DETECTED r)
      else case read_dir_block dv r current of
             (None, r1) \<Rightarrow> (None, r1)
           | (Some block, r1) \<Rightarrow>
               if \<not> start_ok block then (None, fs_set_error FS_ERR_BROKEN_DIRECTORY r1)
               else case delete_scan block name 0 None 0 of
                      (Some found, last_used) \<Rightarrow> write_dir_block dv r1 current (remove_entry block found last_used)
                    | (None, _) \<Rightarrow>
                        if continuation block = 0 then (None, r1)
                        else delete_walk dv name r1 (continuation block) (walked + 1))"
  by pat_completeness auto
termination
  by (relation "measure (\<lambda>(dv, name, r, current, walked). WALK_LIMIT + 1 - walked)") auto

declare delete_walk.simps [simp del]

definition rfs_delete_directory_entry :: "'d device \<Rightarrow> 'd rfs \<Rightarrow> fs_directory_entry \<Rightarrow> unit option \<times> 'd rfs" where
  "rfs_delete_directory_entry dv r file =
     (case (fe_directory file, fe_filename file) of
        (Some tree, Some name) \<Rightarrow>
          if rfs_desc r = None then (None, fs_set_error FS_ERR_VFS_DATA r)
          else if peek name = 0 then (None, fs_set_error FS_ERR_INVALID_ARG r)
          else delete_walk dv name r (dir_sector r tree) 0
      | _ \<Rightarrow> (None, fs_set_error FS_ERR_INVALID_ARG r))"

section \<open>Listing a directory\<close>

text \<open>\<^verbatim>\<open>strdup\<close> of a name: the string, or \<^verbatim>\<open>NULL\<close> when memory is exhausted.\<close>

definition rfs_strdup :: "'d rfs \<Rightarrow> byte list \<Rightarrow> byte list option \<times> 'd rfs" where
  "rfs_strdup r name =
     (case rfs_kmalloc r of (True, r1) \<Rightarrow> (Some (cstr name @ [0]), r1) | (False, r1) \<Rightarrow> (None, r1))"

text \<open>The entries of one block, put in front of \<open>list\<close>; \<open>None\<close> when \<^verbatim>\<open>kmalloc\<close> fails.\<close>

function list_block ::
    "fs_tree \<Rightarrow> byte list \<Rightarrow> nat \<Rightarrow> fs_directory_entry list \<Rightarrow> 'd rfs \<Rightarrow> fs_directory_entry list option \<times> 'd rfs" where
  "list_block tree block i xs r =
     (if i < ENTRIES_PER_BLOCK \<and> peek (entry_name block i) \<noteq> 0
      then (case rfs_kmalloc r of
              (False, r1) \<Rightarrow> (None, r1)
            | (True, r1) \<Rightarrow>
                (case rfs_strdup r1 (entry_name block i) of
                   (nm, r2) \<Rightarrow>
                     (case rfs_strdup r2 (entry_name block i) of
                        (alt, r3) \<Rightarrow>
                          let e = get_entry block i
                          in list_block tree block (i + 1)
                               (\<lparr>fe_filename = nm, fe_alt_filename = alt, fe_lbapos = en_sector_start e,
                                 fe_size = en_length e,
                                 fe_flags = (if en_flags e AND RFS_FLAG_DIRECTORY \<noteq> 0 then FS_DIRECTORY else 0),
                                 fe_directory = Some tree\<rparr> # xs) r3)))
      else (Some xs, r))"
  by pat_completeness auto
termination
  by (relation "measure (\<lambda>(tree, block, i, xs, r). ENTRIES_PER_BLOCK - i)") auto

declare list_block.simps [simp del]

function list_walk ::
    "'d device \<Rightarrow> fs_tree \<Rightarrow> byte list \<Rightarrow> fs_directory_entry list \<Rightarrow> nat \<Rightarrow> 'd rfs \<Rightarrow>
     fs_directory_entry list option \<times> 'd rfs" where
  "list_walk dv tree block xs walked r =
     (if walked > WALK_LIMIT then (Some xs, fs_set_error FS_ERR_CYCLE_DETECTED r)
      else case list_block tree block 0 xs r of
             (None, r1) \<Rightarrow> (None, r1)
           | (Some xs1, r1) \<Rightarrow>
               if continuation block = 0 then (Some xs1, r1)
               else case read_dir_block dv r1 (continuation block) of
                      (None, r2) \<Rightarrow> (Some xs1, r2)
                    | (Some block1, r2) \<Rightarrow>
                        if u64_at block1 140 \<noteq> RFS_DEFAULT_DIR_SIZE then (Some xs1, r2)
                        else list_walk dv tree block1 xs1 (walked + 1) r2)"
  by pat_completeness auto
termination
  by (relation "measure (\<lambda>(dv, tree, block, xs, walked, r). WALK_LIMIT + 1 - walked)") auto

declare list_walk.simps [simp del]

definition rfs_walk_directory ::
    "'d device \<Rightarrow> fs_tree \<Rightarrow> 'd rfs \<Rightarrow> nat \<Rightarrow> fs_directory_entry list option \<times> 'd rfs" where
  "rfs_walk_directory dv tree r start_sector =
     and_then (read_dir_block dv r start_sector) (\<lambda>block r1.
       if \<not> start_ok block then (None, r1) else list_walk dv tree block [] 0 r1)"

definition rfs_get_directory :: "'d device \<Rightarrow> fs_tree \<Rightarrow> 'd rfs \<Rightarrow> fs_directory_entry list option \<times> 'd rfs" where
  "rfs_get_directory dv tree r = rfs_walk_directory dv tree r (dir_sector r tree)"

end
