(* ===== verification/RfsFile.thy ===== *)
theory RfsFile
  imports RfsDir
begin

text \<open>
  The file operations of RetroFS: \<^verbatim>\<open>createfile.c\<close>, \<^verbatim>\<open>createdirectory.c\<close>, \<^verbatim>\<open>readfile.c\<close>, \<^verbatim>\<open>writefile.c\<close>,
  \<^verbatim>\<open>truncatefile.c\<close>, \<^verbatim>\<open>unlink.c\<close>, \<^verbatim>\<open>unlinkdirectory.c\<close> and \<^verbatim>\<open>format.c\<close>.  The VFS node of a file is passed and returned
  where the code updates it.
\<close>

section \<open>Creating\<close>

definition rfs_ext_size_table :: "(byte list \<times> nat) list" where
  "rfs_ext_size_table =
     [([0x6a, 0x70, 0x65, 0x67, 0], 4096), ([0x6a, 0x70, 0x67, 0], 4096), ([0x70, 0x6e, 0x67, 0], 4096),
      ([0x67, 0x69, 0x66, 0], 4096), ([0x62, 0x6d, 0x70, 0], 4096), ([0x77, 0x65, 0x62, 0x70, 0], 4096),
      ([0x74, 0x69, 0x66, 0], 4096), ([0x74, 0x69, 0x66, 0x66, 0], 4096)]"

definition rfs_get_default_reservation :: "byte list \<Rightarrow> nat" where
  "rfs_get_default_reservation filename =
     (case strrchr filename 0x2e of
        None \<Rightarrow> 128 * 1024
      | Some dot \<Rightarrow>
          if char_at filename (dot + 1) \<noteq> 0
          then (case List.find (\<lambda>(ext, kb). strcasecmp (drop (dot + 1) filename) ext = 0) rfs_ext_size_table of
                  Some (_, kb) \<Rightarrow> kb * 1024
                | None \<Rightarrow> 128 * 1024)
          else 128 * 1024)"

text \<open>The loop that fills an extent with zeroes, at most 16 sectors at a time.\<close>

function zero_fill :: "'d device \<Rightarrow> 'd rfs \<Rightarrow> nat \<Rightarrow> nat \<Rightarrow> unit option \<times> 'd rfs" where
  "zero_fill dv r pos remaining =
     (if remaining = 0 then (Some (), r)
      else let this_sectors = min remaining RFS_MAP_READ_CHUNK_SECTORS;
               this_bytes = this_sectors * RFS_SECTOR_SIZE
           in (case rfs_write_device dv r pos this_bytes (replicate this_bytes 0) of
                 (None, r1) \<Rightarrow> (None, r1)
               | (Some _, r1) \<Rightarrow> zero_fill dv r1 (add64 pos this_sectors) (remaining - this_sectors)))"
  by pat_completeness auto
termination
  by (relation "measure (\<lambda>(dv, r, pos, remaining). remaining)") (auto simp: RFS_MAP_READ_CHUNK_SECTORS_def)

declare zero_fill.simps [simp del]

definition new_entry :: "fs_tree \<Rightarrow> byte list option \<Rightarrow> nat \<Rightarrow> 32 word \<Rightarrow> nat \<Rightarrow> fs_directory_entry" where
  "new_entry tree name lbapos flags sz =
     \<lparr>fe_filename = name, fe_alt_filename = None, fe_lbapos = lbapos, fe_size = sz, fe_flags = flags,
      fe_directory = Some tree\<rparr>"

definition reserve_sectors :: "byte list \<Rightarrow> nat \<Rightarrow> nat" where
  "reserve_sectors name sz =
     (let res = rfs_get_default_reservation name;
          reserve_bytes = (if sz > res then sz else res);
          sectors = add64 reserve_bytes (RFS_SECTOR_SIZE - 1) div RFS_SECTOR_SIZE
      in if sectors = 0 then 1 else sectors)"

definition rfs_create_file :: "'d device \<Rightarrow> 'd rfs \<Rightarrow> fs_tree \<Rightarrow> byte list \<Rightarrow> nat \<Rightarrow> nat option \<times> 'd rfs" where
  "rfs_create_file dv r tree name sz =
     (if peek name = 0 then (None, fs_set_error FS_ERR_INVALID_ARG r)
      else if rfs_desc r = None then (None, fs_set_error FS_ERR_VFS_DATA r)
      else case rfs_locate_entry dv r tree (Some name) of
             (Some _, r1) \<Rightarrow> (None, fs_set_error FS_ERR_VFS_DATA r1)
           | (None, r1) \<Rightarrow>
               (let n = reserve_sectors name sz
                in case rfs_find_free_extent dv r1 n of
                     (None, r2) \<Rightarrow> (None, fs_set_error FS_ERR_NO_SPACE r2)
                   | (Some start, r2) \<Rightarrow>
                       if start < 65 then (None, r2)
                       else case rfs_kmalloc r2 of
                              (False, r3) \<Rightarrow> (None, fs_set_error FS_ERR_OUT_OF_MEMORY r3)
                            | (True, r3) \<Rightarrow>
                                and_then (rfs_mark_extent dv r3 start n True) (\<lambda>_ r4.
                                  case zero_fill dv r4 start n of
                                    (None, r5) \<Rightarrow> (None, snd (rfs_mark_extent dv r5 start n False))
                                  | (Some _, r5) \<Rightarrow>
                                      (case rfs_upsert_directory_entry dv r5 (new_entry tree (Some name) start 0 sz) n of
                                         (None, r6) \<Rightarrow> (None, snd (rfs_mark_extent dv r6 start n False))
                                       | (Some _, r6) \<Rightarrow> (Some start, r6)))))"

definition rfs_create_directory :: "'d device \<Rightarrow> 'd rfs \<Rightarrow> fs_tree \<Rightarrow> byte list \<Rightarrow> nat option \<times> 'd rfs" where
  "rfs_create_directory dv r tree name =
     (if peek name = 0 then (None, fs_set_error FS_ERR_INVALID_ARG r)
      else if rfs_desc r = None then (None, fs_set_error FS_ERR_VFS_DATA r)
      else case rfs_locate_entry dv r tree (Some name) of
             (Some _, r1) \<Rightarrow> (None, fs_set_error FS_ERR_DIRECTORY_EXISTS r1)
           | (None, r1) \<Rightarrow>
               (let parent_start = dir_sector r1 tree; n = RFS_DEFAULT_DIR_SIZE
                in case rfs_kmalloc r1 of
                     (False, r2) \<Rightarrow> (None, fs_set_error FS_ERR_OUT_OF_MEMORY r2)
                   | (True, r2) \<Rightarrow>
                       (case rfs_find_free_extent dv r2 n of
                          (None, r3) \<Rightarrow> (None, fs_set_error FS_ERR_NO_SPACE r3)
                        | (Some start, r3) \<Rightarrow>
                            and_then (rfs_mark_extent dv r3 start n True) (\<lambda>_ r4.
                              case zero_fill dv r4 start n of
                                (None, r5) \<Rightarrow> (None, snd (rfs_mark_extent dv r5 start n False))
                              | (Some _, r5) \<Rightarrow>
                                  (case write_dir_block dv r5 start
                                          (fresh_block (name_field (replicate RFS_MAX_NAME 0) name) parent_start) of
                                     (None, r6) \<Rightarrow> (None, snd (rfs_mark_extent dv r6 start n False))
                                   | (Some _, r6) \<Rightarrow>
                                       (case rfs_upsert_directory_entry dv r6
                                               (new_entry tree (Some name) start FS_DIRECTORY 0) RFS_DEFAULT_DIR_SIZE of
                                          (None, r7) \<Rightarrow> (None, snd (rfs_mark_extent dv r7 start n False))
                                        | (Some _, r7) \<Rightarrow> (Some start, r7)))))))"

section \<open>Reading\<close>

text \<open>The loop over whole sectors; it returns the bytes it has put into the caller's buffer.\<close>

function read_middle :: "'d device \<Rightarrow> 'd rfs \<Rightarrow> nat \<Rightarrow> nat \<Rightarrow> byte list \<Rightarrow> byte list option \<times> 'd rfs" where
  "read_middle dv r cur_sector full_sectors buffer =
     (if full_sectors = 0 then (Some buffer, r)
      else let batch_secs = min full_sectors RFS_MAP_READ_CHUNK_SECTORS;
               batch_bytes = batch_secs * RFS_SECTOR_SIZE
           in (case rfs_read_device dv r cur_sector batch_bytes of
                 (None, r1) \<Rightarrow> (None, r1)
               | (Some data, r1) \<Rightarrow>
                   read_middle dv r1 (add64 cur_sector batch_secs) (full_sectors - batch_secs) (buffer @ data)))"
  by pat_completeness auto
termination
  by (relation "measure (\<lambda>(dv, r, cur, full, buffer). full)") (auto simp: RFS_MAP_READ_CHUNK_SECTORS_def)

declare read_middle.simps [simp del]

definition read_data :: "'d device \<Rightarrow> 'd rfs \<Rightarrow> nat \<Rightarrow> nat \<Rightarrow> nat \<Rightarrow> byte list option \<times> 'd rfs" where
  "read_data dv r file_start start len =
     (let end_pos = add64 start len;
          first_sector = add64 file_start (start div RFS_SECTOR_SIZE);
          last_sector = add64 file_start (sub64 end_pos 1 div RFS_SECTOR_SIZE);
          head_off = start mod RFS_SECTOR_SIZE
      in case rfs_kmalloc r of
           (False, r1) \<Rightarrow> (None, fs_set_error FS_ERR_OUT_OF_MEMORY r1)
         | (True, r1) \<Rightarrow>
             if first_sector = last_sector
             then and_then (rfs_read_device dv r1 first_sector RFS_SECTOR_SIZE)
                    (\<lambda>sec r2. (Some (take len (drop head_off sec)), r2))
             else let head_bytes = RFS_SECTOR_SIZE - head_off
                  in and_then (rfs_read_device dv r1 first_sector RFS_SECTOR_SIZE) (\<lambda>sec r2.
                     and_then (read_middle dv r2 (add64 first_sector 1) (sub64 len head_bytes div RFS_SECTOR_SIZE)
                                 (take head_bytes (drop head_off sec))) (\<lambda>buffer r3.
                       let tail_bytes = add64 start len mod RFS_SECTOR_SIZE
                       in if tail_bytes \<noteq> 0
                          then and_then (rfs_read_device dv r3 last_sector RFS_SECTOR_SIZE)
                                 (\<lambda>tl r4. (Some (buffer @ take tail_bytes tl), r4))
                          else (Some buffer, r3))))"

definition rfs_read_file ::
    "'d device \<Rightarrow> 'd rfs \<Rightarrow> fs_directory_entry \<Rightarrow> nat \<Rightarrow> nat \<Rightarrow> byte list option \<times> 'd rfs" where
  "rfs_read_file dv r file start len =
     (if len = 0 then (Some [], r)
      else if fe_flags file AND FS_DIRECTORY \<noteq> 0 then (None, fs_set_error FS_ERR_NOT_A_FILE r)
      else if fe_directory file = None then (None, fs_set_error FS_ERR_VFS_DATA r)
      else if rfs_desc r = None then (None, fs_set_error FS_ERR_INVALID_ARG r)
      else if start \<ge> fe_size file then (None, fs_set_error FS_ERR_SEEK_PAST_END r)
      else if add64 start len > fe_size file then (None, fs_set_error FS_ERR_SEEK_PAST_END r)
      else read_data dv r (fe_lbapos file) start len)"

section \<open>Writing\<close>

text \<open>\<open>copy_full\<close> is the loop over whole sectors of \<^verbatim>\<open>rfs_extend_and_move\<close>, \<open>copy_tail\<close> the rest of the last one.\<close>

function copy_full :: "'d device \<Rightarrow> 'd rfs \<Rightarrow> nat \<Rightarrow> nat \<Rightarrow> nat \<Rightarrow> unit option \<times> 'd rfs" where
  "copy_full dv r src dst remaining =
     (if remaining = 0 then (Some (), r)
      else let this_secs = min remaining RFS_MAP_READ_CHUNK_SECTORS;
               this_bytes = this_secs * RFS_SECTOR_SIZE
           in (case rfs_read_device dv r src this_bytes of
                 (None, r1) \<Rightarrow> (None, r1)
               | (Some bulk, r1) \<Rightarrow>
                   (case rfs_write_device dv r1 dst this_bytes bulk of
                      (None, r2) \<Rightarrow> (None, r2)
                    | (Some _, r2) \<Rightarrow> copy_full dv r2 (add64 src this_secs) (add64 dst this_secs) (remaining - this_secs))))"
  by pat_completeness auto
termination
  by (relation "measure (\<lambda>(dv, r, src, dst, remaining). remaining)") (auto simp: RFS_MAP_READ_CHUNK_SECTORS_def)

declare copy_full.simps [simp del]

definition copy_tail :: "'d device \<Rightarrow> 'd rfs \<Rightarrow> nat \<Rightarrow> nat \<Rightarrow> nat \<Rightarrow> unit option \<times> 'd rfs" where
  "copy_tail dv r src dst tail_bytes =
     (if tail_bytes = 0 then (Some (), r)
      else and_then (rfs_read_device dv r src RFS_SECTOR_SIZE) (\<lambda>src_sec r1.
             rfs_write_device dv r1 dst RFS_SECTOR_SIZE
               (memcpy_at 0 (take tail_bytes src_sec) (replicate RFS_SECTOR_SIZE 0))))"

definition rfs_extend_and_move ::
    "'d device \<Rightarrow> 'd rfs \<Rightarrow> fs_tree \<Rightarrow> fs_directory_entry \<Rightarrow> nat \<Rightarrow> fs_directory_entry option \<times> 'd rfs" where
  "rfs_extend_and_move dv r tree file min_bytes =
     (case rfs_locate_entry dv r tree (fe_filename file) of
        (None, r1) \<Rightarrow> (None, fs_set_error FS_ERR_NO_SUCH_FILE r1)
      | (Some (_, _, ent), r1) \<Rightarrow>
          if en_flags ent AND RFS_FLAG_DIRECTORY \<noteq> 0 then (None, fs_set_error FS_ERR_NOT_A_FILE r1)
          else let n = rfs_bytes_to_sectors (add64 min_bytes (rfs_get_default_reservation (en_filename ent)))
          in case rfs_kmalloc r1 of
               (False, r2) \<Rightarrow> (None, fs_set_error FS_ERR_OUT_OF_MEMORY r2)
             | (True, r2) \<Rightarrow>
          (case rfs_kmalloc r2 of
             (False, r3) \<Rightarrow> (None, fs_set_error FS_ERR_OUT_OF_MEMORY r3)
           | (True, r3) \<Rightarrow>
          (case rfs_find_free_extent dv r3 n of
             (None, r4) \<Rightarrow> (None, fs_set_error FS_ERR_NO_SPACE r4)
           | (Some new_start, r4) \<Rightarrow>
               and_then (rfs_mark_extent dv r4 new_start n True) (\<lambda>_ r5.
               and_then (zero_fill dv r5 new_start n) (\<lambda>_ r6.
               and_then (if en_length ent \<noteq> 0 \<and> en_sector_length ent \<noteq> 0
                         then and_then (copy_full dv r6 (en_sector_start ent) new_start (en_length ent div RFS_SECTOR_SIZE))
                                (\<lambda>_ r. copy_tail dv r
                                   (add64 (en_sector_start ent) (en_length ent div RFS_SECTOR_SIZE))
                                   (add64 new_start (en_length ent div RFS_SECTOR_SIZE)) (en_length ent mod RFS_SECTOR_SIZE))
                         else (Some (), r6)) (\<lambda>_ r7.
                 let r8 = (if en_sector_length ent > 0
                           then snd (rfs_clear_device dv
                                  (snd (rfs_mark_extent dv r7 (en_sector_start ent) (en_sector_length ent) False))
                                  (en_sector_start ent) (mul64 (en_sector_length ent) RFS_SECTOR_SIZE))
                           else r7);
                     r9 = snd (rfs_upsert_directory_entry dv r8
                                 (new_entry tree (fe_filename file) new_start 0 (en_length ent)) n)
                 in (Some (file\<lparr>fe_lbapos := new_start\<rparr>), r9)))))))"

function write_middle :: "'d device \<Rightarrow> 'd rfs \<Rightarrow> nat \<Rightarrow> nat \<Rightarrow> byte list \<Rightarrow> byte list option \<times> 'd rfs" where
  "write_middle dv r cur_sector full_sectors cur_buf =
     (if full_sectors = 0 then (Some cur_buf, r)
      else let this_secs = min full_sectors RFS_MAP_READ_CHUNK_SECTORS;
               this_bytes = this_secs * RFS_SECTOR_SIZE
           in (case rfs_write_device dv r cur_sector this_bytes (take this_bytes cur_buf) of
                 (None, r1) \<Rightarrow> (None, r1)
               | (Some _, r1) \<Rightarrow>
                   write_middle dv r1 (add64 cur_sector this_secs) (full_sectors - this_secs) (drop this_bytes cur_buf)))"
  by pat_completeness auto
termination
  by (relation "measure (\<lambda>(dv, r, cur, full, buf). full)") (auto simp: RFS_MAP_READ_CHUNK_SECTORS_def)

declare write_middle.simps [simp del]

text \<open>Read a sector, change some bytes of it and write it back.\<close>

definition patch_sector :: "'d device \<Rightarrow> 'd rfs \<Rightarrow> nat \<Rightarrow> nat \<Rightarrow> byte list \<Rightarrow> unit option \<times> 'd rfs" where
  "patch_sector dv r sec off xs =
     and_then (rfs_read_device dv r sec RFS_SECTOR_SIZE) (\<lambda>buf r1.
       rfs_write_device dv r1 sec RFS_SECTOR_SIZE (memcpy_at off xs buf))"

definition write_data :: "'d device \<Rightarrow> 'd rfs \<Rightarrow> nat \<Rightarrow> nat \<Rightarrow> nat \<Rightarrow> byte list \<Rightarrow> unit option \<times> 'd rfs" where
  "write_data dv r file_start start len buffer =
     (let end_pos = add64 start len;
          first_sector = add64 file_start (start div RFS_SECTOR_SIZE);
          last_sector = add64 file_start (sub64 end_pos 1 div RFS_SECTOR_SIZE);
          head_off = start mod RFS_SECTOR_SIZE
      in case rfs_kmalloc r of
           (False, r1) \<Rightarrow> (None, fs_set_error FS_ERR_OUT_OF_MEMORY r1)
         | (True, r1) \<Rightarrow>
             if first_sector = last_sector then patch_sector dv r1 first_sector head_off (take len buffer)
             else let head_bytes = RFS_SECTOR_SIZE - head_off
                  in and_then (patch_sector dv r1 first_sector head_off (take head_bytes buffer)) (\<lambda>_ r2.
                     and_then (write_middle dv r2 (add64 first_sector 1) (sub64 len head_bytes div RFS_SECTOR_SIZE)
                                 (drop head_bytes buffer)) (\<lambda>cur_buf r3.
                       let tail_bytes = add64 start len mod RFS_SECTOR_SIZE
                       in if tail_bytes \<noteq> 0
                          then patch_sector dv r3 last_sector 0 (take tail_bytes cur_buf)
                          else (Some (), r3))))"

text \<open>The result tells whether the write succeeded, and the VFS node afterwards.\<close>

definition rfs_write_file ::
    "'d device \<Rightarrow> 'd rfs \<Rightarrow> fs_directory_entry \<Rightarrow> nat \<Rightarrow> nat \<Rightarrow> byte list \<Rightarrow>
     bool \<times> fs_directory_entry \<times> 'd rfs" where
  "rfs_write_file dv r file start len buffer =
     (if len = 0 then (True, file, r)
      else case fe_directory file of
        None \<Rightarrow> (False, file, fs_set_error FS_ERR_VFS_DATA r)
      | Some tree \<Rightarrow>
      if rfs_desc r = None then (False, file, fs_set_error FS_ERR_VFS_DATA r)
      else case rfs_locate_entry dv r tree (fe_filename file) of
        (None, r1) \<Rightarrow> (False, file, fs_set_error FS_ERR_NO_SUCH_FILE r1)
      | (Some (_, _, ent), r1) \<Rightarrow>
      if en_flags ent AND RFS_FLAG_DIRECTORY \<noteq> 0 then (False, file, fs_set_error FS_ERR_NOT_A_FILE r1)
      else let end_pos = add64 start len;
               reserved_bytes = mul64 (en_sector_length ent) RFS_SECTOR_SIZE;
               grown = (if end_pos > reserved_bytes
                        then (case rfs_extend_and_move dv r1 tree file end_pos of
                                (None, r2) \<Rightarrow> (None, file, r2)
                              | (Some file1, r2) \<Rightarrow>
                                  (case rfs_locate_entry dv r2 tree (fe_filename file1) of
                                     (None, r3) \<Rightarrow> (None, file1, fs_set_error FS_ERR_FILE_HAS_VANISHED r3)
                                   | (Some (_, _, ent1), r3) \<Rightarrow> (Some ent1, file1, r3)))
                        else (Some ent, file, r1))
           in case grown of
                (None, file1, r2) \<Rightarrow> (False, file1, r2)
              | (Some ent1, file1, r2) \<Rightarrow>
                  (case write_data dv r2 (fe_lbapos file1) start len buffer of
                     (None, r3) \<Rightarrow> (False, file1, r3)
                   | (Some _, r3) \<Rightarrow>
                       if end_pos > en_length ent1
                       then (True, file1\<lparr>fe_size := end_pos\<rparr>,
                             snd (rfs_upsert_directory_entry dv r3
                               (new_entry tree (fe_filename file1) (fe_lbapos file1) 0 end_pos) (en_sector_length ent1)))
                       else (True, file1, r3)))"

section \<open>Truncating\<close>

text \<open>A length beyond the reservation sets the error, but the code goes on.\<close>

definition rfs_truncate_file ::
    "'d device \<Rightarrow> 'd rfs \<Rightarrow> fs_directory_entry \<Rightarrow> nat \<Rightarrow> bool \<times> fs_directory_entry \<times> 'd rfs" where
  "rfs_truncate_file dv r file len =
     (if fe_flags file AND FS_DIRECTORY \<noteq> 0 then (False, file, fs_set_error FS_ERR_NOT_A_FILE r)
      else case fe_directory file of
        None \<Rightarrow> (False, file, fs_set_error FS_ERR_VFS_DATA r)
      | Some tree \<Rightarrow>
      if rfs_desc r = None then (False, file, fs_set_error FS_ERR_VFS_DATA r)
      else case rfs_locate_entry dv r tree (fe_filename file) of
        (None, r1) \<Rightarrow> (False, file, fs_set_error FS_ERR_NO_SUCH_FILE r1)
      | (Some (_, _, ent), r1) \<Rightarrow>
      if en_flags ent AND RFS_FLAG_DIRECTORY \<noteq> 0 then (False, file, fs_set_error FS_ERR_NOT_A_FILE r1)
      else let r2 = (if len > mul64 (en_sector_length ent) RFS_SECTOR_SIZE
                     then fs_set_error FS_ERR_TRUNCATE_BEYOND_LENGTH r1 else r1)
           in if len = en_length ent then (True, file, r2)
              else case rfs_upsert_directory_entry dv r2
                          (new_entry tree (fe_filename file) (fe_lbapos file) 0 len) (en_sector_length ent) of
                     (None, r3) \<Rightarrow> (False, file, fs_set_error FS_ERR_BROKEN_DIRECTORY r3)
                   | (Some _, r3) \<Rightarrow> (True, file\<lparr>fe_size := len\<rparr>, r3))"

section \<open>Removing\<close>

definition rfs_unlink_file :: "'d device \<Rightarrow> 'd rfs \<Rightarrow> fs_tree \<Rightarrow> byte list \<Rightarrow> unit option \<times> 'd rfs" where
  "rfs_unlink_file dv r tree name =
     (if peek name = 0 then (None, fs_set_error FS_ERR_INVALID_ARG r)
      else if rfs_desc r = None then (None, fs_set_error FS_ERR_VFS_DATA r)
      else case rfs_locate_entry dv r tree (Some name) of
             (None, r1) \<Rightarrow> (None, fs_set_error FS_ERR_NO_SUCH_FILE r1)
           | (Some (_, _, on_disk), r1) \<Rightarrow>
               if en_flags on_disk AND RFS_FLAG_DIRECTORY \<noteq> 0 then (None, fs_set_error FS_ERR_NOT_A_FILE r1)
               else and_then (rfs_delete_directory_entry dv r1 (new_entry tree (Some name) 0 0 0)) (\<lambda>_ r2.
                      if en_sector_length on_disk > 0
                      then and_then (rfs_mark_extent dv r2 (en_sector_start on_disk) (en_sector_length on_disk) False)
                             (\<lambda>_ r3. (Some (), snd (rfs_clear_device dv r3 (en_sector_start on_disk)
                                                     (mul64 (en_sector_length on_disk) RFS_SECTOR_SIZE))))
                      else (Some (), r2)))"

text \<open>The loop that checks that a directory is empty.\<close>

function check_empty :: "'d device \<Rightarrow> 'd rfs \<Rightarrow> nat \<Rightarrow> nat \<Rightarrow> unit option \<times> 'd rfs" where
  "check_empty dv r cur walked =
     (if cur = 0 then (Some (), r)
      else if walked > WALK_LIMIT then (None, fs_set_error FS_ERR_CYCLE_DETECTED r)
      else case read_dir_block dv r cur of
             (None, r1) \<Rightarrow> (None, r1)
           | (Some block, r1) \<Rightarrow>
               if \<not> start_ok block then (None, fs_set_error FS_ERR_BROKEN_DIRECTORY r1)
               else if peek (entry_name block 0) \<noteq> 0 then (None, fs_set_error FS_ERR_DIRECTORY_NOT_EMPTY r1)
               else if continuation block = 0 then (Some (), r1)
               else check_empty dv r1 (continuation block) (walked + 1))"
  by pat_completeness auto
termination
  by (relation "measure (\<lambda>(dv, r, cur, walked). WALK_LIMIT + 1 - walked)") auto

declare check_empty.simps [simp del]

text \<open>The loop that gives back the blocks of a removed directory.\<close>

function free_chain :: "'d device \<Rightarrow> 'd rfs \<Rightarrow> nat \<Rightarrow> nat \<Rightarrow> 'd rfs" where
  "free_chain dv r cur walked =
     (if cur = 0 then r
      else if walked > WALK_LIMIT then fs_set_error FS_ERR_CYCLE_DETECTED r
      else case read_dir_block dv r cur of
             (None, r1) \<Rightarrow> r1
           | (Some block, r1) \<Rightarrow>
               (let nxt = continuation block; span = u64_at block 140;
                    r2 = snd (rfs_mark_extent dv r1 cur span False);
                    r3 = snd (rfs_clear_device dv r2 cur (mul64 span RFS_SECTOR_SIZE))
                in free_chain dv r3 nxt (walked + 1)))"
  by pat_completeness auto
termination
  by (relation "measure (\<lambda>(dv, r, cur, walked). WALK_LIMIT + 1 - walked)") auto

declare free_chain.simps [simp del]

definition rfs_unlink_dir :: "'d device \<Rightarrow> 'd rfs \<Rightarrow> fs_tree \<Rightarrow> byte list \<Rightarrow> unit option \<times> 'd rfs" where
  "rfs_unlink_dir dv r tree name =
     (if peek name = 0 then (None, fs_set_error FS_ERR_INVALID_ARG r)
      else if rfs_desc r = None then (None, fs_set_error FS_ERR_VFS_DATA r)
      else case rfs_locate_entry dv r tree (Some name) of
             (None, r1) \<Rightarrow> (None, fs_set_error FS_ERR_NO_SUCH_DIRECTORY r1)
           | (Some (_, _, ent), r1) \<Rightarrow>
               if en_flags ent AND RFS_FLAG_DIRECTORY = 0 then (None, fs_set_error FS_ERR_NOT_A_DIRECTORY r1)
               else and_then (check_empty dv r1 (en_sector_start ent) 0) (\<lambda>_ r2.
                    and_then (rfs_delete_directory_entry dv r2 (new_entry tree (Some name) 0 0 0)) (\<lambda>_ r3.
                      (Some (), free_chain dv r3 (en_sector_start ent) 0))))"

section \<open>The volume\<close>

definition desc_bytes :: "rfs_desc \<Rightarrow> byte list" where
  "desc_bytes d =
     le_bytes 8 (ds_identifier d) @ le_bytes 8 (ds_root_directory d) @ le_bytes 8 (ds_map_start d) @
     le_bytes 8 (ds_map_length d) @ le_bytes 8 (ds_map_checksum d) @ le_bytes 8 (ds_sequence d) @
     le_bytes 8 (ds_creation_time d)"

definition desc_of_bytes :: "byte list \<Rightarrow> rfs_desc" where
  "desc_of_bytes buf =
     \<lparr>ds_identifier = u64_at buf 0, ds_root_directory = u64_at buf 8, ds_map_start = u64_at buf 16,
      ds_map_length = u64_at buf 24, ds_map_checksum = u64_at buf 32, ds_sequence = u64_at buf 40,
      ds_creation_time = u64_at buf 48\<rparr>"

definition read_rfs_description_block :: "'d device \<Rightarrow> 'd rfs \<Rightarrow> unit option \<times> 'd rfs" where
  "read_rfs_description_block dv r =
     (case rfs_kmalloc r of
        (False, r1) \<Rightarrow> (None, fs_set_error FS_ERR_OUT_OF_MEMORY r1)
      | (True, r1) \<Rightarrow>
          and_then (rfs_read_device dv r1 0 RFS_SECTOR_SIZE) (\<lambda>buf r2.
            if ds_identifier (desc_of_bytes buf) \<noteq> RFS_ID then (None, r2)
            else (Some (), r2\<lparr>rfs_desc := Some (desc_of_bytes buf)\<rparr>)))"

text \<open>The two clearing loops, over sectors \<open>i\<close> up to \<open>nsecs\<close> of the area from \<open>base\<close> on.\<close>

function clear_area :: "'d device \<Rightarrow> 'd rfs \<Rightarrow> nat \<Rightarrow> nat \<Rightarrow> nat \<Rightarrow> unit option \<times> 'd rfs" where
  "clear_area dv r base nsecs i =
     (if i < nsecs
      then let this_write = (if nsecs - i > RFS_MAP_READ_CHUNK_SECTORS then RFS_MAP_READ_CHUNK_SECTORS else nsecs - i);
               n = this_write * RFS_SECTOR_SIZE
           in (case rfs_write_device dv r (add64 base i) n (replicate n 0) of
                 (None, r1) \<Rightarrow> (None, r1)
               | (Some _, r1) \<Rightarrow> clear_area dv r1 base nsecs (i + RFS_MAP_READ_CHUNK_SECTORS))
      else (Some (), r))"
  by pat_completeness auto
termination
  by (relation "measure (\<lambda>(dv, r, base, nsecs, i). nsecs - i)") (auto simp: RFS_MAP_READ_CHUNK_SECTORS_def)

declare clear_area.simps [simp del]

definition format_desc :: "nat \<Rightarrow> nat \<Rightarrow> rfs_desc" where
  "format_desc now size_sectors =
     (let map_bytes = add64 size_sectors 7 div 8;
          map_sectors = (map_bytes + RFS_SECTOR_SIZE - 1) div RFS_SECTOR_SIZE
      in \<lparr>ds_identifier = RFS_ID, ds_root_directory = 1, ds_map_start = sub64 size_sectors map_sectors,
          ds_map_length = map_sectors, ds_map_checksum = 0, ds_sequence = 1, ds_creation_time = now\<rparr>)"

text \<open>\<open>now\<close> is \<^verbatim>\<open>time(NULL)\<close>.\<close>

definition rfs_format :: "'d device \<Rightarrow> nat \<Rightarrow> 'd rfs \<Rightarrow> unit option \<times> 'd rfs" where
  "rfs_format dv now r =
     (if rfs_length r = 0 then (None, fs_set_error FS_ERR_INVALID_GEOMETRY r)
      else let desc = format_desc now (rfs_length r)
           in and_then (rfs_write_device dv r 0 RFS_SECTOR_SIZE
                          (desc_bytes desc @ replicate (RFS_SECTOR_SIZE - 56) 0)) (\<lambda>_ r1.
              and_then (rfs_write_device dv r1 1 RFS_SECTOR_SIZE
                          (take RFS_SECTOR_SIZE (fresh_block (replicate RFS_MAX_NAME 0) 0))) (\<lambda>_ r2.
              and_then (clear_area dv r2 2 RFS_DEFAULT_DIR_SIZE 0) (\<lambda>_ r3.
              and_then (clear_area dv r3 (ds_map_start desc) (ds_map_length desc) 0) (\<lambda>_ r4.
                case rfs_kmalloc r4 of
                  (False, r5) \<Rightarrow> (None, r5)
                | (True, r5) \<Rightarrow>
                    and_then (rfs_build_level_caches dv (r5\<lparr>rfs_desc := Some desc\<rparr>)) (\<lambda>_ r6.
                      case rfs_mark_extent dv r6 0 (RFS_DEFAULT_DIR_SIZE + 1) True of
                        (None, r7) \<Rightarrow> (None, r7\<lparr>rfs_desc := rfs_desc r\<rparr>)
                      | (Some _, r7) \<Rightarrow>
                          (case rfs_mark_extent dv r7 (ds_map_start desc) (ds_map_length desc) True of
                             (None, r8) \<Rightarrow> (None, r8\<lparr>rfs_desc := rfs_desc r\<rparr>)
                           | (Some _, r8) \<Rightarrow> (Some (), r8))))))))"

end
