(* ===== verification/RfsBytes.thy ===== *)
theory RfsBytes
  imports RfsDemo RfsFile
begin

text \<open>
  A volume as an array of bytes.  \<open>vbyte vs p\<close> is byte \<open>p\<close> of the volume with sectors \<open>vs\<close>, \<open>vbytes vs p n\<close> a
  range of bytes, and \<open>upd f p xs\<close> the array \<open>f\<close> after \<open>xs\<close> has been stored at \<open>p\<close>.  Reading and writing files is
  specified on this array, without sectors.
\<close>

section \<open>Bytes and sectors\<close>

definition vbyte :: "(nat \<Rightarrow> byte list) \<Rightarrow> nat \<Rightarrow> byte" where
  "vbyte vs p = vs (p div 512) ! (p mod 512)"

definition vbytes :: "(nat \<Rightarrow> byte list) \<Rightarrow> nat \<Rightarrow> nat \<Rightarrow> byte list" where
  "vbytes vs p n = map (vbyte vs) [p ..< p + n]"

definition upd :: "(nat \<Rightarrow> byte) \<Rightarrow> nat \<Rightarrow> byte list \<Rightarrow> nat \<Rightarrow> byte" where
  "upd f p xs q = (if p \<le> q \<and> q < p + length xs then xs ! (q - p) else f q)"

lemma length_vbytes [simp]: "length (vbytes vs p n) = n"
  by (simp add: vbytes_def)

lemma vbytes_0 [simp]: "vbytes vs p 0 = []"
  by (simp add: vbytes_def)

lemma vbytes_add: "vbytes vs p (a + b) = vbytes vs p a @ vbytes vs (p + a) b"
proof -
  have "[p ..< p + (a + b)] = [p ..< p + a] @ [p + a ..< p + a + b]"
    using upt_add_eq_append [of p "p + a" b] by (simp add: add.assoc)
  then show ?thesis unfolding vbytes_def by simp
qed

lemma take_vbytes: "k \<le> n \<Longrightarrow> take k (vbytes vs p n) = vbytes vs p k"
  by (simp add: vbytes_def take_map)

lemma drop_vbytes: "k \<le> n \<Longrightarrow> drop k (vbytes vs p n) = vbytes vs (p + k) (n - k)"
  by (simp add: vbytes_def drop_map)

lemma sector_vbytes:
  assumes "length (vs s) = 512"
  shows "vs s = vbytes vs (s * 512) 512"
proof (rule nth_equalityI)
  show "length (vs s) = length (vbytes vs (s * 512) 512)" using assms by simp
  fix i
  assume "i < length (vs s)"
  then have i: "i < 512" using assms by simp
  have "(s * 512 + i) div 512 = s" "(s * 512 + i) mod 512 = i" using i by simp_all
  then show "vs s ! i = vbytes vs (s * 512) 512 ! i" using i by (simp add: vbytes_def vbyte_def)
qed

lemma get_sectors_vbytes:
  assumes "\<And>k. s \<le> k \<Longrightarrow> k < s + n \<Longrightarrow> length (vs k) = 512"
  shows "get_sectors vs s n = vbytes vs (s * 512) (n * 512)"
  using assms
proof (induction n)
  case 0
  then show ?case by (simp add: get_sectors_def)
next
  case (Suc n)
  have "get_sectors vs s (Suc n) = get_sectors vs s n @ vs (s + n)" by (simp add: get_sectors_def)
  also have "\<dots> = vbytes vs (s * 512) (n * 512) @ vbytes vs (s * 512 + n * 512) 512"
    using Suc sector_vbytes [of vs "s + n"] by (simp add: add_mult_distrib)
  finally show ?case unfolding vbytes_add [symmetric] by (simp add: add.commute)
qed

lemma vbyte_put_sectors:
  assumes "length xs = n * 512"
  shows "vbyte (put_sectors 512 vs s xs) = upd (vbyte vs) (s * 512) xs"
proof
  fix p :: nat
  have p: "p = p div 512 * 512 + p mod 512" "p mod 512 < 512" by simp_all
  show "vbyte (put_sectors 512 vs s xs) p = upd (vbyte vs) (s * 512) xs p"
  proof (cases "s \<le> p div 512 \<and> p div 512 < s + n")
    case True
    then have in_range: "s * 512 \<le> p" "p < s * 512 + n * 512" using p by linarith+
    have "p - s * 512 = 512 * (p div 512 - s) + p mod 512"
      using p True by (simp add: diff_mult_distrib2)
    moreover have "512 * (p div 512 - s) \<le> length xs" using True unfolding assms by linarith
    ultimately show ?thesis
      using True in_range assms p(2) by (simp add: vbyte_def upd_def put_sectors_def nth_sector_def mult.commute)
  next
    case False
    then have "\<not> (s * 512 \<le> p \<and> p < s * 512 + n * 512)" using p by linarith
    then show ?thesis using False assms by (auto simp: vbyte_def upd_def put_sectors_def)
  qed
qed

lemma upd_upd: "upd (upd f p xs) (p + length xs) ys = upd f p (xs @ ys)"
  by (rule ext) (auto simp: upd_def nth_append)

lemma upd_Nil [simp]: "upd f p [] = f"
  by (rule ext) (auto simp: upd_def)

lemma vbytes_upd_same:
  assumes "vbyte vs' = upd (vbyte vs) p xs"
  shows "vbytes vs' p (length xs) = xs"
  unfolding vbytes_def assms by (rule nth_equalityI) (simp_all add: upd_def)

lemma vbytes_upd_other:
  assumes "vbyte vs' = upd (vbyte vs) p xs" "q + n \<le> p \<or> p + length xs \<le> q"
  shows "vbytes vs' q n = vbytes vs q n"
  unfolding vbytes_def assms(1) using assms(2) by (intro map_cong refl) (auto simp: upd_def)

lemma upd_memcpy:
  assumes "length (vs s) = 512" "off + length xs \<le> 512"
  shows "upd (vbyte vs) (s * 512) (memcpy_at off xs (vs s)) = upd (vbyte vs) (s * 512 + off) xs"
proof
  fix q
  have old: "vs s ! i = vbyte vs (s * 512 + i)" if "i < 512" for i
    using that by (simp add: vbyte_def)
  show "upd (vbyte vs) (s * 512) (memcpy_at off xs (vs s)) q = upd (vbyte vs) (s * 512 + off) xs q"
  proof (cases "s * 512 \<le> q \<and> q < s * 512 + 512")
    case True
    then obtain i where i: "q = s * 512 + i" "i < 512" by (metis le_add_diff_inverse nat_add_left_cancel_less)
    then show ?thesis using assms old [of i] nth_memcpy_at [of off xs "vs s" i]
      by (auto simp: upd_def)
  next
    case False
    then show ?thesis using assms by (auto simp: upd_def)
  qed
qed

section \<open>Reading\<close>

text \<open>After some reads and requests for memory.\<close>

definition touched :: "('d \<Rightarrow> bool) \<Rightarrow> ('d \<Rightarrow> nat \<Rightarrow> byte list) \<Rightarrow> 'd rfs \<Rightarrow> 'd rfs \<Rightarrow> bool" where
  "touched ok sector r r' \<longleftrightarrow> (\<exists>d q. r' = r\<lparr>rfs_dev := d, rfs_requests := q\<rparr> \<and> ok d \<and> sector d = sector (rfs_dev r))"

lemma touched_facts:
  assumes "touched ok sector r r'" "vol_ok ok nblk r"
  shows "vol_ok ok nblk r'" "vsec sector r' = vsec sector r" "rfs_total r' = rfs_total r" "rfs_desc r' = rfs_desc r"
    "rfs_mem r' = rfs_mem r"
  using assms by (auto simp: touched_def vol_ok_def vsec_def [abs_def])

lemma touched_refl: "vol_ok ok nblk r \<Longrightarrow> touched ok sector r r"
  unfolding touched_def by (rule exI [of _ "rfs_dev r"], rule exI [of _ "rfs_requests r"]) (simp add: vol_ok_def)

lemma touched_trans:
  "touched ok sector r r' \<Longrightarrow> touched ok sector r' r'' \<Longrightarrow> touched ok sector r r''"
  unfolding touched_def by force

lemma touched_malloc: "vol_ok ok nblk r \<Longrightarrow> touched ok sector r (r\<lparr>rfs_requests := q\<rparr>)"
  unfolding touched_def by (rule exI [of _ "rfs_dev r"], rule exI [of _ q]) (simp add: vol_ok_def)

lemma touched_dev: "ok d \<Longrightarrow> sector d = sector (rfs_dev r) \<Longrightarrow> touched ok sector r (r\<lparr>rfs_dev := d\<rparr>)"
  unfolding touched_def by (rule exI [of _ d], rule exI [of _ "rfs_requests r"]) simp

lemma io_size_chunk: "0 < n \<Longrightarrow> n \<le> 64 \<Longrightarrow> io_size n"
  by (simp add: io_size_def U32_def)

context reliable_disk
begin

lemma vsec_vbytes:
  assumes "vol_ok ok nblk r" "s + n \<le> rfs_total r"
  shows "get_sectors (vsec sector r) s n = vbytes (vsec sector r) (s * 512) (n * 512)"
  by (rule get_sectors_vbytes) (use vsec_length [OF assms(1)] assms(2) in simp)

lemma reads_bytes:
  assumes "vol_ok ok nblk r" "0 < n" "n \<le> 64" "s + n \<le> rfs_total r"
  shows "\<exists>r'. rfs_read_device dv r s (n * 512) = (Some (vbytes (vsec sector r) (s * 512) (n * 512)), r') \<and>
    touched ok sector r r'"
proof -
  obtain d where "rfs_read_device dv r s (n * 512) = (Some (vbytes (vsec sector r) (s * 512) (n * 512)), r\<lparr>rfs_dev := d\<rparr>)"
    "ok d" "sector d = sector (rfs_dev r)"
    using rfs_reads [OF assms(1) io_size_chunk [OF assms(2,3)] assms(4)] unfolding vsec_vbytes [OF assms(1,4)] by blast
  then show ?thesis using touched_dev [of ok d sector r] by blast
qed

lemma read_middle_bytes:
  assumes "vol_ok ok nblk r" "cur + full \<le> rfs_total r"
  shows "\<exists>r'. read_middle dv r cur full buffer = (Some (buffer @ vbytes (vsec sector r) (cur * 512) (full * 512)), r') \<and>
    touched ok sector r r'"
  using assms
proof (induction full arbitrary: r cur buffer rule: less_induct)
  case (less full)
  show ?case
  proof (cases "full = 0")
    case True
    then show ?thesis using less(2) touched_refl by (subst read_middle.simps) auto
  next
    case False
    let ?b = "min full 16"
    have b: "0 < ?b" "?b \<le> 64" "cur + ?b \<le> rfs_total r" using False less(3) by auto
    obtain r1 where r1: "rfs_read_device dv r cur (?b * 512) = (Some (vbytes (vsec sector r) (cur * 512) (?b * 512)), r1)"
      "touched ok sector r r1"
      using reads_bytes [OF less(2) b] by blast
    note f = touched_facts [OF r1(2) less(2)]
    have w: "add64 cur ?b = cur + ?b"
      using b(3) disk_size [of "rfs_dev r"] less(2) by (simp add: vol_ok_def add64_nowrap)
    have "full - ?b < full" "cur + ?b + (full - ?b) \<le> rfs_total r1" using False less(3) f(3) by auto
    then obtain r2 where r2: "read_middle dv r1 (cur + ?b) (full - ?b) (buffer @ vbytes (vsec sector r) (cur * 512) (?b * 512)) =
        (Some ((buffer @ vbytes (vsec sector r) (cur * 512) (?b * 512)) @
           vbytes (vsec sector r1) ((cur + ?b) * 512) ((full - ?b) * 512)), r2)" "touched ok sector r1 r2"
      using less(1) [OF _ f(1)] by blast
    have "read_middle dv r cur full buffer =
        read_middle dv r1 (cur + ?b) (full - ?b) (buffer @ vbytes (vsec sector r) (cur * 512) (?b * 512))"
      using False r1(1) w by (subst read_middle.simps) (simp add: Let_def RFS_MAP_READ_CHUNK_SECTORS_def RFS_SECTOR_SIZE_def)
    moreover have "vbytes (vsec sector r) (cur * 512) (full * 512) =
        vbytes (vsec sector r) (cur * 512) (?b * 512) @ vbytes (vsec sector r) ((cur + ?b) * 512) ((full - ?b) * 512)"
    proof -
      have "full * 512 = ?b * 512 + (full - ?b) * 512" by (simp add: diff_mult_distrib)
      then show ?thesis using vbytes_add [of "vsec sector r" "cur * 512" "?b * 512" "(full - ?b) * 512"]
        by (simp add: add_mult_distrib)
    qed
    ultimately show ?thesis using r2 f(2) touched_trans [OF r1(2) r2(2)] by simp
  qed
qed

lemma malloc_ok:
  assumes "rfs_mem r = (\<lambda>_. True)"
  shows "rfs_kmalloc r = (True, r\<lparr>rfs_requests := Suc (rfs_requests r)\<rparr>)"
  using assms by (simp add: rfs_kmalloc_def)

end

text \<open>The sectors that a range of bytes touches.\<close>

lemma span_one:
  fixes start len :: nat
  assumes "0 < len" "start div 512 = (start + len - 1) div 512"
  shows "start mod 512 + len \<le> 512"
proof -
  have "start = start div 512 * 512 + start mod 512" by simp
  moreover have "start + len - 1 < (start + len - 1) div 512 * 512 + 512"
    using dividend_less_div_times [of 512 "start + len - 1"] by simp
  ultimately show ?thesis using assms by linarith
qed

lemma span_many:
  fixes start len :: nat
  assumes "0 < len" "start div 512 \<noteq> (start + len - 1) div 512"
  defines "h \<equiv> 512 - start mod 512" and "full \<equiv> (len - (512 - start mod 512)) div 512"
  shows "h \<le> len" "h \<le> 512" "0 < h" "len = h + full * 512 + (start + len) mod 512"
    "(start div 512 + 1) * 512 = start + h"
    "(start + len) mod 512 \<noteq> 0 \<Longrightarrow> (start + len - 1) div 512 = start div 512 + 1 + full"
    "(start + len) mod 512 < 512" "len - h = full * 512 + (start + len) mod 512"
proof -
  define a where "a = start div 512"
  define m where "m = start mod 512"
  have st: "start = a * 512 + m" "m < 512" by (simp_all add: a_def m_def)
  have ge: "a < (start + len - 1) div 512"
    unfolding a_def using assms(1,2) div_le_mono [of start "start + len - 1" 512] by simp
  then have "(a + 1) * 512 \<le> (start + len - 1) div 512 * 512" by (intro mult_le_mono1) simp
  also have "\<dots> \<le> start + len - 1" by (rule div_times_less_eq_dividend)
  finally have al: "(a + 1) * 512 \<le> start + len - 1" .
  have "a * 512 + 512 \<le> a * 512 + (m + len - 1)" using al st(1) assms(1) by simp
  then have "512 \<le> m + len" by linarith
  then show hl: "h \<le> len" unfolding h_def m_def [symmetric] by simp
  show "h \<le> 512" "0 < h" unfolding h_def by simp_all
  have e: "(a + 1) * 512 = start + h" unfolding h_def m_def [symmetric] using st by presburger
  then show "(start div 512 + 1) * 512 = start + h" by (simp only: a_def)
  have sl: "start + len = (a + 1) * 512 + (len - h)" using e hl by linarith
  then have m: "(start + len) mod 512 = (len - h) mod 512" by (metis mod_mult_self3)
  have f: "full = (len - h) div 512" by (simp add: full_def h_def)
  show "len = h + full * 512 + (start + len) mod 512" unfolding m f using hl by simp
  show "(start + len) mod 512 < 512" by simp
  show "len - h = full * 512 + (start + len) mod 512" unfolding m f by simp
  show "(start + len - 1) div 512 = start div 512 + 1 + full" if "(start + len) mod 512 \<noteq> 0"
  proof -
    define t where "t = (len - h) mod 512"
    have "len - h = full * 512 + t" unfolding f t_def by simp
    then have "start + len = (a + 1 + full) * 512 + t" using sl by (simp only: add_mult_distrib add.assoc)
    moreover have "t \<noteq> 0" using that unfolding m t_def .
    ultimately have "start + len - 1 = (a + 1 + full) * 512 + (t - 1)" by simp
    then have "start + len - 1 = (start div 512 + 1 + full) * 512 + ((start + len) mod 512 - 1)"
      unfolding m t_def [symmetric] a_def [symmetric] .
    moreover have "(start + len) mod 512 - 1 < 512" by (simp add: less_imp_diff_less)
    ultimately show ?thesis by (metis div_mult_self3 div_less add_cancel_right_right zero_neq_numeral add.commute)
  qed
qed

context reliable_disk
begin

lemma range_sectors:
  assumes "vol_ok ok nblk r" "lba * 512 + start + len \<le> rfs_total r * 512" "start + len < W64" "0 < len"
  shows "add64 start len = start + len" "sub64 (start + len) 1 = start + len - 1"
    "add64 lba (start div 512) = lba + start div 512"
    "add64 lba ((start + len - 1) div 512) = lba + (start + len - 1) div 512"
    "lba + (start + len - 1) div 512 < rfs_total r" "lba + start div 512 \<le> lba + (start + len - 1) div 512"
    "len < W64"
proof -
  have t: "rfs_total r < W64" using assms(1) disk_size [of "rfs_dev r"] by (simp add: vol_ok_def)
  have "(start + len - 1) div 512 * 512 \<le> start + len - 1" by simp
  then show l: "lba + (start + len - 1) div 512 < rfs_total r" using assms(2,4) by linarith
  have "start div 512 \<le> (start + len - 1) div 512" by (rule div_le_mono) (use assms(4) in simp)
  then show le: "lba + start div 512 \<le> lba + (start + len - 1) div 512" by simp
  show "add64 start len = start + len" "sub64 (start + len) 1 = start + len - 1"
    using assms(3,4) by (simp_all add: add64_nowrap sub64_nowrap)
  show "add64 lba (start div 512) = lba + start div 512"
    "add64 lba ((start + len - 1) div 512) = lba + (start + len - 1) div 512" "len < W64"
    using l le t assms(3) by (simp_all add: add64_nowrap)
qed

lemma read_data_bytes:
  assumes "vol_ok ok nblk r" "rfs_mem r = (\<lambda>_. True)" "0 < len" "start + len < W64"
    "lba * 512 + start + len \<le> rfs_total r * 512"
  shows "\<exists>r'. read_data dv r lba start len = (Some (vbytes (vsec sector r) (lba * 512 + start) len), r') \<and>
    touched ok sector r r'"
proof -
  let ?vs = "vsec sector r" and ?a = "start div 512" and ?z = "(start + len - 1) div 512" and ?h = "start mod 512"
  let ?r1 = "r\<lparr>rfs_requests := Suc (rfs_requests r)\<rparr>"
  note rs = range_sectors [OF assms(1,5,4,3)]
  have st: "start = ?a * 512 + ?h" by simp
  have t1: "touched ok sector r ?r1" by (rule touched_malloc [OF assms(1)])
  note f1 = touched_facts [OF t1 assms(1)]
  obtain r2 where r2: "rfs_read_device dv ?r1 (lba + ?a) 512 = (Some (vbytes ?vs ((lba + ?a) * 512) 512), r2)"
    "touched ok sector ?r1 r2"
    using reads_bytes [OF f1(1), of "Suc 0" "lba + ?a"] rs(5,6) f1(2,3) by auto
  have t2: "touched ok sector r r2" by (rule touched_trans [OF t1 r2(2)])
  note f2 = touched_facts [OF t2 assms(1)]
  show ?thesis
  proof (cases "?a = ?z")
    case True
    have hl: "?h + len \<le> 512" by (rule span_one [OF assms(3) True])
    have "take len (drop ?h (vbytes ?vs ((lba + ?a) * 512) 512)) = vbytes ?vs (lba * 512 + start) len"
    proof -
      have "(lba + ?a) * 512 + ?h = lba * 512 + start" using st by (simp add: add_mult_distrib)
      then show ?thesis using hl by (simp add: drop_vbytes take_vbytes add.commute)
    qed
    then have "read_data dv r lba start len = (Some (vbytes ?vs (lba * 512 + start) len), r2)"
      unfolding read_data_def Let_def RFS_SECTOR_SIZE_def rs(1-4) malloc_ok [OF assms(2)] True [symmetric]
      using r2(1) by simp
    then show ?thesis using t2 by blast
  next
    case False
    let ?hb = "512 - ?h" and ?full = "(len - (512 - ?h)) div 512" and ?t = "(start + len) mod 512"
    note sp = span_many [OF assms(3) False]
    have hd: "take ?hb (drop ?h (vbytes ?vs ((lba + ?a) * 512) 512)) = vbytes ?vs (lba * 512 + start) ?hb"
    proof -
      have "(lba + ?a) * 512 + ?h = lba * 512 + start" using st by (simp add: add_mult_distrib)
      then show ?thesis using sp(2) by (simp add: drop_vbytes take_vbytes add.commute)
    qed
    have pos: "(lba + ?a + 1) * 512 = lba * 512 + start + ?hb" using sp(5) by (simp add: add_mult_distrib)
    have fit: "lba + ?a + 1 + ?full \<le> rfs_total r"
      using sp(4) pos assms(5) by linarith
    have a1: "add64 (lba + ?a) 1 = lba + ?a + 1" "sub64 len ?hb = len - ?hb"
      using fit f1(3) disk_size [of "rfs_dev r"] assms(1) sp(1) rs(7)
      by (simp_all add: vol_ok_def add64_nowrap sub64_nowrap)
    obtain r3 where r3: "read_middle dv r2 (lba + ?a + 1) ?full (vbytes ?vs (lba * 512 + start) ?hb) =
        (Some (vbytes ?vs (lba * 512 + start) ?hb @ vbytes ?vs (lba * 512 + start + ?hb) (?full * 512)), r3)"
      "touched ok sector r2 r3"
      using read_middle_bytes [OF f2(1), of "lba + ?a + 1" ?full] fit f2(2,3) unfolding pos by auto
    have t3: "touched ok sector r r3" by (rule touched_trans [OF t2 r3(2)])
    note f3 = touched_facts [OF t3 assms(1)]
    have body: "vbytes ?vs (lba * 512 + start) ?hb @ vbytes ?vs (lba * 512 + start + ?hb) (?full * 512) =
        vbytes ?vs (lba * 512 + start) (?hb + ?full * 512)"
      by (rule vbytes_add [symmetric])
    have rd: "read_data dv r lba start len =
        (if ?t \<noteq> 0 then and_then (rfs_read_device dv r3 (lba + ?z) 512)
           (\<lambda>tl r4. (Some (vbytes ?vs (lba * 512 + start) (?hb + ?full * 512) @ take ?t tl), r4))
         else (Some (vbytes ?vs (lba * 512 + start) (?hb + ?full * 512)), r3))"
      unfolding read_data_def Let_def RFS_SECTOR_SIZE_def rs(1-4) malloc_ok [OF assms(2)]
      by (simp only: prod.case bool.case add_left_cancel False if_False r2(1) and_then_simps hd a1 r3(1) body)
    show ?thesis
    proof (cases "?t = 0")
      case True
      then have "?hb + ?full * 512 = len" using sp(4) by linarith
      then show ?thesis using rd True t3 by simp
    next
      case tn: False
      have z: "lba + ?z = lba + ?a + 1 + ?full" using sp(6) [OF tn] by simp
      obtain r4 where r4: "rfs_read_device dv r3 (lba + ?z) 512 = (Some (vbytes ?vs ((lba + ?z) * 512) 512), r4)"
        "touched ok sector r3 r4"
        using reads_bytes [OF f3(1), of "Suc 0" "lba + ?z"] rs(5) f3(2,3) by auto
      have zp: "(lba + ?z) * 512 = lba * 512 + start + (?hb + ?full * 512)"
      proof -
        have "(lba + ?z) * 512 = (lba + ?a + 1) * 512 + ?full * 512" unfolding z by (simp only: add_mult_distrib)
        then show ?thesis unfolding pos by (simp only: add.assoc)
      qed
      have len: "?hb + ?full * 512 + ?t = len" using sp(4) by linarith
      have tl: "vbytes ?vs (lba * 512 + start) (?hb + ?full * 512) @ take ?t (vbytes ?vs ((lba + ?z) * 512) 512) =
          vbytes ?vs (lba * 512 + start) len"
        unfolding zp take_vbytes [OF less_imp_le [OF sp(7)]] vbytes_add [symmetric] len ..
      have "read_data dv r lba start len = (Some (vbytes ?vs (lba * 512 + start) len), r4)"
        unfolding rd r4(1) and_then_simps tl using tn by (rule if_P)
      then show ?thesis using touched_trans [OF t3 r4(2)] by blast
    qed
  qed
qed

end

section \<open>Writing\<close>

lemma dev_trans:
  assumes "\<exists>d q. r1 = r\<lparr>rfs_dev := d, rfs_requests := q\<rparr> \<and> P d" "\<exists>d q. r2 = r1\<lparr>rfs_dev := d, rfs_requests := q\<rparr> \<and> ok d"
  shows "\<exists>d q. r2 = r\<lparr>rfs_dev := d, rfs_requests := q\<rparr> \<and> ok d"
  using assms by force

text \<open>After \<open>xs\<close> has been stored at byte \<open>p\<close> of the volume.\<close>

definition wrote :: "('d \<Rightarrow> bool) \<Rightarrow> ('d \<Rightarrow> nat \<Rightarrow> byte list) \<Rightarrow> 'd rfs \<Rightarrow> 'd rfs \<Rightarrow> nat \<Rightarrow> byte list \<Rightarrow> bool" where
  "wrote ok sector r r' p xs \<longleftrightarrow> (\<exists>d q. r' = r\<lparr>rfs_dev := d, rfs_requests := q\<rparr> \<and> ok d) \<and>
     vbyte (vsec sector r') = upd (vbyte (vsec sector r)) p xs"

lemma wrote_facts:
  assumes "wrote ok sector r r' p xs" "vol_ok ok nblk r"
  shows "vol_ok ok nblk r'" "rfs_total r' = rfs_total r" "rfs_desc r' = rfs_desc r" "rfs_mem r' = rfs_mem r"
    "vbyte (vsec sector r') = upd (vbyte (vsec sector r)) p xs"
  using assms by (auto simp: wrote_def vol_ok_def)

lemma wrote_trans:
  assumes "wrote ok sector r r1 p xs" "wrote ok sector r1 r2 (p + length xs) ys"
  shows "wrote ok sector r r2 p (xs @ ys)"
proof -
  have "\<exists>d q. r2 = r\<lparr>rfs_dev := d, rfs_requests := q\<rparr> \<and> ok d"
    using assms unfolding wrote_def by (blast intro: dev_trans)
  moreover have "vbyte (vsec sector r2) = upd (vbyte (vsec sector r)) p (xs @ ys)"
    using assms unfolding wrote_def by (simp add: upd_upd)
  ultimately show ?thesis unfolding wrote_def by blast
qed

lemma touched_wrote:
  assumes "touched ok sector r r1" "wrote ok sector r1 r2 p xs"
  shows "wrote ok sector r r2 p xs"
proof -
  have "vsec sector r1 = vsec sector r" using assms(1) by (auto simp: touched_def vsec_def [abs_def])
  moreover have "\<exists>d q. r2 = r\<lparr>rfs_dev := d, rfs_requests := q\<rparr> \<and> ok d"
    using assms unfolding wrote_def touched_def by (blast intro: dev_trans)
  ultimately show ?thesis using assms(2) unfolding wrote_def by simp
qed

lemma wrote_Nil: "vol_ok ok nblk r \<Longrightarrow> wrote ok sector r r p []"
  unfolding wrote_def by (rule conjI, rule exI [of _ "rfs_dev r"], rule exI [of _ "rfs_requests r"]) (simp_all add: vol_ok_def)

context reliable_disk
begin

lemma writes_bytes:
  assumes "vol_ok ok nblk r" "0 < n" "n \<le> 64" "s + n \<le> rfs_total r" "length xs = n * 512"
  shows "\<exists>r'. rfs_write_device dv r s (n * 512) xs = (Some (), r') \<and> wrote ok sector r r' (s * 512) xs"
proof -
  obtain d where d: "rfs_write_device dv r s (n * 512) xs = (Some (), r\<lparr>rfs_dev := d\<rparr>)" "ok d"
    "vsec sector (r\<lparr>rfs_dev := d\<rparr>) = put_sectors 512 (vsec sector r) s xs"
    using rfs_writes [OF assms(1) io_size_chunk [OF assms(2,3)] assms(4,5)] by blast
  have "vbyte (vsec sector (r\<lparr>rfs_dev := d\<rparr>)) = upd (vbyte (vsec sector r)) (s * 512) xs"
    unfolding d(3) by (rule vbyte_put_sectors [OF assms(5)])
  moreover have "\<exists>d' q. r\<lparr>rfs_dev := d\<rparr> = r\<lparr>rfs_dev := d', rfs_requests := q\<rparr> \<and> ok d'"
    using d(2) by (intro exI [of _ d] exI [of _ "rfs_requests r"]) simp
  ultimately show ?thesis using d(1) unfolding wrote_def by blast
qed

lemma patch_bytes:
  assumes "vol_ok ok nblk r" "sec < rfs_total r" "off + length xs \<le> 512"
  shows "\<exists>r'. patch_sector dv r sec off xs = (Some (), r') \<and> wrote ok sector r r' (sec * 512 + off) xs"
proof -
  let ?vs = "vsec sector r"
  have l: "length (?vs sec) = 512" by (rule vsec_length [OF assms(1,2)])
  obtain r1 where r1: "rfs_read_device dv r sec 512 = (Some (?vs sec), r1)" "touched ok sector r r1"
    using reads_bytes [OF assms(1), of "Suc 0" sec] assms(2) sector_vbytes [of ?vs sec, OF l] by auto
  note f = touched_facts [OF r1(2) assms(1)]
  let ?b = "memcpy_at off xs (?vs sec)"
  have "length ?b = 512" using assms(3) l by simp
  then obtain r2 where r2: "rfs_write_device dv r1 sec 512 ?b = (Some (), r2)" "wrote ok sector r1 r2 (sec * 512) ?b"
    using writes_bytes [OF f(1), of "Suc 0" sec ?b] assms(2) f(3) by auto
  have "patch_sector dv r sec off xs = (Some (), r2)"
    using r1(1) r2(1) by (simp add: patch_sector_def RFS_SECTOR_SIZE_def)
  moreover have "wrote ok sector r r2 (sec * 512 + off) xs"
    using touched_wrote [OF r1(2) r2(2)] unfolding wrote_def upd_memcpy [where vs = ?vs and s = sec, OF l assms(3)] .
  ultimately show ?thesis by blast
qed

lemma write_middle_bytes:
  assumes "vol_ok ok nblk r" "cur + full \<le> rfs_total r" "full * 512 \<le> length buf"
  shows "\<exists>r'. write_middle dv r cur full buf = (Some (drop (full * 512) buf), r') \<and>
    wrote ok sector r r' (cur * 512) (take (full * 512) buf)"
  using assms
proof (induction full arbitrary: r cur buf rule: less_induct)
  case (less full)
  show ?case
  proof (cases "full = 0")
    case True
    then have "write_middle dv r cur full buf = (Some buf, r)" by (subst write_middle.simps) simp
    then show ?thesis using True wrote_Nil [OF less(2)] by auto
  next
    case False
    let ?b = "min full 16"
    have b: "0 < ?b" "?b \<le> 64" "cur + ?b \<le> rfs_total r" "length (take (?b * 512) buf) = ?b * 512"
      using False less(3,4) by auto
    obtain r1 where r1: "rfs_write_device dv r cur (?b * 512) (take (?b * 512) buf) = (Some (), r1)"
      "wrote ok sector r r1 (cur * 512) (take (?b * 512) buf)"
      using writes_bytes [OF less(2) b] by blast
    note f = wrote_facts [OF r1(2) less(2)]
    have w: "add64 cur ?b = cur + ?b"
      using b(3) disk_size [of "rfs_dev r"] less(2) by (simp add: vol_ok_def add64_nowrap)
    have m: "?b * 512 + (full - ?b) * 512 = full * 512" by (simp add: diff_mult_distrib)
    have "full - ?b < full" "cur + ?b + (full - ?b) \<le> rfs_total r1" "(full - ?b) * 512 \<le> length (drop (?b * 512) buf)"
      using False less(3,4) f(2) m by auto
    then obtain r2 where r2: "write_middle dv r1 (cur + ?b) (full - ?b) (drop (?b * 512) buf) =
        (Some (drop ((full - ?b) * 512) (drop (?b * 512) buf)), r2)"
      "wrote ok sector r1 r2 ((cur + ?b) * 512) (take ((full - ?b) * 512) (drop (?b * 512) buf))"
      using less(1) [OF _ f(1)] by blast
    have "write_middle dv r cur full buf = write_middle dv r1 (cur + ?b) (full - ?b) (drop (?b * 512) buf)"
      using False r1(1) w by (subst write_middle.simps) (simp add: Let_def RFS_MAP_READ_CHUNK_SECTORS_def RFS_SECTOR_SIZE_def)
    then have "write_middle dv r cur full buf = (Some (drop (full * 512) buf), r2)"
      using r2(1) m by (simp add: add.commute)
    moreover have "wrote ok sector r r2 (cur * 512) (take (?b * 512) buf @ take ((full - ?b) * 512) (drop (?b * 512) buf))"
      by (rule wrote_trans [OF r1(2)]) (use r2(2) b(4) in \<open>simp add: add_mult_distrib\<close>)
    moreover have "take (?b * 512) buf @ take ((full - ?b) * 512) (drop (?b * 512) buf) = take (full * 512) buf"
      unfolding m [symmetric] by (rule take_add [symmetric])
    ultimately show ?thesis by auto
  qed
qed

lemma write_data_bytes:
  assumes "vol_ok ok nblk r" "rfs_mem r = (\<lambda>_. True)" "0 < len" "start + len < W64"
    "lba * 512 + start + len \<le> rfs_total r * 512" "length buffer = len"
  shows "\<exists>r'. write_data dv r lba start len buffer = (Some (), r') \<and> wrote ok sector r r' (lba * 512 + start) buffer"
proof -
  let ?a = "start div 512" and ?z = "(start + len - 1) div 512" and ?h = "start mod 512"
  let ?r1 = "r\<lparr>rfs_requests := Suc (rfs_requests r)\<rparr>"
  note rs = range_sectors [OF assms(1,5,4,3)]
  have st: "(lba + ?a) * 512 + ?h = lba * 512 + start" by (simp add: add_mult_distrib)
  have t1: "touched ok sector r ?r1" by (rule touched_malloc [OF assms(1)])
  note f1 = touched_facts [OF t1 assms(1)]
  have la: "lba + ?a < rfs_total ?r1" using rs(5,6) f1(3) by linarith
  show ?thesis
  proof (cases "?a = ?z")
    case True
    have hl: "?h + length buffer \<le> 512" using span_one [OF assms(3) True] assms(6) by simp
    obtain r2 where r2: "patch_sector dv ?r1 (lba + ?a) ?h buffer = (Some (), r2)"
      "wrote ok sector ?r1 r2 (lba * 512 + start) buffer"
      using patch_bytes [OF f1(1) la hl] unfolding st by blast
    have "write_data dv r lba start len buffer = (Some (), r2)"
      unfolding write_data_def Let_def RFS_SECTOR_SIZE_def rs(1-4) malloc_ok [OF assms(2)] True [symmetric]
      using r2(1) assms(6) by simp
    then show ?thesis using touched_wrote [OF t1 r2(2)] by blast
  next
    case False
    let ?hb = "512 - ?h" and ?full = "(len - (512 - ?h)) div 512" and ?t = "(start + len) mod 512"
    note sp = span_many [OF assms(3) False]
    let ?hd = "take ?hb buffer" and ?rest = "drop ?hb buffer"
    have hl: "?h + length ?hd \<le> 512" "length ?hd = ?hb" using sp(1,2) assms(6) by auto
    have pos: "(lba + ?a + 1) * 512 = lba * 512 + start + ?hb" using sp(5) by (simp add: add_mult_distrib)
    have fit: "lba + ?a + 1 + ?full \<le> rfs_total r" using sp(4) pos assms(5) by linarith
    have a1: "add64 (lba + ?a) 1 = lba + ?a + 1" "sub64 len ?hb = len - ?hb"
      using fit disk_size [of "rfs_dev r"] assms(1) sp(1) rs(7) by (simp_all add: vol_ok_def add64_nowrap sub64_nowrap)
    obtain r2 where r2: "patch_sector dv ?r1 (lba + ?a) ?h ?hd = (Some (), r2)"
      "wrote ok sector ?r1 r2 (lba * 512 + start) ?hd"
      using patch_bytes [OF f1(1) la hl(1)] unfolding st by blast
    note f2 = wrote_facts [OF r2(2) f1(1)]
    have rl2: "length ?rest = ?full * 512 + ?t" unfolding sp(8) [symmetric] using assms(6) by simp
    then have rl: "?full * 512 \<le> length ?rest" "length ?rest = ?full * 512 + ?t" by linarith+
    obtain r3 where r3: "write_middle dv r2 (lba + ?a + 1) ?full ?rest = (Some (drop (?full * 512) ?rest), r3)"
      "wrote ok sector r2 r3 (lba * 512 + start + ?hb) (take (?full * 512) ?rest)"
      using write_middle_bytes [OF f2(1) _ rl(1), of "lba + ?a + 1"] fit f2(2) f1(3) unfolding pos by auto
    note f3 = wrote_facts [OF r3(2) f2(1)]
    have w3: "wrote ok sector ?r1 r3 (lba * 512 + start) (?hd @ take (?full * 512) ?rest)"
      using wrote_trans [OF r2(2)] r3(2) unfolding hl(2) by blast
    have l3: "length (?hd @ take (?full * 512) ?rest) = ?hb + ?full * 512" using hl(2) rl by simp
    have wd: "write_data dv r lba start len buffer =
        (if ?t \<noteq> 0 then patch_sector dv r3 (lba + ?z) 0 (take ?t (drop (?full * 512) ?rest)) else (Some (), r3))"
      unfolding write_data_def Let_def RFS_SECTOR_SIZE_def rs(1-4) malloc_ok [OF assms(2)]
      by (simp only: prod.case bool.case add_left_cancel False if_False r2(1) and_then_simps a1 r3(1))
    have split: "buffer = (?hd @ take (?full * 512) ?rest) @ drop (?full * 512) ?rest"
      by (simp only: append_assoc append_take_drop_id)
    show ?thesis
    proof (cases "?t = 0")
      case True
      then have "length ?rest \<le> ?full * 512" using rl(2) by linarith
      then have "drop (?full * 512) ?rest = []" by (rule drop_all)
      then have "buffer = ?hd @ take (?full * 512) ?rest" using split by simp
      then have "wrote ok sector ?r1 r3 (lba * 512 + start) buffer" using w3 by simp
      then show ?thesis using wd True touched_wrote [OF t1] by auto
    next
      case tn: False
      have tl: "take ?t (drop (?full * 512) ?rest) = drop (?full * 512) ?rest"
        by (rule take_all) (simp only: length_drop [of "?full * 512"] rl(2) diff_add_inverse order_refl)
      have zp: "(lba + ?z) * 512 = lba * 512 + start + (?hb + ?full * 512)"
      proof -
        have "(lba + ?z) * 512 = (lba + ?a + 1) * 512 + ?full * 512" unfolding sp(6) [OF tn] by (simp only: add_mult_distrib add.assoc)
        then show ?thesis unfolding pos by (simp only: add.assoc)
      qed
      have zt: "lba + ?z < rfs_total r3" using rs(5) f3(2) f2(2) f1(3) by simp
      have zl: "0 + length (drop (?full * 512) ?rest) \<le> 512"
        by (simp only: length_drop [of "?full * 512"] rl(2) diff_add_inverse add_0 less_imp_le [OF sp(7)])
      obtain r4 where r4: "patch_sector dv r3 (lba + ?z) 0 (drop (?full * 512) ?rest) = (Some (), r4)"
        "wrote ok sector r3 r4 (lba * 512 + start + (?hb + ?full * 512)) (drop (?full * 512) ?rest)"
        using patch_bytes [OF f3(1) zt zl] unfolding zp by auto
      have "wrote ok sector ?r1 r4 (lba * 512 + start) ((?hd @ take (?full * 512) ?rest) @ drop (?full * 512) ?rest)"
        by (rule wrote_trans [OF w3]) (unfold l3, rule r4(2))
      then have "wrote ok sector ?r1 r4 (lba * 512 + start) buffer" unfolding split [symmetric] .
      moreover have "write_data dv r lba start len buffer = (Some (), r4)"
        unfolding wd tl r4(1) using tn by (rule if_P)
      ultimately show ?thesis using touched_wrote [OF t1] by blast
    qed
  qed
qed

end

end
