(* ===== verification/StringSpec.thy ===== *)
theory StringSpec
  imports StringFns
begin

text \<open>
  What the string routines compute, in terms of \<^const>\<open>cstr\<close>, the bytes before the terminator: bounded copies
  never leave the destination and always terminate it, comparisons decide equality, searches find the
  first occurrence, and repeated calls of \<^verbatim>\<open>strtok_r\<close> give the tokens of a string in order.
\<close>

section \<open>Strings at an offset\<close>

lemma cstr_drop:
  "char_at s i \<noteq> 0 \<Longrightarrow> cstr (drop i s) = char_at s i # cstr (drop (Suc i) s)"
  "char_at s i = 0 \<Longrightarrow> cstr (drop i s) = []"
  by (cases "i < length s"; simp add: char_at_def cstr_def Cons_nth_drop_Suc [symmetric])+

lemma length_cstr: "length (cstr s) \<le> length s"
  by (simp add: cstr_def length_takeWhile_le)

lemma cstr_nonzero: "c \<in> set (cstr s) \<Longrightarrow> c \<noteq> 0"
  by (auto simp: cstr_def dest: set_takeWhileD)

lemma cstr_append_0: "0 \<notin> set xs \<Longrightarrow> cstr (xs @ 0 # ys) = xs"
  by (induction xs) (auto simp: cstr_def)

lemma poke_memcpy: "d < length dst \<Longrightarrow> poke dst d c = Some (memcpy_at d [c] dst)"
  by (simp add: poke_def memcpy_at_def upd_conv_take_nth_drop)

lemma memcpy_at_Cons:
  "d < length dst \<Longrightarrow> memcpy_at (Suc d) xs (dst[d := c]) = memcpy_at d (c # xs) dst"
  by (simp add: memcpy_at_def take_Suc_conv_app_nth)

lemma memcpy_at_Nil [simp]: "memcpy_at d [] dst = dst"
  by (simp add: memcpy_at_def)

lemma drop_memcpy_at:
  "off + length xs \<le> k \<Longrightarrow> off \<le> length dst \<Longrightarrow> drop k (memcpy_at off xs dst) = drop k dst"
  by (simp add: memcpy_at_def)

lemma skip_string_eq: "skip_string src s = s + length (cstr (drop s src)) + 1"
proof (induction src s rule: skip_string.induct)
  case (1 src s)
  then show ?case by (subst skip_string.simps) (auto simp: cstr_drop)
qed

section \<open>Bounded copies\<close>

lemma strlcpy_loop_eq:
  assumes "i + k \<le> length dst"
  shows "strlcpy_loop dst src i i k =
    (let t = cstr (drop i src); m = length t
     in if m < k then Some (memcpy_at i (t @ [0]) dst, i + m + 1, i + m + 1, k - m)
        else Some (memcpy_at i (take k t) dst, i + k, i + k, 0))"
  using assms
proof (induction k arbitrary: i dst)
  case 0
  then show ?case by simp
next
  case (Suc k)
  have i: "i < length dst" using Suc.prems by simp
  show ?case
  proof (cases "char_at src i = 0")
    case True
    then show ?thesis using i by (simp add: poke_memcpy cstr_drop)
  next
    case False
    let ?c = "char_at src i"
    have IH: "strlcpy_loop (dst[i := ?c]) src (Suc i) (Suc i) k =
      (let t = cstr (drop (Suc i) src); m = length t
       in if m < k then Some (memcpy_at (Suc i) (t @ [0]) (dst[i := ?c]), Suc i + m + 1, Suc i + m + 1, k - m)
          else Some (memcpy_at (Suc i) (take k t) (dst[i := ?c]), Suc i + k, Suc i + k, 0))"
      by (rule Suc.IH) (use Suc.prems in simp)
    show ?thesis
      using i False IH by (simp add: poke_def cstr_drop(1) memcpy_at_Cons Let_def)
  qed
qed

lemma strlcpy_eq:
  assumes "siz \<le> length dst"
  shows "strlcpy dst src siz =
    Some (strlen src, if siz = 0 then dst else memcpy_at 0 (take (siz - 1) (cstr src) @ [0]) dst)"
proof (cases siz)
  case 0
  then show ?thesis
    by (simp add: strlcpy_def skip_string_eq strlen_def)
next
  case (Suc k)
  have loop: "strlcpy_loop dst src 0 0 k =
    (if strlen src < k then Some (memcpy_at 0 (cstr src @ [0]) dst, strlen src + 1, strlen src + 1, k - strlen src)
     else Some (memcpy_at 0 (take k (cstr src)) dst, k, k, 0))"
    using strlcpy_loop_eq [of 0 k dst src] assms Suc by (simp add: Let_def strlen_def)
  show ?thesis
  proof (cases "strlen src < k")
    case True
    then show ?thesis using Suc loop by (simp add: strlcpy_def strlen_def)
  next
    case False
    then have len: "length (take k (cstr src)) = k" by (simp add: strlen_def)
    have "cstr (drop k src) = drop k (cstr src)"
      using False length_cstr [of src]
    proof (induction k arbitrary: src)
      case (Suc k)
      then obtain c cs where "src = c # cs" "c \<noteq> 0" by (cases src) (auto simp: strlen_def cstr_def split: if_splits)
      then show ?case using Suc.IH [of cs] Suc.prems length_cstr [of cs] by (simp add: strlen_def cstr_def)
    qed simp
    then have "skip_string src k = strlen src + 1"
      using False by (simp add: skip_string_eq strlen_def)
    moreover have "poke (memcpy_at 0 (take k (cstr src)) dst) k 0 =
        Some (memcpy_at 0 (take k (cstr src) @ [0]) dst)"
      using assms Suc len by (simp add: poke_def memcpy_at_def list_update_append Cons_nth_drop_Suc [symmetric])
    ultimately show ?thesis using Suc loop False by (simp add: strlcpy_def)
  qed
qed

lemma dst_end_eq:
  assumes "d + n \<le> length dst"
  shows "dst_end dst d n = Some (d + min n (length (cstr (drop d dst))))"
  using assms
proof (induction n arbitrary: d)
  case 0
  then show ?case by simp
next
  case (Suc n)
  have d: "d < length dst" "char_at dst d = dst ! d" using Suc.prems by (simp_all add: char_at_def)
  show ?case
  proof (cases "dst ! d = 0")
    case True
    then show ?thesis using d cstr_drop(2) [of dst d] by simp
  next
    case False
    then show ?thesis using d cstr_drop(1) [of dst d] Suc.IH [of "d + 1"] Suc.prems by simp
  qed
qed

lemma strlcat_loop_eq:
  assumes "0 < n" "d + n \<le> length dst"
  shows "strlcat_loop dst src d s n =
    Some (memcpy_at d (take (n - 1) (cstr (drop s src))) dst, d + min (n - 1) (length (cstr (drop s src))),
      s + length (cstr (drop s src)))"
  using assms
proof (induction dst src d s n rule: strlcat_loop.induct)
  case (1 dst src d s n)
  show ?case
  proof (cases "char_at src s = 0")
    case True
    then show ?thesis by (subst strlcat_loop.simps) (simp add: cstr_drop(2))
  next
    case False
    show ?thesis
    proof (cases "n = 1")
      case True
      have "strlcat_loop dst src d (s + 1) n =
          Some (memcpy_at d (take (n - 1) (cstr (drop (s + 1) src))) dst,
            d + min (n - 1) (length (cstr (drop (s + 1) src))), s + 1 + length (cstr (drop (s + 1) src)))"
        using 1(2) [OF False] 1(3,4) True by simp
      then show ?thesis using False True by (subst strlcat_loop.simps) (simp add: cstr_drop(1))
    next
      case big: False
      then obtain m where m: "n = Suc (Suc m)" using 1(3) by (cases n rule: nat.exhaust; metis not_gr0 Suc_pred One_nat_def)
      have d: "d < length dst" using 1(4) m by simp
      let ?dst = "dst[d := char_at src s]"
      have p: "poke dst d (char_at src s) = Some ?dst" using d by (simp add: poke_def)
      have "strlcat_loop ?dst src (d + 1) (s + 1) (n - 1) =
          Some (memcpy_at (d + 1) (take (n - 1 - 1) (cstr (drop (s + 1) src))) ?dst,
            d + 1 + min (n - 1 - 1) (length (cstr (drop (s + 1) src))), s + 1 + length (cstr (drop (s + 1) src)))"
        using 1(1) [OF False big p] 1(3,4) m by simp
      then show ?thesis
        using False big p m d by (subst strlcat_loop.simps) (simp add: cstr_drop(1) memcpy_at_Cons)
    qed
  qed
qed

lemma strlcat_eq:
  assumes "siz \<le> length dst"
  defines "dlen \<equiv> min siz (strlen dst)"
  shows "strlcat dst src siz = Some (dlen + strlen src,
    if dlen = siz then dst else memcpy_at dlen (take (siz - dlen - 1) (cstr src) @ [0]) dst)"
proof -
  have e: "dst_end dst 0 siz = Some dlen"
    using dst_end_eq [of 0 siz dst] assms by (simp add: strlen_def)
  show ?thesis
  proof (cases "dlen = siz")
    case True
    then show ?thesis using e by (simp add: strlcat_def)
  next
    case False
    then have lt: "dlen < siz" by (simp add: dlen_def)
    let ?t = "take (siz - dlen - 1) (cstr src)"
    have loop: "strlcat_loop dst src dlen 0 (siz - dlen) =
        Some (memcpy_at dlen ?t dst, dlen + length ?t, strlen src)"
      using strlcat_loop_eq [of "siz - dlen" dlen dst src 0] lt assms(1) by (simp add: strlen_def min.commute)
    have "length ?t \<le> siz - dlen - 1" by simp
    then have "dlen + length ?t < length dst" using lt assms(1) by linarith
    then have "poke (memcpy_at dlen ?t dst) (dlen + length ?t) 0 = Some (memcpy_at dlen (?t @ [0]) dst)"
      using lt assms(1)
      by (simp add: poke_def memcpy_at_def list_update_append Cons_nth_drop_Suc [symmetric])
    then show ?thesis using e lt loop by (simp add: strlcat_def)
  qed
qed

section \<open>Comparison\<close>

lemma cstr_unfold: "cstr s = (if peek s = 0 then [] else peek s # cstr (tl s))"
  using cstr_Cons [of s] cstr_Nil [of s] peek_nonempty [of s] by auto

lemma peek_cstr: "peek s = 0 \<longleftrightarrow> cstr s = []"
  by (cases s) (auto simp: peek_def cstr_def)

lemma tolower_0: "tolower b = 0 \<longleftrightarrow> b = 0"
proof (cases "65 \<le> unat b \<and> unat b \<le> 90")
  case True
  then have "unat (b + 32) = unat b + 32" by (simp add: unat_word_ariths)
  then have "tolower b \<noteq> 0" "b \<noteq> 0" using True by (auto simp: tolower_def)
  then show ?thesis by simp
next
  case False
  then show ?thesis by (simp only: tolower_def if_False)
qed

lemma strcasecmp_0: "strcasecmp s1 s2 = 0 \<longleftrightarrow> map tolower (cstr s1) = map tolower (cstr s2)"
proof (induction s1 s2 rule: strcasecmp.induct)
  case (1 s1 s2)
  show ?case
  proof (cases "peek s1 \<noteq> 0 \<and> peek s2 \<noteq> 0")
    case True
    then have c: "cstr s1 = peek s1 # cstr (tl s1)" "cstr s2 = peek s2 # cstr (tl s2)"
      using cstr_Cons peek_nonempty by blast+
    show ?thesis
    proof (cases "tolower (peek s1) = tolower (peek s2)")
      case eq: True
      then have "strcasecmp s1 s2 = strcasecmp (tl s1) (tl s2)"
        using True by (subst strcasecmp.simps) (simp add: Let_def)
      then show ?thesis using 1 [OF True refl refl] eq c by simp
    next
      case False
      then have "strcasecmp s1 s2 \<noteq> 0"
        using True by (subst strcasecmp.simps) (simp add: Let_def word_uint_eq_iff)
      then show ?thesis using False c by simp
    qed
  next
    case False
    then have "strcasecmp s1 s2 = int (unat (tolower (peek s1))) - int (unat (tolower (peek s2)))"
      by (subst strcasecmp.simps) (simp only: if_False)
    then have z: "strcasecmp s1 s2 = 0 \<longleftrightarrow> tolower (peek s1) = tolower (peek s2)" by (simp add: word_uint_eq_iff)
    show ?thesis
    proof (cases "peek s1 = 0 \<and> peek s2 = 0")
      case True
      then show ?thesis using z by (simp add: cstr_Nil)
    next
      case one: False
      then have "tolower (peek s1) \<noteq> tolower (peek s2)" using False tolower_0 by metis
      moreover have "(cstr s1 = []) \<noteq> (cstr s2 = [])" using one False peek_cstr by metis
      ultimately show ?thesis using z by (metis list.map_disc_iff)
    qed
  qed
qed

lemma strncmp_0: "strncmp p1 p2 n = 0 \<longleftrightarrow> take n (cstr p1) = take n (cstr p2)"
proof (induction n arbitrary: p1 p2)
  case 0
  then show ?case by (simp add: strncmp.simps)
next
  case (Suc n)
  show ?case
  proof (cases "peek p1 = peek p2")
    case True
    then show ?thesis
    proof (cases "peek p1 = 0")
      case False
      then have "cstr p1 = peek p1 # cstr (tl p1)" "cstr p2 = peek p2 # cstr (tl p2)"
        using True cstr_Cons peek_nonempty by metis+
      then show ?thesis using True False Suc by (subst strncmp.simps) (simp add: Let_def)
    qed (subst strncmp.simps, simp add: Let_def cstr_Nil)
  next
    case False
    then have "strncmp p1 p2 (Suc n) \<noteq> 0" by (subst strncmp.simps) (simp add: Let_def word_uint_eq_iff)
    moreover have "take (Suc n) (cstr p1) \<noteq> take (Suc n) (cstr p2)"
      using False by (subst cstr_unfold [of p1], subst cstr_unfold [of p2]) auto
    ultimately show ?thesis by blast
  qed
qed

section \<open>Searching\<close>

lemma match_here_prefix: "peek (match_here h n) = 0 \<longleftrightarrow> prefix (cstr n) (cstr h)"
proof (induction h n rule: match_here.induct)
  case (1 h hs n ns)
  then show ?case by (cases "n = 0"; cases "h = n") (auto simp: cstr_def peek_def)
qed (auto simp: peek_cstr cstr_def)

lemma strstr_from_eq:
  assumes "peek needle \<noteq> 0"
  shows "case strstr_from i h needle of
      None \<Rightarrow> \<forall>j. \<not> prefix (cstr needle) (drop j (cstr h))
    | Some k \<Rightarrow> i \<le> k \<and> prefix (cstr needle) (drop (k - i) (cstr h)) \<and>
        (\<forall>j < k - i. \<not> prefix (cstr needle) (drop j (cstr h)))"
  using assms
proof (induction i h needle rule: strstr_from.induct)
  case (1 i needle)
  then show ?case by (auto simp: cstr_def peek_cstr)
next
  case (2 i h hs needle)
  have nn: "cstr needle \<noteq> []" using 2(2) by (simp add: peek_cstr)
  show ?case
  proof (cases "h = 0")
    case True
    then show ?thesis using nn by (simp add: cstr_def)
  next
    case h: False
    then have c: "cstr (h # hs) = h # cstr hs" by (simp add: cstr_def)
    show ?thesis
    proof (cases "prefix (cstr needle) (cstr (h # hs))")
      case True
      then show ?thesis using h match_here_prefix [of "h # hs" needle] by simp
    next
      case False
      then have f: "strstr_from i (h # hs) needle = strstr_from (i + 1) hs needle"
        using h match_here_prefix [of "h # hs" needle] by simp
      have all: "\<not> prefix (cstr needle) (drop j (cstr (h # hs)))"
        if "\<And>j'. j = Suc j' \<Longrightarrow> \<not> prefix (cstr needle) (drop j' (cstr hs))" for j
        using that False c by (cases j) auto
      show ?thesis
      proof (cases "strstr_from (i + 1) hs needle")
        case None
        then show ?thesis using 2(1) [OF h] 2(2) False match_here_prefix [of "h # hs" needle] f all by auto
      next
        case (Some k)
        then have IH: "i + 1 \<le> k" "prefix (cstr needle) (drop (k - (i + 1)) (cstr hs))"
          "\<forall>j < k - (i + 1). \<not> prefix (cstr needle) (drop j (cstr hs))"
          using 2(1) [OF h] 2(2) False match_here_prefix [of "h # hs" needle] by auto
        have "drop (k - i) (cstr (h # hs)) = drop (k - (i + 1)) (cstr hs)"
          using IH(1) c by (metis Suc_diff_Suc Suc_eq_plus1 Suc_le_lessD drop_Suc_Cons)
        moreover have "\<forall>j < k - i. \<not> prefix (cstr needle) (drop j (cstr (h # hs)))"
          using all IH(1,3) by (auto intro!: all)
        ultimately show ?thesis using Some f IH by simp
      qed
    qed
  qed
qed

lemma strlen_ansi_plain: "0x1b \<notin> set (cstr s) \<Longrightarrow> strlen_ansi s = strlen s"
proof (induction s rule: strlen_ansi.induct)
  case (1 s)
  show ?case
  proof (cases "peek s = 0")
    case True
    then show ?thesis by (subst strlen_ansi.simps) (simp add: strlen_def cstr_Nil)
  next
    case False
    then have c: "cstr s = peek s # cstr (tl s)" using cstr_Cons peek_nonempty by blast
    then have "peek s \<noteq> 0x1b" using 1(3) by auto
    then show ?thesis using 1(2) False 1(3) c by (subst strlen_ansi.simps) (simp add: strlen_def)
  qed
qed

section \<open>Tokens\<close>

function tokens :: "('a \<Rightarrow> bool) \<Rightarrow> 'a list \<Rightarrow> 'a list list" where
  "tokens d xs =
     (let ys = dropWhile d xs
      in if ys = [] then [] else takeWhile (\<lambda>x. \<not> d x) ys # tokens d (dropWhile (\<lambda>x. \<not> d x) ys))"
  by pat_completeness auto
termination
proof (relation "measure (\<lambda>(d, xs). length xs)", goal_cases)
  case (2 d xs ys)
  then obtain y zs where y: "dropWhile d xs = y # zs" by (cases "dropWhile d xs") auto
  then have "\<not> d y" using hd_dropWhile [of d xs] by simp
  moreover have "length (y # zs) \<le> length xs" using length_dropWhile_le [of d xs] y by simp
  ultimately show ?case
    using 2(1) y length_dropWhile_le [of "\<lambda>x. \<not> d x" zs] by simp
qed simp

declare tokens.simps [simp del]

lemma tokens_skip: "d x \<Longrightarrow> tokens d (x # xs) = tokens d xs"
  by (simp add: tokens.simps [of d "x # xs"] tokens.simps [of d xs])

lemma skip_delims_eq:
  "skip_delims buf delim s = s + length (takeWhile (is_delim delim) (cstr (drop s buf)))"
proof (induction buf delim s rule: skip_delims.induct)
  case (1 buf delim s)
  then show ?case
    by (subst skip_delims.simps) (cases "char_at buf s = 0"; auto simp: cstr_drop)
qed

lemma token_end_eq:
  "token_end buf delim s = s + length (takeWhile (\<lambda>c. \<not> is_delim delim c) (cstr (drop s buf)))"
proof (induction buf delim s rule: token_end.induct)
  case (1 buf delim s)
  then show ?case
    by (subst token_end.simps) (cases "char_at buf s = 0"; auto simp: cstr_drop)
qed

lemma cstr_drop_add: "k \<le> length (cstr (drop p s)) \<Longrightarrow> cstr (drop (p + k) s) = drop k (cstr (drop p s))"
proof (induction k arbitrary: p)
  case (Suc k)
  then have "char_at s p \<noteq> 0" using cstr_drop(2) [of s p] by fastforce
  then show ?case using Suc.IH [of "Suc p"] Suc.prems cstr_drop(1) [of s p] by simp
qed simp

text \<open>What a client reads that calls \<^verbatim>\<open>strtok_r\<close> until it returns \<^verbatim>\<open>NULL\<close>, at most \<open>n\<close> times.\<close>

fun strtok_all :: "nat \<Rightarrow> byte list \<Rightarrow> nat option \<Rightarrow> byte list \<Rightarrow> nat option \<Rightarrow> byte list list" where
  "strtok_all 0 buf s delim save = []"
| "strtok_all (Suc n) buf s delim save =
     (case strtok_r buf s delim save of
        (None, _, _) \<Rightarrow> []
      | (Some t, buf1, save1) \<Rightarrow> cstr (drop t buf1) # strtok_all n buf1 None delim save1)"

lemma strtok_all_None: "strtok_all n buf None delim None = []"
  by (cases n) (simp_all add: strtok_r_def)

lemma strtok_step:
  fixes buf delim p
  defines "xs \<equiv> cstr (drop p buf)"
  defines "ys \<equiv> dropWhile (is_delim delim) xs"
  assumes "(if s = None then save else s) = Some p"
  shows "strtok_r buf s delim save =
    (if ys = [] then (None, buf, None)
     else let t = p + (length xs - length ys); e = t + length (takeWhile (\<lambda>c. \<not> is_delim delim c) ys)
          in if dropWhile (\<lambda>c. \<not> is_delim delim c) ys = [] then (Some t, buf, None)
             else (Some t, buf[e := 0], Some (e + 1)))"
proof -
  let ?k = "length (takeWhile (is_delim delim) xs)"
  have k: "skip_delims buf delim p = p + ?k" by (simp add: skip_delims_eq xs_def)
  have xy: "xs = takeWhile (is_delim delim) xs @ ys" by (simp add: ys_def)
  then have len: "length xs = ?k + length ys" by (metis length_append)
  have y: "cstr (drop (p + ?k) buf) = ys"
    using cstr_drop_add [of ?k p buf] xy by (metis append_eq_conv_conj le_add1 len xs_def)
  have z: "char_at buf q = 0 \<longleftrightarrow> cstr (drop q buf) = []" for q
    using cstr_drop [of buf q] by (cases "char_at buf q = 0") auto
  let ?m = "length (takeWhile (\<lambda>c. \<not> is_delim delim c) ys)"
  have e: "token_end buf delim (p + ?k) = p + ?k + ?m" by (simp add: token_end_eq y)
  have "cstr (drop (p + ?k + ?m) buf) = dropWhile (\<lambda>c. \<not> is_delim delim c) ys"
    using cstr_drop_add [of ?m "p + ?k" buf] y by (simp add: dropWhile_eq_drop length_takeWhile_le)
  then show ?thesis
    using assms(3) k y e z len by (simp add: strtok_r_def Let_def)
qed

lemma cstr_drop_cut:
  assumes "m < length (cstr (drop t buf))"
  shows "cstr (drop t (buf[t + m := 0])) = take m (cstr (drop t buf))"
    "drop (t + m + 1) (buf[t + m := 0]) = drop (t + m + 1) buf"
proof -
  let ?xs = "cstr (drop t buf)"
  have lt: "t + m < length buf" using assms length_cstr [of "drop t buf"] by simp
  have "?xs = take (length ?xs) (drop t buf)" unfolding cstr_def by (rule takeWhile_eq_take)
  then have "take m (drop t buf) = take m ?xs" using assms by (metis less_imp_le min.absorb1 take_take)
  then have "drop t (buf[t + m := 0]) = take m ?xs @ 0 # drop (t + m + 1) buf"
    using lt by (simp add: drop_update_swap upd_conv_take_nth_drop drop_take)
  moreover have "0 \<notin> set (take m ?xs)" using cstr_nonzero in_set_takeD by metis
  ultimately show "cstr (drop t (buf[t + m := 0])) = take m ?xs" by (simp add: cstr_append_0)
  show "drop (t + m + 1) (buf[t + m := 0]) = drop (t + m + 1) buf" by simp
qed

lemma strtok_all_tokens:
  assumes "(if s = None then save else s) = Some p" "length (cstr (drop p buf)) < n"
  shows "strtok_all n buf s delim save = tokens (is_delim delim) (cstr (drop p buf))"
  using assms
proof (induction n arbitrary: s save p buf)
  case 0
  then show ?case by simp
next
  case (Suc n)
  let ?d = "is_delim delim" and ?xs = "cstr (drop p buf)"
  let ?ys = "dropWhile ?d ?xs"
  let ?t = "p + (length ?xs - length ?ys)"
  let ?tok = "takeWhile (\<lambda>c. \<not> ?d c) ?ys" and ?rest = "dropWhile (\<lambda>c. \<not> ?d c) ?ys"
  note step = strtok_step [where p = p and buf = buf and delim = delim, OF Suc.prems(1), unfolded Let_def]
  have y: "cstr (drop ?t buf) = ?ys"
  proof -
    have "?ys = drop (length ?xs - length ?ys) ?xs" by (simp add: dropWhile_eq_drop)
        (metis diff_diff_cancel dropWhile_eq_drop length_drop length_takeWhile_le)
    then show ?thesis using cstr_drop_add [of "length ?xs - length ?ys" p buf] by simp
  qed
  show ?case
  proof (cases "?ys = []")
    case True
    then show ?thesis using step by (simp add: tokens.simps [of ?d ?xs])
  next
    case ys: False
    have tk: "tokens ?d ?xs = ?tok # tokens ?d ?rest"
      using ys by (simp add: tokens.simps [of ?d ?xs] Let_def)
    show ?thesis
    proof (cases "?rest = []")
      case True
      then have t: "?tok = ?ys" "tokens ?d ?rest = []"
        by (metis append_Nil2 takeWhile_dropWhile_id, simp only: True, simp add: tokens.simps)
      have "strtok_r buf s delim save = (Some ?t, buf, None)" using step ys True by (simp only: if_False if_True refl)
      then have "strtok_all (Suc n) buf s delim save = [cstr (drop ?t buf)]" by (simp add: strtok_all_None)
      then show ?thesis unfolding tk t y .
    next
      case False
      then obtain c cs where c: "?rest = c # cs" by (cases ?rest) auto
      then have dc: "?d c" using hd_dropWhile [of "\<lambda>c. \<not> ?d c" ?ys] False by simp
      have split: "?ys = ?tok @ c # cs" by (metis c takeWhile_dropWhile_id)
      let ?m = "length ?tok" and ?buf = "buf[?t + length ?tok := 0]"
      have m: "?m < length (cstr (drop ?t buf))" unfolding y by (subst (2) split) simp
      note cut = cstr_drop_cut [OF m]
      have tok: "cstr (drop ?t ?buf) = ?tok" using cut(1) unfolding y by (metis takeWhile_eq_take)
      have rest: "cstr (drop (?t + ?m + 1) ?buf) = cs"
      proof -
        have "cstr (drop (?t + (?m + 1)) buf) = drop (?m + 1) ?ys"
          using cstr_drop_add [of "?m + 1" ?t buf] m y by simp
        also have "\<dots> = cs" by (subst split) simp
        finally show ?thesis unfolding cut(2) by (simp add: add.assoc)
      qed
      have "length ?ys \<le> length ?xs" by (rule length_dropWhile_le)
      then have "length cs < n" using Suc.prems(2) arg_cong [OF split, of length] by simp
      then have "strtok_all n ?buf None delim (Some (?t + ?m + 1)) = tokens ?d cs"
        using Suc.IH [of None "Some (?t + ?m + 1)" "?t + ?m + 1" ?buf] rest by simp
      then show ?thesis
        using step ys False tok tk c tokens_skip [where d = ?d, OF dc] by simp
    qed
  qed
qed

section \<open>Absolute values\<close>

lemma sign_mask:
  fixes a :: "'a::len word"
  assumes "LENGTH('a) = Suc n"
  shows "NOT (signed_drop_bit n a AND 1) + 1 = (if bit a n then - 1 else 0)"
proof -
  have "signed_drop_bit n a AND 1 = of_bool (bit a n)"
    by (rule bit_word_eqI) (auto simp: bit_simps assms not_le)
  then show ?thesis by simp
qed

lemma abs_word:
  fixes a :: "'a::len word"
  assumes "LENGTH('a) = Suc n"
  shows "(a XOR (if bit a n then - 1 else 0)) - (if bit a n then - 1 else 0) = (if sint a < 0 then - a else a)"
proof -
  have "bit a n \<longleftrightarrow> sint a < 0" using assms bit_last_iff [of a] by simp
  then show ?thesis by (simp add: not_eq_complement)
qed

lemma len32: "LENGTH(32) = Suc 31" and len64: "LENGTH(64) = Suc 63"
  by simp_all

lemma c_abs_eq: "c_abs a = (if sint a < 0 then - a else a)"
  unfolding c_abs_def Let_def sign_mask [where 'a = 32 and n = 31, OF len32] by (rule abs_word [OF len32])

lemma c_labs_eq: "c_labs a = (if sint a < 0 then - a else a)"
  unfolding c_labs_def Let_def sign_mask [where 'a = 64 and n = 63, OF len64] by (rule abs_word [OF len64])

section \<open>Properties\<close>

lemma strlcpy_props:
  assumes "siz \<le> length dst"
  shows "\<exists>dst'. strlcpy dst src siz = Some (strlen src, dst') \<and> length dst' = length dst \<and>
    drop siz dst' = drop siz dst \<and> (if siz = 0 then dst' = dst else cstr dst' = take (siz - 1) (cstr src))"
proof -
  let ?t = "take (siz - 1) (cstr src)"
  have "length ?t + 1 \<le> siz" if "siz \<noteq> 0" using that by simp
  then have "drop siz (memcpy_at 0 (?t @ [0]) dst) = drop siz dst" if "siz \<noteq> 0"
    using that by (intro drop_memcpy_at) simp_all
  moreover have "cstr (memcpy_at 0 (?t @ [0]) dst) = ?t"
    using cstr_append_0 [of ?t] cstr_nonzero [of _ src] by (auto simp: memcpy_at_def dest: in_set_takeD)
  moreover have "length (memcpy_at 0 (?t @ [0]) dst) = length dst" if "siz \<noteq> 0"
    using that assms by simp
  ultimately show ?thesis using strlcpy_eq [OF assms] by auto
qed

text \<open>C34: \<^verbatim>\<open>strlcpy\<close> into a buffer of at least \<^verbatim>\<open>siz\<close> bytes never writes outside it.  It returns the length of the
  source; for \<^verbatim>\<open>siz > 0\<close> the destination then holds the longest prefix of the source that fits, terminated,
  and every byte from \<^verbatim>\<open>siz\<close> on is unchanged.\<close>

theorem strlcpy_correct:
  assumes "siz \<le> length dst"
  shows "\<exists>dst'. strlcpy dst src siz = Some (strlen src, dst') \<and> length dst' = length dst \<and>
    drop siz dst' = drop siz dst \<and> (if siz = 0 then dst' = dst else cstr dst' = take (siz - 1) (cstr src))"
  by (rule strlcpy_props [OF assms])

theorem strlcpy_correct_witness:
  "\<exists>dst'. strlcpy [9, 9, 9, 9] [1, 2, 3, 4, 5, 0] 3 = Some (5, dst') \<and> cstr dst' = [1, 2] \<and> drop 3 dst' = [9]"
proof -
  have "cstr [1, 2, 3, 4, 5, 0] = [1, 2, 3, 4, 5]" "strlen [1, 2, 3, 4, 5, 0] = 5"
    by (simp_all add: strlen_def cstr_def)
  then show ?thesis using strlcpy_correct [of 3 "[9, 9, 9, 9]" "[1, 2, 3, 4, 5, 0]"] by auto
qed

text \<open>\<^verbatim>\<open>strlcat\<close> on a terminated destination appends as much of the source as fits below \<^verbatim>\<open>siz\<close>, keeps it
  terminated, writes nothing from \<^verbatim>\<open>siz\<close> on, and returns the length it would have needed.\<close>

theorem strlcat_correct:
  assumes "siz \<le> length dst" "strlen dst < siz"
  shows "\<exists>dst'. strlcat dst src siz = Some (strlen dst + strlen src, dst') \<and> length dst' = length dst \<and>
    drop siz dst' = drop siz dst \<and> cstr dst' = take (siz - 1) (cstr dst @ cstr src)"
proof -
  let ?n = "strlen dst"
  let ?t = "take (siz - ?n - 1) (cstr src)"
  let ?d = "memcpy_at ?n (?t @ [0]) dst"
  have l: "?n + length ?t + 1 \<le> siz" using assms(2) by simp
  have pre: "take ?n dst = cstr dst" unfolding strlen_def cstr_def by (rule takeWhile_eq_take [symmetric])
  have "?d = (cstr dst @ ?t) @ 0 # drop (?n + length ?t + 1) dst"
    by (simp add: memcpy_at_def pre)
  moreover have "0 \<notin> set (cstr dst @ ?t)" using cstr_nonzero by (auto dest: in_set_takeD)
  ultimately have "cstr ?d = cstr dst @ ?t" by (metis cstr_append_0)
  moreover have "take (siz - 1) (cstr dst @ cstr src) = cstr dst @ ?t"
    using assms(2) by (simp add: strlen_def)
  moreover have "drop siz ?d = drop siz dst"
    using l assms by (intro drop_memcpy_at) simp_all
  moreover have "length ?d = length dst" using l assms(1) by simp
  ultimately show ?thesis using strlcat_eq [OF assms(1), of src] assms(2) by (simp add: min_def)
qed

theorem strlcat_correct_witness:
  "\<exists>dst'. strlcat [1, 2, 0, 9, 9] [3, 4, 5] 4 = Some (5, dst') \<and> cstr dst' = [1, 2, 3]"
proof -
  have "cstr [1, 2, 0, 9, 9] = [1, 2]" "cstr [3, 4, 5] = [3, 4, 5]" "strlen [1, 2, 0, 9, 9] = 2"
    "strlen [3, 4, 5] = 3"
    by (simp_all add: strlen_def cstr_def)
  then show ?thesis using strlcat_correct [of 4 "[1, 2, 0, 9, 9]" "[3, 4, 5]"] by auto
qed

text \<open>\<^verbatim>\<open>strstr\<close> returns the offset of the first occurrence of the needle, and \<^verbatim>\<open>NULL\<close> exactly when there is none.\<close>

theorem strstr_correct:
  "case strstr h needle of
     None \<Rightarrow> \<not> (\<exists>j. prefix (cstr needle) (drop j (cstr h)))
   | Some i \<Rightarrow> prefix (cstr needle) (drop i (cstr h)) \<and> \<not> (\<exists>j. j < i \<and> prefix (cstr needle) (drop j (cstr h)))"
proof (cases "peek needle = 0")
  case True
  then show ?thesis by (simp add: strstr_def cstr_Nil)
next
  case False
  then show ?thesis
    using strstr_from_eq [where i = 0 and h = h, OF False] by (simp add: strstr_def split: option.splits)
qed

text \<open>C35: calling \<^verbatim>\<open>strtok_r\<close> until it returns \<^verbatim>\<open>NULL\<close> reads exactly the tokens of the string, the maximal
  runs of bytes that are no delimiters, in order, although each call cuts the buffer it works in.\<close>

theorem strtok_r_tokens:
  assumes "strlen buf < n"
  shows "strtok_all n buf (Some 0) delim None = tokens (is_delim delim) (cstr buf)"
  using strtok_all_tokens [of "Some 0" None 0 buf n delim] assms by (simp add: strlen_def)

theorem strtok_r_tokens_witness:
  "strtok_all 9 [32, 65, 66, 32, 32, 67, 0] (Some 0) [32, 0] None =
     tokens (is_delim [32, 0]) [32, 65, 66, 32, 32, 67]"
  using strtok_r_tokens [of "[32, 65, 66, 32, 32, 67, 0]" 9 "[32, 0]"] by (simp add: strlen_def cstr_def)

text \<open>The comparisons decide equality: \<^verbatim>\<open>strcmp\<close> of the strings, \<^verbatim>\<open>strncmp\<close> of their first \<open>n\<close> bytes,
  \<^verbatim>\<open>strcasecmp\<close> and \<^verbatim>\<open>stricmp\<close> of the strings without regard to case.\<close>

theorem string_comparisons:
  "(strcmp s t = 0 \<longleftrightarrow> cstr s = cstr t) \<and> (strncmp s t n = 0 \<longleftrightarrow> take n (cstr s) = take n (cstr t)) \<and>
   (strcasecmp s t = 0 \<longleftrightarrow> map tolower (cstr s) = map tolower (cstr t)) \<and>
   (stricmp s t = 0 \<longleftrightarrow> map toupper (cstr s) = map toupper (cstr t))"
  by (simp add: strcmp_0 strncmp_0 strcasecmp_0 stricmp_0)

text \<open>\<^verbatim>\<open>abs\<close> and \<^verbatim>\<open>labs\<close> compute the absolute value by masking, for every value but the most negative one,
  which they return unchanged.\<close>

theorem abs_correct:
  "sint (c_abs a) = (if a = 0x80000000 then sint a else \<bar>sint a\<bar>) \<and>
   sint (c_labs b) = (if b = 0x8000000000000000 then sint b else \<bar>sint b\<bar>)"
proof -
  have "sint (- a) = (if a = 0x80000000 then sint a else - sint a)" for a :: "32 word"
  proof (cases "a = 0x80000000")
    case False
    have b: "- (2 ^ 31) \<le> sint a" "sint a < 2 ^ 31" using sint_range_size [of a] by (auto simp: word_size)
    have "sint a \<noteq> - (2 ^ 31)"
    proof
      assume "sint a = - (2 ^ 31)"
      then have "a = word_of_int (- (2 ^ 31))" by (metis scast_eq scast_id)
      then show False using False by simp
    qed
    then show ?thesis using b False by (simp add: sint_word_ariths signed_take_bit_int_eq_self)
  qed simp
  moreover have "sint (- b) = (if b = 0x8000000000000000 then sint b else - sint b)" for b :: "64 word"
  proof (cases "b = 0x8000000000000000")
    case False
    have r: "- (2 ^ 63) \<le> sint b" "sint b < 2 ^ 63" using sint_range_size [of b] by (auto simp: word_size)
    have "sint b \<noteq> - (2 ^ 63)"
    proof
      assume "sint b = - (2 ^ 63)"
      then have "b = word_of_int (- (2 ^ 63))" by (metis scast_eq scast_id)
      then show False using False by simp
    qed
    then show ?thesis using r False by (simp add: sint_word_ariths signed_take_bit_int_eq_self)
  qed simp
  ultimately show ?thesis by (auto simp: c_abs_eq c_labs_eq)
qed

end
