(* ===== verification/RfsSlots.thy ===== *)
theory RfsSlots
  imports RfsFile StringSpec
begin

text \<open>
  One directory block as a list of 127 slots.  \<open>slots\<close> cuts a block into its slots; updating, adding and removing
  an entry become list operations on them, and the entries of a block are an association list from names,
  folded to lower case, to entries.
\<close>

section \<open>Reading a buffer after a copy\<close>

lemma memcpy_before:
  assumes "p + length xs \<le> length b" "q + n \<le> p"
  shows "take n (drop q (memcpy_at p xs b)) = take n (drop q b)"
  using assms by (intro nth_equalityI) (simp_all add: nth_memcpy_at)

lemma memcpy_behind:
  assumes "p + length xs \<le> length b" "p + length xs \<le> q"
  shows "drop q (memcpy_at p xs b) = drop q b"
  using assms by (intro nth_equalityI) (simp_all add: nth_memcpy_at)

lemma memcpy_inside:
  assumes "p + length xs \<le> length b" "k + n \<le> length xs"
  shows "take n (drop (p + k) (memcpy_at p xs b)) = take n (drop k xs)"
  using assms by (intro nth_equalityI) (simp_all add: nth_memcpy_at)

section \<open>Slots\<close>

definition slot_at :: "byte list \<Rightarrow> nat \<Rightarrow> byte list" where
  "slot_at block i = take 256 (drop (entry_off i) block)"

definition slots :: "byte list \<Rightarrow> byte list list" where
  "slots block = map (slot_at block) [0 ..< 127]"

definition live :: "byte list \<Rightarrow> bool" where
  "live s \<longleftrightarrow> peek (drop 4 s) \<noteq> 0"

definition fold_name :: "byte list \<Rightarrow> byte list" where
  "fold_name name = map tolower (cstr name)"

definition slot_entry :: "byte list \<Rightarrow> rfs_directory_entry_inner" where
  "slot_entry s =
     \<lparr>en_flags = u32_at s 0, en_filename = take 128 (drop 4 s), en_sector_start = u64_at s 132,
      en_length = u64_at s 140, en_sector_length = u64_at s 148, en_created = u64_at s 156,
      en_modified = u64_at s 164, en_sequence = u64_at s 172\<rparr>"

definition slot_pair :: "byte list \<Rightarrow> byte list \<times> rfs_directory_entry_inner" where
  "slot_pair s = (fold_name (drop 4 s), slot_entry s)"

definition block_list :: "byte list \<Rightarrow> (byte list \<times> rfs_directory_entry_inner) list" where
  "block_list block = map slot_pair (takeWhile live (slots block))"

text \<open>A sound block: the slots in use come first, and their names end inside the field.\<close>

definition named :: "byte list \<Rightarrow> bool" where
  "named s \<longleftrightarrow> 0 \<in> set (take 128 (drop 4 s))"

definition block_ok :: "byte list \<Rightarrow> bool" where
  "block_ok block \<longleftrightarrow> length block = 32768 \<and> start_ok block \<and>
     (\<forall>s\<in>set (takeWhile live (slots block)). named s) \<and>
     (\<forall>s\<in>set (dropWhile live (slots block)). \<not> live s)"

lemma length_slots [simp]: "length (slots block) = 127"
  by (simp add: slots_def)

lemma slots_nth: "i < 127 \<Longrightarrow> slots block ! i = slot_at block i"
  by (simp add: slots_def)

lemma length_slot_at: "length block = 32768 \<Longrightarrow> i < 127 \<Longrightarrow> length (slot_at block i) = 256"
  by (simp add: slot_at_def entry_off_def)

lemma slot_field:
  assumes "k + n \<le> 256"
  shows "take n (drop k (slot_at block i)) = take n (drop (entry_off i + k) block)"
  using assms by (simp add: slot_at_def take_drop min_def add.commute)

lemma slot_entry_eq: "get_entry block i = slot_entry (slot_at block i)"
proof -
  have "u32_at (slot_at block i) 0 = u32_at block (entry_off i)"
    using slot_field [of 0 4 block i] by (simp add: u32_at_def)
  moreover have "u64_at (slot_at block i) k = u64_at block (entry_off i + k)" if "k + 8 \<le> 256" for k
    using slot_field [OF that, of block i] by (simp add: u64_at_def)
  ultimately show ?thesis
    using slot_field [of 4 128 block i] by (simp add: get_entry_def slot_entry_def RFS_MAX_NAME_def Let_def)
qed

lemma peek_nth: "s \<noteq> [] \<Longrightarrow> peek s = s ! 0"
  by (cases s) (simp_all add: peek_def)

lemma live_eq:
  assumes "length block = 32768" "i < 127"
  shows "peek (entry_name block i) \<noteq> 0 \<longleftrightarrow> live (slot_at block i)"
  using assms by (simp add: entry_name_def live_def peek_nth slot_at_def entry_off_def add.commute)

lemma cstr_take:
  assumes "0 \<in> set (take n s)" "n \<le> m"
  shows "cstr (take m s) = cstr s"
  using assms
proof (induction s arbitrary: n m)
  case (Cons c cs)
  then obtain n' m' where "n = Suc n'" "m = Suc m'" by (cases n; cases m) auto
  then show ?case using Cons by (auto simp: cstr_def)
qed simp

lemma name_eq:
  assumes "length block = 32768" "i < 127" "named (slot_at block i)"
  shows "fold_name (entry_name block i) = fold_name (drop 4 (slot_at block i))"
proof -
  have "drop 4 (slot_at block i) = take 252 (entry_name block i)"
    by (simp add: slot_at_def entry_name_def drop_take add.commute)
  moreover have "0 \<in> set (take 128 (entry_name block i))"
    using assms(3) slot_field [of 4 128 block i] by (simp add: named_def entry_name_def)
  ultimately show ?thesis using cstr_take [of 128 "entry_name block i" 252] by (simp add: fold_name_def)
qed


section \<open>Scanning\<close>

lemma takeWhile_nth_less: "i < length (takeWhile P xs) \<Longrightarrow> takeWhile P xs ! i = xs ! i"
  by (rule takeWhile_nth)

lemma nth_dropWhile_tail: "length (takeWhile P xs) \<le> i \<Longrightarrow> i < length xs \<Longrightarrow> xs ! i \<in> set (dropWhile P xs)"
  by (metis append_eq_conv_conj length_drop nth_append_length_plus nth_drop nth_mem add_diff_cancel_left'
      diff_less_mono le_add_diff_inverse takeWhile_dropWhile_id)

lemma live_iff:
  assumes "block_ok block" "i < 127"
  shows "live (slots block ! i) \<longleftrightarrow> i < length (block_list block)"
proof
  assume "live (slots block ! i)"
  then show "i < length (block_list block)"
    using assms nth_dropWhile_tail [of live "slots block" i] unfolding block_ok_def block_list_def
    by (metis length_map length_slots not_less)
next
  assume "i < length (block_list block)"
  then have "takeWhile live (slots block) ! i = slots block ! i" "i < length (takeWhile live (slots block))"
    by (simp_all add: block_list_def takeWhile_nth)
  then show "live (slots block ! i)" by (metis nth_mem set_takeWhileD)
qed

lemma length_block_list: "length (block_list block) \<le> 127"
  unfolding block_list_def using length_takeWhile_le [of live "slots block"] by simp

lemma block_list_nth:
  assumes "block_ok block" "i < length (block_list block)"
  shows "block_list block ! i = (fold_name (entry_name block i), get_entry block i)" "peek (entry_name block i) \<noteq> 0"
proof -
  have i: "i < 127" using assms(2) length_block_list [of block] by simp
  have l: "i < length (takeWhile live (slots block))" using assms(2) by (simp add: block_list_def)
  have n: "takeWhile live (slots block) ! i = slot_at block i" using takeWhile_nth [OF l] slots_nth [OF i] by simp
  have "named (slot_at block i)" using assms(1) l n unfolding block_ok_def by (metis nth_mem)
  then show "block_list block ! i = (fold_name (entry_name block i), get_entry block i)"
    using name_eq [of block i] assms(1) i l n by (simp add: block_list_def block_ok_def slot_pair_def slot_entry_eq)
  show "peek (entry_name block i) \<noteq> 0"
    using live_eq [of block i] live_iff [OF assms(1) i] assms i slots_nth [OF i] by (simp add: block_ok_def)
qed

lemma strcasecmp_fold: "strcasecmp s t = 0 \<longleftrightarrow> fold_name s = fold_name t"
  by (simp add: strcasecmp_0 fold_name_def)

text \<open>The result of a scan from slot \<open>i\<close> on.\<close>

definition scan_result :: "byte list \<Rightarrow> byte list \<Rightarrow> nat \<Rightarrow> slot \<Rightarrow> bool" where
  "scan_result block name i sl \<longleftrightarrow>
     (let xs = block_list block; k = fold_name name
      in case sl of
           Match m \<Rightarrow> i \<le> m \<and> m < length xs \<and> fst (xs ! m) = k \<and> (\<forall>j. i \<le> j \<and> j < m \<longrightarrow> fst (xs ! j) \<noteq> k)
         | Empty m \<Rightarrow> m = length xs \<and> m < 127 \<and> (\<forall>j. i \<le> j \<and> j < m \<longrightarrow> fst (xs ! j) \<noteq> k)
         | Full_block \<Rightarrow> length xs = 127 \<and> (\<forall>j. i \<le> j \<and> j < 127 \<longrightarrow> fst (xs ! j) \<noteq> k))"

lemma scan_slots_ok:
  assumes "block_ok block" "i \<le> length (block_list block)"
  shows "scan_result block name i (scan_slots block name i)"
  using assms
proof (induction block name i rule: scan_slots.induct)
  case (1 block name i)
  let ?n = "length (block_list block)"
  have n: "?n \<le> 127" by (rule length_block_list)
  consider "i < ?n" "fold_name (entry_name block i) = fold_name name"
    | "i < ?n" "fold_name (entry_name block i) \<noteq> fold_name name" | "i = ?n" "?n < 127" | "i = ?n" "?n = 127"
    using 1(3) n by linarith
  then show ?case
  proof cases
    case 1
    then have "scan_slots block name i = Match i"
      using n block_list_nth(2) [OF "1.prems"(1) 1(1)]
      by (subst scan_slots.simps) (simp add: ENTRIES_PER_BLOCK_def RFS_DEFAULT_DIR_SIZE_def strcasecmp_fold)
    then show ?thesis using 1 block_list_nth(1) [OF "1.prems"(1) 1(1)] by (auto simp: scan_result_def Let_def)
  next
    case 2
    have e: "scan_slots block name i = scan_slots block name (i + 1)"
      using 2 n block_list_nth(2) [OF "1.prems"(1) 2(1)]
      by (subst scan_slots.simps) (simp add: ENTRIES_PER_BLOCK_def RFS_DEFAULT_DIR_SIZE_def strcasecmp_fold)
    have "scan_result block name (i + 1) (scan_slots block name (i + 1))"
      using 2 n block_list_nth(2) [OF "1.prems"(1) 2(1)]
      by (intro "1.IH" "1.prems"(1)) (auto simp: ENTRIES_PER_BLOCK_def RFS_DEFAULT_DIR_SIZE_def strcasecmp_fold)
    moreover have "fst (block_list block ! i) \<noteq> fold_name name"
      using 2 block_list_nth(1) [OF "1.prems"(1) 2(1)] by simp
    ultimately show ?thesis unfolding e scan_result_def Let_def
      by (auto split: slot.splits) (metis Suc_leI le_neq_implies_less)+
  next
    case 3
    then have "peek (entry_name block i) = 0"
      using live_iff [of block i] live_eq [of block i] slots_nth [of i block] "1.prems"(1) by (auto simp: block_ok_def)
    then have "scan_slots block name i = Empty i"
      using 3 by (subst scan_slots.simps) (simp add: ENTRIES_PER_BLOCK_def RFS_DEFAULT_DIR_SIZE_def)
    then show ?thesis using 3 by (auto simp: scan_result_def Let_def)
  next
    case 4
    then have "scan_slots block name i = Full_block"
      by (subst scan_slots.simps) (simp add: ENTRIES_PER_BLOCK_def RFS_DEFAULT_DIR_SIZE_def)
    then show ?thesis using 4 by (auto simp: scan_result_def Let_def)
  qed
qed

section \<open>Association lists\<close>

lemma map_of_first:
  assumes "m < length xs" "fst (xs ! m) = k" "\<And>j. j < m \<Longrightarrow> fst (xs ! j) \<noteq> k"
  shows "map_of xs k = Some (snd (xs ! m))"
  using assms
proof (induction xs arbitrary: m)
  case (Cons x xs)
  show ?case
  proof (cases m)
    case 0
    then show ?thesis using Cons.prems by (cases x) auto
  next
    case (Suc m')
    have "fst x \<noteq> k" using Cons.prems(3) [of 0] Suc by simp
    moreover have "map_of xs k = Some (snd (xs ! m'))"
      using Cons.prems Suc by (intro Cons.IH) fastforce+
    ultimately show ?thesis using Suc by (cases x) auto
  qed
qed simp

lemma map_of_none:
  assumes "\<And>j. j < length xs \<Longrightarrow> fst (xs ! j) \<noteq> k"
  shows "map_of xs k = None"
  using assms by (fastforce simp: map_of_eq_None_iff in_set_conv_nth)

lemma map_of_update_first:
  assumes "m < length xs" "fst (xs ! m) = k" "\<And>j. j < m \<Longrightarrow> fst (xs ! j) \<noteq> k"
  shows "map_of (xs[m := (k, v)]) = (map_of xs)(k \<mapsto> v)"
  using assms
proof (induction xs arbitrary: m)
  case (Cons x xs)
  show ?case
  proof (cases m)
    case 0
    then show ?thesis using Cons.prems by (cases x) auto
  next
    case (Suc m')
    have "fst x \<noteq> k" using Cons.prems(3) [of 0] Suc by simp
    moreover have "map_of (xs[m' := (k, v)]) = (map_of xs)(k \<mapsto> v)"
      using Cons.prems Suc by (intro Cons.IH) fastforce+
    ultimately show ?thesis using Suc by (cases x) auto
  qed
qed simp

section \<open>Changing a block\<close>

lemma takeWhile_count:
  assumes "n \<le> length xs" "\<And>i. i < length xs \<Longrightarrow> P (xs ! i) \<longleftrightarrow> i < n"
  shows "takeWhile P xs = take n xs" "dropWhile P xs = drop n xs"
proof -
  show t: "takeWhile P xs = take n xs"
    using assms by (intro takeWhile_eq_take_P_nth) auto
  then show "dropWhile P xs = drop n xs"
    using assms(1) by (simp add: dropWhile_eq_drop)
qed

lemma block_okI:
  assumes "length block = 32768" "start_ok block" "n \<le> 127"
    "\<And>i. i < 127 \<Longrightarrow> live (slots block ! i) \<longleftrightarrow> i < n" "\<And>i. i < n \<Longrightarrow> named (slots block ! i)"
  shows "block_ok block" "block_list block = map slot_pair (take n (slots block))"
proof -
  have t: "takeWhile live (slots block) = take n (slots block)" "dropWhile live (slots block) = drop n (slots block)"
    by (rule takeWhile_count; use assms(3,4) in simp)+
  show "block_ok block"
    using assms unfolding block_ok_def t by (auto simp: in_set_conv_nth)
  show "block_list block = map slot_pair (take n (slots block))" by (simp add: block_list_def t)
qed

lemma block_okD:
  assumes "block_ok block"
  defines "n \<equiv> length (block_list block)"
  shows "length block = 32768" "start_ok block" "n \<le> 127" "block_list block = map slot_pair (take n (slots block))"
    "\<And>i. i < 127 \<Longrightarrow> live (slots block ! i) \<longleftrightarrow> i < n" "\<And>i. i < n \<Longrightarrow> named (slots block ! i)"
proof -
  show "length block = 32768" "start_ok block" using assms(1) by (simp_all add: block_ok_def)
  show "n \<le> 127" unfolding n_def by (rule length_block_list)
  have t: "takeWhile live (slots block) = take n (slots block)"
    unfolding n_def block_list_def length_map by (rule takeWhile_eq_take)
  then show "block_list block = map slot_pair (take n (slots block))" by (simp add: block_list_def)
  show "live (slots block ! i) \<longleftrightarrow> i < n" if "i < 127" for i
    unfolding n_def by (rule live_iff [OF assms(1) that])
  show "named (slots block ! i)" if "i < n" for i
    using assms(1) that \<open>n \<le> 127\<close> unfolding block_ok_def t
    by (metis length_slots length_take min_less_iff_conj nth_mem nth_take order_less_le_trans)
qed

lemma header_eq:
  assumes "take 256 b = take 256 b'"
  shows "start_ok b = start_ok b'" "continuation b = continuation b'" "u64_at b 140 = u64_at b' 140"
proof -
  have f: "take n (drop k b) = take n (drop k b')" if "k + n \<le> 256" for k n
  proof -
    have "take n (drop k (take 256 b)) = take n (drop k (take 256 b'))" using assms by simp
    moreover have "min n (256 - k) = n" using that by simp
    ultimately show ?thesis by (simp only: drop_take take_take)
  qed
  show "u64_at b 140 = u64_at b' 140" "continuation b = continuation b'"
    using f [of 140 8] f [of 148 8] by (simp_all add: u64_at_def continuation_def)
  then show "start_ok b = start_ok b'"
    using f [of 0 4] by (simp add: start_ok_def u32_at_def)
qed

lemma slots_write:
  assumes "length block = 32768" "i < 127" "length xs \<le> 256"
  shows "slots (memcpy_at (entry_off i) xs block) = (slots block)[i := memcpy_at 0 xs (slot_at block i)]"
    "take 256 (memcpy_at (entry_off i) xs block) = take 256 block"
    "length (memcpy_at (entry_off i) xs block) = 32768"
proof -
  let ?b = "memcpy_at (entry_off i) xs block"
  have fits: "entry_off i + length xs \<le> length block" using assms by (simp add: entry_off_def)
  then show len: "length ?b = 32768" using assms(1) by simp
  show "take 256 ?b = take 256 block"
    using memcpy_before [OF fits, of 0 256] by (simp add: entry_off_def)
  show "slots ?b = (slots block)[i := memcpy_at 0 xs (slot_at block i)]"
  proof (rule nth_equalityI)
    fix j assume "j < length (slots ?b)"
    then have j: "j < 127" by simp
    show "slots ?b ! j = (slots block)[i := memcpy_at 0 xs (slot_at block i)] ! j"
    proof (cases "j = i")
      case True
      have "slot_at ?b i = memcpy_at 0 xs (slot_at block i)"
        using assms fits len
        by (intro nth_equalityI) (simp_all add: length_slot_at, simp add: slot_at_def nth_memcpy_at entry_off_def)
      then show ?thesis using True j by (simp add: slots_nth)
    next
      case False
      have "slot_at ?b j = slot_at block j"
      proof (cases "j < i")
        case True
        then show ?thesis unfolding slot_at_def using fits
          by (intro memcpy_before) (simp_all add: entry_off_def)
      next
        case False
        then have "entry_off i + length xs \<le> entry_off j" using \<open>j \<noteq> i\<close> assms(3) by (simp add: entry_off_def)
        then show ?thesis unfolding slot_at_def using memcpy_behind [OF fits] by simp
      qed
      then show ?thesis using False j by (simp add: slots_nth)
    qed
  qed simp
qed

text \<open>Slot \<open>i\<close> gets a new content that is in use.\<close>

lemma block_set_slot:
  assumes ok: "block_ok block" and b': "slots b' = (slots block)[i := s]" "take 256 b' = take 256 block" "length b' = 32768"
    and i: "i \<le> length (block_list block)" "i < 127" and s: "live s" "named s"
  shows "block_ok b'" "block_list b' = (if i < length (block_list block) then (block_list block)[i := slot_pair s]
      else block_list block @ [slot_pair s])"
proof -
  let ?n = "length (block_list block)"
  note d = block_okD [OF ok]
  define n where "n = (if i < ?n then ?n else Suc ?n)"
  have n: "n \<le> 127" "i < n" using d(3) i by (auto simp: n_def)
  have "live (slots b' ! j) \<longleftrightarrow> j < n" if "j < 127" for j
    using d(5) [OF that] s i that by (auto simp: b'(1) nth_list_update n_def)
  moreover have "named (slots b' ! j)" if "j < n" for j
    using d(6) [of j] s i that n by (auto simp: b'(1) nth_list_update n_def split: if_splits)
  ultimately have r: "block_ok b'" "block_list b' = map slot_pair (take n (slots b'))"
    using block_okI [OF b'(3) _ n(1)] d(2) header_eq(1) [OF b'(2)] by auto
  then show "block_ok b'" by simp
  show "block_list b' = (if i < ?n then (block_list block)[i := slot_pair s] else block_list block @ [slot_pair s])"
  proof (cases "i < ?n")
    case True
    then show ?thesis unfolding r(2) b'(1) using d(4) by (simp add: n_def take_update_swap map_update)
  next
    case False
    then have e: "i = ?n" "?n < 127" using i by auto
    then have "take (Suc ?n) ((slots block)[?n := s]) = take ?n (slots block) @ [s]"
      by (simp add: take_Suc_conv_app_nth)
    then show ?thesis unfolding r(2) b'(1) using False e d(4) by (simp add: n_def)
  qed
qed

section \<open>Entries\<close>

lemma name_field_eq:
  assumes "length field = 128"
  shows "length (name_field field name) = 128" "cstr (name_field field name) = take 127 (cstr name)"
    "0 \<in> set (name_field field name)"
proof -
  let ?t = "take 127 (cstr name)"
  have e: "name_field field name = memcpy_at 0 (?t @ [0]) field"
    using strlcpy_eq [of 128 field name] assms by (simp add: name_field_def RFS_MAX_NAME_def)
  then show "length (name_field field name) = 128" using assms by simp
  show "cstr (name_field field name) = ?t"
    unfolding e using cstr_append_0 [of ?t] cstr_nonzero [of _ name] by (auto simp: memcpy_at_def dest: in_set_takeD)
  show "0 \<in> set (name_field field name)" by (simp add: e memcpy_at_def)
qed

definition file_entry ::
    "32 word \<Rightarrow> byte list \<Rightarrow> fs_directory_entry \<Rightarrow> nat \<Rightarrow> rfs_directory_entry_inner \<Rightarrow> rfs_directory_entry_inner" where
  "file_entry flags name file extent e =
     e\<lparr>en_flags := flags, en_filename := name, en_sector_start := fe_lbapos file, en_length := fe_size file,
       en_sector_length := extent\<rparr>"

lemma le_field_8:
  assumes "take 8 (drop k s) = le_bytes 8 x" "x < W64"
  shows "u64_at s k = x"
  using assms of_le_le_bytes [of 8 x] by (simp add: u64_at_def W64_def)

lemma slot_written:
  fixes flags :: "32 word"
  assumes s: "length s = 256" and name: "length name = 128" "0 \<in> set name" "peek name \<noteq> 0"
    and f: "fe_lbapos file < W64" "fe_size file < W64" "extent < W64"
  defines "s' \<equiv> memcpy_at 0 (entry_bytes flags name file extent) s"
  shows "slot_entry s' = file_entry flags name file extent (slot_entry s)" "live s'" "named s'"
    "fold_name (drop 4 s') = fold_name name"
proof -
  let ?x = "entry_bytes flags name file extent"
  have len: "length ?x = 156" using name(1) by (simp add: entry_bytes_def)
  have fits: "0 + length ?x \<le> length s" using len s by simp
  have ins: "take n (drop k s') = take n (drop k ?x)" if "k + n \<le> 156" for k n
    using memcpy_inside [OF fits, of k n] that len by (simp add: s'_def)
  have beh: "take 8 (drop k s') = take 8 (drop k s)" if "156 \<le> k" for k
    using memcpy_behind [OF fits, of k] that len by (simp add: s'_def)
  have n: "take 128 (drop 4 s') = name" using ins [of 4 128] name(1) by (simp add: entry_bytes_def)
  have "unat flags < 4294967296" using unsigned_less [of flags, where 'a = nat] by simp
  then have fl: "u32_at s' 0 = flags"
    using ins [of 0 4] of_le_le_bytes [of 4 "unat flags"] by (simp add: u32_at_def entry_bytes_def)
  have a: "u64_at s' 132 = fe_lbapos file" "u64_at s' 140 = fe_size file" "u64_at s' 148 = extent"
    by (rule le_field_8; use ins [of 132 8] ins [of 140 8] ins [of 148 8] name(1) f in \<open>simp add: entry_bytes_def\<close>)+
  have b: "u64_at s' k = u64_at s k" if "156 \<le> k" for k using beh [OF that] by (simp add: u64_at_def)
  show "slot_entry s' = file_entry flags name file extent (slot_entry s)"
    using n fl a b by (simp add: slot_entry_def file_entry_def)
  show "named s'" using n name(2) by (simp add: named_def)
  have "drop 4 s' = name @ drop 132 s'"
    using n append_take_drop_id [of 128 "drop 4 s'"] by (simp add: add.commute)
  moreover have "name \<noteq> []" using name(2) by auto
  ultimately show "live s'" using name(3) by (simp add: live_def peek_nth nth_append)
  have "cstr (drop 4 s') = cstr (take 128 (drop 4 s'))"
    by (rule cstr_take [of 128, symmetric]) (use n name(2) in simp_all)
  then show "fold_name (drop 4 s') = fold_name name" by (simp add: fold_name_def n)
qed

lemma peek_cstr_iff: "peek s \<noteq> 0 \<longleftrightarrow> cstr s \<noteq> []"
  by (cases s) (auto simp: peek_def cstr_def)

text \<open>Writing an entry with a name that fits updates the association list.\<close>

lemma write_slot:
  fixes flags :: "32 word"
  assumes ok: "block_ok block" and i: "i \<le> length (block_list block)" "i < 127"
    and name: "peek name \<noteq> 0" "strlen name < 128" and field: "length field = 128"
    and f: "fe_lbapos file < W64" "fe_size file < W64" "extent < W64"
  defines "b' \<equiv> memcpy_at (entry_off i) (entry_bytes flags (name_field field name) file extent) block"
    and "e \<equiv> file_entry flags (name_field field name) file extent (get_entry block i)"
  shows "block_ok b'" "continuation b' = continuation block"
    "block_list b' = (if i < length (block_list block) then (block_list block)[i := (fold_name name, e)]
       else block_list block @ [(fold_name name, e)])"
proof -
  let ?nm = "name_field field name" and ?s = "memcpy_at 0 (entry_bytes flags (name_field field name) file extent) (slot_at block i)"
  note nf = name_field_eq [OF field, of name]
  have c: "cstr ?nm = cstr name" using nf(2) name(2) by (simp add: strlen_def)
  have pk: "peek ?nm \<noteq> 0" using c name(1) by (simp add: peek_cstr_iff)
  have lb: "length block = 32768" by (rule block_okD(1) [OF ok])
  note sw = slot_written [OF length_slot_at [OF lb i(2)] nf(1,3) pk f, of flags]
  have lx: "length (entry_bytes flags ?nm file extent) \<le> 256" using nf(1) by (simp add: entry_bytes_def)
  note w = slots_write [OF lb i(2) lx, folded b'_def]
  have pair: "slot_pair ?s = (fold_name name, e)"
    using sw(1,4) c by (simp add: slot_pair_def e_def slot_entry_eq fold_name_def)
  show "block_ok b'" by (rule block_set_slot(1) [OF ok w i sw(2,3)])
  show "block_list b' = (if i < length (block_list block) then (block_list block)[i := (fold_name name, e)]
      else block_list block @ [(fold_name name, e)])"
    using block_set_slot(2) [OF ok w i sw(2,3)] unfolding pair .
  show "continuation b' = continuation block" by (rule header_eq(2) [OF w(2)])
qed

section \<open>Removing an entry\<close>

lemma delete_scan_ok:
  assumes "block_ok block" "i \<le> length (block_list block)" "lu = i - 1"
  shows "delete_scan block name i fo lu =
    (if fo = None then (case scan_slots block name i of Match m \<Rightarrow> Some m | _ \<Rightarrow> None) else fo, length (block_list block) - 1)"
  using assms
proof (induction block name i fo lu rule: delete_scan.induct)
  case (1 block name i fo lu)
  let ?n = "length (block_list block)"
  have n: "?n \<le> 127" by (rule length_block_list)
  note E = ENTRIES_PER_BLOCK_def RFS_DEFAULT_DIR_SIZE_def
  show ?case
  proof (cases "i < ?n")
    case True
    let ?fo = "if fo = None \<and> strcasecmp (entry_name block i) name = 0 then Some i else fo"
    have pk: "peek (entry_name block i) \<noteq> 0" by (rule block_list_nth(2) [OF "1.prems"(1) True])
    have e: "delete_scan block name i fo lu = delete_scan block name (i + 1) ?fo i"
      using True n pk by (subst delete_scan.simps) (simp add: E)
    have IH: "delete_scan block name (i + 1) ?fo i =
      (if ?fo = None then (case scan_slots block name (i + 1) of Match m \<Rightarrow> Some m | _ \<Rightarrow> None) else ?fo, ?n - 1)"
      by (rule "1.IH") (use True n pk "1.prems"(1) in \<open>simp_all add: E\<close>)
    have sc: "scan_slots block name i =
      (if strcasecmp (entry_name block i) name = 0 then Match i else scan_slots block name (i + 1))"
      using True n pk by (subst scan_slots.simps) (simp add: E)
    show ?thesis unfolding e IH sc by auto
  next
    case False
    then have i: "i = ?n" using "1.prems"(2) by simp
    show ?thesis
    proof (cases "?n < 127")
      case True
      then have "peek (entry_name block i) = 0"
        using live_iff [of block i] live_eq [of block i] slots_nth [of i block] "1.prems"(1) i by (auto simp: block_ok_def)
      then show ?thesis using True i
        by (subst delete_scan.simps, subst scan_slots.simps) (auto simp: E)
    next
      case False
      then show ?thesis using i n "1.prems"(3)
        by (subst delete_scan.simps, subst scan_slots.simps) (simp add: E)
    qed
  qed
qed

lemma remove_slots:
  assumes "length block = 32768" "f \<le> l" "l < 127"
  shows "slots (remove_entry block f l) =
      take f (slots block) @ take (l - f) (drop (f + 1) (slots block)) @ replicate 256 0 # drop (l + 1) (slots block)"
    "take 256 (remove_entry block f l) = take 256 block" "length (remove_entry block f l) = 32768"
proof -
  let ?xs = "take ((l - f) * 256) (drop (entry_off (f + 1)) block)"
  define b1 where "b1 = (if f < l then memcpy_at (entry_off f) ?xs block else block)"
  have lx: "length ?xs = (l - f) * 256" using assms by (simp add: entry_off_def)
  have fits: "entry_off f + length ?xs \<le> length block" using assms lx by (simp add: entry_off_def)
  have lb: "length b1 = 32768" using fits assms(1) by (simp add: b1_def)
  have r: "remove_entry block f l = memcpy_at (entry_off l) (replicate 256 0) b1"
    by (simp add: remove_entry_def b1_def Let_def)
  note w = slots_write [OF lb assms(3), of "replicate 256 0", folded r]
  show "length (remove_entry block f l) = 32768" using w(3) by simp
  have "take 256 b1 = take 256 block"
    using memcpy_before [OF fits, of 0 256] by (simp add: b1_def entry_off_def)
  then show "take 256 (remove_entry block f l) = take 256 block" using w(2) by simp
  have s1: "slot_at b1 j = slot_at block (if f \<le> j \<and> j < l then j + 1 else j)" if "j < 127" for j
  proof (cases "f < l")
    case False
    then have "(if f \<le> j \<and> j < l then j + 1 else j) = j" "b1 = block" by (auto simp: b1_def)
    then show ?thesis by simp
  next
    case True
    consider "j < f" | "f \<le> j" "j < l" | "l \<le> j" by linarith
    then show ?thesis
    proof cases
      case 1
      then show ?thesis using True fits unfolding slot_at_def b1_def
        by (simp add: memcpy_before entry_off_def)
    next
      case 2
      have k: "entry_off j = entry_off f + (j - f) * 256" "entry_off (j + 1) = entry_off (f + 1) + (j - f) * 256"
        "(j - f) * 256 + 256 \<le> (l - f) * 256"
        using 2 by (simp_all add: entry_off_def diff_mult_distrib)
      have "(j - f) * 256 + 256 \<le> length ?xs" unfolding lx by (rule k(3))
      then have "slot_at b1 j = take 256 (drop ((j - f) * 256) ?xs)"
        unfolding slot_at_def b1_def k(1) if_P [OF True] by (rule memcpy_inside [OF fits])
      also have "\<dots> = slot_at block (j + 1)"
        unfolding slot_at_def k(2) using k(3) by (simp add: drop_take min_def add.commute)
      finally show ?thesis using 2 by simp
    next
      case 3
      then have "entry_off f + length ?xs \<le> entry_off j"
        using lx assms(2) by (simp add: entry_off_def diff_mult_distrib)
      then have "drop (entry_off j) b1 = drop (entry_off j) block"
        unfolding b1_def if_P [OF True] by (rule memcpy_behind [OF fits])
      then show ?thesis using 3 by (simp add: slot_at_def)
    qed
  qed
  have z: "memcpy_at 0 (replicate 256 0) (slot_at b1 l) = replicate 256 0"
    using length_slot_at [OF lb assms(3)] by (simp add: memcpy_at_def)
  show "slots (remove_entry block f l) =
      take f (slots block) @ take (l - f) (drop (f + 1) (slots block)) @ replicate 256 0 # drop (l + 1) (slots block)"
  proof (rule nth_equalityI)
    fix j assume "j < length (slots (remove_entry block f l))"
    then have j: "j < 127" by simp
    have "slots (remove_entry block f l) ! j =
        (if j = l then replicate 256 0 else slots block ! (if f \<le> j \<and> j < l then j + 1 else j))"
      using w(1) z s1 [OF j] j assms(3) by (simp add: nth_list_update slots_nth)
    then show "slots (remove_entry block f l) ! j = (take f (slots block) @ take (l - f) (drop (f + 1) (slots block)) @
        replicate 256 0 # drop (l + 1) (slots block)) ! j"
      using assms j by (auto simp: nth_append nth_Cons' min_def)
  qed (use assms in simp)
qed

text \<open>Removing the entry at \<open>f\<close> from a sound block.\<close>

lemma remove_ok:
  assumes ok: "block_ok block" and f: "f < length (block_list block)"
  defines "b' \<equiv> remove_entry block f (length (block_list block) - 1)"
  shows "block_ok b'" "continuation b' = continuation block"
    "block_list b' = take f (block_list block) @ drop (f + 1) (block_list block)"
proof -
  let ?n = "length (block_list block)" and ?ss = "slots block"
  note d = block_okD [OF ok]
  have l: "f \<le> ?n - 1" "?n - 1 < 127" using f d(3) by auto
  note r = remove_slots [OF d(1) l, folded b'_def]
  have l1: "?n - 1 + 1 = ?n" using f by simp
  have nth: "slots b' ! j = (if j = ?n - 1 then replicate 256 0 else if f \<le> j \<and> j < ?n - 1 then ?ss ! (j + 1) else ?ss ! j)"
    if "j < 127" for j
    using r(1) that f d(3) by (auto simp: nth_append nth_Cons' min_def)
  have dead: "\<not> live (replicate 256 0)" by (simp add: live_def peek_def numeral_eq_Suc)
  have "live (slots b' ! j) \<longleftrightarrow> j < ?n - 1" if "j < 127" for j
    using nth [OF that] dead d(5) [of j] d(5) [of "j + 1"] that d(3) by auto
  moreover have "named (slots b' ! j)" if "j < ?n - 1" for j
    using nth [of j] d(6) [of j] d(6) [of "j + 1"] that d(3) by auto
  ultimately have b: "block_ok b'" "block_list b' = map slot_pair (take (?n - 1) (slots b'))"
    using block_okI [OF r(3), of "?n - 1"] d(2,3) header_eq(1) [OF r(2)] by auto
  then show "block_ok b'" by simp
  show "continuation b' = continuation block" by (rule header_eq(2) [OF r(2)])
  have "take (?n - 1) (slots b') = take f (take ?n ?ss) @ drop (f + 1) (take ?n ?ss)"
  proof -
    have "slots b' = (take f ?ss @ take (?n - 1 - f) (drop (f + 1) ?ss)) @ (replicate 256 0 # drop ?n ?ss)"
      using r(1) l1 by simp
    moreover have "length (take f ?ss @ take (?n - 1 - f) (drop (f + 1) ?ss)) = ?n - 1" using f d(3) by simp
    ultimately have "take (?n - 1) (slots b') = take f ?ss @ take (?n - 1 - f) (drop (f + 1) ?ss)"
      by (metis append_eq_conv_conj)
    then show ?thesis using f by (simp add: drop_take min_def)
  qed
  then show "block_list b' = take f (block_list block) @ drop (f + 1) (block_list block)"
    unfolding b(2) by (subst (2 3) d(4)) (simp add: take_map drop_map)
qed

end
