(* ===== verification/RfsDirSpec.thy ===== *)
theory RfsDirSpec
  imports RfsBytes RfsSlots
begin

text \<open>
  A directory as a finite map from names to entries.  A directory of the volume is a chain of sound blocks;
  its abstraction \<open>dir_map\<close> is the map of the association list of all their entries.  Looking up,
  inserting or updating, and deleting an entry refine lookup, update and removal on this map.
\<close>

section \<open>Chains of blocks\<close>

definition dblock :: "(nat \<Rightarrow> byte list) \<Rightarrow> nat \<Rightarrow> byte list" where
  "dblock vs s = get_sectors vs s 64"

fun chain :: "(nat \<Rightarrow> byte list) \<Rightarrow> nat \<Rightarrow> nat \<Rightarrow> nat list \<Rightarrow> bool" where
  "chain vs t cur [] \<longleftrightarrow> cur = 0"
| "chain vs t cur (s # ss) \<longleftrightarrow> cur = s \<and> s \<noteq> 0 \<and> s + 64 \<le> t \<and> block_ok (dblock vs s) \<and>
     chain vs t (continuation (dblock vs s)) ss"

definition dir_list :: "(nat \<Rightarrow> byte list) \<Rightarrow> nat list \<Rightarrow> (byte list \<times> rfs_directory_entry_inner) list" where
  "dir_list vs ss = concat (map (\<lambda>s. block_list (dblock vs s)) ss)"

definition dir_map :: "(nat \<Rightarrow> byte list) \<Rightarrow> nat list \<Rightarrow> byte list \<rightharpoonup> rfs_directory_entry_inner" where
  "dir_map vs ss = map_of (dir_list vs ss)"

fun apart :: "nat list \<Rightarrow> bool" where
  "apart [] \<longleftrightarrow> True"
| "apart (s # ss) \<longleftrightarrow> (\<forall>t\<in>set ss. s + 64 \<le> t \<or> t + 64 \<le> s) \<and> apart ss"

definition dir_ok :: "(nat \<Rightarrow> byte list) \<Rightarrow> nat \<Rightarrow> nat \<Rightarrow> nat list \<Rightarrow> bool" where
  "dir_ok vs t first ss \<longleftrightarrow> chain vs t first ss \<and> ss \<noteq> [] \<and> length ss \<le> WALK_LIMIT + 1 \<and> apart ss \<and>
     distinct (map fst (dir_list vs ss))"

lemma dir_list_simps [simp]:
  "dir_list vs [] = []" "dir_list vs (s # ss) = block_list (dblock vs s) @ dir_list vs ss"
  "dir_list vs (ss @ tt) = dir_list vs ss @ dir_list vs tt"
  by (simp_all add: dir_list_def)

lemma chain_facts:
  assumes "chain vs t cur ss" "s \<in> set ss"
  shows "s \<noteq> 0" "s + 64 \<le> t" "block_ok (dblock vs s)"
  using assms by (induction ss arbitrary: cur) auto

lemma apart_append: "apart (ss @ tt) \<longleftrightarrow> apart ss \<and> apart tt \<and> (\<forall>s\<in>set ss. \<forall>t\<in>set tt. s + 64 \<le> t \<or> t + 64 \<le> s)"
  by (induction ss) auto

lemma apart_middle:
  assumes "apart (ss1 @ s # ss2)" "t \<in> set ss1 \<union> set ss2"
  shows "s + 64 \<le> t \<or> t + 64 \<le> s"
  using assms by (auto simp: apart_append)

lemma dblock_cong:
  assumes "\<And>k. s \<le> k \<Longrightarrow> k < s + 64 \<Longrightarrow> vs' k = vs k"
  shows "dblock vs' s = dblock vs s"
  unfolding dblock_def get_sectors_def using assms by (metis (no_types, lifting) atLeastLessThan_iff map_cong set_upt)

lemma dblock_put_other: "s + 64 \<le> t \<or> t + 64 \<le> s \<Longrightarrow> length b = 32768 \<Longrightarrow>
  dblock (put_sectors 512 vs s b) t = dblock vs t"
  by (rule dblock_cong) (auto simp: put_sectors_def)

lemma concat_sectors:
  assumes "length b = n * 512"
  shows "concat (map (nth_sector 512 b) [0 ..< n]) = b"
  using assms
proof (induction n arbitrary: b)
  case (Suc n)
  let ?a = "take (n * 512) b"
  have m: "map (nth_sector 512 b) [0 ..< n] = map (nth_sector 512 ?a) [0 ..< n]"
    by (rule map_cong) (use Suc.prems in \<open>auto simp: nth_sector_def drop_take min_def\<close>)
  have "concat (map (nth_sector 512 b) [0 ..< n]) = ?a" unfolding m by (rule Suc.IH) (use Suc.prems in simp)
  moreover have "nth_sector 512 b n = drop (n * 512) b" using Suc.prems by (simp add: nth_sector_def mult.commute)
  ultimately show ?case by simp
qed simp

lemma dblock_put_same:
  assumes "length b = 32768"
  shows "dblock (put_sectors 512 vs s b) s = b"
proof -
  have "map (put_sectors 512 vs s b) [s ..< s + 64] = map (nth_sector 512 b) [0 ..< 64]"
    using assms by (intro nth_equalityI) (auto simp: put_sectors_def)
  then show ?thesis using concat_sectors [of b 64] assms by (simp add: dblock_def get_sectors_def)
qed

text \<open>Storing a sound block with the same continuation into the chain.\<close>

lemma chain_cong:
  assumes "chain vs t cur ss" "\<And>s. s \<in> set ss \<Longrightarrow> dblock vs' s = dblock vs s"
  shows "chain vs' t cur ss" "dir_list vs' ss = dir_list vs ss"
  using assms by (induction ss arbitrary: cur) auto

lemma chain_put:
  assumes "chain vs t first (ss1 @ s # ss2)" "\<And>x. x \<in> set ss1 \<union> set ss2 \<Longrightarrow> dblock vs' x = dblock vs x"
    "block_ok (dblock vs' s)" "continuation (dblock vs' s) = continuation (dblock vs s)"
  shows "chain vs' t first (ss1 @ s # ss2)"
    "dir_list vs' (ss1 @ s # ss2) = dir_list vs ss1 @ block_list (dblock vs' s) @ dir_list vs ss2"
proof -
  show "chain vs' t first (ss1 @ s # ss2)"
    using assms
  proof (induction ss1 arbitrary: first)
    case Nil
    then show ?case using chain_cong(1) [of vs t _ ss2 vs'] by simp
  qed simp
  have "dir_list vs' ss1 = dir_list vs ss1" "dir_list vs' ss2 = dir_list vs ss2"
    unfolding dir_list_def using assms(2) by (metis (mono_tags, lifting) UnCI map_cong)+
  then show "dir_list vs' (ss1 @ s # ss2) = dir_list vs ss1 @ block_list (dblock vs' s) @ dir_list vs ss2" by simp
qed

section \<open>Reading and writing blocks\<close>

text \<open>After a block \<open>b\<close> has been stored at sector \<open>s\<close>.\<close>

definition stored :: "('d \<Rightarrow> bool) \<Rightarrow> ('d \<Rightarrow> nat \<Rightarrow> byte list) \<Rightarrow> 'd rfs \<Rightarrow> 'd rfs \<Rightarrow> nat \<Rightarrow> byte list \<Rightarrow> bool" where
  "stored ok sector r r' s b \<longleftrightarrow> (\<exists>d q. r' = r\<lparr>rfs_dev := d, rfs_requests := q\<rparr> \<and> ok d) \<and>
     vsec sector r' = put_sectors 512 (vsec sector r) s b"

lemma touched_stored: "touched ok sector r r1 \<Longrightarrow> stored ok sector r1 r2 s b \<Longrightarrow> stored ok sector r r2 s b"
proof -
  assume a: "touched ok sector r r1" "stored ok sector r1 r2 s b"
  have "vsec sector r1 = vsec sector r" using a(1) by (auto simp: touched_def vsec_def [abs_def])
  moreover have "\<exists>d q. r2 = r\<lparr>rfs_dev := d, rfs_requests := q\<rparr> \<and> ok d"
    using a unfolding stored_def touched_def by (blast intro: dev_trans)
  ultimately show ?thesis using a(2) unfolding stored_def by simp
qed

lemma stored_facts:
  assumes "stored ok sector r r' s b" "vol_ok ok nblk r"
  shows "vol_ok ok nblk r'" "rfs_total r' = rfs_total r" "rfs_desc r' = rfs_desc r"
    "vsec sector r' = put_sectors 512 (vsec sector r) s b"
  using assms by (auto simp: stored_def vol_ok_def)

lemma block_io_size: "io_size 64" by (rule io_size_chunk) simp_all

context reliable_disk
begin

lemma reads_block:
  assumes "vol_ok ok nblk r" "s + 64 \<le> rfs_total r"
  shows "\<exists>r'. read_dir_block dv r s = (Some (dblock (vsec sector r) s), r') \<and> touched ok sector r r'"
proof -
  obtain d where "rfs_read_device dv r s (64 * 512) = (Some (dblock (vsec sector r) s), r\<lparr>rfs_dev := d\<rparr>)"
    "ok d" "sector d = sector (rfs_dev r)"
    using rfs_reads [OF assms(1) block_io_size assms(2)] unfolding dblock_def by blast
  then show ?thesis using touched_dev [of ok d sector r]
    by (auto simp: read_dir_block_def DIR_BLOCK_BYTES_def RFS_SECTOR_SIZE_def RFS_DEFAULT_DIR_SIZE_def)
qed

lemma writes_block:
  assumes "vol_ok ok nblk r" "s + 64 \<le> rfs_total r" "length b = 32768"
  shows "\<exists>r'. write_dir_block dv r s b = (Some (), r') \<and> stored ok sector r r' s b"
proof -
  obtain d where d: "rfs_write_device dv r s (64 * 512) b = (Some (), r\<lparr>rfs_dev := d\<rparr>)" "ok d"
    "vsec sector (r\<lparr>rfs_dev := d\<rparr>) = put_sectors 512 (vsec sector r) s b"
    using rfs_writes [OF assms(1) block_io_size assms(2), of b] assms(3) by auto
  moreover have "\<exists>d' q. r\<lparr>rfs_dev := d\<rparr> = r\<lparr>rfs_dev := d', rfs_requests := q\<rparr> \<and> ok d'"
    using d(2) by (intro exI [of _ d] exI [of _ "rfs_requests r"]) simp
  ultimately show ?thesis unfolding stored_def
    by (auto simp: write_dir_block_def DIR_BLOCK_BYTES_def RFS_SECTOR_SIZE_def RFS_DEFAULT_DIR_SIZE_def)
qed

lemma locate_walk_ok:
  assumes "vol_ok ok nblk r" "chain (vsec sector r) (rfs_total r) cur ss" "walked + length ss \<le> WALK_LIMIT + 1"
  shows "\<exists>res r'. locate_walk dv name r cur walked = (res, r') \<and> touched ok sector r r' \<and>
    (case res of None \<Rightarrow> dir_map (vsec sector r) ss (fold_name name) = None
     | Some (s, i, e) \<Rightarrow> dir_map (vsec sector r) ss (fold_name name) = Some e \<and> s \<in> set ss \<and> i < 127 \<and>
         e = get_entry (dblock (vsec sector r) s) i)"
  using assms
proof (induction ss arbitrary: r cur walked)
  case Nil
  then have "locate_walk dv name r cur walked = (None, r)" by (subst locate_walk.simps) simp
  then show ?case using touched_refl [OF Nil(1)] by (auto simp: dir_map_def)
next
  case (Cons s ss)
  let ?vs = "vsec sector r" and ?k = "fold_name name"
  let ?b = "dblock ?vs s"
  have c: "cur = s" "s \<noteq> 0" "s + 64 \<le> rfs_total r" "block_ok ?b" "chain ?vs (rfs_total r) (continuation ?b) ss"
    using Cons.prems(2) by auto
  obtain r1 where r1: "read_dir_block dv r s = (Some ?b, r1)" "touched ok sector r r1"
    using reads_block [OF Cons.prems(1) c(3)] by blast
  note f = touched_facts [OF r1(2) Cons.prems(1)]
  have sok: "start_ok ?b" "\<not> walked > WALK_LIMIT" using block_okD(2) [OF c(4)] Cons.prems(3) by auto
  have sr: "scan_result ?b name 0 (scan_slots ?b name 0)" by (rule scan_slots_ok [OF c(4)]) simp
  have step: "locate_walk dv name r cur walked =
    (case scan_slots ?b name 0 of Match i \<Rightarrow> (Some (s, i, get_entry ?b i), r1)
     | _ \<Rightarrow> if continuation ?b = 0 then (None, r1) else locate_walk dv name r1 (continuation ?b) (walked + 1))"
    unfolding c(1) using c(2) r1(1) sok by (subst locate_walk.simps) simp
  show ?case
  proof (cases "\<exists>i. scan_slots ?b name 0 = Match i")
    case True
    then obtain i where i: "scan_slots ?b name 0 = Match i" by blast
    then have m: "i < length (block_list ?b)" "fst (block_list ?b ! i) = ?k" "\<And>j. j < i \<Longrightarrow> fst (block_list ?b ! j) \<noteq> ?k"
      using sr by (auto simp: scan_result_def Let_def)
    have "map_of (block_list ?b) ?k = Some (get_entry ?b i)"
      using map_of_first [OF m] block_list_nth(1) [OF c(4) m(1)] by simp
    then have "dir_map ?vs (s # ss) ?k = Some (get_entry ?b i)" by (simp add: dir_map_def)
    then show ?thesis using step i r1(2) m(1) length_block_list [of ?b] by auto
  next
    case False
    then have none: "map_of (block_list ?b) ?k = None"
      using sr by (intro map_of_none) (auto simp: scan_result_def Let_def split: slot.splits)
    have tl: "dir_map ?vs (s # ss) ?k = dir_map ?vs ss ?k" using none by (auto simp: dir_map_def map_add_def split: option.splits)
    have step2: "locate_walk dv name r cur walked = locate_walk dv name r1 (continuation ?b) (walked + 1)"
    proof (cases "continuation ?b = 0")
      case True
      then have "locate_walk dv name r1 (continuation ?b) (walked + 1) = (None, r1)" by (subst locate_walk.simps) simp
      then show ?thesis using step False True by (cases "scan_slots ?b name 0") auto
    qed (use step False in \<open>cases "scan_slots ?b name 0"; auto\<close>)
    obtain res r2 where r2: "locate_walk dv name r1 (continuation ?b) (walked + 1) = (res, r2)" "touched ok sector r1 r2"
      "case res of None \<Rightarrow> dir_map (vsec sector r1) ss ?k = None
       | Some (s, i, e) \<Rightarrow> dir_map (vsec sector r1) ss ?k = Some e \<and> s \<in> set ss \<and> i < 127 \<and>
           e = get_entry (dblock (vsec sector r1) s) i"
      using Cons.IH [OF f(1), of "continuation ?b" "walked + 1"] c(5) f(2,3) Cons.prems(3) by auto
    show ?thesis unfolding step2 r2(1) tl
      using r2(3) touched_trans [OF r1(2) r2(2)] f(2) by (auto split: option.splits)
  qed
qed

lemma upsert_walk_ok:
  assumes "vol_ok ok nblk r" "chain (vsec sector r) (rfs_total r) cur ss" "walked + length ss \<le> WALK_LIMIT + 1"
  shows "\<exists>res r'. upsert_walk dv name file extent r cur hole walked = (Some res, r') \<and>
    (case res of
       Updated \<Rightarrow> (\<exists>ss1 s ss2 i. ss = ss1 @ s # ss2 \<and> dir_map (vsec sector r) ss1 (fold_name name) = None \<and>
         scan_slots (dblock (vsec sector r) s) name 0 = Match i \<and>
         stored ok sector r r' s (update_entry (dblock (vsec sector r) s) i name file extent))
     | Missing h \<Rightarrow> touched ok sector r r' \<and> dir_map (vsec sector r) ss (fold_name name) = None \<and>
         (case h of None \<Rightarrow> hole = None \<and> (\<forall>s\<in>set ss. length (block_list (dblock (vsec sector r) s)) = 127)
          | Some (s, i) \<Rightarrow> hole = h \<or> hole = None \<and> s \<in> set ss \<and> i = length (block_list (dblock (vsec sector r) s)) \<and> i < 127))"
  using assms
proof (induction ss arbitrary: r cur walked hole)
  case Nil
  then have "upsert_walk dv name file extent r cur hole walked = (Some (Missing hole), r)"
    by (subst upsert_walk.simps) simp
  then show ?case using touched_refl [OF Nil(1)] by (auto simp: dir_map_def split: option.splits)
next
  case (Cons s ss)
  let ?vs = "vsec sector r" and ?k = "fold_name name"
  let ?b = "dblock ?vs s"
  have c: "cur = s" "s \<noteq> 0" "s + 64 \<le> rfs_total r" "block_ok ?b" "chain ?vs (rfs_total r) (continuation ?b) ss"
    using Cons.prems(2) by auto
  obtain r1 where r1: "read_dir_block dv r s = (Some ?b, r1)" "touched ok sector r r1"
    using reads_block [OF Cons.prems(1) c(3)] by blast
  note f = touched_facts [OF r1(2) Cons.prems(1)]
  have sok: "start_ok ?b" "\<not> walked > WALK_LIMIT" using block_okD(2) [OF c(4)] Cons.prems(3) by auto
  have sr: "scan_result ?b name 0 (scan_slots ?b name 0)" by (rule scan_slots_ok [OF c(4)]) simp
  define hole1 where "hole1 = (case scan_slots ?b name 0 of Empty i \<Rightarrow> if hole = None then Some (s, i) else hole | _ \<Rightarrow> hole)"
  have step: "upsert_walk dv name file extent r cur hole walked =
    (case scan_slots ?b name 0 of
       Match i \<Rightarrow> and_then (write_dir_block dv r1 s (update_entry ?b i name file extent)) (\<lambda>_ r2. (Some Updated, r2))
     | _ \<Rightarrow> if continuation ?b = 0 then (Some (Missing hole1), r1)
            else upsert_walk dv name file extent r1 (continuation ?b) hole1 (walked + 1))"
    unfolding c(1) hole1_def using c(2) r1(1) sok by (subst upsert_walk.simps) (auto simp: Let_def split: slot.splits)
  show ?case
  proof (cases "\<exists>i. scan_slots ?b name 0 = Match i")
    case True
    then obtain i where i: "scan_slots ?b name 0 = Match i" by blast
    then have "i < 127" using sr length_block_list [of ?b] by (auto simp: scan_result_def Let_def)
    then have "length (update_entry ?b i name file extent) = 32768"
      unfolding update_entry_def using name_field_eq(1) [of "replicate RFS_MAX_NAME 0" name]
      by (intro slots_write(3) [OF block_okD(1) [OF c(4)]]) (simp_all add: entry_bytes_def RFS_MAX_NAME_def)
    then obtain r2 where r2: "write_dir_block dv r1 s (update_entry ?b i name file extent) = (Some (), r2)"
      "stored ok sector r1 r2 s (update_entry ?b i name file extent)"
      using writes_block [OF f(1)] c(3) f(3) by metis
    have "\<exists>ss1 s' ss2 i. s # ss = ss1 @ s' # ss2 \<and> dir_map ?vs ss1 ?k = None \<and> scan_slots (dblock ?vs s') name 0 = Match i \<and>
        stored ok sector r r2 s' (update_entry (dblock ?vs s') i name file extent)"
      using i touched_stored [OF r1(2) r2(2)]
      by (intro exI [of _ "[]"] exI [of _ s] exI [of _ ss] exI [of _ i]) (simp add: dir_map_def)
    then show ?thesis using step i r2(1) by (intro exI [of _ Updated] exI [of _ r2]) simp
  next
    case False
    then have none: "map_of (block_list ?b) ?k = None"
      using sr by (intro map_of_none) (auto simp: scan_result_def Let_def split: slot.splits)
    have tl: "dir_map ?vs (s # tt) ?k = dir_map ?vs tt ?k" for tt
      using none by (auto simp: dir_map_def map_add_def split: option.splits)
    have step2: "upsert_walk dv name file extent r cur hole walked =
        upsert_walk dv name file extent r1 (continuation ?b) hole1 (walked + 1)"
    proof (cases "continuation ?b = 0")
      case True
      then have "upsert_walk dv name file extent r1 (continuation ?b) hole1 (walked + 1) = (Some (Missing hole1), r1)"
        by (subst upsert_walk.simps) simp
      then show ?thesis using step False True by (cases "scan_slots ?b name 0") auto
    qed (use step False in \<open>cases "scan_slots ?b name 0"; auto\<close>)
    have cc: "chain (vsec sector r1) (rfs_total r1) (continuation ?b) ss" using c(5) f(2,3) by simp
    obtain res r2 where r2: "upsert_walk dv name file extent r1 (continuation ?b) hole1 (walked + 1) = (Some res, r2)"
      "case res of
       Updated \<Rightarrow> (\<exists>ss1 s ss2 i. ss = ss1 @ s # ss2 \<and> dir_map ?vs ss1 ?k = None \<and>
         scan_slots (dblock ?vs s) name 0 = Match i \<and>
         stored ok sector r1 r2 s (update_entry (dblock ?vs s) i name file extent))
     | Missing h \<Rightarrow> touched ok sector r1 r2 \<and> dir_map ?vs ss ?k = None \<and>
         (case h of None \<Rightarrow> hole1 = None \<and> (\<forall>s\<in>set ss. length (block_list (dblock ?vs s)) = 127)
          | Some (s, i) \<Rightarrow> hole1 = h \<or> hole1 = None \<and> s \<in> set ss \<and> i = length (block_list (dblock ?vs s)) \<and> i < 127)"
      using Cons.IH [OF f(1) cc, of "walked + 1" hole1, unfolded f(2)] Cons.prems(3) by auto
    have h1: "(hole1 = None \<longrightarrow> hole = None \<and> length (block_list ?b) = 127) \<and>
        (\<forall>p. hole1 = Some p \<longrightarrow> hole = hole1 \<or> hole = None \<and> p = (s, length (block_list ?b)) \<and> length (block_list ?b) < 127)"
      using sr False by (auto simp: hole1_def scan_result_def Let_def split: slot.splits)
    show ?thesis
    proof (cases res)
      case Updated
      then obtain ss1 s' ss2 i where u: "ss = ss1 @ s' # ss2" "dir_map ?vs ss1 ?k = None"
        "scan_slots (dblock ?vs s') name 0 = Match i"
        "stored ok sector r1 r2 s' (update_entry (dblock ?vs s') i name file extent)"
        using r2(2) by auto
      then have "\<exists>ss1 s' ss2 i. s # ss = ss1 @ s' # ss2 \<and> dir_map ?vs ss1 ?k = None \<and> scan_slots (dblock ?vs s') name 0 = Match i \<and>
          stored ok sector r r2 s' (update_entry (dblock ?vs s') i name file extent)"
        using tl touched_stored [OF r1(2) u(4)]
        by (intro exI [of _ "s # ss1"] exI [of _ s'] exI [of _ ss2] exI [of _ i]) simp
      then show ?thesis unfolding step2 r2(1) using Updated by (intro exI [of _ Updated] exI [of _ r2]) simp
    next
      case (Missing h)
      have "touched ok sector r r2" using r2(2) Missing touched_trans [OF r1(2)] by simp
      then show ?thesis unfolding step2 r2(1) using r2(2) Missing h1 tl
        by (intro exI [of _ "Missing h"] exI [of _ r2]) (auto split: option.splits)
    qed
  qed
qed

lemma delete_walk_ok:
  assumes "vol_ok ok nblk r" "chain (vsec sector r) (rfs_total r) cur ss" "walked + length ss \<le> WALK_LIMIT + 1"
  shows "\<exists>res r'. delete_walk dv name r cur walked = (res, r') \<and>
    (case res of
       None \<Rightarrow> touched ok sector r r' \<and> dir_map (vsec sector r) ss (fold_name name) = None
     | Some _ \<Rightarrow> (\<exists>ss1 s ss2 i. ss = ss1 @ s # ss2 \<and> scan_slots (dblock (vsec sector r) s) name 0 = Match i \<and>
         stored ok sector r r' s (remove_entry (dblock (vsec sector r) s) i (length (block_list (dblock (vsec sector r) s)) - 1))))"
  using assms
proof (induction ss arbitrary: r cur walked)
  case Nil
  then have "delete_walk dv name r cur walked = (None, r)" by (subst delete_walk.simps) simp
  then show ?case using touched_refl [OF Nil(1)] by (auto simp: dir_map_def)
next
  case (Cons s ss)
  let ?vs = "vsec sector r" and ?k = "fold_name name"
  let ?b = "dblock ?vs s"
  let ?rem = "\<lambda>s i. remove_entry (dblock ?vs s) i (length (block_list (dblock ?vs s)) - 1)"
  have c: "cur = s" "s \<noteq> 0" "s + 64 \<le> rfs_total r" "block_ok ?b" "chain ?vs (rfs_total r) (continuation ?b) ss"
    using Cons.prems(2) by auto
  obtain r1 where r1: "read_dir_block dv r s = (Some ?b, r1)" "touched ok sector r r1"
    using reads_block [OF Cons.prems(1) c(3)] by blast
  note f = touched_facts [OF r1(2) Cons.prems(1)]
  have sok: "start_ok ?b" "\<not> walked > WALK_LIMIT" using block_okD(2) [OF c(4)] Cons.prems(3) by auto
  have sr: "scan_result ?b name 0 (scan_slots ?b name 0)" by (rule scan_slots_ok [OF c(4)]) simp
  have ds: "delete_scan ?b name 0 None 0 =
    (case scan_slots ?b name 0 of Match m \<Rightarrow> Some m | _ \<Rightarrow> None, length (block_list ?b) - 1)"
    using delete_scan_ok [OF c(4), of 0 0 name None] by simp
  have step: "delete_walk dv name r cur walked =
    (case scan_slots ?b name 0 of Match i \<Rightarrow> write_dir_block dv r1 s (?rem s i)
     | _ \<Rightarrow> if continuation ?b = 0 then (None, r1) else delete_walk dv name r1 (continuation ?b) (walked + 1))"
    unfolding c(1) using c(2) r1(1) sok ds by (subst delete_walk.simps) (auto split: slot.splits)
  show ?case
  proof (cases "\<exists>i. scan_slots ?b name 0 = Match i")
    case True
    then obtain i where i: "scan_slots ?b name 0 = Match i" by blast
    then have m: "i < length (block_list ?b)" using sr by (auto simp: scan_result_def Let_def)
    have "length (?rem s i) = 32768" by (rule block_okD(1) [OF remove_ok(1) [OF c(4) m]])
    then obtain r2 where r2: "write_dir_block dv r1 s (?rem s i) = (Some (), r2)" "stored ok sector r1 r2 s (?rem s i)"
      using writes_block [OF f(1)] c(3) f(3) by metis
    have "\<exists>ss1 s' ss2 i. s # ss = ss1 @ s' # ss2 \<and> scan_slots (dblock ?vs s') name 0 = Match i \<and> stored ok sector r r2 s' (?rem s' i)"
      using i touched_stored [OF r1(2) r2(2)] by (intro exI [of _ "[]"] exI [of _ s] exI [of _ ss] exI [of _ i]) simp
    then show ?thesis using step i r2(1) by (intro exI [of _ "Some ()"] exI [of _ r2]) simp
  next
    case False
    then have none: "map_of (block_list ?b) ?k = None"
      using sr by (intro map_of_none) (auto simp: scan_result_def Let_def split: slot.splits)
    have tl: "dir_map ?vs (s # tt) ?k = dir_map ?vs tt ?k" for tt
      using none by (auto simp: dir_map_def map_add_def split: option.splits)
    have step2: "delete_walk dv name r cur walked = delete_walk dv name r1 (continuation ?b) (walked + 1)"
    proof (cases "continuation ?b = 0")
      case True
      then have "delete_walk dv name r1 (continuation ?b) (walked + 1) = (None, r1)" by (subst delete_walk.simps) simp
      then show ?thesis using step False True by (cases "scan_slots ?b name 0") auto
    qed (use step False in \<open>cases "scan_slots ?b name 0"; auto\<close>)
    have cc: "chain (vsec sector r1) (rfs_total r1) (continuation ?b) ss" using c(5) f(2,3) by simp
    obtain res r2 where r2: "delete_walk dv name r1 (continuation ?b) (walked + 1) = (res, r2)"
      "case res of None \<Rightarrow> touched ok sector r1 r2 \<and> dir_map ?vs ss ?k = None
       | Some _ \<Rightarrow> (\<exists>ss1 s ss2 i. ss = ss1 @ s # ss2 \<and> scan_slots (dblock ?vs s) name 0 = Match i \<and>
           stored ok sector r1 r2 s (?rem s i))"
      using Cons.IH [OF f(1) cc, of "walked + 1", unfolded f(2)] Cons.prems(3) by auto
    show ?thesis
    proof (cases res)
      case None
      then show ?thesis unfolding step2 r2(1) using r2(2) tl touched_trans [OF r1(2)] by auto
    next
      case (Some u)
      then obtain ss1 s' ss2 i where u: "ss = ss1 @ s' # ss2" "scan_slots (dblock ?vs s') name 0 = Match i"
        "stored ok sector r1 r2 s' (?rem s' i)"
        using r2(2) by auto
      then have "\<exists>ss1 s' ss2 i. s # ss = ss1 @ s' # ss2 \<and> scan_slots (dblock ?vs s') name 0 = Match i \<and>
          stored ok sector r r2 s' (?rem s' i)"
        using touched_stored [OF r1(2) u(3)]
        by (intro exI [of _ "s # ss1"] exI [of _ s'] exI [of _ ss2] exI [of _ i]) simp
      then show ?thesis unfolding step2 r2(1) using Some by (intro exI [of _ "Some ()"] exI [of _ r2]) simp
    qed
  qed
qed

end

section \<open>The abstract map\<close>

text \<open>What an entry on disk says about a file of the VFS.\<close>

definition entry_for :: "byte list \<Rightarrow> fs_directory_entry \<Rightarrow> nat \<Rightarrow> rfs_directory_entry_inner \<Rightarrow> bool" where
  "entry_for name file extent e \<longleftrightarrow> cstr (en_filename e) = cstr name \<and> en_sector_start e = fe_lbapos file \<and>
     en_length e = fe_size file \<and> en_sector_length e = extent \<and>
     (en_flags e AND RFS_FLAG_DIRECTORY \<noteq> 0 \<longleftrightarrow> fe_flags file AND FS_DIRECTORY \<noteq> 0)"

lemma dir_flag_iff:
  assumes "f AND RFS_FLAG_DIRECTORY = 0"
  shows "dir_flag file f AND RFS_FLAG_DIRECTORY \<noteq> 0 \<longleftrightarrow> fe_flags file AND FS_DIRECTORY \<noteq> 0"
proof -
  have "(f OR 1) AND (1 :: 32 word) \<noteq> 0" using and_single_bit [of 0 "f OR 1 :: 32 word"] by (simp add: bit_simps)
  then show ?thesis using assms by (simp add: dir_flag_def RFS_FLAG_DIRECTORY_def)
qed

lemma entry_for_file_entry:
  assumes "length field = 128" "strlen name < 128" "f AND RFS_FLAG_DIRECTORY = 0"
  shows "entry_for name file extent (file_entry (dir_flag file f) (name_field field name) file extent e)"
  using assms name_field_eq(2) [OF assms(1), of name] dir_flag_iff [OF assms(3)]
  by (simp add: entry_for_def file_entry_def strlen_def)

definition node_ok :: "byte list \<Rightarrow> fs_directory_entry \<Rightarrow> nat \<Rightarrow> bool" where
  "node_ok name file extent \<longleftrightarrow> peek name \<noteq> 0 \<and> strlen name < 128 \<and> fe_lbapos file < W64 \<and> fe_size file < W64 \<and> extent < W64"

lemma update_block:
  assumes "block_ok b" "node_ok name file extent" "i < length (block_list b)"
  shows "\<exists>e. entry_for name file extent e \<and> block_ok (update_entry b i name file extent) \<and>
    continuation (update_entry b i name file extent) = continuation b \<and>
    block_list (update_entry b i name file extent) = (block_list b)[i := (fold_name name, e)]"
proof -
  let ?fl = "u32_at b (entry_off i) AND NOT RFS_FLAG_DIRECTORY" and ?f = "replicate 128 (0 :: byte)"
  have z: "?fl AND RFS_FLAG_DIRECTORY = 0" by (simp add: and.assoc)
  have n: "peek name \<noteq> 0" "strlen name < 128" "fe_lbapos file < W64" "fe_size file < W64" "extent < W64"
    using assms(2) by (simp_all add: node_ok_def)
  have i: "i \<le> length (block_list b)" "i < 127" using assms(3) length_block_list [of b] by auto
  have e: "update_entry b i name file extent =
      memcpy_at (entry_off i) (entry_bytes (dir_flag file ?fl) (name_field ?f name) file extent) b"
    by (simp add: update_entry_def RFS_MAX_NAME_def)
  show ?thesis
    unfolding e using write_slot [OF assms(1) i n(1,2) _ n(3-5), of ?f "dir_flag file ?fl"] assms(3)
      entry_for_file_entry [of ?f name ?fl] n(2) z
    by (intro exI [of _ "file_entry (dir_flag file ?fl) (name_field ?f name) file extent (get_entry b i)"]) simp
qed

lemma insert_block:
  assumes "block_ok b" "node_ok name file extent" "i = length (block_list b)" "i < 127"
  shows "\<exists>e. entry_for name file extent e \<and> block_ok (insert_entry b i name file extent) \<and>
    continuation (insert_entry b i name file extent) = continuation b \<and>
    block_list (insert_entry b i name file extent) = block_list b @ [(fold_name name, e)]"
proof -
  let ?f = "take 128 (drop (entry_off i + 4) b)"
  have lf: "length ?f = 128" using assms(4) block_okD(1) [OF assms(1)] by (simp add: entry_off_def)
  have n: "peek name \<noteq> 0" "strlen name < 128" "fe_lbapos file < W64" "fe_size file < W64" "extent < W64"
    using assms(2) by (simp_all add: node_ok_def)
  have i: "i \<le> length (block_list b)" using assms(3) by simp
  have e: "insert_entry b i name file extent =
      memcpy_at (entry_off i) (entry_bytes (dir_flag file 0) (name_field ?f name) file extent) b"
    by (simp add: insert_entry_def RFS_MAX_NAME_def)
  have "entry_for name file extent (file_entry (dir_flag file 0) (name_field ?f name) file extent (get_entry b i))"
    by (rule entry_for_file_entry [OF lf n(2)]) simp
  then show ?thesis
    unfolding e using write_slot [OF assms(1) i assms(4) n(1,2) lf n(3-5), of "dir_flag file 0"] assms(3)
    by (intro exI [of _ "file_entry (dir_flag file 0) (name_field ?f name) file extent (get_entry b i)"]) simp
qed

lemma fst_update_same: "i < length xs \<Longrightarrow> fst (xs ! i) = k \<Longrightarrow> map fst (xs[i := (k, v)]) = map fst xs"
  by (metis fst_conv list_update_id map_update nth_map)

lemma dir_update:
  assumes ok: "dir_ok vs t first ss" and ss: "ss = ss1 @ s # ss2"
    and vs': "\<forall>x\<in>set ss1 \<union> set ss2. dblock vs' x = dblock vs x"
    and b': "block_ok (dblock vs' s)" "continuation (dblock vs' s) = continuation (dblock vs s)"
  shows "chain vs' t first ss" "dir_list vs' ss = dir_list vs ss1 @ block_list (dblock vs' s) @ dir_list vs ss2"
    "dir_list vs ss = dir_list vs ss1 @ block_list (dblock vs s) @ dir_list vs ss2"
  using chain_put [of vs t first ss1 s ss2 vs'] ok ss vs' b' by (auto simp: dir_ok_def)

lemma dir_update_entry:
  assumes ok: "dir_ok vs t first ss" and ss: "ss = ss1 @ s # ss2"
    and vs': "\<forall>x\<in>set ss1 \<union> set ss2. dblock vs' x = dblock vs x"
    and b': "block_ok (dblock vs' s)" "continuation (dblock vs' s) = continuation (dblock vs s)"
    and upd: "block_list (dblock vs' s) = (block_list (dblock vs s))[i := (k, e)]"
    and first: "dir_map vs ss1 k = None" "i < length (block_list (dblock vs s))" "fst (block_list (dblock vs s) ! i) = k"
      "\<And>j. j < i \<Longrightarrow> fst (block_list (dblock vs s) ! j) \<noteq> k"
  shows "dir_ok vs' t first ss \<and> dir_map vs' ss = (dir_map vs ss)(k \<mapsto> e)"
proof -
  note d = dir_update [OF ok ss vs' b']
  have "map fst (dir_list vs' ss) = map fst (dir_list vs ss)"
    unfolding d(2,3) upd using fst_update_same [OF first(2,3), of e] by simp
  then have "dir_ok vs' t first ss" using ok d(1) unfolding dir_ok_def by simp
  moreover have "dir_map vs' ss = (dir_map vs ss)(k \<mapsto> e)"
    unfolding dir_map_def d(2,3) upd using map_of_update_first [OF first(2-4), of e] first(1)
    by (auto simp: dir_map_def map_add_def split: option.splits)
  ultimately show ?thesis by blast
qed

lemma dir_insert_entry:
  assumes ok: "dir_ok vs t first ss" and ss: "ss = ss1 @ s # ss2"
    and vs': "\<forall>x\<in>set ss1 \<union> set ss2. dblock vs' x = dblock vs x"
    and b': "block_ok (dblock vs' s)" "continuation (dblock vs' s) = continuation (dblock vs s)"
    and ins: "block_list (dblock vs' s) = block_list (dblock vs s) @ [(k, e)]"
    and new: "dir_map vs ss k = None"
  shows "dir_ok vs' t first ss \<and> dir_map vs' ss = (dir_map vs ss)(k \<mapsto> e)"
proof -
  note d = dir_update [OF ok ss vs' b']
  have k: "k \<notin> set (map fst (dir_list vs ss))" using new by (simp add: dir_map_def map_of_eq_None_iff)
  then have "distinct (map fst (dir_list vs' ss))"
    using ok unfolding dir_ok_def d(2,3) ins by auto
  then have "dir_ok vs' t first ss" using ok d(1) unfolding dir_ok_def by simp
  moreover have "dir_map vs' ss = (dir_map vs ss)(k \<mapsto> e)"
    using new unfolding dir_map_def d(2,3) ins
    by (auto simp: map_add_def split: option.splits)
  ultimately show ?thesis by blast
qed

lemma map_of_remove:
  assumes "distinct (map fst (xs @ (k, v) # ys))"
  shows "map_of (xs @ ys) = (map_of (xs @ (k, v) # ys))(k := None)"
proof -
  have "map_of xs k = None" "map_of ys k = None" using assms by (auto simp: map_of_eq_None_iff)
  then show ?thesis by (auto simp: map_add_def split: option.splits)
qed

lemma dir_remove_entry:
  assumes ok: "dir_ok vs t first ss" and ss: "ss = ss1 @ s # ss2"
    and vs': "\<forall>x\<in>set ss1 \<union> set ss2. dblock vs' x = dblock vs x"
    and b': "block_ok (dblock vs' s)" "continuation (dblock vs' s) = continuation (dblock vs s)"
    and rem: "block_list (dblock vs' s) = take i (block_list (dblock vs s)) @ drop (i + 1) (block_list (dblock vs s))"
    and i: "i < length (block_list (dblock vs s))" "fst (block_list (dblock vs s) ! i) = k"
  shows "dir_ok vs' t first ss \<and> dir_map vs ss k \<noteq> None \<and> dir_map vs' ss = (dir_map vs ss)(k := None)"
proof -
  note d = dir_update [OF ok ss vs' b']
  let ?B = "block_list (dblock vs s)"
  obtain v where v: "?B ! i = (k, v)" using i(2) by (cases "?B ! i") auto
  have l: "dir_list vs ss = (dir_list vs ss1 @ take i ?B) @ (k, v) # (drop (i + 1) ?B @ dir_list vs ss2)"
    unfolding d(3) using id_take_nth_drop [OF i(1)] v by simp
  have l': "dir_list vs' ss = (dir_list vs ss1 @ take i ?B) @ (drop (i + 1) ?B @ dir_list vs ss2)"
    unfolding d(2) rem by simp
  have dist: "distinct (map fst (dir_list vs ss))" using ok by (simp add: dir_ok_def)
  then have "distinct (map fst (dir_list vs' ss))" unfolding l l' by auto
  then have "dir_ok vs' t first ss" using ok d(1) unfolding dir_ok_def by simp
  moreover have "dir_map vs' ss = (dir_map vs ss)(k := None)"
    unfolding dir_map_def l l' by (rule map_of_remove) (use dist l in simp)
  moreover have "dir_map vs ss k \<noteq> None" unfolding dir_map_def l by (auto simp: map_of_eq_None_iff)
  ultimately show ?thesis by blast
qed

end
