(* ===== verification/RfsDirMap.thy ===== *)
theory RfsDirMap
  imports RfsDirSpec
begin

text \<open>
  The directory operations on a volume: the invariant \<open>dir_vol\<close> relates a directory, the free space map and the
  caches, and the operations of \<^theory_text>\<open>RfsDir\<close> keep it while they refine the operations on the abstract map.
\<close>

section \<open>A fresh block and a longer chain\<close>

lemma le_bytes_0: "le_bytes n 0 = replicate n 0"
  by (induction n) simp_all

lemma take_drop_replicate: "take n (drop k (replicate m x)) = replicate (min n (m - k)) x"
  by simp

lemma fresh_block_ok:
  assumes "length title = 128"
  shows "block_ok (fresh_block title p)" "block_list (fresh_block title p) = []" "continuation (fresh_block title p) = 0"
proof -
  let ?x = "le_bytes 4 (unat RFS_FLAG_DIR_START) @ title @ le_bytes 8 p @ le_bytes 8 RFS_DEFAULT_DIR_SIZE @ le_bytes 8 0"
  let ?z = "replicate DIR_BLOCK_BYTES (0 :: byte)" and ?b = "fresh_block title p"
  have lz: "length ?z = 32768" by (simp add: DIR_BLOCK_BYTES_def RFS_SECTOR_SIZE_def RFS_DEFAULT_DIR_SIZE_def)
  have lx: "length ?x = 156" using assms by simp
  have fits: "0 + length ?x \<le> length ?z" unfolding lx lz by simp
  have b: "?b = memcpy_at 0 ?x ?z" by (simp add: fresh_block_def)
  have lb: "length ?b = 32768" unfolding b using fits lz by simp
  have ins: "take n (drop k ?b) = take n (drop k ?x)" if "k + n \<le> 156" for k n
    unfolding b using memcpy_inside [OF fits, of k n] that lx by simp
  have "u32_at ?b 0 = RFS_FLAG_DIR_START"
    using ins [of 0 4] of_le_le_bytes [of 4 "unat RFS_FLAG_DIR_START"] by (simp add: u32_at_def RFS_FLAG_DIR_START_def)
  moreover have "u64_at ?b 140 = RFS_DEFAULT_DIR_SIZE"
    by (rule le_field_8) (use ins [of 140 8] assms in \<open>simp_all add: RFS_DEFAULT_DIR_SIZE_def W64_def\<close>)
  ultimately have sok: "start_ok ?b" by (simp add: start_ok_def RFS_FLAG_DIR_START_def)
  show "continuation ?b = 0"
    unfolding continuation_def by (rule le_field_8) (use ins [of 148 8] assms in simp_all)
  have "slot_at ?b i = replicate 256 0" if "i < 127" for i
  proof -
    have "drop (entry_off i) ?b = drop (entry_off i) ?z"
      unfolding b by (rule memcpy_behind [OF fits]) (simp add: assms entry_off_def)
    then have "slot_at ?b i = take 256 (drop (entry_off i) ?z)" by (simp add: slot_at_def)
    also have "\<dots> = replicate 256 0"
      unfolding take_drop_replicate using that by (simp add: DIR_BLOCK_BYTES_def RFS_SECTOR_SIZE_def RFS_DEFAULT_DIR_SIZE_def entry_off_def)
    finally show ?thesis .
  qed
  moreover have "\<not> live (replicate 256 0)" by (simp add: live_def peek_def numeral_eq_Suc)
  ultimately have "\<not> live (slots ?b ! i)" if "i < 127" for i using that by (simp add: slots_nth)
  then show "block_ok ?b" "block_list ?b = []" using block_okI [OF lb sok, of 0] by simp_all
qed

lemma link_block:
  assumes "block_ok b" "x < W64"
  shows "block_ok (memcpy_at 148 (le_bytes 8 x) b)" "block_list (memcpy_at 148 (le_bytes 8 x) b) = block_list b"
    "continuation (memcpy_at 148 (le_bytes 8 x) b) = x"
proof -
  let ?b = "memcpy_at 148 (le_bytes 8 x) b"
  have lb: "length b = 32768" by (rule block_okD(1) [OF assms(1)])
  have fits: "148 + length (le_bytes 8 x) \<le> length b" using lb by simp
  have "slot_at ?b i = slot_at b i" for i
    unfolding slot_at_def using memcpy_behind [OF fits, of "entry_off i"] by (simp add: entry_off_def)
  then have "slots ?b = slots b" by (simp add: slots_def)
  moreover have "start_ok ?b = start_ok b"
    using memcpy_before [OF fits, of 0 4] memcpy_before [OF fits, of 140 8] by (simp add: start_ok_def u32_at_def u64_at_def)
  ultimately show "block_ok ?b" "block_list ?b = block_list b"
    using assms(1) lb fits by (simp_all add: block_ok_def block_list_def)
  show "continuation ?b = x"
    unfolding continuation_def by (rule le_field_8) (use memcpy_inside [OF fits, of 0 8] assms(2) in simp_all)
qed

lemma chain_extend:
  assumes "chain vs t first (ss @ [s])" "\<And>x. x \<in> set ss \<Longrightarrow> dblock vs' x = dblock vs x"
    "block_ok (dblock vs' s)" "continuation (dblock vs' s) = new" "new \<noteq> 0" "new + 64 \<le> t"
    "block_ok (dblock vs' new)" "continuation (dblock vs' new) = 0"
  shows "chain vs' t first (ss @ [s, new])"
  using assms by (induction ss arbitrary: first) auto

section \<open>The invariant\<close>

abbreviation map_start :: "'d rfs \<Rightarrow> nat" where
  "map_start r \<equiv> ds_map_start (the (rfs_desc r))"

definition clear_of_map :: "'d rfs \<Rightarrow> nat \<Rightarrow> bool" where
  "clear_of_map r s \<longleftrightarrow> s + 64 \<le> map_start r \<or> map_start r + rfs_l1_groups r \<le> s"

definition dir_vol :: "('d \<Rightarrow> bool) \<Rightarrow> nat \<Rightarrow> ('d \<Rightarrow> nat \<Rightarrow> byte list) \<Rightarrow> nat \<Rightarrow> nat list \<Rightarrow> 'd rfs \<Rightarrow> bool" where
  "dir_vol ok nblk sector first ss r \<longleftrightarrow> vol_ok ok nblk r \<and> mirror sector r \<and>
     dir_ok (vsec sector r) (rfs_total r) first ss \<and> used sector r 0 \<and>
     (\<forall>g<rfs_l1_groups r. used sector r (map_start r + g)) \<and>
     (\<forall>s\<in>set ss. clear_of_map r s \<and> (\<forall>k. s \<le> k \<and> k < s + 64 \<longrightarrow> used sector r k))"

lemma mirror_cong:
  assumes "mirror sector r" "r' = r\<lparr>rfs_dev := d, rfs_requests := q\<rparr>"
    "\<And>g. g < rfs_l1_groups r \<Longrightarrow> vsec sector r' (map_start r + g) = vsec sector r (map_start r + g)"
  shows "mirror sector r'" "\<And>k. k < rfs_total r \<Longrightarrow> used sector r' k = used sector r k"
proof -
  have m: "map_sec sector r' g = map_sec sector r g" if "g < rfs_l1_groups r" for g
    using assms(2,3) that by (simp add: map_sec_def)
  have geom: "geom_ok r" using assms(1) by (simp add: mirror_def)
  have eqs: "rfs_l1_groups r' = rfs_l1_groups r" "rfs_l1_free r' = rfs_l1_free r" "rfs_l1_not_full r' = rfs_l1_not_full r"
    "rfs_l1_all_free r' = rfs_l1_all_free r" "\<And>g. rfs_group_size r' g = rfs_group_size r g"
    using assms(2) by (simp_all add: rfs_group_size_def Let_def)
  have "l1_ok sector r'"
    using assms(1) m unfolding mirror_def l1_ok_def eqs by metis
  moreover have "geom_ok r' = geom_ok r" "l2_ok r' = l2_ok r" unfolding assms(2) by (simp_all add: geom_ok_def l2_ok_def)
  ultimately show "mirror sector r'" using assms(1) by (simp add: mirror_def)
  show "used sector r' k = used sector r k" if "k < rfs_total r" for k
    using m [of "k div 4096"] geom that by (auto simp: used_def geom_ok_def)
qed

lemma stored_mirror:
  assumes "stored ok sector r r' s b" "length b = 32768" "clear_of_map r s" "mirror sector r"
  shows "mirror sector r'" "\<And>k. k < rfs_total r \<Longrightarrow> used sector r' k = used sector r k"
    "rfs_l1_groups r' = rfs_l1_groups r" "\<And>x. clear_of_map r' x = clear_of_map r x" "map_start r' = map_start r"
proof -
  obtain d q where d: "r' = r\<lparr>rfs_dev := d, rfs_requests := q\<rparr>" "vsec sector r' = put_sectors 512 (vsec sector r) s b"
    using assms(1) by (auto simp: stored_def)
  have "vsec sector r' (map_start r + g) = vsec sector r (map_start r + g)" if "g < rfs_l1_groups r" for g
    using assms(2,3) that unfolding d(2) by (auto simp: put_sectors_def clear_of_map_def)
  then show "mirror sector r'" "\<And>k. k < rfs_total r \<Longrightarrow> used sector r' k = used sector r k"
    using mirror_cong [OF assms(4) d(1)] by blast+
  show "rfs_l1_groups r' = rfs_l1_groups r" "\<And>x. clear_of_map r' x = clear_of_map r x" "map_start r' = map_start r"
    using d(1) by (simp_all add: clear_of_map_def)
qed

lemma map_in_volume: "mirror sector r \<Longrightarrow> g < rfs_l1_groups r \<Longrightarrow> map_start r + g < rfs_total r"
  by (auto simp: mirror_def geom_ok_def)

lemma dir_vol_chain:
  assumes "dir_vol ok nblk sector first ss r" "s \<in> set ss"
  shows "s + 64 \<le> rfs_total r" "clear_of_map r s" "block_ok (dblock (vsec sector r) s)"
  using assms chain_facts [of "vsec sector r" "rfs_total r" first ss s] by (auto simp: dir_vol_def dir_ok_def)

lemma dir_vol_total: "dir_vol ok nblk sector first ss r \<Longrightarrow> 0 < rfs_total r"
proof -
  assume v: "dir_vol ok nblk sector first ss r"
  obtain s where "s \<in> set ss" using v by (cases ss) (auto simp: dir_vol_def dir_ok_def)
  then show ?thesis using dir_vol_chain(1) [OF v] by fastforce
qed

text \<open>What no operation on a mounted volume changes.\<close>

definition steady :: "'d rfs \<Rightarrow> 'd rfs \<Rightarrow> bool" where
  "steady r r' \<longleftrightarrow> rfs_start r' = rfs_start r \<and> rfs_length r' = rfs_length r \<and> rfs_desc r' = rfs_desc r \<and>
     rfs_total r' = rfs_total r \<and> rfs_l1_groups r' = rfs_l1_groups r \<and> rfs_mem r' = rfs_mem r"

lemma steady_intros:
  "touched ok sector r r' \<Longrightarrow> steady r r'" "stored ok sector r r' s b \<Longrightarrow> steady r r'" "frame r r' \<Longrightarrow> steady r r'"
  "wrote ok sector r r' p xs \<Longrightarrow> steady r r'"
  by (auto simp: steady_def touched_def stored_def frame_def wrote_def)

lemma steady_trans: "steady r r1 \<Longrightarrow> steady r1 r2 \<Longrightarrow> steady r r2"
  by (simp add: steady_def)

text \<open>Sectors that belong neither to the map nor to the directory.\<close>

definition outside :: "'d rfs \<Rightarrow> nat list \<Rightarrow> nat \<Rightarrow> bool" where
  "outside r ss k \<longleftrightarrow> \<not> (map_start r \<le> k \<and> k < map_start r + rfs_l1_groups r) \<and> (\<forall>s\<in>set ss. \<not> (s \<le> k \<and> k < s + 64))"

text \<open>Storing a block of the directory keeps everything but the directory itself.\<close>

lemma dir_vol_stored:
  assumes v: "dir_vol ok nblk sector first ss r" "s \<in> set ss" "stored ok sector r r' s b" "length b = 32768"
    and d: "dir_ok (vsec sector r') (rfs_total r) first ss"
  shows "dir_vol ok nblk sector first ss r'"
proof -
  have m: "mirror sector r" "vol_ok ok nblk r" using v(1) by (auto simp: dir_vol_def)
  note c = dir_vol_chain [OF v(1)]
  note s = stored_mirror [OF v(3,4) c(2) [OF v(2)] m(1)] and f = stored_facts [OF v(3) m(2)]
  have "used sector r' k = used sector r k" if "k < rfs_total r" for k using s(2) that by blast
  moreover have "0 < rfs_total r" using c(1) [OF v(2)] by simp
  moreover have "used sector r' k" if "x \<in> set ss" "x \<le> k" "k < x + 64" for x k
    using c(1) [OF that(1)] that s(2) [of k] v(1) by (auto simp: dir_vol_def)
  ultimately show ?thesis
    using v(1) d s(1,3-5) f(1,2) map_in_volume [OF m(1)] unfolding dir_vol_def by auto
qed

lemma dir_vol_touched:
  assumes "dir_vol ok nblk sector first ss r" "touched ok sector r r'"
  shows "dir_vol ok nblk sector first ss r'" "vsec sector r' = vsec sector r"
proof -
  have m: "mirror sector r" "vol_ok ok nblk r" "dir_ok (vsec sector r) (rfs_total r) first ss"
    using assms(1) by (auto simp: dir_vol_def)
  note f = touched_facts [OF assms(2) m(2)]
  then show vs: "vsec sector r' = vsec sector r" by simp
  obtain d q where d: "r' = r\<lparr>rfs_dev := d, rfs_requests := q\<rparr>" using assms(2) by (auto simp: touched_def)
  note c = mirror_cong [OF m(1) d, unfolded vs, OF refl]
  have "0 < rfs_total r" by (rule dir_vol_total [OF assms(1)])
  moreover have "used sector r' k" if "x \<in> set ss" "x \<le> k" "k < x + 64" for x k
    using dir_vol_chain(1) [OF assms(1) that(1)] that c(2) [of k] assms(1) by (auto simp: dir_vol_def)
  ultimately show "dir_vol ok nblk sector first ss r'"
    using assms(1) c f map_in_volume [OF m(1)] d unfolding dir_vol_def by (auto simp: clear_of_map_def)
qed

lemma stored_blocks:
  assumes "stored ok sector r r' s b" "length b = 32768"
  shows "dblock (vsec sector r') s = b" "\<And>x. s + 64 \<le> x \<or> x + 64 \<le> s \<Longrightarrow> dblock (vsec sector r') x = dblock (vsec sector r) x"
    "\<And>k. \<not> (s \<le> k \<and> k < s + 64) \<Longrightarrow> vsec sector r' k = vsec sector r k"
  using assms dblock_put_same [OF assms(2)] dblock_put_other [OF _ assms(2)] by (auto simp: stored_def put_sectors_def)

lemma dir_vol_error: "dir_vol ok nblk sector first ss r \<Longrightarrow> dir_vol ok nblk sector first ss (fs_set_error e r)"
proof -
  have [simp]: "vsec sector (r\<lparr>rfs_error := e\<rparr>) = vsec sector r" for e by (simp add: vsec_def [abs_def])
  have [simp]: "map_sec sector (r\<lparr>rfs_error := e\<rparr>) = map_sec sector r" for e by (simp add: map_sec_def [abs_def])
  have [simp]: "rfs_group_size (r\<lparr>rfs_error := e\<rparr>) g = rfs_group_size r g" for e g by (simp add: rfs_group_size_def Let_def)
  have m: "mirror sector (r\<lparr>rfs_error := e\<rparr>) = mirror sector r" for e
    by (simp add: mirror_def geom_ok_def l1_ok_def l2_ok_def)
  assume "dir_vol ok nblk sector first ss r"
  then show ?thesis unfolding dir_vol_def fs_set_error_def by (simp add: m vol_ok_def used_def clear_of_map_def)
qed

lemma stored_keeps:
  assumes "dir_vol ok nblk sector first ss r" "s \<in> set ss" "stored ok sector r r' s b" "length b = 32768"
  shows "\<forall>k. k < rfs_total r \<and> used sector r k \<longrightarrow> used sector r' k" "steady r r'"
    "\<forall>k. used sector r k \<and> outside r ss k \<longrightarrow> outside r' ss k \<and> vsec sector r' k = vsec sector r k"
proof -
  have m: "mirror sector r" using assms(1) by (simp add: dir_vol_def)
  note s = stored_mirror [OF assms(3,4) dir_vol_chain(2) [OF assms(1,2)] m]
  show "\<forall>k. k < rfs_total r \<and> used sector r k \<longrightarrow> used sector r' k" using s(2) by simp
  show st: "steady r r'" by (rule steady_intros(2) [OF assms(3)])
  show "\<forall>k. used sector r k \<and> outside r ss k \<longrightarrow> outside r' ss k \<and> vsec sector r' k = vsec sector r k"
    using stored_blocks(3) [OF assms(3,4)] assms(2) s(3,5) by (auto simp: outside_def)
qed

section \<open>Looking up\<close>

context reliable_disk
begin

lemma locate_refines:
  assumes "dir_vol ok nblk sector first ss r" "dir_sector r tree = first" "peek name \<noteq> 0"
  shows "\<exists>res r'. rfs_locate_entry dv r tree (Some name) = (res, r') \<and> touched ok sector r r' \<and>
    map_option (\<lambda>(s, i, e). e) res = dir_map (vsec sector r) ss (fold_name name)"
proof -
  have "vol_ok ok nblk r" "chain (vsec sector r) (rfs_total r) first ss" "0 + length ss \<le> WALK_LIMIT + 1"
    using assms(1) by (auto simp: dir_vol_def dir_ok_def)
  from locate_walk_ok [OF this, of name] obtain res r' where l: "locate_walk dv name r first 0 = (res, r')"
    "touched ok sector r r'"
    "case res of None \<Rightarrow> dir_map (vsec sector r) ss (fold_name name) = None
     | Some (s, i, e) \<Rightarrow> dir_map (vsec sector r) ss (fold_name name) = Some e \<and> s \<in> set ss \<and> i < 127 \<and>
         e = get_entry (dblock (vsec sector r) s) i" by blast
  have "rfs_locate_entry dv r tree (Some name) = (res, r')"
    using assms(2,3) l(1) by (simp add: rfs_locate_entry_def)
  moreover have "map_option (\<lambda>(s, i, e). e) res = dir_map (vsec sector r) ss (fold_name name)"
    using l(3) by (auto split: option.splits)
  ultimately show ?thesis using l(2) by blast
qed

section \<open>Deleting\<close>

lemma delete_refines:
  assumes v: "dir_vol ok nblk sector first ss r"
    and node: "fe_directory file = Some tree" "fe_filename file = Some name" "dir_sector r tree = first" "peek name \<noteq> 0"
  shows "\<exists>res r'. rfs_delete_directory_entry dv r file = (res, r') \<and> dir_vol ok nblk sector first ss r' \<and>
    (res = None \<longleftrightarrow> dir_map (vsec sector r) ss (fold_name name) = None) \<and>
    dir_map (vsec sector r') ss = (dir_map (vsec sector r) ss)(fold_name name := None) \<and>
    (\<forall>k. k < rfs_total r \<and> used sector r k \<longrightarrow> used sector r' k) \<and> steady r r' \<and>
    (\<forall>k. used sector r k \<and> outside r ss k \<longrightarrow> outside r' ss k \<and> vsec sector r' k = vsec sector r k)"
proof -
  let ?vs = "vsec sector r" and ?k = "fold_name name"
  have w: "vol_ok ok nblk r" "chain ?vs (rfs_total r) first ss" "0 + length ss \<le> WALK_LIMIT + 1" "dir_ok ?vs (rfs_total r) first ss"
    using v by (auto simp: dir_vol_def dir_ok_def)
  obtain ds where "rfs_desc r = Some ds" using v by (auto simp: dir_vol_def mirror_def geom_ok_def)
  then have e: "rfs_delete_directory_entry dv r file = delete_walk dv name r first 0"
    using node by (simp add: rfs_delete_directory_entry_def)
  obtain res r' where d: "delete_walk dv name r first 0 = (res, r')"
    "case res of None \<Rightarrow> touched ok sector r r' \<and> dir_map ?vs ss ?k = None
     | Some _ \<Rightarrow> (\<exists>ss1 s ss2 i. ss = ss1 @ s # ss2 \<and> scan_slots (dblock ?vs s) name 0 = Match i \<and>
         stored ok sector r r' s (remove_entry (dblock ?vs s) i (length (block_list (dblock ?vs s)) - 1)))"
    using delete_walk_ok [OF w(1-3), of name] by blast
  show ?thesis
  proof (cases res)
    case None
    then have t: "touched ok sector r r'" "dir_map ?vs ss ?k = None" using d(2) by auto
    have "dir_vol ok nblk sector first ss r'" "vsec sector r' = ?vs" by (rule dir_vol_touched [OF v t(1)])+
    moreover have "steady r r'" by (rule steady_intros(1) [OF t(1)])
    ultimately show ?thesis using e d(1) None t(2)
      by (auto simp: fun_upd_idem steady_def used_def map_sec_def outside_def)
  next
    case (Some u)
    then obtain ss1 s ss2 i where s: "ss = ss1 @ s # ss2" "scan_slots (dblock ?vs s) name 0 = Match i"
      "stored ok sector r r' s (remove_entry (dblock ?vs s) i (length (block_list (dblock ?vs s)) - 1))"
      using d(2) by auto
    have ss: "s \<in> set ss" using s(1) by simp
    note b = dir_vol_chain(3) [OF v ss]
    have "scan_result (dblock ?vs s) name 0 (Match i)" using scan_slots_ok [OF b, of 0 name] s(2) by simp
    then have i: "i < length (block_list (dblock ?vs s))" "fst (block_list (dblock ?vs s) ! i) = ?k"
      by (auto simp: scan_result_def Let_def)
    note rm = remove_ok [OF b i(1)]
    note st = stored_blocks [OF s(3) block_okD(1) [OF rm(1)]]
    have other: "\<forall>x\<in>set ss1 \<union> set ss2. dblock (vsec sector r') x = dblock ?vs x"
      using st(2) apart_middle [of ss1 s ss2] w(4) s(1) by (auto simp: dir_ok_def)
    have "dir_ok (vsec sector r') (rfs_total r) first ss \<and> dir_map ?vs ss ?k \<noteq> None \<and>
        dir_map (vsec sector r') ss = (dir_map ?vs ss)(?k := None)"
      by (rule dir_remove_entry [OF w(4) s(1) other _ _ _ i]) (simp_all only: st(1) rm)
    then show ?thesis
      using e d(1) Some dir_vol_stored [OF v ss s(3) block_okD(1) [OF rm(1)]] stored_keeps [OF v ss s(3) block_okD(1) [OF rm(1)]]
      by auto
  qed
qed

section \<open>Inserting and updating\<close>

lemma last_block_ok:
  assumes "vol_ok ok nblk r" "chain (vsec sector r) (rfs_total r) cur (ss @ [s])" "length ss < fuel"
  shows "\<exists>r'. last_block dv fuel r cur = (Some (s, dblock (vsec sector r) s), r') \<and> touched ok sector r r'"
  using assms
proof (induction ss arbitrary: r cur fuel)
  case Nil
  then obtain k where k: "fuel = Suc k" by (cases fuel) auto
  obtain r1 where "read_dir_block dv r s = (Some (dblock (vsec sector r) s), r1)" "touched ok sector r r1"
    using reads_block [OF Nil(1)] Nil(2) by auto
  then show ?case using k Nil(2) by auto
next
  case (Cons x ss)
  then obtain k where k: "fuel = Suc k" "length ss < k" by (cases fuel) auto
  have c: "cur = x" "x + 64 \<le> rfs_total r" "chain (vsec sector r) (rfs_total r) (continuation (dblock (vsec sector r) x)) (ss @ [s])"
    using Cons.prems(2) by auto
  obtain r1 where r1: "read_dir_block dv r x = (Some (dblock (vsec sector r) x), r1)" "touched ok sector r r1"
    using reads_block [OF Cons.prems(1) c(2)] by auto
  note f = touched_facts [OF r1(2) Cons.prems(1)]
  have nz: "continuation (dblock (vsec sector r) x) \<noteq> 0" using c(3) by (cases ss) auto
  obtain r2 where "last_block dv k r1 (continuation (dblock (vsec sector r) x)) = (Some (s, dblock (vsec sector r) s), r2)"
    "touched ok sector r1 r2"
    using Cons.IH [OF f(1), of "continuation (dblock (vsec sector r) x)" k] c(3) k(2) f(2,3) by auto
  then show ?case using k(1) c(1) r1 nz touched_trans [OF r1(2)] by auto
qed

lemma mark_succeeds:
  assumes "vol_ok ok nblk r" "mirror sector r" "start + len \<le> rfs_total r" "0 < len"
  shows "\<exists>r'. rfs_mark_extent dv r start len u = (Some (), r') \<and> vol_ok ok nblk r' \<and> mirror sector r' \<and> frame r r' \<and>
    (\<forall>k. \<not> (map_start r \<le> k \<and> k < map_start r + rfs_l1_groups r) \<longrightarrow> vsec sector r' k = vsec sector r k) \<and>
    (\<forall>k<rfs_total r. used sector r' k = (if start \<le> k \<and> k < start + len then u else used sector r k))"
proof -
  have st: "start < rfs_total r" using assms(3,4) by simp
  have w: "start + len < W64" using assms(1,3) disk_size [of "rfs_dev r"] by (simp add: vol_ok_def)
  have geom: "geom_ok r" using assms(2) by (simp add: mirror_def)
  have "0 < rfs_l1_groups r" using group_of_sector(1) [OF geom st] by simp
  then have "rfs_l2_groups r \<noteq> 0" using super_of_group [OF geom] by fastforce
  then have "rfs_mark_extent dv r start len u = mark_loop dv r u start len"
    using geom st w assms(3,4) unfolding rfs_mark_extent_def geom_ok_def by (auto simp: add64_nowrap)
  then have "fst (rfs_mark_extent dv r start len u) \<noteq> None" using mark_loop_succeeds [OF assms(1-3)] by simp
  moreover have "min len (rfs_total r - start) = len" using assms(3) by simp
  ultimately show ?thesis using mark_extent_ok [OF assms(1,2) st assms(4) w, of u] by auto
qed

end

text \<open>A run of free sectors meets neither the directory nor the map.\<close>

lemma free_run_apart:
  assumes "dir_vol ok nblk sector first ss r" "\<And>j. new \<le> j \<and> j < new + 64 \<Longrightarrow> \<not> used sector r j" "new + 64 \<le> rfs_total r"
  shows "new \<noteq> 0" "clear_of_map r new" "\<And>s. s \<in> set ss \<Longrightarrow> s + 64 \<le> new \<or> new + 64 \<le> s"
proof -
  show "new \<noteq> 0" using assms(1) assms(2) [of 0] by (auto simp: dir_vol_def)
  show "clear_of_map r new"
  proof (rule ccontr)
    assume "\<not> clear_of_map r new"
    then have b: "map_start r < new + 64" "new < map_start r + rfs_l1_groups r" by (auto simp: clear_of_map_def)
    define j where "j = max new (map_start r)"
    have "rfs_l1_groups r = (rfs_total r + 4095) div 4096" using assms(1) by (simp add: dir_vol_def mirror_def geom_ok_def)
    then have "0 < rfs_l1_groups r" using assms(3) by (simp add: div_greater_zero_iff)
    then have "j - map_start r < rfs_l1_groups r" "j = map_start r + (j - map_start r)" using b by (auto simp: j_def)
    then have "used sector r j" using assms(1) unfolding dir_vol_def by metis
    moreover have "new \<le> j \<and> j < new + 64" using b(1) by (auto simp: j_def)
    ultimately show False using assms(2) by blast
  qed
  show "s + 64 \<le> new \<or> new + 64 \<le> s" if "s \<in> set ss" for s
  proof (rule ccontr)
    assume "\<not> ?thesis"
    then have b: "new < s + 64" "s < new + 64" by auto
    define j where "j = max new s"
    have "used sector r j" using assms(1) that b unfolding dir_vol_def j_def by auto
    moreover have "new \<le> j \<and> j < new + 64" using b(2) by (auto simp: j_def)
    ultimately show False using assms(2) by blast
  qed
qed

lemma stored_others:
  assumes "stored ok sector r r' s b" "length b = 32768" "dir_ok (vsec sector r) t first (ss1 @ s # ss2)"
  shows "\<forall>x\<in>set ss1 \<union> set ss2. dblock (vsec sector r') x = dblock (vsec sector r) x"
  using stored_blocks(2) [OF assms(1,2)] apart_middle [of ss1 s ss2] assms(3) by (auto simp: dir_ok_def)

lemma dir_vol_marked:
  assumes v: "dir_vol ok nblk sector first ss r" and m: "vol_ok ok nblk r'" "mirror sector r'" "frame r r'"
    and vs: "\<And>k. \<not> (map_start r \<le> k \<and> k < map_start r + rfs_l1_groups r) \<Longrightarrow> vsec sector r' k = vsec sector r k"
    and u: "\<And>k. k < rfs_total r \<Longrightarrow> used sector r k \<Longrightarrow> k = 0 \<or> \<not> outside r ss k \<Longrightarrow> used sector r' k"
  shows "dir_vol ok nblk sector first ss r'" "\<And>s. s \<in> set ss \<Longrightarrow> dblock (vsec sector r') s = dblock (vsec sector r) s"
proof -
  have mr: "mirror sector r" using v by (simp add: dir_vol_def)
  show db: "dblock (vsec sector r') s = dblock (vsec sector r) s" if "s \<in> set ss" for s
    using dir_vol_chain(2) [OF v that] vs by (intro dblock_cong) (auto simp: clear_of_map_def)
  have d: "dir_ok (vsec sector r) (rfs_total r) first ss" using v by (simp add: dir_vol_def)
  then have "dir_ok (vsec sector r') (rfs_total r) first ss"
    using chain_cong [of "vsec sector r" "rfs_total r" first ss "vsec sector r'"] db by (auto simp: dir_ok_def)
  moreover have "0 < rfs_total r" by (rule dir_vol_total [OF v])
  moreover have "used sector r' k" if "x \<in> set ss" "x \<le> k" "k < x + 64" for x k
    using dir_vol_chain(1) [OF v that(1)] that u [of k] v by (auto simp: dir_vol_def outside_def)
  moreover have "used sector r' (map_start r + g)" if "g < rfs_l1_groups r" for g
    using u [of "map_start r + g"] map_in_volume [OF mr that] v that by (auto simp: dir_vol_def outside_def)
  moreover have "used sector r' 0" using u [of 0] v \<open>0 < rfs_total r\<close> by (simp add: dir_vol_def)
  ultimately show "dir_vol ok nblk sector first ss r'"
    using v m unfolding dir_vol_def frame_def by (auto simp: clear_of_map_def)
qed

context reliable_disk
begin

text \<open>The last step of the insertion into a full directory: link a new block and store it.\<close>

lemma link_new_block:
  assumes v: "dir_vol ok nblk sector first ss r" and len: "length ss \<le> WALK_LIMIT" and node: "node_ok name file extent"
    and new: "new \<noteq> 0" "new + 64 \<le> rfs_total r" "clear_of_map r new" "\<And>s. s \<in> set ss \<Longrightarrow> s + 64 \<le> new \<or> new + 64 \<le> s"
    and u: "\<And>k. new \<le> k \<Longrightarrow> k < new + 64 \<Longrightarrow> used sector r k"
    and absent: "dir_map (vsec sector r) ss (fold_name name) = None"
    and s: "ss = ss1 @ [s]" and b: "b = insert_entry (fresh_block (replicate RFS_MAX_NAME 0) first) 0 name file extent"
  shows "\<exists>r1 r' e. write_dir_block dv r s (memcpy_at 148 (le_bytes 8 new) (dblock (vsec sector r) s)) = (Some (), r1) \<and>
    write_dir_block dv r1 new b = (Some (), r') \<and> dir_vol ok nblk sector first (ss @ [new]) r' \<and> entry_for name file extent e \<and>
    dir_map (vsec sector r') (ss @ [new]) = (dir_map (vsec sector r) ss)(fold_name name \<mapsto> e) \<and>
    (\<forall>k. \<not> (s \<le> k \<and> k < s + 64) \<and> \<not> (new \<le> k \<and> k < new + 64) \<longrightarrow> vsec sector r' k = vsec sector r k) \<and>
    (\<forall>k<rfs_total r. used sector r' k = used sector r k) \<and> steady r r'"
proof -
  let ?vs = "vsec sector r" and ?k = "fold_name name"
  let ?lb = "memcpy_at 148 (le_bytes 8 new) (dblock ?vs s)"
  have m: "mirror sector r" "vol_ok ok nblk r" and d: "dir_ok ?vs (rfs_total r) first ss" using v by (auto simp: dir_vol_def)
  have ss: "s \<in> set ss" using s by simp
  note c = dir_vol_chain [OF v ss]
  have nw: "new < W64" using new(2) m(2) disk_size [of "rfs_dev r"] by (simp add: vol_ok_def)
  note lk = link_block [OF c(3) nw]
  have l1: "length ?lb = 32768" by (rule block_okD(1) [OF lk(1)])
  note fr = fresh_block_ok [of "replicate RFS_MAX_NAME 0" first, unfolded length_replicate RFS_MAX_NAME_def, OF refl]
  obtain e where e: "entry_for name file extent e" "block_ok b" "continuation b = 0" "block_list b = [(?k, e)]"
    using insert_block [OF fr(1) node, of 0] fr(2,3) unfolding b RFS_MAX_NAME_def by auto
  have l2: "length b = 32768" by (rule block_okD(1) [OF e(2)])
  obtain r1 where r1: "write_dir_block dv r s ?lb = (Some (), r1)" "stored ok sector r r1 s ?lb"
    using writes_block [OF m(2) c(1) l1] by blast
  note f1 = stored_facts [OF r1(2) m(2)] and s1 = stored_mirror [OF r1(2) l1 c(2) m(1)] and b1 = stored_blocks [OF r1(2) l1]
  obtain r2 where r2: "write_dir_block dv r1 new b = (Some (), r2)" "stored ok sector r1 r2 new b"
    using writes_block [OF f1(1), of new b] new(2) f1(2) l2 by auto
  have cm1: "clear_of_map r1 new" using s1(4) new(3) by simp
  note f2 = stored_facts [OF r2(2) f1(1)] and s2 = stored_mirror [OF r2(2) l2 cm1 s1(1)] and b2 = stored_blocks [OF r2(2) l2]
  let ?vs2 = "vsec sector r2"
  have sn: "s + 64 \<le> new \<or> new + 64 \<le> s" by (rule new(4) [OF ss])
  have others: "dblock ?vs2 x = dblock ?vs x" if "x \<in> set ss1" for x
  proof -
    have "s + 64 \<le> x \<or> x + 64 \<le> s" using apart_middle [of ss1 s "[]" x] d that s by (simp add: dir_ok_def)
    moreover have "new + 64 \<le> x \<or> x + 64 \<le> new" using new(4) [of x] that s by auto
    ultimately show ?thesis using b1(2) b2(2) by simp
  qed
  have ls: "dblock ?vs2 s = ?lb" using b1(1) b2(2) [of s] sn by auto
  have nb: "dblock ?vs2 new = b" by (rule b2(1))
  have "chain ?vs2 (rfs_total r) first (ss1 @ [s, new])"
    by (rule chain_extend [of ?vs]) (use d s others ls nb lk e new in \<open>simp_all add: dir_ok_def\<close>)
  moreover
  have dl: "dir_list ?vs2 (ss @ [new]) = dir_list ?vs ss @ [(?k, e)]"
  proof -
    have "dir_list ?vs2 ss1 = dir_list ?vs ss1" unfolding dir_list_def using others by (metis (mono_tags, lifting) map_cong)
    then show ?thesis using s ls nb lk(2) e(4) by simp
  qed
  moreover have "?k \<notin> fst ` set (dir_list ?vs ss)" using absent by (simp add: dir_map_def map_of_eq_None_iff)
  then have "distinct (map fst (dir_list ?vs2 (ss @ [new])))" using d unfolding dl dir_ok_def by simp
  moreover have "apart (ss @ [new])" using d new(4) by (auto simp: dir_ok_def apart_append)
  ultimately have dok: "dir_ok ?vs2 (rfs_total r) first (ss @ [new])"
    using s len unfolding dir_ok_def by simp
  have use: "used sector r2 k = used sector r k" if "k < rfs_total r" for k
    using s1(2) [OF that] s2(2) [of k] that f1(2) by simp
  have "dir_vol ok nblk sector first (ss @ [new]) r2"
    unfolding dir_vol_def
  proof (intro conjI)
    show "vol_ok ok nblk r2" "mirror sector r2" by (rule f2(1) s2(1))+
    show "dir_ok ?vs2 (rfs_total r2) first (ss @ [new])" using dok f1(2) f2(2) by simp
    show "used sector r2 0" using use [of 0] v c(1) by (simp add: dir_vol_def)
    show "\<forall>g<rfs_l1_groups r2. used sector r2 (map_start r2 + g)"
      using use map_in_volume [OF m(1)] v s1(3,5) s2(3,5) by (simp add: dir_vol_def)
    show "\<forall>x\<in>set (ss @ [new]). clear_of_map r2 x \<and> (\<forall>k. x \<le> k \<and> k < x + 64 \<longrightarrow> used sector r2 k)"
    proof
      fix x assume x: "x \<in> set (ss @ [new])"
      then have "x + 64 \<le> rfs_total r" using dir_vol_chain(1) [OF v] new(2) by auto
      moreover have "clear_of_map r x \<and> (\<forall>k. x \<le> k \<and> k < x + 64 \<longrightarrow> used sector r k)"
        using x v new(3) u by (auto simp: dir_vol_def)
      ultimately show "clear_of_map r2 x \<and> (\<forall>k. x \<le> k \<and> k < x + 64 \<longrightarrow> used sector r2 k)"
        using use s1(4) s2(4) by auto
    qed
  qed
  moreover have "dir_map ?vs2 (ss @ [new]) = (dir_map ?vs ss)(?k \<mapsto> e)"
    using absent unfolding dir_map_def dl by (auto simp: map_add_def split: option.splits)
  moreover have "\<forall>k. \<not> (s \<le> k \<and> k < s + 64) \<and> \<not> (new \<le> k \<and> k < new + 64) \<longrightarrow> ?vs2 k = ?vs k"
    using b1(3) b2(3) by simp
  moreover have "steady r r2" by (rule steady_trans [OF steady_intros(2) [OF r1(2)] steady_intros(2) [OF r2(2)]])
  ultimately show ?thesis using r1(1) r2(1) e(1) use by blast
qed

lemma reads_touched: "reads r r' \<Longrightarrow> touched ok sector r r'"
  by (auto simp: reads_def intro: touched_dev)

lemma append_refines:
  assumes v: "dir_vol ok nblk sector first ss r" and len: "length ss \<le> WALK_LIMIT" and node: "node_ok name file extent"
    and absent: "dir_map (vsec sector r) ss (fold_name name) = None"
  shows "\<exists>res r'. append_block dv name file extent first r = (res, r') \<and>
    (case res of
       Some _ \<Rightarrow> \<exists>new e. dir_vol ok nblk sector first (ss @ [new]) r' \<and> entry_for name file extent e \<and>
         dir_map (vsec sector r') (ss @ [new]) = (dir_map (vsec sector r) ss)(fold_name name \<mapsto> e) \<and>
         (\<forall>k. k < rfs_total r \<and> used sector r k \<longrightarrow> used sector r' k) \<and> steady r r' \<and>
         (\<forall>k. used sector r k \<and> outside r ss k \<longrightarrow> outside r' (ss @ [new]) k \<and> vsec sector r' k = vsec sector r k)
     | None \<Rightarrow> rfs_error r' = Some FS_ERR_NO_SPACE \<and> vsec sector r' = vsec sector r \<and>
         dir_vol ok nblk sector first ss r' \<and> steady r r' \<and>
         \<not> (\<exists>g k. g < rfs_l1_groups r \<and> group_run sector r 64 g k))"
proof -
  let ?vs = "vsec sector r"
  have m: "vol_ok ok nblk r" "mirror sector r" and d: "dir_ok ?vs (rfs_total r) first ss" using v by (auto simp: dir_vol_def)
  obtain ss1 s where s: "ss = ss1 @ [s]" using d by (metis dir_ok_def rev_exhaust)
  have t: "64 \<le> rfs_total r" using dir_vol_chain(1) [OF v, of s] s by simp
  obtain res r1 where fe: "rfs_find_free_extent dv r 64 = (res, r1)" by (cases "rfs_find_free_extent dv r 64")
  obtain r0 where r0: "reads r r0" "case res of
       Some start \<Rightarrow> r1 = r0 \<and> start + 64 \<le> rfs_total r \<and> (\<forall>j. start \<le> j \<and> j < start + 64 \<longrightarrow> \<not> used sector r j)
     | None \<Rightarrow> r1 = r0 \<and> (\<exists>r' g. g < rfs_l1_groups r \<and> reads r r' \<and> fst (rfs_load_group_sector dv r' g) = None) \<or>
         r1 = fs_set_error FS_ERR_NO_SPACE r0 \<and>
         (mirror sector r \<longrightarrow> (\<forall>g k. g < rfs_l1_groups r \<longrightarrow> \<not> group_run sector r 64 g k))"
    using find_extent_ok [OF m(1) mirror_all_free_sound [OF m(2)] _ _ t fe] by auto
  show ?thesis
  proof (cases res)
    case None
    have "geom_ok r" using m(2) by (simp add: mirror_def)
    then have n: "r1 = fs_set_error FS_ERR_NO_SPACE r0" "\<forall>g k. g < rfs_l1_groups r \<longrightarrow> \<not> group_run sector r 64 g k"
      using r0(2) None m(2) load_succeeds [OF _ m(1)] by fastforce+
    moreover have "vsec sector r1 = ?vs" using reads_facts(2) [OF r0(1) m(1)] n(1) by (simp add: fs_set_error_def vsec_def [abs_def])
    moreover have "dir_vol ok nblk sector first ss r1"
      unfolding n(1) by (rule dir_vol_error [OF dir_vol_touched(1) [OF v reads_touched [OF r0(1)]]])
    moreover have "steady r r1" "rfs_error r1 = Some FS_ERR_NO_SPACE"
      using steady_intros(1) [OF reads_touched [OF r0(1)]] unfolding n(1) by (simp_all add: fs_set_error_def steady_def)
    moreover have "append_block dv name file extent first r = (None, r1)"
      using fe None by (simp add: append_block_def RFS_DEFAULT_DIR_SIZE_def)
    ultimately show ?thesis by auto
  next
    case (Some new)
    then have n: "r1 = r0" "new + 64 \<le> rfs_total r" "\<And>j. new \<le> j \<and> j < new + 64 \<Longrightarrow> \<not> used sector r j" using r0(2) by auto
    note ap = free_run_apart [OF v n(3,2)]
    have t1: "touched ok sector r r1" using reads_touched [OF r0(1)] n(1) by simp
    note v1 = dir_vol_touched [OF v t1] and f1 = touched_facts [OF t1 m(1)]
    have r10: "rfs_l1_groups r1 = rfs_l1_groups r" "\<And>x. clear_of_map r1 x = clear_of_map r x"
      using t1 by (auto simp: touched_def clear_of_map_def)
    have m1: "vol_ok ok nblk r1" "mirror sector r1" using v1(1) by (auto simp: dir_vol_def)
    obtain r2 where r2: "rfs_mark_extent dv r1 new 64 True = (Some (), r2)" "vol_ok ok nblk r2" "mirror sector r2" "frame r1 r2"
      "\<forall>k. \<not> (map_start r1 \<le> k \<and> k < map_start r1 + rfs_l1_groups r1) \<longrightarrow> vsec sector r2 k = vsec sector r1 k"
      "\<forall>k<rfs_total r1. used sector r2 k = (if new \<le> k \<and> k < new + 64 then True else used sector r1 k)"
      using mark_succeeds [OF m1, of new 64 True] n(2) f1(3) by auto
    note v2 = dir_vol_marked [OF v1(1) r2(2-4)]
    have v2': "dir_vol ok nblk sector first ss r2" "\<And>s. s \<in> set ss \<Longrightarrow> dblock (vsec sector r2) s = dblock ?vs s"
      using v2 r2(5,6) v1(2) by auto
    have d2: "chain (vsec sector r2) (rfs_total r2) first (ss1 @ [s])" using v2'(1) s by (simp add: dir_vol_def dir_ok_def)
    obtain r3 where r3: "last_block dv (WALK_LIMIT + 2) r2 first = (Some (s, dblock (vsec sector r2) s), r3)" "touched ok sector r2 r3"
      using last_block_ok [OF r2(2) d2, of "WALK_LIMIT + 2"] len s by auto
    note v3 = dir_vol_touched [OF v2'(1) r3(2)] and f3 = touched_facts [OF r3(2) r2(2)]
    have fr: "rfs_total r3 = rfs_total r" "\<And>x. clear_of_map r3 x = clear_of_map r x"
      using f3(3,4) r2(4) f1(3,4) r10 r3(2) by (auto simp: frame_def clear_of_map_def touched_def)
    have u3: "used sector r3 k" if "new \<le> k" "k < new + 64" for k
    proof -
      have "k < rfs_total r2" using that n(2) f3(3) fr(1) by simp
      moreover have "used sector r3 k = used sector r2 k"
        using f3(2,4) by (simp add: used_def map_sec_def)
      ultimately show ?thesis using r2(6) that f1(3) n(2) by auto
    qed
    have dm: "dir_map (vsec sector r3) ss = dir_map ?vs ss"
      using v2'(2) v3(2) unfolding dir_map_def dir_list_def by (metis (mono_tags, lifting) map_cong)
    obtain r4 r5 e where w: "write_dir_block dv r3 s (memcpy_at 148 (le_bytes 8 new) (dblock (vsec sector r3) s)) = (Some (), r4)"
      "write_dir_block dv r4 new (insert_entry (fresh_block (replicate RFS_MAX_NAME 0) first) 0 name file extent) = (Some (), r5)"
      "dir_vol ok nblk sector first (ss @ [new]) r5" "entry_for name file extent e"
      "dir_map (vsec sector r5) (ss @ [new]) = (dir_map ?vs ss)(fold_name name \<mapsto> e)"
      "\<forall>k. \<not> (s \<le> k \<and> k < s + 64) \<and> \<not> (new \<le> k \<and> k < new + 64) \<longrightarrow> vsec sector r5 k = vsec sector r3 k"
      "\<forall>k<rfs_total r. used sector r5 k = used sector r3 k" "steady r3 r5"
      using link_new_block [OF v3(1) len node ap(1) _ _ ap(3) u3 _ s refl] n(2) ap(2) fr absent dm by auto
    have "append_block dv name file extent first r = (Some (), r5)"
      using fe Some r2(1) r3(1) w(1,2) v3(2) by (simp add: append_block_def RFS_DEFAULT_DIR_SIZE_def)
    moreover have st: "steady r r5"
      by (rule steady_trans [OF steady_intros(1) [OF t1] steady_trans [OF steady_intros(3) [OF r2(4)]
            steady_trans [OF steady_intros(1) [OF r3(2)] w(8)]]])
    moreover have "used sector r5 k" if "k < rfs_total r" "used sector r k" for k
    proof -
      have "used sector r2 k" using r2(6) that f1 by (simp add: used_def map_sec_def)
      then show ?thesis using w(7) that(1) f3(2,4) by (simp add: used_def map_sec_def)
    qed
    moreover have "outside r5 (ss @ [new]) k \<and> vsec sector r5 k = ?vs k" if "used sector r k" "outside r ss k" for k
    proof -
      have k: "\<not> (new \<le> k \<and> k < new + 64)" using n(3) that(1) by blast
      then have "outside r5 (ss @ [new]) k" using st that(2) by (auto simp: outside_def steady_def)
      moreover have "vsec sector r5 k = vsec sector r3 k" using w(6) that(2) s k by (auto simp: outside_def)
      moreover have "vsec sector r2 k = vsec sector r1 k" using r2(5) that(2) f1(4) r10(1) by (auto simp: outside_def)
      ultimately show ?thesis using v3(2) v1(2) by simp
    qed
    ultimately show ?thesis using w(3-5) by auto
  qed
qed

lemma upsert_refines:
  assumes v: "dir_vol ok nblk sector first ss r" and len: "length ss \<le> WALK_LIMIT"
    and f: "fe_directory file = Some tree" "fe_filename file = Some name" "dir_sector r tree = first"
    and node: "node_ok name file extent"
  shows "\<exists>res r'. rfs_upsert_directory_entry dv r file extent = (res, r') \<and>
    (case res of
       Some _ \<Rightarrow> \<exists>ss' e. dir_vol ok nblk sector first ss' r' \<and> length ss' \<le> length ss + 1 \<and> entry_for name file extent e \<and>
         dir_map (vsec sector r') ss' = (dir_map (vsec sector r) ss)(fold_name name \<mapsto> e) \<and>
         (\<forall>k. k < rfs_total r \<and> used sector r k \<longrightarrow> used sector r' k) \<and> steady r r' \<and>
         (\<forall>k. used sector r k \<and> outside r ss k \<longrightarrow> outside r' ss' k \<and> vsec sector r' k = vsec sector r k)
     | None \<Rightarrow> rfs_error r' = Some FS_ERR_NO_SPACE \<and> vsec sector r' = vsec sector r \<and>
         dir_vol ok nblk sector first ss r' \<and> steady r r' \<and> dir_map (vsec sector r) ss (fold_name name) = None \<and>
         (\<forall>s\<in>set ss. length (block_list (dblock (vsec sector r) s)) = 127) \<and>
         \<not> (\<exists>g k. g < rfs_l1_groups r \<and> group_run sector r 64 g k))"
proof -
  let ?vs = "vsec sector r" and ?k = "fold_name name"
  have w: "vol_ok ok nblk r" "chain ?vs (rfs_total r) first ss" "0 + length ss \<le> WALK_LIMIT + 1" "dir_ok ?vs (rfs_total r) first ss"
    using v by (auto simp: dir_vol_def dir_ok_def)
  obtain ds where ds: "rfs_desc r = Some ds" using v by (auto simp: dir_vol_def mirror_def geom_ok_def)
  have pk: "peek name \<noteq> 0" using node by (simp add: node_ok_def)
  obtain res r1 where u: "upsert_walk dv name file extent r first None 0 = (Some res, r1)"
    "case res of
       Updated \<Rightarrow> (\<exists>ss1 s ss2 i. ss = ss1 @ s # ss2 \<and> dir_map ?vs ss1 ?k = None \<and>
         scan_slots (dblock ?vs s) name 0 = Match i \<and> stored ok sector r r1 s (update_entry (dblock ?vs s) i name file extent))
     | Missing h \<Rightarrow> touched ok sector r r1 \<and> dir_map ?vs ss ?k = None \<and>
         (case h of None \<Rightarrow> (None :: (nat \<times> nat) option) = None \<and> (\<forall>s\<in>set ss. length (block_list (dblock ?vs s)) = 127)
          | Some (s, i) \<Rightarrow> None = h \<or> (None :: (nat \<times> nat) option) = None \<and> s \<in> set ss \<and> i = length (block_list (dblock ?vs s)) \<and> i < 127)"
    using upsert_walk_ok [OF w(1-3), of name "file" extent None] by blast
  have e: "rfs_upsert_directory_entry dv r file extent =
    (case res of Updated \<Rightarrow> (Some (), r1)
     | Missing (Some (sec, i)) \<Rightarrow> and_then (read_dir_block dv r1 sec) (\<lambda>block r2.
          write_dir_block dv r2 sec (insert_entry block i name file extent))
     | Missing None \<Rightarrow> append_block dv name file extent (dir_sector r1 tree) r1)"
    using f ds pk u(1) by (simp add: rfs_upsert_directory_entry_def)
  show ?thesis
  proof (cases res)
    case Updated
    then obtain ss1 s ss2 i where s: "ss = ss1 @ s # ss2" "dir_map ?vs ss1 ?k = None" "scan_slots (dblock ?vs s) name 0 = Match i"
      "stored ok sector r r1 s (update_entry (dblock ?vs s) i name file extent)"
      using u(2) by auto
    have ss: "s \<in> set ss" using s(1) by simp
    note b = dir_vol_chain(3) [OF v ss]
    have "scan_result (dblock ?vs s) name 0 (Match i)" using scan_slots_ok [OF b, of 0 name] s(3) by simp
    then have i: "i < length (block_list (dblock ?vs s))" "fst (block_list (dblock ?vs s) ! i) = ?k"
      "\<And>j. j < i \<Longrightarrow> fst (block_list (dblock ?vs s) ! j) \<noteq> ?k"
      by (auto simp: scan_result_def Let_def)
    obtain en where en: "entry_for name file extent en" "block_ok (update_entry (dblock ?vs s) i name file extent)"
      "continuation (update_entry (dblock ?vs s) i name file extent) = continuation (dblock ?vs s)"
      "block_list (update_entry (dblock ?vs s) i name file extent) = (block_list (dblock ?vs s))[i := (?k, en)]"
      using update_block [OF b node i(1)] by blast
    note l = block_okD(1) [OF en(2)]
    have "dir_ok (vsec sector r1) (rfs_total r) first ss \<and> dir_map (vsec sector r1) ss = (dir_map ?vs ss)(?k \<mapsto> en)"
      by (rule dir_update_entry [OF w(4) s(1) stored_others [OF s(4) l w(4) [unfolded s(1)]] _ _ _ s(2) i])
        (simp_all only: stored_blocks(1) [OF s(4) l] en)
    then show ?thesis using e Updated dir_vol_stored [OF v ss s(4) l] en(1) stored_keeps [OF v ss s(4) l] by (auto intro!: exI [of _ ss])
  next
    case (Missing h)
    then have t: "touched ok sector r r1" "dir_map ?vs ss ?k = None" using u(2) by auto
    note v1 = dir_vol_touched [OF v t(1)] and f1 = touched_facts [OF t(1) w(1)]
    show ?thesis
    proof (cases h)
      case None
      have ds1: "dir_sector r1 tree = first" using f(3) f1(4) unfolding dir_sector_def by metis
      have g1: "group_run sector r1 64 g k = group_run sector r 64 g k" "rfs_l1_groups r1 = rfs_l1_groups r" for g k
        using t(1) f1 by (auto simp: touched_def group_run_def map_sec_def rfs_group_size_def Let_def)
      have k1: "rfs_total r1 = rfs_total r" "used sector r1 k = used sector r k" "outside r1 ss k = outside r ss k" for k
        using t(1) f1 by (auto simp: touched_def outside_def used_def map_sec_def)
      have s1: "steady r1 r' \<Longrightarrow> steady r r'" for r' using steady_trans [OF steady_intros(1) [OF t(1)]] .
      obtain res2 r2 where a: "append_block dv name file extent first r1 = (res2, r2)"
        "case res2 of
         Some _ \<Rightarrow> \<exists>new e. dir_vol ok nblk sector first (ss @ [new]) r2 \<and> entry_for name file extent e \<and>
           dir_map (vsec sector r2) (ss @ [new]) = (dir_map ?vs ss)(?k \<mapsto> e) \<and>
           (\<forall>k. k < rfs_total r \<and> used sector r k \<longrightarrow> used sector r2 k) \<and> steady r1 r2 \<and>
           (\<forall>k. used sector r k \<and> outside r ss k \<longrightarrow> outside r2 (ss @ [new]) k \<and> vsec sector r2 k = ?vs k)
       | None \<Rightarrow> rfs_error r2 = Some FS_ERR_NO_SPACE \<and> vsec sector r2 = ?vs \<and>
           dir_vol ok nblk sector first ss r2 \<and> steady r1 r2 \<and>
           \<not> (\<exists>g k. g < rfs_l1_groups r \<and> group_run sector r 64 g k)"
        using append_refines [OF v1(1) len node, unfolded v1(2) g1 k1] t(2) by blast
      show ?thesis unfolding e Missing None upsert_scan.case option.case ds1 a(1)
        using a(2) s1 t(2) u(2) Missing None by (cases res2) (auto 0 4)
    next
      case (Some p)
      then obtain s i where p: "h = Some (s, i)" "s \<in> set ss" "i = length (block_list (dblock ?vs s))" "i < 127"
        using u(2) Missing by (cases p) auto
      note b = dir_vol_chain(3) [OF v p(2)] and bt = dir_vol_chain(1) [OF v p(2)]
      obtain r2 where r2: "read_dir_block dv r1 s = (Some (dblock ?vs s), r2)" "touched ok sector r1 r2"
        using reads_block [OF f1(1), of s] bt f1(2,3) by auto
      have t2: "touched ok sector r r2" by (rule touched_trans [OF t(1) r2(2)])
      note f2 = touched_facts [OF t2 w(1)]
      let ?b = "insert_entry (dblock ?vs s) i name file extent"
      obtain en where en: "entry_for name file extent en" "block_ok ?b" "continuation ?b = continuation (dblock ?vs s)"
        "block_list ?b = block_list (dblock ?vs s) @ [(?k, en)]"
        using insert_block [OF b node p(3,4)] by blast
      note l = block_okD(1) [OF en(2)]
      obtain r3 where r3: "write_dir_block dv r2 s ?b = (Some (), r3)" "stored ok sector r2 r3 s ?b"
        using writes_block [OF f2(1), of s ?b] bt f2(3) l by auto
      have st: "stored ok sector r r3 s ?b" by (rule touched_stored [OF t2 r3(2)])
      obtain ss1 ss2 where s: "ss = ss1 @ s # ss2" using split_list [OF p(2)] by blast
      have "dir_ok (vsec sector r3) (rfs_total r) first ss \<and> dir_map (vsec sector r3) ss = (dir_map ?vs ss)(?k \<mapsto> en)"
        by (rule dir_insert_entry [OF w(4) s stored_others [OF st l w(4) [unfolded s]] _ _ _ t(2)])
          (simp_all only: stored_blocks(1) [OF st l] en)
      then show ?thesis using e Missing p(1) r2(1) r3(1) dir_vol_stored [OF v p(2) st l] en(1) stored_keeps [OF v p(2) st l] by (auto intro!: exI [of _ ss])
    qed
  qed
qed

end

end
