(* ===== verification/RfsVolume.thy ===== *)
theory RfsVolume
  imports RfsDirMap
begin

text \<open>
  The properties of RetroFS directories, and a volume with an empty root directory that shows their
  hypotheses can hold: the blank volume of \<^theory_text>\<open>RfsDemo\<close> with a fresh directory block, and the sectors in use marked.
\<close>

section \<open>A volume with an empty directory\<close>

abbreviation demo_dev :: "ramdisks storage device" where "demo_dev \<equiv> storage_dev rname"

definition dir_volume :: "ramdisks storage rfs" where
  "dir_volume =
     (let r1 = snd (write_dir_block demo_dev blank_volume 1 (fresh_block (replicate 128 0) 0));
          r2 = snd (rfs_mark_extent demo_dev r1 0 65 True)
      in snd (rfs_mark_extent demo_dev r2 999 1 True))"

definition root_tree :: fs_tree where "root_tree = \<lparr>ft_lbapos = 0\<rparr>"

definition demo_name :: "byte list" where "demo_name = [0x61, 0]"

lemma dir_volume_ok:
  "dir_vol (ram_ok 1000) 1000 ram_sector 1 [1] dir_volume" "dir_map (vsec ram_sector dir_volume) [1] = Map.empty"
  "dir_sector dir_volume root_tree = 1" "rfs_mem dir_volume = (\<lambda>_. True)" "rfs_total dir_volume = 1000"
  "rfs_l1_groups dir_volume = 1" "map_start dir_volume = 999"
  "\<And>k. k < 1000 \<Longrightarrow> used ram_sector dir_volume k \<longleftrightarrow> k < 65 \<or> k = 999"
  "\<And>k. 65 \<le> k \<Longrightarrow> k < 999 \<Longrightarrow> vsec ram_sector dir_volume k = replicate 512 0"
proof -
  let ?ok = "ram_ok 1000" and ?fb = "fresh_block (replicate 128 0) 0"
  note io = reliable_disk.writes_block [OF ram_disk(2) blank_volume_ok(1)]
  note fr = fresh_block_ok [of "replicate 128 0" 0, simplified]
  have ms: "map_start blank_volume = 999" by simp
  obtain r1 where r1: "write_dir_block demo_dev blank_volume 1 ?fb = (Some (), r1)" "stored ?ok ram_sector blank_volume r1 1 ?fb"
    using io [of 1 ?fb] block_okD(1) [OF fr(1)] by auto
  have c: "clear_of_map blank_volume 1" by (simp add: clear_of_map_def)
  note s1 = stored_mirror [OF r1(2) block_okD(1) [OF fr(1)] c blank_volume_ok(2)]
  note f1 = stored_facts [OF r1(2) blank_volume_ok(1)] and b1 = stored_blocks [OF r1(2) block_okD(1) [OF fr(1)]]
  have st1: "steady blank_volume r1" by (rule steady_intros(2) [OF r1(2)])
  obtain r2 where r2: "rfs_mark_extent demo_dev r1 0 65 True = (Some (), r2)" "vol_ok ?ok 1000 r2" "mirror ram_sector r2" "frame r1 r2"
    "\<forall>k. \<not> (map_start r1 \<le> k \<and> k < map_start r1 + rfs_l1_groups r1) \<longrightarrow> vsec ram_sector r2 k = vsec ram_sector r1 k"
    "\<forall>k<rfs_total r1. used ram_sector r2 k = (if 0 \<le> k \<and> k < 0 + 65 then True else used ram_sector r1 k)"
    using reliable_disk.mark_succeeds [OF ram_disk(2) f1(1) s1(1), of 0 65 True] f1(2) by auto
  have st2: "steady blank_volume r2" by (rule steady_trans [OF st1 steady_intros(3) [OF r2(4)]])
  then have t2: "rfs_total r2 = 1000" "map_start r2 = 999" "rfs_l1_groups r2 = 1" by (simp_all add: steady_def)
  obtain r3 where r3: "rfs_mark_extent demo_dev r2 999 1 True = (Some (), r3)" "vol_ok ?ok 1000 r3" "mirror ram_sector r3" "frame r2 r3"
    "\<forall>k. \<not> (map_start r2 \<le> k \<and> k < map_start r2 + rfs_l1_groups r2) \<longrightarrow> vsec ram_sector r3 k = vsec ram_sector r2 k"
    "\<forall>k<rfs_total r2. used ram_sector r3 k = (if 999 \<le> k \<and> k < 999 + 1 then True else used ram_sector r2 k)"
    using reliable_disk.mark_succeeds [OF ram_disk(2) r2(2,3), of 999 1 True] t2 by auto
  have st3: "steady blank_volume r3" by (rule steady_trans [OF st2 steady_intros(3) [OF r3(4)]])
  have e: "dir_volume = r3" unfolding dir_volume_def Let_def r1(1) snd_conv r2(1) r3(1) ..
  have t3: "rfs_total r3 = 1000" "map_start r3 = 999" "rfs_l1_groups r3 = 1" "rfs_mem r3 = (\<lambda>_. True)"
    "rfs_desc r3 = rfs_desc blank_volume"
    using st3 by (simp_all add: steady_def)
  show "rfs_total dir_volume = 1000" "map_start dir_volume = 999" "rfs_l1_groups dir_volume = 1"
    "rfs_mem dir_volume = (\<lambda>_. True)" using t3 unfolding e by auto
  show "dir_sector dir_volume root_tree = 1" unfolding e using t3(5) by (simp add: dir_sector_def root_tree_def)
  have u0: "\<not> used ram_sector blank_volume k" if "k < 1000" for k
    using that blank_volume_ok(3) [of 999] by (simp add: used_def map_sec_def buf_bit_def)
  have u1: "\<not> used ram_sector r1 k" if "k < 1000" for k using s1(2) [of k] u0 that by simp
  have u: "used ram_sector r3 k \<longleftrightarrow> k < 65 \<or> k = 999" if "k < 1000" for k
    using r3(6) r2(6) u1 [of k] that t2 f1(2) by auto
  then show "\<And>k. k < 1000 \<Longrightarrow> used ram_sector dir_volume k \<longleftrightarrow> k < 65 \<or> k = 999" unfolding e .
  have vs: "vsec ram_sector r3 k = vsec ram_sector r1 k" if "k < 999" for k
    using r3(5) r2(5) that t2 st1 by (simp add: steady_def)
  show "vsec ram_sector dir_volume k = replicate 512 0" if "65 \<le> k" "k < 999" for k
    unfolding e using vs that b1(3) [of k] blank_volume_ok(3) [of k] by simp
  have db: "dblock (vsec ram_sector r3) 1 = ?fb"
    using b1(1) vs dblock_cong [of 1 "vsec ram_sector r3" "vsec ram_sector r1"] by simp
  then have "dir_ok (vsec ram_sector r3) 1000 1 [1]" using fr by (simp add: dir_ok_def)
  then show "dir_vol ?ok 1000 ram_sector 1 [1] dir_volume"
    unfolding e dir_vol_def using r3(2,3) t3 u by (simp add: clear_of_map_def)
  show "dir_map (vsec ram_sector dir_volume) [1] = Map.empty" unfolding e using db fr(2) by (simp add: dir_map_def)
qed

section \<open>Properties of directories\<close>

text \<open>C21: looking up a name.  On a sound directory \<^verbatim>\<open>rfs_locate_entry\<close> finds the entry that the abstract map of the
  directory has for the name, without regard to case, over the whole chain of blocks; it finds none
  exactly when the map has none, and it writes nothing.\<close>

theorem rfs_locate_entry_refines:
  assumes "reliable_disk dv ok nblk sector" "dir_vol ok nblk sector first ss r" "dir_sector r tree = first" "peek name \<noteq> 0"
  shows "\<exists>res r'. rfs_locate_entry dv r tree (Some name) = (res, r') \<and> vsec sector r' = vsec sector r \<and>
    map_option (\<lambda>(s, i, e). e) res = dir_map (vsec sector r) ss (fold_name name)"
proof -
  obtain res r' where "rfs_locate_entry dv r tree (Some name) = (res, r')" "touched ok sector r r'"
    "map_option (\<lambda>(s, i, e). e) res = dir_map (vsec sector r) ss (fold_name name)"
    using reliable_disk.locate_refines [OF assms] by blast
  then show ?thesis using dir_vol_touched(2) [OF assms(2)] by blast
qed

theorem rfs_locate_entry_refines_witness:
  "\<exists>r'. rfs_locate_entry demo_dev dir_volume root_tree (Some demo_name) = (None, r')"
  using rfs_locate_entry_refines [OF ram_disk(2) dir_volume_ok(1,3), of demo_name] dir_volume_ok(2)
  by (auto simp: demo_name_def peek_def)

text \<open>C7: inserting or updating an entry.  For a name of at most 127 bytes \<^verbatim>\<open>rfs_upsert_directory_entry\<close> updates the
  abstract map of the directory at that name, and only there, whether the entry existed, a slot was free
  or the directory had to grow by a block; the invariant of directory and free space map holds again, and every
  sector in use outside the directory and the map keeps its content.  It fails only when the directory is full and no
  group has a free run of 64 sectors, and then changes nothing.\<close>

theorem rfs_upsert_refines:
  assumes "reliable_disk dv ok nblk sector" "dir_vol ok nblk sector first ss r" "length ss \<le> WALK_LIMIT"
    "fe_directory file = Some tree" "fe_filename file = Some name" "dir_sector r tree = first" "node_ok name file extent"
  shows "\<exists>res r'. rfs_upsert_directory_entry dv r file extent = (res, r') \<and>
    (case res of
       Some _ \<Rightarrow> \<exists>ss' e. dir_vol ok nblk sector first ss' r' \<and> entry_for name file extent e \<and>
         dir_map (vsec sector r') ss' = (dir_map (vsec sector r) ss)(fold_name name \<mapsto> e) \<and>
         (\<forall>k. used sector r k \<and> outside r ss k \<longrightarrow> vsec sector r' k = vsec sector r k)
     | None \<Rightarrow> rfs_error r' = Some FS_ERR_NO_SPACE \<and> vsec sector r' = vsec sector r \<and>
         (\<forall>s\<in>set ss. length (block_list (dblock (vsec sector r) s)) = 127) \<and>
         \<not> (\<exists>g k. g < rfs_l1_groups r \<and> group_run sector r 64 g k))"
proof -
  obtain res r' where u: "rfs_upsert_directory_entry dv r file extent = (res, r')" "case res of
       Some _ \<Rightarrow> \<exists>ss' e. dir_vol ok nblk sector first ss' r' \<and> length ss' \<le> length ss + 1 \<and> entry_for name file extent e \<and>
         dir_map (vsec sector r') ss' = (dir_map (vsec sector r) ss)(fold_name name \<mapsto> e) \<and>
         (\<forall>k. k < rfs_total r \<and> used sector r k \<longrightarrow> used sector r' k) \<and> steady r r' \<and>
         (\<forall>k. used sector r k \<and> outside r ss k \<longrightarrow> outside r' ss' k \<and> vsec sector r' k = vsec sector r k)
     | None \<Rightarrow> rfs_error r' = Some FS_ERR_NO_SPACE \<and> vsec sector r' = vsec sector r \<and>
         dir_vol ok nblk sector first ss r' \<and> steady r r' \<and> dir_map (vsec sector r) ss (fold_name name) = None \<and>
         (\<forall>s\<in>set ss. length (block_list (dblock (vsec sector r) s)) = 127) \<and>
         \<not> (\<exists>g k. g < rfs_l1_groups r \<and> group_run sector r 64 g k)"
    using reliable_disk.upsert_refines [OF assms] by blast
  show ?thesis using u by (intro exI [of _ res] exI [of _ r']) (auto split: option.splits)
qed

theorem rfs_upsert_refines_witness:
  "\<exists>r' ss'. rfs_upsert_directory_entry demo_dev dir_volume (new_entry root_tree (Some demo_name) 100 0 10) 8 = (Some (), r') \<and>
     dir_vol (ram_ok 1000) 1000 ram_sector 1 ss' r' \<and> dom (dir_map (vsec ram_sector r') ss') = {[0x61]}"
proof -
  let ?f = "new_entry root_tree (Some demo_name) 100 0 10"
  have n: "node_ok demo_name ?f 8" "fold_name demo_name = [0x61]"
    by (simp_all add: node_ok_def demo_name_def peek_def strlen_def cstr_def new_entry_def W64_def fold_name_def tolower_def)
  have "\<not> buf_bit (map_sec ram_sector dir_volume 0) i" if "65 \<le> i" "i < 129" for i
    using dir_volume_ok(8) [of i] that by (simp add: used_def)
  then have run: "group_run ram_sector dir_volume 64 0 65"
    unfolding group_run_def using dir_volume_ok(5) by (simp add: rfs_group_size_def RFS_L1_GROUP_SECTORS_def)
  have f: "length [1 :: nat] \<le> WALK_LIMIT" "fe_directory ?f = Some root_tree" "fe_filename ?f = Some demo_name"
    by (simp_all add: new_entry_def WALK_LIMIT_def)
  obtain res r' where r: "rfs_upsert_directory_entry demo_dev dir_volume ?f 8 = (res, r')" "case res of
       Some _ \<Rightarrow> \<exists>ss' e. dir_vol (ram_ok 1000) 1000 ram_sector 1 ss' r' \<and> entry_for demo_name ?f 8 e \<and>
         dir_map (vsec ram_sector r') ss' = (dir_map (vsec ram_sector dir_volume) [1])(fold_name demo_name \<mapsto> e) \<and>
         (\<forall>k. used ram_sector dir_volume k \<and> outside dir_volume [1] k \<longrightarrow> vsec ram_sector r' k = vsec ram_sector dir_volume k)
     | None \<Rightarrow> rfs_error r' = Some FS_ERR_NO_SPACE \<and> vsec ram_sector r' = vsec ram_sector dir_volume \<and>
         (\<forall>s\<in>set [1]. length (block_list (dblock (vsec ram_sector dir_volume) s)) = 127) \<and>
         \<not> (\<exists>g k. g < rfs_l1_groups dir_volume \<and> group_run ram_sector dir_volume 64 g k)"
    using rfs_upsert_refines [OF ram_disk(2) dir_volume_ok(1) f dir_volume_ok(3) n(1)] by blast
  have res: "res = Some ()" using r(2) run dir_volume_ok(6) by (cases res) auto
  then obtain ss' e where "dir_vol (ram_ok 1000) 1000 ram_sector 1 ss' r'" "dir_map (vsec ram_sector r') ss' = [[0x61] \<mapsto> e]"
    using r(2) dir_volume_ok(2) n(2) by auto
  then show ?thesis using r(1) res by (intro exI [of _ r'] exI [of _ ss']) simp
qed

text \<open>C20: removing an entry.  \<^verbatim>\<open>rfs_delete_directory_entry\<close> removes exactly the entry of that name from the abstract
  map, and fails exactly when there is none; the directory stays sound.\<close>

theorem rfs_delete_refines:
  assumes "reliable_disk dv ok nblk sector" "dir_vol ok nblk sector first ss r"
    "fe_directory file = Some tree" "fe_filename file = Some name" "dir_sector r tree = first" "peek name \<noteq> 0"
  shows "\<exists>res r'. rfs_delete_directory_entry dv r file = (res, r') \<and> dir_vol ok nblk sector first ss r' \<and>
    (res = None \<longleftrightarrow> dir_map (vsec sector r) ss (fold_name name) = None) \<and>
    dir_map (vsec sector r') ss = (dir_map (vsec sector r) ss)(fold_name name := None)"
proof -
  obtain res r' where "rfs_delete_directory_entry dv r file = (res, r')" "dir_vol ok nblk sector first ss r'"
    "res = None \<longleftrightarrow> dir_map (vsec sector r) ss (fold_name name) = None"
    "dir_map (vsec sector r') ss = (dir_map (vsec sector r) ss)(fold_name name := None)"
    using reliable_disk.delete_refines [OF assms] by (elim exE conjE) (rule that)
  then show ?thesis by (intro exI [of _ res] exI [of _ r']) simp
qed

theorem rfs_delete_refines_witness:
  "\<exists>r'. rfs_delete_directory_entry demo_dev dir_volume (new_entry root_tree (Some demo_name) 0 0 0) = (None, r') \<and>
     dir_vol (ram_ok 1000) 1000 ram_sector 1 [1] r'"
  using rfs_delete_refines [OF ram_disk(2) dir_volume_ok(1) _ _ dir_volume_ok(3), of "new_entry root_tree (Some demo_name) 0 0 0" demo_name]
    dir_volume_ok(2) by (auto simp: new_entry_def demo_name_def peek_def)

end
