(* ===== verification/RfsFileSpec.thy ===== *)
theory RfsFileSpec
  imports RfsVolume
begin

text \<open>
  The file operations of RetroFS on a sound volume: reading and writing files as ranges of bytes,
  creating a file and removing it, together with their effect on the directory and the free space map.
\<close>

section \<open>Data sectors\<close>

lemma vbytes_sector_eq:
  assumes "length (vs k) = 512" "length (vs' k) = 512" "vbytes vs' (k * 512) 512 = vbytes vs (k * 512) 512"
  shows "vs' k = vs k"
  using sector_vbytes [of vs k] sector_vbytes [of vs' k] assms by simp

context reliable_disk
begin

lemma wrote_other_sector:
  assumes "wrote ok sector r r' p xs" "vol_ok ok nblk r" "k < rfs_total r" "k * 512 + 512 \<le> p \<or> p + length xs \<le> k * 512"
  shows "vsec sector r' k = vsec sector r k"
proof -
  note f = wrote_facts [OF assms(1,2)]
  have "vbytes (vsec sector r') (k * 512) 512 = vbytes (vsec sector r) (k * 512) 512"
    by (rule vbytes_upd_other [OF f(5)]) (use assms(4) in simp)
  moreover have "length (vsec sector r' k) = 512" using vsec_length [OF f(1), of k] f(2) assms(3) by simp
  ultimately show ?thesis using vbytes_sector_eq [of "vsec sector r" k "vsec sector r'"] vsec_length [OF assms(2,3)] by blast
qed

text \<open>Changing sectors of an extent that is neither directory nor map keeps the volume sound.\<close>

lemma dir_vol_data:
  assumes v: "dir_vol ok nblk sector first ss r" and dq: "r' = r\<lparr>rfs_dev := dd, rfs_requests := q\<rparr>" "ok dd"
    and vs: "\<And>k. k < rfs_total r \<Longrightarrow> \<not> (lba \<le> k \<and> k < lba + n) \<Longrightarrow> vsec sector r' k = vsec sector r k"
    and ext: "\<And>k. lba \<le> k \<Longrightarrow> k < lba + n \<Longrightarrow> outside r ss k"
  shows "dir_vol ok nblk sector first ss r'" "dir_map (vsec sector r') ss = dir_map (vsec sector r) ss"
    "\<And>k. k < rfs_total r \<Longrightarrow> used sector r' k = used sector r k"
proof -
  have m: "vol_ok ok nblk r" "mirror sector r" and d: "dir_ok (vsec sector r) (rfs_total r) first ss"
    using v by (auto simp: dir_vol_def)
  have ms: "vsec sector r' (map_start r + g) = vsec sector r (map_start r + g)" if "g < rfs_l1_groups r" for g
    using ext [of "map_start r + g"] that map_in_volume [OF m(2) that] by (intro vs) (auto simp: outside_def)
  note c = mirror_cong [OF m(2) dq(1) ms]
  show u: "used sector r' k = used sector r k" if "k < rfs_total r" for k by (rule c(2) [OF _ that])
  have db: "dblock (vsec sector r') s = dblock (vsec sector r) s" if "s \<in> set ss" for s
  proof (rule dblock_cong, rule vs)
    fix k assume k: "s \<le> k" "k < s + 64"
    show "k < rfs_total r" using k dir_vol_chain(1) [OF v that] by simp
    show "\<not> (lba \<le> k \<and> k < lba + n)" using ext [of k] k that by (auto simp: outside_def)
  qed
  note cc = chain_cong [of "vsec sector r" "rfs_total r" first ss "vsec sector r'"]
  have dl: "dir_list (vsec sector r') ss = dir_list (vsec sector r) ss" using cc(2) db d by (auto simp: dir_ok_def)
  then show "dir_map (vsec sector r') ss = dir_map (vsec sector r) ss" by (simp add: dir_map_def)
  have t: "rfs_total r' = rfs_total r" using dq(1) by simp
  have d': "dir_ok (vsec sector r') (rfs_total r') first ss" using cc(1) db d t dl by (auto simp: dir_ok_def)
  have z: "0 < rfs_total r" by (rule dir_vol_total [OF v])
  show "dir_vol ok nblk sector first ss r'"
    unfolding dir_vol_def
  proof (intro conjI)
    show "vol_ok ok nblk r'" using m(1) dq by (simp add: vol_ok_def)
    show "mirror sector r'" by (rule c(1))
    show "dir_ok (vsec sector r') (rfs_total r') first ss" by (rule d')
    show "used sector r' 0" using u [OF z] v by (simp add: dir_vol_def)
    show "\<forall>g<rfs_l1_groups r'. used sector r' (map_start r' + g)"
      using u map_in_volume [OF m(2)] v dq(1) by (simp add: dir_vol_def)
    show "\<forall>s\<in>set ss. clear_of_map r' s \<and> (\<forall>k. s \<le> k \<and> k < s + 64 \<longrightarrow> used sector r' k)"
    proof (intro ballI conjI allI impI)
      fix s k assume "s \<in> set ss"
      then show "clear_of_map r' s" using dir_vol_chain(2) [OF v] dq(1) by (simp add: clear_of_map_def)
      assume "s \<le> k \<and> k < s + 64"
      then show "used sector r' k" using u [of k] dir_vol_chain(1) [OF v \<open>s \<in> set ss\<close>] v \<open>s \<in> set ss\<close> by (auto simp: dir_vol_def)
    qed
  qed
qed

lemma dir_vol_wrote:
  assumes v: "dir_vol ok nblk sector first ss r" and w: "wrote ok sector r r' p xs"
    and ext: "lba * 512 \<le> p" "p + length xs \<le> (lba + n) * 512" "\<And>k. lba \<le> k \<Longrightarrow> k < lba + n \<Longrightarrow> outside r ss k"
  shows "dir_vol ok nblk sector first ss r'" "dir_map (vsec sector r') ss = dir_map (vsec sector r) ss"
    "\<And>k. k < rfs_total r \<Longrightarrow> used sector r' k = used sector r k"
    "\<And>k. k < rfs_total r \<Longrightarrow> \<not> (lba \<le> k \<and> k < lba + n) \<Longrightarrow> vsec sector r' k = vsec sector r k"
proof -
  have m: "vol_ok ok nblk r" using v by (simp add: dir_vol_def)
  show vs: "vsec sector r' k = vsec sector r k" if "k < rfs_total r" "\<not> (lba \<le> k \<and> k < lba + n)" for k
    by (rule wrote_other_sector [OF w m that(1)]) (use that(2) ext(1,2) in auto)
  obtain dd q where dq: "r' = r\<lparr>rfs_dev := dd, rfs_requests := q\<rparr>" "ok dd" using w by (auto simp: wrote_def)
  show "dir_vol ok nblk sector first ss r'" "dir_map (vsec sector r') ss = dir_map (vsec sector r) ss"
    "\<And>k. k < rfs_total r \<Longrightarrow> used sector r' k = used sector r k"
    using dir_vol_data [OF v dq, of lba n] vs ext(3) by blast+
qed

lemma zero_fill_bytes:
  assumes "vol_ok ok nblk r" "pos + n \<le> rfs_total r"
  shows "\<exists>r'. zero_fill dv r pos n = (Some (), r') \<and> wrote ok sector r r' (pos * 512) (replicate (n * 512) 0)"
  using assms
proof (induction n arbitrary: r pos rule: less_induct)
  case (less n)
  show ?case
  proof (cases "n = 0")
    case True
    then show ?thesis using wrote_Nil [OF less(2)] by (subst zero_fill.simps) auto
  next
    case False
    let ?b = "min n 16"
    have b: "0 < ?b" "?b \<le> 64" "pos + ?b \<le> rfs_total r" using False less(3) by auto
    obtain r1 where r1: "rfs_write_device dv r pos (?b * 512) (replicate (?b * 512) 0) = (Some (), r1)"
      "wrote ok sector r r1 (pos * 512) (replicate (?b * 512) 0)"
      using writes_bytes [OF less(2) b, of "replicate (?b * 512) 0"] by auto
    note f = wrote_facts [OF r1(2) less(2)]
    have w: "add64 pos ?b = pos + ?b"
      using b(3) disk_size [of "rfs_dev r"] less(2) by (simp add: vol_ok_def add64_nowrap)
    have "n - ?b < n" "pos + ?b + (n - ?b) \<le> rfs_total r1" using False less(3) f(2) by auto
    then obtain r2 where r2: "zero_fill dv r1 (pos + ?b) (n - ?b) = (Some (), r2)"
      "wrote ok sector r1 r2 ((pos + ?b) * 512) (replicate ((n - ?b) * 512) 0)"
      using less(1) [OF _ f(1)] by blast
    have "zero_fill dv r pos n = (Some (), r2)"
      using False r1(1) w r2(1)
      by (subst zero_fill.simps) (simp add: Let_def RFS_MAP_READ_CHUNK_SECTORS_def RFS_SECTOR_SIZE_def)
    moreover have "wrote ok sector r r2 (pos * 512) (replicate (?b * 512) 0 @ replicate ((n - ?b) * 512) 0)"
      by (rule wrote_trans [OF r1(2)]) (use r2(2) in \<open>simp add: add_mult_distrib\<close>)
    moreover have "?b * 512 + (n - ?b) * 512 = n * 512" by (simp add: diff_mult_distrib)
    ultimately show ?thesis by (auto simp flip: replicate_add)
  qed
qed

end

section \<open>Files\<close>

text \<open>The VFS node \<open>file\<close> stands for the file with entry \<open>ent\<close> of the directory: same place and size, and the extent
  is in use and belongs neither to the directory nor to the map.\<close>

definition extent_ok :: "('d \<Rightarrow> nat \<Rightarrow> byte list) \<Rightarrow> 'd rfs \<Rightarrow> nat list \<Rightarrow> nat \<Rightarrow> nat \<Rightarrow> bool" where
  "extent_ok sector r ss lba n \<longleftrightarrow> lba + n \<le> rfs_total r \<and> (\<forall>k. lba \<le> k \<and> k < lba + n \<longrightarrow> used sector r k \<and> outside r ss k)"

definition file_of ::
    "('d \<Rightarrow> nat \<Rightarrow> byte list) \<Rightarrow> 'd rfs \<Rightarrow> nat list \<Rightarrow> fs_directory_entry \<Rightarrow> fs_tree \<Rightarrow> byte list \<Rightarrow> rfs_directory_entry_inner \<Rightarrow> bool" where
  "file_of sector r ss file tree name ent \<longleftrightarrow>
     fe_directory file = Some tree \<and> fe_filename file = Some name \<and> peek name \<noteq> 0 \<and> strlen name < 128 \<and>
     fe_flags file AND FS_DIRECTORY = 0 \<and> dir_map (vsec sector r) ss (fold_name name) = Some ent \<and>
     en_flags ent AND RFS_FLAG_DIRECTORY = 0 \<and> en_sector_start ent = fe_lbapos file \<and> en_length ent = fe_size file \<and>
     fe_size file \<le> en_sector_length ent * 512 \<and> extent_ok sector r ss (fe_lbapos file) (en_sector_length ent)"

lemma extent_ok_cong:
  assumes "extent_ok sector r ss lba n" "steady r r'"
    "\<And>k. k < rfs_total r \<Longrightarrow> used sector r k \<Longrightarrow> outside r ss k \<Longrightarrow> used sector r' k \<and> outside r' ss' k"
  shows "extent_ok sector r' ss' lba n"
  using assms by (auto simp: extent_ok_def steady_def)

lemma outside_steady: "steady r r' \<Longrightarrow> outside r' ss k = outside r ss k"
  by (simp add: outside_def steady_def)

lemma dir_sector_steady: "steady r r' \<Longrightarrow> dir_sector r' tree = dir_sector r tree"
  by (simp add: dir_sector_def steady_def)

lemma vbyte_sectors:
  assumes "\<And>k. lba \<le> k \<Longrightarrow> k < lba + n \<Longrightarrow> vs' k = vs k" "lba * 512 \<le> p" "p < (lba + n) * 512"
  shows "vbyte vs' p = vbyte vs p"
proof -
  have "lba \<le> p div 512" "p div 512 < lba + n" using assms(2,3) by (auto simp: less_eq_div_iff_mult_less_eq div_less_iff_less_mult)
  then show ?thesis using assms(1) by (simp add: vbyte_def)
qed

text \<open>The part of \<^verbatim>\<open>rfs_write_file\<close> behind the lookup.\<close>

definition finish_write ::
    "'d device \<Rightarrow> 'd rfs \<Rightarrow> fs_tree \<Rightarrow> fs_directory_entry \<Rightarrow> rfs_directory_entry_inner \<Rightarrow> nat \<Rightarrow> fs_directory_entry \<times> 'd rfs" where
  "finish_write dv r tree file ent e =
     (if e > en_length ent
      then (file\<lparr>fe_size := e\<rparr>,
            snd (rfs_upsert_directory_entry dv r (new_entry tree (fe_filename file) (fe_lbapos file) 0 e) (en_sector_length ent)))
      else (file, r))"

context reliable_disk
begin

lemma write_file_steps:
  assumes "file_of sector r ss file tree name ent" "rfs_desc r \<noteq> None" "0 < len" "start + len < W64"
    "start + len \<le> en_sector_length ent * 512" "en_sector_length ent * 512 < W64"
    "rfs_locate_entry dv r tree (Some name) = (Some (s, i, ent), r1)"
    "write_data dv r1 (fe_lbapos file) start len buffer = (Some (), r2)"
  shows "rfs_write_file dv r file start len buffer =
    (case finish_write dv r2 tree file ent (start + len) of (f, r') \<Rightarrow> (True, f, r'))"
proof -
  have w: "add64 start len = start + len" "mul64 (en_sector_length ent) 512 = en_sector_length ent * 512"
    using assms(4,6) by (simp_all add: add64_nowrap mul64_nowrap)
  obtain ds where "rfs_desc r = Some ds" using assms(2) by blast
  then show ?thesis
    using assms(1,3,5,7,8) w
    by (simp add: rfs_write_file_def file_of_def finish_write_def RFS_SECTOR_SIZE_def Let_def)
qed

lemma finish_write_ok:
  assumes v: "dir_vol ok nblk sector first ss r" and f: "file_of sector r ss file tree name ent" and len: "length ss \<le> WALK_LIMIT"
    and tree: "dir_sector r tree = first" and e: "e \<le> en_sector_length ent * 512" "en_sector_length ent * 512 < W64"
  shows "\<exists>file' r' ss' ent'. finish_write dv r tree file ent e = (file', r') \<and> dir_vol ok nblk sector first ss' r' \<and>
    file_of sector r' ss' file' tree name ent' \<and> fe_size file' = max (fe_size file) e \<and> fe_lbapos file' = fe_lbapos file \<and>
    en_sector_length ent' = en_sector_length ent \<and> steady r r' \<and>
    dir_map (vsec sector r') ss' = (dir_map (vsec sector r) ss)(fold_name name \<mapsto> ent') \<and>
    (\<forall>k. k < rfs_total r \<and> used sector r k \<and> outside r ss k \<longrightarrow> vsec sector r' k = vsec sector r k)"
proof (cases "e > en_length ent")
  case False
  then have "max (fe_size file) e = fe_size file" using f by (simp add: file_of_def)
  then show ?thesis
    using False v f by (intro exI [of _ "file"] exI [of _ r] exI [of _ ss] exI [of _ ent])
      (simp add: finish_write_def steady_def file_of_def map_upd_triv)
next
  case True
  let ?n = "new_entry tree (fe_filename file) (fe_lbapos file) 0 e" and ?x = "en_sector_length ent"
  have nm: "fe_filename file = Some name" "peek name \<noteq> 0" "strlen name < 128" "fe_directory file = Some tree"
    "extent_ok sector r ss (fe_lbapos file) ?x" "dir_map (vsec sector r) ss (fold_name name) = Some ent" "en_length ent = fe_size file"
    using f by (simp_all add: file_of_def)
  have t: "rfs_total r < W64" using v disk_size [of "rfs_dev r"] by (simp add: dir_vol_def vol_ok_def)
  have nok: "node_ok name ?n ?x" "fe_directory ?n = Some tree" "fe_filename ?n = Some name"
    using nm t e by (auto simp: node_ok_def new_entry_def extent_ok_def)
  obtain res r' where u: "rfs_upsert_directory_entry dv r ?n ?x = (res, r')" "case res of
       Some _ \<Rightarrow> \<exists>ss' e'. dir_vol ok nblk sector first ss' r' \<and> length ss' \<le> length ss + 1 \<and> entry_for name ?n ?x e' \<and>
         dir_map (vsec sector r') ss' = (dir_map (vsec sector r) ss)(fold_name name \<mapsto> e') \<and>
         (\<forall>k. k < rfs_total r \<and> used sector r k \<longrightarrow> used sector r' k) \<and> steady r r' \<and>
         (\<forall>k. used sector r k \<and> outside r ss k \<longrightarrow> outside r' ss' k \<and> vsec sector r' k = vsec sector r k)
     | None \<Rightarrow> rfs_error r' = Some FS_ERR_NO_SPACE \<and> vsec sector r' = vsec sector r \<and>
         dir_vol ok nblk sector first ss r' \<and> steady r r' \<and> dir_map (vsec sector r) ss (fold_name name) = None \<and>
         (\<forall>s\<in>set ss. length (block_list (dblock (vsec sector r) s)) = 127) \<and>
         \<not> (\<exists>g k. g < rfs_l1_groups r \<and> group_run sector r 64 g k)"
    using upsert_refines [OF v len nok(2,3) tree nok(1)] by blast
  then obtain y ss' e' where y: "res = Some y" "dir_vol ok nblk sector first ss' r'" "entry_for name ?n ?x e'"
    "dir_map (vsec sector r') ss' = (dir_map (vsec sector r) ss)(fold_name name \<mapsto> e')"
    "\<forall>k. k < rfs_total r \<and> used sector r k \<longrightarrow> used sector r' k" "steady r r'"
    "\<forall>k. used sector r k \<and> outside r ss k \<longrightarrow> outside r' ss' k \<and> vsec sector r' k = vsec sector r k"
    using nm(6) by (cases res) auto
  have "extent_ok sector r' ss' (fe_lbapos file) ?x" by (rule extent_ok_cong [OF nm(5) y(6)]) (use y(5,7) in blast)
  then have "file_of sector r' ss' (file\<lparr>fe_size := e\<rparr>) tree name e'"
    using f y(3,4) e(1) by (simp add: file_of_def entry_for_def new_entry_def)
  moreover have "finish_write dv r tree file ent e = (file\<lparr>fe_size := e\<rparr>, r')" using True u(1) by (simp add: finish_write_def)
  ultimately show ?thesis using y True nm(7)
    by (intro exI [of _ "file\<lparr>fe_size := e\<rparr>"] exI [of _ r'] exI [of _ ss'] exI [of _ e']) (simp add: entry_for_def)
qed

lemma file_of_touched:
  assumes "file_of sector r ss file tree name ent" "touched ok sector r r'" "dir_vol ok nblk sector first ss r"
  shows "file_of sector r' ss file tree name ent"
proof -
  have st: "steady r r'" by (rule steady_intros(1) [OF assms(2)])
  have vs: "vsec sector r' = vsec sector r" by (rule dir_vol_touched(2) [OF assms(3,2)])
  have "used sector r' k = used sector r k" for k using vs st by (simp add: used_def map_sec_def steady_def)
  then have "extent_ok sector r' ss (fe_lbapos file) (en_sector_length ent)"
    using assms(1) st by (intro extent_ok_cong [OF _ st]) (auto simp: file_of_def outside_steady)
  then show ?thesis using assms(1) vs by (simp add: file_of_def)
qed

lemma locate_file:
  assumes v: "dir_vol ok nblk sector first ss r" and f: "file_of sector r ss file tree name ent" and tree: "dir_sector r tree = first"
  shows "\<exists>s i r1. rfs_locate_entry dv r tree (Some name) = (Some (s, i, ent), r1) \<and> touched ok sector r r1"
proof -
  have "peek name \<noteq> 0" "dir_map (vsec sector r) ss (fold_name name) = Some ent" using f by (simp_all add: file_of_def)
  then show ?thesis using locate_refines [OF v tree, of name] by (auto simp: map_option_case split: option.splits)
qed

lemma write_file_ok:
  assumes v: "dir_vol ok nblk sector first ss r" and mem: "rfs_mem r = (\<lambda>_. True)" and f: "file_of sector r ss file tree name ent"
    and len: "length ss \<le> WALK_LIMIT" and tree: "dir_sector r tree = first" and w: "rfs_total r * 512 < W64"
    and rng: "0 < n" "start + n \<le> en_sector_length ent * 512" "length buffer = n"
  shows "\<exists>file' r' ss' ent'. rfs_write_file dv r file start n buffer = (True, file', r') \<and> dir_vol ok nblk sector first ss' r' \<and>
    file_of sector r' ss' file' tree name ent' \<and> fe_size file' = max (fe_size file) (start + n) \<and>
    fe_lbapos file' = fe_lbapos file \<and> en_sector_length ent' = en_sector_length ent \<and> steady r r' \<and>
    dir_map (vsec sector r') ss' = (dir_map (vsec sector r) ss)(fold_name name \<mapsto> ent') \<and>
    (\<forall>p. fe_lbapos file * 512 \<le> p \<and> p < (fe_lbapos file + en_sector_length ent) * 512 \<longrightarrow>
       vbyte (vsec sector r') p = upd (vbyte (vsec sector r)) (fe_lbapos file * 512 + start) buffer p) \<and>
    (\<forall>k. k < rfs_total r \<and> used sector r k \<and> outside r ss k \<and>
       \<not> (fe_lbapos file \<le> k \<and> k < fe_lbapos file + en_sector_length ent) \<longrightarrow> vsec sector r' k = vsec sector r k)"
proof -
  let ?lba = "fe_lbapos file" and ?x = "en_sector_length ent"
  obtain s i r1 where l: "rfs_locate_entry dv r tree (Some name) = (Some (s, i, ent), r1)" "touched ok sector r r1"
    using locate_file [OF v f tree] by blast
  have m: "vol_ok ok nblk r" and ds: "rfs_desc r \<noteq> None" using v by (auto simp: dir_vol_def mirror_def geom_ok_def)
  note v1 = dir_vol_touched [OF v l(2)] and t1 = touched_facts [OF l(2) m] and f1 = file_of_touched [OF f l(2) v]
  have ext: "?lba + ?x \<le> rfs_total r" "\<And>k. ?lba \<le> k \<Longrightarrow> k < ?lba + ?x \<Longrightarrow> used sector r1 k \<and> outside r1 ss k"
    using f f1 by (auto simp: file_of_def extent_ok_def)
  have xw: "?x * 512 < W64" "start + n < W64" using ext(1) w rng(2) by linarith+
  have fits: "?lba * 512 + start + n \<le> rfs_total r1 * 512" using ext(1) rng(2) t1(3) by linarith
  obtain r2 where r2: "write_data dv r1 ?lba start n buffer = (Some (), r2)" "wrote ok sector r1 r2 (?lba * 512 + start) buffer"
    using write_data_bytes [OF t1(1) _ rng(1) xw(2) fits rng(3)] mem t1(5) by auto
  have rg: "?lba * 512 \<le> ?lba * 512 + start" "?lba * 512 + start + length buffer \<le> (?lba + ?x) * 512"
    using rng(2,3) by (simp_all add: add_mult_distrib)
  note v2 = dir_vol_wrote [OF v1(1) r2(2) rg]
  have v2': "dir_vol ok nblk sector first ss r2" "dir_map (vsec sector r2) ss = dir_map (vsec sector r) ss"
    "\<And>k. k < rfs_total r \<Longrightarrow> used sector r2 k = used sector r1 k"
    "\<And>k. k < rfs_total r \<Longrightarrow> \<not> (?lba \<le> k \<and> k < ?lba + ?x) \<Longrightarrow> vsec sector r2 k = vsec sector r k"
    using v2 ext(2) v1(2) t1(3) by auto
  have st2: "steady r1 r2" "steady r r2"
    using steady_intros(4) [OF r2(2)] steady_trans [OF steady_intros(1) [OF l(2)]] by blast+
  have e2: "extent_ok sector r2 ss ?lba ?x"
    using f1 v2'(3) st2(1) t1(3) by (intro extent_ok_cong [OF _ st2(1)]) (auto simp: file_of_def outside_steady)
  then have f2: "file_of sector r2 ss file tree name ent" using f1 v2'(2) v1(2) by (simp add: file_of_def)
  have tree2: "dir_sector r2 tree = first" using tree dir_sector_steady [OF st2(2)] by simp
  obtain file' r' ss' ent' where fin: "finish_write dv r2 tree file ent (start + n) = (file', r')" "dir_vol ok nblk sector first ss' r'"
    "file_of sector r' ss' file' tree name ent'" "fe_size file' = max (fe_size file) (start + n)" "fe_lbapos file' = ?lba"
    "en_sector_length ent' = ?x" "steady r2 r'"
    "dir_map (vsec sector r') ss' = (dir_map (vsec sector r2) ss)(fold_name name \<mapsto> ent')"
    "\<forall>k. k < rfs_total r2 \<and> used sector r2 k \<and> outside r2 ss k \<longrightarrow> vsec sector r' k = vsec sector r2 k"
    using finish_write_ok [OF v2'(1) f2 len tree2 rng(2) xw(1)] by blast
  have vb: "vbyte (vsec sector r') p = upd (vbyte (vsec sector r)) (?lba * 512 + start) buffer p"
    if p: "?lba * 512 \<le> p" "p < (?lba + ?x) * 512" for p
  proof -
    have "vsec sector r' k = vsec sector r2 k" if "?lba \<le> k" "k < ?lba + ?x" for k
      using fin(9) e2 that by (auto simp: extent_ok_def)
    then have "vbyte (vsec sector r') p = vbyte (vsec sector r2) p" by (rule vbyte_sectors [OF _ p])
    then show ?thesis using wrote_facts(5) [OF r2(2) t1(1)] v1(2) by simp
  qed
  have oth: "vsec sector r' k = vsec sector r k" if "k < rfs_total r" "used sector r k" "outside r ss k" "\<not> (?lba \<le> k \<and> k < ?lba + ?x)" for k
  proof -
    have "used sector r1 k" using that(2) v1(2) t1(4) by (simp add: used_def map_sec_def)
    then have "used sector r2 k" using v2'(3) [OF that(1)] by simp
    moreover have "outside r2 ss k" using that(3) outside_steady [OF st2(2)] by simp
    moreover have "k < rfs_total r2" using that(1) st2(2) by (simp add: steady_def)
    ultimately have "vsec sector r' k = vsec sector r2 k" using fin(9) by blast
    then show ?thesis using v2'(4) [OF that(1,4)] by simp
  qed
  have "rfs_write_file dv r file start n buffer = (True, file', r')"
    using write_file_steps [OF f ds rng(1) xw(2) rng(2) xw(1) l(1) r2(1)] fin(1) by simp
  moreover have "steady r r'" by (rule steady_trans [OF st2(2) fin(7)])
  ultimately show ?thesis using fin(2-6,8) vb oth v2'(2)
    by (intro exI [of _ file'] exI [of _ r'] exI [of _ ss'] exI [of _ ent']) simp
qed

lemma read_file_ok:
  assumes "vol_ok ok nblk r" "rfs_mem r = (\<lambda>_. True)" "rfs_desc r \<noteq> None" "fe_directory file \<noteq> None"
    "fe_flags file AND FS_DIRECTORY = 0" "fe_lbapos file * 512 + fe_size file \<le> rfs_total r * 512" "start + n < W64"
  shows "\<exists>res r'. rfs_read_file dv r file start n = (res, r') \<and> vsec sector r' = vsec sector r \<and>
    (if n = 0 \<or> start + n \<le> fe_size file then res = Some (vbytes (vsec sector r) (fe_lbapos file * 512 + start) n)
     else res = None \<and> rfs_error r' = Some FS_ERR_SEEK_PAST_END)"
proof -
  have a: "add64 start n = start + n" using assms(7) by (simp add: add64_nowrap)
  obtain ds tr where d: "rfs_desc r = Some ds" "fe_directory file = Some tr" using assms(3,4) by blast
  consider "n = 0" | "n \<noteq> 0" "start + n \<le> fe_size file" | "n \<noteq> 0" "fe_size file < start + n" by linarith
  then show ?thesis
  proof cases
    case 1
    then show ?thesis by (simp add: rfs_read_file_def)
  next
    case 2
    then have "lba * 512 + start + n \<le> rfs_total r * 512" if "lba = fe_lbapos file" for lba using assms(6) that by simp
    then obtain r' where r': "read_data dv r (fe_lbapos file) start n = (Some (vbytes (vsec sector r) (fe_lbapos file * 512 + start) n), r')"
      "touched ok sector r r'"
      using read_data_bytes [OF assms(1,2) _ assms(7)] 2(1) by blast
    then show ?thesis using 2 a d assms(5) touched_facts(2) [OF r'(2) assms(1)] by (simp add: rfs_read_file_def)
  next
    case 3
    then show ?thesis using a d assms(5) by (auto simp: rfs_read_file_def fs_set_error_def vsec_def [abs_def])
  qed
qed

section \<open>Creating and removing\<close>

lemma create_alloc:
  assumes v: "dir_vol ok nblk sector first ss r" and n: "0 < n" "n \<le> 4096" "n \<le> rfs_total r"
    and fe: "rfs_find_free_extent dv r n = (Some start, r1)"
  shows "\<exists>r2 r3. rfs_mark_extent dv (r1\<lparr>rfs_requests := q\<rparr>) start n True = (Some (), r2) \<and> zero_fill dv r2 start n = (Some (), r3) \<and>
    start + n \<le> rfs_total r \<and> (\<forall>k. start \<le> k \<and> k < start + n \<longrightarrow> \<not> used sector r k \<and> outside r ss k) \<and>
    dir_vol ok nblk sector first ss r3 \<and> steady r r3 \<and> dir_map (vsec sector r3) ss = dir_map (vsec sector r) ss \<and>
    (\<forall>k<rfs_total r. used sector r3 k \<longleftrightarrow> start \<le> k \<and> k < start + n \<or> used sector r k) \<and>
    (\<forall>k. start \<le> k \<and> k < start + n \<longrightarrow> vsec sector r3 k = replicate 512 0) \<and>
    (\<forall>k. k < rfs_total r \<and> used sector r k \<and> \<not> (map_start r \<le> k \<and> k < map_start r + rfs_l1_groups r) \<longrightarrow>
       vsec sector r3 k = vsec sector r k)"
proof -
  have m: "vol_ok ok nblk r" "mirror sector r" using v by (auto simp: dir_vol_def)
  obtain r0 where r0: "reads r r0" "r1 = r0" "start + n \<le> rfs_total r" "\<And>j. start \<le> j \<and> j < start + n \<Longrightarrow> \<not> used sector r j"
    using find_extent_ok [OF m(1) mirror_all_free_sound [OF m(2)] n fe] by auto
  let ?r = "r1\<lparr>rfs_requests := q\<rparr>"
  have t: "touched ok sector r ?r"
    unfolding r0(2) by (rule touched_trans [OF reads_touched [OF r0(1)] touched_malloc [OF reads_facts(1) [OF r0(1) m(1)]]])
  note v1 = dir_vol_touched [OF v t] and f1 = touched_facts [OF t m(1)]
  have st1: "steady r ?r" by (rule steady_intros(1) [OF t])
  have u1: "used sector ?r k = used sector r k" for k using v1(2) f1(4) by (simp add: used_def map_sec_def)
  have out: "outside r ss k" if "start \<le> k" "k < start + n" for k
  proof (rule ccontr)
    assume "\<not> outside r ss k"
    then have "used sector r k"
      using v unfolding outside_def dir_vol_def by (metis le_add_diff_inverse nat_add_left_cancel_less)
    then show False using r0(4) that by blast
  qed
  have m1: "vol_ok ok nblk ?r" "mirror sector ?r" using v1(1) by (auto simp: dir_vol_def)
  have fit: "start + n \<le> rfs_total ?r" using r0(3) f1(3) by simp
  obtain r2 where r2: "rfs_mark_extent dv ?r start n True = (Some (), r2)" "vol_ok ok nblk r2" "mirror sector r2" "frame ?r r2"
    "\<forall>k. \<not> (map_start ?r \<le> k \<and> k < map_start ?r + rfs_l1_groups ?r) \<longrightarrow> vsec sector r2 k = vsec sector ?r k"
    "\<forall>k<rfs_total ?r. used sector r2 k = (if start \<le> k \<and> k < start + n then True else used sector ?r k)"
    using mark_succeeds [OF m1 fit n(1), of True] by blast
  have v2: "dir_vol ok nblk sector first ss r2" "\<And>s. s \<in> set ss \<Longrightarrow> dblock (vsec sector r2) s = dblock (vsec sector ?r) s"
    using dir_vol_marked [OF v1(1) r2(2-4)] r2(5,6) by auto
  have st2: "steady r r2" by (rule steady_trans [OF st1 steady_intros(3) [OF r2(4)]])
  have dm2: "dir_map (vsec sector r2) ss = dir_map (vsec sector r) ss"
    using v2(2) v1(2) unfolding dir_map_def dir_list_def by (metis (mono_tags, lifting) map_cong)
  obtain r3 where r3: "zero_fill dv r2 start n = (Some (), r3)" "wrote ok sector r2 r3 (start * 512) (replicate (n * 512) 0)"
    using zero_fill_bytes [OF r2(2), of start n] r0(3) st2 by (auto simp: steady_def)
  have rg: "start * 512 \<le> start * 512" "start * 512 + length (replicate (n * 512) (0 :: byte)) \<le> (start + n) * 512"
    by (simp_all add: add_mult_distrib)
  have t2: "rfs_total r2 = rfs_total r" using st2 by (simp add: steady_def)
  have out2: "outside r2 ss k" if "start \<le> k" "k < start + n" for k using out [OF that] outside_steady [OF st2] by simp
  note v3 = dir_vol_wrote [OF v2(1) r3(2) rg]
  have v3': "dir_vol ok nblk sector first ss r3" "dir_map (vsec sector r3) ss = dir_map (vsec sector r2) ss"
    "\<And>k. k < rfs_total r \<Longrightarrow> used sector r3 k = used sector r2 k"
    "\<And>k. k < rfs_total r \<Longrightarrow> \<not> (start \<le> k \<and> k < start + n) \<Longrightarrow> vsec sector r3 k = vsec sector r2 k"
    using v3 out2 t2 by auto
  have st3: "steady r r3" by (rule steady_trans [OF st2 steady_intros(4) [OF r3(2)]])
  have z: "vsec sector r3 k = replicate 512 0" if k: "start \<le> k" "k < start + n" for k
  proof -
    have l: "length (vsec sector r3 k) = 512"
      using vsec_length [of r3 k] v3'(1) st3 k(2) r0(3) by (simp add: dir_vol_def steady_def)
    have "vbyte (vsec sector r3) p = 0" if "k * 512 \<le> p" "p < k * 512 + 512" for p
      unfolding wrote_facts(5) [OF r3(2) r2(2)] using that k by (simp add: upd_def)
    then have "vbytes (vsec sector r3) (k * 512) 512 = replicate 512 0"
      by (intro nth_equalityI) (simp_all add: vbytes_def)
    then show ?thesis using sector_vbytes [of "vsec sector r3" k] l by simp
  qed
  have keep: "vsec sector r3 k = vsec sector r k"
    if "k < rfs_total r" "used sector r k" "\<not> (map_start r \<le> k \<and> k < map_start r + rfs_l1_groups r)" for k
  proof -
    have "vsec sector r3 k = vsec sector r2 k" using v3'(4) [OF that(1)] r0(4) that(2) by blast
    moreover have "vsec sector r2 k = vsec sector ?r k" using r2(5) that(3) st1 by (auto simp: steady_def)
    ultimately show ?thesis using v1(2) by simp
  qed
  have us: "used sector r3 k \<longleftrightarrow> start \<le> k \<and> k < start + n \<or> used sector r k" if "k < rfs_total r" for k
    using v3'(3) [OF that] r2(6) that f1(3) u1 by auto
  show ?thesis using r2(1) r3(1) r0(3,4) out v3'(1,2) st3 dm2 us z keep
    by (intro exI [of _ r2] exI [of _ r3]) simp
qed

lemma mark_free_again:
  assumes v: "dir_vol ok nblk sector first ss r" and ext: "start + n \<le> rfs_total r" "0 < n"
    "\<And>k. start \<le> k \<Longrightarrow> k < start + n \<Longrightarrow> k \<noteq> 0 \<and> outside r ss k"
  shows "\<exists>r'. rfs_mark_extent dv r start n False = (Some (), r') \<and> dir_vol ok nblk sector first ss r' \<and> steady r r' \<and>
    dir_map (vsec sector r') ss = dir_map (vsec sector r) ss \<and>
    (\<forall>k. outside r ss k \<longrightarrow> vsec sector r' k = vsec sector r k) \<and>
    (\<forall>k<rfs_total r. used sector r' k \<longleftrightarrow> \<not> (start \<le> k \<and> k < start + n) \<and> used sector r k)"
proof -
  have m: "vol_ok ok nblk r" "mirror sector r" using v by (auto simp: dir_vol_def)
  obtain r' where r': "rfs_mark_extent dv r start n False = (Some (), r')" "vol_ok ok nblk r'" "mirror sector r'" "frame r r'"
    "\<forall>k. \<not> (map_start r \<le> k \<and> k < map_start r + rfs_l1_groups r) \<longrightarrow> vsec sector r' k = vsec sector r k"
    "\<forall>k<rfs_total r. used sector r' k = (if start \<le> k \<and> k < start + n then False else used sector r k)"
    using mark_succeeds [OF m ext(1,2), of False] by blast
  have keep: "used sector r' k" if "k < rfs_total r" "used sector r k" "k = 0 \<or> \<not> outside r ss k" for k
    using r'(6) ext(3) [of k] that by auto
  have v': "dir_vol ok nblk sector first ss r'" by (rule dir_vol_marked(1) [OF v r'(2-4)]) (use r'(5) keep in auto)
  have db: "dblock (vsec sector r') s = dblock (vsec sector r) s" if "s \<in> set ss" for s
    by (rule dir_vol_marked(2) [OF v r'(2-4) _ _ that]) (use r'(5) keep in auto)
  have "dir_map (vsec sector r') ss = dir_map (vsec sector r) ss"
    using db unfolding dir_map_def dir_list_def by (metis (mono_tags, lifting) map_cong)
  then show ?thesis using r' v' steady_intros(3) [OF r'(4)]
    by (intro exI [of _ r']) (auto simp: outside_def)
qed

lemma create_file_ok:
  assumes v: "dir_vol ok nblk sector first ss r" and mem: "rfs_mem r = (\<lambda>_. True)" and len: "length ss \<le> WALK_LIMIT"
    and tree: "dir_sector r tree = first" and name: "peek name \<noteq> 0" "strlen name < 128"
    and absent: "dir_map (vsec sector r) ss (fold_name name) = None" and low: "\<And>k. k < 65 \<Longrightarrow> used sector r k"
    and n: "n = reserve_sectors name sz" "n \<le> 4096" "n \<le> rfs_total r" "sz \<le> n * 512"
  shows "\<exists>res r'. rfs_create_file dv r tree name sz = (res, r') \<and>
    (case res of
       Some start \<Rightarrow> \<exists>ss' ent. dir_vol ok nblk sector first ss' r' \<and> length ss' \<le> length ss + 1 \<and>
         file_of sector r' ss' (new_entry tree (Some name) start 0 sz) tree name ent \<and> en_sector_length ent = n \<and>
         dir_map (vsec sector r') ss' = (dir_map (vsec sector r) ss)(fold_name name \<mapsto> ent) \<and> steady r r' \<and>
         (\<forall>k. start \<le> k \<and> k < start + n \<longrightarrow> \<not> used sector r k \<and> vsec sector r' k = replicate 512 0) \<and>
         (\<forall>k. k < rfs_total r \<and> used sector r k \<and> outside r ss k \<longrightarrow> vsec sector r' k = vsec sector r k)
     | None \<Rightarrow> dir_vol ok nblk sector first ss r' \<and> dir_map (vsec sector r') ss = dir_map (vsec sector r) ss \<and>
         (\<forall>k<rfs_total r. used sector r' k = used sector r k) \<and>
         ((\<forall>g k. g < rfs_l1_groups r \<longrightarrow> \<not> group_run sector r n g k) \<or>
          (\<forall>s\<in>set ss. length (block_list (dblock (vsec sector r) s)) = 127)))"
proof -
  have m: "vol_ok ok nblk r" "mirror sector r" using v by (auto simp: dir_vol_def)
  obtain ds where ds: "rfs_desc r = Some ds" using m(2) by (auto simp: mirror_def geom_ok_def)
  obtain r1 where l: "rfs_locate_entry dv r tree (Some name) = (None, r1)" "touched ok sector r r1"
    using locate_refines [OF v tree name(1)] absent by auto
  note v1 = dir_vol_touched [OF v l(2)] and f1 = touched_facts [OF l(2) m(1)]
  have st1: "steady r r1" by (rule steady_intros(1) [OF l(2)])
  have u1: "used sector r1 k = used sector r k" for k using v1(2) f1(4) by (simp add: used_def map_sec_def)
  have o1: "outside r1 ss k = outside r ss k" for k by (rule outside_steady [OF st1])
  have n0: "0 < n" unfolding n(1) reserve_sectors_def Let_def by simp
  have n1: "n \<le> rfs_total r1" using n(3) f1(3) by simp
  obtain fres r2 where fe: "rfs_find_free_extent dv r1 n = (fres, r2)" by (cases "rfs_find_free_extent dv r1 n")
  have c: "rfs_create_file dv r tree name sz =
    (case fres of None \<Rightarrow> (None, fs_set_error FS_ERR_NO_SPACE r2)
     | Some start \<Rightarrow>
         if start < 65 then (None, r2)
         else case rfs_kmalloc r2 of
                (False, r3) \<Rightarrow> (None, fs_set_error FS_ERR_OUT_OF_MEMORY r3)
              | (True, r3) \<Rightarrow>
                  and_then (rfs_mark_extent dv r3 start n True) (\<lambda>_ r4.
                    case zero_fill dv r4 start n of
                      (None, r5) \<Rightarrow> (None, snd (rfs_mark_extent dv r5 start n False))
                    | (Some _, r5) \<Rightarrow>
                        (case rfs_upsert_directory_entry dv r5 (new_entry tree (Some name) start 0 sz) n of
                           (None, r6) \<Rightarrow> (None, snd (rfs_mark_extent dv r6 start n False))
                         | (Some _, r6) \<Rightarrow> (Some start, r6))))"
    using name(1) ds l(1) fe unfolding rfs_create_file_def n(1) [symmetric] by (auto simp: Let_def split: option.splits)
  have m1: "vol_ok ok nblk r1" "mirror sector r1" using v1(1) by (auto simp: dir_vol_def)
  have gr: "group_run sector r1 n g k = group_run sector r n g k" "rfs_l1_groups r1 = rfs_l1_groups r" for g k
    using st1 v1(2) f1(3) by (auto simp: steady_def group_run_def map_sec_def rfs_group_size_def Let_def)
  have geom: "geom_ok r1" using m1(2) by (simp add: mirror_def)
  obtain r0 where r0: "reads r1 r0" "fres = None \<longrightarrow> r2 = fs_set_error FS_ERR_NO_SPACE r0 \<and>
      (\<forall>g k. g < rfs_l1_groups r \<longrightarrow> \<not> group_run sector r n g k)" "fres \<noteq> None \<longrightarrow> r2 = r0"
    using find_extent_ok [OF m1(1) mirror_all_free_sound [OF m1(2)] n0 n(2) n1 fe] load_succeeds [OF _ m1(1) geom] m1(2) gr
    by (cases fres) fastforce+
  note t0 = reads_touched [OF r0(1)]
  show ?thesis
  proof (cases fres)
    case None
    have v0: "dir_vol ok nblk sector first ss r0" "vsec sector r0 = vsec sector r"
      using dir_vol_touched [OF v1(1) t0] v1(2) by auto
    have "dir_vol ok nblk sector first ss r2" using r0(2) None dir_vol_error [OF v0(1)] by simp
    then have "dir_vol ok nblk sector first ss (fs_set_error FS_ERR_NO_SPACE r2)" by (rule dir_vol_error)
    moreover have "vsec sector (fs_set_error FS_ERR_NO_SPACE r2) = vsec sector r"
      using r0(2) None v0(2) by (auto simp: fs_set_error_def vsec_def [abs_def])
    moreover have "rfs_desc r0 = rfs_desc r" using steady_intros(1) [OF t0] st1 by (simp add: steady_def)
    then have "rfs_desc (fs_set_error FS_ERR_NO_SPACE r2) = rfs_desc r" using r0(2) None by (auto simp: fs_set_error_def)
    ultimately show ?thesis using c None r0(2) by (simp add: used_def map_sec_def)
  next
    case (Some start)
    let ?q = "Suc (rfs_requests r2)"
    obtain r4 r5 where a: "rfs_mark_extent dv (r2\<lparr>rfs_requests := ?q\<rparr>) start n True = (Some (), r4)" "zero_fill dv r4 start n = (Some (), r5)"
      "start + n \<le> rfs_total r1" "\<forall>k. start \<le> k \<and> k < start + n \<longrightarrow> \<not> used sector r1 k \<and> outside r1 ss k"
      "dir_vol ok nblk sector first ss r5" "steady r1 r5" "dir_map (vsec sector r5) ss = dir_map (vsec sector r1) ss"
      "\<forall>k<rfs_total r1. used sector r5 k \<longleftrightarrow> start \<le> k \<and> k < start + n \<or> used sector r1 k"
      "\<forall>k. start \<le> k \<and> k < start + n \<longrightarrow> vsec sector r5 k = replicate 512 0"
      "\<forall>k. k < rfs_total r1 \<and> used sector r1 k \<and> \<not> (map_start r1 \<le> k \<and> k < map_start r1 + rfs_l1_groups r1) \<longrightarrow>
         vsec sector r5 k = vsec sector r1 k"
      using create_alloc [OF v1(1) n0 n(2) n1, of start r2 ?q] fe Some by blast
    have st5: "steady r r5" by (rule steady_trans [OF st1 a(6)])
    have s65: "\<not> start < 65" using low [of start] a(4) n0 u1 by auto
    have "rfs_mem r2 = (\<lambda>_. True)" using r0(3) Some mem f1(5) steady_intros(1) [OF t0] by (simp add: steady_def)
    then have km: "rfs_kmalloc r2 = (True, r2\<lparr>rfs_requests := ?q\<rparr>)" by (simp add: rfs_kmalloc_def)
    let ?f = "new_entry tree (Some name) start 0 sz"
    have tw: "rfs_total r < W64" using m(1) disk_size [of "rfs_dev r"] by (simp add: vol_ok_def)
    have "sz < W64" using n(2,4) by (simp add: W64_def)
    then have nok: "node_ok name ?f n" "fe_directory ?f = Some tree" "fe_filename ?f = Some name"
      using name a(3) n(3) tw f1(3) by (auto simp: node_ok_def new_entry_def)
    have tree5: "dir_sector r5 tree = first" using tree dir_sector_steady [OF st5] by simp
    obtain ures r6 where u: "rfs_upsert_directory_entry dv r5 ?f n = (ures, r6)" "case ures of
       Some _ \<Rightarrow> \<exists>ss' e'. dir_vol ok nblk sector first ss' r6 \<and> length ss' \<le> length ss + 1 \<and> entry_for name ?f n e' \<and>
         dir_map (vsec sector r6) ss' = (dir_map (vsec sector r5) ss)(fold_name name \<mapsto> e') \<and>
         (\<forall>k. k < rfs_total r5 \<and> used sector r5 k \<longrightarrow> used sector r6 k) \<and> steady r5 r6 \<and>
         (\<forall>k. used sector r5 k \<and> outside r5 ss k \<longrightarrow> outside r6 ss' k \<and> vsec sector r6 k = vsec sector r5 k)
     | None \<Rightarrow> rfs_error r6 = Some FS_ERR_NO_SPACE \<and> vsec sector r6 = vsec sector r5 \<and>
         dir_vol ok nblk sector first ss r6 \<and> steady r5 r6 \<and> dir_map (vsec sector r5) ss (fold_name name) = None \<and>
         (\<forall>s\<in>set ss. length (block_list (dblock (vsec sector r5) s)) = 127) \<and>
         \<not> (\<exists>g k. g < rfs_l1_groups r5 \<and> group_run sector r5 64 g k)"
      using upsert_refines [OF a(5) len nok(2,3) tree5 nok(1)] by blast
    have e: "rfs_create_file dv r tree name sz =
        (case ures of None \<Rightarrow> (None, snd (rfs_mark_extent dv r6 start n False)) | Some _ \<Rightarrow> (Some start, r6))"
      using c Some s65 km a(1,2) u(1) by (simp split: option.splits)
    have o5: "outside r5 ss k" if "start \<le> k" "k < start + n" for k using a(4) that outside_steady [OF a(6)] by simp
    have t5: "rfs_total r5 = rfs_total r" using st5 by (simp add: steady_def)
    show ?thesis
    proof (cases ures)
      case None
      then have u': "vsec sector r6 = vsec sector r5" "dir_vol ok nblk sector first ss r6" "steady r5 r6" using u(2) by auto
      have "k \<noteq> 0 \<and> outside r6 ss k" if "start \<le> k" "k < start + n" for k
        using o5 [OF that] outside_steady [OF u'(3)] that s65 by auto
      then obtain r7 where r7: "rfs_mark_extent dv r6 start n False = (Some (), r7)" "dir_vol ok nblk sector first ss r7"
        "dir_map (vsec sector r7) ss = dir_map (vsec sector r6) ss"
        "\<forall>k<rfs_total r6. used sector r7 k \<longleftrightarrow> \<not> (start \<le> k \<and> k < start + n) \<and> used sector r6 k"
        using mark_free_again [OF u'(2) _ n0, of start] a(3) u'(3) t5 f1(3) by (auto simp: steady_def)
      have "used sector r7 k = used sector r k" if "k < rfs_total r" for k
      proof -
        have "used sector r6 k = used sector r5 k" using u'(1,3) by (simp add: used_def map_sec_def steady_def)
        then show ?thesis using r7(4) a(4,8) that t5 u'(3) f1(3) u1 by (auto simp: steady_def)
      qed
      moreover have "length (block_list (dblock (vsec sector r) s)) = 127" if s: "s \<in> set ss" for s
      proof -
        have "dblock (vsec sector r5) s = dblock (vsec sector r) s"
        proof (rule dblock_cong)
          fix k assume k: "s \<le> k" "k < s + 64"
          then have "used sector r1 k" "k < rfs_total r1" "\<not> (map_start r1 \<le> k \<and> k < map_start r1 + rfs_l1_groups r1)"
            using dir_vol_chain(1,2) [OF v1(1) s] v1(1) s by (auto simp: dir_vol_def clear_of_map_def)
          then show "vsec sector r5 k = vsec sector r k" using a(10) v1(2) by simp
        qed
        moreover have "length (block_list (dblock (vsec sector r5) s)) = 127" using u(2) None s by simp
        ultimately show ?thesis by simp
      qed
      ultimately show ?thesis using e None r7(1-3) u'(1) a(7) v1(2) by auto
    next
      case (Some y)
      then obtain ss' ent where yl: "length ss' \<le> length ss + 1" and y: "dir_vol ok nblk sector first ss' r6" "entry_for name ?f n ent"
        "dir_map (vsec sector r6) ss' = (dir_map (vsec sector r5) ss)(fold_name name \<mapsto> ent)"
        "\<forall>k. k < rfs_total r5 \<and> used sector r5 k \<longrightarrow> used sector r6 k" "steady r5 r6"
        "\<forall>k. used sector r5 k \<and> outside r5 ss k \<longrightarrow> outside r6 ss' k \<and> vsec sector r6 k = vsec sector r5 k"
        using u(2) by auto
      have ex: "extent_ok sector r5 ss start n"
        using a(3,8) o5 t5 f1(3) by (auto simp: extent_ok_def)
      have "extent_ok sector r6 ss' start n" by (rule extent_ok_cong [OF ex y(5)]) (use y(4,6) in blast)
      then have fo: "file_of sector r6 ss' ?f tree name ent"
        using y(2,3) name n(4) by (simp add: file_of_def entry_for_def new_entry_def)
      have z: "\<not> used sector r k \<and> vsec sector r6 k = replicate 512 0" if "start \<le> k" "k < start + n" for k
        using a(4,9) y(6) ex that u1 by (auto simp: extent_ok_def)
      have keep: "vsec sector r6 k = vsec sector r k" if "k < rfs_total r" "used sector r k" "outside r ss k" for k
      proof -
        have "used sector r5 k" "outside r5 ss k" using a(8) that f1(3) u1 outside_steady [OF st5] by auto
        moreover have "vsec sector r5 k = vsec sector r k"
          using a(10) that f1(3) u1 o1 [of k] v1(2) unfolding outside_def by simp
        ultimately show ?thesis using y(6) by simp
      qed
      have "dir_map (vsec sector r6) ss' = (dir_map (vsec sector r) ss)(fold_name name \<mapsto> ent)"
        using y(3) a(7) v1(2) by simp
      moreover have "steady r r6" by (rule steady_trans [OF st5 y(5)])
      moreover have "en_sector_length ent = n" using y(2) by (simp add: entry_for_def)
      ultimately show ?thesis using e Some y(1) yl fo z keep
        by (intro exI [of _ "Some start"] exI [of _ r6]) auto
    qed
  qed
qed

lemma unlink_file_ok:
  assumes v: "dir_vol ok nblk sector first ss r" and f: "file_of sector r ss file tree name ent" and tree: "dir_sector r tree = first"
    and n: "n = en_sector_length ent" "io_size n" and lba: "fe_lbapos file \<noteq> 0"
  shows "\<exists>r'. rfs_unlink_file dv r tree name = (Some (), r') \<and> dir_vol ok nblk sector first ss r' \<and>
    dir_map (vsec sector r') ss = (dir_map (vsec sector r) ss)(fold_name name := None) \<and>
    (\<forall>k. fe_lbapos file \<le> k \<and> k < fe_lbapos file + n \<longrightarrow> \<not> used sector r' k) \<and>
    (\<forall>k. k < rfs_total r \<and> used sector r k \<and> \<not> (fe_lbapos file \<le> k \<and> k < fe_lbapos file + n) \<longrightarrow>
       used sector r' k \<and> (outside r ss k \<longrightarrow> vsec sector r' k = vsec sector r k))"
proof -
  let ?lba = "fe_lbapos file"
  obtain s i r1 where l: "rfs_locate_entry dv r tree (Some name) = (Some (s, i, ent), r1)" "touched ok sector r r1"
    using locate_file [OF v f tree] by blast
  have m: "vol_ok ok nblk r" "mirror sector r" using v by (auto simp: dir_vol_def)
  obtain ds where ds: "rfs_desc r = Some ds" using m(2) by (auto simp: mirror_def geom_ok_def)
  note v1 = dir_vol_touched [OF v l(2)] and f1 = file_of_touched [OF f l(2) v] and st1 = steady_intros(1) [OF l(2)]
  have nm: "peek name \<noteq> 0" "en_flags ent AND RFS_FLAG_DIRECTORY = 0" "en_sector_start ent = ?lba"
    and ex: "extent_ok sector r1 ss ?lba n"
    using f f1 n(1) by (simp_all add: file_of_def)
  let ?f = "new_entry tree (Some name) 0 0 0"
  have fd: "fe_directory ?f = Some tree" "fe_filename ?f = Some name" by (simp_all add: new_entry_def)
  have tree1: "dir_sector r1 tree = first" using tree dir_sector_steady [OF st1] by simp
  have "dir_map (vsec sector r1) ss (fold_name name) = Some ent" using f1 by (simp add: file_of_def)
  then obtain u r2 where r2: "rfs_delete_directory_entry dv r1 ?f = (Some u, r2)" "dir_vol ok nblk sector first ss r2"
    "dir_map (vsec sector r2) ss = (dir_map (vsec sector r1) ss)(fold_name name := None)"
    "\<forall>k. k < rfs_total r1 \<and> used sector r1 k \<longrightarrow> used sector r2 k" "steady r1 r2"
    "\<forall>k. used sector r1 k \<and> outside r1 ss k \<longrightarrow> outside r2 ss k \<and> vsec sector r2 k = vsec sector r1 k"
    using delete_refines [OF v1(1) fd tree1 nm(1)] by (elim exE conjE) auto
  have ex2: "extent_ok sector r2 ss ?lba n" by (rule extent_ok_cong [OF ex r2(5)]) (use r2(4,6) in blast)
  have n0: "0 < n" using n(2) by (simp add: io_size_def)
  have out2: "k \<noteq> 0 \<and> outside r2 ss k" if "?lba \<le> k" "k < ?lba + n" for k using ex2 that lba by (auto simp: extent_ok_def)
  obtain r3 where r3: "rfs_mark_extent dv r2 ?lba n False = (Some (), r3)" "dir_vol ok nblk sector first ss r3" "steady r2 r3"
    "dir_map (vsec sector r3) ss = dir_map (vsec sector r2) ss" "\<forall>k. outside r2 ss k \<longrightarrow> vsec sector r3 k = vsec sector r2 k"
    "\<forall>k<rfs_total r2. used sector r3 k \<longleftrightarrow> \<not> (?lba \<le> k \<and> k < ?lba + n) \<and> used sector r2 k"
    using mark_free_again [OF r2(2) _ n0, of ?lba] ex2 out2 by (auto simp: extent_ok_def)
  have st: "steady r r3" by (rule steady_trans [OF st1 steady_trans [OF r2(5) r3(3)]])
  have t: "rfs_total r1 = rfs_total r" "rfs_total r2 = rfs_total r" "rfs_total r3 = rfs_total r"
    using st1 r2(5) r3(3) by (simp_all add: steady_def)
  have v3: "vol_ok ok nblk r3" using r3(2) by (simp add: dir_vol_def)
  have fit: "?lba + n \<le> rfs_total r3" using ex2 t by (simp add: extent_ok_def)
  obtain res d where cl: "rfs_clear_device dv r3 ?lba (n * 512) = (res, r3\<lparr>rfs_dev := d\<rparr>)" "ok d"
    "\<forall>k. k < ?lba \<or> ?lba + n \<le> k \<longrightarrow> vsec sector (r3\<lparr>rfs_dev := d\<rparr>) k = vsec sector r3 k"
    using rfs_clear_ok [OF v3 n(2) fit] by blast
  let ?r4 = "r3\<lparr>rfs_dev := d\<rparr>"
  have dq: "?r4 = r3\<lparr>rfs_dev := d, rfs_requests := rfs_requests r3\<rparr>" by simp
  have o3: "outside r3 ss k" if "?lba \<le> k" "k < ?lba + n" for k
    using out2 [OF that] outside_steady [OF r3(3)] by simp
  have vs4: "vsec sector ?r4 k = vsec sector r3 k" if "k < rfs_total r3" "\<not> (?lba \<le> k \<and> k < ?lba + n)" for k
    using cl(3) that(2) by (meson not_le)
  have v4: "dir_vol ok nblk sector first ss ?r4" "dir_map (vsec sector ?r4) ss = dir_map (vsec sector r3) ss"
    "\<And>k. k < rfs_total r3 \<Longrightarrow> used sector ?r4 k = used sector r3 k"
    using dir_vol_data [OF r3(2) dq cl(2), of ?lba n] vs4 o3 by blast+
  have "n * 512 < W64" using n(2) by (simp add: io_size_def W64_def U32_def)
  then have "mul64 n 512 = n * 512" by (simp add: mul64_nowrap)
  then have e: "rfs_unlink_file dv r tree name = (Some (), ?r4)"
    using nm ds l(1) r2(1) r3(1) cl(1) n0 n(1) by (simp add: rfs_unlink_file_def RFS_SECTOR_SIZE_def)
  have u1: "used sector r1 k = used sector r k" for k using v1(2) st1 by (simp add: used_def map_sec_def steady_def)
  have free: "\<not> used sector ?r4 k" if "?lba \<le> k \<and> k < ?lba + n" for k
    using v4(3) [of k] r3(6) that fit t by auto
  have keep: "used sector ?r4 k \<and> (outside r ss k \<longrightarrow> vsec sector ?r4 k = vsec sector r k)"
    if k: "k < rfs_total r" "used sector r k" "\<not> (?lba \<le> k \<and> k < ?lba + n)" for k
  proof -
    have "used sector r2 k" using r2(4) k(1,2) t(1) u1 by simp
    then have "used sector ?r4 k" using v4(3) [of k] r3(6) k(1,3) t by simp
    moreover have "vsec sector ?r4 k = vsec sector r k" if o: "outside r ss k"
    proof -
      have "outside r2 ss k" "vsec sector r2 k = vsec sector r k"
        using r2(6) k(2) u1 o outside_steady [OF st1] v1(2) by auto
      then show ?thesis using r3(5) cl(3) k(3) by auto
    qed
    ultimately show ?thesis by blast
  qed
  show ?thesis using e v4(1,2) r3(4) r2(3) v1(2) free keep by (intro exI [of _ ?r4]) simp
qed

end

end
