(* ===== verification/RfsFileProps.thy ===== *)
theory RfsFileProps
  imports RfsFileSpec
begin

text \<open>The properties of the RetroFS file operations, with a file created on the volume of \<^theory_text>\<open>RfsVolume\<close> as witness.\<close>

section \<open>A volume with a file\<close>

definition demo_file :: "nat \<Rightarrow> fs_directory_entry" where
  "demo_file start = new_entry root_tree (Some demo_name) start 0 10"

lemma demo_reserve: "reserve_sectors demo_name 10 = 256"
proof -
  have "strrchr demo_name 0x2e = None" by (simp add: strrchr_def demo_name_def)
  then show ?thesis by (simp add: reserve_sectors_def rfs_get_default_reservation_def RFS_SECTOR_SIZE_def add64_nowrap W64_def)
qed

lemma demo_name_ok: "peek demo_name \<noteq> 0" "strlen demo_name < 128"
  by (simp_all add: demo_name_def peek_def strlen_def cstr_def)

lemma dir_volume_run: "group_run ram_sector dir_volume 256 0 65"
proof -
  have "\<not> buf_bit (map_sec ram_sector dir_volume 0) i" if "65 \<le> i" "i < 321" for i
    using dir_volume_ok(8) [of i] that by (simp add: used_def)
  then show ?thesis
    unfolding group_run_def using dir_volume_ok(5) by (simp add: rfs_group_size_def RFS_L1_GROUP_SECTORS_def)
qed

lemma dir_volume_slot: "length (block_list (dblock (vsec ram_sector dir_volume) 1)) \<noteq> 127"
proof -
  have "map_of (block_list (dblock (vsec ram_sector dir_volume) 1)) = Map.empty"
    using dir_volume_ok(2) by (simp add: dir_map_def)
  then show ?thesis by (metis length_0_conv map_of_eq_empty_iff zero_neq_numeral)
qed

lemma demo_create:
  "\<exists>start r ss ent. rfs_create_file demo_dev dir_volume root_tree demo_name 10 = (Some start, r) \<and>
     dir_vol (ram_ok 1000) 1000 ram_sector 1 ss r \<and> file_of ram_sector r ss (demo_file start) root_tree demo_name ent \<and>
     en_sector_length ent = 256 \<and> length ss \<le> WALK_LIMIT \<and> dir_sector r root_tree = 1 \<and> rfs_mem r = (\<lambda>_. True) \<and> rfs_total r = 1000 \<and>
     start \<noteq> 0"
proof -
  let ?vs = "vsec ram_sector dir_volume"
  have h: "length [1 :: nat] \<le> WALK_LIMIT" "dir_map ?vs [1] (fold_name demo_name) = None"
    "\<And>k. k < 65 \<Longrightarrow> used ram_sector dir_volume k" "256 = reserve_sectors demo_name 10" "(256 :: nat) \<le> 4096"
    "256 \<le> rfs_total dir_volume" "(10 :: nat) \<le> 256 * 512"
    using dir_volume_ok(2,5,8) demo_reserve by (simp_all add: WALK_LIMIT_def)
  obtain res r where c: "rfs_create_file demo_dev dir_volume root_tree demo_name 10 = (res, r)" "case res of
       Some start \<Rightarrow> \<exists>ss' ent. dir_vol (ram_ok 1000) 1000 ram_sector 1 ss' r \<and> length ss' \<le> length [1 :: nat] + 1 \<and>
         file_of ram_sector r ss' (new_entry root_tree (Some demo_name) start 0 10) root_tree demo_name ent \<and> en_sector_length ent = 256 \<and>
         dir_map (vsec ram_sector r) ss' = (dir_map ?vs [1])(fold_name demo_name \<mapsto> ent) \<and> steady dir_volume r \<and>
         (\<forall>k. start \<le> k \<and> k < start + 256 \<longrightarrow> \<not> used ram_sector dir_volume k \<and> vsec ram_sector r k = replicate 512 0) \<and>
         (\<forall>k. k < rfs_total dir_volume \<and> used ram_sector dir_volume k \<and> outside dir_volume [1] k \<longrightarrow> vsec ram_sector r k = ?vs k)
     | None \<Rightarrow> dir_vol (ram_ok 1000) 1000 ram_sector 1 [1] r \<and> dir_map (vsec ram_sector r) [1] = dir_map ?vs [1] \<and>
         (\<forall>k<rfs_total dir_volume. used ram_sector r k = used ram_sector dir_volume k) \<and>
         ((\<forall>g k. g < rfs_l1_groups dir_volume \<longrightarrow> \<not> group_run ram_sector dir_volume 256 g k) \<or>
          (\<forall>s\<in>set [1]. length (block_list (dblock ?vs s)) = 127))"
    using reliable_disk.create_file_ok [OF ram_disk(2) dir_volume_ok(1,4) h(1) dir_volume_ok(3) demo_name_ok h(2,3,4,5,6,7)] by blast
  obtain start where s: "res = Some start"
    using c(2) dir_volume_run dir_volume_slot dir_volume_ok(6) by (cases res) auto
  then obtain ss ent where d: "dir_vol (ram_ok 1000) 1000 ram_sector 1 ss r" "length ss \<le> 2"
    "file_of ram_sector r ss (demo_file start) root_tree demo_name ent" "en_sector_length ent = 256" "steady dir_volume r"
    "\<not> used ram_sector dir_volume start"
    using c(2) by (auto simp: demo_file_def)
  have "start \<noteq> 0" using d(6) h(3) [of 0] by (cases "start = 0") auto
  moreover have "dir_sector r root_tree = 1" using dir_sector_steady [OF d(5)] dir_volume_ok(3) by simp
  moreover have "rfs_mem r = (\<lambda>_. True)" "rfs_total r = 1000" using d(5) dir_volume_ok(4,5) by (simp_all add: steady_def)
  moreover have "length ss \<le> WALK_LIMIT" using d(2) by (simp add: WALK_LIMIT_def)
  ultimately show ?thesis using c(1) s d(1,3,4) by blast
qed

section \<open>Properties\<close>

text \<open>C19: \<^verbatim>\<open>rfs_read_file\<close> of a file whose extent lies in the volume returns exactly the bytes from \<^verbatim>\<open>start\<close> on, for
  every alignment of start and length with the sectors; a request that reaches beyond the size of the file
  fails with \<^verbatim>\<open>FS_ERR_SEEK_PAST_END\<close>; nothing is written.\<close>

theorem rfs_read_file_correct:
  assumes "reliable_disk dv ok nblk sector" "vol_ok ok nblk r" "rfs_mem r = (\<lambda>_. True)" "rfs_desc r \<noteq> None"
    "fe_directory file \<noteq> None" "fe_flags file AND FS_DIRECTORY = 0"
    "fe_lbapos file * 512 + fe_size file \<le> rfs_total r * 512" "start + n < W64"
  shows "\<exists>res r'. rfs_read_file dv r file start n = (res, r') \<and> vsec sector r' = vsec sector r \<and>
    (if n = 0 \<or> start + n \<le> fe_size file then res = Some (vbytes (vsec sector r) (fe_lbapos file * 512 + start) n)
     else res = None \<and> rfs_error r' = Some FS_ERR_SEEK_PAST_END)"
  by (rule reliable_disk.read_file_ok [OF assms])

theorem rfs_read_file_correct_witness:
  "\<exists>r'. rfs_read_file demo_dev blank_volume (new_entry root_tree (Some demo_name) 100 0 600) 510 4 = (Some [0, 0, 0, 0], r')"
proof -
  let ?f = "new_entry root_tree (Some demo_name) 100 0 600"
  have "vbyte (vsec ram_sector blank_volume) p = 0" if "p < 1000 * 512" for p
  proof -
    have "p div 512 < 1000" using that by (simp add: div_less_iff_less_mult)
    then show ?thesis using blank_volume_ok(3) by (simp add: vbyte_def)
  qed
  then have "vbytes (vsec ram_sector blank_volume) (100 * 512 + 510) 4 = [0, 0, 0, 0]"
    by (simp add: vbytes_def upt_rec)
  then show ?thesis
    using rfs_read_file_correct [OF ram_disk(2) blank_volume_ok(1), of ?f 510 4] by (auto simp: new_entry_def W64_def)
qed

text \<open>C4: \<^verbatim>\<open>rfs_write_file\<close> inside the reserved extent of a file succeeds.  Every byte of the extent is the old one or,
  in the range written, the byte of the buffer; the size of the file is the larger of the old size and the end of
  the write, in the VFS node and in the directory entry; all other entries of the directory, and all
  sectors in use outside the extent, the directory and the map are unchanged.\<close>

theorem rfs_write_file_correct:
  assumes "reliable_disk dv ok nblk sector" "dir_vol ok nblk sector first ss r" "rfs_mem r = (\<lambda>_. True)"
    "file_of sector r ss file tree name ent" "length ss \<le> WALK_LIMIT" "dir_sector r tree = first" "rfs_total r * 512 < W64"
    "0 < n" "start + n \<le> en_sector_length ent * 512" "length buffer = n"
  shows "\<exists>file' r' ss' ent'. rfs_write_file dv r file start n buffer = (True, file', r') \<and> dir_vol ok nblk sector first ss' r' \<and>
    file_of sector r' ss' file' tree name ent' \<and> fe_size file' = max (fe_size file) (start + n) \<and>
    fe_lbapos file' = fe_lbapos file \<and>
    dir_map (vsec sector r') ss' = (dir_map (vsec sector r) ss)(fold_name name \<mapsto> ent') \<and>
    (\<forall>p. fe_lbapos file * 512 \<le> p \<and> p < (fe_lbapos file + en_sector_length ent) * 512 \<longrightarrow>
       vbyte (vsec sector r') p = upd (vbyte (vsec sector r)) (fe_lbapos file * 512 + start) buffer p) \<and>
    (\<forall>k. k < rfs_total r \<and> used sector r k \<and> outside r ss k \<and>
       \<not> (fe_lbapos file \<le> k \<and> k < fe_lbapos file + en_sector_length ent) \<longrightarrow> vsec sector r' k = vsec sector r k)"
  using reliable_disk.write_file_ok [OF assms] by (elim exE conjE) (intro exI conjI; assumption)

theorem rfs_write_file_correct_witness:
  "\<exists>start r file' r'. rfs_create_file demo_dev dir_volume root_tree demo_name 10 = (Some start, r) \<and>
     rfs_write_file demo_dev r (demo_file start) 500 20 (replicate 20 7) = (True, file', r') \<and> fe_size file' = 520"
proof -
  obtain start r ss ent where c: "rfs_create_file demo_dev dir_volume root_tree demo_name 10 = (Some start, r)"
    "dir_vol (ram_ok 1000) 1000 ram_sector 1 ss r" "file_of ram_sector r ss (demo_file start) root_tree demo_name ent"
    "en_sector_length ent = 256" "length ss \<le> WALK_LIMIT" "dir_sector r root_tree = 1" "rfs_mem r = (\<lambda>_. True)" "rfs_total r = 1000"
    using demo_create by blast
  show ?thesis
    using rfs_write_file_correct [OF ram_disk(2) c(2,7,3,5,6), of 20 500 "replicate 20 7"] c(1,4,8)
    by (auto simp: W64_def demo_file_def new_entry_def)
qed

text \<open>What \<^verbatim>\<open>rfs_write_file\<close> has written inside the reserved extent, \<^verbatim>\<open>rfs_read_file\<close> reads back.\<close>

theorem rfs_write_read_roundtrip:
  assumes "reliable_disk dv ok nblk sector" "dir_vol ok nblk sector first ss r" "rfs_mem r = (\<lambda>_. True)"
    "file_of sector r ss file tree name ent" "length ss \<le> WALK_LIMIT" "dir_sector r tree = first" "rfs_total r * 512 < W64"
    "0 < n" "start + n \<le> en_sector_length ent * 512" "length buffer = n"
  shows "\<exists>file' r' r''. rfs_write_file dv r file start n buffer = (True, file', r') \<and>
    rfs_read_file dv r' file' start n = (Some buffer, r'')"
proof -
  obtain file' r' ss' ent' where w: "rfs_write_file dv r file start n buffer = (True, file', r')" "dir_vol ok nblk sector first ss' r'"
    "file_of sector r' ss' file' tree name ent'" "fe_size file' = max (fe_size file) (start + n)" "fe_lbapos file' = fe_lbapos file"
    "en_sector_length ent' = en_sector_length ent" "steady r r'"
    "\<forall>p. fe_lbapos file * 512 \<le> p \<and> p < (fe_lbapos file + en_sector_length ent) * 512 \<longrightarrow>
       vbyte (vsec sector r') p = upd (vbyte (vsec sector r)) (fe_lbapos file * 512 + start) buffer p"
    using reliable_disk.write_file_ok [OF assms] by (elim exE conjE) (rule that)
  let ?lba = "fe_lbapos file"
  have ex: "?lba + en_sector_length ent \<le> rfs_total r'" "fe_size file' \<le> en_sector_length ent * 512"
    "fe_directory file' \<noteq> None" "fe_flags file' AND FS_DIRECTORY = 0"
    using w(3,5,6) by (simp_all add: file_of_def extent_ok_def)
  have v: "vol_ok ok nblk r'" "rfs_desc r' \<noteq> None" "rfs_mem r' = (\<lambda>_. True)"
    using w(2,7) assms(3) by (auto simp: dir_vol_def mirror_def geom_ok_def steady_def)
  have fit: "fe_lbapos file' * 512 + fe_size file' \<le> rfs_total r' * 512" using ex(1,2) w(5) by simp
  have "rfs_total r' = rfs_total r" using w(7) by (simp add: steady_def)
  then have sw: "start + n < W64" using ex(1) assms(7,9) by linarith
  have "vbytes (vsec sector r') (?lba * 512 + start) n = buffer"
  proof (rule nth_equalityI)
    fix i assume "i < length (vbytes (vsec sector r') (?lba * 512 + start) n)"
    then have i: "i < n" by simp
    then have "?lba * 512 + start + i < (?lba + en_sector_length ent) * 512" using assms(9) by simp
    then have "vbyte (vsec sector r') (?lba * 512 + start + i) = buffer ! i" using w(8) i assms(10) by (simp add: upd_def)
    then show "vbytes (vsec sector r') (?lba * 512 + start) n ! i = buffer ! i" using i by (simp add: vbytes_def)
  qed (use assms(10) in simp)
  then show ?thesis
    using reliable_disk.read_file_ok [OF assms(1) v(1,3,2) ex(3,4) fit sw] w(1,4,5) by auto
qed

theorem rfs_write_read_roundtrip_witness:
  "\<exists>start r file' r' r''. rfs_create_file demo_dev dir_volume root_tree demo_name 10 = (Some start, r) \<and>
     rfs_write_file demo_dev r (demo_file start) 500 20 (replicate 20 7) = (True, file', r') \<and>
     rfs_read_file demo_dev r' file' 500 20 = (Some (replicate 20 7), r'')"
proof -
  obtain start r ss ent where c: "rfs_create_file demo_dev dir_volume root_tree demo_name 10 = (Some start, r)"
    "dir_vol (ram_ok 1000) 1000 ram_sector 1 ss r" "file_of ram_sector r ss (demo_file start) root_tree demo_name ent"
    "en_sector_length ent = 256" "length ss \<le> WALK_LIMIT" "dir_sector r root_tree = 1" "rfs_mem r = (\<lambda>_. True)" "rfs_total r = 1000"
    using demo_create by blast
  show ?thesis
    using rfs_write_read_roundtrip [OF ram_disk(2) c(2,7,3,5,6), of 20 500 "replicate 20 7"] c(1,4,8)
    by (auto simp: W64_def)
qed

text \<open>C12: creating a file of a name that is not in the directory, with a reservation of at most 4096 sectors
  (every file but those whose name or size asks for more, as \<^verbatim>\<open>.jpg\<close> and \<^verbatim>\<open>.png\<close> do with 8192), on a volume whose
  group caches are in memory.  If it succeeds, the directory has the entry of the new file and no other change; the extent was free before, is in use
  afterwards, lies outside of map and directory and is filled with zeroes; every other sector in use keeps
  its content.  If it fails, the directory and the free space map are as before, and no group had a free run of the
  length reserved, or the directory had no free slot left.\<close>

theorem rfs_create_file_correct:
  assumes "reliable_disk dv ok nblk sector" "dir_vol ok nblk sector first ss r" "rfs_mem r = (\<lambda>_. True)" "length ss \<le> WALK_LIMIT"
    "dir_sector r tree = first" "peek name \<noteq> 0" "strlen name < 128" "dir_map (vsec sector r) ss (fold_name name) = None"
    "\<forall>k<65. used sector r k" "n = reserve_sectors name sz" "n \<le> 4096" "n \<le> rfs_total r" "sz \<le> n * 512"
  shows "\<exists>res r'. rfs_create_file dv r tree name sz = (res, r') \<and>
    (case res of
       Some start \<Rightarrow> \<exists>ss' ent. dir_vol ok nblk sector first ss' r' \<and>
         file_of sector r' ss' (new_entry tree (Some name) start 0 sz) tree name ent \<and> en_sector_length ent = n \<and>
         dir_map (vsec sector r') ss' = (dir_map (vsec sector r) ss)(fold_name name \<mapsto> ent) \<and>
         (\<forall>k. start \<le> k \<and> k < start + n \<longrightarrow> \<not> used sector r k \<and> vsec sector r' k = replicate 512 0) \<and>
         (\<forall>k. k < rfs_total r \<and> used sector r k \<and> outside r ss k \<longrightarrow> vsec sector r' k = vsec sector r k)
     | None \<Rightarrow> dir_vol ok nblk sector first ss r' \<and> dir_map (vsec sector r') ss = dir_map (vsec sector r) ss \<and>
         (\<forall>k<rfs_total r. used sector r' k = used sector r k) \<and>
         ((\<forall>g k. g < rfs_l1_groups r \<longrightarrow> \<not> group_run sector r n g k) \<or>
          (\<forall>s\<in>set ss. length (block_list (dblock (vsec sector r) s)) = 127)))"
proof -
  have low: "\<And>k. k < 65 \<Longrightarrow> used sector r k" using assms(9) by blast
  obtain res r' where c: "rfs_create_file dv r tree name sz = (res, r')" "case res of
       Some start \<Rightarrow> \<exists>ss' ent. dir_vol ok nblk sector first ss' r' \<and> length ss' \<le> length ss + 1 \<and>
         file_of sector r' ss' (new_entry tree (Some name) start 0 sz) tree name ent \<and> en_sector_length ent = n \<and>
         dir_map (vsec sector r') ss' = (dir_map (vsec sector r) ss)(fold_name name \<mapsto> ent) \<and> steady r r' \<and>
         (\<forall>k. start \<le> k \<and> k < start + n \<longrightarrow> \<not> used sector r k \<and> vsec sector r' k = replicate 512 0) \<and>
         (\<forall>k. k < rfs_total r \<and> used sector r k \<and> outside r ss k \<longrightarrow> vsec sector r' k = vsec sector r k)
     | None \<Rightarrow> dir_vol ok nblk sector first ss r' \<and> dir_map (vsec sector r') ss = dir_map (vsec sector r) ss \<and>
         (\<forall>k<rfs_total r. used sector r' k = used sector r k) \<and>
         ((\<forall>g k. g < rfs_l1_groups r \<longrightarrow> \<not> group_run sector r n g k) \<or>
          (\<forall>s\<in>set ss. length (block_list (dblock (vsec sector r) s)) = 127))"
    using reliable_disk.create_file_ok [OF assms(1-8) low assms(10-13)] by blast
  then show ?thesis by (intro exI [of _ res] exI [of _ r'], cases res) (simp, fastforce)
qed

theorem rfs_create_file_correct_witness:
  "\<exists>start r. rfs_create_file demo_dev dir_volume root_tree demo_name 10 = (Some start, r)"
proof -
  have h: "length [1 :: nat] \<le> WALK_LIMIT" "dir_map (vsec ram_sector dir_volume) [1] (fold_name demo_name) = None"
    "\<forall>k<65. used ram_sector dir_volume k" "256 = reserve_sectors demo_name 10" "(256 :: nat) \<le> 4096"
    "256 \<le> rfs_total dir_volume" "(10 :: nat) \<le> 256 * 512"
    using dir_volume_ok(2,5,8) demo_reserve by (simp_all add: WALK_LIMIT_def)
  obtain res r where c: "rfs_create_file demo_dev dir_volume root_tree demo_name 10 = (res, r)"
    "res = None \<longrightarrow> (\<forall>g k. g < rfs_l1_groups dir_volume \<longrightarrow> \<not> group_run ram_sector dir_volume 256 g k) \<or>
       (\<forall>s\<in>set [1]. length (block_list (dblock (vsec ram_sector dir_volume) s)) = 127)"
    using rfs_create_file_correct [OF ram_disk(2) dir_volume_ok(1,4) h(1) dir_volume_ok(3) demo_name_ok h(2-7)]
    by (auto split: option.splits)
  then show ?thesis using dir_volume_run dir_volume_slot dir_volume_ok(6) by (cases res) auto
qed

text \<open>C18: removing a file removes its entry and no other, frees exactly the sectors of its extent, and keeps the content of
  every other sector in use outside of directory and map; the volume stays sound.\<close>

theorem rfs_unlink_file_correct:
  assumes "reliable_disk dv ok nblk sector" "dir_vol ok nblk sector first ss r" "file_of sector r ss file tree name ent"
    "dir_sector r tree = first" "n = en_sector_length ent" "io_size n" "fe_lbapos file \<noteq> 0"
  shows "\<exists>r'. rfs_unlink_file dv r tree name = (Some (), r') \<and> dir_vol ok nblk sector first ss r' \<and>
    dir_map (vsec sector r') ss = (dir_map (vsec sector r) ss)(fold_name name := None) \<and>
    (\<forall>k. fe_lbapos file \<le> k \<and> k < fe_lbapos file + n \<longrightarrow> \<not> used sector r' k) \<and>
    (\<forall>k. k < rfs_total r \<and> used sector r k \<and> \<not> (fe_lbapos file \<le> k \<and> k < fe_lbapos file + n) \<longrightarrow>
       used sector r' k \<and> (outside r ss k \<longrightarrow> vsec sector r' k = vsec sector r k))"
  by (rule reliable_disk.unlink_file_ok [OF assms])

theorem rfs_unlink_file_correct_witness:
  "\<exists>start r r'. rfs_create_file demo_dev dir_volume root_tree demo_name 10 = (Some start, r) \<and>
     rfs_unlink_file demo_dev r root_tree demo_name = (Some (), r') \<and> \<not> used ram_sector r' start"
proof -
  obtain start r ss ent where c: "rfs_create_file demo_dev dir_volume root_tree demo_name 10 = (Some start, r)"
    "dir_vol (ram_ok 1000) 1000 ram_sector 1 ss r" "file_of ram_sector r ss (demo_file start) root_tree demo_name ent"
    "en_sector_length ent = 256" "dir_sector r root_tree = 1" "start \<noteq> 0"
    using demo_create by blast
  have "fe_lbapos (demo_file start) = start" "io_size 256" by (simp_all add: demo_file_def new_entry_def io_size_def U32_def)
  then show ?thesis
    using rfs_unlink_file_correct [OF ram_disk(2) c(2,3,5), of 256] c(1,4,6) by fastforce
qed

end
