(* ===== verification/Buddy.thy ===== *)
theory Buddy
  imports Prelude
begin

text \<open>
  The growable buddy allocator of \<^verbatim>\<open>src/buddy_allocator.c\<close>.

  \<^item> Addresses are natural numbers below \<open>2 ^ 64\<close>, \<open>0\<close> is \<^verbatim>\<open>NULL\<close>.  The linked list of regions is
    a list and a \<^verbatim>\<open>buddy_region_t *\<close> is an index into it; each intrusive free list is the list of
    the addresses on it, head first.
  \<^item> \<open>ba_header\<close> holds what is written in the header at the start of a block (its order and its
    region), \<open>ba_saved\<close> the pointers stored by \<^verbatim>\<open>buddy_malloc_aligned\<close>, \<open>ba_mem\<close> the payload bytes.
  \<^item> \<open>ba_kmalloc k n\<close> is the answer of \<^verbatim>\<open>kmalloc_aligned(n, 8)\<close> to request number \<open>k\<close> (\<open>0\<close> when it
    fails), \<open>ba_requests\<close> the number of requests made so far; \<open>ba_kfreed\<close> lists the pools that
    \<^verbatim>\<open>buddy_grow\<close> gave back with \<^verbatim>\<open>kfree\<close>, the last one first.
  \<^item> A header read at an address that holds none makes the operation undefined: the result is
    \<open>None\<close>.  The region walk of \<^verbatim>\<open>buddy_malloc\<close> is a \<^theory_text>\<open>partial_function (option)\<close>, whose \<open>None\<close> is
    a walk that never ends.
  \<^item> The shift \<^verbatim>\<open>1UL << order\<close> of \<^verbatim>\<open>size_to_order\<close> is the power of two of the natural numbers.  For a
    size above \<open>2 ^ 63\<close> the C loop would shift by 64, which is undefined.  \<^verbatim>\<open>buddy_malloc\<close> turns such sizes
    away before; only \<^verbatim>\<open>buddy_realloc\<close> called with more than \<open>2 ^ 63 - 24\<close> bytes gets there.
\<close>

section \<open>The model\<close>

record buddy_region =
  rg_pool :: nat
  rg_size :: nat
  rg_free :: "nat \<Rightarrow> nat list"
  rg_min :: nat
  rg_max :: nat

record buddy_allocator =
  ba_regions :: "buddy_region list"
  ba_active :: "nat option"
  ba_grow :: nat
  ba_min :: nat
  ba_max :: nat
  ba_current :: nat
  ba_peak :: nat
  ba_header :: "nat \<rightharpoonup> nat \<times> nat"
  ba_saved :: "nat \<rightharpoonup> nat"
  ba_mem :: "nat \<Rightarrow> byte"
  ba_kmalloc :: "nat \<Rightarrow> nat \<Rightarrow> nat"
  ba_requests :: nat
  ba_kfreed :: "nat list"

text \<open>\<^verbatim>\<open>sizeof(buddy_header_t)\<close> and \<^verbatim>\<open>sizeof(buddy_region_t)\<close> on the 64-bit target.\<close>

definition sizeof_header :: nat where
  "sizeof_header = 24"

definition sizeof_region :: nat where
  "sizeof_region = 288"

definition BUDDY_MIN_ORDER :: nat where
  "BUDDY_MIN_ORDER = 5"

definition BUDDY_MAX_ORDER :: nat where
  "BUDDY_MAX_ORDER = 29"

definition order_size :: "nat \<Rightarrow> nat" where
  "order_size order = 2 ^ order"

definition block_offset :: "buddy_region \<Rightarrow> nat \<Rightarrow> nat" where
  "block_offset r p = sub64 p (rg_pool r) AND (rg_size r - 1)"

definition buddy_of :: "buddy_region \<Rightarrow> nat \<Rightarrow> nat \<Rightarrow> nat" where
  "buddy_of r p order =
     rg_pool r + ((block_offset r p XOR order_size order) AND (rg_size r - 1))"

text \<open>\<^verbatim>\<open>y & ~(align - 1)\<close> clears the low bits: it rounds \<open>y\<close> down to a multiple of \<open>align\<close>.\<close>

definition round_down :: "nat \<Rightarrow> nat \<Rightarrow> nat" where
  "round_down y align = y div align * align"

definition align_up :: "nat \<Rightarrow> nat \<Rightarrow> nat" where
  "align_up x align = round_down (sub64 (add64 x align) 1) align"

function order_loop :: "nat \<Rightarrow> nat \<Rightarrow> nat" where
  "order_loop order sz = (if 2 ^ order < sz then order_loop (order + 1) sz else order)"
  by pat_completeness auto
termination
  by (relation "measure (\<lambda>(order, sz). sz - 2 ^ order)")
    (auto intro: diff_less_mono2)

declare order_loop.simps [simp del]

definition size_to_order :: "buddy_region \<Rightarrow> nat \<Rightarrow> nat" where
  "size_to_order r sz = order_loop (rg_min r) (align_up sz (2 ^ rg_min r))"

text \<open>\<^verbatim>\<open>buddy_init\<close> leaves the structure alone when the orders are not acceptable.\<close>

definition buddy_init :: "buddy_allocator \<Rightarrow> nat \<Rightarrow> nat \<Rightarrow> nat \<Rightarrow> buddy_allocator" where
  "buddy_init a min_order max_order grow_order =
     (if min_order < BUDDY_MIN_ORDER \<or> max_order > BUDDY_MAX_ORDER \<or> grow_order > max_order \<or>
         min_order > max_order
      then a
      else a\<lparr>ba_regions := [], ba_active := None, ba_min := min_order, ba_max := max_order,
             ba_grow := grow_order, ba_current := 0, ba_peak := 0\<rparr>)"

definition fresh_region :: "buddy_allocator \<Rightarrow> nat \<Rightarrow> nat \<Rightarrow> buddy_region" where
  "fresh_region a pool grow =
     \<lparr>rg_pool = pool, rg_size = 2 ^ grow, rg_free = (\<lambda>_. [])(grow := [pool]),
      rg_min = ba_min a, rg_max = ba_max a\<rparr>"

definition buddy_grow :: "buddy_allocator \<Rightarrow> nat option \<times> buddy_allocator" where
  "buddy_grow a =
     (let grow = (if ba_grow a > ba_max a then ba_max a else ba_grow a);
          pool = ba_kmalloc a (ba_requests a) (2 ^ grow);
          a1 = a\<lparr>ba_requests := Suc (ba_requests a)\<rparr>
      in if pool = 0 then (None, a1)
         else if ba_kmalloc a (Suc (ba_requests a)) sizeof_region = 0
         then (None, a1\<lparr>ba_requests := Suc (Suc (ba_requests a)), ba_kfreed := pool # ba_kfreed a\<rparr>)
         else (Some (length (ba_regions a)),
               a1\<lparr>ba_requests := Suc (Suc (ba_requests a)),
                  ba_regions := ba_regions a @ [fresh_region a pool grow],
                  ba_active := Some (length (ba_regions a))\<rparr>))"

text \<open>\<^verbatim>\<open>while (cur <= region->max_order && region->free_lists[cur] == NULL) cur++;\<close>\<close>

function find_cur :: "buddy_region \<Rightarrow> nat \<Rightarrow> nat" where
  "find_cur r cur = (if cur \<le> rg_max r \<and> rg_free r cur = [] then find_cur r (Suc cur) else cur)"
  by pat_completeness auto
termination
  by (relation "measure (\<lambda>(r, cur). Suc (rg_max r) - cur)") auto

declare find_cur.simps [simp del]

text \<open>\<^verbatim>\<open>while (cur > order)\<close>: the upper half of the block goes onto the next lower free list.\<close>

fun split_down :: "(nat \<Rightarrow> nat list) \<Rightarrow> nat \<Rightarrow> nat \<Rightarrow> nat \<Rightarrow> (nat \<Rightarrow> nat list)" where
  "split_down fl block 0 order = fl"
| "split_down fl block (Suc cur) order =
     (if Suc cur > order
      then split_down (fl(cur := (block + order_size cur) # fl cur)) block cur order
      else fl)"

text \<open>A block of order \<open>cur\<close> leaves its free list and is cut down to \<open>order\<close>.\<close>

definition take_block :: "buddy_region \<Rightarrow> nat \<Rightarrow> nat \<Rightarrow> nat \<times> buddy_region" where
  "take_block r cur order =
     (let block = hd (rg_free r cur);
          fl = (rg_free r)(cur := tl (rg_free r cur))
      in (block, r\<lparr>rg_free := split_down fl block cur order\<rparr>))"

definition count_alloc :: "buddy_allocator \<Rightarrow> nat \<Rightarrow> buddy_allocator" where
  "count_alloc a n =
     (let c = add64 (ba_current a) n
      in a\<lparr>ba_current := c, ba_peak := (if c > ba_peak a then c else ba_peak a)\<rparr>)"

definition take_from :: "buddy_allocator \<Rightarrow> nat \<Rightarrow> nat \<Rightarrow> nat \<Rightarrow> nat \<times> buddy_allocator" where
  "take_from a i cur order =
     (case take_block (ba_regions a ! i) cur order of
        (block, r) \<Rightarrow>
          (block + sizeof_header,
           count_alloc (a\<lparr>ba_regions := (ba_regions a)[i := r],
                          ba_header := (ba_header a)(block \<mapsto> (order, i))\<rparr>)
             (order_size order)))"

definition next_region :: "buddy_allocator \<Rightarrow> nat \<Rightarrow> nat option" where
  "next_region a i = (if Suc i < length (ba_regions a) then Some (Suc i) else None)"

text \<open>The \<^verbatim>\<open>while (region)\<close> loop of \<^verbatim>\<open>buddy_malloc\<close>.\<close>

partial_function (option) malloc_walk ::
    "buddy_allocator \<Rightarrow> nat \<Rightarrow> nat option \<Rightarrow> (nat \<times> buddy_allocator) option" where
  "malloc_walk a sz region =
     (case region of
        None \<Rightarrow> Some (0, a)
      | Some i \<Rightarrow>
          (let order = size_to_order (ba_regions a ! i) (sz + sizeof_header);
               cur = find_cur (ba_regions a ! i) order
           in if order > rg_max (ba_regions a ! i) then malloc_walk a sz (next_region a i)
              else if cur \<le> rg_max (ba_regions a ! i) then Some (take_from a i cur order)
              else case next_region a i of
                     None \<Rightarrow> malloc_walk (snd (buddy_grow a)) sz (fst (buddy_grow a))
                   | Some j \<Rightarrow> malloc_walk a sz (Some j)))"

definition buddy_malloc :: "buddy_allocator \<Rightarrow> nat \<Rightarrow> (nat \<times> buddy_allocator) option" where
  "buddy_malloc a sz =
     (if sz = 0 then Some (0, a)
      else if sz > sub64 (2 ^ ba_max a) sizeof_header then Some (0, a)
      else case ba_active a of
             Some i \<Rightarrow> malloc_walk a sz (Some i)
           | None \<Rightarrow> (case buddy_grow a of
                        (None, a1) \<Rightarrow> Some (0, a1)
                      | (Some i, a1) \<Rightarrow> malloc_walk a1 sz (Some i)))"

text \<open>\<^verbatim>\<open>(align & (align - 1)) != 0\<close>\<close>

definition not_pow2 :: "nat \<Rightarrow> bool" where
  "not_pow2 align \<longleftrightarrow> align AND (align - 1) \<noteq> 0"

definition buddy_malloc_aligned ::
    "buddy_allocator \<Rightarrow> nat \<Rightarrow> nat \<Rightarrow> (nat \<times> buddy_allocator) option" where
  "buddy_malloc_aligned a sz align =
     (if sz = 0 then Some (0, a)
      else if align \<le> 8 then buddy_malloc a sz
      else if not_pow2 align then Some (0, a)
      else case buddy_malloc a (add64 (sub64 (add64 sz align) 1) 8) of
             None \<Rightarrow> None
           | Some (raw, a1) \<Rightarrow>
               if raw = 0 then Some (0, a1)
               else let aligned = round_down (add64 (add64 raw 8) (align - 1)) align
                    in Some (aligned, a1\<lparr>ba_saved := (ba_saved a1)(aligned - 8 \<mapsto> raw)\<rparr>))"

text \<open>The inner search of \<^verbatim>\<open>buddy_free\<close>: take the first node equal to \<open>x\<close> off a free list.\<close>

fun unlink :: "nat \<Rightarrow> nat list \<Rightarrow> nat list option" where
  "unlink x [] = None"
| "unlink x (c # cs) = (if c = x then Some cs else map_option ((#) c) (unlink x cs))"

text \<open>The \<^verbatim>\<open>do ... while (merged)\<close> loop of \<^verbatim>\<open>buddy_free\<close>.\<close>

function merge_loop :: "buddy_region \<Rightarrow> nat \<Rightarrow> nat \<Rightarrow> buddy_region \<times> nat \<times> nat" where
  "merge_loop r block order =
     (if order \<ge> rg_max r then (r, block, order)
      else let buddy = buddy_of r block order
           in if buddy < rg_pool r \<or> buddy \<ge> rg_pool r + rg_size r then (r, block, order)
              else case unlink buddy (rg_free r order) of
                     None \<Rightarrow> (r, block, order)
                   | Some l \<Rightarrow> merge_loop (r\<lparr>rg_free := (rg_free r)(order := l)\<rparr>)
                                 (if block > buddy then buddy else block) (Suc order))"
  by pat_completeness auto
termination
  by (relation "measure (\<lambda>(r, block, order). rg_max r - order)") auto

declare merge_loop.simps [simp del]

definition insert_free :: "buddy_region \<times> nat \<times> nat \<Rightarrow> buddy_region" where
  "insert_free t =
     (case t of (r, block, order) \<Rightarrow>
        r\<lparr>rg_free := (rg_free r)(order := block # rg_free r order)\<rparr>)"

definition buddy_free :: "buddy_allocator \<Rightarrow> nat \<Rightarrow> buddy_allocator option" where
  "buddy_free a ptr =
     (if ptr = 0 then Some a
      else case ba_header a (ptr - sizeof_header) of
             None \<Rightarrow> None
           | Some (order, i) \<Rightarrow>
               Some (a\<lparr>ba_current := (if ba_current a \<ge> order_size order
                                      then ba_current a - order_size order else 0),
                       ba_regions := (ba_regions a)[i :=
                         insert_free (merge_loop (ba_regions a ! i) (ptr - sizeof_header) order)]\<rparr>))"

definition buddy_free_aligned :: "buddy_allocator \<Rightarrow> nat \<Rightarrow> nat \<Rightarrow> buddy_allocator option" where
  "buddy_free_aligned a ptr align =
     (if ptr = 0 then Some a
      else if align \<le> 8 then buddy_free a ptr
      else if not_pow2 align then Some a
      else case ba_saved a (ptr - 8) of
             None \<Rightarrow> None
           | Some raw \<Rightarrow> if raw = 0 then Some a else buddy_free a raw)"

text \<open>The addresses \<^verbatim>\<open>buddy_destroy\<close> hands back to the kernel heap are the pools, in list order.\<close>

definition buddy_destroy :: "buddy_allocator \<Rightarrow> nat list \<times> buddy_allocator" where
  "buddy_destroy a =
     (map rg_pool (ba_regions a),
      a\<lparr>ba_regions := [], ba_active := None, ba_current := 0, ba_peak := 0\<rparr>)"

text \<open>\<^verbatim>\<open>memcpy\<close> and \<^verbatim>\<open>memset\<close> on the payload bytes.\<close>

definition mem_copy :: "(nat \<Rightarrow> byte) \<Rightarrow> nat \<Rightarrow> nat \<Rightarrow> nat \<Rightarrow> (nat \<Rightarrow> byte)" where
  "mem_copy mem dst src n =
     (\<lambda>x. if dst \<le> x \<and> x < dst + n then mem (src + (x - dst)) else mem x)"

definition mem_write :: "(nat \<Rightarrow> byte) \<Rightarrow> nat \<Rightarrow> byte list \<Rightarrow> (nat \<Rightarrow> byte)" where
  "mem_write mem dst bs =
     (\<lambda>x. if dst \<le> x \<and> x < dst + length bs then bs ! (x - dst) else mem x)"

text \<open>\<^verbatim>\<open>s\<close> is the string without its terminator.\<close>

definition buddy_strdup :: "buddy_allocator \<Rightarrow> byte list \<Rightarrow> (nat \<times> buddy_allocator) option" where
  "buddy_strdup a s =
     (case buddy_malloc a (length s + 1) of
        None \<Rightarrow> None
      | Some (copy, a1) \<Rightarrow>
          if copy = 0 then Some (0, a1)
          else Some (copy, a1\<lparr>ba_mem := mem_write (ba_mem a1) copy (s @ [0])\<rparr>))"

definition buddy_realloc ::
    "buddy_allocator \<Rightarrow> nat \<Rightarrow> nat \<Rightarrow> (nat \<times> buddy_allocator) option" where
  "buddy_realloc a ptr sz =
     (if ptr = 0 then buddy_malloc a sz
      else if sz = 0 then map_option (Pair 0) (buddy_free a ptr)
      else case ba_header a (ptr - sizeof_header) of
             None \<Rightarrow> None
           | Some (old_order, i) \<Rightarrow>
               (let header = ptr - sizeof_header;
                    r = ba_regions a ! i;
                    old_payload = order_size old_order - sizeof_header;
                    new_order = size_to_order r (add64 sz sizeof_header)
                in if new_order = old_order then Some (ptr, a)
                   else if new_order < old_order then
                     Some (ptr, a\<lparr>ba_header := (ba_header a)(header \<mapsto> (new_order, i)),
                                  ba_regions := (ba_regions a)[i :=
                                    r\<lparr>rg_free := split_down (rg_free r) header old_order new_order\<rparr>]\<rparr>)
                   else case buddy_malloc a sz of
                          None \<Rightarrow> None
                        | Some (new_ptr, a1) \<Rightarrow>
                            if new_ptr = 0 then Some (0, a1)
                            else map_option (Pair new_ptr)
                                   (buddy_free (a1\<lparr>ba_mem :=
                                      mem_copy (ba_mem a1) new_ptr ptr old_payload\<rparr>) ptr)))"

definition buddy_calloc ::
    "buddy_allocator \<Rightarrow> nat \<Rightarrow> nat \<Rightarrow> (nat \<times> buddy_allocator) option" where
  "buddy_calloc a num sz =
     (case buddy_malloc a (mul64 num sz) of
        None \<Rightarrow> None
      | Some (p, a1) \<Rightarrow>
          if p = 0 then Some (0, a1)
          else Some (p, a1\<lparr>ba_mem := mem_write (ba_mem a1) p (replicate (mul64 num sz) 0)\<rparr>))"

end
