(* ===== verification/BuddyTiling.thy ===== *)
theory BuddyTiling
  imports Main
begin

text \<open>
  Tilings of the interval from 0 to \<open>2 ^ g\<close> by aligned power-of-two blocks, the geometry behind the
  buddy allocator.  A block \<open>(o, k)\<close> is the interval of length \<open>2 ^ o\<close> that starts at \<open>k * 2 ^ o\<close>.
\<close>

definition blk :: "nat \<Rightarrow> nat \<Rightarrow> nat set" where
  "blk n k = {k * 2 ^ n ..< (k + 1) * 2 ^ n}"

lemma in_blk: "x \<in> blk n k \<longleftrightarrow> x div 2 ^ n = k"
proof
  assume "x \<in> blk n k"
  then show "x div 2 ^ n = k" unfolding blk_def by (intro div_nat_eqI) (auto simp: mult.commute)
next
  assume "x div 2 ^ n = k"
  then show "x \<in> blk n k" unfolding blk_def
    using dividend_less_div_times [of "2 ^ n" x] by (auto simp: mult.commute)
qed

lemma start_in_blk [simp]: "k * 2 ^ n \<in> blk n k"
  by (simp add: in_blk)

lemma blk_split: "blk (Suc n) k = blk n (2 * k) \<union> blk n (2 * k + 1)"
  unfolding blk_def by (auto simp: algebra_simps)

lemma blk_halves_disjoint: "blk n (2 * k) \<inter> blk n (2 * k + 1) = {}"
  by (auto simp: in_blk)

lemma blk_same: "blk n k \<inter> blk n k' \<noteq> {} \<longleftrightarrow> k = k'"
  by (auto simp: in_blk intro: start_in_blk)

text \<open>Two overlapping blocks are nested.\<close>

lemma blk_nested:
  assumes "n \<le> m" "blk n k \<inter> blk m j \<noteq> {}"
  shows "blk n k \<subseteq> blk m j"
proof
  fix x assume x: "x \<in> blk n k"
  obtain y where y: "y div 2 ^ n = k" "y div 2 ^ m = j" using assms(2) in_blk by blast
  have "z div 2 ^ m = z div 2 ^ n div 2 ^ (m - n)" for z :: nat
    by (metis assms(1) div_mult2_eq le_add_diff_inverse power_add)
  then show "x \<in> blk m j" using x y by (simp add: in_blk)
qed

definition tiles :: "nat \<Rightarrow> (nat \<times> nat) set \<Rightarrow> bool" where
  "tiles g B \<longleftrightarrow>
     (\<forall>n k. (n, k) \<in> B \<longrightarrow> n \<le> g \<and> (k + 1) * 2 ^ n \<le> 2 ^ g) \<and>
     (\<forall>n k m j. (n, k) \<in> B \<longrightarrow> (m, j) \<in> B \<longrightarrow> (n, k) \<noteq> (m, j) \<longrightarrow> blk n k \<inter> blk m j = {}) \<and>
     (\<forall>x < 2 ^ g. \<exists>n k. (n, k) \<in> B \<and> x \<in> blk n k)"

lemma tilesD:
  assumes "tiles g B"
  shows "(n, k) \<in> B \<Longrightarrow> n \<le> g" "(n, k) \<in> B \<Longrightarrow> (k + 1) * 2 ^ n \<le> 2 ^ g"
    and "(n, k) \<in> B \<Longrightarrow> (m, j) \<in> B \<Longrightarrow> (n, k) \<noteq> (m, j) \<Longrightarrow> blk n k \<inter> blk m j = {}"
    and "x < 2 ^ g \<Longrightarrow> \<exists>n k. (n, k) \<in> B \<and> x \<in> blk n k"
  using assms unfolding tiles_def by blast+

lemma tiles_whole: "tiles g {(g, 0)}"
  unfolding tiles_def by (auto simp: in_blk)

text \<open>Cutting a block in two halves.\<close>

lemma tiles_split:
  assumes t: "tiles g B" and b: "(Suc n, k) \<in> B"
  shows "tiles g (insert (n, 2 * k) (insert (n, 2 * k + 1) (B - {(Suc n, k)})))"
proof -
  have sub: "blk n (2 * k) \<subseteq> blk (Suc n) k" "blk n (2 * k + 1) \<subseteq> blk (Suc n) k"
    by (auto simp: blk_split)
  have other: "blk m j \<inter> blk (Suc n) k = {}" if "(m, j) \<in> B" "(m, j) \<noteq> (Suc n, k)" for m j
    using tilesD(3) [OF t that(1) b that(2)] .
  have g: "Suc n \<le> g" "(k + 1) * 2 ^ Suc n \<le> 2 ^ g" using tilesD(1,2) [OF t b] .
  show ?thesis unfolding tiles_def
  proof (intro conjI allI impI, goal_cases)
    case (1 m j) then show ?case using tilesD(1) [OF t] g by auto
  next
    case (2 m j) then show ?case using tilesD(2) [OF t] g by (auto simp: algebra_simps)
  next
    case (3 m j m' j')
    then show ?case
      using tilesD(3) [OF t, of m j m' j'] other [of m j] other [of m' j'] sub
        blk_halves_disjoint [of n k] by auto
  next
    case (4 x)
    then show ?case using tilesD(4) [OF t, of x] by (metis UnE blk_split insertI1 insertI2 insertE Diff_iff singletonD prod.inject insert_iff)
  qed
qed

text \<open>Joining the two halves again.\<close>

lemma tiles_merge:
  assumes t: "tiles g B" and b: "(n, 2 * k) \<in> B" "(n, 2 * k + 1) \<in> B"
  shows "tiles g (insert (Suc n, k) (B - {(n, 2 * k), (n, 2 * k + 1)}))"
proof -
  have other: "blk m j \<inter> blk (Suc n) k = {}"
    if "(m, j) \<in> B - {(n, 2 * k), (n, 2 * k + 1)}" for m j
    using tilesD(3) [OF t _ b(1), of m j] tilesD(3) [OF t _ b(2), of m j] that
    by (auto simp: blk_split)
  have le: "(2 * k + 1 + 1) * 2 ^ n \<le> 2 ^ g" using tilesD(2) [OF t b(2)] .
  have "2 * 2 ^ n \<le> (2 * k + 1 + 1) * (2::nat) ^ n" by (rule mult_right_mono) auto
  then have "2 ^ Suc n \<le> (2::nat) ^ g" using le by simp
  then have g: "Suc n \<le> g" using power_increasing_iff [of 2 "Suc n" g] by (metis one_less_numeral_iff power_increasing_iff semiring_norm(76))
  show ?thesis unfolding tiles_def
  proof (intro conjI allI impI, goal_cases)
    case (1 m j) then show ?case using tilesD(1) [OF t] g by auto
  next
    case (2 m j) then show ?case using tilesD(2) [OF t] le by (auto simp: algebra_simps)
  next
    case (3 m j m' j')
    then show ?case
      using tilesD(3) [OF t, of m j m' j'] other [of m j] other [of m' j'] by auto
  next
    case (4 x)
    obtain m j where mj: "(m, j) \<in> B" "x \<in> blk m j" using tilesD(4) [OF t 4] by blast
    show ?case
    proof (cases "(m, j) \<in> {(n, 2 * k), (n, 2 * k + 1)}")
      case True
      then have "x \<in> blk (Suc n) k" using mj(2) by (auto simp: blk_split)
      then show ?thesis by blast
    next
      case False
      then show ?thesis using mj by blast
    qed
  qed
qed

text \<open>The buddy of a block: the other half of the block one order up.\<close>

definition mate :: "nat \<Rightarrow> nat" where
  "mate k = (if even k then k + 1 else k - 1)"

lemma mate_mate [simp]: "mate (mate k) = k"
  by (auto simp: mate_def)

lemma mate_neq [simp]: "mate k \<noteq> k"
  by (auto simp: mate_def elim: oddE)

lemma mate_div2: "mate k div 2 = k div 2"
  by (auto simp: mate_def elim: oddE)

lemma in_blk_Suc: "j * 2 ^ n \<in> blk (Suc n) k \<longleftrightarrow> j div 2 = k"
  by (simp add: in_blk div_mult2_eq mult.commute [of 2])

lemma mate_pair: "{(n, k), (n, mate k)} = {(n, 2 * (k div 2)), (n, 2 * (k div 2) + 1)}"
  by (auto simp: mate_def)

lemma tiles_merge_mate:
  assumes "tiles g B" "(n, k) \<in> B" "(n, mate k) \<in> B"
  shows "tiles g (insert (Suc n, k div 2) (B - {(n, k), (n, mate k)}))"
proof -
  have "{(n, 2 * (k div 2)), (n, 2 * (k div 2) + 1)} \<subseteq> B"
    using assms(2,3) unfolding mate_pair [symmetric] by simp
  then show ?thesis unfolding mate_pair using tiles_merge [OF assms(1), of n "k div 2"] by auto
qed

lemma mate_in_range:
  assumes "n < g" "(k + 1) * 2 ^ n \<le> 2 ^ g"
  shows "(mate k + 1) * 2 ^ n \<le> 2 ^ g"
proof (cases "even k")
  case True
  have p: "(2::nat) ^ g = 2 ^ (g - n) * 2 ^ n" using assms(1) by (simp flip: power_add)
  have "even ((2::nat) ^ (g - n))" using assms(1) by simp
  moreover have "k + 1 \<le> 2 ^ (g - n)" using assms(2) unfolding p mult_le_cancel2 by simp
  ultimately have "k + 2 \<le> 2 ^ (g - n)" using True
    by (metis Suc_1 add_2_eq_Suc' add.commute even_Suc le_neq_implies_less plus_1_eq_Suc Suc_leI)
  then have "(k + 2) * 2 ^ n \<le> 2 ^ (g - n) * 2 ^ n" by (rule mult_right_mono) simp
  then show ?thesis using True p by (simp add: mate_def)
next
  case False
  then have "mate k + 1 \<le> k + 1" by (simp add: mate_def)
  then have "(mate k + 1) * 2 ^ n \<le> (k + 1) * 2 ^ n" by (rule mult_right_mono) simp
  then show ?thesis using assms(2) by linarith
qed

text \<open>A tiling in which no block lies beside its buddy is the undivided block: coalescing to the
  end loses no space.\<close>

lemma tiles_coalesced:
  assumes t: "tiles g B" and c: "\<And>n k. (n, k) \<in> B \<Longrightarrow> n < g \<Longrightarrow> (n, mate k) \<notin> B"
  shows "B = {(g, 0)}"
proof -
  have ne: "\<exists>n. \<exists>k. (n, k) \<in> B" using tilesD(4) [OF t, of 0] by auto
  define n where "n = (LEAST n. \<exists>k. (n, k) \<in> B)"
  obtain k where k: "(n, k) \<in> B" using LeastI_ex [OF ne] unfolding n_def by blast
  have least: "n \<le> m" if "(m, j) \<in> B" for m j
    unfolding n_def by (rule Least_le) (use that in blast)
  have "\<not> n < g"
  proof
    assume lt: "n < g"
    let ?x = "mate k * 2 ^ n"
    have "(mate k + 1) * 2 ^ n \<le> 2 ^ g" by (rule mate_in_range [OF lt tilesD(2) [OF t k]])
    then have "?x < 2 ^ g" by (simp add: less_le_trans [OF _ \<open>(mate k + 1) * 2 ^ n \<le> 2 ^ g\<close>])
    then obtain m j where mj: "(m, j) \<in> B" "?x \<in> blk m j" using tilesD(4) [OF t] by blast
    show False
    proof (cases "m = n")
      case True
      then have "j = mate k" using mj(2) by (simp add: in_blk)
      then show False using c [OF k lt] mj(1) True by simp
    next
      case False
      then have "Suc n \<le> m" using least [OF mj(1)] by simp
      moreover have "?x \<in> blk (Suc n) (k div 2)"
        using mate_div2 [of k] by (simp add: in_blk_Suc)
      ultimately have "blk (Suc n) (k div 2) \<subseteq> blk m j" using blk_nested mj(2) by blast
      moreover have "k * 2 ^ n \<in> blk (Suc n) (k div 2)" by (simp add: in_blk_Suc)
      ultimately have "blk m j \<inter> blk n k \<noteq> {}" using start_in_blk by blast
      then show False using tilesD(3) [OF t mj(1) k] False by auto
    qed
  qed
  then have "n = g" using tilesD(1) [OF t k] by simp
  then have "k = 0" using tilesD(2) [OF t k] by simp
  have "(m, j) = (g, 0)" if "(m, j) \<in> B" for m j
  proof -
    have "m = g" using least [OF that] tilesD(1) [OF t that] \<open>n = g\<close> by simp
    then show ?thesis using tilesD(2) [OF t that] by simp
  qed
  then have "B \<subseteq> {(g, 0)}" by (metis singletonI subsetI surj_pair)
  moreover have "(g, 0) \<in> B" using k \<open>n = g\<close> \<open>k = 0\<close> by simp
  ultimately show ?thesis by blast
qed

section \<open>Layouts: free and used blocks\<close>

text \<open>
  \<open>layout g mn F A\<close>: the free blocks \<open>F\<close> and the used blocks \<open>A\<close> together tile the pool, none is
  smaller than \<open>2 ^ mn\<close>, and no free block lies beside a free buddy.
\<close>

definition layout :: "nat \<Rightarrow> nat \<Rightarrow> (nat \<times> nat) set \<Rightarrow> (nat \<times> nat) set \<Rightarrow> bool" where
  "layout g mn F A \<longleftrightarrow> F \<inter> A = {} \<and> tiles g (F \<union> A) \<and> (\<forall>n k. (n, k) \<in> F \<union> A \<longrightarrow> mn \<le> n) \<and>
     (\<forall>n k. (n, k) \<in> F \<longrightarrow> n < g \<longrightarrow> (n, mate k) \<notin> F)"

lemma layoutD:
  assumes "layout g mn F A"
  shows "F \<inter> A = {}" "tiles g (F \<union> A)" "(n, k) \<in> F \<union> A \<Longrightarrow> mn \<le> n"
    and "(n, k) \<in> F \<Longrightarrow> n < g \<Longrightarrow> (n, mate k) \<notin> F"
  using assms unfolding layout_def by blast+

lemma layout_whole: "mn \<le> g \<Longrightarrow> layout g mn {(g, 0)} {}"
  unfolding layout_def using tiles_whole by simp

lemma layout_pop:
  assumes "layout g mn F A" "b \<in> F"
  shows "layout g mn (F - {b}) (insert b A)"
proof -
  have "F - {b} \<union> insert b A = F \<union> A" using assms(2) by blast
  then show ?thesis using assms unfolding layout_def by auto
qed

lemma layout_push:
  assumes "layout g mn F (insert (n, k) A)" "(n, k) \<notin> A" "n < g \<Longrightarrow> (n, mate k) \<notin> F"
  shows "layout g mn (insert (n, k) F) A"
proof -
  have "insert (n, k) F \<union> A = F \<union> insert (n, k) A" by blast
  moreover have "(m, mate j) \<notin> insert (n, k) F" if "(m, j) \<in> insert (n, k) F" "m < g" for m j
    using that assms(3) layoutD(4) [OF assms(1), of m j] by (metis Pair_inject insert_iff mate_mate mate_neq)
  ultimately show ?thesis using assms(1,2) unfolding layout_def by auto
qed

text \<open>A block that covers a half of another block of the tiling is not in it.\<close>

lemma tiles_half_notin:
  assumes "tiles g B" "(Suc n, k) \<in> B"
  shows "(n, 2 * k) \<notin> B" "(n, 2 * k + 1) \<notin> B"
proof -
  have "blk n (2 * k) \<inter> blk (Suc n) k \<noteq> {}" "blk n (2 * k + 1) \<inter> blk (Suc n) k \<noteq> {}"
    using start_in_blk [of "2 * k" n] start_in_blk [of "2 * k + 1" n] unfolding blk_split by blast+
  then show "(n, 2 * k) \<notin> B" "(n, 2 * k + 1) \<notin> B"
    using tilesD(3) [OF assms(1) _ assms(2)] by (metis Pair_inject n_not_Suc_n)+
qed

lemma tiles_parent_notin:
  assumes "tiles g B" "(n, k) \<in> B"
  shows "(Suc n, k div 2) \<notin> B"
  using tiles_half_notin [OF assms(1), of n "k div 2"] assms(2) by (cases "even k") auto

lemma layout_split:
  assumes l: "layout g mn F (insert (Suc n, k) A)" and new: "(Suc n, k) \<notin> A" and mn: "mn \<le> n"
  shows "layout g mn (insert (n, 2 * k + 1) F) (insert (n, 2 * k) A)" "(n, 2 * k) \<notin> A"
proof -
  let ?B = "F \<union> insert (Suc n, k) A"
  have t: "tiles g ?B" by (rule layoutD(2) [OF l])
  have half: "(n, 2 * k) \<notin> ?B" "(n, 2 * k + 1) \<notin> ?B" using tiles_half_notin [OF t] by blast+
  show "(n, 2 * k) \<notin> A" using half by blast
  have notF: "(Suc n, k) \<notin> F" using layoutD(1) [OF l] by blast
  have "insert (n, 2 * k) (insert (n, 2 * k + 1) (?B - {(Suc n, k)})) =
      insert (n, 2 * k + 1) F \<union> insert (n, 2 * k) A"
    using notF new by blast
  then have t': "tiles g (insert (n, 2 * k + 1) F \<union> insert (n, 2 * k) A)"
    using tiles_split [OF t, of n k] by simp
  have co: "(m, mate j) \<notin> insert (n, 2 * k + 1) F" if "(m, j) \<in> insert (n, 2 * k + 1) F" "m < g" for m j
  proof (cases "(m, j) = (n, 2 * k + 1)")
    case True
    then show ?thesis using half by (simp add: mate_def)
  next
    case False
    then have "(m, j) \<in> F" using that(1) by blast
    moreover have "(m, mate j) \<noteq> (n, 2 * k + 1)"
      using half \<open>(m, j) \<in> F\<close> by (metis Pair_inject UnCI add_diff_cancel_right' even_add even_mult_iff mate_def mate_mate odd_one dvd_refl)
    ultimately show ?thesis using layoutD(4) [OF l _ that(2)] by blast
  qed
  have "insert (n, 2 * k + 1) F \<inter> insert (n, 2 * k) A = {}" using half layoutD(1) [OF l] by auto
  then show "layout g mn (insert (n, 2 * k + 1) F) (insert (n, 2 * k) A)"
    unfolding layout_def using t' co mn layoutD(3) [OF l] by auto
qed

lemma layout_merge:
  assumes l: "layout g mn F (insert (n, k) A)" and new: "(n, k) \<notin> A" and b: "(n, mate k) \<in> F"
  shows "layout g mn (F - {(n, mate k)}) (insert (Suc n, k div 2) A)" "(Suc n, k div 2) \<notin> A"
proof -
  let ?B = "F \<union> insert (n, k) A"
  have t: "tiles g ?B" by (rule layoutD(2) [OF l])
  have par: "(Suc n, k div 2) \<notin> ?B" by (rule tiles_parent_notin [OF t]) blast
  show "(Suc n, k div 2) \<notin> A" using par by blast
  have "F \<inter> insert (n, k) A = {}" by (rule layoutD(1) [OF l])
  then have "insert (Suc n, k div 2) (?B - {(n, k), (n, mate k)}) =
      F - {(n, mate k)} \<union> insert (Suc n, k div 2) A"
    using new b by blast
  then have t': "tiles g (F - {(n, mate k)} \<union> insert (Suc n, k div 2) A)"
    using tiles_merge_mate [OF t, of n k] b by simp
  have "mn \<le> n" using layoutD(3) [OF l, of n k] by simp
  then show "layout g mn (F - {(n, mate k)}) (insert (Suc n, k div 2) A)"
    unfolding layout_def using t' par layoutD(1,3,4) [OF l] by auto
qed

text \<open>With nothing in use the pool is a single free block again.\<close>

lemma layout_empty: "layout g mn F {} \<Longrightarrow> F = {(g, 0)}"
  using tiles_coalesced [of g F] unfolding layout_def by auto

end
