(* ===== verification/BuddySpec.thy ===== *)
theory BuddySpec
  imports Buddy BuddyTiling
begin

text \<open>
  Correctness of the buddy allocator.  Inside one region the free lists and the blocks in use tile
  the pool (\<open>region_ok\<close>); across regions the pools are apart (\<open>buddy_ok\<close>).  The set \<open>L\<close> of the
  blocks in use is kept by the clients and is a parameter of the invariant.
\<close>

section \<open>One region\<close>

definition free_set :: "buddy_region \<Rightarrow> (nat \<times> nat) set" where
  "free_set r = {(n, k). rg_pool r + k * 2 ^ n \<in> set (rg_free r n)}"

definition region_ok :: "nat \<Rightarrow> buddy_region \<Rightarrow> (nat \<times> nat) set \<Rightarrow> bool" where
  "region_ok g r A \<longleftrightarrow>
     rg_size r = 2 ^ g \<and> g \<le> rg_max r \<and> 0 < rg_pool r \<and> rg_pool r + 2 ^ g < W64 \<and>
     (\<forall>n. distinct (rg_free r n)) \<and>
     (\<forall>n. \<forall>x \<in> set (rg_free r n). \<exists>k. x = rg_pool r + k * 2 ^ n) \<and>
     layout g (rg_min r) (free_set r) A"

lemma region_okD:
  assumes "region_ok g r A"
  shows "rg_size r = 2 ^ g" "g \<le> rg_max r" "0 < rg_pool r" "rg_pool r + 2 ^ g < W64"
    and "distinct (rg_free r n)" "x \<in> set (rg_free r n) \<Longrightarrow> \<exists>k. x = rg_pool r + k * 2 ^ n"
    and "layout g (rg_min r) (free_set r) A"
  using assms unfolding region_ok_def by blast+

definition same_pool :: "buddy_region \<Rightarrow> buddy_region \<Rightarrow> bool" where
  "same_pool r r' \<longleftrightarrow> rg_pool r' = rg_pool r \<and> rg_size r' = rg_size r \<and> rg_min r' = rg_min r \<and>
     rg_max r' = rg_max r"

lemma same_pool_refl [simp]: "same_pool r r" "same_pool r (r\<lparr>rg_free := f\<rparr>)"
  by (simp_all add: same_pool_def)

lemma same_pool_trans: "same_pool r s \<Longrightarrow> same_pool s t \<Longrightarrow> same_pool r t"
  by (simp add: same_pool_def)

lemma free_set_mem: "(n, k) \<in> free_set r \<longleftrightarrow> rg_pool r + k * 2 ^ n \<in> set (rg_free r n)"
  by (simp add: free_set_def)

text \<open>The operations on one free list, as operations on \<^const>\<open>free_set\<close>.\<close>

lemma free_set_push:
  "free_set (r\<lparr>rg_free := (rg_free r)(n := (rg_pool r + k * 2 ^ n) # rg_free r n)\<rparr>) =
   insert (n, k) (free_set r)"
  by (auto simp: free_set_def split: if_splits)

lemma free_set_remove:
  assumes "set l = set (rg_free r n) - {rg_pool r + k * 2 ^ n}"
  shows "free_set (r\<lparr>rg_free := (rg_free r)(n := l)\<rparr>) = free_set r - {(n, k)}"
  by (auto simp: free_set_def assms split: if_splits)

lemma region_push:
  assumes "region_ok g r A"
    "layout g (rg_min r) (insert (n, k) (free_set r)) A'"
    "(n, k) \<notin> free_set r"
  shows "region_ok g (r\<lparr>rg_free := (rg_free r)(n := (rg_pool r + k * 2 ^ n) # rg_free r n)\<rparr>) A'"
  using region_okD [OF assms(1)] assms(2,3) unfolding region_ok_def free_set_push
  by (auto simp: free_set_mem)

lemma region_remove:
  assumes "region_ok g r A" "set l = set (rg_free r n) - {rg_pool r + k * 2 ^ n}" "distinct l"
    "layout g (rg_min r) (free_set r - {(n, k)}) A'"
  shows "region_ok g (r\<lparr>rg_free := (rg_free r)(n := l)\<rparr>) A'"
  using region_okD [OF assms(1)] assms(3,4) unfolding region_ok_def free_set_remove [OF assms(2)]
  by (auto simp: assms(2))

lemma region_pop:
  assumes "region_ok g r A" "rg_free r n = x # xs"
  obtains k where "x = rg_pool r + k * 2 ^ n" "(n, k) \<notin> A"
    "region_ok g (r\<lparr>rg_free := (rg_free r)(n := xs)\<rparr>) (insert (n, k) A)"
proof -
  obtain k where k: "x = rg_pool r + k * 2 ^ n"
    using region_okD(6) [OF assms(1), of x n] assms(2) by auto
  have f: "(n, k) \<in> free_set r" using assms(2) k by (simp add: free_set_mem)
  have "(n, k) \<notin> A" using layoutD(1) [OF region_okD(7) [OF assms(1)]] f by blast
  moreover have "region_ok g (r\<lparr>rg_free := (rg_free r)(n := xs)\<rparr>) (insert (n, k) A)"
    using region_okD(5) [OF assms(1), of n] assms(2) k
    by (intro region_remove [OF assms(1) _ _ layout_pop [OF region_okD(7) [OF assms(1)] f]]) auto
  ultimately show ?thesis using k that by blast
qed

lemma region_hand_notin: "region_ok g r (insert b A) \<Longrightarrow> b \<notin> free_set r"
  using layoutD(1) [OF region_okD(7)] by blast

lemma region_in_range:
  assumes "region_ok g r A" "(n, k) \<in> free_set r \<union> A"
  shows "n \<le> g" "rg_min r \<le> n" "(k + 1) * 2 ^ n \<le> 2 ^ g"
  using layoutD(3) [OF region_okD(7) [OF assms(1)] assms(2)]
    tilesD(1,2) [OF layoutD(2) [OF region_okD(7) [OF assms(1)]] assms(2)] by auto

subsection \<open>Splitting\<close>

lemma split_down_ok:
  assumes "region_ok g r (insert (m, k) A)" "(m, k) \<notin> A" "rg_min r \<le> n" "n \<le> m"
  shows "let r' = r\<lparr>rg_free := split_down (rg_free r) (rg_pool r + k * 2 ^ m) m n\<rparr> in
    region_ok g r' (insert (n, k * 2 ^ (m - n)) A) \<and> (n, k * 2 ^ (m - n)) \<notin> A"
  using assms
proof (induction m arbitrary: r k)
  case 0
  then show ?case by simp
next
  case (Suc m)
  show ?case
  proof (cases "n = Suc m")
    case True
    then show ?thesis using Suc.prems by simp
  next
    case False
    then have nm: "n \<le> m" using Suc.prems by simp
    let ?r = "r\<lparr>rg_free := (rg_free r)(m := (rg_pool r + (2 * k + 1) * 2 ^ m) # rg_free r m)\<rparr>"
    note sp = layout_split [OF region_okD(7) [OF Suc.prems(1)] Suc.prems(2)]
    have "(m, 2 * k + 1) \<notin> free_set r"
      using tiles_half_notin [OF layoutD(2) [OF region_okD(7) [OF Suc.prems(1)]], of m k] by blast
    then have ok: "region_ok g ?r (insert (m, 2 * k) A)"
      using sp(1) Suc.prems(3) nm by (intro region_push [OF Suc.prems(1)]) simp_all
    have "rg_min ?r \<le> n" using Suc.prems(3) by simp
    have "(m, 2 * k) \<notin> A" using sp(2) Suc.prems(3) nm by simp
    from Suc.IH [OF ok this \<open>rg_min ?r \<le> n\<close> nm]
    have "let r' = r\<lparr>rg_free := split_down (rg_free ?r) (rg_pool r + 2 * k * 2 ^ m) m n\<rparr> in
      region_ok g r' (insert (n, 2 * k * 2 ^ (m - n)) A) \<and> (n, 2 * k * 2 ^ (m - n)) \<notin> A"
      by (simp add: Let_def fun_upd_def)
    moreover have "k * 2 ^ (Suc m - n) = 2 * k * 2 ^ (m - n)"
      using nm by (simp add: Suc_diff_le)
    moreover have "rg_pool r + k * 2 ^ Suc m = rg_pool r + 2 * k * 2 ^ m" by simp
    moreover have "split_down (rg_free r) (rg_pool r + k * 2 ^ Suc m) (Suc m) n =
      split_down (rg_free ?r) (rg_pool r + 2 * k * 2 ^ m) m n"
      using nm by (simp add: order_size_def algebra_simps)
    ultimately show ?thesis by metis
  qed
qed

lemma take_block_ok:
  assumes "region_ok g r A" "rg_free r m \<noteq> []" "rg_min r \<le> n" "n \<le> m"
  obtains k r' where "take_block r m n = (rg_pool r + k * 2 ^ n, r')" "(n, k) \<notin> A"
    "region_ok g r' (insert (n, k) A)" "same_pool r r'"
proof -
  obtain x xs where x: "rg_free r m = x # xs" using assms(2) by (cases "rg_free r m") auto
  obtain k where k: "x = rg_pool r + k * 2 ^ m" "(m, k) \<notin> A"
    "region_ok g (r\<lparr>rg_free := (rg_free r)(m := xs)\<rparr>) (insert (m, k) A)"
    by (rule region_pop [OF assms(1) x])
  have "k * 2 ^ (m - n) * 2 ^ n = k * 2 ^ m" using assms(4) by (simp add: mult.assoc flip: power_add)
  then have "take_block r m n = (rg_pool r + k * 2 ^ (m - n) * 2 ^ n,
      r\<lparr>rg_free := split_down ((rg_free r)(m := xs)) (rg_pool r + k * 2 ^ m) m n\<rparr>)"
    unfolding take_block_def Let_def x k(1) by (simp only: list.sel)
  then show ?thesis
    using that split_down_ok [OF k(3,2) _ assms(4)] assms(3) by (simp add: Let_def)
qed

subsection \<open>Merging\<close>

lemma xor_mate: "(k * 2 ^ n) XOR 2 ^ n = mate k * 2 ^ n"
proof -
  have "k XOR 1 = mate k" by (auto simp: mate_def xor_nat_def xor_one_eq nat_add_distrib elim: oddE)
  then have "push_bit n k XOR push_bit n 1 = push_bit n (mate k)"
    by (simp only: push_bit_xor [symmetric])
  then show ?thesis by (simp add: push_bit_eq_mult)
qed

lemma buddy_of_eq:
  assumes "region_ok g r (insert (n, k) A)"
  shows "buddy_of r (rg_pool r + k * 2 ^ n) n =
    (if n < g then rg_pool r + mate k * 2 ^ n else rg_pool r + k * 2 ^ n)"
proof -
  note rng = region_in_range [OF assms, of n k]
  have le: "(k + 1) * 2 ^ n \<le> 2 ^ g" "n \<le> g" using rng by auto
  have lt: "k * 2 ^ n < 2 ^ g" using le(1) by (simp add: less_le_trans [OF _ le(1)])
  then have "sub64 (rg_pool r + k * 2 ^ n) (rg_pool r) = k * 2 ^ n"
    using region_okD(4) [OF assms] by (simp add: sub64_nowrap)
  then have off: "block_offset r (rg_pool r + k * 2 ^ n) = k * 2 ^ n"
    unfolding block_offset_def region_okD(1) [OF assms] and_pow2_minus_1 using lt by simp
  show ?thesis
  proof (cases "n < g")
    case True
    have "(mate k + 1) * 2 ^ n \<le> 2 ^ g" by (rule mate_in_range [OF True le(1)])
    then have "mate k * 2 ^ n < 2 ^ g" by (simp add: less_le_trans [OF _ \<open>(mate k + 1) * 2 ^ n \<le> 2 ^ g\<close>])
    then show ?thesis
      unfolding buddy_of_def off order_size_def xor_mate region_okD(1) [OF assms] and_pow2_minus_1
      using True by simp
  next
    case False
    then have "n = g" using le(2) by simp
    moreover have "k = 0" using lt \<open>n = g\<close> by simp
    ultimately show ?thesis
      unfolding buddy_of_def off order_size_def region_okD(1) [OF assms] and_pow2_minus_1 by simp
  qed
qed

lemma unlink_None: "unlink x xs = None \<longleftrightarrow> x \<notin> set xs"
  by (induction xs) auto

lemma unlink_Some: "distinct xs \<Longrightarrow> unlink x xs = Some l \<Longrightarrow> x \<in> set xs \<and> set l = set xs - {x} \<and> distinct l"
  by (induction xs arbitrary: l) (auto split: if_splits)

lemma lower_half: "(if k * 2 ^ n > mate k * 2 ^ n then mate k * 2 ^ n else k * 2 ^ n) = k div 2 * 2 ^ Suc n"
  for k n :: nat
  by (cases "even k") (auto simp: mate_def elim!: evenE oddE)

lemma merge_loop_ok:
  assumes "region_ok g r (insert (n, k) A)" "(n, k) \<notin> A"
  shows "region_ok g (insert_free (merge_loop r (rg_pool r + k * 2 ^ n) n)) A \<and>
    same_pool r (insert_free (merge_loop r (rg_pool r + k * 2 ^ n) n))"
  using assms
proof (induction "rg_max r - n" arbitrary: r n k rule: less_induct)
  case less
  let ?b = "rg_pool r + k * 2 ^ n"
  note ok = less.prems(1)
  have rng: "n \<le> g" "(k + 1) * 2 ^ n \<le> 2 ^ g" using region_in_range [OF ok, of n k] by auto
  have stop: ?case if "merge_loop r ?b n = (r, ?b, n)" and "n < g \<Longrightarrow> (n, mate k) \<notin> free_set r"
    unfolding that(1) insert_free_def using region_push [OF ok layout_push [OF region_okD(7) [OF ok] less.prems(2) that(2)]
      region_hand_notin [OF ok]] by simp
  show ?case
  proof (cases "n < g")
    case False
    then have "n = g" using rng by simp
    have "?b \<notin> set (rg_free r n)" using region_hand_notin [OF ok] by (simp add: free_set_mem)
    then have "merge_loop r ?b n = (r, ?b, n)"
      using False buddy_of_eq [OF ok] by (simp add: merge_loop.simps [of r] unlink_None [THEN iffD2] Let_def)
    then show ?thesis using stop False by blast
  next
    case True
    then have bd: "buddy_of r ?b n = rg_pool r + mate k * 2 ^ n" using buddy_of_eq [OF ok] by simp
    have "(mate k + 1) * 2 ^ n \<le> 2 ^ g" by (rule mate_in_range [OF True rng(2)])
    then have "mate k * 2 ^ n < 2 ^ g" by (simp add: less_le_trans [OF _ \<open>(mate k + 1) * 2 ^ n \<le> 2 ^ g\<close>])
    then have inr: "\<not> (buddy_of r ?b n < rg_pool r \<or> rg_pool r + rg_size r \<le> buddy_of r ?b n)"
      using bd region_okD(1) [OF ok] by simp
    have mx: "\<not> rg_max r \<le> n" using True region_okD(2) [OF ok] by simp
    show ?thesis
    proof (cases "unlink (buddy_of r ?b n) (rg_free r n)")
      case None
      then have "merge_loop r ?b n = (r, ?b, n)" using inr by (simp add: merge_loop.simps [of r] Let_def)
      moreover have "(n, mate k) \<notin> free_set r"
        using None unfolding unlink_None bd by (simp add: free_set_mem)
      ultimately show ?thesis using stop by blast
    next
      case (Some l)
      let ?r = "r\<lparr>rg_free := (rg_free r)(n := l)\<rparr>"
      have l: "rg_pool r + mate k * 2 ^ n \<in> set (rg_free r n)"
        "set l = set (rg_free r n) - {rg_pool r + mate k * 2 ^ n}" "distinct l"
        using unlink_Some [OF region_okD(5) [OF ok] Some] unfolding bd by auto
      then have "(n, mate k) \<in> free_set r" by (simp add: free_set_mem)
      note mg = layout_merge [OF region_okD(7) [OF ok] less.prems(2) this]
      have ok': "region_ok g ?r (insert (Suc n, k div 2) A)" by (rule region_remove [OF ok l(2,3) mg(1)])
      have "(if ?b > buddy_of r ?b n then buddy_of r ?b n else ?b) = rg_pool ?r + k div 2 * 2 ^ Suc n"
        unfolding bd using lower_half [of k n] by (auto split: if_splits)
      then have "merge_loop r ?b n = merge_loop ?r (rg_pool ?r + k div 2 * 2 ^ Suc n) (Suc n)"
        using mx inr Some by (simp only: merge_loop.simps [of r] Let_def if_False option.case)
      moreover have "rg_max ?r - Suc n < rg_max r - n" using mx by simp
      ultimately show ?thesis using less.hyps [OF _ ok' mg(2)] by (simp add: same_pool_def)
    qed
  qed
qed

section \<open>The sizes\<close>

lemma order_loop_le: "sz \<le> 2 ^ order_loop n sz"
  by (induction n sz rule: order_loop.induct) (subst order_loop.simps, auto)

lemma order_loop_ge: "n \<le> order_loop n sz"
  by (induction n sz rule: order_loop.induct) (subst order_loop.simps, auto)

lemma order_loop_least: "n \<le> m \<Longrightarrow> sz \<le> 2 ^ m \<Longrightarrow> order_loop n sz \<le> m"
proof (induction n sz rule: order_loop.induct)
  case (1 n sz)
  show ?case
  proof (cases "2 ^ n < sz")
    case True
    then have "n \<noteq> m" using 1(3) by auto
    then show ?thesis using 1 True by (subst order_loop.simps) simp
  next
    case False
    then show ?thesis using 1(2) by (subst order_loop.simps) simp
  qed
qed

lemma round_up:
  assumes "0 < d" "sz + d < W64"
  shows "sz \<le> align_up sz d" "d dvd m \<Longrightarrow> sz \<le> m \<Longrightarrow> align_up sz d \<le> m"
proof -
  have e: "align_up sz d = (sz + d - 1) div d * d"
    unfolding align_up_def round_down_def using assms by (simp add: u64_simps)
  have "sz + d - 1 < (sz + d - 1) div d * d + d"
    using dividend_less_div_times [OF assms(1)] by (simp add: add.commute)
  then show "sz \<le> align_up sz d" unfolding e using assms(1) by linarith
  assume "d dvd m" "sz \<le> m"
  then obtain q where q: "m = q * d" by (metis dvd_div_mult_self)
  have "(sz + d - 1) div d < q + 1"
    by (rule less_mult_imp_div_less) (use \<open>sz \<le> m\<close> q assms(1) in auto)
  then have "(sz + d - 1) div d * d \<le> q * d" by (intro mult_right_mono) auto
  then show "align_up sz d \<le> m" unfolding e q .
qed

text \<open>\<^const>\<open>size_to_order\<close> gives the smallest order from \<^verbatim>\<open>min_order\<close> up that holds the request.\<close>

lemma size_to_order_bounds:
  assumes "sz + 2 ^ rg_min r < W64"
  shows "sz \<le> 2 ^ size_to_order r sz" "rg_min r \<le> size_to_order r sz"
    and "rg_min r \<le> m \<Longrightarrow> sz \<le> 2 ^ m \<Longrightarrow> size_to_order r sz \<le> m"
proof -
  note up = round_up [of "2 ^ rg_min r" sz]
  show "sz \<le> 2 ^ size_to_order r sz"
    unfolding size_to_order_def by (rule order_trans [OF _ order_loop_le]) (use up assms in auto)
  show "rg_min r \<le> size_to_order r sz" unfolding size_to_order_def by (rule order_loop_ge)
  assume m: "rg_min r \<le> m" "sz \<le> 2 ^ m"
  then show "size_to_order r sz \<le> m"
    unfolding size_to_order_def using assms
    by (intro order_loop_least up(2)) (auto simp: le_imp_power_dvd)
qed

lemma find_cur_props:
  "n \<le> find_cur r n"
  "find_cur r n \<le> rg_max r \<Longrightarrow> rg_free r (find_cur r n) \<noteq> []"
  "n \<le> m \<Longrightarrow> m \<le> rg_max r \<Longrightarrow> rg_free r m \<noteq> [] \<Longrightarrow> find_cur r n \<le> m"
proof (induction r n rule: find_cur.induct)
  case (1 r n)
  { case 1 then show ?case using "1.IH"(1) by (subst find_cur.simps) (auto intro: Suc_leD) }
  { case 2 then show ?case using "1.IH"(2) by (subst find_cur.simps, subst (asm) find_cur.simps) (auto split: if_splits) }
  { case 3
    then have "n \<noteq> m" if "rg_free r n = []" using that by auto
    then show ?case using 3 "1.IH"(3) by (subst find_cur.simps) auto }
qed

section \<open>The whole allocator\<close>

definition pool_range :: "buddy_region \<Rightarrow> nat set" where
  "pool_range r = {rg_pool r ..< rg_pool r + rg_size r}"

text \<open>The blocks of region \<open>i\<close> in use: those in \<open>L\<close> whose header names the region.\<close>

definition live_at :: "buddy_allocator \<Rightarrow> nat set \<Rightarrow> nat \<Rightarrow> (nat \<times> nat) set" where
  "live_at a L i = {(n, k). rg_pool (ba_regions a ! i) + k * 2 ^ n \<in> L \<and>
     ba_header a (rg_pool (ba_regions a ! i) + k * 2 ^ n) = Some (n, i)}"

text \<open>What is asked of \<^verbatim>\<open>kmalloc_aligned\<close>: a pool it gives out lies apart from the pools in use and
  from every pool given out earlier and kept.\<close>

definition kmalloc_ok :: "buddy_allocator \<Rightarrow> bool" where
  "kmalloc_ok a \<longleftrightarrow>
     (\<forall>j p. ba_requests a \<le> j \<longrightarrow> ba_kmalloc a j (2 ^ ba_grow a) = p \<longrightarrow> p \<noteq> 0 \<longrightarrow>
        p + 2 ^ ba_grow a < W64 \<and>
        (\<forall>r \<in> set (ba_regions a). pool_range r \<inter> {p ..< p + 2 ^ ba_grow a} = {}) \<and>
        (\<forall>i q. ba_requests a \<le> i \<longrightarrow> i < j \<longrightarrow> ba_kmalloc a i (2 ^ ba_grow a) = q \<longrightarrow> q \<noteq> 0 \<longrightarrow>
           ba_kmalloc a (Suc i) sizeof_region \<noteq> 0 \<longrightarrow>
           {q ..< q + 2 ^ ba_grow a} \<inter> {p ..< p + 2 ^ ba_grow a} = {}))"

definition buddy_ok :: "buddy_allocator \<Rightarrow> nat set \<Rightarrow> bool" where
  "buddy_ok a L \<longleftrightarrow>
     BUDDY_MIN_ORDER \<le> ba_min a \<and> ba_min a \<le> ba_grow a \<and> ba_grow a \<le> ba_max a \<and>
     ba_max a \<le> BUDDY_MAX_ORDER \<and> ba_current a \<le> ba_peak a \<and> kmalloc_ok a \<and>
     ba_active a = (if ba_regions a = [] then None else Some (length (ba_regions a) - 1)) \<and>
     (\<forall>i < length (ba_regions a). region_ok (ba_grow a) (ba_regions a ! i) (live_at a L i) \<and>
        rg_min (ba_regions a ! i) = ba_min a \<and> rg_max (ba_regions a ! i) = ba_max a) \<and>
     (\<forall>i < length (ba_regions a). \<forall>j < i. pool_range (ba_regions a ! i) \<inter> pool_range (ba_regions a ! j) = {}) \<and>
     (\<forall>x \<in> L. \<exists>i < length (ba_regions a). \<exists>n k. (n, k) \<in> live_at a L i \<and>
        x = rg_pool (ba_regions a ! i) + k * 2 ^ n)"

lemma buddy_okD:
  assumes "buddy_ok a L"
  shows "BUDDY_MIN_ORDER \<le> ba_min a" "ba_min a \<le> ba_grow a" "ba_grow a \<le> ba_max a"
    and "ba_max a \<le> BUDDY_MAX_ORDER" "ba_current a \<le> ba_peak a" "kmalloc_ok a"
    and "ba_active a = (if ba_regions a = [] then None else Some (length (ba_regions a) - 1))"
    and "i < length (ba_regions a) \<Longrightarrow> region_ok (ba_grow a) (ba_regions a ! i) (live_at a L i)"
    and "i < length (ba_regions a) \<Longrightarrow> rg_min (ba_regions a ! i) = ba_min a"
    and "i < length (ba_regions a) \<Longrightarrow> rg_max (ba_regions a ! i) = ba_max a"
    and "i < length (ba_regions a) \<Longrightarrow> j < i \<Longrightarrow>
      pool_range (ba_regions a ! i) \<inter> pool_range (ba_regions a ! j) = {}"
  using assms unfolding buddy_ok_def by simp_all

lemma pools_apart:
  assumes "buddy_ok a L" "i < length (ba_regions a)" "j < length (ba_regions a)" "i \<noteq> j"
  shows "pool_range (ba_regions a ! i) \<inter> pool_range (ba_regions a ! j) = {}"
  using buddy_okD(11) [OF assms(1), of i j] buddy_okD(11) [OF assms(1), of j i] assms(2-4)
  by (cases "i < j") auto

lemma live_blockE:
  assumes "buddy_ok a L" "x \<in> L"
  obtains i n k where "i < length (ba_regions a)" "(n, k) \<in> live_at a L i"
    "x = rg_pool (ba_regions a ! i) + k * 2 ^ n" "ba_header a x = Some (n, i)"
proof -
  obtain i n k where i: "i < length (ba_regions a)" "(n, k) \<in> live_at a L i"
    "x = rg_pool (ba_regions a ! i) + k * 2 ^ n"
    using assms unfolding buddy_ok_def by meson
  then show ?thesis using that unfolding live_at_def by simp
qed

lemma buddy_ok_small: "buddy_ok a L \<Longrightarrow> n \<le> ba_max a \<Longrightarrow> (2::nat) ^ n \<le> 2 ^ 29"
  using buddy_okD(4) [of a L] by (intro power_increasing) (auto simp: BUDDY_MAX_ORDER_def)

lemma block_in_pool:
  assumes "region_ok g r A" "(n, k) \<in> free_set r \<union> A"
  shows "{rg_pool r + k * 2 ^ n ..< rg_pool r + k * 2 ^ n + 2 ^ n} \<subseteq> pool_range r"
  using region_in_range(3) [OF assms] region_okD(1) [OF assms(1)] unfolding pool_range_def by auto

text \<open>Blocks of one region at one address are one block.\<close>

lemma block_unique:
  assumes "region_ok g r A" "(n, k) \<in> free_set r \<union> A" "(m, j) \<in> free_set r \<union> A" "k * 2 ^ n = j * 2 ^ m"
  shows "(n, k) = (m, j)"
  using tilesD(3) [OF layoutD(2) [OF region_okD(7) [OF assms(1)]] assms(2,3)] start_in_blk [of k n]
    start_in_blk [of j m] assms(4) by (metis disjoint_iff)

lemma block_start_in_pool:
  assumes "region_ok g r A" "(n, k) \<in> free_set r \<union> A"
  shows "rg_pool r + k * 2 ^ n \<in> pool_range r"
  using block_in_pool [OF assms] by auto

text \<open>Replacing one region, with the set of blocks in use changed in that region only.\<close>

lemma buddy_ok_replace:
  assumes "buddy_ok a L" "i < length (ba_regions a)" "same_pool (ba_regions a ! i) r'"
    and a': "ba_regions a' = (ba_regions a)[i := r']" "ba_active a' = ba_active a" "ba_grow a' = ba_grow a"
      "ba_min a' = ba_min a" "ba_max a' = ba_max a" "ba_kmalloc a' = ba_kmalloc a"
      "ba_requests a' = ba_requests a" "ba_current a' \<le> ba_peak a'"
    and r': "region_ok (ba_grow a) r' (live_at a' L' i)"
    and others: "\<And>j. j < length (ba_regions a) \<Longrightarrow> j \<noteq> i \<Longrightarrow> live_at a' L' j = live_at a L j"
    and L': "\<And>x. x \<in> L' \<Longrightarrow> x \<in> L \<and> ba_header a' x = ba_header a x \<or>
      (\<exists>n k. (n, k) \<in> live_at a' L' i \<and> x = rg_pool r' + k * 2 ^ n)"
  shows "buddy_ok a' L'"
proof -
  have len: "length (ba_regions a') = length (ba_regions a)" by (simp add: a')
  have nth: "ba_regions a' ! j = (if j = i then r' else ba_regions a ! j)" for j
    using assms(2) by (cases "j = i") (simp_all add: a')
  have rng: "pool_range (ba_regions a' ! j) = pool_range (ba_regions a ! j)" for j
    using assms(3) by (simp add: nth pool_range_def same_pool_def)
  have "\<exists>r \<in> set (ba_regions a). pool_range r = pool_range s" if "s \<in> set (ba_regions a')" for s
    using that rng by (metis in_set_conv_nth len)
  then have km: "kmalloc_ok a'"
    using buddy_okD(6) [OF assms(1)] unfolding kmalloc_ok_def a' by (metis a'(1))
  have cov: "\<exists>j < length (ba_regions a'). \<exists>n k. (n, k) \<in> live_at a' L' j \<and>
      x = rg_pool (ba_regions a' ! j) + k * 2 ^ n" if x: "x \<in> L'" for x
  proof (cases "\<exists>n k. (n, k) \<in> live_at a' L' i \<and> x = rg_pool r' + k * 2 ^ n")
    case True
    then show ?thesis using assms(2) len nth by (intro exI [of _ i]) auto
  next
    case False
    then have xL: "x \<in> L" "ba_header a' x = ba_header a x" using L' [OF x] by blast+
    obtain j n k where j: "j < length (ba_regions a)" "(n, k) \<in> live_at a L j"
      "x = rg_pool (ba_regions a ! j) + k * 2 ^ n" "ba_header a x = Some (n, j)"
      by (rule live_blockE [OF assms(1) xL(1)])
    have "rg_pool (ba_regions a' ! j) = rg_pool (ba_regions a ! j)"
      using assms(3) by (simp add: nth same_pool_def)
    then have "(n, k) \<in> live_at a' L' j \<and> x = rg_pool (ba_regions a' ! j) + k * 2 ^ n"
      unfolding live_at_def using j x xL by simp
    then show ?thesis using j(1) unfolding len by blast
  qed
  have reg: "region_ok (ba_grow a') (ba_regions a' ! j) (live_at a' L' j) \<and>
      rg_min (ba_regions a' ! j) = ba_min a' \<and> rg_max (ba_regions a' ! j) = ba_max a'"
    if "j < length (ba_regions a')" for j
    using that buddy_okD(8,9,10) [OF assms(1), of j] r' others [of j] assms(3)
    unfolding nth len same_pool_def a'(3-5) by auto
  show ?thesis
    unfolding buddy_ok_def
  proof (intro conjI allI impI ballI)
    show "ba_active a' = (if ba_regions a' = [] then None else Some (length (ba_regions a') - 1))"
      using buddy_okD(7) [OF assms(1)] a'(1,2) by simp
    show "pool_range (ba_regions a' ! m) \<inter> pool_range (ba_regions a' ! j) = {}"
      if "m < length (ba_regions a')" "j < m" for m j
      using that len rng buddy_okD(11) [OF assms(1), of m j] by auto
  qed (use buddy_okD(1-4) [OF assms(1)] a'(3-8) km cov reg in auto)
qed

lemma new_block_notin:
  assumes "buddy_ok a L" "i < length (ba_regions a)" "same_pool (ba_regions a ! i) r'"
    "region_ok (ba_grow a) r' (insert (n, k) (live_at a L i))" "(n, k) \<notin> live_at a L i"
  shows "rg_pool r' + k * 2 ^ n \<notin> L"
proof
  assume "rg_pool r' + k * 2 ^ n \<in> L"
  then obtain j m l where j: "j < length (ba_regions a)" "(m, l) \<in> live_at a L j"
    "rg_pool r' + k * 2 ^ n = rg_pool (ba_regions a ! j) + l * 2 ^ m"
    by (metis live_blockE [OF assms(1)])
  have mem: "rg_pool r' + k * 2 ^ n \<in> pool_range (ba_regions a ! i)"
    using block_start_in_pool [OF assms(4), of n k] assms(3)
    by (simp add: pool_range_def same_pool_def)
  moreover have "rg_pool r' + k * 2 ^ n \<in> pool_range (ba_regions a ! j)"
    using block_start_in_pool [OF buddy_okD(8) [OF assms(1) j(1)], of m l] j(2) unfolding j(3) by simp
  ultimately have "j = i" using pools_apart [OF assms(1) assms(2) j(1)] by blast
  then have "k * 2 ^ n = l * 2 ^ m" using j(3) assms(3) by (simp add: same_pool_def)
  then have "(n, k) = (m, l)" using block_unique [OF assms(4)] j(2) \<open>j = i\<close> by blast
  then show False using assms(5) j(2) \<open>j = i\<close> by simp
qed

text \<open>The bytes of the block at \<open>x\<close>, by its header.\<close>

definition extent :: "buddy_allocator \<Rightarrow> nat \<Rightarrow> nat set" where
  "extent a x = (case ba_header a x of None \<Rightarrow> {} | Some (n, _) \<Rightarrow> {x ..< x + 2 ^ n})"

lemma blk_shift: "{p + k * 2 ^ n ..< p + k * 2 ^ n + 2 ^ n} = (+) p ` blk n k"
  unfolding blk_def by (simp add: algebra_simps)

lemma extents_disjoint:
  assumes "buddy_ok a L" "x \<in> L" "y \<in> L" "x \<noteq> y"
  shows "extent a x \<inter> extent a y = {}"
proof -
  obtain i n k where i: "i < length (ba_regions a)" "(n, k) \<in> live_at a L i"
    "x = rg_pool (ba_regions a ! i) + k * 2 ^ n" "ba_header a x = Some (n, i)"
    by (rule live_blockE [OF assms(1,2)])
  obtain j m l where j: "j < length (ba_regions a)" "(m, l) \<in> live_at a L j"
    "y = rg_pool (ba_regions a ! j) + l * 2 ^ m" "ba_header a y = Some (m, j)"
    by (rule live_blockE [OF assms(1,3)])
  have e: "extent a x = {x ..< x + 2 ^ n}" "extent a y = {y ..< y + 2 ^ m}"
    using i(4) j(4) by (simp_all add: extent_def)
  show ?thesis
  proof (cases "i = j")
    case True
    then have "(n, k) \<noteq> (m, l)" using i(3) j(3) assms(4) by auto
    then have "blk n k \<inter> blk m l = {}"
      using tilesD(3) [OF layoutD(2) [OF region_okD(7) [OF buddy_okD(8) [OF assms(1) i(1)]]]] i(2) j(2) True by blast
    moreover have "extent a x = (+) (rg_pool (ba_regions a ! j)) ` blk n k"
      "extent a y = (+) (rg_pool (ba_regions a ! j)) ` blk m l"
      using e blk_shift i(3) j(3) True by metis+
    ultimately show ?thesis by auto
  next
    case False
    have "extent a x \<subseteq> pool_range (ba_regions a ! i)" "extent a y \<subseteq> pool_range (ba_regions a ! j)"
      using e i j block_in_pool [OF buddy_okD(8) [OF assms(1) i(1)], of n k]
        block_in_pool [OF buddy_okD(8) [OF assms(1) j(1)], of m l] by simp_all
    then show ?thesis using pools_apart [OF assms(1) i(1) j(1) False] by blast
  qed
qed

lemma take_from_ok:
  assumes "buddy_ok a L" "i < length (ba_regions a)" "rg_free (ba_regions a ! i) m \<noteq> []"
    "ba_min a \<le> n" "n \<le> m"
  obtains x a' where "take_from a i m n = (x + sizeof_header, a')" "x \<notin> L" "0 < x"
    "buddy_ok a' (insert x L)" "ba_header a' = (ba_header a)(x \<mapsto> (n, i))"
    "ba_mem a' = ba_mem a" "ba_saved a' = ba_saved a" "ba_grow a' = ba_grow a" "ba_max a' = ba_max a"
    "x + 2 ^ n < W64"
proof -
  let ?r = "ba_regions a ! i"
  have ok: "region_ok (ba_grow a) ?r (live_at a L i)" by (rule buddy_okD(8) [OF assms(1,2)])
  obtain k r' where t: "take_block ?r m n = (rg_pool ?r + k * 2 ^ n, r')" "(n, k) \<notin> live_at a L i"
    "region_ok (ba_grow a) r' (insert (n, k) (live_at a L i))" "same_pool ?r r'"
    using take_block_ok [OF ok assms(3) _ assms(5)] buddy_okD(9) [OF assms(1,2)] assms(4) by metis
  define x where "x = rg_pool ?r + k * 2 ^ n"
  have pool: "rg_pool r' = rg_pool ?r" using t(4) by (simp add: same_pool_def)
  have new: "x \<notin> L" using new_block_notin [OF assms(1,2) t(4,3,2)] unfolding x_def pool .
  define a' where "a' = snd (take_from a i m n)"
  have a': "take_from a i m n = (x + sizeof_header, a')" "ba_regions a' = (ba_regions a)[i := r']"
    "ba_header a' = (ba_header a)(x \<mapsto> (n, i))" "ba_active a' = ba_active a" "ba_grow a' = ba_grow a"
    "ba_min a' = ba_min a" "ba_max a' = ba_max a" "ba_kmalloc a' = ba_kmalloc a"
    "ba_requests a' = ba_requests a" "ba_current a' \<le> ba_peak a'" "ba_mem a' = ba_mem a"
    "ba_saved a' = ba_saved a"
    unfolding a'_def x_def using t(1) by (simp_all add: take_from_def count_alloc_def Let_def)
  have nth: "rg_pool (ba_regions a' ! j) = rg_pool (ba_regions a ! j)" for j
    using assms(2) pool by (cases "j = i") (simp_all add: a')
  have live: "live_at a' (insert x L) i = insert (n, k) (live_at a L i)"
    using new unfolding live_at_def nth a'(3) by (auto simp: x_def)
  have "buddy_ok a' (insert x L)"
  proof (rule buddy_ok_replace [OF assms(1,2) t(4) a'(2,4-10)])
    show "region_ok (ba_grow a) r' (live_at a' (insert x L) i)" using t(3) live by simp
    show "live_at a' (insert x L) j = live_at a L j" if "j < length (ba_regions a)" "j \<noteq> i" for j
      using new that unfolding live_at_def nth a'(3) by auto
    show "y \<in> L \<and> ba_header a' y = ba_header a y \<or>
        (\<exists>n k. (n, k) \<in> live_at a' (insert x L) i \<and> y = rg_pool r' + k * 2 ^ n)"
      if "y \<in> insert x L" for y
      using that unfolding live by (cases "y = x") (auto simp: a'(3) x_def pool)
  qed
  moreover have "0 < x" using region_okD(3) [OF ok] by (simp add: x_def)
  moreover have "x + 2 ^ n < W64"
    using region_in_range(3) [OF t(3), of n k] region_okD(4) [OF ok] by (auto simp: x_def)
  ultimately show ?thesis using that a' new by blast
qed

section \<open>Growing\<close>

lemma live_at_append:
  "j < length (ba_regions a) \<Longrightarrow> ba_header a' = ba_header a \<Longrightarrow>
   ba_regions a' = ba_regions a @ rs \<Longrightarrow> live_at a' L j = live_at a L j"
  by (simp add: live_at_def nth_append)

lemma fresh_region_ok:
  assumes "ba_min a \<le> g" "g \<le> ba_max a" "0 < pool" "pool + 2 ^ g < W64"
  shows "region_ok g (fresh_region a pool g) {}"
proof -
  have "free_set (fresh_region a pool g) = {(g, 0)}"
    using assms(3) by (auto simp: free_set_def fresh_region_def split: if_splits)
  then show ?thesis
    unfolding region_ok_def using assms layout_whole [of "ba_min a" g]
    by (auto simp: fresh_region_def intro: exI [of _ 0])
qed

lemma buddy_ok_requests:
  assumes "buddy_ok a L"
  shows "buddy_ok (a\<lparr>ba_requests := ba_requests a + n\<rparr>) L"
proof -
  have "kmalloc_ok (a\<lparr>ba_requests := ba_requests a + n\<rparr>)"
    using buddy_okD(6) [OF assms] unfolding kmalloc_ok_def by simp
  moreover have "live_at (a\<lparr>ba_requests := ba_requests a + n\<rparr>) L = live_at a L"
    by (simp add: live_at_def fun_eq_iff)
  ultimately show ?thesis using assms unfolding buddy_ok_def by simp
qed

lemma buddy_ok_append:
  assumes ok: "buddy_ok a L" and p: "ba_kmalloc a (ba_requests a) (2 ^ ba_grow a) = p" "p \<noteq> 0"
    "ba_kmalloc a (Suc (ba_requests a)) sizeof_region \<noteq> 0"
    and a': "a' = a\<lparr>ba_requests := Suc (Suc (ba_requests a)),
      ba_regions := ba_regions a @ [fresh_region a p (ba_grow a)], ba_active := Some (length (ba_regions a))\<rparr>"
  shows "buddy_ok a' L"
proof -
  let ?g = "ba_grow a" and ?rs = "ba_regions a" and ?r = "fresh_region a p (ba_grow a)"
  note km = buddy_okD(6) [OF ok, unfolded kmalloc_ok_def]
  have pr: "p + 2 ^ ?g < W64" "\<And>r. r \<in> set ?rs \<Longrightarrow> pool_range r \<inter> {p ..< p + 2 ^ ?g} = {}"
    using km p by blast+
  have rng: "pool_range ?r = {p ..< p + 2 ^ ?g}" by (simp add: pool_range_def fresh_region_def)
  have rok: "region_ok ?g ?r {}" by (rule fresh_region_ok) (use buddy_okD [OF ok] p pr in auto)
  have regs: "ba_regions a' = ?rs @ [?r]" "ba_header a' = ba_header a" using a' by simp_all
  have noL: "live_at a' L (length ?rs) = {}"
  proof -
    have "ba_header a x \<noteq> Some (n, length ?rs)" if "x \<in> L" for x n
      by (rule live_blockE [OF ok that]) auto
    then show ?thesis unfolding live_at_def regs(2) by auto
  qed
  have km': "kmalloc_ok a'"
  proof -
    have "(\<forall>r \<in> set (?rs @ [?r]). pool_range r \<inter> {q ..< q + 2 ^ ?g} = {})"
      if "Suc (Suc (ba_requests a)) \<le> j" "ba_kmalloc a j (2 ^ ?g) = q" "q \<noteq> 0" for j q
    proof -
      have "ba_requests a \<le> j" "ba_requests a < j" using that(1) by simp_all
      then have "\<forall>r \<in> set ?rs. pool_range r \<inter> {q ..< q + 2 ^ ?g} = {}"
        "{p ..< p + 2 ^ ?g} \<inter> {q ..< q + 2 ^ ?g} = {}" using km that(2,3) p by blast+
      then show ?thesis using rng by simp
    qed
    then show ?thesis using km unfolding kmalloc_ok_def a' by simp
  qed
  have "region_ok ?g (ba_regions a' ! i) (live_at a' L i) \<and> rg_min (ba_regions a' ! i) = ba_min a \<and>
      rg_max (ba_regions a' ! i) = ba_max a" if "i < length (ba_regions a')" for i
    using that rok noL buddy_okD(8-10) [OF ok, of i] live_at_append [OF _ regs(2,1), of i]
    by (cases "i = length ?rs") (auto simp: regs nth_append fresh_region_def)
  moreover have "pool_range (ba_regions a' ! i) \<inter> pool_range (ba_regions a' ! j) = {}"
    if "i < length (ba_regions a')" "j < i" for i j
    using that pr(2) [of "?rs ! j"] buddy_okD(11) [OF ok, of i j] rng
    by (cases "i = length ?rs") (auto simp: regs nth_append)
  moreover have "\<exists>i < length (ba_regions a'). \<exists>n k. (n, k) \<in> live_at a' L i \<and>
      x = rg_pool (ba_regions a' ! i) + k * 2 ^ n" if x: "x \<in> L" for x
  proof -
    obtain i n k where "i < length ?rs" "(n, k) \<in> live_at a L i" "x = rg_pool (?rs ! i) + k * 2 ^ n"
      by (rule live_blockE [OF ok x])
    then show ?thesis using live_at_append [OF _ regs(2,1), of i]
      by (intro exI [of _ i]) (auto simp: regs nth_append)
  qed
  ultimately show ?thesis using km' buddy_okD(1-5) [OF ok] unfolding buddy_ok_def by (simp add: a')
qed

lemma buddy_ok_kfreed: "buddy_ok (a\<lparr>ba_kfreed := ps\<rparr>) L = buddy_ok a L"
  by (simp add: buddy_ok_def kmalloc_ok_def live_at_def)

lemma buddy_grow_ok:
  assumes "buddy_ok a L" "buddy_grow a = (res, a')"
  shows "buddy_ok a' L" "ba_header a' = ba_header a" "ba_mem a' = ba_mem a" "ba_saved a' = ba_saved a"
    "ba_grow a' = ba_grow a" "ba_max a' = ba_max a" "ba_min a' = ba_min a"
    and "res = Some i \<Longrightarrow> i < length (ba_regions a') \<and> rg_free (ba_regions a' ! i) (ba_grow a') \<noteq> []"
proof -
  have g: "(if ba_grow a > ba_max a then ba_max a else ba_grow a) = ba_grow a"
    using buddy_okD(3) [OF assms(1)] by simp
  note eq = assms(2) [unfolded buddy_grow_def g Let_def]
  show "buddy_ok a' L"
    using eq buddy_ok_append [OF assms(1) refl _ _ refl] buddy_ok_requests [OF assms(1), of 1]
      buddy_ok_requests [OF assms(1), of 2] buddy_ok_kfreed [of _ "a\<lparr>ba_requests := Suc (Suc (ba_requests a))\<rparr>" L]
    by (auto split: if_splits)
  show "ba_header a' = ba_header a" "ba_mem a' = ba_mem a" "ba_saved a' = ba_saved a"
    "ba_grow a' = ba_grow a" "ba_max a' = ba_max a" "ba_min a' = ba_min a"
    and "res = Some i \<Longrightarrow> i < length (ba_regions a') \<and> rg_free (ba_regions a' ! i) (ba_grow a') \<noteq> []"
    using eq by (auto simp: fresh_region_def split: if_splits)
qed

section \<open>Allocation\<close>

text \<open>What a call \<^verbatim>\<open>buddy_malloc(alloc, sz)\<close> promises about its result \<open>p\<close> and the new state \<open>a'\<close>.\<close>

definition malloc_post :: "buddy_allocator \<Rightarrow> nat set \<Rightarrow> nat \<Rightarrow> nat \<Rightarrow> buddy_allocator \<Rightarrow> bool" where
  "malloc_post a L sz p a' \<longleftrightarrow>
     ba_mem a' = ba_mem a \<and> ba_saved a' = ba_saved a \<and> ba_grow a' = ba_grow a \<and> ba_max a' = ba_max a \<and>
     (if p = 0 then buddy_ok a' L \<and> ba_header a' = ba_header a
      else sizeof_header < p \<and> p - sizeof_header \<notin> L \<and> buddy_ok a' (insert (p - sizeof_header) L) \<and>
        (\<exists>n i. ba_header a' = (ba_header a)(p - sizeof_header \<mapsto> (n, i)) \<and>
           sz + sizeof_header \<le> 2 ^ n \<and> p - sizeof_header + 2 ^ n < W64))"

lemma malloc_post_grow:
  assumes "buddy_ok a L" "buddy_grow a = (res, a1)" "malloc_post a1 L sz p a'"
  shows "malloc_post a L sz p a'"
  using assms(3) unfolding malloc_post_def buddy_grow_ok(2-6) [OF assms(1,2)] .

lemma order_ok:
  assumes "buddy_ok a L" "i < length (ba_regions a)" "sz + sizeof_header \<le> 2 ^ ba_grow a"
  defines "n \<equiv> size_to_order (ba_regions a ! i) (sz + sizeof_header)"
  shows "sz + sizeof_header \<le> 2 ^ n" "ba_min a \<le> n" "n \<le> ba_grow a" "n \<le> ba_max a"
proof -
  let ?r = "ba_regions a ! i"
  have mn: "rg_min ?r = ba_min a" "ba_min a \<le> ba_grow a" "ba_grow a \<le> ba_max a"
    using buddy_okD(2,3,9) [OF assms(1)] assms(2) by auto
  have "(2::nat) ^ ba_min a \<le> 2 ^ 29" "(2::nat) ^ ba_grow a \<le> 2 ^ 29"
    using buddy_ok_small [OF assms(1)] mn by auto
  then have lt: "sz + sizeof_header + 2 ^ rg_min ?r < W64" using assms(3) mn by (simp add: W64_def)
  note b = size_to_order_bounds [OF lt, folded n_def]
  show "sz + sizeof_header \<le> 2 ^ n" "ba_min a \<le> n" "n \<le> ba_grow a"
    using b mn assms(3) by auto
  then show "n \<le> ba_max a" using mn by simp
qed

text \<open>A walk that meets a block big enough takes it.\<close>

lemma walk_found:
  assumes "buddy_ok a L" "i < length (ba_regions a)" "sz + sizeof_header \<le> 2 ^ ba_grow a"
    and "find_cur (ba_regions a ! i) (size_to_order (ba_regions a ! i) (sz + sizeof_header)) \<le> ba_max a"
  obtains p a' where "malloc_walk a sz (Some i) = Some (p, a')" "p \<noteq> 0" "malloc_post a L sz p a'"
proof -
  let ?r = "ba_regions a ! i"
  let ?n = "size_to_order ?r (sz + sizeof_header)"
  let ?m = "find_cur ?r ?n"
  note ord = order_ok [OF assms(1-3)]
  have mx: "rg_max ?r = ba_max a" using buddy_okD(10) [OF assms(1,2)] .
  have "rg_free ?r ?m \<noteq> []" "?n \<le> ?m" using find_cur_props(1,2) assms(4) mx by auto
  then obtain x a' where t: "take_from a i ?m ?n = (x + sizeof_header, a')" "x \<notin> L" "0 < x"
    "buddy_ok a' (insert x L)" "ba_header a' = (ba_header a)(x \<mapsto> (?n, i))"
    "ba_mem a' = ba_mem a" "ba_saved a' = ba_saved a" "ba_grow a' = ba_grow a" "ba_max a' = ba_max a"
    "x + 2 ^ ?n < W64"
    using take_from_ok [OF assms(1,2) _ ord(2), of ?m] by metis
  have "malloc_walk a sz (Some i) = Some (x + sizeof_header, a')"
    using assms(4) mx ord(4) t(1) by (subst malloc_walk.simps) (simp add: Let_def)
  then show ?thesis using that t ord(1) unfolding malloc_post_def by auto
qed

lemma walk_ok:
  assumes "buddy_ok a L" "i < length (ba_regions a)" "sz + sizeof_header \<le> 2 ^ ba_grow a"
  shows "\<exists>p a'. malloc_walk a sz (Some i) = Some (p, a') \<and> malloc_post a L sz p a'"
  using assms
proof (induction "length (ba_regions a) - i" arbitrary: i rule: less_induct)
  case less
  let ?r = "ba_regions a ! i"
  let ?m = "find_cur ?r (size_to_order ?r (sz + sizeof_header))"
  have mx: "rg_max ?r = ba_max a" using buddy_okD(10) [OF less.prems(1,2)] .
  note ord = order_ok [OF less.prems]
  consider "?m \<le> ba_max a" | "\<not> ?m \<le> ba_max a" "Suc i < length (ba_regions a)"
    | "\<not> ?m \<le> ba_max a" "\<not> Suc i < length (ba_regions a)" by blast
  then show ?case
  proof cases
    case 1
    then show ?thesis using walk_found [OF less.prems] by blast
  next
    case 2
    then have "malloc_walk a sz (Some i) = malloc_walk a sz (Some (Suc i))"
      using mx ord(4) by (subst malloc_walk.simps) (simp add: Let_def next_region_def)
    then show ?thesis using less.hyps [of "Suc i"] 2 less.prems by simp
  next
    case 3
    obtain res a1 where g: "buddy_grow a = (res, a1)" by fastforce
    note gok = buddy_grow_ok [OF less.prems(1) g]
    have step: "malloc_walk a sz (Some i) = malloc_walk a1 sz res"
      using 3 mx ord(4) g by (subst malloc_walk.simps) (simp add: Let_def next_region_def)
    show ?thesis
    proof (cases res)
      case None
      then have "malloc_walk a sz (Some i) = Some (0, a1)" using step by (simp add: malloc_walk.simps)
      then show ?thesis using gok(1-6) unfolding malloc_post_def by simp
    next
      case (Some j)
      have j: "j < length (ba_regions a1)" "rg_free (ba_regions a1 ! j) (ba_grow a1) \<noteq> []"
        using gok(8) [OF Some] by auto
      have sz: "sz + sizeof_header \<le> 2 ^ ba_grow a1" using less.prems(3) gok(5) by simp
      have "find_cur (ba_regions a1 ! j) (size_to_order (ba_regions a1 ! j) (sz + sizeof_header)) \<le> ba_grow a1"
        using find_cur_props(3) [OF order_ok(3) [OF gok(1) j(1) sz]] j(2) buddy_okD(3,10) [OF gok(1)] j(1)
        by metis
      also have "\<dots> \<le> ba_max a1" by (rule buddy_okD(3) [OF gok(1)])
      finally show ?thesis
        using walk_found [OF gok(1) j(1) sz] malloc_post_grow [OF less.prems(1) g] step Some by metis
    qed
  qed
qed

text \<open>Every request that fits in a region returns, with a fresh block or with \<^verbatim>\<open>NULL\<close>.\<close>

lemma buddy_malloc_ok:
  assumes "buddy_ok a L" "sz + sizeof_header \<le> 2 ^ ba_grow a \<or> ba_grow a = ba_max a"
  shows "\<exists>p a'. buddy_malloc a sz = Some (p, a') \<and> malloc_post a L sz p a'"
proof -
  have null: "malloc_post a L sz 0 a" using assms(1) by (simp add: malloc_post_def)
  have "(2::nat) ^ 5 \<le> 2 ^ ba_max a"
    using buddy_okD(1-3) [OF assms(1)] by (intro power_increasing) (auto simp: BUDDY_MIN_ORDER_def)
  moreover have "(2::nat) ^ ba_max a \<le> 2 ^ 29" by (rule buddy_ok_small [OF assms(1)]) simp
  ultimately have cut: "sub64 (2 ^ ba_max a) sizeof_header = 2 ^ ba_max a - sizeof_header"
    "sizeof_header \<le> 2 ^ ba_max a"
    by (auto simp: sizeof_header_def W64_def intro: sub64_nowrap)
  consider "sz = 0 \<or> sz > 2 ^ ba_max a - sizeof_header" | "sz \<noteq> 0" "sz \<le> 2 ^ ba_max a - sizeof_header"
    by fastforce
  then show ?thesis
  proof cases
    case 1
    then show ?thesis using null by (auto simp: buddy_malloc_def cut)
  next
    case 2
    then have sz: "sz + sizeof_header \<le> 2 ^ ba_grow a" using assms(2) cut(2) by auto
    show ?thesis
    proof (cases "ba_active a")
      case (Some i)
      then have "i < length (ba_regions a)"
        using buddy_okD(7) [OF assms(1)] by (auto split: if_splits)
      then show ?thesis using walk_ok [OF assms(1) _ sz] 2 Some by (simp add: buddy_malloc_def cut)
    next
      case None
      obtain res a1 where g: "buddy_grow a = (res, a1)" by fastforce
      note gok = buddy_grow_ok [OF assms(1) g]
      show ?thesis
      proof (cases res)
        case None
        then show ?thesis using \<open>ba_active a = None\<close> g 2 gok(1-6) unfolding malloc_post_def by (simp add: buddy_malloc_def cut)
      next
        case (Some j)
        then show ?thesis
          using \<open>ba_active a = None\<close> g 2 walk_ok [OF gok(1), of j sz] gok(8) [OF Some] sz gok(5)
            malloc_post_grow [OF assms(1) g] by (auto simp: buddy_malloc_def cut)
      qed
    qed
  qed
qed

section \<open>Release\<close>

lemma buddy_free_ok:
  assumes "buddy_ok a L" "x \<in> L"
  obtains a' where "buddy_free a (x + sizeof_header) = Some a'" "buddy_ok a' (L - {x})"
    "ba_header a' = ba_header a" "ba_mem a' = ba_mem a" "ba_saved a' = ba_saved a"
    "ba_grow a' = ba_grow a" "ba_max a' = ba_max a"
proof -
  obtain i n k where i: "i < length (ba_regions a)" "(n, k) \<in> live_at a L i"
    "x = rg_pool (ba_regions a ! i) + k * 2 ^ n" "ba_header a x = Some (n, i)"
    by (rule live_blockE [OF assms])
  let ?r = "ba_regions a ! i"
  let ?r' = "insert_free (merge_loop ?r x n)"
  let ?A = "live_at a L i - {(n, k)}"
  have "insert (n, k) ?A = live_at a L i" using i(2) by blast
  then have rok: "region_ok (ba_grow a) ?r (insert (n, k) ?A)" using buddy_okD(8) [OF assms(1) i(1)] by simp
  have r': "region_ok (ba_grow a) ?r' ?A" "same_pool ?r ?r'"
    unfolding i(3) using merge_loop_ok [OF rok] by simp_all
  define a' where "a' = a\<lparr>ba_current := (if ba_current a \<ge> order_size n then ba_current a - order_size n else 0),
    ba_regions := (ba_regions a)[i := ?r']\<rparr>"
  have f: "buddy_free a (x + sizeof_header) = Some a'"
    unfolding buddy_free_def a'_def using i(4) by (simp add: sizeof_header_def)
  have a': "ba_header a' = ba_header a" "ba_mem a' = ba_mem a" "ba_saved a' = ba_saved a"
    "ba_grow a' = ba_grow a" "ba_max a' = ba_max a" by (simp_all add: a'_def)
  have nth: "rg_pool (ba_regions a' ! j) = rg_pool (ba_regions a ! j)" for j
    using i(1) r'(2) by (cases "j = i") (simp_all add: a'_def same_pool_def)
  have live: "live_at a' (L - {x}) i = ?A"
    using i(3,4) unfolding live_at_def nth a'(1) by auto
  have "buddy_ok a' (L - {x})"
  proof (rule buddy_ok_replace [OF assms(1) i(1) r'(2)])
    show "ba_regions a' = (ba_regions a)[i := ?r']" by (simp add: a'_def)
    show "region_ok (ba_grow a) ?r' (live_at a' (L - {x}) i)" using r'(1) live by simp
    show "live_at a' (L - {x}) j = live_at a L j" if "j < length (ba_regions a)" "j \<noteq> i" for j
      using that i(4) unfolding live_at_def nth a'(1) by auto
    show "ba_current a' \<le> ba_peak a'"
      using buddy_okD(5) [OF assms(1)] by (simp add: a'_def le_diff_conv trans_le_add1)
  qed (auto simp: a'_def)
  then show ?thesis using that f a' by blast
qed

text \<open>With no block in use every region is one free block of the full size again.\<close>

lemma all_free_coalesced:
  assumes "buddy_ok a {}" "i < length (ba_regions a)"
  shows "free_set (ba_regions a ! i) = {(ba_grow a, 0)}"
proof -
  have "live_at a {} i = {}" by (simp add: live_at_def)
  then show ?thesis using layout_empty region_okD(7) [OF buddy_okD(8) [OF assms]] by metis
qed

section \<open>Reallocation\<close>

text \<open>Shrinking in place.\<close>

lemma shrink_ok:
  assumes "buddy_ok a L" "x \<in> L" "ba_header a x = Some (m, i)" "ba_min a \<le> n" "n < m"
  defines "r \<equiv> ba_regions a ! i"
  defines "a' \<equiv> a\<lparr>ba_header := (ba_header a)(x \<mapsto> (n, i)),
    ba_regions := (ba_regions a)[i := r\<lparr>rg_free := split_down (rg_free r) x m n\<rparr>]\<rparr>"
  shows "buddy_ok a' L"
proof -
  obtain k where i: "i < length (ba_regions a)" "(m, k) \<in> live_at a L i" "x = rg_pool r + k * 2 ^ m"
    using live_blockE [OF assms(1,2)] assms(3) unfolding r_def by (metis option.inject prod.inject)
  let ?A = "live_at a L i - {(m, k)}"
  let ?r' = "r\<lparr>rg_free := split_down (rg_free r) x m n\<rparr>"
  have "insert (m, k) ?A = live_at a L i" using i(2) by blast
  then have rok: "region_ok (ba_grow a) r (insert (m, k) ?A)"
    using buddy_okD(8) [OF assms(1) i(1)] unfolding r_def by simp
  have "rg_min r \<le> n" using buddy_okD(9) [OF assms(1) i(1)] assms(4) by (simp add: r_def)
  then have r': "region_ok (ba_grow a) ?r' (insert (n, k * 2 ^ (m - n)) ?A)" "(n, k * 2 ^ (m - n)) \<notin> ?A"
    using split_down_ok [OF rok _ _ less_imp_le [OF assms(5)]] i(3) by (simp_all add: Let_def)
  have x: "x = rg_pool r + k * 2 ^ (m - n) * 2 ^ n"
    using i(3) assms(5) by (simp add: mult.assoc flip: power_add)
  have nth: "rg_pool (ba_regions a' ! j) = rg_pool (ba_regions a ! j)" for j
    using i(1) by (cases "j = i") (simp_all add: a'_def r_def)
  have hdr: "ba_header a' = (ba_header a)(x \<mapsto> (n, i))" by (simp add: a'_def)
  have live: "live_at a' L i = insert (n, k * 2 ^ (m - n)) ?A"
  proof (rule set_eqI)
    fix b :: "nat \<times> nat"
    obtain q j where b: "b = (q, j)" by fastforce
    show "b \<in> live_at a' L i \<longleftrightarrow> b \<in> insert (n, k * 2 ^ (m - n)) ?A"
    proof (cases "rg_pool r + j * 2 ^ q = x")
      case True
      then have "b \<in> ?A \<longleftrightarrow> False" using assms(3) i(3) unfolding b live_at_def r_def by auto
      moreover have "b \<in> live_at a' L i \<longleftrightarrow> q = n"
        using True assms(2) unfolding b live_at_def nth hdr r_def by auto
      moreover have "q = n \<longleftrightarrow> b = (n, k * 2 ^ (m - n))" using True x b by auto
      ultimately show ?thesis by blast
    next
      case False
      then show ?thesis using i(3) x unfolding b live_at_def nth hdr r_def by auto
    qed
  qed
  show ?thesis
  proof (rule buddy_ok_replace [OF assms(1) i(1), of ?r'])
    show "same_pool (ba_regions a ! i) ?r'" by (simp add: r_def)
    show "region_ok (ba_grow a) ?r' (live_at a' L i)" using r'(1) live by simp
    show "live_at a' L j = live_at a L j" if "j < length (ba_regions a)" "j \<noteq> i" for j
      using that assms(3) unfolding live_at_def nth hdr by auto
    show "ba_current a' \<le> ba_peak a'" using buddy_okD(5) [OF assms(1)] by (simp add: a'_def)
    show "y \<in> L \<and> ba_header a' y = ba_header a y \<or>
        (\<exists>n k. (n, k) \<in> live_at a' L i \<and> y = rg_pool ?r' + k * 2 ^ n)" if "y \<in> L" for y
      using that x unfolding live by (cases "y = x") (auto simp: hdr)
  qed (simp_all add: a'_def)
qed

text \<open>The payload bytes of other blocks are left alone, those of the block itself are kept.\<close>

definition realloc_post ::
    "buddy_allocator \<Rightarrow> nat set \<Rightarrow> nat \<Rightarrow> nat \<Rightarrow> nat \<Rightarrow> buddy_allocator \<Rightarrow> bool" where
  "realloc_post a L x sz p a' \<longleftrightarrow> ba_grow a' = ba_grow a \<and> ba_max a' = ba_max a \<and>
     (if p = 0 then buddy_ok a' L \<and> ba_header a' = ba_header a \<and> ba_mem a' = ba_mem a
      else sizeof_header < p \<and> buddy_ok a' (insert (p - sizeof_header) (L - {x})) \<and>
        {p ..< p + sz} \<subseteq> extent a' (p - sizeof_header) \<and>
        (\<forall>y \<in> L - {x}. extent a' y = extent a y \<and> (\<forall>b \<in> extent a y. ba_mem a' b = ba_mem a b)) \<and>
        (\<forall>j. x + sizeof_header + j \<in> extent a x \<longrightarrow> j < sz \<longrightarrow>
           ba_mem a' (p + j) = ba_mem a (x + sizeof_header + j)))"

lemma header_order:
  assumes "buddy_ok a L" "x \<in> L" "ba_header a x = Some (m, i)"
  shows "i < length (ba_regions a)" "ba_min a \<le> m" "m \<le> ba_grow a"
proof -
  obtain k where i: "i < length (ba_regions a)" "(m, k) \<in> live_at a L i"
    using live_blockE [OF assms(1,2)] assms(3) by (metis option.inject prod.inject)
  show "i < length (ba_regions a)" by (rule i(1))
  show "ba_min a \<le> m" "m \<le> ba_grow a"
    using region_in_range [OF buddy_okD(8) [OF assms(1) i(1)], of m k] i(2) buddy_okD(9) [OF assms(1) i(1)]
    by auto
qed

lemma realloc_grow:
  assumes "buddy_ok a L" "x \<in> L" "ba_header a x = Some (m, i)" "ba_grow a = ba_max a"
    and n: "size_to_order (ba_regions a ! i) (sz + sizeof_header) > m"
      "sz + sizeof_header + 2 ^ ba_min a < W64"
    and p: "buddy_malloc a sz = Some (p, a1)" "p \<noteq> 0"
  defines "a2 \<equiv> a1\<lparr>ba_mem := mem_copy (ba_mem a1) p (x + sizeof_header) (2 ^ m - sizeof_header)\<rparr>"
  obtains a' where "buddy_free a2 (x + sizeof_header) = Some a'" "realloc_post a L x sz p a'"
proof -
  let ?y = "p - sizeof_header"
  have "malloc_post a L sz p a1" using buddy_malloc_ok [OF assms(1), of sz] assms(4) p(1) by auto
  then obtain q j where m1: "ba_mem a1 = ba_mem a" "sizeof_header < p" "?y \<notin> L" "buddy_ok a1 (insert ?y L)"
    "ba_header a1 = (ba_header a)(?y \<mapsto> (q, j))" "sz + sizeof_header \<le> 2 ^ q" "ba_grow a1 = ba_grow a" "ba_max a1 = ba_max a"
    using p(2) unfolding malloc_post_def by auto
  have q: "ba_min a1 \<le> q" using header_order(2) [OF m1(4), of ?y q j] m1(5) by simp
  have ok2: "buddy_ok a2 (insert ?y L)"
    using m1(4) unfolding buddy_ok_def kmalloc_ok_def live_at_def a2_def by simp
  obtain a' where a': "buddy_free a2 (x + sizeof_header) = Some a'" "buddy_ok a' (insert ?y L - {x})"
    "ba_header a' = ba_header a2" "ba_mem a' = ba_mem a2" "ba_grow a' = ba_grow a2" "ba_max a' = ba_max a2"
    using buddy_free_ok [OF ok2, of x] assms(2) by (metis insertI2)
  have xy: "x \<noteq> ?y" using assms(2) m1(3) by blast
  have set: "insert ?y L - {x} = insert ?y (L - {x})" using xy by blast
  have hd: "ba_header a' = (ba_header a)(?y \<mapsto> (q, j))" using a'(3) m1(5) by (simp add: a2_def)
  have ext: "extent a' z = extent a z" if "z \<in> L" for z
    using that m1(3) by (auto simp: extent_def hd)
  have extp: "extent a' ?y = {?y ..< ?y + 2 ^ q}" by (simp add: extent_def hd)
  have extx: "extent a x = {x ..< x + 2 ^ m}" by (simp add: extent_def assms(3))
  have "m < q"
  proof -
    have "rg_min (ba_regions a ! i) = ba_min a"
      using buddy_okD(9) [OF assms(1) header_order(1) [OF assms(1-3)]] .
    then have "size_to_order (ba_regions a ! i) (sz + sizeof_header) \<le> max q (ba_min a)"
      using size_to_order_bounds(3) [of "sz + sizeof_header" "ba_regions a ! i" "max q (ba_min a)"] n(2)
        order_trans [OF m1(6), of "2 ^ max q (ba_min a)"] by simp
    then show ?thesis using n(1) header_order(2) [OF assms(1-3)] by linarith
  qed
  then have "(2::nat) ^ m \<le> 2 ^ q" by simp
  then have "p + (2 ^ m - sizeof_header) \<le> ?y + 2 ^ q" using m1(2,6) by linarith
  then have cp: "{p ..< p + (2 ^ m - sizeof_header)} \<subseteq> extent a' ?y" unfolding extp by auto
  have mem: "ba_mem a' = mem_copy (ba_mem a) p (x + sizeof_header) (2 ^ m - sizeof_header)"
    using a'(4) m1(1) by (simp add: a2_def)
  have other: "ba_mem a' b = ba_mem a b" if "z \<in> L - {x}" "b \<in> extent a z" for z b
  proof -
    have "z \<in> L" "z \<noteq> ?y" using that(1) m1(3) by auto
    have "extent a1 z = extent a z" "extent a1 ?y = extent a' ?y"
      using \<open>z \<noteq> ?y\<close> by (simp_all add: extent_def hd m1(5))
    then have "b \<notin> extent a' ?y"
      using extents_disjoint [OF m1(4), of z ?y] \<open>z \<in> L\<close> \<open>z \<noteq> ?y\<close> that(2) by auto
    then have "\<not> (p \<le> b \<and> b < p + (2 ^ m - sizeof_header))" using cp atLeastLessThan_iff by blast
    then show ?thesis unfolding mem mem_copy_def by auto
  qed
  have "realloc_post a L x sz p a'"
    unfolding realloc_post_def using p(2) a'(2,5,6) set ext other m1(2,6,7,8)
    by (auto simp: extp extx mem mem_copy_def a2_def)
  then show ?thesis using that a'(1) by blast
qed

lemma buddy_realloc_ok:
  assumes "buddy_ok a L" "x \<in> L" "0 < sz" "ba_grow a = ba_max a" "sz + sizeof_header + 2 ^ ba_min a < W64"
  shows "\<exists>p a'. buddy_realloc a (x + sizeof_header) sz = Some (p, a') \<and> realloc_post a L x sz p a'"
proof -
  obtain m i where h: "ba_header a x = Some (m, i)" by (rule live_blockE [OF assms(1,2)]) blast
  note ho = header_order [OF assms(1,2) h]
  obtain i' n' k' where "i' < length (ba_regions a)" "x = rg_pool (ba_regions a ! i') + k' * 2 ^ n'"
    by (rule live_blockE [OF assms(1,2)])
  then have x0: "0 < x" using region_okD(3) [OF buddy_okD(8) [OF assms(1)]] by simp
  let ?n = "size_to_order (ba_regions a ! i) (sz + sizeof_header)"
  have mn: "rg_min (ba_regions a ! i) = ba_min a" by (rule buddy_okD(9) [OF assms(1) ho(1)])
  then have nb: "sz + sizeof_header \<le> 2 ^ ?n" "ba_min a \<le> ?n"
    using size_to_order_bounds(1,2) [of "sz + sizeof_header" "ba_regions a ! i"] assms(5) by simp_all
  have ad: "add64 sz sizeof_header = sz + sizeof_header" using assms(5) by (simp add: add64_nowrap)
  have L: "insert x (L - {x}) = L" using assms(2) by blast
  have re: "buddy_realloc a (x + sizeof_header) sz =
    (if ?n = m then Some (x + sizeof_header, a)
     else if ?n < m then
       Some (x + sizeof_header, a\<lparr>ba_header := (ba_header a)(x \<mapsto> (?n, i)),
         ba_regions := (ba_regions a)[i := (ba_regions a ! i)\<lparr>rg_free :=
           split_down (rg_free (ba_regions a ! i)) x m ?n\<rparr>]\<rparr>)
     else case buddy_malloc a sz of None \<Rightarrow> None
          | Some (q, a1) \<Rightarrow> if q = 0 then Some (0, a1)
              else map_option (Pair q) (buddy_free (a1\<lparr>ba_mem :=
                mem_copy (ba_mem a1) q (x + sizeof_header) (2 ^ m - sizeof_header)\<rparr>) (x + sizeof_header)))"
  proof -
    have "sizeof_header \<noteq> 0" by (simp add: sizeof_header_def)
    then show ?thesis
      unfolding buddy_realloc_def using h assms(3) ad by (simp add: Let_def order_size_def)
  qed
  consider "?n = m" | "?n < m" | "?n > m" by linarith
  then show ?thesis
  proof cases
    case 1
    then have "buddy_realloc a (x + sizeof_header) sz = Some (x + sizeof_header, a)" using re by simp
    moreover have "realloc_post a L x sz (x + sizeof_header) a"
      unfolding realloc_post_def using assms(1) L nb(1) 1 x0 by (auto simp: extent_def h sizeof_header_def)
    ultimately show ?thesis by blast
  next
    case 2
    have "buddy_ok (snd (the (buddy_realloc a (x + sizeof_header) sz))) L"
      using shrink_ok [OF assms(1,2) h nb(2) 2] re 2 by simp
    then show ?thesis
      unfolding realloc_post_def using re 2 L nb(1) x0
      by (auto simp: extent_def sizeof_header_def)
  next
    case 3
    obtain q a1 where m: "buddy_malloc a sz = Some (q, a1)" "malloc_post a L sz q a1"
      using buddy_malloc_ok [OF assms(1), of sz] assms(4) by blast
    show ?thesis
    proof (cases "q = 0")
      case True
      then show ?thesis using re 3 m unfolding malloc_post_def realloc_post_def by simp
    next
      case False
      then show ?thesis using realloc_grow [OF assms(1,2) h assms(4) 3 assms(5) m(1) False] re 3 m(1) by auto
    qed
  qed
qed

section \<open>Aligned blocks, zeroed blocks and strings\<close>

lemma round_down_bounds:
  assumes "0 < d"
  shows "round_down y d \<le> y" "y < round_down y d + d" "d dvd round_down y d"
  using div_times_less_eq_dividend [of y d] dividend_less_div_times [OF assms, of y]
  by (simp_all add: round_down_def add.commute)

text \<open>The aligned address lies inside the block, with the saved pointer just below it.\<close>

lemma buddy_malloc_aligned_ok:
  assumes "buddy_ok a L" "ba_grow a = ba_max a" "0 < sz" "8 < align" "\<not> not_pow2 align"
    "sz + align + 7 < W64"
  shows "\<exists>p a'. buddy_malloc_aligned a sz align = Some (p, a') \<and>
    (if p = 0 then buddy_ok a' L
     else \<exists>x. x \<notin> L \<and> buddy_ok a' (insert x L) \<and> align dvd p \<and> ba_saved a' (p - 8) = Some (x + sizeof_header) \<and>
       {p - 8 ..< p + sz} \<subseteq> extent a' x - {x ..< x + sizeof_header})"
proof -
  let ?t = "sz + align - 1 + 8"
  have t: "add64 (sub64 (add64 sz align) 1) 8 = ?t" using assms(3,6) by (simp add: u64_simps)
  obtain raw a1 where m: "buddy_malloc a ?t = Some (raw, a1)" "malloc_post a L ?t raw a1"
    using buddy_malloc_ok [OF assms(1), of ?t] assms(2) by blast
  show ?thesis
  proof (cases "raw = 0")
    case True
    then show ?thesis using m assms(3-5) unfolding buddy_malloc_aligned_def t malloc_post_def by simp
  next
    case False
    let ?x = "raw - sizeof_header"
    obtain n i where p: "sizeof_header < raw" "?x \<notin> L" "buddy_ok a1 (insert ?x L)"
      "ba_header a1 = (ba_header a)(?x \<mapsto> (n, i))" "?t + sizeof_header \<le> 2 ^ n" "?x + 2 ^ n < W64"
      using m(2) False unfolding malloc_post_def by auto
    have top: "raw + ?t < W64" using p(1,5,6) by linarith
    have wr: "add64 (add64 raw 8) (align - 1) = raw + 8 + (align - 1)"
      using top assms(3,4) by (simp add: u64_simps)
    define q where "q = round_down (raw + 8 + (align - 1)) align"
    define a' where "a' = a1\<lparr>ba_saved := (ba_saved a1)(q - 8 \<mapsto> raw)\<rparr>"
    have q: "q \<le> raw + 8 + (align - 1)" "raw + 8 \<le> q" "align dvd q"
      using round_down_bounds [of align "raw + 8 + (align - 1)"] assms(4) unfolding q_def by auto
    have "buddy_malloc_aligned a sz align = Some (q, a')"
      using False assms(3-5) m(1) unfolding buddy_malloc_aligned_def t q_def a'_def Let_def
      by (simp add: wr [unfolded One_nat_def])
    moreover have "buddy_ok a' (insert ?x L)"
      using p(3) unfolding buddy_ok_def kmalloc_ok_def live_at_def a'_def by simp
    moreover have "ba_saved a' (q - 8) = Some (?x + sizeof_header)" using p(1) by (simp add: a'_def)
    moreover have "{q - 8 ..< q + sz} \<subseteq> extent a' ?x - {?x ..< ?x + sizeof_header}"
      using q p(1,4,5) assms(3,4) by (auto simp: extent_def a'_def)
    ultimately show ?thesis using q(2,3) p(2) by auto
  qed
qed

lemma buddy_free_aligned_ok:
  assumes "buddy_ok a L" "x \<in> L" "ba_saved a (p - 8) = Some (x + sizeof_header)" "p \<noteq> 0"
    "8 < align" "\<not> not_pow2 align"
  shows "\<exists>a'. buddy_free_aligned a p align = Some a' \<and> buddy_ok a' (L - {x})"
proof -
  have "buddy_free_aligned a p align = buddy_free a (x + sizeof_header)"
    unfolding buddy_free_aligned_def using assms(3-6) by (simp add: sizeof_header_def)
  then show ?thesis using buddy_free_ok [OF assms(1,2)] by metis
qed

lemma buddy_ok_mem: "buddy_ok (a\<lparr>ba_mem := f\<rparr>) L = buddy_ok a L"
  unfolding buddy_ok_def kmalloc_ok_def live_at_def by simp

lemma extent_mem: "extent (a\<lparr>ba_mem := f\<rparr>) x = extent a x"
  by (simp add: extent_def)

text \<open>A block filled by its caller: \<^verbatim>\<open>buddy_strdup\<close> and \<^verbatim>\<open>buddy_calloc\<close>.\<close>

lemma fill_ok:
  assumes "malloc_post a L (length bs) p a1" "p \<noteq> 0"
  defines "a' \<equiv> a1\<lparr>ba_mem := mem_write (ba_mem a1) p bs\<rparr>"
  shows "p - sizeof_header \<notin> L" "buddy_ok a' (insert (p - sizeof_header) L)"
    "{p ..< p + length bs} \<subseteq> extent a' (p - sizeof_header)"
    "j < length bs \<Longrightarrow> ba_mem a' (p + j) = bs ! j"
    "y \<in> L \<Longrightarrow> b \<in> extent a y \<Longrightarrow> ba_mem a' b = ba_mem a b"
proof -
  let ?x = "p - sizeof_header"
  obtain n i where m: "ba_mem a1 = ba_mem a" "sizeof_header < p" "?x \<notin> L" "buddy_ok a1 (insert ?x L)"
    "ba_header a1 = (ba_header a)(?x \<mapsto> (n, i))" "length bs + sizeof_header \<le> 2 ^ n"
    using assms(1,2) unfolding malloc_post_def by auto
  show "?x \<notin> L" "buddy_ok a' (insert ?x L)" using m by (simp_all add: a'_def buddy_ok_mem)
  show sub: "{p ..< p + length bs} \<subseteq> extent a' ?x"
    using m(2,5,6) by (auto simp: a'_def extent_def)
  show "j < length bs \<Longrightarrow> ba_mem a' (p + j) = bs ! j" by (simp add: a'_def mem_write_def)
  assume y: "y \<in> L" "b \<in> extent a y"
  have "y \<noteq> ?x" using y(1) m(3) by blast
  then have "extent a1 y = extent a y" by (simp add: extent_def m(5))
  then have "b \<notin> extent a1 ?x" using extents_disjoint [OF m(4), of y ?x] y \<open>y \<noteq> ?x\<close> by auto
  then have "\<not> (p \<le> b \<and> b < p + length bs)" using sub by (auto simp: a'_def extent_mem)
  then show "ba_mem a' b = ba_mem a b" unfolding a'_def mem_write_def using m(1) by auto
qed

section \<open>The contract of an allocator\<close>

text \<open>
  What the clients of \<^verbatim>\<open>malloc\<close> and \<^verbatim>\<open>free\<close> rely on.  \<open>ok s P\<close>: the heap \<open>s\<close> is consistent and \<open>P\<close> are
  the pointers handed out; \<open>bytes s p\<close> are the bytes the caller of \<open>p\<close> may use.
\<close>

datatype heap_request = Malloc nat | Release nat

locale heap_allocator =
  fixes ok :: "'s \<Rightarrow> nat set \<Rightarrow> bool" and bytes :: "'s \<Rightarrow> nat \<Rightarrow> nat set"
    and alloc :: "'s \<Rightarrow> nat \<Rightarrow> (nat \<times> 's) option" and release :: "'s \<Rightarrow> nat \<Rightarrow> 's option"
  assumes apart: "ok s P \<Longrightarrow> p \<in> P \<Longrightarrow> q \<in> P \<Longrightarrow> p \<noteq> q \<Longrightarrow> bytes s p \<inter> bytes s q = {}"
    and alloc: "ok s P \<Longrightarrow> \<exists>p s'. alloc s n = Some (p, s') \<and>
      (if p = 0 then ok s' P \<and> (\<forall>q \<in> P. bytes s' q = bytes s q)
       else p \<notin> P \<and> ok s' (insert p P) \<and> {p ..< p + n} \<subseteq> bytes s' p \<and>
         (\<forall>q \<in> P. bytes s' q = bytes s q))"
    and release: "ok s P \<Longrightarrow> p \<in> P \<Longrightarrow> \<exists>s'. release s p = Some s' \<and> ok s' (P - {p}) \<and>
      (\<forall>q \<in> P - {p}. bytes s' q = bytes s q)"
begin

text \<open>A client that frees only what it holds.\<close>

primrec serve :: "heap_request list \<Rightarrow> 's \<Rightarrow> nat set \<Rightarrow> ('s \<times> nat set) option" where
  "serve [] s P = Some (s, P)"
| "serve (r # rs) s P =
     (case r of
        Malloc n \<Rightarrow> (case alloc s n of None \<Rightarrow> None
                     | Some (p, s') \<Rightarrow> serve rs s' (if p = 0 then P else insert p P))
      | Release p \<Rightarrow> if p \<in> P then (case release s p of None \<Rightarrow> None
                                   | Some s' \<Rightarrow> serve rs s' (P - {p}))
                     else serve rs s P)"

lemma serve_ok: "ok s P \<Longrightarrow> \<exists>s' P'. serve rs s P = Some (s', P') \<and> ok s' P'"
proof (induction rs arbitrary: s P)
  case Nil
  then show ?case by simp
next
  case (Cons r rs)
  show ?case
  proof (cases r)
    case (Malloc n)
    obtain p s' where "alloc s n = Some (p, s')" "ok s' (if p = 0 then P else insert p P)"
      using alloc [OF Cons.prems, of n] by (auto split: if_splits)
    then show ?thesis using Cons.IH Malloc by auto
  next
    case (Release p)
    then show ?thesis using Cons release [of s P p] by auto
  qed
qed

text \<open>A fresh block overlaps no block already handed out.\<close>

lemma alloc_apart:
  assumes "ok s P" "alloc s n = Some (p, s')" "p \<noteq> 0" "q \<in> P"
  shows "{p ..< p + n} \<inter> bytes s q = {}"
  using alloc [OF assms(1), of n] apart [of s' "insert p P" p q] assms(2-4) by fastforce

end

text \<open>The buddy allocator: its pointers lie behind the headers of the blocks in use.\<close>

definition heap_of :: "buddy_allocator \<Rightarrow> nat set \<Rightarrow> bool" where
  "heap_of a P \<longleftrightarrow> ba_grow a = ba_max a \<and> (\<forall>p \<in> P. sizeof_header < p) \<and>
     buddy_ok a ((\<lambda>p. p - sizeof_header) ` P)"

definition payload :: "buddy_allocator \<Rightarrow> nat \<Rightarrow> nat set" where
  "payload a p = extent a (p - sizeof_header) - {p - sizeof_header ..< p}"

lemma heap_of_malloc:
  assumes "heap_of a P"
  shows "\<exists>p a'. buddy_malloc a n = Some (p, a') \<and>
    (if p = 0 then heap_of a' P \<and> (\<forall>q \<in> P. payload a' q = payload a q)
     else p \<notin> P \<and> heap_of a' (insert p P) \<and> {p ..< p + n} \<subseteq> payload a' p \<and>
       (\<forall>q \<in> P. payload a' q = payload a q))"
proof -
  let ?L = "(\<lambda>p. p - sizeof_header) ` P"
  have h: "ba_grow a = ba_max a" "\<forall>p \<in> P. sizeof_header < p" "buddy_ok a ?L"
    using assms unfolding heap_of_def by auto
  obtain p a' where m: "buddy_malloc a n = Some (p, a')" "malloc_post a ?L n p a'"
    using buddy_malloc_ok [OF h(3), of n] h(1) by blast
  show ?thesis
  proof (cases "p = 0")
    case True
    then show ?thesis using m h unfolding malloc_post_def heap_of_def payload_def extent_def by auto
  next
    case False
    then obtain k i where p: "sizeof_header < p" "p - sizeof_header \<notin> ?L"
      "buddy_ok a' (insert (p - sizeof_header) ?L)" "ba_header a' = (ba_header a)(p - sizeof_header \<mapsto> (k, i))"
      "n + sizeof_header \<le> 2 ^ k" "ba_grow a' = ba_grow a" "ba_max a' = ba_max a"
      using m(2) unfolding malloc_post_def by auto
    have "payload a' q = payload a q" if "q \<in> P" for q
      using that p(2) unfolding payload_def extent_def p(4) by (auto simp: image_iff)
    moreover have "{p ..< p + n} \<subseteq> payload a' p"
      using p(1,5) unfolding payload_def extent_def p(4) by auto
    ultimately show ?thesis using m(1) False h p unfolding heap_of_def by auto
  qed
qed

lemma heap_of_free:
  assumes "heap_of a P" "p \<in> P"
  shows "\<exists>a'. buddy_free a p = Some a' \<and> heap_of a' (P - {p}) \<and> (\<forall>q \<in> P - {p}. payload a' q = payload a q)"
proof -
  let ?L = "(\<lambda>p. p - sizeof_header) ` P"
  have h: "ba_grow a = ba_max a" "\<forall>p \<in> P. sizeof_header < p" "buddy_ok a ?L"
    using assms(1) unfolding heap_of_def by auto
  obtain a' where f: "buddy_free a (p - sizeof_header + sizeof_header) = Some a'"
    "buddy_ok a' (?L - {p - sizeof_header})" "ba_header a' = ba_header a" "ba_grow a' = ba_grow a"
    "ba_max a' = ba_max a"
    using buddy_free_ok [OF h(3), of "p - sizeof_header"] assms(2) by blast
  have "inj_on (\<lambda>p. p - sizeof_header) P" using h(2) by (auto simp: inj_on_def)
  then have "?L - {p - sizeof_header} = (\<lambda>p. p - sizeof_header) ` (P - {p})"
    using assms(2) inj_on_image_set_diff [of "\<lambda>p. p - sizeof_header" P P "{p}"] by auto
  then show ?thesis using f h assms(2) unfolding heap_of_def payload_def extent_def by auto
qed

interpretation bh: heap_allocator heap_of payload buddy_malloc buddy_free
proof (unfold_locales, goal_cases)
  case (1 a P p q)
  then have "p - sizeof_header \<noteq> q - sizeof_header" unfolding heap_of_def by fastforce
  then show ?case
    using extents_disjoint [of a _ "p - sizeof_header" "q - sizeof_header"] 1
    unfolding heap_of_def payload_def by fastforce
next
  case (2 a P n) then show ?case by (rule heap_of_malloc)
next
  case (3 a P p) then show ?case by (rule heap_of_free)
qed

section \<open>Properties\<close>

text \<open>The states a client can bring the allocator into: it starts from \<^verbatim>\<open>buddy_init\<close> with regions of the
  largest order, allocates, duplicates strings, clears, resizes what it holds and frees what it
  holds, in any order.  \<open>P\<close> are the pointers it holds.\<close>

inductive buddy_reach :: "buddy_allocator \<Rightarrow> nat set \<Rightarrow> bool" where
  init: "kmalloc_ok (buddy_init a mn mx mx) \<Longrightarrow> BUDDY_MIN_ORDER \<le> mn \<Longrightarrow> mn \<le> mx \<Longrightarrow>
    mx \<le> BUDDY_MAX_ORDER \<Longrightarrow> buddy_reach (buddy_init a mn mx mx) {}"
| malloc: "buddy_reach a P \<Longrightarrow> buddy_malloc a n = Some (p, a') \<Longrightarrow>
    buddy_reach a' (if p = 0 then P else insert p P)"
| strdup: "buddy_reach a P \<Longrightarrow> buddy_strdup a s = Some (p, a') \<Longrightarrow>
    buddy_reach a' (if p = 0 then P else insert p P)"
| calloc: "buddy_reach a P \<Longrightarrow> buddy_calloc a n m = Some (p, a') \<Longrightarrow>
    buddy_reach a' (if p = 0 then P else insert p P)"
| realloc: "buddy_reach a P \<Longrightarrow> q \<in> P \<Longrightarrow> 0 < n \<Longrightarrow> n < 2 ^ 63 \<Longrightarrow> buddy_realloc a q n = Some (p, a') \<Longrightarrow>
    buddy_reach a' (if p = 0 then P else insert p (P - {q}))"
| free: "buddy_reach a P \<Longrightarrow> p \<in> P \<Longrightarrow> buddy_free a p = Some a' \<Longrightarrow> buddy_reach a' (P - {p})"

lemma buddy_init_ok:
  assumes "kmalloc_ok (buddy_init a mn mx mx)" "BUDDY_MIN_ORDER \<le> mn" "mn \<le> mx" "mx \<le> BUDDY_MAX_ORDER"
  shows "heap_of (buddy_init a mn mx mx) {}"
  using assms by (simp add: heap_of_def buddy_ok_def buddy_init_def)

lemma heap_of_fill:
  assumes "heap_of a P"
  shows "heap_of (a\<lparr>ba_mem := f\<rparr>) P"
  using assms by (simp add: heap_of_def buddy_ok_mem)

lemma heap_of_inj: "heap_of a P \<Longrightarrow> inj_on (\<lambda>p. p - sizeof_header) P"
  unfolding heap_of_def inj_on_def by (metis less_imp_add_positive add_diff_cancel_left')

lemma heap_of_realloc:
  assumes "heap_of a P" "q \<in> P" "0 < n" "n < 2 ^ 63"
  shows "\<exists>p a'. buddy_realloc a q n = Some (p, a') \<and> heap_of a' (if p = 0 then P else insert p (P - {q})) \<and>
    realloc_post a ((\<lambda>p. p - sizeof_header) ` P) (q - sizeof_header) n p a'"
proof -
  let ?L = "(\<lambda>p. p - sizeof_header) ` P"
  have h: "ba_grow a = ba_max a" "\<forall>p \<in> P. sizeof_header < p" "buddy_ok a ?L"
    using assms(1) unfolding heap_of_def by auto
  have "ba_min a \<le> 29"
    using buddy_okD(2,3,4) [OF h(3)] by (simp add: BUDDY_MAX_ORDER_def)
  then have "(2::nat) ^ ba_min a \<le> 2 ^ 29" by (rule power_increasing) simp
  then have b: "n + sizeof_header + 2 ^ ba_min a < W64" using assms(4) by (simp add: W64_def sizeof_header_def)
  obtain p a' where r: "buddy_realloc a q n = Some (p, a')" "realloc_post a ?L (q - sizeof_header) n p a'"
    using buddy_realloc_ok [OF h(3) imageI [OF assms(2)] assms(3) h(1) b] h(2) assms(2) by auto
  have "?L - {q - sizeof_header} = (\<lambda>p. p - sizeof_header) ` (P - {q})"
    using assms(2) inj_on_image_set_diff [OF heap_of_inj [OF assms(1)], of P "{q}"] by auto
  then have "heap_of a' (if p = 0 then P else insert p (P - {q}))"
    using r(2) h unfolding realloc_post_def heap_of_def by (cases "p = 0") auto
  then show ?thesis using r by blast
qed

lemma buddy_reach_heap: "buddy_reach a P \<Longrightarrow> heap_of a P"
proof (induction rule: buddy_reach.induct)
  case (init a mn mx)
  then show ?case by (rule buddy_init_ok)
next
  case (malloc a P n p a')
  then show ?case using bh.alloc [of a P n] by (auto split: if_splits)
next
  case (strdup a P s p a')
  obtain p1 a1 where "buddy_malloc a (length s + 1) = Some (p1, a1)"
    "heap_of a1 (if p1 = 0 then P else insert p1 P)"
    using bh.alloc [OF strdup.IH, of "length s + 1"] by (auto split: if_splits)
  then show ?case using strdup.hyps(2) heap_of_fill by (auto simp: buddy_strdup_def split: if_splits)
next
  case (calloc a P n m p a')
  obtain p1 a1 where "buddy_malloc a (mul64 n m) = Some (p1, a1)"
    "heap_of a1 (if p1 = 0 then P else insert p1 P)"
    using bh.alloc [OF calloc.IH, of "mul64 n m"] by (auto split: if_splits)
  then show ?case using calloc.hyps(2) heap_of_fill by (auto simp: buddy_calloc_def split: if_splits)
next
  case (realloc a P q n p a')
  then show ?case using heap_of_realloc [OF realloc.IH realloc.hyps(2-4)] by auto
next
  case (free a P p a')
  then show ?case using bh.release [OF free.IH free.hyps(2)] by auto
qed

text \<open>A heap for the witnesses: one pool of \<open>2 ^ 10\<close> bytes at address 4096.\<close>

definition demo_heap :: buddy_allocator where
  "demo_heap = buddy_init \<lparr>ba_regions = [], ba_active = None, ba_grow = 0, ba_min = 0, ba_max = 0,
     ba_current = 0, ba_peak = 0, ba_header = Map.empty, ba_saved = Map.empty, ba_mem = (\<lambda>_. 0),
     ba_kmalloc = (\<lambda>k n. if k = 0 then 4096 else if k = 1 then 8192 else 0), ba_requests = 0, ba_kfreed = []\<rparr> 5 10 10"

lemma demo_kmalloc: "kmalloc_ok demo_heap"
  by (auto simp: kmalloc_ok_def demo_heap_def buddy_init_def BUDDY_MIN_ORDER_def BUDDY_MAX_ORDER_def
      W64_def pool_range_def)

lemma demo_reach: "buddy_reach demo_heap {}"
  using buddy_reach.init [OF demo_kmalloc [unfolded demo_heap_def]]
  by (simp add: demo_heap_def BUDDY_MIN_ORDER_def BUDDY_MAX_ORDER_def)

lemmas demo_heap_ok = buddy_reach_heap [OF demo_reach]

text \<open>C1: the heap stays consistent.  In every state a client can reach, whatever the order of its
  calls, the blocks of every region tile it exactly, free or in use (the invariant \<^const>\<open>buddy_ok\<close>), and
  the bytes of two pointers the client holds never overlap.\<close>

theorem buddy_heap_safe:
  assumes "buddy_reach a P"
  shows "buddy_ok a ((\<lambda>p. p - sizeof_header) ` P) \<and>
    (\<forall>p\<in>P. \<forall>q\<in>P. p \<noteq> q \<longrightarrow> payload a p \<inter> payload a q = {})"
  using buddy_reach_heap [OF assms] bh.apart [of a P] unfolding heap_of_def by blast

theorem buddy_heap_safe_witness: "buddy_ok demo_heap {}"
  using buddy_heap_safe [OF demo_reach] by simp

text \<open>C15: \<^verbatim>\<open>buddy_malloc\<close> returns in every reachable state.  It answers \<^verbatim>\<open>NULL\<close> or a pointer not held
  before with room for the bytes asked for, apart from every block in use, and moves no other block.\<close>

theorem buddy_malloc_correct:
  assumes "heap_of a P"
  shows "\<exists>p a'. buddy_malloc a n = Some (p, a') \<and>
    (if p = 0 then heap_of a' P
     else p \<notin> P \<and> heap_of a' (insert p P) \<and> {p ..< p + n} \<subseteq> payload a' p \<and>
       (\<forall>q\<in>P. payload a' q = payload a q \<and> {p ..< p + n} \<inter> payload a q = {}))"
proof -
  obtain p a' where p: "buddy_malloc a n = Some (p, a')" "if p = 0 then heap_of a' P
     else p \<notin> P \<and> heap_of a' (insert p P) \<and> {p ..< p + n} \<subseteq> payload a' p \<and>
       (\<forall>q \<in> P. payload a' q = payload a q)"
    using bh.alloc [OF assms, of n] by (auto split: if_splits)
  then show ?thesis using bh.alloc_apart [OF assms p(1)] by (cases "p = 0") auto
qed

theorem buddy_malloc_correct_witness:
  "\<exists>p a'. buddy_malloc demo_heap 100 = Some (p, a') \<and> (p = 0 \<or> {p ..< p + 100} \<subseteq> payload a' p)"
  using buddy_malloc_correct [OF demo_heap_ok, of 100] by (auto split: if_splits)

lemma walk_first_region:
  assumes "buddy_ok a L" "i < length (ba_regions a)" "sz + sizeof_header \<le> 2 ^ ba_grow a"
    and "rg_free (ba_regions a ! i) (ba_grow a) \<noteq> []"
  shows "\<exists>p a'. malloc_walk a sz (Some i) = Some (p, a') \<and> p \<noteq> 0 \<and>
    length (ba_regions a') = length (ba_regions a) \<and> ba_requests a' = ba_requests a \<and>
    ba_kmalloc a' = ba_kmalloc a \<and> ba_max a' = ba_max a"
proof -
  let ?r = "ba_regions a ! i"
  let ?o = "size_to_order ?r (sz + sizeof_header)"
  have r: "rg_max ?r = ba_max a" using buddy_okD(10) [OF assms(1,2)] .
  note o = order_ok [OF assms(1-3)]
  have "find_cur ?r ?o \<le> ba_grow a"
    by (rule find_cur_props(3) [OF o(3)]) (use r buddy_okD(3) [OF assms(1)] assms(4) in auto)
  then have "find_cur ?r ?o \<le> rg_max ?r" using r buddy_okD(3) [OF assms(1)] by simp
  then have "malloc_walk a sz (Some i) = Some (take_from a i (find_cur ?r ?o) ?o)"
    using o(4) r by (subst malloc_walk.simps) (simp add: Let_def)
  then show ?thesis
    by (auto simp: take_from_def sizeof_header_def count_alloc_def Let_def split: prod.split)
qed

text \<open>The walk never answers \<^verbatim>\<open>NULL\<close> when the kernel heap gives a pool and a region structure: it finds a
  block in some region, or comes to the last one and grows.\<close>

lemma walk_serves:
  assumes "buddy_ok a L" "i < length (ba_regions a)" "sz + sizeof_header \<le> 2 ^ ba_grow a"
    and "ba_kmalloc a (ba_requests a) (2 ^ ba_grow a) \<noteq> 0"
    and "ba_kmalloc a (Suc (ba_requests a)) sizeof_region \<noteq> 0"
  shows "\<exists>p a'. malloc_walk a sz (Some i) = Some (p, a') \<and> p \<noteq> 0"
  using assms(2)
proof (induction "length (ba_regions a) - i" arbitrary: i rule: less_induct)
  case less
  let ?r = "ba_regions a ! i"
  let ?m = "find_cur ?r (size_to_order ?r (sz + sizeof_header))"
  have mx: "rg_max ?r = ba_max a" using buddy_okD(10) [OF assms(1) less.prems] .
  note ord = order_ok [OF assms(1) less.prems assms(3)]
  consider "?m \<le> ba_max a" | "\<not> ?m \<le> ba_max a" "Suc i < length (ba_regions a)"
    | "\<not> ?m \<le> ba_max a" "\<not> Suc i < length (ba_regions a)" by blast
  then show ?case
  proof cases
    case 1
    then show ?thesis using walk_found [OF assms(1) less.prems assms(3)] by metis
  next
    case 2
    then have "malloc_walk a sz (Some i) = malloc_walk a sz (Some (Suc i))"
      using mx ord(4) by (subst malloc_walk.simps) (simp add: Let_def next_region_def)
    then show ?thesis using less.hyps [of "Suc i"] 2 by simp
  next
    case 3
    obtain j a1 where g: "buddy_grow a = (Some j, a1)"
      using assms(4,5) buddy_okD(3) [OF assms(1)] by (simp add: buddy_grow_def Let_def)
    note gok = buddy_grow_ok [OF assms(1) g]
    have step: "malloc_walk a sz (Some i) = malloc_walk a1 sz (Some j)"
      using 3 mx ord(4) g by (subst malloc_walk.simps) (simp add: Let_def next_region_def)
    have j: "j < length (ba_regions a1)" "rg_free (ba_regions a1 ! j) (ba_grow a1) \<noteq> []"
      using gok(8) [OF refl] by auto
    have sz: "sz + sizeof_header \<le> 2 ^ ba_grow a1" using assms(3) gok(5) by simp
    show ?thesis using walk_first_region [OF gok(1) j(1) sz j(2)] step by auto
  qed
qed

lemma malloc_serves:
  assumes "heap_of a P" "0 < n" "n + sizeof_header \<le> 2 ^ ba_max a"
    and "ba_kmalloc a (ba_requests a) (2 ^ ba_max a) \<noteq> 0"
    and "ba_kmalloc a (Suc (ba_requests a)) sizeof_region \<noteq> 0"
  shows "\<exists>p a'. buddy_malloc a n = Some (p, a') \<and> p \<noteq> 0 \<and>
    (ba_regions a = [] \<longrightarrow> ba_regions a' \<noteq> [] \<and> ba_requests a' = Suc (Suc (ba_requests a)) \<and>
       ba_kmalloc a' = ba_kmalloc a \<and> ba_max a' = ba_max a)"
proof -
  let ?L = "(\<lambda>p. p - sizeof_header) ` P"
  have h: "ba_grow a = ba_max a" "buddy_ok a ?L"
    using assms(1) unfolding heap_of_def by auto
  have "(2::nat) ^ ba_max a \<le> 2 ^ 29" using buddy_ok_small [OF h(2)] by simp
  then have fits: "\<not> n > sub64 (2 ^ ba_max a) sizeof_header"
    using assms(3) by (simp add: sub64_nowrap W64_def)
  show ?thesis
  proof (cases "ba_regions a = []")
    case False
    then have "ba_active a = Some (length (ba_regions a) - 1)" "length (ba_regions a) - 1 < length (ba_regions a)"
      using buddy_okD(7) [OF h(2)] by simp_all
    then show ?thesis
      using walk_serves [OF h(2), of "length (ba_regions a) - 1" n] assms(2-5) h(1) fits False
      by (auto simp: buddy_malloc_def)
  next
    case True
    define a1 where "a1 = snd (buddy_grow a)"
    have g: "buddy_grow a = (Some 0, a1)" "ba_regions a1 \<noteq> []" "ba_requests a1 = Suc (Suc (ba_requests a))"
      "ba_kmalloc a1 = ba_kmalloc a" "ba_max a1 = ba_max a"
      using True assms(4,5) h(1) by (simp_all add: buddy_grow_def Let_def a1_def)
    note ok = buddy_grow_ok [OF h(2) g(1)]
    have i: "0 < length (ba_regions a1)" "rg_free (ba_regions a1 ! 0) (ba_grow a1) \<noteq> []"
      using ok(8) [OF refl] by auto
    obtain p a' where "malloc_walk a1 n (Some 0) = Some (p, a')" "p \<noteq> 0"
      "length (ba_regions a') = length (ba_regions a1)" "ba_requests a' = ba_requests a1"
      "ba_kmalloc a' = ba_kmalloc a1" "ba_max a' = ba_max a1"
      using walk_first_region [OF ok(1) i(1) _ i(2), of n] ok(5,6) h(1) assms(3) by auto
    moreover have "ba_active a = None" using buddy_okD(7) [OF h(2)] True by simp
    moreover have "ba_regions a' \<noteq> []" using calculation(3) g(2) by auto
    ultimately show ?thesis using assms(2) g fits by (simp add: buddy_malloc_def)
  qed
qed

text \<open>C29: \<^verbatim>\<open>buddy_malloc\<close> does not fail without cause.  In every state of the heap, whatever regions it has
  and however full they are, a request of at least one byte that fits a region with its header is served
  when the kernel heap would give the pool and the region structure for one more region.\<close>

theorem buddy_malloc_succeeds:
  assumes "heap_of a P" "0 < n" "n + sizeof_header \<le> 2 ^ ba_max a"
    and "ba_kmalloc a (ba_requests a) (2 ^ ba_max a) \<noteq> 0"
    and "ba_kmalloc a (Suc (ba_requests a)) sizeof_region \<noteq> 0"
  shows "\<exists>p a'. buddy_malloc a n = Some (p, a') \<and> p \<noteq> 0"
  using malloc_serves [OF assms] by blast

text \<open>The witness: two requests that take a whole region each, so that the second one has to grow a
  heap that has a region already.\<close>

definition wide_heap :: buddy_allocator where
  "wide_heap = demo_heap\<lparr>ba_kmalloc := \<lambda>k n. if k < 4 then 4096 * Suc k else 0\<rparr>"

lemma wide_heap_ok: "heap_of wide_heap {}"
proof -
  have "kmalloc_ok wide_heap"
    by (auto simp: kmalloc_ok_def wide_heap_def demo_heap_def buddy_init_def BUDDY_MIN_ORDER_def
        BUDDY_MAX_ORDER_def W64_def pool_range_def)
  then show ?thesis
    by (simp add: heap_of_def buddy_ok_def wide_heap_def demo_heap_def buddy_init_def BUDDY_MIN_ORDER_def
        BUDDY_MAX_ORDER_def)
qed

theorem buddy_malloc_succeeds_witness:
  "\<exists>p a p' a'. buddy_malloc wide_heap 1000 = Some (p, a) \<and> p \<noteq> 0 \<and> ba_regions a \<noteq> [] \<and>
     buddy_malloc a 1000 = Some (p', a') \<and> p' \<noteq> 0"
proof -
  have w: "ba_regions wide_heap = []" "ba_max wide_heap = 10" "ba_requests wide_heap = 0"
    "ba_kmalloc wide_heap = (\<lambda>k n. if k < 4 then 4096 * Suc k else 0)"
    by (simp_all add: wide_heap_def demo_heap_def buddy_init_def BUDDY_MIN_ORDER_def BUDDY_MAX_ORDER_def)
  obtain p a where a: "buddy_malloc wide_heap 1000 = Some (p, a)" "p \<noteq> 0" "ba_regions a \<noteq> []"
    "ba_requests a = 2" "ba_kmalloc a = ba_kmalloc wide_heap" "ba_max a = 10"
    using malloc_serves [OF wide_heap_ok, of 1000] w by (auto simp: sizeof_header_def)
  have "heap_of a {p}" using heap_of_malloc [OF wide_heap_ok, of 1000] a(1,2) by auto
  from buddy_malloc_succeeds [OF this, of 1000] show ?thesis
    using a w by (auto simp: sizeof_header_def)
qed

text \<open>\<^verbatim>\<open>buddy_free\<close> of a held pointer returns, gives the block back and touches no other block.\<close>

theorem buddy_free_correct:
  assumes "heap_of a P" "p \<in> P"
  shows "\<exists>a'. buddy_free a p = Some a' \<and> heap_of a' (P - {p}) \<and>
    (\<forall>q\<in>P - {p}. payload a' q = payload a q)"
  by (rule bh.release [OF assms])

lemma demo_malloc: "\<exists>p a'. buddy_malloc demo_heap 100 = Some (p, a') \<and> p \<noteq> 0"
  using malloc_serves [OF demo_heap_ok, of 100]
  by (auto simp: demo_heap_def buddy_init_def BUDDY_MIN_ORDER_def BUDDY_MAX_ORDER_def sizeof_header_def)

lemma demo_held: "\<exists>p a'. p \<noteq> 0 \<and> heap_of a' {p} \<and> {p ..< p + 100} \<subseteq> payload a' p"
  using bh.alloc [OF demo_heap_ok, of 100] demo_malloc
  by (fastforce simp: demo_heap_def buddy_init_def BUDDY_MIN_ORDER_def BUDDY_MAX_ORDER_def sizeof_header_def)

theorem buddy_free_correct_witness: "\<exists>p a a'. p \<noteq> 0 \<and> buddy_free a p = Some a' \<and> heap_of a' {}"
proof -
  obtain p a where "p \<noteq> 0" "heap_of a {p}" using demo_held by blast
  then show ?thesis using buddy_free_correct [of a "{p}" p] by auto
qed

text \<open>C27: \<^verbatim>\<open>buddy_realloc\<close> of a held pointer returns.  When it answers \<^verbatim>\<open>NULL\<close> the old block stays as it was;
  otherwise the new block has room for the size asked for, its first bytes are those of the old block,
  and the other blocks keep their place and their bytes.\<close>

theorem buddy_realloc_correct:
  assumes "heap_of a P" "q \<in> P" "0 < n" "n < 2 ^ 63"
  shows "\<exists>p a'. buddy_realloc a q n = Some (p, a') \<and>
    (if p = 0 then heap_of a' P \<and> ba_mem a' = ba_mem a
     else heap_of a' (insert p (P - {q})) \<and> {p ..< p + n} \<subseteq> payload a' p \<and>
       (\<forall>y\<in>P - {q}. \<forall>b\<in>payload a y. b \<in> payload a' y \<and> ba_mem a' b = ba_mem a b) \<and>
       (\<forall>j<n. q + j \<in> payload a q \<longrightarrow> ba_mem a' (p + j) = ba_mem a (q + j)))"
proof -
  obtain p a' where r: "buddy_realloc a q n = Some (p, a')"
    "heap_of a' (if p = 0 then P else insert p (P - {q}))"
    "realloc_post a ((\<lambda>p. p - sizeof_header) ` P) (q - sizeof_header) n p a'"
    using heap_of_realloc [OF assms] by blast
  have q: "sizeof_header < q" using assms(1,2) unfolding heap_of_def by blast
  show ?thesis
  proof (cases "p = 0")
    case True
    then show ?thesis using r by (auto simp: realloc_post_def)
  next
    case False
    then have p: "sizeof_header < p" "{p ..< p + n} \<subseteq> extent a' (p - sizeof_header)"
      "\<forall>y\<in>(\<lambda>p. p - sizeof_header) ` P - {q - sizeof_header}. extent a' y = extent a y \<and>
         (\<forall>b\<in>extent a y. ba_mem a' b = ba_mem a b)"
      "\<forall>j. q + j \<in> extent a (q - sizeof_header) \<longrightarrow> j < n \<longrightarrow> ba_mem a' (p + j) = ba_mem a (q + j)"
      using r(3) q by (auto simp: realloc_post_def)
    have "y - sizeof_header \<in> (\<lambda>p. p - sizeof_header) ` P - {q - sizeof_header}" if "y \<in> P - {q}" for y
      using that inj_onD [OF heap_of_inj [OF assms(1)], of y q] assms(2) by auto
    then have "\<forall>y\<in>P - {q}. \<forall>b\<in>payload a y. b \<in> payload a' y \<and> ba_mem a' b = ba_mem a b"
      using p(3) unfolding payload_def by blast
    moreover have "{p ..< p + n} \<subseteq> payload a' p" using p(1,2) unfolding payload_def by auto
    moreover have "\<forall>j<n. q + j \<in> payload a q \<longrightarrow> ba_mem a' (p + j) = ba_mem a (q + j)"
      using p(4) unfolding payload_def by blast
    ultimately show ?thesis using r False by auto
  qed
qed

theorem buddy_realloc_correct_witness:
  "\<exists>a q p a'. heap_of a {q} \<and> buddy_realloc a q 300 = Some (p, a') \<and>
     (p = 0 \<or> {p ..< p + 300} \<subseteq> payload a' p)"
proof -
  obtain q a where h: "heap_of a {q}" using demo_held by blast
  from buddy_realloc_correct [OF h, of q 300] show ?thesis
    using h by (auto split: if_splits)
qed

text \<open>C28: freeing coalesces completely: when the client holds nothing, every region is again one free
  block of its full size, and nothing else is on its free lists.\<close>

theorem buddy_coalesces:
  assumes "buddy_reach a {}" "i < length (ba_regions a)"
  shows "free_set (ba_regions a ! i) = {(ba_grow a, 0)}"
  using all_free_coalesced [of a i] buddy_reach_heap [OF assms(1)] assms(2) by (simp add: heap_of_def)

theorem buddy_coalesces_witness:
  "\<exists>a :: buddy_allocator. free_set (ba_regions a ! 0) = {(ba_grow a, 0)} \<and> ba_regions a \<noteq> []"
proof -
  obtain p a1 where m: "buddy_malloc demo_heap 100 = Some (p, a1)" "p \<noteq> 0"
    using demo_malloc by blast
  have r1: "buddy_reach a1 {p}" using buddy_reach.malloc [OF demo_reach m(1)] m(2) by simp
  obtain a2 where f: "buddy_free a1 p = Some a2" using bh.release [OF buddy_reach_heap [OF r1], of p] by auto
  have r2: "buddy_reach a2 {}" using buddy_reach.free [OF r1 _ f] by simp
  have "ba_regions a1 \<noteq> []"
    using buddy_reach_heap [OF r1] unfolding heap_of_def buddy_ok_def by auto
  then have "ba_regions a2 \<noteq> []"
    using f m(2) by (auto simp: buddy_free_def split: option.splits if_splits)
  then show ?thesis using buddy_coalesces [OF r2, of 0] by (intro exI [of _ a2]) simp
qed

text \<open>\<^verbatim>\<open>buddy_malloc_aligned\<close> returns an aligned pointer inside a fresh block, with the bytes asked for
  and the saved raw pointer before it inside that block; \<^verbatim>\<open>buddy_free_aligned\<close> then gives the block back.\<close>

theorem buddy_aligned_roundtrip:
  assumes "heap_of a P" "0 < n" "8 < align" "\<not> not_pow2 align" "n + align + 7 < W64"
    and "buddy_malloc_aligned a n align = Some (p, a1)" "p \<noteq> 0"
  shows "align dvd p \<and> (\<exists>raw. raw \<notin> P \<and> heap_of a1 (insert raw P) \<and> {p - 8 ..< p + n} \<subseteq> payload a1 raw) \<and>
    (\<exists>a2. buddy_free_aligned a1 p align = Some a2 \<and> heap_of a2 P)"
proof -
  let ?L = "(\<lambda>p. p - sizeof_header) ` P"
  have h: "ba_grow a = ba_max a" "\<forall>p \<in> P. sizeof_header < p" "buddy_ok a ?L"
    using assms(1) unfolding heap_of_def by auto
  obtain x where x: "x \<notin> ?L" "buddy_ok a1 (insert x ?L)" "align dvd p"
    "ba_saved a1 (p - 8) = Some (x + sizeof_header)" "{p - 8 ..< p + n} \<subseteq> extent a1 x - {x ..< x + sizeof_header}"
    using buddy_malloc_aligned_ok [OF h(3,1) assms(2-5)] assms(6,7) by auto
  have cfg: "ba_grow a1 = ba_max a1"
  proof -
    obtain raw a' where "buddy_malloc a (add64 (sub64 (add64 n align) 1) 8) = Some (raw, a')"
      "malloc_post a ?L (add64 (sub64 (add64 n align) 1) 8) raw a'"
      using buddy_malloc_ok [OF h(3)] h(1) by blast
    then show ?thesis using assms(2-4,6,7) h(1)
      by (auto simp: buddy_malloc_aligned_def malloc_post_def Let_def split: if_splits)
  qed
  have x0: "0 < x"
  proof (rule live_blockE [OF x(2) insertI1])
    fix i m k assume "i < length (ba_regions a1)" "x = rg_pool (ba_regions a1 ! i) + k * 2 ^ m"
    then show ?thesis using region_okD(3) [OF buddy_okD(8) [OF x(2)]] by simp
  qed
  have raw: "x + sizeof_header \<notin> P" using x(1) by force
  have "heap_of a1 (insert (x + sizeof_header) P)"
    using x(2) h(2) x0 cfg unfolding heap_of_def by simp
  moreover have "{p - 8 ..< p + n} \<subseteq> payload a1 (x + sizeof_header)"
    using x(5) unfolding payload_def by simp
  moreover obtain a2 where "buddy_free_aligned a1 p align = Some a2" "buddy_free a1 (x + sizeof_header) = Some a2"
  proof -
    obtain a2 where "buddy_free a1 (x + sizeof_header) = Some a2"
      using buddy_free_ok [OF x(2) insertI1] by metis
    then show ?thesis
      using that x(4) assms(3,4,7) by (auto simp: buddy_free_aligned_def sizeof_header_def)
  qed
  moreover from this calculation(1) have "heap_of a2 P"
    using bh.release [of a1 "insert (x + sizeof_header) P" "x + sizeof_header"] raw by auto
  ultimately show ?thesis using x(3) raw by blast
qed

theorem buddy_aligned_roundtrip_witness:
  "\<exists>p a1 a2. buddy_malloc_aligned demo_heap 100 64 = Some (p, a1) \<and> 64 dvd p \<and>
     buddy_free_aligned a1 p 64 = Some a2 \<and> heap_of a2 {}"
proof -
  have np: "\<not> not_pow2 64" by (simp add: not_pow2_def)
  obtain raw a' where m: "buddy_malloc demo_heap 171 = Some (raw, a')" "raw \<noteq> 0"
    using malloc_serves [OF demo_heap_ok, of 171]
    by (auto simp: demo_heap_def buddy_init_def BUDDY_MIN_ORDER_def BUDDY_MAX_ORDER_def sizeof_header_def)
  have "malloc_post demo_heap {} 171 raw a'"
    using buddy_malloc_ok [of demo_heap "{}" 171] demo_heap_ok m(1) by (auto simp: heap_of_def)
  then have raw: "raw + 71 < W64"
  proof -
    assume mp: "malloc_post demo_heap {} 171 raw a'"
    then obtain n where "sizeof_header < raw" "171 + sizeof_header \<le> 2 ^ n" "raw - sizeof_header + 2 ^ n < W64"
      using m(2) by (auto simp: malloc_post_def)
    then show ?thesis by linarith
  qed
  have "add64 (sub64 (add64 100 64) 1) 8 = 171" by (simp add: add64_def sub64_def W64_def)
  moreover have "add64 (add64 raw 8) 63 = raw + 71" using raw by (simp add: add64_nowrap)
  ultimately have al: "buddy_malloc_aligned demo_heap 100 64 =
      Some (round_down (raw + 71) 64, a'\<lparr>ba_saved := (ba_saved a')(round_down (raw + 71) 64 - 8 \<mapsto> raw)\<rparr>)"
    using m np by (simp add: buddy_malloc_aligned_def Let_def)
  have nz: "round_down (raw + 71) 64 \<noteq> 0" using m(2) by (simp add: round_down_def)
  have "100 + 64 + 7 < W64" by (simp add: W64_def)
  from buddy_aligned_roundtrip [OF demo_heap_ok _ _ np this al nz] show ?thesis using al by auto
qed

end
