(* ===== verification/MemFns.thy ===== *)
theory MemFns
  imports Prelude
begin

text \<open>
  The memory primitives of \<^verbatim>\<open>src/memcpy.c\<close> on a byte memory \<open>nat \<Rightarrow> byte\<close>.  The string instructions of the
  processor are the loops they run: \<^verbatim>\<open>rep stosb\<close> and \<^verbatim>\<open>rep movsb\<close> move up one byte at a time, and \<^verbatim>\<open>rep movsb\<close>
  under \<^verbatim>\<open>std\<close> moves down.
\<close>

section \<open>The model\<close>

type_synonym memory = "nat \<Rightarrow> byte"

fun memset :: "memory \<Rightarrow> nat \<Rightarrow> byte \<Rightarrow> nat \<Rightarrow> memory" where
  "memset mem dest val 0 = mem"
| "memset mem dest val (Suc len) = memset (mem(dest := val)) (dest + 1) val len"

fun memcpy :: "memory \<Rightarrow> nat \<Rightarrow> nat \<Rightarrow> nat \<Rightarrow> memory" where
  "memcpy mem dest src 0 = mem"
| "memcpy mem dest src (Suc len) = memcpy (mem(dest := mem src)) (dest + 1) (src + 1) len"

text \<open>The downward copy; \<open>d\<close> and \<open>s\<close> are the addresses of the bytes to copy next.\<close>

fun movsb_down :: "memory \<Rightarrow> nat \<Rightarrow> nat \<Rightarrow> nat \<Rightarrow> memory" where
  "movsb_down mem d s 0 = mem"
| "movsb_down mem d s (Suc len) = movsb_down (mem(d := mem s)) (d - 1) (s - 1) len"

definition memcpy_reverse :: "memory \<Rightarrow> nat \<Rightarrow> nat \<Rightarrow> nat \<Rightarrow> memory" where
  "memcpy_reverse mem dest src len = movsb_down mem (dest + len - 1) (src + len - 1) len"

definition memmove :: "memory \<Rightarrow> nat \<Rightarrow> nat \<Rightarrow> nat \<Rightarrow> memory" where
  "memmove mem dest src n =
     (if src > dest then memcpy mem dest src n
      else if src < dest then memcpy_reverse mem dest src n
      else mem)"

fun memcmp :: "memory \<Rightarrow> nat \<Rightarrow> nat \<Rightarrow> nat \<Rightarrow> int" where
  "memcmp mem s1 s2 0 = 0"
| "memcmp mem s1 s2 (Suc n) =
     (let d = int (unat (mem s1)) - int (unat (mem s2))
      in if d \<noteq> 0 then d else memcmp mem (s1 + 1) (s2 + 1) n)"

text \<open>\<^verbatim>\<open>for (i = 0; i < n/2; ++i)\<close> of \<^verbatim>\<open>memrev\<close>: the memory and the last value of \<^verbatim>\<open>i\<close>.\<close>

function memrev_loop :: "memory \<Rightarrow> nat \<Rightarrow> nat \<Rightarrow> nat \<Rightarrow> memory \<times> nat" where
  "memrev_loop mem buf n i =
     (if i < n div 2
      then memrev_loop (mem(buf + i := mem (buf + (n - i - 1)), buf + (n - i - 1) := mem (buf + i))) buf n (i + 1)
      else (mem, i))"
  by pat_completeness auto
termination
  by (relation "measure (\<lambda>(mem, buf, n, i). n - i)") auto

declare memrev_loop.simps [simp del]

definition memrev :: "memory \<Rightarrow> nat \<Rightarrow> nat \<Rightarrow> memory \<times> nat" where
  "memrev mem buf n = memrev_loop mem buf n 0"

text \<open>The address of the byte, or \<open>None\<close> for \<^verbatim>\<open>NULL\<close>.\<close>

fun memchr :: "memory \<Rightarrow> nat \<Rightarrow> byte \<Rightarrow> nat \<Rightarrow> nat option" where
  "memchr mem ptr c 0 = None"
| "memchr mem ptr c (Suc len) = (if mem ptr = c then Some ptr else memchr mem (ptr + 1) c len)"

section \<open>Correctness\<close>

lemma memset_eq: "memset mem d v n x = (if d \<le> x \<and> x < d + n then v else mem x)"
proof (induction n arbitrary: mem d)
  case (Suc n)
  then show ?case by (simp add: Suc)
qed (use linorder_not_le in auto)

lemma memcpy_up:
  assumes "d < s \<or> s + n \<le> d"
  shows "memcpy mem d s n x = (if d \<le> x \<and> x < d + n then mem (s + (x - d)) else mem x)"
  using assms
proof (induction n arbitrary: mem d s)
  case 0
  show ?case using linorder_not_le by auto
next
  case (Suc n)
  have IH: "memcpy (mem(d := mem s)) (d + 1) (s + 1) n x =
      (if d + 1 \<le> x \<and> x < d + 1 + n then (mem(d := mem s)) (s + 1 + (x - (d + 1))) else (mem(d := mem s)) x)"
    using Suc.prems by (intro Suc.IH) auto
  show ?case
  proof (cases "d + 1 \<le> x \<and> x < d + 1 + n")
    case True
    then have "s + 1 + (x - (d + 1)) = s + (x - d)" by linarith
    moreover have "s + (x - d) \<noteq> d" using True Suc.prems by auto
    ultimately show ?thesis using IH True by simp
  next
    case False
    then show ?thesis using IH by auto
  qed
qed

lemma movsb_down_eq:
  assumes "s < d" "n \<le> s + 1"
  shows "movsb_down mem d s n x = (if d < x + n \<and> x \<le> d then mem (s - (d - x)) else mem x)"
  using assms
proof (induction n arbitrary: mem d s)
  case 0
  then show ?case by auto
next
  case (Suc n)
  show ?case
  proof (cases "n = 0")
    case True
    then show ?thesis using Suc.prems by auto
  next
    case False
    then have IH: "movsb_down (mem(d := mem s)) (d - 1) (s - 1) n x =
        (if d - 1 < x + n \<and> x \<le> d - 1 then (mem(d := mem s)) (s - 1 - (d - 1 - x)) else (mem(d := mem s)) x)"
      using Suc.prems by (intro Suc.IH) auto
    have "s - 1 - (d - 1 - x) = s - (d - x)" "s - (d - x) \<noteq> d" if "x \<le> d - 1" "d - 1 < x + n"
      using that Suc.prems False by auto
    then show ?thesis using IH Suc.prems(1) by auto
  qed
qed

lemma memcpy_reverse_eq:
  assumes "s < d"
  shows "memcpy_reverse mem d s n x = (if d \<le> x \<and> x < d + n then mem (s + (x - d)) else mem x)"
proof (cases n)
  case 0
  then show ?thesis using linorder_not_le by (auto simp: memcpy_reverse_def)
next
  case (Suc m)
  have "movsb_down mem (d + n - 1) (s + n - 1) n x =
      (if d + n - 1 < x + n \<and> x \<le> d + n - 1 then mem (s + n - 1 - (d + n - 1 - x)) else mem x)"
    using assms Suc by (intro movsb_down_eq) auto
  moreover have "s + n - 1 - (d + n - 1 - x) = s + (x - d)" if "d \<le> x" "x < d + n"
    using that Suc by simp
  ultimately show ?thesis using Suc by (auto simp: memcpy_reverse_def)
qed

lemma memcmp_0: "memcmp mem s1 s2 n = 0 \<longleftrightarrow> (\<forall>i<n. mem (s1 + i) = mem (s2 + i))"
proof (induction mem s1 s2 n rule: memcmp.induct)
  case (2 mem s1 s2 n)
  have "(\<forall>i<Suc n. mem (s1 + i) = mem (s2 + i)) \<longleftrightarrow>
      mem s1 = mem s2 \<and> (\<forall>i<n. mem (s1 + 1 + i) = mem (s2 + 1 + i))"
    by (auto simp: less_Suc_eq_0_disj)
  then show ?case using 2 by (auto simp: Let_def word_uint_eq_iff)
qed simp

lemma memrev_loop_eq:
  assumes "i \<le> n div 2"
  shows "fst (memrev_loop mem buf n i) x =
      (if buf + i \<le> x \<and> x < buf + (n - i) then mem (buf + (n - 1 - (x - buf))) else mem x) \<and>
    snd (memrev_loop mem buf n i) = n div 2"
  using assms
proof (induction "n div 2 - i" arbitrary: mem i)
  case (Suc k)
  show ?case
  proof (cases "i < n div 2")
    case True
    let ?m = "mem(buf + i := mem (buf + (n - i - 1)), buf + (n - i - 1) := mem (buf + i))"
    have IH: "fst (memrev_loop ?m buf n (i + 1)) x =
        (if buf + (i + 1) \<le> x \<and> x < buf + (n - (i + 1)) then ?m (buf + (n - 1 - (x - buf))) else ?m x) \<and>
      snd (memrev_loop ?m buf n (i + 1)) = n div 2"
      by (rule Suc.hyps) (use Suc.hyps(2) True in simp_all)
    have step: "memrev_loop mem buf n i = memrev_loop ?m buf n (i + 1)"
      using True by (subst memrev_loop.simps) simp
    consider "x = buf + i" | "x = buf + (n - i - 1)" | "buf + (i + 1) \<le> x \<and> x < buf + (n - (i + 1))"
      | "x < buf + i \<or> buf + (n - i) \<le> x"
      using True by linarith
    then show ?thesis
    proof cases
      case 1
      then show ?thesis using True IH step by auto
    next
      case 2
      then show ?thesis using True IH step by auto
    next
      case 3
      then have "n - 1 - (x - buf) \<noteq> i" "n - 1 - (x - buf) \<noteq> n - i - 1" using True by auto
      then show ?thesis using 3 IH step by auto
    next
      case 4
      then have ne: "x \<noteq> buf + i" "x \<noteq> buf + (n - i - 1)" using True by linarith+
      have out: "\<not> (buf + (i + 1) \<le> x \<and> x < buf + (n - (i + 1)))" "\<not> (buf + i \<le> x \<and> x < buf + (n - i))"
        using 4 by linarith+
      show ?thesis unfolding step using IH out ne by (simp only: if_False fun_upd_apply)
    qed
  qed (use Suc.hyps(2) in simp)
next
  case 0
  then have i: "i = n div 2" by simp
  then have "n - 1 - (x - buf) = x - buf" if "buf + i \<le> x" "x < buf + (n - i)"
    using that by linarith
  moreover have "memrev_loop mem buf n i = (mem, i)" using i by (subst memrev_loop.simps) simp
  ultimately show ?case using i by auto
qed

lemma memchr_eq:
  "memchr mem p c n = (if \<exists>i<n. mem (p + i) = c then Some (p + (LEAST i. mem (p + i) = c)) else None)"
proof (induction n arbitrary: p)
  case 0
  then show ?case by simp
next
  case (Suc n)
  have ex: "(\<exists>i<Suc n. mem (p + i) = c) \<longleftrightarrow> mem p = c \<or> (\<exists>i<n. mem (p + 1 + i) = c)"
    by (auto simp: less_Suc_eq_0_disj)
  show ?case
  proof (cases "mem p = c")
    case True
    then have "(LEAST i. mem (p + i) = c) = 0" by (intro Least_eq_0) simp
    then show ?thesis using True ex by simp
  next
    case False
    have "p + (LEAST i. mem (p + i) = c) = p + 1 + (LEAST i. mem (p + 1 + i) = c)"
      if "mem (p + 1 + i) = c" for i
      using Least_Suc [of "\<lambda>i. mem (p + i) = c" "Suc i"] that False by simp
    then show ?thesis using False ex Suc [of "p + 1"] by auto
  qed
qed

section \<open>Properties\<close>

text \<open>C33: \<^verbatim>\<open>memmove\<close> copies correctly whatever the overlap of source and destination: each destination byte
  is the byte the source held before the call, and every other byte is unchanged.\<close>

theorem memmove_correct:
  "memmove mem dest src n x = (if dest \<le> x \<and> x < dest + n then mem (src + (x - dest)) else mem x)"
proof -
  consider "src > dest" | "src < dest" | "src = dest" by linarith
  then show ?thesis
    by cases (auto simp: memmove_def memcpy_up memcpy_reverse_eq)
qed

text \<open>\<^verbatim>\<open>memcmp\<close> is zero exactly on equal ranges, \<^verbatim>\<open>memrev\<close> reverses a range in place and touches nothing
  else, and \<^verbatim>\<open>memset\<close> fills exactly its range.\<close>

theorem memory_primitives:
  "(memcmp mem p q n = 0 \<longleftrightarrow> (\<forall>i<n. mem (p + i) = mem (q + i))) \<and>
   fst (memrev mem p n) x = (if p \<le> x \<and> x < p + n then mem (p + (n - 1 - (x - p))) else mem x) \<and>
   memset mem p v n x = (if p \<le> x \<and> x < p + n then v else mem x)"
  using memcmp_0 [of mem p q n] memrev_loop_eq [of 0 n mem p x] memset_eq [of mem p v n x]
  by (simp add: memrev_def)

theorem memory_primitives_witness:
  "memcmp (\<lambda>a. of_nat a) 3 3 5 = 0 \<and> memset (\<lambda>a. 0) 4 7 2 5 = (7 :: byte)"
  using memory_primitives [of "\<lambda>a. of_nat a" 3 3 5] memory_primitives [of "\<lambda>a. 0" 4 0 2 5 7] by simp

end
