(* ===== verification/NumStr.thy ===== *)
theory NumStr
  imports StringSpec MemFns "HOL-Library.Signed_Division"
begin

text \<open>
  Numbers and strings, the rest of \<^verbatim>\<open>src/string.c\<close>: \<^verbatim>\<open>atoll\<close>, \<^verbatim>\<open>atoi\<close>, \<^verbatim>\<open>atoull\<close>, \<^verbatim>\<open>do_atoi\<close>, \<^verbatim>\<open>do_itoa\<close> and
  \<^verbatim>\<open>strrev\<close>.  The accumulators are 64-bit words, so that sums and products wrap around as the code's do.
\<close>

section \<open>The model\<close>

text \<open>The lookup tables \<^verbatim>\<open>map10\<close> and \<^verbatim>\<open>map16\<close>; \<open>None\<close> is -1.\<close>

definition map10 :: "byte \<Rightarrow> nat option" where
  "map10 b = (if 48 \<le> unat b \<and> unat b \<le> 57 then Some (unat b - 48) else None)"

definition map16 :: "byte \<Rightarrow> nat option" where
  "map16 b = (if 48 \<le> unat b \<and> unat b \<le> 57 then Some (unat b - 48)
     else if 65 \<le> unat b \<and> unat b \<le> 70 then Some (unat b - 55)
     else if 97 \<le> unat b \<and> unat b \<le> 102 then Some (unat b - 87)
     else None)"

fun skip_blanks :: "byte list \<Rightarrow> byte list" where
  "skip_blanks [] = []"
| "skip_blanks (b # bs) = (if b = 0x20 \<or> b = 0x09 then skip_blanks bs else b # bs)"

fun parse16 :: "64 word \<Rightarrow> byte list \<Rightarrow> 64 word" where
  "parse16 val [] = val"
| "parse16 val (b # bs) =
     (case map16 b of None \<Rightarrow> val | Some d \<Rightarrow> parse16 (push_bit 4 val + of_nat d) bs)"

fun parse10 :: "64 word \<Rightarrow> byte list \<Rightarrow> 64 word" where
  "parse10 val [] = val"
| "parse10 val (b # bs) =
     (case map10 b of None \<Rightarrow> val | Some d \<Rightarrow> parse10 (val * 10 + of_nat d) bs)"

definition atoll :: "byte list \<Rightarrow> int \<Rightarrow> 64 word" where
  "atoll s radix =
     (let p = skip_blanks s;
          neg = (radix = 10 \<and> peek p = 0x2d);
          p = (if radix = 10 then (if peek p = 0x2d \<or> peek p = 0x2b then tl p else p)
               else if radix = 16 then (if peek p = 0x26 then tl p else p)
               else p)
      in if radix = 16 then parse16 0 p
         else let val = parse10 0 p in if neg then - val else val)"

definition atoi :: "byte list \<Rightarrow> 32 word" where
  "atoi s = ucast (atoll s 10)"

definition atoull :: "byte list \<Rightarrow> 64 word" where
  "atoull s = atoll s 10"

definition alphabet :: "byte list" where
  "alphabet = map (\<lambda>i. of_nat (48 + i)) [0 ..< 10] @ map (\<lambda>i. of_nat (65 + i)) [0 ..< 26]"

text \<open>\<^verbatim>\<open>"\t\n\v\f\r +_"\<close>\<close>

definition ignored :: "byte list" where
  "ignored = [9, 10, 11, 12, 13, 32, 43, 95]"

text \<open>The loop of \<^verbatim>\<open>do_atoi\<close>: the value, and whether it has looped, seen a sign and succeeded.\<close>

fun atoi_loop :: "nat \<Rightarrow> byte list \<Rightarrow> 64 word \<Rightarrow> bool \<Rightarrow> bool \<Rightarrow> bool \<Rightarrow> 64 word \<times> bool \<times> bool \<times> bool" where
  "atoi_loop radix [] res looped sign succ = (res, looped, sign, succ)"
| "atoi_loop radix (c # cs) res looped sign succ =
     (if c = 0 then (res, looped, sign, succ)
      else if c = 0x2d then atoi_loop radix cs res looped True succ
      else if strchr ignored c \<noteq> None then atoi_loop radix cs res looped sign succ
      else (case strchr alphabet (toupper c) of
              None \<Rightarrow> (res, True, sign, succ)
            | Some pos \<Rightarrow>
                if pos \<ge> radix then (res, True, sign, succ)
                else atoi_loop radix cs (res * of_nat radix + of_nat pos) True sign True))"

text \<open>The return code and what is stored in \<^verbatim>\<open>*dst\<close>, if anything.\<close>

definition do_atoi :: "byte list \<Rightarrow> nat \<Rightarrow> int \<times> 64 word option" where
  "do_atoi target radix =
     (if radix < 2 \<or> radix > 36 then (-4, None)
      else case atoi_loop radix target 0 False False False of
             (res, looped, sign, succ) \<Rightarrow>
               (if \<not> succ then (if looped then -2 else -1) else 0, Some (if sign then - res else res)))"

definition strrev :: "byte list \<Rightarrow> byte list" where
  "strrev s = map (fst (memrev (\<lambda>a. s ! a) 0 (strlen s))) [0 ..< length s]"

text \<open>\<^verbatim>\<open>target = -target\<close> on an \<^verbatim>\<open>int64_t\<close>.\<close>

definition neg64 :: "int \<Rightarrow> int" where
  "neg64 t = (if t = - (2 ^ 63) then t else - t)"

text \<open>The digit loop of \<^verbatim>\<open>do_itoa\<close>, least significant digit first; \<open>None\<close> is a read before the start of the
  digit string.\<close>

function itoa_loop :: "int \<Rightarrow> int \<Rightarrow> byte list option" where
  "itoa_loop t radix =
     (if radix < 2 then None
      else let i = t smod radix; t' = t sdiv radix
           in if i < 0 then None
              else if t' \<noteq> 0 then map_option ((#) (alphabet ! nat i)) (itoa_loop t' radix)
              else Some [alphabet ! nat i])"
  by pat_completeness auto
termination
proof (relation "measure (\<lambda>(t, radix). nat \<bar>t\<bar>)", goal_cases)
  case (2 t radix i t')
  have "0 \<le> \<bar>t\<bar> div radix" using 2 by (simp add: pos_imp_zdiv_nonneg_iff)
  then have "\<bar>t'\<bar> = \<bar>t\<bar> div radix"
    using 2 by (auto simp: signed_divide_int_def abs_mult)
  moreover have "\<bar>t\<bar> div radix < \<bar>t\<bar>"
    using 2 by (intro int_div_less_self) (auto simp: signed_divide_int_def)
  ultimately show ?case using 2 by auto
qed simp

declare itoa_loop.simps [simp del]

text \<open>The return code and the string written to \<^verbatim>\<open>buf\<close>, which has to be large enough.\<close>

definition do_itoa :: "int \<Rightarrow> nat \<Rightarrow> (int \<times> byte list) option" where
  "do_itoa target radix =
     (if radix < 2 \<or> radix > 36 then Some (-1, [])
      else let t = (if target < 0 then neg64 target else target)
           in case itoa_loop t (int radix) of
                None \<Rightarrow> None
              | Some ds \<Rightarrow> Some (0, strrev (ds @ (if target < 0 then [0x2d] else []) @ [0])))"

section \<open>Digits\<close>

lemma strrev_eq: "strrev s = rev (cstr s) @ drop (strlen s) s"
proof (rule nth_equalityI)
  have l: "strlen s \<le> length s" using length_cstr [of s] by (simp add: strlen_def)
  then show "length (strrev s) = length (rev (cstr s) @ drop (strlen s) s)"
    by (simp add: strrev_def strlen_def)
  fix i assume i: "i < length (strrev s)"
  have "fst (memrev (\<lambda>a. s ! a) 0 (strlen s)) i = (if i < strlen s then s ! (strlen s - 1 - i) else s ! i)"
    using memrev_loop_eq [of 0 "strlen s" "\<lambda>a. s ! a" 0 i] by (simp add: memrev_def)
  moreover have "cstr s ! j = s ! j" if "j < strlen s" for j
    using that unfolding strlen_def cstr_def by (rule takeWhile_nth)
  ultimately show "strrev s ! i = (rev (cstr s) @ drop (strlen s) s) ! i"
    using i l by (auto simp: strrev_def nth_append rev_nth strlen_def)
qed

lemma alphabet_ok:
  "list_all (\<lambda>d. alphabet ! d \<noteq> 0 \<and> alphabet ! d \<noteq> 0x2d \<and> strchr ignored (alphabet ! d) = None \<and>
     strchr alphabet (toupper (alphabet ! d)) = Some d) [0 ..< 36]"
  by code_simp

lemma alphabetD:
  assumes "d < 36"
  shows "alphabet ! d \<noteq> 0" "alphabet ! d \<noteq> 0x2d" "strchr ignored (alphabet ! d) = None"
    "strchr alphabet (toupper (alphabet ! d)) = Some d"
  using alphabet_ok assms by (auto simp: list_all_iff)

lemma itoa_loop_digits:
  assumes "0 \<le> t" "2 \<le> radix"
  shows "\<exists>ds. itoa_loop t (int radix) = Some (map ((!) alphabet) ds) \<and> ds \<noteq> [] \<and>
    (\<forall>d\<in>set ds. d < radix) \<and> foldr (\<lambda>d acc. int d + int radix * acc) ds 0 = t"
  using assms
proof (induction t "int radix" rule: itoa_loop.induct)
  case (1 t)
  let ?r = "int radix"
  have sd: "t smod ?r = t mod ?r" "t sdiv ?r = t div ?r"
    using 1(2,3) by (cases "t = 0"; simp add: signed_divide_int_def signed_modulo_int_def)+
  have m: "0 \<le> t mod ?r" "nat (t mod ?r) < radix" using 1(3) by (auto simp: nat_less_iff)
  have nm: "\<not> t mod ?r < 0" using m(1) by linarith
  show ?case
  proof (cases "t div ?r = 0")
    case True
    then have "itoa_loop t ?r = Some (map ((!) alphabet) [nat (t mod ?r)])"
      using 1(3) nm by (subst itoa_loop.simps) (simp add: sd Let_def)
    moreover have "t mod ?r = t" using True div_mult_mod_eq [of t ?r] by simp
    ultimately show ?thesis using m by (intro exI [of _ "[nat (t mod ?r)]"]) simp
  next
    case False
    obtain ds where ds: "itoa_loop (t div ?r) ?r = Some (map ((!) alphabet) ds)" "\<forall>d\<in>set ds. d < radix"
      "foldr (\<lambda>d acc. int d + ?r * acc) ds 0 = t div ?r"
      using 1(1) [OF _ refl refl] 1(2,3) False m by (auto simp: sd pos_imp_zdiv_nonneg_iff)
    have "itoa_loop t ?r = Some (map ((!) alphabet) (nat (t mod ?r) # ds))"
      using 1(3) nm False ds(1) by (subst itoa_loop.simps) (simp add: sd Let_def)
    then show ?thesis
      using m ds(2,3) by (intro exI [of _ "nat (t mod ?r) # ds"]) simp
  qed
qed

lemma atoi_loop_digits:
  assumes "radix \<le> 36" "\<forall>d\<in>set ds. d < radix" "ds \<noteq> []"
  shows "atoi_loop radix (map ((!) alphabet) ds @ [0]) res l sg s =
    (fold (\<lambda>d acc. acc * of_nat radix + of_nat d) ds res, True, sg, True)"
  using assms(2,3)
proof (induction ds arbitrary: res l s)
  case Nil
  then show ?case by simp
next
  case (Cons d ds)
  have d: "d < 36" "\<not> radix \<le> d" using Cons.prems(1) assms(1) by auto
  show ?case
  proof (cases ds)
    case Nil
    then show ?thesis using alphabetD [OF d(1)] d(2) by simp
  next
    case (Cons e es)
    then show ?thesis using alphabetD [OF d(1)] d(2) Cons.IH Cons.prems(1) by simp
  qed
qed

lemma horner: "fold (\<lambda>d acc. acc * of_nat radix + of_nat d) (rev ds) 0 =
    (of_int (foldr (\<lambda>d acc. int d + int radix * acc) ds 0) :: 'a::comm_ring_1)"
  by (induction ds) (simp_all add: algebra_simps)

lemma cstr_digits:
  assumes "\<forall>d\<in>set ds. d < 36"
  shows "0 \<notin> set (map ((!) alphabet) ds)"
  using assms alphabetD(1) by fastforce

lemma do_itoa_string:
  assumes "2 \<le> radix" "radix \<le> 36" "- (2 ^ 63) < t"
  shows "\<exists>ds. do_itoa t radix = Some (0, (if t < 0 then [0x2d] else []) @ map ((!) alphabet) (rev ds) @ [0]) \<and>
    ds \<noteq> [] \<and> (\<forall>d\<in>set ds. d < radix) \<and> foldr (\<lambda>d acc. int d + int radix * acc) ds 0 = \<bar>t\<bar>"
proof -
  have t: "(if t < 0 then neg64 t else t) = \<bar>t\<bar>" using assms(3) by (simp add: neg64_def)
  obtain ds where ds: "itoa_loop \<bar>t\<bar> (int radix) = Some (map ((!) alphabet) ds)" "ds \<noteq> []"
    "\<forall>d\<in>set ds. d < radix" "foldr (\<lambda>d acc. int d + int radix * acc) ds 0 = \<bar>t\<bar>"
    using itoa_loop_digits [OF abs_ge_zero assms(1), of t] by blast
  let ?xs = "map ((!) alphabet) ds @ (if t < 0 then [0x2d] else [])"
  have "0 \<notin> set ?xs" using cstr_digits [of ds] ds(3) assms(2) by fastforce
  then have "cstr (?xs @ [0]) = ?xs" using cstr_append_0 [of ?xs "[]"] by simp
  then have "strrev (?xs @ [0]) = rev ?xs @ [0]" by (simp add: strrev_eq strlen_def)
  then have "strrev (map ((!) alphabet) ds @ (if t < 0 then [0x2d] else []) @ [0]) =
      (if t < 0 then [0x2d] else []) @ map ((!) alphabet) (rev ds) @ [0]"
    by (simp add: rev_map)
  then show ?thesis using ds t assms(1,2) by (intro exI [of _ ds]) (simp add: do_itoa_def Let_def)
qed

lemma unat_digit: "d < 10 \<Longrightarrow> unat (alphabet ! d) = 48 + d"
proof -
  assume "d < 10"
  then have "alphabet ! d = of_nat (48 + d)" by (simp add: alphabet_def nth_append)
  then show ?thesis using \<open>d < 10\<close> by (simp only: unat_of_nat) simp
qed

lemma parse10_digits:
  assumes "\<forall>d\<in>set ds. d < 10"
  shows "parse10 val (map ((!) alphabet) ds @ [0]) = fold (\<lambda>d acc. acc * of_nat 10 + of_nat d) ds val"
  using assms
proof (induction ds arbitrary: val)
  case Nil
  then show ?case by (simp add: map10_def)
next
  case (Cons d ds)
  have "map10 (alphabet ! d) = Some d"
    using Cons.prems unat_digit [of d] by (simp add: map10_def)
  then show ?case using Cons by simp
qed

lemma digit10_first:
  assumes "d < 10"
  shows "alphabet ! d \<noteq> 0x20" "alphabet ! d \<noteq> 0x09" "alphabet ! d \<noteq> 0x2d" "alphabet ! d \<noteq> 0x2b"
proof -
  note u = unat_digit [OF assms]
  show "alphabet ! d \<noteq> 0x20" "alphabet ! d \<noteq> 0x09" "alphabet ! d \<noteq> 0x2d" "alphabet ! d \<noteq> 0x2b"
    using u by auto
qed

section \<open>Properties\<close>

text \<open>C39: \<^verbatim>\<open>do_atoi\<close> reads back what \<^verbatim>\<open>do_itoa\<close> writes, in every radix from 2 to 36 and for every 64-bit value
  but the most negative one.\<close>

theorem itoa_atoi_roundtrip:
  assumes "2 \<le> radix" "radix \<le> 36" "- (2 ^ 63) < t"
  shows "\<exists>s. do_itoa t radix = Some (0, s) \<and> do_atoi s radix = (0, Some (word_of_int t))"
proof -
  obtain ds where ds:
    "do_itoa t radix = Some (0, (if t < 0 then [0x2d] else []) @ map ((!) alphabet) (rev ds) @ [0])"
    "ds \<noteq> []" "\<forall>d\<in>set ds. d < radix" "foldr (\<lambda>d acc. int d + int radix * acc) ds 0 = \<bar>t\<bar>"
    using do_itoa_string [OF assms] by blast
  have v: "fold (\<lambda>d acc. acc * of_nat radix + of_nat d) (rev ds) 0 = (word_of_int \<bar>t\<bar> :: 64 word)"
    unfolding horner ds(4) by simp
  have loop: "atoi_loop radix (map ((!) alphabet) (rev ds) @ [0]) 0 False sg False =
      (word_of_int \<bar>t\<bar>, True, sg, True)" for sg
    using atoi_loop_digits [OF assms(2), of "rev ds"] ds(2,3) v by simp
  show ?thesis
  proof (cases "t < 0")
    case True
    then show ?thesis using ds(1) loop [of True] assms(1,2) by (simp add: do_atoi_def)
  next
    case False
    then show ?thesis using ds(1) loop [of False] assms(1,2) by (simp add: do_atoi_def)
  qed
qed

theorem itoa_atoi_roundtrip_witness:
  "\<exists>s. do_itoa (-1234) 16 = Some (0, s) \<and> do_atoi s 16 = (0, Some (word_of_int (-1234)))"
  using itoa_atoi_roundtrip [of 16 "-1234"] by simp

text \<open>\<^verbatim>\<open>atoll\<close> in base 10 reads back the decimal string that \<^verbatim>\<open>do_itoa\<close> writes.\<close>

theorem itoa_atoll_roundtrip:
  assumes "- (2 ^ 63) < t"
  shows "\<exists>s. do_itoa t 10 = Some (0, s) \<and> atoll s 10 = word_of_int t"
proof -
  obtain ds where ds:
    "do_itoa t 10 = Some (0, (if t < 0 then [0x2d] else []) @ map ((!) alphabet) (rev ds) @ [0])"
    "ds \<noteq> []" "\<forall>d\<in>set ds. d < 10" "foldr (\<lambda>d acc. int d + int 10 * acc) ds 0 = \<bar>t\<bar>"
    using do_itoa_string [of 10 t] assms by auto
  have p: "parse10 0 (map ((!) alphabet) (rev ds) @ [0]) = word_of_int \<bar>t\<bar>"
    using parse10_digits [of "rev ds" 0] ds(3) horner [of 10 ds, where 'a = "64 word"] ds(4) by simp
  obtain d es where e: "rev ds = d # es" "d < 10"
    using ds(2,3) by (metis list.exhaust list.set_intros(1) rev_is_Nil_conv set_rev)
  show ?thesis
  proof (cases "t < 0")
    case True
    then show ?thesis using ds(1) p by (simp add: atoll_def Let_def peek_def)
  next
    case False
    then show ?thesis
      using ds(1) p e digit10_first [OF e(2)] by (simp add: atoll_def Let_def peek_def)
  qed
qed

theorem itoa_atoll_roundtrip_witness:
  "\<exists>s. do_itoa (-70) 10 = Some (0, s) \<and> atoll s 10 = word_of_int (-70)"
  using itoa_atoll_roundtrip [of "-70"] by simp

lemma itoa_loop_neg:
  assumes "t < 0" "2 \<le> radix"
  shows "itoa_loop t radix = None"
  using assms
proof (induction t radix rule: itoa_loop.induct)
  case (1 t radix)
  show ?case
  proof (cases "t smod radix < 0")
    case True
    then show ?thesis by (subst itoa_loop.simps) (simp add: Let_def)
  next
    case False
    have sd: "t sdiv radix = - ((- t) div radix)" "t smod radix = - ((- t) mod radix)"
      using 1(2,3) by (simp_all add: signed_divide_int_def signed_modulo_int_def)
    have "0 \<le> (- t) mod radix" using 1(3) by simp
    then have "(- t) mod radix = 0" using False sd(2) by linarith
    then have "radix * ((- t) div radix) = - t" using mult_div_mod_eq [of radix "- t"] by linarith
    then have "0 < (- t) div radix" using 1(2,3) by (metis neg_0_less_iff_less zero_less_mult_iff linorder_not_less order_trans zero_le_numeral)
    then have "t sdiv radix < 0" using sd(1) by simp
    then have "itoa_loop (t sdiv radix) radix = None"
      using 1(1) [OF _ refl refl] 1(3) False by auto
    then show ?thesis using 1(3) \<open>t sdiv radix < 0\<close> by (subst itoa_loop.simps) (simp add: Let_def)
  qed
qed

text \<open>For the most negative value \<^verbatim>\<open>do_itoa\<close> reads before the start of its digit string: negating the value
  leaves it negative, and so is its remainder.\<close>

theorem itoa_most_negative:
  "2 \<le> radix \<and> radix \<le> 36 \<longrightarrow> do_itoa (- (2 ^ 63)) radix = None"
  using itoa_loop_neg [of "- (2 ^ 63)" "int radix"] by (auto simp: do_itoa_def neg64_def Let_def)

theorem itoa_most_negative_witness: "do_itoa (- (2 ^ 63)) 10 = None"
  using itoa_most_negative [of 10] by simp

end
