(* ===== verification/StringArea.thy ===== *)
theory StringArea
  imports StringSpec
begin

text \<open>
  The string area of a BASIC context (\<^verbatim>\<open>gc_try_concat\<close>, \<^verbatim>\<open>gc_strdup_with_length\<close>,
  \<^verbatim>\<open>gc_from_tokenizer_string\<close> and \<^verbatim>\<open>gc\<close> in \<^verbatim>\<open>src/string.c\<close>): a block that temporary strings are bumped off, emptied
  between statements.  Pointers into the block are offsets.  A result \<open>None\<close> is an access outside the
  block; a \<^verbatim>\<open>NULL\<close> that the code returns is \<open>Some (None, ...)\<close>.
\<close>

section \<open>The model\<close>

record str_area =
  sa_storage :: "byte list"
  sa_size :: nat
  sa_next :: nat
  sa_errored :: bool
  sa_ended :: bool

text \<open>\<^verbatim>\<open>while (*s && *s != stop) { if (out >= end - 1) return NULL; *out++ = *s++; }\<close>: the storage, \<^verbatim>\<open>out\<close>, and
  the rest of the source, \<open>None\<close> for the early return.\<close>

fun put_chars :: "(byte \<Rightarrow> bool) \<Rightarrow> nat \<Rightarrow> byte list \<Rightarrow> byte list \<Rightarrow> nat \<Rightarrow> byte list \<times> nat \<times> byte list option" where
  "put_chars stop sz [] mem out = (mem, out, Some [])"
| "put_chars stop sz (c # cs) mem out =
     (if c = 0 \<or> stop c then (mem, out, Some (c # cs))
      else if out + 1 \<ge> sz then (mem, out, None)
      else put_chars stop sz cs (mem[out := c]) (out + 1))"

text \<open>\<^verbatim>\<open>*out = '\0'; ctx->string_gc_storage_next = out + 1; return dest;\<close>\<close>

definition finish_string :: "str_area \<Rightarrow> byte list \<Rightarrow> nat \<Rightarrow> (nat option \<times> str_area) option" where
  "finish_string a mem out =
     (case poke mem out 0 of
        None \<Rightarrow> None
      | Some mem1 \<Rightarrow> Some (Some (sa_next a), a\<lparr>sa_storage := mem1, sa_next := out + 1\<rparr>))"

definition gc_try_concat :: "str_area \<Rightarrow> byte list \<Rightarrow> byte list \<Rightarrow> (nat option \<times> str_area) option" where
  "gc_try_concat a s1 s2 =
     (case put_chars (\<lambda>_. False) (sa_size a) s1 (sa_storage a) (sa_next a) of
        (mem1, out1, None) \<Rightarrow> Some (None, a\<lparr>sa_storage := mem1\<rparr>)
      | (mem1, out1, Some _) \<Rightarrow>
          (case put_chars (\<lambda>_. False) (sa_size a) s2 mem1 out1 of
             (mem2, out2, None) \<Rightarrow> Some (None, a\<lparr>sa_storage := mem2\<rparr>)
           | (mem2, out2, Some _) \<Rightarrow> finish_string a mem2 out2))"

text \<open>The offset returned and \<^verbatim>\<open>*out_len\<close>.\<close>

definition gc_strdup_with_length :: "str_area \<Rightarrow> byte list \<Rightarrow> (nat \<times> nat \<times> str_area) option" where
  "gc_strdup_with_length a string =
     (if peek string = 0 then Some (0, 0, a)
      else let dest = sa_next a; remaining = sa_size a - dest
           in case strlcpy (drop dest (sa_storage a)) string remaining of
                None \<Rightarrow> None
              | Some (len, mem) \<Rightarrow>
                  let a1 = a\<lparr>sa_storage := take dest (sa_storage a) @ mem\<rparr>
                  in if len \<ge> remaining then Some (0, 0, a1\<lparr>sa_errored := True\<rparr>)
                     else Some (dest, len, a1\<lparr>sa_next := sa_next a + (len + 1)\<rparr>))"

definition gc_strdup :: "str_area \<Rightarrow> byte list \<Rightarrow> (nat \<times> str_area) option" where
  "gc_strdup a string = map_option (\<lambda>(p, len, a'). (p, a')) (gc_strdup_with_length a string)"

text \<open>\<open>text\<close> is the program from \<^verbatim>\<open>ctx->ptr\<close> on; the results are the offset, \<^verbatim>\<open>*out_len\<close>, the area and the text
  that is left.\<close>

definition gc_from_tokenizer_string ::
    "str_area \<Rightarrow> byte list \<Rightarrow> (nat option \<times> nat \<times> str_area \<times> byte list) option" where
  "gc_from_tokenizer_string a txt =
     (let txt1 = (if peek txt = 0x22 then tl txt else txt)
      in case put_chars (\<lambda>c. c = 0x22) (sa_size a) txt1 (sa_storage a) (sa_next a) of
           (mem, out, None) \<Rightarrow> Some (None, 0, a\<lparr>sa_storage := mem\<rparr>, drop (out - sa_next a) txt1)
         | (mem, out, Some rest) \<Rightarrow>
             (case finish_string a mem out of
                None \<Rightarrow> None
              | Some (p, a1) \<Rightarrow> Some (p, out - sa_next a, a1, if peek rest = 0x22 then tl rest else rest)))"

text \<open>\<open>grow n\<close> is the result of \<^verbatim>\<open>buddy_realloc\<close> of the storage to \<open>n\<close> bytes, \<open>None\<close> when memory is exhausted.\<close>

definition gc :: "(nat \<Rightarrow> byte list option) \<Rightarrow> str_area \<Rightarrow> str_area" where
  "gc grow a =
     (let a1 = (if sa_next a \<ge> sa_size a * 75 div 100 \<and> \<not> sa_errored a \<and> \<not> sa_ended a
                then (case grow (sa_size a * 2) of
                        None \<Rightarrow> a\<lparr>sa_errored := True\<rparr>
                      | Some st \<Rightarrow> a\<lparr>sa_storage := st[0 := 0], sa_size := sa_size a * 2\<rparr>)
                else a)
      in a1\<lparr>sa_next := 1\<rparr>)"

section \<open>Invariant\<close>

text \<open>The block has the size recorded, starts with the empty string, and the next free byte lies behind it.\<close>

definition area_ok :: "str_area \<Rightarrow> bool" where
  "area_ok a \<longleftrightarrow> length (sa_storage a) = sa_size a \<and> 1 \<le> sa_next a \<and> sa_next a \<le> sa_size a \<and>
     sa_storage a ! 0 = 0"

text \<open>Strings handed out before keep their bytes.\<close>

definition keeps :: "str_area \<Rightarrow> str_area \<Rightarrow> bool" where
  "keeps a a' \<longleftrightarrow> take (sa_next a) (sa_storage a') = take (sa_next a) (sa_storage a)"

definition area_string :: "str_area \<Rightarrow> nat \<Rightarrow> byte list" where
  "area_string a p = cstr (drop p (sa_storage a))"

lemma area_first:
  assumes "area_ok a" "keeps a a'" "length (sa_storage a') = length (sa_storage a)"
  shows "sa_storage a' ! 0 = 0"
  using assms unfolding area_ok_def keeps_def
  by (metis One_nat_def Suc_le_lessD nth_take)

text \<open>The copy loop: it stops early exactly when the characters and a terminator do not fit.\<close>

definition part :: "(byte \<Rightarrow> bool) \<Rightarrow> byte list \<Rightarrow> byte list" where
  "part stop s = takeWhile (\<lambda>c. c \<noteq> 0 \<and> \<not> stop c) s"

lemma put_chars_fit:
  assumes "out + length (part stop s) < sz \<or> part stop s = []" "sz \<le> length mem"
  shows "put_chars stop sz s mem out =
    (memcpy_at out (part stop s) mem, out + length (part stop s), Some (drop (length (part stop s)) s))"
  using assms
proof (induction s arbitrary: mem out)
  case Nil
  then show ?case by (simp add: part_def)
next
  case (Cons c cs)
  show ?case
  proof (cases "c = 0 \<or> stop c")
    case True
    then show ?thesis by (auto simp: part_def)
  next
    case False
    then have p: "part stop (c # cs) = c # part stop cs" by (simp add: part_def)
    then have lt: "out + 1 + length (part stop cs) < sz" "out < length mem" using Cons.prems by auto
    then have "put_chars stop sz cs (mem[out := c]) (out + 1) =
        (memcpy_at (out + 1) (part stop cs) (mem[out := c]), out + 1 + length (part stop cs),
         Some (drop (length (part stop cs)) cs))"
      using Cons.prems(2) by (intro Cons.IH) auto
    then show ?thesis using False lt p by (simp add: memcpy_at_Cons)
  qed
qed

lemma put_chars_full:
  assumes "sz \<le> out + length (part stop s)" "part stop s \<noteq> []" "out \<le> sz" "sz \<le> length mem"
  shows "\<exists>mem' out'. put_chars stop sz s mem out = (mem', out', None) \<and> length mem' = length mem \<and>
    take out mem' = take out mem"
  using assms
proof (induction s arbitrary: mem out)
  case Nil
  then show ?case by (simp add: part_def)
next
  case (Cons c cs)
  then have c: "\<not> (c = 0 \<or> stop c)" by (auto simp: part_def split: if_splits)
  then have p: "part stop (c # cs) = c # part stop cs" by (simp add: part_def)
  show ?case
  proof (cases "out + 1 \<ge> sz")
    case True
    then show ?thesis using c by simp
  next
    case False
    have ne: "part stop cs \<noteq> []" using Cons.prems(1) p False by auto
    obtain mem' out' where m: "put_chars stop sz cs (mem[out := c]) (out + 1) = (mem', out', None)"
      "length mem' = length mem" "take (out + 1) mem' = take (out + 1) (mem[out := c])"
      using Cons.IH [of "out + 1" "mem[out := c]"] Cons.prems p ne False by auto
    have "take out mem' = take out (take (out + 1) mem')" by simp
    also have "\<dots> = take out mem" unfolding m(3) by simp
    finally show ?thesis using c False m by simp
  qed
qed

lemma part_cstr: "part (\<lambda>_. False) s = cstr s"
  by (simp add: part_def cstr_def)

lemma part_nonzero: "0 \<notin> set (part stop s)"
  by (auto simp: part_def dest: set_takeWhileD)

lemma finish_ok:
  assumes "area_ok a" "0 \<notin> set xs" "sa_next a + length xs < sa_size a"
  shows "\<exists>a'. finish_string a (memcpy_at (sa_next a) xs (sa_storage a)) (sa_next a + length xs) = Some (Some (sa_next a), a') \<and>
    area_ok a' \<and> keeps a a' \<and> area_string a' (sa_next a) = xs \<and> sa_next a' = sa_next a + length xs + 1"
proof -
  let ?n = "sa_next a" and ?mem = "memcpy_at (sa_next a) xs (sa_storage a)"
  have l: "length (sa_storage a) = sa_size a" using assms(1) by (simp add: area_ok_def)
  have lm: "length ?mem = sa_size a" using assms(3) l by simp
  let ?st = "?mem[?n + length xs := 0]"
  let ?a = "a\<lparr>sa_storage := ?st, sa_next := ?n + length xs + 1\<rparr>"
  have e: "?st = take ?n (sa_storage a) @ xs @ 0 # drop (?n + length xs + 1) (sa_storage a)"
    using assms(3) l by (simp add: memcpy_at_def list_update_append Cons_nth_drop_Suc [symmetric])
  have "finish_string a ?mem (?n + length xs) = Some (Some ?n, ?a)"
    using lm assms(3) by (simp add: finish_string_def poke_def)
  moreover have k: "keeps a ?a" using e assms(3) l by (simp add: keeps_def)
  moreover have "area_ok ?a"
    using area_first [OF assms(1) k] lm l assms(1,3) by (simp add: area_ok_def)
  moreover have "area_string ?a ?n = xs"
    using e cstr_append_0 [OF assms(2)] assms(3) l by (simp add: area_string_def)
  ultimately show ?thesis by auto
qed

section \<open>Properties\<close>

text \<open>C40: \<^verbatim>\<open>gc_try_concat\<close>, with a byte of the area left, stays inside the area.  It returns the concatenation when
  that fits with its terminator, and \<^verbatim>\<open>NULL\<close> otherwise; every string handed out before keeps its bytes.\<close>

theorem gc_try_concat_correct:
  assumes "area_ok a" "sa_next a < sa_size a"
  shows "\<exists>r a'. gc_try_concat a s1 s2 = Some (r, a') \<and> area_ok a' \<and> keeps a a' \<and>
    (if sa_next a + strlen s1 + strlen s2 < sa_size a
     then r = Some (sa_next a) \<and> area_string a' (sa_next a) = cstr s1 @ cstr s2
     else r = None \<and> sa_next a' = sa_next a)"
proof -
  let ?n = "sa_next a" and ?sz = "sa_size a" and ?go = "\<lambda>_ :: byte. False"
  have l: "length (sa_storage a) = ?sz" "?n \<le> ?sz" using assms by (simp_all add: area_ok_def)
  have upd: "area_ok (a\<lparr>sa_storage := mem\<rparr>)" "keeps a (a\<lparr>sa_storage := mem\<rparr>)"
    if "length mem = ?sz" "take ?n mem = take ?n (sa_storage a)" for mem
  proof -
    show k: "keeps a (a\<lparr>sa_storage := mem\<rparr>)" using that by (simp add: keeps_def)
    show "area_ok (a\<lparr>sa_storage := mem\<rparr>)"
      using area_first [OF assms(1) k] that(1) l(1) assms by (simp add: area_ok_def)
  qed
  show ?thesis
  proof (cases "?n + strlen s1 < ?sz")
    case False
    then have "part ?go s1 \<noteq> []" "?sz \<le> ?n + length (part ?go s1)"
      using assms(2) by (auto simp: part_cstr strlen_def)
    then obtain mem' out' where "put_chars ?go ?sz s1 (sa_storage a) ?n = (mem', out', None)"
      "length mem' = ?sz" "take ?n mem' = take ?n (sa_storage a)"
      using put_chars_full [of ?sz ?n ?go s1 "sa_storage a"] l by auto
    then show ?thesis using upd [of mem'] False by (simp add: gc_try_concat_def)
  next
    case True
    let ?m1 = "memcpy_at ?n (cstr s1) (sa_storage a)"
    have p1: "put_chars ?go ?sz s1 (sa_storage a) ?n = (?m1, ?n + strlen s1, Some (drop (strlen s1) s1))"
      using put_chars_fit [of ?n ?go s1 ?sz "sa_storage a"] True l by (simp add: part_cstr strlen_def)
    have l1: "length ?m1 = ?sz" "take ?n ?m1 = take ?n (sa_storage a)"
      using True l by (auto simp: strlen_def memcpy_at_def)
    show ?thesis
    proof (cases "?n + strlen s1 + strlen s2 < ?sz")
      case fits: True
      have "put_chars ?go ?sz s2 ?m1 (?n + strlen s1) =
          (memcpy_at (?n + strlen s1) (cstr s2) ?m1, ?n + strlen s1 + strlen s2, Some (drop (strlen s2) s2))"
        using put_chars_fit [of "?n + strlen s1" ?go s2 ?sz ?m1] fits l1 by (simp add: part_cstr strlen_def)
      moreover have "memcpy_at (?n + strlen s1) (cstr s2) ?m1 = memcpy_at ?n (cstr s1 @ cstr s2) (sa_storage a)"
        using True l by (simp add: memcpy_at_def strlen_def ac_simps)
      moreover obtain a' where "finish_string a (memcpy_at ?n (cstr s1 @ cstr s2) (sa_storage a))
          (?n + length (cstr s1 @ cstr s2)) = Some (Some ?n, a')"
        "area_ok a'" "keeps a a'" "area_string a' ?n = cstr s1 @ cstr s2"
        using finish_ok [OF assms(1), of "cstr s1 @ cstr s2"] fits cstr_nonzero by (fastforce simp: strlen_def)
      ultimately show ?thesis using p1 fits by (simp add: gc_try_concat_def strlen_def add.assoc)
    next
      case False
      then have "part ?go s2 \<noteq> []" "?sz \<le> ?n + strlen s1 + length (part ?go s2)"
        using True by (auto simp: part_cstr strlen_def)
      then obtain mem' out' where m: "put_chars ?go ?sz s2 ?m1 (?n + strlen s1) = (mem', out', None)"
        "length mem' = ?sz" "take (?n + strlen s1) mem' = take (?n + strlen s1) ?m1"
        using put_chars_full [of ?sz "?n + strlen s1" ?go s2 ?m1] l1 True by auto
      have "take ?n mem' = take ?n (take (?n + strlen s1) mem')" by simp
      also have "\<dots> = take ?n (sa_storage a)" unfolding m(3) using l1(2) by simp
      finally show ?thesis using upd [of mem'] m p1 False by (simp add: gc_try_concat_def)
    qed
  qed
qed

definition demo_area :: str_area where
  "demo_area = \<lparr>sa_storage = replicate 16 0, sa_size = 16, sa_next = 1, sa_errored = False, sa_ended = False\<rparr>"

lemma demo_area_ok: "area_ok demo_area" "sa_next demo_area < sa_size demo_area"
  by (simp_all add: area_ok_def demo_area_def)

theorem gc_try_concat_correct_witness:
  "\<exists>a'. gc_try_concat demo_area [65, 66, 0] [67, 0] = Some (Some 1, a') \<and> area_string a' 1 = [65, 66, 67]"
proof -
  have "cstr [65, 66, 0] = [65, 66]" "cstr [67, 0] = [67]" "strlen [65, 66, 0] = 2" "strlen [67, 0] = 1"
    by (simp_all add: cstr_def strlen_def)
  then show ?thesis
    using gc_try_concat_correct [OF demo_area_ok, of "[65, 66, 0]" "[67, 0]"]
    by (auto simp: demo_area_def)
qed

text \<open>A full area.  When the last string filled the area exactly, the next free byte is its end, and
  \<^verbatim>\<open>gc_try_concat\<close> of two empty strings writes its terminator one byte behind the area.\<close>

theorem gc_try_concat_overrun:
  "\<exists>a s1. area_ok a \<and> (\<exists>a1 r. gc_try_concat a s1 [0] = Some (r, a1) \<and> area_ok a1 \<and>
     gc_try_concat a1 [0] [0] = None)"
proof (intro exI conjI)
  let ?a = "\<lparr>sa_storage = [0, 0, 0], sa_size = 3, sa_next = 1, sa_errored = False, sa_ended = False\<rparr>"
  let ?a1 = "\<lparr>sa_storage = [0, 65, 0], sa_size = 3, sa_next = 3, sa_errored = False, sa_ended = False\<rparr>"
  show "area_ok ?a" by (simp add: area_ok_def)
  show "gc_try_concat ?a [65, 0] [0] = Some (Some 1, ?a1)"
    by (simp add: gc_try_concat_def finish_string_def poke_def)
  show "area_ok ?a1" by (simp add: area_ok_def)
  show "gc_try_concat ?a1 [0] [0] = None" by (simp add: gc_try_concat_def finish_string_def poke_def)
qed

text \<open>\<^verbatim>\<open>gc_strdup_with_length\<close> stays inside the area.  A string that fits is copied with its length; one that
  does not raises the error and gives the empty string; earlier strings keep their bytes.\<close>

theorem gc_strdup_correct:
  assumes "area_ok a" "cstr s \<noteq> []"
  shows "\<exists>p len a'. gc_strdup_with_length a s = Some (p, len, a') \<and> area_ok a' \<and> keeps a a' \<and>
    (if sa_next a + strlen s < sa_size a
     then p = sa_next a \<and> len = strlen s \<and> area_string a' p = cstr s \<and> sa_errored a' = sa_errored a
     else p = 0 \<and> len = 0 \<and> area_string a' p = [] \<and> sa_errored a')"
proof -
  let ?n = "sa_next a" and ?sz = "sa_size a"
  let ?rem = "?sz - ?n"
  have l: "length (sa_storage a) = ?sz" "?n \<le> ?sz" "1 \<le> ?n" using assms(1) by (simp_all add: area_ok_def)
  obtain d where d: "strlcpy (drop ?n (sa_storage a)) s ?rem = Some (strlen s, d)" "length d = ?rem"
    "if ?rem = 0 then d = drop ?n (sa_storage a) else cstr d = take (?rem - 1) (cstr s)"
    using strlcpy_props [of ?rem "drop ?n (sa_storage a)" s] l by auto
  let ?a = "a\<lparr>sa_storage := take ?n (sa_storage a) @ d\<rparr>"
  have k: "keeps a ?a" using l by (simp add: keeps_def)
  have "?n + length d = ?sz" using l(2) d(2) by linarith
  then have len: "length (sa_storage ?a) = ?sz" using l(1,2) by simp
  have z: "sa_storage ?a ! 0 = 0" by (rule area_first [OF assms(1) k]) (simp only: len l)
  have e0: "area_string ?a 0 = []"
    using z len l by (cases "sa_storage ?a") (auto simp: area_string_def cstr_def)
  have pk: "peek s \<noteq> 0" using assms(2) peek_cstr by blast
  show ?thesis
  proof (cases "?n + strlen s < ?sz")
    case True
    have "area_string ?a ?n = cstr s"
      using d(3) l True by (auto simp: area_string_def strlen_def)
    then show ?thesis
      using True d(1) pk k z len l by (auto simp: gc_strdup_with_length_def Let_def area_ok_def keeps_def area_string_def)
  next
    case False
    then show ?thesis
      using d(1) pk k z len l e0 by (auto simp: gc_strdup_with_length_def Let_def area_ok_def keeps_def area_string_def)
  qed
qed

theorem gc_strdup_correct_witness:
  "\<exists>a'. gc_strdup_with_length demo_area [65, 66, 0] = Some (1, 2, a') \<and> area_string a' 1 = [65, 66]"
proof -
  have "cstr [65, 66, 0] = [65, 66]" "strlen [65, 66, 0] = 2" by (simp_all add: cstr_def strlen_def)
  then show ?thesis
    using gc_strdup_correct [OF demo_area_ok(1), of "[65, 66, 0]"] by (auto simp: demo_area_def)
qed

text \<open>\<^verbatim>\<open>gc_from_tokenizer_string\<close> reads a quoted literal: when it fits, the area gets exactly the bytes between
  the quotes, the length returned is theirs, and the program text goes on behind the closing quote.\<close>

theorem gc_from_tokenizer_string_correct:
  assumes "area_ok a" "0x22 \<notin> set body" "0 \<notin> set body" "sa_next a + length body < sa_size a"
  shows "\<exists>a'. gc_from_tokenizer_string a (0x22 # body @ 0x22 # rest) =
      Some (Some (sa_next a), length body, a', rest) \<and>
    area_ok a' \<and> keeps a a' \<and> area_string a' (sa_next a) = body"
proof -
  have p: "part (\<lambda>c. c = 0x22) (body @ 0x22 # rest) = body"
    using assms(2,3) by (induction body) (auto simp: part_def)
  have "put_chars (\<lambda>c. c = 0x22) (sa_size a) (body @ 0x22 # rest) (sa_storage a) (sa_next a) =
      (memcpy_at (sa_next a) body (sa_storage a), sa_next a + length body, Some (0x22 # rest))"
    using put_chars_fit [of "sa_next a" "\<lambda>c. c = 0x22" "body @ 0x22 # rest" "sa_size a" "sa_storage a"] p assms(1,4)
    by (simp add: area_ok_def)
  then show ?thesis
    using finish_ok [OF assms(1,3,4)] by (auto simp: gc_from_tokenizer_string_def Let_def peek_def)
qed

theorem gc_from_tokenizer_string_correct_witness:
  "\<exists>a'. gc_from_tokenizer_string demo_area (0x22 # [72, 105] @ 0x22 # [58]) = Some (Some 1, 2, a', [58]) \<and>
     area_string a' 1 = [72, 105]"
  using gc_from_tokenizer_string_correct [OF demo_area_ok(1), of "[72, 105]" "[58]"]
  by (auto simp: demo_area_def)

text \<open>\<^verbatim>\<open>gc\<close> gives back all temporary strings and keeps the area well-formed, whether it grows the area, fails
  to grow it or leaves it alone.\<close>

theorem gc_resets:
  assumes "area_ok a" "\<forall>st. grow (sa_size a * 2) = Some st \<longrightarrow> length st = sa_size a * 2"
  shows "area_ok (gc grow a) \<and> sa_next (gc grow a) = 1 \<and> sa_size a \<le> sa_size (gc grow a)"
  using assms by (auto simp: gc_def Let_def area_ok_def split: option.splits)

theorem gc_resets_witness:
  "area_ok (gc (\<lambda>n. Some (replicate n 7)) demo_area)"
  using gc_resets [OF demo_area_ok(1), of "\<lambda>n. Some (replicate n 7)"] by simp

end
