(* ===== verification/RbMap.thy ===== *)
theory RbMap
  imports Vector "HOL-Library.Monad_Syntax"
begin

text \<open>
  The ordered map of \<^verbatim>\<open>src/containers/map.c\<close>: a red-black tree kept as a structure of arrays.  A node
  is an index; its key, value, links and colour are the elements at that index of six vectors
  (theory \<open>Vector\<close>), and a seventh vector holds the indices that erasures have freed.

  Each C statement that reads or writes a vector is one line of a definition.  The result \<open>None\<close>
  is an access outside a vector's block, undefined in C, or a loop that never ends; a definition
  that returns \<open>Some\<close> therefore both terminates and stays inside its blocks.  The comparator, a
  function pointer in C, is the field \<open>m_cmp\<close>.  The heap may answer every request differently:
  \<open>hp j\<close> is the heap at the \<open>j\<close>-th allocation of the operation.
\<close>

section \<open>Data\<close>

record map_soa =
  s_keys :: vector
  s_vals :: vector
  s_left :: vector
  s_right :: vector
  s_parent :: vector
  s_colour :: vector

type_synonym keycmp = "nat \<Rightarrow> nat \<Rightarrow> int"

record rbmap =
  m_a :: map_soa
  m_free :: vector
  m_root :: nat
  m_count :: nat
  m_cmp :: keycmp

datatype iter_state = ITER_OK | ITER_END | ITER_BEFORE_BEGIN

text \<open>An iterator; its owner is the map passed beside it.\<close>

record map_iter =
  it_i :: nat
  it_state :: iter_state

definition NIL :: nat where
  "NIL = W64 - 1"

definition RB_RED :: int where
  "RB_RED = 0"

definition RB_BLACK :: int where
  "RB_BLACK = 1"

section \<open>Reading and writing the arrays\<close>

text \<open>The conversion of a stored word to \<^verbatim>\<open>int\<close> keeps its low 32 bits, as a signed number.\<close>

definition int_of_word :: "nat \<Rightarrow> int" where
  "int_of_word x = (let y = int (x mod 2 ^ 32) in if y < 2 ^ 31 then y else y - 2 ^ 32)"

definition rd_colour :: "rbmap \<Rightarrow> nat \<Rightarrow> int option" where
  "rd_colour m i = map_option int_of_word (vector_get (s_colour (m_a m)) i)"

definition wr_colour :: "rbmap \<Rightarrow> nat \<Rightarrow> int \<Rightarrow> rbmap option" where
  "wr_colour m i colour =
     do { v \<leftarrow> vector_set (s_colour (m_a m)) i (nat (colour mod int W64));
          Some (m\<lparr>m_a := (m_a m)\<lparr>s_colour := v\<rparr>\<rparr>) }"

definition rd_left :: "rbmap \<Rightarrow> nat \<Rightarrow> nat option" where
  "rd_left m i = vector_get (s_left (m_a m)) i"

definition wr_left :: "rbmap \<Rightarrow> nat \<Rightarrow> nat \<Rightarrow> rbmap option" where
  "wr_left m i x =
     do { v \<leftarrow> vector_set (s_left (m_a m)) i x; Some (m\<lparr>m_a := (m_a m)\<lparr>s_left := v\<rparr>\<rparr>) }"

definition rd_right :: "rbmap \<Rightarrow> nat \<Rightarrow> nat option" where
  "rd_right m i = vector_get (s_right (m_a m)) i"

definition wr_right :: "rbmap \<Rightarrow> nat \<Rightarrow> nat \<Rightarrow> rbmap option" where
  "wr_right m i x =
     do { v \<leftarrow> vector_set (s_right (m_a m)) i x; Some (m\<lparr>m_a := (m_a m)\<lparr>s_right := v\<rparr>\<rparr>) }"

definition rd_parent :: "rbmap \<Rightarrow> nat \<Rightarrow> nat option" where
  "rd_parent m i = vector_get (s_parent (m_a m)) i"

definition wr_parent :: "rbmap \<Rightarrow> nat \<Rightarrow> nat \<Rightarrow> rbmap option" where
  "wr_parent m i x =
     do { v \<leftarrow> vector_set (s_parent (m_a m)) i x; Some (m\<lparr>m_a := (m_a m)\<lparr>s_parent := v\<rparr>\<rparr>) }"

definition rd_key :: "rbmap \<Rightarrow> nat \<Rightarrow> nat option" where
  "rd_key m i = vector_get (s_keys (m_a m)) i"

definition wr_key :: "rbmap \<Rightarrow> nat \<Rightarrow> nat \<Rightarrow> rbmap option" where
  "wr_key m i x =
     do { v \<leftarrow> vector_set (s_keys (m_a m)) i x; Some (m\<lparr>m_a := (m_a m)\<lparr>s_keys := v\<rparr>\<rparr>) }"

definition rd_val :: "rbmap \<Rightarrow> nat \<Rightarrow> nat option" where
  "rd_val m i = vector_get (s_vals (m_a m)) i"

definition wr_val :: "rbmap \<Rightarrow> nat \<Rightarrow> nat \<Rightarrow> rbmap option" where
  "wr_val m i x =
     do { v \<leftarrow> vector_set (s_vals (m_a m)) i x; Some (m\<lparr>m_a := (m_a m)\<lparr>s_vals := v\<rparr>\<rparr>) }"

section \<open>Blank slots\<close>

text \<open>The six pushes in the order of the code: a failed push leaves the earlier vectors longer.\<close>

definition soa_push_blank :: "(nat \<Rightarrow> heap) \<Rightarrow> map_soa \<Rightarrow> (int \<times> map_soa) option" where
  "soa_push_blank hp a = do {
     (rc, v) \<leftarrow> vector_push (hp 0) (s_keys a) 0;
     let a = a\<lparr>s_keys := v\<rparr>;
     if rc \<noteq> 0 then Some (-1, a) else do {
     (rc, v) \<leftarrow> vector_push (hp 1) (s_vals a) 0;
     let a = a\<lparr>s_vals := v\<rparr>;
     if rc \<noteq> 0 then Some (-1, a) else do {
     (rc, v) \<leftarrow> vector_push (hp 2) (s_left a) NIL;
     let a = a\<lparr>s_left := v\<rparr>;
     if rc \<noteq> 0 then Some (-1, a) else do {
     (rc, v) \<leftarrow> vector_push (hp 3) (s_right a) NIL;
     let a = a\<lparr>s_right := v\<rparr>;
     if rc \<noteq> 0 then Some (-1, a) else do {
     (rc, v) \<leftarrow> vector_push (hp 4) (s_parent a) NIL;
     let a = a\<lparr>s_parent := v\<rparr>;
     if rc \<noteq> 0 then Some (-1, a) else do {
     (rc, v) \<leftarrow> vector_push (hp 5) (s_colour a) 0;
     let a = a\<lparr>s_colour := v\<rparr>;
     if rc \<noteq> 0 then Some (-1, a) else Some (0, a) }}}}}}"

definition soa_size :: "map_soa \<Rightarrow> nat" where
  "soa_size a = vector_size (s_keys a)"

section \<open>Creation and destruction\<close>

text \<open>\<^verbatim>\<open>map_create\<close> ignores the results of \<^verbatim>\<open>vector_init\<close>; \<open>got\<close> tells whether the structure itself
  could be allocated.\<close>

definition map_create :: "bool \<Rightarrow> (nat \<Rightarrow> heap) \<Rightarrow> keycmp option \<Rightarrow> rbmap option" where
  "map_create got hp cmp = (case cmp of None \<Rightarrow> None | Some c \<Rightarrow>
     if \<not> got then None
     else Some \<lparr>m_a = \<lparr>s_keys = snd (vector_init (hp 0) 64), s_vals = snd (vector_init (hp 1) 64),
                        s_left = snd (vector_init (hp 2) 64), s_right = snd (vector_init (hp 3) 64),
                        s_parent = snd (vector_init (hp 4) 64), s_colour = snd (vector_init (hp 5) 64)\<rparr>,
                m_free = snd (vector_init (hp 6) 32), m_root = NIL, m_count = 0, m_cmp = c\<rparr>)"

definition soa_free :: "map_soa \<Rightarrow> map_soa" where
  "soa_free a = \<lparr>s_keys = vector_free (s_keys a), s_vals = vector_free (s_vals a),
     s_left = vector_free (s_left a), s_right = vector_free (s_right a),
     s_parent = vector_free (s_parent a), s_colour = vector_free (s_colour a)\<rparr>"

text \<open>What \<^verbatim>\<open>map_destroy\<close> leaves in the structure just before it releases it.\<close>

definition map_destroy :: "rbmap \<Rightarrow> rbmap" where
  "map_destroy m = m\<lparr>m_a := soa_free (m_a m), m_free := vector_free (m_free m)\<rparr>"

definition map_clear :: "rbmap \<Rightarrow> rbmap" where
  "map_clear m = m\<lparr>
     m_a := \<lparr>s_keys = vector_clear (s_keys (m_a m)), s_vals = vector_clear (s_vals (m_a m)),
             s_left = vector_clear (s_left (m_a m)), s_right = vector_clear (s_right (m_a m)),
             s_parent = vector_clear (s_parent (m_a m)), s_colour = vector_clear (s_colour (m_a m))\<rparr>,
     m_free := vector_clear (m_free m), m_root := NIL, m_count := 0\<rparr>"

definition map_size :: "rbmap option \<Rightarrow> nat" where
  "map_size mp = (case mp of None \<Rightarrow> 0 | Some m \<Rightarrow> m_count m)"

section \<open>Nodes\<close>

definition node_init :: "rbmap \<Rightarrow> nat \<Rightarrow> nat \<Rightarrow> nat \<Rightarrow> nat \<Rightarrow> rbmap option" where
  "node_init m i key val parent = do {
     m \<leftarrow> wr_key m i key;
     m \<leftarrow> wr_val m i val;
     m \<leftarrow> wr_left m i NIL;
     m \<leftarrow> wr_right m i NIL;
     m \<leftarrow> wr_parent m i parent;
     wr_colour m i RB_RED }"

text \<open>The index is returned beside the state; \<open>None\<close> is the result -1, out of memory.\<close>

definition node_new ::
  "(nat \<Rightarrow> heap) \<Rightarrow> rbmap \<Rightarrow> nat \<Rightarrow> nat \<Rightarrow> nat \<Rightarrow> (nat option \<times> rbmap) option" where
  "node_new hp m key val parent =
     (if vector_size (m_free m) \<noteq> 0 then do {
        (i, fv) \<leftarrow> vector_pop (m_free m);
        m \<leftarrow> node_init (m\<lparr>m_free := fv\<rparr>) i key val parent;
        Some (Some i, m) }
      else do {
        (rc, a) \<leftarrow> soa_push_blank hp (m_a m);
        let m = m\<lparr>m_a := a\<rparr>;
        if rc \<noteq> 0 then Some (None, m)
        else do {
          let i = sub64 (soa_size (m_a m)) 1;
          m \<leftarrow> node_init m i key val parent;
          Some (Some i, m) }})"

definition node_recycle :: "heap \<Rightarrow> rbmap \<Rightarrow> nat \<Rightarrow> rbmap option" where
  "node_recycle km m i = do { (_, v) \<leftarrow> vector_push km (m_free m) i; Some (m\<lparr>m_free := v\<rparr>) }"

definition colour_of :: "rbmap \<Rightarrow> nat \<Rightarrow> int option" where
  "colour_of m i = (if i = NIL then Some RB_BLACK else rd_colour m i)"

partial_function (option) minimum_node :: "rbmap \<Rightarrow> nat \<Rightarrow> nat option" where
  "minimum_node m cur =
     (if cur = NIL then Some cur
      else do { l \<leftarrow> rd_left m cur; if l = NIL then Some cur else minimum_node m l })"

partial_function (option) maximum_node :: "rbmap \<Rightarrow> nat \<Rightarrow> nat option" where
  "maximum_node m cur =
     (if cur = NIL then Some cur
      else do { r \<leftarrow> rd_right m cur; if r = NIL then Some cur else maximum_node m r })"

partial_function (option) succ_climb :: "rbmap \<Rightarrow> nat \<Rightarrow> nat \<Rightarrow> nat option" where
  "succ_climb m cur p =
     (if p = NIL then Some p
      else do { r \<leftarrow> rd_right m p;
                if cur = r then do { pp \<leftarrow> rd_parent m p; succ_climb m p pp } else Some p })"

definition successor :: "rbmap \<Rightarrow> nat \<Rightarrow> nat option" where
  "successor m i =
     (if i = NIL then Some NIL
      else do { r \<leftarrow> rd_right m i;
                if r \<noteq> NIL then minimum_node m r
                else do { p \<leftarrow> rd_parent m i; succ_climb m i p } })"

partial_function (option) pred_climb :: "rbmap \<Rightarrow> nat \<Rightarrow> nat \<Rightarrow> nat option" where
  "pred_climb m cur p =
     (if p = NIL then Some p
      else do { l \<leftarrow> rd_left m p;
                if cur = l then do { pp \<leftarrow> rd_parent m p; pred_climb m p pp } else Some p })"

definition predecessor :: "rbmap \<Rightarrow> nat \<Rightarrow> nat option" where
  "predecessor m i =
     (if i = NIL then Some NIL
      else do { l \<leftarrow> rd_left m i;
                if l \<noteq> NIL then maximum_node m l
                else do { p \<leftarrow> rd_parent m i; pred_climb m i p } })"

section \<open>Rotations\<close>

definition rotate_left :: "rbmap \<Rightarrow> nat \<Rightarrow> rbmap option" where
  "rotate_left m x = do {
     y \<leftarrow> rd_right m x;
     yl \<leftarrow> rd_left m y;
     m \<leftarrow> wr_right m x yl;
     xr \<leftarrow> rd_right m x;
     m \<leftarrow> (if xr \<noteq> NIL then wr_parent m xr x else Some m);
     xp \<leftarrow> rd_parent m x;
     m \<leftarrow> wr_parent m y xp;
     xp \<leftarrow> rd_parent m x;
     m \<leftarrow> (if xp = NIL then Some (m\<lparr>m_root := y\<rparr>)
           else do { l \<leftarrow> rd_left m xp; if x = l then wr_left m xp y else wr_right m xp y });
     m \<leftarrow> wr_left m y x;
     wr_parent m x y }"

definition rotate_right :: "rbmap \<Rightarrow> nat \<Rightarrow> rbmap option" where
  "rotate_right m x = do {
     y \<leftarrow> rd_left m x;
     yr \<leftarrow> rd_right m y;
     m \<leftarrow> wr_left m x yr;
     xl \<leftarrow> rd_left m x;
     m \<leftarrow> (if xl \<noteq> NIL then wr_parent m xl x else Some m);
     xp \<leftarrow> rd_parent m x;
     m \<leftarrow> wr_parent m y xp;
     xp \<leftarrow> rd_parent m x;
     m \<leftarrow> (if xp = NIL then Some (m\<lparr>m_root := y\<rparr>)
           else do { r \<leftarrow> rd_right m xp; if x = r then wr_right m xp y else wr_left m xp y });
     m \<leftarrow> wr_right m y x;
     wr_parent m x y }"

section \<open>Insertion\<close>

partial_function (option) insert_fixup_loop :: "rbmap \<Rightarrow> nat \<Rightarrow> rbmap option" where
  "insert_fixup_loop m z = do {
     p \<leftarrow> rd_parent m z;
     pc \<leftarrow> (if p \<noteq> NIL then colour_of m p else Some RB_BLACK);
     if p \<noteq> NIL \<and> pc = RB_RED then do {
       gp \<leftarrow> rd_parent m p;
       gl \<leftarrow> rd_left m gp;
       if p = gl then do {
         u \<leftarrow> rd_right m gp;
         uc \<leftarrow> colour_of m u;
         if uc = RB_RED then do {
           m \<leftarrow> wr_colour m p RB_BLACK;
           m \<leftarrow> wr_colour m u RB_BLACK;
           m \<leftarrow> wr_colour m gp RB_RED;
           insert_fixup_loop m gp }
         else do {
           pr \<leftarrow> rd_right m p;
           (m, z) \<leftarrow> (if z = pr then do { m \<leftarrow> rotate_left m p; Some (m, p) } else Some (m, z));
           zp \<leftarrow> rd_parent m z;
           m \<leftarrow> wr_colour m zp RB_BLACK;
           m \<leftarrow> wr_colour m gp RB_RED;
           m \<leftarrow> rotate_right m gp;
           insert_fixup_loop m z }}
       else do {
         u \<leftarrow> rd_left m gp;
         uc \<leftarrow> colour_of m u;
         if uc = RB_RED then do {
           m \<leftarrow> wr_colour m p RB_BLACK;
           m \<leftarrow> wr_colour m u RB_BLACK;
           m \<leftarrow> wr_colour m gp RB_RED;
           insert_fixup_loop m gp }
         else do {
           pl \<leftarrow> rd_left m p;
           (m, z) \<leftarrow> (if z = pl then do { m \<leftarrow> rotate_right m p; Some (m, p) } else Some (m, z));
           zp \<leftarrow> rd_parent m z;
           m \<leftarrow> wr_colour m zp RB_BLACK;
           m \<leftarrow> wr_colour m gp RB_RED;
           m \<leftarrow> rotate_left m gp;
           insert_fixup_loop m z }}}
     else Some m }"

definition insert_fixup :: "rbmap \<Rightarrow> nat \<Rightarrow> rbmap option" where
  "insert_fixup m z = do {
     m \<leftarrow> insert_fixup_loop m z;
     if m_root m \<noteq> NIL then wr_colour m (m_root m) RB_BLACK else Some m }"

section \<open>Erasure\<close>

definition transplant :: "rbmap \<Rightarrow> nat \<Rightarrow> nat \<Rightarrow> rbmap option" where
  "transplant m u v = do {
     up \<leftarrow> rd_parent m u;
     m \<leftarrow> (if up = NIL then Some (m\<lparr>m_root := v\<rparr>)
           else do { l \<leftarrow> rd_left m up; if u = l then wr_left m up v else wr_right m up v });
     if v \<noteq> NIL then wr_parent m v up else Some m }"

partial_function (option) erase_fixup_loop :: "rbmap \<Rightarrow> nat \<Rightarrow> nat \<Rightarrow> (rbmap \<times> nat) option" where
  "erase_fixup_loop m x xp = do {
     xc \<leftarrow> colour_of m x;
     if (x = NIL \<or> xc = RB_BLACK) \<and> x \<noteq> m_root m then do {
       isl \<leftarrow> (if xp \<noteq> NIL then do { l \<leftarrow> rd_left m xp; Some (x = l) } else Some False);
       if isl then do {
         w \<leftarrow> rd_right m xp;
         wc \<leftarrow> colour_of m w;
         (m, w) \<leftarrow> (if wc = RB_RED then do {
             m \<leftarrow> wr_colour m w RB_BLACK;
             m \<leftarrow> wr_colour m xp RB_RED;
             m \<leftarrow> rotate_left m xp;
             w \<leftarrow> rd_right m xp;
             Some (m, w) }
           else Some (m, w));
         wl \<leftarrow> rd_left m w;
         wlc \<leftarrow> colour_of m wl;
         wr \<leftarrow> (if wlc = RB_BLACK then rd_right m w else Some NIL);
         wrc \<leftarrow> colour_of m wr;
         if wlc = RB_BLACK \<and> wrc = RB_BLACK then do {
           m \<leftarrow> (if w \<noteq> NIL then wr_colour m w RB_RED else Some m);
           xpp \<leftarrow> rd_parent m xp;
           erase_fixup_loop m xp xpp }
         else do {
           wr \<leftarrow> rd_right m w;
           wrc \<leftarrow> colour_of m wr;
           (m, w) \<leftarrow> (if wrc = RB_BLACK then do {
               wl \<leftarrow> rd_left m w;
               m \<leftarrow> (if wl \<noteq> NIL then wr_colour m wl RB_BLACK else Some m);
               m \<leftarrow> (if w \<noteq> NIL then wr_colour m w RB_RED else Some m);
               m \<leftarrow> rotate_right m w;
               w \<leftarrow> rd_right m xp;
               Some (m, w) }
             else Some (m, w));
           m \<leftarrow> (if w \<noteq> NIL then do { c \<leftarrow> rd_colour m xp; wr_colour m w c } else Some m);
           m \<leftarrow> wr_colour m xp RB_BLACK;
           wr \<leftarrow> (if w \<noteq> NIL then rd_right m w else Some NIL);
           m \<leftarrow> (if wr \<noteq> NIL then wr_colour m wr RB_BLACK else Some m);
           m \<leftarrow> rotate_left m xp;
           erase_fixup_loop m (m_root m) NIL }}
       else do {
         w \<leftarrow> (if xp \<noteq> NIL then rd_left m xp else Some NIL);
         wc \<leftarrow> colour_of m w;
         (m, w) \<leftarrow> (if wc = RB_RED then do {
             m \<leftarrow> wr_colour m w RB_BLACK;
             m \<leftarrow> (if xp \<noteq> NIL then do { m \<leftarrow> wr_colour m xp RB_RED; rotate_right m xp } else Some m);
             w \<leftarrow> (if xp \<noteq> NIL then rd_left m xp else Some NIL);
             Some (m, w) }
           else Some (m, w));
         wr \<leftarrow> rd_right m w;
         wrc \<leftarrow> colour_of m wr;
         wl \<leftarrow> (if wrc = RB_BLACK then rd_left m w else Some NIL);
         wlc \<leftarrow> colour_of m wl;
         if wrc = RB_BLACK \<and> wlc = RB_BLACK then do {
           m \<leftarrow> (if w \<noteq> NIL then wr_colour m w RB_RED else Some m);
           xpp \<leftarrow> (if xp \<noteq> NIL then rd_parent m xp else Some NIL);
           erase_fixup_loop m xp xpp }
         else do {
           wl \<leftarrow> rd_left m w;
           wlc \<leftarrow> colour_of m wl;
           (m, w) \<leftarrow> (if wlc = RB_BLACK then do {
               wr \<leftarrow> rd_right m w;
               m \<leftarrow> (if wr \<noteq> NIL then wr_colour m wr RB_BLACK else Some m);
               m \<leftarrow> (if w \<noteq> NIL then wr_colour m w RB_RED else Some m);
               m \<leftarrow> rotate_left m w;
               w \<leftarrow> (if xp \<noteq> NIL then rd_left m xp else Some NIL);
               Some (m, w) }
             else Some (m, w));
           m \<leftarrow> (if w \<noteq> NIL then do { c \<leftarrow> rd_colour m xp; wr_colour m w c } else Some m);
           m \<leftarrow> (if xp \<noteq> NIL then wr_colour m xp RB_BLACK else Some m);
           wl \<leftarrow> (if w \<noteq> NIL then rd_left m w else Some NIL);
           m \<leftarrow> (if wl \<noteq> NIL then wr_colour m wl RB_BLACK else Some m);
           m \<leftarrow> (if xp \<noteq> NIL then rotate_right m xp else Some m);
           erase_fixup_loop m (m_root m) NIL }}}
     else Some (m, x) }"

definition erase_fixup :: "rbmap \<Rightarrow> nat \<Rightarrow> nat \<Rightarrow> rbmap option" where
  "erase_fixup m x xp = do {
     (m, x) \<leftarrow> erase_fixup_loop m x xp;
     if x \<noteq> NIL then wr_colour m x RB_BLACK else Some m }"

section \<open>The operations\<close>

partial_function (option) find_loop :: "rbmap \<Rightarrow> nat \<Rightarrow> nat \<Rightarrow> nat option" where
  "find_loop m key cur =
     (if cur = NIL then Some NIL
      else do {
        k \<leftarrow> rd_key m cur;
        let c = m_cmp m key k;
        if c = 0 then Some cur
        else if c < 0 then do { l \<leftarrow> rd_left m cur; find_loop m key l }
        else do { r \<leftarrow> rd_right m cur; find_loop m key r } })"

definition find_index :: "rbmap \<Rightarrow> nat \<Rightarrow> nat option" where
  "find_index m key = find_loop m key (m_root m)"

text \<open>The descent of the two insertions: the node with the key (\<open>Inl\<close>) or the parent of the new
  node (\<open>Inr\<close>).\<close>

partial_function (option) descend :: "rbmap \<Rightarrow> nat \<Rightarrow> nat \<Rightarrow> nat \<Rightarrow> (nat + nat) option" where
  "descend m key parent cur =
     (if cur = NIL then Some (Inr parent)
      else do {
        k \<leftarrow> rd_key m cur;
        let c = m_cmp m key k;
        if c = 0 then Some (Inl cur)
        else if c < 0 then do { l \<leftarrow> rd_left m cur; descend m key cur l }
        else do { r \<leftarrow> rd_right m cur; descend m key cur r } })"

text \<open>The common tail of \<^verbatim>\<open>map_insert\<close> and \<^verbatim>\<open>map_insert_or_assign\<close>.\<close>

definition insert_at :: "(nat \<Rightarrow> heap) \<Rightarrow> rbmap \<Rightarrow> nat \<Rightarrow> nat \<Rightarrow> nat \<Rightarrow> (int \<times> rbmap) option" where
  "insert_at hp m key val parent = do {
     (zo, m) \<leftarrow> node_new hp m key val parent;
     case zo of None \<Rightarrow> Some (-1, m)
     | Some z \<Rightarrow> do {
         m \<leftarrow> (if parent = NIL then Some (m\<lparr>m_root := z\<rparr>)
               else do { k \<leftarrow> rd_key m parent;
                         if m_cmp m key k < 0 then wr_left m parent z else wr_right m parent z });
         m \<leftarrow> insert_fixup m z;
         Some (1, m\<lparr>m_count := add64 (m_count m) 1\<rparr>) }}"

definition map_insert :: "(nat \<Rightarrow> heap) \<Rightarrow> rbmap \<Rightarrow> nat \<Rightarrow> nat \<Rightarrow> (int \<times> rbmap) option" where
  "map_insert hp m key val = do {
     d \<leftarrow> descend m key NIL (m_root m);
     case d of Inl _ \<Rightarrow> Some (0, m) | Inr parent \<Rightarrow> insert_at hp m key val parent }"

definition map_insert_or_assign ::
  "(nat \<Rightarrow> heap) \<Rightarrow> rbmap \<Rightarrow> nat \<Rightarrow> nat \<Rightarrow> (int \<times> rbmap) option" where
  "map_insert_or_assign hp m key val = do {
     d \<leftarrow> descend m key NIL (m_root m);
     case d of Inl cur \<Rightarrow> do { m \<leftarrow> wr_val m cur val; Some (0, m) }
     | Inr parent \<Rightarrow> insert_at hp m key val parent }"

definition map_find :: "rbmap \<Rightarrow> nat \<Rightarrow> (int \<times> nat option) option" where
  "map_find m key = do {
     i \<leftarrow> find_index m key;
     if i = NIL then Some (0, None) else do { v \<leftarrow> rd_val m i; Some (1, Some v) } }"

text \<open>\<^verbatim>\<open>map_find_ref\<close> returns the address of element \<open>i\<close> of the values, here the index \<open>i\<close>.\<close>

definition map_find_ref :: "rbmap \<Rightarrow> nat \<Rightarrow> nat option option" where
  "map_find_ref m key = do {
     i \<leftarrow> find_index m key;
     if i = NIL then Some None else Some (Some i) }"

definition map_erase :: "heap \<Rightarrow> rbmap \<Rightarrow> nat \<Rightarrow> (int \<times> rbmap) option" where
  "map_erase km m key = do {
     z \<leftarrow> find_index m key;
     if z = NIL then Some (0, m)
     else do {
       yc \<leftarrow> rd_colour m z;
       zl \<leftarrow> rd_left m z;
       (m, yc, x, xp) \<leftarrow> (if zl = NIL then do {
           x \<leftarrow> rd_right m z;
           xp \<leftarrow> rd_parent m z;
           zr \<leftarrow> rd_right m z;
           m \<leftarrow> transplant m z zr;
           Some (m, yc, x, xp) }
         else do {
           zr \<leftarrow> rd_right m z;
           if zr = NIL then do {
             x \<leftarrow> rd_left m z;
             xp \<leftarrow> rd_parent m z;
             zl \<leftarrow> rd_left m z;
             m \<leftarrow> transplant m z zl;
             Some (m, yc, x, xp) }
           else do {
             y \<leftarrow> minimum_node m zr;
             yc \<leftarrow> rd_colour m y;
             x \<leftarrow> rd_right m y;
             yp \<leftarrow> rd_parent m y;
             (m, xp) \<leftarrow> (if yp = z then Some (m, y)
               else do {
                 xp \<leftarrow> rd_parent m y;
                 yr \<leftarrow> rd_right m y;
                 m \<leftarrow> transplant m y yr;
                 zr \<leftarrow> rd_right m z;
                 m \<leftarrow> wr_right m y zr;
                 yr \<leftarrow> rd_right m y;
                 m \<leftarrow> wr_parent m yr y;
                 Some (m, xp) });
             m \<leftarrow> transplant m z y;
             zl \<leftarrow> rd_left m z;
             m \<leftarrow> wr_left m y zl;
             yl \<leftarrow> rd_left m y;
             m \<leftarrow> wr_parent m yl y;
             zc \<leftarrow> rd_colour m z;
             m \<leftarrow> wr_colour m y zc;
             Some (m, yc, x, xp) }});
       m \<leftarrow> node_recycle km m z;
       let m = m\<lparr>m_count := sub64 (m_count m) 1\<rparr>;
       m \<leftarrow> (if yc = RB_BLACK then erase_fixup m x xp else Some m);
       m \<leftarrow> (if m_root m \<noteq> NIL then wr_colour m (m_root m) RB_BLACK else Some m);
       Some (1, m) }}"

section \<open>Bounds and iterators\<close>

partial_function (option) lower_loop :: "rbmap \<Rightarrow> nat \<Rightarrow> nat \<Rightarrow> nat \<Rightarrow> nat option" where
  "lower_loop m key best cur =
     (if cur = NIL then Some best
      else do {
        k \<leftarrow> rd_key m cur;
        if m_cmp m k key < 0 then do { r \<leftarrow> rd_right m cur; lower_loop m key best r }
        else do { l \<leftarrow> rd_left m cur; lower_loop m key cur l } })"

partial_function (option) upper_loop :: "rbmap \<Rightarrow> nat \<Rightarrow> nat \<Rightarrow> nat \<Rightarrow> nat option" where
  "upper_loop m key best cur =
     (if cur = NIL then Some best
      else do {
        k \<leftarrow> rd_key m cur;
        if m_cmp m k key \<le> 0 then do { r \<leftarrow> rd_right m cur; upper_loop m key best r }
        else do { l \<leftarrow> rd_left m cur; upper_loop m key cur l } })"

definition bound_iter :: "nat \<Rightarrow> int \<times> map_iter" where
  "bound_iter best = (if best \<noteq> NIL then 1 else 0,
     \<lparr>it_i = best, it_state = (if best = NIL then ITER_END else ITER_OK)\<rparr>)"

definition map_lower_bound :: "rbmap \<Rightarrow> nat \<Rightarrow> (int \<times> map_iter) option" where
  "map_lower_bound m key = map_option bound_iter (lower_loop m key NIL (m_root m))"

definition map_upper_bound :: "rbmap \<Rightarrow> nat \<Rightarrow> (int \<times> map_iter) option" where
  "map_upper_bound m key = map_option bound_iter (upper_loop m key NIL (m_root m))"

definition map_begin :: "rbmap \<Rightarrow> (int \<times> map_iter) option" where
  "map_begin m =
     (if m_root m = NIL then Some (0, \<lparr>it_i = NIL, it_state = ITER_END\<rparr>)
      else do { i \<leftarrow> minimum_node m (m_root m); Some (1, \<lparr>it_i = i, it_state = ITER_OK\<rparr>) })"

definition map_end :: "map_iter" where
  "map_end = \<lparr>it_i = NIL, it_state = ITER_END\<rparr>"

definition map_next :: "rbmap \<Rightarrow> map_iter \<Rightarrow> (int \<times> map_iter) option" where
  "map_next m it = (case it_state it of
     ITER_END \<Rightarrow> Some (0, it)
   | ITER_BEFORE_BEGIN \<Rightarrow>
       if m_root m = NIL then Some (0, \<lparr>it_i = NIL, it_state = ITER_END\<rparr>)
       else do { i \<leftarrow> minimum_node m (m_root m); Some (1, \<lparr>it_i = i, it_state = ITER_OK\<rparr>) }
   | ITER_OK \<Rightarrow> do {
       nxt \<leftarrow> successor m (it_i it);
       if nxt = NIL then Some (0, \<lparr>it_i = NIL, it_state = ITER_END\<rparr>)
       else Some (1, \<lparr>it_i = nxt, it_state = ITER_OK\<rparr>) })"

definition map_prev :: "rbmap \<Rightarrow> map_iter \<Rightarrow> (int \<times> map_iter) option" where
  "map_prev m it = (case it_state it of
     ITER_BEFORE_BEGIN \<Rightarrow> Some (0, it)
   | ITER_END \<Rightarrow>
       if m_root m = NIL then Some (0, it)
       else do { i \<leftarrow> maximum_node m (m_root m); Some (1, \<lparr>it_i = i, it_state = ITER_OK\<rparr>) }
   | ITER_OK \<Rightarrow> do {
       prv \<leftarrow> predecessor m (it_i it);
       if prv = NIL then Some (0, \<lparr>it_i = NIL, it_state = ITER_BEFORE_BEGIN\<rparr>)
       else Some (1, \<lparr>it_i = prv, it_state = ITER_OK\<rparr>) })"

definition map_iter_key :: "rbmap \<Rightarrow> map_iter \<Rightarrow> nat option" where
  "map_iter_key m it = rd_key m (it_i it)"

definition map_iter_value :: "rbmap \<Rightarrow> map_iter \<Rightarrow> nat option" where
  "map_iter_value m it = rd_val m (it_i it)"

text \<open>Two iterators of the same map.\<close>

definition map_iter_equal :: "map_iter \<Rightarrow> map_iter \<Rightarrow> bool" where
  "map_iter_equal a b =
     (if it_state a \<noteq> it_state b then False
      else if it_state a \<noteq> ITER_OK then True
      else it_i a = it_i b)"

definition map_cmp_u64 :: keycmp where
  "map_cmp_u64 a b = (if a < b then -1 else if a > b then 1 else 0)"

end
