(* ===== verification/RbTree.thy ===== *)
theory RbTree
  imports Main
begin

text \<open>
  The abstract counterpart of the ordered map's arrays: trees of node indices with colours, and
  the path from a node up to the root.  The two repair loops of \<^verbatim>\<open>src/containers/map.c\<close>, which climb
  the path, are functions on a subtree and the path above it; here they are shown to keep the
  order of the nodes and to restore the red-black conditions.
\<close>

named_theorems rb_tree_simps \<open>colours, painting and black heights of trees of nodes\<close>

datatype colour = Red | Black

datatype ntree = Lf | Nd ntree nat colour ntree

text \<open>One step of the path to the root: the hole is the left or the right child of a node.\<close>

datatype frame = FL nat colour ntree | FR ntree nat colour

fun plug :: "ntree \<Rightarrow> frame list \<Rightarrow> ntree" where
  "plug t [] = t"
| "plug t (FL i c r # k) = plug (Nd t i c r) k"
| "plug t (FR l i c # k) = plug (Nd l i c t) k"

primrec ino :: "ntree \<Rightarrow> nat list" where
  "ino Lf = []"
| "ino (Nd l i c r) = ino l @ i # ino r"

fun kl :: "frame list \<Rightarrow> nat list" where
  "kl [] = []"
| "kl (FL i c r # k) = kl k"
| "kl (FR l i c # k) = kl k @ ino l @ [i]"

fun kr :: "frame list \<Rightarrow> nat list" where
  "kr [] = []"
| "kr (FL i c r # k) = i # ino r @ kr k"
| "kr (FR l i c # k) = kr k"

lemma ino_plug [simp]: "ino (plug t k) = kl k @ ino t @ kr k"
  by (induction t k rule: plug.induct) auto

fun tcol :: "ntree \<Rightarrow> colour" where
  "tcol Lf = Black"
| "tcol (Nd l i c r) = c"

fun paint :: "colour \<Rightarrow> ntree \<Rightarrow> ntree" where
  "paint c Lf = Lf"
| "paint c (Nd l i d r) = Nd l i c r"

fun pcol :: "frame list \<Rightarrow> colour" where
  "pcol [] = Black"
| "pcol (FL i c r # k) = c"
| "pcol (FR l i c # k) = c"

lemma ino_paint [simp]: "ino (paint c t) = ino t"
  by (cases t) auto

lemma plug_append [simp]: "plug t (k1 @ k2) = plug (plug t k1) k2"
  by (induction t k1 rule: plug.induct) auto

lemma kl_append [simp]: "kl (k1 @ k2) = kl k2 @ kl k1"
  by (induction k1 rule: kl.induct) auto

lemma kr_append [simp]: "kr (k1 @ k2) = kr k1 @ kr k2"
  by (induction k1 rule: kr.induct) auto

section \<open>The red-black conditions\<close>

text \<open>\<open>rb h t\<close>: every path of \<open>t\<close> has \<open>h\<close> black nodes and no red node has a red child.\<close>

fun rb :: "nat \<Rightarrow> ntree \<Rightarrow> bool" where
  "rb h Lf = (h = 0)"
| "rb h (Nd l i Red r) = (tcol l = Black \<and> tcol r = Black \<and> rb h l \<and> rb h r)"
| "rb 0 (Nd l i Black r) = False"
| "rb (Suc h) (Nd l i Black r) = (rb h l \<and> rb h r)"

definition rb_valid :: "ntree \<Rightarrow> bool" where
  "rb_valid t \<longleftrightarrow> tcol t = Black \<and> (\<exists>h. rb h t)"

text \<open>\<open>rbk h k\<close>: plugging a black-rooted tree of black height \<open>h\<close> into \<open>k\<close> gives a valid tree.\<close>

fun rbk :: "nat \<Rightarrow> frame list \<Rightarrow> bool" where
  "rbk h [] = True"
| "rbk h (FL i Red r # k) = (k \<noteq> [] \<and> pcol k = Black \<and> tcol r = Black \<and> rb h r \<and> rbk h k)"
| "rbk h (FL i Black r # k) = (rb h r \<and> rbk (Suc h) k)"
| "rbk h (FR l i Red # k) = (k \<noteq> [] \<and> pcol k = Black \<and> tcol l = Black \<and> rb h l \<and> rbk h k)"
| "rbk h (FR l i Black # k) = (rb h l \<and> rbk (Suc h) k)"

lemma not_Black [simp]: "c \<noteq> Black \<longleftrightarrow> c = Red"
  by (cases c) auto

lemma not_Red [simp]: "c \<noteq> Red \<longleftrightarrow> c = Black"
  by (cases c) auto

lemma rb_Black: "rb h (Nd l i Black r) \<longleftrightarrow> (\<exists>g. h = Suc g \<and> rb g l \<and> rb g r)"
  by (cases h) auto

lemma rb_paint_Black: "rb h t \<Longrightarrow> tcol t = Red \<Longrightarrow> rb (Suc h) (paint Black t)"
  by (cases t) auto

lemma tcol_paint [simp]: "t \<noteq> Lf \<Longrightarrow> tcol (paint c t) = c"
  by (cases t) auto

lemma tcol_Red_Nd: "tcol t = Red \<Longrightarrow> \<exists>l i r. t = Nd l i Red r"
  by (cases t) auto

lemma tcol_paint_Black [simp]: "tcol (paint Black t) = Black"
  by (cases t) auto

lemma paint_Black_id: "tcol t = Black \<Longrightarrow> paint Black t = t"
  by (cases t) auto

lemma rb_plug:
  "\<lbrakk>rb h t; rbk h k; tcol t = Red \<Longrightarrow> k \<noteq> [] \<and> pcol k = Black\<rbrakk> \<Longrightarrow> rb_valid (plug t k)"
proof (induction t k arbitrary: h rule: plug.induct)
  case (1 t)
  then show ?case by (cases "tcol t") (auto simp: rb_valid_def)
next
  case (2 t i c r k)
  show ?case
  proof (cases c)
    case Red
    then have "rb h (Nd t i c r)" using 2(2-4) by (cases "tcol t") auto
    moreover have "k \<noteq> []" "pcol k = Black" "rbk h k" using 2(3) Red by auto
    ultimately show ?thesis using 2(1) [of h] by simp
  next
    case Black
    then show ?thesis using 2(1) [of "Suc h"] 2(2-4) by simp
  qed
next
  case (3 t l i c k)
  show ?case
  proof (cases c)
    case Red
    then have "rb h (Nd l i c t)" using 3(2-4) by (cases "tcol t") auto
    moreover have "k \<noteq> []" "pcol k = Black" "rbk h k" using 3(3) Red by auto
    ultimately show ?thesis using 3(1) [of h] by simp
  next
    case Black
    then show ?thesis using 3(1) [of "Suc h"] 3(2-4) by simp
  qed
qed

lemma rb_unplug:
  "rb_valid (plug t k) \<Longrightarrow>
   \<exists>h. rb h t \<and> rbk h k \<and> (tcol t = Red \<longrightarrow> k \<noteq> [] \<and> pcol k = Black)"
proof (induction t k rule: plug.induct)
  case (1 t)
  then show ?case by (auto simp: rb_valid_def)
next
  case (2 t i c r k)
  then obtain h where h: "rb h (Nd t i c r)" "rbk h k"
    "tcol (Nd t i c r) = Red \<longrightarrow> k \<noteq> [] \<and> pcol k = Black"
    by auto
  then show ?case by (cases c) (auto simp: rb_Black)
next
  case (3 t l i c k)
  then obtain h where h: "rb h (Nd l i c t)" "rbk h k"
    "tcol (Nd l i c t) = Red \<longrightarrow> k \<noteq> [] \<and> pcol k = Black"
    by auto
  then show ?case by (cases c) (auto simp: rb_Black)
qed

section \<open>Repair after an insertion\<close>

text \<open>\<open>ins_fix t k\<close> is the tree that \<^verbatim>\<open>insert_fixup\<close>'s loop leaves when it starts at the root of \<open>t\<close>
  with the path \<open>k\<close> above it.\<close>

fun ins_fix :: "ntree \<Rightarrow> frame list \<Rightarrow> ntree" where
  "ins_fix t (FL p Red s # FL g gc u # k) =
     (if tcol u = Red then ins_fix (Nd (Nd t p Black s) g Red (paint Black u)) k
      else plug (Nd t p Black (Nd s g Red u)) k)"
| "ins_fix (Nd a z zc b) (FR s p Red # FL g gc u # k) =
     (if tcol u = Red then ins_fix (Nd (Nd s p Black (Nd a z zc b)) g Red (paint Black u)) k
      else plug (Nd (Nd s p Red a) z Black (Nd b g Red u)) k)"
| "ins_fix t (FR s p Red # FR u g gc # k) =
     (if tcol u = Red then ins_fix (Nd (paint Black u) g Red (Nd s p Black t)) k
      else plug (Nd (Nd u g Red s) p Black t) k)"
| "ins_fix (Nd a z zc b) (FL p Red s # FR u g gc # k) =
     (if tcol u = Red then ins_fix (Nd (paint Black u) g Red (Nd (Nd a z zc b) p Black s)) k
      else plug (Nd (Nd u g Red a) z Black (Nd b p Red s)) k)"
| "ins_fix t k = plug t k"

lemma ino_ins_fix [simp]: "ino (ins_fix t k) = ino (plug t k)"
  by (induction t k rule: ins_fix.induct) auto

text \<open>Painting the root black afterwards restores all the conditions.\<close>

lemma rb_valid_paint: "rb h t \<Longrightarrow> rb_valid (paint Black t)"
  using rb_paint_Black [of h t] paint_Black_id [of t] by (cases "tcol t") (auto simp: rb_valid_def)

lemma rb_valid_paint_valid: "rb_valid t \<Longrightarrow> rb_valid (paint Black t)"
  by (auto simp: rb_valid_def paint_Black_id)

lemma rbk_singleton: "rbk h [f] \<Longrightarrow> pcol [f] = Black"
  by (cases f rule: frame.exhaust; cases "pcol [f]") auto

lemma ins_fix_stop:
  assumes "rb h t" "rbk h (f # k)" "pcol (f # k) = Black"
  shows "rb_valid (paint Black (plug t (f # k)))"
  using assms by (intro rb_valid_paint_valid rb_plug [of h]) auto

lemma ins_fix_valid:
  "\<lbrakk>rb h t; tcol t = Red; rbk h k\<rbrakk> \<Longrightarrow> rb_valid (paint Black (ins_fix t k))"
proof (induction t k arbitrary: h rule: ins_fix.induct)
  case (1 t p s g gc u k)
  have gc: "gc = Black" using 1(4) by simp
  show ?case
  proof (cases "tcol u")
    case Red
    then show ?thesis using 1(1) [of "Suc h"] 1(2-4) gc by (simp add: rb_paint_Black)
  next
    case Black
    then have "rb_valid (plug (Nd t p Black (Nd s g Red u)) k)"
      using 1(2-4) gc by (intro rb_plug [of "Suc h"]) auto
    then show ?thesis using Black by (simp add: rb_valid_paint_valid)
  qed
next
  case (2 a z zc b s p g gc u k)
  have gc: "gc = Black" using 2(4) by simp
  show ?case
  proof (cases "tcol u")
    case Red
    then show ?thesis using 2(1) [of "Suc h"] 2(2-4) gc by (simp add: rb_paint_Black)
  next
    case Black
    then have "rb_valid (plug (Nd (Nd s p Red a) z Black (Nd b g Red u)) k)"
      using 2(2-4) gc by (intro rb_plug [of "Suc h"]) auto
    then show ?thesis using Black by (simp add: rb_valid_paint_valid)
  qed
next
  case (3 t s p u g gc k)
  have gc: "gc = Black" using 3(4) by simp
  show ?case
  proof (cases "tcol u")
    case Red
    then show ?thesis using 3(1) [of "Suc h"] 3(2-4) gc by (simp add: rb_paint_Black)
  next
    case Black
    then have "rb_valid (plug (Nd (Nd u g Red s) p Black t) k)"
      using 3(2-4) gc by (intro rb_plug [of "Suc h"]) auto
    then show ?thesis using Black by (simp add: rb_valid_paint_valid)
  qed
next
  case (4 a z zc b p s u g gc k)
  have gc: "gc = Black" using 4(4) by simp
  show ?case
  proof (cases "tcol u")
    case Red
    then show ?thesis using 4(1) [of "Suc h"] 4(2-4) gc by (simp add: rb_paint_Black)
  next
    case Black
    then have "rb_valid (plug (Nd (Nd u g Red a) z Black (Nd b p Red s)) k)"
      using 4(2-4) gc by (intro rb_plug [of "Suc h"]) auto
    then show ?thesis using Black by (simp add: rb_valid_paint_valid)
  qed
qed (auto intro!: ins_fix_stop dest: rbk_singleton simp del: plug.simps(2,3) simp: rb_valid_paint)

section \<open>Repair after an erasure\<close>

text \<open>The step at a node \<open>p\<close> of colour \<open>c\<close> whose left child \<open>t\<close> lacks one black node and whose right
  child \<open>w\<close> is black.  The flag tells that the resulting tree still lacks one.\<close>

fun delL :: "ntree \<Rightarrow> nat \<Rightarrow> colour \<Rightarrow> ntree \<Rightarrow> ntree \<times> bool" where
  "delL t p c (Nd wl w wc wr) =
     (if tcol wl = Black \<and> tcol wr = Black then (Nd t p c (Nd wl w Red wr), True)
      else if tcol wr = Black then
        (case wl of Nd a v vc b \<Rightarrow> (Nd (Nd t p Black a) v c (Nd b w Black wr), False)
         | Lf \<Rightarrow> (Lf, False))
      else (Nd (Nd t p Black wl) w c (paint Black wr), False))"
| "delL t p c Lf = (Nd t p c Lf, True)"

fun delR :: "ntree \<Rightarrow> nat \<Rightarrow> colour \<Rightarrow> ntree \<Rightarrow> ntree \<times> bool" where
  "delR (Nd wl w wc wr) p c t =
     (if tcol wr = Black \<and> tcol wl = Black then (Nd (Nd wl w Red wr) p c t, True)
      else if tcol wl = Black then
        (case wr of Nd a v vc b \<Rightarrow> (Nd (Nd wl w Black a) v c (Nd b p Black t), False)
         | Lf \<Rightarrow> (Lf, False))
      else (Nd (paint Black wl) w c (Nd wr p Black t), False))"
| "delR Lf p c t = (Nd Lf p c t, True)"

definition settle :: "ntree \<times> bool \<Rightarrow> ntree" where
  "settle r = (if snd r then paint Black (fst r) else fst r)"

fun del_fix :: "ntree \<Rightarrow> frame list \<Rightarrow> ntree" where
  "del_fix t [] = paint Black t"
| "del_fix t (FL p c w # k) =
     (if tcol t = Red then plug (paint Black t) (FL p c w # k)
      else case w of
        Nd wl wi Red wr \<Rightarrow> plug (settle (delL t p Red wl)) (FL wi Black wr # k)
      | _ \<Rightarrow> (case delL t p c w of (t', d) \<Rightarrow> if d then del_fix t' k else plug t' k))"
| "del_fix t (FR w p c # k) =
     (if tcol t = Red then plug (paint Black t) (FR w p c # k)
      else case w of
        Nd wl wi Red wr \<Rightarrow> plug (settle (delR wr p Red t)) (FR wl wi Black # k)
      | _ \<Rightarrow> (case delR w p c t of (t', d) \<Rightarrow> if d then del_fix t' k else plug t' k))"

text \<open>A tree that lacks one black node, and its height once the lack is made up.\<close>

definition lacks :: "nat \<Rightarrow> ntree \<Rightarrow> bool" where
  "lacks h t \<longleftrightarrow> (if tcol t = Red then rb (Suc h) (paint Black t) else rb h t)"

definition hgt :: "colour \<Rightarrow> nat \<Rightarrow> nat" where
  "hgt c h = (if c = Black then Suc h else h)"

lemma delL_rb:
  assumes "rb h t" "tcol t = Black" "rb (Suc h) w" "tcol w = Black" "delL t p c w = (t', d)"
  shows "tcol t' = c \<and> t' \<noteq> Lf \<and> ino t' = ino t @ p # ino w \<and>
    (if d then rb (Suc h) (paint Black t') else rb (hgt c (Suc h)) t') \<and> (d \<and> c = Black \<longrightarrow> rb (Suc h) t')"
proof (cases w)
  case (Nd wl i wc wr)
  then have "wc = Black" using assms(4) by simp
  then show ?thesis
    using Nd assms by (cases wl; cases c) (auto simp: hgt_def rb_paint_Black split: if_splits dest: tcol_Red_Nd)
qed (use assms in simp)

lemma delR_rb:
  assumes "rb h t" "tcol t = Black" "rb (Suc h) w" "tcol w = Black" "delR w p c t = (t', d)"
  shows "tcol t' = c \<and> t' \<noteq> Lf \<and> ino t' = ino w @ p # ino t \<and>
    (if d then rb (Suc h) (paint Black t') else rb (hgt c (Suc h)) t') \<and> (d \<and> c = Black \<longrightarrow> rb (Suc h) t')"
proof (cases w)
  case (Nd wl i wc wr)
  then have "wc = Black" using assms(4) by simp
  then show ?thesis
    using Nd assms by (cases wr; cases c) (auto simp: hgt_def rb_paint_Black split: if_splits dest: tcol_Red_Nd)
qed (use assms in simp)

lemma rbk_FL: "rbk h (FL i c r # k) \<longleftrightarrow>
    rb h r \<and> rbk (hgt c h) k \<and> (c = Red \<longrightarrow> k \<noteq> [] \<and> pcol k = Black \<and> tcol r = Black)"
  by (cases c) (auto simp: hgt_def)

lemma rbk_FR: "rbk h (FR l i c # k) \<longleftrightarrow>
    rb h l \<and> rbk (hgt c h) k \<and> (c = Red \<longrightarrow> k \<noteq> [] \<and> pcol k = Black \<and> tcol l = Black)"
  by (cases c) (auto simp: hgt_def)

lemma settle_rb:
  assumes "tcol (fst r) = Red \<and> fst r \<noteq> Lf \<and>
    (if snd r then rb (Suc h) (paint Black (fst r)) else rb (Suc h) (fst r))"
  shows "rb (Suc h) (settle r)"
  using assms by (auto simp: settle_def)

lemma hgt_Suc: "hgt c (Suc h) = Suc (hgt c h)"
  by (simp add: hgt_def)

text \<open>A step that did not make up the lack passes it on one level up.\<close>

lemma lacks_step:
  assumes "tcol t' = c" "rb (Suc h) (paint Black t')" "c = Black \<longrightarrow> rb (Suc h) t'"
  shows "lacks (hgt c h) t'"
  using assms by (cases c) (auto simp: lacks_def hgt_def)

text \<open>The loop keeps the nodes in order and leaves a valid tree.\<close>

lemma del_fix_valid:
  "\<lbrakk>lacks h t; rbk (Suc h) k\<rbrakk> \<Longrightarrow> rb_valid (del_fix t k) \<and> ino (del_fix t k) = ino (plug t k)"
proof (induction t k arbitrary: h rule: del_fix.induct)
  case (1 t)
  then show ?case by (cases "tcol t") (auto simp: lacks_def rb_valid_def paint_Black_id)
next
  case (2 t p c w k)
  show ?case
  proof (cases "tcol t")
    case Red
    then have "rb_valid (plug (paint Black t) (FL p c w # k))"
      using 2(3,4) by (intro rb_plug [of "Suc h"]) (simp_all add: lacks_def)
    then show ?thesis using Red by simp
  next
    case Black
    then have t: "rb h t" using 2(3) by (simp add: lacks_def)
    note k = 2(4) [unfolded rbk_FL hgt_Suc]
    show ?thesis
    proof (cases "tcol w")
      case Red
      then obtain wl wi wr where w: "w = Nd wl wi Red wr" by (auto dest: tcol_Red_Nd)
      then have c: "c = Black" using k by (cases c) auto
      obtain t' d where d: "delL t p Red wl = (t', d)" by fastforce
      have wl: "rb (Suc h) wl" "tcol wl = Black" "rb (Suc h) wr" "tcol wr = Black" using w k by auto
      note D = delL_rb [OF t Black wl(1,2) d]
      have "rb (Suc h) (settle (t', d))" using D by (intro settle_rb) (auto simp: hgt_def)
      then have "rb_valid (plug (settle (t', d)) (FL wi Black wr # k))"
        using k wl c by (intro rb_plug [of "Suc h"]) (auto simp: hgt_def)
      then show ?thesis using Black w d D by (auto simp: settle_def)
    next
      case wb: Black
      obtain t' d where d: "delL t p c w = (t', d)" by fastforce
      have w: "rb (Suc h) w" using k by simp
      then obtain wl wi wr where wn: "w = Nd wl wi Black wr" using wb by (cases w) auto
      note D = delL_rb [OF t Black w wb d]
      have eq: "del_fix t (FL p c w # k) = (if d then del_fix t' k else plug t' k)"
        using Black wn d by simp
      show ?thesis
      proof (cases d)
        case False
        then have "rb_valid (plug t' k)"
          using D k by (intro rb_plug [of "Suc (hgt c h)"]) (auto simp: hgt_Suc)
        then show ?thesis unfolding eq using False D by simp
      next
        case True
        then have "lacks (hgt c h) t'" using D by (intro lacks_step) auto
        then have "rb_valid (del_fix t' k) \<and> ino (del_fix t' k) = ino (plug t' k)"
          using 2(2) [OF _ wn refl d [symmetric] True] k Black by simp
        then show ?thesis unfolding eq using True D by simp
      qed
    qed
  qed
next
  case (3 t w p c k)
  show ?case
  proof (cases "tcol t")
    case Red
    then have "rb_valid (plug (paint Black t) (FR w p c # k))"
      using 3(3,4) by (intro rb_plug [of "Suc h"]) (simp_all add: lacks_def)
    then show ?thesis using Red by simp
  next
    case Black
    then have t: "rb h t" using 3(3) by (simp add: lacks_def)
    note k = 3(4) [unfolded rbk_FR hgt_Suc]
    show ?thesis
    proof (cases "tcol w")
      case Red
      then obtain wl wi wr where w: "w = Nd wl wi Red wr" by (auto dest: tcol_Red_Nd)
      then have c: "c = Black" using k by (cases c) auto
      obtain t' d where d: "delR wr p Red t = (t', d)" by fastforce
      have wl: "rb (Suc h) wl" "tcol wl = Black" "rb (Suc h) wr" "tcol wr = Black" using w k by auto
      note D = delR_rb [OF t Black wl(3,4) d]
      have "rb (Suc h) (settle (t', d))" using D by (intro settle_rb) (auto simp: hgt_def)
      then have "rb_valid (plug (settle (t', d)) (FR wl wi Black # k))"
        using k wl c by (intro rb_plug [of "Suc h"]) (auto simp: hgt_def)
      then show ?thesis using Black w d D by (auto simp: settle_def)
    next
      case wb: Black
      obtain t' d where d: "delR w p c t = (t', d)" by fastforce
      have w: "rb (Suc h) w" using k by simp
      then obtain wl wi wr where wn: "w = Nd wl wi Black wr" using wb by (cases w) auto
      note D = delR_rb [OF t Black w wb d]
      have eq: "del_fix t (FR w p c # k) = (if d then del_fix t' k else plug t' k)"
        using Black wn d by simp
      show ?thesis
      proof (cases d)
        case False
        then have "rb_valid (plug t' k)"
          using D k by (intro rb_plug [of "Suc (hgt c h)"]) (auto simp: hgt_Suc)
        then show ?thesis unfolding eq using False D by simp
      next
        case True
        then have "lacks (hgt c h) t'" using D by (intro lacks_step) auto
        then have "rb_valid (del_fix t' k) \<and> ino (del_fix t' k) = ino (plug t' k)"
          using 3(2) [OF _ wn refl d [symmetric] True] k Black by simp
        then show ?thesis unfolding eq using True D by simp
      qed
    qed
  qed
qed

end
