(* ===== verification/RbRep.thy ===== *)
theory RbRep
  imports RbMap RbTree
begin

text \<open>
  How the arrays of the ordered map represent a tree.  While no access leaves the first \<open>n\<close>
  elements, each vector behaves as a function from indices, and the definitions that read and
  write it are equations on those functions.  The rotations and \<^verbatim>\<open>transplant\<close> are shown to rebuild
  the tree they are meant to at the end of any path.
\<close>

named_theorems store_simps \<open>reads and writes of the node arrays\<close>

section \<open>Vectors as functions\<close>

definition elt :: "vector \<Rightarrow> nat \<Rightarrow> nat" where
  "elt v i = (if i < v_count v then vec_list v ! i else 0)"

definition vset :: "vector \<Rightarrow> nat \<Rightarrow> nat \<Rightarrow> vector" where
  "vset v i x = (case vector_set v i x of None \<Rightarrow> v | Some v' \<Rightarrow> v')"

lemma vector_get_elt: "vec_ok v \<Longrightarrow> i < v_count v \<Longrightarrow> vector_get v i = Some (elt v i)"
  by (simp add: elt_def vector_get_spec length_vec_list)

lemma vector_set_vset:
  assumes "vec_ok v" "i < v_count v"
  shows "vector_set v i x = Some (vset v i x)" "vec_ok (vset v i x)"
    "v_count (vset v i x) = v_count v" "elt (vset v i x) = (elt v)(i := x)"
proof -
  obtain v' where v': "vector_set v i x = Some v'" "vec_ok v'" "vec_list v' = (vec_list v)[i := x]"
    using vector_set_spec [of v i x] assms by (auto simp: length_vec_list)
  then show "vector_set v i x = Some (vset v i x)" "vec_ok (vset v i x)" by (simp_all add: vset_def)
  have n: "v_count v' = v_count v" using v' assms by (metis length_list_update length_vec_list)
  then show "v_count (vset v i x) = v_count v" using v' by (simp add: vset_def)
  show "elt (vset v i x) = (elt v)(i := x)"
    using v' n assms by (auto simp: vset_def elt_def fun_eq_iff length_vec_list)
qed

section \<open>The arrays of a map\<close>

text \<open>\<open>soa_ok n m\<close>: all six vectors are well formed and have at least \<open>n\<close> elements.\<close>

definition soa_vecs :: "map_soa \<Rightarrow> vector list" where
  "soa_vecs a = [s_keys a, s_vals a, s_left a, s_right a, s_parent a, s_colour a]"

definition soa_ok :: "nat \<Rightarrow> rbmap \<Rightarrow> bool" where
  "soa_ok n m \<longleftrightarrow> (\<forall>v\<in>set (soa_vecs (m_a m)). vec_ok v \<and> n \<le> v_count v)"

definition fL :: "rbmap \<Rightarrow> nat \<Rightarrow> nat" where "fL m = elt (s_left (m_a m))"
definition fR :: "rbmap \<Rightarrow> nat \<Rightarrow> nat" where "fR m = elt (s_right (m_a m))"
definition fP :: "rbmap \<Rightarrow> nat \<Rightarrow> nat" where "fP m = elt (s_parent (m_a m))"
definition fC :: "rbmap \<Rightarrow> nat \<Rightarrow> nat" where "fC m = elt (s_colour (m_a m))"
definition fK :: "rbmap \<Rightarrow> nat \<Rightarrow> nat" where "fK m = elt (s_keys (m_a m))"
definition fV :: "rbmap \<Rightarrow> nat \<Rightarrow> nat" where "fV m = elt (s_vals (m_a m))"

lemmas f_defs = fL_def fR_def fP_def fC_def fK_def fV_def

definition setL :: "rbmap \<Rightarrow> nat \<Rightarrow> nat \<Rightarrow> rbmap" where
  "setL m i x = m\<lparr>m_a := (m_a m)\<lparr>s_left := vset (s_left (m_a m)) i x\<rparr>\<rparr>"
definition setR :: "rbmap \<Rightarrow> nat \<Rightarrow> nat \<Rightarrow> rbmap" where
  "setR m i x = m\<lparr>m_a := (m_a m)\<lparr>s_right := vset (s_right (m_a m)) i x\<rparr>\<rparr>"
definition setP :: "rbmap \<Rightarrow> nat \<Rightarrow> nat \<Rightarrow> rbmap" where
  "setP m i x = m\<lparr>m_a := (m_a m)\<lparr>s_parent := vset (s_parent (m_a m)) i x\<rparr>\<rparr>"
definition setC :: "rbmap \<Rightarrow> nat \<Rightarrow> nat \<Rightarrow> rbmap" where
  "setC m i x = m\<lparr>m_a := (m_a m)\<lparr>s_colour := vset (s_colour (m_a m)) i x\<rparr>\<rparr>"
definition setK :: "rbmap \<Rightarrow> nat \<Rightarrow> nat \<Rightarrow> rbmap" where
  "setK m i x = m\<lparr>m_a := (m_a m)\<lparr>s_keys := vset (s_keys (m_a m)) i x\<rparr>\<rparr>"
definition setV :: "rbmap \<Rightarrow> nat \<Rightarrow> nat \<Rightarrow> rbmap" where
  "setV m i x = m\<lparr>m_a := (m_a m)\<lparr>s_vals := vset (s_vals (m_a m)) i x\<rparr>\<rparr>"

lemmas set_defs = setL_def setR_def setP_def setC_def setK_def setV_def

primrec cw :: "colour \<Rightarrow> nat" where
  "cw Red = 0"
| "cw Black = 1"

primrec ci :: "colour \<Rightarrow> int" where
  "ci Red = RB_RED"
| "ci Black = RB_BLACK"

lemma cw_eq [simp]: "cw c = cw d \<longleftrightarrow> c = d"
  by (cases c; cases d) auto

lemma ci_eq [simp]: "ci c = RB_RED \<longleftrightarrow> c = Red" "ci c = RB_BLACK \<longleftrightarrow> c = Black"
  by (cases c; simp add: RB_RED_def RB_BLACK_def)+

lemma RB_BLACK_ne [simp]: "RB_BLACK \<noteq> RB_RED" "RB_RED \<noteq> RB_BLACK"
  by (simp_all add: RB_RED_def RB_BLACK_def)

lemma int_of_word_cw [simp]: "int_of_word (cw c) = ci c"
  by (cases c) (simp_all add: int_of_word_def RB_RED_def RB_BLACK_def)

lemma word_of_ci: "nat (ci c mod int W64) = cw c"
  by (cases c) (simp_all add: RB_RED_def RB_BLACK_def W64_def)

lemma soa_ok_lt_NIL: "soa_ok n m \<Longrightarrow> i < n \<Longrightarrow> i \<noteq> NIL"
  using vec_ok_count_small [of "s_keys (m_a m)"]
  by (auto simp: soa_ok_def soa_vecs_def NIL_def W64_def)

lemma rd_store [store_simps]:
  assumes "soa_ok n m" "i < n"
  shows "rd_left m i = Some (fL m i)" "rd_right m i = Some (fR m i)"
    "rd_parent m i = Some (fP m i)" "rd_key m i = Some (fK m i)" "rd_val m i = Some (fV m i)"
    "rd_colour m i = Some (int_of_word (fC m i))"
  using assms
  by (auto simp: soa_ok_def soa_vecs_def f_defs rd_left_def rd_right_def rd_parent_def rd_key_def
      rd_val_def rd_colour_def vector_get_elt)

lemma wr_store [store_simps]:
  assumes "soa_ok n m" "i < n"
  shows "wr_left m i x = Some (setL m i x)" "wr_right m i x = Some (setR m i x)"
    "wr_parent m i x = Some (setP m i x)" "wr_key m i x = Some (setK m i x)"
    "wr_val m i x = Some (setV m i x)"
  using assms
  by (auto simp: soa_ok_def soa_vecs_def set_defs wr_left_def wr_right_def wr_parent_def wr_key_def
      wr_val_def vector_set_vset)

lemma wr_colour_store [store_simps]:
  assumes "soa_ok n m" "i < n"
  shows "wr_colour m i (ci c) = Some (setC m i (cw c))"
    "wr_colour m i RB_RED = Some (setC m i (cw Red))"
    "wr_colour m i RB_BLACK = Some (setC m i (cw Black))"
proof -
  show *: "wr_colour m i (ci c) = Some (setC m i (cw c))" for c
    using assms
    by (auto simp: soa_ok_def soa_vecs_def set_defs wr_colour_def vector_set_vset word_of_ci)
  show "wr_colour m i RB_RED = Some (setC m i (cw Red))"
    "wr_colour m i RB_BLACK = Some (setC m i (cw Black))"
    using * [of Red] * [of Black] by simp_all
qed

lemma soa_ok_set [store_simps]:
  assumes "soa_ok n m" "i < n"
  shows "soa_ok n (setL m i x)" "soa_ok n (setR m i x)" "soa_ok n (setP m i x)"
    "soa_ok n (setC m i x)" "soa_ok n (setK m i x)" "soa_ok n (setV m i x)"
  using assms by (auto simp: soa_ok_def soa_vecs_def set_defs vector_set_vset)

lemma soa_ok_upd [store_simps]:
  "soa_ok n (m\<lparr>m_root := x\<rparr>) = soa_ok n m" "soa_ok n (m\<lparr>m_free := f\<rparr>) = soa_ok n m"
  "soa_ok n (m\<lparr>m_count := c\<rparr>) = soa_ok n m"
  by (simp_all add: soa_ok_def)

lemma f_set [store_simps]:
  assumes "soa_ok n m" "i < n"
  shows "fL (setL m i x) = (fL m)(i := x)" "fR (setR m i x) = (fR m)(i := x)"
    "fP (setP m i x) = (fP m)(i := x)" "fC (setC m i x) = (fC m)(i := x)"
    "fK (setK m i x) = (fK m)(i := x)" "fV (setV m i x) = (fV m)(i := x)"
  using assms by (auto simp: soa_ok_def soa_vecs_def set_defs f_defs vector_set_vset)

lemma f_set_other [simp]:
  "fL (setR m i x) = fL m" "fL (setP m i x) = fL m" "fL (setC m i x) = fL m"
  "fL (setK m i x) = fL m" "fL (setV m i x) = fL m"
  "fR (setL m i x) = fR m" "fR (setP m i x) = fR m" "fR (setC m i x) = fR m"
  "fR (setK m i x) = fR m" "fR (setV m i x) = fR m"
  "fP (setL m i x) = fP m" "fP (setR m i x) = fP m" "fP (setC m i x) = fP m"
  "fP (setK m i x) = fP m" "fP (setV m i x) = fP m"
  "fC (setL m i x) = fC m" "fC (setR m i x) = fC m" "fC (setP m i x) = fC m"
  "fC (setK m i x) = fC m" "fC (setV m i x) = fC m"
  "fK (setL m i x) = fK m" "fK (setR m i x) = fK m" "fK (setP m i x) = fK m"
  "fK (setC m i x) = fK m" "fK (setV m i x) = fK m"
  "fV (setL m i x) = fV m" "fV (setR m i x) = fV m" "fV (setP m i x) = fV m"
  "fV (setC m i x) = fV m" "fV (setK m i x) = fV m"
  by (simp_all add: set_defs f_defs)

lemma f_upd [simp]:
  "fL (m\<lparr>m_root := x\<rparr>) = fL m" "fR (m\<lparr>m_root := x\<rparr>) = fR m" "fP (m\<lparr>m_root := x\<rparr>) = fP m"
  "fC (m\<lparr>m_root := x\<rparr>) = fC m" "fK (m\<lparr>m_root := x\<rparr>) = fK m" "fV (m\<lparr>m_root := x\<rparr>) = fV m"
  "fL (m\<lparr>m_free := f\<rparr>) = fL m" "fR (m\<lparr>m_free := f\<rparr>) = fR m" "fP (m\<lparr>m_free := f\<rparr>) = fP m"
  "fC (m\<lparr>m_free := f\<rparr>) = fC m" "fK (m\<lparr>m_free := f\<rparr>) = fK m" "fV (m\<lparr>m_free := f\<rparr>) = fV m"
  "fL (m\<lparr>m_count := c\<rparr>) = fL m" "fR (m\<lparr>m_count := c\<rparr>) = fR m" "fP (m\<lparr>m_count := c\<rparr>) = fP m"
  "fC (m\<lparr>m_count := c\<rparr>) = fC m" "fK (m\<lparr>m_count := c\<rparr>) = fK m" "fV (m\<lparr>m_count := c\<rparr>) = fV m"
  by (simp_all add: f_defs)

lemma scalars_set [simp]:
  "m_root (setL m i x) = m_root m" "m_root (setR m i x) = m_root m" "m_root (setP m i x) = m_root m"
  "m_root (setC m i x) = m_root m" "m_root (setK m i x) = m_root m" "m_root (setV m i x) = m_root m"
  "m_free (setL m i x) = m_free m" "m_free (setR m i x) = m_free m" "m_free (setP m i x) = m_free m"
  "m_free (setC m i x) = m_free m" "m_free (setK m i x) = m_free m" "m_free (setV m i x) = m_free m"
  "m_count (setL m i x) = m_count m" "m_count (setR m i x) = m_count m" "m_count (setP m i x) = m_count m"
  "m_count (setC m i x) = m_count m" "m_count (setK m i x) = m_count m" "m_count (setV m i x) = m_count m"
  "m_cmp (setL m i x) = m_cmp m" "m_cmp (setR m i x) = m_cmp m" "m_cmp (setP m i x) = m_cmp m"
  "m_cmp (setC m i x) = m_cmp m" "m_cmp (setK m i x) = m_cmp m" "m_cmp (setV m i x) = m_cmp m"
  by (simp_all add: set_defs)

text \<open>Writes to the links and colours leave everything else of the map as it was, in particular
  the lengths of the vectors.\<close>

definition rest :: "rbmap \<Rightarrow> nat list \<times> (nat \<Rightarrow> nat) \<times> (nat \<Rightarrow> nat) \<times> vector \<times> nat \<times> keycmp" where
  "rest m = (map v_count (soa_vecs (m_a m)), fK m, fV m, m_free m, m_count m, m_cmp m)"

lemma rest_set [store_simps]:
  assumes "soa_ok n m" "i < n"
  shows "rest (setL m i x) = rest m" "rest (setR m i x) = rest m" "rest (setP m i x) = rest m"
    "rest (setC m i x) = rest m"
  using assms by (auto simp: rest_def set_defs f_defs soa_vecs_def soa_ok_def vector_set_vset)

lemma rest_root [simp]: "rest (m\<lparr>m_root := x\<rparr>) = rest m"
  by (simp add: rest_def)

section \<open>Trees in the arrays\<close>

primrec ntop :: "ntree \<Rightarrow> nat" where
  "ntop Lf = NIL"
| "ntop (Nd l i c r) = i"

fun ptop :: "frame list \<Rightarrow> nat" where
  "ptop [] = NIL"
| "ptop (FL i c r # k) = i"
| "ptop (FR l i c # k) = i"

primrec rept :: "rbmap \<Rightarrow> nat \<Rightarrow> ntree \<Rightarrow> bool" where
  "rept m p Lf = True"
| "rept m p (Nd l i c r) \<longleftrightarrow> fL m i = ntop l \<and> fR m i = ntop r \<and> fP m i = p \<and> fC m i = cw c \<and>
     rept m i l \<and> rept m i r"

fun repk :: "rbmap \<Rightarrow> nat \<Rightarrow> frame list \<Rightarrow> bool" where
  "repk m h [] \<longleftrightarrow> m_root m = h"
| "repk m h (FL i c r # k) \<longleftrightarrow> fL m i = h \<and> fR m i = ntop r \<and> fP m i = ptop k \<and> fC m i = cw c \<and>
     rept m i r \<and> repk m i k"
| "repk m h (FR l i c # k) \<longleftrightarrow> fL m i = ntop l \<and> fR m i = h \<and> fP m i = ptop k \<and> fC m i = cw c \<and>
     rept m i l \<and> repk m i k"

text \<open>The nodes of a path: its own and those of the trees hanging off it.\<close>

definition kn :: "frame list \<Rightarrow> nat set" where
  "kn k = set (kl k) \<union> set (kr k)"

lemma kn_simps [simp]: "kn [] = {}" "kn (FL i c r # k) = insert i (set (ino r) \<union> kn k)"
  "kn (FR l i c # k) = insert i (set (ino l) \<union> kn k)"
  by (auto simp: kn_def)

text \<open>\<open>nodup n t k\<close>: the nodes of \<open>t\<close> and \<open>k\<close> are pairwise different and below \<open>n\<close>.\<close>

definition nodup :: "nat \<Rightarrow> ntree \<Rightarrow> frame list \<Rightarrow> bool" where
  "nodup n t k \<longleftrightarrow> distinct (ino (plug t k)) \<and> set (ino (plug t k)) \<subseteq> {..<n}"

definition repz :: "nat \<Rightarrow> rbmap \<Rightarrow> ntree \<Rightarrow> frame list \<Rightarrow> bool" where
  "repz n m t k \<longleftrightarrow> soa_ok n m \<and> nodup n t k \<and> rept m (ptop k) t \<and> repk m (ntop t) k"

lemma nodup_FL [simp]: "nodup n t (FL i c r # k) = nodup n (Nd t i c r) k"
  and nodup_FR [simp]: "nodup n t (FR l i c # k) = nodup n (Nd l i c t) k"
  by (simp_all add: nodup_def)

lemma nodup_perm:
  "nodup n t k \<Longrightarrow> ino t' = ino t \<Longrightarrow> nodup n t' k"
  by (simp add: nodup_def)

lemma repz_FL: "repz n m t (FL i c r # k) \<longleftrightarrow> repz n m (Nd t i c r) k"
  by (auto simp: repz_def)

lemma repz_FR: "repz n m t (FR l i c # k) \<longleftrightarrow> repz n m (Nd l i c t) k"
  by (auto simp: repz_def)

lemma repz_plug: "repz n m (plug t k1) k2 \<longleftrightarrow> repz n m t (k1 @ k2)"
  by (induction t k1 rule: plug.induct) (simp_all add: repz_FL repz_FR)

lemma repz_plug_Nil: "repz n m (plug t k) [] \<longleftrightarrow> repz n m t k"
  using repz_plug [of n m t k "[]"] by simp

section \<open>Frame rules\<close>

lemma rept_frame:
  "\<lbrakk>rept m p t; \<And>i. i \<in> set (ino t) \<Longrightarrow> fL m' i = fL m i \<and> fR m' i = fR m i \<and> fP m' i = fP m i \<and>
     fC m' i = fC m i\<rbrakk> \<Longrightarrow> rept m' p t"
  by (induction t arbitrary: p) auto

text \<open>A tree may get a new parent.\<close>

lemma rept_reroot:
  assumes "rept m p t" "distinct (ino t)"
    and "\<And>i. i \<in> set (ino t) \<Longrightarrow> fL m' i = fL m i \<and> fR m' i = fR m i \<and> fC m' i = fC m i"
    and "\<And>i. i \<in> set (ino t) \<Longrightarrow> i \<noteq> ntop t \<Longrightarrow> fP m' i = fP m i"
    and "t \<noteq> Lf \<Longrightarrow> fP m' (ntop t) = q"
  shows "rept m' q t"
proof (cases t)
  case (Nd l i c r)
  have "rept m' i l" by (rule rept_frame [of m]) (use assms Nd in auto)
  moreover have "rept m' i r" by (rule rept_frame [of m]) (use assms Nd in auto)
  ultimately show ?thesis using assms Nd by simp
qed simp

lemma repk_frame:
  "\<lbrakk>repk m h k; m_root m' = m_root m;
    \<And>i. i \<in> kn k \<Longrightarrow> fL m' i = fL m i \<and> fR m' i = fR m i \<and> fP m' i = fP m i \<and> fC m' i = fC m i\<rbrakk>
   \<Longrightarrow> repk m' h k"
  by (induction m h k rule: repk.induct) (auto intro: rept_frame)

section \<open>Redirecting the link to a subtree\<close>

text \<open>The statement with which the rotations and \<^verbatim>\<open>transplant\<close> make the parent \<open>xp\<close> of \<open>x\<close>, or the
  root, point to \<open>y\<close>; \<^verbatim>\<open>rotate_right\<close> tests the right child first.\<close>

definition relinkL :: "rbmap \<Rightarrow> nat \<Rightarrow> nat \<Rightarrow> nat \<Rightarrow> rbmap option" where
  "relinkL m xp x y = (if xp = NIL then Some (m\<lparr>m_root := y\<rparr>)
     else do { l \<leftarrow> rd_left m xp; if x = l then wr_left m xp y else wr_right m xp y })"

definition relinkR :: "rbmap \<Rightarrow> nat \<Rightarrow> nat \<Rightarrow> nat \<Rightarrow> rbmap option" where
  "relinkR m xp x y = (if xp = NIL then Some (m\<lparr>m_root := y\<rparr>)
     else do { r \<leftarrow> rd_right m xp; if x = r then wr_right m xp y else wr_left m xp y })"

text \<open>What a redirection keeps.\<close>

definition relinked :: "nat \<Rightarrow> rbmap \<Rightarrow> rbmap \<Rightarrow> nat \<Rightarrow> frame list \<Rightarrow> bool" where
  "relinked n m m' y k \<longleftrightarrow> soa_ok n m' \<and> rest m' = rest m \<and> fP m' = fP m \<and> fC m' = fC m \<and>
     repk m' y k \<and> (\<forall>i. i \<notin> kn k \<longrightarrow> fL m' i = fL m i \<and> fR m' i = fR m i)"

lemma ntop_in: "t \<noteq> Lf \<Longrightarrow> ntop t \<in> set (ino t)"
  by (cases t) auto

lemma ntop_neq: "x \<notin> set (ino t) \<Longrightarrow> x \<noteq> NIL \<Longrightarrow> x \<noteq> ntop t"
  by (cases t) auto

lemma kn_lt: "nodup n t k \<Longrightarrow> i \<in> kn k \<Longrightarrow> i < n"
  by (auto simp: nodup_def kn_def)

lemma relink:
  assumes "soa_ok n m" "nodup n t k" "repk m x k" "x \<notin> kn k" "x \<noteq> NIL"
  shows "\<exists>m'. relinkL m (ptop k) x y = Some m' \<and> relinked n m m' y k"
    and "\<exists>m'. relinkR m (ptop k) x y = Some m' \<and> relinked n m m' y k"
proof -
  have "(\<exists>m'. relinkL m (ptop k) x y = Some m' \<and> relinked n m m' y k) \<and>
    (\<exists>m'. relinkR m (ptop k) x y = Some m' \<and> relinked n m m' y k)"
  proof (cases k rule: ptop.cases)
    case 1
    then show ?thesis using assms by (simp add: relinkL_def relinkR_def relinked_def store_simps)
  next
    case (2 i c r k')
    have i: "i < n" "i \<notin> set (ino r)" "i \<notin> kn k'" "i \<noteq> NIL"
      using assms(1,2) 2 soa_ok_lt_NIL [of n m i] by (auto simp: nodup_def kn_def)
    have x: "x \<noteq> ntop r" "fL m i = x" "fR m i = ntop r" using assms 2 by (auto simp: ntop_neq)
    have "rept (setL m i y) i r" "repk (setL m i y) i k'"
      using assms 2 i by (auto simp: store_simps intro: rept_frame [of m] repk_frame [of m])
    then have "relinked n m (setL m i y) y k"
      using assms(1,3) 2 i by (auto simp: relinked_def store_simps)
    then show ?thesis
      using assms(1) 2 i x by (simp add: relinkL_def relinkR_def store_simps)
  next
    case (3 l i c k')
    have i: "i < n" "i \<notin> set (ino l)" "i \<notin> kn k'" "i \<noteq> NIL"
      using assms(1,2) 3 soa_ok_lt_NIL [of n m i] by (auto simp: nodup_def kn_def)
    have x: "x \<noteq> ntop l" "fR m i = x" "fL m i = ntop l" using assms 3 by (auto simp: ntop_neq)
    have "rept (setR m i y) i l" "repk (setR m i y) i k'"
      using assms 3 i by (auto simp: store_simps intro: rept_frame [of m] repk_frame [of m])
    then have "relinked n m (setR m i y) y k"
      using assms(1,3) 3 i by (auto simp: relinked_def store_simps)
    then show ?thesis
      using assms(1) 3 i x by (simp add: relinkL_def relinkR_def store_simps)
  qed
  then show "\<exists>m'. relinkL m (ptop k) x y = Some m' \<and> relinked n m m' y k"
    "\<exists>m'. relinkR m (ptop k) x y = Some m' \<and> relinked n m m' y k"
    by simp_all
qed

section \<open>Rotations\<close>

text \<open>Setting the parent of a child that may be missing.\<close>

definition adopt :: "rbmap \<Rightarrow> ntree \<Rightarrow> nat \<Rightarrow> rbmap" where
  "adopt m t x = (if t = Lf then m else setP m (ntop t) x)"

lemma adopt_code:
  assumes "soa_ok n m" "set (ino t) \<subseteq> {..<n}"
  shows "(if ntop t \<noteq> NIL then wr_parent m (ntop t) x else Some m) = Some (adopt m t x)"
proof (cases t)
  case (Nd l i c r)
  then have "i \<noteq> NIL" using assms soa_ok_lt_NIL [of n m i] by simp
  then show ?thesis using assms Nd by (simp add: adopt_def store_simps)
qed (simp add: adopt_def)

lemma adopt_store [store_simps]:
  assumes "soa_ok n m" "set (ino t) \<subseteq> {..<n}"
  shows "soa_ok n (adopt m t x)" "rest (adopt m t x) = rest m" "fL (adopt m t x) = fL m"
    "fR (adopt m t x) = fR m" "fC (adopt m t x) = fC m" "m_root (adopt m t x) = m_root m"
    "fP (adopt m t x) = (if t = Lf then fP m else (fP m)(ntop t := x))"
  using assms by (cases t; simp add: adopt_def store_simps)+

lemma rotate_left_relink:
  "rotate_left m x = do {
     y \<leftarrow> rd_right m x;
     yl \<leftarrow> rd_left m y;
     m \<leftarrow> wr_right m x yl;
     xr \<leftarrow> rd_right m x;
     m \<leftarrow> (if xr \<noteq> NIL then wr_parent m xr x else Some m);
     xp \<leftarrow> rd_parent m x;
     m \<leftarrow> wr_parent m y xp;
     xp \<leftarrow> rd_parent m x;
     m \<leftarrow> relinkL m xp x y;
     m \<leftarrow> wr_left m y x;
     wr_parent m x y }"
  by (simp only: rotate_left_def relinkL_def)

lemma rotate_right_relink:
  "rotate_right m x = do {
     y \<leftarrow> rd_left m x;
     yr \<leftarrow> rd_right m y;
     m \<leftarrow> wr_left m x yr;
     xl \<leftarrow> rd_left m x;
     m \<leftarrow> (if xl \<noteq> NIL then wr_parent m xl x else Some m);
     xp \<leftarrow> rd_parent m x;
     m \<leftarrow> wr_parent m y xp;
     xp \<leftarrow> rd_parent m x;
     m \<leftarrow> relinkR m xp x y;
     m \<leftarrow> wr_right m y x;
     wr_parent m x y }"
  by (simp only: rotate_right_def relinkR_def)

lemma rotate_left_repz:
  assumes "repz n m (Nd a x cx (Nd b y cy c)) k"
  shows "\<exists>m'. rotate_left m x = Some m' \<and> repz n m' (Nd (Nd a x cx b) y cy c) k \<and> rest m' = rest m"
proof -
  have ok: "soa_ok n m" and nd: "nodup n (Nd a x cx (Nd b y cy c)) k"
    and t: "rept m (ptop k) (Nd a x cx (Nd b y cy c))" and k: "repk m x k"
    using assms by (auto simp: repz_def)
  have lt: "x < n" "y < n" "set (ino b) \<subseteq> {..<n}" using nd by (auto simp: nodup_def)
  note st = store_simps [where n = n]
  note nil = soa_ok_lt_NIL [OF ok]
  have dis: "x \<noteq> y" "x \<notin> set (ino a)" "x \<notin> set (ino b)" "x \<notin> set (ino c)" "y \<notin> set (ino a)"
    "y \<notin> set (ino b)" "y \<notin> set (ino c)" "x \<notin> kn k" "y \<notin> kn k" "set (ino a) \<inter> set (ino b) = {}"
    "set (ino b) \<inter> set (ino c) = {}" "distinct (ino b)" "set (ino b) \<inter> kn k = {}"
    "set (ino a) \<inter> kn k = {}" "set (ino c) \<inter> kn k = {}"
    using nd by (auto simp: nodup_def kn_def)
  have bx: "ntop b \<noteq> x" "ntop b \<noteq> y" "b \<noteq> Lf \<Longrightarrow> ntop b \<in> set (ino b)"
    using dis nil [OF lt(1)] nil [OF lt(2)] by (auto dest!: ntop_neq simp: ntop_in)
  define m3 where "m3 = setP (adopt (setR m x (ntop b)) b x) y (ptop k)"
  have m3: "soa_ok n m3" "rest m3 = rest m" "fL m3 = fL m" "fR m3 = (fR m)(x := ntop b)"
    "fC m3 = fC m" "m_root m3 = m_root m"
    "fP m3 = (if b = Lf then fP m else (fP m)(ntop b := x))(y := ptop k)"
    using ok lt by (simp_all add: m3_def st)
  have "repk m3 x k"
    using k dis m3 bx by (intro repk_frame [OF k]) (auto split: if_splits)
  then obtain m4 where m4: "relinkL m3 (ptop k) x y = Some m4" "relinked n m3 m4 y k"
    using relink(1) [OF m3(1) nd _ dis(8) nil [OF lt(1)]] by blast
  define m6 where "m6 = setP (setL m4 y x) x y"
  have ok4: "soa_ok n m4" using m4(2) by (simp add: relinked_def)
  have rot: "rotate_left m x = Some m6"
  proof -
    have "rotate_left m x = do { m \<leftarrow> relinkL m3 (ptop k) x y; m \<leftarrow> wr_left m y x; wr_parent m x y }"
      using t lt ok bx dis
      by (simp add: rotate_left_relink st adopt_code [where n = n] m3_def)
    then show ?thesis using m4 ok4 lt by (simp add: m6_def st)
  qed
  have f6: "soa_ok n m6" "rest m6 = rest m" "fP m6 = (fP m3)(x := y)" "fC m6 = fC m"
    "m_root m6 = m_root m4" "fL m6 = (fL m4)(y := x)" "fR m6 = fR m4"
    using m4(2) ok4 lt m3 by (simp_all add: m6_def st relinked_def)
  have out: "i \<notin> kn k \<Longrightarrow> fL m4 i = fL m i \<and> fR m4 i = ((fR m)(x := ntop b)) i" for i
    using m4(2) m3 by (simp add: relinked_def)
  have g: "i \<notin> kn k \<Longrightarrow> fL m6 i = (if i = y then x else fL m i) \<and>
      fR m6 i = (if i = x then ntop b else fR m i) \<and> fC m6 i = fC m i \<and>
      fP m6 i = (if i = x then y else if i = y then ptop k else if b \<noteq> Lf \<and> i = ntop b then x else fP m i)"
    for i
    using out [of i] f6 m3 by auto
  have ac: "fL m6 i = fL m i \<and> fR m6 i = fR m i \<and> fP m6 i = fP m i \<and> fC m6 i = fC m i"
    if "i \<in> set (ino a) \<or> i \<in> set (ino c)" for i
  proof -
    have "i \<notin> kn k" "i \<noteq> x" "i \<noteq> y" "b \<noteq> Lf \<Longrightarrow> i \<noteq> ntop b" using that dis bx(3) by auto
    then show ?thesis using g [of i] by auto
  qed
  have in_b: "i \<in> set (ino b) \<Longrightarrow> i \<notin> kn k \<and> i \<noteq> x \<and> i \<noteq> y \<and> fL m6 i = fL m i \<and> fR m6 i = fR m i \<and>
      fC m6 i = fC m i \<and> (i \<noteq> ntop b \<longrightarrow> fP m6 i = fP m i)" for i
    using g [of i] dis by (cases "i \<in> kn k") auto
  have kk: "i \<in> kn k \<Longrightarrow> i \<noteq> x \<and> i \<noteq> y \<and> fP m6 i = fP m4 i" for i
    using dis(8,9) f6(3) m4(2) by (auto simp: relinked_def)
  have "repk m6 y k"
    by (rule repk_frame [of m4]) (use m4(2) f6 m3(5) kk in \<open>auto simp: relinked_def\<close>)
  moreover have "rept m6 x a"
    by (rule rept_frame [of m]) (use t in simp, use ac in blast)
  moreover have "rept m6 y c"
    by (rule rept_frame [of m]) (use t in simp, use ac in blast)
  moreover have "rept m6 x b"
    by (rule rept_reroot [of m y]) (use t dis(12) bx g [of "ntop b"] in_b in auto)
  ultimately show ?thesis
    using rot f6(1,2) nd t dis bx g [of x] g [of y] by (simp add: repz_def nodup_def)
qed

lemma rotate_right_repz:
  assumes "repz n m (Nd (Nd c y cy b) x cx a) k"
  shows "\<exists>m'. rotate_right m x = Some m' \<and> repz n m' (Nd c y cy (Nd b x cx a)) k \<and> rest m' = rest m"
proof -
  have ok: "soa_ok n m" and nd: "nodup n (Nd (Nd c y cy b) x cx a) k"
    and t: "rept m (ptop k) (Nd (Nd c y cy b) x cx a)" and k: "repk m x k"
    using assms by (auto simp: repz_def)
  have lt: "x < n" "y < n" "set (ino b) \<subseteq> {..<n}" using nd by (auto simp: nodup_def)
  note st = store_simps [where n = n]
  note nil = soa_ok_lt_NIL [OF ok]
  have dis: "x \<noteq> y" "x \<notin> set (ino a)" "x \<notin> set (ino b)" "x \<notin> set (ino c)" "y \<notin> set (ino a)"
    "y \<notin> set (ino b)" "y \<notin> set (ino c)" "x \<notin> kn k" "y \<notin> kn k" "set (ino a) \<inter> set (ino b) = {}"
    "set (ino b) \<inter> set (ino c) = {}" "distinct (ino b)" "set (ino b) \<inter> kn k = {}"
    "set (ino a) \<inter> kn k = {}" "set (ino c) \<inter> kn k = {}"
    using nd by (auto simp: nodup_def kn_def)
  have bx: "ntop b \<noteq> x" "ntop b \<noteq> y" "b \<noteq> Lf \<Longrightarrow> ntop b \<in> set (ino b)"
    using dis nil [OF lt(1)] nil [OF lt(2)] by (auto dest!: ntop_neq simp: ntop_in)
  define m3 where "m3 = setP (adopt (setL m x (ntop b)) b x) y (ptop k)"
  have m3: "soa_ok n m3" "rest m3 = rest m" "fR m3 = fR m" "fL m3 = (fL m)(x := ntop b)"
    "fC m3 = fC m" "m_root m3 = m_root m"
    "fP m3 = (if b = Lf then fP m else (fP m)(ntop b := x))(y := ptop k)"
    using ok lt by (simp_all add: m3_def st)
  have "repk m3 x k"
    using k dis m3 bx by (intro repk_frame [OF k]) (auto split: if_splits)
  then obtain m4 where m4: "relinkR m3 (ptop k) x y = Some m4" "relinked n m3 m4 y k"
    using relink(2) [OF m3(1) nd _ dis(8) nil [OF lt(1)]] by blast
  define m6 where "m6 = setP (setR m4 y x) x y"
  have ok4: "soa_ok n m4" using m4(2) by (simp add: relinked_def)
  have rot: "rotate_right m x = Some m6"
  proof -
    have "rotate_right m x = do { m \<leftarrow> relinkR m3 (ptop k) x y; m \<leftarrow> wr_right m y x; wr_parent m x y }"
      using t lt ok bx dis
      by (simp add: rotate_right_relink st adopt_code [where n = n] m3_def)
    then show ?thesis using m4 ok4 lt by (simp add: m6_def st)
  qed
  have f6: "soa_ok n m6" "rest m6 = rest m" "fP m6 = (fP m3)(x := y)" "fC m6 = fC m"
    "m_root m6 = m_root m4" "fR m6 = (fR m4)(y := x)" "fL m6 = fL m4"
    using m4(2) ok4 lt m3 by (simp_all add: m6_def st relinked_def)
  have out: "i \<notin> kn k \<Longrightarrow> fR m4 i = fR m i \<and> fL m4 i = ((fL m)(x := ntop b)) i" for i
    using m4(2) m3 by (simp add: relinked_def)
  have g: "i \<notin> kn k \<Longrightarrow> fR m6 i = (if i = y then x else fR m i) \<and>
      fL m6 i = (if i = x then ntop b else fL m i) \<and> fC m6 i = fC m i \<and>
      fP m6 i = (if i = x then y else if i = y then ptop k else if b \<noteq> Lf \<and> i = ntop b then x else fP m i)"
    for i
    using out [of i] f6 m3 by auto
  have ac: "fL m6 i = fL m i \<and> fR m6 i = fR m i \<and> fP m6 i = fP m i \<and> fC m6 i = fC m i"
    if "i \<in> set (ino a) \<or> i \<in> set (ino c)" for i
  proof -
    have "i \<notin> kn k" "i \<noteq> x" "i \<noteq> y" "b \<noteq> Lf \<Longrightarrow> i \<noteq> ntop b" using that dis bx(3) by auto
    then show ?thesis using g [of i] by auto
  qed
  have in_b: "i \<in> set (ino b) \<Longrightarrow> i \<notin> kn k \<and> i \<noteq> x \<and> i \<noteq> y \<and> fL m6 i = fL m i \<and> fR m6 i = fR m i \<and>
      fC m6 i = fC m i \<and> (i \<noteq> ntop b \<longrightarrow> fP m6 i = fP m i)" for i
    using g [of i] dis by (cases "i \<in> kn k") auto
  have kk: "i \<in> kn k \<Longrightarrow> i \<noteq> x \<and> i \<noteq> y \<and> fP m6 i = fP m4 i" for i
    using dis(8,9) f6(3) m4(2) by (auto simp: relinked_def)
  have "repk m6 y k"
    by (rule repk_frame [of m4]) (use m4(2) f6 m3(5) kk in \<open>auto simp: relinked_def\<close>)
  moreover have "rept m6 x a"
    by (rule rept_frame [of m]) (use t in simp, use ac in blast)
  moreover have "rept m6 y c"
    by (rule rept_frame [of m]) (use t in simp, use ac in blast)
  moreover have "rept m6 x b"
    by (rule rept_reroot [of m y]) (use t dis(12) bx g [of "ntop b"] in_b in auto)
  ultimately show ?thesis
    using rot f6(1,2) nd t dis bx g [of x] g [of y] by (simp add: repz_def nodup_def)
qed

section \<open>Colours\<close>

lemma repz_node:
  assumes "repz n m (Nd l i c r) k"
  shows "soa_ok n m" "i < n" "i \<noteq> NIL" "fL m i = ntop l" "fR m i = ntop r" "fP m i = ptop k"
    "fC m i = cw c" "set (ino l) \<subseteq> {..<n}" "set (ino r) \<subseteq> {..<n}"
  using assms soa_ok_lt_NIL [of n m i] by (auto simp: repz_def nodup_def)

lemma setC_repz:
  assumes "repz n m (Nd l i c r) k"
  shows "repz n (setC m i (cw d)) (Nd l i d r) k \<and> rest (setC m i (cw d)) = rest m"
proof -
  note st = store_simps [where n = n] repz_node(1,2) [OF assms]
  have nd: "i \<notin> set (ino l)" "i \<notin> set (ino r)" "i \<notin> kn k"
    using assms by (auto simp: repz_def nodup_def kn_def)
  have "rept (setC m i (cw d)) i l"
    by (rule rept_frame [of m]) (use assms nd in \<open>auto simp: repz_def st\<close>)
  moreover have "rept (setC m i (cw d)) i r"
    by (rule rept_frame [of m]) (use assms nd in \<open>auto simp: repz_def st\<close>)
  moreover have "repk (setC m i (cw d)) i k"
    by (rule repk_frame [of m]) (use assms nd in \<open>auto simp: repz_def st\<close>)
  ultimately show ?thesis
    using assms by (simp add: repz_def nodup_def st)
qed

text \<open>The colour of the root of a subtree, a missing one counting as black.\<close>

lemma colour_of_repz:
  assumes "soa_ok n m" "set (ino t) \<subseteq> {..<n}" "rept m p t"
  shows "colour_of m (ntop t) = Some (ci (tcol t))"
proof (cases t)
  case (Nd l i c r)
  then show ?thesis
    using assms soa_ok_lt_NIL [of n m i] by (simp add: colour_of_def rd_store [of n])
qed (simp add: colour_of_def)

section \<open>Transplanting\<close>

lemma transplant_relink:
  "transplant m u v = do {
     up \<leftarrow> rd_parent m u;
     m \<leftarrow> relinkL m up u v;
     if v \<noteq> NIL then wr_parent m v up else Some m }"
  by (simp only: transplant_def relinkL_def)

text \<open>The effect in general: the path above \<open>u\<close> now ends in \<open>v\<close>, whose parent is set.\<close>

lemma transplant_link:
  assumes "soa_ok n m" "nodup n t k" "repk m u k" "u \<notin> kn k" "u < n" "fP m u = ptop k"
    and "v \<noteq> NIL \<Longrightarrow> v < n \<and> v \<notin> kn k"
  shows "\<exists>m'. transplant m u v = Some m' \<and> soa_ok n m' \<and> rest m' = rest m \<and> fC m' = fC m \<and>
    fP m' = (if v \<noteq> NIL then (fP m)(v := ptop k) else fP m) \<and> repk m' v k \<and>
    (\<forall>i. i \<notin> kn k \<longrightarrow> fL m' i = fL m i \<and> fR m' i = fR m i)"
proof -
  have u: "u \<noteq> NIL" by (rule soa_ok_lt_NIL [OF assms(1,5)])
  then obtain m1 where m1: "relinkL m (ptop k) u v = Some m1" "relinked n m m1 v k"
    using relink(1) [OF assms(1-4)] by blast
  then have ok: "soa_ok n m1" by (simp add: relinked_def)
  show ?thesis
  proof (cases "v = NIL")
    case True
    then show ?thesis using m1 assms by (simp add: transplant_relink rd_store [of n] relinked_def)
  next
    case False
    have v: "v < n" "v \<notin> kn k" using assms(7) [OF False] by auto
    note st = store_simps [where n = n] ok v(1)
    have "repk (setP m1 v (ptop k)) v k"
      by (rule repk_frame [of m1]) (use m1 v in \<open>auto simp: relinked_def st\<close>)
    then show ?thesis
      using m1 assms False by (simp add: transplant_relink rd_store [of n] relinked_def st)
  qed
qed

text \<open>Replacing a node by its only child.\<close>

lemma transplant_child:
  assumes "repz n m (Nd l u c r) k" "t = l \<and> r = Lf \<or> t = r \<and> l = Lf"
  shows "\<exists>m'. transplant m u (ntop t) = Some m' \<and> repz n m' t k \<and> rest m' = rest m"
proof -
  note N = repz_node [OF assms(1)]
  have nd: "u \<notin> kn k" "set (ino t) \<inter> kn k = {}" "distinct (ino t)" "set (ino t) \<subseteq> {..<n}" "u \<notin> set (ino t)"
    using assms by (auto simp: repz_def nodup_def kn_def)
  have k: "repk m u k" "nodup n (Nd l u c r) k" "rept m u t" using assms by (auto simp: repz_def)
  have v: "ntop t < n \<and> ntop t \<notin> kn k" if "ntop t \<noteq> NIL"
    using nd that by (cases t) auto
  obtain m' where m': "transplant m u (ntop t) = Some m'" "soa_ok n m'" "rest m' = rest m"
    "fC m' = fC m" "fP m' = (if ntop t \<noteq> NIL then (fP m)(ntop t := ptop k) else fP m)"
    "repk m' (ntop t) k" "\<And>i. i \<notin> kn k \<Longrightarrow> fL m' i = fL m i \<and> fR m' i = fR m i"
    using transplant_link [OF N(1) k(2,1) nd(1) N(2,6) v] by blast
  have "rept m' (ptop k) t"
  proof (rule rept_reroot [OF k(3) nd(3)])
    show "t \<noteq> Lf \<Longrightarrow> fP m' (ntop t) = ptop k"
      using m'(5) nd(4) ntop_in [of t] soa_ok_lt_NIL [OF N(1), of "ntop t"] by auto
  qed (use m' nd in auto)
  moreover have "nodup n t k" using k(2) assms(2) by (auto simp: nodup_def)
  ultimately show ?thesis using m' by (simp add: repz_def)
qed

end
