(* ===== verification/RbInsert.thy ===== *)
theory RbInsert
  imports RbRep
begin

text \<open>
  \<^verbatim>\<open>insert_fixup\<close> on the arrays computes \<open>ins_fix\<close> on the tree they represent.  The proof follows the
  path from the new node: each turn of the loop is one equation of \<open>ins_fix\<close>, and the arrays
  represent the same tree whichever node of it the proof looks at.
\<close>

lemma repz_read [store_simps]:
  assumes "repz n m (Nd l i c r) k"
  shows "rd_left m i = Some (ntop l)" "rd_right m i = Some (ntop r)" "rd_parent m i = Some (ptop k)"
    "rd_colour m i = Some (ci c)" "colour_of m i = Some (ci c)" "i \<noteq> NIL"
    "wr_colour m i RB_RED = Some (setC m i (cw Red))"
    "wr_colour m i RB_BLACK = Some (setC m i (cw Black))"
    "wr_colour m i (ci d) = Some (setC m i (cw d))"
  using repz_node [OF assms] by (simp_all add: store_simps [where n = n] colour_of_def)

lemma repz_colour:
  assumes "repz n m t k"
  shows "colour_of m (ntop t) = Some (ci (tcol t))"
  using assms by (intro colour_of_repz [of n _ _ "ptop k"]) (auto simp: repz_def nodup_def)

text \<open>Two nodes of one tree.\<close>

lemma repz_ne:
  assumes "repz n m (Nd l i c r) k"
  shows "i \<noteq> ntop l" "i \<noteq> ntop r" "i \<noteq> ptop k" "l \<noteq> Lf \<Longrightarrow> ntop l \<noteq> ntop r" "r \<noteq> Lf \<Longrightarrow> ntop l \<noteq> ntop r"
proof -
  have d: "distinct (kl k @ (ino l @ i # ino r) @ kr k)" and i: "i \<noteq> NIL" and ok: "soa_ok n m"
    and lt: "set (ino l) \<subseteq> {..<n}" "set (ino r) \<subseteq> {..<n}"
    using assms repz_node [OF assms] by (auto simp: repz_def nodup_def)
  show "i \<noteq> ntop l" "i \<noteq> ntop r" using ntop_neq [of i l] ntop_neq [of i r] d i by auto
  show "i \<noteq> ptop k" using d i by (cases k rule: ptop.cases) auto
  have "ntop l \<noteq> ntop r" if "l \<noteq> Lf \<or> r \<noteq> Lf"
    using that d lt ntop_in [of l] ntop_in [of r] soa_ok_lt_NIL [OF ok, of "ntop l"]
      soa_ok_lt_NIL [OF ok, of "ntop r"]
    by (cases "l = Lf"; cases "r = Lf") auto
  then show "l \<noteq> Lf \<Longrightarrow> ntop l \<noteq> ntop r" "r \<noteq> Lf \<Longrightarrow> ntop l \<noteq> ntop r" by auto
qed

lemma repz_paint:
  assumes "repz n m t k" "t \<noteq> Lf"
  shows "repz n (setC m (ntop t) (cw d)) (paint d t) k \<and> rest (setC m (ntop t) (cw d)) = rest m"
    "wr_colour m (ntop t) RB_RED = Some (setC m (ntop t) (cw Red))"
    "wr_colour m (ntop t) RB_BLACK = Some (setC m (ntop t) (cw Black))"
proof -
  obtain l i c r where t: "t = Nd l i c r" using assms(2) by (cases t) auto
  then show "repz n (setC m (ntop t) (cw d)) (paint d t) k \<and> rest (setC m (ntop t) (cw d)) = rest m"
    using assms setC_repz [of n m l i c r k d] by simp
  show "wr_colour m (ntop t) RB_RED = Some (setC m (ntop t) (cw Red))"
    "wr_colour m (ntop t) RB_BLACK = Some (setC m (ntop t) (cw Black))"
    using assms t repz_read(7,8) by auto
qed

section \<open>The turns of the loop\<close>

text \<open>The loop stops below a black parent or at the root.\<close>

lemma insert_loop_stop:
  assumes "repz n m (Nd a z zc b) k" "k = [] \<or> pcol k = Black"
  shows "insert_fixup_loop m z = Some m"
proof -
  note z = repz_read [OF assms(1)]
  show ?thesis
  proof (cases "k = []")
    case True
    then show ?thesis using z(3) by (subst insert_fixup_loop.simps) simp
  next
    case False
    have "colour_of m (ptop k) = Some RB_BLACK"
    proof (cases k rule: ptop.cases)
      case (2 i c r k')
      then have "repz n m (Nd (Nd a z zc b) i c r) k'" using assms(1) by (simp add: repz_FL)
      then show ?thesis using repz_read(5) assms(2) 2 by fastforce
    next
      case (3 l i c k')
      then have "repz n m (Nd l i c (Nd a z zc b)) k'" using assms(1) by (simp add: repz_FR)
      then show ?thesis using repz_read(5) assms(2) 3 by fastforce
    qed (use False in simp)
    then show ?thesis using z(3) by (subst insert_fixup_loop.simps) simp
  qed
qed

text \<open>A red uncle: the two reds turn black, the grandparent red, and the loop moves up.\<close>

lemma recolour_left:
  assumes "repz n m (Nd (Nd t p pc s) g gc u) k" "u \<noteq> Lf"
  shows "\<exists>m'. do { m \<leftarrow> wr_colour m p RB_BLACK; m \<leftarrow> wr_colour m (ntop u) RB_BLACK; wr_colour m g RB_RED }
      = Some m' \<and> repz n m' (Nd (Nd t p Black s) g Red (paint Black u)) k \<and> rest m' = rest m"
proof -
  let ?m1 = "setC m p (cw Black)"
  have 0: "repz n m (Nd t p pc s) (FL g gc u # k)" using assms by (simp add: repz_FL)
  have 1: "repz n ?m1 u (FR (Nd t p Black s) g gc # k)" "rest ?m1 = rest m"
    using setC_repz [OF 0, of Black] by (auto simp: repz_FL repz_FR)
  let ?m2 = "setC ?m1 (ntop u) (cw Black)"
  have 2: "repz n ?m2 (Nd (Nd t p Black s) g gc (paint Black u)) k" "rest ?m2 = rest m"
    using repz_paint(1) [OF 1(1) assms(2), of Black] 1(2) by (auto simp: repz_FR)
  have 3: "repz n (setC ?m2 g (cw Red)) (Nd (Nd t p Black s) g Red (paint Black u)) k"
    "rest (setC ?m2 g (cw Red)) = rest m"
    using setC_repz [OF 2(1), of Red] 2(2) by auto
  show ?thesis
    using repz_read(8) [OF 0] repz_paint(3) [OF 1(1) assms(2)] repz_read(7) [OF 2(1)] 3 by simp
qed

lemma recolour_right:
  assumes "repz n m (Nd u g gc (Nd s p pc t)) k" "u \<noteq> Lf"
  shows "\<exists>m'. do { m \<leftarrow> wr_colour m p RB_BLACK; m \<leftarrow> wr_colour m (ntop u) RB_BLACK; wr_colour m g RB_RED }
      = Some m' \<and> repz n m' (Nd (paint Black u) g Red (Nd s p Black t)) k \<and> rest m' = rest m"
proof -
  let ?m1 = "setC m p (cw Black)"
  have 0: "repz n m (Nd s p pc t) (FR u g gc # k)" using assms by (simp add: repz_FR)
  have 1: "repz n ?m1 u (FL g gc (Nd s p Black t) # k)" "rest ?m1 = rest m"
    using setC_repz [OF 0, of Black] by (auto simp: repz_FL repz_FR)
  let ?m2 = "setC ?m1 (ntop u) (cw Black)"
  have 2: "repz n ?m2 (Nd (paint Black u) g gc (Nd s p Black t)) k" "rest ?m2 = rest m"
    using repz_paint(1) [OF 1(1) assms(2), of Black] 1(2) by (auto simp: repz_FL)
  have 3: "repz n (setC ?m2 g (cw Red)) (Nd (paint Black u) g Red (Nd s p Black t)) k"
    "rest (setC ?m2 g (cw Red)) = rest m"
    using setC_repz [OF 2(1), of Red] 2(2) by auto
  show ?thesis
    using repz_read(8) [OF 0] repz_paint(3) [OF 1(1) assms(2)] repz_read(7) [OF 2(1)] 3 by simp
qed

text \<open>A black uncle: the last rotation, after which the loop ends.\<close>

lemma finish_left:
  assumes "repz n m (Nd (Nd t q qc s) g gc u) k" "t = Nd a z zc b"
  shows "\<exists>m'. do { zp \<leftarrow> rd_parent m z; m \<leftarrow> wr_colour m zp RB_BLACK; m \<leftarrow> wr_colour m g RB_RED;
        m \<leftarrow> rotate_right m g; insert_fixup_loop m z }
      = Some m' \<and> repz n m' (Nd t q Black (Nd s g Red u)) k \<and> rest m' = rest m"
proof -
  have z: "repz n m (Nd a z zc b) (FL q qc s # FL g gc u # k)" and
    0: "repz n m (Nd t q qc s) (FL g gc u # k)" using assms by (simp_all add: repz_FL)
  have 1: "repz n (setC m q (cw Black)) (Nd (Nd t q Black s) g gc u) k" "rest (setC m q (cw Black)) = rest m"
    using setC_repz [OF 0, of Black] by (auto simp: repz_FL)
  let ?m2 = "setC (setC m q (cw Black)) g (cw Red)"
  have 2: "repz n ?m2 (Nd (Nd t q Black s) g Red u) k" "rest ?m2 = rest m"
    using setC_repz [OF 1(1), of Red] 1(2) by auto
  obtain m' where m': "rotate_right ?m2 g = Some m'" "repz n m' (Nd t q Black (Nd s g Red u)) k" "rest m' = rest m"
    using rotate_right_repz [OF 2(1)] 2(2) by auto
  have "insert_fixup_loop m' z = Some m'"
    using m'(2) assms(2)
    by (intro insert_loop_stop [of n _ a z zc b "FL q Black (Nd s g Red u) # k"]) (auto simp: repz_FL)
  then show ?thesis
    using repz_read(3) [OF z] repz_read(8) [OF 0] repz_read(7) [OF 1(1)] m' by simp
qed

lemma finish_right:
  assumes "repz n m (Nd u g gc (Nd s q qc t)) k" "t = Nd a z zc b"
  shows "\<exists>m'. do { zp \<leftarrow> rd_parent m z; m \<leftarrow> wr_colour m zp RB_BLACK; m \<leftarrow> wr_colour m g RB_RED;
        m \<leftarrow> rotate_left m g; insert_fixup_loop m z }
      = Some m' \<and> repz n m' (Nd (Nd u g Red s) q Black t) k \<and> rest m' = rest m"
proof -
  have z: "repz n m (Nd a z zc b) (FR s q qc # FR u g gc # k)" and
    0: "repz n m (Nd s q qc t) (FR u g gc # k)" using assms by (simp_all add: repz_FR)
  have 1: "repz n (setC m q (cw Black)) (Nd u g gc (Nd s q Black t)) k" "rest (setC m q (cw Black)) = rest m"
    using setC_repz [OF 0, of Black] by (auto simp: repz_FR)
  let ?m2 = "setC (setC m q (cw Black)) g (cw Red)"
  have 2: "repz n ?m2 (Nd u g Red (Nd s q Black t)) k" "rest ?m2 = rest m"
    using setC_repz [OF 1(1), of Red] 1(2) by auto
  obtain m' where m': "rotate_left ?m2 g = Some m'" "repz n m' (Nd (Nd u g Red s) q Black t) k" "rest m' = rest m"
    using rotate_left_repz [OF 2(1)] 2(2) by auto
  have "insert_fixup_loop m' z = Some m'"
    using m'(2) assms(2)
    by (intro insert_loop_stop [of n _ a z zc b "FR (Nd u g Red s) q Black # k"]) (auto simp: repz_FR)
  then show ?thesis
    using repz_read(3) [OF z] repz_read(8) [OF 0] repz_read(7) [OF 1(1)] m' by simp
qed

section \<open>The whole loop\<close>

text \<open>The root is black, so a red parent has a parent.\<close>

definition black_root :: "frame list \<Rightarrow> bool" where
  "black_root k \<longleftrightarrow> k \<noteq> [] \<longrightarrow> pcol [last k] = Black"

lemma black_root_Cons [simp]: "black_root (f # f' # k) = black_root (f' # k)"
  "black_root [FL i c r] = (c = Black)" "black_root [FR l i c] = (c = Black)"
  by (simp_all add: black_root_def)

lemma black_root_tl: "black_root (f # k) \<Longrightarrow> black_root k"
  by (simp add: black_root_def split: if_splits)

lemma rbk_black_root: "rbk h k \<Longrightarrow> black_root k"
proof (induction h k rule: rbk.induct)
  case (2 h i r k)
  then show ?case by (cases k) auto
next
  case (3 h i r k)
  then show ?case by (cases k) auto
next
  case (4 h l i k)
  then show ?case by (cases k) auto
next
  case (5 h l i k)
  then show ?case by (cases k) auto
qed (simp add: black_root_def)

lemma insert_loop_left:
  assumes "repz n m (Nd (Nd l p Red r) g gc u) k" "rd_parent m z = Some p"
  shows "insert_fixup_loop m z =
    (if tcol u = Red then do {
       m \<leftarrow> do { m \<leftarrow> wr_colour m p RB_BLACK; m \<leftarrow> wr_colour m (ntop u) RB_BLACK; wr_colour m g RB_RED };
       insert_fixup_loop m g }
     else do {
       (m, z) \<leftarrow> (if z = ntop r then do { m \<leftarrow> rotate_left m p; Some (m, p) } else Some (m, z));
       zp \<leftarrow> rd_parent m z; m \<leftarrow> wr_colour m zp RB_BLACK; m \<leftarrow> wr_colour m g RB_RED;
       m \<leftarrow> rotate_right m g; insert_fixup_loop m z })"
proof -
  have p: "repz n m (Nd l p Red r) (FL g gc u # k)" using assms(1) by (simp add: repz_FL)
  have "repz n m u (FR (Nd l p Red r) g gc # k)" using assms(1) by (simp add: repz_FR)
  note u = repz_colour [OF this]
  show ?thesis
    using assms(2) repz_read [OF assms(1)] repz_read [OF p] u
    by (subst insert_fixup_loop.simps) simp
qed

lemma insert_loop_right:
  assumes "repz n m (Nd u g gc (Nd l p Red r)) k" "rd_parent m z = Some p"
  shows "insert_fixup_loop m z =
    (if tcol u = Red then do {
       m \<leftarrow> do { m \<leftarrow> wr_colour m p RB_BLACK; m \<leftarrow> wr_colour m (ntop u) RB_BLACK; wr_colour m g RB_RED };
       insert_fixup_loop m g }
     else do {
       (m, z) \<leftarrow> (if z = ntop l then do { m \<leftarrow> rotate_right m p; Some (m, p) } else Some (m, z));
       zp \<leftarrow> rd_parent m z; m \<leftarrow> wr_colour m zp RB_BLACK; m \<leftarrow> wr_colour m g RB_RED;
       m \<leftarrow> rotate_left m g; insert_fixup_loop m z })"
proof -
  have p: "repz n m (Nd l p Red r) (FR u g gc # k)" using assms(1) by (simp add: repz_FR)
  have "repz n m u (FL g gc (Nd l p Red r) # k)" using assms(1) by (simp add: repz_FL)
  note u = repz_colour [OF this]
  show ?thesis
    using assms(2) repz_read [OF assms(1)] repz_read [OF p] u repz_ne(5) [OF assms(1)]
    by (subst insert_fixup_loop.simps) simp
qed

lemma insert_loop_stops:
  assumes "repz n m t k" "t \<noteq> Lf" "k \<noteq> [] \<longrightarrow> pcol k = Black"
  shows "\<exists>m'. insert_fixup_loop m (ntop t) = Some m' \<and> repz n m' (plug t k) [] \<and> rest m' = rest m"
proof -
  obtain a z zc b where "t = Nd a z zc b" using assms(2) by (cases t) auto
  then show ?thesis using insert_loop_stop [of n m a z zc b k] assms by (auto simp: repz_plug_Nil)
qed

lemma insert_loop_refines:
  "\<lbrakk>repz n m t k; t \<noteq> Lf; black_root k\<rbrakk> \<Longrightarrow>
   \<exists>m'. insert_fixup_loop m (ntop t) = Some m' \<and> repz n m' (ins_fix t k) [] \<and> rest m' = rest m"
proof (induction t k arbitrary: m rule: ins_fix.induct)
  case (1 t p s g gc u k)
  obtain a z zc b where t: "t = Nd a z zc b" using 1(3) by (cases t) auto
  have g: "repz n m (Nd (Nd t p Red s) g gc u) k" using 1(2) by (simp add: repz_FL)
  have p: "repz n m (Nd t p Red s) (FL g gc u # k)" using g by (simp add: repz_FL)
  have z: "rd_parent m z = Some p" using repz_read(3) [of n m a z zc b "FL p Red s # FL g gc u # k"] p t
    by (simp add: repz_FL repz_FR)
  have ne: "z \<noteq> ntop s" using repz_ne(4) [OF p] t by simp
  show ?case
  proof (cases "tcol u")
    case Red
    then have "u \<noteq> Lf" by auto
    then obtain m' where m': "do { m \<leftarrow> wr_colour m p RB_BLACK; m \<leftarrow> wr_colour m (ntop u) RB_BLACK;
        wr_colour m g RB_RED } = Some m'"
      "repz n m' (Nd (Nd t p Black s) g Red (paint Black u)) k" "rest m' = rest m"
      using recolour_left [OF g] by blast
    then show ?thesis
      using 1(1) [OF Red m'(2)] 1(4) Red t insert_loop_left [OF g z] black_root_tl by auto
  next
    case Black
    then show ?thesis
      using finish_left [OF g t] insert_loop_left [OF g z] t ne by (auto simp: repz_plug_Nil)
  qed
next
  case (2 a z zc b s p g gc u k)
  let ?t = "Nd a z zc b"
  have g: "repz n m (Nd (Nd s p Red ?t) g gc u) k" using 2(2) by (simp add: repz_FL repz_FR)
  have p: "repz n m (Nd s p Red ?t) (FL g gc u # k)" using g by (simp add: repz_FL)
  have z: "rd_parent m z = Some p" using repz_read(3) [of n m a z zc b "FR s p Red # FL g gc u # k"] p
    by (simp add: repz_FL repz_FR)
  show ?case
  proof (cases "tcol u")
    case Red
    then have "u \<noteq> Lf" by auto
    then obtain m' where m': "do { m \<leftarrow> wr_colour m p RB_BLACK; m \<leftarrow> wr_colour m (ntop u) RB_BLACK;
        wr_colour m g RB_RED } = Some m'"
      "repz n m' (Nd (Nd s p Black ?t) g Red (paint Black u)) k" "rest m' = rest m"
      using recolour_left [OF g] by blast
    then show ?thesis
      using 2(1) [OF Red m'(2)] 2(4) Red insert_loop_left [OF g z] black_root_tl by auto
  next
    case Black
    obtain m1 where m1: "rotate_left m p = Some m1" "repz n m1 (Nd (Nd s p Red a) z zc b) (FL g gc u # k)"
        "rest m1 = rest m"
      using rotate_left_repz [OF p] by blast
    then have "repz n m1 (Nd (Nd (Nd s p Red a) z zc b) g gc u) k" by (simp add: repz_FL)
    from finish_left [OF this refl] show ?thesis
      using Black insert_loop_left [OF g z] m1 by (auto simp: repz_plug_Nil)
  qed
next
  case (3 t s p u g gc k)
  obtain a z zc b where t: "t = Nd a z zc b" using 3(3) by (cases t) auto
  have g: "repz n m (Nd u g gc (Nd s p Red t)) k" using 3(2) by (simp add: repz_FR)
  have p: "repz n m (Nd s p Red t) (FR u g gc # k)" using g by (simp add: repz_FR)
  have z: "rd_parent m z = Some p" using repz_read(3) [of n m a z zc b "FR s p Red # FR u g gc # k"] p t
    by (simp add: repz_FL repz_FR)
  have ne: "z \<noteq> ntop s" using repz_ne(5) [OF p] t by simp
  show ?case
  proof (cases "tcol u")
    case Red
    then have "u \<noteq> Lf" by auto
    then obtain m' where m': "do { m \<leftarrow> wr_colour m p RB_BLACK; m \<leftarrow> wr_colour m (ntop u) RB_BLACK;
        wr_colour m g RB_RED } = Some m'"
      "repz n m' (Nd (paint Black u) g Red (Nd s p Black t)) k" "rest m' = rest m"
      using recolour_right [OF g] by blast
    then show ?thesis
      using 3(1) [OF Red m'(2)] 3(4) Red t insert_loop_right [OF g z] black_root_tl by auto
  next
    case Black
    then show ?thesis
      using finish_right [OF g t] insert_loop_right [OF g z] t ne by (auto simp: repz_plug_Nil)
  qed
next
  case (4 a z zc b p s u g gc k)
  let ?t = "Nd a z zc b"
  have g: "repz n m (Nd u g gc (Nd ?t p Red s)) k" using 4(2) by (simp add: repz_FL repz_FR)
  have p: "repz n m (Nd ?t p Red s) (FR u g gc # k)" using g by (simp add: repz_FR)
  have z: "rd_parent m z = Some p" using repz_read(3) [of n m a z zc b "FL p Red s # FR u g gc # k"] p
    by (simp add: repz_FL repz_FR)
  show ?case
  proof (cases "tcol u")
    case Red
    then have "u \<noteq> Lf" by auto
    then obtain m' where m': "do { m \<leftarrow> wr_colour m p RB_BLACK; m \<leftarrow> wr_colour m (ntop u) RB_BLACK;
        wr_colour m g RB_RED } = Some m'"
      "repz n m' (Nd (paint Black u) g Red (Nd ?t p Black s)) k" "rest m' = rest m"
      using recolour_right [OF g] by blast
    then show ?thesis
      using 4(1) [OF Red m'(2)] 4(4) Red insert_loop_right [OF g z] black_root_tl by auto
  next
    case Black
    obtain m1 where m1: "rotate_right m p = Some m1" "repz n m1 (Nd a z zc (Nd b p Red s)) (FR u g gc # k)"
        "rest m1 = rest m"
      using rotate_right_repz [OF p] by blast
    then have "repz n m1 (Nd u g gc (Nd a z zc (Nd b p Red s))) k" by (simp add: repz_FR)
    from finish_right [OF this refl] show ?thesis
      using Black insert_loop_right [OF g z] m1 by (auto simp: repz_plug_Nil)
  qed
qed (auto simp: black_root_def simp del: plug.simps intro!: insert_loop_stops)

section \<open>The repair as a whole\<close>

lemma insert_fixup_refines:
  assumes "repz n m t k" "t \<noteq> Lf" "black_root k"
  shows "\<exists>m'. insert_fixup m (ntop t) = Some m' \<and> repz n m' (paint Black (ins_fix t k)) [] \<and> rest m' = rest m"
proof -
  obtain m1 where m1: "insert_fixup_loop m (ntop t) = Some m1" "repz n m1 (ins_fix t k) []" "rest m1 = rest m"
    using insert_loop_refines [OF assms] by blast
  have ne: "ins_fix t k \<noteq> Lf"
  proof
    assume "ins_fix t k = Lf"
    then have "ino (plug t k) = []" using ino_ins_fix [of t k] by simp
    then show False using assms(2) by (cases t) auto
  qed
  then obtain l i c r where fx: "ins_fix t k = Nd l i c r" by (cases "ins_fix t k") auto
  then have "m_root m1 = i" using m1(2) by (simp add: repz_def)
  then show ?thesis
    using m1 fx repz_read(6,8) [of n m1 l i c r "[]"] setC_repz [of n m1 l i c r "[]" Black]
    by (simp add: insert_fixup_def)
qed

end
