(* ===== verification/RbErase.thy ===== *)
theory RbErase
  imports RbInsert
begin

text \<open>
  \<^verbatim>\<open>erase_fixup\<close> and \<^verbatim>\<open>map_erase\<close> on the arrays.  One turn of the loop at the parent \<open>p\<close> of the
  subtree that lacks a black node is \<open>delL\<close> or \<open>delR\<close> on the represented tree; the whole loop is
  \<open>del_fix\<close>.  The red-black conditions give the sibling \<open>w\<close> that the code dereferences: in a valid
  tree it is never missing.
\<close>

section \<open>The parts of a turn\<close>

text \<open>The turn of the loop once the sibling is black, and its last part.\<close>

definition final_left :: "rbmap \<Rightarrow> nat \<Rightarrow> nat \<Rightarrow> rbmap option" where
  "final_left m xp w = do {
     m \<leftarrow> (if w \<noteq> NIL then do { c \<leftarrow> rd_colour m xp; wr_colour m w c } else Some m);
     m \<leftarrow> wr_colour m xp RB_BLACK;
     wr \<leftarrow> (if w \<noteq> NIL then rd_right m w else Some NIL);
     m \<leftarrow> (if wr \<noteq> NIL then wr_colour m wr RB_BLACK else Some m);
     rotate_left m xp }"

definition final_right :: "rbmap \<Rightarrow> nat \<Rightarrow> nat \<Rightarrow> rbmap option" where
  "final_right m xp w = do {
     m \<leftarrow> (if w \<noteq> NIL then do { c \<leftarrow> rd_colour m xp; wr_colour m w c } else Some m);
     m \<leftarrow> (if xp \<noteq> NIL then wr_colour m xp RB_BLACK else Some m);
     wl \<leftarrow> (if w \<noteq> NIL then rd_left m w else Some NIL);
     m \<leftarrow> (if wl \<noteq> NIL then wr_colour m wl RB_BLACK else Some m);
     if xp \<noteq> NIL then rotate_right m xp else Some m }"

definition turn_left :: "rbmap \<Rightarrow> nat \<Rightarrow> nat \<Rightarrow> (rbmap \<times> nat) option" where
  "turn_left m xp w = do {
     wl \<leftarrow> rd_left m w;
     wlc \<leftarrow> colour_of m wl;
     wr \<leftarrow> (if wlc = RB_BLACK then rd_right m w else Some NIL);
     wrc \<leftarrow> colour_of m wr;
     if wlc = RB_BLACK \<and> wrc = RB_BLACK then do {
       m \<leftarrow> (if w \<noteq> NIL then wr_colour m w RB_RED else Some m);
       xpp \<leftarrow> rd_parent m xp;
       erase_fixup_loop m xp xpp }
     else do {
       wr \<leftarrow> rd_right m w;
       wrc \<leftarrow> colour_of m wr;
       (m, w) \<leftarrow> (if wrc = RB_BLACK then do {
           wl \<leftarrow> rd_left m w;
           m \<leftarrow> (if wl \<noteq> NIL then wr_colour m wl RB_BLACK else Some m);
           m \<leftarrow> (if w \<noteq> NIL then wr_colour m w RB_RED else Some m);
           m \<leftarrow> rotate_right m w;
           w \<leftarrow> rd_right m xp;
           Some (m, w) }
         else Some (m, w));
       m \<leftarrow> final_left m xp w;
       erase_fixup_loop m (m_root m) NIL }}"

definition turn_right :: "rbmap \<Rightarrow> nat \<Rightarrow> nat \<Rightarrow> (rbmap \<times> nat) option" where
  "turn_right m xp w = do {
     wr \<leftarrow> rd_right m w;
     wrc \<leftarrow> colour_of m wr;
     wl \<leftarrow> (if wrc = RB_BLACK then rd_left m w else Some NIL);
     wlc \<leftarrow> colour_of m wl;
     if wrc = RB_BLACK \<and> wlc = RB_BLACK then do {
       m \<leftarrow> (if w \<noteq> NIL then wr_colour m w RB_RED else Some m);
       xpp \<leftarrow> (if xp \<noteq> NIL then rd_parent m xp else Some NIL);
       erase_fixup_loop m xp xpp }
     else do {
       wl \<leftarrow> rd_left m w;
       wlc \<leftarrow> colour_of m wl;
       (m, w) \<leftarrow> (if wlc = RB_BLACK then do {
           wr \<leftarrow> rd_right m w;
           m \<leftarrow> (if wr \<noteq> NIL then wr_colour m wr RB_BLACK else Some m);
           m \<leftarrow> (if w \<noteq> NIL then wr_colour m w RB_RED else Some m);
           m \<leftarrow> rotate_left m w;
           w \<leftarrow> (if xp \<noteq> NIL then rd_left m xp else Some NIL);
           Some (m, w) }
         else Some (m, w));
       m \<leftarrow> final_right m xp w;
       erase_fixup_loop m (m_root m) NIL }}"

lemma colour_of_NIL [simp]: "colour_of m NIL = Some RB_BLACK"
  by (simp add: colour_of_def)

lemma erase_loop_turn:
  "erase_fixup_loop m x xp = do {
     xc \<leftarrow> colour_of m x;
     if (x = NIL \<or> xc = RB_BLACK) \<and> x \<noteq> m_root m then do {
       isl \<leftarrow> (if xp \<noteq> NIL then do { l \<leftarrow> rd_left m xp; Some (x = l) } else Some False);
       if isl then do {
         w \<leftarrow> rd_right m xp;
         wc \<leftarrow> colour_of m w;
         (m, w) \<leftarrow> (if wc = RB_RED then do {
             m \<leftarrow> wr_colour m w RB_BLACK;
             m \<leftarrow> wr_colour m xp RB_RED;
             m \<leftarrow> rotate_left m xp;
             w \<leftarrow> rd_right m xp;
             Some (m, w) }
           else Some (m, w));
         turn_left m xp w }
       else do {
         w \<leftarrow> (if xp \<noteq> NIL then rd_left m xp else Some NIL);
         wc \<leftarrow> colour_of m w;
         (m, w) \<leftarrow> (if wc = RB_RED then do {
             m \<leftarrow> wr_colour m w RB_BLACK;
             m \<leftarrow> (if xp \<noteq> NIL then do { m \<leftarrow> wr_colour m xp RB_RED; rotate_right m xp } else Some m);
             w \<leftarrow> (if xp \<noteq> NIL then rd_left m xp else Some NIL);
             Some (m, w) }
           else Some (m, w));
         turn_right m xp w }}
     else Some (m, x) }"
  by (subst erase_fixup_loop.simps)
     (simp only: turn_left_def [abs_def] turn_right_def [abs_def] final_left_def final_right_def bind_assoc)

lemma final_left_repz:
  assumes "repz n m (Nd t p c (Nd wl w wc wr)) k" "wr \<noteq> Lf"
  shows "\<exists>m'. final_left m p w = Some m' \<and>
    repz n m' (Nd (Nd t p Black wl) w c (paint Black wr)) k \<and> rest m' = rest m"
proof -
  have 0: "repz n m (Nd wl w wc wr) (FR t p c # k)" using assms(1) by (simp add: repz_FR)
  let ?m1 = "setC m w (cw c)"
  have 1: "repz n ?m1 (Nd t p c (Nd wl w c wr)) k" "rest ?m1 = rest m"
    using setC_repz [OF 0, of c] by (auto simp: repz_FR)
  let ?m2 = "setC ?m1 p (cw Black)"
  have 2: "repz n ?m2 (Nd t p Black (Nd wl w c wr)) k" "rest ?m2 = rest m"
    using setC_repz [OF 1(1), of Black] 1(2) by auto
  then have w: "repz n ?m2 (Nd wl w c wr) (FR t p Black # k)" by (simp add: repz_FR)
  then have wr: "repz n ?m2 wr (FR wl w c # FR t p Black # k)" by (simp add: repz_FR)
  let ?m3 = "setC ?m2 (ntop wr) (cw Black)"
  have 3: "repz n ?m3 (Nd t p Black (Nd wl w c (paint Black wr))) k" "rest ?m3 = rest m"
    using repz_paint(1) [OF wr assms(2), of Black] 2(2) by (auto simp: repz_FR)
  obtain m' where m': "rotate_left ?m3 p = Some m'"
      "repz n m' (Nd (Nd t p Black wl) w c (paint Black wr)) k" "rest m' = rest m"
    using rotate_left_repz [OF 3(1)] 3(2) by auto
  obtain a i d b where wrn: "wr = Nd a i d b" using assms(2) by (cases wr) auto
  have "ntop wr \<noteq> NIL" using wr repz_read(6) [of n ?m2 a i d b] wrn by simp
  then show ?thesis
    using repz_read(4) [OF assms(1)] repz_read(6,9) [OF 0] repz_read(6,8) [OF 1(1)] repz_read(2) [OF w]
      repz_paint(3) [OF wr assms(2)] m'
    by (simp add: final_left_def)
qed

text \<open>The turn: \<open>delL\<close> or \<open>delR\<close>, then either one level up or to the end of the loop.\<close>

definition after :: "nat \<Rightarrow> (rbmap \<times> nat) option \<Rightarrow> rbmap \<Rightarrow> ntree \<Rightarrow> frame list \<Rightarrow> bool \<Rightarrow> bool" where
  "after n r m t k d \<longleftrightarrow> (\<exists>m'. repz n m' t k \<and> rest m' = rest m \<and>
     r = (if d then erase_fixup_loop m' (ntop t) (ptop k) else erase_fixup_loop m' (m_root m') NIL))"

lemma turn_left_repz:
  assumes "repz n m (Nd t p c (Nd wl w wc wr)) k" "delL t p c (Nd wl w wc wr) = (t', d)"
  shows "after n (turn_left m p w) m t' k d"
proof -
  have 0: "repz n m (Nd wl w wc wr) (FR t p c # k)" using assms(1) by (simp add: repz_FR)
  have cl: "colour_of m (ntop wl) = Some (ci (tcol wl))"
    using 0 by (intro repz_colour [of n _ _ "FL w wc wr # FR t p c # k"]) (simp add: repz_FL)
  have cr: "colour_of m (ntop wr) = Some (ci (tcol wr))"
    using 0 by (intro repz_colour [of n _ _ "FR wl w wc # FR t p c # k"]) (simp add: repz_FR)
  note rd = repz_read [OF 0] cl cr
  consider (both) "tcol wl = Black" "tcol wr = Black" | (inner) "tcol wl = Red" "tcol wr = Black"
    | (outer) "tcol wr = Red"
    by (cases "tcol wl"; cases "tcol wr") auto
  then show ?thesis
  proof cases
    case both
    let ?m = "setC m w (cw Red)"
    have "repz n ?m (Nd t p c (Nd wl w Red wr)) k" "rest ?m = rest m"
      using setC_repz [OF 0, of Red] by (auto simp: repz_FR)
    moreover from this have "turn_left m p w = erase_fixup_loop ?m p (ptop k)"
      using both rd repz_read(3,6) by (fastforce simp: turn_left_def)
    ultimately show ?thesis using assms(2) both by (auto simp: after_def)
  next
    case inner
    then obtain a v b where wl: "wl = Nd a v Red b" by (auto dest: tcol_Red_Nd)
    have v: "repz n m (Nd a v Red b) (FL w wc wr # FR t p c # k)" using 0 wl by (simp add: repz_FL)
    let ?m1 = "setC m v (cw Black)"
    have 1: "repz n ?m1 (Nd (Nd a v Black b) w wc wr) (FR t p c # k)" "rest ?m1 = rest m"
      using setC_repz [OF v, of Black] by (auto simp: repz_FL)
    let ?m2 = "setC ?m1 w (cw Red)"
    have 2: "repz n ?m2 (Nd (Nd a v Black b) w Red wr) (FR t p c # k)" "rest ?m2 = rest m"
      using setC_repz [OF 1(1), of Red] 1(2) by auto
    obtain m3 where m3: "rotate_right ?m2 w = Some m3"
        "repz n m3 (Nd a v Black (Nd b w Red wr)) (FR t p c # k)" "rest m3 = rest m"
      using rotate_right_repz [OF 2(1)] 2(2) by auto
    then have 3: "repz n m3 (Nd t p c (Nd a v Black (Nd b w Red wr))) k" by (simp add: repz_FR)
    obtain m' where m': "final_left m3 p v = Some m'"
        "repz n m' (Nd (Nd t p Black a) v c (paint Black (Nd b w Red wr))) k" "rest m' = rest m3"
      using final_left_repz [OF 3] by auto
    have "turn_left m p w = erase_fixup_loop m' (m_root m') NIL"
      using inner wl rd repz_read(6) [OF assms(1)] repz_read(6,8) [OF v] repz_read(7) [OF 1(1)] m3(1) repz_read(2) [OF 3] m'(1)
      by (simp add: turn_left_def)
    then show ?thesis using assms(2) inner wl m' m3(3) by (auto simp: after_def)
  next
    case outer
    then have "wr \<noteq> Lf" by auto
    then obtain m' where m': "final_left m p w = Some m'"
        "repz n m' (Nd (Nd t p Black wl) w c (paint Black wr)) k" "rest m' = rest m"
      using final_left_repz [OF assms(1)] by auto
    have "turn_left m p w = erase_fixup_loop m' (m_root m') NIL"
    proof (cases "tcol wl")
      case Red
      then show ?thesis using outer rd m'(1) by (simp add: turn_left_def)
    next
      case Black
      then show ?thesis using outer rd m'(1) by (simp add: turn_left_def)
    qed
    then show ?thesis using assms(2) outer m' by (auto simp: after_def)
  qed
qed

lemma final_right_repz:
  assumes "repz n m (Nd (Nd wl w wc wr) p c t) k" "wl \<noteq> Lf"
  shows "\<exists>m'. final_right m p w = Some m' \<and>
    repz n m' (Nd (paint Black wl) w c (Nd wr p Black t)) k \<and> rest m' = rest m"
proof -
  have 0: "repz n m (Nd wl w wc wr) (FL p c t # k)" using assms(1) by (simp add: repz_FL)
  let ?m1 = "setC m w (cw c)"
  have 1: "repz n ?m1 (Nd (Nd wl w c wr) p c t) k" "rest ?m1 = rest m"
    using setC_repz [OF 0, of c] by (auto simp: repz_FL)
  let ?m2 = "setC ?m1 p (cw Black)"
  have 2: "repz n ?m2 (Nd (Nd wl w c wr) p Black t) k" "rest ?m2 = rest m"
    using setC_repz [OF 1(1), of Black] 1(2) by auto
  then have w: "repz n ?m2 (Nd wl w c wr) (FL p Black t # k)" by (simp add: repz_FL)
  then have wl: "repz n ?m2 wl (FL w c wr # FL p Black t # k)" by (simp add: repz_FL)
  let ?m3 = "setC ?m2 (ntop wl) (cw Black)"
  have 3: "repz n ?m3 (Nd (Nd (paint Black wl) w c wr) p Black t) k" "rest ?m3 = rest m"
    using repz_paint(1) [OF wl assms(2), of Black] 2(2) by (auto simp: repz_FL)
  obtain m' where m': "rotate_right ?m3 p = Some m'"
      "repz n m' (Nd (paint Black wl) w c (Nd wr p Black t)) k" "rest m' = rest m"
    using rotate_right_repz [OF 3(1)] 3(2) by auto
  obtain a i d b where wrn: "wl = Nd a i d b" using assms(2) by (cases wl) auto
  have "ntop wl \<noteq> NIL" using wl repz_read(6) [of n ?m2 a i d b] wrn by simp
  then show ?thesis
    using repz_read(4) [OF assms(1)] repz_read(6,9) [OF 0] repz_read(6,8) [OF 1(1)] repz_read(1) [OF w]
      repz_paint(3) [OF wl assms(2)] m'
    by (simp add: final_right_def)
qed

lemma turn_right_repz:
  assumes "repz n m (Nd (Nd wl w wc wr) p c t) k" "delR (Nd wl w wc wr) p c t = (t', d)"
  shows "after n (turn_right m p w) m t' k d"
proof -
  have 0: "repz n m (Nd wl w wc wr) (FL p c t # k)" using assms(1) by (simp add: repz_FL)
  have cl: "colour_of m (ntop wr) = Some (ci (tcol wr))"
    using 0 by (intro repz_colour [of n _ _ "FR wl w wc # FL p c t # k"]) (simp add: repz_FR)
  have cr: "colour_of m (ntop wl) = Some (ci (tcol wl))"
    using 0 by (intro repz_colour [of n _ _ "FL w wc wr # FL p c t # k"]) (simp add: repz_FL)
  note rd = repz_read [OF 0] cl cr
  consider (both) "tcol wr = Black" "tcol wl = Black" | (inner) "tcol wr = Red" "tcol wl = Black"
    | (outer) "tcol wl = Red"
    by (cases "tcol wr"; cases "tcol wl") auto
  then show ?thesis
  proof cases
    case both
    let ?m = "setC m w (cw Red)"
    have "repz n ?m (Nd (Nd wl w Red wr) p c t) k" "rest ?m = rest m"
      using setC_repz [OF 0, of Red] by (auto simp: repz_FL)
    moreover from this have "turn_right m p w = erase_fixup_loop ?m p (ptop k)"
      using both rd repz_read(3,6) by (fastforce simp: turn_right_def)
    ultimately show ?thesis using assms(2) both by (auto simp: after_def)
  next
    case inner
    then obtain a v b where wr: "wr = Nd b v Red a" by (auto dest: tcol_Red_Nd)
    have v: "repz n m (Nd b v Red a) (FR wl w wc # FL p c t # k)" using 0 wr by (simp add: repz_FR)
    let ?m1 = "setC m v (cw Black)"
    have 1: "repz n ?m1 (Nd wl w wc (Nd b v Black a)) (FL p c t # k)" "rest ?m1 = rest m"
      using setC_repz [OF v, of Black] by (auto simp: repz_FR)
    let ?m2 = "setC ?m1 w (cw Red)"
    have 2: "repz n ?m2 (Nd wl w Red (Nd b v Black a)) (FL p c t # k)" "rest ?m2 = rest m"
      using setC_repz [OF 1(1), of Red] 1(2) by auto
    obtain m3 where m3: "rotate_left ?m2 w = Some m3"
        "repz n m3 (Nd (Nd wl w Red b) v Black a) (FL p c t # k)" "rest m3 = rest m"
      using rotate_left_repz [OF 2(1)] 2(2) by auto
    then have 3: "repz n m3 (Nd (Nd (Nd wl w Red b) v Black a) p c t) k" by (simp add: repz_FL)
    obtain m' where m': "final_right m3 p v = Some m'"
        "repz n m' (Nd (paint Black (Nd wl w Red b)) v c (Nd a p Black t)) k" "rest m' = rest m3"
      using final_right_repz [OF 3] by auto
    have "turn_right m p w = erase_fixup_loop m' (m_root m') NIL"
      using inner wr rd repz_read(6) [OF assms(1)] repz_read(6,8) [OF v] repz_read(7) [OF 1(1)] m3(1) repz_read(1) [OF 3] m'(1)
      by (simp add: turn_right_def)
    then show ?thesis using assms(2) inner wr m' m3(3) by (auto simp: after_def)
  next
    case outer
    then have "wl \<noteq> Lf" by auto
    then obtain m' where m': "final_right m p w = Some m'"
        "repz n m' (Nd (paint Black wl) w c (Nd wr p Black t)) k" "rest m' = rest m"
      using final_right_repz [OF assms(1)] by auto
    have "turn_right m p w = erase_fixup_loop m' (m_root m') NIL"
    proof (cases "tcol wr")
      case Red
      then show ?thesis using outer rd m'(1) by (simp add: turn_right_def)
    next
      case Black
      then show ?thesis using outer rd m'(1) by (simp add: turn_right_def)
    qed
    then show ?thesis using assms(2) outer m' by (auto simp: after_def)
  qed
qed

section \<open>The loop\<close>

lemma erase_exit:
  assumes "repz n m t k" "t \<noteq> Lf" "tcol t = Red \<or> k = []"
  shows "erase_fixup m (ntop t) xp = Some (setC m (ntop t) (cw Black)) \<and>
    repz n (setC m (ntop t) (cw Black)) (paint Black t) k \<and> rest (setC m (ntop t) (cw Black)) = rest m"
proof -
  obtain l i c r where t: "t = Nd l i c r" using assms(2) by (cases t) auto
  then have r: "repz n m (Nd l i c r) k" and root: "k = [] \<Longrightarrow> m_root m = i"
    using assms(1) by (auto simp: repz_def)
  note rd = repz_read [OF r]
  have "erase_fixup_loop m i xp = Some (m, i)"
    using rd(5,6) root assms(3) t by (subst erase_fixup_loop.simps) auto
  then show ?thesis
    using repz_paint(1) [OF assms(1,2), of Black] repz_paint(3) [OF assms(1,2)] rd(6) t by (simp add: erase_fixup_def)
qed

lemma erase_exit_empty:
  assumes "repz n m Lf []"
  shows "erase_fixup m NIL xp = Some m"
  using assms by (simp add: erase_fixup_def repz_def erase_fixup_loop.simps)

text \<open>The loop does not take an inner node for the root.\<close>

lemma repk_root_in: "repk m h k \<Longrightarrow> k \<noteq> [] \<Longrightarrow> m_root m \<in> kn k"
proof (induction m h k rule: repk.induct)
  case (2 m h i c r k)
  then show ?case by (cases k) auto
next
  case (3 m h l i c k)
  then show ?case by (cases k) auto
qed simp

lemma not_root:
  assumes "repz n m t k" "k \<noteq> []"
  shows "ntop t \<noteq> m_root m"
proof -
  have "m_root m \<in> kn k" using assms repk_root_in by (auto simp: repz_def)
  moreover have "m_root m \<noteq> NIL"
    using calculation assms kn_lt [of n t k] soa_ok_lt_NIL [of n m "m_root m"] by (auto simp: repz_def)
  moreover have "set (ino t) \<inter> kn k = {}" using assms by (auto simp: repz_def nodup_def kn_def)
  ultimately show ?thesis by (cases t) auto
qed

lemma plug_Nd: "t \<noteq> Lf \<Longrightarrow> plug t k \<noteq> Lf"
  by (induction t k rule: plug.induct) auto

text \<open>What remains after a turn.\<close>

lemma after_top:
  assumes "after n r m t k d" "t \<noteq> Lf" "\<not> d \<or> tcol t = Red" "rb_valid (plug (settle (t, d)) k)"
  shows "\<exists>m'. do { (m, x) \<leftarrow> r; if x \<noteq> NIL then wr_colour m x RB_BLACK else Some m } = Some m' \<and>
    repz n m' (plug (settle (t, d)) k) [] \<and> rest m' = rest m"
proof -
  obtain m1 where m1: "repz n m1 t k" "rest m1 = rest m"
      "r = (if d then erase_fixup_loop m1 (ntop t) (ptop k) else erase_fixup_loop m1 (m_root m1) NIL)"
    using assms(1) by (auto simp: after_def)
  show ?thesis
  proof (cases d)
    case True
    then have "tcol t = Red" using assms(3) by simp
    then show ?thesis
      using erase_exit [OF m1(1) assms(2), of "ptop k"] m1(2,3) True
      by (simp add: erase_fixup_def settle_def repz_plug_Nil)
  next
    case False
    have T: "repz n m1 (plug t k) []" using m1(1) by (simp add: repz_plug_Nil)
    have ne: "plug t k \<noteq> Lf" using assms(2) by (rule plug_Nd)
    have "m_root m1 = ntop (plug t k)" using T by (simp add: repz_def)
    moreover have "paint Black (plug t k) = plug t k"
      using assms(4) False by (intro paint_Black_id) (simp add: settle_def rb_valid_def)
    ultimately show ?thesis
      using erase_exit [OF T ne, of NIL] m1(2,3) False by (simp add: erase_fixup_def settle_def)
  qed
qed

lemma settle_not: "settle (t, False) = t"
  by (simp add: settle_def)

text \<open>One turn of the loop below the parent \<open>p\<close>, with a red or a black sibling.\<close>

lemma erase_turn_left:
  assumes "repz n m t (FL p c w # k)" "tcol t = Black" "w \<noteq> Lf"
  shows "erase_fixup m (ntop t) p = do {
     (m, w) \<leftarrow> (if tcol w = Red then do {
         m \<leftarrow> wr_colour m (ntop w) RB_BLACK;
         m \<leftarrow> wr_colour m p RB_RED;
         m \<leftarrow> rotate_left m p;
         w \<leftarrow> rd_right m p;
         Some (m, w) }
       else Some (m, ntop w));
     (m, x) \<leftarrow> turn_left m p w;
     if x \<noteq> NIL then wr_colour m x RB_BLACK else Some m }"
proof -
  have p: "repz n m (Nd t p c w) k" using assms(1) by (simp add: repz_FL)
  then have "repz n m w (FR t p c # k)" by (simp add: repz_FR)
  note w = repz_colour [OF this]
  have "ntop t \<noteq> m_root m" using not_root [OF assms(1)] by simp
  moreover have "colour_of m (ntop t) = Some RB_BLACK" using repz_colour [OF assms(1)] assms(2) by simp
  moreover have "ntop t \<noteq> ntop w" using repz_ne(5) [OF p assms(3)] .
  ultimately show ?thesis
    using repz_read(1,2,6) [OF p] w assms(2)
    by (simp add: erase_fixup_def erase_loop_turn [of m "ntop t" p] case_prod_beta bind_assoc)
qed

text \<open>A red sibling is rotated above the parent, which turns red: the turn then ends the loop.\<close>

lemma erase_red_left:
  assumes "repz n m t (FL p Black (Nd wl wi Red wr) # k)" "lacks h t" "tcol t = Black"
    and "rbk (Suc h) (FL p Black (Nd wl wi Red wr) # k)"
  shows "\<exists>m'. erase_fixup m (ntop t) p = Some m' \<and>
    repz n m' (del_fix t (FL p Black (Nd wl wi Red wr) # k)) [] \<and> rest m' = rest m"
proof -
  let ?k = "FL p Black (Nd wl wi Red wr) # k"
  have val: "rb_valid (del_fix t ?k)" using del_fix_valid [OF assms(2,4)] by simp
  have t: "rb h t" using assms(2,3) by (simp add: lacks_def)
  have wl: "rb (Suc h) wl" "tcol wl = Black" "rb (Suc h) wr" "tcol wr = Black" using assms(4) by auto
  then obtain vl v vr where v: "wl = Nd vl v Black vr" by (cases wl) auto
  have 0: "repz n m (Nd wl wi Red wr) (FR t p Black # k)" using assms(1) by (simp add: repz_FL repz_FR)
  let ?m1 = "setC m wi (cw Black)"
  have 1: "repz n ?m1 (Nd t p Black (Nd wl wi Black wr)) k" "rest ?m1 = rest m"
    using setC_repz [OF 0, of Black] by (auto simp: repz_FR)
  let ?m2 = "setC ?m1 p (cw Red)"
  have 2: "repz n ?m2 (Nd t p Red (Nd wl wi Black wr)) k" "rest ?m2 = rest m"
    using setC_repz [OF 1(1), of Red] 1(2) by auto
  obtain m3 where m3: "rotate_left ?m2 p = Some m3" "rest m3 = rest m"
      "repz n m3 (Nd (Nd t p Red wl) wi Black wr) k"
    using rotate_left_repz [OF 2(1)] 2(2) by auto
  then have 3: "repz n m3 (Nd t p Red wl) (FL wi Black wr # k)" by (simp add: repz_FL)
  obtain t' d where d: "delL t p Red wl = (t', d)" by fastforce
  note D = delL_rb [OF t assms(3) wl(1,2) d]
  have "after n (turn_left m3 p v) m3 t' (FL wi Black wr # k) d"
    using turn_left_repz [OF 3 [unfolded v] d [unfolded v]] .
  moreover have "plug (settle (t', d)) (FL wi Black wr # k) = del_fix t ?k"
    using assms(3) d by simp
  ultimately obtain m' where m': "do { (m, x) \<leftarrow> turn_left m3 p v;
      if x \<noteq> NIL then wr_colour m x RB_BLACK else Some m } = Some m'"
      "repz n m' (del_fix t ?k) []" "rest m' = rest m3"
    using after_top [of n _ m3 t' "FL wi Black wr # k" d] val D by auto
  have "erase_fixup m (ntop t) p = Some m'"
    using erase_turn_left [OF assms(1,3)] repz_read(8) [OF 0] repz_read(7) [OF 1(1)] m3(1)
      repz_read(2) [OF 3] v m'(1) by simp
  then show ?thesis using m'(2,3) m3(2) by auto
qed

lemma erase_turn_right:
  assumes "repz n m t (FR w p c # k)" "tcol t = Black" "w \<noteq> Lf"
  shows "erase_fixup m (ntop t) p = do {
     (m, w) \<leftarrow> (if tcol w = Red then do {
         m \<leftarrow> wr_colour m (ntop w) RB_BLACK;
         m \<leftarrow> wr_colour m p RB_RED;
         m \<leftarrow> rotate_right m p;
         w \<leftarrow> rd_left m p;
         Some (m, w) }
       else Some (m, ntop w));
     (m, x) \<leftarrow> turn_right m p w;
     if x \<noteq> NIL then wr_colour m x RB_BLACK else Some m }"
proof -
  have p: "repz n m (Nd w p c t) k" using assms(1) by (simp add: repz_FR)
  then have "repz n m w (FL p c t # k)" by (simp add: repz_FL)
  note w = repz_colour [OF this]
  have "ntop t \<noteq> m_root m" using not_root [OF assms(1)] by simp
  moreover have "colour_of m (ntop t) = Some RB_BLACK" using repz_colour [OF assms(1)] assms(2) by simp
  moreover have "ntop t \<noteq> ntop w" using repz_ne(4) [OF p assms(3)] by simp
  ultimately show ?thesis
    using repz_read(1,2,6) [OF p] w assms(2)
    by (simp add: erase_fixup_def erase_loop_turn [of m "ntop t" p] case_prod_beta bind_assoc)
qed

text \<open>A red sibling is rotated above the parent, which turns red: the turn then ends the loop.\<close>

lemma erase_red_right:
  assumes "repz n m t (FR (Nd wl wi Red wr) p Black # k)" "lacks h t" "tcol t = Black"
    and "rbk (Suc h) (FR (Nd wl wi Red wr) p Black # k)"
  shows "\<exists>m'. erase_fixup m (ntop t) p = Some m' \<and>
    repz n m' (del_fix t (FR (Nd wl wi Red wr) p Black # k)) [] \<and> rest m' = rest m"
proof -
  let ?k = "FR (Nd wl wi Red wr) p Black # k"
  have val: "rb_valid (del_fix t ?k)" using del_fix_valid [OF assms(2,4)] by simp
  have t: "rb h t" using assms(2,3) by (simp add: lacks_def)
  have wl: "rb (Suc h) wl" "tcol wl = Black" "rb (Suc h) wr" "tcol wr = Black" using assms(4) by auto
  then obtain vl v vr where v: "wr = Nd vl v Black vr" by (cases wr) auto
  have 0: "repz n m (Nd wl wi Red wr) (FL p Black t # k)" using assms(1) by (simp add: repz_FR repz_FL)
  let ?m1 = "setC m wi (cw Black)"
  have 1: "repz n ?m1 (Nd (Nd wl wi Black wr) p Black t) k" "rest ?m1 = rest m"
    using setC_repz [OF 0, of Black] by (auto simp: repz_FL)
  let ?m2 = "setC ?m1 p (cw Red)"
  have 2: "repz n ?m2 (Nd (Nd wl wi Black wr) p Red t) k" "rest ?m2 = rest m"
    using setC_repz [OF 1(1), of Red] 1(2) by auto
  obtain m3 where m3: "rotate_right ?m2 p = Some m3" "rest m3 = rest m"
      "repz n m3 (Nd wl wi Black (Nd wr p Red t)) k"
    using rotate_right_repz [OF 2(1)] 2(2) by auto
  then have 3: "repz n m3 (Nd wr p Red t) (FR wl wi Black # k)" by (simp add: repz_FR)
  obtain t' d where d: "delR wr p Red t = (t', d)" by fastforce
  note D = delR_rb [OF t assms(3) wl(3,4) d]
  have "after n (turn_right m3 p v) m3 t' (FR wl wi Black # k) d"
    using turn_right_repz [OF 3 [unfolded v] d [unfolded v]] .
  moreover have "plug (settle (t', d)) (FR wl wi Black # k) = del_fix t ?k"
    using assms(3) d by simp
  ultimately obtain m' where m': "do { (m, x) \<leftarrow> turn_right m3 p v;
      if x \<noteq> NIL then wr_colour m x RB_BLACK else Some m } = Some m'"
      "repz n m' (del_fix t ?k) []" "rest m' = rest m3"
    using after_top [of n _ m3 t' "FR wl wi Black # k" d] val D by auto
  have "erase_fixup m (ntop t) p = Some m'"
    using erase_turn_right [OF assms(1,3)] repz_read(8) [OF 0] repz_read(7) [OF 1(1)] m3(1)
      repz_read(1,6) [OF 3] v m'(1) by simp
  then show ?thesis using m'(2,3) m3(2) by auto
qed


lemma erase_fixup_refines:
  "\<lbrakk>repz n m t k; lacks h t; rbk (Suc h) k\<rbrakk> \<Longrightarrow>
   \<exists>m'. erase_fixup m (ntop t) (ptop k) = Some m' \<and> repz n m' (del_fix t k) [] \<and> rest m' = rest m"
proof (induction t k arbitrary: m h rule: del_fix.induct)
  case (1 t m h)
  show ?case
  proof (cases "t = Lf")
    case True
    then show ?thesis using 1 erase_exit_empty [of n m NIL] by simp
  next
    case False
    then show ?thesis using erase_exit [OF 1(1)] by simp
  qed
next
  case (2 t p c w k)
  note K = 2(5) [unfolded rbk_FL hgt_Suc]
  show ?case
  proof (cases "tcol t")
    case Red
    then have "t \<noteq> Lf" by auto
    then show ?thesis
      using erase_exit [OF 2(3)] Red by (simp add: repz_plug_Nil del: plug.simps)
  next
    case Black
    then have t: "rb h t" using 2(4) by (simp add: lacks_def)
    have w: "rb (Suc h) w" using K by simp
    then obtain wl wi wc wr where wn: "w = Nd wl wi wc wr" by (cases w) auto
    show ?thesis
    proof (cases wc)
      case Red
      then have "c = Black" using K wn by (cases c) auto
      then show ?thesis using erase_red_left [of n m t p wl wi wr k h] 2(3-5) wn Red Black by simp
    next
      case wb: Black
      obtain t' d where d: "delL t p c w = (t', d)" by fastforce
      note D = delL_rb [OF t Black w _ d]
      have "repz n m (Nd t p c (Nd wl wi wc wr)) k" using 2(3) wn by (simp add: repz_FL)
      then have aft: "after n (turn_left m p wi) m t' k d"
        using turn_left_repz d wn by blast
      have eq: "erase_fixup m (ntop t) p = do { (m, x) \<leftarrow> turn_left m p wi;
          if x \<noteq> NIL then wr_colour m x RB_BLACK else Some m }"
        using erase_turn_left [OF 2(3) Black] wn wb by simp
      show ?thesis
      proof (cases d)
        case False
        then have "del_fix t (FL p c w # k) = plug (settle (t', d)) k"
          using Black d wn wb by (simp add: settle_not)
        then show ?thesis
          using after_top [OF aft] D False del_fix_valid [OF 2(4,5)] eq wn wb by auto
      next
        case True
        then have l: "lacks (hgt c h) t'" using D wn wb by (intro lacks_step) auto
        obtain m1 where m1: "repz n m1 t' k" "rest m1 = rest m"
            "turn_left m p wi = erase_fixup_loop m1 (ntop t') (ptop k)"
          using aft True by (auto simp: after_def)
        then obtain m' where "erase_fixup m1 (ntop t') (ptop k) = Some m'"
            "repz n m' (del_fix t' k) []" "rest m' = rest m1"
          using 2(2) [OF _ wn wb d [symmetric] True m1(1) l] K Black by auto
        then show ?thesis
          using eq m1(2,3) Black d wn wb True by (simp add: erase_fixup_def)
      qed
    qed
  qed
next
  case (3 t w p c k)
  note K = 3(5) [unfolded rbk_FR hgt_Suc]
  show ?case
  proof (cases "tcol t")
    case Red
    then have "t \<noteq> Lf" by auto
    then show ?thesis
      using erase_exit [OF 3(3)] Red by (simp add: repz_plug_Nil del: plug.simps)
  next
    case Black
    then have t: "rb h t" using 3(4) by (simp add: lacks_def)
    have w: "rb (Suc h) w" using K by simp
    then obtain wl wi wc wr where wn: "w = Nd wl wi wc wr" by (cases w) auto
    show ?thesis
    proof (cases wc)
      case Red
      then have "c = Black" using K wn by (cases c) auto
      then show ?thesis using erase_red_right [of n m t wl wi wr p k h] 3(3-5) wn Red Black by simp
    next
      case wb: Black
      obtain t' d where d: "delR w p c t = (t', d)" by fastforce
      note D = delR_rb [OF t Black w _ d]
      have "repz n m (Nd (Nd wl wi wc wr) p c t) k" using 3(3) wn by (simp add: repz_FR)
      then have aft: "after n (turn_right m p wi) m t' k d"
        using turn_right_repz d wn by blast
      have eq: "erase_fixup m (ntop t) p = do { (m, x) \<leftarrow> turn_right m p wi;
          if x \<noteq> NIL then wr_colour m x RB_BLACK else Some m }"
        using erase_turn_right [OF 3(3) Black] wn wb by simp
      show ?thesis
      proof (cases d)
        case False
        then have "del_fix t (FR w p c # k) = plug (settle (t', d)) k"
          using Black d wn wb by (simp add: settle_not)
        then show ?thesis
          using after_top [OF aft] D False del_fix_valid [OF 3(4,5)] eq wn wb by auto
      next
        case True
        then have l: "lacks (hgt c h) t'" using D wn wb by (intro lacks_step) auto
        obtain m1 where m1: "repz n m1 t' k" "rest m1 = rest m"
            "turn_right m p wi = erase_fixup_loop m1 (ntop t') (ptop k)"
          using aft True by (auto simp: after_def)
        then obtain m' where "erase_fixup m1 (ntop t') (ptop k) = Some m'"
            "repz n m' (del_fix t' k) []" "rest m' = rest m1"
          using 3(2) [OF _ wn wb d [symmetric] True m1(1) l] K Black by auto
        then show ?thesis
          using eq m1(2,3) Black d wn wb True by (simp add: erase_fixup_def)
      qed
    qed
  qed
qed

end
