(* ===== verification/RbSearch.thy ===== *)
theory RbSearch
  imports RbErase
begin

text \<open>
  Searching the ordered map: the contract of the comparator, and what the descents of
  \<^verbatim>\<open>find_index\<close>, \<^verbatim>\<open>map_insert\<close>, \<^verbatim>\<open>minimum_node\<close>, \<^verbatim>\<open>maximum_node\<close> and the two bounds find in a sorted
  tree.  Every descent ends, because it walks a finite tree.
\<close>

section \<open>Comparators\<close>

text \<open>What the header asks of a comparator: a strict weak order.\<close>

locale key_order =
  fixes cmp :: keycmp
  assumes cmp_swap: "cmp a b < 0 \<longleftrightarrow> cmp b a > 0"
    and cmp_trans: "cmp a b \<le> 0 \<Longrightarrow> cmp b c \<le> 0 \<Longrightarrow> cmp a c \<le> 0"
begin

lemma cmp_eq_sym: "cmp a b = 0 \<longleftrightarrow> cmp b a = 0"
  using cmp_swap [of a b] cmp_swap [of b a] by linarith

lemma cmp_refl: "cmp a a = 0"
  using cmp_swap [of a a] by linarith

lemma cmp_le_lt: "cmp a b \<le> 0 \<Longrightarrow> cmp b c < 0 \<Longrightarrow> cmp a c < 0"
  using cmp_trans [of a b c] cmp_trans [of c a b] cmp_swap [of a c] cmp_swap [of c a]
    cmp_swap [of b c] cmp_swap [of c b] by linarith

lemma cmp_lt_le: "cmp a b < 0 \<Longrightarrow> cmp b c \<le> 0 \<Longrightarrow> cmp a c < 0"
  using cmp_trans [of a b c] cmp_trans [of b c a] cmp_swap [of a c] cmp_swap [of c a]
    cmp_swap [of a b] cmp_swap [of b a] by linarith

lemma cmp_lt_trans: "cmp a b < 0 \<Longrightarrow> cmp b c < 0 \<Longrightarrow> cmp a c < 0"
  by (rule cmp_le_lt [of a b c]) simp_all

end

lemma map_cmp_u64_order: "key_order map_cmp_u64"
  by unfold_locales (auto simp: map_cmp_u64_def split: if_splits)

interpretation u64: key_order map_cmp_u64
  by (rule map_cmp_u64_order)

section \<open>Sorted trees\<close>

definition lt_at :: "rbmap \<Rightarrow> nat \<Rightarrow> nat \<Rightarrow> bool" where
  "lt_at m i j \<longleftrightarrow> m_cmp m (fK m i) (fK m j) < 0"

definition rb_sorted :: "rbmap \<Rightarrow> nat list \<Rightarrow> bool" where
  "rb_sorted m is \<longleftrightarrow> sorted_wrt (lt_at m) is"

lemma find_loop_NIL [simp]: "find_loop m key NIL = Some NIL"
  by (subst find_loop.simps) simp

lemma descend_NIL [simp]: "descend m key p NIL = Some (Inr p)"
  by (subst descend.simps) simp

lemma repz_key:
  assumes "repz n m (Nd l i c r) k"
  shows "rd_key m i = Some (fK m i)" "rd_val m i = Some (fV m i)"
  using repz_node [OF assms] by (simp_all add: rd_store [of n])

text \<open>The two descents, from a subtree whose surroundings are already known to be smaller and larger
  than the key: they stop at a node with an equal key, or at the gap where the key belongs.\<close>

definition gap :: "rbmap \<Rightarrow> nat \<Rightarrow> frame list \<Rightarrow> bool" where
  "gap m key k \<longleftrightarrow> (\<forall>i\<in>set (kl k). m_cmp m (fK m i) key < 0) \<and> (\<forall>i\<in>set (kr k). m_cmp m key (fK m i) < 0)"

definition hit :: "rbmap \<Rightarrow> nat \<Rightarrow> ntree \<Rightarrow> nat \<Rightarrow> bool" where
  "hit m key t i \<longleftrightarrow> m_cmp m key (fK m i) = 0 \<and> (\<exists>l c r k. t = plug (Nd l i c r) k)"

lemma sorted_node:
  assumes "rb_sorted m (ino (plug (Nd l i c r) k))"
  shows "j \<in> set (ino l) \<Longrightarrow> lt_at m j i" "j \<in> set (ino r) \<Longrightarrow> lt_at m i j"
    "j \<in> set (kl k) \<Longrightarrow> lt_at m j i" "j \<in> set (kr k) \<Longrightarrow> lt_at m i j"
  using assms by (auto simp: rb_sorted_def sorted_wrt_append)

lemma gap_left:
  assumes "key_order (m_cmp m)" "rb_sorted m (ino (plug (Nd l i c r) k))" "gap m key k"
    and "m_cmp m key (fK m i) < 0"
  shows "gap m key (FL i c r # k)"
  using assms(3,4) sorted_node(2) [OF assms(2)] key_order.cmp_lt_trans [OF assms(1,4)]
  by (auto simp: gap_def lt_at_def)

lemma gap_right:
  assumes "key_order (m_cmp m)" "rb_sorted m (ino (plug (Nd l i c r) k))" "gap m key k"
    and "m_cmp m key (fK m i) > 0"
  shows "gap m key (FR l i c # k)"
proof -
  have "m_cmp m (fK m i) key < 0" using assms(4) key_order.cmp_swap [OF assms(1)] by blast
  then show ?thesis
    using assms(3) sorted_node(1) [OF assms(2)] key_order.cmp_lt_trans [OF assms(1)]
    unfolding gap_def lt_at_def by auto
qed

lemma search_spec:
  assumes "key_order (m_cmp m)"
  shows "\<lbrakk>repz n m t k; rb_sorted m (ino (plug t k)); gap m key k\<rbrakk> \<Longrightarrow>
    (\<exists>i. find_loop m key (ntop t) = Some i \<and> descend m key (ptop k) (ntop t) = Some (Inl i) \<and>
       hit m key (plug t k) i) \<or>
    (\<exists>k'. find_loop m key (ntop t) = Some NIL \<and> descend m key (ptop k) (ntop t) = Some (Inr (ptop k')) \<and>
       plug Lf k' = plug t k \<and> gap m key k')"
proof (induction t arbitrary: k)
  case (Nd l i c r)
  note rd = repz_read(1,2,6) [OF Nd(3)] repz_key(1) [OF Nd(3)]
  let ?c = "m_cmp m key (fK m i)"
  consider "?c = 0" | "?c < 0" | "?c > 0" by linarith
  then show ?case
  proof cases
    case 1
    have "find_loop m key i = Some i" "descend m key (ptop k) i = Some (Inl i)"
      by (subst find_loop.simps, simp add: Let_def rd 1) (subst descend.simps, simp add: Let_def rd 1)
    moreover have "hit m key (plug (Nd l i c r) k) i" using 1 by (auto simp: hit_def)
    ultimately show ?thesis by simp
  next
    case 2
    then have sg: "?c \<noteq> 0" "?c < 0" by simp_all
    have "find_loop m key i = find_loop m key (ntop l)"
      "descend m key (ptop k) i = descend m key i (ntop l)"
      by (subst find_loop.simps, simp add: Let_def rd sg) (subst descend.simps, simp add: Let_def rd sg)
    then show ?thesis
      using Nd(1) [of "FL i c r # k"] Nd(3,4) gap_left [OF assms Nd(4,5) 2] by (simp add: repz_FL)
  next
    case 3
    then have sg: "?c \<noteq> 0" "\<not> ?c < 0" by simp_all
    have "find_loop m key i = find_loop m key (ntop r)"
      "descend m key (ptop k) i = descend m key i (ntop r)"
      by (subst find_loop.simps, simp add: Let_def rd sg) (subst descend.simps, simp add: Let_def rd sg)
    then show ?thesis
      using Nd(2) [of "FR l i c # k"] Nd(3,4) gap_right [OF assms Nd(4,5) 3] by (simp add: repz_FR)
  qed
qed auto

section \<open>The extreme nodes of a subtree\<close>

lemma minimum_node_spec:
  "\<lbrakk>repz n m t k; t \<noteq> Lf\<rbrakk> \<Longrightarrow> \<exists>y c r ks. minimum_node m (ntop t) = Some y \<and>
     t = plug (Nd Lf y c r) ks \<and> kl ks = []"
proof (induction t arbitrary: k)
  case (Nd l i c r)
  note rd = repz_read(1,6) [OF Nd(3)]
  show ?case
  proof (cases "l = Lf")
    case True
    then have "minimum_node m i = Some i" using rd by (subst minimum_node.simps) simp
    then show ?thesis using True by (intro exI [of _ i] exI [of _ c] exI [of _ r] exI [of _ "[]"]) simp
  next
    case False
    have "repz n m l (FL i c r # k)" using Nd(3) by (simp add: repz_FL)
    then obtain y d s ks where y: "minimum_node m (ntop l) = Some y" "l = plug (Nd Lf y d s) ks" "kl ks = []"
      using Nd(1) False by blast
    have "ntop l \<noteq> NIL" using False \<open>repz n m l (FL i c r # k)\<close> by (cases l) (auto dest: repz_read(6))
    then have "minimum_node m i = Some y" using y(1) rd by (subst minimum_node.simps) simp
    then show ?thesis
      using y by (intro exI [of _ y] exI [of _ d] exI [of _ s] exI [of _ "ks @ [FL i c r]"]) simp
  qed
qed simp

lemma maximum_node_spec:
  "\<lbrakk>repz n m t k; t \<noteq> Lf\<rbrakk> \<Longrightarrow> \<exists>y c l ks. maximum_node m (ntop t) = Some y \<and>
     t = plug (Nd l y c Lf) ks \<and> kr ks = []"
proof (induction t arbitrary: k)
  case (Nd l i c r)
  note rd = repz_read(2,6) [OF Nd(3)]
  show ?case
  proof (cases "r = Lf")
    case True
    then have "maximum_node m i = Some i" using rd by (subst maximum_node.simps) simp
    then show ?thesis using True by (intro exI [of _ i] exI [of _ c] exI [of _ l] exI [of _ "[]"]) simp
  next
    case False
    have r: "repz n m r (FR l i c # k)" using Nd(3) by (simp add: repz_FR)
    then obtain y d s ks where y: "maximum_node m (ntop r) = Some y" "r = plug (Nd s y d Lf) ks" "kr ks = []"
      using Nd(2) False by blast
    have "ntop r \<noteq> NIL" using False r by (cases r) (auto dest: repz_read(6))
    then have "maximum_node m i = Some y" using y(1) rd by (subst maximum_node.simps) simp
    then show ?thesis
      using y by (intro exI [of _ y] exI [of _ d] exI [of _ s] exI [of _ "ks @ [FR l i c]"]) simp
  qed
qed simp

end
