(* ===== verification/RbMapSpec.thy ===== *)
theory RbMapSpec
  imports RbSearch
begin

text \<open>
  The ordered map refines a sorted association list.  \<open>rb_view m xs\<close> says that the arrays of \<open>m\<close>
  hold a red-black tree whose entries, in order, are \<open>xs\<close>; \<open>rb_ok m xs\<close> adds what an insertion
  needs: six vectors of the same length and a free list of unused slots.
\<close>

section \<open>The specification\<close>

type_synonym entries = "(nat \<times> nat) list"

fun al_lookup :: "keycmp \<Rightarrow> entries \<Rightarrow> nat \<Rightarrow> nat option" where
  "al_lookup cmp [] key = None"
| "al_lookup cmp ((a, b) # xs) key = (if cmp key a = 0 then Some b else al_lookup cmp xs key)"

fun al_insert :: "keycmp \<Rightarrow> nat \<Rightarrow> nat \<Rightarrow> entries \<Rightarrow> entries" where
  "al_insert cmp key val [] = [(key, val)]"
| "al_insert cmp key val ((a, b) # xs) =
     (if cmp key a < 0 then (key, val) # (a, b) # xs
      else if cmp key a = 0 then (a, val) # xs
      else (a, b) # al_insert cmp key val xs)"

definition al_erase :: "keycmp \<Rightarrow> nat \<Rightarrow> entries \<Rightarrow> entries" where
  "al_erase cmp key xs = List.filter (\<lambda>(a, b). cmp key a \<noteq> 0) xs"

definition al_sorted :: "keycmp \<Rightarrow> entries \<Rightarrow> bool" where
  "al_sorted cmp xs = sorted_wrt (\<lambda>x y. cmp (fst x) (fst y) < 0) xs"

section \<open>The abstraction\<close>

definition entries :: "rbmap \<Rightarrow> nat list \<Rightarrow> entries" where
  "entries m is = map (\<lambda>i. (fK m i, fV m i)) is"

definition rb_view :: "rbmap \<Rightarrow> entries \<Rightarrow> bool" where
  "rb_view m xs \<longleftrightarrow> (\<exists>n t. repz n m t [] \<and> rb_valid t \<and> rb_sorted m (ino t) \<and> xs = entries m (ino t))"

definition slots_ok :: "nat \<Rightarrow> rbmap \<Rightarrow> nat list \<Rightarrow> bool" where
  "slots_ok n m is \<longleftrightarrow> (\<forall>v\<in>set (soa_vecs (m_a m)). v_count v = n) \<and> vec_ok (m_free m) \<and>
     distinct (vec_list (m_free m)) \<and> set (vec_list (m_free m)) \<subseteq> {..<n} - set is \<and>
     m_count m = length is"

definition rb_ok :: "rbmap \<Rightarrow> entries \<Rightarrow> bool" where
  "rb_ok m xs \<longleftrightarrow> (\<exists>n t. repz n m t [] \<and> rb_valid t \<and> rb_sorted m (ino t) \<and> slots_ok n m (ino t) \<and>
     xs = entries m (ino t))"

lemma rb_ok_view: "rb_ok m xs \<Longrightarrow> rb_view m xs"
  by (auto simp: rb_ok_def rb_view_def)

lemma entries_append [simp]: "entries m (is @ js) = entries m is @ entries m js"
  and entries_Cons [simp]: "entries m (i # is) = (fK m i, fV m i) # entries m is"
  and entries_Nil [simp]: "entries m [] = []"
  by (simp_all add: entries_def)

lemma entries_cong: "(\<And>i. i \<in> set is \<Longrightarrow> fK m' i = fK m i \<and> fV m' i = fV m i) \<Longrightarrow> entries m' is = entries m is"
  by (simp add: entries_def)

lemma rb_sorted_entries: "rb_sorted m is \<longleftrightarrow> al_sorted (m_cmp m) (entries m is)"
  by (simp add: rb_sorted_def al_sorted_def entries_def sorted_wrt_map lt_at_def [abs_def])

section \<open>Laws of sorted association lists\<close>

context key_order begin

lemma al_skip:
  assumes "\<forall>x\<in>set xs. cmp (fst x) key < 0"
  shows "al_lookup cmp (xs @ ys) key = al_lookup cmp ys key"
    "al_insert cmp key val (xs @ ys) = xs @ al_insert cmp key val ys"
    "al_erase cmp key (xs @ ys) = xs @ al_erase cmp key ys"
proof -
  have "\<forall>x\<in>set xs. 0 < cmp key (fst x)" using assms cmp_swap by auto
  then show "al_lookup cmp (xs @ ys) key = al_lookup cmp ys key"
    "al_insert cmp key val (xs @ ys) = xs @ al_insert cmp key val ys"
    "al_erase cmp key (xs @ ys) = xs @ al_erase cmp key ys"
    by (induction xs) (auto simp: al_erase_def)
qed

lemma al_all_above:
  assumes "\<forall>y\<in>set ys. cmp key (fst y) < 0"
  shows "al_lookup cmp ys key = None" "al_insert cmp key val ys = (key, val) # ys"
    "al_erase cmp key ys = ys"
proof -
  show "al_lookup cmp ys key = None" using assms by (induction ys) auto
  show "al_insert cmp key val ys = (key, val) # ys" using assms by (cases ys) auto
  show "al_erase cmp key ys = ys" using assms by (induction ys) (auto simp: al_erase_def)
qed

lemma al_sorted_append: "al_sorted cmp (xs @ ys) \<longleftrightarrow>
    al_sorted cmp xs \<and> al_sorted cmp ys \<and> (\<forall>x\<in>set xs. \<forall>y\<in>set ys. cmp (fst x) (fst y) < 0)"
  and al_sorted_Cons: "al_sorted cmp (x # ys) \<longleftrightarrow>
    (\<forall>y\<in>set ys. cmp (fst x) (fst y) < 0) \<and> al_sorted cmp ys"
  by (simp_all add: al_sorted_def sorted_wrt_append)

text \<open>Around an entry whose key equals the key looked for.\<close>

lemma al_hit:
  assumes "al_sorted cmp (xs @ (a, b) # ys)" "cmp key a = 0"
  shows "al_lookup cmp (xs @ (a, b) # ys) key = Some b"
    "al_insert cmp key val (xs @ (a, b) # ys) = xs @ (a, val) # ys"
    "al_erase cmp key (xs @ (a, b) # ys) = xs @ ys"
proof -
  have below: "\<forall>x\<in>set xs. cmp (fst x) key < 0"
    using assms cmp_lt_le [of _ a key] cmp_eq_sym [of a key] by (auto simp: al_sorted_append)
  have above: "\<forall>y\<in>set ys. cmp key (fst y) < 0"
    using assms cmp_le_lt [of key a] by (auto simp: al_sorted_append al_sorted_Cons)
  show "al_lookup cmp (xs @ (a, b) # ys) key = Some b"
    "al_insert cmp key val (xs @ (a, b) # ys) = xs @ (a, val) # ys"
    "al_erase cmp key (xs @ (a, b) # ys) = xs @ ys"
    using assms(2) al_skip [OF below] al_all_above(3) [OF above] by (simp_all add: al_erase_def)
qed

text \<open>In the gap where a key belongs.\<close>

lemma al_gap:
  assumes "\<forall>x\<in>set xs. cmp (fst x) key < 0" "\<forall>y\<in>set ys. cmp key (fst y) < 0"
  shows "al_lookup cmp (xs @ ys) key = None"
    "al_insert cmp key val (xs @ ys) = xs @ (key, val) # ys"
    "al_erase cmp key (xs @ ys) = xs @ ys"
  using al_skip [OF assms(1)] al_all_above [OF assms(2)] by simp_all

text \<open>A sorted list of entries is a map: the list operations are lookup, update and removal.\<close>

lemma al_insert_keys:
  "x \<in> set (al_insert cmp key val xs) \<Longrightarrow> x \<in> set xs \<or> x = (key, val) \<or> (\<exists>b. (fst x, b) \<in> set xs)"
  by (induction xs) (auto split: if_splits)

lemma al_insert_sorted: "al_sorted cmp xs \<Longrightarrow> al_sorted cmp (al_insert cmp key val xs)"
proof (induction xs)
  case Nil
  then show ?case by (simp add: al_sorted_def)
next
  case (Cons x xs)
  obtain a b where x: "x = (a, b)" by (cases x)
  consider "cmp key a < 0" | "cmp key a = 0" | "cmp a key < 0"
    using cmp_swap [of a key] by fastforce
  then show ?case
  proof cases
    case 1
    then show ?thesis using Cons x cmp_lt_trans [OF 1] by (auto simp: al_sorted_Cons)
  next
    case 2
    then show ?thesis using Cons x by (simp add: al_sorted_Cons)
  next
    case 3
    then have "\<not> cmp key a < 0" "cmp key a \<noteq> 0" using cmp_swap [of a key] by auto
    then show ?thesis
      using Cons x 3 al_insert_keys [of _ key val xs] by (fastforce simp: al_sorted_Cons)
  qed
qed

lemma cmp_eq_trans:
  assumes "cmp a b = 0" "cmp b c = 0"
  shows "cmp a c = 0"
proof -
  have "cmp b a = 0" "cmp c b = 0" using assms cmp_eq_sym by auto
  then have "cmp a c \<le> 0" "cmp c a \<le> 0"
    using assms cmp_trans [of a b c] cmp_trans [of c b a] by auto
  then show ?thesis using cmp_swap [of a c] by auto
qed

lemma cmp_cong: "cmp k key = 0 \<Longrightarrow> cmp k a = 0 \<longleftrightarrow> cmp key a = 0"
  using cmp_eq_trans [of k key a] cmp_eq_trans [of key k a] cmp_eq_sym [of k key] by auto

lemma al_lookup_insert:
  "al_lookup cmp (al_insert cmp key val xs) k = (if cmp k key = 0 then Some val else al_lookup cmp xs k)"
proof (induction xs)
  case (Cons x xs)
  then show ?case
    using cmp_cong [of k key "fst x"] cmp_eq_trans [of k "fst x" key] cmp_eq_sym [of key "fst x"]
    by (cases x) auto
qed simp

lemma al_lookup_erase:
  "al_lookup cmp (al_erase cmp key xs) k = (if cmp k key = 0 then None else al_lookup cmp xs k)"
proof (induction xs)
  case (Cons x xs)
  then show ?case
    using cmp_cong [of k key "fst x"] cmp_eq_trans [of k "fst x" key] cmp_eq_sym [of key "fst x"]
    by (cases x) (auto simp: al_erase_def)
qed (simp add: al_erase_def)

end

end
