(* ===== verification/RbMapOps.thy ===== *)
theory RbMapOps
  imports RbMapSpec
begin

text \<open>
  Lookup and insertion in the ordered map, on the arrays and from any state of the heap, refine
  lookup and insertion in the sorted list of entries.
\<close>

section \<open>New slots\<close>

text \<open>\<open>grown v v'\<close>: \<open>v'\<close> is \<open>v\<close>, possibly with elements added at the end.\<close>

definition grown :: "vector \<Rightarrow> vector \<Rightarrow> bool" where
  "grown v v' \<longleftrightarrow> vec_ok v' \<and> v_count v \<le> v_count v' \<and> (\<forall>i<v_count v. elt v' i = elt v i)"

lemma grown_refl: "vec_ok v \<Longrightarrow> grown v v"
  by (simp add: grown_def)

lemma vector_push_grown:
  assumes "heap_ok km" "vec_ok v"
  shows "\<exists>rc v'. vector_push km v x = Some (rc, v') \<and> grown v v' \<and>
    (rc = -1 \<and> v' = v \<or> rc = 0 \<and> v_count v' = Suc (v_count v))"
proof -
  consider "vector_push km v x = Some (-1, v)"
    | v' where "vector_push km v x = Some (0, v')" "vec_ok v'" "vec_list v' = vec_list v @ [x]"
    using vector_push_spec [OF assms, of x] by blast
  then show ?thesis
  proof cases
    case 1
    then show ?thesis using assms(2) by (auto simp: grown_refl)
  next
    case 2
    have n: "length (vec_list v) = v_count v" "length (vec_list v') = v_count v'"
      using assms(2) 2(2) by (simp_all add: length_vec_list)
    then have "v_count v' = Suc (v_count v)" using 2(3) by simp
    moreover have "elt v' i = elt v i" if "i < v_count v" for i
      using that n 2(3) calculation by (simp add: elt_def nth_append)
    ultimately show ?thesis using 2 by (auto simp: grown_def)
  qed
qed

definition soa_grown :: "map_soa \<Rightarrow> map_soa \<Rightarrow> bool" where
  "soa_grown a a' \<longleftrightarrow> list_all2 grown (soa_vecs a) (soa_vecs a')"

definition vecs_ok :: "map_soa \<Rightarrow> bool" where
  "vecs_ok a \<longleftrightarrow> (\<forall>v\<in>set (soa_vecs a). vec_ok v)"

lemma soa_push_blank_spec:
  assumes "\<forall>j. heap_ok (hp j)" "vecs_ok a"
  shows "\<exists>rc a'. soa_push_blank hp a = Some (rc, a') \<and> soa_grown a a' \<and>
    (rc = -1 \<or> rc = 0 \<and> map v_count (soa_vecs a') = map (Suc \<circ> v_count) (soa_vecs a))"
proof -
  have ok: "vec_ok (s_keys a)" "vec_ok (s_vals a)" "vec_ok (s_left a)" "vec_ok (s_right a)"
    "vec_ok (s_parent a)" "vec_ok (s_colour a)" using assms(2) by (auto simp: vecs_ok_def soa_vecs_def)
  note refl = ok [THEN grown_refl]
  have hp: "heap_ok (hp j)" for j using assms(1) by blast
  obtain r0 v0 where 0: "vector_push (hp 0) (s_keys a) 0 = Some (r0, v0)" "grown (s_keys a) v0"
    "r0 = -1 \<or> r0 = 0 \<and> v_count v0 = Suc (v_count (s_keys a))"
    using vector_push_grown [OF hp ok(1)] by blast
  obtain r1 v1 where 1: "vector_push (hp 1) (s_vals a) 0 = Some (r1, v1)" "grown (s_vals a) v1"
    "r1 = -1 \<or> r1 = 0 \<and> v_count v1 = Suc (v_count (s_vals a))"
    using vector_push_grown [OF hp ok(2)] by blast
  obtain r2 v2 where 2: "vector_push (hp 2) (s_left a) NIL = Some (r2, v2)" "grown (s_left a) v2"
    "r2 = -1 \<or> r2 = 0 \<and> v_count v2 = Suc (v_count (s_left a))"
    using vector_push_grown [OF hp ok(3)] by blast
  obtain r3 v3 where 3: "vector_push (hp 3) (s_right a) NIL = Some (r3, v3)" "grown (s_right a) v3"
    "r3 = -1 \<or> r3 = 0 \<and> v_count v3 = Suc (v_count (s_right a))"
    using vector_push_grown [OF hp ok(4)] by blast
  obtain r4 v4 where 4: "vector_push (hp 4) (s_parent a) NIL = Some (r4, v4)" "grown (s_parent a) v4"
    "r4 = -1 \<or> r4 = 0 \<and> v_count v4 = Suc (v_count (s_parent a))"
    using vector_push_grown [OF hp ok(5)] by blast
  obtain r5 v5 where 5: "vector_push (hp 5) (s_colour a) 0 = Some (r5, v5)" "grown (s_colour a) v5"
    "r5 = -1 \<or> r5 = 0 \<and> v_count v5 = Suc (v_count (s_colour a))"
    using vector_push_grown [OF hp ok(6)] by blast
  note st = 0(1) 1(1) [simplified] 2(1) 3(1) 4(1) 5(1)
  note gr = 0(2) 1(2) 2(2) 3(2) 4(2) 5(2) refl
  note rc = 0(3) 1(3) 2(3) 3(3) 4(3) 5(3)
  show ?thesis
  proof (cases "r0 = 0 \<and> r1 = 0 \<and> r2 = 0 \<and> r3 = 0 \<and> r4 = 0 \<and> r5 = 0")
    case True
    then show ?thesis
      using st gr rc by (simp add: soa_push_blank_def Let_def soa_grown_def soa_vecs_def)
  next
    case False
    then show ?thesis
      using st gr by (auto simp: soa_push_blank_def Let_def soa_grown_def soa_vecs_def)
  qed
qed

text \<open>The writes that set up a node.\<close>

lemma node_init_spec:
  assumes "soa_ok n m" "i < n"
  shows "\<exists>m'. node_init m i key val parent = Some m' \<and> soa_ok n m' \<and> m_root m' = m_root m \<and>
    m_free m' = m_free m \<and> m_count m' = m_count m \<and> m_cmp m' = m_cmp m \<and>
    map v_count (soa_vecs (m_a m')) = map v_count (soa_vecs (m_a m)) \<and>
    fK m' = (fK m)(i := key) \<and> fV m' = (fV m)(i := val) \<and> fL m' = (fL m)(i := NIL) \<and>
    fR m' = (fR m)(i := NIL) \<and> fP m' = (fP m)(i := parent) \<and> fC m' = (fC m)(i := cw Red)"
proof -
  note st = store_simps [where n = n] assms
  define m' where
    "m' = setC (setP (setR (setL (setV (setK m i key) i val) i NIL) i NIL) i parent) i (cw Red)"
  have "node_init m i key val parent = Some m'" by (simp add: node_init_def m'_def st)
  moreover have "map v_count (soa_vecs (m_a m')) = map v_count (soa_vecs (m_a m))"
    using assms by (auto simp: m'_def set_defs soa_vecs_def soa_ok_def vector_set_vset)
  ultimately show ?thesis by (simp add: m'_def st)
qed

definition same_at :: "rbmap \<Rightarrow> rbmap \<Rightarrow> nat \<Rightarrow> bool" where
  "same_at m m' i \<longleftrightarrow> fL m' i = fL m i \<and> fR m' i = fR m i \<and> fP m' i = fP m i \<and> fC m' i = fC m i \<and>
     fK m' i = fK m i \<and> fV m' i = fV m i"

lemma repz_transfer:
  assumes "repz n m t k" "soa_ok n' m'" "n \<le> n'" "m_root m' = m_root m"
    and "\<And>i. i \<in> set (ino (plug t k)) \<Longrightarrow> same_at m m' i"
  shows "repz n' m' t k"
proof -
  have "rept m' (ptop k) t"
    by (rule rept_frame [of m]) (use assms in \<open>auto simp: repz_def same_at_def\<close>)
  moreover have "repk m' (ntop t) k"
    by (rule repk_frame [of m]) (use assms in \<open>auto simp: repz_def same_at_def kn_def\<close>)
  moreover have "nodup n' t k" using assms(1,3) by (auto simp: repz_def nodup_def)
  ultimately show ?thesis using assms(2) by (simp add: repz_def)
qed

definition fresh_node ::
  "nat \<Rightarrow> rbmap \<Rightarrow> nat \<Rightarrow> nat list \<Rightarrow> nat \<Rightarrow> nat \<Rightarrow> nat \<Rightarrow> bool" where
  "fresh_node n m z is key val parent \<longleftrightarrow> soa_ok n m \<and> z < n \<and> z \<notin> set is \<and>
     (\<forall>v\<in>set (soa_vecs (m_a m)). v_count v = n) \<and> vec_ok (m_free m) \<and>
     distinct (vec_list (m_free m)) \<and> set (vec_list (m_free m)) \<subseteq> {..<n} - set (z # is) \<and>
     fK m z = key \<and> fV m z = val \<and> fL m z = NIL \<and> fR m z = NIL \<and> fP m z = parent \<and> fC m z = cw Red"

lemma node_new_recycled:
  assumes "repz n m t []" "slots_ok n m (ino t)" "vec_list (m_free m) = fs @ [z]"
  shows "\<exists>m'. node_new hp m key val parent = Some (Some z, m') \<and> m_root m' = m_root m \<and>
    m_count m' = m_count m \<and> m_cmp m' = m_cmp m \<and> (\<forall>i\<in>set (ino t). same_at m m' i) \<and>
    fresh_node n m' z (ino t) key val parent"
proof -
  have ok: "soa_ok n m" and fr: "vec_ok (m_free m)" "distinct (fs @ [z])"
    "set (fs @ [z]) \<subseteq> {..<n} - set (ino t)" "\<forall>v\<in>set (soa_vecs (m_a m)). v_count v = n"
    using assms by (auto simp: repz_def slots_ok_def)
  obtain fv where fv: "vector_pop (m_free m) = Some (z, fv)" "vec_ok fv" "vec_list fv = fs"
    using vector_pop_spec [OF fr(1) assms(3)] by blast
  have "soa_ok n (m\<lparr>m_free := fv\<rparr>)" "z < n" using ok fr by (auto simp: soa_ok_upd)
  from node_init_spec [OF this, of key val parent] obtain m' where m':
    "node_init (m\<lparr>m_free := fv\<rparr>) z key val parent = Some m'" "soa_ok n m'" "m_root m' = m_root m"
    "m_free m' = fv" "m_count m' = m_count m" "m_cmp m' = m_cmp m"
    "map v_count (soa_vecs (m_a m')) = map v_count (soa_vecs (m_a m))"
    "fK m' = (fK m)(z := key)" "fV m' = (fV m)(z := val)" "fL m' = (fL m)(z := NIL)"
    "fR m' = (fR m)(z := NIL)" "fP m' = (fP m)(z := parent)" "fC m' = (fC m)(z := cw Red)"
    by auto
  have "v_count (m_free m) \<noteq> 0" using length_vec_list [OF fr(1)] assms(3) by simp
  then have "node_new hp m key val parent = Some (Some z, m')"
    using fv m'(1) by (simp add: node_new_def vector_size_def)
  moreover have "\<forall>v\<in>set (soa_vecs (m_a m')). v_count v = n"
    using m'(7) fr(4) by (auto simp: soa_vecs_def)
  moreover have "z \<notin> set (ino t)" "set fs \<subseteq> {..<n} - set (z # ino t)" using fr by auto
  ultimately show ?thesis
    using m' fv fr \<open>z < n\<close> by (auto simp: fresh_node_def same_at_def)
qed

lemma node_new_pushed:
  assumes "repz n m t []" "slots_ok n m (ino t)" "vec_list (m_free m) = []" "\<forall>j. heap_ok (hp j)"
  shows "\<exists>zo m'. node_new hp m key val parent = Some (zo, m') \<and> m_root m' = m_root m \<and>
    m_count m' = m_count m \<and> m_cmp m' = m_cmp m \<and> (\<forall>i\<in>set (ino t). same_at m m' i) \<and>
    (zo = None \<and> soa_ok n m' \<or> zo = Some n \<and> fresh_node (Suc n) m' n (ino t) key val parent)"
proof -
  have ok: "soa_ok n m" and fr: "vec_ok (m_free m)" "\<forall>v\<in>set (soa_vecs (m_a m)). v_count v = n"
    "set (ino t) \<subseteq> {..<n}"
    using assms by (auto simp: repz_def slots_ok_def nodup_def)
  then have "vecs_ok (m_a m)" by (simp add: soa_ok_def vecs_ok_def)
  then obtain rc a where a: "soa_push_blank hp (m_a m) = Some (rc, a)" "soa_grown (m_a m) a"
      "rc = -1 \<or> rc = 0 \<and> map v_count (soa_vecs a) = map (Suc \<circ> v_count) (soa_vecs (m_a m))"
    using soa_push_blank_spec [OF assms(4)] by blast
  let ?m = "m\<lparr>m_a := a\<rparr>"
  have gr: "soa_ok n ?m" "\<forall>i<n. same_at m ?m i"
    using a(2) fr(2) ok
    by (auto simp: soa_grown_def soa_vecs_def soa_ok_def grown_def same_at_def f_defs)
  have "vector_size (m_free m) = 0"
    using length_vec_list [OF fr(1)] assms(3) by (simp add: vector_size_def)
  note unf = node_new_def this
  show ?thesis
  proof (cases "rc = 0")
    case False
    then have "node_new hp m key val parent = Some (None, ?m)" using a(1) by (simp add: unf)
    then show ?thesis using gr fr(3) by auto
  next
    case True
    then have cnt: "\<forall>v\<in>set (soa_vecs a). v_count v = Suc n"
      using a(3) fr(2) by (auto simp: soa_vecs_def)
    then have sn: "soa_ok (Suc n) ?m" using gr(1) by (simp add: soa_ok_def)
    have "v_count (s_keys a) = Suc n" using cnt by (simp add: soa_vecs_def)
    moreover have "Suc n < W64"
      using vec_ok_count_small [of "s_keys a"] sn calculation
      by (simp add: soa_ok_def soa_vecs_def W64_def)
    ultimately have idx: "sub64 (soa_size a) 1 = n" by (simp add: soa_size_def vector_size_def sub64_nowrap)
    from node_init_spec [OF sn, of n key val parent] obtain m' where m':
      "node_init ?m n key val parent = Some m'" "soa_ok (Suc n) m'" "m_root m' = m_root m"
      "m_free m' = m_free m" "m_count m' = m_count m" "m_cmp m' = m_cmp m"
      "map v_count (soa_vecs (m_a m')) = map v_count (soa_vecs a)"
      "fK m' = (fK ?m)(n := key)" "fV m' = (fV ?m)(n := val)" "fL m' = (fL ?m)(n := NIL)"
      "fR m' = (fR ?m)(n := NIL)" "fP m' = (fP ?m)(n := parent)" "fC m' = (fC ?m)(n := cw Red)"
      by auto
    have "node_new hp m key val parent = Some (Some n, m')"
      using a(1) True idx m'(1) by (simp add: unf Let_def)
    moreover have "\<forall>v\<in>set (soa_vecs (m_a m')). v_count v = Suc n"
      using m'(7) cnt by (auto simp: soa_vecs_def)
    moreover have "\<forall>i\<in>set (ino t). same_at m m' i"
      using gr(2) fr(3) m' by (auto simp: same_at_def)
    ultimately show ?thesis
      using m' fr assms(3) by (auto simp: fresh_node_def)
  qed
qed

section \<open>Linking a new node\<close>

definition link_code :: "rbmap \<Rightarrow> nat \<Rightarrow> nat \<Rightarrow> nat \<Rightarrow> rbmap option" where
  "link_code m key parent z = (if parent = NIL then Some (m\<lparr>m_root := z\<rparr>)
     else do { k \<leftarrow> rd_key m parent;
               if m_cmp m key k < 0 then wr_left m parent z else wr_right m parent z })"

lemma link_new:
  assumes "key_order (m_cmp m)" "repz n m Lf k" "gap m key k"
    and "fresh_node n m z (ino (plug Lf k)) key val (ptop k)"
  shows "\<exists>m'. link_code m key (ptop k) z = Some m' \<and> repz n m' (Nd Lf z Red Lf) k \<and> rest m' = rest m"
proof -
  have ok: "soa_ok n m" and k: "repk m NIL k" "nodup n Lf k" using assms(2) by (auto simp: repz_def)
  have z: "z < n" "z \<notin> kn k" "fL m z = NIL" "fR m z = NIL" "fP m z = ptop k" "fC m z = cw Red"
    using assms(4) by (auto simp: fresh_node_def kn_def)
  have nd: "nodup n (Nd Lf z Red Lf) k" using k(2) z by (auto simp: nodup_def kn_def)
  have node: "repz n m' (Nd Lf z Red Lf) k"
    if "soa_ok n m'" "repk m' z k" "fP m' = fP m" "fC m' = fC m" "fL m' z = fL m z" "fR m' z = fR m z" for m'
    using that nd z by (simp add: repz_def)
  show ?thesis
  proof (cases k rule: ptop.cases)
    case 1
    then have "repz n (m\<lparr>m_root := z\<rparr>) (Nd Lf z Red Lf) k"
      using ok by (intro node) (auto simp: store_simps)
    then show ?thesis using 1 by (simp add: link_code_def)
  next
    case (2 i c r k')
    have i: "i < n" "i \<noteq> NIL" "i \<notin> kn k'" "i \<notin> set (ino r)" "i \<noteq> z"
      using k(2) 2 z soa_ok_lt_NIL [OF ok, of i] by (auto simp: nodup_def kn_def)
    note st = store_simps [where n = n] ok i(1)
    have "m_cmp m key (fK m i) < 0" using assms(3) 2 by (simp add: gap_def)
    then have code: "link_code m key (ptop k) z = Some (setL m i z)"
      using 2 i by (simp add: link_code_def st)
    have "rept (setL m i z) i r"
      by (rule rept_frame [of m]) (use k(1) 2 i in \<open>auto simp: st\<close>)
    moreover have "repk (setL m i z) i k'"
      by (rule repk_frame [of m]) (use k(1) 2 i in \<open>auto simp: st\<close>)
    ultimately have "repk (setL m i z) z k" using k(1) 2 by (simp add: st)
    then show ?thesis using code node i by (auto simp: st)
  next
    case (3 l i c k')
    have i: "i < n" "i \<noteq> NIL" "i \<notin> kn k'" "i \<notin> set (ino l)" "i \<noteq> z"
      using k(2) 3 z soa_ok_lt_NIL [OF ok, of i] by (auto simp: nodup_def kn_def)
    note st = store_simps [where n = n] ok i(1)
    have "m_cmp m (fK m i) key < 0" using assms(3) 3 by (simp add: gap_def)
    then have "\<not> m_cmp m key (fK m i) < 0" using key_order.cmp_swap [OF assms(1)] by (metis less_asym)
    then have code: "link_code m key (ptop k) z = Some (setR m i z)"
      using 3 i by (simp add: link_code_def st)
    have "rept (setR m i z) i l"
      by (rule rept_frame [of m]) (use k(1) 3 i in \<open>auto simp: st\<close>)
    moreover have "repk (setR m i z) i k'"
      by (rule repk_frame [of m]) (use k(1) 3 i in \<open>auto simp: st\<close>)
    ultimately have "repk (setR m i z) z k" using k(1) 3 by (simp add: st)
    then show ?thesis using code node i by (auto simp: st)
  qed
qed

section \<open>Insertion\<close>

lemma rest_eqD:
  assumes "rest m' = rest m"
  shows "fK m' = fK m" "fV m' = fV m" "m_free m' = m_free m" "m_count m' = m_count m"
    "m_cmp m' = m_cmp m" "map v_count (soa_vecs (m_a m')) = map v_count (soa_vecs (m_a m))"
  using assms by (simp_all add: rest_def)

lemma rest_counts: "rest m' = rest m \<Longrightarrow>
    (\<forall>v\<in>set (soa_vecs (m_a m')). v_count v = n) \<longleftrightarrow> (\<forall>v\<in>set (soa_vecs (m_a m)). v_count v = n)"
  by (auto simp: rest_def soa_vecs_def)

lemma gap_sorted:
  assumes "key_order (m_cmp m)" "rb_sorted m (kl k @ kr k)" "gap m key k" "m_cmp m' = m_cmp m"
    "\<And>i. i \<in> set (kl k) \<union> set (kr k) \<Longrightarrow> fK m' i = fK m i" "fK m' z = key"
  shows "rb_sorted m' (kl k @ z # kr k)"
  using assms(2-6) by (auto simp: rb_sorted_def sorted_wrt_append gap_def lt_at_def
      intro!: sorted_wrt_mono_rel [of _ "lt_at m" "lt_at m'"])

lemma node_new_spec:
  assumes "repz n m t []" "slots_ok n m (ino t)" "\<forall>j. heap_ok (hp j)"
  shows "\<exists>zo m'. node_new hp m key val parent = Some (zo, m') \<and> m_root m' = m_root m \<and>
    m_count m' = m_count m \<and> m_cmp m' = m_cmp m \<and> (\<forall>i\<in>set (ino t). same_at m m' i) \<and>
    (zo = None \<and> soa_ok n m' \<or>
     (\<exists>z n'. zo = Some z \<and> n \<le> n' \<and> fresh_node n' m' z (ino t) key val parent))"
proof (cases "vec_list (m_free m)" rule: rev_cases)
  case Nil
  then show ?thesis
    using node_new_pushed [OF assms(1,2) Nil assms(3), of key val parent] by (metis le_add2 plus_1_eq_Suc)
next
  case (snoc fs z)
  then show ?thesis
    using node_new_recycled [OF assms(1,2) snoc, of hp key val parent] by blast
qed

lemma repz_length:
  assumes "repz n m t []"
  shows "length (ino t) \<le> n"
proof -
  have "distinct (ino t)" "set (ino t) \<subseteq> {..<n}" using assms by (auto simp: repz_def nodup_def)
  then show ?thesis using card_mono [of "{..<n}" "set (ino t)"] distinct_card [of "ino t"] by simp
qed

text \<open>The common tail of the two insertions, at the gap \<open>k\<close> where the key belongs.\<close>

lemma insert_at_spec:
  assumes "key_order (m_cmp m)" "\<forall>j. heap_ok (hp j)"
    and "repz n m (plug Lf k) []" "rb_valid (plug Lf k)" "rb_sorted m (kl k @ kr k)"
    and "slots_ok n m (kl k @ kr k)" "gap m key k"
  shows "(\<exists>m'. insert_at hp m key val (ptop k) = Some (-1, m') \<and> rb_view m' (entries m (kl k @ kr k)) \<and>
      m_cmp m' = m_cmp m) \<or>
    (\<exists>m'. insert_at hp m key val (ptop k) = Some (1, m') \<and>
      rb_ok m' (entries m (kl k) @ (key, val) # entries m (kr k)) \<and> m_cmp m' = m_cmp m)"
proof -
  let ?t = "plug Lf k"
  have it: "ino ?t = kl k @ kr k" by simp
  obtain zo m1 where m1: "node_new hp m key val (ptop k) = Some (zo, m1)" "m_root m1 = m_root m"
    "m_count m1 = m_count m" "m_cmp m1 = m_cmp m" "\<forall>i\<in>set (ino ?t). same_at m m1 i"
    "zo = None \<and> soa_ok n m1 \<or>
     (\<exists>z n'. zo = Some z \<and> n \<le> n' \<and> fresh_node n' m1 z (ino ?t) key val (ptop k))"
    using node_new_spec [OF assms(3) _ assms(2), of key val "ptop k"] assms(6) it by auto
  have K: "fK m1 i = fK m i \<and> fV m1 i = fV m i" if "i \<in> set (kl k) \<union> set (kr k)" for i
    using m1(5) that it by (auto simp: same_at_def)
  have ent: "entries m1 (kl k) = entries m (kl k)" "entries m1 (kr k) = entries m (kr k)"
    using K by (auto intro!: entries_cong)
  from m1(6) show ?thesis
  proof
    assume a: "zo = None \<and> soa_ok n m1"
    have "repz n m1 ?t []"
      by (rule repz_transfer [OF assms(3)]) (use a m1 in auto)
    moreover have "rb_sorted m1 (kl k @ kr k)"
      using assms(5) ent m1(4) by (simp add: rb_sorted_entries)
    ultimately have "rb_view m1 (entries m (kl k @ kr k))"
      using assms(4) ent it unfolding rb_view_def by (metis entries_append)
    then show ?thesis using m1(1,4) a by (simp add: insert_at_def)
  next
    assume "\<exists>z n'. zo = Some z \<and> n \<le> n' \<and> fresh_node n' m1 z (ino ?t) key val (ptop k)"
    then obtain z n' where z: "zo = Some z" "n \<le> n'" "fresh_node n' m1 z (ino ?t) key val (ptop k)"
      by blast
    have "repz n' m1 ?t []"
      by (rule repz_transfer [OF assms(3)]) (use m1 z(2,3) in \<open>auto simp: fresh_node_def\<close>)
    then have 1: "repz n' m1 Lf k" by (simp add: repz_plug_Nil)
    have "gap m1 key k" using assms(7) K m1(4) by (simp add: gap_def)
    then obtain m2 where m2: "link_code m1 key (ptop k) z = Some m2"
        "repz n' m2 (Nd Lf z Red Lf) k" "rest m2 = rest m1"
      using link_new [of m1 n' k key z val] assms(1) m1(4) 1 z(3) by auto
    have rbk: "rbk 0 k" using rb_unplug [OF assms(4)] by auto
    then obtain m3 where m3: "insert_fixup m2 z = Some m3"
        "repz n' m3 (paint Black (ins_fix (Nd Lf z Red Lf) k)) []" "rest m3 = rest m2"
      using insert_fixup_refines [OF m2(2)] rbk_black_root by auto
    let ?T = "paint Black (ins_fix (Nd Lf z Red Lf) k)" and ?m4 = "m3\<lparr>m_count := add64 (m_count m3) 1\<rparr>"
    have inoT: "ino ?T = kl k @ z # kr k" by simp
    have code: "insert_at hp m key val (ptop k) = Some (1, ?m4)"
      using m1(1) z(1) m2(1) m3(1) by (simp add: insert_at_def link_code_def)
    have r31: "rest m3 = rest m1" using m2(3) m3(3) by simp
    note e = rest_eqD [OF r31]
    have valid: "rb_valid ?T" using rbk by (intro ins_fix_valid [of 0]) auto
    have "repz n' ?m4 ?T []"
      by (rule repz_transfer [OF m3(2)]) (use m3(2) in \<open>auto simp: repz_def soa_ok_upd same_at_def\<close>)
    moreover have srt: "rb_sorted ?m4 (ino ?T)"
    proof -
      have "fK ?m4 z = key" using e(1) z(3) by (simp add: fresh_node_def)
      then show ?thesis
        unfolding inoT using assms(1,5,7) e m1(4) K by (intro gap_sorted [of m]) auto
    qed
    moreover have "slots_ok n' ?m4 (ino ?T)"
    proof -
      have len: "length (kl k @ kr k) \<le> n" using repz_length [OF assms(3)] it by simp
      have "n < 2 ^ 45" using assms(3,6) vec_ok_count_small [of "s_keys (m_a m)"]
        by (simp add: repz_def soa_ok_def soa_vecs_def slots_ok_def)
      then have "m_count ?m4 = length (ino ?T)"
        using assms(6) e(4) m1(3) len by (simp add: slots_ok_def inoT add64_nowrap W64_def)
      then show ?thesis
        using z(3) e rest_counts [OF r31, of n'] by (auto simp: slots_ok_def fresh_node_def)
    qed
    moreover have "entries ?m4 (ino ?T) = entries m (kl k) @ (key, val) # entries m (kr k)"
      using e z(3) ent by (simp add: entries_def fresh_node_def)
    ultimately have "rb_ok ?m4 (entries m (kl k) @ (key, val) # entries m (kr k))"
      using valid unfolding rb_ok_def by metis
    then show ?thesis using code e(5) m1(4) by auto
  qed
qed

section \<open>The operations refine the list of entries\<close>

lemma hit_entries:
  assumes "hit m key t i"
  shows "\<exists>is js. ino t = is @ i # js \<and> entries m (ino t) = entries m is @ (fK m i, fV m i) # entries m js"
proof -
  obtain l c r k where "t = plug (Nd l i c r) k" using assms by (auto simp: hit_def)
  then have "ino t = (kl k @ ino l) @ i # (ino r @ kr k)" by simp
  then show ?thesis by (metis entries_append entries_Cons)
qed

lemma gap_entries:
  assumes "gap m key k"
  shows "\<forall>x\<in>set (entries m (kl k)). m_cmp m (fst x) key < 0"
    "\<forall>y\<in>set (entries m (kr k)). m_cmp m key (fst y) < 0"
  using assms by (auto simp: gap_def entries_def)

text \<open>What the search from the root finds, in terms of the entries.\<close>

lemma search_root:
  assumes "key_order (m_cmp m)" "repz n m t []" "rb_sorted m (ino t)"
  shows "(\<exists>i. find_index m key = Some i \<and> descend m key NIL (m_root m) = Some (Inl i) \<and> hit m key t i \<and>
      al_lookup (m_cmp m) (entries m (ino t)) key = Some (fV m i)) \<or>
    (\<exists>k. find_index m key = Some NIL \<and> descend m key NIL (m_root m) = Some (Inr (ptop k)) \<and>
      t = plug Lf k \<and> gap m key k \<and> al_lookup (m_cmp m) (entries m (ino t)) key = None)"
proof -
  have root: "m_root m = ntop t" using assms(2) by (simp add: repz_def)
  have "rb_sorted m (ino (plug t []))" "gap m key []" using assms(3) by (simp_all add: gap_def)
  then consider (hit) i where "find_loop m key (ntop t) = Some i" "descend m key NIL (ntop t) = Some (Inl i)"
      "hit m key t i"
    | (gap) k where "find_loop m key (ntop t) = Some NIL"
      "descend m key NIL (ntop t) = Some (Inr (ptop k))" "t = plug Lf k" "gap m key k"
    using search_spec [OF assms(1,2)] by fastforce
  then show ?thesis
  proof cases
    case hit
    obtain "is" js where e: "entries m (ino t) = entries m is @ (fK m i, fV m i) # entries m js"
      using hit_entries [OF hit(3)] by blast
    have "al_sorted (m_cmp m) (entries m (ino t))" using assms(3) by (simp add: rb_sorted_entries)
    then have "al_lookup (m_cmp m) (entries m (ino t)) key = Some (fV m i)"
      using key_order.al_hit(1) [OF assms(1)] hit(3) unfolding e hit_def by blast
    then show ?thesis using hit root by (auto simp: find_index_def)
  next
    case gap
    have "al_lookup (m_cmp m) (entries m (ino t)) key = None"
      using key_order.al_gap(1) [OF assms(1) gap_entries [OF gap(4)]] gap(3) by simp
    then show ?thesis using gap root by (auto simp: find_index_def)
  qed
qed

text \<open>C22: \<^verbatim>\<open>map_find\<close> always returns, and returns 1 with the value stored under a key equal to the
  one asked for, or 0 when the map has no such key.\<close>

theorem map_find_correct:
  assumes "rb_view m xs" "key_order (m_cmp m)"
  shows "map_find m key = Some (case al_lookup (m_cmp m) xs key of None \<Rightarrow> (0, None) | Some v \<Rightarrow> (1, Some v))"
proof -
  obtain n t where t: "repz n m t []" "rb_sorted m (ino t)" "xs = entries m (ino t)"
    using assms(1) by (auto simp: rb_view_def)
  from search_root [OF assms(2) t(1,2), of key] show ?thesis
  proof (elim disjE exE conjE)
    fix i assume i: "find_index m key = Some i" "hit m key t i"
      "al_lookup (m_cmp m) (entries m (ino t)) key = Some (fV m i)"
    then obtain l c r k where "t = plug (Nd l i c r) k" by (auto simp: hit_def)
    then have "repz n m (Nd l i c r) k" using t(1) by (simp add: repz_plug_Nil)
    then have "i \<noteq> NIL" "rd_val m i = Some (fV m i)" by (auto dest: repz_read(6) repz_key(2))
    then show ?thesis using i t(3) by (simp add: map_find_def)
  qed (simp add: map_find_def t(3))
qed

text \<open>C6: \<^verbatim>\<open>map_insert\<close> leaves a map with an equal key as it is and returns 0; otherwise it
  inserts the pair in its place and returns 1, the tree staying red-black and every slot accounted for,
  or it returns -1 for lack of memory, with every entry still found.\<close>

theorem map_insert_correct:
  assumes "rb_ok m xs" "key_order (m_cmp m)" "\<forall>j. heap_ok (hp j)"
  shows "if al_lookup (m_cmp m) xs key \<noteq> None then map_insert hp m key val = Some (0, m)
    else (\<exists>m'. map_insert hp m key val = Some (1, m') \<and> rb_ok m' (al_insert (m_cmp m) key val xs) \<and>
            m_cmp m' = m_cmp m) \<or>
         (\<exists>m'. map_insert hp m key val = Some (-1, m') \<and> rb_view m' xs \<and> m_cmp m' = m_cmp m)"
proof -
  obtain n t where t: "repz n m t []" "rb_valid t" "rb_sorted m (ino t)" "slots_ok n m (ino t)"
    "xs = entries m (ino t)" using assms(1) by (auto simp: rb_ok_def)
  from search_root [OF assms(2) t(1,3), of key] show ?thesis
  proof (elim disjE exE conjE)
    fix k assume k: "descend m key NIL (m_root m) = Some (Inr (ptop k))" "t = plug Lf k" "gap m key k"
      "al_lookup (m_cmp m) (entries m (ino t)) key = None"
    have code: "map_insert hp m key val = insert_at hp m key val (ptop k)"
      using k(1) by (simp add: map_insert_def)
    have "al_insert (m_cmp m) key val xs = entries m (kl k) @ (key, val) # entries m (kr k)"
      using key_order.al_gap(2) [OF assms(2) gap_entries [OF k(3)]] k(2) t(5) by simp
    then show ?thesis
      using insert_at_spec [OF assms(2,3) _ _ _ _ k(3), of n val] t k(2,4) code by auto
  qed (auto simp: map_insert_def t(5))
qed

end
