(* ===== verification/RbMapErase.thy ===== *)
theory RbMapErase
  imports RbMapOps
begin

text \<open>
  Assignment to an existing key and erasure.  \<^verbatim>\<open>map_erase\<close> takes the node out of the tree (with two
  children, by moving its successor into its place), repairs the tree and recycles the slot: the
  represented tree loses exactly one node, and the list of entries exactly one entry.
\<close>

section \<open>Assignment\<close>

lemma setV_repz:
  assumes "repz n m t []" "i < n"
  shows "repz n (setV m i val) t []"
proof -
  note st = store_simps [where n = n] assms(2)
  have ok: "soa_ok n m" using assms(1) by (simp add: repz_def)
  have "rept (setV m i val) NIL t"
    by (rule rept_frame [of m]) (use assms(1) in \<open>auto simp: repz_def\<close>)
  then show ?thesis using assms(1) by (simp add: repz_def st)
qed

text \<open>\<^verbatim>\<open>map_insert_or_assign\<close> stores the value under the key whether or not the key was there,
  returning 0 for an update and 1 for an insertion; -1 reports exhausted memory and changes no entry.\<close>

theorem map_insert_or_assign_correct:
  assumes "rb_ok m xs" "key_order (m_cmp m)" "\<forall>j. heap_ok (hp j)"
  shows "(\<exists>rc m'. map_insert_or_assign hp m key val = Some (rc, m') \<and>
      rc = (if al_lookup (m_cmp m) xs key = None then 1 else 0) \<and>
      rb_ok m' (al_insert (m_cmp m) key val xs) \<and> m_cmp m' = m_cmp m) \<or>
    (\<exists>m'. map_insert_or_assign hp m key val = Some (-1, m') \<and> rb_view m' xs \<and> m_cmp m' = m_cmp m \<and>
      al_lookup (m_cmp m) xs key = None)"
proof -
  obtain n t where t: "repz n m t []" "rb_valid t" "rb_sorted m (ino t)" "slots_ok n m (ino t)"
    "xs = entries m (ino t)" using assms(1) by (auto simp: rb_ok_def)
  have ok: "soa_ok n m" using t(1) by (simp add: repz_def)
  from search_root [OF assms(2) t(1,3), of key] show ?thesis
  proof (elim disjE exE conjE)
    fix k assume k: "descend m key NIL (m_root m) = Some (Inr (ptop k))" "t = plug Lf k" "gap m key k"
      "al_lookup (m_cmp m) (entries m (ino t)) key = None"
    have code: "map_insert_or_assign hp m key val = insert_at hp m key val (ptop k)"
      using k(1) by (simp add: map_insert_or_assign_def)
    have "al_insert (m_cmp m) key val xs = entries m (kl k) @ (key, val) # entries m (kr k)"
      using key_order.al_gap(2) [OF assms(2) gap_entries [OF k(3)]] k(2) t(5) by simp
    then show ?thesis
      using insert_at_spec [OF assms(2,3) _ _ _ _ k(3), of n val] t k(2,4) code by auto
  next
    fix i assume i: "descend m key NIL (m_root m) = Some (Inl i)" "hit m key t i"
      "al_lookup (m_cmp m) (entries m (ino t)) key = Some (fV m i)"
    obtain "is" js where e: "ino t = is @ i # js"
      "entries m (ino t) = entries m is @ (fK m i, fV m i) # entries m js"
      using hit_entries [OF i(2)] by blast
    have d: "i \<notin> set is" "i \<notin> set js" "i < n" using t(1) e(1) by (auto simp: repz_def nodup_def)
    let ?m = "setV m i val"
    have sw: "wr_val m i val = Some ?m" "fV ?m = (fV m)(i := val)" using ok d(3) by (simp_all add: store_simps)
    have code: "map_insert_or_assign hp m key val = Some (0, ?m)"
      using i(1) sw(1) by (simp add: map_insert_or_assign_def)
    have "al_sorted (m_cmp m) (entries m (ino t))" using t(3) by (simp add: rb_sorted_entries)
    then have "al_insert (m_cmp m) key val xs = entries m is @ (fK m i, val) # entries m js"
      using key_order.al_hit(2) [OF assms(2)] i(2) t(5) e(2) by (simp add: hit_def)
    also have "\<dots> = entries ?m (ino t)" using e(1) d sw(2) by (auto simp: entries_def)
    finally have al: "al_insert (m_cmp m) key val xs = entries ?m (ino t)" .
    have "slots_ok n ?m (ino t)"
      using t(4) ok d(3) by (auto simp: slots_ok_def set_defs soa_vecs_def soa_ok_def vector_set_vset)
    moreover have "rb_sorted ?m (ino t)" using t(3) by (simp add: rb_sorted_def lt_at_def [abs_def])
    ultimately have "rb_ok ?m (entries ?m (ino t))"
      using setV_repz [OF t(1) d(3)] t(2) unfolding rb_ok_def by blast
    then show ?thesis using code al i(3) t(5) by auto
  qed
qed

section \<open>Taking a node out of the tree\<close>

lemma repz_update:
  "repz n (m\<lparr>m_free := f, m_count := c\<rparr>) t k = repz n m t k"
proof -
  have same: "same_at a b i" if "b = a\<lparr>m_free := f', m_count := c'\<rparr>" for a b f' c' i
    using that by (simp add: same_at_def)
  have ok: "soa_ok n (a\<lparr>m_free := f', m_count := c'\<rparr>) = soa_ok n a" for a f' c'
    by (simp add: soa_ok_def)
  have *: "repz n (a\<lparr>m_free := f', m_count := c'\<rparr>) t k" if "repz n a t k" for a f' c'
    by (rule repz_transfer [OF that]) (use that ok in \<open>auto simp: repz_def same\<close>)
  show ?thesis
    using * [of m c f] * [of "m\<lparr>m_free := f, m_count := c\<rparr>" "m_count m" "m_free m"] by auto
qed

text \<open>The last statements of the case of two children: the node \<open>y\<close> takes the place of \<open>z\<close>.\<close>

definition replace_code :: "rbmap \<Rightarrow> nat \<Rightarrow> nat \<Rightarrow> rbmap option" where
  "replace_code m z y = do {
     m \<leftarrow> transplant m z y;
     zl \<leftarrow> rd_left m z;
     m \<leftarrow> wr_left m y zl;
     yl \<leftarrow> rd_left m y;
     m \<leftarrow> wr_parent m yl y;
     zc \<leftarrow> rd_colour m z;
     wr_colour m y zc }"

lemma replace_node:
  assumes ok: "soa_ok n m" and nd: "nodup n (Nd l y c r) k" and lne: "l \<noteq> Lf"
    and z: "z < n" "z \<notin> kn k" "z \<notin> set (ino l)" "z \<notin> set (ino r)" "z \<noteq> y" "repk m z k" "fP m z = ptop k" "fL m z = ntop l"
      "fC m z = cw c" "rept m z l" and y: "rept m y r" "fR m y = ntop r"
  shows "\<exists>m'. replace_code m z y = Some m' \<and> repz n m' (Nd l y c r) k \<and> rest m' = rest m"
proof -
  have yn: "y < n" "y \<notin> kn k" "y \<notin> set (ino l)" "y \<notin> set (ino r)" "set (ino l) \<inter> kn k = {}"
    "set (ino r) \<inter> kn k = {}" "set (ino l) \<inter> set (ino r) = {}" "distinct (ino l)" "set (ino l) \<subseteq> {..<n}"
    using nd by (auto simp: nodup_def kn_def)
  have nil: "y \<noteq> NIL" "z \<noteq> NIL" using soa_ok_lt_NIL [OF ok] yn(1) z(1) by auto
  have l: "ntop l \<in> set (ino l)" "ntop l < n" using ntop_in [OF lne] yn(9) by auto
  have l2: "ntop l \<noteq> y" "ntop l \<noteq> z" "ntop l \<notin> kn k" using l(1) yn z by auto
  have nl: "nodup n l k" using nd by (auto simp: nodup_def)
  obtain m1 where m1: "transplant m z y = Some m1" "soa_ok n m1" "rest m1 = rest m" "fC m1 = fC m"
    "fP m1 = (fP m)(y := ptop k)" "repk m1 y k" "\<And>i. i \<notin> kn k \<Longrightarrow> fL m1 i = fL m i \<and> fR m1 i = fR m i"
    using transplant_link [OF ok nl z(6,2,1,7), of y] yn(1,2) nil by auto
  define m' where "m' = setC (setP (setL m1 y (ntop l)) (ntop l) y) y (cw c)"
  note st = store_simps [where n = n] m1(2) yn(1) l(2) z(1)
  have "fL m1 z = ntop l" using m1(7) [OF z(2)] z(8) by simp
  then have code: "replace_code m z y = Some m'"
    using m1(1,4) z(5,9) l2 by (simp add: replace_code_def st m'_def)
  have f: "soa_ok n m'" "rest m' = rest m" "fL m' = (fL m1)(y := ntop l)" "fR m' = fR m1"
    "fP m' = (fP m)(y := ptop k, ntop l := y)" "fC m' = (fC m)(y := cw c)" "m_root m' = m_root m1"
    using m1 by (simp_all add: st m'_def)
  have out: "i \<notin> kn k \<Longrightarrow> fL m' i = (if i = y then ntop l else fL m i) \<and> fR m' i = fR m i" for i
    using m1(7) f(3,4) by auto
  have "repk m' y k"
    by (rule repk_frame [OF m1(6)]) (use f m1(4,5) yn(2) l2(3) in auto)
  moreover have "rept m' y l"
  proof (rule rept_reroot [OF z(10) yn(8)])
    fix i assume i: "i \<in> set (ino l)"
    then have "i \<noteq> y" "i \<notin> kn k" using yn(3,5) by auto
    then show "fL m' i = fL m i \<and> fR m' i = fR m i \<and> fC m' i = fC m i" using out f(6) by auto
    show "i \<noteq> ntop l \<Longrightarrow> fP m' i = fP m i" using \<open>i \<noteq> y\<close> f(5) by simp
  qed (use f(5) in simp)
  moreover have "rept m' y r"
  proof (rule rept_frame [OF y(1)])
    fix i assume i: "i \<in> set (ino r)"
    then have "i \<noteq> y" "i \<notin> kn k" "i \<noteq> ntop l" using yn(4,6,7) l(1) by auto
    then show "fL m' i = fL m i \<and> fR m' i = fR m i \<and> fP m' i = fP m i \<and> fC m' i = fC m i"
      using out f(5,6) by auto
  qed
  moreover have "fL m' y = ntop l" "fR m' y = ntop r" "fP m' y = ptop k" "fC m' y = cw c"
    using out [OF yn(2)] y(2) f(5,6) l2 by auto
  ultimately show ?thesis using code f(1,2) nd by (auto simp: repz_def)
qed

text \<open>The successor of a node with two children, taken out of the right subtree.\<close>

definition detach_code :: "rbmap \<Rightarrow> nat \<Rightarrow> nat \<Rightarrow> nat \<Rightarrow> (rbmap \<times> nat) option" where
  "detach_code m z y yp = (if yp = z then Some (m, y)
     else do {
       xp \<leftarrow> rd_parent m y;
       yr \<leftarrow> rd_right m y;
       m \<leftarrow> transplant m y yr;
       zr \<leftarrow> rd_right m z;
       m \<leftarrow> wr_right m y zr;
       yr \<leftarrow> rd_right m y;
       m \<leftarrow> wr_parent m yr y;
       Some (m, xp) })"

lemma ptop_ne:
  assumes "distinct (ino (plug t (ks @ FR l z c # k)))" "ks \<noteq> []"
  shows "ptop (ks @ FR l z c # k) \<noteq> z"
  using assms by (cases ks rule: ptop.cases) auto

lemma remove_near:
  assumes "repz n m (Nd l z c (Nd Lf y cy ry)) k" "l \<noteq> Lf"
  shows "\<exists>m'. replace_code m z y = Some m' \<and> repz n m' (Nd l y c ry) k \<and> rest m' = rest m"
proof -
  have nd: "nodup n (Nd l y c ry) k" "z \<notin> kn k" "z \<notin> set (ino l)" "z \<notin> set (ino ry)" "z \<noteq> y"
    using assms(1) by (auto simp: repz_def nodup_def kn_def)
  show ?thesis
    by (rule replace_node) (use assms nd repz_node [OF assms(1)] in \<open>auto simp: repz_def\<close>)
qed

lemma remove_far:
  assumes "repz n m (Nd l z c (plug (Nd Lf y cy ry) ks)) k" "l \<noteq> Lf" "ks \<noteq> []"
  shows "\<exists>m3 m'. detach_code m z y (ptop (ks @ FR l z c # k)) = Some (m3, ptop (ks @ FR l z c # k)) \<and>
    replace_code m3 z y = Some m' \<and> repz n m' (Nd l y c (plug ry ks)) k \<and> rest m' = rest m"
proof -
  let ?K = "ks @ FR l z c # k" and ?r = "plug ry ks"
  have Y: "repz n m (Nd Lf y cy ry) ?K" using assms(1) by (simp add: repz_plug [symmetric] repz_FR)
  obtain m1 where m1: "transplant m y (ntop ry) = Some m1" "repz n m1 ry ?K" "rest m1 = rest m"
    using transplant_child [OF Y, of ry] by auto
  then have Z: "repz n m1 (Nd l z c ?r) k" by (simp add: repz_plug [symmetric] repz_FR)
  have rne: "?r \<noteq> Lf" using assms(3) by (cases ks rule: ptop.cases) (auto simp: plug_Nd)
  have ok: "soa_ok n m1" and zn: "z < n" using repz_node [OF Z] by auto
  have yn: "y < n" using repz_node [OF Y] by auto
  have nd: "nodup n (Nd l y c ?r) k" "z \<notin> kn k" "z \<notin> set (ino l)" "z \<notin> set (ino ?r)" "z \<noteq> y"
    using assms(1) by (auto simp: repz_def nodup_def kn_def)
  have rn: "ntop ?r \<in> set (ino ?r)" by (rule ntop_in [OF rne])
  then have rlt: "ntop ?r < n" "ntop ?r \<noteq> y" "ntop ?r \<noteq> z" "ntop ?r \<notin> kn k" "ntop ?r \<notin> set (ino l)"
    using nd by (auto simp: nodup_def kn_def)
  define m3 where "m3 = setP (setR m1 y (ntop ?r)) (ntop ?r) y"
  note st = store_simps [where n = n] ok yn rlt(1) zn
  have ne: "ptop ?K \<noteq> z" using Y assms(3) by (intro ptop_ne) (auto simp: repz_def nodup_def)
  have "detach_code m z y (ptop ?K) = Some (m3, ptop ?K)"
    using ne m1(1) repz_read(2,3) [OF Y] repz_read(2) [OF Z] by (simp add: detach_code_def m3_def st)
  moreover have f: "soa_ok n m3" "rest m3 = rest m" "fL m3 = fL m1" "fR m3 = (fR m1)(y := ntop ?r)"
    "fP m3 = (fP m1)(ntop ?r := y)" "fC m3 = fC m1" "m_root m3 = m_root m1"
    using m1(3) by (simp_all add: m3_def st)
  have T: "repk m1 z k" "rept m1 z l" "rept m1 z ?r" using Z by (auto simp: repz_def)
  have yo: "y \<notin> kn k" "y \<notin> set (ino l)" "y \<notin> set (ino ?r)" "distinct (ino ?r)"
    using nd(1) by (auto simp: nodup_def kn_def)
  have "repk m3 z k"
    by (rule repk_frame [OF T(1)]) (use f yo rlt in auto)
  moreover have "rept m3 z l"
    by (rule rept_frame [OF T(2)]) (use f yo rlt in auto)
  moreover have "rept m3 y ?r"
    by (rule rept_reroot [OF T(3) yo(4)]) (use f yo in auto)
  ultimately show ?thesis
    using replace_node [OF f(1) nd(1) assms(2) zn nd(2-5)] repz_node(4,6,7) [OF Z] f nd(5) rlt(3)
    by auto
qed

text \<open>Both cases at once: the successor's right subtree \<open>ry\<close> is where a black node may now be missing.\<close>

lemma remove_two:
  assumes "repz n m (Nd l z c r) k" "l \<noteq> Lf" "r \<noteq> Lf"
  shows "\<exists>y cy ry ks m3 m'. r = plug (Nd Lf y cy ry) ks \<and> kl ks = [] \<and>
    minimum_node m (ntop r) = Some y \<and> rd_colour m y = Some (ci cy) \<and> rd_right m y = Some (ntop ry) \<and>
    rd_parent m y = Some (ptop (ks @ FR l z c # k)) \<and>
    detach_code m z y (ptop (ks @ FR l z c # k)) = Some (m3, ptop (ks @ FR l y c # k)) \<and>
    replace_code m3 z y = Some m' \<and> repz n m' ry (ks @ FR l y c # k) \<and> rest m' = rest m"
proof -
  have "repz n m r (FR l z c # k)" using assms(1) by (simp add: repz_FR)
  then obtain y cy ry ks where y: "minimum_node m (ntop r) = Some y" "r = plug (Nd Lf y cy ry) ks" "kl ks = []"
    using minimum_node_spec assms(3) by blast
  have Y: "repz n m (Nd Lf y cy ry) (ks @ FR l z c # k)"
    using assms(1) y(2) by (simp add: repz_plug [symmetric] repz_FR)
  note rd = repz_read(2,3,4) [OF Y]
  have mv: "repz n m' ry (ks @ FR l y c # k)" if "repz n m' (Nd l y c (plug ry ks)) k" for m'
    using that by (simp add: repz_plug [symmetric] repz_FR)
  show ?thesis
  proof (cases "ks = []")
    case True
    obtain m' where "replace_code m z y = Some m'" "repz n m' (Nd l y c ry) k" "rest m' = rest m"
      using remove_near [of n m l z c y cy ry k] assms y(2) True by auto
    then show ?thesis
      using y rd True mv [of m']
      by (intro exI [of _ y] exI [of _ cy] exI [of _ ry] exI [of _ "[]"] exI [of _ m] exI [of _ m'])
        (simp add: detach_code_def)
  next
    case False
    then have top: "ptop (ks @ FR l z c # k) = ptop (ks @ FR l y c # k)"
      by (cases ks rule: ptop.cases) auto
    obtain m3 m' where "detach_code m z y (ptop (ks @ FR l z c # k)) = Some (m3, ptop (ks @ FR l z c # k))"
      "replace_code m3 z y = Some m'" "repz n m' (Nd l y c (plug ry ks)) k" "rest m' = rest m"
      using remove_far [of n m l z c y cy ry ks k] assms y(2) False by blast
    then show ?thesis using y rd mv [of m'] top by metis
  qed
qed

section \<open>Which node loses a black one\<close>

lemma removed_valid:
  assumes "rb_valid (plug (Nd a y c b) K)" "a = Lf \<and> x = b \<or> b = Lf \<and> x = a"
  shows "if c = Red then rb_valid (plug x K) else \<exists>g. lacks g x \<and> rbk (Suc g) K"
proof -
  obtain h where h: "rb h (Nd a y c b)" "rbk h K" "c = Red \<longrightarrow> K \<noteq> [] \<and> pcol K = Black"
    using rb_unplug [OF assms(1)] by auto
  show ?thesis
  proof (cases c)
    case Red
    then have "rb h x" "tcol x = Black" using h(1) assms(2) by auto
    then show ?thesis using rb_plug [of h x K] h(2) Red by simp
  next
    case Black
    then obtain g where g: "h = Suc g" "rb g x" using h(1) assms(2) by (auto simp: rb_Black)
    then have "lacks g x" using rb_paint_Black [of g x] by (simp add: lacks_def)
    then show ?thesis using g(1) h(2) Black by auto
  qed
qed

text \<open>The red-black conditions do not look at the node numbers on the path.\<close>

lemma pcol_rename: "pcol (ks @ FR l z c # k) = pcol (ks @ FR l y c # k)"
  by (cases ks rule: ptop.cases) auto

lemma rbk_rename: "rbk h (ks @ FR l z c # k) = rbk h (ks @ FR l y c # k)"
proof (induction ks arbitrary: h)
  case Nil
  then show ?case by (cases c) auto
next
  case (Cons f ks)
  then show ?case using pcol_rename [of ks l z c k y] by (cases f) (auto simp: rbk_FL rbk_FR)
qed

lemma rb_valid_rename:
  assumes "rb_valid (plug t (ks @ FR l z c # k))"
  shows "rb_valid (plug t (ks @ FR l y c # k))"
proof -
  obtain h where "rb h t" "rbk h (ks @ FR l z c # k)"
    "tcol t = Red \<longrightarrow> ks @ FR l z c # k \<noteq> [] \<and> pcol (ks @ FR l z c # k) = Black"
    using rb_unplug [OF assms] by blast
  then show ?thesis
    using rbk_rename [of h ks l z c k y] pcol_rename [of ks l z c k y] by (intro rb_plug [of h]) auto
qed

section \<open>Unlinking a node\<close>

text \<open>The three cases of \<^verbatim>\<open>map_erase\<close>: the new state, the colour of the node taken out, the subtree
  \<open>x\<close> in its place and the parent of \<open>x\<close>.\<close>

definition unlink_code :: "rbmap \<Rightarrow> nat \<Rightarrow> (rbmap \<times> int \<times> nat \<times> nat) option" where
  "unlink_code m z = do {
     yc \<leftarrow> rd_colour m z;
     zl \<leftarrow> rd_left m z;
     if zl = NIL then do {
       x \<leftarrow> rd_right m z;
       xp \<leftarrow> rd_parent m z;
       zr \<leftarrow> rd_right m z;
       m \<leftarrow> transplant m z zr;
       Some (m, yc, x, xp) }
     else do {
       zr \<leftarrow> rd_right m z;
       if zr = NIL then do {
         x \<leftarrow> rd_left m z;
         xp \<leftarrow> rd_parent m z;
         zl \<leftarrow> rd_left m z;
         m \<leftarrow> transplant m z zl;
         Some (m, yc, x, xp) }
       else do {
         y \<leftarrow> minimum_node m zr;
         yc \<leftarrow> rd_colour m y;
         x \<leftarrow> rd_right m y;
         yp \<leftarrow> rd_parent m y;
         (m, xp) \<leftarrow> detach_code m z y yp;
         m \<leftarrow> replace_code m z y;
         Some (m, yc, x, xp) }}}"

text \<open>The end of \<^verbatim>\<open>map_erase\<close>: the repair, if a black node went, and a black root.\<close>

definition settle_code :: "rbmap \<Rightarrow> int \<Rightarrow> nat \<Rightarrow> nat \<Rightarrow> rbmap option" where
  "settle_code m yc x xp = do {
     m \<leftarrow> (if yc = RB_BLACK then erase_fixup m x xp else Some m);
     if m_root m \<noteq> NIL then wr_colour m (m_root m) RB_BLACK else Some m }"

lemma map_erase_unlink:
  "map_erase km m key = do {
     z \<leftarrow> find_index m key;
     if z = NIL then Some (0, m)
     else do {
       (m, yc, x, xp) \<leftarrow> unlink_code m z;
       m \<leftarrow> node_recycle km m z;
       let m = m\<lparr>m_count := sub64 (m_count m) 1\<rparr>;
       m \<leftarrow> settle_code m yc x xp;
       Some (1, m) }}"
  by (simp only: map_erase_def unlink_code_def detach_code_def [abs_def] replace_code_def [abs_def]
      settle_code_def bind_assoc)

definition unlinked :: "nat \<Rightarrow> rbmap \<Rightarrow> nat \<Rightarrow> ntree \<Rightarrow> nat list \<Rightarrow> bool" where
  "unlinked n m z t is \<longleftrightarrow> (\<exists>m' yc x K. unlink_code m z = Some (m', ci yc, ntop x, ptop K) \<and>
     repz n m' x K \<and> rest m' = rest m \<and> ino (plug x K) = is \<and>
     (rb_valid t \<longrightarrow> (if yc = Red then rb_valid (plug x K) else \<exists>g. lacks g x \<and> rbk (Suc g) K)))"

lemma unlink_spec:
  assumes "repz n m (Nd l z c r) k"
  shows "unlinked n m z (plug (Nd l z c r) k) (kl k @ ino l @ ino r @ kr k)"
proof -
  note rd = repz_read(1-4,6) [OF assms]
  have one: "unlinked n m z (plug (Nd l z c r) k) (kl k @ ino x @ kr k)"
    if "unlink_code m z = Some (m', ci c, ntop x, ptop k)" "repz n m' x k" "rest m' = rest m"
      "l = Lf \<and> x = r \<or> r = Lf \<and> x = l" for x m'
    using that removed_valid [of l z c r k x]
    by (auto simp: unlinked_def intro!: exI [of _ m'] exI [of _ c] exI [of _ x] exI [of _ k])
  consider (right) "l = Lf" | (left) "l \<noteq> Lf" "r = Lf" | (both) "l \<noteq> Lf" "r \<noteq> Lf" by blast
  then show ?thesis
  proof cases
    case right
    then obtain m' where "transplant m z (ntop r) = Some m'" "repz n m' r k" "rest m' = rest m"
      using transplant_child [OF assms, of r] by auto
    then show ?thesis using one [of m' r] rd right by (simp add: unlink_code_def)
  next
    case left
    then have "ntop l \<noteq> NIL" using assms repz_read(6) [of n m] by (cases l) (auto simp: repz_FL [symmetric])
    moreover obtain m' where "transplant m z (ntop l) = Some m'" "repz n m' l k" "rest m' = rest m"
      using transplant_child [OF assms, of l] left by auto
    ultimately show ?thesis using one [of m' l] rd left by (simp add: unlink_code_def)
  next
    case both
    have ne: "ntop l \<noteq> NIL" "ntop r \<noteq> NIL"
      using both assms repz_read(6) [of n m] repz_FL [of n m l z c r k] repz_FR [of n m r l z c k]
      by (cases l; cases r; auto)+
    obtain y cy ry ks m3 m' where y: "r = plug (Nd Lf y cy ry) ks" "kl ks = []"
      "minimum_node m (ntop r) = Some y" "rd_colour m y = Some (ci cy)" "rd_right m y = Some (ntop ry)"
      "rd_parent m y = Some (ptop (ks @ FR l z c # k))"
      "detach_code m z y (ptop (ks @ FR l z c # k)) = Some (m3, ptop (ks @ FR l y c # k))"
      "replace_code m3 z y = Some m'" "repz n m' ry (ks @ FR l y c # k)" "rest m' = rest m"
      using remove_two [OF assms both] by blast
    have "unlink_code m z = Some (m', ci cy, ntop ry, ptop (ks @ FR l y c # k))"
      using rd ne y(3-8) by (simp add: unlink_code_def)
    moreover have "ino (plug ry (ks @ FR l y c # k)) = kl k @ ino l @ ino r @ kr k"
      using y(1,2) by simp
    moreover have "if cy = Red then rb_valid (plug ry (ks @ FR l y c # k))
      else \<exists>g. lacks g ry \<and> rbk (Suc g) (ks @ FR l y c # k)" if "rb_valid (plug (Nd l z c r) k)"
    proof -
      have "rb_valid (plug (Nd Lf y cy ry) (ks @ FR l z c # k))" using that y(1) by simp
      then have "if cy = Red then rb_valid (plug ry (ks @ FR l z c # k))
        else \<exists>g. lacks g ry \<and> rbk (Suc g) (ks @ FR l z c # k)"
        by (rule removed_valid [of Lf y cy ry _ ry]) simp
      then show ?thesis
        using rbk_rename [of _ ks l z c k y] rb_valid_rename [of ry ks l z c k y] by (auto split: if_splits)
    qed
    ultimately show ?thesis using y(9,10) unfolding unlinked_def by blast
  qed
qed

section \<open>Erasure\<close>

text \<open>Recycling the slot of a node that is no longer in the tree.\<close>

lemma node_recycle_spec:
  assumes "heap_ok km" "vec_ok (m_free m)" "distinct (z # vec_list (m_free m))"
  shows "\<exists>fv. node_recycle km m z = Some (m\<lparr>m_free := fv\<rparr>) \<and> vec_ok fv \<and> distinct (vec_list fv) \<and>
    set (vec_list fv) \<subseteq> insert z (set (vec_list (m_free m)))"
proof -
  consider "vector_push km (m_free m) z = Some (-1, m_free m)"
    | v where "vector_push km (m_free m) z = Some (0, v)" "vec_ok v" "vec_list v = vec_list (m_free m) @ [z]"
    using vector_push_spec [OF assms(1,2), of z] by blast
  then show ?thesis
  proof cases
    case 1
    then show ?thesis
      using assms(2,3) by (intro exI [of _ "m_free m"]) (auto simp: node_recycle_def)
  next
    case 2
    then show ?thesis using assms(3) by (intro exI [of _ v]) (auto simp: node_recycle_def)
  qed
qed

lemma blacken_root:
  assumes "repz n m T []" "rb_valid T"
  shows "\<exists>m'. (if m_root m \<noteq> NIL then wr_colour m (m_root m) RB_BLACK else Some m) = Some m' \<and>
    repz n m' T [] \<and> rest m' = rest m"
proof (cases T)
  case Lf
  then show ?thesis using assms(1) by (simp add: repz_def)
next
  case (Nd l i c r)
  then have r: "repz n m (Nd l i Black r) []" "m_root m = i"
    using assms by (auto simp: repz_def rb_valid_def)
  then show ?thesis
    using setC_repz [OF r(1), of Black] repz_read(6,8) [OF r(1)] Nd assms(2) by (auto simp: rb_valid_def)
qed

lemma settle_code_spec:
  assumes "repz n m x K" "if yc = Red then rb_valid (plug x K) else \<exists>g. lacks g x \<and> rbk (Suc g) K"
  shows "\<exists>m' T. settle_code m (ci yc) (ntop x) (ptop K) = Some m' \<and> repz n m' T [] \<and> rb_valid T \<and>
    ino T = ino (plug x K) \<and> rest m' = rest m"
proof (cases yc)
  case Red
  then have v: "rb_valid (plug x K)" "repz n m (plug x K) []" using assms by (simp_all add: repz_plug_Nil)
  then obtain m' where "(if m_root m \<noteq> NIL then wr_colour m (m_root m) RB_BLACK else Some m) = Some m'"
    "repz n m' (plug x K) []" "rest m' = rest m"
    using blacken_root by blast
  then show ?thesis
    using v(1) Red by (intro exI [of _ m'] exI [of _ "plug x K"]) (simp add: settle_code_def)
next
  case Black
  then obtain g where g: "lacks g x" "rbk (Suc g) K" using assms(2) by auto
  obtain m1 where m1: "erase_fixup m (ntop x) (ptop K) = Some m1" "repz n m1 (del_fix x K) []" "rest m1 = rest m"
    using erase_fixup_refines [OF assms(1) g] by blast
  note v = del_fix_valid [OF g]
  obtain m' where "(if m_root m1 \<noteq> NIL then wr_colour m1 (m_root m1) RB_BLACK else Some m1) = Some m'"
    "repz n m' (del_fix x K) []" "rest m' = rest m1"
    using blacken_root [OF m1(2)] v by blast
  then show ?thesis using m1(1,3) v Black by (auto simp: settle_code_def)
qed

text \<open>The code for a key that is there: the slot \<open>z\<close> leaves the tree and goes to the free list.\<close>

lemma map_erase_hit:
  assumes "heap_ok km" "repz n m t []" "rb_valid t" "slots_ok n m (ino t)" "find_index m key = Some z"
    and tz: "t = plug (Nd l z c r) k"
  obtains m' T where "map_erase km m key = Some (1, m')" "repz n m' T []" "rb_valid T"
    "ino T = (kl k @ ino l) @ ino r @ kr k" "fK m' = fK m" "fV m' = fV m" "m_cmp m' = m_cmp m" "slots_ok n m' (ino T)"
proof -
  define "is" where "is = kl k @ ino l"
  define js where "js = ino r @ kr k"
  have it: "ino t = is @ z # js" by (simp add: tz is_def js_def)
  have Z: "repz n m (Nd l z c r) k" using assms(2) by (simp add: repz_plug_Nil tz)
  obtain m1 yc x K where u: "unlink_code m z = Some (m1, ci yc, ntop x, ptop K)" "repz n m1 x K"
    "rest m1 = rest m" "ino (plug x K) = is @ js"
    "if yc = Red then rb_valid (plug x K) else \<exists>g. lacks g x \<and> rbk (Suc g) K"
    using unlink_spec [OF Z] assms(3) by (auto simp: unlinked_def tz is_def js_def)
  note e = rest_eqD [OF u(3)]
  have sl: "vec_ok (m_free m)" "distinct (vec_list (m_free m))"
    "set (vec_list (m_free m)) \<subseteq> {..<n} - set (ino t)" "m_count m = length (ino t)"
    "\<forall>v\<in>set (soa_vecs (m_a m)). v_count v = n"
    using assms(4) by (auto simp: slots_ok_def)
  have fr: "z \<notin> set (vec_list (m_free m))" using sl(3) it by auto
  obtain fv where fv: "node_recycle km m1 z = Some (m1\<lparr>m_free := fv\<rparr>)" "vec_ok fv" "distinct (vec_list fv)"
    "set (vec_list fv) \<subseteq> insert z (set (vec_list (m_free m)))"
    using node_recycle_spec [OF assms(1), of m1 z] sl(1,2) fr e(3) by auto
  let ?m2 = "m1\<lparr>m_free := fv, m_count := sub64 (m_count m1) 1\<rparr>"
  have "repz n ?m2 x K" using u(2) by (simp add: repz_update)
  then obtain m3 T where m3: "settle_code ?m2 (ci yc) (ntop x) (ptop K) = Some m3" "repz n m3 T []"
    "rb_valid T" "ino T = is @ js" "rest m3 = rest ?m2"
    using settle_code_spec [of n ?m2 x K yc] u(4,5) by auto
  have code: "map_erase km m key = Some (1, m3)"
    using assms(5) repz_read(6) [OF Z] u(1) fv(1) m3(1) by (simp add: map_erase_unlink Let_def)
  note e3 = rest_eqD [OF m3(5)]
  have K3: "fK m3 = fK m" "fV m3 = fV m" "m_cmp m3 = m_cmp m" "m_free m3 = fv" "m_count m3 = sub64 (m_count m1) 1"
    using e e3 by simp_all
  have "length (ino t) \<le> n" by (rule repz_length [OF assms(2)])
  moreover have "n < 2 ^ 45" using assms(2) sl(5) vec_ok_count_small [of "s_keys (m_a m)"]
    by (simp add: repz_def soa_ok_def soa_vecs_def)
  ultimately have "m_count m3 = length (ino T)"
    using K3(5) e(4) sl(4) it m3(4) by (simp add: sub64_nowrap W64_def)
  moreover have "\<forall>v\<in>set (soa_vecs (m_a m3)). v_count v = n"
    using rest_counts [OF m3(5), of n] rest_counts [OF u(3), of n] sl(5) by simp
  moreover have "set (vec_list fv) \<subseteq> {..<n} - set (ino T)"
    using fv(4) sl(3) it m3(4) assms(2) by (auto simp: repz_def nodup_def)
  ultimately have "slots_ok n m3 (ino T)" using fv(2,3) K3(4) by (simp add: slots_ok_def)
  then show ?thesis using that [OF code m3(2,3)] m3(4) K3(1-3) by (simp add: is_def js_def)
qed

text \<open>C5: \<^verbatim>\<open>map_erase\<close> returns 0 and changes nothing when no key is equal to the one given; otherwise
  it returns 1, exactly that entry is gone, the tree is red-black again and the slot is free for the
  next insertion (or lost, when the free list cannot grow).\<close>

theorem map_erase_correct:
  assumes "rb_ok m xs" "key_order (m_cmp m)" "heap_ok km"
  shows "if al_lookup (m_cmp m) xs key = None then map_erase km m key = Some (0, m)
    else \<exists>m'. map_erase km m key = Some (1, m') \<and> rb_ok m' (al_erase (m_cmp m) key xs) \<and> m_cmp m' = m_cmp m"
proof -
  obtain n t where t: "repz n m t []" "rb_valid t" "rb_sorted m (ino t)" "slots_ok n m (ino t)"
    "xs = entries m (ino t)" using assms(1) by (auto simp: rb_ok_def)
  from search_root [OF assms(2) t(1,3), of key] show ?thesis
  proof (elim disjE exE conjE)
    fix z assume z: "find_index m key = Some z" "hit m key t z"
      "al_lookup (m_cmp m) (entries m (ino t)) key = Some (fV m z)"
    obtain l c r k where tz: "t = plug (Nd l z c r) k" using z(2) by (auto simp: hit_def)
    obtain m' T where e: "map_erase km m key = Some (1, m')" "repz n m' T []" "rb_valid T"
      "ino T = (kl k @ ino l) @ ino r @ kr k" "fK m' = fK m" "fV m' = fV m" "m_cmp m' = m_cmp m" "slots_ok n m' (ino T)"
      using map_erase_hit [OF assms(3) t(1,2,4) z(1) tz] by blast
    have it: "ino t = (kl k @ ino l) @ z # ino r @ kr k" by (simp add: tz)
    have ent: "entries m' (ino T) = entries m (kl k @ ino l) @ entries m (ino r @ kr k)"
      using e(4-6) by (simp add: entries_def)
    have srt: "al_sorted (m_cmp m) (entries m (kl k @ ino l) @ (fK m z, fV m z) # entries m (ino r @ kr k))"
      using t(3) it by (simp add: rb_sorted_entries)
    have "al_erase (m_cmp m) key xs = entries m' (ino T)"
      using key_order.al_hit(3) [OF assms(2) srt] z(2) t(5) it ent by (simp add: hit_def)
    moreover have "rb_sorted m' (ino T)"
      using t(3) e(4,5,7) it by (simp add: rb_sorted_def sorted_wrt_append lt_at_def [abs_def])
    ultimately have "rb_ok m' (al_erase (m_cmp m) key xs)" using e(2,3,8) unfolding rb_ok_def by blast
    then show ?thesis using e(1,7) z(3) t(5) by auto
  qed (simp add: map_erase_def t(5))
qed

end
