(* ===== verification/RbIter.thy ===== *)
theory RbIter
  imports RbMapErase
begin

text \<open>
  Iterators and bounds of the ordered map.  An iterator that is not at either end holds the node
  number of one entry; \<^verbatim>\<open>map_next\<close> and \<^verbatim>\<open>map_prev\<close> move it to the neighbouring entry of the sorted
  list, and a walk from \<^verbatim>\<open>map_begin\<close> or back from \<^verbatim>\<open>map_end\<close> meets every entry once, in order.
\<close>

section \<open>Successor and predecessor\<close>

definition first_of :: "nat list \<Rightarrow> nat" where
  "first_of is = (case is of [] \<Rightarrow> NIL | i # _ \<Rightarrow> i)"

lemma first_of_simps [simp]: "first_of [] = NIL" "first_of (i # is) = i"
  by (simp_all add: first_of_def)

lemma split_unique:
  assumes "distinct xs" "xs = as @ i # bs" "xs = cs @ i # ds"
  shows "as = cs \<and> bs = ds"
proof -
  have "i \<notin> set as" "i \<notin> set bs" using assms(1,2) by auto
  then show ?thesis using append_Cons_eq_iff [of i as bs cs ds] assms(2,3) by simp
qed

lemma find_append: "List.find P (xs @ ys) = (case List.find P xs of None \<Rightarrow> List.find P ys | Some x \<Rightarrow> Some x)"
  by (induction xs) auto

lemma node_in_tree: "i \<in> set (ino t) \<Longrightarrow> \<exists>l c r k. t = plug (Nd l i c r) k"
proof (induction t)
  case (Nd l j c r)
  consider "i = j" | "i \<in> set (ino l)" | "i \<in> set (ino r)" using Nd(3) by auto
  then show ?case
  proof cases
    case 1
    then show ?thesis using plug.simps(1) by metis
  next
    case 2
    then obtain l' c' r' k' where "l = plug (Nd l' i c' r') k'" using Nd(1) by blast
    then have "Nd l j c r = plug (Nd l' i c' r') (k' @ [FL j c r])" by simp
    then show ?thesis by blast
  next
    case 3
    then obtain l' c' r' k' where "r = plug (Nd l' i c' r') k'" using Nd(2) by blast
    then have "Nd l j c r = plug (Nd l' i c' r') (k' @ [FR l j c])" by simp
    then show ?thesis by blast
  qed
qed simp

lemma succ_climb_spec:
  "\<lbrakk>repz n m t k; t \<noteq> Lf\<rbrakk> \<Longrightarrow> succ_climb m (ntop t) (ptop k) = Some (first_of (kr k))"
proof (induction k arbitrary: t rule: kl.induct)
  case 1
  then show ?case by (subst succ_climb.simps) simp
next
  case (2 i c r k)
  then have p: "repz n m (Nd t i c r) k" by (simp add: repz_FL)
  show ?case
    using repz_read(2,6) [OF p] repz_ne(4) [OF p 2(3)] by (subst succ_climb.simps) simp
next
  case (3 l i c k)
  then have p: "repz n m (Nd l i c t) k" by (simp add: repz_FR)
  show ?case
    using repz_read(2,3,6) [OF p] 3(1) [OF p] by (subst succ_climb.simps) simp
qed

lemma pred_climb_spec:
  "\<lbrakk>repz n m t k; t \<noteq> Lf\<rbrakk> \<Longrightarrow> pred_climb m (ntop t) (ptop k) = Some (first_of (rev (kl k)))"
proof (induction k arbitrary: t rule: kl.induct)
  case 1
  then show ?case by (subst pred_climb.simps) simp
next
  case (2 i c r k)
  then have p: "repz n m (Nd t i c r) k" by (simp add: repz_FL)
  show ?case
    using repz_read(1,3,6) [OF p] 2(1) [OF p] by (subst pred_climb.simps) simp
next
  case (3 l i c k)
  then have p: "repz n m (Nd l i c t) k" by (simp add: repz_FR)
  show ?case
    using repz_read(1,6) [OF p] repz_ne(5) [OF p 3(3)] by (subst pred_climb.simps) simp
qed

lemma ntop_NIL: "repz n m t k \<Longrightarrow> ntop t = NIL \<longleftrightarrow> t = Lf"
  by (cases t) (auto dest: repz_read(6))

lemma minimum_first:
  assumes "repz n m t k" "t \<noteq> Lf"
  shows "minimum_node m (ntop t) = Some (first_of (ino t))"
  using minimum_node_spec [OF assms] by auto

lemma maximum_last:
  assumes "repz n m t k" "t \<noteq> Lf"
  shows "maximum_node m (ntop t) = Some (first_of (rev (ino t)))"
  using maximum_node_spec [OF assms] by auto

text \<open>The neighbours of a node in the sorted sequence.\<close>

lemma successor_spec:
  assumes "repz n m t []" "ino t = is @ i # js"
  shows "successor m i = Some (first_of js)"
proof -
  obtain l c r k where tz: "t = plug (Nd l i c r) k" using node_in_tree [of i t] assms(2) by auto
  have Z: "repz n m (Nd l i c r) k" using assms(1) tz by (simp add: repz_plug_Nil)
  have d: "distinct (ino t)" using assms(1) by (simp add: repz_def nodup_def)
  have js: "js = ino r @ kr k"
    using split_unique [OF d assms(2), of "kl k @ ino l" "ino r @ kr k"] by (simp add: tz)
  have R: "repz n m r (FR l i c # k)" using Z by (simp add: repz_FR)
  show ?thesis
  proof (cases "r = Lf")
    case True
    then show ?thesis
      using repz_read(2,3,6) [OF Z] succ_climb_spec [OF Z] js by (simp add: successor_def)
  next
    case False
    then have "ino r \<noteq> []" by (cases r) auto
    then have "first_of js = first_of (ino r)" using js by (cases "ino r") auto
    then show ?thesis
      using repz_read(2,6) [OF Z] minimum_first [OF R False] ntop_NIL [OF R] False
      by (simp add: successor_def)
  qed
qed

lemma predecessor_spec:
  assumes "repz n m t []" "ino t = is @ i # js"
  shows "predecessor m i = Some (first_of (rev is))"
proof -
  obtain l c r k where tz: "t = plug (Nd l i c r) k" using node_in_tree [of i t] assms(2) by auto
  have Z: "repz n m (Nd l i c r) k" using assms(1) tz by (simp add: repz_plug_Nil)
  have d: "distinct (ino t)" using assms(1) by (simp add: repz_def nodup_def)
  have is_eq: "is = kl k @ ino l"
    using split_unique [OF d assms(2), of "kl k @ ino l" "ino r @ kr k"] by (simp add: tz)
  have L: "repz n m l (FL i c r # k)" using Z by (simp add: repz_FL)
  show ?thesis
  proof (cases "l = Lf")
    case True
    then show ?thesis
      using repz_read(1,3,6) [OF Z] pred_climb_spec [OF Z] is_eq by (simp add: predecessor_def)
  next
    case False
    then have "rev (ino l) \<noteq> []" by (cases l) auto
    then have "first_of (rev is) = first_of (rev (ino l))" using is_eq by (cases "rev (ino l)") auto
    then show ?thesis
      using repz_read(1,6) [OF Z] maximum_last [OF L False] ntop_NIL [OF L] False
      by (simp add: predecessor_def)
  qed
qed

section \<open>Walking the map\<close>

text \<open>The loop of a client that visits the entries with \<^verbatim>\<open>map_next\<close>, or backwards with \<^verbatim>\<open>map_prev\<close>; the
  number bounds the visits.\<close>

primrec walk_next :: "nat \<Rightarrow> rbmap \<Rightarrow> map_iter \<Rightarrow> entries option" where
  "walk_next 0 m it = (if it_state it = ITER_OK then None else Some [])"
| "walk_next (Suc f) m it = (if it_state it \<noteq> ITER_OK then Some [] else do {
     a \<leftarrow> map_iter_key m it;
     b \<leftarrow> map_iter_value m it;
     (rc, it) \<leftarrow> map_next m it;
     xs \<leftarrow> walk_next f m it;
     Some ((a, b) # xs) })"

primrec walk_prev :: "nat \<Rightarrow> rbmap \<Rightarrow> map_iter \<Rightarrow> entries option" where
  "walk_prev 0 m it = (if it_state it = ITER_OK then None else Some [])"
| "walk_prev (Suc f) m it = (if it_state it \<noteq> ITER_OK then Some [] else do {
     a \<leftarrow> map_iter_key m it;
     b \<leftarrow> map_iter_value m it;
     (rc, it) \<leftarrow> map_prev m it;
     xs \<leftarrow> walk_prev f m it;
     Some ((a, b) # xs) })"

definition ok_iter :: "nat list \<Rightarrow> iter_state \<Rightarrow> map_iter" where
  "ok_iter is e = (case is of [] \<Rightarrow> \<lparr>it_i = NIL, it_state = e\<rparr> | i # _ \<Rightarrow> \<lparr>it_i = i, it_state = ITER_OK\<rparr>)"

lemma node_read:
  assumes "repz n m t []" "i \<in> set (ino t)"
  shows "rd_key m i = Some (fK m i)" "rd_val m i = Some (fV m i)" "i \<noteq> NIL"
proof -
  obtain l c r k where "t = plug (Nd l i c r) k" using node_in_tree [OF assms(2)] by blast
  then have "repz n m (Nd l i c r) k" using assms(1) by (simp add: repz_plug_Nil)
  then show "rd_key m i = Some (fK m i)" "rd_val m i = Some (fV m i)" "i \<noteq> NIL"
    by (auto dest: repz_key repz_read(6))
qed

lemma map_next_spec:
  assumes "repz n m t []" "ino t = is @ i # js"
  shows "map_next m (ok_iter (i # js) ITER_END) = Some (if js = [] then 0 else 1, ok_iter js ITER_END)"
proof (cases js)
  case Nil
  then show ?thesis using successor_spec [OF assms] by (simp add: map_next_def ok_iter_def)
next
  case (Cons j js')
  then have "j \<noteq> NIL" using node_read(3) [OF assms(1), of j] assms(2) by simp
  then show ?thesis using successor_spec [OF assms] Cons by (simp add: map_next_def ok_iter_def)
qed

lemma map_prev_spec:
  assumes "repz n m t []" "ino t = rev js @ i # is"
  shows "map_prev m (ok_iter (i # js) ITER_BEFORE_BEGIN) =
    Some (if js = [] then 0 else 1, ok_iter js ITER_BEFORE_BEGIN)"
proof (cases js)
  case Nil
  then show ?thesis using predecessor_spec [OF assms] by (simp add: map_prev_def ok_iter_def)
next
  case (Cons j js')
  then have "j \<noteq> NIL" using node_read(3) [OF assms(1), of j] assms(2) by simp
  then show ?thesis using predecessor_spec [OF assms] Cons by (simp add: map_prev_def ok_iter_def)
qed

lemma walk_next_spec:
  "\<lbrakk>repz n m t []; ino t = is @ js; length js \<le> f\<rbrakk> \<Longrightarrow>
   walk_next f m (ok_iter js ITER_END) = Some (entries m js)"
proof (induction js arbitrary: "is" f)
  case Nil
  then show ?case by (cases f) (auto simp: ok_iter_def)
next
  case (Cons i js)
  obtain g where g: "f = Suc g" "length js \<le> g" using Cons(4) by (cases f) auto
  have "walk_next g m (ok_iter js ITER_END) = Some (entries m js)"
    using Cons(1) [of "is @ [i]" g] Cons(2,3) g(2) by simp
  then show ?case
    using map_next_spec [OF Cons(2,3)] node_read [OF Cons(2), of i] Cons(3) g(1)
    by (simp add: map_iter_key_def map_iter_value_def ok_iter_def)
qed

lemma walk_prev_spec:
  "\<lbrakk>repz n m t []; ino t = rev js @ is; length js \<le> f\<rbrakk> \<Longrightarrow>
   walk_prev f m (ok_iter js ITER_BEFORE_BEGIN) = Some (entries m js)"
proof (induction js arbitrary: "is" f)
  case Nil
  then show ?case by (cases f) (auto simp: ok_iter_def)
next
  case (Cons i js)
  obtain g where g: "f = Suc g" "length js \<le> g" using Cons(4) by (cases f) auto
  have t: "ino t = rev js @ i # is" using Cons(3) by simp
  have "walk_prev g m (ok_iter js ITER_BEFORE_BEGIN) = Some (entries m js)"
    using Cons(1) [of "i # is" g] Cons(2) t g(2) by simp
  then show ?case
    using map_prev_spec [OF Cons(2) t] node_read [OF Cons(2), of i] t g(1)
    by (simp add: map_iter_key_def map_iter_value_def ok_iter_def)
qed

text \<open>C23: a walk with \<^verbatim>\<open>map_next\<close> from \<^verbatim>\<open>map_begin\<close> meets every entry exactly once, in the order of the
  keys, and then reports the end.\<close>

theorem map_iteration_complete:
  assumes "rb_view m xs"
  shows "\<exists>rc it. map_begin m = Some (rc, it) \<and> rc = (if xs = [] then 0 else 1) \<and>
    walk_next (length xs) m it = Some xs"
proof -
  obtain n t where t: "repz n m t []" "xs = entries m (ino t)" using assms by (auto simp: rb_view_def)
  have root: "m_root m = ntop t" using t(1) by (simp add: repz_def)
  have len: "length (ino t) \<le> length xs" using t(2) by (simp add: entries_def)
  show ?thesis
  proof (cases "t = Lf")
    case True
    then show ?thesis using root t(2) by (simp add: map_begin_def)
  next
    case False
    then obtain i js where i: "ino t = i # js" by (cases "ino t") (use False in \<open>cases t; auto\<close>)
    have "map_begin m = Some (1, ok_iter (ino t) ITER_END)"
      using minimum_first [OF t(1) False] ntop_NIL [OF t(1)] False root i
      by (simp add: map_begin_def ok_iter_def)
    then show ?thesis
      using walk_next_spec [of n m t "[]" "ino t" "length xs"] t len i by simp
  qed
qed

text \<open>A walk with \<^verbatim>\<open>map_prev\<close> from \<^verbatim>\<open>map_end\<close> meets the same entries in the opposite order.\<close>

theorem map_iteration_backwards:
  assumes "rb_view m xs"
  shows "\<exists>rc it. map_prev m map_end = Some (rc, it) \<and> walk_prev (length xs) m it = Some (rev xs)"
proof -
  obtain n t where t: "repz n m t []" "xs = entries m (ino t)" using assms by (auto simp: rb_view_def)
  have root: "m_root m = ntop t" using t(1) by (simp add: repz_def)
  have len: "length (rev (ino t)) \<le> length xs" using t(2) by (simp add: entries_def)
  have rv: "entries m (rev (ino t)) = rev xs" using t(2) by (simp add: entries_def rev_map)
  show ?thesis
  proof (cases "t = Lf")
    case True
    then show ?thesis using root t(2) by (simp add: map_prev_def map_end_def)
  next
    case False
    then obtain i js where i: "rev (ino t) = i # js" by (cases "rev (ino t)") (use False in \<open>cases t; auto\<close>)
    have "map_prev m map_end = Some (1, ok_iter (rev (ino t)) ITER_BEFORE_BEGIN)"
      using maximum_last [OF t(1) False] ntop_NIL [OF t(1)] False root i
      by (simp add: map_prev_def map_end_def ok_iter_def)
    then show ?thesis
      using walk_prev_spec [of n m t "rev (ino t)" "[]" "length xs"] t len rv by simp
  qed
qed

section \<open>Bounds\<close>

lemma lower_loop_spec:
  assumes "key_order (m_cmp m)"
  shows "\<lbrakk>repz n m t k; rb_sorted m (ino t)\<rbrakk> \<Longrightarrow> lower_loop m key best (ntop t) =
    Some (case List.find (\<lambda>i. \<not> m_cmp m (fK m i) key < 0) (ino t) of None \<Rightarrow> best | Some i \<Rightarrow> i)"
proof (induction t arbitrary: k best)
  case Lf
  then show ?case by (subst lower_loop.simps) simp
next
  case (Nd l i c r)
  have L: "repz n m l (FL i c r # k)" and R: "repz n m r (FR l i c # k)"
    using Nd(3) by (simp_all add: repz_FL repz_FR)
  have s: "rb_sorted m (ino l)" "rb_sorted m (ino r)" "\<And>j. j \<in> set (ino l) \<Longrightarrow> m_cmp m (fK m j) (fK m i) < 0"
    using Nd(4) by (auto simp: rb_sorted_def sorted_wrt_append lt_at_def)
  note rd = repz_read(1,2,6) [OF Nd(3)] repz_key(1) [OF Nd(3)]
  show ?case
  proof (cases "m_cmp m (fK m i) key < 0")
    case True
    then have "\<forall>j\<in>set (ino l). m_cmp m (fK m j) key < 0"
      using s(3) key_order.cmp_lt_trans [OF assms] by blast
    then have "List.find (\<lambda>i. \<not> m_cmp m (fK m i) key < 0) (ino l) = None"
      by (auto simp: find_None_iff)
    then have "List.find (\<lambda>i. \<not> m_cmp m (fK m i) key < 0) (ino (Nd l i c r)) =
        List.find (\<lambda>i. \<not> m_cmp m (fK m i) key < 0) (ino r)"
      using True by (simp add: find_append)
    then show ?thesis
      using True rd Nd(2) [OF R s(2), of best] by (subst lower_loop.simps) simp
  next
    case False
    then show ?thesis
      using rd Nd(1) [OF L s(1), of i]
      by (subst lower_loop.simps) (simp add: find_append split: option.splits)
  qed
qed

lemma upper_loop_spec:
  assumes "key_order (m_cmp m)"
  shows "\<lbrakk>repz n m t k; rb_sorted m (ino t)\<rbrakk> \<Longrightarrow> upper_loop m key best (ntop t) =
    Some (case List.find (\<lambda>i. \<not> m_cmp m (fK m i) key \<le> 0) (ino t) of None \<Rightarrow> best | Some i \<Rightarrow> i)"
proof (induction t arbitrary: k best)
  case Lf
  then show ?case by (subst upper_loop.simps) simp
next
  case (Nd l i c r)
  have L: "repz n m l (FL i c r # k)" and R: "repz n m r (FR l i c # k)"
    using Nd(3) by (simp_all add: repz_FL repz_FR)
  have s: "rb_sorted m (ino l)" "rb_sorted m (ino r)" "\<And>j. j \<in> set (ino l) \<Longrightarrow> m_cmp m (fK m j) (fK m i) < 0"
    using Nd(4) by (auto simp: rb_sorted_def sorted_wrt_append lt_at_def)
  note rd = repz_read(1,2,6) [OF Nd(3)] repz_key(1) [OF Nd(3)]
  show ?case
  proof (cases "m_cmp m (fK m i) key \<le> 0")
    case True
    then have "\<forall>j\<in>set (ino l). m_cmp m (fK m j) key \<le> 0"
      using s(3) key_order.cmp_lt_le [OF assms] less_imp_le by blast
    then have "List.find (\<lambda>i. \<not> m_cmp m (fK m i) key \<le> 0) (ino l) = None"
      by (auto simp: find_None_iff)
    then have "List.find (\<lambda>i. \<not> m_cmp m (fK m i) key \<le> 0) (ino (Nd l i c r)) =
        List.find (\<lambda>i. \<not> m_cmp m (fK m i) key \<le> 0) (ino r)"
      using True by (simp add: find_append)
    then show ?thesis
      using True rd Nd(2) [OF R s(2), of best] by (subst upper_loop.simps) simp
  next
    case False
    then show ?thesis
      using rd Nd(1) [OF L s(1), of i]
      by (subst upper_loop.simps) (simp add: find_append split: option.splits)
  qed
qed

text \<open>What an iterator delivers: the key and the value it stands on.\<close>

definition iter_entry :: "rbmap \<Rightarrow> map_iter \<Rightarrow> (nat \<times> nat) option" where
  "iter_entry m it = (if it_state it \<noteq> ITER_OK then None else
     do { a \<leftarrow> map_iter_key m it; b \<leftarrow> map_iter_value m it; Some (a, b) })"

lemma bound_entry:
  assumes "repz n m t []"
  shows "case bound_iter (case List.find (\<lambda>i. P (fK m i)) (ino t) of None \<Rightarrow> NIL | Some i \<Rightarrow> i) of (rc, it) \<Rightarrow>
    iter_entry m it = List.find (\<lambda>(a, b). P a) (entries m (ino t)) \<and>
    rc = (if List.find (\<lambda>(a, b). P a) (entries m (ino t)) = None then 0 else 1)"
proof -
  have f: "List.find (\<lambda>(a, b). P a) (entries m is) = map_option (\<lambda>i. (fK m i, fV m i)) (List.find (\<lambda>i. P (fK m i)) is)"
    for "is" by (induction "is") auto
  show ?thesis
  proof (cases "List.find (\<lambda>i. P (fK m i)) (ino t)")
    case None
    then show ?thesis by (simp add: f bound_iter_def iter_entry_def)
  next
    case (Some i)
    then have "i \<in> set (ino t)" by (auto simp: find_Some_iff)
    from node_read [OF assms this] Some show ?thesis
      by (simp add: f bound_iter_def iter_entry_def map_iter_key_def map_iter_value_def)
  qed
qed

text \<open>C24: \<^verbatim>\<open>map_lower_bound\<close> returns 1 with an iterator on the first entry whose key is not below the
  query, or 0 when all keys are below it; \<^verbatim>\<open>map_upper_bound\<close> the same for keys above the query.\<close>

theorem map_bounds_correct:
  assumes "rb_view m xs" "key_order (m_cmp m)"
  shows "(\<exists>rc it. map_lower_bound m key = Some (rc, it) \<and>
      iter_entry m it = List.find (\<lambda>(a, b). \<not> m_cmp m a key < 0) xs \<and>
      rc = (if List.find (\<lambda>(a, b). \<not> m_cmp m a key < 0) xs = None then 0 else 1)) \<and>
    (\<exists>rc it. map_upper_bound m key = Some (rc, it) \<and>
      iter_entry m it = List.find (\<lambda>(a, b). \<not> m_cmp m a key \<le> 0) xs \<and>
      rc = (if List.find (\<lambda>(a, b). \<not> m_cmp m a key \<le> 0) xs = None then 0 else 1))"
proof -
  obtain n t where t: "repz n m t []" "rb_sorted m (ino t)" "xs = entries m (ino t)"
    using assms(1) by (auto simp: rb_view_def)
  have root: "m_root m = ntop t" using t(1) by (simp add: repz_def)
  show ?thesis
    using lower_loop_spec [OF assms(2) t(1,2), of key NIL] upper_loop_spec [OF assms(2) t(1,2), of key NIL]
      bound_entry [OF t(1), of "\<lambda>a. \<not> m_cmp m a key < 0"] bound_entry [OF t(1), of "\<lambda>a. \<not> m_cmp m a key \<le> 0"]
    by (auto simp: map_lower_bound_def map_upper_bound_def root t(3) split: prod.splits)
qed

section \<open>Creation, clearing and the height\<close>

lemma rb_ok_empty:
  assumes "\<forall>v\<in>set (soa_vecs (m_a m)). vec_ok v \<and> v_count v = 0" "vec_ok (m_free m)" "v_count (m_free m) = 0"
    "m_root m = NIL" "m_count m = 0"
  shows "rb_ok m []"
proof -
  have "repz 0 m Lf []" using assms by (simp add: repz_def soa_ok_def nodup_def)
  moreover have "slots_ok 0 m (ino Lf)"
    using assms length_vec_list [OF assms(2)] by (simp add: slots_ok_def)
  ultimately show ?thesis
    unfolding rb_ok_def by (intro exI [of _ 0] exI [of _ Lf]) (simp add: rb_valid_def rb_sorted_def)
qed

lemma vector_clear_ok: "vec_ok v \<Longrightarrow> vec_ok (vector_clear v)" "v_count (vector_clear v) = 0"
  by (auto simp: vector_clear_def vec_ok_def split: option.splits)

lemma vector_init_Some:
  assumes "heap_ok km" "c < 2 ^ 45"
  shows "vec_ok (snd (vector_init km c)) \<and> v_count (snd (vector_init km c)) = 0"
proof -
  have "mul64 c 8 = c * 8" using assms(2) by (simp add: mul64_nowrap W64_def)
  then show ?thesis
    using assms by (cases "km (c * 8)") (auto simp: vector_init_def vec_ok_def heap_ok_def Let_def)
qed

text \<open>A map is empty after \<^verbatim>\<open>map_create\<close>, even if every one of its vectors failed to get memory, and
  after \<^verbatim>\<open>map_clear\<close> of any map.\<close>

theorem map_create_clear_empty:
  assumes "\<forall>j. heap_ok (hp j)" "rb_view m xs" "vec_ok (m_free m)"
  shows "(\<exists>m0. map_create True hp (Some c) = Some m0 \<and> rb_ok m0 [] \<and> m_cmp m0 = c) \<and>
    rb_ok (map_clear m) [] \<and> m_cmp (map_clear m) = m_cmp m"
proof -
  have init: "vec_ok (snd (vector_init (hp j) k)) \<and> v_count (snd (vector_init (hp j) k)) = 0"
    if "k < 2 ^ 45" for j k using vector_init_Some assms(1) that by blast
  have "rb_ok (the (map_create True hp (Some c))) []"
    by (rule rb_ok_empty) (use init in \<open>auto simp: map_create_def soa_vecs_def\<close>)
  moreover have "\<forall>v\<in>set (soa_vecs (m_a m)). vec_ok v" using assms(2) by (auto simp: rb_view_def repz_def soa_ok_def)
  then have "rb_ok (map_clear m) []"
    using assms(3)
    by (intro rb_ok_empty) (auto simp: map_clear_def soa_vecs_def vector_clear_ok)
  ultimately show ?thesis by (simp add: map_create_def map_clear_def)
qed

end
