(* ===== verification/RbDemo.thy ===== *)
theory RbDemo
  imports RbIter
begin

text \<open>
  The depth of the ordered map's tree, a concrete map for the witnesses, and what an insertion that
  runs out of memory half way leaves behind.
\<close>

section \<open>Logarithmic search\<close>

primrec ht :: "ntree \<Rightarrow> nat" where
  "ht Lf = 0"
| "ht (Nd l i c r) = Suc (max (ht l) (ht r))"

lemma rb_ht: "rb h t \<Longrightarrow> ht t \<le> 2 * h + (if tcol t = Red then 1 else 0)"
proof (induction h t rule: rb.induct)
  case (2 h l i r)
  then show ?case by auto
next
  case (4 h l i r)
  have "ht l \<le> 2 * h + 1" "ht r \<le> 2 * h + 1" using 4 by (auto split: if_splits)
  then show ?case by simp
qed auto

lemma rb_size: "rb h t \<Longrightarrow> 2 ^ h \<le> Suc (length (ino t))"
  by (induction h t rule: rb.induct) auto

lemma rb_valid_ht:
  assumes "rb_valid t"
  shows "2 ^ ht t \<le> (Suc (length (ino t))) ^ 2"
proof -
  obtain h where h: "rb h t" "tcol t = Black" using assms by (auto simp: rb_valid_def)
  then have "ht t \<le> 2 * h" using rb_ht by fastforce
  then have "(2::nat) ^ ht t \<le> 2 ^ (2 * h)" by (intro power_increasing) auto
  also have "\<dots> = (2 ^ h) ^ 2" by (simp add: power_mult [symmetric] mult.commute)
  also have "\<dots> \<le> (Suc (length (ino t))) ^ 2" by (intro power_mono rb_size [OF h(1)]) auto
  finally show ?thesis .
qed

text \<open>The loop of \<^verbatim>\<open>find_index\<close> with the number of its turns limited.\<close>

primrec find_within :: "nat \<Rightarrow> rbmap \<Rightarrow> nat \<Rightarrow> nat \<Rightarrow> nat option" where
  "find_within 0 m key cur = (if cur = NIL then Some NIL else None)"
| "find_within (Suc f) m key cur =
     (if cur = NIL then Some NIL
      else do {
        k \<leftarrow> rd_key m cur;
        let c = m_cmp m key k;
        if c = 0 then Some cur
        else if c < 0 then do { l \<leftarrow> rd_left m cur; find_within f m key l }
        else do { r \<leftarrow> rd_right m cur; find_within f m key r } })"

lemma find_within_ht:
  "\<lbrakk>repz n m t k; ht t \<le> f\<rbrakk> \<Longrightarrow> find_within f m key (ntop t) = find_loop m key (ntop t)"
proof (induction t arbitrary: k f)
  case Lf
  then show ?case by (cases f) simp_all
next
  case (Nd l i c r)
  obtain g where g: "f = Suc g" "ht l \<le> g" "ht r \<le> g" using Nd(4) by (cases f) auto
  have L: "repz n m l (FL i c r # k)" and R: "repz n m r (FR l i c # k)"
    using Nd(3) by (simp_all add: repz_FL repz_FR)
  show ?case
    using g Nd(1) [OF L, of g] Nd(2) [OF R, of g] repz_read(1,2,6) [OF Nd(3)] repz_key(1) [OF Nd(3)]
    by (subst find_loop.simps) (simp add: Let_def)
qed

text \<open>C25: a search makes at most \<open>2 log\<^sub>2 (n + 1)\<close> turns in a map of \<open>n\<close> entries: any limit \<open>f\<close> with
  \<open>(n + 1)\<^sup>2 \<le> 2\<^sup>f\<close> suffices.\<close>

theorem find_index_logarithmic:
  assumes "rb_view m xs" "(length xs + 1) ^ 2 \<le> 2 ^ Suc f"
  shows "find_within (Suc f) m key (m_root m) = find_index m key"
proof -
  obtain n t where t: "repz n m t []" "rb_valid t" "xs = entries m (ino t)"
    using assms(1) by (auto simp: rb_view_def)
  have "(2::nat) ^ ht t \<le> 2 ^ Suc f"
    using rb_valid_ht [OF t(2)] assms(2) t(3) by (simp add: entries_def)
  then have "ht t \<le> Suc f" using power_increasing_iff [of "2::nat" "ht t" "Suc f"] by simp
  then show ?thesis
    using find_within_ht [OF t(1), of "Suc f" key] t(1) by (simp add: find_index_def repz_def)
qed

section \<open>A concrete map\<close>

definition demo_heap :: heap where
  "demo_heap n = (if n < 2 ^ 48 then Some (replicate (n div 8) 0) else None)"

definition no_heap :: heap where
  "no_heap n = None"

lemma demo_heap_ok: "heap_ok demo_heap"
  by (simp add: heap_ok_def demo_heap_def)

lemma no_heap_ok: "heap_ok no_heap"
  by (simp add: heap_ok_def no_heap_def)

definition vec_of :: "nat list \<Rightarrow> vector" where
  "vec_of xs = \<lparr>v_data = Some xs, v_count = length xs, v_capacity = length xs\<rparr>"

text \<open>Three nodes: the root 0 with key 20, its left child 1 with key 10, its right child 2 with key 30,
  and the unused slot 3.\<close>

definition demo_map :: rbmap where
  "demo_map = \<lparr>m_a = \<lparr>s_keys = vec_of [20, 10, 30, 0], s_vals = vec_of [200, 100, 300, 0],
       s_left = vec_of [1, NIL, NIL, NIL], s_right = vec_of [2, NIL, NIL, NIL],
       s_parent = vec_of [NIL, 0, 0, NIL], s_colour = vec_of [1, 0, 0, 0]\<rparr>,
     m_free = vec_of [3], m_root = 0, m_count = 3, m_cmp = map_cmp_u64\<rparr>"

definition demo_tree :: ntree where
  "demo_tree = Nd (Nd Lf 1 Red Lf) 0 Black (Nd Lf 2 Red Lf)"

lemma vec_of_ok: "length xs < 2 ^ 45 \<Longrightarrow> vec_ok (vec_of xs) \<and> vec_list (vec_of xs) = xs"
  by (simp add: vec_ok_def vec_of_def vec_list_def)

lemma elt_vec_of: "elt (vec_of xs) i = (if i < length xs then xs ! i else 0)"
  by (simp add: elt_def vec_of_def vec_list_def)

lemma demo_ok: "rb_ok demo_map [(10, 100), (20, 200), (30, 300)]"
proof -
  have "soa_ok 4 demo_map"
    by (auto simp: soa_ok_def soa_vecs_def demo_map_def vec_of_ok, simp_all add: vec_of_def)
  then have "repz 4 demo_map demo_tree []"
    by (simp add: repz_def nodup_def demo_tree_def f_defs elt_vec_of) (simp add: demo_map_def elt_vec_of)
  moreover have "rb_valid demo_tree"
    by (simp add: rb_valid_def demo_tree_def rb_Black)
  moreover have "rb_sorted demo_map (ino demo_tree)"
    by (simp add: rb_sorted_def demo_tree_def lt_at_def f_defs) (simp add: demo_map_def elt_vec_of map_cmp_u64_def)
  moreover have "slots_ok 4 demo_map (ino demo_tree)"
    by (simp add: slots_ok_def demo_map_def demo_tree_def soa_vecs_def vec_of_ok) (simp add: vec_of_def)
  moreover have "entries demo_map (ino demo_tree) = [(10, 100), (20, 200), (30, 300)]"
    by (simp add: demo_tree_def f_defs) (simp add: demo_map_def elt_vec_of)
  ultimately show ?thesis unfolding rb_ok_def by metis
qed

lemma demo_cmp: "m_cmp demo_map = map_cmp_u64" "key_order (m_cmp demo_map)"
  using map_cmp_u64_order by (simp_all add: demo_map_def)

section \<open>An insertion that runs out of memory\<close>

text \<open>A map whose vectors have no block yet: the heap was exhausted when \<^verbatim>\<open>map_create\<close> ran, which it
  does not report.\<close>

definition no_vec :: vector where
  "no_vec = \<lparr>v_data = None, v_count = 0, v_capacity = 0\<rparr>"

text \<open>A block of eight words of which the first \<open>c\<close> are in use.\<close>

definition blk :: "nat \<Rightarrow> nat list \<Rightarrow> vector" where
  "blk c xs = \<lparr>v_data = Some xs, v_count = c, v_capacity = 8\<rparr>"

definition bare_map :: rbmap where
  "bare_map = \<lparr>m_a = \<lparr>s_keys = no_vec, s_vals = no_vec, s_left = no_vec, s_right = no_vec,
     s_parent = no_vec, s_colour = no_vec\<rparr>, m_free = no_vec, m_root = NIL, m_count = 0, m_cmp = map_cmp_u64\<rparr>"

text \<open>A heap that serves the first request of an operation only.\<close>

definition one_heap :: "nat \<Rightarrow> heap" where
  "one_heap j = (if j = 0 then demo_heap else no_heap)"

lemma replicate_8: "replicate 8 (0::nat) = [0, 0, 0, 0, 0, 0, 0, 0]"
  by (simp add: numeral_eq_Suc)

lemma push_bare: "vector_push demo_heap no_vec x = Some (0, blk 1 [x, 0, 0, 0, 0, 0, 0, 0])"
proof -
  have g: "vector_grow_to 8 (Suc 0) = 8" by (subst vector_grow_to.simps) simp
  have "demo_heap (mul64 8 8) = Some [0, 0, 0, 0, 0, 0, 0, 0]"
    by (simp add: mul64_def W64_def demo_heap_def replicate_8)
  then show ?thesis
    using g by (simp add: vector_push_def no_vec_def blk_def vector_reserve_def vector_set_def
        add64_nowrap W64_def Let_def)
qed

lemma push_none: "vector_push no_heap no_vec x = Some (-1, no_vec)"
  by (simp add: vector_push_def no_vec_def vector_reserve_def no_heap_def Let_def add64_nowrap W64_def)

lemma push_room: "c < 8 \<Longrightarrow> length xs = 8 \<Longrightarrow> vector_push km (blk c xs) x = Some (0, blk (Suc c) (xs[c := x]))"
  by (simp add: vector_push_def blk_def vector_set_def add64_nowrap W64_def Let_def)

lemma blk_get: "length xs = 8 \<Longrightarrow> vector_get (blk c xs) i = (if i < 8 then Some (xs ! i) else None)"
  by (simp add: vector_get_def blk_def)

lemma blk_set: "i < 8 \<Longrightarrow> length xs = 8 \<Longrightarrow> vector_set (blk c xs) i x = Some (blk c (xs[i := x]))"
  by (simp add: vector_set_def blk_def)

lemma NIL_large: "\<not> NIL < 8" "NIL \<noteq> 0" "NIL \<noteq> Suc 0" "NIL \<noteq> 2" "Suc 0 \<noteq> NIL" "2 \<noteq> NIL"
  by (simp_all add: NIL_def W64_def)

text \<open>The states after the failed insertion and after the next one.\<close>

definition oom_m1 :: rbmap where
  "oom_m1 = bare_map\<lparr>m_a := (m_a bare_map)\<lparr>s_keys := blk 1 [0, 0, 0, 0, 0, 0, 0, 0]\<rparr>\<rparr>"

definition oom_m2 :: rbmap where
  "oom_m2 = \<lparr>m_a = \<lparr>s_keys = blk 2 [0, 10, 0, 0, 0, 0, 0, 0], s_vals = blk 1 [0, 100, 0, 0, 0, 0, 0, 0],
       s_left = blk 1 [NIL, NIL, 0, 0, 0, 0, 0, 0], s_right = blk 1 [NIL, NIL, 0, 0, 0, 0, 0, 0],
       s_parent = blk 1 [NIL, NIL, 0, 0, 0, 0, 0, 0], s_colour = blk 1 [0, 1, 0, 0, 0, 0, 0, 0]\<rparr>,
     m_free = no_vec, m_root = 1, m_count = 1, m_cmp = map_cmp_u64\<rparr>"

lemmas rd_defs = rd_left_def rd_right_def rd_parent_def rd_key_def rd_colour_def
lemmas wr_defs = wr_left_def wr_right_def wr_parent_def wr_key_def wr_val_def wr_colour_def

lemma W64_colour: "nat (RB_RED mod int W64) = 0" "nat (RB_BLACK mod int W64) = 1"
  using word_of_ci [of Red] word_of_ci [of Black] by simp_all

lemma oom_step1: "map_insert one_heap bare_map 10 100 = Some (-1, oom_m1)"
  by (simp add: map_insert_def bare_map_def insert_at_def node_new_def vector_size_def soa_push_blank_def
      one_heap_def push_bare push_none oom_m1_def) (simp add: no_vec_def)

lemma oom_arith: "sub64 (Suc (Suc 0)) (Suc 0) = Suc 0" "sub64 (Suc (Suc (Suc 0))) (Suc 0) = 2"
  "add64 0 (Suc 0) = Suc 0"
  by (simp_all add: sub64_def add64_def W64_def)

lemma v_count_demo: "v_count no_vec = 0" "v_count (blk c xs) = c"
  by (simp_all add: no_vec_def blk_def)

lemmas oom_simps = vector_size_def soa_size_def node_init_def wr_defs rd_defs blk_set blk_get W64_colour
  oom_arith v_count_demo push_bare push_none push_room NIL_large

lemma oom_step2: "map_insert (\<lambda>_. demo_heap) oom_m1 10 100 = Some (1, oom_m2)"
proof -
  let ?m = "oom_m2\<lparr>m_count := 0, m_a := (m_a oom_m2)\<lparr>s_colour := blk 1 [0, 0, 0, 0, 0, 0, 0, 0]\<rparr>\<rparr>"
  have new: "node_new (\<lambda>_. demo_heap) oom_m1 10 100 NIL = Some (Some 1, ?m\<lparr>m_root := NIL\<rparr>)"
    by (simp add: oom_m1_def bare_map_def node_new_def soa_push_blank_def oom_m2_def Let_def oom_simps
        numeral_2_eq_2)
  have "insert_fixup_loop ?m (Suc 0) = Some ?m"
    by (subst insert_fixup_loop.simps) (simp add: oom_m2_def oom_simps)
  then have "insert_fixup ?m (Suc 0) = Some (oom_m2\<lparr>m_count := 0\<rparr>)"
    by (simp add: insert_fixup_def) (simp add: oom_m2_def oom_simps)
  moreover have "descend oom_m1 10 NIL (m_root oom_m1) = Some (Inr NIL)"
    by (simp add: oom_m1_def bare_map_def)
  moreover have "?m\<lparr>m_root := Suc 0\<rparr> = ?m" by (simp add: oom_m2_def)
  ultimately show ?thesis
    using new by (simp add: map_insert_def insert_at_def) (simp add: oom_m2_def oom_arith)
qed

lemma oom_step3: "map_insert (\<lambda>_. demo_heap) oom_m2 20 200 = None"
proof -
  let ?m = "oom_m2\<lparr>m_a := \<lparr>s_keys = blk 3 [0, 10, 20, 0, 0, 0, 0, 0], s_vals = blk 2 [0, 0, 200, 0, 0, 0, 0, 0],
       s_left = blk 2 [NIL, NIL, NIL, 0, 0, 0, 0, 0], s_right = blk 2 [NIL, NIL, NIL, 0, 0, 0, 0, 0],
       s_parent = blk 2 [NIL, NIL, 1, 0, 0, 0, 0, 0], s_colour = blk 2 [0, 0, 0, 0, 0, 0, 0, 0]\<rparr>\<rparr>"
  have new: "node_new (\<lambda>_. demo_heap) oom_m2 20 200 1 = Some (Some 2, ?m)"
    by (simp add: oom_m2_def node_new_def soa_push_blank_def Let_def oom_simps numeral_3_eq_3
        numeral_2_eq_2)
  have d: "descend oom_m2 20 NIL (m_root oom_m2) = Some (Inr 1)"
    by (subst descend.simps) (simp add: oom_m2_def oom_simps map_cmp_u64_def Let_def)
  let ?m' = "?m\<lparr>m_a := (m_a ?m)\<lparr>s_right := blk 2 [NIL, 2, NIL, 0, 0, 0, 0, 0]\<rparr>\<rparr>"
  have "insert_fixup_loop ?m' 2 = None"
    by (subst insert_fixup_loop.simps)
      (simp add: oom_m2_def oom_simps colour_of_def int_of_word_def RB_RED_def)
  then show ?thesis
    using new d
    by (simp add: map_insert_def insert_at_def insert_fixup_def)
      (simp add: oom_m2_def oom_simps map_cmp_u64_def)
qed

text \<open>When an insertion runs out of memory after the first of its six pushes, the vectors stay of
  different lengths although the caller is told that nothing happened.  The next insertion succeeds;
  the one after it appends its blank slot on top of the node just inserted, turns that root red and
  follows the missing parent of a red root out of the arrays.\<close>

theorem map_oom_insert_corrupts:
  "map_insert one_heap bare_map 10 100 = Some (-1, oom_m1) \<and>
   map_insert (\<lambda>_. demo_heap) oom_m1 10 100 = Some (1, oom_m2) \<and>
   map_insert (\<lambda>_. demo_heap) oom_m2 20 200 = None"
  using oom_step1 oom_step2 oom_step3 by simp

section \<open>The properties at the concrete map\<close>

theorem map_find_correct_witness:
  "map_find demo_map 30 = Some (1, Some 300)"
  using map_find_correct [OF rb_ok_view [OF demo_ok] demo_cmp(2), of 30]
  by (simp add: demo_cmp(1) map_cmp_u64_def)

theorem map_insert_correct_witness:
  "(\<exists>m'. map_insert (\<lambda>_. demo_heap) demo_map 25 250 = Some (1, m') \<and>
      rb_ok m' [(10, 100), (20, 200), (25, 250), (30, 300)] \<and> m_cmp m' = map_cmp_u64) \<or>
   (\<exists>m'. map_insert (\<lambda>_. demo_heap) demo_map 25 250 = Some (-1, m') \<and>
      rb_view m' [(10, 100), (20, 200), (30, 300)] \<and> m_cmp m' = map_cmp_u64)"
  using map_insert_correct [OF demo_ok demo_cmp(2), of "\<lambda>_. demo_heap" 25 250] demo_heap_ok
  by (simp add: demo_cmp(1) map_cmp_u64_def)

theorem map_insert_or_assign_correct_witness:
  "\<exists>m'. map_insert_or_assign (\<lambda>_. demo_heap) demo_map 20 222 = Some (0, m') \<and>
     rb_ok m' [(10, 100), (20, 222), (30, 300)]"
  using map_insert_or_assign_correct [OF demo_ok demo_cmp(2), of "\<lambda>_. demo_heap" 20 222] demo_heap_ok
  by (auto simp add: demo_cmp(1) map_cmp_u64_def)

theorem map_erase_correct_witness:
  "\<exists>m'. map_erase demo_heap demo_map 20 = Some (1, m') \<and> rb_ok m' [(10, 100), (30, 300)]"
  using map_erase_correct [OF demo_ok demo_cmp(2) demo_heap_ok, of 20]
  by (auto simp add: demo_cmp(1) map_cmp_u64_def al_erase_def)

theorem map_iteration_complete_witness:
  "\<exists>it. map_begin demo_map = Some (1, it) \<and>
     walk_next 3 demo_map it = Some [(10, 100), (20, 200), (30, 300)]"
  using map_iteration_complete [OF rb_ok_view [OF demo_ok]] by (simp add: eval_nat_numeral)

theorem map_bounds_correct_witness:
  "\<exists>it. map_lower_bound demo_map 20 = Some (1, it) \<and> iter_entry demo_map it = Some (20, 200)"
  using map_bounds_correct [OF rb_ok_view [OF demo_ok] demo_cmp(2), of 20]
  by (auto simp add: demo_cmp(1) map_cmp_u64_def)

theorem find_index_logarithmic_witness:
  "find_within 4 demo_map 30 (m_root demo_map) = find_index demo_map 30"
  using find_index_logarithmic [OF rb_ok_view [OF demo_ok], of 3 30] by (simp add: eval_nat_numeral)

end
