(* ===== verification/BasicToken.thy ===== *)
theory BasicToken
  imports StringArea NumStr "HOL-Library.Monad_Syntax"
begin

text \<open>
  The tokenizer of the BASIC interpreter (\<^verbatim>\<open>src/basic/tokenizer.c\<close>).  A pointer into the program is the
  list of bytes from there on, the empty list standing for the terminator; \<open>None\<close> in place of such a
  pointer lies behind the terminator, and a result \<open>None\<close> of a definition is a read there or a write
  outside a buffer.

  Tokens are the numbers of \<^verbatim>\<open>enum token_t\<close>.  The table of keywords is put in order by the linker, so it
  is an argument: \<open>e_keywords\<close> lists the keyword tokens in that order, \<open>e_names\<close> gives their spelling.
\<close>

section \<open>Characters\<close>

definition isalpha :: "byte \<Rightarrow> bool" where
  "isalpha x = (let c = unat (x OR 0x20) in 97 \<le> c \<and> c \<le> 122)"

definition isdigit :: "byte \<Rightarrow> bool" where
  "isdigit x = (48 \<le> unat x \<and> unat x \<le> 57)"

definition isxdigit :: "byte \<Rightarrow> bool" where
  "isxdigit x = (isdigit x \<or> (let c = unat (x OR 0x20) in 97 \<le> c \<and> c \<le> 102))"

definition isalnum :: "byte \<Rightarrow> bool" where
  "isalnum x = (isdigit x \<or> isalpha x)"

text \<open>The bytes of a C string literal.\<close>

definition bs :: "string \<Rightarrow> byte list" where
  "bs s = map (\<lambda>c. of_nat (of_char c)) s"

section \<open>Tokens\<close>

type_synonym token = nat

abbreviation NO_TOKEN :: token where "NO_TOKEN \<equiv> 0"
abbreviation ENDOFINPUT :: token where "ENDOFINPUT \<equiv> 2"
abbreviation NUMBER :: token where "NUMBER \<equiv> 3"
abbreviation HEXNUMBER :: token where "HEXNUMBER \<equiv> 4"
abbreviation STRING :: token where "STRING \<equiv> 5"
abbreviation VARIABLE :: token where "VARIABLE \<equiv> 6"
abbreviation PROC :: token where "PROC \<equiv> 29"
abbreviation FN :: token where "FN \<equiv> 31"
abbreviation COMMA :: token where "COMMA \<equiv> 34"
abbreviation SEMICOLON :: token where "SEMICOLON \<equiv> 35"
abbreviation PLUS :: token where "PLUS \<equiv> 36"
abbreviation MINUS :: token where "MINUS \<equiv> 37"
abbreviation AND_TOKEN :: token where "AND_TOKEN \<equiv> 38"
abbreviation OR_TOKEN :: token where "OR_TOKEN \<equiv> 39"
abbreviation NOT_TOKEN :: token where "NOT_TOKEN \<equiv> 40"
abbreviation ASTERISK :: token where "ASTERISK \<equiv> 42"
abbreviation SLASH :: token where "SLASH \<equiv> 43"
abbreviation MOD_TOKEN :: token where "MOD_TOKEN \<equiv> 44"
abbreviation OPENBRACKET :: token where "OPENBRACKET \<equiv> 45"
abbreviation CLOSEBRACKET :: token where "CLOSEBRACKET \<equiv> 46"
abbreviation LESSTHAN :: token where "LESSTHAN \<equiv> 47"
abbreviation GREATERTHAN :: token where "GREATERTHAN \<equiv> 48"
abbreviation EQUALS :: token where "EQUALS \<equiv> 49"
abbreviation NEWLINE :: token where "NEWLINE \<equiv> 50"
abbreviation TILDE :: token where "TILDE \<equiv> 52"
abbreviation SPACE :: token where "SPACE \<equiv> 142"

definition singlechar :: "byte \<Rightarrow> token" where
  "singlechar c =
     (if c = 10 then NEWLINE
      else if c = 0x2c then COMMA
      else if c = 0x3b then SEMICOLON
      else if c = 0x2b then PLUS
      else if c = 0x2d then MINUS
      else if c = 0x2a then ASTERISK
      else if c = 0x2f then SLASH
      else if c = 0x25 then MOD_TOKEN
      else if c = 0x28 then OPENBRACKET
      else if c = 0x29 then CLOSEBRACKET
      else if c = 0x3c then LESSTHAN
      else if c = 0x3e then GREATERTHAN
      else if c = 0x3d then EQUALS
      else if c = 0x7e then TILDE
      else if c = 0x20 then SPACE
      else if c = 9 then SPACE
      else NO_TOKEN)"

section \<open>The context\<close>

text \<open>Variables that a procedure call has made local.\<close>

record 'r locals =
  l_int :: "(byte list \<rightharpoonup> 64 word) option"
  l_real :: "(byte list \<rightharpoonup> 'r) option"
  l_str :: "(byte list \<rightharpoonup> byte list \<times> nat) option"

text \<open>What a program changes besides its position: the string area, the variables (a value of a string
  variable has its length beside it) and the error state.  Frames are listed from the innermost call
  outwards.\<close>

record 'r machine =
  m_area :: str_area
  m_int :: "byte list \<rightharpoonup> 64 word"
  m_real :: "byte list \<rightharpoonup> 'r"
  m_str :: "byte list \<rightharpoonup> byte list \<times> nat"
  m_frames :: "'r locals list"
  m_line :: "64 word"
  m_log :: "byte list list"
  m_ended :: bool
  m_errored :: bool

record 'r basic_ctx =
  b_ptr :: "byte list"
  b_nextptr :: "byte list option"
  b_token :: token
  b_m :: "'r machine"

text \<open>\<^verbatim>\<open>tokenizer_error_print\<close> outside \<^verbatim>\<open>EVAL\<close> and without an error handler: it sets the three error variables
  and ends the program; \<open>m_log\<close> collects what it prints.\<close>

definition machine_error :: "'r machine \<Rightarrow> byte list \<Rightarrow> 'r machine" where
  "machine_error m e =
     (let m = m\<lparr>m_str := (m_str m)(bs ''ERR$'' \<mapsto> (e, length e)),
                m_int := (m_int m)(bs ''ERR'' \<mapsto> 1, bs ''ERRLINE'' \<mapsto> m_line m)\<rparr>
      in if m_ended m then m
         else m\<lparr>m_ended := True, m_errored := True, m_log := m_log m @ [e]\<rparr>)"

definition tokenizer_error_print :: "'r basic_ctx \<Rightarrow> string \<Rightarrow> 'r basic_ctx" where
  "tokenizer_error_print ctx e = ctx\<lparr>b_m := machine_error (b_m ctx) (bs e)\<rparr>"

section \<open>The keyword table\<close>

definition PREFIX_BUCKETS :: nat where
  "PREFIX_BUCKETS = 65536"

definition prefix16 :: "byte list \<Rightarrow> nat" where
  "prefix16 p = unat (char_at p 0) * 256 + unat (char_at p 1)"

text \<open>The table of bucket starts is built in three passes: every bucket empty, then the first keyword of
  each prefix, then, from the top down, the empty ones take the start of the next.\<close>

definition record_first :: "(nat \<Rightarrow> byte list) \<Rightarrow> nat \<Rightarrow> (nat \<times> token) list \<Rightarrow> (nat \<Rightarrow> nat) \<Rightarrow> nat \<Rightarrow> nat" where
  "record_first names count kws offs =
     fold (\<lambda>(i, tok) offs. let key = prefix16 (names tok)
                           in if offs key = count then offs(key := i) else offs) kws offs"

definition fill_gaps :: "nat \<Rightarrow> nat list \<Rightarrow> (nat \<Rightarrow> nat) \<Rightarrow> nat \<Rightarrow> nat" where
  "fill_gaps count keys offs =
     fold (\<lambda>i offs. if offs i = count then offs(i := offs (i + 1)) else offs) keys offs"

definition build_keyword_prefix_offsets :: "(nat \<Rightarrow> byte list) \<Rightarrow> token list \<Rightarrow> nat \<Rightarrow> nat" where
  "build_keyword_prefix_offsets names keywords =
     (let count = length keywords;
          offs = (\<lambda>_. count);
          offs = record_first names count (zip [0 ..< count] keywords) offs
      in fill_gaps count (rev [0 ..< PREFIX_BUCKETS]) offs)"

text \<open>A keyword counts only if what follows could not continue a name; \<^verbatim>\<open>PROC\<close> and \<^verbatim>\<open>FN\<close> may be followed
  directly by the name of the routine.\<close>

definition next_is_varlike :: "byte list \<Rightarrow> bool" where
  "next_is_varlike p = (peek p = 0x5f \<or> isalnum (peek p))"

function kw_scan :: "(nat \<Rightarrow> byte list) \<Rightarrow> token list \<Rightarrow> byte list \<Rightarrow> nat \<Rightarrow> nat \<Rightarrow> (token \<times> byte list) option" where
  "kw_scan names keywords p kt ed =
     (if kt < ed then
        let tok = keywords ! kt; len = length (names tok);
            comparison = (if len > 2 then strncmp (drop 2 p) (drop 2 (names tok)) (len - 2) else 0)
        in if comparison = 0 then
             (if \<not> next_is_varlike (drop len p) \<or> tok = PROC \<or> tok = FN \<or> tok = EQUALS
              then Some (tok, drop len p)
              else kw_scan names keywords p (kt + 1) ed)
           else if comparison < 0 then None
           else kw_scan names keywords p (kt + 1) ed
      else None)"
  by pat_completeness auto
termination
  by (relation "measure (\<lambda>(names, keywords, p, kt, ed). ed - kt)") auto

declare kw_scan.simps [simp del]

definition keyword_lookup :: "(nat \<Rightarrow> byte list) \<Rightarrow> token list \<Rightarrow> byte list \<Rightarrow> (token \<times> byte list) option" where
  "keyword_lookup names keywords p =
     (let offs = build_keyword_prefix_offsets names keywords; key = prefix16 p
      in kw_scan names keywords p (offs key) (offs (key + 1)))"

section \<open>The next token\<close>

definition MAX_NUMLEN :: nat where
  "MAX_NUMLEN = 32"

text \<open>The number of bytes from \<open>p\<close> on that satisfy \<open>P\<close>, \<open>None\<close> if there are at least \<open>n\<close>.\<close>

primrec scan_number :: "(byte \<Rightarrow> bool) \<Rightarrow> byte list \<Rightarrow> nat \<Rightarrow> nat option" where
  "scan_number P p 0 = None"
| "scan_number P p (Suc n) = (if \<not> P (peek p) then Some 0 else map_option Suc (scan_number P (tl p) n))"

text \<open>The scan of a string constant from its opening quote on: \<^verbatim>\<open>nextptr\<close> and whether the constant is
  unterminated.\<close>

fun scan_string :: "byte list \<Rightarrow> byte list option \<times> bool" where
  "scan_string [] = (None, True)"
| "scan_string (c # p) =
     (if c = 0 then (None, True)
      else if c = 13 then (Some p, True)
      else if c = 0x22 then (Some p, False)
      else scan_string p)"

text \<open>The part of a name that has brackets: up to where the bracket opened last but one is closed.\<close>

fun skip_brackets :: "nat \<Rightarrow> byte list \<Rightarrow> byte list" where
  "skip_brackets d [] = []"
| "skip_brackets d (c # p) =
     (let p1 = p;
          d1 = (if peek p1 = 0x28 then d + 1 else if peek p1 = 0x29 then d - 1 else d)
      in if d1 > 1 \<and> peek p1 \<noteq> 0 then skip_brackets d1 p1 else p1)"

definition name_char :: "nat \<Rightarrow> byte \<Rightarrow> bool" where
  "name_char varl c = (isalpha c \<or> c = 0x5f \<or> varl > 0 \<and> (c = 0x24 \<or> c = 0x23 \<or> c = 0x28 \<or> isdigit c))"

lemma length_skip_brackets: "length (skip_brackets d p) \<le> length p - 1"
proof (induction p arbitrary: d)
  case (Cons c p)
  define d1 where "d1 = (if peek p = 0x28 then d + 1 else if peek p = 0x29 then d - 1 else d)"
  have "skip_brackets d (c # p) = (if d1 > 1 \<and> peek p \<noteq> 0 then skip_brackets d1 p else p)"
    by (simp only: skip_brackets.simps Let_def d1_def)
  then have "length (skip_brackets d (c # p)) \<le> length p"
    using Cons.IH [of d1] by (simp only: split: if_splits) simp_all
  then show ?case by simp
qed simp

text \<open>The scan of a name: \<^verbatim>\<open>nextptr\<close> before a possible suffix, and whether the name is too long.\<close>

function scan_name :: "nat \<Rightarrow> byte list \<Rightarrow> byte list \<times> bool" where
  "scan_name varl p =
     (if \<not> name_char varl (peek p) \<or> p = [] then (p, False)
      else
        let p1 = tl p
        in if peek p1 = 0x28 then scan_name varl (skip_brackets 1 p1)
           else if varl + 1 > 60 then (p1, True)
           else scan_name (varl + 1) p1)"
  by pat_completeness auto
termination
proof (relation "measure (\<lambda>(varl, p). length p)")
  fix varl :: nat and p x :: "byte list"
  assume "\<not> (\<not> name_char varl (peek p) \<or> p = [])" "x = tl p"
  then have "length x < length p" by (cases p) auto
  then have "length (skip_brackets 1 x) < length p" using length_skip_brackets [of 1 x] by linarith
  then show "((varl, skip_brackets 1 x), varl, p) \<in> measure (\<lambda>(varl, p). length p)" by simp
qed auto

declare scan_name.simps [simp del]

record 'r fp =
  fp_add :: "'r \<Rightarrow> 'r \<Rightarrow> 'r"
  fp_sub :: "'r \<Rightarrow> 'r \<Rightarrow> 'r"
  fp_mul :: "'r \<Rightarrow> 'r \<Rightarrow> 'r"
  fp_div :: "'r \<Rightarrow> 'r \<Rightarrow> 'r"
  fp_neg :: "'r \<Rightarrow> 'r"
  fp_lt :: "'r \<Rightarrow> 'r \<Rightarrow> bool"
  fp_le :: "'r \<Rightarrow> 'r \<Rightarrow> bool"
  fp_eq :: "'r \<Rightarrow> 'r \<Rightarrow> bool"
  fp_zero :: 'r
  fp_of_int :: "64 word \<Rightarrow> 'r"
  fp_to_int :: "'r \<Rightarrow> 64 word"
  fp_tenth :: 'r

text \<open>\<^verbatim>\<open>atof\<close> of \<^verbatim>\<open>src/string.c\<close> with \<^verbatim>\<open>pow10i\<close>, over the operations of the floating-point unit, where \<open>fp_tenth\<close>
  is the constant \<^verbatim>\<open>0.1\<close>.  The digits are read into the accumulator; the result is the new accumulator, the
  number of digits and the text from the first other character on.\<close>

function pow10_loop :: "'r fp \<Rightarrow> nat \<Rightarrow> 'r \<Rightarrow> 'r \<Rightarrow> 'r" where
  "pow10_loop F k base result =
     (if k > 0 then pow10_loop F (k div 2) (fp_mul F base base) (if odd k then fp_mul F result base else result)
      else result)"
  by pat_completeness auto
termination
  by (relation "measure (\<lambda>(F, k, base, result). k)") auto

declare pow10_loop.simps [simp del]

definition pow10i :: "'r fp \<Rightarrow> int \<Rightarrow> 'r" where
  "pow10i F e = pow10_loop F (nat \<bar>e\<bar>) (if e < 0 then fp_tenth F else fp_of_int F 10) (fp_of_int F 1)"

definition add_digit :: "'r fp \<Rightarrow> 'r \<Rightarrow> byte \<Rightarrow> 'r" where
  "add_digit F a c = fp_add F (fp_mul F a (fp_of_int F 10)) (fp_of_int F (of_nat (unat c - 48)))"

fun atof_digits :: "'r fp \<Rightarrow> 'r \<Rightarrow> byte list \<Rightarrow> 'r \<times> nat \<times> byte list" where
  "atof_digits F a [] = (a, 0, [])"
| "atof_digits F a (c # s) =
     (if isdigit c then (case atof_digits F (add_digit F a c) s of (b, n, r) \<Rightarrow> (b, Suc n, r)) else (a, 0, c # s))"

text \<open>The exponent is an \<^verbatim>\<open>int\<close>: \<open>None\<close> where it would overflow.\<close>

fun atof_exponent :: "int \<Rightarrow> byte list \<Rightarrow> int option" where
  "atof_exponent i [] = Some i"
| "atof_exponent i (c # s) =
     (if isdigit c then
        (let j = i * 10 + int (unat c - 48) in if j \<ge> 2 ^ 31 then None else atof_exponent j s)
      else Some i)"

definition atof :: "'r fp \<Rightarrow> byte list \<Rightarrow> 'r option" where
  "atof F s =
     (case atof_digits F (fp_zero F) s of (a, _, p) \<Rightarrow>
      case (if peek p = 0x2e then atof_digits F a (tl p) else (a, 0, p)) of (a, n, p) \<Rightarrow> do {
        i \<leftarrow> (if peek p = 0x65 \<or> peek p = 0x45 then
               (let q = tl p; neg = (peek q = 0x2d); q = (if peek q = 0x2b \<or> peek q = 0x2d then tl q else q)
                in map_option (\<lambda>i. if neg then - i else i) (atof_exponent 0 q))
             else Some 0);
        let e = i - int n;
        if e < - (2 ^ 31) then None else Some (if e \<noteq> 0 then fp_mul F a (pow10i F e) else a) })"

text \<open>What the expression evaluator is given: floating-point arithmetic, the keyword table, and the calls
  of builtin functions, user functions and array elements by name (\<open>None\<close> when the name is none of these),
  which may change the whole context.  The access to an element of a real array may fail: then there is no
  value, and the code goes on to look for an integer.\<close>

record 'r env =
  e_fp :: "'r fp"
  e_names :: "nat \<Rightarrow> byte list"
  e_keywords :: "token list"
  e_real_fn :: "byte list \<Rightarrow> bool"
  e_int_call :: "byte list \<Rightarrow> 'r basic_ctx \<Rightarrow> (64 word \<times> 'r basic_ctx) option"
  e_real_call :: "byte list \<Rightarrow> 'r basic_ctx \<Rightarrow> ('r option \<times> 'r basic_ctx) option"
  e_str_call :: "byte list \<Rightarrow> 'r basic_ctx \<Rightarrow> ((byte list \<times> nat) \<times> 'r basic_ctx) option"

definition get_next_token :: "'r env \<Rightarrow> 'r basic_ctx \<Rightarrow> token \<times> 'r basic_ctx" where
  "get_next_token E ctx =
     (let p = b_ptr ctx; c = peek p in
      if c = 0 then (ENDOFINPUT, ctx)
      else if isdigit c \<or> c = 0x26 \<or> c = 0x2e then
        (if c = 0x26 then
           let ctx = ctx\<lparr>b_ptr := tl p\<rparr>
           in case scan_number isxdigit (tl p) MAX_NUMLEN of
                None \<Rightarrow> (NO_TOKEN, tokenizer_error_print ctx ''Number too long'')
              | Some i \<Rightarrow> if i > 1 then (HEXNUMBER, ctx\<lparr>b_nextptr := Some (drop i (tl p))\<rparr>)
                          else (NO_TOKEN, tokenizer_error_print ctx ''Hexadecimal number too short'')
         else
           case scan_number (\<lambda>c. isdigit c \<or> c = 0x2e) p MAX_NUMLEN of
             None \<Rightarrow> (NO_TOKEN, tokenizer_error_print ctx ''Number too long'')
           | Some i \<Rightarrow> if i > 0 then (NUMBER, ctx\<lparr>b_nextptr := Some (drop i p)\<rparr>)
                       else (NO_TOKEN, tokenizer_error_print ctx ''Number too short''))
      else if singlechar c \<noteq> NO_TOKEN then (singlechar c, ctx\<lparr>b_nextptr := Some (tl p)\<rparr>)
      else if c = 0x22 then
        (case scan_string (tl p) of (np, unterminated) \<Rightarrow>
           let ctx = ctx\<lparr>b_nextptr := np\<rparr>
           in (STRING, if unterminated then tokenizer_error_print ctx ''Unterminated string constant'' else ctx))
      else
        case keyword_lookup (e_names E) (e_keywords E) p of
          Some (tok, np) \<Rightarrow> (tok, ctx\<lparr>b_nextptr := Some np\<rparr>)
        | None \<Rightarrow>
            if isalpha c \<or> c = 0x5f then
              (case scan_name 0 p of (np, too_long) \<Rightarrow>
                 let ctx = (if too_long then tokenizer_error_print ctx ''Variable name too long'' else ctx);
                     np = (if peek np = 0x24 \<or> peek np = 0x23 then tl np else np)
                 in (VARIABLE, ctx\<lparr>b_nextptr := Some np\<rparr>))
            else (NO_TOKEN, ctx\<lparr>b_nextptr := (case b_nextptr ctx of Some (x # np) \<Rightarrow> Some np | _ \<Rightarrow> None)\<rparr>))"

definition read_token :: "'r env \<Rightarrow> 'r basic_ctx \<Rightarrow> 'r basic_ctx" where
  "read_token E ctx = (case get_next_token E ctx of (tok, ctx) \<Rightarrow> ctx\<lparr>b_token := tok\<rparr>)"

definition tokenizer_init :: "'r env \<Rightarrow> byte list \<Rightarrow> 'r basic_ctx \<Rightarrow> 'r basic_ctx" where
  "tokenizer_init E program ctx = read_token E (ctx\<lparr>b_ptr := program\<rparr>)"

definition tokenizer_finished :: "'r basic_ctx \<Rightarrow> bool" where
  "tokenizer_finished ctx = (peek (b_ptr ctx) = 0 \<or> b_token ctx = ENDOFINPUT)"

definition tokenizer_next :: "'r env \<Rightarrow> 'r basic_ctx \<Rightarrow> 'r basic_ctx option" where
  "tokenizer_next E ctx =
     (if tokenizer_finished ctx then Some ctx
      else case b_nextptr ctx of
             None \<Rightarrow> None
           | Some p \<Rightarrow> Some (read_token E (ctx\<lparr>b_ptr := skip_blanks p\<rparr>)))"

definition tokenizer_num :: "'r basic_ctx \<Rightarrow> token \<Rightarrow> 64 word" where
  "tokenizer_num ctx token = (if token = NUMBER then atoll (b_ptr ctx) 10 else atoll (b_ptr ctx) 16)"

definition tokenizer_fnum :: "'r env \<Rightarrow> 'r basic_ctx \<Rightarrow> 'r option" where
  "tokenizer_fnum E ctx = atof (e_fp E) (b_ptr ctx)"

definition accept_token :: "'r env \<Rightarrow> token \<Rightarrow> 'r basic_ctx \<Rightarrow> (bool \<times> 'r basic_ctx) option" where
  "accept_token E token ctx =
     (if token \<noteq> b_token ctx then
        Some (False, ctx\<lparr>b_m := machine_error (b_m ctx)
          (bs ''Expected '' @ e_names E token @ bs '' got '' @ e_names E (b_token ctx))\<rparr>)
      else map_option (Pair True) (tokenizer_next E ctx))"

text \<open>\<^verbatim>\<open>tokenizer_variable_name\<close>, with the interning of the name left out: the name read.  The buffer has
  \<open>MAX_VARNAME\<close> bytes and the terminator is written behind the name, so a name that fills the buffer
  makes the code write outside it: \<open>None\<close>.\<close>

definition MAX_VARNAME :: nat where
  "MAX_VARNAME = 50"

function var_name_loop :: "byte list \<Rightarrow> byte list \<Rightarrow> byte list \<times> byte list \<times> bool" where
  "var_name_loop name p =
     (if \<not> (length name < MAX_VARNAME \<and> peek p \<noteq> 0) then (name, p, True)
      else
        let c = peek p in
        if name = [] then
          (if \<not> (isalpha c \<or> c = 0x5f) then (name, p, True) else var_name_loop (name @ [c]) (tl p))
        else if c = 0x24 \<or> c = 0x23 then
          let p1 = tl p; d = peek p1
          in (name @ [c], p1, \<not> (d \<noteq> 0 \<and> (isalnum d \<or> d = 0x5f \<or> d = 0x24 \<or> d = 0x23)))
        else if \<not> (isalnum c \<or> c = 0x5f) then (name, p, True)
        else var_name_loop (name @ [c]) (tl p))"
  by pat_completeness auto
termination
  by (relation "measure (\<lambda>(name, p). MAX_VARNAME - length name)") auto

declare var_name_loop.simps [simp del]

definition tokenizer_variable_name :: "'r basic_ctx \<Rightarrow> (byte list \<times> 'r basic_ctx) option" where
  "tokenizer_variable_name ctx =
     (case var_name_loop [] (b_ptr ctx) of (name, p, valid) \<Rightarrow>
        let ctx = ctx\<lparr>b_ptr := p\<rparr>
        in if length name \<ge> MAX_VARNAME then None
           else if valid then Some (name, ctx)
           else Some ([], ctx\<lparr>b_m := machine_error (b_m ctx)
                   (bs ''Invalid variable name '' @ [0x27] @ name @ [0x27])\<rparr>))"

fun count_digits :: "byte list \<Rightarrow> nat \<times> byte list" where
  "count_digits [] = (0, [])"
| "count_digits (c # p) = (if isdigit c then (case count_digits p of (n, q) \<Rightarrow> (Suc n, q)) else (0, c # p))"

definition tokenizer_decimal_number :: "'r basic_ctx \<Rightarrow> bool" where
  "tokenizer_decimal_number ctx =
     (let p = b_ptr ctx;
          p = (if peek p = 0x2b \<or> peek p = 0x2d then tl p else p);
          (whole, p) = count_digits p
      in if whole > 0 \<and> peek p = 0x2e then
           (case count_digits (tl p) of (decimal, _) \<Rightarrow> decimal > 0)
         else False)"

end
