(* ===== verification/BasicKeyword.thy ===== *)
theory BasicKeyword
  imports BasicToken StringSpec
begin

text \<open>
  The lookup of keywords: with a table in lexicographic order, the bucketed search with its early exit
  (\<^verbatim>\<open>get_next_token\<close> and \<^verbatim>\<open>build_keyword_prefix_offsets\<close> of \<^verbatim>\<open>src/basic/tokenizer.c\<close>) finds what a
  search through the whole table finds.
\<close>

section \<open>The reference search\<close>

fun lex_le :: "byte list \<Rightarrow> byte list \<Rightarrow> bool" where
  "lex_le [] ys = True"
| "lex_le (x # xs) [] = False"
| "lex_le (x # xs) (y # ys) = (x < y \<or> x = y \<and> lex_le xs ys)"

fun lex_sorted :: "byte list list \<Rightarrow> bool" where
  "lex_sorted [] = True"
| "lex_sorted (x # xs) = (list_all (lex_le x) xs \<and> lex_sorted xs)"

definition kw_ok :: "(nat \<Rightarrow> byte list) \<Rightarrow> token list \<Rightarrow> bool" where
  "kw_ok names keywords = (lex_sorted (map names keywords)
     \<and> list_all (\<lambda>tok. 2 \<le> length (names tok) \<and> 0 \<notin> set (names tok)) keywords)"

definition kw_matches :: "(nat \<Rightarrow> byte list) \<Rightarrow> byte list \<Rightarrow> token \<Rightarrow> bool" where
  "kw_matches names p tok = (let len = length (names tok) in
     take len p = names tok \<and> (\<not> next_is_varlike (drop len p) \<or> tok \<in> {PROC, FN, EQUALS}))"

definition kw_search :: "(nat \<Rightarrow> byte list) \<Rightarrow> token list \<Rightarrow> byte list \<Rightarrow> (token \<times> byte list) option" where
  "kw_search names keywords p =
     map_option (\<lambda>tok. (tok, drop (length (names tok)) p)) (find (kw_matches names p) keywords)"

section \<open>Comparison with a name\<close>

lemma lex_sorted_wrt: "lex_sorted xs \<longleftrightarrow> sorted_wrt lex_le xs"
  by (induction xs) (auto simp: list_all_iff)

lemma peek_simps [simp]: "peek [] = 0" "peek (c # p) = c"
  by (simp_all add: peek_def)

lemma strncmp_Suc:
  "strncmp a (y # ys) (Suc n) =
     (if peek a = y then (if y = 0 then 0 else strncmp (tl a) ys n) else int (unat (peek a)) - int (unat y))"
  by (subst strncmp.simps) (simp add: Let_def)

lemma peek_eq: "y \<noteq> 0 \<Longrightarrow> peek a = y \<longleftrightarrow> (\<exists>as. a = y # as)"
  by (cases a) auto

lemma strncmp_prefix:
  "0 \<notin> set b \<Longrightarrow> length b = n \<Longrightarrow> strncmp a b n = 0 \<longleftrightarrow> take n a = b"
proof (induction n arbitrary: a b)
  case (Suc n)
  obtain y ys where b: "b = y # ys" using Suc.prems by (cases b) auto
  with Suc.prems have y: "y \<noteq> 0" and ys: "0 \<notin> set ys" "length ys = n" by auto
  show ?case
  proof (cases "peek a = y")
    case True
    then obtain as where a: "a = y # as" using y by (auto simp: peek_eq)
    show ?thesis using Suc.IH [OF ys] y unfolding a b strncmp_Suc by simp
  next
    case False
    then have "unat (peek a) \<noteq> unat y" by (simp add: word_unat_eq_iff)
    then have "int (unat (peek a)) \<noteq> int (unat y)" by (simp only: of_nat_eq_iff not_False_eq_True)
    then have "strncmp a b (Suc n) \<noteq> 0" using False unfolding b strncmp_Suc by (simp only: if_False)
    moreover have "take (Suc n) a \<noteq> b" using False y unfolding b by (cases a) auto
    ultimately show ?thesis by blast
  qed
qed (simp add: strncmp.simps)

lemma strncmp_below:
  "strncmp a b n < 0 \<Longrightarrow> 0 \<notin> set b \<Longrightarrow> length b = n \<Longrightarrow> lex_le b c \<Longrightarrow> take (length c) a \<noteq> c"
proof (induction n arbitrary: a b c)
  case (Suc n)
  obtain y ys where b: "b = y # ys" using Suc.prems by (cases b) auto
  with Suc.prems have y: "y \<noteq> 0" and ys: "0 \<notin> set ys" "length ys = n" by auto
  obtain z cs where c: "c = z # cs" and le: "y < z \<or> y = z \<and> lex_le ys cs"
    using Suc.prems(4) b by (cases c) auto
  show ?case
  proof (cases "peek a = y")
    case True
    then obtain as where a: "a = y # as" using y by (auto simp: peek_eq)
    have "strncmp as ys n < 0" using Suc.prems(1) y unfolding a b strncmp_Suc by simp
    then show ?thesis using Suc.IH [OF _ ys] le a c by auto
  next
    case False
    then have "peek a < y" using Suc.prems(1) unfolding b strncmp_Suc by (simp add: word_less_def)
    then have "peek a < z" using le by auto
    then show ?thesis using c by (cases a) auto
  qed
qed (simp add: strncmp.simps)

lemma lex_le_drop: "lex_le a b \<Longrightarrow> take n a = take n b \<Longrightarrow> lex_le (drop n a) (drop n b)"
proof (induction n arbitrary: a b)
  case (Suc n)
  then show ?case by (cases a; cases b) auto
qed simp

text \<open>The key of a bucket is the first two bytes of a name.\<close>

lemma char_at_bound: "unat (char_at p i) < 256"
  using unsigned_less [of "char_at p i"] by simp

lemma prefix16_less: "prefix16 p < PREFIX_BUCKETS"
  using char_at_bound [of p 0] char_at_bound [of p 1] by (simp add: prefix16_def PREFIX_BUCKETS_def)

lemma digit_pair: "b < 256 \<Longrightarrow> d < 256 \<Longrightarrow> a * 256 + b = c * 256 + d \<longleftrightarrow> a = c \<and> b = (d :: nat)"
proof -
  assume "b < 256" "d < 256"
  then have "(a * 256 + b) div 256 = a" "(a * 256 + b) mod 256 = b"
    "(c * 256 + d) div 256 = c" "(c * 256 + d) mod 256 = d" by simp_all
  then show ?thesis by metis
qed

lemma prefix16_eq:
  "prefix16 a = prefix16 b \<longleftrightarrow> char_at a 0 = char_at b 0 \<and> char_at a 1 = char_at b 1"
proof -
  have "prefix16 a = prefix16 b \<longleftrightarrow>
      unat (char_at a 0) = unat (char_at b 0) \<and> unat (char_at a 1) = unat (char_at b 1)"
    unfolding prefix16_def by (rule digit_pair [OF char_at_bound char_at_bound])
  then show ?thesis by (simp add: word_unat_eq_iff)
qed

lemma two_bytes:
  assumes "2 \<le> length b" "0 \<notin> set b"
  shows "prefix16 p = prefix16 b \<longleftrightarrow> take 2 p = take 2 b"
proof -
  obtain x y ys where b: "b = x # y # ys" using assms(1) by (cases b; cases "tl b") auto
  have "x \<noteq> 0" "y \<noteq> 0" using assms(2) b by auto
  then show ?thesis unfolding prefix16_eq using b
    by (cases p; cases "tl p") (auto simp: char_at_def numeral_2_eq_2)
qed

lemma lex_le_prefix16: "lex_le a b \<Longrightarrow> prefix16 a \<le> prefix16 b"
  using char_at_bound [of a 1] char_at_bound [of b 1]
  by (cases a; cases b; cases "tl a"; cases "tl b")
    (auto simp: prefix16_def char_at_def word_less_nat_alt word_le_nat_alt)

section \<open>The table of buckets\<close>

text \<open>\<open>below\<close> counts the keywords in the buckets before \<open>k\<close>.\<close>

definition below :: "nat list \<Rightarrow> nat \<Rightarrow> nat" where
  "below ks k = length (takeWhile (\<lambda>x. x < k) ks)"

lemma record_first_spec:
  assumes "length ts \<le> count"
  shows "record_first names count (zip [0 ..< length ts] ts) (\<lambda>_. count) key =
    (if key \<in> (\<lambda>t. prefix16 (names t)) ` set ts
     then length (takeWhile (\<lambda>t. prefix16 (names t) \<noteq> key) ts) else count)"
  using assms
proof (induction ts arbitrary: key rule: rev_induct)
  case (snoc t ts)
  let ?f = "\<lambda>t. prefix16 (names t)"
  define offs where "offs = record_first names count (zip [0 ..< length ts] ts) (\<lambda>_. count)"
  have IH: "offs key = (if key \<in> ?f ` set ts then length (takeWhile (\<lambda>t. ?f t \<noteq> key) ts) else count)" for key
    unfolding offs_def using snoc by simp
  have lt: "length (takeWhile (\<lambda>t. ?f t \<noteq> key) ts) < length ts" if key: "key \<in> ?f ` set ts" for key
  proof -
    have "takeWhile (\<lambda>t. ?f t \<noteq> key) ts \<noteq> ts" using key by (auto simp: takeWhile_eq_all_conv)
    then show ?thesis by (metis length_takeWhile_le nat_less_le takeWhile_eq_take take_all order_refl)
  qed
  have old: "?f t \<in> ?f ` set ts \<longleftrightarrow> offs (?f t) \<noteq> count"
    using IH [of "?f t"] lt [of "?f t"] snoc.prems by auto
  have all: "takeWhile (\<lambda>t. ?f t \<noteq> key) (ts @ [t]) =
      (if key \<in> ?f ` set ts then takeWhile (\<lambda>t. ?f t \<noteq> key) ts
       else ts @ (if ?f t = key then [] else [t]))"
    by (auto simp: takeWhile_append image_def)
  have "record_first names count (zip [0 ..< length (ts @ [t])] (ts @ [t])) (\<lambda>_. count) key =
      (if offs (?f t) = count then offs(?f t := length ts) else offs) key"
    by (simp add: record_first_def offs_def Let_def)
  also have "\<dots> = (if key = ?f t \<and> key \<notin> ?f ` set ts then length ts else offs key)"
    using old by (cases "key = ?f t"; cases "offs (?f t) = count") simp_all
  also have "\<dots> = (if key \<in> ?f ` set (ts @ [t])
      then length (takeWhile (\<lambda>t. ?f t \<noteq> key) (ts @ [t])) else count)"
    unfolding all IH [of key] by simp
  finally show ?case .
qed (simp add: record_first_def)

lemma fill_gaps_spec:
  assumes offs: "\<And>j. j \<le> N \<Longrightarrow> offs j = (if j \<in> set ks then below ks j else length ks)"
    and "sorted ks" "\<forall>x\<in>set ks. x < N" and "k \<le> N" "j \<le> N"
  shows "foldr (\<lambda>i offs. if offs i = length ks then offs(i := offs (i + 1)) else offs) [k ..< N] offs j =
    (if k \<le> j then below ks j else offs j)"
  using assms(4,5)
proof (induction k arbitrary: j rule: inc_induct)
  case base
  have "below ks N = length ks" using assms(3) by (auto simp: below_def takeWhile_eq_all_conv[THEN iffD2])
  then show ?case using offs [of N] base assms(3) by (auto split: if_splits)
next
  case (step k)
  have gap: "below ks k = below ks (Suc k)" if "k \<notin> set ks"
    unfolding below_def using that by (metis (mono_tags, lifting) less_Suc_eq takeWhile_cong)
  have len: "below ks k = length ks \<Longrightarrow> k \<notin> set ks"
    unfolding below_def using assms(2)
    by (metis (mono_tags, lifting) less_irrefl set_takeWhileD takeWhile_eq_take take_all order_refl)
  show ?case
    using step gap len offs [of k] offs [of "Suc k"]
    by (auto simp: upt_conv_Cons not_less_eq_eq le_Suc_eq)
qed

lemma sorted_prefixes: "kw_ok names kws \<Longrightarrow> sorted (map (\<lambda>t. prefix16 (names t)) kws)"
  by (auto simp: kw_ok_def lex_sorted_wrt sorted_wrt_map lex_le_prefix16 elim: sorted_wrt_mono_rel [rotated])

lemma below_le: "sorted ks \<Longrightarrow> i < length ks \<Longrightarrow> below ks k \<le> i \<longleftrightarrow> k \<le> ks ! i"
proof (induction ks arbitrary: i)
  case (Cons x ks)
  then show ?case by (cases i) (auto simp: below_def not_less intro: order_trans nth_mem)
qed simp

lemma first_is_below:
  assumes "sorted ks" "k \<in> set ks"
  shows "length (takeWhile (\<lambda>x. x \<noteq> k) ks) = below ks k"
  using assms by (induction ks) (auto simp: below_def)

lemma build_spec:
  assumes "kw_ok names kws" "j \<le> PREFIX_BUCKETS"
  shows "build_keyword_prefix_offsets names kws j = below (map (\<lambda>t. prefix16 (names t)) kws) j"
proof -
  define ks where "ks = map (\<lambda>t. prefix16 (names t)) kws"
  have ks: "sorted ks" "length ks = length kws" using sorted_prefixes [OF assms(1)] by (simp_all add: ks_def)
  define offs where "offs = record_first names (length kws) (zip [0 ..< length kws] kws) (\<lambda>_. length kws)"
  have first: "offs j = (if j \<in> set ks then below ks j else length ks)" for j
    using record_first_spec [of kws "length kws" names j] first_is_below [OF ks(1), of j]
    by (auto simp: offs_def ks_def takeWhile_map comp_def)
  have "build_keyword_prefix_offsets names kws j =
      foldr (\<lambda>i offs. if offs i = length ks then offs(i := offs (i + 1)) else offs) [0 ..< PREFIX_BUCKETS] offs j"
    by (simp add: build_keyword_prefix_offsets_def fill_gaps_def offs_def ks(2) foldr_conv_fold Let_def)
  also have "\<dots> = below ks j"
    using fill_gaps_spec [of PREFIX_BUCKETS offs ks 0 j] first ks(1) assms(2) prefix16_less
    by (simp add: ks_def)
  finally show ?thesis by (simp add: ks_def)
qed

section \<open>The scan of a bucket\<close>

lemma kw_okD:
  "kw_ok names kws \<Longrightarrow> tok \<in> set kws \<Longrightarrow> 2 \<le> length (names tok) \<and> 0 \<notin> set (names tok)"
  "kw_ok names kws \<Longrightarrow> i < j \<Longrightarrow> j < length kws \<Longrightarrow> lex_le (names (kws ! i)) (names (kws ! j))"
  by (auto simp: kw_ok_def list_all_iff lex_sorted_wrt sorted_wrt_map sorted_wrt_iff_nth_less)

lemma take_match:
  assumes "2 \<le> length nm" "take 2 p = take 2 nm"
  shows "take (length nm) p = nm \<longleftrightarrow> take (length nm - 2) (drop 2 p) = drop 2 nm"
proof -
  have "take (length nm) p = take 2 p @ take (length nm - 2) (drop 2 p)"
    using assms(1) by (metis le_add_diff_inverse take_add)
  moreover have "nm = take 2 nm @ drop 2 nm" by simp
  ultimately show ?thesis using assms(2) by (metis append_eq_append_conv)
qed

lemma kw_scan_find:
  assumes "kw_ok names kws" "ed \<le> length kws"
    and "\<forall>i. kt \<le> i \<and> i < ed \<longrightarrow> prefix16 (names (kws ! i)) = prefix16 p"
  shows "kw_scan names kws p kt ed = kw_search names (drop kt (take ed kws)) p"
  using assms(3)
proof (induction "ed - kt" arbitrary: kt)
  case 0
  then show ?case by (simp add: kw_scan.simps kw_search_def)
next
  case (Suc n)
  then have lt: "kt < ed" by simp
  define tok where "tok = kws ! kt"
  define nm where "nm = names tok"
  have IH: "kw_scan names kws p (kt + 1) ed = kw_search names (drop (kt + 1) (take ed kws)) p"
    using Suc by simp
  have mem: "tok \<in> set kws" using lt assms(2) by (simp add: tok_def)
  have nm: "2 \<le> length nm" "0 \<notin> set nm" using kw_okD(1) [OF assms(1) mem] by (simp_all add: nm_def)
  have two: "take 2 p = take 2 nm" using two_bytes [OF nm, of p] Suc.prems lt by (simp add: nm_def tok_def)
  have split: "drop kt (take ed kws) = tok # drop (kt + 1) (take ed kws)"
    using lt assms(2) by (simp add: tok_def Cons_nth_drop_Suc [symmetric])
  define cmp where "cmp = (if length nm > 2 then strncmp (drop 2 p) (drop 2 nm) (length nm - 2) else 0)"
  have drop_nm: "0 \<notin> set (drop 2 nm)" "length (drop 2 nm) = length nm - 2"
    using nm by (auto dest: in_set_dropD)
  have cmp0: "cmp = 0 \<longleftrightarrow> take (length nm) p = nm"
    using strncmp_prefix [OF drop_nm, of "drop 2 p"] take_match [OF nm(1) two] nm(1) by (auto simp: cmp_def)
  have later: "\<not> kw_matches names p (kws ! i)" if "cmp < 0" "kt < i" "i < ed" for i
  proof
    assume m: "kw_matches names p (kws ! i)"
    define nm' where "nm' = names (kws ! i)"
    have full: "take (length nm') p = nm'" using m by (simp add: kw_matches_def nm'_def Let_def)
    have nm': "2 \<le> length nm'" "0 \<notin> set nm'"
      using kw_okD(1) [OF assms(1), of "kws ! i"] that assms(2) by (simp_all add: nm'_def)
    have two': "take 2 p = take 2 nm'" using two_bytes [OF nm', of p] Suc.prems that by (simp add: nm'_def)
    have "lex_le nm nm'" using kw_okD(2) [OF assms(1), of kt i] that assms(2) by (simp add: nm_def nm'_def tok_def)
    then have "lex_le (drop 2 nm) (drop 2 nm')" using two two' by (intro lex_le_drop) simp_all
    then show False
      using strncmp_below [OF _ drop_nm, of "drop 2 p" "drop 2 nm'"] that(1) full take_match [OF nm'(1) two']
      by (auto simp: cmp_def split: if_splits)
  qed
  have none: "kw_search names (drop (kt + 1) (take ed kws)) p = None" if "cmp < 0"
  proof -
    have "\<not> kw_matches names p x" if "x \<in> set (drop (kt + 1) (take ed kws))" for x
      using that later \<open>cmp < 0\<close> assms(2) by (auto simp: in_set_conv_nth)
    then show ?thesis by (simp add: kw_search_def find_None_iff)
  qed
  have "kw_scan names kws p kt ed =
     (if cmp = 0 then
        (if \<not> next_is_varlike (drop (length nm) p) \<or> tok = PROC \<or> tok = FN \<or> tok = EQUALS
         then Some (tok, drop (length nm) p) else kw_scan names kws p (kt + 1) ed)
      else if cmp < 0 then None else kw_scan names kws p (kt + 1) ed)"
    using lt by (subst kw_scan.simps) (simp add: Let_def cmp_def nm_def tok_def)
  then show ?case unfolding IH split using cmp0 none
    by (auto simp: kw_search_def kw_matches_def nm_def Let_def)
qed

section \<open>The lookup\<close>

lemma kw_matches_prefix:
  assumes "kw_ok names kws" "tok \<in> set kws" "kw_matches names p tok"
  shows "prefix16 (names tok) = prefix16 p"
proof -
  define nm where "nm = names tok"
  have nm: "2 \<le> length nm" "0 \<notin> set nm" using kw_okD(1) [OF assms(1,2)] by (simp_all add: nm_def)
  have "take 2 (take (length nm) p) = take 2 nm" using assms(3) by (simp add: kw_matches_def nm_def Let_def)
  then have "take 2 p = take 2 nm" using nm(1) by (simp add: min_def)
  then show ?thesis using two_bytes [OF nm, of p] by (simp add: nm_def)
qed

lemma find_inner:
  "\<forall>x\<in>set xs. \<not> P x \<Longrightarrow> \<forall>x\<in>set zs. \<not> P x \<Longrightarrow> find P (xs @ ys @ zs) = find P ys"
proof (induction xs)
  case Nil
  then show ?case by (induction ys) (auto simp: find_None_iff)
qed simp

lemma keyword_lookup_search:
  assumes "kw_ok names keywords"
  shows "keyword_lookup names keywords p = kw_search names keywords p"
proof -
  define ks where "ks = map (\<lambda>t. prefix16 (names t)) keywords"
  define a b where "a = below ks (prefix16 p)" and "b = below ks (prefix16 p + 1)"
  have sorted: "sorted ks" using sorted_prefixes [OF assms] by (simp add: ks_def)
  have len: "length ks = length keywords" by (simp add: ks_def)
  have b: "b \<le> length keywords" by (metis b_def below_def len length_takeWhile_le)
  have key: "a \<le> i \<and> i < b \<longleftrightarrow> prefix16 (names (keywords ! i)) = prefix16 p" if "i < length keywords" for i
  proof -
    have "a \<le> i \<longleftrightarrow> prefix16 p \<le> ks ! i" "b \<le> i \<longleftrightarrow> prefix16 p + 1 \<le> ks ! i"
      unfolding a_def b_def using below_le [OF sorted] that len by simp_all
    moreover have "ks ! i = prefix16 (names (keywords ! i))" using that by (simp add: ks_def)
    ultimately show ?thesis by arith
  qed
  have "keyword_lookup names keywords p = kw_scan names keywords p a b"
    using build_spec [OF assms] prefix16_less [of p]
    by (simp add: keyword_lookup_def a_def b_def ks_def Let_def)
  also have "\<dots> = kw_search names (drop a (take b keywords)) p"
  proof (rule kw_scan_find [OF assms b], intro allI impI)
    fix i assume "a \<le> i \<and> i < b"
    then show "prefix16 (names (keywords ! i)) = prefix16 p" using key [of i] b by simp
  qed
  also have "\<dots> = kw_search names keywords p"
  proof -
    have none: "\<not> kw_matches names p (keywords ! i)" if "i < length keywords" "\<not> (a \<le> i \<and> i < b)" for i
      using kw_matches_prefix [OF assms nth_mem [OF that(1)]] key [OF that(1)] that(2) by blast
    have left: "\<not> kw_matches names p x" if x: "x \<in> set (take a (take b keywords))" for x
    proof -
      obtain i where "i < a" "i < length keywords" "x = keywords ! i"
        using x by (auto simp: in_set_conv_nth)
      then show ?thesis using none [of i] by simp
    qed
    have right: "\<not> kw_matches names p x" if x: "x \<in> set (drop b keywords)" for x
    proof -
      obtain i where "i < length keywords - b" "x = keywords ! (b + i)"
        using x by (auto simp: in_set_conv_nth)
      then show ?thesis using none [of "b + i"] by auto
    qed
    have "find (kw_matches names p) (take a (take b keywords) @ drop a (take b keywords) @ drop b keywords) =
        find (kw_matches names p) (drop a (take b keywords))"
      using left right by (intro find_inner) blast+
    then show ?thesis by (simp only: kw_search_def append_assoc [symmetric] append_take_drop_id)
  qed
  finally show ?thesis .
qed

text \<open>C11: with a table of keywords in lexicographic order, whose names have at least two characters, the
  lookup by buckets with its early exit finds the same keyword as a search of the whole table for the first
  one that stands at the position and is not continued by a letter, a digit or an underscore.\<close>

theorem keyword_lookup_correct:
  assumes "kw_ok names keywords"
  shows "keyword_lookup names keywords p = kw_search names keywords p"
  by (rule keyword_lookup_search [OF assms])

text \<open>A few of the keywords.\<close>

definition demo_names :: "nat \<Rightarrow> byte list" where
  "demo_names tok = bs (if tok = PROC then ''PROC'' else if tok = FN then ''FN''
     else if tok = AND_TOKEN then ''AND'' else if tok = OR_TOKEN then ''OR'' else if tok = NOT_TOKEN then ''NOT''
     else if tok = MOD_TOKEN then ''MOD'' else [])"

definition demo_keywords :: "token list" where
  "demo_keywords = [AND_TOKEN, FN, MOD_TOKEN, NOT_TOKEN, OR_TOKEN, PROC]"

theorem keyword_lookup_correct_witness:
  "kw_ok demo_names demo_keywords
   \<and> keyword_lookup demo_names demo_keywords (bs ''MOD 2'') = Some (MOD_TOKEN, bs '' 2'')
   \<and> keyword_lookup demo_names demo_keywords (bs ''MODEL'') = None
   \<and> keyword_lookup demo_names demo_keywords (bs ''PROCx'') = Some (PROC, bs ''x'')"
proof -
  have ok: "kw_ok demo_names demo_keywords" by code_simp
  have "kw_search demo_names demo_keywords (bs ''MOD 2'') = Some (MOD_TOKEN, bs '' 2'')"
    "kw_search demo_names demo_keywords (bs ''MODEL'') = None"
    "kw_search demo_names demo_keywords (bs ''PROCx'') = Some (PROC, bs ''x'')" by code_simp+
  then show ?thesis using ok keyword_lookup_correct [OF ok] by simp
qed

end
