(* ===== verification/BasicExpr.thy ===== *)
theory BasicExpr
  imports BasicToken
begin

text \<open>
  The typed expression evaluator of the BASIC interpreter (\<^verbatim>\<open>src/basic/unified_expression.c\<close>) with the
  reading of variables (\<^verbatim>\<open>src/basic/variable.c\<close>).  Integers are 64-bit words, so their arithmetic wraps
  around; reals are an abstract type with the operations of the floating-point unit; a string is its bytes
  with the length the code keeps beside the pointer.

  The C functions call each other in a circle through bracketed subexpressions.  Here each takes as
  argument \<open>rel\<close> the parser of what stands between brackets, and \<open>up_relation_expr E d\<close> ties the knot for
  brackets nested less than \<open>d\<close> deep, as deep as the stack allows.  A result \<open>None\<close> is an access outside the
  program or a buffer, a trap of the division instruction, a loop without end or a nesting deeper than \<open>d\<close>.
\<close>

section \<open>Values\<close>

datatype 'r up_value = UP_INT "64 word" | UP_REAL 'r | UP_STR "byte list" nat

fun is_str :: "'r up_value \<Rightarrow> bool" where
  "is_str (UP_STR s l) = True"
| "is_str v = False"

definition up_promote_pair :: "'r fp \<Rightarrow> 'r up_value \<Rightarrow> 'r up_value \<Rightarrow> 'r up_value \<times> 'r up_value" where
  "up_promote_pair F a b = (case (a, b) of
     (UP_REAL x, UP_INT j) \<Rightarrow> (a, UP_REAL (fp_of_int F j))
   | (UP_INT i, UP_REAL y) \<Rightarrow> (UP_REAL (fp_of_int F i), b)
   | _ \<Rightarrow> (a, b))"

fun up_truth :: "'r fp \<Rightarrow> 'r up_value \<Rightarrow> bool" where
  "up_truth F (UP_INT i) = (i \<noteq> 0)"
| "up_truth F (UP_REAL r) = (\<not> fp_eq F r (fp_zero F))"
| "up_truth F (UP_STR s l) = (l \<noteq> 0)"

text \<open>The signed division instruction: it traps when the quotient does not fit.\<close>

definition int_div :: "64 word \<Rightarrow> 64 word \<Rightarrow> 64 word option" where
  "int_div a b = (if sint a = - (2 ^ 63) \<and> sint b = -1 then None else Some (word_of_int (sint a sdiv sint b)))"

definition int_mod :: "64 word \<Rightarrow> 64 word \<Rightarrow> 64 word option" where
  "int_mod a b = (if sint a = - (2 ^ 63) \<and> sint b = -1 then None else Some (word_of_int (sint a smod sint b)))"

section \<open>Variables\<close>

text \<open>The search of the local variables from the innermost call outwards.\<close>

primrec find_local :: "('f \<Rightarrow> ('k \<rightharpoonup> 'v) option) \<Rightarrow> 'f list \<Rightarrow> 'k \<Rightarrow> 'v option" where
  "find_local sel [] var = None"
| "find_local sel (fr # frs) var =
     (case sel fr of None \<Rightarrow> find_local sel frs var
      | Some list \<Rightarrow> (case list var of None \<Rightarrow> find_local sel frs var | Some v \<Rightarrow> Some v))"

definition find_var :: "('f \<Rightarrow> ('k \<rightharpoonup> 'v) option) \<Rightarrow> 'f list \<Rightarrow> ('k \<rightharpoonup> 'v) \<Rightarrow> 'k \<Rightarrow> 'v option" where
  "find_var sel frs globals var =
     (case find_local sel frs var of None \<Rightarrow> globals var | Some v \<Rightarrow> Some v)"

definition quoted :: "string \<Rightarrow> byte list \<Rightarrow> byte list" where
  "quoted msg name = bs msg @ [0x27] @ name @ [0x27]"

definition basic_get_int_variable :: "'r env \<Rightarrow> byte list \<Rightarrow> 'r basic_ctx \<Rightarrow> 64 word \<times> 'r basic_ctx" where
  "basic_get_int_variable E var ctx = (case e_int_call E var ctx of Some r \<Rightarrow> r
     | None \<Rightarrow> (case find_var l_int (m_frames (b_m ctx)) (m_int (b_m ctx)) var of Some v \<Rightarrow> (v, ctx)
        | None \<Rightarrow> (0, ctx\<lparr>b_m := machine_error (b_m ctx) (quoted ''No such integer variable '' var)\<rparr>)))"

text \<open>The real variable, if there is one; no value stands for \<^verbatim>\<open>return false\<close>.\<close>

definition basic_get_double_variable :: "'r env \<Rightarrow> byte list \<Rightarrow> 'r basic_ctx \<Rightarrow> 'r option \<times> 'r basic_ctx" where
  "basic_get_double_variable E var ctx = (case e_real_call E var ctx of Some r \<Rightarrow> r
     | None \<Rightarrow> (case find_var l_real (m_frames (b_m ctx)) (m_real (b_m ctx)) var of Some v \<Rightarrow> (Some v, ctx)
        | None \<Rightarrow> (None, if var \<noteq> [] \<and> last var = 0x23
            then ctx\<lparr>b_m := machine_error (b_m ctx) (quoted ''No such real variable '' var)\<rparr> else ctx)))"

definition basic_get_string_variable ::
  "'r env \<Rightarrow> byte list \<Rightarrow> 'r basic_ctx \<Rightarrow> (byte list \<times> nat) \<times> 'r basic_ctx" where
  "basic_get_string_variable E var ctx = (case e_str_call E var ctx of Some r \<Rightarrow> r
     | None \<Rightarrow> (case find_var l_str (m_frames (b_m ctx)) (m_str (b_m ctx)) var of Some v \<Rightarrow> (v, ctx)
        | None \<Rightarrow> (([], 0), ctx\<lparr>b_m := machine_error (b_m ctx) (quoted ''No such string variable '' var)\<rparr>)))"

definition basic_get_numeric_variable :: "'r env \<Rightarrow> byte list \<Rightarrow> 'r basic_ctx \<Rightarrow> 'r \<times> 'r basic_ctx" where
  "basic_get_numeric_variable E var ctx = (case basic_get_double_variable E var ctx of
     (Some r, ctx) \<Rightarrow> (r, ctx)
   | (None, ctx) \<Rightarrow> (case basic_get_int_variable E var ctx of (i, ctx) \<Rightarrow> (fp_of_int (e_fp E) i, ctx)))"

definition basic_get_numeric_int_variable :: "'r env \<Rightarrow> byte list \<Rightarrow> 'r basic_ctx \<Rightarrow> 64 word \<times> 'r basic_ctx" where
  "basic_get_numeric_int_variable E var ctx = (case basic_get_double_variable E var ctx of
     (Some r, ctx) \<Rightarrow> (fp_to_int (e_fp E) r, ctx)
   | (None, ctx) \<Rightarrow> basic_get_int_variable E var ctx)"

section \<open>Factors\<close>

type_synonym 'r parser = "'r basic_ctx \<Rightarrow> ('r up_value \<times> 'r basic_ctx) option"

partial_function (option) skip_space :: "'r env \<Rightarrow> 'r basic_ctx \<Rightarrow> 'r basic_ctx option" where
  "skip_space E ctx =
     (if b_token ctx = SPACE then do { ctx \<leftarrow> tokenizer_next E ctx; skip_space E ctx } else Some ctx)"

text \<open>What follows a variable: the closing bracket of a call, or the name itself.\<close>

definition accept_variable :: "'r env \<Rightarrow> 'r basic_ctx \<Rightarrow> 'r basic_ctx option" where
  "accept_variable E ctx =
     (if b_token ctx = CLOSEBRACKET then map_option snd (accept_token E CLOSEBRACKET ctx)
      else map_option snd (accept_token E VARIABLE ctx))"

definition accept_numeric :: "'r env \<Rightarrow> 'r basic_ctx \<Rightarrow> 'r basic_ctx option" where
  "accept_numeric E ctx =
     (if b_token ctx = COMMA then Some (tokenizer_error_print ctx ''Too many parameters for builtin function'')
      else accept_variable E ctx)"

definition factor_variable :: "'r env \<Rightarrow> 'r parser" where
  "factor_variable E ctx = do {
     (name, ctx) \<leftarrow> tokenizer_variable_name ctx;
     if name \<noteq> [] \<and> last name = 0x24 then
       (case basic_get_string_variable E name ctx of ((s, len), ctx) \<Rightarrow>
          do { ctx \<leftarrow> accept_variable E ctx; Some (UP_STR s len, ctx) })
     else if name \<noteq> [] \<and> last name = 0x23 \<or> e_real_fn E name then
       (case basic_get_numeric_variable E name ctx of (d, ctx) \<Rightarrow>
          do { ctx \<leftarrow> accept_numeric E ctx; Some (UP_REAL d, ctx) })
     else
       (case basic_get_numeric_int_variable E name ctx of (n, ctx) \<Rightarrow>
          do { ctx \<leftarrow> accept_numeric E ctx; Some (UP_INT n, ctx) }) }"

definition factor_string :: "'r env \<Rightarrow> 'r parser" where
  "factor_string E ctx = do {
     (sv, len, area, p) \<leftarrow> gc_from_tokenizer_string (m_area (b_m ctx)) (b_ptr ctx);
     let ctx = ctx\<lparr>b_ptr := p, b_m := (b_m ctx)\<lparr>m_area := area\<rparr>\<rparr>;
     case sv of
       None \<Rightarrow> Some (UP_STR [] 0, tokenizer_error_print ctx ''String literal too long'')
     | Some dest \<Rightarrow> do { ctx \<leftarrow> tokenizer_next E ctx; Some (UP_STR (area_string area dest) len, ctx) } }"

definition up_factor :: "'r env \<Rightarrow> 'r parser \<Rightarrow> 'r parser" where
  "up_factor E rel ctx = do {
     ctx \<leftarrow> skip_space E ctx;
     let tok = b_token ctx;
     if tok = NUMBER then
       (let q = snd (count_digits (b_ptr ctx)) in
        if peek q = 0x2e \<and> isdigit (char_at q 1) then do {
          d \<leftarrow> tokenizer_fnum E ctx;
          (_, ctx) \<leftarrow> accept_token E NUMBER ctx;
          Some (UP_REAL d, ctx) }
        else do {
          let n = tokenizer_num ctx tok;
          (_, ctx) \<leftarrow> accept_token E NUMBER ctx;
          Some (UP_INT n, ctx) })
     else if tok = HEXNUMBER then do {
       let n = tokenizer_num ctx tok;
       (_, ctx) \<leftarrow> accept_token E HEXNUMBER ctx;
       Some (UP_INT n, ctx) }
     else if tok = STRING then factor_string E ctx
     else if tok = VARIABLE then factor_variable E ctx
     else if tok = OPENBRACKET then do {
       (_, ctx) \<leftarrow> accept_token E OPENBRACKET ctx;
       (v, ctx) \<leftarrow> rel ctx;
       (_, ctx) \<leftarrow> accept_token E CLOSEBRACKET ctx;
       Some (v, ctx) }
     else Some (UP_INT 0, ctx\<lparr>b_m := machine_error (b_m ctx) (bs ''Expected expression, got '' @ e_names E tok)\<rparr>) }"

section \<open>Signs\<close>

partial_function (option) sign_loop :: "'r env \<Rightarrow> bool \<Rightarrow> bool \<Rightarrow> 'r basic_ctx \<Rightarrow> (bool \<times> bool \<times> 'r basic_ctx) option" where
  "sign_loop E saw_sign negate ctx =
     (if b_token ctx = PLUS then do { ctx \<leftarrow> tokenizer_next E ctx; sign_loop E True negate ctx }
      else if b_token ctx = MINUS then do { ctx \<leftarrow> tokenizer_next E ctx; sign_loop E True (\<not> negate) ctx }
      else Some (saw_sign, negate, ctx))"

definition apply_sign :: "'r env \<Rightarrow> bool \<Rightarrow> 'r up_value \<Rightarrow> 'r machine \<Rightarrow> 'r up_value \<times> 'r machine" where
  "apply_sign E negate v m = (case v of
     UP_STR s l \<Rightarrow> (UP_INT 0, machine_error m (bs ''Unary +/- on string''))
   | UP_REAL r \<Rightarrow> (UP_REAL (if negate then fp_neg (e_fp E) r else r), m)
   | UP_INT i \<Rightarrow> (UP_INT (if negate then - i else i), m))"

definition up_unary :: "'r env \<Rightarrow> 'r parser \<Rightarrow> 'r parser" where
  "up_unary E rel ctx = do {
     (saw_sign, negate, ctx) \<leftarrow> sign_loop E False False ctx;
     (v, ctx) \<leftarrow> up_factor E rel ctx;
     if saw_sign then (case apply_sign E negate v (b_m ctx) of (v, m) \<Rightarrow> Some (v, ctx\<lparr>b_m := m\<rparr>))
     else Some (v, ctx) }"

section \<open>Terms\<close>

text \<open>A string operand of a numeric operator is reported and counts as zero.\<close>

definition no_strings :: "string \<Rightarrow> 'r up_value \<Rightarrow> 'r up_value \<Rightarrow> 'r machine \<Rightarrow> 'r up_value \<times> 'r up_value \<times> 'r machine" where
  "no_strings msg a b m =
     (if is_str a \<or> is_str b then
        (if is_str a then UP_INT 0 else a, if is_str b then UP_INT 0 else b, machine_error m (bs msg))
      else (a, b, m))"

text \<open>The operands of these operators have been promoted: both integers or both reals.\<close>

fun times_op :: "'r fp \<Rightarrow> 'r up_value \<Rightarrow> 'r up_value \<Rightarrow> 'r up_value" where
  "times_op F (UP_REAL x) (UP_REAL y) = UP_REAL (fp_mul F x y)"
| "times_op F (UP_INT i) (UP_INT j) = UP_INT (i * j)"
| "times_op F a b = a"

fun slash_op :: "'r fp \<Rightarrow> 'r up_value \<Rightarrow> 'r up_value \<Rightarrow> 'r machine \<Rightarrow> ('r up_value \<times> 'r machine) option" where
  "slash_op F (UP_REAL x) (UP_REAL y) m =
     (if fp_eq F y (fp_zero F) then Some (UP_REAL (fp_zero F), machine_error m (bs ''Division by zero''))
      else Some (UP_REAL (fp_div F x y), m))"
| "slash_op F (UP_INT i) (UP_INT j) m =
     (if j = 0 then Some (UP_INT 0, machine_error m (bs ''Division by zero''))
      else do { q \<leftarrow> int_div i j; Some (UP_INT q, m) })"
| "slash_op F a b m = Some (a, m)"

fun mod_op :: "'r fp \<Rightarrow> 'r up_value \<Rightarrow> 'r up_value \<Rightarrow> 'r machine \<Rightarrow> ('r up_value \<times> 'r machine) option" where
  "mod_op F (UP_REAL x) (UP_REAL y) m =
     (let a = fp_to_int F x; b = fp_to_int F y in
      if b = 0 then Some (UP_INT 0, machine_error m (bs ''Division by zero''))
      else do { r \<leftarrow> int_mod a b; Some (UP_INT r, m) })"
| "mod_op F (UP_INT i) (UP_INT j) m =
     (if j = 0 then Some (UP_INT 0, machine_error m (bs ''Division by zero''))
      else do { r \<leftarrow> int_mod i j; Some (UP_INT r, m) })"
| "mod_op F a b m = Some (a, m)"

definition term_op :: "'r env \<Rightarrow> token \<Rightarrow> 'r up_value \<Rightarrow> 'r up_value \<Rightarrow> 'r machine \<Rightarrow> ('r up_value \<times> 'r machine) option" where
  "term_op E opr acc rhs m =
     (case no_strings ''Numeric operator on string'' acc rhs m of (acc, rhs, m) \<Rightarrow>
      case up_promote_pair (e_fp E) acc rhs of (acc, rhs) \<Rightarrow>
        if opr = ASTERISK then Some (times_op (e_fp E) acc rhs, m)
        else if opr = SLASH then slash_op (e_fp E) acc rhs m
        else mod_op (e_fp E) acc rhs m)"

partial_function (option) term_loop :: "'r env \<Rightarrow> 'r parser \<Rightarrow> 'r up_value \<Rightarrow> 'r basic_ctx \<Rightarrow> ('r up_value \<times> 'r basic_ctx) option" where
  "term_loop E rel acc ctx =
     (let opr = b_token ctx in
      if opr \<noteq> ASTERISK \<and> opr \<noteq> SLASH \<and> opr \<noteq> MOD_TOKEN then Some (acc, ctx)
      else do {
        ctx \<leftarrow> tokenizer_next E ctx;
        (rhs, ctx) \<leftarrow> up_unary E rel ctx;
        (acc, m) \<leftarrow> term_op E opr acc rhs (b_m ctx);
        term_loop E rel acc (ctx\<lparr>b_m := m\<rparr>) })"

definition up_term :: "'r env \<Rightarrow> 'r parser \<Rightarrow> 'r parser" where
  "up_term E rel ctx = do { (acc, ctx) \<leftarrow> up_unary E rel ctx; term_loop E rel acc ctx }"

section \<open>Sums and concatenation\<close>

definition mix_message :: string where
  "mix_message = ''Cannot mix string and number with '+' or '-'' @ [CHR 0x27]"

text \<open>One operator: the flag tells that a string was too long, after which the code gives up.\<close>

definition concat_op :: "byte list \<Rightarrow> nat \<Rightarrow> byte list \<Rightarrow> nat \<Rightarrow> 'r machine \<Rightarrow> ('r up_value \<times> bool \<times> 'r machine) option" where
  "concat_op s1 l1 s2 l2 m = do {
     (p, area) \<leftarrow> gc_try_concat (m_area m) s1 s2;
     let m = m\<lparr>m_area := area\<rparr>;
     case p of
       None \<Rightarrow> Some (UP_STR s1 l1, True, machine_error m (bs ''String too long''))
     | Some dest \<Rightarrow> Some (UP_STR (area_string area dest) (l1 + l2), False, m) }"

fun plus_op :: "'r fp \<Rightarrow> token \<Rightarrow> 'r up_value \<Rightarrow> 'r up_value \<Rightarrow> 'r up_value" where
  "plus_op F opr (UP_REAL x) (UP_REAL y) = UP_REAL (if opr = PLUS then fp_add F x y else fp_sub F x y)"
| "plus_op F opr (UP_INT i) (UP_INT j) = UP_INT (if opr = PLUS then i + j else i - j)"
| "plus_op F opr a b = a"

definition value_op ::
  "'r env \<Rightarrow> token \<Rightarrow> 'r up_value \<Rightarrow> 'r up_value \<Rightarrow> 'r machine \<Rightarrow> ('r up_value \<times> bool \<times> 'r machine) option" where
  "value_op E opr acc rhs m = (case (acc, rhs) of
     (UP_STR s1 l1, UP_STR s2 l2) \<Rightarrow>
       if opr = PLUS then concat_op s1 l1 s2 l2 m
       else (case no_strings mix_message acc rhs m of (a, b, m) \<Rightarrow>
               Some (plus_op (e_fp E) opr a b, False, m))
   | _ \<Rightarrow>
       (case no_strings mix_message acc rhs m of (a, b, m) \<Rightarrow>
        case up_promote_pair (e_fp E) a b of (a, b) \<Rightarrow> Some (plus_op (e_fp E) opr a b, False, m)))"

partial_function (option) value_loop :: "'r env \<Rightarrow> 'r parser \<Rightarrow> 'r up_value \<Rightarrow> 'r basic_ctx \<Rightarrow> ('r up_value \<times> 'r basic_ctx) option" where
  "value_loop E rel acc ctx =
     (let opr = b_token ctx in
      if opr \<noteq> PLUS \<and> opr \<noteq> MINUS then Some (acc, ctx)
      else do {
        ctx \<leftarrow> tokenizer_next E ctx;
        (rhs, ctx) \<leftarrow> up_term E rel ctx;
        (acc, stop, m) \<leftarrow> value_op E opr acc rhs (b_m ctx);
        if stop then Some (acc, ctx\<lparr>b_m := m\<rparr>) else value_loop E rel acc (ctx\<lparr>b_m := m\<rparr>) })"

definition up_value_expr :: "'r env \<Rightarrow> 'r parser \<Rightarrow> 'r parser" where
  "up_value_expr E rel ctx = do { (acc, ctx) \<leftarrow> up_term E rel ctx; value_loop E rel acc ctx }"

section \<open>Relations\<close>

datatype cmp_mode = Plain | OrEqual | NotEqual

definition cmp_result :: "token \<Rightarrow> cmp_mode \<Rightarrow> bool \<Rightarrow> bool \<Rightarrow> bool \<Rightarrow> bool" where
  "cmp_result opr mode lt eq gt =
     (if opr = LESSTHAN then (if mode = OrEqual then lt \<or> eq else lt)
      else if opr = GREATERTHAN then (if mode = OrEqual then gt \<or> eq else gt)
      else (if mode = NotEqual then \<not> eq else eq))"

text \<open>The code skips the comparison of two strings at the same address; they are equal.\<close>

definition str_cmp :: "token \<Rightarrow> byte list \<Rightarrow> nat \<Rightarrow> byte list \<Rightarrow> nat \<Rightarrow> int" where
  "str_cmp opr s1 l1 s2 l2 = (if opr = EQUALS \<and> l1 \<noteq> l2 then 1 else strcmp s1 s2)"

fun rel_values :: "'r fp \<Rightarrow> token \<Rightarrow> cmp_mode \<Rightarrow> 'r up_value \<Rightarrow> 'r up_value \<Rightarrow> bool" where
  "rel_values F opr mode (UP_REAL x) (UP_REAL y) =
     (if opr = LESSTHAN then (if mode = OrEqual then fp_le F x y else fp_lt F x y)
      else if opr = GREATERTHAN then (if mode = OrEqual then fp_le F y x else fp_lt F y x)
      else (if mode = NotEqual then \<not> fp_eq F x y else fp_eq F x y))"
| "rel_values F opr mode (UP_INT i) (UP_INT j) =
     cmp_result opr mode (sint i < sint j) (i = j) (sint j < sint i)"
| "rel_values F opr mode (UP_STR s1 l1) (UP_STR s2 l2) =
     (let c = str_cmp opr s1 l1 s2 l2 in cmp_result opr mode (c < 0) (c = 0) (c > 0))"
| "rel_values F opr mode a b = False"

definition rel_op ::
  "'r env \<Rightarrow> token \<Rightarrow> cmp_mode \<Rightarrow> 'r up_value \<Rightarrow> 'r up_value \<Rightarrow> 'r machine \<Rightarrow> 'r up_value \<times> 'r machine" where
  "rel_op E opr mode lhs rhs m =
     (if is_str lhs \<noteq> is_str rhs
      then (UP_INT 0, machine_error m (bs ''Cannot compare string with number''))
      else case up_promote_pair (e_fp E) lhs rhs of (lhs, rhs) \<Rightarrow>
        (UP_INT (if rel_values (e_fp E) opr mode lhs rhs then 1 else 0), m))"

text \<open>The second character of \<^verbatim>\<open><=\<close>, \<^verbatim>\<open>>=\<close> and \<^verbatim>\<open><>\<close>.\<close>

definition rel_mode :: "'r env \<Rightarrow> token \<Rightarrow> 'r basic_ctx \<Rightarrow> (token \<times> cmp_mode \<times> 'r basic_ctx) option" where
  "rel_mode E opr ctx =
     (let secondary = b_token ctx in
      if opr = LESSTHAN \<or> opr = GREATERTHAN then
        (if secondary = EQUALS then do { ctx \<leftarrow> tokenizer_next E ctx; Some (opr, OrEqual, ctx) }
         else if opr = LESSTHAN \<and> secondary = GREATERTHAN
         then do { ctx \<leftarrow> tokenizer_next E ctx; Some (EQUALS, NotEqual, ctx) }
         else Some (opr, Plain, ctx))
      else Some (opr, Plain, ctx))"

partial_function (option) relation_loop :: "'r env \<Rightarrow> 'r parser \<Rightarrow> 'r up_value \<Rightarrow> 'r basic_ctx \<Rightarrow> ('r up_value \<times> 'r basic_ctx) option" where
  "relation_loop E rel lhs ctx =
     (let opr = b_token ctx in
      if opr \<noteq> LESSTHAN \<and> opr \<noteq> GREATERTHAN \<and> opr \<noteq> EQUALS then Some (lhs, ctx)
      else do {
        ctx \<leftarrow> tokenizer_next E ctx;
        (opr, mode, ctx) \<leftarrow> rel_mode E opr ctx;
        (rhs, ctx) \<leftarrow> up_value_expr E rel ctx;
        let (lhs, m) = rel_op E opr mode lhs rhs (b_m ctx);
        relation_loop E rel lhs (ctx\<lparr>b_m := m\<rparr>) })"

definition relation_body :: "'r env \<Rightarrow> 'r parser \<Rightarrow> 'r parser" where
  "relation_body E rel ctx = do { (lhs, ctx) \<leftarrow> up_value_expr E rel ctx; relation_loop E rel lhs ctx }"

primrec up_relation_expr :: "'r env \<Rightarrow> nat \<Rightarrow> 'r parser" where
  "up_relation_expr E 0 = (\<lambda>ctx. None)"
| "up_relation_expr E (Suc d) = relation_body E (up_relation_expr E d)"

section \<open>Conditions\<close>

partial_function (option) not_loop :: "'r env \<Rightarrow> bool \<Rightarrow> 'r basic_ctx \<Rightarrow> (bool \<times> 'r basic_ctx) option" where
  "not_loop E negate ctx =
     (if b_token ctx = NOT_TOKEN then do { ctx \<leftarrow> tokenizer_next E ctx; not_loop E (\<not> negate) ctx }
      else Some (negate, ctx))"

text \<open>\<^verbatim>\<open>*ctx = save\<close> brings back the fields of the context itself; variables and printed errors stay.\<close>

definition restore_ctx :: "'r basic_ctx \<Rightarrow> 'r basic_ctx \<Rightarrow> 'r basic_ctx" where
  "restore_ctx save ctx = save\<lparr>b_m := (b_m ctx)\<lparr>m_area := m_area (b_m save),
     m_ended := m_ended (b_m save), m_errored := m_errored (b_m save)\<rparr>\<rparr>"

definition truth_value :: "'r env \<Rightarrow> 'r up_value \<Rightarrow> 64 word" where
  "truth_value E b = (case b of UP_INT i \<Rightarrow> i | _ \<Rightarrow> if up_truth (e_fp E) b then 1 else 0)"

definition bool_relation :: "'r env \<Rightarrow> 'r parser \<Rightarrow> 'r basic_ctx \<Rightarrow> (64 word \<times> 'r basic_ctx) option" where
  "bool_relation E rel ctx = do { (b, ctx) \<leftarrow> rel ctx; Some (truth_value E b, ctx) }"

definition parse_bool_term ::
  "'r env \<Rightarrow> ('r basic_ctx \<Rightarrow> (bool \<times> 'r basic_ctx) option) \<Rightarrow> 'r parser \<Rightarrow> 'r basic_ctx \<Rightarrow> (64 word \<times> 'r basic_ctx) option" where
  "parse_bool_term E cond rel ctx = do {
     (negate, ctx) \<leftarrow> not_loop E False ctx;
     (b, ctx) \<leftarrow> (if b_token ctx = OPENBRACKET then do {
          let save = ctx;
          (_, ctx) \<leftarrow> accept_token E OPENBRACKET ctx;
          if b_token ctx = OPENBRACKET then do {
            (c, ctx) \<leftarrow> cond ctx;
            (_, ctx) \<leftarrow> accept_token E CLOSEBRACKET ctx;
            Some (if c then 1 else 0, ctx) }
          else bool_relation E rel (restore_ctx save ctx) }
        else bool_relation E rel ctx);
     Some (if negate then (if b = 0 then 1 else 0) else b, ctx) }"

partial_function (option) cond_loop ::
  "'r env \<Rightarrow> ('r basic_ctx \<Rightarrow> (bool \<times> 'r basic_ctx) option) \<Rightarrow> 'r parser \<Rightarrow> 64 word \<Rightarrow> 'r basic_ctx \<Rightarrow> (bool \<times> 'r basic_ctx) option" where
  "cond_loop E cond rel acc ctx =
     (if b_token ctx = AND_TOKEN then do {
        ctx \<leftarrow> tokenizer_next E ctx;
        (rhs, ctx) \<leftarrow> parse_bool_term E cond rel ctx;
        cond_loop E cond rel (if acc \<noteq> 0 \<and> rhs \<noteq> 0 then 1 else 0) ctx }
      else if b_token ctx = OR_TOKEN then do {
        ctx \<leftarrow> tokenizer_next E ctx;
        (rhs, ctx) \<leftarrow> parse_bool_term E cond rel ctx;
        cond_loop E cond rel (if acc \<noteq> 0 \<or> rhs \<noteq> 0 then 1 else 0) ctx }
      else Some (acc \<noteq> 0, ctx))"

primrec up_conditional :: "'r env \<Rightarrow> nat \<Rightarrow> 'r basic_ctx \<Rightarrow> (bool \<times> 'r basic_ctx) option" where
  "up_conditional E 0 = (\<lambda>ctx. None)"
| "up_conditional E (Suc d) = (\<lambda>ctx. do {
     (acc, ctx) \<leftarrow> parse_bool_term E (up_conditional E d) (up_relation_expr E (Suc d)) ctx;
     cond_loop E (up_conditional E d) (up_relation_expr E (Suc d)) acc ctx })"

section \<open>The entry points\<close>

definition up_eval_value :: "'r env \<Rightarrow> nat \<Rightarrow> 'r parser" where
  "up_eval_value E d = up_value_expr E (up_relation_expr E d)"

definition up_int_expr_strict :: "'r env \<Rightarrow> nat \<Rightarrow> 'r basic_ctx \<Rightarrow> (64 word \<times> 'r basic_ctx) option" where
  "up_int_expr_strict E d ctx = do {
     (v, ctx) \<leftarrow> up_eval_value E d ctx;
     case v of
       UP_STR s l \<Rightarrow> Some (0, tokenizer_error_print ctx ''String in numeric expression'')
     | UP_REAL r \<Rightarrow> Some (fp_to_int (e_fp E) r, ctx)
     | UP_INT i \<Rightarrow> Some (i, ctx) }"

definition up_double_expr_strict :: "'r env \<Rightarrow> nat \<Rightarrow> 'r basic_ctx \<Rightarrow> ('r \<times> 'r basic_ctx) option" where
  "up_double_expr_strict E d ctx = do {
     (v, ctx) \<leftarrow> up_eval_value E d ctx;
     case v of
       UP_STR s l \<Rightarrow> Some (fp_zero (e_fp E), tokenizer_error_print ctx ''String in numeric expression'')
     | UP_REAL r \<Rightarrow> Some (r, ctx)
     | UP_INT i \<Rightarrow> Some (fp_of_int (e_fp E) i, ctx) }"

text \<open>The length is only written for a string.\<close>

definition up_str_expr_strict :: "'r env \<Rightarrow> nat \<Rightarrow> 'r basic_ctx \<Rightarrow> (byte list \<times> nat option \<times> 'r basic_ctx) option" where
  "up_str_expr_strict E d ctx = do {
     (v, ctx) \<leftarrow> up_eval_value E d ctx;
     case v of
       UP_STR s l \<Rightarrow> Some (s, Some l, ctx)
     | _ \<Rightarrow> Some ([], None, tokenizer_error_print ctx ''Numeric value in string expression'') }"

definition up_relation_i :: "'r env \<Rightarrow> nat \<Rightarrow> 'r basic_ctx \<Rightarrow> (64 word \<times> 'r basic_ctx) option" where
  "up_relation_i E d = bool_relation E (up_relation_expr E d)"

definition expr :: "'r env \<Rightarrow> nat \<Rightarrow> 'r basic_ctx \<Rightarrow> (64 word \<times> 'r basic_ctx) option" where
  "expr = up_int_expr_strict"

definition str_expr :: "'r env \<Rightarrow> nat \<Rightarrow> 'r basic_ctx \<Rightarrow> (byte list \<times> nat option \<times> 'r basic_ctx) option" where
  "str_expr = up_str_expr_strict"

definition double_expr :: "'r env \<Rightarrow> nat \<Rightarrow> 'r basic_ctx \<Rightarrow> ('r \<times> 'r basic_ctx) option" where
  "double_expr = up_double_expr_strict"

end
