(* ===== verification/BasicLex.thy ===== *)
theory BasicLex
  imports BasicKeyword BasicExpr
begin

text \<open>
  What the tokenizer reads of an expression: lexemes, their spelling in a program text with blanks between
  them, and the lemma that \<^verbatim>\<open>get_next_token\<close> finds exactly the lexeme that is spelled.
\<close>

section \<open>Lexemes and their spelling\<close>

datatype lexeme = LNum "byte list" | LReal "byte list" "byte list" | LHex "byte list" | LStr "byte list"
  | LVar "byte list" | LSym byte | LKey token "byte list"

fun ltext :: "lexeme \<Rightarrow> byte list" where
  "ltext (LNum ds) = ds"
| "ltext (LReal ds fs) = ds @ 0x2e # fs"
| "ltext (LHex hs) = 0x26 # hs"
| "ltext (LStr s) = 0x22 # s @ [0x22]"
| "ltext (LVar x) = x"
| "ltext (LSym c) = [c]"
| "ltext (LKey t x) = x"

fun ltok :: "lexeme \<Rightarrow> token" where
  "ltok (LNum ds) = NUMBER"
| "ltok (LReal ds fs) = NUMBER"
| "ltok (LHex hs) = HEXNUMBER"
| "ltok (LStr s) = STRING"
| "ltok (LVar x) = VARIABLE"
| "ltok (LSym c) = singlechar c"
| "ltok (LKey t x) = t"

text \<open>A name is a letter or underscore, then letters, digits and underscores, then perhaps \<^verbatim>\<open>$\<close> or \<^verbatim>\<open>#\<close>.\<close>

definition name_ok :: "byte list \<Rightarrow> bool" where
  "name_ok x = (length x < MAX_VARNAME \<and> (isalpha (peek x) \<or> peek x = 0x5f)
     \<and> list_all (\<lambda>c. isalnum c \<or> c = 0x5f) (butlast x)
     \<and> (isalnum (last x) \<or> last x = 0x5f \<or> last x = 0x24 \<or> last x = 0x23))"

fun wf_lexeme :: "lexeme \<Rightarrow> bool" where
  "wf_lexeme (LNum ds) = (ds \<noteq> [] \<and> list_all isdigit ds \<and> length ds < MAX_NUMLEN)"
| "wf_lexeme (LReal ds fs) = (list_all isdigit ds \<and> fs \<noteq> [] \<and> list_all isdigit fs
     \<and> length ds + length fs + 1 < MAX_NUMLEN)"
| "wf_lexeme (LHex hs) = (1 < length hs \<and> list_all isxdigit hs \<and> length hs < MAX_NUMLEN)"
| "wf_lexeme (LStr s) = (0x22 \<notin> set s \<and> 0 \<notin> set s \<and> 13 \<notin> set s)"
| "wf_lexeme (LVar x) = name_ok x"
| "wf_lexeme (LSym c) = (c \<in> {0x2b, 0x2d, 0x2a, 0x2f, 0x25, 0x28, 0x29, 0x3c, 0x3e, 0x3d})"
| "wf_lexeme (LKey t x) = (isalpha (peek x) \<and> t \<noteq> ENDOFINPUT)"

text \<open>What may stand directly behind a lexeme.  A name or a string is not the last thing of a program: there
  the tokenizer would not move on from it.  Behind a real number stands no \<^verbatim>\<open>e\<close>, which \<^verbatim>\<open>atof\<close> would take for
  an exponent although the tokenizer does not.\<close>

fun follow_ok :: "lexeme \<Rightarrow> byte list \<Rightarrow> bool" where
  "follow_ok (LNum ds) q = (\<not> isdigit (peek q) \<and> peek q \<noteq> 0x2e)"
| "follow_ok (LReal ds fs) q = (\<not> isdigit (peek q) \<and> peek q \<notin> {0x2e, 0x65, 0x45})"
| "follow_ok (LHex hs) q = (\<not> isxdigit (peek q))"
| "follow_ok (LStr s) q = (peek q \<noteq> 0)"
| "follow_ok (LVar x) q = (\<not> isalnum (peek q) \<and> peek q \<notin> {0, 0x5f, 0x24, 0x23, 0x28})"
| "follow_ok (LSym c) q = True"
| "follow_ok (LKey t x) q = True"

text \<open>The keyword at the place, if there is one, is the lexeme's.\<close>

definition keyword_ok :: "'r env \<Rightarrow> lexeme \<Rightarrow> byte list \<Rightarrow> bool" where
  "keyword_ok E l p = (case l of LVar x \<Rightarrow> kw_search (e_names E) (e_keywords E) p = None
     | LKey t x \<Rightarrow> kw_search (e_names E) (e_keywords E) p = Some (t, drop (length x) p)
     | _ \<Rightarrow> True)"

text \<open>The lexemes \<open>ls\<close> are spelled at \<open>p\<close>, with blanks between them at will: the text behind them.\<close>

fun spelled :: "'r env \<Rightarrow> lexeme list \<Rightarrow> byte list \<Rightarrow> byte list option" where
  "spelled E [] p = Some p"
| "spelled E (l # ls) p =
     (let q = drop (length (ltext l)) p in
      if wf_lexeme l \<and> take (length (ltext l)) p = ltext l \<and> follow_ok l q \<and> keyword_ok E l p
      then spelled E ls (skip_blanks q) else None)"

lemma spelled_append: "spelled E (ks @ ls) p = Option.bind (spelled E ks p) (spelled E ls)"
  by (induction ks arbitrary: p) (simp_all add: Let_def)

lemma spelled_Cons:
  assumes "spelled E (l # ls) p = Some r"
  obtains q where "p = ltext l @ q" "wf_lexeme l" "follow_ok l q" "keyword_ok E l p"
    "spelled E ls (skip_blanks q) = Some r"
proof -
  have c: "wf_lexeme l \<and> take (length (ltext l)) p = ltext l \<and> follow_ok l (drop (length (ltext l)) p) \<and> keyword_ok E l p"
    using assms by (auto simp: Let_def split: if_splits)
  then have "p = ltext l @ drop (length (ltext l)) p" by (metis append_take_drop_id)
  then show ?thesis using that c assms by (simp add: Let_def)
qed

section \<open>Contexts that have read their token\<close>

text \<open>The place where the tokenizer leaves the pointer: behind the \<^verbatim>\<open>&\<close> of a hexadecimal number.\<close>

definition token_start :: "byte list \<Rightarrow> byte list" where
  "token_start p = (if peek p = 0x26 then tl p else p)"

lemma token_start_id [simp]: "peek p \<noteq> 0x26 \<Longrightarrow> token_start p = p"
  by (simp add: token_start_def)

text \<open>At \<open>p\<close> stands the token \<open>t\<close>, which ends at \<open>np\<close>.\<close>

definition lexes :: "'r env \<Rightarrow> byte list \<Rightarrow> token \<Rightarrow> byte list option \<Rightarrow> bool" where
  "lexes E p t np = (\<forall>ctx. b_ptr ctx = p \<longrightarrow>
     get_next_token E ctx =
       (t, (case np of None \<Rightarrow> ctx | Some n \<Rightarrow> ctx\<lparr>b_nextptr := Some n\<rparr>)\<lparr>b_ptr := token_start p\<rparr>))"

lemma lexesI:
  assumes "peek p \<noteq> 0x26"
    and "\<And>ctx :: 'r basic_ctx. b_ptr ctx = p \<Longrightarrow>
      get_next_token E ctx = (t, case np of None \<Rightarrow> ctx | Some n \<Rightarrow> ctx\<lparr>b_nextptr := Some n\<rparr>)"
  shows "lexes E p t np"
  unfolding lexes_def
proof (intro allI impI)
  fix ctx :: "'r basic_ctx"
  assume p: "b_ptr ctx = p"
  have "(case np of None \<Rightarrow> ctx | Some n \<Rightarrow> ctx\<lparr>b_nextptr := Some n\<rparr>)\<lparr>b_ptr := token_start p\<rparr> =
      (case np of None \<Rightarrow> ctx | Some n \<Rightarrow> ctx\<lparr>b_nextptr := Some n\<rparr>)"
    using p assms(1) by (cases ctx) (simp split: option.split)
  then show "get_next_token E ctx =
       (t, (case np of None \<Rightarrow> ctx | Some n \<Rightarrow> ctx\<lparr>b_nextptr := Some n\<rparr>)\<lparr>b_ptr := token_start p\<rparr>)"
    using assms(2) [OF p] by simp
qed

lemma lexesD:
  assumes "lexes E p t (Some n)" "peek p \<noteq> 0x26" "b_ptr ctx = p"
  shows "get_next_token E ctx = (t, ctx\<lparr>b_nextptr := Some n\<rparr>)"
proof -
  have "ctx\<lparr>b_nextptr := Some n, b_ptr := p\<rparr> = ctx\<lparr>b_nextptr := Some n\<rparr>" using assms(3) by (cases ctx) simp
  then show ?thesis using assms by (simp add: lexes_def)
qed

text \<open>The context stands at \<open>p\<close>: reading the token there once more changes nothing.\<close>

definition stands :: "'r env \<Rightarrow> byte list \<Rightarrow> 'r machine \<Rightarrow> 'r basic_ctx \<Rightarrow> bool" where
  "stands E p m ctx = (b_ptr ctx = token_start p \<and> b_m ctx = m
     \<and> get_next_token E (ctx\<lparr>b_ptr := p\<rparr>) = (b_token ctx, ctx))"

lemma standsD:
  assumes "stands E p m ctx" "lexes E p t np"
  shows "b_ptr ctx = token_start p" "b_m ctx = m" "b_token ctx = t" "np = Some n \<Longrightarrow> b_nextptr ctx = Some n"
proof -
  let ?c = "ctx\<lparr>b_ptr := p\<rparr>"
  have "(b_token ctx, ctx) = get_next_token E ?c" using assms(1) by (simp add: stands_def)
  also have "\<dots> = (t, (case np of None \<Rightarrow> ?c | Some n \<Rightarrow> ?c\<lparr>b_nextptr := Some n\<rparr>)\<lparr>b_ptr := token_start p\<rparr>)"
    using assms(2) unfolding lexes_def by simp
  finally have e: "b_token ctx = t"
    "ctx = (case np of None \<Rightarrow> ?c | Some n \<Rightarrow> ?c\<lparr>b_nextptr := Some n\<rparr>)\<lparr>b_ptr := token_start p\<rparr>"
    by simp_all
  show "b_ptr ctx = token_start p" "b_m ctx = m" using assms by (simp_all add: stands_def)
  show "b_token ctx = t" by (rule e(1))
  show "b_nextptr ctx = Some n" if "np = Some n"
    using arg_cong [OF e(2), of b_nextptr] that by simp
qed

lemma stands_read:
  assumes "lexes E p t np"
  shows "stands E p (b_m ctx) (read_token E (ctx\<lparr>b_ptr := p\<rparr>))"
  using assms by (cases np) (simp_all add: stands_def lexes_def read_token_def)

lemma stands_m:
  assumes "stands E p m ctx" "lexes E p t np"
  shows "stands E p m' (ctx\<lparr>b_m := m'\<rparr>)"
proof -
  have r: "read_token E (ctx\<lparr>b_m := m'\<rparr>\<lparr>b_ptr := p\<rparr>) = ctx\<lparr>b_m := m'\<rparr>"
    using standsD [OF assms] assms(2)
    by (cases np; cases ctx) (simp_all add: read_token_def lexes_def)
  show ?thesis using stands_read [OF assms(2), of "ctx\<lparr>b_m := m'\<rparr>"] unfolding r by simp
qed

text \<open>From one token to the next.\<close>

definition advance :: "'r env \<Rightarrow> byte list \<Rightarrow> 'r basic_ctx \<Rightarrow> 'r basic_ctx" where
  "advance E n ctx = read_token E (ctx\<lparr>b_ptr := skip_blanks n\<rparr>)"

lemma tokenizer_next_advance:
  assumes "b_nextptr ctx = Some n" "peek (b_ptr ctx) \<noteq> 0" "b_token ctx \<noteq> ENDOFINPUT"
  shows "tokenizer_next E ctx = Some (advance E n ctx)"
  using assms by (simp add: tokenizer_next_def tokenizer_finished_def advance_def)

lemma stands_advance:
  assumes "lexes E (skip_blanks n) t np"
  shows "stands E (skip_blanks n) (b_m ctx) (advance E n ctx)"
  unfolding advance_def by (rule stands_read [OF assms])

section \<open>The token of a lexeme\<close>

lemma isdigit_facts:
  assumes "isdigit c"
  shows "c \<noteq> 0" "c \<noteq> 0x26" "c \<noteq> 0x2b" "c \<noteq> 0x2d" "c \<noteq> 0x20" "c \<noteq> 9"
  using assms by (auto simp: isdigit_def)

lemma isalpha_facts:
  assumes "isalpha c"
  shows "\<not> isdigit c" "singlechar c = NO_TOKEN" "c \<noteq> 0" "c \<noteq> 0x22" "c \<noteq> 0x26" "c \<noteq> 0x2e" "c \<noteq> 0x28" "c \<noteq> 0x24" "c \<noteq> 0x23"
proof -
  show "c \<noteq> 0" "c \<noteq> 0x22" "c \<noteq> 0x26" "c \<noteq> 0x2e" "c \<noteq> 0x28" "c \<noteq> 0x24" "c \<noteq> 0x23"
    using assms by (auto simp: isalpha_def)
  show "singlechar c = NO_TOKEN"
  proof (rule ccontr)
    assume "singlechar c \<noteq> NO_TOKEN"
    then have "c \<in> {10, 0x2c, 0x3b, 0x2b, 0x2d, 0x2a, 0x2f, 0x25, 0x28, 0x29, 0x3c, 0x3e, 0x3d, 0x7e, 0x20, 9}"
      by (simp add: singlechar_def split: if_splits)
    then show False using assms by (auto simp: isalpha_def)
  qed
  show "\<not> isdigit c"
  proof
    assume "isdigit c"
    then have "c \<in> {48, 49, 50, 51, 52, 53, 54, 55, 56, 57}"
    proof -
      obtain n where n: "c = of_nat n" "48 \<le> n" "n \<le> 57"
        by (rule that [of "unat c"]) (use \<open>isdigit c\<close> in \<open>simp_all add: isdigit_def\<close>)
      then have "n \<in> {48, 49, 50, 51, 52, 53, 54, 55, 56, 57}" by (simp, arith)
      then show ?thesis using n(1) by auto
    qed
    then show False using assms by (auto simp: isalpha_def)
  qed
qed

lemma scan_number_digits:
  "list_all P ds \<Longrightarrow> \<not> P (peek q) \<Longrightarrow> length ds < n \<Longrightarrow> scan_number P (ds @ q) n = Some (length ds)"
proof (induction ds arbitrary: n)
  case Nil
  then show ?case by (cases n) simp_all
next
  case (Cons d ds)
  then show ?case by (cases n) simp_all
qed

lemma lexes_num:
  assumes "wf_lexeme (LNum ds)" "follow_ok (LNum ds) q"
  shows "lexes E (ds @ q) NUMBER (Some q)"
proof (rule lexesI)
  obtain d es where ds: "ds = d # es" "isdigit d" using assms(1) by (cases ds) auto
  show "peek (ds @ q) \<noteq> 0x26" using isdigit_facts [OF ds(2)] by (simp add: ds)
  fix ctx :: "'a basic_ctx"
  assume p: "b_ptr ctx = ds @ q"
  have "scan_number (\<lambda>c. isdigit c \<or> c = 0x2e) (ds @ q) MAX_NUMLEN = Some (length ds)"
    using assms by (intro scan_number_digits) (auto simp: list_all_iff)
  then show "get_next_token E ctx = (NUMBER, case Some q of None \<Rightarrow> ctx | Some n \<Rightarrow> ctx\<lparr>b_nextptr := Some n\<rparr>)"
    using p ds isdigit_facts [OF ds(2)] by (simp add: get_next_token_def Let_def)
qed

lemma lexes_real:
  assumes "wf_lexeme (LReal ds fs)" "follow_ok (LReal ds fs) q"
  shows "lexes E (ds @ 0x2e # fs @ q) NUMBER (Some q)"
proof (rule lexesI)
  let ?P = "\<lambda>c. isdigit c \<or> c = 0x2e"
  obtain c es where c: "ds @ 0x2e # fs = c # es" "?P c" using assms(1) by (cases ds) auto
  have p: "ds @ 0x2e # fs @ q = c # es @ q" using c(1) by (metis append_Cons append_assoc)
  show "peek (ds @ 0x2e # fs @ q) \<noteq> 0x26" unfolding p using c(2) isdigit_facts(2) by auto
  have "scan_number ?P ((ds @ 0x2e # fs) @ q) MAX_NUMLEN = Some (length (ds @ 0x2e # fs))"
    by (rule scan_number_digits) (use assms in \<open>auto simp: list_all_iff\<close>)
  then have "scan_number ?P (c # es @ q) MAX_NUMLEN = Some (Suc (length es))" using c(1) by simp
  fix ctx :: "'a basic_ctx"
  assume "b_ptr ctx = ds @ 0x2e # fs @ q"
  then have "b_ptr ctx = c # es @ q" by (simp only: p)
  then show "get_next_token E ctx = (NUMBER, case Some q of None \<Rightarrow> ctx | Some n \<Rightarrow> ctx\<lparr>b_nextptr := Some n\<rparr>)"
    using c(2) isdigit_facts [of c] \<open>scan_number ?P (c # es @ q) MAX_NUMLEN = _\<close>
    by (auto simp: get_next_token_def Let_def)
qed

lemma lexes_hex:
  assumes "wf_lexeme (LHex hs)" "follow_ok (LHex hs) q"
  shows "lexes E (0x26 # hs @ q) HEXNUMBER (Some q)"
proof -
  have "scan_number isxdigit (hs @ q) MAX_NUMLEN = Some (length hs)"
    using assms by (intro scan_number_digits) auto
  moreover have "1 < length hs" using assms(1) by simp
  ultimately show ?thesis by (simp add: lexes_def get_next_token_def token_start_def Let_def)
qed

lemma scan_string_closed:
  "0x22 \<notin> set s \<Longrightarrow> 0 \<notin> set s \<Longrightarrow> 13 \<notin> set s \<Longrightarrow> scan_string (s @ 0x22 # q) = (Some q, False)"
  by (induction s) auto

lemma lexes_str:
  assumes "wf_lexeme (LStr s)"
  shows "lexes E (0x22 # s @ 0x22 # q) STRING (Some q)"
  using assms scan_string_closed [of s q]
  by (intro lexesI) (simp_all add: get_next_token_def isdigit_def singlechar_def Let_def)

lemma lexes_sym:
  assumes "singlechar c \<noteq> NO_TOKEN" "c \<noteq> 0" "\<not> isdigit c" "c \<noteq> 0x26" "c \<noteq> 0x2e"
  shows "lexes E (c # q) (singlechar c) (Some q)"
  using assms by (intro lexesI) (simp_all add: get_next_token_def)

lemma scan_name_name:
  assumes "list_all (name_char 1) xs" "0x28 \<notin> set xs" "v + length xs \<le> 60"
    and "xs \<noteq> [] \<Longrightarrow> name_char v (hd xs)" "\<not> name_char 1 (peek q)" "xs \<noteq> [] \<or> v > 0"
  shows "scan_name v (xs @ q) = (q, False)"
  using assms
proof (induction xs arbitrary: v)
  case Nil
  then have "\<not> name_char v (peek q)" by (auto simp: name_char_def)
  then show ?case by (subst scan_name.simps) simp
next
  case (Cons c xs)
  have peek: "peek (xs @ q) \<noteq> 0x28"
    using Cons.prems by (cases xs) (auto simp: name_char_def)
  have "name_char (v + 1) (hd xs)" if "xs \<noteq> []"
    using Cons.prems(1) that by (cases xs) (auto simp: name_char_def)
  then have IH: "scan_name (v + 1) (xs @ q) = (q, False)" using Cons.prems by (intro Cons.IH) auto
  have "scan_name v ((c # xs) @ q) = scan_name (v + 1) (xs @ q)"
    using Cons.prems(3,4) peek by (subst scan_name.simps) (simp add: Let_def)
  then show ?case using IH by simp
qed

lemma name_charI: "isalnum c \<or> c = 0x5f \<or> c = 0x24 \<or> c = 0x23 \<Longrightarrow> name_char 1 c \<and> c \<noteq> 0x28"
  using isalpha_facts [of c] by (auto simp: name_char_def isalnum_def isdigit_def)

lemma name_okD:
  assumes "name_ok x"
  shows "x \<noteq> []" "list_all (name_char 1) x" "0x28 \<notin> set x" "length x < MAX_VARNAME" "isalpha (hd x) \<or> hd x = 0x5f"
proof -
  show ne: "x \<noteq> []" using assms by (auto simp: name_ok_def isalpha_def)
  then have x: "x = butlast x @ [last x]" by simp
  have "\<forall>c\<in>set (butlast x @ [last x]). isalnum c \<or> c = 0x5f \<or> c = 0x24 \<or> c = 0x23"
    using assms by (auto simp: name_ok_def list_all_iff)
  then have "\<forall>c\<in>set x. name_char 1 c \<and> c \<noteq> 0x28" using x name_charI by metis
  then show "list_all (name_char 1) x" "0x28 \<notin> set x" by (auto simp: list_all_iff)
  show "length x < MAX_VARNAME" using assms by (simp add: name_ok_def)
  show "isalpha (hd x) \<or> hd x = 0x5f" using assms ne by (cases x) (auto simp: name_ok_def)
qed

lemma lexes_name:
  assumes kw: "kw_ok (e_names E) (e_keywords E)" "kw_search (e_names E) (e_keywords E) (x @ q) = None"
    and x: "x \<noteq> []" "list_all (name_char 1) x" "0x28 \<notin> set x" "length x \<le> 60" "isalpha (hd x) \<or> hd x = 0x5f"
    and q: "follow_ok (LVar y) q"
  shows "lexes E (x @ q) VARIABLE (Some q)"
proof (rule lexesI)
  obtain c z where c: "x = c # z" "isalpha c \<or> c = 0x5f" using x(1,5) by (cases x) auto
  show "peek (x @ q) \<noteq> 0x26" using c isalpha_facts(5) [of c] by auto
  fix ctx :: "'a basic_ctx"
  assume p: "b_ptr ctx = x @ q"
  have scan: "scan_name 0 (x @ q) = (q, False)"
  proof (rule scan_name_name)
    show "name_char 0 (hd x)" using c by (simp add: name_char_def)
    show "\<not> name_char 1 (peek q)" using q by (auto simp: name_char_def isalnum_def)
  qed (use x in auto)
  have "keyword_lookup (e_names E) (e_keywords E) (x @ q) = None"
    using kw(2) keyword_lookup_search [OF kw(1)] by simp
  moreover have "c \<noteq> 0" "\<not> isdigit c" "c \<noteq> 0x26" "c \<noteq> 0x2e" "singlechar c = NO_TOKEN" "c \<noteq> 0x22"
    using c(2) isalpha_facts [of c] by (auto simp: isdigit_def singlechar_def)
  ultimately show "get_next_token E ctx = (VARIABLE, case Some q of None \<Rightarrow> ctx | Some n \<Rightarrow> ctx\<lparr>b_nextptr := Some n\<rparr>)"
    using p c scan q by (simp add: get_next_token_def Let_def)
qed

lemma lexes_var:
  assumes "kw_ok (e_names E) (e_keywords E)" "name_ok x" "follow_ok (LVar x) q" "keyword_ok E (LVar x) (x @ q)"
  shows "lexes E (x @ q) VARIABLE (Some q)"
  using assms(4) name_okD [OF assms(2)]
  by (intro lexes_name [OF assms(1) _ _ _ _ _ _ assms(3)]) (simp_all add: keyword_ok_def MAX_VARNAME_def)

lemma var_name_loop_long:
  "nm \<noteq> [] \<Longrightarrow> list_all (\<lambda>c. isalnum c \<or> c = 0x5f) xs \<Longrightarrow> length nm \<le> MAX_VARNAME \<Longrightarrow>
    MAX_VARNAME \<le> length nm + length xs \<Longrightarrow> \<exists>y p. var_name_loop nm (xs @ q) = (y, p, True) \<and> length y = MAX_VARNAME"
proof (induction xs arbitrary: nm)
  case Nil
  then show ?case by (subst var_name_loop.simps) simp
next
  case (Cons c xs)
  have c: "c \<noteq> 0" "c \<noteq> 0x24" "c \<noteq> 0x23"
    using Cons.prems(2) by (auto simp: isalnum_def isdigit_def isalpha_def)
  show ?case
  proof (cases "length nm < MAX_VARNAME")
    case True
    then have "var_name_loop nm ((c # xs) @ q) = var_name_loop (nm @ [c]) (xs @ q)"
      using c Cons.prems(1,2) by (subst var_name_loop.simps) (auto simp: Let_def)
    then show ?thesis using Cons.IH [of "nm @ [c]"] Cons.prems True by simp
  next
    case False
    then show ?thesis using Cons.prems(3) by (subst var_name_loop.simps) simp
  qed
qed

lemma var_name_loop_name:
  assumes "nm \<noteq> []" "length nm + length xs < MAX_VARNAME" "follow_ok (LVar x) q"
    and "list_all (\<lambda>c. isalnum c \<or> c = 0x5f) (butlast xs)"
    and "xs \<noteq> [] \<Longrightarrow> isalnum (last xs) \<or> last xs = 0x5f \<or> last xs = 0x24 \<or> last xs = 0x23"
  shows "var_name_loop nm (xs @ q) = (nm @ xs, q, True)"
  using assms
proof (induction xs arbitrary: nm)
  case Nil
  then show ?case by (subst var_name_loop.simps) (auto simp: Let_def)
next
  case (Cons c xs)
  have alnum: "isalnum 0x24 = False" "isalnum 0x23 = False" "isalnum 0 = False"
    by (simp_all add: isalnum_def isdigit_def isalpha_def)
  show ?case
  proof (cases "isalnum c \<or> c = 0x5f")
    case True
    have c: "c \<noteq> 0" "c \<noteq> 0x24" "c \<noteq> 0x23" using True alnum by auto
    have "var_name_loop (nm @ [c]) (xs @ q) = ((nm @ [c]) @ xs, q, True)"
      using Cons.prems by (intro Cons.IH) (auto split: if_splits)
    then show ?thesis using Cons.prems(1,2) True c
      by (subst var_name_loop.simps) (auto simp: Let_def)
  next
    case False
    then have "xs = []" "c = 0x24 \<or> c = 0x23" using Cons.prems(4,5) by (auto split: if_splits)
    then show ?thesis using Cons.prems(1-3)
      by (subst var_name_loop.simps) (auto simp: Let_def)
  qed
qed

lemma tokenizer_variable_name_reads:
  assumes "name_ok x" "follow_ok (LVar x) q" "b_ptr ctx = x @ q"
  shows "tokenizer_variable_name ctx = Some (x, ctx\<lparr>b_ptr := q\<rparr>)"
proof -
  obtain c y where x: "x = c # y" "isalpha c \<or> c = 0x5f" using name_okD(1,5) [OF assms(1)] by (cases x) auto
  have c0: "c \<noteq> 0" using x(2) isalpha_facts [of c] by auto
  have loop: "var_name_loop [c] (y @ q) = ([c] @ y, q, True)"
    using assms(1,2) x by (intro var_name_loop_name) (auto simp: name_ok_def MAX_VARNAME_def split: if_splits)
  have "var_name_loop [] (x @ q) = (x, q, True)"
    using x c0 loop by (subst var_name_loop.simps) (auto simp: MAX_VARNAME_def)
  then show ?thesis using assms(3) name_okD(4) [OF assms(1)] by (simp add: tokenizer_variable_name_def)
qed

lemma lexes_key:
  assumes "kw_ok (e_names E) (e_keywords E)" "isalpha (peek p)" "kw_search (e_names E) (e_keywords E) p = Some (t, n)"
  shows "lexes E p t (Some n)"
  using isalpha_facts [OF assms(2)] keyword_lookup_search [OF assms(1), of p] assms(3)
  by (intro lexesI) (simp_all add: get_next_token_def Let_def)

lemma key_peek: "isalpha (peek x) \<Longrightarrow> peek (x @ q) = peek x"
  by (cases x) (auto simp: isalpha_def)

text \<open>The lexeme at the front of a spelled list is the token there.\<close>

lemma lexes_lexeme:
  assumes "kw_ok (e_names E) (e_keywords E)" "wf_lexeme l" "follow_ok l q" "keyword_ok E l (ltext l @ q)"
  shows "lexes E (ltext l @ q) (ltok l) (Some q)"
proof (cases l)
  case (LSym c)
  then show ?thesis using assms(2) lexes_sym [of c E q] by (auto simp: isdigit_def singlechar_def)
next
  case (LNum ds)
  then show ?thesis using lexes_num [of ds q E] assms by simp
next
  case (LReal ds fs)
  then show ?thesis using lexes_real [of ds fs q E] assms by simp
next
  case (LHex hs)
  then show ?thesis using lexes_hex [of hs q E] assms by simp
next
  case (LStr s)
  then show ?thesis using lexes_str [of s E q] assms by simp
next
  case (LVar x)
  then show ?thesis using lexes_var [of E x q] assms by simp
next
  case (LKey t x)
  then show ?thesis using lexes_key [OF assms(1), of "x @ q" t q] assms(2,4) key_peek [of x q]
    by (simp add: keyword_ok_def)
qed

lemma ltok_not_end: "wf_lexeme l \<Longrightarrow> ltok l \<noteq> ENDOFINPUT"
  by (cases l) (auto simp: singlechar_def)

lemma isxdigit_nonzero: "isxdigit c \<Longrightarrow> c \<noteq> 0"
  by (auto simp: isxdigit_def isdigit_def Let_def)

text \<open>A lexeme is not empty, and its first byte is no \<^verbatim>\<open>&\<close> unless it is a hexadecimal number.\<close>

lemma ltext_peek:
  assumes "wf_lexeme l"
  shows "peek (token_start (ltext l @ q)) \<noteq> 0" "(\<forall>hs. l \<noteq> LHex hs) \<Longrightarrow> token_start (ltext l @ q) = ltext l @ q"
proof -
  have start: "peek (ltext l @ q) \<noteq> 0 \<and> peek (ltext l @ q) \<noteq> 0x26" if "\<forall>hs. l \<noteq> LHex hs"
  proof (cases l)
    case (LNum ds)
    then show ?thesis using assms by (cases ds) (auto dest: isdigit_facts)
  next
    case (LReal ds fs)
    then show ?thesis using assms by (cases ds) (auto dest: isdigit_facts)
  next
    case (LVar x)
    then show ?thesis using assms name_okD(1,5) [of x] isalpha_facts [of "hd x"] by (cases x) auto
  next
    case (LKey t x)
    then show ?thesis using assms key_peek [of x q] isalpha_facts [of "peek x"] by auto
  qed (use assms that in auto)
  show "(\<forall>hs. l \<noteq> LHex hs) \<Longrightarrow> token_start (ltext l @ q) = ltext l @ q" using start by simp
  show "peek (token_start (ltext l @ q)) \<noteq> 0"
  proof (cases l)
    case (LHex hs)
    then show ?thesis using assms by (cases hs) (auto simp: token_start_def isxdigit_nonzero)
  qed (use start in simp_all)
qed

end
