(* ===== verification/BasicExprSpec.thy ===== *)
theory BasicExprSpec
  imports BasicLex
begin

text \<open>
  The evaluator and the grammar: expressions as trees, the lexemes of a tree, with the brackets it needs and
  those it has besides, and the value of a tree.  The evaluator, run on any spelling of the lexemes, computes the value of the tree.
\<close>

section \<open>Expressions\<close>

datatype mulop = Mul | Div | Mod
datatype addop = Add | Sub
datatype relop = Lt | Le | Gt | Ge | Eq | Ne

text \<open>Decimal numbers, real numbers, hexadecimal numbers, strings, variables, and what is made of them.\<close>

datatype exp = Num "byte list" | RealNum "byte list" "byte list" | HexNum "byte list" | StrConst "byte list"
  | Var "byte list" | Signs "bool list" exp | MulE mulop exp exp
  | AddE addop exp exp | RelE relop exp exp | Brk exp

fun mul_sym :: "mulop \<Rightarrow> byte" where
  "mul_sym Mul = 0x2a" | "mul_sym Div = 0x2f" | "mul_sym Mod = 0x25"

fun add_sym :: "addop \<Rightarrow> byte" where
  "add_sym Add = 0x2b" | "add_sym Sub = 0x2d"

fun rel_syms :: "relop \<Rightarrow> byte list" where
  "rel_syms Lt = [0x3c]" | "rel_syms Le = [0x3c, 0x3d]" | "rel_syms Gt = [0x3e]" | "rel_syms Ge = [0x3e, 0x3d]"
| "rel_syms Eq = [0x3d]" | "rel_syms Ne = [0x3c, 0x3e]"

text \<open>How tightly the outermost operator binds: 0 for comparisons, 1 for sums, 2 for products, 3 for signs.\<close>

fun level :: "exp \<Rightarrow> nat" where
  "level (Num ds) = 4"
| "level (RealNum ds fs) = 4"
| "level (HexNum hs) = 4"
| "level (StrConst s) = 4"
| "level (Var x) = 4"
| "level (Signs s e) = 3"
| "level (MulE f a b) = 2"
| "level (AddE f a b) = 1"
| "level (RelE f a b) = 0"
| "level (Brk e) = 4"

definition bracketed :: "bool \<Rightarrow> lexeme list \<Rightarrow> lexeme list" where
  "bracketed c ls = (if c then LSym 0x28 # ls @ [LSym 0x29] else ls)"

primrec bare :: "exp \<Rightarrow> lexeme list" where
  "bare (Num ds) = [LNum ds]"
| "bare (RealNum ds fs) = [LReal ds fs]"
| "bare (HexNum hs) = [LHex hs]"
| "bare (StrConst s) = [LStr s]"
| "bare (Var x) = [LVar x]"
| "bare (Signs s e) = map (\<lambda>neg. LSym (if neg then 0x2d else 0x2b)) s @ bracketed (level e < 4) (bare e)"
| "bare (MulE f a b) = bracketed (level a < 2) (bare a) @ LSym (mul_sym f) # bracketed (level b < 3) (bare b)"
| "bare (AddE f a b) = bracketed (level a < 1) (bare a) @ LSym (add_sym f) # bracketed (level b < 2) (bare b)"
| "bare (RelE f a b) = bare a @ map LSym (rel_syms f) @ bracketed (level b < 1) (bare b)"
| "bare (Brk e) = LSym 0x28 # bare e @ [LSym 0x29]"

definition lexemes :: "nat \<Rightarrow> exp \<Rightarrow> lexeme list" where
  "lexemes L e = bracketed (level e < L) (bare e)"

text \<open>How deep the brackets are nested.\<close>

primrec nested :: "exp \<Rightarrow> nat" where
  "nested (Num ds) = 0"
| "nested (RealNum ds fs) = 0"
| "nested (HexNum hs) = 0"
| "nested (StrConst s) = 0"
| "nested (Var x) = 0"
| "nested (Signs s e) = nested e + of_bool (level e < 4)"
| "nested (MulE f a b) = max (nested a + of_bool (level a < 2)) (nested b + of_bool (level b < 3))"
| "nested (AddE f a b) = max (nested a + of_bool (level a < 1)) (nested b + of_bool (level b < 2))"
| "nested (RelE f a b) = max (nested a) (nested b + of_bool (level b < 1))"
| "nested (Brk e) = Suc (nested e)"

definition nesting :: "nat \<Rightarrow> exp \<Rightarrow> nat" where
  "nesting L e = nested e + of_bool (level e < L)"

primrec names_of :: "exp \<Rightarrow> byte list set" where
  "names_of (Num ds) = {}"
| "names_of (RealNum ds fs) = {}"
| "names_of (HexNum hs) = {}"
| "names_of (StrConst s) = {}"
| "names_of (Var x) = {x}"
| "names_of (Signs s e) = names_of e"
| "names_of (MulE f a b) = names_of a \<union> names_of b"
| "names_of (AddE f a b) = names_of a \<union> names_of b"
| "names_of (RelE f a b) = names_of a \<union> names_of b"
| "names_of (Brk e) = names_of e"

primrec signs_ok :: "exp \<Rightarrow> bool" where
  "signs_ok (Num ds) = True"
| "signs_ok (RealNum ds fs) = True"
| "signs_ok (HexNum hs) = True"
| "signs_ok (StrConst s) = True"
| "signs_ok (Var x) = True"
| "signs_ok (Signs s e) = (s \<noteq> [] \<and> signs_ok e)"
| "signs_ok (MulE f a b) = (signs_ok a \<and> signs_ok b)"
| "signs_ok (AddE f a b) = (signs_ok a \<and> signs_ok b)"
| "signs_ok (RelE f a b) = (signs_ok a \<and> signs_ok b)"
| "signs_ok (Brk e) = signs_ok e"

section \<open>Values of expressions\<close>

definition dec :: "byte list \<Rightarrow> int" where
  "dec ds = foldl (\<lambda>v d. v * 10 + int (unat d - 48)) 0 ds"

definition hex_digit :: "byte \<Rightarrow> nat" where
  "hex_digit d = (if isdigit d then unat d - 48 else unat (d OR 0x20) - 87)"

definition hex :: "byte list \<Rightarrow> int" where
  "hex hs = foldl (\<lambda>v d. v * 16 + int (hex_digit d)) 0 hs"

text \<open>The digits before and behind the point, and the power of ten that puts the point in its place.\<close>

definition real_number :: "'r fp \<Rightarrow> byte list \<Rightarrow> byte list \<Rightarrow> 'r" where
  "real_number F ds fs =
     fp_mul F (foldl (add_digit F) (fp_zero F) (ds @ fs)) (pow10i F (- int (length fs)))"

text \<open>A string constant is copied into the string area.\<close>

definition put_string :: "str_area \<Rightarrow> byte list \<Rightarrow> str_area" where
  "put_string a s = a\<lparr>sa_storage := take (sa_next a) (sa_storage a) @ s @ 0 # drop (sa_next a + length s + 1) (sa_storage a),
     sa_next := sa_next a + length s + 1\<rparr>"

definition string_fits :: "str_area \<Rightarrow> byte list \<Rightarrow> bool" where
  "string_fits a s = (sa_next a + length s < sa_size a \<and> sa_size a \<le> length (sa_storage a))"

text \<open>A name that is neither a function nor an array.\<close>

definition plain_name :: "'r env \<Rightarrow> byte list \<Rightarrow> bool" where
  "plain_name E x = (e_int_call E x = (\<lambda>_. None) \<and> e_real_call E x = (\<lambda>_. None) \<and> e_str_call E x = (\<lambda>_. None)
     \<and> \<not> e_real_fn E x)"

text \<open>The value of a variable; \<open>None\<close> if there is none.\<close>

definition var_value :: "'r env \<Rightarrow> 'r machine \<Rightarrow> byte list \<Rightarrow> 'r up_value option" where
  "var_value E m x =
     (let real = find_var l_real (m_frames m) (m_real m) x in
      if last x = 0x24 then map_option (\<lambda>(s, l). UP_STR s l) (find_var l_str (m_frames m) (m_str m) x)
      else if last x = 0x23 then map_option UP_REAL real
      else case real of Some r \<Rightarrow> Some (UP_INT (fp_to_int (e_fp E) r))
           | None \<Rightarrow> map_option UP_INT (find_var l_int (m_frames m) (m_int m) x))"

text \<open>Reading a variable.  A missing one is reported and counts as the empty string or as zero; a missing real
  is looked for among the integers as well.\<close>

definition read_int :: "'r machine \<Rightarrow> byte list \<Rightarrow> 64 word \<times> 'r machine" where
  "read_int m x = (case find_var l_int (m_frames m) (m_int m) x of Some i \<Rightarrow> (i, m)
     | None \<Rightarrow> (0, machine_error m (quoted ''No such integer variable '' x)))"

definition read_var :: "'r env \<Rightarrow> 'r machine \<Rightarrow> byte list \<Rightarrow> 'r up_value \<times> 'r machine" where
  "read_var E m x =
     (case var_value E m x of Some v \<Rightarrow> (v, m)
      | None \<Rightarrow>
          if last x = 0x24 then (UP_STR [] 0, machine_error m (quoted ''No such string variable '' x))
          else if last x = 0x23 then
            (case read_int (machine_error m (quoted ''No such real variable '' x)) x of
               (i, m) \<Rightarrow> (UP_REAL (fp_of_int (e_fp E) i), m))
          else (case read_int m x of (i, m) \<Rightarrow> (UP_INT i, m)))"

definition flips :: "bool list \<Rightarrow> bool \<Rightarrow> bool" where
  "flips s neg = foldl (\<lambda>n minus. if minus then \<not> n else n) neg s"

fun mul_tok :: "mulop \<Rightarrow> token" where
  "mul_tok Mul = ASTERISK" | "mul_tok Div = SLASH" | "mul_tok Mod = MOD_TOKEN"

fun add_tok :: "addop \<Rightarrow> token" where
  "add_tok Add = PLUS" | "add_tok Sub = MINUS"

fun rel_toks :: "relop \<Rightarrow> token \<times> cmp_mode" where
  "rel_toks Lt = (LESSTHAN, Plain)" | "rel_toks Le = (LESSTHAN, OrEqual)" | "rel_toks Gt = (GREATERTHAN, Plain)"
| "rel_toks Ge = (GREATERTHAN, OrEqual)" | "rel_toks Eq = (EQUALS, Plain)" | "rel_toks Ne = (EQUALS, NotEqual)"

text \<open>Operands from left to right; \<open>None\<close> where a division traps or a string does not fit into the string
  area.\<close>

primrec eval :: "'r env \<Rightarrow> exp \<Rightarrow> 'r machine \<Rightarrow> ('r up_value \<times> 'r machine) option" where
  "eval E (Num ds) m = Some (UP_INT (word_of_int (dec ds)), m)"
| "eval E (RealNum ds fs) m = Some (UP_REAL (real_number (e_fp E) ds fs), m)"
| "eval E (HexNum hs) m = Some (UP_INT (word_of_int (hex hs)), m)"
| "eval E (StrConst s) m =
     (if string_fits (m_area m) s then Some (UP_STR s (length s), m\<lparr>m_area := put_string (m_area m) s\<rparr>) else None)"
| "eval E (Var x) m = Some (read_var E m x)"
| "eval E (Signs s e) m = do { (v, m) \<leftarrow> eval E e m; Some (apply_sign E (flips s False) v m) }"
| "eval E (MulE f a b) m = do { (va, m) \<leftarrow> eval E a m; (vb, m) \<leftarrow> eval E b m; term_op E (mul_tok f) va vb m }"
| "eval E (AddE f a b) m = do { (va, m) \<leftarrow> eval E a m; (vb, m) \<leftarrow> eval E b m;
     (v, stop, m) \<leftarrow> value_op E (add_tok f) va vb m; if stop then None else Some (v, m) }"
| "eval E (RelE f a b) m = do { (va, m) \<leftarrow> eval E a m; (vb, m) \<leftarrow> eval E b m;
     Some (rel_op E (fst (rel_toks f)) (snd (rel_toks f)) va vb m) }"
| "eval E (Brk e) m = eval E e m"

section \<open>Consuming lexemes\<close>

lemma spelled_lexes:
  assumes "kw_ok (e_names E) (e_keywords E)" "spelled E (l # ls) p = Some r"
  obtains q where "p = ltext l @ q" "lexes E p (ltok l) (Some q)" "wf_lexeme l" "follow_ok l q"
    "spelled E ls (skip_blanks q) = Some r"
proof -
  obtain q where q: "p = ltext l @ q" "wf_lexeme l" "follow_ok l q" "keyword_ok E l p"
    "spelled E ls (skip_blanks q) = Some r"
    using spelled_Cons [OF assms(2)] by blast
  then show ?thesis using that lexes_lexeme [OF assms(1), of l q] by simp
qed

text \<open>Where lexemes are spelled, and at their end, stands a token.\<close>

lemma spelled_token:
  assumes "kw_ok (e_names E) (e_keywords E)" "spelled E ls p = Some r" "lexes E r t np"
  shows "\<exists>t' np'. lexes E p t' np' \<and> (ls \<noteq> [] \<longrightarrow> t' = ltok (hd ls))"
proof (cases ls)
  case Nil
  then show ?thesis using assms by auto
next
  case (Cons l ls')
  then show ?thesis using spelled_lexes [OF assms(1)] assms(2) by (metis list.sel(1))
qed

text \<open>One lexeme is consumed.\<close>

lemma consume:
  assumes kw: "kw_ok (e_names E) (e_keywords E)"
    and sp: "spelled E (l # ls) p = Some r" and end_tok: "lexes E r t np" and st: "stands E p m ctx"
  obtains ctx' q where "tokenizer_next E ctx = Some ctx'" "accept_token E (ltok l) ctx = Some (True, ctx')"
    "b_token ctx = ltok l" "spelled E ls q = Some r" "stands E q m ctx'"
proof -
  obtain n where n: "p = ltext l @ n" "lexes E p (ltok l) (Some n)" "wf_lexeme l"
    "spelled E ls (skip_blanks n) = Some r"
    using spelled_lexes [OF kw sp] by blast
  obtain t' np' where t': "lexes E (skip_blanks n) t' np'" using spelled_token [OF kw n(4) end_tok] by blast
  have c: "b_ptr ctx = token_start p" "b_token ctx = ltok l" "b_nextptr ctx = Some n" "b_m ctx = m"
    using standsD [OF st n(2)] by simp_all
  have "tokenizer_next E ctx = Some (advance E n ctx)"
    using c n(1) ltext_peek(1) [OF n(3)] ltok_not_end [OF n(3)] by (intro tokenizer_next_advance) auto
  then show ?thesis
    using that [of "advance E n ctx" "skip_blanks n"] c n(4) stands_advance [OF t', of ctx]
    by (simp add: accept_token_def)
qed

section \<open>Factors\<close>

lemma parse10_dec:
  assumes "list_all isdigit ds" "\<not> isdigit (peek q)"
  shows "parse10 (word_of_int v) (ds @ q) = word_of_int (foldl (\<lambda>v d. v * 10 + int (unat d - 48)) v ds)"
  using assms(1)
proof (induction ds arbitrary: v)
  case Nil
  then show ?case using assms(2) by (cases q) (auto simp: map10_def isdigit_def)
next
  case (Cons d ds)
  have "map10 d = Some (unat d - 48)" using Cons.prems by (simp add: map10_def isdigit_def)
  moreover have "word_of_int v * 10 + of_nat (unat d - 48) = (word_of_int (v * 10 + int (unat d - 48)) :: 64 word)"
    by simp
  ultimately show ?case using Cons by (simp del: of_int_add of_int_mult)
qed

lemma atoll_dec:
  assumes "wf_lexeme (LNum ds)" "follow_ok (LNum ds) q"
  shows "atoll (ds @ q) 10 = word_of_int (dec ds)"
proof -
  obtain d es where ds: "ds = d # es" "isdigit d" using assms(1) by (cases ds) auto
  have "skip_blanks (ds @ q) = ds @ q" using isdigit_facts [OF ds(2)] by (simp add: ds)
  moreover have "peek (ds @ q) \<noteq> 0x2d" "peek (ds @ q) \<noteq> 0x2b" using isdigit_facts [OF ds(2)] by (simp_all add: ds)
  moreover have "parse10 0 (ds @ q) = word_of_int (dec ds)"
    using parse10_dec [of ds q 0] assms by (simp add: dec_def)
  ultimately show ?thesis by (simp add: atoll_def Let_def)
qed

lemma count_digits_end: "list_all isdigit ds \<Longrightarrow> \<not> isdigit (peek q) \<Longrightarrow> snd (count_digits (ds @ q)) = q"
proof (induction ds)
  case Nil
  then show ?case by (cases q) auto
qed (auto split: prod.splits)

lemma skip_space_none: "b_token ctx \<noteq> SPACE \<Longrightarrow> skip_space E ctx = Some ctx"
  by (subst skip_space.simps) simp

lemma factor_num:
  assumes kw: "kw_ok (e_names E) (e_keywords E)"
    and sp: "spelled E [LNum ds] p = Some r" and end_tok: "lexes E r t np" and st: "stands E p m ctx"
  shows "\<exists>ctx'. up_factor E rel ctx = Some (UP_INT (word_of_int (dec ds)), ctx') \<and> stands E r m ctx'"
proof -
  obtain q where q: "p = ds @ q" "wf_lexeme (LNum ds)" "follow_ok (LNum ds) q"
    using spelled_lexes [OF kw sp] by auto
  obtain ctx' where c: "accept_token E NUMBER ctx = Some (True, ctx')" "b_token ctx = NUMBER" "stands E r m ctx'"
    using consume [OF kw sp end_tok st] by auto
  have p: "b_ptr ctx = ds @ q" using st q(1) ltext_peek(2) [OF q(2), of q] by (simp add: stands_def)
  have d: "snd (count_digits (ds @ q)) = q" using q by (intro count_digits_end) auto
  have "up_factor E rel ctx = Some (UP_INT (tokenizer_num ctx NUMBER), ctx')"
    using c(1,2) q(3) by (simp add: up_factor_def skip_space_none p d Let_def)
  also have "tokenizer_num ctx NUMBER = word_of_int (dec ds)"
    using atoll_dec [OF q(2,3)] by (simp add: tokenizer_num_def p)
  finally show ?thesis using c(3) by blast
qed

text \<open>Real numbers.\<close>

lemma atof_digits_end:
  "list_all isdigit ds \<Longrightarrow> \<not> isdigit (peek q) \<Longrightarrow>
    atof_digits F a (ds @ q) = (foldl (add_digit F) a ds, length ds, q)"
proof (induction ds arbitrary: a)
  case Nil
  then show ?case by (cases q) auto
qed simp

lemma atof_real:
  assumes "wf_lexeme (LReal ds fs)" "follow_ok (LReal ds fs) q"
  shows "atof F (ds @ 0x2e # fs @ q) = Some (real_number F ds fs)"
proof -
  have "\<not> isdigit 0x2e" by (simp add: isdigit_def)
  then have 1: "atof_digits F (fp_zero F) (ds @ 0x2e # fs @ q) =
      (foldl (add_digit F) (fp_zero F) ds, length ds, 0x2e # fs @ q)"
    using assms by (intro atof_digits_end) auto
  have 2: "atof_digits F a (fs @ q) = (foldl (add_digit F) a fs, length fs, q)" for a
    using assms by (intro atof_digits_end) auto
  have "length fs < 32" "fs \<noteq> []" using assms(1) by (simp_all add: MAX_NUMLEN_def)
  then show ?thesis using assms(2) by (simp add: atof_def 1 2 real_number_def Let_def)
qed

lemma factor_real:
  assumes kw: "kw_ok (e_names E) (e_keywords E)"
    and sp: "spelled E [LReal ds fs] p = Some r" and end_tok: "lexes E r t np" and st: "stands E p m ctx"
  shows "\<exists>ctx'. up_factor E rel ctx = Some (UP_REAL (real_number (e_fp E) ds fs), ctx') \<and> stands E r m ctx'"
proof -
  obtain q where q: "p = ds @ 0x2e # fs @ q" "wf_lexeme (LReal ds fs)" "follow_ok (LReal ds fs) q"
    using spelled_lexes [OF kw sp] by auto
  obtain ctx' where c: "accept_token E NUMBER ctx = Some (True, ctx')" "b_token ctx = NUMBER" "stands E r m ctx'"
    using consume [OF kw sp end_tok st] by auto
  have p: "b_ptr ctx = ds @ 0x2e # fs @ q"
    using st q(1) ltext_peek(2) [OF q(2), of q] by (simp add: stands_def)
  have "\<not> isdigit 0x2e" by (simp add: isdigit_def)
  then have d: "snd (count_digits (ds @ 0x2e # fs @ q)) = 0x2e # fs @ q"
    using q(2) by (intro count_digits_end) auto
  obtain f gs where f: "fs = f # gs" "isdigit f" using q(2) by (cases fs) auto
  have d': "snd (count_digits (ds @ 0x2e # f # gs @ q)) = 0x2e # f # gs @ q" using d f(1) by simp
  have "up_factor E rel ctx = Some (UP_REAL (real_number (e_fp E) ds fs), ctx')"
    using c(1,2) atof_real [OF q(2,3), of "e_fp E"] f
    by (simp add: up_factor_def skip_space_none p d' tokenizer_fnum_def char_at_def Let_def)
  then show ?thesis using c(3) by blast
qed

text \<open>Hexadecimal numbers.\<close>

lemma hex_digits:
  "list_all (\<lambda>n. map16 (of_nat n) = (if isxdigit (of_nat n) then Some (hex_digit (of_nat n)) else None)) [0 ..< 256]"
  by code_simp

lemma map16_hex: "map16 d = (if isxdigit d then Some (hex_digit d) else None)"
proof -
  have "unat d < 256" using unsigned_less [of d] by simp
  then have "map16 (of_nat (unat d)) =
      (if isxdigit (of_nat (unat d)) then Some (hex_digit (of_nat (unat d))) else None)"
    using hex_digits unfolding list_all_iff by (metis atLeastLessThan_iff atLeastLessThan_upt le0)
  then show ?thesis by simp
qed

lemma parse16_hex:
  assumes "list_all isxdigit hs" "\<not> isxdigit (peek q)"
  shows "parse16 (word_of_int v) (hs @ q) = word_of_int (foldl (\<lambda>v d. v * 16 + int (hex_digit d)) v hs)"
  using assms(1)
proof (induction hs arbitrary: v)
  case Nil
  then show ?case using assms(2) by (cases q) (auto simp: map16_hex)
next
  case (Cons d hs)
  have "push_bit 4 (word_of_int v) + of_nat (hex_digit d) = (word_of_int (v * 16 + int (hex_digit d)) :: 64 word)"
    by (simp add: push_bit_eq_mult)
  then show ?case using Cons by (simp add: map16_hex del: of_int_add of_int_mult)
qed

lemma atoll_hex:
  assumes "wf_lexeme (LHex hs)" "follow_ok (LHex hs) q"
  shows "atoll (hs @ q) 16 = word_of_int (hex hs)"
proof -
  obtain h gs where h: "hs = h # gs" "isxdigit h" using assms(1) by (cases hs) auto
  have "h \<noteq> 0x20" "h \<noteq> 0x09" "h \<noteq> 0x26"
    using h(2) by (auto simp: isxdigit_def isdigit_def Let_def)
  moreover have "parse16 0 (hs @ q) = word_of_int (hex hs)"
    using parse16_hex [of hs q 0] assms by (simp add: hex_def)
  ultimately show ?thesis using h(1) by (simp add: atoll_def Let_def)
qed

lemma factor_hex:
  assumes kw: "kw_ok (e_names E) (e_keywords E)"
    and sp: "spelled E [LHex hs] p = Some r" and end_tok: "lexes E r t np" and st: "stands E p m ctx"
  shows "\<exists>ctx'. up_factor E rel ctx = Some (UP_INT (word_of_int (hex hs)), ctx') \<and> stands E r m ctx'"
proof -
  obtain q where q: "p = 0x26 # hs @ q" "wf_lexeme (LHex hs)" "follow_ok (LHex hs) q"
    using spelled_lexes [OF kw sp] by auto
  obtain ctx' where c: "accept_token E HEXNUMBER ctx = Some (True, ctx')" "b_token ctx = HEXNUMBER" "stands E r m ctx'"
    using consume [OF kw sp end_tok st] by auto
  have p: "b_ptr ctx = hs @ q" using st q(1) by (simp add: stands_def token_start_def)
  have "up_factor E rel ctx = Some (UP_INT (tokenizer_num ctx HEXNUMBER), ctx')"
    using c(1,2) by (simp add: up_factor_def skip_space_none Let_def)
  also have "tokenizer_num ctx HEXNUMBER = word_of_int (hex hs)"
    using atoll_hex [OF q(2,3)] by (simp add: tokenizer_num_def p)
  finally show ?thesis using c(3) by blast
qed

text \<open>String constants.\<close>

lemma gc_from_tokenizer_string_fits:
  assumes "string_fits a s" "0x22 \<notin> set s" "0 \<notin> set s"
  shows "gc_from_tokenizer_string a (0x22 # s @ 0x22 # q) = Some (Some (sa_next a), length s, put_string a s, q)"
    "area_string (put_string a s) (sa_next a) = s"
proof -
  let ?n = "sa_next a" and ?st = "sa_storage a"
  have l: "?n + length s < sa_size a" "sa_size a \<le> length ?st" using assms(1) by (simp_all add: string_fits_def)
  have p: "part (\<lambda>c. c = 0x22) (s @ 0x22 # q) = s"
    using assms(2,3) by (induction s) (auto simp: part_def)
  have put: "put_chars (\<lambda>c. c = 0x22) (sa_size a) (s @ 0x22 # q) ?st ?n =
      (memcpy_at ?n s ?st, ?n + length s, Some (0x22 # q))"
    using put_chars_fit [of ?n "\<lambda>c. c = 0x22" "s @ 0x22 # q" "sa_size a" ?st] p l by simp
  have "(memcpy_at ?n s ?st)[?n + length s := 0] = take ?n ?st @ s @ 0 # drop (?n + length s + 1) ?st"
    using l by (simp add: memcpy_at_def list_update_append Cons_nth_drop_Suc [symmetric])
  then have "finish_string a (memcpy_at ?n s ?st) (?n + length s) = Some (Some ?n, put_string a s)"
    using l by (simp add: finish_string_def poke_def put_string_def)
  then show "gc_from_tokenizer_string a (0x22 # s @ 0x22 # q) = Some (Some ?n, length s, put_string a s, q)"
    using put by (simp add: gc_from_tokenizer_string_def Let_def)
  show "area_string (put_string a s) ?n = s"
    using cstr_append_0 [OF assms(3)] l by (simp add: area_string_def put_string_def)
qed

lemma factor_str:
  assumes kw: "kw_ok (e_names E) (e_keywords E)"
    and sp: "spelled E [LStr s] p = Some r" and end_tok: "lexes E r t np" and st: "stands E p m ctx"
    and fits: "string_fits (m_area m) s"
  shows "\<exists>ctx'. up_factor E rel ctx = Some (UP_STR s (length s), ctx') \<and>
    stands E r (m\<lparr>m_area := put_string (m_area m) s\<rparr>) ctx'"
proof -
  obtain q where q: "p = 0x22 # s @ 0x22 # q" "lexes E p STRING (Some q)" "wf_lexeme (LStr s)" "peek q \<noteq> 0"
    "skip_blanks q = r"
    using spelled_lexes [OF kw sp] by auto
  have c: "b_ptr ctx = p" "b_token ctx = STRING" "b_nextptr ctx = Some q" "b_m ctx = m"
    using standsD [OF st q(2)] q(1) by simp_all
  let ?ctx = "ctx\<lparr>b_ptr := q, b_m := m\<lparr>m_area := put_string (m_area m) s\<rparr>\<rparr>"
  have nx: "tokenizer_next E ?ctx = Some (advance E q ?ctx)"
    using c q(4) by (intro tokenizer_next_advance) simp_all
  have "factor_string E ctx = Some (UP_STR s (length s), advance E q ?ctx)"
    using gc_from_tokenizer_string_fits [OF fits] q(1,3) c nx by (simp add: factor_string_def)
  then have "up_factor E rel ctx = Some (UP_STR s (length s), advance E q ?ctx)"
    using c(2) by (simp add: up_factor_def skip_space_none Let_def)
  moreover have "stands E r (m\<lparr>m_area := put_string (m_area m) s\<rparr>) (advance E q ?ctx)"
    using stands_advance [of E q t np ?ctx] end_tok q(5) by simp
  ultimately show ?thesis by blast
qed

text \<open>Variables.\<close>

lemma accept_variable_name:
  assumes kw: "kw_ok (e_names E) (e_keywords E)"
    and sp: "spelled E [LVar x] p = Some r" and end_tok: "lexes E r t np" and st: "stands E p m ctx"
  obtains q ctx' where "tokenizer_variable_name ctx = Some (x, ctx\<lparr>b_ptr := q\<rparr>)" "b_token ctx = VARIABLE"
    "accept_token E VARIABLE (ctx\<lparr>b_ptr := q, b_m := m'\<rparr>) = Some (True, ctx')" "stands E r m' ctx'"
proof -
  obtain q where q: "p = x @ q" "lexes E p VARIABLE (Some q)" "wf_lexeme (LVar x)" "follow_ok (LVar x) q"
    "skip_blanks q = r"
    using spelled_lexes [OF kw sp] by auto
  have c: "b_ptr ctx = p" "b_token ctx = VARIABLE" "b_nextptr ctx = Some q" "b_m ctx = m"
    using standsD [OF st q(2)] q(1) ltext_peek(2) [OF q(3), of q] by simp_all
  let ?ctx = "ctx\<lparr>b_ptr := q, b_m := m'\<rparr>"
  have "accept_token E VARIABLE ?ctx = Some (True, advance E q ?ctx)"
    using c q(4) tokenizer_next_advance [of ?ctx q E] by (simp add: accept_token_def)
  moreover have "stands E r m' (advance E q ?ctx)"
    using stands_advance [of E q t np ?ctx] end_tok q(5) by simp
  ultimately show ?thesis
    using that tokenizer_variable_name_reads [of x q ctx] q(1,3,4) c(1,2) by simp
qed

lemma factor_var:
  assumes kw: "kw_ok (e_names E) (e_keywords E)"
    and sp: "spelled E [LVar x] p = Some r" and end_tok: "lexes E r t np" and st: "stands E p m ctx"
    and plain: "plain_name E x" and v: "read_var E m x = (v, m')"
  shows "\<exists>ctx'. up_factor E rel ctx = Some (v, ctx') \<and> stands E r m' ctx'"
proof -
  obtain q ctx' where c: "tokenizer_variable_name ctx = Some (x, ctx\<lparr>b_ptr := q\<rparr>)" "b_token ctx = VARIABLE"
    "accept_token E VARIABLE (ctx\<lparr>b_ptr := q, b_m := m'\<rparr>) = Some (True, ctx')" "stands E r m' ctx'"
    using accept_variable_name [OF kw sp end_tok st] by blast
  have ne: "x \<noteq> []" using spelled_lexes [OF kw sp] name_okD(1) by (metis wf_lexeme.simps(5))
  have m: "b_m ctx = m" using st by (simp add: stands_def)
  then have same: "ctx\<lparr>b_ptr := q, b_m := m\<rparr> = ctx\<lparr>b_ptr := q\<rparr>" by (cases ctx) simp
  have acc: "accept_variable E (ctx\<lparr>b_ptr := q, b_m := m'\<rparr>) = Some ctx'"
    "accept_numeric E (ctx\<lparr>b_ptr := q, b_m := m'\<rparr>) = Some ctx'"
    using c(2,3) by (simp_all add: accept_variable_def accept_numeric_def)
  have "factor_variable E ctx = Some (v, ctx')"
    using v plain ne m acc same
    by (auto simp: factor_variable_def c(1) read_var_def read_int_def var_value_def plain_name_def Let_def
        basic_get_string_variable_def basic_get_numeric_variable_def basic_get_double_variable_def
        basic_get_numeric_int_variable_def basic_get_int_variable_def split: if_splits option.splits)
  then show ?thesis using c(2,4) by (auto simp: up_factor_def skip_space_none Let_def)
qed

section \<open>The parser and the grammar\<close>

text \<open>The function for each level, and the loop with which it goes on after a first operand.\<close>

definition parse :: "'r env \<Rightarrow> nat \<Rightarrow> 'r parser \<Rightarrow> 'r parser" where
  "parse E L rel = (if L = 0 then relation_body E rel else if L = 1 then up_value_expr E rel
     else if L = 2 then up_term E rel else if L = 3 then up_unary E rel else up_factor E rel)"

definition loop :: "'r env \<Rightarrow> nat \<Rightarrow> 'r parser \<Rightarrow> 'r up_value \<Rightarrow> 'r basic_ctx \<Rightarrow> ('r up_value \<times> 'r basic_ctx) option" where
  "loop E L rel = (if L = 0 then relation_loop E rel else if L = 1 then value_loop E rel
     else if L = 2 then term_loop E rel else (\<lambda>v ctx. Some (v, ctx)))"

definition tighter :: "nat \<Rightarrow> token set" where
  "tighter L = (if L < 2 then {ASTERISK, SLASH, MOD_TOKEN} else {}) \<union> (if L < 1 then {PLUS, MINUS} else {})"

lemmas level_simps = parse_def loop_def tighter_def

text \<open>Run on a spelling of \<open>e\<close>, the function of level \<open>L\<close> is where its loop is after the first operand \<open>e\<close>.\<close>

definition parses :: "'r env \<Rightarrow> nat \<Rightarrow> nat \<Rightarrow> exp \<Rightarrow> bool" where
  "parses E d L e = (\<forall>p q m m' v ctx t np. spelled E (lexemes L e) p = Some q \<longrightarrow> lexes E q t np \<longrightarrow>
     t \<notin> tighter L \<longrightarrow> stands E p m ctx \<longrightarrow> eval E e m = Some (v, m') \<longrightarrow>
     (\<exists>ctx'. stands E q m' ctx' \<and>
       parse E L (up_relation_expr E d) ctx = loop E L (up_relation_expr E d) v ctx'))"

lemma parsesD:
  assumes "parses E d L e" "spelled E (lexemes L e) p = Some q" "lexes E q t np" "t \<notin> tighter L" "stands E p m ctx"
    "eval E e m = Some (v, m')"
  obtains ctx' where "stands E q m' ctx'" "b_token ctx' = t"
    "parse E L (up_relation_expr E d) ctx = loop E L (up_relation_expr E d) v ctx'"
  using assms standsD(3) unfolding parses_def by metis

lemma loop_stop:
  "b_token ctx \<notin> {ASTERISK, SLASH, MOD_TOKEN} \<Longrightarrow> term_loop E rel v ctx = Some (v, ctx)"
  "b_token ctx \<notin> {PLUS, MINUS} \<Longrightarrow> value_loop E rel v ctx = Some (v, ctx)"
  "b_token ctx \<notin> {LESSTHAN, GREATERTHAN, EQUALS} \<Longrightarrow> relation_loop E rel v ctx = Some (v, ctx)"
  by (subst term_loop.simps value_loop.simps relation_loop.simps, simp)+

definition first_tokens :: "token set" where
  "first_tokens = {NUMBER, HEXNUMBER, STRING, VARIABLE, OPENBRACKET, PLUS, MINUS}"

lemma first_tokens_simps [simp]:
  "NUMBER \<in> first_tokens" "HEXNUMBER \<in> first_tokens" "STRING \<in> first_tokens" "VARIABLE \<in> first_tokens"
  "OPENBRACKET \<in> first_tokens" "PLUS \<in> first_tokens" "MINUS \<in> first_tokens"
  "EQUALS \<notin> first_tokens" "GREATERTHAN \<notin> first_tokens" "NOT_TOKEN \<notin> first_tokens"
  "singlechar 0x28 = OPENBRACKET" "singlechar 0x2b = PLUS" "singlechar 0x2d = MINUS"
  by (simp_all add: first_tokens_def singlechar_def)

lemma first_lexeme:
  "\<exists>l ls. bare e = l # ls \<and> ltok l \<in> first_tokens
     \<and> (level e \<ge> 4 \<longrightarrow> ltok l \<notin> {PLUS, MINUS})" if "signs_ok e"
  using that
proof (induction e)
  case (Signs s e)
  then show ?case by (cases s) (auto split: if_splits)
next
  case (MulE f a b)
  then obtain l ls where "bare a = l # ls" "ltok l \<in> first_tokens" by auto
  then show ?case by (simp add: bracketed_def)
next
  case (AddE f a b)
  then obtain l ls where "bare a = l # ls" "ltok l \<in> first_tokens" by auto
  then show ?case by (simp add: bracketed_def)
next
  case (RelE f a b)
  then obtain l ls where "bare a = l # ls" "ltok l \<in> first_tokens" by auto
  then show ?case by simp
qed simp_all

lemma first_of_lexemes:
  assumes "signs_ok e"
  shows "\<exists>l ls. lexemes L e = l # ls \<and> ltok l \<in> first_tokens
     \<and> (L \<ge> 4 \<longrightarrow> ltok l \<notin> {PLUS, MINUS})"
proof (cases "level e < L")
  case True
  then show ?thesis by (simp add: lexemes_def bracketed_def)
next
  case False
  then show ?thesis using first_lexeme [OF assms] by (auto simp: lexemes_def bracketed_def)
qed

lemma token_of_lexemes:
  assumes "kw_ok (e_names E) (e_keywords E)" "signs_ok e" "spelled E (lexemes L e @ ls) p = Some r" "stands E p m ctx"
  shows "b_token ctx \<in> first_tokens" "L \<ge> 4 \<Longrightarrow> b_token ctx \<notin> {PLUS, MINUS}"
proof -
  obtain l ks where l: "lexemes L e = l # ks" "ltok l \<in> first_tokens"
    "L \<ge> 4 \<longrightarrow> ltok l \<notin> {PLUS, MINUS}" using first_of_lexemes [OF assms(2)] by blast
  obtain n where "lexes E p (ltok l) (Some n)"
    using spelled_lexes [OF assms(1), of l "ks @ ls" p r] assms(3) l(1) by auto
  then have "b_token ctx = ltok l" using standsD(3) [OF assms(4)] by blast
  then show "b_token ctx \<in> first_tokens" "L \<ge> 4 \<Longrightarrow> b_token ctx \<notin> {PLUS, MINUS}"
    using l(2,3) by simp_all
qed

lemma sign_loop_stop: "b_token ctx \<notin> {PLUS, MINUS} \<Longrightarrow> sign_loop E saw neg ctx = Some (saw, neg, ctx)"
  by (subst sign_loop.simps) simp

text \<open>Without an operator of its own level, an expression is parsed by the next function.\<close>

lemma parses_step:
  assumes kw: "kw_ok (e_names E) (e_keywords E)" and ok: "signs_ok e"
    and up: "parses E d (Suc L) e" and L: "L < 4" and same: "lexemes (Suc L) e = lexemes L e"
  shows "parses E d L e"
  unfolding parses_def
proof (intro allI impI)
  fix p q m m' v ctx t np
  let ?rel = "up_relation_expr E d"
  assume a: "spelled E (lexemes L e) p = Some q" "lexes E q t np" "t \<notin> tighter L" "stands E p m ctx"
    "eval E e m = Some (v, m')"
  have "t \<notin> tighter (Suc L)" using a(3) by (auto simp: tighter_def split: if_splits)
  then obtain ctx' where c: "stands E q m' ctx'" "b_token ctx' = t"
    "parse E (Suc L) ?rel ctx = loop E (Suc L) ?rel v ctx'"
    using parsesD [OF up, of p q t np m ctx v m'] a same by metis
  have no_sign: "b_token ctx \<notin> {PLUS, MINUS}" if "L = 3"
    using token_of_lexemes(2) [OF kw ok, of "Suc L" "[]" p q m ctx] a(1,4) same that by simp
  consider "L = 0" | "L = 1" | "L = 2" | "L = 3" using L by linarith
  then have "parse E L ?rel ctx = loop E L ?rel v ctx'"
  proof cases
    case 1
    then show ?thesis using c(2,3) a(3) loop_stop(2) [of ctx' E ?rel v]
      by (simp add: level_simps relation_body_def)
  next
    case 2
    then show ?thesis using c(2,3) a(3) loop_stop(1) [of ctx' E ?rel v]
      by (simp add: level_simps up_value_expr_def numeral_2_eq_2)
  next
    case 3
    then show ?thesis using c(2,3) by (simp add: level_simps up_term_def)
  next
    case 4
    then show ?thesis using c(2,3) sign_loop_stop [OF no_sign]
      by (simp add: level_simps up_unary_def)
  qed
  then show "\<exists>ctx'. stands E q m' ctx' \<and> parse E L ?rel ctx = loop E L ?rel v ctx'" using c(1) by blast
qed

text \<open>Brackets.\<close>

lemma lexemes_bracket: "level e < L \<Longrightarrow> lexemes L e = LSym 0x28 # lexemes 0 e @ [LSym 0x29]"
  by (simp add: lexemes_def bracketed_def)

lemma factor_bracket:
  assumes kw: "kw_ok (e_names E) (e_keywords E)" and inner: "parses E d 0 e"
    and sp: "spelled E (LSym 0x28 # lexemes 0 e @ [LSym 0x29]) p = Some q" and end_tok: "lexes E q t np"
    and st: "stands E p m ctx" and v: "eval E e m = Some (v, m')"
  shows "\<exists>ctx'. stands E q m' ctx' \<and> up_factor E (up_relation_expr E (Suc d)) ctx = Some (v, ctx')"
proof -
  have br: "ltok (LSym 0x28) = OPENBRACKET" "ltok (LSym 0x29) = CLOSEBRACKET" by (simp_all add: singlechar_def)
  obtain ctx1 p1 where c1: "accept_token E OPENBRACKET ctx = Some (True, ctx1)" "b_token ctx = OPENBRACKET"
    "spelled E (lexemes 0 e @ [LSym 0x29]) p1 = Some q" "stands E p1 m ctx1"
    using consume [OF kw sp end_tok st] br by metis
  then obtain p2 where p2: "spelled E (lexemes 0 e) p1 = Some p2" "spelled E [LSym 0x29] p2 = Some q"
    unfolding spelled_append by (auto simp: bind_eq_Some_conv simp del: spelled.simps)
  obtain n where n: "lexes E p2 CLOSEBRACKET (Some n)" using spelled_lexes [OF kw p2(2)] br by metis
  obtain ctx2 where c2: "stands E p2 m' ctx2" "b_token ctx2 = CLOSEBRACKET"
    "parse E 0 (up_relation_expr E d) ctx1 = loop E 0 (up_relation_expr E d) v ctx2"
    using parsesD [OF inner p2(1) n _ c1(4) v] by (auto simp: tighter_def)
  have rel: "up_relation_expr E (Suc d) ctx1 = Some (v, ctx2)"
    using c2(2,3) loop_stop(3) [of ctx2 E "up_relation_expr E d" v] by (simp add: level_simps)
  obtain ctx3 where c3: "accept_token E CLOSEBRACKET ctx2 = Some (True, ctx3)" "stands E q m' ctx3"
    using consume [OF kw p2(2) end_tok c2(1)] br by (metis option.inject spelled.simps(1))
  have "up_factor E (up_relation_expr E (Suc d)) ctx = Some (v, ctx3)"
    using c1(1,2) rel c3(1) by (simp add: up_factor_def skip_space_none Let_def del: up_relation_expr.simps)
  then show ?thesis using c3(2) by blast
qed

lemma parses_bracket:
  assumes kw: "kw_ok (e_names E) (e_keywords E)" and inner: "parses E d 0 e"
    and ls: "lexemes 4 e' = LSym 0x28 # lexemes 0 e @ [LSym 0x29]" and same: "eval E e' = eval E e"
  shows "parses E (Suc d) 4 e'"
  unfolding parses_def ls same
  using factor_bracket [OF kw inner]
  by (simp add: level_simps del: spelled.simps up_relation_expr.simps)

text \<open>Signs.\<close>

lemma sign_loop_signs:
  assumes kw: "kw_ok (e_names E) (e_keywords E)" and end_tok: "lexes E r t np"
    and no_sign: "\<And>q ctx. spelled E ls q = Some r \<Longrightarrow> stands E q m ctx \<Longrightarrow> b_token ctx \<notin> {PLUS, MINUS}"
  shows "spelled E (map (\<lambda>neg. LSym (if neg then 0x2d else 0x2b)) s @ ls) p = Some r \<Longrightarrow> stands E p m ctx \<Longrightarrow>
    \<exists>q ctx'. sign_loop E saw neg ctx = Some (saw \<or> s \<noteq> [], flips s neg, ctx')
      \<and> spelled E ls q = Some r \<and> stands E q m ctx'"
proof (induction s arbitrary: p ctx saw neg)
  case Nil
  then have "spelled E ls p = Some r" by simp
  moreover have "sign_loop E saw neg ctx = Some (saw, neg, ctx)"
    using no_sign [OF calculation Nil(2)] by (rule sign_loop_stop)
  ultimately show ?case using Nil by (auto simp: flips_def)
next
  case (Cons b s)
  have sp: "spelled E (LSym (if b then 0x2d else 0x2b) # map (\<lambda>neg. LSym (if neg then 0x2d else 0x2b)) s @ ls) p = Some r"
    using Cons.prems(1) by simp
  obtain ctx1 p1 where c: "tokenizer_next E ctx = Some ctx1" "b_token ctx = ltok (LSym (if b then 0x2d else 0x2b))"
    "spelled E (map (\<lambda>neg. LSym (if neg then 0x2d else 0x2b)) s @ ls) p1 = Some r" "stands E p1 m ctx1"
    using consume [OF kw sp end_tok Cons.prems(2)] by blast
  have "sign_loop E saw neg ctx = sign_loop E True (if b then \<not> neg else neg) ctx1"
    using c(1,2) by (subst sign_loop.simps) (simp add: singlechar_def)
  then show ?case using Cons.IH [OF c(3,4), of True "if b then \<not> neg else neg"] by (simp add: flips_def)
qed

lemma parses_signs:
  assumes kw: "kw_ok (e_names E) (e_keywords E)" and ok: "signs_ok (Signs s e)" and sub: "parses E d 4 e"
  shows "parses E d 3 (Signs s e)"
  unfolding parses_def
proof (intro allI impI)
  fix p q m m' v ctx t np
  let ?rel = "up_relation_expr E d"
  assume a: "spelled E (lexemes 3 (Signs s e)) p = Some q" "lexes E q t np" "stands E p m ctx"
    "eval E (Signs s e) m = Some (v, m')"
  obtain w m1 where ev: "eval E e m = Some (w, m1)" "apply_sign E (flips s False) w m1 = (v, m')"
    using a(4) by (auto simp: bind_eq_Some_conv)
  have sp: "spelled E (map (\<lambda>neg. LSym (if neg then 0x2d else 0x2b)) s @ lexemes 4 e) p = Some q"
    using a(1) by (simp add: lexemes_def bracketed_def)
  have no_sign: "b_token c \<notin> {PLUS, MINUS}" if "spelled E (lexemes 4 e) x = Some q" "stands E x m c" for x c
    using token_of_lexemes(2) [OF kw, of e 4 "[]" x q m c] ok that by simp
  have loop: "\<exists>x ctx'. sign_loop E False False ctx = Some (False \<or> s \<noteq> [], flips s False, ctx')
      \<and> spelled E (lexemes 4 e) x = Some q \<and> stands E x m ctx'"
    by (rule sign_loop_signs [OF kw a(2) _ sp a(3)], rule no_sign)
  obtain p1 ctx1 where c1: "sign_loop E False False ctx = Some (True, flips s False, ctx1)"
    "spelled E (lexemes 4 e) p1 = Some q" "stands E p1 m ctx1"
    using loop ok by auto
  obtain ctx2 where c2: "stands E q m1 ctx2" "parse E 4 ?rel ctx1 = loop E 4 ?rel w ctx2"
    using parsesD [OF sub c1(2) a(2) _ c1(3) ev(1)] by (auto simp: tighter_def)
  have m1: "b_m ctx2 = m1" using c2(1) by (simp add: stands_def)
  have "parse E 3 ?rel ctx = Some (v, ctx2\<lparr>b_m := m'\<rparr>)"
    using c1(1) c2(2) ev(2) m1 by (simp add: level_simps up_unary_def)
  then show "\<exists>ctx'. stands E q m' ctx' \<and> parse E 3 ?rel ctx = loop E 3 ?rel v ctx'"
    using stands_m [OF c2(1) a(2), of m'] by (simp add: loop_def)
qed

text \<open>Binary operators.\<close>

lemma spelled_binary:
  assumes kw: "kw_ok (e_names E) (e_keywords E)" and sp: "spelled E (xs @ LSym c # ys) p = Some r"
  obtains q n where "spelled E xs p = Some q" "lexes E q (singlechar c) (Some n)" "spelled E (LSym c # ys) q = Some r"
proof -
  obtain q where q: "spelled E xs p = Some q" "spelled E (LSym c # ys) q = Some r"
    using sp unfolding spelled_append by (auto simp: bind_eq_Some_conv simp del: spelled.simps)
  then show ?thesis using that spelled_lexes [OF kw q(2)] by (metis ltok.simps(6))
qed

lemma syms [simp]:
  "singlechar (mul_sym f) = mul_tok f" "singlechar (add_sym g) = add_tok g"
  by (cases f; simp add: singlechar_def) (cases g; simp add: singlechar_def)

lemma parses_mul:
  assumes kw: "kw_ok (e_names E) (e_keywords E)" and a: "parses E d 2 a" and b: "parses E d 3 b"
  shows "parses E d 2 (MulE f a b)"
  unfolding parses_def
proof (intro allI impI)
  fix p q m m' v ctx t np
  let ?rel = "up_relation_expr E d"
  assume h: "spelled E (lexemes 2 (MulE f a b)) p = Some q" "lexes E q t np" "stands E p m ctx"
    "eval E (MulE f a b) m = Some (v, m')"
  obtain va m1 vb m2 where ev: "eval E a m = Some (va, m1)" "eval E b m1 = Some (vb, m2)"
    "term_op E (mul_tok f) va vb m2 = Some (v, m')"
    using h(4) by (auto simp: bind_eq_Some_conv)
  have sp: "spelled E (lexemes 2 a @ LSym (mul_sym f) # lexemes 3 b) p = Some q"
    using h(1) by (simp add: lexemes_def bracketed_def)
  obtain q1 n where q1: "spelled E (lexemes 2 a) p = Some q1" "lexes E q1 (mul_tok f) (Some n)"
    "spelled E (LSym (mul_sym f) # lexemes 3 b) q1 = Some q"
    using spelled_binary [OF kw sp] by (metis syms(1))
  obtain ctx1 where c1: "stands E q1 m1 ctx1" "b_token ctx1 = mul_tok f" "parse E 2 ?rel ctx = loop E 2 ?rel va ctx1"
    using parsesD [OF a q1(1,2) _ h(3) ev(1)] by (auto simp: tighter_def)
  obtain ctx2 q2 where c2: "tokenizer_next E ctx1 = Some ctx2" "spelled E (lexemes 3 b) q2 = Some q" "stands E q2 m1 ctx2"
    using consume [OF kw q1(3) h(2) c1(1)] by blast
  obtain ctx3 where c3: "stands E q m2 ctx3" "parse E 3 ?rel ctx2 = loop E 3 ?rel vb ctx3"
    using parsesD [OF b c2(2) h(2) _ c2(3) ev(2)] by (auto simp: tighter_def)
  have "b_m ctx3 = m2" using c3(1) by (simp add: stands_def)
  then have "term_loop E ?rel va ctx1 = term_loop E ?rel v (ctx3\<lparr>b_m := m'\<rparr>)"
    using c1(2) c2(1) c3(2) ev(3) by (subst term_loop.simps, cases f) (simp_all add: level_simps)
  then show "\<exists>ctx'. stands E q m' ctx' \<and> parse E 2 ?rel ctx = loop E 2 ?rel v ctx'"
    using stands_m [OF c3(1) h(2), of m'] c1(3) by (auto simp: level_simps)
qed

lemma parses_add:
  assumes kw: "kw_ok (e_names E) (e_keywords E)" and a: "parses E d 1 a" and b: "parses E d 2 b"
  shows "parses E d 1 (AddE f a b)"
  unfolding parses_def
proof (intro allI impI)
  fix p q m m' v ctx t np
  let ?rel = "up_relation_expr E d"
  assume h: "spelled E (lexemes 1 (AddE f a b)) p = Some q" "lexes E q t np" "t \<notin> tighter 1" "stands E p m ctx"
    "eval E (AddE f a b) m = Some (v, m')"
  obtain va m1 vb m2 where ev: "eval E a m = Some (va, m1)" "eval E b m1 = Some (vb, m2)"
    "value_op E (add_tok f) va vb m2 = Some (v, False, m')"
    using h(5) by (auto simp: bind_eq_Some_conv split: if_splits)
  have sp: "spelled E (lexemes 1 a @ LSym (add_sym f) # lexemes 2 b) p = Some q"
    using h(1) by (simp add: lexemes_def bracketed_def)
  obtain q1 n where q1: "spelled E (lexemes 1 a) p = Some q1" "lexes E q1 (add_tok f) (Some n)"
    "spelled E (LSym (add_sym f) # lexemes 2 b) q1 = Some q"
    using spelled_binary [OF kw sp] by (metis syms(2))
  have tok: "add_tok f \<notin> tighter 1" by (cases f) (simp_all add: tighter_def)
  obtain ctx1 where c1: "stands E q1 m1 ctx1" "b_token ctx1 = add_tok f" "parse E 1 ?rel ctx = loop E 1 ?rel va ctx1"
    using parsesD [OF a q1(1,2) tok h(4) ev(1)] by blast
  obtain ctx2 q2 where c2: "tokenizer_next E ctx1 = Some ctx2" "spelled E (lexemes 2 b) q2 = Some q" "stands E q2 m1 ctx2"
    using consume [OF kw q1(3) h(2) c1(1)] by blast
  obtain ctx3 where c3: "stands E q m2 ctx3" "b_token ctx3 = t" "parse E 2 ?rel ctx2 = loop E 2 ?rel vb ctx3"
    using parsesD [OF b c2(2) h(2) _ c2(3) ev(2)] by (auto simp: tighter_def)
  have "up_term E ?rel ctx2 = Some (vb, ctx3)"
    using c3(2,3) h(3) loop_stop(1) [of ctx3 E ?rel vb] by (simp add: level_simps)
  moreover have "b_m ctx3 = m2" using c3(1) by (simp add: stands_def)
  ultimately have "value_loop E ?rel va ctx1 = value_loop E ?rel v (ctx3\<lparr>b_m := m'\<rparr>)"
    using c1(2) c2(1) ev(3) by (subst value_loop.simps, cases f) simp_all
  then show "\<exists>ctx'. stands E q m' ctx' \<and> parse E 1 ?rel ctx = loop E 1 ?rel v ctx'"
    using stands_m [OF c3(1) h(2), of m'] c1(3) by (auto simp: level_simps)
qed

text \<open>The comparison operators have one or two characters.\<close>

lemma rel_mode_reads:
  assumes kw: "kw_ok (e_names E) (e_keywords E)" and ok: "signs_ok b" and syms: "rel_syms f = c # cs"
    and sp: "spelled E (map LSym cs @ lexemes 1 b) p = Some r" and end_tok: "lexes E r t np" and st: "stands E p m ctx"
  obtains ctx' q where "rel_mode E (singlechar c) ctx = Some (fst (rel_toks f), snd (rel_toks f), ctx')"
    "spelled E (lexemes 1 b) q = Some r" "stands E q m ctx'"
proof (cases cs)
  case Nil
  have "b_token ctx \<in> first_tokens"
    using token_of_lexemes(1) [OF kw ok, of 1 "[]" p r m ctx] sp st Nil by simp
  then have "rel_mode E (singlechar c) ctx = Some (fst (rel_toks f), snd (rel_toks f), ctx)"
    using syms Nil by (cases f) (auto simp: rel_mode_def singlechar_def Let_def)
  then show ?thesis using that sp st Nil by simp
next
  case (Cons c2 cs2)
  then have sp2: "spelled E (LSym c2 # lexemes 1 b) p = Some r" and cs2: "cs2 = []"
    using sp syms by (cases f; simp)+
  obtain ctx' q where c: "tokenizer_next E ctx = Some ctx'" "b_token ctx = singlechar c2"
    "spelled E (lexemes 1 b) q = Some r" "stands E q m ctx'"
    using consume [OF kw sp2 end_tok st] by (metis ltok.simps(6))
  have "rel_mode E (singlechar c) ctx = Some (fst (rel_toks f), snd (rel_toks f), ctx')"
    using syms Cons c(1,2) by (cases f) (auto simp: rel_mode_def singlechar_def Let_def)
  then show ?thesis using that c(3,4) by blast
qed

lemma parses_rel:
  assumes kw: "kw_ok (e_names E) (e_keywords E)" and ok: "signs_ok b" and a: "parses E d 0 a" and b: "parses E d 1 b"
  shows "parses E d 0 (RelE f a b)"
  unfolding parses_def
proof (intro allI impI)
  fix p q m m' v ctx t np
  let ?rel = "up_relation_expr E d"
  assume h: "spelled E (lexemes 0 (RelE f a b)) p = Some q" "lexes E q t np" "t \<notin> tighter 0" "stands E p m ctx"
    "eval E (RelE f a b) m = Some (v, m')"
  obtain va m1 vb m2 where ev: "eval E a m = Some (va, m1)" "eval E b m1 = Some (vb, m2)"
    "rel_op E (fst (rel_toks f)) (snd (rel_toks f)) va vb m2 = (v, m')"
    using h(5) by (auto simp: bind_eq_Some_conv)
  obtain c cs where syms: "rel_syms f = c # cs" by (cases f) auto
  have c: "singlechar c \<in> {LESSTHAN, GREATERTHAN, EQUALS}" using syms by (cases f) (auto simp: singlechar_def)
  have sp: "spelled E (lexemes 0 a @ LSym c # map LSym cs @ lexemes 1 b) p = Some q"
    using h(1) syms by (simp add: lexemes_def bracketed_def)
  obtain q1 n where q1: "spelled E (lexemes 0 a) p = Some q1" "lexes E q1 (singlechar c) (Some n)"
    "spelled E (LSym c # map LSym cs @ lexemes 1 b) q1 = Some q"
    using spelled_binary [OF kw sp] by blast
  have tok: "singlechar c \<notin> tighter 0" using c by (auto simp: tighter_def)
  obtain ctx1 where c1: "stands E q1 m1 ctx1" "b_token ctx1 = singlechar c" "parse E 0 ?rel ctx = loop E 0 ?rel va ctx1"
    using parsesD [OF a q1(1,2) tok h(4) ev(1)] by blast
  obtain ctx2 q2 where c2: "tokenizer_next E ctx1 = Some ctx2" "spelled E (map LSym cs @ lexemes 1 b) q2 = Some q"
    "stands E q2 m1 ctx2"
    using consume [OF kw q1(3) h(2) c1(1)] by blast
  obtain ctx3 q3 where c3: "rel_mode E (singlechar c) ctx2 = Some (fst (rel_toks f), snd (rel_toks f), ctx3)"
    "spelled E (lexemes 1 b) q3 = Some q" "stands E q3 m1 ctx3"
    using rel_mode_reads [OF kw ok syms c2(2) h(2) c2(3)] by blast
  have t1: "t \<notin> tighter 1" using h(3) by (auto simp: tighter_def)
  obtain ctx4 where c4: "stands E q m2 ctx4" "b_token ctx4 = t" "parse E 1 ?rel ctx3 = loop E 1 ?rel vb ctx4"
    using parsesD [OF b c3(2) h(2) t1 c3(3) ev(2)] by blast
  have "up_value_expr E ?rel ctx3 = Some (vb, ctx4)"
    using c4(2,3) h(3) loop_stop(2) [of ctx4 E ?rel vb] by (simp add: level_simps)
  moreover have "b_m ctx4 = m2" using c4(1) by (simp add: stands_def)
  ultimately have "relation_loop E ?rel va ctx1 = relation_loop E ?rel v (ctx4\<lparr>b_m := m'\<rparr>)"
    using c1(2) c c2(1) c3(1) ev(3) by (subst relation_loop.simps) (auto simp: Let_def)
  then show "\<exists>ctx'. stands E q m' ctx' \<and> parse E 0 ?rel ctx = loop E 0 ?rel v ctx'"
    using stands_m [OF c4(1) h(2), of m'] c1(3) by (auto simp: level_simps)
qed

lemma parses_atom:
  assumes ls: "lexemes 4 e = [l]"
    and f: "\<And>p q t np m ctx v m' rel. spelled E [l] p = Some q \<Longrightarrow> lexes E q t np \<Longrightarrow> stands E p m ctx \<Longrightarrow>
      eval E e m = Some (v, m') \<Longrightarrow> \<exists>ctx'. up_factor E rel ctx = Some (v, ctx') \<and> stands E q m' ctx'"
  shows "parses E d 4 e"
  unfolding parses_def ls
proof (intro allI impI)
  fix p q m m' v ctx t np
  assume "spelled E [l] p = Some q" "lexes E q t np" "stands E p m ctx" "eval E e m = Some (v, m')"
  from f [OF this, of "up_relation_expr E d"]
  show "\<exists>ctx'. stands E q m' ctx' \<and> parse E 4 (up_relation_expr E d) ctx = loop E 4 (up_relation_expr E d) v ctx'"
    by (auto simp: level_simps)
qed

lemma atom_lexemes:
  "lexemes 4 (Num ds) = [LNum ds]" "lexemes 4 (RealNum ds fs) = [LReal ds fs]" "lexemes 4 (HexNum hs) = [LHex hs]"
  "lexemes 4 (StrConst s) = [LStr s]" "lexemes 4 (Var x) = [LVar x]"
  by (simp_all add: lexemes_def bracketed_def)

lemma parses_num:
  assumes "kw_ok (e_names E) (e_keywords E)"
  shows "parses E d 4 (Num ds)"
proof (rule parses_atom [OF atom_lexemes(1)], goal_cases)
  case (1 p q t np m ctx v m' rel)
  then show ?case using factor_num [OF assms 1(1-3)] by auto
qed

lemma parses_real:
  assumes "kw_ok (e_names E) (e_keywords E)"
  shows "parses E d 4 (RealNum ds fs)"
proof (rule parses_atom [OF atom_lexemes(2)], goal_cases)
  case (1 p q t np m ctx v m' rel)
  then show ?case using factor_real [OF assms 1(1-3)] by auto
qed

lemma parses_hex:
  assumes "kw_ok (e_names E) (e_keywords E)"
  shows "parses E d 4 (HexNum hs)"
proof (rule parses_atom [OF atom_lexemes(3)], goal_cases)
  case (1 p q t np m ctx v m' rel)
  then show ?case using factor_hex [OF assms 1(1-3)] by auto
qed

lemma parses_str:
  assumes "kw_ok (e_names E) (e_keywords E)"
  shows "parses E d 4 (StrConst s)"
proof (rule parses_atom [OF atom_lexemes(4)], goal_cases)
  case (1 p q t np m ctx v m' rel)
  then show ?case using factor_str [OF assms 1(1-3)] by (auto split: if_splits)
qed

lemma parses_var:
  assumes "kw_ok (e_names E) (e_keywords E)" "plain_name E x"
  shows "parses E d 4 (Var x)"
proof (rule parses_atom [OF atom_lexemes(5)], goal_cases)
  case (1 p q t np m ctx v m' rel)
  then show ?case using factor_var [OF assms(1) 1(1-3) assms(2)] by auto
qed

text \<open>All levels follow from the level of the outermost operator.\<close>

lemma lexemes_Suc: "Suc L \<le> level e \<or> level e < L \<Longrightarrow> lexemes (Suc L) e = lexemes L e"
  by (auto simp: lexemes_def)

lemma level_le: "level e \<le> 4"
  by (cases e) simp_all

lemma parses_down:
  assumes kw: "kw_ok (e_names E) (e_keywords E)" and ok: "signs_ok e"
    and top: "parses E d M e" "L \<le> M" "M \<le> 4" "M \<le> level e \<or> level e < L"
  shows "parses E d L e"
  using top(2,1,3,4)
proof (induction L rule: inc_induct)
  case (step L)
  show ?case
  proof (rule parses_step [OF kw ok])
    show "parses E d (Suc L) e" using step by auto
    show "lexemes (Suc L) e = lexemes L e" using step by (intro lexemes_Suc) auto
    show "L < 4" using step by simp
  qed
qed

lemma parses_levels:
  assumes kw: "kw_ok (e_names E) (e_keywords E)" and ok: "signs_ok e"
    and base: "\<And>d. nested e \<le> d \<Longrightarrow> parses E d (level e) e" and L: "L \<le> 4" "nesting L e \<le> d"
  shows "parses E d L e"
proof (cases "level e < L")
  case False
  then show ?thesis using parses_down [OF kw ok base] level_le L(2) by (auto simp: nesting_def)
next
  case True
  then obtain d' where d: "d = Suc d'" "nested e \<le> d'" using L(2) by (cases d) (auto simp: nesting_def)
  have "parses E d' 0 e" using parses_down [OF kw ok base [OF d(2)]] level_le by auto
  then have "parses E d 4 e" unfolding d(1) using parses_bracket [OF kw _ lexemes_bracket] True L(1) by auto
  then show ?thesis using parses_down [OF kw ok] True L(1) by blast
qed

lemma parses_all:
  assumes kw: "kw_ok (e_names E) (e_keywords E)"
  shows "signs_ok e \<Longrightarrow> \<forall>x\<in>names_of e. plain_name E x \<Longrightarrow> L \<le> 4 \<Longrightarrow> nesting L e \<le> d \<Longrightarrow> parses E d L e"
proof (induction e arbitrary: L d)
  case (Num ds)
  then show ?case using parses_levels [OF kw, of "Num ds" L d] parses_num [OF kw] by simp
next
  case (RealNum ds fs)
  then show ?case using parses_levels [OF kw, of "RealNum ds fs" L d] parses_real [OF kw] by simp
next
  case (HexNum hs)
  then show ?case using parses_levels [OF kw, of "HexNum hs" L d] parses_hex [OF kw] by simp
next
  case (StrConst s)
  then show ?case using parses_levels [OF kw, of "StrConst s" L d] parses_str [OF kw] by simp
next
  case (Var x)
  then show ?case using parses_levels [OF kw, of "Var x" L d] parses_var [OF kw, of x] by simp
next
  case (Signs s e)
  show ?case
  proof (rule parses_levels [OF kw Signs.prems(1) _ Signs.prems(3,4)])
    fix d assume "nested (Signs s e) \<le> d"
    then show "parses E d (level (Signs s e)) (Signs s e)"
      using parses_signs [OF kw Signs.prems(1)] Signs.IH [of 4 d] Signs.prems(1,2) by (simp add: nesting_def)
  qed
next
  case (MulE f a b)
  show ?case
  proof (rule parses_levels [OF kw MulE.prems(1) _ MulE.prems(3,4)])
    fix d assume "nested (MulE f a b) \<le> d"
    then show "parses E d (level (MulE f a b)) (MulE f a b)"
      using parses_mul [OF kw] MulE.IH(1) [of 2 d] MulE.IH(2) [of 3 d] MulE.prems(1,2) by (simp add: nesting_def)
  qed
next
  case (AddE f a b)
  show ?case
  proof (rule parses_levels [OF kw AddE.prems(1) _ AddE.prems(3,4)])
    fix d assume "nested (AddE f a b) \<le> d"
    then show "parses E d (level (AddE f a b)) (AddE f a b)"
      using parses_add [OF kw] AddE.IH(1) [of 1 d] AddE.IH(2) [of 2 d] AddE.prems(1,2) by (simp add: nesting_def)
  qed
next
  case (RelE f a b)
  show ?case
  proof (rule parses_levels [OF kw RelE.prems(1) _ RelE.prems(3,4)])
    fix d assume "nested (RelE f a b) \<le> d"
    then show "parses E d (level (RelE f a b)) (RelE f a b)"
      using parses_rel [OF kw] RelE.IH(1) [of 0 d] RelE.IH(2) [of 1 d] RelE.prems(1,2) by (simp add: nesting_def)
  qed
next
  case (Brk e)
  show ?case
  proof (rule parses_levels [OF kw Brk.prems(1) _ Brk.prems(3,4)])
    fix d assume "nested (Brk e) \<le> d"
    then obtain d' where "d = Suc d'" "nested e \<le> d'" by (cases d) auto
    then show "parses E d (level (Brk e)) (Brk e)"
      using parses_bracket [OF kw, of d' e "Brk e"] Brk.IH [of 0 d'] Brk.prems(1,2)
      by (simp add: nesting_def lexemes_def bracketed_def ext)
  qed
qed

end
