(* ===== verification/BasicProps.thy ===== *)
theory BasicProps
  imports BasicExprSpec
begin

text \<open>
  What the evaluator of BASIC expressions computes: the value of the expression spelled in the program,
  its kind, and integer arithmetic modulo \<open>2 ^ 64\<close>; and where it goes wrong.
\<close>

section \<open>The end of an expression\<close>

text \<open>The token that ends an expression: a delimiter, the end of the program, or a keyword.\<close>

definition end_token :: "'r env \<Rightarrow> byte list \<Rightarrow> token option" where
  "end_token E q =
     (let c = peek q in
      if c = 0 then Some ENDOFINPUT
      else if c \<in> {10, 0x2c, 0x3b, 0x29} then Some (singlechar c)
      else if isalpha c then map_option fst (kw_search (e_names E) (e_keywords E) q)
      else None)"

definition operator_tokens :: "token list" where
  "operator_tokens = [ASTERISK, SLASH, MOD_TOKEN, PLUS, MINUS, LESSTHAN, GREATERTHAN, EQUALS]"

lemma lexes_end:
  assumes "kw_ok (e_names E) (e_keywords E)" "end_token E q = Some t"
  shows "\<exists>np. lexes E q t np"
proof -
  consider "peek q = 0" "t = ENDOFINPUT" | "peek q \<in> {10, 0x2c, 0x3b, 0x29}" "t = singlechar (peek q)"
    | np where "isalpha (peek q)" "kw_search (e_names E) (e_keywords E) q = Some (t, np)"
    using assms(2) by (fastforce simp: end_token_def Let_def split: if_splits)
  then show ?thesis
  proof cases
    case 1
    then have "lexes E q t None" by (simp add: lexes_def get_next_token_def)
    then show ?thesis ..
  next
    case 2
    then obtain c q' where q: "q = c # q'" "c \<in> {10, 0x2c, 0x3b, 0x29}" by (cases q) auto
    then have "lexes E q t (Some q')"
      using 2 lexes_sym [of c E q'] by (auto simp: singlechar_def isdigit_def)
    then show ?thesis ..
  next
    case 3
    then have "keyword_lookup (e_names E) (e_keywords E) q = Some (t, np)"
      using keyword_lookup_search [OF assms(1)] by simp
    then have "lexes E q t (Some np)"
      using isalpha_facts [OF 3(1)] by (simp add: lexes_def get_next_token_def Let_def)
    then show ?thesis ..
  qed
qed

section \<open>Values\<close>

lemma up_relation_value:
  assumes kw: "kw_ok (e_names E) (e_keywords E)" and e: "signs_ok e" "\<forall>x\<in>names_of e. plain_name E x" "nested e \<le> d"
    and sp: "spelled E (lexemes 0 e) p = Some q" and t: "end_token E q = Some t" "t \<notin> set operator_tokens"
    and st: "stands E p m ctx" and v: "eval E e m = Some (v, m')"
  shows "\<exists>ctx'. up_relation_expr E (Suc d) ctx = Some (v, ctx') \<and> stands E q m' ctx' \<and> b_token ctx' = t"
proof -
  obtain np where np: "lexes E q t np" using lexes_end [OF kw t(1)] by blast
  have "parses E d 0 e" using parses_all [OF kw e(1,2)] e(3) by (simp add: nesting_def)
  moreover have "t \<notin> tighter 0" using t(2) by (auto simp: tighter_def operator_tokens_def)
  ultimately obtain ctx' where c: "stands E q m' ctx'" "b_token ctx' = t"
    "parse E 0 (up_relation_expr E d) ctx = loop E 0 (up_relation_expr E d) v ctx'"
    using parsesD [OF _ sp np _ st v] by blast
  then have "up_relation_expr E (Suc d) ctx = Some (v, ctx')"
    using t(2) loop_stop(3) [of ctx' E "up_relation_expr E d" v] by (simp add: level_simps operator_tokens_def)
  then show ?thesis using c by blast
qed

lemma up_value_value:
  assumes kw: "kw_ok (e_names E) (e_keywords E)" and e: "signs_ok e" "\<forall>x\<in>names_of e. plain_name E x" "nesting 1 e \<le> d"
    and sp: "spelled E (lexemes 1 e) p = Some q" and t: "end_token E q = Some t" "t \<notin> set operator_tokens"
    and st: "stands E p m ctx" and v: "eval E e m = Some (v, m')"
  shows "\<exists>ctx'. up_eval_value E d ctx = Some (v, ctx') \<and> stands E q m' ctx' \<and> b_token ctx' = t"
proof -
  obtain np where np: "lexes E q t np" using lexes_end [OF kw t(1)] by blast
  have "parses E d 1 e" using parses_all [OF kw e(1,2) _ e(3)] by simp
  moreover have "t \<notin> tighter 1" using t(2) by (auto simp: tighter_def operator_tokens_def)
  ultimately obtain ctx' where c: "stands E q m' ctx'" "b_token ctx' = t"
    "parse E 1 (up_relation_expr E d) ctx = loop E 1 (up_relation_expr E d) v ctx'"
    using parsesD [OF _ sp np _ st v] by blast
  then have "up_eval_value E d ctx = Some (v, ctx')"
    using t(2) loop_stop(2) [of ctx' E "up_relation_expr E d" v]
    by (simp add: level_simps operator_tokens_def up_eval_value_def)
  then show ?thesis using c by blast
qed

text \<open>C3: on an expression of decimal, real and hexadecimal numbers, string constants, variables, signs, brackets
  and the arithmetic and comparison operators, spelled with blanks at will, the evaluator returns the value of
  its tree: brackets first, then signs, products, sums and comparisons, each from left to right.  It stops at the
  token behind the expression, and changes the state as the operators and constants of the expression do.  A name
  has at most 49 characters and is no function or array, so there are no calls; brackets are nested at most \<open>d\<close>
  deep; a delimiter, a keyword or the end of the program follows the expression, but no name or string is the last
  thing of the program, and no \<^verbatim>\<open>e\<close> stands right behind a real number.  That \<^const>\<open>eval\<close> has a value means that no
  division traps and the strings fit into the string area; errors in the program are part of the value's state.\<close>

theorem up_relation_expr_correct:
  assumes "kw_ok (e_names E) (e_keywords E)" "signs_ok e" "\<forall>x\<in>names_of e. plain_name E x" "nested e \<le> d"
    and "spelled E (lexemes 0 e) p = Some q" "end_token E q = Some t" "t \<notin> set operator_tokens"
    and "stands E p m ctx" "eval E e m = Some (v, m')"
  shows "\<exists>ctx'. up_relation_expr E (Suc d) ctx = Some (v, ctx') \<and> stands E q m' ctx' \<and> b_token ctx' = t"
  by (rule up_relation_value [OF assms])

text \<open>Integer expressions without division, over variables with the values \<open>\<sigma>\<close>.\<close>

primrec int_value :: "(byte list \<Rightarrow> int) \<Rightarrow> exp \<Rightarrow> int option" where
  "int_value \<sigma> (Num ds) = Some (dec ds)"
| "int_value \<sigma> (RealNum ds fs) = None"
| "int_value \<sigma> (HexNum hs) = Some (hex hs)"
| "int_value \<sigma> (StrConst s) = None"
| "int_value \<sigma> (Var x) = Some (\<sigma> x)"
| "int_value \<sigma> (Signs s e) = map_option (\<lambda>i. if flips s False then - i else i) (int_value \<sigma> e)"
| "int_value \<sigma> (MulE f a b) = (case f of Mul \<Rightarrow> do { i \<leftarrow> int_value \<sigma> a; j \<leftarrow> int_value \<sigma> b; Some (i * j) } | _ \<Rightarrow> None)"
| "int_value \<sigma> (AddE f a b) = do { i \<leftarrow> int_value \<sigma> a; j \<leftarrow> int_value \<sigma> b;
     Some (case f of Add \<Rightarrow> i + j | Sub \<Rightarrow> i - j) }"
| "int_value \<sigma> (RelE f a b) = None"
| "int_value \<sigma> (Brk e) = int_value \<sigma> e"

lemma int_ops:
  "term_op E ASTERISK (UP_INT i) (UP_INT j) m = Some (UP_INT (i * j), m)"
  "value_op E PLUS (UP_INT i) (UP_INT j) m = Some (UP_INT (i + j), False, m)"
  "value_op E MINUS (UP_INT i) (UP_INT j) m = Some (UP_INT (i - j), False, m)"
  by (simp_all add: term_op_def value_op_def no_strings_def up_promote_pair_def)

lemma eval_int:
  assumes "\<forall>x\<in>names_of e. var_value E m x = Some (UP_INT (word_of_int (\<sigma> x)))" "int_value \<sigma> e = Some i"
  shows "eval E e m = Some (UP_INT (word_of_int i), m)"
  using assms
proof (induction e arbitrary: i)
  case (Var x)
  then show ?case by (simp add: read_var_def)
next
  case (Signs s e)
  then show ?case by (auto simp: apply_sign_def)
next
  case (MulE f a b)
  then obtain j k where "f = Mul" "int_value \<sigma> a = Some j" "int_value \<sigma> b = Some k" "i = j * k"
    by (cases f) (auto simp: bind_eq_Some_conv)
  then show ?case using MulE by (simp add: int_ops)
next
  case (AddE f a b)
  then obtain j k where "int_value \<sigma> a = Some j" "int_value \<sigma> b = Some k"
    "i = (case f of Add \<Rightarrow> j + k | Sub \<Rightarrow> j - k)"
    by (auto simp: bind_eq_Some_conv)
  then show ?case using AddE by (cases f) (simp_all add: int_ops)
qed auto

text \<open>C9: an integer expression of sums, differences, products and signs returns the integer it denotes, modulo
  \<open>2 ^ 64\<close>, without an error and without a change of the variables.\<close>

theorem expr_integer_arithmetic:
  assumes "kw_ok (e_names E) (e_keywords E)" "signs_ok e" "\<forall>x\<in>names_of e. plain_name E x" "nesting 1 e \<le> d"
    and "spelled E (lexemes 1 e) p = Some q" "end_token E q = Some t" "t \<notin> set operator_tokens"
    and "stands E p m ctx"
    and "\<forall>x\<in>names_of e. var_value E m x = Some (UP_INT (word_of_int (\<sigma> x)))" "int_value \<sigma> e = Some i"
  shows "\<exists>ctx'. expr E d ctx = Some (word_of_int i, ctx') \<and> stands E q m ctx' \<and> b_token ctx' = t"
proof -
  obtain ctx' where "up_eval_value E d ctx = Some (UP_INT (word_of_int i), ctx')" "stands E q m ctx'" "b_token ctx' = t"
    using up_value_value [OF assms(1-8) eval_int [OF assms(9,10)]] by blast
  then show ?thesis by (simp add: expr_def up_int_expr_strict_def)
qed

section \<open>Kinds\<close>

datatype kind = KInt | KReal | KStr

fun value_kind :: "'r up_value \<Rightarrow> kind" where
  "value_kind (UP_INT i) = KInt"
| "value_kind (UP_REAL r) = KReal"
| "value_kind (UP_STR s l) = KStr"

definition join_kind :: "kind \<Rightarrow> kind \<Rightarrow> kind" where
  "join_kind a b = (if a = KReal \<or> b = KReal then KReal else KInt)"

text \<open>The kind of an expression, from the suffixes of its names; \<open>None\<close> where a string meets a number.\<close>

primrec kind_of :: "exp \<Rightarrow> kind option" where
  "kind_of (Num ds) = Some KInt"
| "kind_of (RealNum ds fs) = Some KReal"
| "kind_of (HexNum hs) = Some KInt"
| "kind_of (StrConst s) = Some KStr"
| "kind_of (Var x) = Some (if last x = 0x24 then KStr else if last x = 0x23 then KReal else KInt)"
| "kind_of (Signs s e) = do { k \<leftarrow> kind_of e; if k = KStr then None else Some k }"
| "kind_of (MulE f a b) = do { k \<leftarrow> kind_of a; l \<leftarrow> kind_of b;
     if k = KStr \<or> l = KStr then None else Some (if f = Mod then KInt else join_kind k l) }"
| "kind_of (AddE f a b) = do { k \<leftarrow> kind_of a; l \<leftarrow> kind_of b;
     if k = KStr \<and> l = KStr \<and> f = Add then Some KStr
     else if k = KStr \<or> l = KStr then None else Some (join_kind k l) }"
| "kind_of (RelE f a b) = do { k \<leftarrow> kind_of a; l \<leftarrow> kind_of b;
     if (k = KStr) \<noteq> (l = KStr) then None else Some KInt }"
| "kind_of (Brk e) = kind_of e"

text \<open>The errors an expression can report: a division by zero, if it divides, and its missing variables.  The
  first error ends the program, and later ones are not printed.\<close>

definition missing_message :: "byte list \<Rightarrow> byte list" where
  "missing_message x =
     (if last x = 0x24 then quoted ''No such string variable '' x
      else if last x = 0x23 then quoted ''No such real variable '' x
      else quoted ''No such integer variable '' x)"

primrec divides :: "exp \<Rightarrow> bool" where
  "divides (Num ds) = False"
| "divides (RealNum ds fs) = False"
| "divides (HexNum hs) = False"
| "divides (StrConst s) = False"
| "divides (Var x) = False"
| "divides (Signs s e) = divides e"
| "divides (MulE f a b) = (f \<noteq> Mul \<or> divides a \<or> divides b)"
| "divides (AddE f a b) = (divides a \<or> divides b)"
| "divides (RelE f a b) = (divides a \<or> divides b)"
| "divides (Brk e) = divides e"

definition errors_of :: "'r env \<Rightarrow> 'r machine \<Rightarrow> exp \<Rightarrow> byte list set" where
  "errors_of E m e = (if divides e then {bs ''Division by zero''} else {})
     \<union> missing_message ` {x \<in> names_of e. var_value E m x = None}"

definition only_errors :: "byte list set \<Rightarrow> 'r machine \<Rightarrow> 'r machine \<Rightarrow> bool" where
  "only_errors X m m' = (m_log m' = m_log m \<and> m_ended m' = m_ended m
     \<or> m_ended m' \<and> (m_ended m \<and> m_log m' = m_log m \<or> \<not> m_ended m \<and> (\<exists>e\<in>X. m_log m' = m_log m @ [e])))"

text \<open>Evaluation defines no variable but the error variables and removes none.\<close>

definition keeps_vars :: "'r env \<Rightarrow> 'r machine \<Rightarrow> 'r machine \<Rightarrow> bool" where
  "keeps_vars E m m' = (\<forall>x. var_value E m' x = None \<longrightarrow> var_value E m x = None)"

definition runs :: "'r env \<Rightarrow> byte list set \<Rightarrow> 'r machine \<Rightarrow> 'r machine \<Rightarrow> bool" where
  "runs E X m m' = (only_errors X m m' \<and> keeps_vars E m m')"

lemma runs_refl [simp]: "runs E X m m"
  by (simp add: runs_def only_errors_def keeps_vars_def)

lemma var_value_None: "var_value E m x = None \<longleftrightarrow>
    (if last x = 0x24 then find_var l_str (m_frames m) (m_str m) x = None
     else find_var l_real (m_frames m) (m_real m) x = None
       \<and> (last x = 0x23 \<or> find_var l_int (m_frames m) (m_int m) x = None))"
  by (auto simp: var_value_def Let_def split: option.splits)

lemma machine_error_fields [simp]:
  "m_frames (machine_error m e) = m_frames m" "m_real (machine_error m e) = m_real m"
  "m_str (machine_error m e) = (m_str m)(bs ''ERR$'' \<mapsto> (e, length e))"
  "m_int (machine_error m e) = (m_int m)(bs ''ERR'' \<mapsto> 1, bs ''ERRLINE'' \<mapsto> m_line m)"
  "m_ended (machine_error m e)"
  "m_log (machine_error m e) = (if m_ended m then m_log m else m_log m @ [e])"
  by (simp_all add: machine_error_def Let_def)

lemma find_var_upd: "find_var sel frs (g(k \<mapsto> v)) x = None \<Longrightarrow> find_var sel frs g x = None"
  by (auto simp: find_var_def split: option.splits if_splits)

lemma keeps_vars_error: "keeps_vars E m (machine_error m e)"
  unfolding keeps_vars_def var_value_None machine_error_fields
  by (auto dest!: find_var_upd split: if_splits)

lemma runs_area [simp]: "runs E X m (m\<lparr>m_area := a\<rparr>)"
  by (simp add: runs_def only_errors_def keeps_vars_def var_value_None)

lemma only_errors_mono: "only_errors X m m' \<Longrightarrow> X \<subseteq> Y \<Longrightarrow> only_errors Y m m'"
  by (auto simp: only_errors_def)

lemma runs_trans: "runs E X m m1 \<Longrightarrow> runs E Y m1 m2 \<Longrightarrow> X \<subseteq> Z \<Longrightarrow> Y \<subseteq> Z \<Longrightarrow> runs E Z m m2"
  by (auto simp: runs_def only_errors_def keeps_vars_def)

lemma runs_error: "e \<in> X \<or> m_ended m \<Longrightarrow> runs E X m (machine_error m e)"
  using keeps_vars_error [of E m e] by (auto simp: runs_def only_errors_def)

lemma errors_of_keeps: "keeps_vars E m m' \<Longrightarrow> errors_of E m' e \<subseteq> errors_of E m e"
  by (auto simp: errors_of_def keeps_vars_def)

lemma read_int_runs:
  assumes "read_int m x = (i, m')" "quoted ''No such integer variable '' x \<in> X \<or> m_ended m"
  shows "runs E X m m'"
  using assms runs_error [OF assms(2)] by (auto simp: read_int_def split: option.splits)

lemma read_var_kind:
  assumes "read_var E m x = (v, m')"
  shows "value_kind v = (if last x = 0x24 then KStr else if last x = 0x23 then KReal else KInt)
    \<and> runs E (errors_of E m (Var x)) m m'"
proof (cases "var_value E m x")
  case (Some w)
  then have "v = w" "m' = m" using assms by (simp_all add: read_var_def)
  then show ?thesis using Some by (auto simp: var_value_def Let_def split: if_splits option.splits)
next
  case None
  let ?X = "errors_of E m (Var x)"
  have e: "missing_message x \<in> ?X" using None by (simp add: errors_of_def)
  show ?thesis
  proof (cases "last x = 0x24")
    case True
    then show ?thesis using assms None e by (auto simp: read_var_def missing_message_def intro: runs_error)
  next
    case str: False
    show ?thesis
    proof (cases "last x = 0x23")
      case True
      let ?m = "machine_error m (quoted ''No such real variable '' x)"
      obtain i where i: "read_int ?m x = (i, m')" "v = UP_REAL (fp_of_int (e_fp E) i)"
        using assms None True str by (auto simp: read_var_def split: prod.splits)
      have "m_ended ?m" by (simp add: machine_error_def Let_def)
      then have "runs E ?X ?m m'" using read_int_runs [OF i(1)] by blast
      moreover have "runs E ?X m ?m" using e True str by (auto simp: missing_message_def intro: runs_error)
      ultimately show ?thesis using i(2) True str runs_trans by fastforce
    next
      case False
      obtain i where i: "read_int m x = (i, m')" "v = UP_INT i"
        using assms None False str by (auto simp: read_var_def split: prod.splits)
      have "quoted ''No such integer variable '' x \<in> ?X" using e False str by (simp add: missing_message_def)
      then show ?thesis using read_int_runs [OF i(1)] i(2) False str by simp
    qed
  qed
qed

lemma term_op_kind:
  assumes "term_op E (mul_tok f) a b m = Some (v, m')" "value_kind a \<noteq> KStr" "value_kind b \<noteq> KStr"
  shows "value_kind v = (if f = Mod then KInt else join_kind (value_kind a) (value_kind b))
    \<and> runs E (if f = Mul then {} else {bs ''Division by zero''}) m m'"
  using assms runs_error [of "bs ''Division by zero''" "{bs ''Division by zero''}" m E]
  by (cases a; cases b; cases f)
    (auto simp: term_op_def no_strings_def up_promote_pair_def join_kind_def Let_def bind_eq_Some_conv split: if_splits)

lemma value_op_kind:
  assumes "value_op E (add_tok f) a b m = Some (v, False, m')"
    and "value_kind a = KStr \<and> value_kind b = KStr \<and> f = Add \<or> value_kind a \<noteq> KStr \<and> value_kind b \<noteq> KStr"
  shows "value_kind v = (if value_kind a = KStr then KStr else join_kind (value_kind a) (value_kind b)) \<and> runs E X m m'"
  using assms
  by (cases a; cases b; cases f)
    (auto simp: value_op_def no_strings_def up_promote_pair_def join_kind_def concat_op_def Let_def
      bind_eq_Some_conv split: if_splits option.splits)

text \<open>Two operands one after the other.\<close>

lemma runs_both:
  assumes "runs E (errors_of E m a) m m1" "runs E (errors_of E m1 b) m1 m2"
    and "errors_of E m a \<subseteq> X" "errors_of E m b \<subseteq> X"
  shows "runs E X m m2"
proof -
  have "errors_of E m1 b \<subseteq> X" using errors_of_keeps [of E m m1 b] assms(1,4) by (auto simp: runs_def)
  then show ?thesis using runs_trans [OF assms(1,2,3)] by blast
qed

lemma errors_of_parts:
  "errors_of E m a \<subseteq> errors_of E m (MulE f a b)" "errors_of E m b \<subseteq> errors_of E m (MulE f a b)"
  "errors_of E m a \<subseteq> errors_of E m (AddE g a b)" "errors_of E m b \<subseteq> errors_of E m (AddE g a b)"
  "errors_of E m a \<subseteq> errors_of E m (RelE h a b)" "errors_of E m b \<subseteq> errors_of E m (RelE h a b)"
  by (auto simp: errors_of_def)

lemma eval_kind:
  assumes "eval E e m = Some (v, m')" "kind_of e = Some k"
  shows "value_kind v = k \<and> runs E (errors_of E m e) m m'"
  using assms
proof (induction e arbitrary: m v m' k)
  case (Var x)
  then show ?case using read_var_kind [of E m x v m'] by auto
next
  case (Signs s e)
  then obtain w m1 where e: "eval E e m = Some (w, m1)" "apply_sign E (flips s False) w m1 = (v, m')"
    by (auto simp: bind_eq_Some_conv)
  have k: "kind_of e = Some k" "k \<noteq> KStr" using Signs.prems(2) by (auto simp: bind_eq_Some_conv split: if_splits)
  have "errors_of E m (Signs s e) = errors_of E m e" by (simp add: errors_of_def)
  then show ?case using Signs.IH [OF e(1) k(1)] e(2) k(2) by (cases w) (auto simp: apply_sign_def)
next
  case (MulE f a b)
  then obtain va m1 vb m2 where e: "eval E a m = Some (va, m1)" "eval E b m1 = Some (vb, m2)"
    "term_op E (mul_tok f) va vb m2 = Some (v, m')" by (auto simp: bind_eq_Some_conv)
  obtain ka kb where k: "kind_of a = Some ka" "kind_of b = Some kb" "ka \<noteq> KStr" "kb \<noteq> KStr"
    "k = (if f = Mod then KInt else join_kind ka kb)"
    using MulE.prems(2) by (auto simp: bind_eq_Some_conv split: if_splits)
  note a = MulE.IH(1) [OF e(1) k(1)] and b = MulE.IH(2) [OF e(2) k(2)]
  have r: "runs E (errors_of E m (MulE f a b)) m m2"
    by (rule runs_both [OF conjunct2 [OF a] conjunct2 [OF b] errors_of_parts(1,2)])
  have "value_kind va \<noteq> KStr" "value_kind vb \<noteq> KStr" using a b k(3,4) by simp_all
  note op = term_op_kind [OF e(3) this]
  have "(if f = Mul then {} else {bs ''Division by zero''}) \<subseteq> errors_of E m (MulE f a b)" by (simp add: errors_of_def)
  then have "runs E (errors_of E m (MulE f a b)) m m'" using runs_trans [OF r] op by blast
  then show ?case using op a b k(5) by simp
next
  case (AddE f a b)
  then obtain va m1 vb m2 where e: "eval E a m = Some (va, m1)" "eval E b m1 = Some (vb, m2)"
    "value_op E (add_tok f) va vb m2 = Some (v, False, m')" by (auto simp: bind_eq_Some_conv split: if_splits)
  obtain ka kb where k: "kind_of a = Some ka" "kind_of b = Some kb"
    "ka = KStr \<and> kb = KStr \<and> f = Add \<or> ka \<noteq> KStr \<and> kb \<noteq> KStr" "k = (if ka = KStr then KStr else join_kind ka kb)"
    using AddE.prems(2) by (auto simp: bind_eq_Some_conv split: if_splits)
  note a = AddE.IH(1) [OF e(1) k(1)] and b = AddE.IH(2) [OF e(2) k(2)]
  have r: "runs E (errors_of E m (AddE f a b)) m m2" 
    by (rule runs_both [OF conjunct2 [OF a] conjunct2 [OF b] errors_of_parts(3,4)])
  have "value_kind va = KStr \<and> value_kind vb = KStr \<and> f = Add \<or> value_kind va \<noteq> KStr \<and> value_kind vb \<noteq> KStr"
    using a b k(3) by simp
  note op = value_op_kind [OF e(3) this, of "errors_of E m (AddE f a b)"]
  have "runs E (errors_of E m (AddE f a b)) m m'" using runs_trans [OF r] op by blast
  then show ?case using op a b k(4) by simp
next
  case (RelE f a b)
  then obtain va m1 vb m2 where e: "eval E a m = Some (va, m1)" "eval E b m1 = Some (vb, m2)"
    "rel_op E (fst (rel_toks f)) (snd (rel_toks f)) va vb m2 = (v, m')" by (auto simp: bind_eq_Some_conv)
  obtain ka kb where k: "kind_of a = Some ka" "kind_of b = Some kb" "(ka = KStr) = (kb = KStr)" "k = KInt"
    using RelE.prems(2) by (auto simp: bind_eq_Some_conv split: if_splits)
  note a = RelE.IH(1) [OF e(1) k(1)] and b = RelE.IH(2) [OF e(2) k(2)]
  have r: "runs E (errors_of E m (RelE f a b)) m m2" 
    by (rule runs_both [OF conjunct2 [OF a] conjunct2 [OF b] errors_of_parts(5,6)])
  have "is_str va = is_str vb" using a b k(3) by (cases va; cases vb) auto
  then show ?case using e(3) r k(4) by (auto simp: rel_op_def split: prod.splits)
next
  case (Brk e)
  have "errors_of E m (Brk e) = errors_of E m e" by (simp add: errors_of_def)
  then show ?case using Brk by simp
qed (auto split: if_splits)

lemma comparison_bit:
  assumes "eval E (RelE f a b) m = Some (v, m')"
  shows "v \<in> {UP_INT 0, UP_INT 1}"
  using assms by (auto simp: bind_eq_Some_conv rel_op_def split: if_splits prod.splits)

text \<open>C10: the kind of the value is the one the suffixes of the names and the forms of the constants give the
  expression: \<^verbatim>\<open>$\<close> is a string, \<^verbatim>\<open>#\<close> a real, a real operand makes sums and products real, the remainder is an
  integer, also of reals, and a comparison is 0 or 1.  Where no string meets a number, no division traps and the
  strings fit into the string area, at most one message is printed, and it is a division by zero, of an expression
  that divides, or the report of a variable of the expression that does not exist; the program is ended then, and
  goes on otherwise.\<close>

theorem up_relation_expr_kinds:
  assumes "kw_ok (e_names E) (e_keywords E)" "signs_ok e" "\<forall>x\<in>names_of e. plain_name E x" "nested e \<le> d"
    and "spelled E (lexemes 0 e) p = Some q" "end_token E q = Some t" "t \<notin> set operator_tokens"
    and "stands E p m ctx" "eval E e m = Some (v, m')" and "kind_of e = Some k"
  shows "\<exists>ctx'. up_relation_expr E (Suc d) ctx = Some (v, ctx') \<and> value_kind v = k
    \<and> (level e = 0 \<longrightarrow> v \<in> {UP_INT 0, UP_INT 1}) \<and> only_errors (errors_of E m e) m (b_m ctx')"
proof -
  obtain ctx' where c: "up_relation_expr E (Suc d) ctx = Some (v, ctx')" "stands E q m' ctx'"
    using up_relation_value [OF assms(1-9)] by blast
  have "v \<in> {UP_INT 0, UP_INT 1}" if "level e = 0"
    using that assms(9) comparison_bit [of E _ _ _ m v m'] by (cases e) (simp_all del: eval.simps)
  then show ?thesis using c eval_kind [OF assms(9,10)] by (auto simp: stands_def runs_def)
qed

section \<open>Division\<close>

lemma sint_bounds: "- (2 ^ 63) \<le> sint (x :: 64 word) \<and> sint x < 2 ^ 63"
  using sint_greater_eq [of x] sint_less [of x] by simp

lemma sint_of_int: "- (2 ^ 63) \<le> x \<Longrightarrow> x < 2 ^ 63 \<Longrightarrow> sint (word_of_int x :: 64 word) = x"
  by (simp add: sint_sbintrunc' signed_take_bit_int_eq_self)

lemma quotient_fits:
  fixes a b :: int
  assumes "- (2 ^ 63) \<le> a" "a < 2 ^ 63" "b \<noteq> 0" "\<not> (a = - (2 ^ 63) \<and> b = -1)"
  shows "- (2 ^ 63) \<le> a sdiv b \<and> a sdiv b < 2 ^ 63"
proof -
  have range: "\<bar>a sdiv b\<bar> \<le> \<bar>a\<bar>" using sdiv_int_range [of a b] by auto
  show ?thesis
  proof (cases "a = - (2 ^ 63)")
    case False
    then show ?thesis using assms(1,2) range by linarith
  next
    case neg: True
    show ?thesis
    proof (cases "\<bar>b\<bar> = 1")
      case True
      then have "b = 1" using assms(4) neg by linarith
      then show ?thesis by (simp add: neg)
    next
      case False
      then have "\<bar>b\<bar> \<ge> 2" using assms(3) by linarith
      then have "\<bar>a\<bar> div \<bar>b\<bar> \<le> \<bar>a\<bar> div 2" by (intro zdiv_mono2) auto
      moreover have "\<bar>a sdiv b\<bar> = \<bar>a\<bar> div \<bar>b\<bar> \<or> a sdiv b = 0"
        by (auto simp: signed_divide_int_def abs_mult sgn_if pos_imp_zdiv_nonneg_iff)
      ultimately show ?thesis using neg by auto
    qed
  qed
qed

text \<open>C36: a quotient is cut off towards zero and a remainder has the sign of the dividend, as long as the
  quotient fits into 64 bits.  Both operands are integers; what becomes of the quotient makes no difference, so it
  is also cut off where it is stored in a real variable (not as \<^verbatim>\<open>Integer.md\<close> of the language reference has it).\<close>

theorem division_truncates:
  assumes "j \<noteq> 0" "\<not> (sint i = - (2 ^ 63) \<and> sint j = -1)"
  shows "\<exists>q r. term_op E SLASH (UP_INT i) (UP_INT j) m = Some (UP_INT q, m)
    \<and> term_op E MOD_TOKEN (UP_INT i) (UP_INT j) m = Some (UP_INT r, m)
    \<and> sint i = sint q * sint j + sint r \<and> \<bar>sint r\<bar> < \<bar>sint j\<bar> \<and> (sint r = 0 \<or> sgn (sint r) = sgn (sint i))"
proof -
  let ?a = "sint i" and ?b = "sint j"
  have b: "?b \<noteq> 0" using assms(1) by (simp add: signed_eq_0_iff)
  have q: "- (2 ^ 63) \<le> ?a sdiv ?b \<and> ?a sdiv ?b < 2 ^ 63"
    using quotient_fits [OF _ _ b assms(2)] sint_bounds by blast
  have "0 \<le> \<bar>?a\<bar> mod \<bar>?b\<bar>" using b by simp
  then have sign: "?a smod ?b = 0 \<or> sgn (?a smod ?b) = sgn ?a"
    by (cases "\<bar>?a\<bar> mod \<bar>?b\<bar> = 0") (simp_all add: signed_modulo_int_def sgn_mult)
  have rem: "\<bar>?a smod ?b\<bar> < \<bar>?b\<bar>" using smod_int_range [OF b, of ?a] by auto
  then have r: "- (2 ^ 63) \<le> ?a smod ?b \<and> ?a smod ?b < 2 ^ 63" using sint_bounds [of j] by linarith
  have "term_op E SLASH (UP_INT i) (UP_INT j) m = Some (UP_INT (word_of_int (?a sdiv ?b)), m)"
    "term_op E MOD_TOKEN (UP_INT i) (UP_INT j) m = Some (UP_INT (word_of_int (?a smod ?b)), m)"
    using assms by (auto simp: term_op_def no_strings_def up_promote_pair_def int_div_def int_mod_def)
  moreover have "?a = ?a sdiv ?b * ?b + ?a smod ?b" by (simp add: sdiv_mult_smod_eq)
  ultimately show ?thesis using q r rem sign sint_of_int by metis
qed

text \<open>The most negative integer divided by -1 makes the division instruction trap; so does the remainder,
  which would fit.\<close>

theorem division_traps:
  "term_op E SLASH (UP_INT (2 ^ 63)) (UP_INT (- 1)) m = None
   \<and> term_op E MOD_TOKEN (UP_INT (2 ^ 63)) (UP_INT (- 1)) m = None"
  by (simp add: term_op_def no_strings_def up_promote_pair_def int_div_def int_mod_def)

section \<open>Names and strings at their limits\<close>

text \<open>C38: the tokenizer accepts a name of 50 to 60 characters without an error, but reading such a name writes
  its terminator outside the buffer.\<close>

theorem long_name_overflows:
  assumes "kw_ok (e_names E) (e_keywords E)" "kw_search (e_names E) (e_keywords E) (x @ q) = None"
    and "list_all (\<lambda>c. isalnum c \<or> c = 0x5f) x" "isalpha (peek x)" "50 \<le> length x" "length x \<le> 60"
    and "follow_ok (LVar x) q" "b_ptr ctx = x @ q"
  shows "get_next_token E ctx = (VARIABLE, ctx\<lparr>b_nextptr := Some q\<rparr>) \<and> tokenizer_variable_name ctx = None"
proof -
  obtain c y where x: "x = c # y" "isalpha c" using assms(4,5) by (cases x) auto
  have "lexes E (x @ q) VARIABLE (Some q)"
  proof (rule lexes_name [OF assms(1,2) _ _ _ assms(6) _ assms(7)])
    have "\<forall>c\<in>set x. name_char 1 c \<and> c \<noteq> 0x28" using assms(3) name_charI by (auto simp: list_all_iff)
    then show "list_all (name_char 1) x" "0x28 \<notin> set x" by (auto simp: list_all_iff)
  qed (use x in simp_all)
  then have "get_next_token E ctx = (VARIABLE, ctx\<lparr>b_nextptr := Some q\<rparr>)"
    using lexesD [OF _ _ assms(8)] x isalpha_facts(5) [OF x(2)] by simp
  moreover have "\<exists>y' p. var_name_loop [c] (y @ q) = (y', p, True) \<and> length y' = MAX_VARNAME"
    using assms(3,5) x(1) by (intro var_name_loop_long) (auto simp: MAX_VARNAME_def)
  then have "tokenizer_variable_name ctx = None"
    using x isalpha_facts(3) [OF x(2)] assms(8)
    by (auto simp: tokenizer_variable_name_def var_name_loop.simps [of "[]"] MAX_VARNAME_def)
  ultimately show ?thesis ..
qed

text \<open>A string constant that is not closed before the end of the program is reported, but the tokenizer
  places the next token behind the terminator, and moving on reads there.\<close>

theorem unterminated_string_overruns:
  assumes "b_ptr ctx = 0x22 # s" "list_all (\<lambda>c. c \<noteq> 0x22 \<and> c \<noteq> 13 \<and> c \<noteq> 0) s"
  shows "b_token (read_token E ctx) = STRING \<and> b_nextptr (read_token E ctx) = None
    \<and> m_str (b_m (read_token E ctx)) (bs ''ERR$'') = Some (bs ''Unterminated string constant'', 28)
    \<and> tokenizer_next E (read_token E ctx) = None"
proof -
  have "scan_string s = (None, True)" using assms(2) by (induction s) simp_all
  then have r: "read_token E ctx = tokenizer_error_print (ctx\<lparr>b_nextptr := None\<rparr>) ''Unterminated string constant''\<lparr>b_token := STRING\<rparr>"
    using assms(1) by (simp add: read_token_def get_next_token_def isdigit_def singlechar_def)
  show ?thesis unfolding r using assms(1)
    by (simp add: tokenizer_error_print_def machine_error_def tokenizer_next_def tokenizer_finished_def Let_def bs_def)
qed

end
