(* ===== verification/BasicCond.thy ===== *)
theory BasicCond
  imports BasicProps
begin

text \<open>
  Conditions (\<^verbatim>\<open>up_conditional\<close> and \<^verbatim>\<open>parse_bool_term\<close> of \<^verbatim>\<open>src/basic/unified_expression.c\<close>): comparisons and
  bracketed conditions with \<^verbatim>\<open>NOT\<close> in front, joined by \<^verbatim>\<open>AND\<close> and \<^verbatim>\<open>OR\<close>, which bind equally and from left to
  right.
\<close>

section \<open>Conditions\<close>

datatype connective = And | Or

text \<open>A term is a number of \<^verbatim>\<open>NOT\<close>s and an expression or a condition in brackets.\<close>

datatype bool_term = Cmp nat exp | Group nat condition
and condition = Cond bool_term cond_rest
and cond_rest = Done | More connective bool_term cond_rest

fun conn_tok :: "connective \<Rightarrow> token" where
  "conn_tok And = AND_TOKEN" | "conn_tok Or = OR_TOKEN"

definition key :: "'r env \<Rightarrow> token \<Rightarrow> lexeme" where
  "key E t = LKey t (e_names E t)"

definition nots :: "'r env \<Rightarrow> nat \<Rightarrow> lexeme list" where
  "nots E n = replicate n (key E NOT_TOKEN)"

primrec term_lexemes :: "'r env \<Rightarrow> bool_term \<Rightarrow> lexeme list"
and cond_lexemes :: "'r env \<Rightarrow> condition \<Rightarrow> lexeme list"
and rest_lexemes :: "'r env \<Rightarrow> cond_rest \<Rightarrow> lexeme list" where
  "term_lexemes E (Cmp n e) = nots E n @ lexemes 0 e"
| "term_lexemes E (Group n c) = nots E n @ LSym 0x28 # cond_lexemes E c @ [LSym 0x29]"
| "cond_lexemes E (Cond b cs) = term_lexemes E b @ rest_lexemes E cs"
| "rest_lexemes E Done = []"
| "rest_lexemes E (More k b cs) = key E (conn_tok k) # term_lexemes E b @ rest_lexemes E cs"

fun connect :: "connective \<Rightarrow> 64 word \<Rightarrow> 64 word \<Rightarrow> 64 word" where
  "connect And x y = (if x \<noteq> 0 \<and> y \<noteq> 0 then 1 else 0)"
| "connect Or x y = (if x \<noteq> 0 \<or> y \<noteq> 0 then 1 else 0)"

definition negated :: "nat \<Rightarrow> 64 word \<Rightarrow> 64 word" where
  "negated n x = (if odd n then (if x = 0 then 1 else 0) else x)"

primrec eval_term :: "'r env \<Rightarrow> bool_term \<Rightarrow> 'r machine \<Rightarrow> (64 word \<times> 'r machine) option"
and eval_cond :: "'r env \<Rightarrow> condition \<Rightarrow> 'r machine \<Rightarrow> (bool \<times> 'r machine) option"
and eval_rest :: "'r env \<Rightarrow> cond_rest \<Rightarrow> 64 word \<Rightarrow> 'r machine \<Rightarrow> (bool \<times> 'r machine) option" where
  "eval_term E (Cmp n e) = (\<lambda>m. do { (v, m) \<leftarrow> eval E e m; Some (negated n (truth_value E v), m) })"
| "eval_term E (Group n c) = (\<lambda>m. do { (r, m) \<leftarrow> eval_cond E c m; Some (negated n (if r then 1 else 0), m) })"
| "eval_cond E (Cond b cs) = (\<lambda>m. do { (x, m) \<leftarrow> eval_term E b m; eval_rest E cs x m })"
| "eval_rest E Done = (\<lambda>acc m. Some (acc \<noteq> 0, m))"
| "eval_rest E (More k b cs) = (\<lambda>acc m. do { (x, m) \<leftarrow> eval_term E b m; eval_rest E cs (connect k acc x) m })"

text \<open>Conditions within brackets nested at most \<open>d\<close> deep.  The code takes a bracket for that of a condition only if
  another bracket follows, so a condition in brackets begins with one.\<close>

primrec term_shape :: "'r env \<Rightarrow> nat \<Rightarrow> bool_term \<Rightarrow> bool"
and cond_shape :: "'r env \<Rightarrow> nat \<Rightarrow> condition \<Rightarrow> bool"
and rest_shape :: "'r env \<Rightarrow> nat \<Rightarrow> cond_rest \<Rightarrow> bool" where
  "term_shape E d (Cmp n e) = (signs_ok e \<and> (\<forall>x\<in>names_of e. plain_name E x) \<and> nested e \<le> d)"
| "term_shape E d (Group n c) = (0 < d \<and> hd (cond_lexemes E c) = LSym 0x28 \<and> cond_shape E (d - 1) c)"
| "cond_shape E d (Cond b cs) = (term_shape E d b \<and> rest_shape E d cs)"
| "rest_shape E d Done = True"
| "rest_shape E d (More k b cs) = (term_shape E d b \<and> rest_shape E d cs)"

text \<open>No comparison begins with two brackets: the code would take the outer one for that of a condition.\<close>

primrec term_single :: "bool_term \<Rightarrow> bool"
and single_brackets :: "condition \<Rightarrow> bool"
and rest_single :: "cond_rest \<Rightarrow> bool" where
  "term_single (Cmp n e) = (take 2 (lexemes 0 e) \<noteq> [LSym 0x28, LSym 0x28])"
| "term_single (Group n c) = single_brackets c"
| "single_brackets (Cond b cs) = (term_single b \<and> rest_single cs)"
| "rest_single Done = True"
| "rest_single (More k b cs) = (term_single b \<and> rest_single cs)"

definition condition_ok :: "'r env \<Rightarrow> nat \<Rightarrow> condition \<Rightarrow> bool" where
  "condition_ok E d c = (cond_shape E d c \<and> single_brackets c)"

section \<open>Terms\<close>

lemma not_loop_stop: "b_token ctx \<noteq> NOT_TOKEN \<Longrightarrow> not_loop E neg ctx = Some (neg, ctx)"
  by (subst not_loop.simps) simp

lemma not_loop_nots:
  assumes kw: "kw_ok (e_names E) (e_keywords E)" and end_tok: "lexes E r t np"
    and no_not: "\<And>q ctx. spelled E ls q = Some r \<Longrightarrow> stands E q m ctx \<Longrightarrow> b_token ctx \<noteq> NOT_TOKEN"
  shows "spelled E (replicate n (key E NOT_TOKEN) @ ls) p = Some r \<Longrightarrow> stands E p m ctx \<Longrightarrow>
    \<exists>q ctx'. not_loop E neg ctx = Some (neg \<noteq> odd n, ctx') \<and> spelled E ls q = Some r \<and> stands E q m ctx'"
proof (induction n arbitrary: p ctx neg)
  case 0
  then have "spelled E ls p = Some r" by simp
  moreover have "not_loop E neg ctx = Some (neg, ctx)" using no_not [OF calculation 0(2)] by (rule not_loop_stop)
  ultimately show ?case using 0 by auto
next
  case (Suc n)
  have sp: "spelled E (key E NOT_TOKEN # replicate n (key E NOT_TOKEN) @ ls) p = Some r" using Suc.prems(1) by simp
  obtain ctx1 p1 where c: "tokenizer_next E ctx = Some ctx1" "b_token ctx = ltok (key E NOT_TOKEN)"
    "spelled E (replicate n (key E NOT_TOKEN) @ ls) p1 = Some r" "stands E p1 m ctx1"
    using consume [OF kw sp end_tok Suc.prems(2)] by blast
  have "not_loop E neg ctx = not_loop E (\<not> neg) ctx1"
    using c(1,2) by (subst not_loop.simps) (simp add: key_def)
  then show ?case using Suc.IH [OF c(3,4), of "\<not> neg"] by auto
qed

text \<open>The lexemes of an expression: an opening bracket is not the last.\<close>

lemma sym_toks: "singlechar 0x28 = OPENBRACKET" "singlechar 0x29 = CLOSEBRACKET" "singlechar 0x2b = PLUS"
  "singlechar 0x2d = MINUS" "singlechar 0x3c = LESSTHAN" "singlechar 0x3e = GREATERTHAN" "singlechar 0x3d = EQUALS"
  by (simp_all add: singlechar_def)

lemma bracket_lexemes:
  "signs_ok e \<Longrightarrow> bare e \<noteq> [] \<and> last (bare e) \<noteq> LSym 0x28 \<and> (\<forall>l\<in>set (bare e). ltok l = OPENBRACKET \<longrightarrow> l = LSym 0x28)"
proof (induction e)
  case (Signs s e)
  then show ?case by (auto simp: bracketed_def sym_toks split: if_splits)
next
  case (MulE f a b)
  then show ?case by (cases f) (auto simp: bracketed_def singlechar_def)
next
  case (AddE f a b)
  then show ?case by (cases f) (auto simp: bracketed_def sym_toks)
next
  case (RelE f a b)
  then show ?case by (cases f) (auto simp: bracketed_def sym_toks)
qed (auto simp: sym_toks)

lemma second_lexeme:
  assumes "signs_ok e" "lexemes 0 e = l # ls" "ltok l = OPENBRACKET" "take 2 (lexemes 0 e) \<noteq> [LSym 0x28, LSym 0x28]"
  obtains l2 ls2 where "ls = l2 # ls2" "ltok l2 \<noteq> OPENBRACKET"
proof -
  have e: "lexemes 0 e = bare e" by (simp add: lexemes_def bracketed_def)
  note b = bracket_lexemes [OF assms(1)]
  have "l \<in> set (bare e)" using assms(2) by (simp flip: e)
  then have l: "l = LSym 0x28" using b assms(3) by blast
  have "ls \<noteq> []" using b assms(2) l by (auto simp flip: e)
  then obtain l2 ls2 where ls: "ls = l2 # ls2" by (cases ls) auto
  have "l2 \<noteq> LSym 0x28" using assms(4) unfolding assms(2) l ls by simp
  moreover have "l2 \<in> set (bare e)" using assms(2) ls by (simp flip: e)
  ultimately have "ltok l2 \<noteq> OPENBRACKET" using b by blast
  then show ?thesis using that ls by blast
qed

text \<open>The value of a comparison where the evaluator looks for one.\<close>

lemma relation_value:
  assumes kw: "kw_ok (e_names E) (e_keywords E)" and e: "signs_ok e" "\<forall>x\<in>names_of e. plain_name E x" "nested e \<le> d"
    and sp: "spelled E (lexemes 0 e) p = Some q" and t: "lexes E q t np" "t \<notin> set operator_tokens"
    and st: "stands E p m ctx" and v: "eval E e m = Some (v, m')"
  obtains ctx' where "up_relation_expr E (Suc d) ctx = Some (v, ctx')" "stands E q m' ctx'" "b_token ctx' = t"
proof -
  have "parses E d 0 e" using parses_all [OF kw e(1,2)] e(3) by (simp add: nesting_def)
  moreover have "t \<notin> tighter 0" using t(2) by (auto simp: tighter_def operator_tokens_def)
  ultimately obtain ctx' where c: "stands E q m' ctx'" "b_token ctx' = t"
    "parse E 0 (up_relation_expr E d) ctx = loop E 0 (up_relation_expr E d) v ctx'"
    using parsesD [OF _ sp t(1) _ st v] by blast
  then have "up_relation_expr E (Suc d) ctx = Some (v, ctx')"
    using t(2) loop_stop(3) [of ctx' E "up_relation_expr E d" v] by (simp add: level_simps operator_tokens_def)
  then show ?thesis using c that by blast
qed

lemma restore_same: "b_m ctx' = b_m ctx \<Longrightarrow> restore_ctx ctx ctx' = ctx"
  by (simp add: restore_ctx_def)

text \<open>A comparison as a term: a bracket in front of it is tried and put back.\<close>

lemma cmp_value:
  assumes kw: "kw_ok (e_names E) (e_keywords E)" and shape: "term_shape E d (Cmp n e)" and single: "term_single (Cmp n e)"
    and sp: "spelled E (term_lexemes E (Cmp n e)) p = Some q" and t: "lexes E q t np" "t \<notin> set operator_tokens"
    and st: "stands E p m ctx" and v: "eval_term E (Cmp n e) m = Some (x, m')"
  shows "\<exists>ctx'. parse_bool_term E cond (up_relation_expr E (Suc d)) ctx = Some (x, ctx') \<and> stands E q m' ctx'
    \<and> b_token ctx' = t"
proof -
  have e: "signs_ok e" "\<forall>x\<in>names_of e. plain_name E x" "nested e \<le> d"
    and nodouble: "take 2 (lexemes 0 e) \<noteq> [LSym 0x28, LSym 0x28]" using shape single by simp_all
  obtain w where w: "eval E e m = Some (w, m')" "x = negated n (truth_value E w)"
    using v by (auto simp: bind_eq_Some_conv)
  have no_not: "b_token c \<noteq> NOT_TOKEN" if "spelled E (lexemes 0 e) y = Some q" "stands E y m c" for y c
    using token_of_lexemes(1) [OF kw e(1), of 0 "[]" y q m c] that by auto
  have "\<exists>y ctx'. not_loop E False ctx = Some (False \<noteq> odd n, ctx')
      \<and> spelled E (lexemes 0 e) y = Some q \<and> stands E y m ctx'"
  proof (rule not_loop_nots [OF kw t(1) _ _ st])
    show "spelled E (replicate n (key E NOT_TOKEN) @ lexemes 0 e) p = Some q"
      using sp by (simp add: nots_def)
  qed (rule no_not)
  then obtain y ctx1 where c1: "not_loop E False ctx = Some (odd n, ctx1)"
    "spelled E (lexemes 0 e) y = Some q" "stands E y m ctx1" by auto
  obtain ctx2 where c2: "up_relation_expr E (Suc d) ctx1 = Some (w, ctx2)" "stands E q m' ctx2" "b_token ctx2 = t"
    using relation_value [OF kw e c1(2) t c1(3) w(1)] by blast
  have rel: "bool_relation E (up_relation_expr E (Suc d)) ctx1 = Some (truth_value E w, ctx2)"
    using c2(1) by (simp add: bool_relation_def del: up_relation_expr.simps)
  show ?thesis
  proof (cases "b_token ctx1 = OPENBRACKET")
    case False
    then show ?thesis using c1(1) rel c2(2,3) w(2)
      by (simp add: parse_bool_term_def negated_def del: up_relation_expr.simps)
  next
    case True
    obtain l ls where l: "lexemes 0 e = l # ls" using first_of_lexemes [OF e(1)] by blast
    then have sp1: "spelled E (l # ls) y = Some q" using c1(2) by simp
    obtain ctx3 y3 where c3: "accept_token E (ltok l) ctx1 = Some (True, ctx3)" "b_token ctx1 = ltok l"
      "spelled E ls y3 = Some q" "stands E y3 m ctx3"
      using consume [OF kw sp1 t(1) c1(3)] by blast
    obtain l2 ls2 where l2: "ls = l2 # ls2" "ltok l2 \<noteq> OPENBRACKET"
      using second_lexeme [OF e(1) l] True c3(2) nodouble by metis
    obtain n where "lexes E y3 (ltok l2) (Some n)" using spelled_lexes [OF kw, of l2 ls2 y3 q] c3(3) l2(1) by blast
    then have "b_token ctx3 \<noteq> OPENBRACKET" using standsD(3) [OF c3(4)] l2(2) by simp
    moreover have "restore_ctx ctx1 ctx3 = ctx1" using c1(3) c3(4) by (intro restore_same) (simp add: stands_def)
    ultimately show ?thesis using c1(1) rel c2(2,3) w(2) True c3(1,2)
      by (simp add: parse_bool_term_def negated_def Let_def del: up_relation_expr.simps)
  qed
qed

section \<open>Whole conditions\<close>

definition stop_tokens :: "token list" where
  "stop_tokens = AND_TOKEN # OR_TOKEN # operator_tokens"

lemma cond_loop_stop: "b_token ctx \<notin> {AND_TOKEN, OR_TOKEN} \<Longrightarrow> cond_loop E cond rel acc ctx = Some (acc \<noteq> 0, ctx)"
  by (subst cond_loop.simps) simp

text \<open>A term ends at a connective or where the condition ends.\<close>

lemma rest_token:
  assumes kw: "kw_ok (e_names E) (e_keywords E)" and t: "lexes E q t np" "t \<notin> set stop_tokens"
    and sp: "spelled E (rest_lexemes E cs) p = Some q"
  obtains t2 np2 where "lexes E p t2 np2" "t2 \<notin> set operator_tokens"
proof (cases cs)
  case Done
  then show ?thesis using that [of t np] t sp by (simp add: stop_tokens_def)
next
  case (More k b cs')
  then obtain n where "lexes E p (conn_tok k) (Some n)"
    using spelled_lexes [OF kw, of "key E (conn_tok k)" _ p q] sp
    by (auto simp: key_def simp del: spelled.simps)
  then show ?thesis using that by (cases k) (auto simp: operator_tokens_def)
qed

text \<open>What the three functions do on a term, on a condition and on the rest of a condition.\<close>

definition term_parses :: "'r env \<Rightarrow> bool_term \<Rightarrow> bool" where
  "term_parses E b = (\<forall>d p q t np m ctx x m'. term_shape E d b \<longrightarrow> term_single b \<longrightarrow>
     spelled E (term_lexemes E b) p = Some q \<longrightarrow> lexes E q t np \<longrightarrow> t \<notin> set operator_tokens \<longrightarrow> stands E p m ctx \<longrightarrow>
     eval_term E b m = Some (x, m') \<longrightarrow>
     (\<exists>ctx'. parse_bool_term E (up_conditional E d) (up_relation_expr E (Suc d)) ctx = Some (x, ctx')
        \<and> stands E q m' ctx' \<and> b_token ctx' = t))"

definition cond_parses :: "'r env \<Rightarrow> condition \<Rightarrow> bool" where
  "cond_parses E c = (\<forall>d p q t np m ctx r m'. cond_shape E d c \<longrightarrow> single_brackets c \<longrightarrow>
     spelled E (cond_lexemes E c) p = Some q \<longrightarrow> lexes E q t np \<longrightarrow> t \<notin> set stop_tokens \<longrightarrow> stands E p m ctx \<longrightarrow>
     eval_cond E c m = Some (r, m') \<longrightarrow>
     (\<exists>ctx'. up_conditional E (Suc d) ctx = Some (r, ctx') \<and> stands E q m' ctx' \<and> b_token ctx' = t))"

definition rest_parses :: "'r env \<Rightarrow> cond_rest \<Rightarrow> bool" where
  "rest_parses E cs = (\<forall>d p q t np m ctx acc r m'. rest_shape E d cs \<longrightarrow> rest_single cs \<longrightarrow>
     spelled E (rest_lexemes E cs) p = Some q \<longrightarrow> lexes E q t np \<longrightarrow> t \<notin> set stop_tokens \<longrightarrow> stands E p m ctx \<longrightarrow>
     eval_rest E cs acc m = Some (r, m') \<longrightarrow>
     (\<exists>ctx'. cond_loop E (up_conditional E d) (up_relation_expr E (Suc d)) acc ctx = Some (r, ctx')
        \<and> stands E q m' ctx' \<and> b_token ctx' = t))"

lemma term_nonempty: "term_shape E d b \<Longrightarrow> term_lexemes E b \<noteq> []"
  using first_of_lexemes [where L = 0] by (cases b) fastforce+

text \<open>A condition in brackets: whatever token follows.\<close>

lemma group_value:
  assumes kw: "kw_ok (e_names E) (e_keywords E)" and inner: "cond_parses E c"
    and shape: "term_shape E (Suc d) (Group n c)" and single: "single_brackets c"
    and sp: "spelled E (term_lexemes E (Group n c)) p = Some q" and t: "lexes E q t np"
    and st: "stands E p m ctx" and v: "eval_term E (Group n c) m = Some (x, m')"
  shows "\<exists>ctx'. parse_bool_term E (up_conditional E (Suc d)) rel ctx = Some (x, ctx') \<and> stands E q m' ctx'
    \<and> b_token ctx' = t"
proof -
  let ?cond = "up_conditional E (Suc d)" and ?ls = "LSym 0x28 # cond_lexemes E c @ [LSym 0x29]"
  have br: "ltok (LSym 0x28) = OPENBRACKET" "ltok (LSym 0x29) = CLOSEBRACKET" by (simp_all add: singlechar_def)
  obtain r where r: "eval_cond E c m = Some (r, m')" "x = negated n (if r then 1 else 0)"
    using v by (auto simp: bind_eq_Some_conv)
  have no_not: "b_token c' \<noteq> NOT_TOKEN" if "spelled E ?ls y = Some q" "stands E y m c'" for y c'
    using consume [OF kw that(1) t that(2)] br by (metis less_numeral_extra(3) numeral_eq_iff semiring_norm(88,89))
  have "\<exists>y ctx'. not_loop E False ctx = Some (False \<noteq> odd n, ctx') \<and> spelled E ?ls y = Some q \<and> stands E y m ctx'"
  proof (rule not_loop_nots [OF kw t(1) _ _ st])
    show "spelled E (replicate n (key E NOT_TOKEN) @ ?ls) p = Some q" using sp by (simp add: nots_def)
  qed (rule no_not)
  then obtain y ctx0 where c0: "not_loop E False ctx = Some (odd n, ctx0)" "spelled E ?ls y = Some q" "stands E y m ctx0"
    by auto
  obtain ctx1 p1 where c1: "accept_token E OPENBRACKET ctx0 = Some (True, ctx1)" "b_token ctx0 = OPENBRACKET"
    "spelled E (cond_lexemes E c @ [LSym 0x29]) p1 = Some q" "stands E p1 m ctx1"
    using consume [OF kw c0(2) t c0(3)] br by metis
  have ch: "hd (cond_lexemes E c) = LSym 0x28" "cond_shape E d c" using shape by simp_all
  obtain b cs where "c = Cond b cs" by (cases c)
  then have "cond_lexemes E c \<noteq> []" using term_nonempty [of E d b] ch(2) by simp
  then obtain ls where ls: "cond_lexemes E c = LSym 0x28 # ls" using ch(1) by (cases "cond_lexemes E c") auto
  obtain k where "lexes E p1 OPENBRACKET (Some k)"
    using spelled_lexes [OF kw, of "LSym 0x28" "ls @ [LSym 0x29]" p1 q] c1(3) ls br by auto
  then have tok1: "b_token ctx1 = OPENBRACKET" using standsD(3) [OF c1(4)] by blast
  obtain p2 where p2: "spelled E (cond_lexemes E c) p1 = Some p2" "spelled E [LSym 0x29] p2 = Some q"
    using c1(3) unfolding spelled_append by (auto simp: bind_eq_Some_conv simp del: spelled.simps)
  obtain n2 where n2: "lexes E p2 CLOSEBRACKET (Some n2)" using spelled_lexes [OF kw p2(2)] br by metis
  have "CLOSEBRACKET \<notin> set stop_tokens" by (simp add: stop_tokens_def operator_tokens_def)
  then obtain ctx2 where c2: "?cond ctx1 = Some (r, ctx2)" "stands E p2 m' ctx2"
    using inner ch(2) single p2(1) n2 c1(4) r(1) unfolding cond_parses_def by blast
  obtain ctx3 where c3: "accept_token E CLOSEBRACKET ctx2 = Some (True, ctx3)" "stands E q m' ctx3"
    using consume [OF kw p2(2) t c2(2)] br by (metis option.inject spelled.simps(1))
  have "b_token ctx3 = t" using standsD(3) [OF c3(2) t] .
  moreover have "parse_bool_term E ?cond rel ctx = Some (x, ctx3)"
    using c0(1) c1(1,2) tok1 c2(1) c3(1) r(2)
    by (simp add: parse_bool_term_def negated_def Let_def del: up_conditional.simps)
  ultimately show ?thesis using c3(2) by blast
qed

lemma rest_step:
  assumes kw: "kw_ok (e_names E) (e_keywords E)" and b: "term_parses E b" and cs: "rest_parses E cs"
  shows "rest_parses E (More k b cs)"
  unfolding rest_parses_def
proof (intro allI impI)
  fix d p q t np m ctx acc r m'
  let ?rel = "up_relation_expr E (Suc d)" and ?cond = "up_conditional E d" and ?k = "conn_tok k"
  assume shape: "rest_shape E d (More k b cs)" and single: "rest_single (More k b cs)"
    and sp: "spelled E (rest_lexemes E (More k b cs)) p = Some q"
    and t: "lexes E q t np" "t \<notin> set stop_tokens" and st: "stands E p m ctx"
    and v: "eval_rest E (More k b cs) acc m = Some (r, m')"
  obtain x m1 where x: "eval_term E b m = Some (x, m1)" "eval_rest E cs (connect k acc x) m1 = Some (r, m')"
    using v by (auto simp: bind_eq_Some_conv)
  have sp: "spelled E (key E ?k # term_lexemes E b @ rest_lexemes E cs) p = Some q" using sp by simp
  obtain ctx1 p1 where c1: "tokenizer_next E ctx = Some ctx1" "b_token ctx = ltok (key E ?k)"
    "spelled E (term_lexemes E b @ rest_lexemes E cs) p1 = Some q" "stands E p1 m ctx1"
    using consume [OF kw sp t(1) st] by blast
  obtain p2 where p2: "spelled E (term_lexemes E b) p1 = Some p2" "spelled E (rest_lexemes E cs) p2 = Some q"
    using c1(3) unfolding spelled_append by (auto simp: bind_eq_Some_conv)
  obtain t2 np2 where t2: "lexes E p2 t2 np2" "t2 \<notin> set operator_tokens" using rest_token [OF kw t p2(2)] by blast
  obtain ctx2 where c2: "parse_bool_term E ?cond ?rel ctx1 = Some (x, ctx2)" "stands E p2 m1 ctx2"
    using b shape single p2(1) t2 c1(4) x(1) unfolding term_parses_def by (fastforce simp del: up_relation_expr.simps)
  have "cond_loop E ?cond ?rel acc ctx = cond_loop E ?cond ?rel (connect k acc x) ctx2"
    using c1(1,2) c2(1) by (subst cond_loop.simps, cases k) (simp_all add: key_def del: up_relation_expr.simps)
  moreover have "\<exists>ctx'. cond_loop E ?cond ?rel (connect k acc x) ctx2 = Some (r, ctx')
      \<and> stands E q m' ctx' \<and> b_token ctx' = t"
    using cs shape single p2(2) t c2(2) x(2) unfolding rest_parses_def
    by (simp del: up_relation_expr.simps up_conditional.simps) blast
  ultimately show "\<exists>ctx'. cond_loop E ?cond ?rel acc ctx = Some (r, ctx') \<and> stands E q m' ctx' \<and> b_token ctx' = t"
    by simp
qed

lemma cond_step:
  assumes kw: "kw_ok (e_names E) (e_keywords E)" and b: "term_parses E b" and cs: "rest_parses E cs"
  shows "cond_parses E (Cond b cs)"
  unfolding cond_parses_def
proof (intro allI impI)
  fix d p q t np m ctx r m'
  let ?rel = "up_relation_expr E (Suc d)" and ?cond = "up_conditional E d"
  assume shape: "cond_shape E d (Cond b cs)" and single: "single_brackets (Cond b cs)"
    and sp: "spelled E (cond_lexemes E (Cond b cs)) p = Some q"
    and t: "lexes E q t np" "t \<notin> set stop_tokens" and st: "stands E p m ctx"
    and v: "eval_cond E (Cond b cs) m = Some (r, m')"
  obtain x m1 where x: "eval_term E b m = Some (x, m1)" "eval_rest E cs x m1 = Some (r, m')"
    using v by (auto simp: bind_eq_Some_conv)
  obtain p1 where p1: "spelled E (term_lexemes E b) p = Some p1" "spelled E (rest_lexemes E cs) p1 = Some q"
    using sp unfolding cond_lexemes.simps spelled_append by (auto simp: bind_eq_Some_conv)
  obtain t2 np2 where t2: "lexes E p1 t2 np2" "t2 \<notin> set operator_tokens" using rest_token [OF kw t p1(2)] by blast
  obtain ctx1 where c1: "parse_bool_term E ?cond ?rel ctx = Some (x, ctx1)" "stands E p1 m1 ctx1"
    using b shape single p1(1) t2 st x(1) unfolding term_parses_def by (fastforce simp del: up_relation_expr.simps)
  obtain ctx2 where c2: "cond_loop E ?cond ?rel x ctx1 = Some (r, ctx2)" "stands E q m' ctx2" "b_token ctx2 = t"
    using cs shape single p1(2) t c1(2) x(2) unfolding rest_parses_def
    by (simp del: up_relation_expr.simps up_conditional.simps) blast
  have "up_conditional E (Suc d) ctx = Some (r, ctx2)"
    using c1(1) c2(1) by (simp del: up_relation_expr.simps)
  then show "\<exists>ctx'. up_conditional E (Suc d) ctx = Some (r, ctx') \<and> stands E q m' ctx' \<and> b_token ctx' = t"
    using c2(2,3) by blast
qed

lemma conditions_parse:
  assumes kw: "kw_ok (e_names E) (e_keywords E)"
  shows "term_parses E b" "cond_parses E c" "rest_parses E cs"
proof (induction b and c and cs)
  case (Cmp n e)
  then show ?case using cmp_value [OF kw] unfolding term_parses_def by blast
next
  case (Group n c)
  show ?case
    unfolding term_parses_def
  proof (intro allI impI)
    fix d p q t np m ctx x m'
    assume h: "term_shape E d (Group n c)" "term_single (Group n c)" "spelled E (term_lexemes E (Group n c)) p = Some q"
      "lexes E q t np" "stands E p m ctx" "eval_term E (Group n c) m = Some (x, m')"
    then obtain d' where d: "d = Suc d'" by (cases d) auto
    show "\<exists>ctx'. parse_bool_term E (up_conditional E d) (up_relation_expr E (Suc d)) ctx = Some (x, ctx')
        \<and> stands E q m' ctx' \<and> b_token ctx' = t"
      using group_value [OF kw Group.IH h(1) [unfolded d] _ h(3-6)] h(2) unfolding d by simp
  qed
next
  case (Cond b cs)
  then show ?case by (rule cond_step [OF kw])
next
  case Done
  show ?case
    unfolding rest_parses_def
  proof (intro allI impI)
    fix d p q t np m ctx acc r m'
    assume h: "spelled E (rest_lexemes E Done) p = Some q" "lexes E q t np" "t \<notin> set stop_tokens" "stands E p m ctx"
      "eval_rest E Done acc m = Some (r, m')"
    have "stands E q m ctx" using h(1,4) by simp
    then show "\<exists>ctx'. cond_loop E (up_conditional E d) (up_relation_expr E (Suc d)) acc ctx = Some (r, ctx')
        \<and> stands E q m' ctx' \<and> b_token ctx' = t"
      using standsD(3) [OF _ h(2)] h(3,5) cond_loop_stop [of ctx] by (auto simp: stop_tokens_def)
  qed
next
  case (More k b cs)
  then show ?case by (rule rest_step [OF kw])
qed

text \<open>C8: a condition of comparisons, conditions in brackets, \<^verbatim>\<open>NOT\<close>, \<^verbatim>\<open>AND\<close> and \<^verbatim>\<open>OR\<close> returns its truth value: \<^verbatim>\<open>NOT\<close>
  binds tightest, \<^verbatim>\<open>AND\<close> and \<^verbatim>\<open>OR\<close> work from left to right without precedence between them (not as
  \<^verbatim>\<open>include/basic/unified_expression.h\<close> has it), and every operand is evaluated.  A condition in brackets begins
  with a bracket itself, and no comparison begins with two brackets: those the code gets wrong, see the next
  property.\<close>

theorem up_conditional_correct:
  assumes "kw_ok (e_names E) (e_keywords E)" "cond_shape E d c" "single_brackets c"
    and "spelled E (cond_lexemes E c) p = Some q"
    and "end_token E q = Some t" "t \<notin> set stop_tokens" "stands E p m ctx" "eval_cond E c m = Some (r, m')"
  shows "\<exists>ctx'. up_conditional E (Suc d) ctx = Some (r, ctx') \<and> stands E q m' ctx' \<and> b_token ctx' = t"
  using lexes_end [OF assms(1,5)] conditions_parse(2) [OF assms(1), of c] assms(2-4,6-8)
  unfolding cond_parses_def by blast

text \<open>C37: a condition that begins with two brackets ends where the outer one is closed: whatever follows, even
  a comparison operator, is left to the caller, who expects \<^verbatim>\<open>THEN\<close>.\<close>

theorem double_bracket_ends_condition:
  assumes "kw_ok (e_names E) (e_keywords E)" "condition_ok E d c" "hd (cond_lexemes E c) = LSym 0x28"
    and "spelled E (LSym 0x28 # cond_lexemes E c @ [LSym 0x29]) p = Some q"
    and "lexes E q t np" "t \<notin> {AND_TOKEN, OR_TOKEN}" "stands E p m ctx" "eval_cond E c m = Some (r, m')"
  shows "\<exists>ctx'. up_conditional E (Suc (Suc d)) ctx = Some (r, ctx') \<and> stands E q m' ctx' \<and> b_token ctx' = t"
proof -
  let ?cond = "up_conditional E (Suc d)" and ?rel = "up_relation_expr E (Suc (Suc d))"
  have ok: "cond_shape E d c" "single_brackets c" using assms(2) by (simp_all add: condition_ok_def)
  obtain ctx3 where c: "parse_bool_term E ?cond ?rel ctx = Some (if r then 1 else 0, ctx3)" "stands E q m' ctx3"
    "b_token ctx3 = t"
  proof -
    have g: "term_shape E (Suc d) (Group 0 c)" "spelled E (term_lexemes E (Group 0 c)) p = Some q"
      "eval_term E (Group 0 c) m = Some (if r then 1 else 0, m')"
      using assms(3,4,8) ok(1) by (simp_all add: nots_def negated_def)
    show ?thesis
      using group_value [OF assms(1) conditions_parse(2) [OF assms(1)] g(1) ok(2) g(2) assms(5,7) g(3)] that by blast
  qed
  have "cond_loop E ?cond ?rel (if r then 1 else 0) ctx3 = Some (r, ctx3)"
    using cond_loop_stop [of ctx3 E ?cond ?rel] c(3) assms(6) by simp
  then have "up_conditional E (Suc (Suc d)) ctx = Some (r, ctx3)"
    using c(1) by (subst up_conditional.simps) (simp del: up_relation_expr.simps up_conditional.simps)
  then show ?thesis using c(2,3) by blast
qed

end
