(* ===== verification/BasicDemo.thy ===== *)
theory BasicDemo
  imports Complex_Main BasicCond
begin

text \<open>
  A concrete environment, with the rational numbers in place of the reals, and expressions on which the theorems on
  the evaluator apply.
\<close>

section \<open>An environment\<close>

definition demo_fp :: "rat fp" where
  "demo_fp = \<lparr>fp_add = (+), fp_sub = (-), fp_mul = (*), fp_div = (/), fp_neg = uminus, fp_lt = (<), fp_le = (\<le>),
     fp_eq = (=), fp_zero = 0, fp_of_int = (\<lambda>i. of_int (sint i)),
     fp_to_int = (\<lambda>r. word_of_int (if r < 0 then - \<lfloor>- r\<rfloor> else \<lfloor>r\<rfloor>)), fp_tenth = 1 / 10\<rparr>"

definition demo_env :: "rat env" where
  "demo_env = \<lparr>e_fp = demo_fp, e_names = demo_names, e_keywords = demo_keywords, e_real_fn = (\<lambda>_. False),
     e_int_call = (\<lambda>_ _. None), e_real_call = (\<lambda>_ _. None), e_str_call = (\<lambda>_ _. None)\<rparr>"

definition demo_machine :: "rat machine" where
  "demo_machine = \<lparr>m_area = \<lparr>sa_storage = replicate 16 0, sa_size = 16, sa_next = 1, sa_errored = False, sa_ended = False\<rparr>,
     m_int = [bs ''A'' \<mapsto> 5, bs ''B'' \<mapsto> 7], m_real = Map.empty, m_str = Map.empty, m_frames = [], m_line = 10,
     m_log = [], m_ended = False, m_errored = False\<rparr>"

definition demo_ctx :: "byte list \<Rightarrow> rat basic_ctx" where
  "demo_ctx p = tokenizer_init demo_env p \<lparr>b_ptr = [], b_nextptr = None, b_token = NO_TOKEN, b_m = demo_machine\<rparr>"

lemma demo_env_simps [simp]:
  "e_fp demo_env = demo_fp" "e_names demo_env = demo_names" "e_keywords demo_env = demo_keywords"
  "plain_name demo_env x"
  by (simp_all add: demo_env_def plain_name_def)

lemma demo_kw: "kw_ok (e_names demo_env) (e_keywords demo_env)"
  unfolding demo_env_simps by code_simp

lemma demo_stands:
  assumes "spelled demo_env ls p = Some q" "ls \<noteq> []"
  shows "stands demo_env p demo_machine (demo_ctx p)"
proof -
  obtain n where "lexes demo_env p (ltok (hd ls)) (Some n)"
    using spelled_lexes [OF demo_kw, of "hd ls" "tl ls" p q] assms by auto
  then show ?thesis
    using stands_read [of demo_env p _ _ "\<lparr>b_ptr = p, b_nextptr = None, b_token = NO_TOKEN, b_m = demo_machine\<rparr>"]
    by (simp add: demo_ctx_def tokenizer_init_def)
qed

section \<open>Expressions\<close>

text \<open>\<^verbatim>\<open>A * ( B - 2 ) + 3\<close>, where \<^verbatim>\<open>A\<close> is 5 and \<^verbatim>\<open>B\<close> is 7; a comparison with all forms of constants; and an
  expression with a variable that does not exist and a division by zero.\<close>

definition demo_sum :: exp where
  "demo_sum = AddE Add (MulE Mul (Var (bs ''A'')) (AddE Sub (Var (bs ''B'')) (Num (bs ''2'')))) (Num (bs ''3''))"

definition demo_rel :: exp where
  "demo_rel = RelE Gt (AddE Add (MulE Mul (RelE Eq (StrConst (bs ''AB'')) (StrConst (bs ''AB''))) (HexNum (bs ''1F'')))
     (RealNum (bs ''0'') (bs ''5''))) (Var (bs ''A''))"

definition demo_faulty :: exp where
  "demo_faulty = AddE Add (Var (bs ''C'')) (MulE Div (Var (bs ''A'')) (AddE Sub (Var (bs ''B'')) (Num (bs ''7''))))"

text \<open>A text between quotes.\<close>

definition dq :: "string \<Rightarrow> byte list" where
  "dq s = 0x22 # bs s @ [0x22]"

definition demo_text :: "byte list" where
  "demo_text = bs ''('' @ dq ''AB'' @ bs '' ='' @ dq ''AB'' @ bs '')* &1F + 0.5 > A''"

definition eol :: "byte list" where
  "eol = [10]"

lemma demo_spelled:
  "spelled demo_env (lexemes 1 demo_sum) (bs ''A * (B - 2)+ 3'' @ eol) = Some eol"
  "spelled demo_env (lexemes 0 demo_rel) (demo_text @ eol) = Some eol"
  "spelled demo_env (lexemes 0 demo_faulty) (bs ''C+A/(B - 7)'' @ eol) = Some eol"
  by code_simp+

lemma demo_end: "end_token demo_env eol = Some NEWLINE"
  by code_simp

lemma demo_values [simp]:
  "var_value demo_env demo_machine (bs ''A'') = Some (UP_INT 5)"
  "var_value demo_env demo_machine (bs ''B'') = Some (UP_INT 7)"
  "var_value demo_env demo_machine (bs ''C'') = None"
  by (simp_all add: var_value_def demo_machine_def find_var_def bs_def)

lemma demo_numbers [simp]:
  "dec (bs ''2'') = 2" "dec (bs ''3'') = 3" "dec (bs ''7'') = 7" "dec (bs ''4'') = 4" "hex (bs ''1F'') = 31"
  by code_simp+

lemma demo_real [simp]: "real_number demo_fp (bs ''0'') (bs ''5'') = 1 / 2"
  by (simp add: real_number_def add_digit_def pow10i_def pow10_loop.simps demo_fp_def bs_def)

definition demo_after :: "rat machine" where
  "demo_after = demo_machine\<lparr>m_area := put_string (put_string (m_area demo_machine) (bs ''AB'')) (bs ''AB'')\<rparr>"

lemma demo_fits:
  "string_fits (m_area demo_machine) (bs ''AB'')" "string_fits (put_string (m_area demo_machine) (bs ''AB'')) (bs ''AB'')"
  by code_simp+

lemma demo_eval: "eval demo_env demo_rel demo_machine = Some (UP_INT 1, demo_after)"
proof -
  have "var_value demo_env demo_after (bs ''A'') = Some (UP_INT 5)"
    by (simp add: var_value_def demo_after_def demo_machine_def find_var_def bs_def)
  then have a: "read_var demo_env demo_after (bs ''A'') = (UP_INT 5, demo_after)"
    by (simp add: read_var_def)
  have c: "strcmp (bs ''AB'') (bs ''AB'') = 0" by code_simp
  show ?thesis
    using demo_fits a [unfolded demo_after_def] c demo_real [unfolded demo_fp_def]
    by (simp add: demo_rel_def demo_after_def rel_op_def cmp_result_def up_promote_pair_def str_cmp_def term_op_def
        no_strings_def value_op_def demo_fp_def)
qed

text \<open>The two errors; only the first is printed.\<close>

definition demo_missing :: "rat machine" where
  "demo_missing = machine_error demo_machine (quoted ''No such integer variable '' (bs ''C''))"

lemma demo_missing_values [simp]:
  "var_value demo_env demo_missing (bs ''A'') = Some (UP_INT 5)"
  "var_value demo_env demo_missing (bs ''B'') = Some (UP_INT 7)"
  by (simp_all add: var_value_def demo_missing_def demo_machine_def find_var_def bs_def)

lemma demo_faulty_eval:
  "eval demo_env demo_faulty demo_machine = Some (UP_INT 0, machine_error demo_missing (bs ''Division by zero''))"
proof -
  have "last (bs ''C'') = 0x43" by (simp add: bs_def)
  moreover have "find_var l_int (m_frames demo_machine) (m_int demo_machine) (bs ''C'') = None"
    by (simp add: demo_machine_def find_var_def bs_def)
  ultimately have c: "read_var demo_env demo_machine (bs ''C'') = (UP_INT 0, demo_missing)"
    by (simp add: read_var_def read_int_def demo_missing_def)
  have ab: "read_var demo_env demo_missing (bs ''A'') = (UP_INT 5, demo_missing)"
    "read_var demo_env demo_missing (bs ''B'') = (UP_INT 7, demo_missing)"
    by (simp_all add: read_var_def)
  show ?thesis
    by (simp add: demo_faulty_def c ab term_op_def value_op_def no_strings_def up_promote_pair_def)
qed

lemma demo_exp_ok [simp]:
  "signs_ok demo_sum" "signs_ok demo_rel" "nesting 1 demo_sum \<le> 1" "nested demo_rel \<le> 1"
  "lexemes 1 demo_sum \<noteq> []" "lexemes 0 demo_rel \<noteq> []" "NEWLINE \<notin> set operator_tokens" "NEWLINE \<notin> set stop_tokens"
  "signs_ok demo_faulty" "nested demo_faulty \<le> 1" "lexemes 0 demo_faulty \<noteq> []"
  by code_simp+

lemma demo_plain: "\<forall>x\<in>names_of e. plain_name demo_env x"
  by simp

lemmas demo_at = demo_stands [OF demo_spelled(1) demo_exp_ok(5)] demo_stands [OF demo_spelled(2) demo_exp_ok(6)]
  demo_stands [OF demo_spelled(3) demo_exp_ok(11)]

theorem up_relation_expr_correct_witness:
  "\<exists>ctx'. up_relation_expr demo_env (Suc 1) (demo_ctx (demo_text @ eol)) = Some (UP_INT 1, ctx')
     \<and> stands demo_env eol demo_after ctx' \<and> b_token ctx' = NEWLINE"
  by (rule up_relation_expr_correct [OF demo_kw demo_exp_ok(2) demo_plain demo_exp_ok(4) demo_spelled(2) demo_end demo_exp_ok(7)
        demo_at(2) demo_eval])

theorem up_relation_expr_kinds_witness:
  "\<exists>ctx'. up_relation_expr demo_env (Suc 1) (demo_ctx (bs ''C+A/(B - 7)'' @ eol)) = Some (UP_INT 0, ctx')
     \<and> value_kind (UP_INT 0 :: rat up_value) = KInt
     \<and> (level demo_faulty = 0 \<longrightarrow> UP_INT 0 \<in> {UP_INT 0, UP_INT 1 :: rat up_value})
     \<and> only_errors (errors_of demo_env demo_machine demo_faulty) demo_machine (b_m ctx')"
proof (rule up_relation_expr_kinds [OF demo_kw demo_exp_ok(9) demo_plain demo_exp_ok(10) demo_spelled(3) demo_end demo_exp_ok(7)
        demo_at(3) demo_faulty_eval])
  show "kind_of demo_faulty = Some KInt" by code_simp
qed

theorem expr_integer_arithmetic_witness:
  "\<exists>ctx'. expr demo_env 1 (demo_ctx (bs ''A * (B - 2)+ 3'' @ eol)) = Some (word_of_int 28, ctx')
     \<and> stands demo_env eol demo_machine ctx' \<and> b_token ctx' = NEWLINE"
proof (rule expr_integer_arithmetic [OF demo_kw demo_exp_ok(1) demo_plain demo_exp_ok(3) demo_spelled(1) demo_end demo_exp_ok(7)
        demo_at(1)])
  let ?val = "\<lambda>x. if x = bs ''A'' then 5 else 7 :: int"
  have ne: "bs ''B'' \<noteq> bs ''A''" by code_simp
  show "\<forall>x\<in>names_of demo_sum. var_value demo_env demo_machine x = Some (UP_INT (word_of_int (?val x)))"
    using ne by (simp add: demo_sum_def)
  show "int_value ?val demo_sum = Some 28" using ne by (simp add: demo_sum_def)
qed

text \<open>A condition with another one in brackets, and one that begins with two brackets.\<close>

definition demo_group :: condition where
  "demo_group = Cond (Cmp 0 (RelE Gt (MulE Mul (AddE Add (Var (bs ''A'')) (Num (bs ''2''))) (Num (bs ''3''))) (Num (bs ''4''))))
     (More Or (Cmp 0 (RelE Eq (Var (bs ''B'')) (Num (bs ''2'')))) Done)"

definition demo_cond :: condition where
  "demo_cond = Cond (Cmp 1 (RelE Gt (Var (bs ''A'')) (Var (bs ''B'')))) (More And (Group 0 demo_group) Done)"

definition demo_double :: condition where
  "demo_double = Cond (Cmp 0 (MulE Mul (AddE Add (Var (bs ''A'')) (Num (bs ''2''))) (Num (bs ''3'')))) Done"

definition rest_text :: "byte list" where
  "rest_text = bs ''> 4'' @ eol"

definition cond_text :: "byte list" where
  "cond_text = bs ''NOT A > B AND ((A + 2) * 3 > 4 OR B = 2)''"

lemma demo_cond_spelled:
  "spelled demo_env (cond_lexemes demo_env demo_cond) (cond_text @ eol) = Some eol"
  "spelled demo_env (LSym 0x28 # cond_lexemes demo_env demo_double @ [LSym 0x29]) (bs ''((A + 2) * 3) '' @ rest_text) = Some rest_text"
  by code_simp+

lemma demo_cond_ok:
  "cond_shape demo_env 2 demo_cond" "single_brackets demo_cond" "condition_ok demo_env 1 demo_double"
  by (simp_all add: condition_ok_def demo_cond_def demo_group_def demo_double_def lexemes_def bracketed_def nots_def)

lemma demo_read [simp]:
  "read_var demo_env demo_machine (bs ''A'') = (UP_INT 5, demo_machine)"
  "read_var demo_env demo_machine (bs ''B'') = (UP_INT 7, demo_machine)"
  by (simp_all add: read_var_def)

lemma demo_cond_eval:
  "eval_cond demo_env demo_cond demo_machine = Some (True, demo_machine)"
  "eval_cond demo_env demo_double demo_machine = Some (True, demo_machine)"
  by (simp_all add: demo_cond_def demo_group_def demo_double_def int_ops rel_op_def cmp_result_def up_promote_pair_def
      truth_value_def negated_def)

theorem up_conditional_correct_witness:
  "\<exists>ctx'. up_conditional demo_env (Suc 2) (demo_ctx (cond_text @ eol)) = Some (True, ctx')
     \<and> stands demo_env eol demo_machine ctx' \<and> b_token ctx' = NEWLINE"
proof (rule up_conditional_correct [OF demo_kw demo_cond_ok(1,2) demo_cond_spelled(1) demo_end demo_exp_ok(8) _ demo_cond_eval(1)])
  show "stands demo_env (cond_text @ eol) demo_machine (demo_ctx (cond_text @ eol))"
    by (rule demo_stands [OF demo_cond_spelled(1)]) (simp add: demo_cond_def nots_def)
qed

theorem double_bracket_ends_condition_witness:
  "\<exists>ctx'. up_conditional demo_env (Suc (Suc 1)) (demo_ctx (bs ''((A + 2) * 3) '' @ rest_text)) = Some (True, ctx')
     \<and> stands demo_env rest_text demo_machine ctx' \<and> b_token ctx' = GREATERTHAN"
proof (rule double_bracket_ends_condition [OF demo_kw demo_cond_ok(3) _ demo_cond_spelled(2) _ _ _ demo_cond_eval(2)])
  show "hd (cond_lexemes demo_env demo_double) = LSym 0x28"
    by (simp add: nots_def demo_double_def lexemes_def bracketed_def)
  have "rest_text = 0x3e # bs '' 4'' @ eol" by (simp add: rest_text_def bs_def)
  then show "lexes demo_env rest_text GREATERTHAN (Some (bs '' 4'' @ eol))"
    using lexes_sym [of "0x3e" demo_env "bs '' 4'' @ eol"] by (simp add: singlechar_def isdigit_def)
  show "stands demo_env (bs ''((A + 2) * 3) '' @ rest_text) demo_machine (demo_ctx (bs ''((A + 2) * 3) '' @ rest_text))"
    by (rule demo_stands [OF demo_cond_spelled(2)]) simp
qed simp

section \<open>Limits\<close>

theorem division_truncates_witness:
  "\<exists>q r. term_op demo_env SLASH (UP_INT (- 7)) (UP_INT 2) demo_machine = Some (UP_INT q, demo_machine)
    \<and> term_op demo_env MOD_TOKEN (UP_INT (- 7)) (UP_INT 2) demo_machine = Some (UP_INT r, demo_machine)
    \<and> sint (- 7 :: 64 word) = sint q * sint (2 :: 64 word) + sint r \<and> \<bar>sint r\<bar> < \<bar>sint (2 :: 64 word)\<bar>
    \<and> (sint r = 0 \<or> sgn (sint r) = sgn (sint (- 7 :: 64 word)))"
  by (rule division_truncates) simp_all

definition long_name :: "byte list" where
  "long_name = replicate 50 0x61"

theorem long_name_overflows_witness:
  "get_next_token demo_env ((demo_ctx [])\<lparr>b_ptr := long_name @ eol\<rparr>) =
     (VARIABLE, (demo_ctx [])\<lparr>b_ptr := long_name @ eol\<rparr>\<lparr>b_nextptr := Some eol\<rparr>)
   \<and> tokenizer_variable_name ((demo_ctx [])\<lparr>b_ptr := long_name @ eol\<rparr>) = None"
proof (rule long_name_overflows [OF demo_kw])
  show "kw_search (e_names demo_env) (e_keywords demo_env) (long_name @ eol) = None"
    "list_all (\<lambda>c. isalnum c \<or> c = 0x5f) long_name" "isalpha (peek long_name)"
    "50 \<le> length long_name" "length long_name \<le> 60" "follow_ok (LVar long_name) eol" by code_simp+
qed simp

theorem unterminated_string_overruns_witness:
  "b_token (read_token demo_env ((demo_ctx [])\<lparr>b_ptr := 0x22 # bs ''abc''\<rparr>)) = STRING
   \<and> b_nextptr (read_token demo_env ((demo_ctx [])\<lparr>b_ptr := 0x22 # bs ''abc''\<rparr>)) = None
   \<and> m_str (b_m (read_token demo_env ((demo_ctx [])\<lparr>b_ptr := 0x22 # bs ''abc''\<rparr>))) (bs ''ERR$'')
      = Some (bs ''Unterminated string constant'', 28)
   \<and> tokenizer_next demo_env (read_token demo_env ((demo_ctx [])\<lparr>b_ptr := 0x22 # bs ''abc''\<rparr>)) = None"
  by (rule unterminated_string_overruns [of _ "bs ''abc''"]) (simp, code_simp)

end
