(* ===== verification/Spec2Isabelle.thy ===== *)
theory Spec2Isabelle
  imports Vector RfsBuild RfsFileProps BuddySpec MemFns StringSpec NumStr StringArea RbDemo BasicDemo
begin

text \<open>
  \<^bold>\<open>Retro Rocket\<close> is an operating system for 64-bit PCs whose user programs are written in BASIC.  This
  development verifies the parts of its kernel that keep data, the allocator of the BASIC processes, the
  containers, the storage path from the filesystem down to a block device, and the string and memory
  functions that everything uses, and the expressions of the BASIC interpreter.

  \<^bold>\<open>The parts and how they interact.\<close>
  A BASIC process allocates from a buddy allocator, which takes its regions from the kernel heap
  (\<^verbatim>\<open>src/buddy_allocator.c\<close>).  Files live on a RetroFS volume (\<^verbatim>\<open>src/fs/retrofs\<close>).  RetroFS reads and writes
  sectors with the storage layer (\<^verbatim>\<open>src/fs/filesystem.c\<close>), which looks into a sector cache
  (\<^verbatim>\<open>src/fs/block_cache.c\<close>) before it calls the driver; the driver modelled here is the RAM disk
  (\<^verbatim>\<open>src/block/ramdisk.c\<close>), which keeps its disks in a hash table (\<^verbatim>\<open>src/containers/hashmap.c\<close>).  The cache
  itself is a hash table with a queue.  The red-black tree (\<^verbatim>\<open>src/containers/map.c\<close>) keeps its nodes in six vectors.
  The BASIC interpreter reads a program as text: \<^verbatim>\<open>src/basic/tokenizer.c\<close> finds the next token, with a bucketed table
  of keywords, and \<^verbatim>\<open>src/basic/unified_expression.c\<close> evaluates expressions while it reads them, with variables from
  \<^verbatim>\<open>src/basic/variable.c\<close> and strings in the string area of the process.

  \<^bold>\<open>Theories and sources.\<close>
  \<^item> \<open>Prelude\<close>: 64-bit arithmetic modulo \<open>2 ^ 64\<close> on naturals, byte buffers, little-endian fields.
  \<^item> \<open>Vector\<close> (\<^verbatim>\<open>src/containers/vector.c\<close>): growth, insertion, removal; every sequence of operations
    behaves as on a list.
  \<^item> \<open>HashFns\<close>, \<open>Hashmap\<close>, \<open>HashmapTable\<close>, \<open>HashmapSpec\<close> (\<^verbatim>\<open>src/containers/hashmap.c\<close>): the hash functions, the Robin
    Hood table, its invariant and the map it stands for.
  \<^item> \<open>Buddy\<close>, \<open>BuddyTiling\<close>, \<open>BuddySpec\<close> (\<^verbatim>\<open>src/buddy_allocator.c\<close>): regions, free lists, block headers and payload
    memory; the blocks of a region tile it in every reachable state.
  \<^item> \<open>BlockCache\<close>, \<open>BlockCacheSpec\<close> (\<^verbatim>\<open>src/fs/block_cache.c\<close>): what the cache returns is what was written last.
  \<^item> \<open>BlockDevice\<close>: the locales for a block driver and for the storage layer over it; \<open>Ramdisk\<close>
    (\<^verbatim>\<open>src/block/ramdisk.c\<close>) and \<open>Storage\<close> (\<^verbatim>\<open>src/fs/filesystem.c\<close>) interpret them.
  \<^item> \<open>CString\<close>, \<open>StringFns\<close>, \<open>StringSpec\<close>, \<open>NumStr\<close>, \<open>StringArea\<close> (\<^verbatim>\<open>src/string.c\<close>): string functions, conversion of
    numbers, and the string area of a BASIC process.
  \<^item> \<open>MemFns\<close> (\<^verbatim>\<open>src/memcpy.c\<close>): copies, comparison, fill and reversal on a byte-addressed memory.
  \<^item> \<open>RfsBase\<close> (\<^verbatim>\<open>helpers.c\<close>, \<^verbatim>\<open>main.c\<close> and \<^verbatim>\<open>retrofs.h\<close> of \<^verbatim>\<open>src/fs/retrofs\<close>): the volume \<open>'d rfs\<close> over a device state
    \<open>'d\<close>, device access, bit sets.  \<open>RfsMap\<close> (\<^verbatim>\<open>fsmap.c\<close>): the free space map and its caches.  \<open>RfsDir\<close>
    (\<^verbatim>\<open>helpers.c\<close>, \<^verbatim>\<open>createfile.c\<close>, \<^verbatim>\<open>unlink.c\<close>, \<^verbatim>\<open>getdirectory.c\<close>): directories.  \<open>RfsFile\<close> (the other files of the
    directory): creating, reading, writing, moving, truncating and removing, and formatting.
  \<^item> \<open>RfsBits\<close>, \<open>RfsDisk\<close>, \<open>RfsMapSpec\<close>, \<open>RfsDemo\<close>, \<open>RfsBuild\<close>: the free space map.  The locale \<open>rfs_disk\<close> is a device that may
    fail, \<open>reliable_disk\<close> one that does not; both are interpreted on the storage layer over a RAM disk.
  \<^item> \<open>RfsBytes\<close>: the volume as an array of bytes.  \<open>RfsSlots\<close>, \<open>RfsDirSpec\<close>, \<open>RfsDirMap\<close>, \<open>RfsVolume\<close>: a directory as a map
    from names to entries.  \<open>RfsFileSpec\<close>, \<open>RfsFileProps\<close>: files.

  \<^item> \<open>RbMap\<close> (\<^verbatim>\<open>src/containers/map.c\<close>): the red-black tree, its iterators and bounds, on a store of nodes.  \<open>RbTree\<close>: trees
    with a zipper, and the repairs on them.  \<open>RbRep\<close>, \<open>RbInsert\<close>, \<open>RbErase\<close>: the store represents a tree, and the code's
    rotations and repairs are those of the tree.  \<open>RbSearch\<close>: the locale \<open>key_order\<close> for a comparison function, interpreted
    on \<^verbatim>\<open>map_cmp_u64\<close>.  \<open>RbMapSpec\<close>, \<open>RbMapOps\<close>, \<open>RbMapErase\<close>, \<open>RbIter\<close>, \<open>RbDemo\<close>: the map as an association list in the
    order of the keys, with a concrete map.
  \<^item> \<open>BasicToken\<close> (\<^verbatim>\<open>src/basic/tokenizer.c\<close>) and \<open>BasicKeyword\<close>: tokens, and the search of the keyword table.  \<open>BasicExpr\<close>
    (\<^verbatim>\<open>src/basic/unified_expression.c\<close>, \<^verbatim>\<open>variable.c\<close>): the evaluator.  \<open>BasicLex\<close>: lexemes and their spelling.
    \<open>BasicExprSpec\<close>: expressions as trees, their lexemes and values.  \<open>BasicProps\<close>, \<open>BasicCond\<close>, \<open>BasicDemo\<close>: values, kinds,
    conditions, limits, and a concrete program.

  \<^bold>\<open>State, failures and bounds.\<close>
  A C structure is a record; a function that changes state takes the state and returns it; \<^verbatim>\<open>NULL\<close>, \<^verbatim>\<open>false\<close> and
  error codes are \<open>None\<close>, \<open>False\<close> or an error in the state.  Whether a request for memory succeeds is an argument
  (an outcome per request).  The theorems on the allocator, the hash table, the vector and the tree hold for every
  pattern of refusals.  Others assume memory, and say so in their hypotheses: \<open>storage_refines_array\<close> that the sector
  cache is refused none (\<open>cache_memory_ok\<close>; \<open>storage_stale_after_oom\<close> shows what happens otherwise), and the theorems
  on reading, writing and creating files that the filesystem's own buffers and group caches are in memory
  (\<open>rfs_mem r = (\<lambda>_. True)\<close>).  The storage layer is a device for RetroFS only as long as its cache gets its memory.
  Devices are idealised: a request that fails leaves the sectors as they were.  Pointers are offsets or
  addresses.  \<^verbatim>\<open>uint64_t\<close> is a natural number with \<open>add64\<close>, \<open>sub64\<close> and \<open>mul64\<close> where the code adds, subtracts or multiplies,
  or a word where it works on bits.  Loops are recursive functions with a termination proof.  The search for the last
  block of a directory, \<^verbatim>\<open>while (true)\<close> in the source, has \<open>WALK_LIMIT + 2\<close> rounds: it follows a chain that has
  just been walked to its end within \<open>WALK_LIMIT + 1\<close> blocks, and \<open>last_block_ok\<close> shows that it returns.
  The loops of the tree and of the evaluator are partial functions with the result \<open>None\<close> for a loop that does not
  end or an access outside; the theorems show a result.  \<open>up_relation_expr E d\<close> reads brackets nested less than \<open>d\<close>
  deep, as many as the stack holds; every expression has such a \<open>d\<close>.  The operations of the floating-point unit are a parameter; \<^verbatim>\<open>atof\<close>, which
  reads the real constants, is modelled over them.  Sizes in the allocator are naturals, and its powers of two are
  exact where the code shifts a 64-bit one: they differ for sizes above \<open>2 ^ 63\<close>, which only a \<^verbatim>\<open>realloc\<close> to more than
  \<open>2 ^ 63 - 24\<close> bytes gets to.

  \<^bold>\<open>What the lemmas show.\<close>
  \<^item> Allocator: blocks tile their region, live blocks do not overlap, contents survive \<^verbatim>\<open>realloc\<close>, everything
    coalesces when all is freed, and a request that fits a region is served in every state when the kernel heap can
    give one more region.
  \<^item> Containers: the hash table refines a map, and the vector a list with a capacity, with exact return codes and
    values, out of memory included; calls of \<^verbatim>\<open>vector_pop\<close>, \<^verbatim>\<open>vector_get\<close> and \<^verbatim>\<open>vector_set\<close> out of range, which the code does not
    check, are left to the caller.
  \<^item> Storage: reads and writes through cache and driver behave as on an array of sectors while the cache gets its
    memory; after a refused request for memory it can return stale sectors.
  \<^item> RetroFS: the counters in memory mirror the bitmap on disk after every marking; a search finds free extents
    only, and finds one when a group has one; the directory operations refine lookup, update and removal
    on a map from folded names; reading and writing files are reading and updating an array of bytes; creating and
    removing a file touch the directory, the map and the extent of the file, and nothing else.
  \<^item> Strings: the copies stay inside their buffers, tokens, substrings and numbers are what they should be.
  \<^item> Red-black tree: every operation keeps the search tree, the colours and the parent links, and does to the
    list of entries what its name says; a search is logarithmic, an iteration meets every entry once.
  \<^item> BASIC: the lookup of keywords is that of a linear search; the evaluator returns, on any spelling of an expression
    or condition, its value, with the precedence of the code, and stops behind it.  Expressions have decimal, real and
    hexadecimal numbers, strings, variables, brackets and operators, but no calls; conditions have comparisons and
    conditions in brackets.
  \<^item> Some theorems state behaviour that is a defect: \<open>rfs_build_level_caches_wrong\<close>, \<open>rfs_group_suffix_overcounts\<close>,
    \<open>storage_stale_after_oom\<close>, \<open>itoa_most_negative\<close>, \<open>gc_try_concat_overrun\<close>, \<open>map_oom_insert_corrupts\<close>, \<open>division_traps\<close>, \<open>long_name_overflows\<close>,
    \<open>unterminated_string_overruns\<close> and \<open>double_bracket_ends_condition\<close>.

  \<^bold>\<open>Not modelled.\<close>
  The kernel heap and the other drivers are parameters of the model.  Of RetroFS the mounting of a volume is left out,
  because it searches the partition table; files of more than 4096 sectors are created in the model, but
  no theorem is about them, because the search for their extent may take sectors in use.  Of the tree, the
  comparison of string keys is left out.  Of the BASIC interpreter, builtin and user functions and arrays are parameters
  of the evaluator; statements, procedures, error handlers, \<^verbatim>\<open>EVAL\<close> and the interning of names are left out.  The VFS, the
  foreign filesystems, the network stack, the scheduler and the drivers for hardware are not part of this
  development; vendored libraries (TLS, compression, regular expressions, ACPI) are third-party code.
\<close>

end
